(* ===== verification/Kernel_Prelude.thy ===== *)
theory Kernel_Prelude
  imports Main "HOL-Library.Word" "HOL-Library.Monad_Syntax"
begin

text \<open>
  Shared types and generic lemmas of the development.  Machine integers are words of
  the width the C type has on the 64-bit targets of the kernel; a pointer is a 64-bit
  word and \<open>NULL\<close> is zero.  A C function that may dereference an invalid pointer, or
  may not return, has an \<open>option\<close> result, with \<^term>\<open>None\<close> for the run that
  faults or diverges.
\<close>

unbundle bit_operations_syntax

type_synonym u8 = "8 word"
type_synonym u16 = "16 word"
type_synonym u32 = "32 word"
type_synonym u64 = "64 word"
type_synonym ptr = "64 word"
type_synonym bytes = "u8 list"

abbreviation (input) NULL :: ptr where
  "NULL \<equiv> 0"

text \<open>
  \<open>fault_simps\<close> collects the equations that turn a non-faulting run of a model
  function into its final state; \<open>frame_intros\<close> collects the rules that carry a heap
  predicate over an update of memory it does not own.
\<close>

named_theorems fault_simps
named_theorems frame_intros

lemma bind_Some_iff [fault_simps]:
  "(Option.bind m f = Some y) = (\<exists>x. m = Some x \<and> f x = Some y)"
  by (cases m) auto

lemma bind_None_iff [fault_simps]:
  "(Option.bind m f = None) = (m = None \<or> (\<exists>x. m = Some x \<and> f x = None))"
  by (cases m) auto


section \<open>Lists\<close>

lemma hd_append_sep: "hd (xs @ [q]) = (if xs = [] then q else hd xs)"
  by (cases xs) auto

lemma last_Cons_sep: "last (p # xs) = (if xs = [] then p else last xs)"
  by simp

lemma distinct_append_Cons:
  "distinct (us @ n # vs) \<longleftrightarrow>
   distinct us \<and> distinct vs \<and> n \<notin> set us \<and> n \<notin> set vs \<and> set us \<inter> set vs = {}"
  by auto

lemma remove1_append_Cons: "n \<notin> set us \<Longrightarrow> remove1 n (us @ n # vs) = us @ vs"
  by (simp add: remove1_append)

lemma list_update_append_Cons: "(us @ x # vs)[length us := y] = us @ y # vs"
  by simp

lemma take_Suc_rotate:
  "i < length xs \<Longrightarrow> take (Suc n) (drop i xs) = xs ! i # take n (drop (Suc i) xs)"
  by (simp add: Cons_nth_drop_Suc [symmetric])


lemma in_concat_nth: "x \<in> set (concat xss) \<longleftrightarrow> (\<exists>i < length xss. x \<in> set (xss ! i))"
  by (auto simp: set_conv_nth [of xss])


section \<open>Words\<close>

text \<open>
  Distinct non-null addresses are fewer than \<open>2^64\<close>: a 64-bit length counter of a
  collection of distinct nodes cannot overflow.
\<close>

lemma distinct_ptrs_bound:
  fixes xs :: "ptr list"
  assumes "distinct xs" and "NULL \<notin> set xs"
  shows "length xs < 2 ^ 64"
proof -
  have "card (set xs) \<le> card (UNIV - {NULL} :: ptr set)"
    using assms(2) by (intro card_mono) auto
  also have "\<dots> = 2 ^ 64 - 1"
    by (simp add: card_word)
  finally show ?thesis
    using assms(1) by (simp add: distinct_card)
qed

lemma unat_of_nat_64: "n < 2 ^ 64 \<Longrightarrow> unat (of_nat n :: 64 word) = n"
  by (simp add: unat_of_nat take_bit_nat_eq_self)

lemma of_nat_64_eq_0_iff:
  assumes "n < 2 ^ 64"
  shows "(of_nat n :: 64 word) = 0 \<longleftrightarrow> n = 0"
proof
  assume "(of_nat n :: 64 word) = 0"
  then have "unat (of_nat n :: 64 word) = 0" by (simp only: unat_0)
  then show "n = 0" by (simp only: unat_of_nat_64 [OF assms])
qed simp

lemma unat_lt_64: "unat (w :: 64 word) < 2 ^ 64"
  using unsigned_less [of w, where ?'a = nat] by simp

lemma unat_add_64:
  "unat (v :: 64 word) + unat w < 2 ^ 64 \<Longrightarrow> unat (v + w) = unat v + unat w"
  by (rule unat_add_lem [THEN iffD1]) simp

lemma unat_succ_64: "Suc (unat (w :: 64 word)) < 2 ^ 64 \<Longrightarrow> unat (w + 1) = Suc (unat w)"
  by (simp add: unat_word_ariths)

lemma sint_of_nat_63: "n < 2 ^ 63 \<Longrightarrow> sint (of_nat n :: 64 word) = int n"
  by (simp add: signed_of_nat signed_take_bit_int_eq_self)

lemma unat_pred_64: "(w :: 64 word) \<noteq> 0 \<Longrightarrow> unat (w - 1) = unat w - 1"
  by (metis unat_minus_one)

lemma unat_sub_64: "(v :: 64 word) \<le> w \<Longrightarrow> unat (w - v) = unat w - unat v"
  by (rule unat_sub)

lemma unat_ucast_up:
  fixes x :: "'a::len word"
  assumes "LENGTH('a) \<le> LENGTH('b::len)"
  shows "unat (ucast x :: 'b word) = unat x"
proof -
  have "unat x < 2 ^ LENGTH('a)" by (rule unsigned_less)
  also have "\<dots> \<le> 2 ^ LENGTH('b)" using assms by (simp add: power_increasing)
  finally show ?thesis by (simp add: unsigned_ucast_eq take_bit_nat_eq_self)
qed

lemma unat_scast_32_64:
  fixes x :: "32 word"
  assumes "0 \<le> sint x"
  shows "unat (scast x :: 64 word) = nat (sint x)"
proof -
  have "sint x < 2 ^ 31" using sint_lt [of x] by simp
  then have "sint x < 2 ^ 64" by (rule less_le_trans) simp
  then have bound: "take_bit 64 (sint x) = sint x" using assms by (intro take_bit_int_eq_self)
  have "uint (scast x :: 64 word) = take_bit LENGTH(64) (sint x)"
    by (simp only: scast_eq uint_word_of_int_eq)
  also have "\<dots> = take_bit 64 (sint x)" by simp
  finally show ?thesis unfolding bound by (simp only: unat_eq_nat_uint)
qed

end
