(* ===== verification/Kernel_String.thy ===== *)
theory Kernel_String
  imports Kernel_Prelude
begin

text \<open>
  The string and memory functions of \<open>kernel/misc/string.c\<close> and \<open>kernel/misc/tokenize.c\<close>.

  The functions that read or write word by word work on a byte memory, a function from
  addresses to bytes; an address is a natural number, since C leaves pointer arithmetic that
  leaves the address space undefined.  The functions that scan for characters take a C string
  as the list of its bytes before the terminator and give positions in it; a pointer into a
  string is the rest of the list.
\<close>

section \<open>Bytes and words\<close>

type_synonym mem = "nat \<Rightarrow> u8"

definition ONES :: u64 where "ONES = 0x0101010101010101"
definition HIGHS :: u64 where "HIGHS = 0x8080808080808080"

definition HASZERO :: "u64 \<Rightarrow> u64" where
  "HASZERO x = (x - ONES) AND NOT x AND HIGHS"

text \<open>The word of the \<open>n\<close> bytes at an address, lowest first; \<open>*(size_t *)a\<close> has eight.\<close>

fun load :: "nat \<Rightarrow> mem \<Rightarrow> nat \<Rightarrow> u64" where
  "load 0 m a = 0"
| "load (Suc n) m a = ucast (m a) OR push_bit 8 (load n m (a + 1))"

abbreviation load64 :: "mem \<Rightarrow> nat \<Rightarrow> u64" where
  "load64 \<equiv> load 8"

text \<open>Reading \<open>k\<close> bytes at \<open>s\<close> and then storing them at \<open>d\<close>.\<close>

definition blit :: "nat \<Rightarrow> nat \<Rightarrow> nat \<Rightarrow> mem \<Rightarrow> mem" where
  "blit k d s m = (\<lambda>a. if d \<le> a \<and> a < d + k then m (s + (a - d)) else m a)"


section \<open>Copying and filling\<close>

function copy_while :: "nat \<Rightarrow> nat \<Rightarrow> nat \<Rightarrow> nat \<Rightarrow> mem \<Rightarrow> nat \<times> nat \<times> nat \<times> mem" where
  "copy_while k d s n m =
     (if 0 < k \<and> k \<le> n then copy_while k (d + k) (s + k) (n - k) (blit k d s m) else (d, s, n, m))"
  by auto
termination by (relation "measure (\<lambda>(k, d, s, n, m). n)") auto

declare copy_while.simps [simp del]

definition memcpy :: "nat \<Rightarrow> nat \<Rightarrow> nat \<Rightarrow> mem \<Rightarrow> mem" where
  "memcpy dest src n m =
     (let (d, s, n, m) = copy_while 8 dest src n m;
          (d, s, n, m) = copy_while 4 d s n m;
          (d, s, n, m) = copy_while 1 d s n m
      in m)"

fun memset_loop :: "nat \<Rightarrow> nat \<Rightarrow> u8 \<Rightarrow> nat \<Rightarrow> mem \<Rightarrow> mem" where
  "memset_loop dest i c 0 m = m"
| "memset_loop dest i c (Suc k) m = memset_loop dest (i + 1) c k (m(dest + i := c))"

definition memset :: "nat \<Rightarrow> 32 word \<Rightarrow> nat \<Rightarrow> mem \<Rightarrow> mem" where
  "memset dest c n m = memset_loop dest 0 (ucast c) n m"

text \<open>
  The four loops of \<open>memmove\<close>.  The aligning loops return early when nothing is left, which is
  the first component.
\<close>

function align_forward :: "nat \<Rightarrow> nat \<Rightarrow> nat \<Rightarrow> mem \<Rightarrow> bool \<times> nat \<times> nat \<times> nat \<times> mem" where
  "align_forward d s n m =
     (if d mod 8 \<noteq> 0 then
        if n = 0 then (True, d, s, n, m)
        else align_forward (d + 1) (s + 1) (n - 1) (m(d := m s))
      else (False, d, s, n, m))"
  by auto
termination by (relation "measure (\<lambda>(d, s, n, m). n)") auto

function align_backward :: "nat \<Rightarrow> nat \<Rightarrow> nat \<Rightarrow> mem \<Rightarrow> bool \<times> nat \<times> mem" where
  "align_backward d s n m =
     (if (d + n) mod 8 \<noteq> 0 then
        if n = 0 then (True, n, m)
        else align_backward d s (n - 1) (m(d + (n - 1) := m (s + (n - 1))))
      else (False, n, m))"
  by auto
termination by (relation "measure (\<lambda>(d, s, n, m). n)") auto

function copy_back :: "nat \<Rightarrow> nat \<Rightarrow> nat \<Rightarrow> nat \<Rightarrow> mem \<Rightarrow> nat \<times> mem" where
  "copy_back k d s n m =
     (if 0 < k \<and> k \<le> n then copy_back k d s (n - k) (blit k (d + (n - k)) (s + (n - k)) m) else (n, m))"
  by auto
termination by (relation "measure (\<lambda>(k, d, s, n, m). n)") auto

declare align_forward.simps [simp del] align_backward.simps [simp del] copy_back.simps [simp del]

definition memmove :: "nat \<Rightarrow> nat \<Rightarrow> nat \<Rightarrow> mem \<Rightarrow> mem" where
  "memmove dest src n m =
     (if dest = src then m
      else if src + n \<le> dest \<or> dest + n \<le> src then memcpy dest src n m
      else if dest < src then
        let (ret, d, s, n, m) =
              (if src mod 8 = dest mod 8 then
                 let (ret, d, s, n, m) = align_forward dest src n m
                 in if ret then (True, d, s, n, m)
                    else (let (d, s, n, m) = copy_while 8 d s n m in (False, d, s, n, m))
               else (False, dest, src, n, m))
        in if ret then m else (let (d, s, n, m) = copy_while 1 d s n m in m)
      else
        let (ret, n, m) =
              (if src mod 8 = dest mod 8 then
                 let (ret, n, m) = align_backward dest src n m
                 in if ret then (True, n, m)
                    else (let (n, m) = copy_back 8 dest src n m in (False, n, m))
               else (False, n, m))
        in if ret then m else (let (n, m) = copy_back 1 dest src n m in m))"


section \<open>Scanning memory\<close>

partial_function (option) strlen_words :: "mem \<Rightarrow> nat \<Rightarrow> nat option" where
  "strlen_words m w = (if HASZERO (load64 m w) = 0 then strlen_words m (w + 8) else Some w)"

partial_function (option) strlen_bytes :: "mem \<Rightarrow> nat \<Rightarrow> nat option" where
  "strlen_bytes m s = (if m s \<noteq> 0 then strlen_bytes m (s + 1) else Some s)"

partial_function (option) strlen_from :: "mem \<Rightarrow> nat \<Rightarrow> nat \<Rightarrow> nat option" where
  "strlen_from m a s =
     (if s mod 8 \<noteq> 0 then
        if m s = 0 then Some (s - a) else strlen_from m a (s + 1)
      else do {
        w \<leftarrow> strlen_words m s;
        s \<leftarrow> strlen_bytes m w;
        Some (s - a)
      })"

definition strlen :: "mem \<Rightarrow> nat \<Rightarrow> nat option" where
  "strlen m s = strlen_from m s s"

text \<open>\<open>memchr\<close>: the loop to alignment, the loop over words and the loop over the last bytes.\<close>

function memchr_align :: "mem \<Rightarrow> nat \<Rightarrow> u8 \<Rightarrow> nat \<Rightarrow> nat \<times> nat" where
  "memchr_align m s c n =
     (if s mod 8 \<noteq> 0 \<and> n \<noteq> 0 \<and> m s \<noteq> c then memchr_align m (s + 1) c (n - 1) else (s, n))"
  by auto
termination by (relation "measure (\<lambda>(m, s, c, n). n)") auto

function memchr_words :: "mem \<Rightarrow> nat \<Rightarrow> u64 \<Rightarrow> nat \<Rightarrow> nat \<times> nat" where
  "memchr_words m w k n =
     (if 8 \<le> n \<and> HASZERO (load64 m w XOR k) = 0 then memchr_words m (w + 8) k (n - 8) else (w, n))"
  by auto
termination by (relation "measure (\<lambda>(m, w, k, n). n)") auto

function memchr_bytes :: "mem \<Rightarrow> nat \<Rightarrow> u8 \<Rightarrow> nat \<Rightarrow> nat \<times> nat" where
  "memchr_bytes m s c n = (if n \<noteq> 0 \<and> m s \<noteq> c then memchr_bytes m (s + 1) c (n - 1) else (s, n))"
  by auto
termination by (relation "measure (\<lambda>(m, s, c, n). n)") auto

declare memchr_align.simps [simp del] memchr_words.simps [simp del] memchr_bytes.simps [simp del]

definition memchr :: "mem \<Rightarrow> nat \<Rightarrow> 32 word \<Rightarrow> nat \<Rightarrow> nat option" where
  "memchr m src c n =
     (let c = (ucast c :: u8);
          (s, n) = memchr_align m src c n;
          (s, n) = (if n \<noteq> 0 \<and> m s \<noteq> c then
                      let k = ONES * ucast c;
                          (w, n) = memchr_words m s k n
                      in memchr_bytes m w c n
                    else (s, n))
      in if n \<noteq> 0 then Some s else None)"

fun memrchr :: "mem \<Rightarrow> nat \<Rightarrow> u8 \<Rightarrow> nat \<Rightarrow> nat option" where
  "memrchr m s c 0 = None"
| "memrchr m s c (Suc n) = (if m (s + n) = c then Some (s + n) else memrchr m s c n)"

fun memcmp :: "mem \<Rightarrow> nat \<Rightarrow> nat \<Rightarrow> nat \<Rightarrow> int" where
  "memcmp m l r 0 = 0"
| "memcmp m l r (Suc n) = (if m l = m r then memcmp m (l + 1) (r + 1) n else uint (m l) - uint (m r))"

text \<open>\<open>strchrnul\<close> for a nonzero character.\<close>

partial_function (option) strchrnul_words :: "mem \<Rightarrow> u64 \<Rightarrow> nat \<Rightarrow> nat option" where
  "strchrnul_words m k w =
     (if HASZERO (load64 m w) = 0 \<and> HASZERO (load64 m w XOR k) = 0
      then strchrnul_words m k (w + 8) else Some w)"

partial_function (option) strchrnul_bytes :: "mem \<Rightarrow> u8 \<Rightarrow> nat \<Rightarrow> nat option" where
  "strchrnul_bytes m c s = (if m s \<noteq> 0 \<and> m s \<noteq> c then strchrnul_bytes m c (s + 1) else Some s)"

partial_function (option) strchrnul_from :: "mem \<Rightarrow> u8 \<Rightarrow> nat \<Rightarrow> nat option" where
  "strchrnul_from m c s =
     (if s mod 8 \<noteq> 0 then
        if m s = 0 \<or> m s = c then Some s else strchrnul_from m c (s + 1)
      else do {
        w \<leftarrow> strchrnul_words m (ONES * ucast c) s;
        strchrnul_bytes m c w
      })"

definition strchrnul :: "mem \<Rightarrow> nat \<Rightarrow> 32 word \<Rightarrow> nat option" where
  "strchrnul m s c =
     (let c = (ucast c :: u8) in
      if c = 0 then map_option (\<lambda>l. s + l) (strlen m s) else strchrnul_from m c s)"

definition strchr :: "mem \<Rightarrow> nat \<Rightarrow> 32 word \<Rightarrow> nat option option" where
  "strchr m s c = do {
     r \<leftarrow> strchrnul m s c;
     Some (if m r = ucast c then Some r else None)
   }"

definition strrchr :: "mem \<Rightarrow> nat \<Rightarrow> u8 \<Rightarrow> nat option option" where
  "strrchr m s c = do { l \<leftarrow> strlen m s; Some (memrchr m s c (l + 1)) }"


section \<open>Scanning strings\<close>


text \<open>\<open>char\<close> is signed on the x86-64 target; the terminator is zero.\<close>

fun strcmp :: "bytes \<Rightarrow> bytes \<Rightarrow> int" where
  "strcmp [] [] = 0"
| "strcmp [] (y # ys) = (if 0 < sint y then -1 else 1)"
| "strcmp (x # xs) [] = (if sint x < 0 then -1 else 1)"
| "strcmp (x # xs) (y # ys) =
     (if sint x < sint y then -1 else if sint x > sint y then 1 else strcmp xs ys)"

text \<open>\<open>BITOP\<close> on a set of 256 bits in four words.\<close>

definition byteset_add :: "u8 \<Rightarrow> u64 list \<Rightarrow> u64 list" where
  "byteset_add c bs = bs[unat c div 64 := bs ! (unat c div 64) OR push_bit (unat c mod 64) 1]"

definition byteset_has :: "u64 list \<Rightarrow> u8 \<Rightarrow> bool" where
  "byteset_has bs c \<longleftrightarrow> bs ! (unat c div 64) AND push_bit (unat c mod 64) 1 \<noteq> 0"

definition byteset :: "bytes \<Rightarrow> u64 list" where
  "byteset c = fold byteset_add c (replicate 4 0)"

definition strspn :: "bytes \<Rightarrow> bytes \<Rightarrow> nat" where
  "strspn s c =
     (case c of
        [] \<Rightarrow> 0
      | [x] \<Rightarrow> length (takeWhile (\<lambda>y. y = x) s)
      | _ \<Rightarrow> length (takeWhile (byteset_has (byteset c)) s))"

definition strcspn :: "bytes \<Rightarrow> bytes \<Rightarrow> nat" where
  "strcspn s c =
     (case c of
        [] \<Rightarrow> length s
      | [x] \<Rightarrow> length (takeWhile (\<lambda>y. y \<noteq> x) s)
      | _ \<Rightarrow> length (takeWhile (\<lambda>y. \<not> byteset_has (byteset c) y) s))"

text \<open>The string from the first character of the set on.\<close>

definition strpbrk :: "bytes \<Rightarrow> bytes \<Rightarrow> bytes option" where
  "strpbrk s b = (let s = drop (strcspn s b) s in if s = [] then None else Some s)"

text \<open>The token and the rest that \<open>saveptr\<close> points to.\<close>

definition strtok_r :: "bytes \<Rightarrow> bytes \<Rightarrow> bytes option \<times> bytes" where
  "strtok_r str delim =
     (let str = drop (strspn str delim) str in
      if str = [] then (None, [])
      else case strpbrk str delim of
        None \<Rightarrow> (Some str, [])
      | Some rest \<Rightarrow> (Some (take (length str - length rest) str), tl rest))"

lemma strtok_r_shorter: "strtok_r str delim = (Some token, rest) \<Longrightarrow> length rest < length str"
  by (auto simp: strtok_r_def strpbrk_def Let_def split: option.splits if_splits)

function tokenize :: "bytes \<Rightarrow> bytes \<Rightarrow> bytes list" where
  "tokenize str sep =
     (case strtok_r str sep of
        (None, rest) \<Rightarrow> []
      | (Some token, rest) \<Rightarrow> token # tokenize rest sep)"
  by pat_completeness auto
termination by (relation "measure (\<lambda>(str, sep). length str)") (auto dest: strtok_r_shorter [OF sym])

declare tokenize.simps [simp del]

fun atoi_loop :: "64 word \<Rightarrow> bytes \<Rightarrow> 64 word" where
  "atoi_loop out [] = out"
| "atoi_loop out (c # cs) = atoi_loop (out * 10 + (scast c - 48)) cs"

definition atoi :: "bytes \<Rightarrow> 32 word" where
  "atoi c = (case c of
       x # cs \<Rightarrow> if x = 45 then ucast (atoi_loop 0 cs * -1) else ucast (atoi_loop 0 c * 1)
     | [] \<Rightarrow> 0)"


section \<open>Copying\<close>

lemma blit_blit:
  assumes "d \<le> s \<or> s + k + q \<le> d"
  shows "blit q (d + k) (s + k) (blit k d s m) = blit (k + q) d s m"
  using assms by (auto simp: blit_def fun_eq_iff)

lemma blit_0 [simp]: "blit 0 d s m = m"
  by (auto simp: blit_def fun_eq_iff)

lemma blit_1: "blit 1 d s m = m(d := m s)"
  by (auto simp: blit_def fun_eq_iff)

lemma blit_same [simp]: "blit n d d m = m"
  by (auto simp: blit_def)

lemma copy_while_spec:
  "d \<le> s \<or> s + n \<le> d \<Longrightarrow> 0 < k \<Longrightarrow>
   copy_while k d s n m = (d + n div k * k, s + n div k * k, n mod k, blit (n div k * k) d s m)"
proof (induction k d s n m rule: copy_while.induct)
  case (1 k d s n m)
  show ?case
  proof (cases "k \<le> n")
    case True
    then have q: "n div k * k = k + (n - k) div k * k" "n mod k = (n - k) mod k"
      using 1(3) by (simp_all add: le_div_geq le_mod_geq)
    have le: "(n - k) div k * k \<le> n - k" by simp
    have "copy_while k d s n m = copy_while k (d + k) (s + k) (n - k) (blit k d s m)"
      using True 1(3) by (subst copy_while.simps) simp
    also have "\<dots> = (d + k + (n - k) div k * k, s + k + (n - k) div k * k, (n - k) mod k,
        blit ((n - k) div k * k) (d + k) (s + k) (blit k d s m))"
      using 1(1) 1(2,3) True by auto
    also have "blit ((n - k) div k * k) (d + k) (s + k) (blit k d s m) = blit (k + (n - k) div k * k) d s m"
      using 1(2) True le by (intro blit_blit) linarith
    finally show ?thesis using q by simp
  next
    case False
    then show ?thesis by (subst copy_while.simps) simp
  qed
qed

lemma memcpy_blit:
  assumes "d \<le> s \<or> s + n \<le> d"
  shows "memcpy d s n m = blit n d s m"
proof -
  let ?a = "n div 8 * 8" and ?r = "n mod 8"
  let ?b = "?r div 4 * 4" and ?t = "?r mod 4"
  have n: "n = ?a + ?r" "?r = ?b + ?t" by simp_all
  have ov: "d + ?a \<le> s + ?a \<or> s + ?a + ?r \<le> d + ?a" "d + ?a + ?b \<le> s + ?a + ?b \<or> s + ?a + ?b + ?t \<le> d + ?a + ?b"
    using assms n by linarith+
  have "memcpy d s n m = blit ?t (d + ?a + ?b) (s + ?a + ?b) (blit ?b (d + ?a) (s + ?a) (blit ?a d s m))"
    unfolding memcpy_def
    by (simp add: copy_while_spec [OF assms] copy_while_spec [OF ov(1)] copy_while_spec [OF ov(2)] Let_def)
  also have "blit ?b (d + ?a) (s + ?a) (blit ?a d s m) = blit (?a + ?b) d s m"
    using assms n by (intro blit_blit) linarith
  also have "blit ?t (d + ?a + ?b) (s + ?a + ?b) (blit (?a + ?b) d s m) = blit (?a + ?b + ?t) d s m"
    unfolding add.assoc using assms n by (intro blit_blit [of d s "?a + ?b", unfolded add.assoc]) linarith
  finally show ?thesis using n by (simp add: add.assoc)
qed

lemma memset_loop_spec:
  "memset_loop dest i c k m = (\<lambda>a. if dest + i \<le> a \<and> a < dest + i + k then c else m a)"
  by (induction k arbitrary: i m) (auto simp: fun_eq_iff)

lemma align_forward_spec:
  "d \<le> s \<Longrightarrow> \<exists>q \<le> n. align_forward d s n m =
     ((d + q) mod 8 \<noteq> 0, d + q, s + q, n - q, blit q d s m) \<and> ((d + q) mod 8 \<noteq> 0 \<longrightarrow> q = n)"
proof (induction d s n m rule: align_forward.induct)
  case (1 d s n m)
  show ?case
  proof (cases "d mod 8 \<noteq> 0 \<and> n \<noteq> 0")
    case True
    have le: "d + 1 \<le> s + 1" using 1(2) by simp
    obtain q where q: "q \<le> n - 1" "align_forward (d + 1) (s + 1) (n - 1) (m(d := m s)) =
        ((d + 1 + q) mod 8 \<noteq> 0, d + 1 + q, s + 1 + q, n - 1 - q, blit q (d + 1) (s + 1) (m(d := m s)))"
        "(d + 1 + q) mod 8 \<noteq> 0 \<longrightarrow> q = n - 1"
      using 1(1) [OF conjunct1 [OF True] conjunct2 [OF True] le] by blast
    have "blit q (d + 1) (s + 1) (m(d := m s)) = blit (1 + q) d s m"
      unfolding blit_1 [symmetric] using 1(2) by (intro blit_blit) simp
    then show ?thesis using True q
      by (intro exI [of _ "1 + q"]) (auto simp: align_forward.simps [of d s n m])
  next
    case False
    then show ?thesis by (intro exI [of _ 0]) (auto simp: align_forward.simps [of d s n m])
  qed
qed

text \<open>Backwards, the part above \<open>n\<close> is done.\<close>

definition done_above :: "nat \<Rightarrow> nat \<Rightarrow> nat \<Rightarrow> nat \<Rightarrow> mem \<Rightarrow> mem" where
  "done_above n N d s m = blit (N - n) (d + n) (s + n) m"

lemma done_above_step:
  assumes "s < d" and "k \<le> n" and "n \<le> N"
  shows "blit k (d + (n - k)) (s + (n - k)) (done_above n N d s m) = done_above (n - k) N d s m"
  using assms by (auto simp: done_above_def blit_def fun_eq_iff)

lemma copy_back_spec:
  "s < d \<Longrightarrow> n \<le> N \<Longrightarrow> 0 < k \<Longrightarrow>
   copy_back k d s n (done_above n N d s m) = (n mod k, done_above (n mod k) N d s m)"
proof (induction n rule: less_induct)
  case (less n)
  show ?case
  proof (cases "k \<le> n")
    case True
    have "copy_back k d s n (done_above n N d s m) = copy_back k d s (n - k) (done_above (n - k) N d s m)"
      using True less.prems done_above_step [OF less.prems(1) True less.prems(2), of m]
      by (subst copy_back.simps) simp
    then show ?thesis using less True by (simp add: le_mod_geq)
  next
    case False
    then show ?thesis by (subst copy_back.simps) simp
  qed
qed

lemma align_backward_spec:
  "s < d \<Longrightarrow> n \<le> N \<Longrightarrow> \<exists>q \<le> n. align_backward d s n (done_above n N d s m) =
     ((d + q) mod 8 \<noteq> 0, q, done_above q N d s m) \<and> ((d + q) mod 8 \<noteq> 0 \<longrightarrow> q = 0)"
proof (induction n)
  case 0
  then show ?case by (intro exI [of _ 0]) (auto simp: align_backward.simps [of d s 0])
next
  case (Suc n)
  show ?case
  proof (cases "(d + Suc n) mod 8 \<noteq> 0")
    case True
    have b: "(done_above (Suc n) N d s m)(d + n := done_above (Suc n) N d s m (s + n)) = done_above n N d s m"
      using done_above_step [of s d 1 "Suc n" N m] Suc.prems by (simp add: blit_1 [unfolded One_nat_def])
    show ?thesis
      using Suc True b by (auto simp: align_backward.simps [of d s "Suc n"] le_Suc_eq)
  next
    case False
    then show ?thesis by (intro exI [of _ "Suc n"]) (auto simp: align_backward.simps [of d s "Suc n"])
  qed
qed

lemma memmove_blit: "memmove d s n m = blit n d s m"
proof -
  consider "d = s" | "s + n \<le> d \<or> d + n \<le> s" "d \<noteq> s" | "d < s" "\<not> (s + n \<le> d \<or> d + n \<le> s)"
    | "s < d" "\<not> (s + n \<le> d \<or> d + n \<le> s)" by linarith
  then show ?thesis
  proof cases
    case 3
    have 1: "copy_while 1 d s n m = (d + n, s + n, 0, blit n d s m)" if "d \<le> s" for d s n m
      using copy_while_spec [of d s n 1 m] that by simp
    obtain q where q: "q \<le> n" "align_forward d s n m =
        ((d + q) mod 8 \<noteq> 0, d + q, s + q, n - q, blit q d s m)" "(d + q) mod 8 \<noteq> 0 \<longrightarrow> q = n"
      using align_forward_spec [of d s n m] 3 by auto
    let ?r = "n - q"
    have ds: "d + q \<le> s + q" "d + q + ?r div 8 * 8 \<le> s + q + ?r div 8 * 8" using 3 by simp_all
    have w: "copy_while 8 (d + q) (s + q) ?r (blit q d s m) =
        (d + q + ?r div 8 * 8, s + q + ?r div 8 * 8, ?r mod 8, blit (q + ?r div 8 * 8) d s m)"
      using copy_while_spec [of "d + q" "s + q" ?r 8] ds(1) blit_blit [of d s q "?r div 8 * 8" m] 3 by simp
    have "blit (?r mod 8) (d + q + ?r div 8 * 8) (s + q + ?r div 8 * 8) (blit (q + ?r div 8 * 8) d s m) =
        blit (q + ?r div 8 * 8 + ?r mod 8) d s m"
      using blit_blit [of d s "q + ?r div 8 * 8" "?r mod 8" m] 3 by (simp add: add.assoc)
    also have "q + ?r div 8 * 8 + ?r mod 8 = n" using q(1) by simp
    finally show ?thesis
      using 3 q w 1 [of d s n m] 1 [OF ds(2), of "?r mod 8"] by (auto simp: memmove_def)
  next
    case 4
    have d0: "done_above n n d s m = m" "done_above 0 n d s m = blit n d s m" by (simp_all add: done_above_def)
    have 1: "copy_back 1 d s k (done_above k n d s m) = (0, blit n d s m)" if "k \<le> n" for k
      using copy_back_spec [of s d k n 1 m] 4 that d0 by simp
    obtain q where q: "q \<le> n" "align_backward d s n m = ((d + q) mod 8 \<noteq> 0, q, done_above q n d s m)"
        "(d + q) mod 8 \<noteq> 0 \<longrightarrow> q = 0"
      using align_backward_spec [of s d n n m] 4 d0 by auto
    have w: "copy_back 8 d s q (done_above q n d s m) = (q mod 8, done_above (q mod 8) n d s m)"
      using copy_back_spec [of s d q n 8 m] 4 q(1) by simp
    have "q mod 8 \<le> n" using q(1) by (meson le_trans mod_less_eq_dividend)
    then show ?thesis
      using 4 q w 1 [of n] 1 [of "q mod 8"] d0 by (auto simp: memmove_def)
  qed (auto simp: memmove_def intro!: memcpy_blit)
qed


section \<open>Zero bytes in a word\<close>

fun ones :: "nat \<Rightarrow> int" where
  "ones 0 = 0" | "ones (Suc n) = 1 + 256 * ones n"

fun highs :: "nat \<Rightarrow> int" where
  "highs 0 = 0" | "highs (Suc n) = 128 + 256 * highs n"

lemma highs_bounds: "0 \<le> highs n" "highs n < 256 ^ n"
  by (induction n) auto

lemma byte_highs: "take_bit 8 (highs (Suc n)) = 128" "drop_bit 8 (highs (Suc n)) = highs n"
  by (simp_all add: take_bit_eq_mod drop_bit_eq_div)

lemma byte_borrow:
  fixes b :: int
  assumes "0 \<le> b" and "b < 256"
  shows "take_bit 8 (b - 1) AND take_bit 8 (NOT b) AND 128 = 0 \<longleftrightarrow> b \<noteq> 0"
proof -
  have "b \<in> {0..<256}" using assms by simp
  moreover have "\<forall>b \<in> set [0..255]. (take_bit 8 (b - 1) AND take_bit 8 (NOT b) AND 128 = 0) = (b \<noteq> (0::int))"
    by code_simp
  ultimately show ?thesis by simp
qed

lemma split_bytes: "(x :: int) = 0 \<longleftrightarrow> take_bit 8 x = 0 \<and> drop_bit 8 x = 0"
  using bits_ident [of 8 x] by auto

lemma haszero_int:
  "(x - ones n) AND NOT x AND highs n = 0 \<longleftrightarrow> (\<forall>i < n. take_bit 8 (drop_bit (8 * i) x) \<noteq> 0)"
proof (induction n arbitrary: x)
  case (Suc n)
  define b where "b = take_bit 8 x"
  define y where "y = drop_bit 8 x"
  have x: "x = b + 256 * y" using bits_ident [of 8 x] by (simp add: b_def y_def push_bit_eq_mult)
  have b: "0 \<le> b" "b < 256" by (simp_all add: b_def take_bit_eq_mod)
  define z where "z = y - ones n"
  have xo: "x - ones (Suc n) = (b - 1) + 256 * z" using x by (simp add: z_def)
  have lo: "take_bit 8 ((x - ones (Suc n)) AND NOT x AND highs (Suc n)) =
      take_bit 8 (b - 1) AND take_bit 8 (NOT b) AND 128"
  proof -
    have "take_bit 8 (x - ones (Suc n)) = take_bit 8 (b - 1)"
      unfolding xo by (simp add: take_bit_eq_mod)
    moreover have "take_bit 8 (NOT x) = take_bit 8 (NOT b)"
      by (simp add: b_def take_bit_not_take_bit)
    ultimately show ?thesis by (simp add: take_bit_and byte_highs del: highs.simps)
  qed
  have hi: "drop_bit 8 (x - ones (Suc n)) = z" if "b \<noteq> 0"
    using that b unfolding xo by (simp add: drop_bit_eq_div div_add1_eq [of "b - 1"] del: ones.simps)
  have nx: "drop_bit 8 (NOT x) = NOT y" by (rule bit_eqI) (simp add: y_def bit_simps)
  have sh: "take_bit 8 (drop_bit (8 * Suc i) x) = take_bit 8 (drop_bit (8 * i) y)" for i
    by (simp add: y_def add.commute)
  have "(x - ones (Suc n)) AND NOT x AND highs (Suc n) = 0 \<longleftrightarrow>
      b \<noteq> 0 \<and> z AND NOT y AND highs n = 0"
    (is "?E = 0 \<longleftrightarrow> _")
  proof -
    have "drop_bit 8 ?E = drop_bit 8 (x - ones (Suc n)) AND NOT y AND highs n"
      by (simp only: drop_bit_and nx byte_highs)
    then show ?thesis using byte_borrow [OF b] hi lo split_bytes [of ?E] by metis
  qed
  also have "\<dots> \<longleftrightarrow> (\<forall>i < Suc n. take_bit 8 (drop_bit (8 * i) x) \<noteq> 0)"
    unfolding z_def Suc.IH All_less_Suc2 using sh by (simp add: b_def)
  finally show ?case .
qed simp


lemma haszero_consts: "ONES = word_of_int (ones 8)" "HIGHS = word_of_int (highs 8)"
  by (simp_all add: ONES_def HIGHS_def numeral_eq_Suc)

lemma HASZERO_iff: "HASZERO w = 0 \<longleftrightarrow> (\<forall>i < 8. take_bit 8 (drop_bit (8 * i) w) \<noteq> 0)"
proof -
  let ?x = "uint w"
  let ?e = "(?x - ones 8) AND NOT ?x AND highs 8"
  have "(word_of_int ?e :: u64) =
      (word_of_int ?x - word_of_int (ones 8)) AND NOT (word_of_int ?x) AND word_of_int (highs 8)"
    by (simp only: of_int_and_eq of_int_not_eq of_int_diff)
  then have "HASZERO w = word_of_int ?e"
    unfolding HASZERO_def haszero_consts by (simp only: word_of_int_uint)
  moreover have "take_bit 64 ?e = ?e"
  proof (rule take_bit_int_eq_self)
    show "0 \<le> ?e" using highs_bounds [of 8] by simp
    have "0 \<le> NOT ?x AND highs 8" "NOT ?x AND highs 8 \<le> highs 8"
      using highs_bounds [of 8] AND_upper2 [of "highs 8" "NOT ?x"] by simp_all
    then have "?e \<le> highs 8" using AND_upper2 [of "NOT ?x AND highs 8" "?x - ones 8"] by linarith
    also have "\<dots> < 2 ^ 64" using highs_bounds(2) [of 8] by simp
    finally show "?e < 2 ^ 64" .
  qed
  ultimately have "HASZERO w = 0 \<longleftrightarrow> ?e = 0"
    by (simp flip: uint_0_iff add: uint_word_of_int_eq)
  also have "\<dots> \<longleftrightarrow> (\<forall>i < 8. take_bit 8 (drop_bit (8 * i) ?x) \<noteq> 0)" by (rule haszero_int)
  also have "\<dots> \<longleftrightarrow> (\<forall>i < 8. take_bit 8 (drop_bit (8 * i) w) \<noteq> 0)"
  proof -
    have "uint (take_bit 8 (drop_bit (8 * i) w)) = take_bit 8 (drop_bit (8 * i) ?x)" for i
      by (rule bit_eqI) (auto simp: bit_simps dest: bit_imp_le_length)
    then show ?thesis by (simp flip: uint_0_iff)
  qed
  finally show ?thesis .
qed

lemma bit_load:
  "n \<le> 8 \<Longrightarrow> bit (load n m a) i \<longleftrightarrow> i < 8 * n \<and> bit (m (a + i div 8)) (i mod 8)"
proof (induction n arbitrary: a i)
  case (Suc n)
  show ?case
  proof (cases "i < 8")
    case True
    then show ?thesis by (simp add: bit_simps)
  next
    case False
    then have e: "Suc (a + (i - 8) div 8) = a + i div 8" and i: "(i - 8) mod 8 = i mod 8"
      by (simp_all add: le_div_geq le_mod_geq)
    have mm: "m (Suc (a + (i - 8) div 8)) = m (a + i div 8)" unfolding e ..
    have "\<not> bit (m a) i" using False bit_imp_le_length [of "m a" i] by auto
    moreover have "i - 8 < 8 * n \<longleftrightarrow> i < 8 * Suc n" using False by auto
    ultimately show ?thesis using False Suc i mm bit_imp_le_length [of "load n m (a + 1)" "i - 8"]
      by (auto simp: bit_simps)
  qed
qed simp

lemma byte_load:
  assumes "j < 8"
  shows "take_bit 8 (drop_bit (8 * j) (load64 m a)) = ucast (m (a + j))"
proof (rule bit_word_eqI)
  fix i assume i: "i < LENGTH(64)"
  have "i < 8 \<Longrightarrow> (8 * j + i) div 8 = j \<and> (8 * j + i) mod 8 = i" by simp
  then show "bit (take_bit 8 (drop_bit (8 * j) (load64 m a))) i = bit (ucast (m (a + j)) :: u64) i"
    using assms i bit_imp_le_length [of "m (a + j)" i] by (auto simp: bit_simps bit_load)
qed

lemma ucast_8_64_eq_0: "(ucast (b :: u8) :: u64) = 0 \<longleftrightarrow> b = 0"
proof
  assume "(ucast b :: u64) = 0"
  then have "unat (ucast b :: u64) = 0" by simp
  then show "b = 0" using unat_ucast_up [of b, where ?'b = 64] by (simp add: unat_eq_0)
qed simp

lemma HASZERO_load: "HASZERO (load64 m a) = 0 \<longleftrightarrow> (\<forall>i < 8. m (a + i) \<noteq> 0)"
  unfolding HASZERO_iff by (simp add: byte_load ucast_8_64_eq_0 cong: imp_cong)

lemma load_const: "load64 (\<lambda>_. c) 0 = ONES * ucast c"
proof -
  have "load n (\<lambda>_. c) a = word_of_int (ones n * uint c)" if "n \<le> 8" for n a
    using that
  proof (induction n arbitrary: a)
    case (Suc n)
    have "(ucast c :: u64) AND push_bit 8 w = 0" for w :: u64
      by (rule bit_word_eqI) (auto simp: bit_simps dest: bit_imp_le_length)
    then have "load (Suc n) (\<lambda>_. c) a = ucast c + push_bit 8 (load n (\<lambda>_. c) (a + 1))"
      by (simp add: disjunctive_add_eq_or del: One_nat_def)
    also have "load n (\<lambda>_. c) (a + 1) = word_of_int (ones n * uint c)" using Suc by simp
    also have "(ucast c :: u64) = word_of_int (uint c)" by (rule ucast_eq)
    finally show ?case unfolding push_bit_eq_mult by (simp only: ones.simps of_int_add of_int_mult) (simp add: algebra_simps)
  qed simp
  from this [of 8 0] show ?thesis unfolding haszero_consts ucast_eq of_int_mult by (simp only: order_refl)
qed

lemma load_xor: "load64 m a XOR (ONES * ucast c) = load64 (\<lambda>x. m x XOR c) a"
  unfolding load_const [symmetric]
  by (rule bit_word_eqI) (simp add: bit_simps bit_load)

lemma xor_zero: "(x :: u8) XOR c = 0 \<longleftrightarrow> x = c"
  by (auto simp: bit_eq_iff bit_simps)

lemma HASZERO_load_xor: "HASZERO (load64 m a XOR (ONES * ucast c)) = 0 \<longleftrightarrow> (\<forall>i < 8. m (a + i) \<noteq> c)"
  unfolding load_xor HASZERO_load by (simp add: xor_zero)


section \<open>Scanning memory\<close>

text \<open>The first position where a byte of the string satisfies a test.\<close>

definition first_at :: "(u8 \<Rightarrow> bool) \<Rightarrow> mem \<Rightarrow> nat \<Rightarrow> nat \<Rightarrow> bool" where
  "first_at P m a k \<longleftrightarrow> P (m (a + k)) \<and> (\<forall>i < k. \<not> P (m (a + i)))"

lemma first_at_skip:
  assumes "first_at P m a k" and "\<forall>i < j. \<not> P (m (a + i))"
  shows "j \<le> k" and "first_at P m (a + j) (k - j)"
proof -
  show le: "j \<le> k" using assms by (auto simp: first_at_def not_less [symmetric])
  then show "first_at P m (a + j) (k - j)" using assms(1) by (auto simp: first_at_def add.assoc)
qed

text \<open>
  The common shape of \<open>strlen\<close> and \<open>strchrnul\<close>: byte steps up to an aligned address, then word
  steps while no byte of the word stops the scan, then byte steps in the last word.
\<close>

locale word_scan =
  fixes P :: "u8 \<Rightarrow> bool" and m :: mem
    and words bytes :: "nat \<Rightarrow> nat option" and scan :: "nat \<Rightarrow> nat option" and out :: "nat \<Rightarrow> nat"
  assumes words_step: "words w = (if \<forall>i < 8. \<not> P (m (w + i)) then words (w + 8) else Some w)"
    and bytes_step: "bytes s = (if \<not> P (m s) then bytes (s + 1) else Some s)"
    and scan_step: "scan s = (if s mod 8 \<noteq> 0 then if P (m s) then Some (out s) else scan (s + 1)
          else do { w \<leftarrow> words s; e \<leftarrow> bytes w; Some (out e) })"
begin

lemma bytes_spec: "first_at P m s k \<Longrightarrow> bytes s = Some (s + k)"
proof (induction k arbitrary: s)
  case 0
  then show ?case by (subst bytes_step) (simp add: first_at_def)
next
  case (Suc k)
  have np: "\<not> P (m s)" using Suc.prems by (auto simp: first_at_def dest: spec [of _ 0])
  then have "first_at P m (s + 1) k" using first_at_skip(2) [OF Suc.prems, of 1] by simp
  then show ?case using Suc.IH [of "s + 1"] np by (subst bytes_step) simp
qed

lemma words_spec:
  "first_at P m w k \<Longrightarrow> \<exists>j \<le> k. words w = Some (w + j) \<and> first_at P m (w + j) (k - j)"
proof (induction k arbitrary: w rule: less_induct)
  case (less k)
  show ?case
  proof (cases "\<forall>i < 8. \<not> P (m (w + i))")
    case True
    note sk = first_at_skip [OF less.prems True]
    obtain j where "j \<le> k - 8" "words (w + 8) = Some (w + 8 + j)" "first_at P m (w + 8 + j) (k - 8 - j)"
      using less.IH [OF _ sk(2)] sk(1) by auto
    then show ?thesis using True sk(1) words_step [of w]
      by (intro exI [of _ "8 + j"]) (simp add: add.assoc)
  next
    case False
    then have "words w = Some w" by (subst words_step) auto
    then show ?thesis using less.prems by (intro exI [of _ 0]) simp
  qed
qed

lemma scan_spec: "first_at P m s k \<Longrightarrow> scan s = Some (out (s + k))"
proof (induction k arbitrary: s rule: less_induct)
  case (less k)
  show ?case
  proof (cases "s mod 8 = 0")
    case True
    then show ?thesis using words_spec [OF less.prems] bytes_spec
      by (subst scan_step) (auto simp: add.assoc)
  next
    case False
    show ?thesis
    proof (cases "P (m s)")
      case True
      then have "k = 0" using less.prems by (auto simp: first_at_def intro: ccontr)
      then show ?thesis using False True by (subst scan_step) simp
    next
      case nz: False
      then have "\<forall>i < 1. \<not> P (m (s + i))" by simp
      note sk = first_at_skip [OF less.prems this]
      have "scan (s + 1) = Some (out (s + 1 + (k - 1)))"
        using less.IH [OF _ sk(2)] sk(1) by simp
      then show ?thesis using False nz sk(1) by (subst scan_step) simp
    qed
  qed
qed

end

interpretation strlen_scan: word_scan "\<lambda>b. b = 0" m "strlen_words m" "strlen_bytes m" "strlen_from m a" "\<lambda>e. e - a"
  for m a
proof
  show "strlen_words m w = (if \<forall>i < 8. m (w + i) \<noteq> 0 then strlen_words m (w + 8) else Some w)" for w
    by (subst strlen_words.simps) (simp only: HASZERO_load)
  show "strlen_bytes m s = (if m s \<noteq> 0 then strlen_bytes m (s + 1) else Some s)" for s
    by (rule strlen_bytes.simps)
  show "strlen_from m a s = (if s mod 8 \<noteq> 0 then if m s = 0 then Some (s - a) else strlen_from m a (s + 1)
      else do { w \<leftarrow> strlen_words m s; e \<leftarrow> strlen_bytes m w; Some (e - a) })" for s
    by (rule strlen_from.simps)
qed

interpretation strchrnul_scan: word_scan "\<lambda>b. b = 0 \<or> b = c" m "strchrnul_words m (ONES * ucast c)"
    "strchrnul_bytes m c" "strchrnul_from m c" "\<lambda>e. e"
  for m c
proof
  show "strchrnul_words m (ONES * ucast c) w = (if \<forall>i < 8. \<not> (m (w + i) = 0 \<or> m (w + i) = c)
      then strchrnul_words m (ONES * ucast c) (w + 8) else Some w)" for w
    by (subst strchrnul_words.simps) (simp only: HASZERO_load HASZERO_load_xor, auto)
  show "strchrnul_bytes m c s = (if \<not> (m s = 0 \<or> m s = c) then strchrnul_bytes m c (s + 1) else Some s)" for s
    by (subst strchrnul_bytes.simps) simp
  show "strchrnul_from m c s = (if s mod 8 \<noteq> 0 then if m s = 0 \<or> m s = c then Some s else strchrnul_from m c (s + 1)
      else do { w \<leftarrow> strchrnul_words m (ONES * ucast c) s; e \<leftarrow> strchrnul_bytes m c w; Some e })" for s
    by (subst strchrnul_from.simps) simp
qed

text \<open>Each loop of \<open>memchr\<close> skips bytes that differ from the one searched.\<close>

definition skips :: "mem \<Rightarrow> u8 \<Rightarrow> nat \<Rightarrow> nat \<Rightarrow> nat \<times> nat \<Rightarrow> bool" where
  "skips m c s n r \<longleftrightarrow> (\<exists>j \<le> n. r = (s + j, n - j) \<and> (\<forall>i < j. m (s + i) \<noteq> c))"

lemma skips_refl: "skips m c s n (s, n)"
  by (auto simp: skips_def intro!: exI [of _ 0])

lemma skips_step:
  assumes "k \<le> n" and "\<forall>i < k. m (s + i) \<noteq> c" and "skips m c (s + k) (n - k) r"
  shows "skips m c s n r"
proof -
  obtain j where j: "j \<le> n - k" "r = (s + k + j, n - k - j)" "\<forall>i < j. m (s + k + i) \<noteq> c"
    using assms(3) by (auto simp: skips_def)
  have "m (s + i) \<noteq> c" if "i < k + j" for i
    using assms(2) j(3) that by (cases "i < k") (auto simp: add.assoc dest: spec [of _ "i - k"])
  then show ?thesis using assms(1) j by (auto simp: skips_def intro!: exI [of _ "k + j"])
qed

lemma memchr_align_skips: "skips m c s n (memchr_align m s c n)"
proof (induction m s c n rule: memchr_align.induct)
  case (1 m s c n)
  then show ?case using skips_step [of 1 n m s c] skips_refl by (subst memchr_align.simps) auto
qed

lemma memchr_words_skips: "skips m c s n (memchr_words m s (ONES * ucast c) n)"
proof (induction n arbitrary: s rule: less_induct)
  case (less n)
  show ?case
  proof (cases "8 \<le> n \<and> (\<forall>i < 8. m (s + i) \<noteq> c)")
    case True
    then have "memchr_words m s (ONES * ucast c) n = memchr_words m (s + 8) (ONES * ucast c) (n - 8)"
      by (subst memchr_words.simps) (simp add: HASZERO_load_xor)
    then show ?thesis using skips_step [of 8 n m s c] less True by simp
  next
    case False
    then have "memchr_words m s (ONES * ucast c) n = (s, n)"
      by (subst memchr_words.simps) (auto simp: HASZERO_load_xor)
    then show ?thesis using skips_refl by simp
  qed
qed

lemma memchr_bytes_skips: "skips m c s n (memchr_bytes m s c n)"
proof (induction m s c n rule: memchr_bytes.induct)
  case (1 m s c n)
  then show ?case using skips_step [of 1 n m s c] skips_refl by (subst memchr_bytes.simps) auto
qed

lemma memchr_bytes_stops: "memchr_bytes m s c n = (s', n') \<Longrightarrow> n' = 0 \<or> m s' = c"
proof (induction m s c n rule: memchr_bytes.induct)
  case (1 m s c n)
  then show ?case by (cases "n \<noteq> 0 \<and> m s \<noteq> c") (auto simp: memchr_bytes.simps [of m s c n])
qed

lemma memchr_skips:
  obtains j where "j \<le> n" and "\<forall>i < j. m (s + i) \<noteq> ucast c" and "j < n \<longrightarrow> m (s + j) = ucast c"
    and "memchr m s c n = (if j < n then Some (s + j) else None)"
proof -
  let ?c = "ucast c :: u8"
  obtain j where j: "j \<le> n" "memchr_align m s ?c n = (s + j, n - j)" "\<forall>i < j. m (s + i) \<noteq> ?c"
    using memchr_align_skips [of m ?c s n] by (auto simp: skips_def)
  show thesis
  proof (cases "n - j \<noteq> 0 \<and> m (s + j) \<noteq> ?c")
    case False
    then show thesis using j that [of j] by (auto simp: memchr_def)
  next
    case True
    obtain k where k: "k \<le> n - j" "memchr_words m (s + j) (ONES * ucast ?c) (n - j) = (s + j + k, n - j - k)"
        "\<forall>i < k. m (s + j + i) \<noteq> ?c"
      using memchr_words_skips [of m ?c "s + j" "n - j"] by (auto simp: skips_def)
    obtain l where l: "l \<le> n - j - k" "memchr_bytes m (s + j + k) ?c (n - j - k) = (s + j + k + l, n - j - k - l)"
        "\<forall>i < l. m (s + j + k + i) \<noteq> ?c"
      using memchr_bytes_skips [of m ?c "s + j + k" "n - j - k"] by (auto simp: skips_def)
    have st: "n - j - k - l = 0 \<or> m (s + j + k + l) = ?c" by (rule memchr_bytes_stops [OF l(2)])
    let ?t = "j + k + l"
    have "skips m ?c s n (s + ?t, n - ?t)"
      using j k l skips_step [OF j(1,3)] skips_step [of k "n - j" m "s + j" ?c]
      by (auto simp: add.assoc skips_def [of m ?c "s + j + k"] skips_def [of m ?c "s + (j + k)"] intro!: exI [of _ l])
    then have "\<forall>i < ?t. m (s + i) \<noteq> ?c" using j(1) k(1) l(1) by (auto simp: skips_def)
    moreover have "memchr m s c n = (if ?t < n then Some (s + ?t) else None)"
      using j(2) True k(2) l(2) by (auto simp: memchr_def Let_def add.assoc)
    moreover have "?t < n \<longrightarrow> m (s + ?t) = ?c" using st by (auto simp: add.assoc)
    moreover have "?t \<le> n" using j(1) k(1) l(1) by simp
    ultimately show thesis using that [of ?t] by blast
  qed
qed


section \<open>Tokens\<close>

lemma byteset_has_bit: "byteset_has bs x \<longleftrightarrow> bit (bs ! (unat x div 64)) (unat x mod 64)"
proof -
  have "w AND push_bit n 1 \<noteq> 0 \<longleftrightarrow> bit w n" if "n < 64" for w :: u64 and n
  proof -
    have "w AND push_bit n 1 = (if bit w n then push_bit n 1 else 0)"
      by (rule bit_word_eqI) (auto simp: bit_simps)
    moreover have "bit (push_bit n 1 :: u64) n" using that by (simp add: bit_simps)
    ultimately show ?thesis by (metis bit_0_eq bot_apply bot_bool_def)
  qed
  then show ?thesis by (simp add: byteset_has_def del: push_bit_of_1)
qed

lemma byteset_add_has:
  assumes "length bs = 4"
  shows "byteset_has (byteset_add c bs) x \<longleftrightarrow> x = c \<or> byteset_has bs x"
proof -
  have lt: "unat y div 64 < 4" "unat y mod 64 < 64" for y :: u8
    using unsigned_less [of y, where ?'a = nat] by auto
  have eq: "unat x div 64 = unat c div 64 \<and> unat x mod 64 = unat c mod 64 \<longleftrightarrow> x = c"
    by (metis div_mult_mod_eq word_unat_eq_iff)
  show ?thesis
    using assms lt [of c] lt [of x] eq
    by (auto simp: byteset_has_bit byteset_add_def nth_list_update bit_simps)
qed

lemma byteset_fold_has:
  "length bs = 4 \<Longrightarrow> byteset_has (fold byteset_add cs bs) x \<longleftrightarrow> x \<in> set cs \<or> byteset_has bs x"
proof (induction cs arbitrary: bs)
  case (Cons c cs)
  have "length (byteset_add c bs) = 4" using Cons.prems by (simp add: byteset_add_def)
  then show ?case using Cons by (auto simp: byteset_add_has)
qed simp

lemma byteset_has_iff: "byteset_has (byteset cs) x \<longleftrightarrow> x \<in> set cs"
proof -
  have "\<not> byteset_has (replicate 4 0) x"
    using unsigned_less [of x, where ?'a = nat] by (simp add: byteset_has_def)
  then show ?thesis by (simp add: byteset_def byteset_fold_has)
qed

lemma strspn_takeWhile: "strspn s c = length (takeWhile (\<lambda>y. y \<in> set c) s)"
proof -
  have h: "byteset_has (byteset c) = (\<lambda>y. y \<in> set c)" by (simp add: fun_eq_iff byteset_has_iff)
  have "takeWhile (\<lambda>y. False) s = []" by (cases s) auto
  then show ?thesis using h by (auto simp: strspn_def split: list.splits)
qed

lemma strcspn_takeWhile: "strcspn s c = length (takeWhile (\<lambda>y. y \<notin> set c) s)"
proof -
  have h: "(\<lambda>y. \<not> byteset_has (byteset c) y) = (\<lambda>y. y \<notin> set c)" by (simp add: fun_eq_iff byteset_has_iff)
  have "length s = length (takeWhile (\<lambda>y. True) s)" by (induction s) auto
  then show ?thesis using h by (auto simp: strcspn_def split: list.splits)
qed

lemma take_run: "take (length s - length (dropWhile Q s)) s = takeWhile Q s"
proof -
  have "length (takeWhile Q s) \<le> length s" by (rule length_takeWhile_le)
  then show ?thesis by (simp add: dropWhile_eq_drop takeWhile_eq_take [symmetric])
qed

lemma run_all: "dropWhile Q s = [] \<Longrightarrow> takeWhile Q s = s"
  by (simp add: takeWhile_eq_all_conv)

text \<open>The fields of a string: the maximal nonempty runs without a separator.\<close>

fun str_fields :: "bytes \<Rightarrow> bytes \<Rightarrow> bytes \<Rightarrow> bytes list" where
  "str_fields sep cur [] = (if cur = [] then [] else [cur])"
| "str_fields sep cur (x # xs) =
     (if x \<in> set sep then (if cur = [] then [] else [cur]) @ str_fields sep [] xs
      else str_fields sep (cur @ [x]) xs)"

lemma fields_skip: "str_fields sep [] (dropWhile (\<lambda>y. y \<in> set sep) s) = str_fields sep [] s"
  by (induction s) auto

lemma fields_run:
  "str_fields sep cur s =
     (let run = cur @ takeWhile (\<lambda>y. y \<notin> set sep) s; rest = dropWhile (\<lambda>y. y \<notin> set sep) s
      in (if run = [] then [] else [run]) @ (if rest = [] then [] else str_fields sep [] (tl rest)))"
  by (induction s arbitrary: cur) (auto simp: Let_def)

lemma tokenize_fields_eq: "tokenize str sep = str_fields sep [] str"
proof (induction str sep rule: tokenize.induct)
  case (1 str sep)
  let ?s = "dropWhile (\<lambda>y. y \<in> set sep) str"
  let ?run = "takeWhile (\<lambda>y. y \<notin> set sep) ?s" and ?rest = "dropWhile (\<lambda>y. y \<notin> set sep) ?s"
  have ds: "drop (strspn str sep) str = ?s" by (simp add: strspn_takeWhile dropWhile_eq_drop)
  have dr: "drop (strcspn ?s sep) ?s = ?rest" by (simp add: strcspn_takeWhile dropWhile_eq_drop)
  show ?case
  proof (cases "?s = []")
    case True
    then have "strtok_r str sep = (None, [])" by (simp add: strtok_r_def ds del: dropWhile_eq_Nil_conv)
    moreover have "str_fields sep [] str = []" using fields_skip [of sep str] True by simp
    ultimately show ?thesis by (subst tokenize.simps) simp
  next
    case False
    have run: "?run \<noteq> []" using False hd_dropWhile [OF False] by (cases ?s) auto
    have tk: "strtok_r str sep = (Some ?run, if ?rest = [] then [] else tl ?rest)"
      using False run_all [of "\<lambda>y. y \<notin> set sep" ?s]
      by (cases "?rest = []")
         (simp_all add: strtok_r_def strpbrk_def ds dr Let_def take_run
            del: dropWhile_eq_Nil_conv takeWhile_eq_all_conv)
    have "tokenize str sep = ?run # tokenize (if ?rest = [] then [] else tl ?rest) sep"
      using tk by (subst tokenize.simps) simp
    also have "tokenize (if ?rest = [] then [] else tl ?rest) sep = str_fields sep [] (if ?rest = [] then [] else tl ?rest)"
      using 1(1) [OF tk [symmetric] refl] by simp
    also have "?run # \<dots> = str_fields sep [] ?s"
      using run by (subst (2) fields_run) (simp add: Let_def del: dropWhile_eq_Nil_conv takeWhile_eq_Nil_iff)
    finally show ?thesis by (simp add: fields_skip)
  qed
qed

lemma fields_free:
  "set cur \<inter> set sep = {} \<Longrightarrow> t \<in> set (str_fields sep cur s) \<Longrightarrow> t \<noteq> [] \<and> set t \<inter> set sep = {}"
  by (induction sep cur s rule: str_fields.induct) (auto split: if_splits)

lemma fields_concat: "concat (str_fields sep cur s) = cur @ filter (\<lambda>y. y \<notin> set sep) s"
  by (induction sep cur s rule: str_fields.induct) auto



section \<open>Properties\<close>

definition mem_example :: mem where
  "mem_example a = (if a = 1003 \<or> a = 1004 then 65 else if a = 1005 then 66 else if a = 1020 then 0 else 67)"

text \<open>
  Property C34: \<open>memmove\<close> copies \<open>n\<close> bytes as if they were read before any is written, for every
  overlap and every alignment of the two regions, and changes no other byte.
\<close>

theorem memmove_correct:
  "memmove dest src n m =
     (\<lambda>a. if dest \<le> a \<and> a < dest + n then m (src + (a - dest)) else m a)"
  by (simp add: memmove_blit blit_def)

text \<open>
  Fact: \<open>strlen\<close>, which reads a word at a time and tests it with \<open>HASZERO\<close>, returns the number
  of bytes before the first zero byte, at every alignment of the string.
\<close>

theorem strlen_correct:
  assumes "m (s + k) = 0" and "\<forall>i < k. m (s + i) \<noteq> 0"
  shows "strlen m s = Some k"
  using strlen_scan.scan_spec [of m s k s] assms by (simp add: strlen_def first_at_def)

theorem strlen_correct_witness: "strlen mem_example 1003 = Some 17"
proof -
  have "mem_example (1003 + 17) = 0" "\<forall>i < 17. mem_example (1003 + i) \<noteq> 0" by (simp_all add: mem_example_def)
  then show ?thesis by (rule strlen_correct)
qed

text \<open>
  Fact: \<open>memchr\<close> always terminates; it returns the address of the first of the \<open>n\<close> bytes that
  equals the low byte of \<open>c\<close>, or null when there is none, whatever the alignment.
\<close>

theorem memchr_correct:
  "memchr m s c n =
     (if \<exists>i < n. m (s + i) = ucast c then Some (s + (LEAST i. m (s + i) = ucast c)) else None)"
proof -
  obtain j where j: "j \<le> n" "\<forall>i < j. m (s + i) \<noteq> ucast c" "j < n \<longrightarrow> m (s + j) = ucast c"
      "memchr m s c n = (if j < n then Some (s + j) else None)"
    by (rule memchr_skips [of n m s c])
  show ?thesis
  proof (cases "j < n")
    case True
    then have "(LEAST i. m (s + i) = ucast c) = j"
      using j(2,3) by (intro Least_equality) (auto simp: not_less [symmetric])
    then show ?thesis using True j(3,4) by auto
  next
    case False
    then show ?thesis using j by auto
  qed
qed

text \<open>
  Fact: the tokens of \<open>strtok_r\<close> and \<open>tokenize\<close> are the fields of the string: nonempty, free of
  separators, in order, with every other byte of the string in exactly one of them.
\<close>

theorem tokenize_fields:
  "tokenize str sep = str_fields sep [] str \<and> (\<forall>t. t \<in> set (tokenize str sep) \<longrightarrow> t \<noteq> [] \<and> set t \<inter> set sep = {}) \<and>
   concat (tokenize str sep) = filter (\<lambda>y. y \<notin> set sep) str"
  using tokenize_fields_eq [of str sep] fields_free [of "[]" sep _ str] fields_concat [of sep "[]" str] by auto

theorem tokenize_fields_witness:
  "tokenize [47, 97, 47, 47, 98] [47] = [[97], [98]]"
  using tokenize_fields [of "[47, 97, 47, 47, 98]" "[47]"] by simp

end
