(* ===== verification/Kernel_Args.thy ===== *)
theory Kernel_Args
  imports Kernel_String
begin

text \<open>
  The kernel command line, \<open>kernel/misc/args.c\<close>.  The parser yields the settings in the order of
  its \<open>hashmap_set\<close> calls; the hash table they go to is a map from keys to values, where the value
  of an argument without one is null (\<open>Kernel_Hashmap\<close> shows that \<open>hashmap_set\<close> updates such a map).
\<close>

section \<open>The parser\<close>

type_synonym args_map = "bytes \<rightharpoonup> bytes option"

definition args_present :: "args_map option \<Rightarrow> bytes \<Rightarrow> bool" where
  "args_present m karg = (case m of None \<Rightarrow> False | Some m \<Rightarrow> m karg \<noteq> None)"

definition args_value :: "args_map option \<Rightarrow> bytes \<Rightarrow> bytes option" where
  "args_value m karg = (case m of None \<Rightarrow> None | Some m \<Rightarrow> (case m karg of None \<Rightarrow> None | Some v \<Rightarrow> v))"

text \<open>
  The quoted value after its opening quote, unescaped in place, and what follows the closing
  quote; \<^term>\<open>None\<close> when the command line ends first.
\<close>

fun quoted_value :: "bytes \<Rightarrow> bytes \<Rightarrow> (bytes \<times> bytes) option" where
  "quoted_value w [] = None"
| "quoted_value w (x # xs) =
     (if x = 34 then Some (w, xs)
      else if x = 92 then
        (case xs of
           [] \<Rightarrow> None
         | y # ys \<Rightarrow> if y = 34 \<or> y = 92 then quoted_value (w @ [y]) ys else quoted_value (w @ [92, y]) ys)
      else quoted_value (w @ [x]) xs)"

lemma quoted_value_shorter: "quoted_value w x = Some (v, rest) \<Longrightarrow> length rest < length x"
  by (induction w x rule: quoted_value.induct) (fastforce split: if_splits list.splits)+

text \<open>One argument at the start of a nonempty line; \<^term>\<open>None\<close> is the jump to \<open>_parse_error\<close>.\<close>

definition parse_arg :: "bytes \<Rightarrow> ((bytes \<times> bytes option) \<times> bytes) option" where
  "parse_arg x =
     (let key = takeWhile (\<lambda>c. c \<noteq> 61 \<and> c \<noteq> 32) x; x = dropWhile (\<lambda>c. c \<noteq> 61 \<and> c \<noteq> 32) x
      in case x of
           [] \<Rightarrow> Some ((key, None), [])
         | c # x \<Rightarrow>
             if c = 61 then
               if x \<noteq> [] \<and> hd x = 34 then
                 (case quoted_value [] (tl x) of
                    None \<Rightarrow> None
                  | Some (value, x) \<Rightarrow> Some ((key, Some value), x))
               else
                 let value = takeWhile (\<lambda>c. c \<noteq> 32) x; x = dropWhile (\<lambda>c. c \<noteq> 32) x
                 in Some ((key, Some value), if x \<noteq> [] then tl x else x)
             else Some ((key, None), x))"

lemma parse_arg_shorter:
  assumes "parse_arg x = Some (kv, rest)" and "x \<noteq> []"
  shows "length rest < length x"
proof -
  have d: "length (dropWhile (\<lambda>c. c \<noteq> 61 \<and> c \<noteq> 32) x) \<le> length x" by (rule length_dropWhile_le)
  have d2: "length (dropWhile (\<lambda>c. c \<noteq> 32) y) \<le> length y" for y :: bytes by (rule length_dropWhile_le)
  show ?thesis
  proof (cases "dropWhile (\<lambda>c. c \<noteq> 61 \<and> c \<noteq> 32) x")
    case Nil
    then show ?thesis using assms by (auto simp: parse_arg_def simp del: dropWhile_eq_Nil_conv)
  next
    case (Cons c y)
    have "length rest \<le> length y"
      using assms Cons d2 [of y] quoted_value_shorter [of "[]" "tl y"]
      by (auto simp: parse_arg_def Let_def split: if_splits option.splits dest!: quoted_value_shorter)
    then show ?thesis using d Cons by simp
  qed
qed

function args_loop :: "bytes \<Rightarrow> (bytes \<times> bytes option) list" where
  "args_loop x =
     (let x = dropWhile (\<lambda>c. c = 32) x in
      if x = [] then []
      else case parse_arg x of None \<Rightarrow> [] | Some (kv, rest) \<Rightarrow> kv # args_loop rest)"
  by auto
termination
proof (relation "measure length")
  fix x xa :: bytes and y kv rest
  assume a: "xa = dropWhile (\<lambda>c. c = 32) x" "xa \<noteq> []" "parse_arg xa = Some y" "(kv, rest) = y"
  then have "length rest < length xa" by (metis parse_arg_shorter)
  moreover have "length xa \<le> length x" unfolding a(1) by (rule length_dropWhile_le)
  ultimately show "(rest, x) \<in> measure length" by simp
qed simp

declare args_loop.simps [simp del]

definition args_parse :: "bytes option \<Rightarrow> args_map option \<Rightarrow> args_map option" where
  "args_parse cmdline m =
     (case cmdline of None \<Rightarrow> m
      | Some line \<Rightarrow>
          let m = (case m of None \<Rightarrow> Map.empty | Some m \<Rightarrow> m)
          in Some (fold (\<lambda>(key, value) m. m(key \<mapsto> value)) (args_loop line) m))"


section \<open>Printing arguments\<close>

definition escape :: "bytes \<Rightarrow> bytes" where
  "escape v = concat (map (\<lambda>c. if c = 34 \<or> c = 92 then [92, c] else [c]) v)"

definition print_arg :: "bytes \<times> bytes option \<Rightarrow> bytes" where
  "print_arg kv = fst kv @ (case snd kv of None \<Rightarrow> [32] | Some v \<Rightarrow> [61, 34] @ escape v @ [34, 32])"

lemma quoted_value_escape: "quoted_value w (escape v @ 34 # rest) = Some (w @ v, rest)"
  by (induction v arbitrary: w) (simp_all add: escape_def)

lemma takeWhile_key:
  fixes k :: bytes
  assumes "\<forall>c \<in> set k. c \<noteq> 61 \<and> c \<noteq> 32" and "y = 61 \<or> y = 32"
  shows "takeWhile (\<lambda>c. c \<noteq> 61 \<and> c \<noteq> 32) (k @ y # rest) = k"
    and "dropWhile (\<lambda>c. c \<noteq> 61 \<and> c \<noteq> 32) (k @ y # rest) = y # rest"
  using assms by (induction k) auto

lemma parse_arg_print:
  assumes "\<forall>c \<in> set (fst kv). c \<noteq> 61 \<and> c \<noteq> 32"
  obtains rest' where "parse_arg (print_arg kv @ rest) = Some (kv, rest')" and "rest' = rest \<or> rest' = 32 # rest"
proof (cases kv)
  case (Pair k v)
  show thesis
  proof (cases v)
    case None
    then have "print_arg kv @ rest = k @ 32 # rest" using Pair by (simp add: print_arg_def)
    then have "parse_arg (print_arg kv @ rest) = Some (kv, rest)"
      using takeWhile_key [of k 32 rest] assms Pair None by (simp add: parse_arg_def)
    then show thesis using that by blast
  next
    case (Some w)
    then have e: "print_arg kv @ rest = k @ 61 # 34 # escape w @ 34 # 32 # rest" using Pair by (simp add: print_arg_def)
    have "parse_arg (print_arg kv @ rest) = Some (kv, 32 # rest)"
      unfolding e using takeWhile_key [of k 61 "34 # escape w @ 34 # 32 # rest"] assms Pair Some
        quoted_value_escape [of "[]" w "32 # rest"] by (simp add: parse_arg_def)
    then show thesis using that by blast
  qed
qed

lemma args_loop_space: "args_loop (32 # x) = args_loop x"
  by (simp add: args_loop.simps [of "32 # x"] args_loop.simps [of x])

lemma args_loop_print:
  "(\<And>kv. kv \<in> set args \<Longrightarrow> fst kv \<noteq> [] \<and> (\<forall>c \<in> set (fst kv). c \<noteq> 61 \<and> c \<noteq> 32)) \<Longrightarrow>
   args_loop (concat (map print_arg args)) = args"
proof (induction args)
  case Nil
  then show ?case by (simp add: args_loop.simps [of "[]"])
next
  case (Cons kv args)
  let ?rest = "concat (map print_arg args)"
  have kv: "fst kv \<noteq> []" "\<forall>c \<in> set (fst kv). c \<noteq> 61 \<and> c \<noteq> 32" using Cons.prems [of kv] by simp_all
  obtain rest' where r: "parse_arg (print_arg kv @ ?rest) = Some (kv, rest')" "rest' = ?rest \<or> rest' = 32 # ?rest"
    by (rule parse_arg_print [OF kv(2)])
  have "print_arg kv \<noteq> []" "hd (print_arg kv) \<noteq> 32" using kv by (auto simp: print_arg_def hd_append)
  then have "dropWhile (\<lambda>c. c = 32) (print_arg kv @ ?rest) = print_arg kv @ ?rest"
    by (cases "print_arg kv") auto
  then have "args_loop (print_arg kv @ ?rest) = kv # args_loop rest'"
    using r(1) \<open>print_arg kv \<noteq> []\<close> by (subst args_loop.simps) simp
  moreover have "args_loop ?rest = args" by (rule Cons.IH) (use Cons.prems in auto)
  then have "args_loop rest' = args" using r(2) args_loop_space by auto
  ultimately show ?case by simp
qed


section \<open>Properties\<close>

text \<open>
  Fact: parsing inverts printing: arguments printed with quoted and escaped values, or
  without a value, are read back exactly, in order, whatever bytes the values contain.
\<close>

theorem args_roundtrip:
  assumes "\<forall>kv \<in> set args. fst kv \<noteq> [] \<and> 61 \<notin> set (fst kv) \<and> 32 \<notin> set (fst kv)"
  shows "args_parse (Some (concat (map print_arg args))) None =
    Some (fold (\<lambda>(key, value) m. m(key \<mapsto> value)) args Map.empty)"
proof -
  have "args_loop (concat (map print_arg args)) = args"
    using assms by (intro args_loop_print) auto
  then show ?thesis by (simp add: args_parse_def)
qed

theorem args_roundtrip_witness:
  "args_parse (Some (concat (map print_arg [([97], Some [34, 32, 92]), ([98], None)]))) None =
     Some [[97] \<mapsto> Some [34, 32, 92], [98] \<mapsto> None]"
  using args_roundtrip [of "[([97], Some [34, 32, 92]), ([98], None)]"] by simp

end
