(* ===== verification/Kprintf.thy ===== *)
theory Kprintf
  imports Kernel_Prelude
begin

text \<open>
  Formatted output, \<open>kernel/misc/kprintf.c\<close>.  The functions hand their characters to a callback one by one and count
  them; here they return the list of these characters, whose length is the count.  The callback of \<open>snprintf\<close>
  stores them in a buffer, that of \<open>printf\<close> passes them to the output function.  Variadic arguments are a list
  of 64-bit slots and string pointers; taking one that is not there is a fault, as is a format that ends
  inside of a conversion, where the code goes on behind the terminator.
\<close>

section \<open>Numbers\<close>

function dec_width :: "u64 \<Rightarrow> nat \<Rightarrow> nat" where
  "dec_width val n_width = (if val \<ge> 10 then dec_width (val div 10) (n_width + 1) else n_width)"
  by pat_completeness auto
termination
  by (relation "measure (\<lambda>(v, n). unat v)") (auto simp: word_le_nat_alt unat_div_distrib)

declare dec_width.simps [simp del]

text \<open>The loop that fills \<open>tmp\<close> from its end.\<close>

primrec dec_digits :: "nat \<Rightarrow> u64 \<Rightarrow> bytes" where
  "dec_digits 0 value = []"
| "dec_digits (Suc i) value = dec_digits i (value div 10) @ [ucast (value mod 10) + 48]"

definition dec_n_width :: "u64 \<Rightarrow> u32 \<Rightarrow> u64" where
  "dec_n_width value precision =
     (let precision = (if precision = -1 then 1 else precision);
          n_width = (if value = 0 then 0 else of_nat (dec_width value 1));
          p = (scast precision :: u64)
      in if n_width < p then p else n_width)"

text \<open>\<open>tmp\<close> has 100 characters and \<open>printed\<close> is an \<open>int\<close>: more digits or more padding is a fault.\<close>

definition print_dec :: "u64 \<Rightarrow> u32 \<Rightarrow> bool \<Rightarrow> bool \<Rightarrow> u32 \<Rightarrow> bytes option" where
  "print_dec value width fill_zero align_right precision =
     (let n_width = dec_n_width value precision;
          fill = (if fill_zero then 48 else 32);
          digits = dec_digits (unat n_width) value;
          count = (if align_right then unat width - unat n_width else unat width);
          pad = replicate (unat width - unat n_width) fill
      in if 100 < n_width \<or> 2 ^ 31 \<le> count then None
         else Some (if align_right then pad @ digits else digits @ pad))"

text \<open>Each step shifts four ones into \<open>j\<close>.\<close>

lemma nibble_shift: "bit (j * 16 + 15) n \<longleftrightarrow> n < 64 \<and> (n < 4 \<or> bit j (n - 4))" for j :: u64
proof -
  have "j * 16 + 15 = push_bit 4 j + mask 4" by (simp add: push_bit_eq_mult mask_eq_exp_minus_1)
  also have "\<dots> = push_bit 4 j OR mask 4" by (rule disjunctive_add) (auto simp: bit_push_bit_iff bit_mask_iff)
  finally show ?thesis by (auto simp: bit_simps)
qed

definition low_ones :: "u64 \<Rightarrow> nat" where
  "low_ones j = (LEAST n. n = 64 \<or> \<not> bit j n)"

lemma low_ones_grow: "j \<noteq> -1 \<Longrightarrow> low_ones j < 64 \<and> low_ones j < low_ones (j * 16 + 15)"
proof -
  assume "j \<noteq> -1"
  then obtain m where m: "m < 64" "\<not> bit j m" by (auto simp: bit_eq_iff)
  have le: "low_ones j \<le> m" unfolding low_ones_def by (rule Least_le) (use m in simp)
  have ones: "bit j n" if "n < low_ones j" for n using not_less_Least [OF that [unfolded low_ones_def]] by simp
  have "low_ones (j * 16 + 15) = 64 \<or> \<not> bit (j * 16 + 15) (low_ones (j * 16 + 15))"
    unfolding low_ones_def by (rule LeastI [of _ 64]) simp
  moreover have "bit (j * 16 + 15) n" if "n \<le> low_ones j" for n
  proof (cases "n < 4")
    case True
    then show ?thesis using that by (simp add: nibble_shift)
  next
    case False
    then have "n < 64" "n - 4 < low_ones j" using that le m by auto
    then show ?thesis using ones by (simp add: nibble_shift)
  qed
  ultimately have "low_ones (j * 16 + 15) = 64 \<or> \<not> low_ones (j * 16 + 15) \<le> low_ones j" by blast
  then show ?thesis using le m(1) by auto
qed

function hex_width :: "u64 \<Rightarrow> u64 \<Rightarrow> nat \<Rightarrow> nat" where
  "hex_width value j n_width =
     (if value > j \<and> j < -1 then hex_width value (j * 16 + 15) (n_width + 1) else n_width)"
  by pat_completeness auto
termination
  by (relation "measure (\<lambda>(v, j, n). 64 - low_ones j)") (auto intro!: diff_less_mono2 dest: low_ones_grow [OF less_imp_neq])

declare hex_width.simps [simp del]

definition hex_char :: "bool \<Rightarrow> u64 \<Rightarrow> u8" where
  "hex_char caps d = (if d < 10 then ucast d + 48 else ucast d - 10 + (if caps then 65 else 97))"

primrec hex_digits :: "bool \<Rightarrow> nat \<Rightarrow> u64 \<Rightarrow> bytes" where
  "hex_digits caps 0 value = []"
| "hex_digits caps (Suc i) value = hex_char caps (drop_bit (i * 4) value AND 15) # hex_digits caps i value"

definition print_hex :: "u64 \<Rightarrow> u32 \<Rightarrow> bool \<Rightarrow> bool \<Rightarrow> bool \<Rightarrow> bool \<Rightarrow> bytes" where
  "print_hex value width fill_zero alt caps align =
     (let n_width = hex_width value 15 1;
          used = int n_width + (if alt then 2 else 0);
          pad = nat (sint width - used)
      in (if \<not> fill_zero \<and> align then replicate pad 32 else []) @
         (if alt then [48, if caps then 88 else 120] else []) @
         (if fill_zero \<and> align then replicate pad 48 else []) @
         hex_digits caps n_width value @
         (if \<not> align then replicate pad 32 else []))"


section \<open>Arguments and conversions\<close>

datatype va = ArgInt u64 | ArgStr "bytes option"

fun va_long :: "va list \<Rightarrow> (u64 \<times> va list) option" where
  "va_long (ArgInt v # args) = Some (v, args)"
| "va_long _ = None"

definition va_int :: "va list \<Rightarrow> (u32 \<times> va list) option" where
  "va_int args = map_option (\<lambda>(v, args). (ucast v, args)) (va_long args)"

fun va_str :: "va list \<Rightarrow> (bytes option \<times> va list) option" where
  "va_str (ArgStr s # args) = Some (s, args)"
| "va_str _ = None"

record fspec =
  fs_width :: u32
  fs_align :: bool
  fs_fill_zero :: bool
  fs_big :: nat
  fs_alt :: bool
  fs_sign :: nat
  fs_precision :: u32

definition fspec_start :: fspec where
  "fspec_start = \<lparr>fs_width = 0, fs_align = True, fs_fill_zero = False, fs_big = 0, fs_alt = False, fs_sign = 0, fs_precision = -1\<rparr>"

fun parse_flags :: "bytes \<Rightarrow> va list \<Rightarrow> fspec \<Rightarrow> (bytes \<times> va list \<times> fspec) option" where
  "parse_flags [] args sp = Some ([], args, sp)"
| "parse_flags (c # f) args sp =
     (if c = 45 then parse_flags f args (sp\<lparr>fs_align := False\<rparr>)
      else if c = 35 then parse_flags f args (sp\<lparr>fs_alt := True\<rparr>)
      else if c = 42 then do { (w, args) \<leftarrow> va_int args; parse_flags f args (sp\<lparr>fs_width := w\<rparr>) }
      else if c = 48 then parse_flags f args (sp\<lparr>fs_fill_zero := True\<rparr>)
      else if c = 43 then parse_flags f args (sp\<lparr>fs_sign := 1\<rparr>)
      else if c = 32 then parse_flags f args (sp\<lparr>fs_sign := 2\<rparr>)
      else Some (c # f, args, sp))"

definition is_digit :: "u8 \<Rightarrow> bool" where
  "is_digit c \<longleftrightarrow> 48 \<le> c \<and> c \<le> 57"

fun parse_num :: "bytes \<Rightarrow> u32 \<Rightarrow> u32 \<times> bytes" where
  "parse_num [] n = (n, [])"
| "parse_num (c # f) n = (if is_digit c then parse_num f (n * 10 + (ucast c - 48)) else (n, c # f))"

definition starts :: "u8 \<Rightarrow> bytes \<Rightarrow> bool" where
  "starts c f \<longleftrightarrow> f \<noteq> [] \<and> hd f = c"

definition parse_precision :: "bytes \<Rightarrow> va list \<Rightarrow> (u32 \<times> bytes \<times> va list) option" where
  "parse_precision f args =
     (if starts 46 f then
        if starts 42 (tl f) then do { (p, args) \<leftarrow> va_int args; Some (p, tl (tl f), args) }
        else let (p, f) = parse_num (tl f) 0 in Some (p, f, args)
      else Some (-1, f, args))"

definition parse_mod :: "u8 \<Rightarrow> bytes \<times> nat \<Rightarrow> bytes \<times> nat" where
  "parse_mod m fb = (if starts m (fst fb) then (tl (fst fb), 2) else fb)"

definition parse_big :: "bytes \<Rightarrow> bytes \<times> nat" where
  "parse_big f =
     parse_mod 116 (parse_mod 122 (parse_mod 106
       (if starts 108 f then if starts 108 (tl f) then (tl (tl f), 2) else (tl f, 1) else (f, 0))))"

definition parse_spec :: "bytes \<Rightarrow> va list \<Rightarrow> (fspec \<times> bytes \<times> va list) option" where
  "parse_spec f args = do {
     (f, args, sp) \<leftarrow> parse_flags f args fspec_start;
     let (w, f) = parse_num f (fs_width sp);
     (p, f, args) \<leftarrow> parse_precision f args;
     let (f, big) = parse_big f;
     Some (sp\<lparr>fs_width := w, fs_precision := p, fs_big := big\<rparr>, f, args)
   }"

fun str_limited :: "bytes \<Rightarrow> nat \<Rightarrow> u32 \<Rightarrow> nat \<Rightarrow> bytes" where
  "str_limited [] count width precision = []"
| "str_limited (c # s) count width precision =
     (if precision = 0 then []
      else c # (if width \<noteq> 0 \<and> count + 1 = unat width then [] else str_limited s (count + 1) width (precision - 1)))"

fun str_whole :: "bytes \<Rightarrow> nat \<Rightarrow> u32 \<Rightarrow> bytes" where
  "str_whole [] count width = []"
| "str_whole (c # s) count width =
     c # (if width \<noteq> 0 \<and> count + 1 = unat width then [] else str_whole s (count + 1) width)"

definition convert_str :: "fspec \<Rightarrow> bytes option \<Rightarrow> bytes" where
  "convert_str sp s =
     (let s = (case s of None \<Rightarrow> [40, 110, 117, 108, 108, 41] | Some s \<Rightarrow> s);
          out = (if 0 \<le> sint (fs_precision sp) then str_limited s 0 (fs_width sp) (nat (sint (fs_precision sp)))
                 else str_whole s 0 (fs_width sp))
      in out @ replicate (unat (fs_width sp) - length out) 32)"

definition va_unsigned :: "nat \<Rightarrow> va list \<Rightarrow> (u64 \<times> va list) option" where
  "va_unsigned big args =
     (if big = 0 then map_option (\<lambda>(v, args). (ucast v, args)) (va_int args) else va_long args)"

definition va_signed :: "nat \<Rightarrow> va list \<Rightarrow> (u64 \<times> va list) option" where
  "va_signed big args =
     (if big = 0 then map_option (\<lambda>(v, args). (scast v, args)) (va_int args) else va_long args)"

definition convert_dec :: "fspec \<Rightarrow> u64 \<Rightarrow> bytes option" where
  "convert_dec sp val =
     (let sign = (if sint val < 0 then [45] else if fs_sign sp \<noteq> 0 then [if fs_sign sp = 2 then 32 else 43] else []);
          val = (if sint val < 0 then - val else val)
      in map_option ((@) sign) (print_dec val (fs_width sp) (fs_fill_zero sp) (fs_align sp) (fs_precision sp)))"

text \<open>The characters of a conversion, the arguments that are left, and whether the function returns there.\<close>

definition convert :: "u8 \<Rightarrow> fspec \<Rightarrow> va list \<Rightarrow> (bytes \<times> va list \<times> bool) option" where
  "convert c sp args =
     (if c = 115 then
        if fs_big sp \<noteq> 0 then Some ([], args, True)
        else do { (s, args) \<leftarrow> va_str args; Some (convert_str sp s, args, False) }
      else if c = 99 then do { (v, args) \<leftarrow> va_int args; Some ([ucast v], args, False) }
      else if c = 112 \<or> c = 88 \<or> c = 120 then do {
        (val, args) \<leftarrow> va_unsigned (if c = 112 then 2 else fs_big sp) args;
        Some (print_hex val (fs_width sp) (fs_fill_zero sp) (c = 112 \<or> fs_alt sp) (c AND 32 = 0) (fs_align sp), args, False)
      }
      else if c = 105 \<or> c = 100 then do {
        (val, args) \<leftarrow> va_signed (fs_big sp) args;
        out \<leftarrow> convert_dec sp val;
        Some (out, args, False)
      }
      else if c = 117 then do {
        (val, args) \<leftarrow> va_unsigned (fs_big sp) args;
        out \<leftarrow> print_dec val (fs_width sp) (fs_fill_zero sp) (fs_align sp) (fs_precision sp);
        Some (out, args, False)
      }
      else Some ([c], args, False))"

lemma parse_flags_shorter: "parse_flags f args sp = Some (f', args', sp') \<Longrightarrow> length f' \<le> length f"
proof (induction f arbitrary: args sp)
  case (Cons c f)
  then show ?case by (auto simp: bind_eq_Some_conv intro: le_SucI split: if_splits)
qed simp

lemma parse_num_shorter: "parse_num f n = (m, f') \<Longrightarrow> length f' \<le> length f"
  by (induction f n rule: parse_num.induct) (auto split: if_splits)

lemma parse_precision_shorter: "parse_precision f args = Some (p, f', args') \<Longrightarrow> length f' \<le> length f"
  by (auto simp: parse_precision_def bind_eq_Some_conv split: if_splits prod.splits dest!: parse_num_shorter)

lemma parse_mod_shorter: "length (fst (parse_mod m fb)) \<le> length (fst fb)"
  by (simp add: parse_mod_def)

lemma parse_big_shorter: "parse_big f = (f', big) \<Longrightarrow> length f' \<le> length f"
proof -
  assume p: "parse_big f = (f', big)"
  let ?x = "if starts 108 f then if starts 108 (tl f) then (tl (tl f), 2) else (tl f, 1) else (f, 0 :: nat)"
  have "length f' \<le> length (fst ?x)"
    using p parse_mod_shorter [of 106 ?x] parse_mod_shorter [of 122 "parse_mod 106 ?x"] parse_mod_shorter [of 116 "parse_mod 122 (parse_mod 106 ?x)"]
    by (simp add: parse_big_def)
  also have "\<dots> \<le> length f" by auto
  finally show ?thesis .
qed

lemma parse_spec_shorter: "parse_spec f args = Some (sp, f', args') \<Longrightarrow> length f' \<le> length f"
proof -
  assume s: "parse_spec f args = Some (sp, f', args')"
  then obtain f1 a1 sp1 where 1: "parse_flags f args fspec_start = Some (f1, a1, sp1)" by (auto simp: parse_spec_def bind_eq_Some_conv)
  obtain w f2 where 2: "parse_num f1 (fs_width sp1) = (w, f2)" by fastforce
  obtain p f3 a3 where 3: "parse_precision f2 a1 = Some (p, f3, a3)" using s 1 2 by (auto simp: parse_spec_def bind_eq_Some_conv)
  obtain f4 big where 4: "parse_big f3 = (f4, big)" by fastforce
  have "f' = f4" using s 1 2 3 4 by (simp add: parse_spec_def)
  then show ?thesis using parse_flags_shorter [OF 1] parse_num_shorter [OF 2] parse_precision_shorter [OF 3] parse_big_shorter [OF 4] by simp
qed

function xvasprintf_loop :: "bytes \<Rightarrow> va list \<Rightarrow> (bytes \<times> va list \<times> bool) option" where
  "xvasprintf_loop [] args = Some ([], args, False)"
| "xvasprintf_loop (c # f) args =
     (if c \<noteq> 37 then do {
        (out, args, stop) \<leftarrow> xvasprintf_loop f args;
        Some (c # out, args, stop)
      } else do {
        (sp, g, args) \<leftarrow> parse_spec f args;
        if g = [] then None
        else do {
          (out, args, stop) \<leftarrow> convert (hd g) sp args;
          if stop then Some (out, args, True)
          else do {
            (out', args, stop) \<leftarrow> xvasprintf_loop (tl g) args;
            Some (out @ out', args, stop)
          }
        }
      })"
  by pat_completeness auto
termination by (relation "measure (\<lambda>(f, args). length f)") (auto dest!: parse_spec_shorter simp: less_Suc_eq_le)

declare xvasprintf_loop.simps(2) [simp del]

definition xvasprintf :: "bytes \<Rightarrow> va list \<Rightarrow> bytes option" where
  "xvasprintf fmt args = map_option fst (xvasprintf_loop fmt args)"


section \<open>Bounded output\<close>

record cb_data =
  cb_str :: bytes
  cb_size :: u64
  cb_written :: u64

text \<open>\<open>cb_str\<close> is the memory of the caller; a store behind its end is a fault.\<close>

definition store_char :: "u64 \<Rightarrow> u8 \<Rightarrow> cb_data \<Rightarrow> cb_data option" where
  "store_char i c d = (if unat i < length (cb_str d) then Some (d\<lparr>cb_str := (cb_str d)[unat i := c]\<rparr>) else None)"

definition cb_sprintf :: "u8 \<Rightarrow> cb_data \<Rightarrow> cb_data option" where
  "cb_sprintf c d =
     (if cb_size d > cb_written d + 1 then do {
        d \<leftarrow> store_char (cb_written d) c d;
        let d = d\<lparr>cb_written := cb_written d + 1\<rparr>;
        if cb_written d < cb_size d then store_char (cb_written d) 0 d else Some d
      } else Some d)"

fun cb_all :: "bytes \<Rightarrow> cb_data \<Rightarrow> cb_data option" where
  "cb_all [] d = Some d"
| "cb_all (c # cs) d = do { d \<leftarrow> cb_sprintf c d; cb_all cs d }"

text \<open>The result is the number of characters as an \<open>int\<close>.\<close>

definition vsnprintf :: "bytes \<Rightarrow> u64 \<Rightarrow> bytes \<Rightarrow> va list \<Rightarrow> (u32 \<times> bytes) option" where
  "vsnprintf str sz fmt args = do {
     out \<leftarrow> xvasprintf fmt args;
     d \<leftarrow> cb_all out \<lparr>cb_str = str, cb_size = sz, cb_written = 0\<rparr>;
     d \<leftarrow> cb_sprintf 0 d;
     Some (of_nat (length out), cb_str d)
   }"

definition snprintf :: "bytes \<Rightarrow> u64 \<Rightarrow> bytes \<Rightarrow> va list \<Rightarrow> (u32 \<times> bytes) option" where
  "snprintf str sz fmt args = do {
     out \<leftarrow> xvasprintf fmt args;
     d \<leftarrow> cb_all out \<lparr>cb_str = str, cb_size = sz, cb_written = 0\<rparr>;
     d \<leftarrow> cb_sprintf 0 d;
     Some (of_nat (length out), cb_str d)
   }"

text \<open>\<open>printf\<close> hands every character to \<open>printf_output\<close>, given here by what it does to a state.\<close>

definition cb_printf :: "(bytes \<Rightarrow> 's \<Rightarrow> 's) \<Rightarrow> u8 \<Rightarrow> 's \<Rightarrow> 's" where
  "cb_printf printf_output c st = printf_output [c] st"

definition printf :: "(bytes \<Rightarrow> 's \<Rightarrow> 's) \<Rightarrow> bytes \<Rightarrow> va list \<Rightarrow> 's \<Rightarrow> (u32 \<times> 's) option" where
  "printf printf_output fmt args st = do {
     out \<leftarrow> xvasprintf fmt args;
     Some (of_nat (length out), fold (cb_printf printf_output) out st)
   }"


section \<open>What numbers print as\<close>

definition dec_value :: "bytes \<Rightarrow> nat" where
  "dec_value cs = foldl (\<lambda>n c. 10 * n + (unat c - 48)) 0 cs"

lemma dec_value_snoc: "dec_value (cs @ [c]) = 10 * dec_value cs + (unat c - 48)"
  by (simp add: dec_value_def)

lemma unat_div_10: "unat (v div 10) = unat v div 10" and unat_mod_10: "unat (v mod 10) = unat v mod 10" for v :: u64
  by (simp_all add: unat_div_distrib unat_mod_distrib)

lemma dec_digit: "unat (ucast (v mod 10 :: u64) + 48 :: u8) = unat v mod 10 + 48"
proof -
  have lt: "unat v mod 10 < 10" by simp
  have "unat (ucast (v mod 10) :: u8) = unat v mod 10"
    by (simp add: unsigned_ucast_eq unat_mod_10 take_bit_nat_eq_self)
  then show ?thesis using lt by (simp add: unat_word_ariths)
qed

lemma length_dec_digits [simp]: "length (dec_digits n v) = n"
  by (induction n arbitrary: v) auto

lemma dec_width_spec:
  "n \<le> dec_width v n \<and> unat v < 10 ^ (dec_width v n - n + 1) \<and> (unat v \<noteq> 0 \<longrightarrow> 10 ^ (dec_width v n - n) \<le> unat v)"
proof (induction v n rule: dec_width.induct)
  case (1 v n)
  show ?case
  proof (cases "v \<ge> 10")
    case True
    let ?k = "dec_width (v div 10) (n + 1)"
    have w: "dec_width v n = ?k" using True by (subst dec_width.simps) simp
    have ge: "10 \<le> unat v" using True by (simp add: word_le_nat_alt)
    have IH: "n + 1 \<le> ?k" "unat v div 10 < 10 ^ (?k - (n + 1) + 1)" "10 ^ (?k - (n + 1)) \<le> unat v div 10"
      using 1 [OF True] ge by (simp_all add: unat_div_10)
    obtain m where m: "?k = n + 1 + m" using IH(1) le_Suc_ex by blast
    have "unat v < 10 ^ (m + 2)" "10 ^ (m + 1) \<le> unat v" using IH(2,3) unfolding m by simp_all
    then show ?thesis unfolding w m by simp
  next
    case False
    then have "unat v < 10" by (simp add: word_le_nat_alt)
    then show ?thesis using False by (subst dec_width.simps, subst (2) dec_width.simps, subst (3) dec_width.simps) auto
  qed
qed

lemma dec_width_bound: "dec_width v 1 \<le> 20"
proof (rule ccontr)
  assume gt: "\<not> ?thesis"
  have "v \<noteq> 0" using gt by (auto simp: dec_width.simps)
  have k: "20 \<le> dec_width v 1 - 1" using gt by simp
  then have "(10::nat) ^ 20 \<le> 10 ^ (dec_width v 1 - 1)" by (rule power_increasing) simp
  moreover have "unat v < 2 ^ 64" by (rule unat_lt_64)
  ultimately show False using dec_width_spec [of 1 v] \<open>v \<noteq> 0\<close> by (simp add: unat_eq_0)
qed

definition hex_digit :: "u8 \<Rightarrow> nat" where
  "hex_digit c = (if c \<le> 57 then unat c - 48 else if c \<le> 70 then unat c - 55 else unat c - 87)"

definition hex_value :: "bytes \<Rightarrow> nat" where
  "hex_value cs = foldl (\<lambda>n c. 16 * n + hex_digit c) 0 cs"

lemma foldl_hex: "foldl (\<lambda>n c. 16 * n + hex_digit c) a cs = a * 16 ^ length cs + hex_value cs"
proof (induction cs arbitrary: a)
  case (Cons c cs)
  show ?case using Cons [of "16 * a + hex_digit c"] Cons [of "hex_digit c"] by (simp add: hex_value_def algebra_simps)
qed (simp add: hex_value_def)

lemma length_hex_digits [simp]: "length (hex_digits caps n v) = n"
  by (induction n) auto

lemma hex_value_Cons: "hex_value (c # cs) = hex_digit c * 16 ^ length cs + hex_value cs"
  using foldl_hex [of "hex_digit c" cs] by (simp add: hex_value_def)

lemma hex_digit_char:
  assumes "unat d < 16"
  shows "hex_digit (hex_char caps d) = unat d"
proof -
  have "d = of_nat (unat d)" by simp
  moreover have "unat d \<in> set [0..<16]" using assms by simp
  ultimately have "\<exists>k \<in> set [0..<16]. d = of_nat k \<and> unat d = k" by metis
  then show ?thesis by (auto simp: hex_char_def hex_digit_def upt_rec)
qed

lemma nibble: "unat (drop_bit (i * 4) v AND 15) = unat v div 16 ^ i mod 16" for v :: u64
proof -
  have "(drop_bit (i * 4) v AND 15) = take_bit 4 (drop_bit (i * 4) v)" by (simp add: take_bit_eq_mask mask_eq_exp_minus_1)
  then have "unat (drop_bit (i * 4) v AND 15) = take_bit 4 (drop_bit (i * 4) (unat v))"
    by (simp add: unsigned_take_bit_eq unsigned_drop_bit_eq take_bit_nat_eq_self [OF unat_lt_64])
  moreover have "(2::nat) ^ (i * 4) = 16 ^ i" by (subst mult.commute) (simp add: power_mult)
  ultimately show ?thesis by (simp add: take_bit_eq_mod drop_bit_eq_div)
qed

lemma hex_digits_value: "hex_value (hex_digits caps n v) = unat v mod 16 ^ n"
proof (induction n)
  case (Suc n)
  have "unat v mod 16 ^ Suc n = 16 ^ n * (unat v div 16 ^ n mod 16) + unat v mod 16 ^ n"
    by (metis mod_mult2_eq power_Suc2)
  then show ?case using Suc by (simp add: hex_value_Cons hex_digit_char nibble)
qed (simp add: hex_value_def)

text \<open>The mask has one nibble of ones per digit.\<close>

lemma hex_width_spec:
  "1 \<le> k \<Longrightarrow> k \<le> 16 \<Longrightarrow> (k = 1 \<or> 16 ^ (k - 1) \<le> unat v) \<Longrightarrow>
   \<exists>n. hex_width v (mask (4 * k)) k = n \<and> k \<le> n \<and> n \<le> 16 \<and> unat v < 16 ^ n \<and> (n = 1 \<or> 16 ^ (n - 1) \<le> unat v)"
proof (induction "16 - k" arbitrary: k)
  case 0
  then have k: "k = 16" by simp
  have "hex_width v (mask (4 * k)) k = k" unfolding k by (subst hex_width.simps) (simp add: mask_eq_exp_minus_1)
  moreover have "unat v < 16 ^ k" using unat_lt_64 [of v] by (simp add: k)
  ultimately show ?case using 0 by auto
next
  case (Suc d)
  have k: "k < 16" using Suc.hyps(2) by simp
  have um: "unat (mask (4 * k) :: u64) = 16 ^ k - 1"
  proof -
    have "(16::nat) ^ k < 16 ^ 16" using k by (intro power_strict_increasing) simp_all
    then have "unat (of_nat (16 ^ k - 1) :: u64) = 16 ^ k - 1" by (intro unat_of_nat_64) simp
    moreover have "(of_nat (16 ^ k - 1) :: u64) = mask (4 * k)" by (simp add: of_nat_diff mask_eq_exp_minus_1 power_mult)
    ultimately show ?thesis by simp
  qed
  have nx: "mask (4 * k) * 16 + 15 = (mask (4 * Suc k) :: u64)"
    by (simp add: mask_eq_exp_minus_1 algebra_simps power_add)
  have full: "mask (4 * k) < (-1 :: u64)"
  proof -
    have "(16::nat) ^ k < 16 ^ 16" using k by (intro power_strict_increasing) simp_all
    moreover have "unat (-1 :: u64) = 2 ^ 64 - 1" by (simp add: unsigned_minus_1_eq_mask mask_eq_exp_minus_1)
    ultimately show ?thesis using um by (simp add: word_less_nat_alt)
  qed
  show ?case
  proof (cases "unat v < 16 ^ k")
    case True
    then have "\<not> v > mask (4 * k)" using um by (simp add: word_less_nat_alt)
    then have "hex_width v (mask (4 * k)) k = k" by (subst hex_width.simps) simp
    then show ?thesis using True Suc.prems by auto
  next
    case False
    moreover have "(0::nat) < 16 ^ k" by simp
    ultimately have "v > mask (4 * k)" unfolding word_less_nat_alt um by linarith
    then have "hex_width v (mask (4 * k)) k = hex_width v (mask (4 * Suc k)) (Suc k)"
      using full nx by (subst hex_width.simps) simp
    moreover have "d = 16 - Suc k" "Suc k \<le> 16" "16 ^ (Suc k - 1) \<le> unat v" using Suc.hyps(2) k False by simp_all
    ultimately show ?thesis using Suc.hyps(1) [of "Suc k"] by (metis Suc_leD Suc_le_mono le0 One_nat_def)
  qed
qed

lemma print_hex_plain:
  obtains n where "print_hex v 0 f False caps a = hex_digits caps n v" and "hex_value (hex_digits caps n v) = unat v"
    and "1 \<le> n" and "n = 1 \<or> 16 ^ (n - 1) \<le> unat v"
proof -
  have "(15 :: u64) = mask (4 * 1)" by (simp add: mask_eq_exp_minus_1)
  then obtain n where n: "hex_width v 15 1 = n" "1 \<le> n" "unat v < 16 ^ n" "n = 1 \<or> 16 ^ (n - 1) \<le> unat v"
    using hex_width_spec [of 1 v] by auto
  have "print_hex v 0 f False caps a = hex_digits caps n v" using n(1) by (auto simp: print_hex_def Let_def)
  moreover have "hex_value (hex_digits caps n v) = unat v" using n(3) by (simp add: hex_digits_value)
  ultimately show thesis using that n by blast
qed


section \<open>The buffer of snprintf\<close>

text \<open>What is in the buffer after some characters: those that fit, the terminator, and the rest as it was.\<close>

definition filled :: "bytes \<Rightarrow> nat \<Rightarrow> bytes \<Rightarrow> cb_data \<Rightarrow> bool" where
  "filled str sz out d \<longleftrightarrow> unat (cb_size d) = sz \<and> length (cb_str d) = length str \<and>
     unat (cb_written d) = min (length out) (sz - 1) \<and>
     take (unat (cb_written d)) (cb_str d) = take (sz - 1) out \<and>
     (out \<noteq> [] \<longrightarrow> 1 < sz \<longrightarrow> cb_str d ! unat (cb_written d) = 0) \<and>
     (\<forall>i < length str. min (length out) (sz - 1) < i \<longrightarrow> cb_str d ! i = str ! i) \<and>
     (sz \<le> 1 \<longrightarrow> cb_str d = str)"

lemma cb_sprintf_filled:
  assumes f: "filled str sz out d" and room: "sz \<le> length str"
  obtains d' where "cb_sprintf c d = Some d'" and "filled str sz (out @ [c]) d'"
proof (cases "length out + 1 < sz")
  case True
  let ?w = "length out"
  have w: "unat (cb_written d) = ?w" "unat (cb_size d) = sz" "length (cb_str d) = length str" using f True by (auto simp: filled_def)
  have s64: "sz < 2 ^ 64" using w(2) unat_lt_64 [of "cb_size d"] by simp
  have w1: "unat (cb_written d + 1) = ?w + 1" using w(1) True s64 by (subst unat_succ_64) simp_all
  have lt: "cb_written d + 1 < cb_size d" using w1 w(2) True by (simp add: word_less_nat_alt)
  let ?str = "(cb_str d)[?w := c, ?w + 1 := 0]"
  let ?d = "d\<lparr>cb_str := ?str, cb_written := cb_written d + 1\<rparr>"
  have run: "cb_sprintf c d = Some ?d"
    using lt w w1 True room by (cases d) (simp add: cb_sprintf_def store_char_def Let_def)
  have "take (?w + 1) ?str = out @ [c]"
  proof -
    have "take ?w (cb_str d) = out" using f True w(1) by (simp add: filled_def)
    then show ?thesis using True room w(3) by (simp add: take_Suc_conv_app_nth)
  qed
  moreover have "i < length str \<Longrightarrow> ?w + 1 < i \<Longrightarrow> ?str ! i = str ! i" for i
    using f True by (simp add: filled_def)
  ultimately have "filled str sz (out @ [c]) ?d" unfolding filled_def using True w w1 room by auto
  then show thesis using that run by blast
next
  case False
  have nlt: "\<not> cb_written d + 1 < cb_size d"
  proof -
    have w: "unat (cb_written d) = sz - 1" "unat (cb_size d) = sz" using f False by (auto simp: filled_def)
    show ?thesis
    proof (cases "sz = 0")
      case True
      then show ?thesis using w by (simp add: word_less_nat_alt)
    next
      case pos: False
      then have "unat (cb_written d + 1) = sz" using w unat_lt_64 [of "cb_size d"] by (subst unat_succ_64) simp_all
      then show ?thesis using w by (simp add: word_less_nat_alt)
    qed
  qed
  then have "cb_sprintf c d = Some d" by (simp add: cb_sprintf_def)
  moreover have "filled str sz (out @ [c]) d"
    using f False unfolding filled_def by (auto simp: min_def not_less)
  ultimately show thesis using that by blast
qed


lemma cb_all_filled: "filled str sz out d \<Longrightarrow> sz \<le> length str \<Longrightarrow> \<exists>d'. cb_all cs d = Some d' \<and> filled str sz (out @ cs) d'"
proof (induction cs arbitrary: out d)
  case (Cons c cs)
  obtain d1 where d1: "cb_sprintf c d = Some d1" "filled str sz (out @ [c]) d1" by (rule cb_sprintf_filled [OF Cons.prems])
  show ?case using Cons.IH [OF d1(2) Cons.prems(2)] d1(1) by simp
qed simp

lemma snprintf_filled:
  assumes "xvasprintf fmt args = Some out" and "unat sz \<le> length str"
  obtains d where "snprintf str sz fmt args = Some (of_nat (length out), cb_str d)" and "filled str (unat sz) (out @ [0]) d"
proof -
  let ?d = "\<lparr>cb_str = str, cb_size = sz, cb_written = 0\<rparr>"
  have "filled str (unat sz) [] ?d" by (simp add: filled_def)
  then obtain d1 where d1: "cb_all out ?d = Some d1" "filled str (unat sz) out d1" using cb_all_filled [of str "unat sz" "[]" ?d out] assms(2) by auto
  obtain d2 where d2: "cb_sprintf 0 d1 = Some d2" "filled str (unat sz) (out @ [0]) d2" by (rule cb_sprintf_filled [OF d1(2) assms(2)])
  have "snprintf str sz fmt args = Some (of_nat (length out), cb_str d2)" using assms(1) d1(1) d2(1) by (simp add: snprintf_def)
  then show thesis using that d2(2) by blast
qed

section \<open>Formats in sequence\<close>

lemma starts_append: "f \<noteq> [] \<Longrightarrow> starts c (f @ g) = starts c f"
  by (simp add: starts_def)

lemma parse_flags_append: "parse_flags f args sp = Some (r, args', sp') \<Longrightarrow> r \<noteq> [] \<Longrightarrow> parse_flags (f @ g) args sp = Some (r @ g, args', sp')"
proof (induction f arbitrary: args sp)
  case (Cons c f)
  show ?case
  proof (cases "c = 42")
    case True
    then obtain w a where "va_int args = Some (w, a)" "parse_flags f a (sp\<lparr>fs_width := w\<rparr>) = Some (r, args', sp')"
      using Cons.prems by (auto simp: bind_eq_Some_conv)
    then show ?thesis using True Cons.IH Cons.prems(2) by simp
  next
    case False
    then show ?thesis using Cons.prems Cons.IH by (simp split: if_splits)
  qed
qed simp

lemma parse_num_append: "parse_num f n = (m, r) \<Longrightarrow> r \<noteq> [] \<Longrightarrow> parse_num (f @ g) n = (m, r @ g)"
  by (induction f n rule: parse_num.induct) (auto split: if_splits)

lemma parse_precision_append:
  assumes "parse_precision f args = Some (p, r, args')" and "r \<noteq> []"
  shows "parse_precision (f @ g) args = Some (p, r @ g, args')"
proof -
  have f: "f \<noteq> []" using parse_precision_shorter [OF assms(1)] assms(2) by auto
  show ?thesis
  proof (cases "starts 46 f")
    case True
    have t: "tl f \<noteq> []" using assms True by (auto simp: parse_precision_def starts_def)
    show ?thesis
    proof (cases "starts 42 (tl f)")
      case star: True
      then show ?thesis using assms True f t by (auto simp: parse_precision_def starts_append bind_eq_Some_conv)
    next
      case False
      obtain m q where m: "parse_num (tl f) 0 = (m, q)" by fastforce
      then have "parse_num (tl f @ g) 0 = (m, q @ g)" using parse_num_append assms True False by (simp add: parse_precision_def)
      then show ?thesis using assms True False f t m by (simp add: parse_precision_def starts_append)
    qed
  next
    case False
    then show ?thesis using assms f by (simp add: parse_precision_def starts_append)
  qed
qed

lemma parse_mod_append: "parse_mod m (f, b) = (r, b') \<Longrightarrow> r \<noteq> [] \<Longrightarrow> parse_mod m (f @ g, b) = (r @ g, b') \<and> f \<noteq> []"
  by (cases f) (auto simp: parse_mod_def starts_def split: if_splits)

lemma parse_big_append:
  assumes "parse_big f = (r, big)" and "r \<noteq> []"
  shows "parse_big (f @ g) = (r @ g, big)"
proof -
  let ?x = "if starts 108 f then if starts 108 (tl f) then (tl (tl f), 2) else (tl f, 1) else (f, 0 :: nat)"
  obtain f0 b0 where 0: "?x = (f0, b0)" by fastforce
  obtain f1 b1 where 1: "parse_mod 106 (f0, b0) = (f1, b1)" by fastforce
  obtain f2 b2 where 2: "parse_mod 122 (f1, b1) = (f2, b2)" by fastforce
  have 3: "parse_mod 116 (f2, b2) = (r, big)" using assms(1) 0 1 2 by (simp add: parse_big_def)
  have a3: "parse_mod 116 (f2 @ g, b2) = (r @ g, big)" "f2 \<noteq> []" using parse_mod_append [OF 3 assms(2)] by auto
  have a2: "parse_mod 122 (f1 @ g, b1) = (f2 @ g, b2)" "f1 \<noteq> []" using parse_mod_append [OF 2 a3(2)] by auto
  have a1: "parse_mod 106 (f0 @ g, b0) = (f1 @ g, b1)" "f0 \<noteq> []" using parse_mod_append [OF 1 a2(2)] by auto
  have "f \<noteq> []" "starts 108 f \<Longrightarrow> tl f \<noteq> []" using 0 a1(2) by (auto split: if_splits)
  then have "(if starts 108 (f @ g) then if starts 108 (tl (f @ g)) then (tl (tl (f @ g)), 2) else (tl (f @ g), 1) else (f @ g, 0)) = (f0 @ g, b0)"
    using 0 a1(2) by (auto simp: starts_append split: if_splits)
  then show ?thesis using a1(1) a2(1) a3(1) by (simp add: parse_big_def)
qed

lemma parse_spec_append:
  assumes s: "parse_spec f args = Some (sp, r, args')" and r: "r \<noteq> []"
  shows "parse_spec (f @ g) args = Some (sp, r @ g, args')"
proof -
  obtain f1 a1 sp1 where 1: "parse_flags f args fspec_start = Some (f1, a1, sp1)" using s by (auto simp: parse_spec_def bind_eq_Some_conv)
  obtain w f2 where 2: "parse_num f1 (fs_width sp1) = (w, f2)" by fastforce
  obtain p f3 a3 where 3: "parse_precision f2 a1 = Some (p, f3, a3)" using s 1 2 by (auto simp: parse_spec_def bind_eq_Some_conv)
  obtain big where 4: "parse_big f3 = (r, big)" using s 1 2 3 by (cases "parse_big f3") (simp add: parse_spec_def)
  have ne: "f3 \<noteq> []" "f2 \<noteq> []" "f1 \<noteq> []"
    using r parse_big_shorter [OF 4] parse_precision_shorter [OF 3] parse_num_shorter [OF 2] by auto
  show ?thesis
    using s 1 2 3 4 parse_flags_append [OF 1 ne(3), of g] parse_num_append [OF 2 ne(2), of g] parse_precision_append [OF 3 ne(1), of g]
      parse_big_append [OF 4 r, of g] by (simp add: parse_spec_def)
qed

lemma xvasprintf_loop_append:
  "xvasprintf_loop f args = Some (out, args', False) \<Longrightarrow>
   xvasprintf_loop (f @ g) args = map_option (\<lambda>(out', a, st). (out @ out', a, st)) (xvasprintf_loop g args')"
proof (induction "length f" arbitrary: f args out rule: less_induct)
  case less
  show ?case
  proof (cases f)
    case Nil
    then show ?thesis using less.prems by (cases "xvasprintf_loop g args'") auto
  next
    case (Cons c f')
    show ?thesis
    proof (cases "c = 37")
      case False
      then obtain o1 where o1: "xvasprintf_loop f' args = Some (o1, args', False)" "out = c # o1"
        using less.prems Cons by (auto simp: xvasprintf_loop.simps(2) bind_eq_Some_conv)
      show ?thesis using less.hyps [OF _ o1(1)] Cons False o1(2)
        by (cases "xvasprintf_loop g args'") (auto simp: xvasprintf_loop.simps(2))
    next
      case True
      obtain sp r a1 where p: "parse_spec f' args = Some (sp, r, a1)" "r \<noteq> []"
        using less.prems Cons True by (auto simp: xvasprintf_loop.simps(2) bind_eq_Some_conv split: if_splits)
      obtain o1 a2 where c: "convert (hd r) sp a1 = Some (o1, a2, False)"
        using less.prems Cons True p by (auto simp: xvasprintf_loop.simps(2) bind_eq_Some_conv split: if_splits)
      obtain o2 where o2: "xvasprintf_loop (tl r) a2 = Some (o2, args', False)" "out = o1 @ o2"
        using less.prems Cons True p c by (auto simp: xvasprintf_loop.simps(2) bind_eq_Some_conv)
      have "length (tl r) < length f" using parse_spec_shorter [OF p(1)] Cons p(2) by (cases r) auto
      from less.hyps [OF this o2(1)] show ?thesis using Cons True p c o2(2) parse_spec_append [OF p, of g]
        by (cases "xvasprintf_loop g args'") (auto simp: xvasprintf_loop.simps(2))
    qed
  qed
qed


section \<open>Reference texts\<close>

text \<open>The canonical decimal text of a number.\<close>

fun decimal :: "nat \<Rightarrow> bytes" where
  "decimal n = (if n < 10 then [of_nat n + 48] else decimal (n div 10) @ [of_nat (n mod 10) + 48])"

declare decimal.simps [simp del]

lemma dec_width_shift: "dec_width v (n + m) = dec_width v n + m"
proof (induction v n rule: dec_width.induct)
  case (1 v n)
  show ?case
    by (subst (1 2) dec_width.simps) (use 1 in simp)
qed

lemma dec_char: "ucast (v mod 10 :: u64) + 48 = (of_nat (unat v mod 10) + 48 :: u8)"
proof -
  have "unat (of_nat (unat v mod 10) :: u8) = unat v mod 10" by (simp add: unsigned_of_nat take_bit_nat_eq_self)
  then have "unat (of_nat (unat v mod 10) + 48 :: u8) = unat v mod 10 + 48" by (simp add: unat_word_ariths)
  then show ?thesis by (metis dec_digit word_unat_eq_iff)
qed

lemma dec_digits_decimal: "dec_digits (dec_width v 1) v = decimal (unat v)"
proof (induction "unat v" arbitrary: v rule: less_induct)
  case less
  show ?case
  proof (cases "v \<ge> 10")
    case True
    then have ge: "10 \<le> unat v" by (simp add: word_le_nat_alt)
    have "dec_width v 1 = Suc (dec_width (v div 10) 1)"
      using True dec_width_shift [of "v div 10" 1 1] by (subst dec_width.simps) simp
    moreover have "dec_digits (dec_width (v div 10) 1) (v div 10) = decimal (unat v div 10)"
      using less [of "v div 10"] ge by (simp add: unat_div_10)
    ultimately show ?thesis using ge dec_char [of v] by (subst decimal.simps) simp
  next
    case False
    then have lt: "unat v < 10" by (simp add: word_le_nat_alt)
    have "dec_width v 1 = 1" using False by (subst dec_width.simps) simp
    then show ?thesis using lt dec_char [of v] by (subst decimal.simps) simp
  qed
qed

lemma dec_n_width_plain: "unat (dec_n_width v (-1)) = dec_width v 1"
proof (cases "v = 0")
  case True
  then show ?thesis by (simp add: dec_n_width_def dec_width.simps)
next
  case False
  have "1 \<le> dec_width v 1" using dec_width_spec [of 1 v] by blast
  moreover have "unat (of_nat (dec_width v 1) :: u64) = dec_width v 1"
    using dec_width_bound [of v] by (intro unat_of_nat_64) simp
  ultimately show ?thesis using False by (simp add: dec_n_width_def Let_def word_less_nat_alt)
qed

definition pad_char :: "bool \<Rightarrow> u8" where
  "pad_char fill_zero = (if fill_zero then 48 else 32)"

lemma print_dec_text:
  assumes "unat w < 2 ^ 31"
  shows "print_dec v w z al (-1) =
    Some (let txt = decimal (unat v); pad = replicate (unat w - length txt) (pad_char z) in if al then pad @ txt else txt @ pad)"
proof -
  have len: "length (decimal (unat v)) = dec_width v 1" by (simp flip: dec_digits_decimal)
  have "\<not> 100 < dec_n_width v (-1)" using dec_width_bound [of v] dec_n_width_plain [of v] by (simp add: word_less_nat_alt)
  then show ?thesis using assms len using dec_digits_decimal [of v]
    by (auto simp: print_dec_def Let_def dec_n_width_plain pad_char_def)
qed

lemma decimal_value: "dec_value (decimal n) = n"
proof (induction n rule: decimal.induct)
  case (1 n)
  have c: "unat (of_nat m + 48 :: u8) = m + 48" if "m < 10" for m
    using that by (simp add: unat_word_ariths unsigned_of_nat take_bit_nat_eq_self)
  show ?case
  proof (cases "n < 10")
    case True
    then show ?thesis using c [of n] by (subst decimal.simps) (simp add: dec_value_def)
  next
    case False
    then show ?thesis using 1 c [of "n mod 10"] by (subst decimal.simps) (simp add: dec_value_snoc)
  qed
qed

lemma decimal_digits: "c \<in> set (decimal n) \<Longrightarrow> is_digit c"
proof (induction n rule: decimal.induct)
  case (1 n)
  have d: "is_digit (of_nat m + 48)" if "m < 10" for m
    using that by (simp add: is_digit_def word_le_nat_alt unat_word_ariths unsigned_of_nat take_bit_nat_eq_self)
  show ?case using 1 d [of n] d [of "n mod 10"] by (subst (asm) (2) decimal.simps) (auto split: if_splits)
qed

lemma decimal_not_empty [simp]: "decimal n \<noteq> []"
  by (subst decimal.simps) simp

text \<open>The text of an integer, and its value.\<close>

definition int_text :: "int \<Rightarrow> bytes" where
  "int_text k = (if k < 0 then 45 # decimal (nat (- k)) else decimal (nat k))"

definition int_value :: "bytes \<Rightarrow> int" where
  "int_value cs = (if starts 45 cs then - int (dec_value (tl cs)) else int (dec_value cs))"

lemma int_text_value: "int_value (int_text k) = k"
proof -
  have "is_digit (hd (decimal (nat k)))" by (rule decimal_digits [OF list.set_sel(1)]) simp
  then have "\<not> starts 45 (decimal (nat k))" by (auto simp: starts_def is_digit_def)
  then show ?thesis by (simp add: int_text_def int_value_def starts_def decimal_value)
qed

lemma unat_minus_64: "sint v < 0 \<Longrightarrow> unat (- v) = nat (- sint v)" for v :: u64
proof -
  assume neg: "sint v < 0"
  have "- v = word_of_int (- sint v)" by simp
  then have "uint (- v) = take_bit 64 (- sint v)" using uint_word_of_int_eq [of "- sint v", where 'a = 64] by simp
  also have "\<dots> = - sint v" using neg sint_greater_eq [of v] by (intro take_bit_int_eq_self) simp_all
  finally show ?thesis by (simp add: unat_eq_nat_uint)
qed

lemma unat_sint_64: "0 \<le> sint v \<Longrightarrow> unat v = nat (sint v)" for v :: u64
proof -
  assume pos: "0 \<le> sint v"
  have "uint v = take_bit 64 (sint v)" by (subst uint_sint) simp
  also have "\<dots> = sint v" using pos sint_less [of v] by (intro take_bit_int_eq_self) simp_all
  finally show ?thesis by (simp add: unat_eq_nat_uint)
qed

lemma convert_dec_plain:
  assumes "fs_width sp = 0" "fs_sign sp = 0" "fs_precision sp = -1"
  shows "convert_dec sp v = Some (int_text (sint v))"
proof (cases "sint v < 0")
  case True
  then show ?thesis using assms by (simp add: convert_dec_def print_dec_text int_text_def unat_minus_64 Let_def)
next
  case False
  then have "unat v = nat (sint v)" by (intro unat_sint_64) simp
  then show ?thesis using False assms by (simp add: convert_dec_def print_dec_text int_text_def Let_def)
qed

section \<open>Properties\<close>

lemma long_loop: "xvasprintf [37, 108, 100] [ArgInt v] = Some (int_text (sint v))"
proof -
  let ?sp = "fspec_start\<lparr>fs_width := 0, fs_precision := -1, fs_big := 1\<rparr>"
  have "parse_spec [108, 100] [ArgInt v] = Some (?sp, [100], [ArgInt v])"
    by (simp add: parse_spec_def parse_precision_def parse_big_def parse_mod_def starts_def fspec_start_def is_digit_def word_le_nat_alt)
  moreover have "convert 100 ?sp [ArgInt v] = Some (int_text (sint v), [], False)"
    by (simp add: convert_def va_signed_def convert_dec_plain fspec_start_def)
  ultimately show ?thesis by (simp add: xvasprintf_def xvasprintf_loop.simps(2))
qed

text \<open>Property C21: what \<open>%ld\<close> prints reads back as the signed argument, for all 64-bit values, the least one included
  (whose negation does not exist as a \<open>long long\<close>).\<close>

theorem printf_long_roundtrip: "\<exists>out. xvasprintf [37, 108, 100] [ArgInt v] = Some out \<and> int_value out = sint v"
  using long_loop int_text_value by simp

text \<open>Fact: for every width below two to the 31 a number is printed as its canonical decimal text, padded on the
  side the alignment asks for to at least that width.\<close>

theorem print_dec_canonical:
  assumes "unat w < 2 ^ 31"
  shows "print_dec v w z al (-1) =
    Some (let txt = decimal (unat v); pad = replicate (unat w - length txt) (pad_char z) in if al then pad @ txt else txt @ pad)"
  using assms by (rule print_dec_text)

theorem print_dec_canonical_witness: "print_dec 42 5 True True (-1) = Some [48, 48, 48, 52, 50]"
  using print_dec_canonical [of 5 42 True True] by (simp add: Let_def pad_char_def decimal.simps numeral_3_eq_3)

text \<open>Fact: an unpadded hexadecimal number reads back as the value that was printed, in either case.\<close>

theorem print_hex_roundtrip: "hex_value (print_hex v 0 f False caps al) = unat v"
  by (rule print_hex_plain [of v f caps al]) simp

lemma filled_buffer:
  assumes "filled str sz out d" and "out \<noteq> []" and "1 < sz" and "sz \<le> length str"
  shows "cb_str d = take (sz - 1) out @ [0] @ drop (min (length out) (sz - 1) + 1) str"
proof -
  let ?k = "min (length out) (sz - 1)"
  have f: "length (cb_str d) = length str" "take ?k (cb_str d) = take (sz - 1) out" "cb_str d ! ?k = 0"
    "\<forall>i < length str. ?k < i \<longrightarrow> cb_str d ! i = str ! i" using assms by (auto simp: filled_def)
  have k: "?k < length (cb_str d)" using f(1) assms by simp
  have "drop (?k + 1) (cb_str d) = drop (?k + 1) str" using f(1,4) by (intro nth_equalityI) auto
  then show ?thesis using id_take_nth_drop [OF k] f(2,3) by simp
qed

lemma snprintf_fits:
  assumes "xvasprintf fmt args = Some out" and "1 < unat sz" and "unat sz \<le> length str"
  shows "snprintf str sz fmt args =
    Some (of_nat (length out), take (unat sz - 1) (out @ [0]) @ [0] @ drop (min (length out + 1) (unat sz - 1) + 1) str)"
proof -
  obtain d where d: "snprintf str sz fmt args = Some (of_nat (length out), cb_str d)" "filled str (unat sz) (out @ [0]) d"
    by (rule snprintf_filled [OF assms(1,3)])
  then show ?thesis using filled_buffer [OF d(2) _ assms(2,3)] by simp
qed

text \<open>Property C16: with a size of at least two that is within the buffer, \<open>snprintf\<close> returns the length of the whole text
  and stores the text with a terminator, cut to one byte less than the size, then one more zero byte, and leaves the rest of the
  memory as it was: a text that fits has two zero bytes behind it, and a longer one is cut and terminated within the size.
  Sizes of zero and one are excluded: with them nothing is stored, not even a terminator.\<close>

theorem snprintf_bounded:
  assumes "xvasprintf fmt args = Some out" and "1 < unat sz" and "unat sz \<le> length str"
  shows "snprintf str sz fmt args =
    Some (of_nat (length out), take (unat sz - 1) (out @ [0]) @ [0] @ drop (min (length out + 1) (unat sz - 1) + 1) str)"
  using assms by (rule snprintf_fits)

theorem snprintf_bounded_witness: "snprintf [9, 9, 9, 9, 9] 3 [65, 66, 67, 68] [] = Some (4, [65, 66, 0, 9, 9])"
  using snprintf_bounded [of "[65, 66, 67, 68]" "[]" "[65, 66, 67, 68]" 3 "[9, 9, 9, 9, 9]"]
  by (simp add: xvasprintf_def xvasprintf_loop.simps(2))

text \<open>Fact: with a size of zero or one nothing is stored: not even a terminator when the size is one.\<close>

theorem snprintf_size_one:
  assumes "xvasprintf fmt args = Some out" and "sz \<le> 1" and "unat sz \<le> length str"
  shows "snprintf str sz fmt args = Some (of_nat (length out), str)"
proof -
  obtain d where d: "snprintf str sz fmt args = Some (of_nat (length out), cb_str d)" "filled str (unat sz) (out @ [0]) d"
    by (rule snprintf_filled [OF assms(1,3)])
  have "unat sz \<le> 1" using assms(2) by (simp add: word_le_nat_alt)
  then show ?thesis using d by (simp add: filled_def)
qed

theorem snprintf_size_one_witness: "snprintf [7] 1 [65] [] = Some (1, [7])"
  using snprintf_size_one [of "[65]" "[]" "[65]" 1 "[7]"] by (simp add: xvasprintf_def xvasprintf_loop.simps(2))

text \<open>Fact: a format that is put together from two prints as the first with its arguments followed by the second
  with the arguments that are left.\<close>

theorem xvasprintf_sequence:
  assumes "xvasprintf_loop f args = Some (out, args', False)"
  shows "xvasprintf (f @ g) args = map_option ((@) out) (xvasprintf g args')"
  using xvasprintf_loop_append [OF assms, of g] by (auto simp: xvasprintf_def option.map_comp comp_def split_def)

theorem xvasprintf_sequence_witness: "xvasprintf ([65] @ [66]) [] = Some [65, 66]"
  using xvasprintf_sequence [of "[65]" "[]" "[65]" "[]" "[66]"] by (simp add: xvasprintf_def xvasprintf_loop.simps(2))

text \<open>Fact: a format that ends with a lone \<open>%\<close> makes the loop go on behind the terminator of the format.\<close>

theorem lone_percent_overruns:
  assumes "xvasprintf_loop f args = Some (out, args', False)"
  shows "xvasprintf (f @ [37]) args = None"
proof -
  have "xvasprintf_loop [37] args' = None"
    by (simp add: xvasprintf_loop.simps(2) parse_spec_def parse_precision_def parse_big_def parse_mod_def starts_def)
  then show ?thesis using xvasprintf_loop_append [OF assms, of "[37]"] by (simp add: xvasprintf_def)
qed

theorem lone_percent_overruns_witness: "xvasprintf ([53, 48] @ [37]) [] = None"
  by (rule lone_percent_overruns [of "[53, 48]" "[]" "[53, 48]" "[]"]) (simp add: xvasprintf_loop.simps(2))

lemma str_whole_width: "count < unat w \<Longrightarrow> str_whole s count w = take (unat w - count) s"
proof (induction s arbitrary: count)
  case (Cons c s)
  obtain k where k: "unat w - count = Suc k" using Cons.prems by (metis Suc_diff_Suc)
  have "w \<noteq> 0" using Cons.prems by auto
  show ?case
  proof (cases "count + 1 = unat w")
    case True
    then have "unat w - count = 1" by simp
    then show ?thesis using \<open>w \<noteq> 0\<close> True by simp
  next
    case False
    moreover have "unat w - Suc count = k" using k by simp
    ultimately show ?thesis using Cons k by simp
  qed
qed simp

text \<open>Fact: a width on \<open>%s\<close> is exact: shorter strings are padded on the right, longer ones are cut off.\<close>

theorem string_width_exact:
  assumes "0 < fs_width sp" and "fs_precision sp = -1"
  shows "convert_str sp (Some s) = take (unat (fs_width sp)) s @ replicate (unat (fs_width sp) - length s) 32"
  using assms by (simp add: convert_str_def str_whole_width word_less_nat_alt Let_def min_def)

theorem string_width_exact_witness: "convert_str (fspec_start\<lparr>fs_width := 2\<rparr>) (Some [97, 98, 99]) = [97, 98]"
  using string_width_exact [of "fspec_start\<lparr>fs_width := 2\<rparr>" "[97, 98, 99]"] by (simp add: fspec_start_def)

end
