(* ===== verification/Kernel_List.thy ===== *)
theory Kernel_List
  imports Kernel_Prelude
begin

text \<open>
  The doubly linked list of \<open>kernel/misc/list.c\<close>, at the level of its pointers.  A heap
  maps addresses to \<open>node_t\<close> and \<open>list_t\<close> objects and records which other blocks are
  allocated; every operation is the sequence of field accesses the C function makes, and
  an access through a null or dangling pointer makes the result \<^term>\<open>None\<close>.  The
  predicate \<open>dll h l xs\<close> says that the list at \<open>l\<close> links exactly the nodes \<open>xs\<close> in
  order; the lemmas show what each operation does to \<open>xs\<close> and that lists with other
  owners are left alone.
\<close>

section \<open>Objects and the heap\<close>

record knode =
  nd_next :: ptr
  nd_prev :: ptr
  nd_value :: ptr
  nd_owner :: ptr

record klist =
  ls_head :: ptr
  ls_tail :: ptr
  ls_length :: u64
  ls_name :: string
  ls_metadata :: ptr

record kheap =
  h_nodes :: "ptr \<rightharpoonup> knode"
  h_lists :: "ptr \<rightharpoonup> klist"
  h_blocks :: "ptr \<Rightarrow> bool"

definition get_node :: "ptr \<Rightarrow> kheap \<Rightarrow> knode option" where
  "get_node p h = (if p = NULL then None else h_nodes h p)"

definition set_node :: "ptr \<Rightarrow> (knode \<Rightarrow> knode) \<Rightarrow> kheap \<Rightarrow> kheap option" where
  "set_node p f h =
     (case get_node p h of None \<Rightarrow> None
      | Some n \<Rightarrow> Some (h\<lparr>h_nodes := (h_nodes h)(p \<mapsto> f n)\<rparr>))"

definition get_list :: "ptr \<Rightarrow> kheap \<Rightarrow> klist option" where
  "get_list p h = (if p = NULL then None else h_lists h p)"

definition set_list :: "ptr \<Rightarrow> (klist \<Rightarrow> klist) \<Rightarrow> kheap \<Rightarrow> kheap option" where
  "set_list p f h =
     (case get_list p h of None \<Rightarrow> None
      | Some l \<Rightarrow> Some (h\<lparr>h_lists := (h_lists h)(p \<mapsto> f l)\<rparr>))"

text \<open>
  The allocator is a collaborator: the address it returns is an argument of the
  operations that allocate.  \<open>malloc_node\<close> is the allocation of a \<open>node_t\<close> followed by
  the stores to its four fields.
\<close>

definition malloc_node :: "ptr \<Rightarrow> knode \<Rightarrow> kheap \<Rightarrow> kheap option" where
  "malloc_node a n h =
     (if a = NULL then None else Some (h\<lparr>h_nodes := (h_nodes h)(a \<mapsto> n)\<rparr>))"

definition malloc_list :: "ptr \<Rightarrow> klist \<Rightarrow> kheap \<Rightarrow> kheap option" where
  "malloc_list a l h =
     (if a = NULL then None else Some (h\<lparr>h_lists := (h_lists h)(a \<mapsto> l)\<rparr>))"

text \<open>\<open>free\<close> of a null pointer does nothing; of a block that is not allocated, faults.\<close>

definition free_block :: "ptr \<Rightarrow> kheap \<Rightarrow> kheap option" where
  "free_block p h =
     (if p = NULL then Some h
      else if h_blocks h p then Some (h\<lparr>h_blocks := (h_blocks h)(p := False)\<rparr>)
      else None)"

definition free_node :: "ptr \<Rightarrow> kheap \<Rightarrow> kheap option" where
  "free_node p h =
     (case get_node p h of None \<Rightarrow> None
      | Some n \<Rightarrow> Some (h\<lparr>h_nodes := (h_nodes h)(p := None)\<rparr>))"

definition free_list :: "ptr \<Rightarrow> kheap \<Rightarrow> kheap option" where
  "free_list p h =
     (case get_list p h of None \<Rightarrow> None
      | Some l \<Rightarrow> Some (h\<lparr>h_lists := (h_lists h)(p := None)\<rparr>))"


section \<open>The operations of list.c\<close>

partial_function (option) list_destroy_from :: "ptr \<Rightarrow> kheap \<Rightarrow> kheap option" where
  "list_destroy_from n h =
     (if n = NULL then Some h
      else case get_node n h of None \<Rightarrow> None
      | Some nd \<Rightarrow>
          (case free_block (nd_value nd) h of None \<Rightarrow> None
           | Some h' \<Rightarrow> list_destroy_from (nd_next nd) h'))"

definition list_destroy :: "ptr \<Rightarrow> kheap \<Rightarrow> kheap option" where
  "list_destroy l h = do { L \<leftarrow> get_list l h; list_destroy_from (ls_head L) h }"

partial_function (option) list_free_from :: "ptr \<Rightarrow> kheap \<Rightarrow> kheap option" where
  "list_free_from n h =
     (if n = NULL then Some h
      else case get_node n h of None \<Rightarrow> None
      | Some nd \<Rightarrow>
          (case free_node n h of None \<Rightarrow> None
           | Some h' \<Rightarrow> list_free_from (nd_next nd) h'))"

definition list_free :: "ptr \<Rightarrow> kheap \<Rightarrow> kheap option" where
  "list_free l h = do { L \<leftarrow> get_list l h; list_free_from (ls_head L) h }"

definition list_append :: "ptr \<Rightarrow> ptr \<Rightarrow> kheap \<Rightarrow> kheap option" where
  "list_append l node h = do {
     h \<leftarrow> set_node node (\<lambda>n. n\<lparr>nd_next := NULL\<rparr>) h;
     h \<leftarrow> set_node node (\<lambda>n. n\<lparr>nd_owner := l\<rparr>) h;
     L \<leftarrow> get_list l h;
     if ls_length L = 0 then do {
       h \<leftarrow> set_list l (\<lambda>L. L\<lparr>ls_head := node\<rparr>) h;
       h \<leftarrow> set_list l (\<lambda>L. L\<lparr>ls_tail := node\<rparr>) h;
       h \<leftarrow> set_node node (\<lambda>n. n\<lparr>nd_prev := NULL\<rparr>) h;
       h \<leftarrow> set_node node (\<lambda>n. n\<lparr>nd_next := NULL\<rparr>) h;
       set_list l (\<lambda>L. L\<lparr>ls_length := ls_length L + 1\<rparr>) h
     } else do {
       h \<leftarrow> set_node (ls_tail L) (\<lambda>n. n\<lparr>nd_next := node\<rparr>) h;
       h \<leftarrow> set_node node (\<lambda>n. n\<lparr>nd_prev := ls_tail L\<rparr>) h;
       h \<leftarrow> set_list l (\<lambda>L. L\<lparr>ls_tail := node\<rparr>) h;
       set_list l (\<lambda>L. L\<lparr>ls_length := ls_length L + 1\<rparr>) h
     }
   }"

definition list_insert :: "ptr \<Rightarrow> ptr \<Rightarrow> ptr \<Rightarrow> kheap \<Rightarrow> (ptr \<times> kheap) option" where
  "list_insert a l item h = do {
     h \<leftarrow> malloc_node a \<lparr>nd_next = NULL, nd_prev = NULL, nd_value = item, nd_owner = NULL\<rparr> h;
     h \<leftarrow> list_append l a h;
     Some (a, h)
   }"

definition list_append_after :: "ptr \<Rightarrow> ptr \<Rightarrow> ptr \<Rightarrow> kheap \<Rightarrow> kheap option" where
  "list_append_after l bef node h = do {
     h \<leftarrow> set_node node (\<lambda>n. n\<lparr>nd_owner := l\<rparr>) h;
     L \<leftarrow> get_list l h;
     if ls_length L = 0 then list_append l node h
     else if bef = NULL then do {
       h \<leftarrow> set_node node (\<lambda>n. n\<lparr>nd_next := ls_head L\<rparr>) h;
       h \<leftarrow> set_node node (\<lambda>n. n\<lparr>nd_prev := NULL\<rparr>) h;
       h \<leftarrow> set_node (ls_head L) (\<lambda>n. n\<lparr>nd_prev := node\<rparr>) h;
       h \<leftarrow> set_list l (\<lambda>L. L\<lparr>ls_head := node\<rparr>) h;
       set_list l (\<lambda>L. L\<lparr>ls_length := ls_length L + 1\<rparr>) h
     } else do {
       h \<leftarrow> (if bef = ls_tail L then set_list l (\<lambda>L. L\<lparr>ls_tail := node\<rparr>) h
            else do {
              B \<leftarrow> get_node bef h;
              h \<leftarrow> set_node (nd_next B) (\<lambda>n. n\<lparr>nd_prev := node\<rparr>) h;
              B \<leftarrow> get_node bef h;
              set_node node (\<lambda>n. n\<lparr>nd_next := nd_next B\<rparr>) h
            });
       h \<leftarrow> set_node node (\<lambda>n. n\<lparr>nd_prev := bef\<rparr>) h;
       h \<leftarrow> set_node bef (\<lambda>n. n\<lparr>nd_next := node\<rparr>) h;
       set_list l (\<lambda>L. L\<lparr>ls_length := ls_length L + 1\<rparr>) h
     }
   }"

definition list_insert_after :: "ptr \<Rightarrow> ptr \<Rightarrow> ptr \<Rightarrow> ptr \<Rightarrow> kheap \<Rightarrow> (ptr \<times> kheap) option" where
  "list_insert_after a l bef item h = do {
     h \<leftarrow> malloc_node a \<lparr>nd_next = NULL, nd_prev = NULL, nd_value = item, nd_owner = NULL\<rparr> h;
     h \<leftarrow> list_append_after l bef a h;
     Some (a, h)
   }"

definition list_append_before :: "ptr \<Rightarrow> ptr \<Rightarrow> ptr \<Rightarrow> kheap \<Rightarrow> kheap option" where
  "list_append_before l aft node h = do {
     h \<leftarrow> set_node node (\<lambda>n. n\<lparr>nd_owner := l\<rparr>) h;
     L \<leftarrow> get_list l h;
     if ls_length L = 0 then list_append l node h
     else if aft = NULL then do {
       h \<leftarrow> set_node node (\<lambda>n. n\<lparr>nd_next := NULL\<rparr>) h;
       h \<leftarrow> set_node node (\<lambda>n. n\<lparr>nd_prev := ls_tail L\<rparr>) h;
       h \<leftarrow> set_node (ls_tail L) (\<lambda>n. n\<lparr>nd_next := node\<rparr>) h;
       h \<leftarrow> set_list l (\<lambda>L. L\<lparr>ls_tail := node\<rparr>) h;
       set_list l (\<lambda>L. L\<lparr>ls_length := ls_length L + 1\<rparr>) h
     } else do {
       h \<leftarrow> (if aft = ls_head L then set_list l (\<lambda>L. L\<lparr>ls_head := node\<rparr>) h
            else do {
              A \<leftarrow> get_node aft h;
              h \<leftarrow> set_node (nd_prev A) (\<lambda>n. n\<lparr>nd_next := node\<rparr>) h;
              A \<leftarrow> get_node aft h;
              set_node node (\<lambda>n. n\<lparr>nd_prev := nd_prev A\<rparr>) h
            });
       h \<leftarrow> set_node node (\<lambda>n. n\<lparr>nd_next := aft\<rparr>) h;
       h \<leftarrow> set_node aft (\<lambda>n. n\<lparr>nd_prev := node\<rparr>) h;
       set_list l (\<lambda>L. L\<lparr>ls_length := ls_length L + 1\<rparr>) h
     }
   }"

definition list_insert_before :: "ptr \<Rightarrow> ptr \<Rightarrow> ptr \<Rightarrow> ptr \<Rightarrow> kheap \<Rightarrow> (ptr \<times> kheap) option" where
  "list_insert_before a l aft item h = do {
     h \<leftarrow> malloc_node a \<lparr>nd_next = NULL, nd_prev = NULL, nd_value = item, nd_owner = NULL\<rparr> h;
     h \<leftarrow> list_append_before l aft a h;
     Some (a, h)
   }"

definition list_create :: "ptr \<Rightarrow> string \<Rightarrow> ptr \<Rightarrow> kheap \<Rightarrow> (ptr \<times> kheap) option" where
  "list_create a name metadata h = do {
     h \<leftarrow> malloc_list a \<lparr>ls_head = NULL, ls_tail = NULL, ls_length = 0,
            ls_name = name, ls_metadata = metadata\<rparr> h;
     Some (a, h)
   }"

partial_function (option) list_find_from :: "ptr \<Rightarrow> ptr \<Rightarrow> kheap \<Rightarrow> ptr option" where
  "list_find_from item v h =
     (if item = NULL then Some NULL
      else case get_node item h of None \<Rightarrow> None
      | Some n \<Rightarrow> if nd_value n = v then Some item else list_find_from (nd_next n) v h)"

definition list_find :: "ptr \<Rightarrow> ptr \<Rightarrow> kheap \<Rightarrow> ptr option" where
  "list_find l v h = do { L \<leftarrow> get_list l h; list_find_from (ls_head L) v h }"

partial_function (option) list_index_of_from :: "ptr \<Rightarrow> ptr \<Rightarrow> int \<Rightarrow> kheap \<Rightarrow> int option" where
  "list_index_of_from item v i h =
     (if item = NULL then Some (-1)
      else case get_node item h of None \<Rightarrow> None
      | Some n \<Rightarrow> if nd_value n = v then Some i else list_index_of_from (nd_next n) v (i + 1) h)"

definition list_index_of :: "ptr \<Rightarrow> ptr \<Rightarrow> kheap \<Rightarrow> int option" where
  "list_index_of l v h = do { L \<leftarrow> get_list l h; list_index_of_from (ls_head L) v 0 h }"

partial_function (option) list_index_from :: "ptr \<Rightarrow> int \<Rightarrow> int \<Rightarrow> kheap \<Rightarrow> ptr option" where
  "list_index_from item index i h =
     (if item = NULL then Some NULL
      else case get_node item h of None \<Rightarrow> None
      | Some n \<Rightarrow> if i = index then Some (nd_value n)
                 else list_index_from (nd_next n) index (i + 1) h)"

definition list_index :: "ptr \<Rightarrow> int \<Rightarrow> kheap \<Rightarrow> ptr option" where
  "list_index l index h = do { L \<leftarrow> get_list l h; list_index_from (ls_head L) index 0 h }"

definition list_delete :: "ptr \<Rightarrow> ptr \<Rightarrow> kheap \<Rightarrow> kheap option" where
  "list_delete l node h = do {
     L \<leftarrow> get_list l h;
     h \<leftarrow> (if node = ls_head L
          then do { N \<leftarrow> get_node node h; set_list l (\<lambda>L. L\<lparr>ls_head := nd_next N\<rparr>) h }
          else Some h);
     h \<leftarrow> (if node = ls_tail L
          then do { N \<leftarrow> get_node node h; set_list l (\<lambda>L. L\<lparr>ls_tail := nd_prev N\<rparr>) h }
          else Some h);
     N \<leftarrow> get_node node h;
     h \<leftarrow> (if nd_prev N \<noteq> NULL
          then set_node (nd_prev N) (\<lambda>n. n\<lparr>nd_next := nd_next N\<rparr>) h else Some h);
     N \<leftarrow> get_node node h;
     h \<leftarrow> (if nd_next N \<noteq> NULL
          then set_node (nd_next N) (\<lambda>n. n\<lparr>nd_prev := nd_prev N\<rparr>) h else Some h);
     h \<leftarrow> set_node node (\<lambda>n. n\<lparr>nd_prev := NULL\<rparr>) h;
     h \<leftarrow> set_node node (\<lambda>n. n\<lparr>nd_next := NULL\<rparr>) h;
     h \<leftarrow> set_node node (\<lambda>n. n\<lparr>nd_owner := NULL\<rparr>) h;
     set_list l (\<lambda>L. L\<lparr>ls_length := ls_length L - 1\<rparr>) h
   }"

text \<open>The walk of \<open>list_remove\<close>: \<open>while (i < index) { n = n->next; i++; }\<close>.\<close>

fun list_walk :: "nat \<Rightarrow> ptr \<Rightarrow> kheap \<Rightarrow> ptr option" where
  "list_walk 0 n h = Some n"
| "list_walk (Suc k) n h =
     (case get_node n h of None \<Rightarrow> None | Some nd \<Rightarrow> list_walk k (nd_next nd) h)"

definition list_remove :: "ptr \<Rightarrow> u64 \<Rightarrow> kheap \<Rightarrow> kheap option" where
  "list_remove l index h = do {
     L \<leftarrow> get_list l h;
     if index > ls_length L then Some h
     else do { n \<leftarrow> list_walk (unat index) (ls_head L) h; list_delete l n h }
   }"

definition list_pop :: "ptr \<Rightarrow> kheap \<Rightarrow> (ptr \<times> kheap) option" where
  "list_pop l h = do {
     L \<leftarrow> get_list l h;
     if ls_tail L = NULL then Some (NULL, h)
     else do { h \<leftarrow> list_delete l (ls_tail L) h; Some (ls_tail L, h) }
   }"

definition list_dequeue :: "ptr \<Rightarrow> kheap \<Rightarrow> (ptr \<times> kheap) option" where
  "list_dequeue l h = do {
     L \<leftarrow> get_list l h;
     if ls_head L = NULL then Some (NULL, h)
     else do { h \<leftarrow> list_delete l (ls_head L) h; Some (ls_head L, h) }
   }"

text \<open>
  \<open>list_copy\<close> calls the allocator once per round of its loop; \<open>alloc i\<close> is the address
  the \<open>i\<close>-th call returns.
\<close>

partial_function (option) list_copy_loop ::
  "(nat \<Rightarrow> ptr) \<Rightarrow> nat \<Rightarrow> ptr \<Rightarrow> ptr \<Rightarrow> kheap \<Rightarrow> kheap option" where
  "list_copy_loop alloc i out node h =
     (if node = NULL then Some h
      else case get_node node h of None \<Rightarrow> None
      | Some n \<Rightarrow>
          (case list_insert (alloc i) out (nd_value n) h of None \<Rightarrow> None
           | Some (_, h') \<Rightarrow> list_copy_loop alloc (Suc i) out node h'))"

definition list_copy :: "ptr \<Rightarrow> (nat \<Rightarrow> ptr) \<Rightarrow> ptr \<Rightarrow> kheap \<Rightarrow> (ptr \<times> kheap) option" where
  "list_copy a alloc original h = do {
     Og \<leftarrow> get_list original h;
     (out, h) \<leftarrow> list_create a (ls_name Og) (ls_metadata Og) h;
     Og \<leftarrow> get_list original h;
     h \<leftarrow> list_copy_loop alloc 0 out (ls_head Og) h;
     Some (out, h)
   }"

partial_function (option) list_set_owner_from :: "ptr \<Rightarrow> ptr \<Rightarrow> kheap \<Rightarrow> kheap option" where
  "list_set_owner_from node target h =
     (if node = NULL then Some h
      else case set_node node (\<lambda>n. n\<lparr>nd_owner := target\<rparr>) h of None \<Rightarrow> None
      | Some h' \<Rightarrow>
          (case get_node node h' of None \<Rightarrow> None
           | Some n \<Rightarrow> list_set_owner_from (nd_next n) target h'))"

definition list_merge :: "ptr \<Rightarrow> ptr \<Rightarrow> kheap \<Rightarrow> kheap option" where
  "list_merge target source h = do {
     S \<leftarrow> get_list source h;
     h \<leftarrow> list_set_owner_from (ls_head S) target h;
     T \<leftarrow> get_list target h;
     h \<leftarrow> (if ls_head S \<noteq> NULL
          then set_node (ls_head S) (\<lambda>n. n\<lparr>nd_prev := ls_tail T\<rparr>) h else Some h);
     h \<leftarrow> (if ls_tail T \<noteq> NULL
          then set_node (ls_tail T) (\<lambda>n. n\<lparr>nd_next := ls_head S\<rparr>) h
          else set_list target (\<lambda>T. T\<lparr>ls_head := ls_head S\<rparr>) h);
     h \<leftarrow> (if ls_tail S \<noteq> NULL
          then set_list target (\<lambda>T. T\<lparr>ls_tail := ls_tail S\<rparr>) h else Some h);
     S \<leftarrow> get_list source h;
     h \<leftarrow> set_list target (\<lambda>T. T\<lparr>ls_length := ls_length T + ls_length S\<rparr>) h;
     free_list source h
   }"


section \<open>The list invariant\<close>

text \<open>
  \<open>chain ns l p xs q\<close>: the nodes \<open>xs\<close> are linked in order in both directions, owned by
  \<open>l\<close>, with \<open>p\<close> before the first and \<open>q\<close> after the last.
\<close>

fun chain :: "(ptr \<rightharpoonup> knode) \<Rightarrow> ptr \<Rightarrow> ptr \<Rightarrow> ptr list \<Rightarrow> ptr \<Rightarrow> bool" where
  "chain ns l p [] q = True"
| "chain ns l p (x # xs) q =
     (x \<noteq> NULL \<and>
      (case ns x of None \<Rightarrow> False
       | Some n \<Rightarrow> nd_prev n = p \<and> nd_owner n = l \<and> nd_next n = hd (xs @ [q])) \<and>
      chain ns l x xs q)"

definition dll :: "kheap \<Rightarrow> ptr \<Rightarrow> ptr list \<Rightarrow> bool" where
  "dll h l xs \<longleftrightarrow>
     l \<noteq> NULL \<and> distinct xs \<and> chain (h_nodes h) l NULL xs NULL \<and>
     (case h_lists h l of None \<Rightarrow> False
      | Some L \<Rightarrow> ls_head L = hd (xs @ [NULL]) \<and> ls_tail L = last (NULL # xs) \<and>
                 ls_length L = of_nat (length xs))"

text \<open>
  \<open>touches l A h h'\<close>: between \<open>h\<close> and \<open>h'\<close> only the header \<open>l\<close> and the link fields of
  nodes in \<open>A\<close> may differ.
\<close>

definition touches :: "ptr \<Rightarrow> ptr set \<Rightarrow> kheap \<Rightarrow> kheap \<Rightarrow> bool" where
  "touches l A h h' \<longleftrightarrow>
     (\<forall>x. x \<notin> A \<longrightarrow> h_nodes h' x = h_nodes h x) \<and>
     (\<forall>k. k \<noteq> l \<longrightarrow> h_lists h' k = h_lists h k) \<and>
     h_blocks h' = h_blocks h \<and>
     (\<forall>x. map_option nd_value (h_nodes h' x) = map_option nd_value (h_nodes h x))"

text \<open>The values a list of nodes carries.\<close>

definition node_values :: "kheap \<Rightarrow> ptr list \<Rightarrow> ptr list" where
  "node_values h xs = map (\<lambda>x. case h_nodes h x of None \<Rightarrow> NULL | Some n \<Rightarrow> nd_value n) xs"

lemma chain_frame:
  "(\<And>x. x \<in> set xs \<Longrightarrow> ns' x = ns x) \<Longrightarrow> chain ns' l p xs q = chain ns l p xs q"
  by (induction xs arbitrary: p) auto

lemma chain_upd [simp]: "x \<notin> set xs \<Longrightarrow> chain (ns(x := v)) l p xs q = chain ns l p xs q"
  by (rule chain_frame) auto

lemma chain_append:
  "chain ns l p (xs @ ys) q \<longleftrightarrow>
   chain ns l p xs (hd (ys @ [q])) \<and> chain ns l (last (p # xs)) ys q"
proof (induction xs arbitrary: p)
  case Nil
  then show ?case by simp
next
  case (Cons x xs)
  have "hd (xs @ ys @ [q]) = hd (xs @ [hd (ys @ [q])])"
    by (cases xs) auto
  then show ?case using Cons.IH by (auto split: option.splits)
qed

lemma chain_non_null: "chain ns l p xs q \<Longrightarrow> NULL \<notin> set xs"
  by (induction xs arbitrary: p) auto

lemma chain_member:
  "chain ns l p xs q \<Longrightarrow> x \<in> set xs \<Longrightarrow> \<exists>n. ns x = Some n \<and> nd_owner n = l"
  by (induction xs arbitrary: p) (auto split: option.splits)

lemma dll_length_bound:
  assumes "dll h l xs"
  shows "length xs < 2 ^ 64"
proof (rule distinct_ptrs_bound)
  show "distinct xs" using assms by (simp add: dll_def)
  show "NULL \<notin> set xs" using assms chain_non_null by (auto simp: dll_def)
qed

lemma dll_header:
  assumes "dll h l xs"
  obtains L where "get_list l h = Some L" and "h_lists h l = Some L" and "l \<noteq> NULL"
    and "ls_head L = hd (xs @ [NULL])" and "ls_tail L = last (NULL # xs)"
    and "ls_length L = of_nat (length xs)" and "ls_length L = 0 \<longleftrightarrow> xs = []"
proof -
  from assms obtain L where L: "h_lists h l = Some L" "l \<noteq> NULL" "ls_head L = hd (xs @ [NULL])"
      "ls_tail L = last (NULL # xs)" "ls_length L = of_nat (length xs)"
    by (auto simp: dll_def split: option.splits)
  have "ls_length L = 0 \<longleftrightarrow> xs = []"
    unfolding L(5) using of_nat_64_eq_0_iff [OF dll_length_bound [OF assms]] by simp
  with L that show thesis by (simp add: get_list_def)
qed

lemma dll_member:
  assumes "dll h l xs" and "x \<in> set xs"
  obtains n where "get_node x h = Some n" and "h_nodes h x = Some n" and "x \<noteq> NULL"
    and "nd_owner n = l"
proof -
  from assms(1) have c: "chain (h_nodes h) l NULL xs NULL" by (simp add: dll_def)
  from chain_member [OF c assms(2)] obtain n where "h_nodes h x = Some n" "nd_owner n = l"
    by blast
  moreover from chain_non_null [OF c] assms(2) have "x \<noteq> NULL" by metis
  ultimately show thesis using that by (simp add: get_node_def)
qed

lemma dll_disjoint:
  assumes "dll h l xs" and "dll h k ys" and "k \<noteq> l"
  shows "set xs \<inter> set ys = {}"
proof (rule ccontr)
  assume "set xs \<inter> set ys \<noteq> {}"
  then obtain x where x: "x \<in> set xs" "x \<in> set ys" by blast
  obtain n where n: "h_nodes h x = Some n" "nd_owner n = l"
    using dll_member [OF assms(1) x(1)] by blast
  obtain m where m: "h_nodes h x = Some m" "nd_owner m = k"
    using dll_member [OF assms(2) x(2)] by blast
  from n m assms(3) show False by simp
qed

lemma dll_frame [frame_intros]:
  assumes "touches l A h h'" and "dll h k ys" and "k \<noteq> l" and "set ys \<inter> A = {}"
  shows "dll h' k ys"
proof -
  have "chain (h_nodes h') k NULL ys NULL = chain (h_nodes h) k NULL ys NULL"
    using assms(1,4) by (intro chain_frame) (auto simp: touches_def)
  then show ?thesis using assms by (simp add: dll_def touches_def)
qed

lemma touches_values:
  "touches l A h h' \<Longrightarrow> node_values h' xs = node_values h xs"
  by (auto simp: touches_def node_values_def split: option.splits)
     (metis option.map_disc_iff option.simps(9) option.inject option.distinct(1))+

lemma touches_mono: "touches l A h h' \<Longrightarrow> A \<subseteq> B \<Longrightarrow> touches l B h h'"
  by (auto simp: touches_def)

lemma touches_trans: "touches l A h h' \<Longrightarrow> touches l B h' h'' \<Longrightarrow> touches l (A \<union> B) h h''"
  by (auto simp: touches_def)


section \<open>What the operations do to the invariant\<close>

lemmas list_access_defs = get_node_def set_node_def get_list_def set_list_def

lemma dllI:
  assumes "l \<noteq> NULL" and "distinct xs" and "chain (h_nodes h) l NULL xs NULL"
    and "h_lists h l = Some L" and "ls_head L = hd (xs @ [NULL])"
    and "ls_tail L = last (NULL # xs)" and "ls_length L = of_nat (length xs)"
  shows "dll h l xs"
  using assms by (simp add: dll_def)

text \<open>The middle of a list: the links around a node.\<close>

lemma dll_split_node:
  assumes "dll h l (us @ n # vs)"
  obtains N where "h_nodes h n = Some N" and "n \<noteq> NULL" and "nd_prev N = last (NULL # us)"
    and "nd_next N = hd (vs @ [NULL])" and "nd_owner N = l"
    and "chain (h_nodes h) l NULL us n" and "chain (h_nodes h) l n vs NULL"
    and "distinct (us @ n # vs)"
  using assms by (auto simp: dll_def chain_append split: option.splits)

lemma list_append_spec:
  assumes D: "dll h l xs" and n: "get_node node h = Some nd" and fresh: "node \<notin> set xs"
  shows "\<exists>h'. list_append l node h = Some h' \<and> dll h' l (xs @ [node]) \<and>
              touches l (insert node (set xs)) h h'"
proof -
  obtain L where L: "h_lists h l = Some L" "l \<noteq> NULL" "ls_head L = hd (xs @ [NULL])"
      "ls_tail L = last (NULL # xs)" "ls_length L = of_nat (length xs)"
      "ls_length L = 0 \<longleftrightarrow> xs = []"
    using dll_header [OF D] by metis
  from n have N: "h_nodes h node = Some nd" "node \<noteq> NULL"
    by (auto simp: get_node_def split: if_splits)
  show ?thesis
  proof (cases xs rule: rev_cases)
    case Nil
    then show ?thesis using L N
      by (auto simp: list_append_def list_access_defs dll_def touches_def)
  next
    case (snoc ys t)
    obtain tn where t: "h_nodes h t = Some tn" "t \<noteq> NULL" "nd_prev tn = last (NULL # ys)"
        "nd_owner tn = l" "chain (h_nodes h) l NULL ys t" "distinct (ys @ [t])"
      using dll_split_node [OF D [unfolded snoc]] by metis
    show ?thesis using L N t snoc fresh
      by (auto simp: list_append_def list_access_defs dll_def touches_def chain_append
          split: if_splits)
  qed
qed



lemma set_node_Some:
  "h_nodes h p = Some n \<Longrightarrow> p \<noteq> NULL \<Longrightarrow>
   set_node p f h = Some (h\<lparr>h_nodes := (h_nodes h)(p \<mapsto> f n)\<rparr>)"
  by (simp add: list_access_defs)

lemma get_node_Some: "h_nodes h p = Some n \<Longrightarrow> p \<noteq> NULL \<Longrightarrow> get_node p h = Some n"
  by (simp add: list_access_defs)

lemma set_list_Some:
  "h_lists h p = Some n \<Longrightarrow> p \<noteq> NULL \<Longrightarrow>
   set_list p f h = Some (h\<lparr>h_lists := (h_lists h)(p \<mapsto> f n)\<rparr>)"
  by (simp add: list_access_defs)

lemma get_list_Some: "h_lists h p = Some n \<Longrightarrow> p \<noteq> NULL \<Longrightarrow> get_list p h = Some n"
  by (simp add: list_access_defs)

lemmas access_Some = set_node_Some get_node_Some set_list_Some get_list_Some

text \<open>Redirecting the link out of either end of a chain.\<close>

lemma chain_relink_next:
  assumes "chain ns l p us n" and "us \<noteq> []" and "ns (last us) = Some P" and "distinct us"
  shows "chain (ns(last us \<mapsto> P\<lparr>nd_next := q\<rparr>)) l p us q"
  using assms by (cases us rule: rev_cases) (auto simp: chain_append)

lemma chain_relink_prev:
  assumes "chain ns l n vs q" and "vs \<noteq> []" and "ns (hd vs) = Some Q" and "distinct vs"
  shows "chain (ns(hd vs \<mapsto> Q\<lparr>nd_prev := p\<rparr>)) l p vs q"
  using assms by (cases vs) auto

text \<open>
  The heap after unlinking node \<open>n\<close> with fields \<open>N\<close>: the neighbours, if any, point
  past it.
\<close>

definition unlinked :: "(ptr \<rightharpoonup> knode) \<Rightarrow> ptr \<Rightarrow> knode \<Rightarrow> (ptr \<rightharpoonup> knode)" where
  "unlinked ns n N =
     (let ns = (if nd_prev N = NULL then ns
                else ns(nd_prev N := map_option (\<lambda>P. P\<lparr>nd_next := nd_next N\<rparr>) (ns (nd_prev N))));
          ns = (if nd_next N = NULL then ns
                else ns(nd_next N := map_option (\<lambda>Q. Q\<lparr>nd_prev := nd_prev N\<rparr>) (ns (nd_next N))))
      in ns(n \<mapsto> N\<lparr>nd_prev := NULL, nd_next := NULL, nd_owner := NULL\<rparr>))"

lemma list_delete_eval:
  assumes L: "h_lists h l = Some L" "l \<noteq> NULL" and N: "h_nodes h n = Some N" "n \<noteq> NULL"
    and P: "nd_prev N \<noteq> NULL \<Longrightarrow> nd_prev N \<noteq> n \<and> (\<exists>P. h_nodes h (nd_prev N) = Some P)"
    and Q: "nd_next N \<noteq> NULL \<Longrightarrow>
            nd_next N \<noteq> n \<and> nd_next N \<noteq> nd_prev N \<and> (\<exists>Q. h_nodes h (nd_next N) = Some Q)"
  shows "list_delete l n h =
    Some (h\<lparr>h_nodes := unlinked (h_nodes h) n N,
            h_lists := (h_lists h)(l \<mapsto>
              L\<lparr>ls_head := if n = ls_head L then nd_next N else ls_head L,
                ls_tail := if n = ls_tail L then nd_prev N else ls_tail L,
                ls_length := ls_length L - 1\<rparr>)\<rparr>)"
proof (cases "nd_prev N = NULL"; cases "nd_next N = NULL")
  assume "nd_prev N = NULL" "nd_next N = NULL"
  then show ?thesis using L N
    by (cases "n = ls_head L"; cases "n = ls_tail L")
       (simp_all add: list_delete_def access_Some unlinked_def)
next
  assume "nd_prev N = NULL" and "nd_next N \<noteq> NULL"
  moreover from this Q obtain Q' where "h_nodes h (nd_next N) = Some Q'" "nd_next N \<noteq> n"
    by blast
  ultimately show ?thesis using L N
    by (cases "n = ls_head L"; cases "n = ls_tail L")
       (simp_all add: list_delete_def access_Some unlinked_def)
next
  assume "nd_prev N \<noteq> NULL" and "nd_next N = NULL"
  moreover from this P obtain P' where "h_nodes h (nd_prev N) = Some P'" "nd_prev N \<noteq> n"
    by blast
  ultimately show ?thesis using L N
    by (cases "n = ls_head L"; cases "n = ls_tail L")
       (simp_all add: list_delete_def access_Some unlinked_def)
next
  assume nn: "nd_prev N \<noteq> NULL" "nd_next N \<noteq> NULL"
  moreover from nn P obtain P' where "h_nodes h (nd_prev N) = Some P'" "nd_prev N \<noteq> n"
    by blast
  moreover from nn Q obtain Q' where "h_nodes h (nd_next N) = Some Q'" "nd_next N \<noteq> n"
      "nd_next N \<noteq> nd_prev N"
    by blast
  ultimately show ?thesis using L N
    by (cases "n = ls_head L"; cases "n = ls_tail L")
       (simp_all add: list_delete_def access_Some unlinked_def)
qed


lemma chain_last_Some: "chain ns l p us q \<Longrightarrow> us \<noteq> [] \<Longrightarrow> \<exists>P. ns (last us) = Some P \<and> last us \<noteq> NULL"
  using chain_member chain_non_null last_in_set by metis

lemma chain_hd_Some: "chain ns l p vs q \<Longrightarrow> vs \<noteq> [] \<Longrightarrow> \<exists>Q. ns (hd vs) = Some Q \<and> hd vs \<noteq> NULL"
  using chain_member chain_non_null list.set_sel(1) by metis

lemma chain_unlinked:
  assumes "chain ns l NULL us n" and "chain ns l n vs NULL" and "distinct (us @ n # vs)"
    and "nd_prev N = last (NULL # us)" and "nd_next N = hd (vs @ [NULL])"
  shows "chain (unlinked ns n N) l NULL (us @ vs) NULL"
proof -
  let ?a = "if us = [] then ns else ns(last us := map_option (\<lambda>P. P\<lparr>nd_next := nd_next N\<rparr>) (ns (last us)))"
  let ?b = "if vs = [] then ?a else ?a(hd vs := map_option (\<lambda>Q. Q\<lparr>nd_prev := nd_prev N\<rparr>) (?a (hd vs)))"
  have d: "set us \<inter> set vs = {}" "n \<notin> set us" "n \<notin> set vs" "distinct us" "distinct vs"
    using assms(3) by auto
  have nn: "us \<noteq> [] \<Longrightarrow> last us \<noteq> NULL" "vs \<noteq> [] \<Longrightarrow> hd vs \<noteq> NULL"
    using chain_last_Some [OF assms(1)] chain_hd_Some [OF assms(2)] by auto
  then have u: "unlinked ns n N = ?b(n \<mapsto> N\<lparr>nd_prev := NULL, nd_next := NULL, nd_owner := NULL\<rparr>)"
    using assms(4,5) by (auto simp: unlinked_def Let_def)
  have a: "chain ?a l NULL us (hd (vs @ [NULL]))"
    using chain_last_Some [OF assms(1)] chain_relink_next [OF assms(1)] d(4) assms(5) by auto
  have b: "chain ?a l n vs NULL"
    using assms(2) d(1) by (auto simp: disjoint_iff)
  have "vs \<noteq> [] \<Longrightarrow> hd vs \<notin> set us"
    using d(1) by (metis disjoint_iff list.set_sel(1))
  then have a': "chain ?b l NULL us (hd (vs @ [NULL]))"
    using a by (cases "vs = []") (simp_all only: if_True if_False chain_upd simp_thms)
  have b': "chain ?b l (last (NULL # us)) vs NULL"
    using chain_hd_Some [OF b] chain_relink_prev [OF b] d(5) assms(4) by auto
  show ?thesis using a' b' d(2,3) by (simp add: u chain_append)
qed

lemma unlinked_frame:
  "x \<noteq> n \<Longrightarrow> nd_prev N = NULL \<or> x \<noteq> nd_prev N \<Longrightarrow> nd_next N = NULL \<or> x \<noteq> nd_next N \<Longrightarrow>
   unlinked ns n N x = ns x"
  by (auto simp: unlinked_def Let_def)

lemma unlinked_value:
  "ns n = Some N \<Longrightarrow> map_option nd_value (unlinked ns n N x) = map_option nd_value (ns x)"
  by (auto simp: unlinked_def Let_def option.map_comp comp_def)

lemma list_delete_spec:
  assumes D: "dll h l (us @ n # vs)"
  shows "\<exists>h'. list_delete l n h = Some h' \<and> dll h' l (us @ vs) \<and>
              touches l (set (us @ n # vs)) h h' \<and>
              (\<exists>N. h_nodes h' n = Some N \<and> nd_owner N = NULL \<and>
                   nd_next N = NULL \<and> nd_prev N = NULL)"
proof -
  obtain L where L: "h_lists h l = Some L" "l \<noteq> NULL" "ls_head L = hd ((us @ n # vs) @ [NULL])"
      "ls_tail L = last (NULL # us @ n # vs)" "ls_length L = of_nat (length (us @ n # vs))"
    using dll_header [OF D] by metis
  obtain N where N: "h_nodes h n = Some N" "n \<noteq> NULL" "nd_prev N = last (NULL # us)"
      "nd_next N = hd (vs @ [NULL])" "nd_owner N = l" "chain (h_nodes h) l NULL us n"
      "chain (h_nodes h) l n vs NULL" "distinct (us @ n # vs)"
    using dll_split_node [OF D] by metis
  have P: "nd_prev N \<noteq> NULL \<Longrightarrow> nd_prev N \<in> set us \<and> (\<exists>P. h_nodes h (nd_prev N) = Some P)"
    using N(3) chain_last_Some [OF N(6)] by (auto split: if_splits)
  have Q: "nd_next N \<noteq> NULL \<Longrightarrow> nd_next N \<in> set vs \<and> (\<exists>Q. h_nodes h (nd_next N) = Some Q)"
    using N(4) chain_hd_Some [OF N(7)] by (cases vs) auto
  have e: "list_delete l n h =
    Some (h\<lparr>h_nodes := unlinked (h_nodes h) n N,
            h_lists := (h_lists h)(l \<mapsto>
              L\<lparr>ls_head := if n = ls_head L then nd_next N else ls_head L,
                ls_tail := if n = ls_tail L then nd_prev N else ls_tail L,
                ls_length := ls_length L - 1\<rparr>)\<rparr>)" (is "_ = Some ?h")
    using L N P Q by (intro list_delete_eval) (auto simp: disjoint_iff)
  have hd: "n = ls_head L \<longleftrightarrow> us = []"
    using L(3) N(8) by (cases us) auto
  have tl: "n = ls_tail L \<longleftrightarrow> vs = []"
    using L(4) N(8) by (cases vs rule: rev_cases) auto
  have "dll ?h l (us @ vs)"
  proof (rule dllI)
    show "chain (h_nodes ?h) l NULL (us @ vs) NULL"
      using chain_unlinked [OF N(6-8) N(3,4)] by simp
    show "h_lists ?h l = Some (L\<lparr>ls_head := if n = ls_head L then nd_next N else ls_head L,
                ls_tail := if n = ls_tail L then nd_prev N else ls_tail L,
                ls_length := ls_length L - 1\<rparr>)" by simp
  qed (use L N(3,4,8) in \<open>auto simp: hd tl hd_append split: if_splits\<close>)
  moreover have "touches l (set (us @ n # vs)) h ?h"
    using P Q unlinked_value [of "h_nodes h" n N, OF N(1)] L(1)
    by (auto simp: touches_def intro!: unlinked_frame)
  ultimately show ?thesis using e by (auto simp: unlinked_def Let_def)
qed


text \<open>Insertion of a fresh node between two chains, shared by the insertions in the middle.\<close>

lemma malloc_node_dll:
  assumes "dll h k ys" and "a \<notin> set ys"
  shows "dll (h\<lparr>h_nodes := (h_nodes h)(a \<mapsto> n)\<rparr>) k ys"
  using assms by (simp add: dll_def)

definition linked :: "(ptr \<rightharpoonup> knode) \<Rightarrow> ptr \<Rightarrow> ptr \<Rightarrow> ptr \<Rightarrow> ptr \<Rightarrow> (ptr \<rightharpoonup> knode)" where
  "linked ns l p a q =
     (let ns = ns(a := map_option (\<lambda>n. n\<lparr>nd_next := q, nd_prev := p, nd_owner := l\<rparr>) (ns a));
          ns = (if p = NULL then ns
                else ns(p := map_option (\<lambda>P. P\<lparr>nd_next := a\<rparr>) (ns p)))
      in if q = NULL then ns else ns(q := map_option (\<lambda>Q. Q\<lparr>nd_prev := a\<rparr>) (ns q)))"

lemma chain_linked:
  assumes "chain ns l NULL us (hd (vs @ [NULL]))" and "chain ns l (last (NULL # us)) vs NULL"
    and "distinct (us @ vs)" and "a \<notin> set us" and "a \<notin> set vs" and "a \<noteq> NULL" and "ns a = Some n"
  shows "chain (linked ns l (last (NULL # us)) a (hd (vs @ [NULL]))) l NULL (us @ a # vs) NULL"
proof -
  let ?n = "n\<lparr>nd_next := hd (vs @ [NULL]), nd_prev := last (NULL # us), nd_owner := l\<rparr>"
  let ?a = "if us = [] then ns(a \<mapsto> ?n)
            else (ns(a \<mapsto> ?n))(last us := map_option (\<lambda>P. P\<lparr>nd_next := a\<rparr>) (ns (last us)))"
  let ?b = "if vs = [] then ?a else ?a(hd vs := map_option (\<lambda>Q. Q\<lparr>nd_prev := a\<rparr>) (?a (hd vs)))"
  have d: "set us \<inter> set vs = {}" "distinct us" "distinct vs"
    using assms(3) by auto
  have x: "us \<noteq> [] \<Longrightarrow> last us \<noteq> NULL \<and> last us \<noteq> a \<and> last us \<notin> set vs"
    using chain_non_null [OF assms(1)] assms(4) d(1) by (metis disjoint_iff last_in_set)
  have y: "vs \<noteq> [] \<Longrightarrow> hd vs \<noteq> NULL \<and> hd vs \<noteq> a \<and> hd vs \<notin> set us"
    using chain_non_null [OF assms(2)] assms(5) d(1) by (metis disjoint_iff list.set_sel(1))
  have e: "linked ns l (last (NULL # us)) a (hd (vs @ [NULL])) = ?b"
    using assms(7) x y by (cases "us = []"; cases "vs = []") (simp_all add: linked_def Let_def)
  have u0: "chain (ns(a \<mapsto> ?n)) l NULL us (hd (vs @ [NULL]))"
    using assms(1,4) by simp
  have u1: "chain ?a l NULL us a"
  proof (cases "us = []")
    case False
    then obtain P where "(ns(a \<mapsto> ?n)) (last us) = Some P"
      using chain_last_Some [OF u0] by blast
    then show ?thesis using chain_relink_next [OF u0 False _ d(2), of P a] False x by simp
  qed simp
  have v1: "chain ?a l (last (NULL # us)) vs NULL"
    using assms(2,5) x by (cases "us = []") simp_all
  have u2: "chain ?b l NULL us a"
    using u1 y by (cases "vs = []") (simp_all only: if_True if_False chain_upd simp_thms)
  have v2: "chain ?b l a vs NULL"
  proof (cases "vs = []")
    case False
    then obtain Q where "?a (hd vs) = Some Q"
      using chain_hd_Some [OF v1] by blast
    then show ?thesis using chain_relink_prev [OF v1 False _ d(3), of Q a]
      by (simp only: False if_False option.map)
  qed simp
  have b: "?b a = Some ?n" using x y by (cases "us = []"; cases "vs = []") auto
  define B where "B = ?b"
  from u2 v2 b have "chain B l NULL us a" "chain B l a vs NULL" "B a = Some ?n"
    unfolding B_def by blast+
  then show ?thesis unfolding e B_def [symmetric] using assms(6) by (simp add: chain_append)
qed


lemma linked_value: "map_option nd_value (linked ns l p a q x) = map_option nd_value (ns x)"
  by (auto simp: linked_def Let_def option.map_comp comp_def)

lemma linked_frame:
  "x \<noteq> a \<Longrightarrow> p = NULL \<or> x \<noteq> p \<Longrightarrow> q = NULL \<or> x \<noteq> q \<Longrightarrow> linked ns l p a q x = ns x"
  by (auto simp: linked_def Let_def)

text \<open>The heap after linking \<open>a\<close> between \<open>us\<close> and \<open>vs\<close>, with the header adjusted.\<close>

lemma linked_dll:
  assumes D: "dll h l (us @ vs)" and a: "a \<notin> set (us @ vs)" "a \<noteq> NULL" "h_nodes h a = Some n"
    and L: "h_lists h l = Some L"
    and h': "h' = h\<lparr>h_nodes := linked (h_nodes h) l (last (NULL # us)) a (hd (vs @ [NULL])),
                   h_lists := (h_lists h)(l \<mapsto> L')\<rparr>"
    and L': "ls_head L' = (if us = [] then a else ls_head L)"
            "ls_tail L' = (if vs = [] then a else ls_tail L)"
            "ls_length L' = ls_length L + 1"
  shows "dll h' l (us @ a # vs) \<and> touches l (insert a (set (us @ vs))) h h'"
proof
  have c: "chain (h_nodes h) l NULL us (hd (vs @ [NULL]))" "chain (h_nodes h) l (last (NULL # us)) vs NULL"
      "distinct (us @ vs)" "l \<noteq> NULL"
    using D by (auto simp: dll_def chain_append)
  have H: "ls_head L = hd ((us @ vs) @ [NULL])" "ls_tail L = last (NULL # us @ vs)"
      "ls_length L = of_nat (length (us @ vs))"
    using D L by (auto simp: dll_def)
  show "dll h' l (us @ a # vs)"
  proof (rule dllI)
    show "chain (h_nodes h') l NULL (us @ a # vs) NULL"
      using chain_linked [OF c(1-3) _ _ a(2,3)] a(1) h' by simp
    show "h_lists h' l = Some L'" using h' by simp
  qed (use c a H L' in \<open>auto simp: hd_append\<close>)
  have "last (NULL # us) = NULL \<or> last (NULL # us) \<in> set us" by simp
  moreover have "hd (vs @ [NULL]) = NULL \<or> hd (vs @ [NULL]) \<in> set vs" by (cases vs) auto
  ultimately show "touches l (insert a (set (us @ vs))) h h'"
    unfolding touches_def h' by (auto simp: linked_value L intro!: linked_frame)
qed

lemma list_append_before_spec:
  assumes D: "dll h l (us @ v # vs)" and n: "get_node node h = Some nd"
    and fresh: "node \<notin> set (us @ v # vs)" "us = [] \<Longrightarrow> nd_prev nd = NULL"
  shows "\<exists>h'. list_append_before l v node h = Some h' \<and> dll h' l (us @ node # v # vs) \<and>
              touches l (insert node (set (us @ v # vs))) h h'"
proof -
  obtain L where L: "h_lists h l = Some L" "l \<noteq> NULL" "ls_head L = hd ((us @ v # vs) @ [NULL])"
      "ls_length L = 0 \<longleftrightarrow> us @ v # vs = []"
    using dll_header [OF D] by metis
  obtain V where V: "h_nodes h v = Some V" "v \<noteq> NULL" "nd_prev V = last (NULL # us)"
      "chain (h_nodes h) l NULL us v" "distinct (us @ v # vs)"
    using dll_split_node [OF D] by metis
  from n have N: "h_nodes h node = Some nd" "node \<noteq> NULL"
    by (auto simp: get_node_def split: if_splits)
  let ?h = "h\<lparr>h_nodes := linked (h_nodes h) l (last (NULL # us)) node v,
              h_lists := (h_lists h)(l \<mapsto> L\<lparr>ls_head := if us = [] then node else ls_head L,
                                       ls_length := ls_length L + 1\<rparr>)\<rparr>"
  have hd: "v = ls_head L \<longleftrightarrow> us = []"
    using L(3) V(5) by (cases us) auto
  have e: "list_append_before l v node h = Some ?h"
  proof (cases us rule: rev_cases)
    case Nil
    then show ?thesis using L V N fresh hd
      by (cases nd; cases V) (auto simp: list_append_before_def access_Some linked_def)
  next
    case (snoc ut u)
    then obtain P where P: "h_nodes h u = Some P" "u \<noteq> NULL"
      using chain_last_Some [OF V(4)] by auto
    from snoc V fresh have ne: "u \<noteq> v" "u \<noteq> node" "v \<noteq> node" "node \<noteq> u" "node \<noteq> v" "v \<noteq> u" by auto
    have hd': "v \<noteq> ls_head L" "nd_prev V = u" "ls_length L \<noteq> 0" using hd snoc V(3) L(4) by auto
    with P ne show ?thesis using L(1,2) V(1,2) N snoc
      by (cases nd; cases V; cases P)
         (simp add: list_append_before_def access_Some linked_def fun_upd_twist)
  qed
  show ?thesis using e linked_dll [OF D, of node nd L ?h] fresh N L hd by auto
qed


lemma list_append_after_spec:
  assumes D: "dll h l (us @ vs)" and n: "get_node node h = Some nd"
    and fresh: "node \<notin> set (us @ vs)" "vs = [] \<Longrightarrow> nd_next nd = NULL"
  shows "\<exists>h'. list_append_after l (last (NULL # us)) node h = Some h' \<and>
              dll h' l (us @ node # vs) \<and> touches l (insert node (set (us @ vs))) h h'"
proof -
  obtain L where L: "h_lists h l = Some L" "l \<noteq> NULL" "ls_head L = hd ((us @ vs) @ [NULL])"
      "ls_tail L = last (NULL # us @ vs)" "ls_length L = 0 \<longleftrightarrow> us @ vs = []"
    using dll_header [OF D] by metis
  from n have N: "h_nodes h node = Some nd" "node \<noteq> NULL"
    by (auto simp: get_node_def split: if_splits)
  have c: "chain (h_nodes h) l NULL us (hd (vs @ [NULL]))"
      "chain (h_nodes h) l (last (NULL # us)) vs NULL" "distinct (us @ vs)"
    using D by (auto simp: dll_def chain_append)
  let ?h = "h\<lparr>h_nodes := linked (h_nodes h) l (last (NULL # us)) node (hd (vs @ [NULL])),
              h_lists := (h_lists h)(l \<mapsto> L\<lparr>ls_head := if us = [] then node else ls_head L,
                                       ls_tail := if vs = [] then node else ls_tail L,
                                       ls_length := ls_length L + 1\<rparr>)\<rparr>"
  have e: "list_append_after l (last (NULL # us)) node h = Some ?h"
  proof (cases us rule: rev_cases; cases vs)
    assume "us = []" "vs = []"
    then show ?thesis using L N
      by (cases nd; cases L)
         (simp add: list_append_after_def list_append_def access_Some linked_def)
  next
    fix v vt assume uv: "us = []" "vs = v # vt"
    then obtain V where V: "h_nodes h v = Some V" "v \<noteq> NULL"
      using chain_hd_Some [OF c(2)] by auto
    from uv fresh have "v \<noteq> node" "node \<noteq> v" by auto
    with V uv show ?thesis using L N
      by (cases nd; cases L; cases V)
         (simp add: list_append_after_def access_Some linked_def fun_upd_twist)
  next
    fix ut u assume uv: "us = ut @ [u]" "vs = []"
    then obtain P where P: "h_nodes h u = Some P" "u \<noteq> NULL"
      using chain_last_Some [OF c(1)] by auto
    from uv fresh have "u \<noteq> node" "node \<noteq> u" "nd_next nd = NULL" by auto
    with P uv show ?thesis using L N
      by (cases nd; cases L; cases P)
         (simp add: list_append_after_def access_Some linked_def fun_upd_twist)
  next
    fix ut u v vt assume uv: "us = ut @ [u]" "vs = v # vt"
    then obtain P where P: "h_nodes h u = Some P" "u \<noteq> NULL" "nd_next P = v"
      using c(1) by (auto simp: chain_append split: option.splits)
    from uv obtain V where V: "h_nodes h v = Some V" "v \<noteq> NULL"
      using chain_hd_Some [OF c(2)] by auto
    from uv fresh c(3) have "u \<noteq> v" "u \<noteq> node" "v \<noteq> node" "node \<noteq> u" "node \<noteq> v" "v \<noteq> u"
      by auto
    moreover from uv L(4) c(3) have "u \<noteq> ls_tail L" by auto
    ultimately show ?thesis using L(1,2,5) N uv P V
      by (cases nd; cases L; cases P; cases V)
         (simp add: list_append_after_def access_Some linked_def fun_upd_twist)
  qed
  show ?thesis using e linked_dll [OF D, of node nd L ?h] fresh N L by auto
qed

text \<open>Allocation of the new node followed by each of the link operations.\<close>

abbreviation fresh_node :: "ptr \<Rightarrow> knode" where
  "fresh_node item \<equiv> \<lparr>nd_next = NULL, nd_prev = NULL, nd_value = item, nd_owner = NULL\<rparr>"

abbreviation with_node :: "kheap \<Rightarrow> ptr \<Rightarrow> knode \<Rightarrow> kheap" where
  "with_node h a n \<equiv> h\<lparr>h_nodes := (h_nodes h)(a \<mapsto> n)\<rparr>"

lemma fresh_not_member: "dll h k ys \<Longrightarrow> h_nodes h a = None \<Longrightarrow> a \<notin> set ys"
  using dll_member by force

lemma fresh_link_values:
  "touches l A (with_node h a n) h' \<Longrightarrow> a \<notin> set us \<Longrightarrow> a \<notin> set vs \<Longrightarrow>
   node_values h' (us @ a # vs) = node_values h us @ nd_value n # node_values h vs"
  by (auto simp: node_values_def dest!: touches_values [of _ _ _ _ "us @ a # vs"])

lemma fresh_link_frame:
  assumes "dll h l xs" and "h_nodes h a = None" and "touches l (insert a (set xs)) (with_node h a n) h'"
  shows "\<forall>k ys. k \<noteq> l \<longrightarrow> dll h k ys \<longrightarrow> dll h' k ys"
proof (intro allI impI)
  fix k ys assume k: "k \<noteq> l" "dll h k ys"
  have "a \<notin> set ys" using k(2) assms(2) by (rule fresh_not_member)
  then show "dll h' k ys"
    using dll_frame [OF assms(3) malloc_node_dll [OF k(2)] k(1)] dll_disjoint [OF assms(1) k(2,1)]
    by auto
qed

lemma list_insert_spec:
  assumes D: "dll h l xs" and a: "a \<noteq> NULL" "h_nodes h a = None"
  shows "\<exists>h'. list_insert a l item h = Some (a, h') \<and> dll h' l (xs @ [a]) \<and>
              node_values h' (xs @ [a]) = node_values h xs @ [item] \<and>
              (\<forall>k ys. k \<noteq> l \<longrightarrow> dll h k ys \<longrightarrow> dll h' k ys)"
proof -
  note fr = fresh_not_member [OF D a(2)]
  obtain h' where h': "list_append l a (with_node h a (fresh_node item)) = Some h'"
      "dll h' l (xs @ [a])" "touches l (insert a (set xs)) (with_node h a (fresh_node item)) h'"
    using list_append_spec [OF malloc_node_dll [OF D fr] _ fr] a(1) by (auto simp: get_node_def)
  then show ?thesis
    using fresh_link_values [OF h'(3) fr, of "[]"] fresh_link_frame [OF D a(2) h'(3)] a(1)
    by (auto simp: list_insert_def malloc_node_def node_values_def)
qed

lemma list_insert_after_spec:
  assumes D: "dll h l (us @ vs)" and a: "a \<noteq> NULL" "h_nodes h a = None"
  shows "\<exists>h'. list_insert_after a l (last (NULL # us)) item h = Some (a, h') \<and>
              dll h' l (us @ a # vs) \<and>
              node_values h' (us @ a # vs) = node_values h us @ item # node_values h vs \<and>
              (\<forall>k ys. k \<noteq> l \<longrightarrow> dll h k ys \<longrightarrow> dll h' k ys)"
proof -
  note fr = fresh_not_member [OF D a(2)]
  obtain h' where h': "list_append_after l (last (NULL # us)) a (with_node h a (fresh_node item)) = Some h'"
      "dll h' l (us @ a # vs)" "touches l (insert a (set (us @ vs))) (with_node h a (fresh_node item)) h'"
    using list_append_after_spec [OF malloc_node_dll [OF D fr, of "fresh_node item"] _ fr] a(1)
    by (auto simp: get_node_def)
  then show ?thesis
    using fresh_link_values [OF h'(3), of us vs] fr fresh_link_frame [OF D a(2) h'(3)] a(1)
    by (auto simp: list_insert_after_def malloc_node_def simp del: last.simps)
qed

lemma list_insert_before_spec:
  assumes D: "dll h l (us @ v # vs)" and a: "a \<noteq> NULL" "h_nodes h a = None"
  shows "\<exists>h'. list_insert_before a l v item h = Some (a, h') \<and>
              dll h' l (us @ a # v # vs) \<and>
              node_values h' (us @ a # v # vs) = node_values h us @ item # node_values h (v # vs) \<and>
              (\<forall>k ys. k \<noteq> l \<longrightarrow> dll h k ys \<longrightarrow> dll h' k ys)"
proof -
  note fr = fresh_not_member [OF D a(2)]
  obtain h' where h': "list_append_before l v a (with_node h a (fresh_node item)) = Some h'"
      "dll h' l (us @ a # v # vs)"
      "touches l (insert a (set (us @ v # vs))) (with_node h a (fresh_node item)) h'"
    using list_append_before_spec [OF malloc_node_dll [OF D fr, of "fresh_node item"] _ fr] a(1)
    by (auto simp: get_node_def)
  then show ?thesis
    using fresh_link_values [OF h'(3), of us "v # vs"] fr fresh_link_frame [OF D a(2) h'(3)] a(1)
    by (auto simp: list_insert_before_def malloc_node_def)
qed

lemma list_create_spec:
  assumes "a \<noteq> NULL" and "h_lists h a = None"
  shows "\<exists>h'. list_create a name metadata h = Some (a, h') \<and> dll h' a [] \<and>
              (\<forall>k ys. dll h k ys \<longrightarrow> dll h' k ys)"
  using assms by (auto simp: list_create_def malloc_list_def dll_def)

subsection \<open>Searches\<close>

lemma chain_hd_cases:
  assumes "chain ns l p (x # xs) NULL" and "ns = h_nodes h"
  obtains n where "get_node x h = Some n" and "x \<noteq> NULL" and "nd_next n = hd (xs @ [NULL])"
    and "chain ns l x xs NULL" and "h_nodes h x = Some n"
  using assms by (auto simp: get_node_def split: option.splits)

lemma list_find_from_chain:
  "chain (h_nodes h) l p xs NULL \<Longrightarrow>
   list_find_from (hd (xs @ [NULL])) v h =
     Some (case List.find (\<lambda>x. node_values h [x] = [v]) xs of None \<Rightarrow> NULL | Some x \<Rightarrow> x)"
proof (induction xs arbitrary: p)
  case Nil
  then show ?case by (simp add: list_find_from.simps)
next
  case (Cons x xs)
  then obtain n where "get_node x h = Some n" "x \<noteq> NULL" "nd_next n = hd (xs @ [NULL])"
      "chain (h_nodes h) l x xs NULL" "h_nodes h x = Some n"
    by (elim chain_hd_cases) simp
  with Cons.IH show ?case by (simp add: list_find_from.simps [of x] node_values_def)
qed

lemma list_index_of_from_chain:
  "chain (h_nodes h) l p xs NULL \<Longrightarrow>
   list_index_of_from (hd (xs @ [NULL])) v i h =
     Some (if v \<in> set (node_values h xs)
           then i + int (length (takeWhile (\<lambda>w. w \<noteq> v) (node_values h xs))) else -1)"
proof (induction xs arbitrary: p i)
  case Nil
  then show ?case by (simp add: list_index_of_from.simps node_values_def)
next
  case (Cons x xs)
  then obtain n where "get_node x h = Some n" "x \<noteq> NULL" "nd_next n = hd (xs @ [NULL])"
      "chain (h_nodes h) l x xs NULL" "h_nodes h x = Some n"
    by (elim chain_hd_cases) simp
  with Cons.IH show ?case
    by (auto simp: list_index_of_from.simps [of x] node_values_def)
qed

lemma list_index_from_chain:
  "chain (h_nodes h) l p xs NULL \<Longrightarrow>
   list_index_from (hd (xs @ [NULL])) index i h =
     Some (if i \<le> index \<and> nat (index - i) < length xs
           then node_values h xs ! nat (index - i) else NULL)"
proof (induction xs arbitrary: p i)
  case Nil
  then show ?case by (simp add: list_index_from.simps)
next
  case (Cons x xs)
  then obtain n where "get_node x h = Some n" "x \<noteq> NULL" "nd_next n = hd (xs @ [NULL])"
      "chain (h_nodes h) l x xs NULL" "h_nodes h x = Some n"
    by (elim chain_hd_cases) simp
  moreover have "nat (index - i) = Suc (nat (index - (i + 1)))" if "i < index"
    using that by simp
  ultimately show ?case using Cons.IH
    by (auto simp: list_index_from.simps [of x] node_values_def)
qed

lemma list_find_spec:
  "dll h l xs \<Longrightarrow> list_find l v h =
     Some (case List.find (\<lambda>x. node_values h [x] = [v]) xs of None \<Rightarrow> NULL | Some x \<Rightarrow> x)"
  using list_find_from_chain by (fastforce simp: list_find_def dll_def get_list_def split: option.splits)

lemma list_index_of_spec:
  "dll h l xs \<Longrightarrow> list_index_of l v h =
     Some (if v \<in> set (node_values h xs)
           then int (length (takeWhile (\<lambda>w. w \<noteq> v) (node_values h xs))) else -1)"
  using list_index_of_from_chain [of h l NULL xs v 0]
  by (fastforce simp: list_index_of_def dll_def get_list_def split: option.splits)

lemma list_index_spec:
  "dll h l xs \<Longrightarrow> list_index l index h =
     Some (if 0 \<le> index \<and> nat index < length xs then node_values h xs ! nat index else NULL)"
  using list_index_from_chain [of h l NULL xs index 0]
  by (fastforce simp: list_index_def dll_def get_list_def split: option.splits)


subsection \<open>Removal\<close>

lemma list_walk_chain:
  "chain (h_nodes h) l p (us @ x # vs) NULL \<Longrightarrow>
   list_walk (length us) (hd ((us @ x # vs) @ [NULL])) h = Some x"
proof (induction us arbitrary: p)
  case (Cons u us)
  then obtain n where "get_node u h = Some n" "nd_next n = hd ((us @ x # vs) @ [NULL])"
      "chain (h_nodes h) l u (us @ x # vs) NULL"
    by (auto simp: get_node_def split: option.splits)
  with Cons.IH show ?case by simp
qed simp

lemma list_walk_end:
  "chain (h_nodes h) l p xs NULL \<Longrightarrow> list_walk (length xs) (hd (xs @ [NULL])) h = Some NULL"
proof (induction xs arbitrary: p)
  case (Cons x xs)
  then obtain n where "get_node x h = Some n" "nd_next n = hd (xs @ [NULL])"
      "chain (h_nodes h) l x xs NULL"
    by (elim chain_hd_cases) simp
  with Cons.IH show ?case by simp
qed simp

lemma list_delete_null: "list_delete l NULL h = None"
  by (auto simp: list_delete_def get_node_def fault_simps)

lemma list_remove_spec:
  assumes D: "dll h l xs" and i: "unat index < length xs"
  shows "\<exists>h'. list_remove l index h = Some h' \<and>
              dll h' l (take (unat index) xs @ drop (Suc (unat index)) xs)"
proof -
  let ?i = "unat index"
  obtain L where L: "get_list l h = Some L" "ls_head L = hd (xs @ [NULL])"
      "ls_length L = of_nat (length xs)"
    using dll_header [OF D] by metis
  have "unat (ls_length L) = length xs"
    unfolding L(3) by (rule unat_of_nat_64 [OF dll_length_bound [OF D]])
  with i have "\<not> index > ls_length L" by (simp add: word_less_nat_alt)
  moreover have x: "xs = take ?i xs @ xs ! ?i # drop (Suc ?i) xs"
    using i by (simp add: id_take_nth_drop)
  have "list_walk ?i (hd (xs @ [NULL])) h = Some (xs ! ?i)"
    using list_walk_chain [of h l NULL "take ?i xs" "xs ! ?i" "drop (Suc ?i) xs"] D i
    by (simp add: x [symmetric] dll_def)
  moreover obtain h' where "list_delete l (xs ! ?i) h = Some h'"
      "dll h' l (take ?i xs @ drop (Suc ?i) xs)"
    using list_delete_spec [of h l "take ?i xs" "xs ! ?i" "drop (Suc ?i) xs"] D x by metis
  ultimately show ?thesis using L by (simp add: list_remove_def)
qed

lemma list_remove_out_of_range:
  assumes D: "dll h l xs" and i: "unat index \<ge> length xs"
  shows "list_remove l index h = (if unat index = length xs then None else Some h)"
proof -
  obtain L where L: "get_list l h = Some L" "ls_head L = hd (xs @ [NULL])"
      "ls_length L = of_nat (length xs)"
    using dll_header [OF D] by metis
  have u: "unat (ls_length L) = length xs"
    unfolding L(3) by (rule unat_of_nat_64 [OF dll_length_bound [OF D]])
  have "chain (h_nodes h) l NULL xs NULL" using D by (simp add: dll_def)
  with i u L show ?thesis
    by (auto simp: list_remove_def list_walk_end list_delete_null word_less_nat_alt)
qed

lemma list_pop_spec:
  assumes D: "dll h l (xs @ [x])"
  shows "\<exists>h'. list_pop l h = Some (x, h') \<and> dll h' l xs \<and> touches l (set (xs @ [x])) h h'"
proof -
  obtain L where "get_list l h = Some L" "ls_tail L = x"
    using dll_header [OF D] by auto
  moreover have "x \<noteq> NULL" using dll_member [OF D, of x] by auto
  moreover note list_delete_spec [of h l xs x "[]"] D
  ultimately show ?thesis by (auto simp: list_pop_def)
qed

lemma list_dequeue_spec:
  assumes D: "dll h l (x # xs)"
  shows "\<exists>h'. list_dequeue l h = Some (x, h') \<and> dll h' l xs \<and> touches l (set (x # xs)) h h'"
proof -
  obtain L where "get_list l h = Some L" "ls_head L = x"
    using dll_header [OF D] by auto
  moreover have "x \<noteq> NULL" using dll_member [OF D, of x] by auto
  moreover note list_delete_spec [of h l "[]" x xs] D
  ultimately show ?thesis by (auto simp: list_dequeue_def)
qed

lemma list_pop_empty: "dll h l [] \<Longrightarrow> list_pop l h = Some (NULL, h)"
  by (auto simp: list_pop_def elim!: dll_header)

lemma list_dequeue_empty: "dll h l [] \<Longrightarrow> list_dequeue l h = Some (NULL, h)"
  by (auto simp: list_dequeue_def elim!: dll_header)

subsection \<open>Copying\<close>

text \<open>The loop of \<open>list_copy\<close> never advances its node.\<close>

lemma list_copy_loop_diverges:
  assumes "node \<noteq> NULL"
  shows "list_copy_loop alloc i out node h = None"
proof (rule ccontr)
  assume "list_copy_loop alloc i out node h \<noteq> None"
  then obtain h' where r: "list_copy_loop alloc i out node h = Some h'" by blast
  have "node = NULL"
    by (rule list_copy_loop.raw_induct
          [where P = "\<lambda>alloc i out node h h'. node = NULL", OF _ r])
       (auto split: if_splits option.splits)
  with assms show False by blast
qed

subsection \<open>Merging\<close>

definition reowned :: "(ptr \<rightharpoonup> knode) \<Rightarrow> ptr \<Rightarrow> ptr list \<Rightarrow> (ptr \<rightharpoonup> knode)" where
  "reowned ns t xs = (\<lambda>x. if x \<in> set xs then map_option (\<lambda>n. n\<lparr>nd_owner := t\<rparr>) (ns x) else ns x)"

lemma reowned_Cons: "reowned ns t (x # xs) = reowned (ns(x := map_option (\<lambda>n. n\<lparr>nd_owner := t\<rparr>) (ns x))) t xs"
  by (auto simp: reowned_def option.map_comp comp_def)

lemma chain_reowned:
  "chain ns l p xs q \<Longrightarrow> set xs \<subseteq> set ys \<Longrightarrow> chain (reowned ns t ys) t p xs q"
  by (induction xs arbitrary: p) (auto simp: reowned_def split: option.splits)

lemma list_set_owner_from_chain:
  "chain (h_nodes h) l p xs NULL \<Longrightarrow> distinct xs \<Longrightarrow>
   list_set_owner_from (hd (xs @ [NULL])) t h = Some (h\<lparr>h_nodes := reowned (h_nodes h) t xs\<rparr>)"
proof (induction xs arbitrary: p h)
  case Nil
  then show ?case by (simp add: list_set_owner_from.simps reowned_def)
next
  case (Cons x xs)
  then obtain n where n: "x \<noteq> NULL" "nd_next n = hd (xs @ [NULL])"
      "chain (h_nodes h) l x xs NULL" "h_nodes h x = Some n"
    by (elim chain_hd_cases) simp
  let ?h = "h\<lparr>h_nodes := (h_nodes h)(x \<mapsto> n\<lparr>nd_owner := t\<rparr>)\<rparr>"
  have "list_set_owner_from (hd (xs @ [NULL])) t ?h = Some (?h\<lparr>h_nodes := reowned (h_nodes ?h) t xs\<rparr>)"
  proof (rule Cons.IH)
    show "chain (h_nodes ?h) l x xs NULL" using Cons.prems(2) n(3) by simp
  qed (use Cons.prems(2) in simp)
  with n show ?case
    by (simp add: list_set_owner_from.simps [of x] list_access_defs reowned_Cons)
qed


text \<open>Joining two chains that are each closed by null pointers.\<close>

definition joined :: "(ptr \<rightharpoonup> knode) \<Rightarrow> ptr list \<Rightarrow> ptr list \<Rightarrow> (ptr \<rightharpoonup> knode)" where
  "joined ns xs ys =
     (let ns = (if ys = [] then ns
                else ns(hd ys := map_option (\<lambda>n. n\<lparr>nd_prev := last (NULL # xs)\<rparr>) (ns (hd ys))))
      in if xs = [] then ns
         else ns(last xs := map_option (\<lambda>n. n\<lparr>nd_next := hd (ys @ [NULL])\<rparr>) (ns (last xs))))"

lemma chain_joined:
  assumes X: "chain ns l NULL xs NULL" "distinct xs" and Y: "chain ns l NULL ys NULL" "distinct ys"
    and dj: "set xs \<inter> set ys = {}"
  shows "chain (joined ns xs ys) l NULL (xs @ ys) NULL"
proof -
  define A where "A = (if ys = [] then ns
      else ns(hd ys := map_option (\<lambda>n. n\<lparr>nd_prev := last (NULL # xs)\<rparr>) (ns (hd ys))))"
  have j: "joined ns xs ys = (if xs = [] then A
      else A(last xs := map_option (\<lambda>n. n\<lparr>nd_next := hd (ys @ [NULL])\<rparr>) (A (last xs))))"
    by (simp add: joined_def A_def)
  have ay: "chain A l (last (NULL # xs)) ys NULL"
  proof (cases "ys = []")
    case False
    then obtain Q where "ns (hd ys) = Some Q" using chain_hd_Some [OF Y(1)] by blast
    then show ?thesis
      using chain_relink_prev [OF Y(1) False _ Y(2), of Q "last (NULL # xs)"] False
      by (simp add: A_def del: last.simps)
  qed simp
  have "ys \<noteq> [] \<Longrightarrow> hd ys \<notin> set xs" using dj by (metis disjoint_iff list.set_sel(1))
  then have ax: "chain A l NULL xs NULL" using X(1) by (simp add: A_def)
  show ?thesis
  proof (cases "xs = []")
    case True
    with j ay show ?thesis by simp
  next
    case False
    then have "last xs \<notin> set ys" using dj by (metis disjoint_iff last_in_set)
    moreover obtain P where "A (last xs) = Some P" using chain_last_Some [OF ax False] by blast
    ultimately show ?thesis using j False ay chain_relink_next [OF ax False _ X(2)]
      by (simp add: chain_append)
  qed
qed

lemma joined_value: "map_option nd_value (joined ns xs ys x) = map_option nd_value (ns x)"
  by (cases "xs = []"; cases "ys = []") (simp_all add: joined_def option.map_comp comp_def)

lemma joined_frame:
  assumes "x \<notin> set xs" and "x \<notin> set ys"
  shows "joined ns xs ys x = ns x"
proof -
  have "xs \<noteq> [] \<Longrightarrow> x \<noteq> last xs" and "ys \<noteq> [] \<Longrightarrow> x \<noteq> hd ys"
    using assms by (metis last_in_set, metis list.set_sel(1))
  then show ?thesis by (cases "xs = []"; cases "ys = []") (simp_all add: joined_def)
qed

lemma list_merge_eval:
  assumes T: "dll h t xs" and S: "dll h s ys" and ne: "t \<noteq> s"
    and LT: "h_lists h t = Some LT" and LS: "h_lists h s = Some LS"
  shows "list_merge t s h = Some (h\<lparr>h_nodes := joined (reowned (h_nodes h) t ys) xs ys,
      h_lists := (h_lists h)(t \<mapsto> LT\<lparr>ls_head := if xs = [] then hd (ys @ [NULL]) else ls_head LT,
               ls_tail := if ys = [] then ls_tail LT else last ys,
               ls_length := ls_length LT + ls_length LS\<rparr>, s := None)\<rparr>)"
proof -
  let ?n1 = "reowned (h_nodes h) t ys"
  have LT': "t \<noteq> NULL" "ls_head LT = hd (xs @ [NULL])" "ls_tail LT = last (NULL # xs)"
    and LS': "s \<noteq> NULL" "ls_head LS = hd (ys @ [NULL])" "ls_tail LS = last (NULL # ys)"
    using T S LT LS by (auto simp: dll_def)
  have c: "chain (h_nodes h) t NULL xs NULL" "chain (h_nodes h) s NULL ys NULL" "distinct ys"
    using T S by (auto simp: dll_def)
  have dj: "set xs \<inter> set ys = {}" using dll_disjoint [OF T S] ne by auto
  have own: "list_set_owner_from (hd (ys @ [NULL])) t h = Some (h\<lparr>h_nodes := ?n1\<rparr>)"
    using list_set_owner_from_chain [OF c(2,3)] .
  have y: "ys \<noteq> [] \<Longrightarrow> hd ys \<noteq> NULL \<and> last ys \<noteq> NULL \<and> (\<exists>n. ?n1 (hd ys) = Some n)"
    using chain_hd_Some [OF c(2)] chain_last_Some [OF c(2)] by (auto simp: reowned_def)
  have x: "xs \<noteq> [] \<Longrightarrow> last xs \<noteq> NULL \<and> (\<exists>n. ?n1 (last xs) = Some n)"
    using chain_last_Some [OF c(1)] by (auto simp: reowned_def)
  have xy: "xs \<noteq> [] \<Longrightarrow> ys \<noteq> [] \<Longrightarrow> last xs \<noteq> hd ys"
    using dj by (metis disjoint_iff last_in_set list.set_sel(1))
  show ?thesis
  proof (cases "xs = []"; cases "ys = []")
    assume "xs = []" "ys = []"
    then show ?thesis using LT LS LT' LS' own ne
      by (cases LT) (simp add: list_merge_def access_Some joined_def free_list_def)
  next
    assume "xs = []" "ys \<noteq> []"
    then show ?thesis using LT LS LT' LS' own ne y
      by (cases LT) (auto simp: list_merge_def access_Some joined_def free_list_def)
  next
    assume "xs \<noteq> []" "ys = []"
    then show ?thesis using LT LS LT' LS' own ne x
      by (cases LT) (auto simp: list_merge_def access_Some joined_def free_list_def)
  next
    assume "xs \<noteq> []" "ys \<noteq> []"
    then show ?thesis using LT LS LT' LS' own ne x y xy
      by (cases LT) (auto simp: list_merge_def access_Some joined_def free_list_def)
  qed
qed

lemma list_merge_spec:
  assumes T: "dll h t xs" and S: "dll h s ys" and ne: "t \<noteq> s"
  shows "\<exists>h'. list_merge t s h = Some h' \<and> dll h' t (xs @ ys) \<and> h_lists h' s = None \<and>
              node_values h' (xs @ ys) = node_values h xs @ node_values h ys \<and>
              (\<forall>k zs. k \<noteq> t \<longrightarrow> k \<noteq> s \<longrightarrow> dll h k zs \<longrightarrow> dll h' k zs)"
proof -
  let ?n = "reowned (h_nodes h) t ys"
  obtain LT LS where L: "h_lists h t = Some LT" "h_lists h s = Some LS"
    using T S by (auto simp: dll_def split: option.splits)
  have dj: "set xs \<inter> set ys = {}" using dll_disjoint [OF T S] ne by auto
  have "chain ?n t NULL xs NULL = chain (h_nodes h) t NULL xs NULL"
    using dj by (intro chain_frame) (auto simp: reowned_def)
  moreover have "chain ?n t NULL ys NULL"
    using S by (intro chain_reowned [of _ s]) (auto simp: dll_def)
  ultimately have "chain (joined ?n xs ys) t NULL (xs @ ys) NULL"
    using T S dj by (intro chain_joined) (auto simp: dll_def)
  moreover have "chain (joined ?n xs ys) k NULL zs NULL = chain (h_nodes h) k NULL zs NULL"
    if "dll h k zs" "k \<noteq> t" "k \<noteq> s" for k zs
    using dll_disjoint [OF T that(1)] dll_disjoint [OF S that(1)] that(2,3)
    by (intro chain_frame) (subst joined_frame, auto simp: reowned_def)
  moreover have "map_option nd_value (joined ?n xs ys x) = map_option nd_value (h_nodes h x)" for x
    by (simp add: joined_value reowned_def option.map_comp comp_def)
  then have "node_values (h\<lparr>h_nodes := joined ?n xs ys, h_lists := K\<rparr>) zs = node_values h zs" for K zs
    by (auto simp: node_values_def split: option.splits)
       (metis option.map_disc_iff option.simps(9) option.inject option.distinct(1))+
  ultimately show ?thesis using list_merge_eval [OF T S ne L] T S L dj ne
    by (auto simp: dll_def hd_append node_values_def)
qed


subsection \<open>Freeing\<close>

lemma list_free_from_chain:
  "chain (h_nodes h) l p xs NULL \<Longrightarrow> distinct xs \<Longrightarrow>
   list_free_from (hd (xs @ [NULL])) h =
     Some (h\<lparr>h_nodes := (\<lambda>x. if x \<in> set xs then None else h_nodes h x)\<rparr>)"
proof (induction xs arbitrary: p h)
  case Nil
  then show ?case by (simp add: list_free_from.simps)
next
  case (Cons x xs)
  then obtain n where n: "get_node x h = Some n" "x \<noteq> NULL" "nd_next n = hd (xs @ [NULL])"
      "chain (h_nodes h) l x xs NULL" "h_nodes h x = Some n"
    by (elim chain_hd_cases) simp
  let ?h = "h\<lparr>h_nodes := (h_nodes h)(x := None)\<rparr>"
  have "list_free_from (hd (xs @ [NULL])) ?h =
      Some (?h\<lparr>h_nodes := (\<lambda>y. if y \<in> set xs then None else h_nodes ?h y)\<rparr>)"
  proof (rule Cons.IH)
    show "chain (h_nodes ?h) l x xs NULL" using Cons.prems(2) n(4) by simp
  qed (use Cons.prems(2) in simp)
  moreover have "(\<lambda>y. if y \<in> set xs then None else h_nodes ?h y) =
      (\<lambda>y. if y \<in> set (x # xs) then None else h_nodes h y)"
    by auto
  ultimately show ?case using n by (simp add: list_free_from.simps [of x] free_node_def)
qed

lemma list_destroy_from_chain:
  "chain (h_nodes h) l p xs NULL \<Longrightarrow> distinct (filter (\<lambda>v. v \<noteq> NULL) (node_values h xs)) \<Longrightarrow>
   (\<forall>v \<in> set (node_values h xs). v \<noteq> NULL \<longrightarrow> h_blocks h v) \<Longrightarrow>
   list_destroy_from (hd (xs @ [NULL])) h =
     Some (h\<lparr>h_blocks := (\<lambda>v. h_blocks h v \<and> (v = NULL \<or> v \<notin> set (node_values h xs)))\<rparr>)"
proof (induction xs arbitrary: p h)
  case Nil
  then show ?case by (simp add: list_destroy_from.simps node_values_def)
next
  case (Cons x xs)
  from Cons.prems(1) obtain n where n: "get_node x h = Some n" "x \<noteq> NULL"
      "nd_next n = hd (xs @ [NULL])" "chain (h_nodes h) l x xs NULL" "h_nodes h x = Some n"
    by (elim chain_hd_cases) simp
  let ?v = "nd_value n"
  let ?h = "if ?v = NULL then h else h\<lparr>h_blocks := (h_blocks h)(?v := False)\<rparr>"
  have vals: "node_values h (x # xs) = ?v # node_values h xs" "node_values ?h xs = node_values h xs"
    using n by (auto simp: node_values_def)
  have f: "free_block ?v h = Some ?h"
    using Cons.prems(3) vals by (auto simp: free_block_def)
  have "list_destroy_from (hd (xs @ [NULL])) ?h =
      Some (?h\<lparr>h_blocks := (\<lambda>v. h_blocks ?h v \<and> (v = NULL \<or> v \<notin> set (node_values ?h xs)))\<rparr>)"
  proof (rule Cons.IH)
    show "chain (h_nodes ?h) l x xs NULL" using n(4) by simp
    show "distinct (filter (\<lambda>v. v \<noteq> NULL) (node_values ?h xs))"
      using Cons.prems(2) vals by (auto split: if_splits)
    show "\<forall>v \<in> set (node_values ?h xs). v \<noteq> NULL \<longrightarrow> h_blocks ?h v"
      using Cons.prems(2,3) vals by (auto split: if_splits)
  qed
  moreover have "?h\<lparr>h_blocks := (\<lambda>v. h_blocks ?h v \<and> (v = NULL \<or> v \<notin> set (node_values ?h xs)))\<rparr> =
      h\<lparr>h_blocks := (\<lambda>v. h_blocks h v \<and> (v = NULL \<or> v \<notin> set (node_values h (x # xs))))\<rparr>"
    unfolding vals
    by (cases "?v = NULL")
       (auto simp: node_values_def fun_eq_iff intro!: arg_cong [of _ _ "\<lambda>b. h\<lparr>h_blocks := b\<rparr>"])
  ultimately show ?case using n f by (simp add: list_destroy_from.simps [of x])
qed

lemma list_free_spec:
  assumes "dll h l xs"
  shows "list_free l h = Some (h\<lparr>h_nodes := (\<lambda>x. if x \<in> set xs then None else h_nodes h x)\<rparr>)"
proof -
  obtain L where "get_list l h = Some L" "ls_head L = hd (xs @ [NULL])"
    using dll_header [OF assms] by metis
  with assms show ?thesis
    by (simp add: list_free_def list_free_from_chain [of h l NULL] dll_def)
qed

lemma list_destroy_spec:
  assumes "dll h l xs" and "distinct (filter (\<lambda>v. v \<noteq> NULL) (node_values h xs))"
    and "\<forall>v \<in> set (node_values h xs). v \<noteq> NULL \<longrightarrow> h_blocks h v"
  shows "list_destroy l h =
    Some (h\<lparr>h_blocks := (\<lambda>v. h_blocks h v \<and> (v = NULL \<or> v \<notin> set (node_values h xs)))\<rparr>)"
proof -
  obtain L where "get_list l h = Some L" "ls_head L = hd (xs @ [NULL])"
    using dll_header [OF assms(1)] by metis
  with assms show ?thesis
    by (simp add: list_destroy_def list_destroy_from_chain [of h l NULL] dll_def)
qed


section \<open>The queue interface\<close>

text \<open>
  What the scheduler, the wait queues and the mapping lists rely on: a heap holds several
  lists of nodes, a node is in at most one of them, and appending, unlinking and taking
  from either end act on one list and leave the others alone.
\<close>

locale node_queues =
  fixes rep :: "'h \<Rightarrow> ptr \<Rightarrow> ptr list \<Rightarrow> bool"
    and live :: "'h \<Rightarrow> ptr \<Rightarrow> bool"
    and append :: "ptr \<Rightarrow> ptr \<Rightarrow> 'h \<Rightarrow> 'h option"
    and unlink :: "ptr \<Rightarrow> ptr \<Rightarrow> 'h \<Rightarrow> 'h option"
    and pop :: "ptr \<Rightarrow> 'h \<Rightarrow> (ptr \<times> 'h) option"
    and dequeue :: "ptr \<Rightarrow> 'h \<Rightarrow> (ptr \<times> 'h) option"
  assumes rep_live: "rep h l xs \<Longrightarrow> n \<in> set xs \<Longrightarrow> live h n"
    and rep_disjoint: "rep h l xs \<Longrightarrow> rep h k ys \<Longrightarrow> k \<noteq> l \<Longrightarrow> set xs \<inter> set ys = {}"
    and rep_distinct: "rep h l xs \<Longrightarrow> distinct xs"
    and append_law: "rep h l xs \<Longrightarrow> live h n \<Longrightarrow> n \<notin> set xs \<Longrightarrow>
      \<exists>h'. append l n h = Some h' \<and> rep h' l (xs @ [n]) \<and> (\<forall>m. live h m \<longrightarrow> live h' m) \<and>
           (\<forall>k ys. k \<noteq> l \<longrightarrow> n \<notin> set ys \<longrightarrow> rep h k ys \<longrightarrow> rep h' k ys)"
    and unlink_law: "rep h l (us @ n # vs) \<Longrightarrow>
      \<exists>h'. unlink l n h = Some h' \<and> rep h' l (us @ vs) \<and> (\<forall>m. live h m \<longrightarrow> live h' m) \<and>
           (\<forall>k ys. k \<noteq> l \<longrightarrow> rep h k ys \<longrightarrow> rep h' k ys)"
    and pop_law: "rep h l (xs @ [n]) \<Longrightarrow> pop l h = map_option (Pair n) (unlink l n h)"
    and dequeue_law: "rep h l (n # xs) \<Longrightarrow> dequeue l h = map_option (Pair n) (unlink l n h)"
begin

text \<open>Moving a node from the middle of one queue to the end of another.\<close>

lemma transfer:
  assumes "rep h l (us @ n # vs)" and "rep h k ys" and "k \<noteq> l"
  shows "\<exists>h1 h2. unlink l n h = Some h1 \<and> append k n h1 = Some h2 \<and>
                 rep h2 l (us @ vs) \<and> rep h2 k (ys @ [n])"
proof -
  have n: "live h n" "n \<notin> set ys" "n \<notin> set (us @ vs)"
    using rep_live [OF assms(1)] rep_disjoint [OF assms] rep_distinct [OF assms(1)] by auto
  obtain h1 where h1: "unlink l n h = Some h1" "rep h1 l (us @ vs)" "live h1 n" "rep h1 k ys"
    using unlink_law [OF assms(1)] assms(2,3) n(1) by blast
  obtain h2 where "append k n h1 = Some h2" "rep h2 k (ys @ [n])" "rep h2 l (us @ vs)"
    using append_law [OF h1(4,3) n(2)] h1(2) n(3) assms(3) by metis
  with h1(1) show ?thesis by blast
qed

text \<open>A node appended to an empty queue comes back from either end.\<close>

lemma append_then_dequeue:
  assumes "rep h l xs" and "live h n" and "n \<notin> set xs"
  shows "\<exists>h1 h2. append l n h = Some h1 \<and> dequeue l h1 = Some (hd (xs @ [n]), h2) \<and>
                 rep h2 l (tl (xs @ [n]))"
proof -
  obtain h1 where h1: "append l n h = Some h1" "rep h1 l (xs @ [n])"
    using append_law [OF assms] by blast
  then have "rep h1 l ([] @ hd (xs @ [n]) # tl (xs @ [n]))" by simp
  from unlink_law [OF this] dequeue_law [of h1 l "hd (xs @ [n])" "tl (xs @ [n])"] h1 show ?thesis
    by auto
qed

lemma append_then_pop:
  assumes "rep h l xs" and "live h n" and "n \<notin> set xs"
  shows "\<exists>h1 h2. append l n h = Some h1 \<and> pop l h1 = Some (n, h2) \<and> rep h2 l xs"
proof -
  obtain h1 where h1: "append l n h = Some h1" "rep h1 l (xs @ n # [])"
    using append_law [OF assms] by blast
  from unlink_law [OF h1(2)] pop_law [of h1 l xs n] h1 show ?thesis by auto
qed

end

definition node_live :: "kheap \<Rightarrow> ptr \<Rightarrow> bool" where
  "node_live h n \<longleftrightarrow> get_node n h \<noteq> None"

lemma touches_live:
  assumes "touches l A h h'" and "node_live h m"
  shows "node_live h' m"
proof -
  have "map_option nd_value (h_nodes h' m) = map_option nd_value (h_nodes h m)"
    using assms(1) by (simp add: touches_def)
  then have "h_nodes h' m = None \<longleftrightarrow> h_nodes h m = None"
    by (metis option.map_disc_iff)
  then show ?thesis using assms(2) by (cases "m = NULL") (auto simp: node_live_def get_node_def)
qed

interpretation kq: node_queues dll node_live list_append list_delete list_pop list_dequeue
proof
  fix h l xs n assume D: "dll h l xs" "node_live h n" "n \<notin> set xs"
  then obtain h' where h': "list_append l n h = Some h'" "dll h' l (xs @ [n])"
      "touches l (insert n (set xs)) h h'"
    using list_append_spec [OF D(1) _ D(3)] by (auto simp: node_live_def)
  moreover have "dll h' k ys" if "k \<noteq> l" "n \<notin> set ys" "dll h k ys" for k ys
    using dll_frame [OF h'(3) that(3,1)] dll_disjoint [OF D(1) that(3,1)] that(2) by auto
  ultimately show "\<exists>h'. list_append l n h = Some h' \<and> dll h' l (xs @ [n]) \<and>
      (\<forall>m. node_live h m \<longrightarrow> node_live h' m) \<and>
      (\<forall>k ys. k \<noteq> l \<longrightarrow> n \<notin> set ys \<longrightarrow> dll h k ys \<longrightarrow> dll h' k ys)"
    using touches_live by blast
next
  fix h l us n vs assume D: "dll h l (us @ n # vs)"
  obtain h' where h': "list_delete l n h = Some h'" "dll h' l (us @ vs)"
      "touches l (set (us @ n # vs)) h h'"
    using list_delete_spec [OF D] by blast
  moreover have "dll h' k ys" if "k \<noteq> l" "dll h k ys" for k ys
    using dll_frame [OF h'(3) that(2,1)] dll_disjoint [OF D that(2,1)] by auto
  ultimately show "\<exists>h'. list_delete l n h = Some h' \<and> dll h' l (us @ vs) \<and>
      (\<forall>m. node_live h m \<longrightarrow> node_live h' m) \<and>
      (\<forall>k ys. k \<noteq> l \<longrightarrow> dll h k ys \<longrightarrow> dll h' k ys)"
    using touches_live by blast
next
  fix h l xs n assume D: "dll h l (xs @ [n])"
  obtain L where "get_list l h = Some L" "ls_tail L = n" using dll_header [OF D] by auto
  moreover have "n \<noteq> NULL" using dll_member [OF D, of n] by auto
  ultimately show "list_pop l h = map_option (Pair n) (list_delete l n h)"
    by (cases "list_delete l n h") (auto simp: list_pop_def)
next
  fix h l n xs assume D: "dll h l (n # xs)"
  obtain L where "get_list l h = Some L" "ls_head L = n" using dll_header [OF D] by auto
  moreover have "n \<noteq> NULL" using dll_member [OF D, of n] by auto
  ultimately show "list_dequeue l h = map_option (Pair n) (list_delete l n h)"
    by (cases "list_delete l n h") (auto simp: list_dequeue_def)
next
  fix h l xs n assume "dll h l xs" "n \<in> set xs"
  then show "node_live h n" using dll_member [of h l xs n] by (auto simp: node_live_def)
next
  fix h l xs k ys assume "dll h l xs" "dll h k ys" "k \<noteq> l"
  then show "set xs \<inter> set ys = {}" by (rule dll_disjoint)
next
  fix h l xs assume "dll h l xs"
  then show "distinct xs" by (simp add: dll_def)
qed


section \<open>Properties\<close>

text \<open>
  A heap with the list at \<open>100\<close> linking the nodes \<open>1, 2, 3\<close> and the list at \<open>200\<close>
  linking the node \<open>4\<close>, on which the properties below are exercised.
\<close>

definition list_example :: kheap where
  "list_example =
     \<lparr>h_nodes = [1 \<mapsto> \<lparr>nd_next = 2, nd_prev = 0, nd_value = 11, nd_owner = 100\<rparr>,
                 2 \<mapsto> \<lparr>nd_next = 3, nd_prev = 1, nd_value = 12, nd_owner = 100\<rparr>,
                 3 \<mapsto> \<lparr>nd_next = 0, nd_prev = 2, nd_value = 13, nd_owner = 100\<rparr>,
                 4 \<mapsto> \<lparr>nd_next = 0, nd_prev = 0, nd_value = 14, nd_owner = 200\<rparr>],
      h_lists = [100 \<mapsto> \<lparr>ls_head = 1, ls_tail = 3, ls_length = 3, ls_name = ''ready'',
                         ls_metadata = 0\<rparr>,
                 200 \<mapsto> \<lparr>ls_head = 4, ls_tail = 4, ls_length = 1, ls_name = ''sleep'',
                         ls_metadata = 0\<rparr>],
      h_blocks = (\<lambda>p. p \<in> {11, 12, 13, 14})\<rparr>"

lemma list_example_dll: "dll list_example 100 [1, 2, 3]" "dll list_example 200 [4]"
  by (simp_all add: dll_def list_example_def)

text \<open>
  Property C25: \<open>list_delete\<close> of a member unlinks exactly that node, whatever its position:
  the list keeps its other nodes in order with head, tail and length right, the node itself
  ends up detached (no owner, no neighbours), and every other list and every node value of
  the heap is as before.
\<close>

theorem list_delete_refines:
  assumes "dll h l (us @ n # vs)"
  shows "\<exists>h'. list_delete l n h = Some h' \<and> dll h' l (us @ vs) \<and>
              (\<exists>N. h_nodes h' n = Some N \<and> nd_owner N = NULL \<and> nd_next N = NULL \<and> nd_prev N = NULL) \<and>
              (\<forall>k ys. k \<noteq> l \<longrightarrow> dll h k ys \<longrightarrow> dll h' k ys) \<and>
              (\<forall>ys. node_values h' ys = node_values h ys)"
proof -
  obtain h' where h': "list_delete l n h = Some h'" "dll h' l (us @ vs)"
      "touches l (set (us @ n # vs)) h h'"
      "\<exists>N. h_nodes h' n = Some N \<and> nd_owner N = NULL \<and> nd_next N = NULL \<and> nd_prev N = NULL"
    using list_delete_spec [OF assms] by blast
  have "dll h' k ys" if "k \<noteq> l" "dll h k ys" for k ys
    using dll_frame [OF h'(3) that(2,1)] dll_disjoint [OF assms that(2,1)] by auto
  with h' touches_values [OF h'(3)] show ?thesis by auto
qed

theorem list_delete_refines_witness:
  "\<exists>h'. list_delete 100 2 list_example = Some h' \<and> dll h' 100 [1, 3] \<and> dll h' 200 [4]"
  using list_delete_refines [of list_example 100 "[1]" 2 "[3]"] list_example_dll by auto

text \<open>
  Fact: \<open>list_insert_after\<close> and \<open>list_insert_before\<close> put a new node with the given
  value right after (a null \<open>before\<close> meaning at the front), respectively right before, the
  node they are given, and change no other list.
\<close>

theorem list_insert_at_refines:
  assumes "dll h l (us @ v # vs)" and "a \<noteq> NULL" and "h_nodes h a = None"
  shows "(\<exists>h'. list_insert_after a l (last (NULL # us)) item h = Some (a, h') \<and>
               dll h' l (us @ a # v # vs) \<and>
               node_values h' (us @ a # v # vs) = node_values h us @ item # node_values h (v # vs) \<and>
               (\<forall>k ys. k \<noteq> l \<longrightarrow> dll h k ys \<longrightarrow> dll h' k ys)) \<and>
         (\<exists>h'. list_insert_before a l v item h = Some (a, h') \<and>
               dll h' l (us @ a # v # vs) \<and>
               node_values h' (us @ a # v # vs) = node_values h us @ item # node_values h (v # vs) \<and>
               (\<forall>k ys. k \<noteq> l \<longrightarrow> dll h k ys \<longrightarrow> dll h' k ys))"
  using list_insert_after_spec [OF assms] list_insert_before_spec [OF assms] by blast

theorem list_insert_at_refines_witness:
  "(\<exists>h'. list_insert_after 9 100 1 99 list_example = Some (9, h') \<and> dll h' 100 [1, 9, 2, 3]) \<and>
   (\<exists>h'. list_insert_before 9 100 2 99 list_example = Some (9, h') \<and> dll h' 100 [1, 9, 2, 3])"
proof -
  have "h_nodes list_example 9 = None" by (simp add: list_example_def)
  then show ?thesis
    using list_insert_at_refines [of list_example 100 "[1]" 2 "[3]" 9 99] list_example_dll by auto
qed

text \<open>
  Fact: \<open>list_merge\<close> concatenates: afterwards the target links its own nodes followed
  by the source's, all owned by the target, the source header is freed, and no third list
  is affected.  Either list may be empty.
\<close>

theorem list_merge_refines:
  assumes "dll h t xs" and "dll h s ys" and "t \<noteq> s"
  shows "\<exists>h'. list_merge t s h = Some h' \<and> dll h' t (xs @ ys) \<and> h_lists h' s = None \<and>
              node_values h' (xs @ ys) = node_values h xs @ node_values h ys \<and>
              (\<forall>k zs. k \<noteq> t \<longrightarrow> k \<noteq> s \<longrightarrow> dll h k zs \<longrightarrow> dll h' k zs)"
  using list_merge_spec [OF assms] .

theorem list_merge_refines_witness:
  "\<exists>h'. list_merge 100 200 list_example = Some h' \<and> dll h' 100 [1, 2, 3, 4]"
  using list_merge_refines [of list_example 100 "[1, 2, 3]" 200 "[4]"] list_example_dll by auto

text \<open>
  Fact: \<open>list_remove\<close> of an index inside the list drops that element; of an index
  beyond the length it does nothing; of an index equal to the length it dereferences the
  null pointer at the end of the chain, because its guard is \<open>index > length\<close>.
\<close>

theorem list_remove_outcomes:
  assumes "dll h l xs"
  shows "(unat i < length xs \<longrightarrow>
            (\<exists>h'. list_remove l i h = Some h' \<and> dll h' l (take (unat i) xs @ drop (Suc (unat i)) xs))) \<and>
         (unat i = length xs \<longrightarrow> list_remove l i h = None) \<and>
         (unat i > length xs \<longrightarrow> list_remove l i h = Some h)"
  using list_remove_spec [OF assms, of i] list_remove_out_of_range [OF assms, of i] by simp

theorem list_remove_outcomes_witness:
  "(\<exists>h'. list_remove 100 1 list_example = Some h' \<and> dll h' 100 [1, 3]) \<and>
   list_remove 100 3 list_example = None \<and> list_remove 100 4 list_example = Some list_example"
  using list_remove_outcomes [OF list_example_dll(1), of 1]
    list_remove_outcomes [OF list_example_dll(1), of 3]
    list_remove_outcomes [OF list_example_dll(1), of 4] by simp

text \<open>
  Fact: \<open>list_copy\<close> never returns on a list that is not empty, whatever the
  allocator answers: its loop does not advance the node it copies.
\<close>

theorem list_copy_never_returns:
  assumes "dll h l (x # xs)" and "a \<noteq> l"
  shows "list_copy a alloc l h = None"
proof -
  obtain L where L: "h_lists h l = Some L" "l \<noteq> NULL" "ls_head L = x"
    using dll_header [OF assms(1)] by auto
  moreover have "x \<noteq> NULL" using dll_member [OF assms(1), of x] by auto
  ultimately show ?thesis using assms(2)
    by (auto simp: list_copy_def list_create_def malloc_list_def get_list_def
        list_copy_loop_diverges fault_simps)
qed

theorem list_copy_never_returns_witness: "list_copy 300 (\<lambda>i. 1000 + of_nat i) 100 list_example = None"
  using list_copy_never_returns [OF list_example_dll(1)] by simp

text \<open>
  Fact: moving a node between queues (\<open>list_delete\<close> from one list, then
  \<open>list_append\<close> to another, which is how sleeping and ready queues exchange processes)
  takes it out of the first, puts it last in the second, and loses or duplicates nothing.
\<close>

theorem queue_transfer:
  assumes "dll h l (us @ n # vs)" and "dll h k ys" and "k \<noteq> l"
  shows "\<exists>h1 h2. list_delete l n h = Some h1 \<and> list_append k n h1 = Some h2 \<and>
                 dll h2 l (us @ vs) \<and> dll h2 k (ys @ [n])"
  using assms by (rule kq.transfer)

theorem queue_transfer_witness:
  "\<exists>h1 h2. list_delete 100 2 list_example = Some h1 \<and> list_append 200 2 h1 = Some h2 \<and>
           dll h2 100 [1, 3] \<and> dll h2 200 [4, 2]"
  using queue_transfer [of list_example 100 "[1]" 2 "[3]" 200 "[4]"] list_example_dll by simp

text \<open>
  Fact: the searches agree with the sequence of values: \<open>list_index_of\<close> is the
  position of the first occurrence or \<open>-1\<close>, \<open>list_index\<close> the value at a position or null,
  and \<open>list_find\<close> the first node carrying the value or null.
\<close>

theorem list_lookup_correct:
  assumes "dll h l xs"
  shows "list_index_of l v h =
           Some (if v \<in> set (node_values h xs)
                 then int (length (takeWhile (\<lambda>w. w \<noteq> v) (node_values h xs))) else -1) \<and>
         list_index l i h =
           Some (if 0 \<le> i \<and> nat i < length xs then node_values h xs ! nat i else NULL) \<and>
         list_find l v h =
           Some (case List.find (\<lambda>x. node_values h [x] = [v]) xs of None \<Rightarrow> NULL | Some x \<Rightarrow> x)"
  using list_index_of_spec [OF assms] list_index_spec [OF assms] list_find_spec [OF assms] by blast

theorem list_lookup_correct_witness:
  "list_index_of 100 12 list_example = Some 1 \<and> list_index 100 2 list_example = Some 13 \<and>
   list_find 100 77 list_example = Some 0"
  using list_lookup_correct [OF list_example_dll(1), of 12 2]
    list_lookup_correct [OF list_example_dll(1), of 77 0]
  by (simp add: node_values_def list_example_def)

end
