(* ===== verification/Kernel_Hashmap.thy ===== *)
theory Kernel_Hashmap
  imports Kernel_Prelude "HOL-Library.AList"
begin

text \<open>
  The chained hash table of \<open>kernel/misc/hashmap.c\<close>.  A map carries its hash and
  comparison functions, as the C struct does, and an array of buckets; a bucket is the
  chain of its entries.  A value is an option, \<^term>\<open>None\<close> being the null pointer that
  \<open>hashmap_get\<close> returns for a missing key and that a caller may also store.  A run that
  divides by zero or dereferences null has the result \<^term>\<open>None\<close> of the outer option.
\<close>

section \<open>The struct and the key functions\<close>

type_synonym ('k, 'v) hashmap_entry = "'k \<times> 'v option"

record ('k, 'v) hashmap =
  hash_func :: "'k \<Rightarrow> u32"
  hash_comp :: "'k \<Rightarrow> 'k \<Rightarrow> bool"
  hm_size :: u64
  hm_entries :: "('k, 'v) hashmap_entry list list"

text \<open>
  The sdbm hash of a C string, given as its bytes before the terminator; \<open>char\<close> is signed
  on x86-64, so each byte is sign-extended to \<open>int\<close>.
\<close>

fun hashmap_string_hash_from :: "u32 \<Rightarrow> u8 list \<Rightarrow> u32" where
  "hashmap_string_hash_from hash [] = hash"
| "hashmap_string_hash_from hash (c # cs) =
     (if c = 0 then hash
      else hashmap_string_hash_from (scast c + push_bit 6 hash + push_bit 16 hash - hash) cs)"

definition hashmap_string_hash :: "u8 list \<Rightarrow> u32" where
  "hashmap_string_hash key = hashmap_string_hash_from 0 key"

definition hashmap_string_comp :: "u8 list \<Rightarrow> u8 list \<Rightarrow> bool" where
  "hashmap_string_comp a b \<longleftrightarrow> a = b"

definition hashmap_int_hash :: "u64 \<Rightarrow> u32" where
  "hashmap_int_hash key = ucast key"

definition hashmap_int_comp :: "u64 \<Rightarrow> u64 \<Rightarrow> bool" where
  "hashmap_int_comp a b \<longleftrightarrow> sint a = sint b"


section \<open>Operations\<close>

text \<open>
  \<open>size\<close> is a C \<open>int\<close>.  A negative one asks the allocator for more than half of the
  address space, which no allocator grants, and the \<open>memset\<close> of the null result faults.
\<close>

definition hashmap_new ::
  "('k \<Rightarrow> u32) \<Rightarrow> ('k \<Rightarrow> 'k \<Rightarrow> bool) \<Rightarrow> 32 word \<Rightarrow> ('k, 'v) hashmap option" where
  "hashmap_new hash cmp sz =
     (if sint sz < 0 then None
      else Some \<lparr>hash_func = hash, hash_comp = cmp, hm_size = scast sz,
                 hm_entries = replicate (unat (scast sz :: u64)) []\<rparr>)"

definition hashmap_create :: "32 word \<Rightarrow> (u8 list, 'v) hashmap option" where
  "hashmap_create sz = hashmap_new hashmap_string_hash hashmap_string_comp sz"

definition hashmap_create_int :: "32 word \<Rightarrow> (u64, 'v) hashmap option" where
  "hashmap_create_int sz = hashmap_new hashmap_int_hash hashmap_int_comp sz"

text \<open>\<open>unsigned int hash = map->hash_func(key) % map->size\<close>, then the bucket at that index.\<close>

definition hashmap_index :: "('k, 'v) hashmap \<Rightarrow> 'k \<Rightarrow> nat option" where
  "hashmap_index mp key =
     (if hm_size mp = 0 then None
      else let hash = (ucast (ucast (hash_func mp key) mod hm_size mp :: u64) :: u32)
           in if unat hash < length (hm_entries mp) then Some (unat hash) else None)"

fun chain_set :: "('k \<Rightarrow> 'k \<Rightarrow> bool) \<Rightarrow> 'k \<Rightarrow> 'v option \<Rightarrow> ('k, 'v) hashmap_entry list \<Rightarrow>
    'v option \<times> ('k, 'v) hashmap_entry list" where
  "chain_set cmp key v [] = (None, [(key, v)])"
| "chain_set cmp key v (x # xs) =
     (if cmp (fst x) key then (snd x, (fst x, v) # xs)
      else let (out, xs') = chain_set cmp key v xs in (out, x # xs'))"

definition hashmap_set :: "('k, 'v) hashmap \<Rightarrow> 'k \<Rightarrow> 'v option \<Rightarrow>
    ('v option \<times> ('k, 'v) hashmap) option" where
  "hashmap_set mp key v = do {
     i \<leftarrow> hashmap_index mp key;
     let (out, xs) = chain_set (hash_comp mp) key v (hm_entries mp ! i);
     Some (out, mp\<lparr>hm_entries := (hm_entries mp)[i := xs]\<rparr>)
   }"

fun chain_get :: "('k \<Rightarrow> 'k \<Rightarrow> bool) \<Rightarrow> 'k \<Rightarrow> ('k, 'v) hashmap_entry list \<Rightarrow> 'v option option" where
  "chain_get cmp key [] = None"
| "chain_get cmp key (x # xs) = (if cmp (fst x) key then Some (snd x) else chain_get cmp key xs)"

definition hashmap_get :: "('k, 'v) hashmap \<Rightarrow> 'k \<Rightarrow> 'v option option" where
  "hashmap_get mp key = do {
     i \<leftarrow> hashmap_index mp key;
     Some (case chain_get (hash_comp mp) key (hm_entries mp ! i) of None \<Rightarrow> None | Some v \<Rightarrow> v)
   }"

definition hashmap_has :: "('k, 'v) hashmap \<Rightarrow> 'k \<Rightarrow> bool option" where
  "hashmap_has mp key = do {
     i \<leftarrow> hashmap_index mp key;
     Some (chain_get (hash_comp mp) key (hm_entries mp ! i) \<noteq> None)
   }"

text \<open>
  \<open>hashmap_remove\<close> tests the first entry apart; when that is not the key, a \<open>do ... while\<close>
  loop starts at the next entry without testing whether there is one.
\<close>

fun chain_unlink :: "('k \<Rightarrow> 'k \<Rightarrow> bool) \<Rightarrow> 'k \<Rightarrow> ('k, 'v) hashmap_entry list \<Rightarrow>
    'v option \<times> ('k, 'v) hashmap_entry list" where
  "chain_unlink cmp key [] = (None, [])"
| "chain_unlink cmp key (x # xs) =
     (if cmp (fst x) key then (snd x, xs)
      else let (out, xs') = chain_unlink cmp key xs in (out, x # xs'))"

definition chain_remove :: "('k \<Rightarrow> 'k \<Rightarrow> bool) \<Rightarrow> 'k \<Rightarrow> ('k, 'v) hashmap_entry list \<Rightarrow>
    ('v option \<times> ('k, 'v) hashmap_entry list) option" where
  "chain_remove cmp key xs =
     (case xs of
        [] \<Rightarrow> Some (None, [])
      | x # rest \<Rightarrow>
          if cmp (fst x) key then Some (snd x, rest)
          else if rest = [] then None
          else let (out, rest') = chain_unlink cmp key rest in Some (out, x # rest'))"

definition hashmap_remove :: "('k, 'v) hashmap \<Rightarrow> 'k \<Rightarrow>
    ('v option \<times> ('k, 'v) hashmap) option" where
  "hashmap_remove mp key = do {
     i \<leftarrow> hashmap_index mp key;
     (out, xs) \<leftarrow> chain_remove (hash_comp mp) key (hm_entries mp ! i);
     Some (out, mp\<lparr>hm_entries := (hm_entries mp)[i := xs]\<rparr>)
   }"

text \<open>The lists the next two functions build, as their sequences of values.\<close>

definition hashmap_keys :: "('k, 'v) hashmap \<Rightarrow> 'k list" where
  "hashmap_keys mp = concat (map (map fst) (hm_entries mp))"

definition hashmap_values :: "('k, 'v) hashmap \<Rightarrow> 'v option list" where
  "hashmap_values mp = concat (map (map snd) (hm_entries mp))"

text \<open>\<open>hashmap_free\<close> frees every entry and its key, in this order.\<close>

definition hashmap_free :: "('k, 'v) hashmap \<Rightarrow> ('k, 'v) hashmap_entry list" where
  "hashmap_free mp = concat (hm_entries mp)"

definition hashmap_is_empty :: "('k, 'v) hashmap \<Rightarrow> bool" where
  "hashmap_is_empty mp = list_all (\<lambda>xs. xs = []) (hm_entries mp)"


section \<open>The invariant and the abstract map\<close>

definition hm_slot :: "('k, 'v) hashmap \<Rightarrow> 'k \<Rightarrow> nat" where
  "hm_slot mp key = unat (hash_func mp key) mod unat (hm_size mp)"

definition hm_wf :: "('k, 'v) hashmap \<Rightarrow> bool" where
  "hm_wf mp \<longleftrightarrow>
     hm_size mp \<noteq> 0 \<and> length (hm_entries mp) = unat (hm_size mp) \<and>
     (\<forall>a b. hash_comp mp a b = (a = b)) \<and>
     (\<forall>i < length (hm_entries mp).
        distinct (map fst (hm_entries mp ! i)) \<and>
        (\<forall>x \<in> set (hm_entries mp ! i). hm_slot mp (fst x) = i))"

definition hm_lookup :: "('k, 'v) hashmap \<Rightarrow> 'k \<Rightarrow> 'v option option" where
  "hm_lookup mp key = map_of (hm_entries mp ! hm_slot mp key) key"

lemma ucast_mod_32_64:
  fixes x :: u32 and s :: u64
  assumes "s \<noteq> 0"
  shows "unat (ucast (ucast x mod s :: u64) :: u32) = unat x mod unat s"
proof -
  have 1: "unat (ucast x mod s :: u64) = unat x mod unat s"
    by (simp add: unat_mod unat_ucast_up)
  have "unat x mod unat s \<le> unat x" by simp
  also have "unat x < 2 ^ 32" using unsigned_less [of x] by simp
  finally have "unat x mod unat s < 2 ^ 32" .
  with 1 show ?thesis by (simp add: unsigned_ucast_eq take_bit_nat_eq_self)
qed

lemma hashmap_index_wf:
  assumes "hm_wf mp"
  shows "hashmap_index mp key = Some (hm_slot mp key)" and
    "hm_slot mp key < length (hm_entries mp)"
proof -
  from assms have s: "hm_size mp \<noteq> 0" "length (hm_entries mp) = unat (hm_size mp)"
    by (auto simp: hm_wf_def)
  then have "0 < unat (hm_size mp)" by (simp add: unat_gt_0)
  then show "hm_slot mp key < length (hm_entries mp)" using s by (simp add: hm_slot_def)
  then show "hashmap_index mp key = Some (hm_slot mp key)"
    using s by (simp add: hashmap_index_def hm_slot_def ucast_mod_32_64 Let_def)
qed

lemma chain_get_map_of: "(\<And>a b. cmp a b = (a = b)) \<Longrightarrow> chain_get cmp k xs = map_of xs k"
  by (induction xs) auto

lemma chain_set_eq:
  assumes "\<And>a b. cmp a b = (a = b)"
  shows "chain_set cmp k v xs = (case map_of xs k of None \<Rightarrow> None | Some w \<Rightarrow> w, AList.update k v xs)"
  using assms by (induction xs) (auto split: option.splits)

lemma chain_unlink_eq:
  assumes "\<And>a b. cmp a b = (a = b)" and "distinct (map fst xs)"
  shows "chain_unlink cmp k xs =
    (case map_of xs k of None \<Rightarrow> None | Some w \<Rightarrow> w, AList.delete k xs)"
  using assms(2)
proof (induction xs)
  case (Cons x xs)
  moreover have "AList.delete k xs = xs" if "k = fst x"
    using Cons.prems that by (intro AList.delete_id) auto
  ultimately show ?case using assms(1) by auto
qed simp

lemma chain_remove_eq:
  assumes "\<And>a b. cmp a b = (a = b)" and "distinct (map fst xs)"
  shows "chain_remove cmp k xs =
    (if length xs = 1 \<and> fst (hd xs) \<noteq> k then None
     else Some (case map_of xs k of None \<Rightarrow> None | Some w \<Rightarrow> w, AList.delete k xs))"
proof (cases xs)
  case (Cons x rest)
  moreover have "AList.delete k rest = rest" if "k = fst x"
    using assms(2) Cons that by (intro AList.delete_id) auto
  ultimately show ?thesis
    using assms chain_unlink_eq [of cmp rest k] by (auto simp: chain_remove_def)
qed (simp add: chain_remove_def)

text \<open>The two ways an operation rewrites one bucket keep the invariant.\<close>

lemma hm_wf_bucket:
  assumes "hm_wf mp" and "i = hm_slot mp key" and "distinct (map fst xs)"
    and "fst ` set xs \<subseteq> insert key (fst ` set (hm_entries mp ! i))"
  shows "hm_wf (mp\<lparr>hm_entries := (hm_entries mp)[i := xs]\<rparr>)"
    and "hm_lookup (mp\<lparr>hm_entries := (hm_entries mp)[i := xs]\<rparr>) k =
      (if hm_slot mp k = i then map_of xs k else hm_lookup mp k)"
proof -
  let ?m = "mp\<lparr>hm_entries := (hm_entries mp)[i := xs]\<rparr>"
  have slot [simp]: "hm_slot ?m = hm_slot mp" by (simp add: hm_slot_def fun_eq_iff)
  have i: "i < length (hm_entries mp)" using hashmap_index_wf(2) [OF assms(1)] assms(2) by simp
  have "hm_slot mp (fst x) = i" if "x \<in> set xs" for x
    using assms(1,2,4) i that by (fastforce simp: hm_wf_def)
  then show "hm_wf ?m"
    using assms(1,3) i by (auto simp: hm_wf_def nth_list_update)
  show "hm_lookup ?m k = (if hm_slot mp k = i then map_of xs k else hm_lookup mp k)"
    using i by (auto simp: hm_lookup_def)
qed

lemma hm_bucket:
  assumes "hm_wf mp"
  shows "distinct (map fst (hm_entries mp ! hm_slot mp key))"
    and "hash_comp mp a b = (a = b)"
  using assms hashmap_index_wf(2) [OF assms] by (auto simp: hm_wf_def)

lemma hashmap_set_spec:
  assumes wf: "hm_wf mp"
  shows "\<exists>mp'. hashmap_set mp key v =
           Some (case hm_lookup mp key of None \<Rightarrow> None | Some w \<Rightarrow> w, mp') \<and>
         hm_wf mp' \<and> hm_lookup mp' = (hm_lookup mp)(key \<mapsto> v)"
proof -
  let ?i = "hm_slot mp key"
  let ?xs = "AList.update key v (hm_entries mp ! ?i)"
  let ?m = "mp\<lparr>hm_entries := (hm_entries mp)[?i := ?xs]\<rparr>"
  note b = hm_wf_bucket [OF wf refl, of ?xs key]
  have s: "hashmap_set mp key v = Some (case hm_lookup mp key of None \<Rightarrow> None | Some w \<Rightarrow> w, ?m)"
    by (simp add: hashmap_set_def hashmap_index_wf [OF wf] chain_set_eq hm_bucket [OF wf]
        hm_lookup_def)
  have d: "distinct (map fst ?xs)"
    using hm_bucket(1) [OF wf] by (simp add: AList.distinct_update)
  have sub: "fst ` set ?xs \<subseteq> insert key (fst ` set (hm_entries mp ! ?i))"
    by (simp add: dom_update)
  have "hm_lookup ?m k = ((hm_lookup mp)(key \<mapsto> v)) k" for k
    using b(2) [OF d sub, of k] by (auto simp: AList.update_conv' hm_lookup_def)
  with s b(1) [OF d sub] show ?thesis by blast
qed

lemma hashmap_get_spec:
  "hm_wf mp \<Longrightarrow> hashmap_get mp key = Some (case hm_lookup mp key of None \<Rightarrow> None | Some w \<Rightarrow> w)"
  by (simp add: hashmap_get_def hashmap_index_wf chain_get_map_of hm_bucket hm_lookup_def)

lemma hashmap_has_spec: "hm_wf mp \<Longrightarrow> hashmap_has mp key = Some (hm_lookup mp key \<noteq> None)"
  by (simp add: hashmap_has_def hashmap_index_wf chain_get_map_of hm_bucket hm_lookup_def)

text \<open>The case in which \<open>hashmap_remove\<close> runs off the chain.\<close>

definition lone_other :: "('k, 'v) hashmap \<Rightarrow> 'k \<Rightarrow> bool" where
  "lone_other mp key \<longleftrightarrow>
     (\<exists>x. hm_entries mp ! hm_slot mp key = [x] \<and> fst x \<noteq> key)"

lemma hashmap_remove_spec:
  assumes wf: "hm_wf mp"
  shows "if lone_other mp key then hashmap_remove mp key = None
         else \<exists>mp'. hashmap_remove mp key =
                Some (case hm_lookup mp key of None \<Rightarrow> None | Some w \<Rightarrow> w, mp') \<and>
              hm_wf mp' \<and> hm_lookup mp' = (hm_lookup mp)(key := None)"
proof -
  let ?i = "hm_slot mp key"
  let ?b = "hm_entries mp ! ?i"
  let ?xs = "AList.delete key ?b"
  let ?m = "mp\<lparr>hm_entries := (hm_entries mp)[?i := ?xs]\<rparr>"
  have lone: "lone_other mp key \<longleftrightarrow> length ?b = 1 \<and> fst (hd ?b) \<noteq> key"
    by (cases ?b) (auto simp: lone_other_def)
  have s: "hashmap_remove mp key =
      (if lone_other mp key then None
       else Some (case hm_lookup mp key of None \<Rightarrow> None | Some w \<Rightarrow> w, ?m))"
    unfolding lone
    by (simp add: hashmap_remove_def hashmap_index_wf [OF wf] chain_remove_eq hm_bucket [OF wf]
        hm_lookup_def)
  note b = hm_wf_bucket [OF wf refl, of ?xs key]
  have d: "distinct (map fst ?xs)"
    using hm_bucket(1) [OF wf] by (simp add: AList.distinct_delete)
  have sub: "fst ` set ?xs \<subseteq> insert key (fst ` set ?b)"
    by (auto simp: AList.delete_eq)
  have "hm_lookup ?m k = ((hm_lookup mp)(key := None)) k" for k
    using b(2) [OF d sub, of k] by (auto simp: AList.delete_conv' hm_lookup_def)
  with s b(1) [OF d sub] show ?thesis by auto
qed

lemma hm_entries_lookup:
  assumes "hm_wf mp"
  shows "x \<in> set (concat (hm_entries mp)) \<longleftrightarrow> hm_lookup mp (fst x) = Some (snd x)"
proof
  assume "x \<in> set (concat (hm_entries mp))"
  then obtain i where i: "i < length (hm_entries mp)" "x \<in> set (hm_entries mp ! i)"
    by (auto simp: in_concat_nth simp del: set_concat)
  with assms have "hm_slot mp (fst x) = i" "distinct (map fst (hm_entries mp ! i))"
    by (auto simp: hm_wf_def)
  with i(2) show "hm_lookup mp (fst x) = Some (snd x)"
    by (auto simp: hm_lookup_def)
next
  assume "hm_lookup mp (fst x) = Some (snd x)"
  then have "x \<in> set (hm_entries mp ! hm_slot mp (fst x))"
    by (auto simp: hm_lookup_def dest: map_of_SomeD)
  with hashmap_index_wf(2) [OF assms, of "fst x"] show "x \<in> set (concat (hm_entries mp))"
    by auto
qed

lemma hashmap_keys_set: "hm_wf mp \<Longrightarrow> set (hashmap_keys mp) = dom (hm_lookup mp)"
proof -
  assume wf: "hm_wf mp"
  have "set (hashmap_keys mp) = fst ` set (concat (hm_entries mp))"
    by (auto simp: hashmap_keys_def)
  also have "\<dots> = dom (hm_lookup mp)"
    using hm_entries_lookup [OF wf] by (force simp: dom_def image_iff)
  finally show ?thesis .
qed

lemma distinct_concat_slots:
  assumes "\<And>i. i < length xss \<Longrightarrow> distinct (xss ! i)"
    and "\<And>i x. i < length xss \<Longrightarrow> x \<in> set (xss ! i) \<Longrightarrow> f x = n + i"
  shows "distinct (concat xss)"
  using assms
proof (induction xss arbitrary: n)
  case (Cons xs xss)
  have "distinct (concat xss)"
    using Cons.prems(1) [of "Suc _"] Cons.prems(2) [of "Suc _"]
    by (intro Cons.IH [of "Suc n"]) force+
  moreover have "distinct xs" using Cons.prems(1) [of 0] by simp
  moreover have "set xs \<inter> set (concat xss) = {}"
  proof (rule ccontr)
    assume "set xs \<inter> set (concat xss) \<noteq> {}"
    then obtain x i where "x \<in> set xs" "i < length xss" "x \<in> set (xss ! i)"
      by (auto simp: in_concat_nth simp del: set_concat)
    then show False using Cons.prems(2) [of 0 x] Cons.prems(2) [of "Suc i" x] by auto
  qed
  ultimately show ?case by simp
qed simp

lemma hashmap_keys_distinct: "hm_wf mp \<Longrightarrow> distinct (hashmap_keys mp)"
  unfolding hashmap_keys_def
  by (rule distinct_concat_slots [of _ "hm_slot mp" 0]) (auto simp: hm_wf_def)

lemma hashmap_is_empty_spec: "hm_wf mp \<Longrightarrow> hashmap_is_empty mp = (hm_lookup mp = Map.empty)"
proof -
  assume wf: "hm_wf mp"
  have "hashmap_is_empty mp \<longleftrightarrow> set (concat (hm_entries mp)) = {}"
    by (auto simp: hashmap_is_empty_def list_all_iff)
  also have "\<dots> \<longleftrightarrow> hm_lookup mp = Map.empty"
  proof
    assume e: "set (concat (hm_entries mp)) = {}"
    show "hm_lookup mp = Map.empty"
    proof
      fix k
      show "hm_lookup mp k = None"
        using e hm_entries_lookup [OF wf, of "(k, the (hm_lookup mp k))"] by (cases "hm_lookup mp k") auto
    qed
  next
    assume "hm_lookup mp = Map.empty"
    then show "set (concat (hm_entries mp)) = {}"
      using hm_entries_lookup [OF wf] by (metis equals0I option.distinct(1))
  qed
  finally show ?thesis .
qed

lemma hashmap_new_spec:
  assumes "0 < sint sz" and "\<And>a b. cmp a b = (a = b)"
  shows "\<exists>mp. hashmap_new hash cmp sz = Some mp \<and> hm_wf mp \<and> hm_lookup mp = Map.empty"
proof -
  have nz: "(scast sz :: u64) \<noteq> 0"
    using assms(1) unat_scast_32_64 [of sz] by auto
  then have "0 < unat (scast sz :: u64)" by (simp add: unat_gt_0)
  with assms nz show ?thesis
    by (auto simp: hashmap_new_def hm_wf_def hm_lookup_def hm_slot_def fun_eq_iff)
qed


lemma hashmap_int_comp_eq: "hashmap_int_comp a b \<longleftrightarrow> a = b"
  by (auto simp: hashmap_int_comp_def intro: signed_word_eqI)


section \<open>The map interface\<close>

text \<open>
  What the users of a map (the kernel command line, the tables of network interfaces and
  sockets, the file system types) rely on.
\<close>

locale kernel_map =
  fixes wf :: "'m \<Rightarrow> bool"
    and lookup :: "'m \<Rightarrow> 'k \<Rightarrow> 'v option option"
    and insert_op :: "'m \<Rightarrow> 'k \<Rightarrow> 'v option \<Rightarrow> ('v option \<times> 'm) option"
    and get_op :: "'m \<Rightarrow> 'k \<Rightarrow> 'v option option"
    and has_op :: "'m \<Rightarrow> 'k \<Rightarrow> bool option"
  assumes insert_law: "wf m \<Longrightarrow> \<exists>m'. insert_op m k v =
        Some (case lookup m k of None \<Rightarrow> None | Some w \<Rightarrow> w, m') \<and>
        wf m' \<and> lookup m' = (lookup m)(k \<mapsto> v)"
    and get_law: "wf m \<Longrightarrow> get_op m k = Some (case lookup m k of None \<Rightarrow> None | Some w \<Rightarrow> w)"
    and has_law: "wf m \<Longrightarrow> has_op m k = Some (lookup m k \<noteq> None)"
begin

text \<open>Inserting a sequence of bindings, as the parsers and registries do.\<close>

fun insert_all :: "('k \<times> 'v option) list \<Rightarrow> 'm \<Rightarrow> 'm option" where
  "insert_all [] m = Some m"
| "insert_all (b # bs) m =
     (case insert_op m (fst b) (snd b) of None \<Rightarrow> None | Some (_, m') \<Rightarrow> insert_all bs m')"

lemma insert_all_spec:
  "wf m \<Longrightarrow> \<exists>m'. insert_all bs m = Some m' \<and> wf m' \<and> lookup m' = lookup m ++ map_of (rev bs)"
proof (induction bs arbitrary: m)
  case (Cons b bs)
  obtain m1 o1 where m1: "insert_op m (fst b) (snd b) = Some (o1, m1)" "wf m1"
      "lookup m1 = (lookup m)(fst b \<mapsto> snd b)"
    using insert_law [OF Cons.prems] by blast
  obtain m2 where "insert_all bs m1 = Some m2" "wf m2" "lookup m2 = lookup m1 ++ map_of (rev bs)"
    using Cons.IH [OF m1(2)] by blast
  with m1 show ?case by (auto simp: fun_eq_iff map_add_def split: option.splits)
qed simp

lemma get_insert:
  assumes "wf m"
  shows "\<exists>old m'. insert_op m k v = Some (old, m') \<and> get_op m' k = Some v \<and>
                  has_op m' k = Some True \<and> (\<forall>j. j \<noteq> k \<longrightarrow> get_op m' j = get_op m j)"
proof -
  obtain m' where "insert_op m k v = Some (case lookup m k of None \<Rightarrow> None | Some w \<Rightarrow> w, m')"
      "wf m'" "lookup m' = (lookup m)(k \<mapsto> v)"
    using insert_law [OF assms] by blast
  with assms show ?thesis by (auto simp: get_law has_law)
qed

end

interpretation hm: kernel_map hm_wf hm_lookup hashmap_set hashmap_get hashmap_has
  by unfold_locales (rule hashmap_set_spec hashmap_get_spec hashmap_has_spec, assumption)+


section \<open>Properties\<close>

text \<open>A table of two buckets with three integer keys, two of them in one chain.\<close>

definition hashmap_example :: "(u64, nat) hashmap" where
  "hashmap_example =
     \<lparr>hash_func = hashmap_int_hash, hash_comp = hashmap_int_comp, hm_size = 2,
      hm_entries = [[(4, Some 40), (6, None)], [(7, Some 70)]]\<rparr>"

lemma hashmap_example_wf: "hm_wf hashmap_example"
proof -
  have b: "distinct (map fst (hm_entries hashmap_example ! i)) \<and>
      (\<forall>x \<in> set (hm_entries hashmap_example ! i). hm_slot hashmap_example (fst x) = i)"
    if "i = 0 \<or> i = 1" for i
    using that by (auto simp: hashmap_example_def hm_slot_def hashmap_int_hash_def)
  have "i = 0 \<or> i = 1" if "i < length (hm_entries hashmap_example)" for i
    using that by (auto simp: hashmap_example_def)
  with b show ?thesis
    unfolding hm_wf_def by (simp add: hashmap_example_def hashmap_int_comp_eq)
qed

text \<open>
  Property C24: \<open>hashmap_set\<close> on a well-formed map succeeds, returns the value the key had
  (null if it had none), keeps the map well-formed and changes the binding of that key only;
  a following \<open>hashmap_get\<close> returns the new value.
\<close>

theorem hashmap_set_refines:
  assumes "hm_wf m"
  shows "\<exists>m'. hashmap_set m k v = Some (case hm_lookup m k of None \<Rightarrow> None | Some w \<Rightarrow> w, m') \<and>
              hm_wf m' \<and> hm_lookup m' = (hm_lookup m)(k \<mapsto> v) \<and> hashmap_get m' k = Some v"
proof -
  obtain m' where "hashmap_set m k v = Some (case hm_lookup m k of None \<Rightarrow> None | Some w \<Rightarrow> w, m')"
      "hm_wf m'" "hm_lookup m' = (hm_lookup m)(k \<mapsto> v)"
    using hm.insert_law [OF assms] by blast
  moreover from this have "hashmap_get m' k = Some v" by (simp add: hm.get_law)
  ultimately show ?thesis by blast
qed

theorem hashmap_set_refines_witness:
  "\<exists>m'. hashmap_set hashmap_example 4 (Some 44) = Some (Some 40, m') \<and> hashmap_get m' 4 = Some (Some 44)"
proof -
  have "hm_lookup hashmap_example 4 = Some (Some 40)"
    by (simp add: hm_lookup_def hashmap_example_def hm_slot_def hashmap_int_hash_def)
  then show ?thesis using hashmap_set_refines [OF hashmap_example_wf, of 4 "Some 44"]
    by (simp only: option.case) blast
qed

text \<open>
  Fact: \<open>hashmap_remove\<close> dereferences null exactly when the key's chain holds a single
  entry with a different key; in every other case it returns the removed value (null if the
  key was absent), keeps the map well-formed and deletes the binding of that key only.
\<close>

theorem hashmap_remove_outcomes:
  assumes "hm_wf m"
  shows "(lone_other m k \<longrightarrow> hashmap_remove m k = None) \<and>
         (\<not> lone_other m k \<longrightarrow>
            (\<exists>m'. hashmap_remove m k = Some (case hm_lookup m k of None \<Rightarrow> None | Some w \<Rightarrow> w, m') \<and>
                  hm_wf m' \<and> hm_lookup m' = (hm_lookup m)(k := None)))"
  using hashmap_remove_spec [OF assms, of k] by (simp split: if_splits)

theorem hashmap_remove_outcomes_witness:
  "hashmap_remove hashmap_example 9 = None \<and>
   (\<exists>m'. hashmap_remove hashmap_example 4 = Some (Some 40, m') \<and> hm_lookup m' 4 = None)"
proof -
  have "lone_other hashmap_example 9" "\<not> lone_other hashmap_example 4"
      "hm_lookup hashmap_example 4 = Some (Some 40)"
    by (simp_all add: lone_other_def hm_lookup_def hashmap_example_def hm_slot_def hashmap_int_hash_def)
  then show ?thesis
    using hashmap_remove_outcomes [OF hashmap_example_wf, of 9]
      hashmap_remove_outcomes [OF hashmap_example_wf, of 4] by auto
qed

text \<open>
  Fact: the observers agree with the abstract map: \<open>hashmap_has\<close> tells presence even
  for a key bound to null, \<open>hashmap_keys\<close> lists every key exactly once, and
  \<open>hashmap_is_empty\<close> holds exactly when no key is bound.
\<close>

theorem hashmap_observers:
  assumes "hm_wf m"
  shows "hashmap_has m k = Some (k \<in> dom (hm_lookup m)) \<and>
         set (hashmap_keys m) = dom (hm_lookup m) \<and> distinct (hashmap_keys m) \<and>
         hashmap_is_empty m = (hm_lookup m = Map.empty)"
  using hashmap_keys_set [OF assms] hashmap_keys_distinct [OF assms]
    hashmap_is_empty_spec [OF assms] hashmap_has_spec [OF assms, of k]
  by (simp add: domIff)

theorem hashmap_observers_witness:
  "hashmap_has hashmap_example 6 = Some True \<and> set (hashmap_keys hashmap_example) = {4, 6, 7} \<and>
   \<not> hashmap_is_empty hashmap_example"
proof -
  have d: "set (hashmap_keys hashmap_example) = {4, 6, 7}"
    by (simp add: hashmap_keys_def hashmap_example_def insert_commute)
  from d show ?thesis using hashmap_observers [OF hashmap_example_wf, of 6] by auto
qed

end
