(* ===== verification/Kernel_Tree.thy ===== *)
theory Kernel_Tree
  imports Kernel_Prelude
begin

text \<open>
  The general tree of \<open>kernel/misc/tree.c\<close>, which holds the process tree and the mount
  tree.  Nodes live in a store from addresses to \<open>tree_node_t\<close>; the children of a node
  are the sequence of values of its \<open>list_t\<close> (\<open>Kernel_List\<close> shows that \<open>list_insert\<close>,
  \<open>list_delete\<close> of a found node and \<open>list_merge\<close> append, remove and concatenate that
  sequence).  \<^term>\<open>None\<close> is a run that dereferences null or a freed node.
\<close>

section \<open>Nodes, trees and the operations of tree.c\<close>

record tnode =
  tn_value :: ptr
  tn_children :: "ptr list"
  tn_parent :: ptr

record tree =
  tr_nodes :: u64
  tr_root :: ptr
  tr_store :: "ptr \<rightharpoonup> tnode"

definition get_tn :: "ptr \<Rightarrow> tree \<Rightarrow> tnode option" where
  "get_tn p t = (if p = NULL then None else tr_store t p)"

definition set_tn :: "ptr \<Rightarrow> (tnode \<Rightarrow> tnode) \<Rightarrow> tree \<Rightarrow> tree option" where
  "set_tn p f t =
     (case get_tn p t of None \<Rightarrow> None
      | Some n \<Rightarrow> Some (t\<lparr>tr_store := (tr_store t)(p \<mapsto> f n)\<rparr>))"

definition tree_create :: "(ptr \<rightharpoonup> tnode) \<Rightarrow> tree" where
  "tree_create s = \<lparr>tr_nodes = 0, tr_root = NULL, tr_store = s\<rparr>"

definition tree_node_create :: "ptr \<Rightarrow> ptr \<Rightarrow> tree \<Rightarrow> tree option" where
  "tree_node_create a v t =
     (if a = NULL then None
      else Some (t\<lparr>tr_store := (tr_store t)(a \<mapsto>
        \<lparr>tn_value = v, tn_children = [], tn_parent = NULL\<rparr>)\<rparr>))"

definition tree_set_root :: "ptr \<Rightarrow> ptr \<Rightarrow> tree \<Rightarrow> tree option" where
  "tree_set_root a v t = do {
     t \<leftarrow> tree_node_create a v t;
     Some (t\<lparr>tr_root := a, tr_nodes := 1\<rparr>)
   }"

text \<open>
  The recursive functions are written on the list of nodes still to visit, so that the
  \<open>foreach\<close> over the children and the recursive call are one recursion.  The values freed
  by \<open>tree_node_destroy\<close> are returned in the order of the \<open>free\<close> calls.
\<close>

partial_function (option) destroy_each :: "ptr list \<Rightarrow> tree \<Rightarrow> ptr list option" where
  "destroy_each cs t =
     (case cs of [] \<Rightarrow> Some []
      | c # rest \<Rightarrow>
          (case get_tn c t of None \<Rightarrow> None
           | Some n \<Rightarrow> do {
               vs \<leftarrow> destroy_each (tn_children n) t;
               ws \<leftarrow> destroy_each rest t;
               Some (vs @ [tn_value n] @ ws)
             }))"

definition tree_node_destroy :: "ptr \<Rightarrow> tree \<Rightarrow> ptr list option" where
  "tree_node_destroy node t = destroy_each [node] t"

definition tree_destroy :: "tree \<Rightarrow> ptr list option" where
  "tree_destroy t = (if tr_root t \<noteq> NULL then tree_node_destroy (tr_root t) t else Some [])"

partial_function (option) free_each :: "ptr list \<Rightarrow> tree \<Rightarrow> tree option" where
  "free_each cs t =
     (case cs of [] \<Rightarrow> Some t
      | c # rest \<Rightarrow>
          if c = NULL then free_each rest t
          else (case get_tn c t of None \<Rightarrow> None
           | Some n \<Rightarrow> do {
               t' \<leftarrow> free_each (tn_children n) t;
               if tr_store t' c = None then None
               else free_each rest (t'\<lparr>tr_store := (tr_store t')(c := None)\<rparr>)
             }))"

definition tree_node_free :: "ptr \<Rightarrow> tree \<Rightarrow> tree option" where
  "tree_node_free node t = free_each [node] t"

definition tree_free :: "tree \<Rightarrow> tree option" where
  "tree_free t = tree_node_free (tr_root t) t"

definition tree_node_insert_child_node :: "ptr \<Rightarrow> ptr \<Rightarrow> tree \<Rightarrow> tree option" where
  "tree_node_insert_child_node parent node t = do {
     t \<leftarrow> set_tn parent (\<lambda>n. n\<lparr>tn_children := tn_children n @ [node]\<rparr>) t;
     t \<leftarrow> set_tn node (\<lambda>n. n\<lparr>tn_parent := parent\<rparr>) t;
     Some (t\<lparr>tr_nodes := tr_nodes t + 1\<rparr>)
   }"

definition tree_node_insert_child :: "ptr \<Rightarrow> ptr \<Rightarrow> ptr \<Rightarrow> tree \<Rightarrow> (ptr \<times> tree) option" where
  "tree_node_insert_child a parent v t = do {
     t \<leftarrow> tree_node_create a v t;
     t \<leftarrow> tree_node_insert_child_node parent a t;
     Some (a, t)
   }"

partial_function (option) find_parent_in :: "ptr \<Rightarrow> ptr list \<Rightarrow> ptr \<Rightarrow> tree \<Rightarrow> ptr option" where
  "find_parent_in haystack cs needle t =
     (case cs of [] \<Rightarrow> Some NULL
      | c # rest \<Rightarrow>
          if c = needle then Some haystack
          else (case get_tn c t of None \<Rightarrow> None
           | Some n \<Rightarrow> do {
               found \<leftarrow> find_parent_in c (tn_children n) needle t;
               if found \<noteq> NULL then Some found else find_parent_in haystack rest needle t
             }))"

definition tree_node_find_parent :: "ptr \<Rightarrow> ptr \<Rightarrow> tree \<Rightarrow> ptr option" where
  "tree_node_find_parent haystack needle t = do {
     n \<leftarrow> get_tn haystack t;
     find_parent_in haystack (tn_children n) needle t
   }"

definition tree_find_parent :: "ptr \<Rightarrow> tree \<Rightarrow> ptr option" where
  "tree_find_parent node t =
     (if tr_root t = NULL then Some NULL else tree_node_find_parent (tr_root t) node t)"

partial_function (option) count_each :: "ptr list \<Rightarrow> tree \<Rightarrow> u64 option" where
  "count_each cs t =
     (case cs of [] \<Rightarrow> Some 0
      | c # rest \<Rightarrow>
          if c = NULL then count_each rest t
          else (case get_tn c t of None \<Rightarrow> None
           | Some n \<Rightarrow> do {
               a \<leftarrow> count_each (tn_children n) t;
               b \<leftarrow> count_each rest t;
               Some (of_nat (length (tn_children n)) + a + b)
             }))"

definition tree_count_children :: "ptr \<Rightarrow> tree \<Rightarrow> u64 option" where
  "tree_count_children node t = count_each [node] t"

text \<open>
  \<open>list_delete(parent->children, list_find(parent->children, node))\<close>: when the node is not
  found, \<open>list_delete\<close> is given null and faults.
\<close>

definition children_delete :: "ptr \<Rightarrow> ptr \<Rightarrow> tree \<Rightarrow> tree option" where
  "children_delete parent node t = do {
     P \<leftarrow> get_tn parent t;
     if node \<in> set (tn_children P)
     then set_tn parent (\<lambda>n. n\<lparr>tn_children := remove1 node (tn_children n)\<rparr>) t
     else None
   }"

definition tree_node_parent_remove :: "ptr \<Rightarrow> ptr \<Rightarrow> tree \<Rightarrow> tree option" where
  "tree_node_parent_remove parent node t = do {
     k \<leftarrow> tree_count_children node t;
     let t = t\<lparr>tr_nodes := tr_nodes t - (k + 1)\<rparr>;
     t \<leftarrow> children_delete parent node t;
     tree_node_free node t
   }"

definition tree_node_remove :: "ptr \<Rightarrow> tree \<Rightarrow> tree option" where
  "tree_node_remove node t = do {
     N \<leftarrow> get_tn node t;
     t \<leftarrow> (if tn_parent N = NULL \<and> node = tr_root t
          then tree_node_free node (t\<lparr>tr_nodes := 0, tr_root := NULL\<rparr>)
          else Some t);
     tree_node_parent_remove (tn_parent N) node t
   }"

fun set_parents :: "ptr list \<Rightarrow> ptr \<Rightarrow> tree \<Rightarrow> tree option" where
  "set_parents [] parent t = Some t"
| "set_parents (c # cs) parent t = do {
     t \<leftarrow> set_tn c (\<lambda>n. n\<lparr>tn_parent := parent\<rparr>) t;
     set_parents cs parent t
   }"

definition free_tn :: "ptr \<Rightarrow> tree \<Rightarrow> tree option" where
  "free_tn p t =
     (case get_tn p t of None \<Rightarrow> None
      | Some n \<Rightarrow> Some (t\<lparr>tr_store := (tr_store t)(p := None)\<rparr>))"

text \<open>The common part of the two removals: the node's children go to the end of \<open>target\<close>.\<close>

definition remove_into :: "ptr \<Rightarrow> ptr \<Rightarrow> ptr \<Rightarrow> tree \<Rightarrow> tree option" where
  "remove_into target parent node t = do {
     let t = t\<lparr>tr_nodes := tr_nodes t - 1\<rparr>;
     t \<leftarrow> children_delete parent node t;
     N \<leftarrow> get_tn node t;
     t \<leftarrow> set_parents (tn_children N) target t;
     t \<leftarrow> set_tn target (\<lambda>n. n\<lparr>tn_children := tn_children n @ tn_children N\<rparr>) t;
     free_tn node t
   }"

definition tree_remove :: "ptr \<Rightarrow> tree \<Rightarrow> tree option" where
  "tree_remove node t = do {
     N \<leftarrow> get_tn node t;
     if tn_parent N = NULL then Some t
     else remove_into (tn_parent N) (tn_parent N) node t
   }"

definition tree_remove_reparent_root :: "ptr \<Rightarrow> tree \<Rightarrow> tree option" where
  "tree_remove_reparent_root node t = do {
     N \<leftarrow> get_tn node t;
     if tn_parent N = NULL then Some t
     else remove_into (tr_root t) (tn_parent N) node t
   }"

definition tree_break_off :: "ptr \<Rightarrow> tree \<Rightarrow> tree option" where
  "tree_break_off node t = do {
     N \<leftarrow> get_tn node t;
     if tn_parent N = NULL then Some t else children_delete (tn_parent N) node t
   }"

partial_function (option) find_in :: "(ptr \<Rightarrow> bool) \<Rightarrow> ptr list \<Rightarrow> tree \<Rightarrow> ptr option" where
  "find_in test cs t =
     (case cs of [] \<Rightarrow> Some NULL
      | c # rest \<Rightarrow>
          (case get_tn c t of None \<Rightarrow> None
           | Some n \<Rightarrow>
               if test (tn_value n) then Some c
               else do {
                 found \<leftarrow> find_in test (tn_children n) t;
                 if found \<noteq> NULL then Some found else find_in test rest t
               }))"

text \<open>\<open>comparator\<close> is the caller's function.\<close>

definition tree_node_find :: "ptr \<Rightarrow> ptr \<Rightarrow> (ptr \<Rightarrow> ptr \<Rightarrow> bool) \<Rightarrow> tree \<Rightarrow> ptr option" where
  "tree_node_find node search comparator t = find_in (\<lambda>v. comparator v search) [node] t"

definition tree_find :: "ptr \<Rightarrow> (ptr \<Rightarrow> ptr \<Rightarrow> bool) \<Rightarrow> tree \<Rightarrow> ptr option" where
  "tree_find v comparator t = tree_node_find (tr_root t) v comparator t"


section \<open>Subtrees\<close>

text \<open>
  An algebraic tree describes the part of the store below a node; the recursive functions
  are related to it.
\<close>

datatype rtree = RNode (rt_ptr: ptr) (rt_kids: "rtree list")

fun forest_nodes :: "rtree list \<Rightarrow> ptr list" where
  "forest_nodes [] = []"
| "forest_nodes (RNode p ks # ts) = p # forest_nodes ks @ forest_nodes ts"

fun forest_rep :: "(ptr \<rightharpoonup> tnode) \<Rightarrow> rtree list \<Rightarrow> bool" where
  "forest_rep s [] = True"
| "forest_rep s (RNode p ks # ts) =
     (p \<noteq> NULL \<and>
      (case s p of None \<Rightarrow> False | Some n \<Rightarrow> tn_children n = map rt_ptr ks) \<and>
      forest_rep s ks \<and> forest_rep s ts)"

lemma forest_rep_frame:
  "(\<And>x. x \<in> set (forest_nodes ts) \<Longrightarrow> s' x = s x) \<Longrightarrow> forest_rep s' ts = forest_rep s ts"
  by (induction ts rule: forest_nodes.induct) auto

lemma forest_rep_head:
  assumes "forest_rep (tr_store t) (RNode p ks # ts)"
  obtains n where "get_tn p t = Some n" and "tr_store t p = Some n" and "p \<noteq> NULL"
    and "tn_children n = map rt_ptr ks"
    and "forest_rep (tr_store t) ks" and "forest_rep (tr_store t) ts"
  using assms that by (auto simp: get_tn_def split: option.splits)

lemma forest_nodes_non_null: "forest_rep s ts \<Longrightarrow> NULL \<notin> set (forest_nodes ts)"
  by (induction ts rule: forest_nodes.induct) auto

lemma count_each_forest:
  "forest_rep (tr_store t) ts \<Longrightarrow>
   \<exists>k. count_each (map rt_ptr ts) t = Some k \<and> k + of_nat (length ts) = of_nat (length (forest_nodes ts))"
proof (induction ts rule: forest_nodes.induct)
  case (2 p ks ts)
  from 2(3) obtain n where n: "get_tn p t = Some n" "p \<noteq> NULL" "tn_children n = map rt_ptr ks"
      "forest_rep (tr_store t) ks" "forest_rep (tr_store t) ts"
    by (elim forest_rep_head)
  from 2(1) [OF n(4)] obtain a where a: "count_each (map rt_ptr ks) t = Some a"
      "a + of_nat (length ks) = of_nat (length (forest_nodes ks))" by blast
  from 2(2) [OF n(5)] obtain b where b: "count_each (map rt_ptr ts) t = Some b"
      "b + of_nat (length ts) = of_nat (length (forest_nodes ts))" by blast
  have "count_each (map rt_ptr (RNode p ks # ts)) t = Some (of_nat (length ks) + a + b)"
    using n a b by (subst count_each.simps) simp
  moreover have "of_nat (length ks) + a + b + of_nat (length (RNode p ks # ts)) =
      (of_nat (length (forest_nodes (RNode p ks # ts))) :: u64)"
    using a(2) [symmetric] b(2) [symmetric] by (simp add: algebra_simps)
  ultimately show ?case by blast
qed (subst count_each.simps, simp)

lemma free_each_forest:
  "forest_rep (tr_store t) ts \<Longrightarrow> distinct (forest_nodes ts) \<Longrightarrow>
   free_each (map rt_ptr ts) t =
     Some (t\<lparr>tr_store := tr_store t |` (- set (forest_nodes ts))\<rparr>)"
proof (induction ts arbitrary: t rule: forest_nodes.induct)
  case (1 t)
  have "tr_store t |` UNIV = tr_store t" by (simp add: restrict_map_def)
  then show ?case by (subst free_each.simps) simp
next
  case (2 p ks ts t)
  from 2(3) obtain n where n: "get_tn p t = Some n" "tr_store t p = Some n" "p \<noteq> NULL"
      "tn_children n = map rt_ptr ks" "forest_rep (tr_store t) ks" "forest_rep (tr_store t) ts"
    by (elim forest_rep_head)
  let ?t1 = "t\<lparr>tr_store := tr_store t |` (- set (forest_nodes ks))\<rparr>"
  let ?t2 = "?t1\<lparr>tr_store := (tr_store ?t1)(p := None)\<rparr>"
  have 1: "free_each (map rt_ptr ks) t = Some ?t1"
    using 2(1) [OF n(5)] 2(4) by simp
  have "forest_rep (tr_store ?t2) ts"
    using 2(4) n(6) by (subst forest_rep_frame [of _ _ "tr_store t"]) (auto simp: restrict_map_def)
  then have "free_each (map rt_ptr ts) ?t2 =
      Some (?t2\<lparr>tr_store := tr_store ?t2 |` (- set (forest_nodes ts))\<rparr>)"
    using 2(2) 2(4) by simp
  moreover have "?t2\<lparr>tr_store := tr_store ?t2 |` (- set (forest_nodes ts))\<rparr> =
      t\<lparr>tr_store := tr_store t |` (- set (forest_nodes (RNode p ks # ts)))\<rparr>"
    by (auto simp: restrict_map_def fun_eq_iff intro!: arg_cong [of _ _ "\<lambda>s. t\<lparr>tr_store := s\<rparr>"])
  moreover have "tr_store ?t1 p \<noteq> None" using 2(4) n(2) by (auto simp: restrict_map_def)
  ultimately show ?case using n 1 by (subst free_each.simps) simp
qed

definition tn_val :: "tree \<Rightarrow> ptr \<Rightarrow> ptr" where
  "tn_val t p = (case tr_store t p of None \<Rightarrow> NULL | Some n \<Rightarrow> tn_value n)"

lemma find_in_forest:
  "forest_rep (tr_store t) ts \<Longrightarrow>
   find_in test (map rt_ptr ts) t =
     Some (case List.find (\<lambda>p. test (tn_val t p)) (forest_nodes ts) of None \<Rightarrow> NULL | Some p \<Rightarrow> p)"
proof (induction ts rule: forest_nodes.induct)
  case (2 p ks ts)
  from 2(3) obtain n where n: "get_tn p t = Some n" "tr_store t p = Some n" "p \<noteq> NULL"
      "tn_children n = map rt_ptr ks" "forest_rep (tr_store t) ks" "forest_rep (tr_store t) ts"
    by (elim forest_rep_head)
  have nz: "q \<noteq> NULL" if "List.find f (forest_nodes ks) = Some q" for f q
    using that forest_nodes_non_null [OF n(5)] by (metis find_Some_iff nth_mem)
  have app: "List.find f (xs @ ys) = (case List.find f xs of None \<Rightarrow> List.find f ys | Some q \<Rightarrow> Some q)"
    for f :: "ptr \<Rightarrow> bool" and xs ys by (induction xs) auto
  show ?case
    using n 2(1) [OF n(5)] 2(2) [OF n(6)] nz
    by (subst find_in.simps) (auto simp: tn_val_def app split: option.splits)
qed (subst find_in.simps, simp)

fun forest_links :: "(ptr \<rightharpoonup> tnode) \<Rightarrow> ptr \<Rightarrow> rtree list \<Rightarrow> bool" where
  "forest_links s h [] = True"
| "forest_links s h (RNode p ks # ts) =
     ((case s p of None \<Rightarrow> False | Some n \<Rightarrow> tn_parent n = h) \<and> forest_links s p ks \<and> forest_links s h ts)"

lemma find_parent_in_forest:
  "forest_rep (tr_store t) ts \<Longrightarrow> forest_links (tr_store t) h ts \<Longrightarrow> h \<noteq> NULL \<Longrightarrow>
   (\<forall>p n. p \<in> set (forest_nodes ts) \<longrightarrow> tr_store t p = Some n \<longrightarrow> tn_parent n \<noteq> NULL) \<and>
   find_parent_in h (map rt_ptr ts) needle t =
     Some (if needle \<in> set (forest_nodes ts) then tn_parent (the (tr_store t needle)) else NULL)"
proof (induction ts arbitrary: h rule: forest_nodes.induct)
  case (1 h)
  then show ?case by (subst find_parent_in.simps) simp
next
  case (2 p ks ts h)
  from 2(3) obtain n where n: "get_tn p t = Some n" "tr_store t p = Some n" "p \<noteq> NULL"
      "tn_children n = map rt_ptr ks" "forest_rep (tr_store t) ks" "forest_rep (tr_store t) ts"
    by (elim forest_rep_head)
  from 2(4) n have l: "tn_parent n = h" "forest_links (tr_store t) p ks" "forest_links (tr_store t) h ts"
    by auto
  have mem: "\<exists>m. tr_store t x = Some m" if "x \<in> set (forest_nodes us)" "forest_rep (tr_store t) us" for x us
    using that by (induction us rule: forest_nodes.induct) (auto split: option.splits)
  show ?case
    using n l 2(1) [OF n(5) l(2) n(3)] 2(2) [OF n(6) l(3) 2(5)] 2(5) mem [OF _ n(5)] mem [OF _ n(6)]
    by (subst find_parent_in.simps) auto
qed


section \<open>The tree invariant\<close>

definition links_ok :: "(ptr \<rightharpoonup> tnode) \<Rightarrow> bool" where
  "links_ok s \<longleftrightarrow>
     (\<forall>p n. s p = Some n \<longrightarrow> p \<noteq> NULL \<and> distinct (tn_children n) \<and>
        (\<forall>c \<in> set (tn_children n). \<exists>m. s c = Some m \<and> tn_parent m = p)) \<and>
     (\<forall>p n. s p = Some n \<longrightarrow> tn_parent n \<noteq> NULL \<longrightarrow>
        (\<exists>m. s (tn_parent n) = Some m \<and> p \<in> set (tn_children m)))"

definition ranked :: "(ptr \<rightharpoonup> tnode) \<Rightarrow> (ptr \<Rightarrow> nat) \<Rightarrow> bool" where
  "ranked s r \<longleftrightarrow> (\<forall>p n. s p = Some n \<longrightarrow> tn_parent n \<noteq> NULL \<longrightarrow> r (tn_parent n) < r p)"

text \<open>
  A tree: parent and child links agree, no node is its own ancestor (a rank decreases towards
  the root), the root is the only node without a parent, and \<open>nodes\<close> counts the nodes.
\<close>

definition tree_inv :: "tree \<Rightarrow> bool" where
  "tree_inv t \<longleftrightarrow>
     links_ok (tr_store t) \<and> (\<exists>r. ranked (tr_store t) r) \<and> finite (dom (tr_store t)) \<and>
     tr_nodes t = of_nat (card (dom (tr_store t))) \<and>
     (\<forall>p n. tr_store t p = Some n \<longrightarrow> (tn_parent n = NULL) = (p = tr_root t)) \<and>
     tr_root t \<in> dom (tr_store t)"

lemma tree_inv_node:
  assumes "tree_inv t" and "tr_store t p = Some n"
  shows "p \<noteq> NULL" "get_tn p t = Some n" "distinct (tn_children n)"
    and "c \<in> set (tn_children n) \<Longrightarrow> \<exists>m. tr_store t c = Some m \<and> tn_parent m = p"
    and "tn_parent n \<noteq> NULL \<Longrightarrow> \<exists>m. tr_store t (tn_parent n) = Some m \<and> p \<in> set (tn_children m)"
    and "(tn_parent n = NULL) = (p = tr_root t)"
  using assms by (auto simp: tree_inv_def links_ok_def get_tn_def)

lemma get_tn_Some: "tr_store t p = Some n \<Longrightarrow> p \<noteq> NULL \<Longrightarrow> get_tn p t = Some n"
  by (simp add: get_tn_def)

lemma set_tn_Some:
  "tr_store t p = Some n \<Longrightarrow> p \<noteq> NULL \<Longrightarrow>
   set_tn p f t = Some (t\<lparr>tr_store := (tr_store t)(p \<mapsto> f n)\<rparr>)"
  by (simp add: set_tn_def get_tn_def)

lemma set_parents_eval:
  assumes "\<And>c. c \<in> set cs \<Longrightarrow> c \<noteq> NULL \<and> tr_store t c \<noteq> None"
  shows "set_parents cs p t =
    Some (t\<lparr>tr_store := (\<lambda>x. if x \<in> set cs then map_option (\<lambda>n. n\<lparr>tn_parent := p\<rparr>) (tr_store t x)
                              else tr_store t x)\<rparr>)"
  using assms
proof (induction cs arbitrary: t)
  case (Cons c cs)
  obtain n where n: "tr_store t c = Some n" "c \<noteq> NULL" using Cons.prems [of c] by auto
  let ?t = "t\<lparr>tr_store := (tr_store t)(c \<mapsto> n\<lparr>tn_parent := p\<rparr>)\<rparr>"
  have "set_parents cs p ?t = Some (?t\<lparr>tr_store := (\<lambda>x. if x \<in> set cs
      then map_option (\<lambda>n. n\<lparr>tn_parent := p\<rparr>) (tr_store ?t x) else tr_store ?t x)\<rparr>)"
    using Cons.prems by (intro Cons.IH) auto
  with n show ?case
    by (auto simp: set_tn_Some fun_eq_iff intro!: arg_cong [of _ _ "\<lambda>s. t\<lparr>tr_store := s\<rparr>"])
qed simp

text \<open>The store after \<open>node\<close> is removed from \<open>par\<close> and its children are given to \<open>tgt\<close>.\<close>

definition moved :: "(ptr \<rightharpoonup> tnode) \<Rightarrow> ptr \<Rightarrow> ptr \<Rightarrow> ptr \<Rightarrow> ptr list \<Rightarrow> (ptr \<rightharpoonup> tnode)" where
  "moved s tgt par node kids x =
     (if x = node then None
      else map_option (\<lambda>n. n\<lparr>tn_parent := if x \<in> set kids then tgt else tn_parent n,
             tn_children := (if x = par then remove1 node (tn_children n) else tn_children n) @
                            (if x = tgt then kids else [])\<rparr>) (s x))"

lemma remove_into_eval:
  assumes t: "tree_inv t" and N: "tr_store t node = Some N" "tn_parent N = par" "par \<noteq> NULL"
    and T: "tr_store t tgt = Some T" "tgt \<noteq> node" "tgt \<notin> set (tn_children N)"
    and par: "par \<noteq> node" "par \<notin> set (tn_children N)"
  shows "remove_into tgt par node t =
    Some (t\<lparr>tr_nodes := tr_nodes t - 1,
            tr_store := moved (tr_store t) tgt par node (tn_children N)\<rparr>)"
proof -
  obtain P where P: "tr_store t par = Some P" "node \<in> set (tn_children P)" "par \<noteq> NULL"
    using tree_inv_node(5) [OF t N(1)] N(2,3) by auto
  note nz = tree_inv_node(1) [OF t]
  have kids: "c \<noteq> NULL \<and> tr_store t c \<noteq> None \<and> c \<noteq> node" if "c \<in> set (tn_children N)" for c
    using tree_inv_node(4) [OF t N(1) that] nz N(1,2) par(1) by (cases "c = node") auto
  let ?t1 = "t\<lparr>tr_nodes := tr_nodes t - 1,
      tr_store := (tr_store t)(par \<mapsto> P\<lparr>tn_children := remove1 node (tn_children P)\<rparr>)\<rparr>"
  have del: "children_delete par node (t\<lparr>tr_nodes := tr_nodes t - 1\<rparr>) = Some ?t1"
    using P by (simp add: children_delete_def get_tn_Some set_tn_Some)
  have n1: "get_tn node ?t1 = Some N" using N nz [OF N(1)] par by (simp add: get_tn_def)
  have sp: "set_parents (tn_children N) tgt ?t1 =
    Some (?t1\<lparr>tr_store := (\<lambda>x. if x \<in> set (tn_children N)
      then map_option (\<lambda>n. n\<lparr>tn_parent := tgt\<rparr>) (tr_store ?t1 x) else tr_store ?t1 x)\<rparr>)"
    using kids by (intro set_parents_eval) auto
  show ?thesis
    using T P par N nz [OF N(1)] nz [OF T(1)] kids
    by (auto simp: remove_into_def Let_def del n1 sp set_tn_def free_tn_def get_tn_def
        moved_def fun_eq_iff map_option_case split: option.splits
        intro!: arg_cong [of _ _ "\<lambda>s. t\<lparr>tr_nodes := _, tr_store := s\<rparr>"])
qed

lemma moved_cases:
  assumes "moved s tgt par node kids x = Some n"
  obtains m where "s x = Some m" and "x \<noteq> node"
    and "tn_parent n = (if x \<in> set kids then tgt else tn_parent m)"
    and "tn_children n = (if x = par then remove1 node (tn_children m) else tn_children m) @
                         (if x = tgt then kids else [])"
proof -
  have x: "x \<noteq> node" using assms by (auto simp: moved_def)
  then obtain m where "s x = Some m" using assms by (cases "s x") (auto simp: moved_def)
  with x assms show thesis by (intro that [of m]) (auto simp: moved_def)
qed

lemma moved_Some:
  "s x = Some m \<Longrightarrow> x \<noteq> node \<Longrightarrow> \<exists>n. moved s tgt par node kids x = Some n \<and>
     tn_parent n = (if x \<in> set kids then tgt else tn_parent m) \<and>
     tn_children n = (if x = par then remove1 node (tn_children m) else tn_children m) @
                     (if x = tgt then kids else [])"
  by (auto simp: moved_def)

lemma ranked_root:
  assumes t: "tree_inv t" and r: "ranked (tr_store t) r" and x: "tr_store t x = Some n" "x \<noteq> tr_root t"
  shows "r (tr_root t) < r x"
  using x
proof (induction "r x" arbitrary: x n rule: less_induct)
  case less
  from less.prems t have p: "tn_parent n \<noteq> NULL" by (auto simp: tree_inv_def)
  then have lt: "r (tn_parent n) < r x" using r less.prems by (auto simp: ranked_def)
  obtain m where m: "tr_store t (tn_parent n) = Some m"
    using tree_inv_node(5) [OF t less.prems(1) p] by blast
  show ?case using less.hyps [OF lt m] lt by (cases "tn_parent n = tr_root t") auto
qed

lemma moved_links:
  assumes t: "links_ok s" and N: "s node = Some N" "tn_parent N = par" "par \<noteq> NULL"
    and T: "s tgt = Some T" "tgt \<noteq> node" "tgt \<notin> set (tn_children N)"
    and par: "par \<noteq> node" "par \<notin> set (tn_children N)"
  shows "links_ok (moved s tgt par node (tn_children N))"
proof -
  let ?s = "moved s tgt par node (tn_children N)"
  have L: "p \<noteq> NULL" "distinct (tn_children n)"
      "\<And>c. c \<in> set (tn_children n) \<Longrightarrow> \<exists>m. s c = Some m \<and> tn_parent m = p"
      "tn_parent n \<noteq> NULL \<Longrightarrow> \<exists>m. s (tn_parent n) = Some m \<and> p \<in> set (tn_children m)"
    if "s p = Some n" for p n using t that by (auto simp: links_ok_def)
  have down: "p \<noteq> NULL \<and> distinct (tn_children n) \<and>
      (\<forall>c \<in> set (tn_children n). \<exists>m. ?s c = Some m \<and> tn_parent m = p)" if n: "?s p = Some n" for p n
  proof -
    from n obtain m where m: "s p = Some m" "p \<noteq> node"
        "tn_children n = (if p = par then remove1 node (tn_children m) else tn_children m) @
                         (if p = tgt then tn_children N else [])"
      by (elim moved_cases)
    have own: "c \<notin> set (tn_children N)" if "c \<in> set (tn_children m)" for c
      using L(3) [OF m(1) that] L(3) [OF N(1), of c] m(2) by auto
    have "distinct (tn_children n)"
      using m(3) L(2) [OF m(1)] L(2) [OF N(1)] own by (auto simp: distinct_remove1 dest: notin_set_remove1)
    moreover have "\<exists>m. ?s c = Some m \<and> tn_parent m = p" if c: "c \<in> set (tn_children n)" for c
    proof (cases "c \<in> set (tn_children N)")
      case True
      then have "p = tgt" using c m(3) own by (auto split: if_splits dest: notin_set_remove1)
      moreover have "c \<noteq> node" using L(3) [OF N(1) True] N par by auto
      ultimately show ?thesis using L(3) [OF N(1) True] True moved_Some [of s c] by fastforce
    next
      case False
      then have cm: "c \<in> set (tn_children m)" "p = par \<Longrightarrow> c \<noteq> node"
        using c m(3) L(2) [OF m(1)] by (auto split: if_splits dest: notin_set_remove1)
      then have "c \<noteq> node" using L(3) [OF m(1) cm(1)] N by auto
      then show ?thesis using L(3) [OF m(1) cm(1)] False moved_Some [of s c] by fastforce
    qed
    ultimately show ?thesis using L(1) [OF m(1)] by blast
  qed
  have up: "\<exists>m. ?s (tn_parent n) = Some m \<and> p \<in> set (tn_children m)"
    if n: "?s p = Some n" "tn_parent n \<noteq> NULL" for p n
  proof -
    from n(1) obtain m where m: "s p = Some m" "p \<noteq> node"
        "tn_parent n = (if p \<in> set (tn_children N) then tgt else tn_parent m)"
      by (elim moved_cases)
    show ?thesis
    proof (cases "p \<in> set (tn_children N)")
      case True
      then show ?thesis using m(3) moved_Some [of s tgt T node tgt par "tn_children N"] T by auto
    next
      case False
      with m(3) n(2) obtain q where q: "s (tn_parent m) = Some q" "p \<in> set (tn_children q)"
        using L(4) [OF m(1)] by auto
      have "tn_parent m \<noteq> node" using q N(1) False by auto
      with q m(2,3) False show ?thesis
        using moved_Some [of s "tn_parent m" q node tgt par "tn_children N"] by auto
    qed
  qed
  from down up show ?thesis unfolding links_ok_def by blast
qed

lemma moved_dom: "dom (moved s tgt par node kids) = dom s - {node}"
  by (auto simp: moved_def dom_def split: if_splits)

lemma of_nat_card_remove:
  assumes "finite A" and "x \<in> A"
  shows "(of_nat (card (A - {x})) :: u64) = of_nat (card A) - 1"
proof -
  have "card A = Suc (card (A - {x}))" using assms by (metis card_Suc_Diff1)
  then show ?thesis by simp
qed

lemma moved_inv:
  assumes t: "tree_inv t" and N: "tr_store t node = Some N" "tn_parent N = par" "par \<noteq> NULL"
    and r: "ranked (tr_store t) r" and T: "tr_store t tgt = Some T" "r tgt < r node"
  shows "tgt \<noteq> node" "tgt \<notin> set (tn_children N)" "par \<noteq> node" "par \<notin> set (tn_children N)"
    and "tree_inv (t\<lparr>tr_nodes := tr_nodes t - 1,
           tr_store := moved (tr_store t) tgt par node (tn_children N)\<rparr>)"
proof -
  have kids: "r node < r c" if "c \<in> set (tn_children N)" for c
    using tree_inv_node(4) [OF t N(1) that] r tree_inv_node(1) [OF t N(1)] by (auto simp: ranked_def)
  have pr: "r par < r node" using r N by (auto simp: ranked_def)
  from T(2) show A: "tgt \<noteq> node" by auto
  from T(2) kids show B: "tgt \<notin> set (tn_children N)" by (meson less_asym)
  from pr show C: "par \<noteq> node" by auto
  from pr kids show D: "par \<notin> set (tn_children N)" by (meson less_asym)
  let ?s = "moved (tr_store t) tgt par node (tn_children N)"
  have i: "links_ok (tr_store t)" "finite (dom (tr_store t))"
      "tr_nodes t = of_nat (card (dom (tr_store t)))"
      "\<And>p n. tr_store t p = Some n \<Longrightarrow> (tn_parent n = NULL) = (p = tr_root t)"
      "tr_root t \<in> dom (tr_store t)"
    using t by (auto simp: tree_inv_def)
  have nr: "node \<noteq> tr_root t" using i(4) [OF N(1)] N(2,3) by auto
  have "ranked ?s r" unfolding ranked_def
  proof (intro allI impI)
    fix p n assume n: "?s p = Some n" "tn_parent n \<noteq> NULL"
    then obtain m where "tr_store t p = Some m" "tn_parent n = (if p \<in> set (tn_children N) then tgt else tn_parent m)"
      by (elim moved_cases)
    then show "r (tn_parent n) < r p"
      using n(2) r less_trans [OF T(2) kids, of p] by (auto simp: ranked_def)
  qed
  moreover have "(tn_parent n = NULL) = (p = tr_root t)" if n: "?s p = Some n" for p n
  proof -
    from n obtain m where m: "tr_store t p = Some m"
        "tn_parent n = (if p \<in> set (tn_children N) then tgt else tn_parent m)" by (elim moved_cases)
    moreover have "tgt \<noteq> NULL" "p \<in> set (tn_children N) \<Longrightarrow> p \<noteq> tr_root t"
      using tree_inv_node(1) [OF t T(1)] tree_inv_node(1) [OF t N(1)]
        tree_inv_node(4) [OF t N(1), of p] i(4) by auto
    ultimately show ?thesis using i(4) [OF m(1)] by auto
  qed
  moreover have "tr_nodes t - 1 = of_nat (card (dom ?s))"
    unfolding moved_dom i(3) using i(2) N(1) by (intro of_nat_card_remove [symmetric]) auto
  moreover have "finite (dom ?s)" "tr_root t \<in> dom ?s"
    using i(2,5) nr by (simp_all add: moved_dom)
  ultimately show "tree_inv (t\<lparr>tr_nodes := tr_nodes t - 1, tr_store := ?s\<rparr>)"
    using moved_links [OF i(1) N T(1) A B C D] by (auto simp: tree_inv_def)
qed

text \<open>Both removals, at once: the node's children are given to its parent or to the root.\<close>

lemma tree_remove_specs:
  assumes t: "tree_inv t" and N: "tr_store t node = Some N" "node \<noteq> tr_root t"
  shows "\<exists>t'. tree_remove node t = Some t' \<and> tree_inv t' \<and> tr_root t' = tr_root t \<and>
      tr_store t' = moved (tr_store t) (tn_parent N) (tn_parent N) node (tn_children N)"
    and "\<exists>t'. tree_remove_reparent_root node t = Some t' \<and> tree_inv t' \<and> tr_root t' = tr_root t \<and>
      tr_store t' = moved (tr_store t) (tr_root t) (tn_parent N) node (tn_children N)"
proof -
  have p: "tn_parent N \<noteq> NULL" using tree_inv_node(6) [OF t N(1)] N(2) by simp
  obtain r where r: "ranked (tr_store t) r" using t by (auto simp: tree_inv_def)
  have g: "get_tn node t = Some N" by (rule tree_inv_node(2) [OF t N(1)])
  obtain P where P: "tr_store t (tn_parent N) = Some P" using tree_inv_node(5) [OF t N(1) p] by blast
  have "r (tn_parent N) < r node" using r N p by (auto simp: ranked_def)
  note m = moved_inv [OF t N(1) refl p r P this]
  show "\<exists>t'. tree_remove node t = Some t' \<and> tree_inv t' \<and> tr_root t' = tr_root t \<and>
      tr_store t' = moved (tr_store t) (tn_parent N) (tn_parent N) node (tn_children N)"
    using m(5) remove_into_eval [OF t N(1) refl p P m(1-4)] g p by (simp add: tree_remove_def)
  obtain R where R: "tr_store t (tr_root t) = Some R" using t by (auto simp: tree_inv_def)
  note m = moved_inv [OF t N(1) refl p r R ranked_root [OF t r N]]
  show "\<exists>t'. tree_remove_reparent_root node t = Some t' \<and> tree_inv t' \<and> tr_root t' = tr_root t \<and>
      tr_store t' = moved (tr_store t) (tr_root t) (tn_parent N) node (tn_children N)"
    using m(5) remove_into_eval [OF t N(1) refl p R m(1-4)] g p
    by (simp add: tree_remove_reparent_root_def)
qed

lemma tree_node_insert_child_spec:
  assumes t: "tree_inv t" and P: "tr_store t par = Some P" and a: "a \<noteq> NULL" "tr_store t a = None"
  shows "\<exists>t'. tree_node_insert_child a par v t = Some (a, t') \<and> tree_inv t' \<and>
     tr_root t' = tr_root t \<and>
     tr_store t' = (tr_store t)(par \<mapsto> P\<lparr>tn_children := tn_children P @ [a]\<rparr>,
       a \<mapsto> \<lparr>tn_value = v, tn_children = [], tn_parent = par\<rparr>)"
proof -
  let ?s = "(tr_store t)(par \<mapsto> P\<lparr>tn_children := tn_children P @ [a]\<rparr>,
       a \<mapsto> \<lparr>tn_value = v, tn_children = [], tn_parent = par\<rparr>)"
  let ?t = "t\<lparr>tr_nodes := tr_nodes t + 1, tr_store := ?s\<rparr>"
  have pa: "par \<noteq> a" "par \<noteq> NULL" using P a tree_inv_node(1) [OF t P] by auto
  have run: "tree_node_insert_child a par v t = Some (a, ?t)"
    using a pa P by (cases t) (auto simp: tree_node_insert_child_def tree_node_create_def
        tree_node_insert_child_node_def set_tn_def get_tn_def fun_upd_twist)
  have kid: "c \<noteq> a" if "tr_store t p = Some n" "c \<in> set (tn_children n)" for p n c
    using tree_inv_node(4) [OF t that] a(2) by auto
  have up: "tn_parent n \<noteq> a" if "tr_store t p = Some n" for p n
    using tree_inv_node(5) [OF t that] a by auto
  have "links_ok ?s"
    using t P a pa kid up unfolding tree_inv_def links_ok_def
    by (auto; fastforce)
  moreover obtain r where r: "ranked (tr_store t) r" using t by (auto simp: tree_inv_def)
  then have "ranked ?s (r(a := Suc (r par)))"
    using up P pa by (auto simp: ranked_def)
  moreover have "card (dom ?s) = Suc (card (dom (tr_store t)))"
    using t a P by (simp add: tree_inv_def insert_absorb domI card_insert_if domIff)
  ultimately have "tree_inv ?t"
    using t P a pa unfolding tree_inv_def by (auto split: if_splits)
  with run show ?thesis by auto
qed

text \<open>
  Removing a whole branch: the node's subtree is given by an algebraic tree, and every node
  in it has its parent there too, so nothing outside keeps a link into it.
\<close>

lemma forest_member:
  "forest_rep s ts \<Longrightarrow> x \<in> set (forest_nodes ts) \<Longrightarrow>
   \<exists>n. s x = Some n \<and> set (tn_children n) \<subseteq> set (forest_nodes ts)"
proof (induction ts rule: forest_nodes.induct)
  case (2 p ks ts)
  have "rt_ptr ` set us \<subseteq> set (forest_nodes us)" for us
    by (induction us rule: forest_nodes.induct) auto
  with 2 show ?case by (fastforce split: option.splits)
qed simp

lemma tree_node_parent_remove_spec:
  assumes t: "tree_inv t" and N: "tr_store t node = Some N" "node \<noteq> tr_root t"
    and rep: "forest_rep (tr_store t) [RNode node ks]" "distinct (forest_nodes [RNode node ks])"
    and par: "tn_parent N \<notin> set (forest_nodes [RNode node ks])"
  shows "\<exists>t' P. tree_node_parent_remove (tn_parent N) node t = Some t' \<and>
      tr_store t (tn_parent N) = Some P \<and>
      tr_store t' = (tr_store t)(tn_parent N \<mapsto> P\<lparr>tn_children := remove1 node (tn_children P)\<rparr>)
                    |` (- set (forest_nodes [RNode node ks])) \<and>
      tr_nodes t' = tr_nodes t - of_nat (length (forest_nodes [RNode node ks]))"
proof -
  let ?f = "forest_nodes [RNode node ks]"
  have p: "tn_parent N \<noteq> NULL" using tree_inv_node(6) [OF t N(1)] N(2) by simp
  obtain P where P: "tr_store t (tn_parent N) = Some P" "node \<in> set (tn_children P)"
    using tree_inv_node(5) [OF t N(1) p] by blast
  obtain k where k: "count_each [node] t = Some k" "k + 1 = of_nat (length ?f)"
    using count_each_forest [OF rep(1)] by auto
  let ?t1 = "t\<lparr>tr_nodes := tr_nodes t - (k + 1),
      tr_store := (tr_store t)(tn_parent N \<mapsto> P\<lparr>tn_children := remove1 node (tn_children P)\<rparr>)\<rparr>"
  have del: "children_delete (tn_parent N) node (t\<lparr>tr_nodes := tr_nodes t - (k + 1)\<rparr>) = Some ?t1"
    using P p by (simp add: children_delete_def get_tn_def set_tn_def)
  have "forest_rep (tr_store ?t1) [RNode node ks]"
    using rep(1) par by (subst forest_rep_frame [of _ _ "tr_store t"]) auto
  then have free: "free_each [node] ?t1 =
      Some (?t1\<lparr>tr_store := tr_store ?t1 |` (- set ?f)\<rparr>)"
    using free_each_forest [of ?t1 "[RNode node ks]"] rep(2) by simp
  let ?t3 = "?t1\<lparr>tr_store := tr_store ?t1 |` (- set ?f)\<rparr>"
  have "tree_node_parent_remove (tn_parent N) node t = Some ?t3"
    by (simp only: tree_node_parent_remove_def tree_count_children_def tree_node_free_def Let_def
        k(1) del free Option.bind_lunit)
  moreover have "tr_store ?t3 = (tr_store t)(tn_parent N \<mapsto>
      P\<lparr>tn_children := remove1 node (tn_children P)\<rparr>) |` (- set ?f)" by simp
  moreover have "tr_nodes ?t3 = tr_nodes t - of_nat (length ?f)"
    unfolding k(2) [symmetric] by simp
  ultimately show ?thesis using P(1) by blast
qed

lemma tree_node_remove_root_faults:
  assumes t: "tree_inv t" and rep: "forest_rep (tr_store t) [RNode (tr_root t) ks]"
    "distinct (forest_nodes [RNode (tr_root t) ks])"
  shows "tree_node_remove (tr_root t) t = None"
proof -
  obtain R where R: "tr_store t (tr_root t) = Some R" "tn_parent R = NULL"
    using t by (auto simp: tree_inv_def)
  let ?t = "t\<lparr>tr_nodes := 0, tr_root := NULL\<rparr>"
  have "free_each [tr_root t] ?t =
      Some (?t\<lparr>tr_store := tr_store ?t |` (- set (forest_nodes [RNode (tr_root t) ks]))\<rparr>)"
    using free_each_forest [of ?t "[RNode (tr_root t) ks]"] rep by simp
  moreover have "count_each [tr_root t] t' = None" if "tr_store t' (tr_root t) = None" for t'
    using that tree_inv_node(1) [OF t R(1)] by (subst count_each.simps) (simp add: get_tn_def)
  ultimately show ?thesis
    using R tree_inv_node(2) [OF t R(1)]
    by (simp add: tree_node_remove_def tree_node_free_def tree_node_parent_remove_def
        tree_count_children_def)
qed

section \<open>Properties\<close>

text \<open>
  A tree with root \<open>1\<close>, children \<open>2\<close> and \<open>3\<close> of the root, and children \<open>4\<close> and \<open>5\<close> of \<open>2\<close>.
\<close>

definition tree_example :: tree where
  "tree_example =
     \<lparr>tr_nodes = 5, tr_root = 1,
      tr_store = [1 \<mapsto> \<lparr>tn_value = 10, tn_children = [2, 3], tn_parent = 0\<rparr>,
                  2 \<mapsto> \<lparr>tn_value = 20, tn_children = [4, 5], tn_parent = 1\<rparr>,
                  3 \<mapsto> \<lparr>tn_value = 30, tn_children = [], tn_parent = 1\<rparr>,
                  4 \<mapsto> \<lparr>tn_value = 40, tn_children = [], tn_parent = 2\<rparr>,
                  5 \<mapsto> \<lparr>tn_value = 50, tn_children = [], tn_parent = 2\<rparr>]\<rparr>"

lemma tree_example_inv: "tree_inv tree_example"
proof -
  have "ranked (tr_store tree_example) (\<lambda>p. unat p)"
    by (simp add: ranked_def tree_example_def)
  moreover have "dom (tr_store tree_example) = {1, 2, 3, 4, 5}"
    by (auto simp: tree_example_def split: if_splits)
  moreover have "links_ok (tr_store tree_example)"
    by (simp add: links_ok_def tree_example_def)
  moreover have "(tn_parent n = NULL) = (p = tr_root tree_example)"
    if "tr_store tree_example p = Some n" for p n
    using that by (auto simp: tree_example_def split: if_splits)
  moreover have "tr_nodes tree_example = 5" "tr_root tree_example = 1"
    by (simp_all add: tree_example_def)
  ultimately show ?thesis
    unfolding tree_inv_def by auto
qed

text \<open>
  Property C26: \<open>tree_remove\<close> of a node that is not the root keeps the tree well formed (links
  agree, no cycle, one root, right node count), frees exactly that node and appends its
  children to its parent's, in order, re-parented.
\<close>

theorem tree_remove_promotes:
  assumes "tree_inv t" and "tr_store t node = Some N" and "node \<noteq> tr_root t"
  shows "\<exists>t' P P'. tree_remove node t = Some t' \<and> tree_inv t' \<and>
           dom (tr_store t') = dom (tr_store t) - {node} \<and>
           tr_store t (tn_parent N) = Some P \<and> tr_store t' (tn_parent N) = Some P' \<and>
           tn_children P' = remove1 node (tn_children P) @ tn_children N \<and>
           (\<forall>c \<in> set (tn_children N). \<exists>m. tr_store t' c = Some m \<and> tn_parent m = tn_parent N)"
proof -
  have p: "tn_parent N \<noteq> NULL" using tree_inv_node(6) [OF assms(1,2)] assms(3) by simp
  obtain P where P: "tr_store t (tn_parent N) = Some P" using tree_inv_node(5) [OF assms(1,2) p] by blast
  obtain t' where t': "tree_remove node t = Some t'" "tree_inv t'"
      "tr_store t' = moved (tr_store t) (tn_parent N) (tn_parent N) node (tn_children N)"
    using tree_remove_specs(1) [OF assms] by blast
  obtain r where "ranked (tr_store t) r" using assms(1) by (auto simp: tree_inv_def)
  then have ne: "tn_parent N \<noteq> node" using assms(2) p by (auto simp: ranked_def)
  obtain P' where P': "tr_store t' (tn_parent N) = Some P'"
      "tn_children P' = remove1 node (tn_children P) @ tn_children N"
    using moved_Some [of "tr_store t" "tn_parent N" P node] P ne t'(3) by fastforce
  then have "\<forall>c \<in> set (tn_children N). \<exists>m. tr_store t' c = Some m \<and> tn_parent m = tn_parent N"
    using tree_inv_node(4) [OF t'(2) P'(1)] by auto
  with t' P P' show ?thesis by (auto simp: moved_dom)
qed

theorem tree_remove_promotes_witness:
  "\<exists>t' P'. tree_remove 2 tree_example = Some t' \<and> tree_inv t' \<and>
           tr_store t' 1 = Some P' \<and> tn_children P' = [3, 4, 5]"
proof -
  have "tr_store tree_example 2 = Some \<lparr>tn_value = 20, tn_children = [4, 5], tn_parent = 1\<rparr>"
    "tr_root tree_example = 1" "tr_store tree_example 1 = Some \<lparr>tn_value = 10, tn_children = [2, 3], tn_parent = 0\<rparr>"
    by (simp_all add: tree_example_def)
  then show ?thesis using tree_remove_promotes [OF tree_example_inv, of 2] by auto
qed

text \<open>
  Fact: \<open>tree_remove_reparent_root\<close>, used when a process dies, keeps the tree well
  formed, frees exactly the node and makes the root the parent of its orphans; no other
  node changes its parent.
\<close>

theorem tree_reparent_root_adopts:
  assumes "tree_inv t" and "tr_store t node = Some N" and "node \<noteq> tr_root t"
  shows "\<exists>t'. tree_remove_reparent_root node t = Some t' \<and> tree_inv t' \<and>
           dom (tr_store t') = dom (tr_store t) - {node} \<and>
           (\<forall>p n. p \<noteq> node \<longrightarrow> tr_store t p = Some n \<longrightarrow>
              (\<exists>n'. tr_store t' p = Some n' \<and> tn_value n' = tn_value n \<and>
                    tn_parent n' = (if p \<in> set (tn_children N) then tr_root t else tn_parent n)))"
proof -
  obtain t' where t': "tree_remove_reparent_root node t = Some t'" "tree_inv t'"
      "tr_store t' = moved (tr_store t) (tr_root t) (tn_parent N) node (tn_children N)"
    using tree_remove_specs(2) [OF assms] by blast
  then show ?thesis by (auto simp: moved_dom) (auto simp: moved_def)
qed

theorem tree_reparent_root_adopts_witness:
  "\<exists>t' n. tree_remove_reparent_root 2 tree_example = Some t' \<and> tree_inv t' \<and>
          tr_store t' 4 = Some n \<and> tn_parent n = 1"
proof -
  have e: "tr_store tree_example 2 = Some \<lparr>tn_value = 20, tn_children = [4, 5], tn_parent = 1\<rparr>"
    "tr_root tree_example = 1" "tr_store tree_example 4 = Some \<lparr>tn_value = 40, tn_children = [], tn_parent = 2\<rparr>"
    by (simp_all add: tree_example_def)
  then obtain t' where "tree_remove_reparent_root 2 tree_example = Some t'" "tree_inv t'"
      "\<exists>n'. tr_store t' 4 = Some n' \<and> tn_parent n' = 1"
    using tree_reparent_root_adopts [OF tree_example_inv e(1)] by fastforce
  then show ?thesis by blast
qed

text \<open>
  Fact: \<open>tree_node_insert_child\<close> with a fresh address keeps the tree well formed and
  makes the new leaf the last child of the given node; nothing else changes.
\<close>

theorem tree_insert_child_refines:
  assumes "tree_inv t" and "tr_store t par = Some P" and "a \<noteq> NULL" and "tr_store t a = None"
  shows "\<exists>t'. tree_node_insert_child a par v t = Some (a, t') \<and> tree_inv t' \<and>
     tr_root t' = tr_root t \<and>
     tr_store t' = (tr_store t)(par \<mapsto> P\<lparr>tn_children := tn_children P @ [a]\<rparr>,
       a \<mapsto> \<lparr>tn_value = v, tn_children = [], tn_parent = par\<rparr>)"
  using tree_node_insert_child_spec [OF assms] .

theorem tree_insert_child_refines_witness:
  "\<exists>t'. tree_node_insert_child 6 3 60 tree_example = Some (6, t') \<and> tree_inv t'"
proof -
  have "tr_store tree_example 3 = Some \<lparr>tn_value = 30, tn_children = [], tn_parent = 1\<rparr>"
    "tr_store tree_example 6 = None" by (simp_all add: tree_example_def)
  then show ?thesis using tree_insert_child_refines [OF tree_example_inv, of 3 _ 6 60] by auto
qed

text \<open>
  Fact: removing a branch with \<open>tree_node_remove\<close> frees exactly the nodes of the branch
  and subtracts their number from the node count; but applied to the root it frees the whole
  tree and then goes on to use the freed root.
\<close>

theorem tree_node_remove_outcomes:
  assumes "tree_inv t" and "tr_store t node = Some N"
    and "forest_rep (tr_store t) [RNode node ks]" and "distinct (forest_nodes [RNode node ks])"
    and "tn_parent N \<notin> set (forest_nodes [RNode node ks])"
  shows "(node = tr_root t \<longrightarrow> tree_node_remove node t = None) \<and>
         (node \<noteq> tr_root t \<longrightarrow>
            (\<exists>t'. tree_node_remove node t = Some t' \<and>
                  dom (tr_store t') = dom (tr_store t) - set (forest_nodes [RNode node ks]) \<and>
                  tr_nodes t' = tr_nodes t - of_nat (length (forest_nodes [RNode node ks]))))"
proof -
  have "\<exists>t'. tree_node_remove node t = Some t' \<and>
      dom (tr_store t') = dom (tr_store t) - set (forest_nodes [RNode node ks]) \<and>
      tr_nodes t' = tr_nodes t - of_nat (length (forest_nodes [RNode node ks]))" if "node \<noteq> tr_root t"
    using tree_node_parent_remove_spec [OF assms(1,2) that assms(3-5)]
      tree_inv_node(2) [OF assms(1,2)] that
    by (auto simp: tree_node_remove_def)
  moreover have "tree_node_remove node t = None" if "node = tr_root t"
    using tree_node_remove_root_faults [OF assms(1) assms(3,4) [unfolded that]] that by simp
  ultimately show ?thesis by blast
qed

theorem tree_node_remove_outcomes_witness:
  "\<exists>t'. tree_node_remove 2 tree_example = Some t' \<and> dom (tr_store t') = {1, 3} \<and> tr_nodes t' = 2"
proof -
  let ?ks = "[RNode 4 [], RNode 5 []]"
  have e: "tr_store tree_example 2 = Some \<lparr>tn_value = 20, tn_children = [4, 5], tn_parent = 1\<rparr>"
    "tr_root tree_example = 1" "tr_nodes tree_example = 5" "forest_rep (tr_store tree_example) [RNode 2 ?ks]"
    "dom (tr_store tree_example) - {2, 4, 5} = {1, 3}"
    by (auto simp: tree_example_def split: if_splits)
  show ?thesis
    using tree_node_remove_outcomes [OF tree_example_inv e(1,4)] e by simp
qed

end
