(* ===== verification/Gzip.thy ===== *)
theory Gzip
  imports Kernel_Prelude
begin

text \<open>
  Decompression of gzip files, \<open>kernel/misc/gzip.c\<close>: the bit reader, canonical Huffman tables, the
  window of the last 32768 bytes, the three kinds of blocks and the file header.  The input pointer is the
  list of the bytes that are left; reading behind them, and every access outside of an array, is a fault.
  Counters and table entries that stay far below the width of their C types are natural numbers.
  The function \<open>decode\<close> is proved against the code words of RFC 1951.
\<close>

unbundle bit_operations_syntax

section \<open>Input and output\<close>

record gz =
  gz_bit_buffer :: u8
  gz_buffer_size :: nat
  gz_input :: bytes
  gz_output :: bytes
  gz_pointer :: u64
  gz_data :: "nat \<Rightarrow> u8"

definition read_byte :: "gz \<Rightarrow> (u8 \<times> gz) option" where
  "read_byte s = (case gz_input s of [] \<Rightarrow> None | b # r \<Rightarrow> Some (b, s\<lparr>gz_input := r\<rparr>))"

definition write_sym :: "u8 \<Rightarrow> gz \<Rightarrow> gz" where
  "write_sym b s = s\<lparr>gz_output := gz_output s @ [b]\<rparr>"

definition read_16le :: "gz \<Rightarrow> (u16 \<times> gz) option" where
  "read_16le s = do {
     (a, s) \<leftarrow> read_byte s;
     (b, s) \<leftarrow> read_byte s;
     Some (ucast a OR push_bit 8 (ucast b), s)
   }"

definition read_bit :: "gz \<Rightarrow> (bool \<times> gz) option" where
  "read_bit s = do {
     s \<leftarrow> (if gz_buffer_size s = 0
          then do { (b, s) \<leftarrow> read_byte s; Some (s\<lparr>gz_bit_buffer := b, gz_buffer_size := 8\<rparr>) }
          else Some s);
     let out = (gz_bit_buffer s AND 1 = 1);
     Some (out, s\<lparr>gz_bit_buffer := drop_bit 1 (gz_bit_buffer s), gz_buffer_size := gz_buffer_size s - 1\<rparr>)
   }"

primrec read_bits_from :: "nat \<Rightarrow> nat \<Rightarrow> u32 \<Rightarrow> gz \<Rightarrow> (u32 \<times> gz) option" where
  "read_bits_from 0 i out s = Some (out, s)"
| "read_bits_from (Suc n) i out s = do {
     (b, s) \<leftarrow> read_bit s;
     read_bits_from n (Suc i) (out OR push_bit i (of_bool b)) s
   }"

definition read_bits :: "nat \<Rightarrow> gz \<Rightarrow> (nat \<times> gz) option" where
  "read_bits count s = do { (out, s) \<leftarrow> read_bits_from count 0 0 s; Some (unat out, s) }"


section \<open>Huffman tables\<close>

record huff =
  hf_counts :: "nat list"
  hf_symbols :: "nat list"

fun count_symbols :: "nat list \<Rightarrow> nat list \<Rightarrow> nat list option" where
  "count_symbols [] counts = Some counts"
| "count_symbols (l # ls) counts =
     (if l < length counts then count_symbols ls (counts[l := counts ! l + 1]) else None)"

fun find_offsets :: "nat list \<Rightarrow> nat \<Rightarrow> nat list" where
  "find_offsets [] count = []"
| "find_offsets (c # cs) count = count # find_offsets cs (count + c)"

fun order_symbols :: "nat \<Rightarrow> nat list \<Rightarrow> nat list \<Rightarrow> nat list \<Rightarrow> nat list option" where
  "order_symbols i [] offsets symbols = Some symbols"
| "order_symbols i (l # ls) offsets symbols =
     (if l \<noteq> 0 then
        if l < length offsets \<and> offsets ! l < length symbols
        then order_symbols (Suc i) ls (offsets[l := offsets ! l + 1]) (symbols[offsets ! l := i])
        else None
      else order_symbols (Suc i) ls offsets symbols)"

definition build_huffman :: "nat list \<Rightarrow> huff \<Rightarrow> huff option" where
  "build_huffman lengths out = do {
     counts \<leftarrow> count_symbols lengths (replicate 16 0);
     let counts = counts[0 := 0];
     symbols \<leftarrow> order_symbols 0 lengths (find_offsets counts 0) (hf_symbols out);
     Some \<lparr>hf_counts = counts, hf_symbols = symbols\<rparr>
   }"

definition zero_huff :: huff where
  "zero_huff = \<lparr>hf_counts = replicate 16 0, hf_symbols = replicate 288 0\<rparr>"

definition fixed_literal_lengths :: "nat list" where
  "fixed_literal_lengths = replicate 144 8 @ replicate 112 9 @ replicate 24 7 @ replicate 8 8"

definition build_fixed :: "(huff \<times> huff) option" where
  "build_fixed = do {
     fixed_lengths \<leftarrow> build_huffman fixed_literal_lengths zero_huff;
     fixed_dists \<leftarrow> build_huffman (replicate 30 5) zero_huff;
     Some (fixed_lengths, fixed_dists)
   }"

text \<open>The code length \<open>16\<close> is outside of the array of counts.\<close>

function decode_loop :: "huff \<Rightarrow> nat \<Rightarrow> int \<Rightarrow> int \<Rightarrow> gz \<Rightarrow> (int \<times> gz) option" where
  "decode_loop huff i count cur s =
     (if cur \<ge> 0 then do {
        (b, s) \<leftarrow> read_bit s;
        if i < length (hf_counts huff) then
          decode_loop huff (Suc i) (count + int (hf_counts huff ! i)) (2 * cur + of_bool b - int (hf_counts huff ! i)) s
        else None
      } else Some (count + cur, s))"
  by pat_completeness auto
termination by (relation "measure (\<lambda>(h, i, count, cur, s). length (hf_counts h) - i)") auto

declare decode_loop.simps [simp del]

definition decode :: "huff \<Rightarrow> gz \<Rightarrow> (nat \<times> gz) option" where
  "decode huff s = do {
     (k, s) \<leftarrow> decode_loop huff 1 0 0 s;
     if 0 \<le> k \<and> k < int (length (hf_symbols huff)) then Some (hf_symbols huff ! nat k, s) else None
   }"


section \<open>The window\<close>

definition emit :: "u8 \<Rightarrow> gz \<Rightarrow> gz option" where
  "emit byte s =
     (if gz_pointer s < 0x8000
      then Some (write_sym byte (s\<lparr>gz_data := (gz_data s)(unat (gz_pointer s) := byte), gz_pointer := (gz_pointer s + 1) AND 0x7FFF\<rparr>))
      else None)"

definition peek :: "nat \<Rightarrow> gz \<Rightarrow> gz option" where
  "peek offset s =
     (if gz_pointer s < 0x8000
      then let byte = gz_data s (unat ((gz_pointer s + 0x8000 - of_nat offset) AND 0x7FFF))
           in Some (write_sym byte (s\<lparr>gz_data := (gz_data s)(unat (gz_pointer s) := byte), gz_pointer := (gz_pointer s + 1) AND 0x7FFF\<rparr>))
      else None)"

primrec peeks :: "nat \<Rightarrow> nat \<Rightarrow> gz \<Rightarrow> gz option" where
  "peeks 0 offset s = Some s"
| "peeks (Suc n) offset s = do { s \<leftarrow> peek offset s; peeks n offset s }"


section \<open>Blocks\<close>

definition lens :: "nat list" where
  "lens = [3, 4, 5, 6, 7, 8, 9, 10, 11, 13, 15, 17, 19, 23, 27, 31, 35, 43, 51,
     59, 67, 83, 99, 115, 131, 163, 195, 227, 258]"

definition lext :: "nat list" where
  "lext = [0, 0, 0, 0, 0, 0, 0, 0, 1, 1, 1, 1, 2, 2, 2, 2, 3, 3, 3, 3, 4, 4, 4,
     4, 5, 5, 5, 5, 0]"

definition dists :: "nat list" where
  "dists = [1, 2, 3, 4, 5, 7, 9, 13, 17, 25, 33, 49, 65, 97, 129, 193, 257, 385,
     513, 769, 1025, 1537, 2049, 3073, 4097, 6145, 8193, 12289, 16385, 24577]"

definition dext :: "nat list" where
  "dext = [0, 0, 0, 0, 1, 1, 2, 2, 3, 3, 4, 4, 5, 5, 6, 6, 7, 7, 8, 8, 9, 9, 10,
     10, 11, 11, 12, 12, 13, 13]"

definition clens :: "nat list" where
  "clens = [16, 17, 18, 0, 8, 7, 9, 6, 10, 5, 11, 4, 12, 3, 13, 2, 14, 1, 15]"

text \<open>Every symbol takes a bit at least: the decoder ends on every input.\<close>

definition bits_left :: "gz \<Rightarrow> nat" where
  "bits_left s = 8 * length (gz_input s) + gz_buffer_size s"

lemma read_bit_left: "read_bit s = Some (b, s') \<Longrightarrow> bits_left s' < bits_left s"
  by (auto simp: read_bit_def read_byte_def bits_left_def split: if_splits list.splits)

lemma read_bits_from_left: "read_bits_from n i out s = Some (r, s') \<Longrightarrow> bits_left s' \<le> bits_left s"
proof (induction n arbitrary: i out s)
  case (Suc n)
  then obtain b s1 where s1: "read_bit s = Some (b, s1)" "read_bits_from n (Suc i) (out OR push_bit i (of_bool b)) s1 = Some (r, s')"
    by (auto simp: bind_eq_Some_conv)
  show ?case using Suc.IH [OF s1(2)] read_bit_left [OF s1(1)] by simp
qed simp

lemma read_bits_left: "read_bits n s = Some (r, s') \<Longrightarrow> bits_left s' \<le> bits_left s"
  by (auto simp: read_bits_def bind_eq_Some_conv dest: read_bits_from_left)

lemma decode_loop_step:
  assumes "0 \<le> cur" and "decode_loop h i count cur s = Some (k, s')"
  obtains b s1 where "read_bit s = Some (b, s1)" and "i < length (hf_counts h)"
    and "decode_loop h (Suc i) (count + int (hf_counts h ! i)) (2 * cur + of_bool b - int (hf_counts h ! i)) s1 = Some (k, s')"
proof -
  have "read_bit s \<bind> (\<lambda>(b, s). if i < length (hf_counts h) then
      decode_loop h (Suc i) (count + int (hf_counts h ! i)) (2 * cur + of_bool b - int (hf_counts h ! i)) s else None) = Some (k, s')"
    using assms by (subst (asm) decode_loop.simps) simp
  then show thesis using that by (auto simp: bind_eq_Some_conv split: if_splits)
qed

lemma decode_loop_stop: "cur < 0 \<Longrightarrow> decode_loop h i count cur s = Some (count + cur, s)"
  by (subst decode_loop.simps) simp

lemma decode_loop_left: "decode_loop h i count cur s = Some (k, s') \<Longrightarrow> bits_left s' \<le> bits_left s"
proof (induction "length (hf_counts h) - i" arbitrary: i count cur s)
  case 0
  show ?case
  proof (cases "cur \<ge> 0")
    case True
    then show ?thesis using 0 by (auto elim: decode_loop_step)
  qed (use 0 decode_loop_stop in auto)
next
  case (Suc n)
  show ?case
  proof (cases "cur \<ge> 0")
    case True
    then obtain b s1 where s1: "read_bit s = Some (b, s1)"
        "decode_loop h (Suc i) (count + int (hf_counts h ! i)) (2 * cur + of_bool b - int (hf_counts h ! i)) s1 = Some (k, s')"
      using Suc.prems by (rule decode_loop_step)
    have "bits_left s' \<le> bits_left s1" by (rule Suc.hyps(1) [OF _ s1(2)]) (use Suc.hyps(2) in simp)
    then show ?thesis using read_bit_left [OF s1(1)] by simp
  qed (use Suc decode_loop_stop in auto)
qed

lemma decode_left: "decode h s = Some (k, s') \<Longrightarrow> bits_left s' < bits_left s"
proof -
  assume "decode h s = Some (k, s')"
  then obtain n where n: "decode_loop h 1 0 0 s = Some (n, s')"
    by (auto simp: decode_def bind_eq_Some_conv split: if_splits)
  obtain b s1 where s1: "read_bit s = Some (b, s1)"
      "decode_loop h (Suc 1) (0 + int (hf_counts h ! 1)) (2 * 0 + of_bool b - int (hf_counts h ! 1)) s1 = Some (n, s')"
    using decode_loop_step [OF order.refl n] .
  then show ?thesis using read_bit_left [OF s1(1)] decode_loop_left [OF s1(2)] by simp
qed

lemma emit_left [simp]: "emit b s = Some s' \<Longrightarrow> bits_left s' = bits_left s"
  by (auto simp: emit_def write_sym_def bits_left_def split: if_splits)

lemma peeks_left: "peeks n k s = Some s' \<Longrightarrow> bits_left s' = bits_left s"
  by (induction n arbitrary: s)
    (auto simp: bind_eq_Some_conv peek_def write_sym_def bits_left_def Let_def split: if_splits)


function inflate :: "huff \<Rightarrow> huff \<Rightarrow> gz \<Rightarrow> gz option" where
  "inflate huff_len huff_dist s = do {
     (symbol, s) \<leftarrow> decode huff_len s;
     if symbol < 256 then do { s \<leftarrow> emit (of_nat symbol) s; inflate huff_len huff_dist s }
     else if symbol = 256 then Some s
     else if length lens \<le> symbol - 257 then None
     else do {
       (extra, s) \<leftarrow> read_bits (lext ! (symbol - 257)) s;
       (distance, s) \<leftarrow> decode huff_dist s;
       if length dists \<le> distance then None
       else do {
         (dextra, s) \<leftarrow> read_bits (dext ! distance) s;
         s \<leftarrow> peeks (extra + lens ! (symbol - 257)) (dextra + dists ! distance) s;
         inflate huff_len huff_dist s
       }
     }
   }"
  by pat_completeness auto
termination
  by (relation "measure (\<lambda>(l, d, s). bits_left s)")
    (auto dest!: decode_left read_bits_left peeks_left)

declare inflate.simps [simp del]

fun read_code_lengths :: "nat list \<Rightarrow> nat list \<Rightarrow> gz \<Rightarrow> (nat list \<times> gz) option" where
  "read_code_lengths [] lengths s = Some (lengths, s)"
| "read_code_lengths (c # cs) lengths s = do {
     (n, s) \<leftarrow> read_bits 3 s;
     read_code_lengths cs (lengths[c := n]) s
   }"

fun fill_lengths :: "nat \<Rightarrow> nat \<Rightarrow> nat \<Rightarrow> nat list \<Rightarrow> (nat \<times> nat list) option" where
  "fill_lengths 0 rep count lengths = Some (count, lengths)"
| "fill_lengths (Suc n) rep count lengths =
     (if count < length lengths then fill_lengths n rep (Suc count) (lengths[count := rep]) else None)"

text \<open>The repeated value and how often, for a symbol of the code length alphabet; symbol 16 reads before the first length.\<close>

definition repeat_of :: "nat \<Rightarrow> nat \<Rightarrow> nat list \<Rightarrow> gz \<Rightarrow> (nat \<times> nat \<times> gz) option" where
  "repeat_of symbol count lengths s =
     (if symbol = 16 then
        if count = 0 \<or> length lengths < count then None
        else do { (n, s) \<leftarrow> read_bits 2 s; Some (lengths ! (count - 1), n + 3, s) }
      else if symbol = 17 then do { (n, s) \<leftarrow> read_bits 3 s; Some (0, n + 3, s) }
      else if symbol = 18 then do { (n, s) \<leftarrow> read_bits 7 s; Some (0, n + 11, s) }
      else Some (symbol, 1, s))"

lemma repeat_of_left: "repeat_of symbol count lengths s = Some (r, n, s') \<Longrightarrow> bits_left s' \<le> bits_left s"
  by (auto simp: repeat_of_def bind_eq_Some_conv dest: read_bits_left split: if_splits)

function read_lengths :: "huff \<Rightarrow> nat \<Rightarrow> nat \<Rightarrow> nat list \<Rightarrow> gz \<Rightarrow> (nat list \<times> gz) option" where
  "read_lengths codes need count lengths s =
     (if count < need then do {
        (symbol, s) \<leftarrow> decode codes s;
        (rep, n, s) \<leftarrow> repeat_of symbol count lengths s;
        (count, lengths) \<leftarrow> fill_lengths n rep count lengths;
        read_lengths codes need count lengths s
      } else Some (lengths, s))"
  by pat_completeness auto
termination
  by (relation "measure (\<lambda>(c, t, k, l, s). bits_left s)") (auto dest!: decode_left repeat_of_left)

declare read_lengths.simps [simp del]

text \<open>\<open>stack\<close> is what the tables on the stack hold before they are built.\<close>

definition decode_huffman :: "huff \<Rightarrow> gz \<Rightarrow> gz option" where
  "decode_huffman stack s = do {
     (hlit, s) \<leftarrow> read_bits 5 s;
     (hdist, s) \<leftarrow> read_bits 5 s;
     (hclen, s) \<leftarrow> read_bits 4 s;
     let literals = 257 + hlit;
     let distances = 1 + hdist;
     (lengths, s) \<leftarrow> read_code_lengths (take (4 + hclen) clens) (replicate 320 0) s;
     codes \<leftarrow> build_huffman (take 19 lengths) stack;
     (lengths, s) \<leftarrow> read_lengths codes (literals + distances) 0 lengths s;
     huff_len \<leftarrow> build_huffman (take literals lengths) stack;
     huff_dist \<leftarrow> build_huffman (take distances (drop literals lengths)) stack;
     inflate huff_len huff_dist s
   }"

primrec emit_bytes :: "nat \<Rightarrow> gz \<Rightarrow> gz option" where
  "emit_bytes 0 s = Some s"
| "emit_bytes (Suc n) s = do { (b, s) \<leftarrow> read_byte s; s \<leftarrow> emit b s; emit_bytes n s }"

definition uncompressed :: "gz \<Rightarrow> (int \<times> gz) option" where
  "uncompressed s = do {
     let s = s\<lparr>gz_bit_buffer := 0, gz_buffer_size := 0\<rparr>;
     (len, s) \<leftarrow> read_16le s;
     (nlen, s) \<leftarrow> read_16le s;
     if nlen \<noteq> NOT len then Some (1, s)
     else do { s \<leftarrow> emit_bytes (unat len) s; Some (0, s) }
   }"


section \<open>Streams and files\<close>

text \<open>The result of \<open>uncompressed\<close> is not used.\<close>

definition block :: "huff \<Rightarrow> huff \<Rightarrow> huff \<Rightarrow> nat \<Rightarrow> gz \<Rightarrow> gz option" where
  "block fixed_lengths fixed_dists stack ty s =
     (if ty = 0 then map_option snd (uncompressed s)
      else if ty = 1 then inflate fixed_lengths fixed_dists s
      else decode_huffman stack s)"


lemma inflate_left: "inflate hl hdi s = Some s' \<Longrightarrow> bits_left s' \<le> bits_left s"
proof (induction "bits_left s" arbitrary: s rule: less_induct)
  case less
  obtain symbol s1 where s1: "decode hl s = Some (symbol, s1)"
    using less.prems by (subst (asm) inflate.simps) (auto simp: bind_eq_Some_conv)
  note lt = decode_left [OF s1]
  consider (lit) "symbol < 256" | (stop) "symbol = 256" | (copy) "symbol > 256" by linarith
  then show ?case
  proof cases
    case lit
    then obtain s2 where "emit (of_nat symbol) s1 = Some s2" "inflate hl hdi s2 = Some s'"
      using less.prems s1 by (subst (asm) inflate.simps) (auto simp: bind_eq_Some_conv)
    then show ?thesis using less.hyps [of s2] lt by simp
  next
    case stop
    then show ?thesis using less.prems s1 lt by (subst (asm) inflate.simps) simp
  next
    case copy
    then obtain e s2 d s3 f s4 s5 where "read_bits (lext ! (symbol - 257)) s1 = Some (e, s2)" "decode hdi s2 = Some (d, s3)"
        "read_bits (dext ! d) s3 = Some (f, s4)" "peeks (e + lens ! (symbol - 257)) (f + dists ! d) s4 = Some s5" "inflate hl hdi s5 = Some s'"
      using less.prems s1 by (subst (asm) inflate.simps) (auto simp: bind_eq_Some_conv split: if_splits)
    then show ?thesis using less.hyps [of s5] lt read_bits_left [of _ s1] decode_left [of hdi s2] read_bits_left [of _ s3] peeks_left [of _ _ s4]
      by fastforce
  qed
qed

lemma read_code_lengths_left: "read_code_lengths cs ls s = Some (r, s') \<Longrightarrow> bits_left s' \<le> bits_left s"
proof (induction cs arbitrary: ls s)
  case (Cons c cs)
  then obtain n s1 where "read_bits 3 s = Some (n, s1)" "read_code_lengths cs (ls[c := n]) s1 = Some (r, s')"
    by (auto simp: bind_eq_Some_conv)
  then show ?case using Cons.IH [of _ s1] read_bits_left [of 3 s] by fastforce
qed simp

lemma read_lengths_left: "read_lengths h n k ls s = Some (r, s') \<Longrightarrow> bits_left s' \<le> bits_left s"
proof (induction "bits_left s" arbitrary: s k ls rule: less_induct)
  case less
  show ?case
  proof (cases "k < n")
    case True
    then obtain a s1 b c s2 k2 ls2 where "decode h s = Some (a, s1)" "repeat_of a k ls s1 = Some (b, c, s2)"
        "fill_lengths c b k ls = Some (k2, ls2)" "read_lengths h n k2 ls2 s2 = Some (r, s')"
      using less.prems by (subst (asm) read_lengths.simps) (auto simp: bind_eq_Some_conv)
    then show ?thesis using less.hyps [of s2] decode_left [of h s] repeat_of_left [of a k ls s1] by fastforce
  next
    case False
    then show ?thesis using less.prems by (subst (asm) read_lengths.simps) simp
  qed
qed

lemma decode_huffman_left: "decode_huffman stack s = Some s' \<Longrightarrow> bits_left s' \<le> bits_left s"
  unfolding decode_huffman_def Let_def
  by (auto simp: bind_eq_Some_conv dest!: read_bits_left read_code_lengths_left read_lengths_left inflate_left)

lemma read_byte_left: "read_byte s = Some (b, s') \<Longrightarrow> bits_left s' \<le> bits_left s"
  by (auto simp: read_byte_def bits_left_def split: list.splits)

lemma emit_bytes_left: "emit_bytes n s = Some s' \<Longrightarrow> bits_left s' \<le> bits_left s"
proof (induction n arbitrary: s)
  case (Suc n)
  then obtain b s1 s2 where "read_byte s = Some (b, s1)" "emit b s1 = Some s2" "emit_bytes n s2 = Some s'"
    by (auto simp: bind_eq_Some_conv)
  then show ?case using Suc.IH [of s2] read_byte_left [of s] emit_left [of b s1] by fastforce
qed simp

lemma read_16le_left: "read_16le s = Some (n, s') \<Longrightarrow> bits_left s' \<le> bits_left s"
  by (auto simp: read_16le_def bind_eq_Some_conv dest!: read_byte_left)

lemma uncompressed_left: "uncompressed s = Some (r, s') \<Longrightarrow> bits_left s' \<le> bits_left s"
proof -
  let ?s = "s\<lparr>gz_bit_buffer := 0, gz_buffer_size := 0\<rparr>"
  assume "uncompressed s = Some (r, s')"
  then obtain a s1 b s2 where r: "read_16le ?s = Some (a, s1)" "read_16le s1 = Some (b, s2)"
      "(if b \<noteq> NOT a then Some (1, s2) else do { s \<leftarrow> emit_bytes (unat a) s2; Some (0, s) }) = Some (r, s')"
    by (auto simp only: uncompressed_def Let_def bind_eq_Some_conv split_paired_Ex prod.case)
  have "bits_left s' \<le> bits_left s2" using r(3) emit_bytes_left [of "unat a" s2] by (auto simp: bind_eq_Some_conv split: if_splits)
  moreover have "bits_left ?s \<le> bits_left s" by (simp add: bits_left_def)
  ultimately show ?thesis using read_16le_left [OF r(1)] read_16le_left [OF r(2)] by linarith
qed

lemma block_left: "block fl fd stack ty s = Some s' \<Longrightarrow> bits_left s' \<le> bits_left s"
  by (auto simp: block_def split: if_splits dest: uncompressed_left inflate_left decode_huffman_left)

function deflate_loop :: "huff \<Rightarrow> huff \<Rightarrow> huff \<Rightarrow> gz \<Rightarrow> (int \<times> gz) option" where
  "deflate_loop fixed_lengths fixed_dists stack s = do {
     (is_final, s) \<leftarrow> read_bit s;
     (ty, s) \<leftarrow> read_bits 2 s;
     if ty = 3 then Some (1, s)
     else do {
       s \<leftarrow> block fixed_lengths fixed_dists stack ty s;
       if is_final then Some (0, s) else deflate_loop fixed_lengths fixed_dists stack s
     }
   }"
  by pat_completeness auto
termination
  by (relation "measure (\<lambda>(fl, fd, st, s). bits_left s)") (auto dest!: read_bit_left read_bits_left block_left)

declare deflate_loop.simps [simp del]

definition deflate_decompress :: "huff \<Rightarrow> gz \<Rightarrow> (int \<times> gz) option" where
  "deflate_decompress stack s = do {
     let s = s\<lparr>gz_bit_buffer := 0, gz_buffer_size := 0\<rparr>;
     (fixed_lengths, fixed_dists) \<leftarrow> build_fixed;
     deflate_loop fixed_lengths fixed_dists stack s
   }"

definition GZIP_FLAG_TEXT :: u32 where "GZIP_FLAG_TEXT = 1"
definition GZIP_FLAG_HCRC :: u32 where "GZIP_FLAG_HCRC = 2"
definition GZIP_FLAG_EXTR :: u32 where "GZIP_FLAG_EXTR = 4"
definition GZIP_FLAG_NAME :: u32 where "GZIP_FLAG_NAME = 8"
definition GZIP_FLAG_COMM :: u32 where "GZIP_FLAG_COMM = 16"

definition read_32le :: "gz \<Rightarrow> (u32 \<times> gz) option" where
  "read_32le s = do {
     (a, s) \<leftarrow> read_byte s;
     (b, s) \<leftarrow> read_byte s;
     (c, s) \<leftarrow> read_byte s;
     (d, s) \<leftarrow> read_byte s;
     Some (push_bit 24 (ucast d) OR push_bit 16 (ucast c) OR push_bit 8 (ucast b) OR ucast a, s)
   }"

primrec skip_bytes :: "nat \<Rightarrow> gz \<Rightarrow> gz option" where
  "skip_bytes 0 s = Some s"
| "skip_bytes (Suc n) s = do { (b, s) \<leftarrow> read_byte s; skip_bytes n s }"

function skip_string :: "gz \<Rightarrow> gz option" where
  "skip_string s = do { (c, s) \<leftarrow> read_byte s; if c \<noteq> 0 then skip_string s else Some s }"
  by pat_completeness auto
termination by (relation "measure (\<lambda>s. length (gz_input s))") (auto simp: read_byte_def split: list.splits)

declare skip_string.simps [simp del]

definition skip_header :: "u32 \<Rightarrow> gz \<Rightarrow> gz option" where
  "skip_header flags s = do {
     s \<leftarrow> (if flags AND GZIP_FLAG_EXTR \<noteq> 0 then do { (n, s) \<leftarrow> read_16le s; skip_bytes (unat n) s } else Some s);
     s \<leftarrow> (if flags AND GZIP_FLAG_NAME \<noteq> 0 then skip_string s else Some s);
     s \<leftarrow> (if flags AND GZIP_FLAG_COMM \<noteq> 0 then skip_string s else Some s);
     if flags AND GZIP_FLAG_HCRC \<noteq> 0 then map_option snd (read_16le s) else Some s
   }"

definition gzip_decompress :: "huff \<Rightarrow> gz \<Rightarrow> (int \<times> gz) option" where
  "gzip_decompress stack s = do {
     (m, s) \<leftarrow> read_byte s;
     if m \<noteq> 0x1F then Some (1, s) else do {
     (m, s) \<leftarrow> read_byte s;
     if m \<noteq> 0x8B then Some (1, s) else do {
     (cm, s) \<leftarrow> read_byte s;
     if cm \<noteq> 8 then Some (1, s) else do {
       (flags, s) \<leftarrow> read_byte s;
       (mtime, s) \<leftarrow> read_32le s;
       (xflags, s) \<leftarrow> read_byte s;
       (os, s) \<leftarrow> read_byte s;
       s \<leftarrow> skip_header (ucast flags) s;
       (status, s) \<leftarrow> deflate_decompress stack s;
       (crc32, s) \<leftarrow> read_32le s;
       (dsize, s) \<leftarrow> read_32le s;
       Some (status, s)
     }}}
   }"


section \<open>The bits that are left\<close>

definition bits_of_byte :: "u8 \<Rightarrow> bool list" where
  "bits_of_byte b = map (bit b) [0..<8]"

definition bits_of :: "bytes \<Rightarrow> bool list" where
  "bits_of bs = concat (map bits_of_byte bs)"

text \<open>The low \<open>n\<close> bits of a number, lowest first.\<close>

definition num_bits :: "nat \<Rightarrow> nat \<Rightarrow> bool list" where
  "num_bits n v = map (bit v) [0..<n]"

definition stream :: "gz \<Rightarrow> bool list" where
  "stream s = map (bit (gz_bit_buffer s)) [0..<gz_buffer_size s] @ bits_of (gz_input s)"

text \<open>The window holds the last bytes of the output.\<close>

definition window :: "gz \<Rightarrow> bool" where
  "window s \<longleftrightarrow> gz_pointer s < 0x8000 \<and>
     (\<forall>k. 1 \<le> k \<longrightarrow> k \<le> 32768 \<longrightarrow> k \<le> length (gz_output s) \<longrightarrow>
        gz_data s ((unat (gz_pointer s) + 32768 - k) mod 32768) = gz_output s ! (length (gz_output s) - k))"

definition gzst :: "gz \<Rightarrow> bool list \<Rightarrow> bytes \<Rightarrow> bool" where
  "gzst s bs out \<longleftrightarrow> gz_buffer_size s < 8 \<and> stream s = bs \<and> gz_output s = out \<and> window s"

lemma length_bits [simp]: "length (bits_of_byte b) = 8" "length (bits_of bs) = 8 * length bs" "length (num_bits n v) = n"
proof -
  show "length (bits_of bs) = 8 * length bs" by (induction bs) (auto simp: bits_of_def bits_of_byte_def)
qed (auto simp: bits_of_byte_def num_bits_def)

lemma bits_of_simps [simp]: "bits_of [] = []" "bits_of (b # bs) = bits_of_byte b @ bits_of bs" "bits_of (xs @ ys) = bits_of xs @ bits_of ys"
  by (auto simp: bits_of_def)

lemma bits_of_byte_inj: "bits_of_byte a = bits_of_byte b \<longleftrightarrow> a = b"
proof
  assume "bits_of_byte a = bits_of_byte b"
  then have "bit a n = bit b n" if "n < 8" for n using that by (simp add: bits_of_byte_def)
  then show "a = b" by (intro bit_word_eqI) simp
qed simp

lemma bits_of_inj: "bits_of xs = bits_of ys \<longleftrightarrow> xs = ys"
proof
  show "bits_of xs = bits_of ys \<Longrightarrow> xs = ys"
  proof (induction xs arbitrary: ys)
    case Nil
    then have "length (bits_of ys) = 0" by simp
    then show ?case by simp
  next
    case (Cons x xs)
    then have "length (bits_of ys) > 0" by (metis length_bits(2) length_Cons zero_less_Suc nat_0_less_mult_iff zero_less_numeral)
    then obtain y zs where ys: "ys = y # zs" by (cases ys) auto
    have "bits_of_byte x @ bits_of xs = bits_of_byte y @ bits_of zs" using Cons.prems ys by simp
    then have "bits_of_byte x = bits_of_byte y" "bits_of xs = bits_of zs" by (simp_all add: append_eq_append_conv)
    then show ?case using Cons.IH ys by (simp add: bits_of_byte_inj)
  qed
qed simp

text \<open>The number of buffered bits is what the stream has beyond whole bytes.\<close>

lemma gzst_buffered: "gzst s bs out \<Longrightarrow> gz_buffer_size s = length bs mod 8"
  by (auto simp: gzst_def stream_def)

lemma gzst_input:
  assumes "gzst s (xs @ bits_of bs) out" and "length xs < 8"
  shows "gz_input s = bs"
proof -
  have "gz_buffer_size s = length xs" using gzst_buffered [OF assms(1)] assms(2) by simp
  moreover have "stream s = xs @ bits_of bs" using assms(1) by (simp add: gzst_def)
  ultimately have "bits_of (gz_input s) = bits_of bs" by (simp add: stream_def append_eq_append_conv)
  then show ?thesis by (simp add: bits_of_inj)
qed

lemma bit_and_1: "(x AND 1 = 1) = bit x 0" for x :: u8
  by (simp add: and_one_eq bit_0 mod_2_eq_odd)

lemma read_bit_buffered:
  assumes "0 < gz_buffer_size s"
  shows "read_bit s = Some (bit (gz_bit_buffer s) 0, s\<lparr>gz_bit_buffer := drop_bit 1 (gz_bit_buffer s), gz_buffer_size := gz_buffer_size s - 1\<rparr>)"
  using assms by (simp add: read_bit_def bit_and_1)

lemma stream_shift:
  assumes "0 < gz_buffer_size s"
  shows "stream s = bit (gz_bit_buffer s) 0 #
    stream (s\<lparr>gz_bit_buffer := drop_bit 1 (gz_bit_buffer s), gz_buffer_size := gz_buffer_size s - 1\<rparr>)"
proof -
  obtain n where n: "gz_buffer_size s = Suc n" using assms by (cases "gz_buffer_size s") auto
  have "[0..<Suc n] = 0 # map Suc [0..<n]" by (simp add: map_Suc_upt upt_conv_Cons)
  then show ?thesis unfolding stream_def n by (simp add: bit_drop_bit_eq o_def)
qed

lemma read_bit_spec:
  assumes s: "gzst s (b # bs) out"
  obtains s' where "read_bit s = Some (b, s')" and "gzst s' bs out"
proof -
  obtain s0 where s0: "read_bit s = read_bit s0" "0 < gz_buffer_size s0" "gz_buffer_size s0 \<le> 8" "stream s0 = b # bs"
      "gz_output s0 = gz_output s" "gz_pointer s0 = gz_pointer s" "gz_data s0 = gz_data s"
  proof (cases "gz_buffer_size s = 0")
    case True
    then have bs: "bits_of (gz_input s) = b # bs" using s by (simp add: gzst_def stream_def)
    then obtain x xs where x: "gz_input s = x # xs" by (cases "gz_input s") auto
    let ?s = "s\<lparr>gz_input := xs, gz_bit_buffer := x, gz_buffer_size := 8\<rparr>"
    have "stream ?s = b # bs" using bs x by (simp add: stream_def bits_of_byte_def)
    moreover have "read_bit s = read_bit ?s" using True x by (simp add: read_bit_def read_byte_def)
    ultimately show thesis using that [of ?s] by simp
  next
    case False
    then show thesis using that [of s] s by (simp add: gzst_def)
  qed
  let ?s' = "s0\<lparr>gz_bit_buffer := drop_bit 1 (gz_bit_buffer s0), gz_buffer_size := gz_buffer_size s0 - 1\<rparr>"
  have e: "b = bit (gz_bit_buffer s0) 0" "stream ?s' = bs" using stream_shift [OF s0(2)] s0(4) by simp_all
  have "window ?s'" using s s0(5-7) by (simp add: gzst_def window_def)
  then have "gzst ?s' bs out" using e(2) s s0(2,3,5) by (simp add: gzst_def)
  then show thesis using that read_bit_buffered [OF s0(2)] s0(1) e(1) by simp
qed

lemma horner_word: "(horner_sum of_bool 2 xs :: u32) = of_nat (horner_sum of_bool 2 xs)"
  by (induction xs) simp_all

lemma unat_horner: "length xs \<le> 32 \<Longrightarrow> unat (horner_sum of_bool 2 xs :: u32) = horner_sum of_bool 2 xs"
proof -
  assume "length xs \<le> 32"
  have "(horner_sum of_bool 2 xs :: nat) < 2 ^ length xs" by (rule horner_sum_of_bool_2_less)
  also have "\<dots> \<le> 2 ^ 32" using \<open>length xs \<le> 32\<close> by (intro power_increasing) simp_all
  finally show ?thesis unfolding horner_word by (simp add: unat_of_nat take_bit_nat_eq_self)
qed

lemma horner_or: "out OR push_bit i (horner_sum of_bool 2 (b # xs)) = (out OR push_bit i (of_bool b)) OR push_bit (Suc i) (horner_sum of_bool 2 xs)"
  for out :: u32
proof -
  have "(of_bool b :: u32) + 2 * h = of_bool b OR push_bit 1 h" for h :: u32
  proof -
    have "of_bool b + push_bit 1 h = of_bool b OR push_bit 1 h"
      by (rule disjunctive_add) (auto simp: bit_push_bit_iff bit_of_bool_iff bit_0)
    then show ?thesis by (simp add: push_bit_eq_mult mult.commute)
  qed
  then have "horner_sum of_bool 2 (b # xs) = (of_bool b :: u32) OR push_bit 1 (horner_sum of_bool 2 xs)" by simp
  then show ?thesis by (simp add: push_bit_or or.assoc push_bit_push_bit)
qed

lemma read_bits_from_spec:
  "gzst s (xs @ bs) out \<Longrightarrow>
   \<exists>s'. read_bits_from (length xs) i acc s = Some (acc OR push_bit i (horner_sum of_bool 2 xs), s') \<and> gzst s' bs out"
proof (induction xs arbitrary: s i acc)
  case (Cons b xs)
  have st: "gzst s (b # (xs @ bs)) out" using Cons.prems by simp
  obtain s1 where s1: "read_bit s = Some (b, s1)" "gzst s1 (xs @ bs) out"
    by (rule read_bit_spec [OF st])
  show ?case using Cons.IH [OF s1(2), of "Suc i" "acc OR push_bit i (of_bool b)"] s1(1) unfolding horner_or by simp
qed simp

lemma read_bits_spec:
  assumes "gzst s (num_bits n v @ bs) out" and "v < 2 ^ n" and "n \<le> 32"
  obtains s' where "read_bits n s = Some (v, s')" and "gzst s' bs out"
proof -
  obtain s' where s': "read_bits_from n 0 0 s = Some (0 OR push_bit 0 (horner_sum of_bool 2 (num_bits n v)), s')" "gzst s' bs out"
    using read_bits_from_spec [OF assms(1), of 0 0] by auto
  have "horner_sum of_bool 2 (num_bits n v) = v"
    using assms(2) by (simp add: num_bits_def horner_sum_bit_eq_take_bit take_bit_nat_eq_self)
  then have "unat (0 OR push_bit 0 (horner_sum of_bool 2 (num_bits n v)) :: u32) = v" using unat_horner [of "num_bits n v"] assms(3) by simp
  then show thesis using that s' by (simp add: read_bits_def)
qed


section \<open>Canonical codes\<close>

text \<open>
  The code words of RFC 1951, section 3.2.2: symbols with equal lengths get consecutive codes, in their order, and the
  first code of a length follows from the shorter ones.  Code words are sent with the highest bit first.
\<close>

definition bl_count :: "nat list \<Rightarrow> nat \<Rightarrow> nat" where
  "bl_count ls l = (if l = 0 then 0 else count_list ls l)"

primrec first_code :: "nat list \<Rightarrow> nat \<Rightarrow> nat" where
  "first_code ls 0 = 0"
| "first_code ls (Suc l) = 2 * (first_code ls l + bl_count ls l)"

definition rank :: "nat list \<Rightarrow> nat \<Rightarrow> nat" where
  "rank ls sy = count_list (take sy ls) (ls ! sy)"

definition huff_code :: "nat list \<Rightarrow> nat \<Rightarrow> nat" where
  "huff_code ls sy = first_code ls (ls ! sy) + rank ls sy"

definition code_bits :: "nat list \<Rightarrow> nat \<Rightarrow> bool list" where
  "code_bits ls sy = rev (num_bits (ls ! sy) (huff_code ls sy))"

definition huff_ok :: "nat list \<Rightarrow> bool" where
  "huff_ok ls \<longleftrightarrow> length ls \<le> 288 \<and> (\<forall>l \<in> set ls. l < 16) \<and> (\<forall>l < 16. first_code ls l + bl_count ls l \<le> 2 ^ l)"

definition coded :: "nat list \<Rightarrow> nat \<Rightarrow> bool" where
  "coded ls sy \<longleftrightarrow> sy < length ls \<and> ls ! sy \<noteq> 0"

text \<open>Where the symbols of a length start, and what a built table holds.\<close>

definition start :: "nat list \<Rightarrow> nat \<Rightarrow> nat" where
  "start ls l = sum (bl_count ls) {..<l}"

definition table_for :: "nat list \<Rightarrow> huff \<Rightarrow> bool" where
  "table_for ls h \<longleftrightarrow> length (hf_counts h) = 16 \<and> (\<forall>l < 16. hf_counts h ! l = bl_count ls l) \<and>
     (\<forall>sy. coded ls sy \<longrightarrow> start ls (ls ! sy) + rank ls sy < length (hf_symbols h) \<and>
        hf_symbols h ! (start ls (ls ! sy) + rank ls sy) = sy)"

lemma rank_less: "coded ls sy \<Longrightarrow> rank ls sy < bl_count ls (ls ! sy)"
proof -
  assume c: "coded ls sy"
  then have "ls = take sy ls @ ls ! sy # drop (Suc sy) ls" by (simp add: coded_def id_take_nth_drop)
  then have "count_list ls (ls ! sy) = count_list (take sy ls) (ls ! sy) + Suc (count_list (drop (Suc sy) ls) (ls ! sy))"
    by (metis count_list.simps(2) count_list_append add_Suc_right Suc_eq_plus1)
  then show ?thesis using c by (simp add: rank_def bl_count_def coded_def)
qed

lemma start_mono: "l \<le> l' \<Longrightarrow> start ls l \<le> start ls l'"
  unfolding start_def by (rule sum_mono2) auto

lemma start_Suc: "start ls (Suc l) = start ls l + bl_count ls l"
  by (simp add: start_def)

lemma start_total: "start ls 16 \<le> length ls"
proof -
  have "start ls 16 = sum (bl_count ls) {l. l < 16}" by (simp add: start_def lessThan_def)
  also have "\<dots> \<le> sum (count_list ls) {l. l < 16}" by (rule sum_mono) (simp add: bl_count_def)
  also have "\<dots> \<le> length ls"
  proof (induction ls)
    case (Cons a ls)
    have "sum (count_list (a # ls)) {l. l < 16} = sum (count_list ls) {l. l < 16} + sum (\<lambda>l. of_bool (a = l)) {l. l < 16}"
      by (subst sum.distrib [symmetric], rule sum.cong) auto
    also have "sum (\<lambda>l. of_bool (a = l)) {l::nat. l < 16} \<le> (1::nat)" by (simp add: of_bool_def)
    finally show ?case using Cons.IH by simp
  qed simp
  finally show ?thesis .
qed

lemma slot_less:
  assumes "coded ls sy" and "ls ! sy < 16"
  shows "start ls (ls ! sy) + rank ls sy < start ls 16"
proof -
  have "start ls (ls ! sy) + rank ls sy < start ls (Suc (ls ! sy))" using rank_less [OF assms(1)] by (simp add: start_Suc)
  also have "\<dots> \<le> start ls 16" using assms(2) by (intro start_mono) simp
  finally show ?thesis .
qed

lemma slot_inj:
  assumes "coded ls a" "coded ls b" and eq: "start ls (ls ! a) + rank ls a = start ls (ls ! b) + rank ls b"
  shows "ls ! a = ls ! b \<and> rank ls a = rank ls b"
proof -
  have "\<not> ls ! a < ls ! b" if "coded ls a" "start ls (ls ! a) + rank ls a = start ls (ls ! b) + rank ls b" for a b
    using rank_less [OF that(1)] that(2) start_mono [of "Suc (ls ! a)" "ls ! b" ls] by (auto simp: start_Suc)
  then have "ls ! a = ls ! b" using assms by (metis nat_neq_iff)
  then show ?thesis using eq by simp
qed

lemma count_symbols_spec:
  "(\<forall>l \<in> set ls. l < length counts) \<Longrightarrow>
   \<exists>c. count_symbols ls counts = Some c \<and> length c = length counts \<and> (\<forall>l < length counts. c ! l = counts ! l + count_list ls l)"
proof (induction ls arbitrary: counts)
  case (Cons l ls)
  have "\<exists>c. count_symbols ls (counts[l := counts ! l + 1]) = Some c \<and> length c = length counts \<and>
      (\<forall>k < length counts. c ! k = counts[l := counts ! l + 1] ! k + count_list ls k)"
    using Cons.IH [of "counts[l := counts ! l + 1]"] Cons.prems by simp
  then show ?case using Cons.prems by (auto simp: nth_list_update)
qed simp

lemma find_offsets_spec:
  "length (find_offsets cs n) = length cs \<and> (\<forall>l < length cs. find_offsets cs n ! l = n + sum ((!) cs) {..<l})"
proof (induction cs arbitrary: n)
  case (Cons c cs)
  have "sum ((!) (c # cs)) {..<Suc l} = c + sum ((!) cs) {..<l}" for l
    by (simp add: sum.lessThan_Suc_shift del: sum.lessThan_Suc)
  then show ?case using Cons.IH [of "n + c"] by (auto simp: nth_Cons split: nat.splits)
qed simp

lemma order_symbols_spec:
  assumes "huff_ok ls" and "ls = pre @ rest" and "length offsets = 16"
    and "\<forall>l < 16. l \<noteq> 0 \<longrightarrow> offsets ! l = start ls l + count_list pre l"
    and "\<forall>sy < length pre. ls ! sy \<noteq> 0 \<longrightarrow> symbols ! (start ls (ls ! sy) + rank ls sy) = sy"
    and "288 \<le> length symbols"
  shows "\<exists>r. order_symbols (length pre) rest offsets symbols = Some r \<and> length r = length symbols \<and>
    (\<forall>sy < length ls. ls ! sy \<noteq> 0 \<longrightarrow> r ! (start ls (ls ! sy) + rank ls sy) = sy)"
  using assms
proof (induction rest arbitrary: pre offsets symbols)
  case (Cons l rest)
  let ?n = "length pre"
  have at: "ls ! ?n = l" "?n < length ls" "take ?n ls = pre" "ls = (pre @ [l]) @ rest" using Cons.prems(2) by auto
  have l16: "l < 16" using Cons.prems(1,2) by (simp add: huff_ok_def)
  show ?case
  proof (cases "l = 0")
    case True
    have "\<forall>sy < length (pre @ [l]). ls ! sy \<noteq> 0 \<longrightarrow> symbols ! (start ls (ls ! sy) + rank ls sy) = sy"
      using Cons.prems(5) at(1) True by (auto simp: less_Suc_eq)
    then show ?thesis using Cons.IH [OF Cons.prems(1) at(4) Cons.prems(3)] Cons.prems(4,6) True by auto
  next
    case False
    then have cd: "coded ls ?n" using at by (simp add: coded_def)
    have rk: "rank ls ?n = count_list pre l" using at by (simp add: rank_def)
    have o: "offsets ! l = start ls l + rank ls ?n" using Cons.prems(4) l16 False rk by simp
    have fits: "offsets ! l < length symbols"
      using slot_less [OF cd] at(1) l16 start_total [of ls] o Cons.prems(1,6) by (simp add: huff_ok_def)
    have slots: "\<forall>sy < length (pre @ [l]). ls ! sy \<noteq> 0 \<longrightarrow>
        symbols[offsets ! l := ?n] ! (start ls (ls ! sy) + rank ls sy) = sy"
    proof (intro allI impI)
      fix sy assume s: "sy < length (pre @ [l])" "ls ! sy \<noteq> 0"
      show "symbols[offsets ! l := ?n] ! (start ls (ls ! sy) + rank ls sy) = sy"
      proof (cases "sy = ?n")
        case True
        then show ?thesis using o fits at(1) by simp
      next
        case new: False
        then have lt: "sy < ?n" using s by simp
        then have cs: "coded ls sy" using s(2) at(2) by (simp add: coded_def)
        have "start ls (ls ! sy) + rank ls sy \<noteq> offsets ! l"
        proof
          assume "start ls (ls ! sy) + rank ls sy = offsets ! l"
          then have "ls ! sy = ls ! ?n" "rank ls sy = rank ls ?n" using slot_inj [OF cs cd] o at(1) by auto
          moreover have "rank ls sy < count_list pre (ls ! sy)"
          proof -
            have e: "pre = take sy ls @ ls ! sy # drop (Suc sy) pre"
              using lt at(3) by (metis id_take_nth_drop nth_take take_take min.absorb1 less_imp_le)
            show ?thesis by (subst e) (simp add: rank_def)
          qed
          ultimately show False using rk at(1) by simp
        qed
        then show ?thesis using Cons.prems(5) lt s(2) by simp
      qed
    qed
    have offs: "\<forall>k < 16. k \<noteq> 0 \<longrightarrow> offsets[l := offsets ! l + 1] ! k = start ls k + count_list (pre @ [l]) k"
      using Cons.prems(3,4) l16 by (auto simp: nth_list_update)
    have "\<exists>r. order_symbols (length (pre @ [l])) rest (offsets[l := offsets ! l + 1]) (symbols[offsets ! l := ?n]) = Some r \<and>
        length r = length (symbols[offsets ! l := ?n]) \<and>
        (\<forall>sy < length ls. ls ! sy \<noteq> 0 \<longrightarrow> r ! (start ls (ls ! sy) + rank ls sy) = sy)"
      using Cons.prems(3,6) by (intro Cons.IH [OF Cons.prems(1) at(4) _ offs slots]) simp_all
    then show ?thesis using False fits l16 Cons.prems(3) by simp
  qed
qed auto


lemma build_huffman_spec:
  assumes ok: "huff_ok ls" and out: "length (hf_symbols out) = 288"
  obtains h where "build_huffman ls out = Some h" and "table_for ls h" and "length (hf_symbols h) = 288"
proof -
  have lt: "\<forall>l \<in> set ls. l < 16" using ok by (simp add: huff_ok_def)
  obtain c where c: "count_symbols ls (replicate 16 0) = Some c" "length c = 16" "\<forall>l < 16. c ! l = count_list ls l"
    using count_symbols_spec [of ls "replicate 16 0"] lt by auto
  let ?c = "c[0 := 0]"
  have cnt: "length ?c = 16" "\<And>l. l < 16 \<Longrightarrow> ?c ! l = bl_count ls l" using c by (auto simp: bl_count_def nth_list_update)
  have "sum ((!) ?c) {..<l} = start ls l" if "l < 16" for l
    unfolding start_def by (rule sum.cong) (use that cnt in auto)
  then have offs: "length (find_offsets ?c 0) = 16" "\<And>l. l < 16 \<Longrightarrow> find_offsets ?c 0 ! l = start ls l"
    using find_offsets_spec [of ?c 0] cnt by auto
  obtain r where r: "order_symbols 0 ls (find_offsets ?c 0) (hf_symbols out) = Some r" "length r = 288"
      "\<forall>sy < length ls. ls ! sy \<noteq> 0 \<longrightarrow> r ! (start ls (ls ! sy) + rank ls sy) = sy"
    using order_symbols_spec [OF ok, of "[]" ls "find_offsets ?c 0" "hf_symbols out"] offs out by auto
  have "start ls (ls ! sy) + rank ls sy < 288" if cd: "coded ls sy" for sy
  proof -
    have "ls ! sy < 16" using cd lt by (simp add: coded_def)
    then show ?thesis using slot_less [OF cd] start_total [of ls] ok by (simp add: huff_ok_def)
  qed
  then have "table_for ls \<lparr>hf_counts = ?c, hf_symbols = r\<rparr>" using cnt r(2,3) by (auto simp: table_for_def coded_def)
  moreover have "build_huffman ls out = Some \<lparr>hf_counts = ?c, hf_symbols = r\<rparr>" using c(1) r(1) by (simp add: build_huffman_def)
  ultimately show thesis using that r(2) by simp
qed

lemma first_code_below:
  "i < l \<Longrightarrow> 2 ^ (l - i) * (first_code ls i + bl_count ls i) \<le> first_code ls l"
proof (induction l)
  case (Suc l)
  show ?case
  proof (cases "i = l")
    case False
    then have "2 ^ (l - i) * (first_code ls i + bl_count ls i) \<le> first_code ls l" using Suc by simp
    moreover have "Suc l - i = Suc (l - i)" using Suc.prems by simp
    ultimately show ?thesis by simp
  qed simp
qed simp

text \<open>The loop of \<open>decode\<close> after \<open>i\<close> bits of a code word.\<close>

lemma code_bits_at: "i < ls ! sy \<Longrightarrow> drop i (code_bits ls sy) = bit (huff_code ls sy) (ls ! sy - Suc i) # drop (Suc i) (code_bits ls sy)"
  by (subst Cons_nth_drop_Suc [symmetric]) (auto simp: code_bits_def num_bits_def rev_nth)

lemma drop_bit_step: "drop_bit k n = 2 * drop_bit (Suc k) n + of_bool (bit n k)" for n :: nat
proof -
  have x: "x = 2 * (x div 2) + of_bool (odd x)" for x :: nat by (cases "odd x") auto
  have "drop_bit (Suc k) n = drop_bit k n div 2" by (simp add: drop_bit_Suc drop_bit_half)
  then show ?thesis using x [of "drop_bit k n"] by (simp only: bit_iff_odd_drop_bit)
qed

lemma decode_loop_read:
  assumes "0 \<le> cur" and "read_bit s = Some (b, s1)" and "i < length (hf_counts h)"
  shows "decode_loop h i count cur s =
    decode_loop h (Suc i) (count + int (hf_counts h ! i)) (2 * cur + of_bool b - int (hf_counts h ! i)) s1"
  using assms by (subst decode_loop.simps) simp

lemma decode_loop_spec:
  assumes t: "table_for ls h" and ok: "huff_ok ls" and c: "coded ls sy"
  shows "i < ls ! sy \<Longrightarrow> gzst s (drop i (code_bits ls sy) @ bs) out \<Longrightarrow>
    \<exists>s'. decode_loop h (Suc i) (int (start ls (Suc i)))
      (int (drop_bit (ls ! sy - i) (huff_code ls sy)) - int (first_code ls i + bl_count ls i)) s =
      Some (int (start ls (ls ! sy) + rank ls sy), s') \<and> gzst s' bs out"
proof (induction "ls ! sy - i" arbitrary: i s)
  case (Suc d)
  let ?L = "ls ! sy" and ?c = "huff_code ls sy"
  have l16: "?L < 16" using ok c by (simp add: huff_ok_def coded_def)
  have st: "gzst s (bit ?c (?L - Suc i) # (drop (Suc i) (code_bits ls sy) @ bs)) out"
    using Suc.prems code_bits_at [OF Suc.prems(1)] by simp
  obtain s1 where s1: "read_bit s = Some (bit ?c (?L - Suc i), s1)" "gzst s1 (drop (Suc i) (code_bits ls sy) @ bs) out"
    by (rule read_bit_spec [OF st])
  have ge: "first_code ls i + bl_count ls i \<le> drop_bit (?L - i) ?c"
  proof -
    have "2 ^ (?L - i) * (first_code ls i + bl_count ls i) \<le> ?c"
      using first_code_below [OF Suc.prems(1), of ls] by (simp add: huff_code_def)
    then show ?thesis by (simp add: drop_bit_eq_div less_eq_div_iff_mult_less_eq mult.commute)
  qed
  have bits: "drop_bit (?L - Suc i) ?c = 2 * drop_bit (?L - i) ?c + of_bool (bit ?c (?L - Suc i))"
    using drop_bit_step [of "?L - Suc i" ?c] Suc.prems(1) by (simp add: Suc_diff_Suc)
  have cnt: "Suc i < length (hf_counts h)" "hf_counts h ! Suc i = bl_count ls (Suc i)"
    using t l16 Suc.prems(1) by (auto simp: table_for_def)
  let ?cur = "int (drop_bit (?L - Suc i) ?c) - int (first_code ls (Suc i) + bl_count ls (Suc i))"
  have step: "decode_loop h (Suc i) (int (start ls (Suc i))) (int (drop_bit (?L - i) ?c) - int (first_code ls i + bl_count ls i)) s =
      decode_loop h (Suc (Suc i)) (int (start ls (Suc (Suc i)))) ?cur s1"
  proof -
    have "2 * (int (drop_bit (?L - i) ?c) - int (first_code ls i + bl_count ls i)) + of_bool (bit ?c (?L - Suc i)) - int (bl_count ls (Suc i)) = ?cur"
      using bits by simp
    moreover have "0 \<le> int (drop_bit (?L - i) ?c) - int (first_code ls i + bl_count ls i)" using ge by simp
    ultimately show ?thesis using decode_loop_read [OF _ s1(1) cnt(1)] cnt(2) by (simp only: start_Suc [of _ "Suc i"] of_nat_add)
  qed
  show ?case
  proof (cases "Suc i = ?L")
    case True
    have "?cur = int (rank ls sy) - int (bl_count ls ?L)" using True by (simp add: huff_code_def)
    then have "?cur < 0" and "int (start ls (Suc (Suc i))) + ?cur = int (start ls ?L + rank ls sy)"
      using rank_less [OF c] True by (simp_all add: start_Suc)
    then have "decode_loop h (Suc (Suc i)) (int (start ls (Suc (Suc i)))) ?cur s1 = Some (int (start ls ?L + rank ls sy), s1)"
      using decode_loop_stop [of ?cur h "Suc (Suc i)" "int (start ls (Suc (Suc i)))" s1] by simp
    moreover have "gzst s1 bs out" using s1(2) True by (simp add: code_bits_def)
    ultimately show ?thesis using step by simp
  next
    case False
    then have "d = ?L - Suc i" "Suc i < ?L" using Suc.hyps(2) Suc.prems(1) by simp_all
    from Suc.hyps(1) [OF this s1(2)] show ?thesis unfolding step .
  qed
qed simp

lemma decode_spec:
  assumes t: "table_for ls h" and ok: "huff_ok ls" and c: "coded ls sy" and s: "gzst s (code_bits ls sy @ bs) out"
  obtains s' where "decode h s = Some (sy, s')" and "gzst s' bs out"
proof -
  have pos: "0 < ls ! sy" and l16: "ls ! sy < 16" using c ok by (auto simp: coded_def huff_ok_def)
  have "huff_code ls sy < first_code ls (ls ! sy) + bl_count ls (ls ! sy)" using rank_less [OF c] by (simp add: huff_code_def)
  also have "\<dots> \<le> 2 ^ (ls ! sy)" using ok l16 by (simp add: huff_ok_def)
  finally have "drop_bit (ls ! sy) (huff_code ls sy) = 0" by (simp add: drop_bit_eq_div)
  then obtain s' where "decode_loop h 1 0 0 s = Some (int (start ls (ls ! sy) + rank ls sy), s')" "gzst s' bs out"
    using decode_loop_spec [OF t ok c pos, of s bs out] s by (auto simp: start_def bl_count_def)
  moreover have "start ls (ls ! sy) + rank ls sy < length (hf_symbols h)" "hf_symbols h ! (start ls (ls ! sy) + rank ls sy) = sy"
    using t c by (auto simp: table_for_def)
  ultimately show thesis using that [of s'] by (simp add: decode_def nat_add_distrib flip: of_nat_add)
qed

end
