(* ===== verification/Gzip_Stream.thy ===== *)
theory Gzip_Stream
  imports Gzip
begin

text \<open>
  What a gzip file stands for, and that \<open>kernel/misc/gzip.c\<close> decompresses it: matches against the window, the
  literals and matches of compressed data, the three kinds of blocks, streams of blocks and the file around
  them.  The encodings follow RFC 1951 and RFC 1952 and are functions, so that a file can be computed.
\<close>

section \<open>The window\<close>

lemma and_7FFF: "unat (x AND 0x7FFF) = unat x mod 32768" for x :: u64
proof -
  have "x AND 0x7FFF = take_bit 15 x" by (simp add: take_bit_eq_mask mask_eq_exp_minus_1)
  then show ?thesis by (simp add: take_bit_eq_mod unat_mod_distrib)
qed

text \<open>A byte goes to the output and into the window.\<close>

definition shown :: "u8 \<Rightarrow> gz \<Rightarrow> gz" where
  "shown byte s = write_sym byte (s\<lparr>gz_data := (gz_data s)(unat (gz_pointer s) := byte), gz_pointer := (gz_pointer s + 1) AND 0x7FFF\<rparr>)"

lemma ring_back:
  fixes p k :: nat
  assumes "p < 32768" and "1 \<le> k" and "k \<le> 32768"
  shows "k = 1 \<Longrightarrow> ((p + 1) mod 32768 + 32768 - k) mod 32768 = p"
    and "1 < k \<Longrightarrow> ((p + 1) mod 32768 + 32768 - k) mod 32768 = (p + 32768 - (k - 1)) mod 32768"
    and "1 < k \<Longrightarrow> (p + 32768 - (k - 1)) mod 32768 \<noteq> p"
proof -
  have "(p + 1) mod 32768 = (if p = 32767 then 0 else p + 1)" using assms(1) by auto
  then show "k = 1 \<Longrightarrow> ((p + 1) mod 32768 + 32768 - k) mod 32768 = p"
    and "1 < k \<Longrightarrow> ((p + 1) mod 32768 + 32768 - k) mod 32768 = (p + 32768 - (k - 1)) mod 32768"
    using assms by (auto simp: mod_if)
  show "1 < k \<Longrightarrow> (p + 32768 - (k - 1)) mod 32768 \<noteq> p" using assms by (auto simp: mod_if)
qed

lemma shown_spec:
  assumes "gzst s bs out"
  shows "gzst (shown byte s) bs (out @ [byte])"
proof -
  let ?s = "shown byte s" and ?p = "unat (gz_pointer s)"
  have w: "gz_pointer s < 0x8000" and bk: "\<And>k. 1 \<le> k \<Longrightarrow> k \<le> 32768 \<Longrightarrow> k \<le> length out \<Longrightarrow>
      gz_data s ((?p + 32768 - k) mod 32768) = out ! (length out - k)"
    using assms by (auto simp: gzst_def window_def)
  have p: "?p < 32768" using w by (simp add: word_less_nat_alt)
  have ptr: "unat (gz_pointer ?s) = (?p + 1) mod 32768"
    using p by (simp add: shown_def write_sym_def and_7FFF unat_succ_64)
  have out: "gz_output ?s = out @ [byte]" using assms by (simp add: shown_def write_sym_def gzst_def)
  have data: "gz_data ?s = (gz_data s)(?p := byte)" by (simp add: shown_def write_sym_def)
  have "gz_data ?s ((unat (gz_pointer ?s) + 32768 - k) mod 32768) = (out @ [byte]) ! (length (out @ [byte]) - k)"
    if k: "1 \<le> k" "k \<le> 32768" "k \<le> length (out @ [byte])" for k
  proof (cases "k = 1")
    case True
    then show ?thesis using ring_back(1) [OF p k(1,2)] ptr data by simp
  next
    case False
    then have gt: "1 < k" using k by simp
    have i: "length (out @ [byte]) - k = length out - (k - 1)" "length out - (k - 1) < length out" using gt k(3) by auto
    have "gz_data ?s ((unat (gz_pointer ?s) + 32768 - k) mod 32768) = gz_data s ((?p + 32768 - (k - 1)) mod 32768)"
      unfolding ptr data ring_back(2) [OF p k(1,2) gt] using ring_back(3) [OF p k(1,2) gt] by simp
    also have "\<dots> = out ! (length out - (k - 1))" using bk [of "k - 1"] gt k by simp
    finally show ?thesis by (simp only: i(1) nth_append i(2) if_True)
  qed
  moreover have "gz_pointer ?s < 0x8000" using ptr by (simp add: word_less_nat_alt)
  ultimately have "window ?s" by (simp add: window_def out)
  moreover have "stream ?s = stream s" "gz_buffer_size ?s = gz_buffer_size s" by (auto simp: stream_def shown_def write_sym_def)
  ultimately show ?thesis using assms out by (simp add: gzst_def)
qed

lemma emit_spec: "gzst s bs out \<Longrightarrow> emit byte s = Some (shown byte s) \<and> gzst (shown byte s) bs (out @ [byte])"
  using shown_spec by (auto simp: emit_def shown_def gzst_def window_def)

lemma peek_spec:
  assumes s: "gzst s bs out" and k: "1 \<le> k" "k \<le> 32768" "k \<le> length out"
  obtains s' where "peek k s = Some s'" and "gzst s' bs (out @ [out ! (length out - k)])"
proof -
  have w: "gz_pointer s < 0x8000" using s by (simp add: gzst_def window_def)
  then have p: "unat (gz_pointer s) < 32768" by (simp add: word_less_nat_alt)
  have "gz_pointer s + 0x8000 - of_nat k = of_nat (unat (gz_pointer s) + 32768 - k)"
    using k by (simp add: of_nat_diff)
  then have "unat (gz_pointer s + 0x8000 - of_nat k) = unat (gz_pointer s) + 32768 - k"
    using unat_of_nat_64 [of "unat (gz_pointer s) + 32768 - k"] p by simp
  then have "gz_data s (unat ((gz_pointer s + 0x8000 - of_nat k) AND 0x7FFF)) = out ! (length out - k)"
    using s k by (simp add: and_7FFF gzst_def window_def)
  then have "peek k s = Some (shown (out ! (length out - k)) s)" using w by (simp add: peek_def shown_def Let_def)
  then show thesis using that shown_spec [OF s] by simp
qed

text \<open>A match copies byte by byte, so that it may overlap what it writes.\<close>

primrec copy_back :: "nat \<Rightarrow> nat \<Rightarrow> bytes \<Rightarrow> bytes" where
  "copy_back 0 k out = out"
| "copy_back (Suc n) k out = copy_back n k (out @ [out ! (length out - k)])"

lemma peeks_spec:
  "gzst s bs out \<Longrightarrow> 1 \<le> k \<Longrightarrow> k \<le> 32768 \<Longrightarrow> k \<le> length out \<Longrightarrow>
   \<exists>s'. peeks n k s = Some s' \<and> gzst s' bs (copy_back n k out)"
proof (induction n arbitrary: s out)
  case (Suc n)
  obtain s1 where s1: "peek k s = Some s1" "gzst s1 bs (out @ [out ! (length out - k)])"
    by (rule peek_spec [OF Suc.prems])
  show ?case using Suc.IH [OF s1(2)] Suc.prems s1(1) by simp
qed auto


section \<open>Compressed data\<close>

text \<open>
  A match is given by its length code and distance code with the values of their extra bits.
\<close>

datatype gtoken = Literal u8 | Match nat nat nat nat

fun token_ok :: "nat list \<Rightarrow> nat list \<Rightarrow> gtoken \<Rightarrow> bool" where
  "token_ok ll dl (Literal b) = coded ll (unat b)"
| "token_ok ll dl (Match i e j f) \<longleftrightarrow> i < 29 \<and> e < 2 ^ (lext ! i) \<and> j < 30 \<and> f < 2 ^ (dext ! j) \<and> coded ll (257 + i) \<and> coded dl j"

fun token_bits :: "nat list \<Rightarrow> nat list \<Rightarrow> gtoken \<Rightarrow> bool list" where
  "token_bits ll dl (Literal b) = code_bits ll (unat b)"
| "token_bits ll dl (Match i e j f) = code_bits ll (257 + i) @ num_bits (lext ! i) e @ code_bits dl j @ num_bits (dext ! j) f"

fun expand :: "gtoken list \<Rightarrow> bytes \<Rightarrow> bytes option" where
  "expand [] out = Some out"
| "expand (Literal b # ts) out = expand ts (out @ [b])"
| "expand (Match i e j f # ts) out =
     (if f + dists ! j \<le> length out then expand ts (copy_back (e + lens ! i) (f + dists ! j) out) else None)"

definition data_bits :: "nat list \<Rightarrow> nat list \<Rightarrow> gtoken list \<Rightarrow> bool list" where
  "data_bits ll dl ts = concat (map (token_bits ll dl) ts) @ code_bits ll 256"

lemma table_lengths [simp]: "length lens = 29" "length lext = 29" "length dists = 30" "length dext = 30" "length clens = 19"
  by (simp_all add: lens_def lext_def dists_def dext_def clens_def)

lemma table_bounds:
  "i < 29 \<Longrightarrow> lext ! i \<le> 32" "j < 30 \<Longrightarrow> dext ! j \<le> 32"
  "j < 30 \<Longrightarrow> 1 \<le> dists ! j \<and> dists ! j + 2 ^ (dext ! j) \<le> 32769"
proof -
  have "list_all (\<lambda>e. e \<le> 32) lext" "list_all (\<lambda>e. e \<le> 32) dext" "list_all (\<lambda>(d, e). 1 \<le> d \<and> d + 2 ^ e \<le> 32769) (zip dists dext)"
    by (simp_all add: lext_def dext_def dists_def)
  then show "i < 29 \<Longrightarrow> lext ! i \<le> 32" "j < 30 \<Longrightarrow> dext ! j \<le> 32" "j < 30 \<Longrightarrow> 1 \<le> dists ! j \<and> dists ! j + 2 ^ (dext ! j) \<le> 32769"
    by (auto simp: list_all_length)
qed

lemma inflate_literal:
  assumes "decode hl s = Some (unat b, s1)" and "emit b s1 = Some s2"
  shows "inflate hl hdi s = inflate hl hdi s2"
proof -
  have "unat b < 256" using unsigned_less [of b] by simp
  then show ?thesis using assms by (subst inflate.simps) simp
qed

lemma inflate_match:
  assumes "decode hl s = Some (257 + i, s1)" and "i < 29" and "read_bits (lext ! i) s1 = Some (e, s2)"
    and "decode hdi s2 = Some (j, s3)" and "j < 30" and "read_bits (dext ! j) s3 = Some (f, s4)"
    and "peeks (e + lens ! i) (f + dists ! j) s4 = Some s5"
  shows "inflate hl hdi s = inflate hl hdi s5"
  using assms by (subst inflate.simps) simp

lemma inflate_stop: "decode hl s = Some (256, s1) \<Longrightarrow> inflate hl hdi s = Some s1"
  by (subst inflate.simps) simp

lemma inflate_spec:
  assumes l: "table_for ll hl" "huff_ok ll" and d: "table_for dl hdi" "huff_ok dl" and stop: "coded ll 256"
  shows "gzst s (data_bits ll dl ts @ bs) out \<Longrightarrow> list_all (token_ok ll dl) ts \<Longrightarrow> expand ts out = Some out' \<Longrightarrow>
    \<exists>s'. inflate hl hdi s = Some s' \<and> gzst s' bs out'"
proof (induction ts arbitrary: s out)
  case Nil
  then have st: "gzst s (code_bits ll 256 @ bs) out'" by (simp add: data_bits_def)
  obtain s' where "decode hl s = Some (256, s')" "gzst s' bs out'" by (rule decode_spec [OF l stop st])
  then show ?case using inflate_stop by blast
next
  case (Cons t ts)
  show ?case
  proof (cases t)
    case (Literal b)
    have cb: "coded ll (unat b)" and st: "gzst s (code_bits ll (unat b) @ (data_bits ll dl ts @ bs)) out"
      using Cons.prems Literal by (auto simp: data_bits_def)
    obtain s1 where s1: "decode hl s = Some (unat b, s1)" "gzst s1 (data_bits ll dl ts @ bs) out" by (rule decode_spec [OF l cb st])
    have "emit b s1 = Some (shown b s1)" "gzst (shown b s1) (data_bits ll dl ts @ bs) (out @ [b])" using emit_spec [OF s1(2)] by auto
    then show ?thesis using Cons.IH [of "shown b s1" "out @ [b]"] Cons.prems Literal inflate_literal [OF s1(1)] by simp
  next
    case (Match i e j f)
    have ok: "i < 29" "e < 2 ^ (lext ! i)" "j < 30" "f < 2 ^ (dext ! j)" and cl: "coded ll (257 + i)" and cd: "coded dl j"
      and far: "f + dists ! j \<le> length out" and ex: "expand ts (copy_back (e + lens ! i) (f + dists ! j) out) = Some out'"
      using Cons.prems Match by (auto split: if_splits)
    let ?r = "data_bits ll dl ts @ bs"
    have st: "gzst s (code_bits ll (257 + i) @ (num_bits (lext ! i) e @ (code_bits dl j @ (num_bits (dext ! j) f @ ?r)))) out"
      using Cons.prems Match by (simp add: data_bits_def)
    obtain s1 where s1: "decode hl s = Some (257 + i, s1)" "gzst s1 (num_bits (lext ! i) e @ (code_bits dl j @ (num_bits (dext ! j) f @ ?r))) out"
      by (rule decode_spec [OF l cl st])
    obtain s2 where s2: "read_bits (lext ! i) s1 = Some (e, s2)" "gzst s2 (code_bits dl j @ (num_bits (dext ! j) f @ ?r)) out"
      by (rule read_bits_spec [OF s1(2) ok(2) table_bounds(1) [OF ok(1)]])
    obtain s3 where s3: "decode hdi s2 = Some (j, s3)" "gzst s3 (num_bits (dext ! j) f @ ?r) out" by (rule decode_spec [OF d cd s2(2)])
    obtain s4 where s4: "read_bits (dext ! j) s3 = Some (f, s4)" "gzst s4 ?r out"
      by (rule read_bits_spec [OF s3(2) ok(4) table_bounds(2) [OF ok(3)]])
    have dist: "1 \<le> f + dists ! j" "f + dists ! j \<le> 32768" using table_bounds(3) [OF ok(3)] ok(4) by auto
    obtain s5 where s5: "peeks (e + lens ! i) (f + dists ! j) s4 = Some s5" "gzst s5 ?r (copy_back (e + lens ! i) (f + dists ! j) out)"
      using peeks_spec [OF s4(2) dist far] by blast
    have "inflate hl hdi s = inflate hl hdi s5" by (rule inflate_match [OF s1(1) ok(1) s2(1) s3(1) ok(3) s4(1) s5(1)])
    then show ?thesis using Cons.IH [OF s5(2) _ ex] Cons.prems(2) by simp
  qed
qed


section \<open>Blocks\<close>

text \<open>Lengths sent as runs, for the header of a block with its own codes.\<close>

datatype run = Len nat | Again nat | Zeros nat | ManyZeros nat

fun run_ok :: "nat list \<Rightarrow> run \<Rightarrow> bool" where
  "run_ok cl (Len n) \<longleftrightarrow> n < 16 \<and> coded cl n"
| "run_ok cl (Again k) \<longleftrightarrow> k < 4 \<and> coded cl 16"
| "run_ok cl (Zeros k) \<longleftrightarrow> k < 8 \<and> coded cl 17"
| "run_ok cl (ManyZeros k) \<longleftrightarrow> k < 128 \<and> coded cl 18"

fun run_bits :: "nat list \<Rightarrow> run \<Rightarrow> bool list" where
  "run_bits cl (Len n) = code_bits cl n"
| "run_bits cl (Again k) = code_bits cl 16 @ num_bits 2 k"
| "run_bits cl (Zeros k) = code_bits cl 17 @ num_bits 3 k"
| "run_bits cl (ManyZeros k) = code_bits cl 18 @ num_bits 7 k"

fun run_lengths :: "run list \<Rightarrow> nat list \<Rightarrow> nat list option" where
  "run_lengths [] acc = Some acc"
| "run_lengths (Len n # rs) acc = run_lengths rs (acc @ [n])"
| "run_lengths (Again k # rs) acc = (if acc = [] then None else run_lengths rs (acc @ replicate (k + 3) (last acc)))"
| "run_lengths (Zeros k # rs) acc = run_lengths rs (acc @ replicate (k + 3) 0)"
| "run_lengths (ManyZeros k # rs) acc = run_lengths rs (acc @ replicate (k + 11) 0)"

lemma run_lengths_grows: "run_lengths rs acc = Some ls \<Longrightarrow> \<exists>ys. ls = acc @ ys \<and> (rs \<noteq> [] \<longrightarrow> ys \<noteq> [])"
proof (induction rs acc rule: run_lengths.induct)
  case (3 k rs acc)
  then show ?case by (cases "acc = []") auto
qed auto

lemma fill_lengths_spec:
  assumes "length acc + n \<le> length (acc @ rest)"
  shows "fill_lengths n v (length acc) (acc @ rest) = Some (length acc + n, (acc @ replicate n v) @ drop n rest)"
  using assms
proof (induction n arbitrary: acc rest)
  case (Suc n)
  then obtain r rs where r: "rest = r # rs" by (cases rest) auto
  then have "fill_lengths n v (length (acc @ [v])) ((acc @ [v]) @ rs) = Some (length (acc @ [v]) + n, ((acc @ [v]) @ replicate n v) @ drop n rs)"
    using Suc.prems by (intro Suc.IH) simp
  then show ?case using r by simp
qed simp

text \<open>One run: the symbol, how often, and the lengths it appends.\<close>

fun run_symbol :: "run \<Rightarrow> nat" where
  "run_symbol (Len n) = n"
| "run_symbol (Again k) = 16"
| "run_symbol (Zeros k) = 17"
| "run_symbol (ManyZeros k) = 18"

lemma read_run:
  assumes t: "table_for cl h" "huff_ok cl" and r: "run_ok cl r" and s: "gzst s (run_bits cl r @ bs) out"
    and ls: "run_lengths (r # rs) acc = Some ls" and room: "length ls \<le> length (acc @ rest)"
  obtains sy s1 v n s2 where "decode h s = Some (sy, s1)" and "repeat_of sy (length acc) (acc @ rest) s1 = Some (v, n, s2)"
    and "gzst s2 bs out" and "run_lengths rs (acc @ replicate n v) = Some ls" and "0 < n"
proof -
  obtain xs where xs: "run_bits cl r = code_bits cl (run_symbol r) @ xs" "coded cl (run_symbol r)" using r by (cases r) auto
  have st: "gzst s (code_bits cl (run_symbol r) @ (xs @ bs)) out" using s xs(1) by simp
  obtain s1 where s1: "decode h s = Some (run_symbol r, s1)" "gzst s1 (xs @ bs) out" by (rule decode_spec [OF t xs(2) st])
  show thesis
  proof (cases r)
    case (Len n)
    then show thesis using that [OF s1(1), of n 1 s1] r xs(1) s1(2) ls by (simp add: repeat_of_def)
  next
    case (Again k)
    then have k: "gzst s1 (num_bits 2 k @ bs) out" "k < 2 ^ 2" "acc \<noteq> []" using s1(2) xs(1) r ls by (auto split: if_splits)
    obtain s2 where "read_bits 2 s1 = Some (k, s2)" "gzst s2 bs out" by (rule read_bits_spec [OF k(1,2)]) simp
    moreover have "(acc @ rest) ! (length acc - 1) = last acc" using k(3) by (simp add: nth_append last_conv_nth)
    ultimately show thesis using that [OF s1(1), of "last acc" "k + 3" s2] Again k(3) ls by (simp add: repeat_of_def)
  next
    case (Zeros k)
    then have k: "gzst s1 (num_bits 3 k @ bs) out" "k < 2 ^ 3" using s1(2) xs(1) r by auto
    obtain s2 where "read_bits 3 s1 = Some (k, s2)" "gzst s2 bs out" by (rule read_bits_spec [OF k]) simp
    then show thesis using that [OF s1(1), of 0 "k + 3" s2] Zeros ls by (simp add: repeat_of_def)
  next
    case (ManyZeros k)
    then have k: "gzst s1 (num_bits 7 k @ bs) out" "k < 2 ^ 7" using s1(2) xs(1) r by auto
    obtain s2 where "read_bits 7 s1 = Some (k, s2)" "gzst s2 bs out" by (rule read_bits_spec [OF k]) simp
    then show thesis using that [OF s1(1), of 0 "k + 11" s2] ManyZeros ls by (simp add: repeat_of_def)
  qed
qed

lemma read_lengths_spec:
  assumes t: "table_for cl h" "huff_ok cl"
  shows "gzst s (concat (map (run_bits cl) rs) @ bs) out \<Longrightarrow> list_all (run_ok cl) rs \<Longrightarrow> run_lengths rs acc = Some ls \<Longrightarrow>
    length ls \<le> length (acc @ rest) \<Longrightarrow>
    \<exists>s'. read_lengths h (length ls) (length acc) (acc @ rest) s = Some (ls @ drop (length ls - length acc) rest, s') \<and> gzst s' bs out"
proof (induction rs arbitrary: s acc rest)
  case Nil
  then show ?case by (subst read_lengths.simps) simp
next
  case (Cons r rs)
  obtain ys where ys: "ls = acc @ ys" "ys \<noteq> []" using run_lengths_grows [OF Cons.prems(3)] by auto
  have st: "gzst s (run_bits cl r @ (concat (map (run_bits cl) rs) @ bs)) out" and ok: "run_ok cl r" using Cons.prems by auto
  obtain sy s1 v n s2 where r: "decode h s = Some (sy, s1)" "repeat_of sy (length acc) (acc @ rest) s1 = Some (v, n, s2)"
      "gzst s2 (concat (map (run_bits cl) rs) @ bs) out" "run_lengths rs (acc @ replicate n v) = Some ls" "0 < n"
    by (rule read_run [OF t ok st Cons.prems(3,4)])
  have le: "length acc + n \<le> length ls" using run_lengths_grows [OF r(4)] by auto
  then have room: "length acc + n \<le> length (acc @ rest)" using Cons.prems(4) by simp
  have step: "read_lengths h (length ls) (length acc) (acc @ rest) s =
      read_lengths h (length ls) (length (acc @ replicate n v)) ((acc @ replicate n v) @ drop n rest) s2"
    using r(1,2) ys fill_lengths_spec [OF room, of v] by (subst read_lengths.simps) simp
  have "length ls \<le> length ((acc @ replicate n v) @ drop n rest)" using Cons.prems(4) room by simp
  from Cons.IH [OF r(3) _ r(4) this] Cons.prems(2)
  show ?case unfolding step using le by (simp add: drop_drop)
qed

lemma read_code_lengths_spec:
  "gzst s (concat (map (\<lambda>c. num_bits 3 (cl ! c)) cs) @ bs) out \<Longrightarrow> \<forall>c \<in> set cs. cl ! c < 8 \<Longrightarrow>
   \<exists>s'. read_code_lengths cs ls s = Some (foldl (\<lambda>ls c. ls[c := cl ! c]) ls cs, s') \<and> gzst s' bs out"
proof (induction cs arbitrary: ls s)
  case (Cons c cs)
  let ?r = "concat (map (\<lambda>c. num_bits 3 (cl ! c)) cs) @ bs"
  have st: "gzst s (num_bits 3 (cl ! c) @ ?r) out" "cl ! c < 2 ^ 3" using Cons.prems by auto
  obtain s1 where s1: "read_bits 3 s = Some (cl ! c, s1)" "gzst s1 ?r out" by (rule read_bits_spec [OF st]) simp
  show ?case using Cons.IH [OF s1(2)] Cons.prems(2) s1(1) by simp
qed simp

lemma foldl_update_nth:
  "\<forall>c \<in> set cs. c < length ls \<Longrightarrow> length (foldl (\<lambda>ls c. ls[c := f c]) ls cs) = length ls \<and>
   (\<forall>i < length ls. foldl (\<lambda>ls c. ls[c := f c]) ls cs ! i = (if i \<in> set cs then f i else ls ! i))"
proof (induction cs arbitrary: ls)
  case (Cons c cs)
  then show ?case using Cons.IH [of "ls[c := f c]"] by (auto simp: nth_list_update)
qed simp

lemma clens_set: "set clens = {..<19}"
  by (simp add: clens_def lessThan_nat_numeral lessThan_Suc) blast

lemma code_lengths_read:
  assumes "length cl = 19" and "\<forall>c \<in> set (drop k clens). cl ! c = 0"
  shows "take 19 (foldl (\<lambda>ls c. ls[c := cl ! c]) (replicate 320 0) (take k clens)) = cl"
    and "length (foldl (\<lambda>ls c. ls[c := cl ! c]) (replicate 320 0) (take k clens)) = 320"
proof -
  let ?r = "foldl (\<lambda>ls c. ls[c := cl ! c]) (replicate 320 0) (take k clens)"
  have lt: "c < 19" if "c \<in> set (take k clens)" for c using in_set_takeD [OF that] clens_set by simp
  have r: "length ?r = 320" "\<And>i. i < 320 \<Longrightarrow> ?r ! i = (if i \<in> set (take k clens) then cl ! i else 0)"
    using foldl_update_nth [of "take k clens" "replicate 320 0" "(!) cl"] lt by fastforce+
  show "length ?r = 320" by (rule r(1))
  show "take 19 ?r = cl"
  proof (rule nth_equalityI)
    fix i assume i: "i < length (take 19 ?r)"
    then have "i < 19" using r(1) by simp
    then have "i \<in> set clens" by (simp add: clens_set)
    then have "i \<in> set (take k clens) \<or> i \<in> set (drop k clens)" by (metis UnE append_take_drop_id set_append)
    then show "take 19 ?r ! i = cl ! i" using r(2) [of i] assms \<open>i < 19\<close> by auto
  qed (use r(1) assms(1) in simp)
qed

record codes =
  cd_hlit :: nat
  cd_hdist :: nat
  cd_hclen :: nat
  cd_lengths :: "nat list"
  cd_runs :: "run list"

definition all_lengths :: "codes \<Rightarrow> nat list" where
  "all_lengths c = (case run_lengths (cd_runs c) [] of None \<Rightarrow> [] | Some ls \<Rightarrow> ls)"

definition lit_lengths :: "codes \<Rightarrow> nat list" where
  "lit_lengths c = take (257 + cd_hlit c) (all_lengths c)"

definition dist_lengths :: "codes \<Rightarrow> nat list" where
  "dist_lengths c = drop (257 + cd_hlit c) (all_lengths c)"

definition codes_ok :: "codes \<Rightarrow> bool" where
  "codes_ok c \<longleftrightarrow> cd_hlit c < 32 \<and> cd_hdist c < 32 \<and> cd_hclen c < 16 \<and> length (cd_lengths c) = 19 \<and>
     (\<forall>n \<in> set (cd_lengths c). n < 8) \<and> (\<forall>i \<in> set (drop (4 + cd_hclen c) clens). cd_lengths c ! i = 0) \<and> huff_ok (cd_lengths c) \<and>
     list_all (run_ok (cd_lengths c)) (cd_runs c) \<and> run_lengths (cd_runs c) [] \<noteq> None \<and>
     length (all_lengths c) = 258 + cd_hlit c + cd_hdist c \<and> huff_ok (lit_lengths c) \<and> huff_ok (dist_lengths c) \<and> coded (lit_lengths c) 256"

definition codes_bits :: "codes \<Rightarrow> bool list" where
  "codes_bits c = num_bits 5 (cd_hlit c) @ num_bits 5 (cd_hdist c) @ num_bits 4 (cd_hclen c) @
     concat (map (\<lambda>i. num_bits 3 (cd_lengths c ! i)) (take (4 + cd_hclen c) clens)) @
     concat (map (run_bits (cd_lengths c)) (cd_runs c))"

lemma decode_huffman_spec:
  assumes ok: "codes_ok c" and stack: "length (hf_symbols stack) = 288"
    and s: "gzst s (codes_bits c @ data_bits (lit_lengths c) (dist_lengths c) ts @ bs) out"
    and ts: "list_all (token_ok (lit_lengths c) (dist_lengths c)) ts" "expand ts out = Some out'"
  shows "\<exists>s'. decode_huffman stack s = Some s' \<and> gzst s' bs out'"
proof -
  let ?cl = "cd_lengths c" and ?ll = "lit_lengths c" and ?dl = "dist_lengths c" and ?k = "4 + cd_hclen c"
  let ?d = "data_bits ?ll ?dl ts @ bs"
  let ?r = "concat (map (run_bits ?cl) (cd_runs c)) @ ?d"
  let ?q = "concat (map (\<lambda>i. num_bits 3 (?cl ! i)) (take ?k clens)) @ ?r"
  have hl: "cd_hlit c < 2 ^ 5" "cd_hdist c < 2 ^ 5" "cd_hclen c < 2 ^ 4" using ok by (simp_all add: codes_ok_def)
  have st: "gzst s (num_bits 5 (cd_hlit c) @ (num_bits 5 (cd_hdist c) @ (num_bits 4 (cd_hclen c) @ ?q))) out"
    using s by (simp add: codes_bits_def)
  obtain s1 where s1: "read_bits 5 s = Some (cd_hlit c, s1)" "gzst s1 (num_bits 5 (cd_hdist c) @ (num_bits 4 (cd_hclen c) @ ?q)) out"
    by (rule read_bits_spec [OF st hl(1)]) simp
  obtain s2 where s2: "read_bits 5 s1 = Some (cd_hdist c, s2)" "gzst s2 (num_bits 4 (cd_hclen c) @ ?q) out"
    by (rule read_bits_spec [OF s1(2) hl(2)]) simp
  obtain s3 where s3: "read_bits 4 s2 = Some (cd_hclen c, s3)" "gzst s3 ?q out"
    by (rule read_bits_spec [OF s2(2) hl(3)]) simp
  let ?ls = "foldl (\<lambda>ls i. ls[i := ?cl ! i]) (replicate 320 0) (take ?k clens)"
  have small: "\<forall>i \<in> set (take ?k clens). ?cl ! i < 8"
  proof
    fix i assume "i \<in> set (take ?k clens)"
    then have "i < length ?cl" using in_set_takeD [of i ?k clens] clens_set ok by (auto simp: codes_ok_def)
    then show "?cl ! i < 8" using ok by (simp add: codes_ok_def)
  qed
  obtain s4 where s4: "read_code_lengths (take ?k clens) (replicate 320 0) s3 = Some (?ls, s4)" "gzst s4 ?r out"
    using read_code_lengths_spec [OF s3(2) small] by blast
  have ls: "take 19 ?ls = ?cl" "length ?ls = 320" using code_lengths_read [of ?cl ?k] ok by (simp_all add: codes_ok_def)
  have cok: "huff_ok ?cl" "huff_ok ?ll" "huff_ok ?dl" "coded ?ll 256" using ok by (simp_all add: codes_ok_def)
  obtain h where h: "build_huffman ?cl stack = Some h" "table_for ?cl h" by (rule build_huffman_spec [OF cok(1) stack])
  obtain al where al: "run_lengths (cd_runs c) [] = Some al" "all_lengths c = al" using ok by (auto simp: codes_ok_def all_lengths_def)
  have len: "length al = 258 + cd_hlit c + cd_hdist c" and runs: "list_all (run_ok ?cl) (cd_runs c)"
    using ok al(2) by (simp_all add: codes_ok_def)
  obtain s5 where s5: "read_lengths h (length al) 0 ?ls s4 = Some (al @ drop (length al) ?ls, s5)" "gzst s5 ?d out"
    using read_lengths_spec [OF h(2) cok(1) s4(2) runs al(1), of ?ls] ls(2) len hl by auto
  have tk: "take (257 + cd_hlit c) (al @ drop (length al) ?ls) = ?ll"
      "take (1 + cd_hdist c) (drop (257 + cd_hlit c) (al @ drop (length al) ?ls)) = ?dl"
    using len al(2) by (simp_all add: lit_lengths_def dist_lengths_def)
  obtain hl' where hl': "build_huffman ?ll stack = Some hl'" "table_for ?ll hl'" by (rule build_huffman_spec [OF cok(2) stack])
  obtain hd' where hd': "build_huffman ?dl stack = Some hd'" "table_for ?dl hd'" by (rule build_huffman_spec [OF cok(3) stack])
  obtain s6 where s6: "inflate hl' hd' s5 = Some s6" "gzst s6 bs out'"
    using inflate_spec [OF hl'(2) cok(2) hd'(2) cok(3,4) s5(2) ts] by blast
  have need: "257 + cd_hlit c + (1 + cd_hdist c) = length al" using len by simp
  have "decode_huffman stack s = Some s6"
    by (simp only: decode_huffman_def Let_def s1(1) s2(1) s3(1) s4(1) ls(1) h(1) need s5(1) tk hl'(1) hd'(1) s6(1)
      Option.bind.simps prod.case)
  then show ?thesis using s6(2) by blast
qed


section \<open>Stored bytes\<close>

definition le16 :: "u16 \<Rightarrow> bytes" where
  "le16 n = [ucast n, ucast (drop_bit 8 n)]"

lemma bits_of_append_split: "bits_of xs = bits_of ys @ bs \<Longrightarrow> \<exists>zs. xs = ys @ zs \<and> bs = bits_of zs"
proof (induction ys arbitrary: xs)
  case (Cons y ys)
  then have "0 < length (bits_of xs)" by simp
  then obtain x xs' where xs: "xs = x # xs'" by (cases xs) auto
  have "bits_of_byte x @ bits_of xs' = bits_of_byte y @ (bits_of ys @ bs)" using Cons.prems xs by simp
  then have "bits_of_byte x = bits_of_byte y" "bits_of xs' = bits_of ys @ bs" by (simp_all add: append_eq_append_conv)
  then show ?case using Cons.IH [of xs'] xs by (auto simp: bits_of_byte_inj)
qed simp

lemma read_byte_spec:
  assumes "gzst s (bits_of (b # bs)) out"
  obtains s' where "read_byte s = Some (b, s')" and "gzst s' (bits_of bs) out" and "gz_input s' = bs"
proof -
  have i: "gz_input s = b # bs" using gzst_input [of s "[]"] assms by simp
  have "gz_buffer_size s = 0" using gzst_buffered [OF assms] by simp
  then have "gzst (s\<lparr>gz_input := bs\<rparr>) (bits_of bs) out" using assms by (simp add: gzst_def stream_def window_def)
  then show thesis using that [of "s\<lparr>gz_input := bs\<rparr>"] i by (simp add: read_byte_def)
qed

lemma read_16le_spec:
  assumes "gzst s (bits_of (le16 n @ bs)) out"
  obtains s' where "read_16le s = Some (n, s')" and "gzst s' (bits_of bs) out"
proof -
  have st: "gzst s (bits_of (ucast n # ucast (drop_bit 8 n) # bs)) out" using assms by (simp add: le16_def)
  obtain s1 where s1: "read_byte s = Some (ucast n, s1)" "gzst s1 (bits_of (ucast (drop_bit 8 n) # bs)) out" by (rule read_byte_spec [OF st])
  obtain s2 where s2: "read_byte s1 = Some (ucast (drop_bit 8 n), s2)" "gzst s2 (bits_of bs) out" by (rule read_byte_spec [OF s1(2)])
  have "ucast (ucast n :: u8) OR push_bit 8 (ucast (ucast (drop_bit 8 n) :: u8)) = n"
    by (rule bit_word_eqI) (auto simp: bit_simps)
  then show thesis using that [of s2] s1(1) s2 by (simp add: read_16le_def)
qed

lemma emit_bytes_spec:
  "gzst s (bits_of (xs @ bs)) out \<Longrightarrow> \<exists>s'. emit_bytes (length xs) s = Some s' \<and> gzst s' (bits_of bs) (out @ xs)"
proof (induction xs arbitrary: s out)
  case (Cons x xs)
  have st: "gzst s (bits_of (x # (xs @ bs))) out" using Cons.prems by simp
  obtain s1 where s1: "read_byte s = Some (x, s1)" "gzst s1 (bits_of (xs @ bs)) out" by (rule read_byte_spec [OF st])
  have e: "emit x s1 = Some (shown x s1)" "gzst (shown x s1) (bits_of (xs @ bs)) (out @ [x])" using emit_spec [OF s1(2)] by auto
  show ?case using Cons.IH [OF e(2)] s1(1) e(1) by simp
qed simp

lemma gzst_align:
  assumes s: "gzst s (pad @ bits_of xs @ bs) out" and pad: "length pad < 8" and bs: "length bs mod 8 = 0"
  obtains ys where "bs = bits_of ys" and "gzst (s\<lparr>gz_bit_buffer := 0, gz_buffer_size := 0\<rparr>) (bits_of (xs @ ys)) out"
proof -
  have "gz_buffer_size s = length pad" using gzst_buffered [OF s] pad bs by (simp add: mod_add_eq [symmetric])
  then have "bits_of (gz_input s) = bits_of xs @ bs" using s by (simp add: gzst_def stream_def append_eq_append_conv)
  then obtain ys where ys: "gz_input s = xs @ ys" "bs = bits_of ys" using bits_of_append_split by blast
  have "gzst (s\<lparr>gz_bit_buffer := 0, gz_buffer_size := 0\<rparr>) (bits_of (xs @ ys)) out"
    using s ys(1) by (simp add: gzst_def stream_def window_def)
  then show thesis using that ys(2) by blast
qed

definition stored_bytes :: "bytes \<Rightarrow> bytes" where
  "stored_bytes xs = le16 (of_nat (length xs)) @ le16 (NOT (of_nat (length xs))) @ xs"

lemma uncompressed_spec:
  assumes s: "gzst s (pad @ bits_of (stored_bytes xs) @ bs) out" and pad: "length pad < 8" and bs: "length bs mod 8 = 0"
    and n: "length xs < 2 ^ 16"
  shows "\<exists>s'. uncompressed s = Some (0, s') \<and> gzst s' bs (out @ xs)"
proof -
  let ?s = "s\<lparr>gz_bit_buffer := 0, gz_buffer_size := 0\<rparr>" and ?n = "of_nat (length xs) :: u16"
  obtain ys where ys: "bs = bits_of ys" and st: "gzst ?s (bits_of (stored_bytes xs @ ys)) out"
    by (rule gzst_align [OF s pad bs])
  have st: "gzst ?s (bits_of (le16 ?n @ (le16 (NOT ?n) @ (xs @ ys)))) out" using st by (simp add: stored_bytes_def)
  obtain s1 where s1: "read_16le ?s = Some (?n, s1)" "gzst s1 (bits_of (le16 (NOT ?n) @ (xs @ ys))) out" by (rule read_16le_spec [OF st])
  obtain s2 where s2: "read_16le s1 = Some (NOT ?n, s2)" "gzst s2 (bits_of (xs @ ys)) out" by (rule read_16le_spec [OF s1(2)])
  have "unat ?n = length xs" using n by (simp add: unat_of_nat take_bit_nat_eq_self)
  then show ?thesis using emit_bytes_spec [OF s2(2)] s1(1) s2(1) ys by (auto simp: uncompressed_def)
qed


section \<open>Streams\<close>

datatype gblock = Stored bytes | Fixed "gtoken list" | Dynamic codes "gtoken list"

abbreviation fixed_dist_lengths :: "nat list" where
  "fixed_dist_lengths \<equiv> replicate 30 5"

fun block_ok :: "gblock \<Rightarrow> bool" where
  "block_ok (Stored xs) = (length xs < 2 ^ 16)"
| "block_ok (Fixed ts) = list_all (token_ok fixed_literal_lengths fixed_dist_lengths) ts"
| "block_ok (Dynamic c ts) = (codes_ok c \<and> list_all (token_ok (lit_lengths c) (dist_lengths c)) ts)"

text \<open>A stored block starts at a byte; \<open>pos\<close> is the position of the block in bits.\<close>

fun block_bits :: "nat \<Rightarrow> gblock \<Rightarrow> bool list" where
  "block_bits pos (Stored xs) = num_bits 2 0 @ replicate ((8 - (pos + 3) mod 8) mod 8) False @ bits_of (stored_bytes xs)"
| "block_bits pos (Fixed ts) = num_bits 2 1 @ data_bits fixed_literal_lengths fixed_dist_lengths ts"
| "block_bits pos (Dynamic c ts) = num_bits 2 2 @ codes_bits c @ data_bits (lit_lengths c) (dist_lengths c) ts"

fun block_bytes :: "gblock \<Rightarrow> bytes \<Rightarrow> bytes option" where
  "block_bytes (Stored xs) out = Some (out @ xs)"
| "block_bytes (Fixed ts) out = expand ts out"
| "block_bytes (Dynamic c ts) out = expand ts out"

fun deflate_bits :: "nat \<Rightarrow> gblock list \<Rightarrow> bool list" where
  "deflate_bits pos [] = replicate ((8 - pos mod 8) mod 8) False"
| "deflate_bits pos (b # bs) =
     (let x = (bs = []) # block_bits pos b in x @ deflate_bits (pos + length x) bs)"

fun deflate_bytes :: "gblock list \<Rightarrow> bytes \<Rightarrow> bytes option" where
  "deflate_bytes [] out = Some out"
| "deflate_bytes (b # bs) out = do { out \<leftarrow> block_bytes b out; deflate_bytes bs out }"

lemma pad_aligns: "(pos + (8 - pos mod 8) mod 8) mod 8 = 0" for pos :: nat
proof -
  have "(r + (8 - r) mod 8) mod 8 = 0" if "r < 8" for r :: nat using that by (cases "r = 0") auto
  then have "(pos mod 8 + (8 - pos mod 8) mod 8) mod 8 = 0" by simp
  then show ?thesis by (simp add: mod_add_left_eq)
qed

lemma deflate_bits_aligned: "(pos + length (deflate_bits pos bs)) mod 8 = 0"
proof (induction pos bs rule: deflate_bits.induct)
  case (1 pos)
  show ?case using pad_aligns [of pos] by simp
next
  case (2 pos b bs)
  show ?case using 2 [OF refl] by (simp add: Let_def add.assoc)
qed

lemma fixed_counts:
  "count_list (replicate n x) y = (if x = y then n else 0)" for x :: nat
  by (induction n) auto

lemma first_code_numeral:
  "first_code ls (numeral k) = 2 * (first_code ls (pred_numeral k) + bl_count ls (pred_numeral k))" "first_code ls 1 = 2 * bl_count ls 0"
  by (simp_all add: numeral_eq_Suc)

lemma all_less_16: "(\<forall>l < 16. P l) \<longleftrightarrow> list_all P [0, 1, 2, 3, 4, 5, 6, 7, 8, 9, 10, 11, 12, 13, 14, 15]" for P :: "nat \<Rightarrow> bool"
  by (simp add: numeral_eq_Suc All_less_Suc) blast

lemma fixed_ok: "huff_ok fixed_literal_lengths" "huff_ok fixed_dist_lengths" "coded fixed_literal_lengths 256"
proof -
  have c: "bl_count fixed_literal_lengths l = (if l = 8 then 152 else if l = 9 then 112 else if l = 7 then 24 else 0)" for l
    by (simp add: bl_count_def fixed_literal_lengths_def fixed_counts)
  have d: "bl_count fixed_dist_lengths l = (if l = 5 then 30 else 0)" for l by (simp add: bl_count_def fixed_counts)
  have "\<forall>l < 16. first_code fixed_literal_lengths l + bl_count fixed_literal_lengths l \<le> 2 ^ l"
    unfolding all_less_16 by (simp add: c first_code_numeral)
  then show "huff_ok fixed_literal_lengths" by (auto simp: huff_ok_def fixed_literal_lengths_def)
  have "\<forall>l < 16. first_code fixed_dist_lengths l + bl_count fixed_dist_lengths l \<le> 2 ^ l"
    unfolding all_less_16 by (simp add: d first_code_numeral)
  then show "huff_ok fixed_dist_lengths" by (auto simp: huff_ok_def)
  show "coded fixed_literal_lengths 256" by (simp add: coded_def fixed_literal_lengths_def nth_append)
qed

lemma build_fixed_spec:
  obtains fl fd where "build_fixed = Some (fl, fd)" and "table_for fixed_literal_lengths fl" and "table_for fixed_dist_lengths fd"
proof -
  have z: "length (hf_symbols zero_huff) = 288" by (simp add: zero_huff_def)
  obtain fl where "build_huffman fixed_literal_lengths zero_huff = Some fl" "table_for fixed_literal_lengths fl"
    by (rule build_huffman_spec [OF fixed_ok(1) z])
  moreover obtain fd where "build_huffman fixed_dist_lengths zero_huff = Some fd" "table_for fixed_dist_lengths fd"
    by (rule build_huffman_spec [OF fixed_ok(2) z])
  ultimately show thesis using that by (simp add: build_fixed_def)
qed


lemma deflate_loop_step:
  assumes "read_bit s = Some (f, s1)" and "read_bits 2 s1 = Some (ty, s2)" and "ty \<noteq> 3" and "block fl fd stack ty s2 = Some s3"
  shows "deflate_loop fl fd stack s = (if f then Some (0, s3) else deflate_loop fl fd stack s3)"
  using assms by (subst deflate_loop.simps) simp

lemma block_spec:
  assumes fixed: "table_for fixed_literal_lengths fl" "table_for fixed_dist_lengths fd" and stack: "length (hf_symbols stack) = 288"
    and s: "gzst s (block_bits pos b @ bs) out" and ok: "block_ok b" and out: "block_bytes b out = Some out'"
    and align: "(pos + 1 + length (block_bits pos b @ bs)) mod 8 = 0"
  obtains ty s1 s2 where "read_bits 2 s = Some (ty, s1)" and "ty \<noteq> 3" and "block fl fd stack ty s1 = Some s2" and "gzst s2 bs out'"
proof (cases b)
  case (Stored xs)
  let ?pad = "replicate ((8 - (pos + 3) mod 8) mod 8) False" and ?b = "bits_of (stored_bytes xs)"
  have st: "gzst s (num_bits 2 0 @ (?pad @ ?b @ bs)) out" using s Stored by simp
  obtain s1 where s1: "read_bits 2 s = Some (0, s1)" "gzst s1 (?pad @ ?b @ bs) out" by (rule read_bits_spec [OF st]) simp_all
  have "(pos + 3 + length ?pad + length ?b + length bs) mod 8 = 0" using align Stored by (simp add: ac_simps)
  moreover have "(pos + 3 + length ?pad) mod 8 = 0" using pad_aligns [of "pos + 3"] by simp
  ultimately have "(length ?b + length bs) mod 8 = 0" by (metis add.assoc add.left_neutral mod_add_left_eq)
  then have bs: "length bs mod 8 = 0" by (simp add: mod_add_eq [symmetric])
  have "length ?pad < 8" by simp
  then obtain s2 where s2: "uncompressed s1 = Some (0, s2)" "gzst s2 bs (out @ xs)"
    using uncompressed_spec [OF s1(2) _ bs] ok Stored by auto
  show thesis by (rule that [OF s1(1)]) (use s2 out Stored in \<open>auto simp: block_def\<close>)
next
  case (Fixed ts)
  have st: "gzst s (num_bits 2 1 @ (data_bits fixed_literal_lengths fixed_dist_lengths ts @ bs)) out" using s Fixed by simp
  obtain s1 where s1: "read_bits 2 s = Some (1, s1)" "gzst s1 (data_bits fixed_literal_lengths fixed_dist_lengths ts @ bs) out"
    by (rule read_bits_spec [OF st]) simp_all
  obtain s2 where s2: "inflate fl fd s1 = Some s2" "gzst s2 bs out'"
    using inflate_spec [OF fixed(1) fixed_ok(1) fixed(2) fixed_ok(2,3) s1(2)] ok out Fixed by auto
  show thesis by (rule that [OF s1(1)]) (use s2 in \<open>auto simp: block_def\<close>)
next
  case (Dynamic c ts)
  let ?d = "codes_bits c @ data_bits (lit_lengths c) (dist_lengths c) ts @ bs"
  have st: "gzst s (num_bits 2 2 @ ?d) out" using s Dynamic by simp
  obtain s1 where s1: "read_bits 2 s = Some (2, s1)" "gzst s1 ?d out" by (rule read_bits_spec [OF st]) simp_all
  obtain s2 where s2: "decode_huffman stack s1 = Some s2" "gzst s2 bs out'"
    using decode_huffman_spec [OF _ stack s1(2)] ok out Dynamic by auto
  show thesis by (rule that [OF s1(1)]) (use s2 in \<open>auto simp: block_def\<close>)
qed

lemma deflate_loop_spec:
  assumes fixed: "table_for fixed_literal_lengths fl" "table_for fixed_dist_lengths fd" and stack: "length (hf_symbols stack) = 288"
  shows "gzst s (deflate_bits pos bs @ bits_of rest) out \<Longrightarrow> bs \<noteq> [] \<Longrightarrow> list_all block_ok bs \<Longrightarrow> deflate_bytes bs out = Some out' \<Longrightarrow>
    \<exists>s' pad. deflate_loop fl fd stack s = Some (0, s') \<and> gzst s' (pad @ bits_of rest) out' \<and> length pad < 8"
proof (induction bs arbitrary: s pos out)
  case (Cons b bs)
  let ?x = "block_bits pos b" and ?p = "pos + 1 + length (block_bits pos b)"
  let ?r = "deflate_bits ?p bs @ bits_of rest"
  have st: "gzst s ((bs = []) # (?x @ ?r)) out" using Cons.prems(1) by (simp add: Let_def add.assoc)
  obtain s1 where s1: "read_bit s = Some (bs = [], s1)" "gzst s1 (?x @ ?r) out" by (rule read_bit_spec [OF st])
  have align: "(pos + 1 + length (?x @ ?r)) mod 8 = 0" 
  proof -
    have "pos + 1 + length (?x @ ?r) = ?p + length (deflate_bits ?p bs) + 8 * length rest" by simp
    then show ?thesis using deflate_bits_aligned [of ?p bs] by (simp only: mod_mult_self2)
  qed
  obtain o1 where o1: "block_bytes b out = Some o1" "deflate_bytes bs o1 = Some out'" using Cons.prems(4) by (auto simp: bind_eq_Some_conv)
  have bok: "block_ok b" using Cons.prems(3) by simp
  obtain ty s2 s3 where b: "read_bits 2 s1 = Some (ty, s2)" "ty \<noteq> 3" "block fl fd stack ty s2 = Some s3" "gzst s3 ?r o1"
    by (rule block_spec [OF fixed stack s1(2) bok o1(1) align])
  have step: "deflate_loop fl fd stack s = (if bs = [] then Some (0, s3) else deflate_loop fl fd stack s3)"
    by (rule deflate_loop_step [OF s1(1) b(1-3)])
  show ?case
  proof (cases "bs = []")
    case True
    then show ?thesis using step b(4) o1(2) by (intro exI [of _ s3] exI [of _ "deflate_bits ?p bs"]) simp
  next
    case False
    then show ?thesis using step Cons.IH [OF b(4) False _ o1(2)] Cons.prems(3) by simp
  qed
qed simp


section \<open>Files\<close>

function pack :: "bool list \<Rightarrow> bytes" where
  "pack bs = (if bs = [] then [] else horner_sum of_bool 2 (take 8 bs) # pack (drop 8 bs))"
  by pat_completeness auto
termination by (relation "measure length") (auto simp: neq_Nil_conv)

declare pack.simps [simp del]

lemma bits_of_byte_horner: "length xs = 8 \<Longrightarrow> bits_of_byte (horner_sum of_bool 2 xs) = xs"
  by (rule nth_equalityI) (auto simp: bits_of_byte_def bit_horner_sum_bit_iff)

lemma bits_of_pack: "length bs mod 8 = 0 \<Longrightarrow> bits_of (pack bs) = bs"
proof (induction bs rule: pack.induct)
  case (1 bs)
  show ?case
  proof (cases "bs = []")
    case False
    then have "8 \<le> length bs" using 1(2) by (cases "length bs < 8") auto
    then have "length (take 8 bs) = 8" "length (drop 8 bs) mod 8 = 0" using 1(2) by (auto simp: le_mod_geq)
    then show ?thesis using 1(1) [OF False] False by (subst pack.simps) (simp add: bits_of_byte_horner)
  qed (simp add: pack.simps)
qed


text \<open>A gzip file with a header that has an extra field, a name, a comment and a checksum of the header, each or not.\<close>

record gzip_header =
  gh_mtime :: "u8 list"
  gh_xflags :: u8
  gh_os :: u8
  gh_extra :: "bytes option"
  gh_name :: "bytes option"
  gh_comment :: "bytes option"
  gh_crc :: "u16 option"

definition header_ok :: "gzip_header \<Rightarrow> bool" where
  "header_ok h \<longleftrightarrow> length (gh_mtime h) = 4 \<and> (\<forall>x \<in> set_option (gh_extra h). length x < 2 ^ 16) \<and>
     (\<forall>x \<in> set_option (gh_name h). 0 \<notin> set x) \<and> (\<forall>x \<in> set_option (gh_comment h). 0 \<notin> set x)"

definition header_flags :: "gzip_header \<Rightarrow> u8" where
  "header_flags h = of_bool (gh_crc h \<noteq> None) * 2 OR of_bool (gh_extra h \<noteq> None) * 4 OR
     of_bool (gh_name h \<noteq> None) * 8 OR of_bool (gh_comment h \<noteq> None) * 16"

definition header_tail :: "gzip_header \<Rightarrow> bytes" where
  "header_tail h = (case gh_extra h of None \<Rightarrow> [] | Some x \<Rightarrow> le16 (of_nat (length x)) @ x) @
     (case gh_name h of None \<Rightarrow> [] | Some x \<Rightarrow> x @ [0]) @ (case gh_comment h of None \<Rightarrow> [] | Some x \<Rightarrow> x @ [0]) @
     (case gh_crc h of None \<Rightarrow> [] | Some c \<Rightarrow> le16 c)"

definition gzip_file :: "gzip_header \<Rightarrow> gblock list \<Rightarrow> bytes \<Rightarrow> bytes" where
  "gzip_file h bs trailer =
     [0x1F, 0x8B, 8, header_flags h] @ gh_mtime h @ [gh_xflags h, gh_os h] @ header_tail h @ pack (deflate_bits 0 bs) @ trailer"

definition gz_start :: "bytes \<Rightarrow> gz \<Rightarrow> gz" where
  "gz_start xs s = s\<lparr>gz_input := xs, gz_output := []\<rparr>"

text \<open>On the bytes of the header the buffer of bits does not matter.\<close>

lemma read_byte_Cons: "gz_input s = b # bs \<Longrightarrow> read_byte s = Some (b, s\<lparr>gz_input := bs\<rparr>)"
  by (simp add: read_byte_def)

lemma le16_read: "gz_input s = le16 n @ bs \<Longrightarrow> read_16le s = Some (n, s\<lparr>gz_input := bs\<rparr>)"
proof -
  have "ucast (ucast n :: u8) OR push_bit 8 (ucast (ucast (drop_bit 8 n) :: u8)) = n"
    by (rule bit_word_eqI) (auto simp: bit_simps)
  then show "gz_input s = le16 n @ bs \<Longrightarrow> ?thesis" by (simp add: le16_def read_16le_def read_byte_def)
qed

lemma read_32le_any: "gz_input s = xs @ bs \<Longrightarrow> length xs = 4 \<Longrightarrow> \<exists>n. read_32le s = Some (n, s\<lparr>gz_input := bs\<rparr>)"
  by (auto simp: read_32le_def read_byte_def numeral_eq_Suc length_Suc_conv)

lemma skip_bytes_spec: "gz_input s = xs @ bs \<Longrightarrow> skip_bytes (length xs) s = Some (s\<lparr>gz_input := bs\<rparr>)"
  by (induction xs arbitrary: s) (auto simp: read_byte_def)

lemma skip_string_spec: "gz_input s = xs @ 0 # bs \<Longrightarrow> 0 \<notin> set xs \<Longrightarrow> skip_string s = Some (s\<lparr>gz_input := bs\<rparr>)"
proof (induction xs arbitrary: s)
  case Nil
  then show ?case by (subst skip_string.simps) (simp add: read_byte_def)
next
  case (Cons x xs)
  then show ?case using Cons.IH [of "s\<lparr>gz_input := xs @ 0 # bs\<rparr>"] by (subst skip_string.simps) (simp add: read_byte_def)
qed

lemma header_flag_bits:
  "(ucast (header_flags h) :: u32) AND GZIP_FLAG_EXTR \<noteq> 0 \<longleftrightarrow> gh_extra h \<noteq> None"
  "(ucast (header_flags h) :: u32) AND GZIP_FLAG_NAME \<noteq> 0 \<longleftrightarrow> gh_name h \<noteq> None"
  "(ucast (header_flags h) :: u32) AND GZIP_FLAG_COMM \<noteq> 0 \<longleftrightarrow> gh_comment h \<noteq> None"
  "(ucast (header_flags h) :: u32) AND GZIP_FLAG_HCRC \<noteq> 0 \<longleftrightarrow> gh_crc h \<noteq> None"
  by (cases "gh_extra h = None"; cases "gh_name h = None"; cases "gh_comment h = None"; cases "gh_crc h = None";
      simp add: header_flags_def GZIP_FLAG_EXTR_def GZIP_FLAG_NAME_def GZIP_FLAG_COMM_def GZIP_FLAG_HCRC_def)+

lemma skip_header_spec:
  assumes "header_ok h" and "gz_input s = header_tail h @ bs"
  shows "skip_header (ucast (header_flags h)) s = Some (s\<lparr>gz_input := bs\<rparr>)"
proof -
  let ?c = "(case gh_crc h of None \<Rightarrow> [] | Some c \<Rightarrow> le16 c) @ bs"
  let ?m = "(case gh_comment h of None \<Rightarrow> [] | Some x \<Rightarrow> x @ [0]) @ ?c"
  let ?n = "(case gh_name h of None \<Rightarrow> [] | Some x \<Rightarrow> x @ [0]) @ ?m"
  have 1: "(if (ucast (header_flags h) :: u32) AND GZIP_FLAG_EXTR \<noteq> 0 then do { (n, s) \<leftarrow> read_16le s; skip_bytes (unat n) s } else Some s) = Some (s\<lparr>gz_input := ?n\<rparr>)"
  proof (cases "gh_extra h")
    case None
    then show ?thesis using assms(2) unfolding header_flag_bits by (simp add: header_tail_def)
  next
    case (Some x)
    then have n: "unat (of_nat (length x) :: u16) = length x" using assms(1) by (simp add: header_ok_def unat_of_nat take_bit_nat_eq_self)
    have "read_16le s = Some (of_nat (length x), s\<lparr>gz_input := x @ ?n\<rparr>)"
      by (rule le16_read) (use assms(2) Some in \<open>simp add: header_tail_def\<close>)
    then show ?thesis unfolding header_flag_bits using Some skip_bytes_spec [of "s\<lparr>gz_input := x @ ?n\<rparr>" x ?n] n by simp
  qed
  have 2: "(if (ucast (header_flags h) :: u32) AND GZIP_FLAG_NAME \<noteq> 0 then skip_string (s\<lparr>gz_input := ?n\<rparr>) else Some (s\<lparr>gz_input := ?n\<rparr>)) = Some (s\<lparr>gz_input := ?m\<rparr>)"
    unfolding header_flag_bits using skip_string_spec [of "s\<lparr>gz_input := ?n\<rparr>" _ ?m] assms(1)
    by (cases "gh_name h") (auto simp: header_ok_def)
  have 3: "(if (ucast (header_flags h) :: u32) AND GZIP_FLAG_COMM \<noteq> 0 then skip_string (s\<lparr>gz_input := ?m\<rparr>) else Some (s\<lparr>gz_input := ?m\<rparr>)) = Some (s\<lparr>gz_input := ?c\<rparr>)"
    unfolding header_flag_bits using skip_string_spec [of "s\<lparr>gz_input := ?m\<rparr>" _ ?c] assms(1)
    by (cases "gh_comment h") (auto simp: header_ok_def)
  have 4: "(if (ucast (header_flags h) :: u32) AND GZIP_FLAG_HCRC \<noteq> 0 then map_option snd (read_16le (s\<lparr>gz_input := ?c\<rparr>)) else Some (s\<lparr>gz_input := ?c\<rparr>)) = Some (s\<lparr>gz_input := bs\<rparr>)"
    unfolding header_flag_bits using le16_read [of "s\<lparr>gz_input := ?c\<rparr>" _ bs] by (cases "gh_crc h") auto
  show ?thesis by (simp only: skip_header_def 1 2 3 4 Option.bind.simps)
qed

lemma deflate_decompress_spec:
  assumes stack: "length (hf_symbols stack) = 288" and p: "gz_pointer s < 0x8000" "gz_output s = []"
    and inp: "gz_input s = pack (deflate_bits 0 bs) @ rest" and ok: "bs \<noteq> []" "list_all block_ok bs" "deflate_bytes bs [] = Some out"
  obtains s' where "deflate_decompress stack s = Some (0, s')" and "gz_input s' = rest" and "gz_output s' = out"
proof -
  obtain fl fd where f: "build_fixed = Some (fl, fd)" "table_for fixed_literal_lengths fl" "table_for fixed_dist_lengths fd"
    by (rule build_fixed_spec)
  let ?s = "s\<lparr>gz_bit_buffer := 0, gz_buffer_size := 0\<rparr>"
  have "bits_of (pack (deflate_bits 0 bs)) = deflate_bits 0 bs" using deflate_bits_aligned [of 0 bs] by (intro bits_of_pack) simp
  then have st: "gzst ?s (deflate_bits 0 bs @ bits_of rest) []" using p inp by (simp add: gzst_def stream_def window_def)
  obtain s' pad where s': "deflate_loop fl fd stack ?s = Some (0, s')" "gzst s' (pad @ bits_of rest) out" "length pad < 8"
    using deflate_loop_spec [OF f(2,3) stack st ok] by blast
  have "gz_input s' = rest" by (rule gzst_input [OF s'(2,3)])
  moreover have "gz_output s' = out" using s'(2) by (simp add: gzst_def)
  moreover have "deflate_decompress stack s = Some (0, s')" 
    by (simp only: deflate_decompress_def Let_def f(1) s'(1) Option.bind.simps prod.case)
  ultimately show thesis using that by blast
qed

lemma gzip_decompress_spec:
  assumes stack: "length (hf_symbols stack) = 288" and p: "gz_pointer s < 0x8000" and h: "header_ok h" and tr: "length trailer = 8"
    and ok: "bs \<noteq> []" "list_all block_ok bs" "deflate_bytes bs [] = Some out"
  obtains s' where "gzip_decompress stack (gz_start (gzip_file h bs trailer @ rest) s) = Some (0, s')"
    and "gz_output s' = out" and "gz_input s' = rest"
proof -
  let ?d = "pack (deflate_bits 0 bs) @ (trailer @ rest)"
  let ?s = "s\<lparr>gz_output := [], gz_input := ?d\<rparr>"
  let ?i = "\<lambda>xs. s\<lparr>gz_output := [], gz_input := xs\<rparr>"
  obtain n where mt: "read_32le (?i (gh_mtime h @ [gh_xflags h, gh_os h] @ header_tail h @ ?d)) = Some (n, ?i ([gh_xflags h, gh_os h] @ header_tail h @ ?d))"
    using read_32le_any [of "?i (gh_mtime h @ [gh_xflags h, gh_os h] @ header_tail h @ ?d)" "gh_mtime h"] h by (auto simp: header_ok_def)
  have sk: "skip_header (ucast (header_flags h)) (?i (header_tail h @ ?d)) = Some ?s"
    using skip_header_spec [OF h, of "?i (header_tail h @ ?d)" ?d] by simp
  have inp: "gz_input ?s = pack (deflate_bits 0 bs) @ (trailer @ rest)" and p': "gz_pointer ?s < 0x8000" "gz_output ?s = []" using p by simp_all
  obtain s1 where s1: "deflate_decompress stack ?s = Some (0, s1)" "gz_input s1 = trailer @ rest" "gz_output s1 = out"
    by (rule deflate_decompress_spec [OF stack p' inp ok])
  obtain a b where ab: "trailer = a @ b" "length a = 4" "length b = 4" 
    using that [of "take 4 trailer" "drop 4 trailer"] tr by simp
  obtain c where c: "read_32le s1 = Some (c, s1\<lparr>gz_input := b @ rest\<rparr>)" using read_32le_any [of s1 a "b @ rest"] s1(2) ab by auto
  obtain z where z: "read_32le (s1\<lparr>gz_input := b @ rest\<rparr>) = Some (z, s1\<lparr>gz_input := rest\<rparr>)"
    using read_32le_any [of "s1\<lparr>gz_input := b @ rest\<rparr>" b rest] ab by auto
  have start: "gz_start (gzip_file h bs trailer @ rest) s =
      ?i (0x1F # 0x8B # 8 # header_flags h # (gh_mtime h @ [gh_xflags h, gh_os h] @ header_tail h @ ?d))"
    by (simp add: gz_start_def gzip_file_def)
  have "gzip_decompress stack (gz_start (gzip_file h bs trailer @ rest) s) = Some (0, s1\<lparr>gz_input := rest\<rparr>)"
    unfolding start gzip_decompress_def using mt sk s1(1) c z by (simp add: read_byte_Cons)
  then show thesis using that s1(3) by simp
qed

text \<open>A table of bases and extra bits without gaps.\<close>

fun reaches :: "nat \<Rightarrow> (nat \<times> nat) list \<Rightarrow> nat \<Rightarrow> bool" where
  "reaches lo [] hi \<longleftrightarrow> hi \<le> lo"
| "reaches lo ((b, x) # ts) hi \<longleftrightarrow> b \<le> lo \<and> reaches (b + 2 ^ x) ts hi"

lemma reaches_some: "reaches lo ts hi \<Longrightarrow> lo \<le> n \<Longrightarrow> n < hi \<Longrightarrow> \<exists>(b, x) \<in> set ts. b \<le> n \<and> n < b + 2 ^ x"
proof (induction lo ts hi rule: reaches.induct)
  case (2 lo b x ts hi)
  then show ?case by (cases "n < b + 2 ^ x") auto
qed simp

lemma reaches_at:
  assumes "reaches lo (zip bs xs) hi" and "lo \<le> n" and "n < hi"
  shows "\<exists>i < length bs. bs ! i \<le> n \<and> n < bs ! i + 2 ^ (xs ! i)"
  using reaches_some [OF assms] by (auto simp: set_zip)

lemma uncompressed_bad:
  assumes s: "gzst s (pad @ bits_of (le16 n @ le16 m @ rest) @ []) out" and pad: "length pad < 8" and ne: "m \<noteq> NOT n"
  obtains s' where "uncompressed s = Some (1, s')" and "gzst s' (bits_of rest) out"
proof -
  let ?s = "s\<lparr>gz_bit_buffer := 0, gz_buffer_size := 0\<rparr>"
  obtain ys where "[] = bits_of ys" "gzst ?s (bits_of ((le16 n @ le16 m @ rest) @ ys)) out" by (rule gzst_align [OF s pad]) simp
  then have st: "gzst ?s (bits_of (le16 n @ (le16 m @ rest))) out" by simp
  obtain s1 where s1: "read_16le ?s = Some (n, s1)" "gzst s1 (bits_of (le16 m @ rest)) out" by (rule read_16le_spec [OF st])
  obtain s2 where s2: "read_16le s1 = Some (m, s2)" "gzst s2 (bits_of rest) out" by (rule read_16le_spec [OF s1(2)])
  have "uncompressed s = Some (1, s2)" using s1(1) s2(1) ne by (simp add: uncompressed_def)
  then show thesis using that s2(2) by blast
qed

section \<open>Properties\<close>

definition plain_header :: gzip_header where
  "plain_header = \<lparr>gh_mtime = [0, 0, 0, 0], gh_xflags = 0, gh_os = 3, gh_extra = None, gh_name = Some [97], gh_comment = None, gh_crc = None\<rparr>"

definition gz_example :: gz where
  "gz_example = \<lparr>gz_bit_buffer = 0, gz_buffer_size = 0, gz_input = [], gz_output = [], gz_pointer = 0, gz_data = (\<lambda>i. 0)\<rparr>"

text \<open>
  Property C1: Decompressing a gzip file gives back what was compressed.  For every header and every sequence of stored, fixed and
  dynamic blocks that is encoded as RFC 1951 and RFC 1952 say, the decompressor returns success, its output is the
  expansion of the blocks, and it stops behind the trailer.
\<close>

theorem gzip_roundtrip:
  assumes "length (hf_symbols stack) = 288" and "gz_pointer s < 0x8000" and "header_ok h" and "length trailer = 8"
    and "bs \<noteq> []" and "list_all block_ok bs" and "deflate_bytes bs [] = Some out"
  shows "\<exists>s'. gzip_decompress stack (gz_start (gzip_file h bs trailer @ rest) s) = Some (0, s') \<and>
    gz_output s' = out \<and> gz_input s' = rest"
  by (rule gzip_decompress_spec [OF assms]) blast

theorem gzip_roundtrip_witness:
  "\<exists>s'. gzip_decompress zero_huff (gz_start (gzip_file plain_header [Stored [104, 105], Fixed [Literal 97, Match 0 0 1 0]] (replicate 8 0) @ [7]) gz_example) =
      Some (0, s') \<and> gz_output s' = [104, 105, 97, 105, 97, 105] \<and> gz_input s' = [7]"
proof (rule gzip_roundtrip)
  have "lens ! 0 = 3" "dists ! 1 = 2" "lext ! 0 = 0" "dext ! 1 = 0" by (simp_all add: lens_def dists_def lext_def dext_def)
  then show "deflate_bytes [Stored [104, 105], Fixed [Literal 97, Match 0 0 1 0]] [] = Some [104, 105, 97, 105, 97, 105]"
    and "list_all block_ok [Stored [104, 105], Fixed [Literal 97, Match 0 0 1 0]]"
    by (simp_all add: numeral_3_eq_3 coded_def fixed_literal_lengths_def nth_append)
qed (simp_all add: zero_huff_def gz_example_def plain_header_def header_ok_def)

text \<open>
  Property C15: Decoding inverts the canonical Huffman code: a table built from code lengths that satisfy the Kraft inequality
  decodes the code word of every symbol, as RFC 1951 assigns it, to that symbol and consumes exactly the word.
\<close>

theorem huffman_decode_inverts:
  assumes "huff_ok ls" and "length (hf_symbols out) = 288" and "coded ls sy" and "gzst s (code_bits ls sy @ bs) written"
  shows "\<exists>h s'. build_huffman ls out = Some h \<and> decode h s = Some (sy, s') \<and> gzst s' bs written"
proof -
  obtain h where h: "build_huffman ls out = Some h" "table_for ls h" by (rule build_huffman_spec [OF assms(1,2)])
  obtain s' where "decode h s = Some (sy, s')" "gzst s' bs written" by (rule decode_spec [OF h(2) assms(1,3,4)])
  then show ?thesis using h(1) by blast
qed

theorem huffman_decode_inverts_witness:
  "\<exists>h s'. build_huffman [2, 1, 2] zero_huff = Some h \<and>
     decode h (gz_example\<lparr>gz_bit_buffer := 3, gz_buffer_size := 2\<rparr>) = Some (2, s') \<and> gzst s' [] []"
proof (rule huffman_decode_inverts)
  show "huff_ok [2, 1, 2]" by (simp add: huff_ok_def all_less_16 bl_count_def first_code_numeral)
  show "gzst (gz_example\<lparr>gz_bit_buffer := 3, gz_buffer_size := 2\<rparr>) (code_bits [2, 1, 2] 2 @ []) []"
  proof -
    have "stream (gz_example\<lparr>gz_bit_buffer := 3, gz_buffer_size := 2\<rparr>) = code_bits [2, 1, 2] 2 @ []" by code_simp
    then show ?thesis by (simp add: gzst_def gz_example_def window_def)
  qed
qed (simp_all add: zero_huff_def coded_def)

text \<open>
  Fact: The tables of lengths and distances are complete: every match of 3 to 258 bytes at a distance of 1 to 32768
  has codes and extra bits that decode to it.
\<close>

theorem match_tables_complete:
  assumes "3 \<le> n" and "n \<le> 258" and "1 \<le> d" and "d \<le> 32768"
  shows "\<exists>i e j f. i < length lens \<and> e < 2 ^ (lext ! i) \<and> e + lens ! i = n \<and> j < length dists \<and> f < 2 ^ (dext ! j) \<and> f + dists ! j = d"
proof -
  have "reaches 3 (zip lens lext) 259" "reaches 1 (zip dists dext) 32769"
    by (simp_all add: lens_def lext_def dists_def dext_def)
  then obtain i j where "i < 29" "lens ! i \<le> n" "n < lens ! i + 2 ^ (lext ! i)" "j < 30" "dists ! j \<le> d" "d < dists ! j + 2 ^ (dext ! j)"
    using reaches_at [of 3 lens lext 259 n] reaches_at [of 1 dists dext 32769 d] assms by auto
  then show ?thesis by (intro exI [of _ i] exI [of _ "n - lens ! i"] exI [of _ j] exI [of _ "d - dists ! j"]) auto
qed

theorem match_tables_complete_witness:
  "\<exists>i e j f. i < length lens \<and> e < 2 ^ (lext ! i) \<and> e + lens ! i = 100 \<and> j < length dists \<and> f < 2 ^ (dext ! j) \<and> f + dists ! j = 30000"
  by (rule match_tables_complete) simp_all

text \<open>
  Fact: A stored block whose length does not match its complement is dropped without an error: the decompressor ignores
  the result of \<open>uncompressed\<close> and goes on behind the two length fields.
\<close>

theorem bad_stored_block_ignored:
  assumes "gzst s (True # num_bits 2 0 @ pad @ bits_of (le16 n @ le16 m @ rest)) out" and "length pad < 8" and "m \<noteq> NOT n"
  shows "\<exists>s'. deflate_loop fl fd stack s = Some (0, s') \<and> gz_output s' = out \<and> gz_input s' = rest"
proof -
  obtain s1 where s1: "read_bit s = Some (True, s1)" "gzst s1 (num_bits 2 0 @ (pad @ bits_of (le16 n @ le16 m @ rest))) out"
    by (rule read_bit_spec [OF assms(1)])
  obtain s2 where s2: "read_bits 2 s1 = Some (0, s2)" "gzst s2 (pad @ bits_of (le16 n @ le16 m @ rest) @ []) out"
    by (rule read_bits_spec [OF s1(2)]) simp_all
  obtain s3 where s3: "uncompressed s2 = Some (1, s3)" "gzst s3 (bits_of rest) out"
    by (rule uncompressed_bad [OF s2(2) assms(2,3)])
  have "block fl fd stack 0 s2 = Some s3" using s3(1) by (simp add: block_def)
  then have "deflate_loop fl fd stack s = Some (0, s3)" using deflate_loop_step [OF s1(1) s2(1)] by simp
  then show ?thesis using s3(2) gzst_input [of s3 "[]" rest out] by (auto simp: gzst_def)
qed

theorem bad_stored_block_ignored_witness:
  "\<exists>s'. deflate_loop zero_huff zero_huff zero_huff (gz_example\<lparr>gz_input := [1, 5, 0, 5, 0]\<rparr>) = Some (0, s') \<and> gz_output s' = [] \<and> gz_input s' = []"
proof (rule bad_stored_block_ignored [where pad = "[False, False, False, False, False]" and n = 5 and m = 5])
  have "stream (gz_example\<lparr>gz_input := [1, 5, 0, 5, 0]\<rparr>) =
      True # num_bits 2 0 @ [False, False, False, False, False] @ bits_of (le16 5 @ le16 5 @ [])" by code_simp
  then show "gzst (gz_example\<lparr>gz_input := [1, 5, 0, 5, 0]\<rparr>)
      (True # num_bits 2 0 @ [False, False, False, False, False] @ bits_of (le16 5 @ le16 5 @ [])) []"
    by (simp add: gzst_def gz_example_def window_def)
qed simp_all

text \<open>
  Fact: A block with its own codes decodes: the code lengths are read from the header through their runs, both tables
  are built from them, and the data of the block expands as its literals and matches say.
\<close>

theorem dynamic_block_decodes:
  assumes "codes_ok c" and "length (hf_symbols stack) = 288"
    and "gzst s (codes_bits c @ data_bits (lit_lengths c) (dist_lengths c) ts @ bs) out"
    and "list_all (token_ok (lit_lengths c) (dist_lengths c)) ts" and "expand ts out = Some out'"
  shows "\<exists>s'. decode_huffman stack s = Some s' \<and> gzst s' bs out'"
  by (rule decode_huffman_spec [OF assms])

text \<open>Codes of one bit for the byte 97 and the end of the block, and one distance.\<close>

definition codes_example :: codes where
  "codes_example = \<lparr>cd_hlit = 0, cd_hdist = 0, cd_hclen = 14,
     cd_lengths = [0, 1] @ replicate 16 0 @ [1], cd_runs = [ManyZeros 86, Len 1, ManyZeros 127, ManyZeros 9, Len 1, Len 1]\<rparr>"

lemma codes_example_lengths:
  "all_lengths codes_example = replicate 97 0 @ [1] @ replicate 158 0 @ [1] @ [1]"
  "lit_lengths codes_example = replicate 97 0 @ [1] @ replicate 158 0 @ [1]" "dist_lengths codes_example = [1]"
proof -
  show a: "all_lengths codes_example = replicate 97 0 @ [1] @ replicate 158 0 @ [1] @ [1]"
    by (simp add: all_lengths_def codes_example_def flip: replicate_add)
  show "lit_lengths codes_example = replicate 97 0 @ [1] @ replicate 158 0 @ [1]" "dist_lengths codes_example = [1]"
    unfolding lit_lengths_def dist_lengths_def a by (simp_all add: codes_example_def)
qed

lemma one_bit_ok:
  assumes "length ls \<le> 288" and "set ls \<subseteq> {0, 1}" and "count_list ls 1 \<le> 2"
  shows "huff_ok ls"
proof -
  have "bl_count ls l = (if l = 1 then count_list ls 1 else 0)" for l
    using assms(2) by (auto simp: bl_count_def count_list_0_iff)
  then have "\<forall>l < 16. first_code ls l + bl_count ls l \<le> 2 ^ l" using assms(3) unfolding all_less_16 by (simp add: first_code_numeral)
  then show ?thesis using assms(1,2) by (auto simp: huff_ok_def)
qed

lemma codes_example_ok: "codes_ok codes_example"
proof -
  have "huff_ok (lit_lengths codes_example)" "huff_ok (dist_lengths codes_example)"
    by (rule one_bit_ok; simp add: codes_example_lengths fixed_counts)+
  moreover have "huff_ok (cd_lengths codes_example)" by (rule one_bit_ok; simp add: codes_example_def fixed_counts)
  moreover have "coded (lit_lengths codes_example) 256" unfolding codes_example_lengths by (simp add: coded_def nth_append)
  moreover have "run_lengths (cd_runs codes_example) [] \<noteq> None" "length (all_lengths codes_example) = 258"
    by (simp add: codes_example_def, simp add: codes_example_lengths)
  ultimately show ?thesis unfolding codes_ok_def
    by (simp add: codes_example_def clens_def coded_def nth_append)
qed

text \<open>The bits of a block with the single literal 97, in a reader that has just these.\<close>

definition dynamic_example :: gz where
  "dynamic_example = gz_example\<lparr>gz_input := pack (codes_bits codes_example @
     data_bits (lit_lengths codes_example) (dist_lengths codes_example) [Literal 97] @ replicate 7 False)\<rparr>"

theorem dynamic_block_decodes_witness:
  "\<exists>s'. decode_huffman zero_huff dynamic_example = Some s' \<and> gzst s' (replicate 7 False) [97]"
proof (rule dynamic_block_decodes [OF codes_example_ok])
  let ?b = "codes_bits codes_example @ data_bits (lit_lengths codes_example) (dist_lengths codes_example) [Literal 97] @ replicate 7 False"
  have "length ?b mod 8 = 0"
    by (simp add: codes_bits_def data_bits_def codes_example_lengths) (simp add: codes_example_def code_bits_def clens_def nth_append)
  then have "bits_of (pack ?b) = ?b" by (rule bits_of_pack)
  then show "gzst dynamic_example ?b []" by (simp add: gzst_def stream_def window_def dynamic_example_def gz_example_def)
  show "list_all (token_ok (lit_lengths codes_example) (dist_lengths codes_example)) [Literal 97]"
    unfolding codes_example_lengths by (simp add: coded_def nth_append)
qed (simp_all add: zero_huff_def)

end
