(* ===== verification/Byte_Ring.thy ===== *)
theory Byte_Ring
  imports Kernel_Prelude
begin

text \<open>
  The geometry of a circular byte buffer with one slot kept free, shared by
  \<open>kernel/misc/ringbuffer.c\<close> and \<open>kernel/vfs/pipe.c\<close>.  The two C files repeat the same
  arithmetic on their own structs, so the facts about it are proved once, in a locale whose
  parameters are the fields and the loops of such a struct and whose assumptions are the
  equations of the code.
\<close>

section \<open>The bytes between the pointers\<close>

definition ring_bytes :: "u8 list \<Rightarrow> u64 \<Rightarrow> u64 \<Rightarrow> u8 list" where
  "ring_bytes buf r w =
     (if r \<le> w then take (unat w - unat r) (drop (unat r) buf)
      else drop (unat r) buf @ take (unat w) buf)"

definition ring_geom :: "u8 list \<Rightarrow> u64 \<Rightarrow> u64 \<Rightarrow> u64 \<Rightarrow> bool" where
  "ring_geom buf r w sz \<longleftrightarrow> length buf = unat sz \<and> r < sz \<and> w < sz"

definition ring_unread :: "u64 \<Rightarrow> u64 \<Rightarrow> u64 \<Rightarrow> u64" where
  "ring_unread r w sz = (if r = w then 0 else if r > w then (sz - r) + w else w - r)"

definition ring_available :: "u64 \<Rightarrow> u64 \<Rightarrow> u64 \<Rightarrow> u64" where
  "ring_available r w sz =
     (if r = w then sz - 1 else if r > w then r - w - 1 else (sz - w) + r - 1)"

definition ring_next :: "u64 \<Rightarrow> u64 \<Rightarrow> u64" where
  "ring_next p sz = (if p + 1 = sz then 0 else p + 1)"

lemma unat_ring_next:
  assumes "p < sz"
  shows "unat (ring_next p sz) = (if Suc (unat p) = unat sz then 0 else Suc (unat p))"
proof -
  have "Suc (unat p) \<le> unat sz" using assms by (simp add: word_less_nat_alt)
  also have "unat sz < 2 ^ 64" by (rule unat_lt_64)
  finally have "unat (p + 1) = Suc (unat p)" by (rule unat_succ_64)
  then show ?thesis by (auto simp: ring_next_def word_unat_eq_iff)
qed

lemma ring_next_lt: "p < sz \<Longrightarrow> ring_next p sz < sz"
  by (auto simp: word_less_nat_alt unat_ring_next)

lemma unat_ring_unread:
  assumes "r < sz" and "w < sz"
  shows "unat (ring_unread r w sz) =
    (if unat r \<le> unat w then unat w - unat r else unat sz - unat r + unat w)"
proof -
  have "unat (sz - r + w) = unat sz - unat r + unat w" if "w < r"
  proof -
    have d: "unat (sz - r) = unat sz - unat r" using assms by (intro unat_sub_64) simp
    have "unat sz - unat r + unat w < unat sz"
      using that assms by (simp add: word_less_nat_alt)
    also have "\<dots> < 2 ^ 64" by (rule unat_lt_64)
    finally show ?thesis using unat_add_64 [of "sz - r" w] d by simp
  qed
  then show ?thesis
    using assms unat_sub_64 [of r w]
    by (auto simp: ring_unread_def word_less_nat_alt word_le_nat_alt word_unat_eq_iff)
qed

lemma unat_ring_available:
  assumes "r < sz" and "w < sz"
  shows "unat (ring_available r w sz) = unat sz - 1 - unat (ring_unread r w sz)"
proof -
  have sz: "sz \<noteq> 0" using assms(1) by auto
  consider "r = w" | "w < r" | "r < w" by (rule linorder_cases)
  then show ?thesis
  proof cases
    case 1
    then show ?thesis using sz by (simp add: ring_available_def ring_unread_def unat_pred_64)
  next
    case 2
    then have "unat (r - w) = unat r - unat w" "r - w \<noteq> 0"
      by (auto intro: unat_sub_64)
    then have "unat (r - w - 1) = unat r - unat w - 1" using unat_pred_64 by metis
    with 2 assms show ?thesis
      by (auto simp: ring_available_def unat_ring_unread word_less_nat_alt)
  next
    case 3
    have d: "unat (sz - w) = unat sz - unat w" using assms by (intro unat_sub_64) simp
    have "unat (sz - w + r) = unat sz - unat w + unat r"
    proof -
      have "unat sz - unat w + unat r < unat sz" using 3 assms by (simp add: word_less_nat_alt)
      also have "\<dots> < 2 ^ 64" by (rule unat_lt_64)
      finally show ?thesis using unat_add_64 [of "sz - w" r] d by simp
    qed
    moreover from this have "sz - w + r \<noteq> 0" using assms by (auto simp: word_less_nat_alt)
    ultimately have "unat (sz - w + r - 1) = unat sz - unat w + unat r - 1" using unat_pred_64 by metis
    with 3 assms show ?thesis
      by (auto simp: ring_available_def unat_ring_unread word_less_nat_alt)
  qed
qed

lemma length_ring_bytes:
  assumes "ring_geom buf r w sz"
  shows "length (ring_bytes buf r w) = unat (ring_unread r w sz)"
    and "length (ring_bytes buf r w) \<le> unat sz - 1"
  using assms
  by (auto simp: ring_geom_def ring_bytes_def unat_ring_unread word_less_nat_alt word_le_nat_alt)

lemma ring_bytes_Nil_iff:
  "ring_geom buf r w sz \<Longrightarrow> ring_bytes buf r w = [] \<longleftrightarrow> ring_unread r w sz = 0"
  using length_ring_bytes(1) by (metis length_0_conv unat_eq_zero)

lemma ring_bytes_take:
  assumes g: "ring_geom buf r w sz" and ne: "ring_bytes buf r w \<noteq> []"
  shows "ring_bytes buf r w = buf ! unat r # ring_bytes buf (ring_next r sz) w"
proof -
  have b: "unat r < length buf" "unat w < length buf" "length buf = unat sz" and rs: "r < sz"
    using g by (auto simp: ring_geom_def word_less_nat_alt)
  note n = unat_ring_next [OF rs]
  have d: "drop (unat r) buf = buf ! unat r # drop (Suc (unat r)) buf"
    using b(1) by (simp add: Cons_nth_drop_Suc)
  show ?thesis
  proof (cases "r \<le> w")
    case True
    then have lt: "unat r < unat w" using ne by (auto simp: ring_bytes_def word_le_nat_alt)
    then have "take (unat w - unat r) (drop (unat r) buf) =
        buf ! unat r # take (unat w - Suc (unat r)) (drop (Suc (unat r)) buf)"
      unfolding d by (metis Suc_diff_Suc take_Suc_Cons)
    with True lt b show ?thesis by (auto simp: ring_bytes_def word_le_nat_alt n)
  next
    case False
    then show ?thesis using b d by (auto simp: ring_bytes_def word_le_nat_alt n)
  qed
qed

lemma ring_bytes_put:
  assumes g: "ring_geom buf r w sz" and room: "length (ring_bytes buf r w) < unat sz - 1"
  shows "ring_bytes (buf[unat w := b]) r (ring_next w sz) = ring_bytes buf r w @ [b]"
proof -
  have l: "unat r < length buf" "unat w < length buf" "length buf = unat sz" and ws: "w < sz"
    using g by (auto simp: ring_geom_def word_less_nat_alt)
  note n = unat_ring_next [OF ws]
  have t: "take (Suc (unat w)) (buf[unat w := b]) = take (unat w) buf @ [b]"
    using l(2) by (simp add: take_Suc_conv_app_nth)
  show ?thesis
  proof (cases "r \<le> w")
    case True
    then have rw: "unat r \<le> unat w" by (simp add: word_le_nat_alt)
    have d: "take (Suc (unat w) - unat r) (drop (unat r) (buf[unat w := b])) =
        take (unat w - unat r) (drop (unat r) buf) @ [b]"
      using rw l t by (simp add: take_drop)
    show ?thesis
    proof (cases "Suc (unat w) = unat sz")
      case True
      have "unat r \<noteq> 0" using room True rw l \<open>r \<le> w\<close> by (auto simp: ring_bytes_def)
      then show ?thesis using True rw l d \<open>r \<le> w\<close> by (auto simp: ring_bytes_def word_le_nat_alt n)
    next
      case False
      then show ?thesis using rw d \<open>r \<le> w\<close> by (auto simp: ring_bytes_def word_le_nat_alt n)
    qed
  next
    case False
    then have "Suc (unat w) < unat r" using room l by (auto simp: ring_bytes_def word_le_nat_alt)
    with False l t show ?thesis by (auto simp: ring_bytes_def word_le_nat_alt n)
  qed
qed

lemma ring_geom_take: "ring_geom buf r w sz \<Longrightarrow> ring_geom buf (ring_next r sz) w sz"
  by (simp add: ring_geom_def ring_next_lt)

lemma ring_geom_put: "ring_geom buf r w sz \<Longrightarrow> ring_geom (buf[unat w := b]) r (ring_next w sz) sz"
  by (simp add: ring_geom_def ring_next_lt)


section \<open>The interface of a circular buffer\<close>

text \<open>
  \<open>collect n\<close> is the loop that moves out up to \<open>n\<close> bytes while there are unread ones and
  \<open>fill bs\<close> the loop that stores the bytes \<open>bs\<close> while there is room, returning how many.
\<close>

locale byte_ring =
  fixes buf :: "'s \<Rightarrow> u8 list" and rd :: "'s \<Rightarrow> u64" and wr :: "'s \<Rightarrow> u64" and sz :: "'s \<Rightarrow> u64"
    and take_step :: "'s \<Rightarrow> 's" and put_step :: "u8 \<Rightarrow> 's \<Rightarrow> 's"
    and unread :: "'s \<Rightarrow> u64" and available :: "'s \<Rightarrow> u64"
    and collect :: "nat \<Rightarrow> 's \<Rightarrow> u8 list \<times> 's"
    and fill :: "u8 list \<Rightarrow> 's \<Rightarrow> nat \<times> 's"
  assumes unread_eq: "unread s = ring_unread (rd s) (wr s) (sz s)"
    and available_eq: "available s = ring_available (rd s) (wr s) (sz s)"
    and take_fields: "buf (take_step s) = buf s" "wr (take_step s) = wr s" "sz (take_step s) = sz s"
      "rd (take_step s) = ring_next (rd s) (sz s)"
    and put_fields: "buf (put_step b s) = (buf s)[unat (wr s) := b]" "rd (put_step b s) = rd s"
      "sz (put_step b s) = sz s" "wr (put_step b s) = ring_next (wr s) (sz s)"
    and collect_0: "collect 0 s = ([], s)"
    and collect_Suc: "collect (Suc n) s =
      (if unread s > 0
       then let (bs, s') = collect n (take_step s) in (buf s ! unat (rd s) # bs, s')
       else ([], s))"
    and fill_Nil: "fill [] s = (0, s)"
    and fill_Cons: "fill (b # bs) s =
      (if available s > 0 then let (k, s') = fill bs (put_step b s) in (Suc k, s') else (0, s))"
begin

definition ok :: "'s \<Rightarrow> bool" where
  "ok s = ring_geom (buf s) (rd s) (wr s) (sz s)"

definition bytes :: "'s \<Rightarrow> u8 list" where
  "bytes s = ring_bytes (buf s) (rd s) (wr s)"

definition room :: "'s \<Rightarrow> nat" where
  "room s = unat (sz s) - 1 - length (bytes s)"

lemma unread_bytes: "ok s \<Longrightarrow> unat (unread s) = length (bytes s)"
  by (simp add: ok_def bytes_def unread_eq length_ring_bytes(1))

lemma available_room: "ok s \<Longrightarrow> unat (available s) = room s"
  using unat_ring_available [of "rd s" "sz s" "wr s"] length_ring_bytes(1)
  by (fastforce simp: ok_def bytes_def room_def available_eq ring_geom_def)

lemma unread_pos: "ok s \<Longrightarrow> unread s > 0 \<longleftrightarrow> bytes s \<noteq> []"
  using unread_bytes by (metis length_greater_0_conv unat_gt_0 word_neq_0_conv)

lemma available_pos: "ok s \<Longrightarrow> available s > 0 \<longleftrightarrow> room s > 0"
  using available_room by (metis unat_gt_0 word_neq_0_conv)

lemma in_bounds: "ok s \<Longrightarrow> unat (rd s) < length (buf s) \<and> unat (wr s) < length (buf s)"
  by (simp add: ok_def ring_geom_def word_less_nat_alt)

lemma take_step_ok: "ok s \<Longrightarrow> ok (take_step s)"
  by (simp add: ok_def take_fields ring_geom_take)

lemma put_step_ok: "ok s \<Longrightarrow> ok (put_step b s)"
  by (simp add: ok_def put_fields ring_geom_put)

lemma take_step_bytes: "ok s \<Longrightarrow> bytes s \<noteq> [] \<Longrightarrow> bytes s = buf s ! unat (rd s) # bytes (take_step s)"
  by (simp add: ok_def bytes_def take_fields ring_bytes_take)

lemma put_step_bytes: "ok s \<Longrightarrow> room s > 0 \<Longrightarrow> bytes (put_step b s) = bytes s @ [b]"
  by (simp add: ok_def bytes_def room_def put_fields ring_bytes_put)

text \<open>Taking bytes out: a prefix of the contents, in order, and the rest remains.\<close>

lemma collect_spec:
  "ok s \<Longrightarrow> fst (collect n s) = take n (bytes s) \<and> bytes (snd (collect n s)) = drop n (bytes s) \<and>
   ok (snd (collect n s)) \<and> sz (snd (collect n s)) = sz s"
proof (induction n arbitrary: s)
  case (Suc n)
  show ?case
  proof (cases "bytes s = []")
    case False
    from Suc.IH [OF take_step_ok [OF Suc.prems]] show ?thesis
      using False take_step_bytes [OF Suc.prems False] unread_pos [OF Suc.prems]
      by (auto simp: collect_Suc split: prod.splits) (simp_all add: take_fields)
  qed (use Suc.prems unread_pos in \<open>auto simp: collect_Suc\<close>)
qed (simp add: collect_0)

text \<open>Putting bytes in: as many as fit, appended in order.\<close>

lemma fill_spec:
  "ok s \<Longrightarrow> fst (fill bs s) = min (length bs) (room s) \<and>
   bytes (snd (fill bs s)) = bytes s @ take (room s) bs \<and>
   ok (snd (fill bs s)) \<and> sz (snd (fill bs s)) = sz s"
proof (induction bs arbitrary: s)
  case (Cons b bs)
  show ?case
  proof (cases "room s > 0")
    case True
    have r: "room s = Suc (room (put_step b s))"
      using True put_step_bytes [OF Cons.prems True, of b] by (simp add: room_def put_fields)
    from Cons.IH [OF put_step_ok [OF Cons.prems, of b]] show ?thesis
      using True put_step_bytes [OF Cons.prems True, of b] available_pos [OF Cons.prems] r
      by (cases "fill bs (put_step b s)") (simp add: fill_Cons put_fields)
  qed (use Cons.prems available_pos in \<open>auto simp: fill_Cons\<close>)
qed (simp add: fill_Nil)

lemma fill_then_collect:
  assumes "ok s" and "length bs \<le> room s"
  shows "fst (collect (length (bytes s) + length bs) (snd (fill bs s))) = bytes s @ bs"
  using collect_spec fill_spec [OF assms(1), of bs] assms(2) by simp

end

end
