(* ===== verification/Ring_Buffer.thy ===== *)
theory Ring_Buffer
  imports Byte_Ring
begin

text \<open>
  The blocking ring buffer of \<open>kernel/misc/ringbuffer.c\<close>.  The record has the fields of
  \<open>ring_buffer_t\<close>; a wait queue is the sequence of the processes sleeping on it, and two
  history fields collect the processes that were made ready and those alerted, which is
  the effect the calls of \<open>wakeup_queue\<close> and \<open>process_alert_node\<close> have outside this file.

  A call that may sleep is a function of the list of what happens while it sleeps: each
  entry is the change other processes make to the buffer before this one runs again, with
  the flag that \<open>sleep_on_unlocking\<close> returns.  A call that would sleep once more than the
  list has entries is still \<open>Asleep\<close>.
\<close>

section \<open>The struct\<close>

record ring_buffer =
  rb_buffer :: "u8 list"
  rb_write_ptr :: u64
  rb_read_ptr :: u64
  rb_size :: u64
  rb_lock :: bool
  rb_readers :: "ptr list"
  rb_writers :: "ptr list"
  rb_internal_stop :: bool
  rb_alert_waiters :: "ptr list option"
  rb_discard :: bool
  rb_soft_stop :: bool
  rb_woken :: "ptr list"
  rb_alerted :: "ptr list"

datatype 'a io = Returned 'a | Restart | Asleep

type_synonym 'a rb_env = "(('a ring_buffer_scheme \<Rightarrow> 'a ring_buffer_scheme) \<times> bool) list"


section \<open>Operations\<close>

definition ring_buffer_unread :: "'a ring_buffer_scheme \<Rightarrow> u64" where
  "ring_buffer_unread rb =
     (if rb_read_ptr rb = rb_write_ptr rb then 0
      else if rb_read_ptr rb > rb_write_ptr rb
           then (rb_size rb - rb_read_ptr rb) + rb_write_ptr rb
           else rb_write_ptr rb - rb_read_ptr rb)"

definition ring_buffer_size :: "'a ring_buffer_scheme \<Rightarrow> u64" where
  "ring_buffer_size rb = ring_buffer_unread rb"

definition ring_buffer_available :: "'a ring_buffer_scheme \<Rightarrow> u64" where
  "ring_buffer_available rb =
     (if rb_read_ptr rb = rb_write_ptr rb then rb_size rb - 1
      else if rb_read_ptr rb > rb_write_ptr rb
           then rb_read_ptr rb - rb_write_ptr rb - 1
           else (rb_size rb - rb_write_ptr rb) + rb_read_ptr rb - 1)"

definition ring_buffer_increment_read :: "'a ring_buffer_scheme \<Rightarrow> 'a ring_buffer_scheme" where
  "ring_buffer_increment_read rb =
     (let rb = rb\<lparr>rb_read_ptr := rb_read_ptr rb + 1\<rparr>
      in if rb_read_ptr rb = rb_size rb then rb\<lparr>rb_read_ptr := 0\<rparr> else rb)"

definition ring_buffer_increment_write :: "'a ring_buffer_scheme \<Rightarrow> 'a ring_buffer_scheme" where
  "ring_buffer_increment_write rb =
     (let rb = rb\<lparr>rb_write_ptr := rb_write_ptr rb + 1\<rparr>
      in if rb_write_ptr rb = rb_size rb then rb\<lparr>rb_write_ptr := 0\<rparr> else rb)"

text \<open>\<open>wakeup_queue\<close> pops every sleeper, last one first, and makes it ready.\<close>

definition wake_readers :: "'a ring_buffer_scheme \<Rightarrow> 'a ring_buffer_scheme" where
  "wake_readers rb = rb\<lparr>rb_woken := rb_woken rb @ rev (rb_readers rb), rb_readers := []\<rparr>"

definition wake_writers :: "'a ring_buffer_scheme \<Rightarrow> 'a ring_buffer_scheme" where
  "wake_writers rb = rb\<lparr>rb_woken := rb_woken rb @ rev (rb_writers rb), rb_writers := []\<rparr>"

definition ring_buffer_alert_waiters :: "'a ring_buffer_scheme \<Rightarrow> 'a ring_buffer_scheme" where
  "ring_buffer_alert_waiters rb =
     (case rb_alert_waiters rb of None \<Rightarrow> rb
      | Some ws \<Rightarrow> rb\<lparr>rb_alerted := rb_alerted rb @ ws, rb_alert_waiters := Some []\<rparr>)"

text \<open>
  \<open>ring_buffer_select_wait\<close> also records the buffer in the process's \<open>node_waits\<close>, which is
  state of the process.
\<close>

definition ring_buffer_select_wait :: "ptr \<Rightarrow> 'a ring_buffer_scheme \<Rightarrow> 'a ring_buffer_scheme" where
  "ring_buffer_select_wait process rb =
     (let ws = (case rb_alert_waiters rb of None \<Rightarrow> [] | Some ws \<Rightarrow> ws)
      in rb\<lparr>rb_alert_waiters := Some (if process \<in> set ws then ws else ws @ [process])\<rparr>)"

definition ring_buffer_discard :: "'a ring_buffer_scheme \<Rightarrow> 'a ring_buffer_scheme" where
  "ring_buffer_discard rb =
     (let rb = rb\<lparr>rb_lock := True\<rparr>; rb = rb\<lparr>rb_read_ptr := rb_write_ptr rb\<rparr> in rb\<lparr>rb_lock := False\<rparr>)"

text \<open>The loop of the read: at most \<open>n\<close> more bytes.\<close>

fun rb_collect :: "nat \<Rightarrow> 'a ring_buffer_scheme \<Rightarrow> u8 list \<times> 'a ring_buffer_scheme" where
  "rb_collect 0 rb = ([], rb)"
| "rb_collect (Suc n) rb =
     (if ring_buffer_unread rb > 0
      then let b = rb_buffer rb ! unat (rb_read_ptr rb);
               (bs, rb') = rb_collect n (ring_buffer_increment_read rb)
           in (b # bs, rb')
      else ([], rb))"

fun ring_buffer_read :: "ptr \<Rightarrow> u64 \<Rightarrow> 'a rb_env \<Rightarrow> 'a ring_buffer_scheme \<Rightarrow> u8 list io \<times> 'a ring_buffer_scheme" where
  "ring_buffer_read self sz env rb =
     (let rb = rb\<lparr>rb_lock := True\<rparr>;
          (collected, rb) = rb_collect (unat sz) rb;
          rb = wake_writers rb
      in if collected = [] then
           if rb_internal_stop rb \<or> rb_soft_stop rb
           then (Returned [], rb\<lparr>rb_soft_stop := False, rb_lock := False\<rparr>)
           else let rb = rb\<lparr>rb_readers := rb_readers rb @ [self], rb_lock := False\<rparr>
                in case env of [] \<Rightarrow> (Asleep, rb)
                   | (act, interrupted) # env' \<Rightarrow>
                       let rb = act rb
                       in if interrupted then (Restart, rb) else ring_buffer_read self sz env' rb
         else (Returned collected, wake_writers (rb\<lparr>rb_lock := False\<rparr>)))"

text \<open>The loop of the write: the bytes still to be written, while there is room.\<close>

definition rb_store :: "u8 \<Rightarrow> 'a ring_buffer_scheme \<Rightarrow> 'a ring_buffer_scheme" where
  "rb_store b rb =
     ring_buffer_increment_write (rb\<lparr>rb_buffer := (rb_buffer rb)[unat (rb_write_ptr rb) := b]\<rparr>)"

fun rb_fill :: "u8 list \<Rightarrow> 'a ring_buffer_scheme \<Rightarrow> nat \<times> 'a ring_buffer_scheme" where
  "rb_fill [] rb = (0, rb)"
| "rb_fill (b # bs) rb =
     (if ring_buffer_available rb > 0
      then let (k, rb') = rb_fill bs (rb_store b rb) in (Suc k, rb')
      else (0, rb))"

text \<open>The result of a write is the number of bytes written.\<close>

fun ring_buffer_write_from :: "ptr \<Rightarrow> nat \<Rightarrow> u8 list \<Rightarrow> 'a rb_env \<Rightarrow> 'a ring_buffer_scheme \<Rightarrow> nat io \<times> 'a ring_buffer_scheme" where
  "ring_buffer_write_from self written buffer env rb =
     (let finish = (\<lambda>n rb. (Returned n, ring_buffer_alert_waiters (wake_readers rb)))
      in if buffer = [] then finish written rb
      else let rb = rb\<lparr>rb_lock := True\<rparr>;
               (k, rb) = rb_fill buffer rb;
               written = written + k; buffer = drop k buffer;
               rb = ring_buffer_alert_waiters (wake_readers rb)
           in if buffer \<noteq> [] then
                if rb_discard rb then finish written (rb\<lparr>rb_lock := False\<rparr>)
                else let rb = rb\<lparr>rb_writers := rb_writers rb @ [self], rb_lock := False\<rparr>
                     in case env of [] \<Rightarrow> (Asleep, rb)
                        | (act, interrupted) # env' \<Rightarrow>
                            let rb = act rb
                            in if interrupted
                               then if written = 0 then (Restart, rb) else finish written rb
                               else if rb_internal_stop rb then finish written rb
                               else ring_buffer_write_from self written buffer env' rb
              else finish written (rb\<lparr>rb_lock := False\<rparr>))"

definition ring_buffer_write :: "ptr \<Rightarrow> u8 list \<Rightarrow> 'a rb_env \<Rightarrow> 'a ring_buffer_scheme \<Rightarrow> nat io \<times> 'a ring_buffer_scheme" where
  "ring_buffer_write self buffer env rb = ring_buffer_write_from self 0 buffer env rb"

text \<open>The initial bytes of the buffer are whatever the allocator returns.\<close>

definition ring_buffer_create :: "u8 list \<Rightarrow> u64 \<Rightarrow> ring_buffer" where
  "ring_buffer_create mem sz =
     \<lparr>rb_buffer = mem, rb_write_ptr = 0, rb_read_ptr = 0, rb_size = sz, rb_lock = False,
      rb_readers = [], rb_writers = [], rb_internal_stop = False, rb_alert_waiters = None,
      rb_discard = False, rb_soft_stop = False, rb_woken = [], rb_alerted = []\<rparr>"

text \<open>\<open>ring_buffer_destroy\<close> releases the storage, the queues and the waiter list.\<close>

definition ring_buffer_destroy :: "'a ring_buffer_scheme \<Rightarrow> 'a ring_buffer_scheme" where
  "ring_buffer_destroy rb =
     (let rb = rb\<lparr>rb_buffer := []\<rparr>;
          rb = ring_buffer_alert_waiters (wake_readers (wake_writers rb))
      in rb\<lparr>rb_writers := [], rb_readers := [], rb_alert_waiters := None\<rparr>)"

definition ring_buffer_interrupt :: "'a ring_buffer_scheme \<Rightarrow> 'a ring_buffer_scheme" where
  "ring_buffer_interrupt rb = wake_writers (wake_readers (rb\<lparr>rb_internal_stop := True\<rparr>))"

definition ring_buffer_eof :: "'a ring_buffer_scheme \<Rightarrow> 'a ring_buffer_scheme" where
  "ring_buffer_eof rb = wake_writers (wake_readers (rb\<lparr>rb_soft_stop := True\<rparr>))"


section \<open>The ring as a queue of bytes\<close>

definition rb_contents :: "'a ring_buffer_scheme \<Rightarrow> u8 list" where
  "rb_contents rb = ring_bytes (rb_buffer rb) (rb_read_ptr rb) (rb_write_ptr rb)"

definition rb_ok :: "'a ring_buffer_scheme \<Rightarrow> bool" where
  "rb_ok rb = ring_geom (rb_buffer rb) (rb_read_ptr rb) (rb_write_ptr rb) (rb_size rb)"

definition rb_room :: "'a ring_buffer_scheme \<Rightarrow> nat" where
  "rb_room rb = unat (rb_size rb) - 1 - length (rb_contents rb)"

interpretation rb: byte_ring rb_buffer rb_read_ptr rb_write_ptr rb_size ring_buffer_increment_read
    rb_store ring_buffer_unread ring_buffer_available rb_collect rb_fill
  by unfold_locales
     (simp_all add: ring_buffer_unread_def ring_unread_def ring_buffer_available_def
       ring_available_def ring_buffer_increment_read_def ring_buffer_increment_write_def
       rb_store_def ring_next_def Let_def)

lemma rb_ok_iff: "rb.ok rb = rb_ok rb"
  by (simp add: rb.ok_def rb_ok_def)

lemma rb_contents_eq: "rb.bytes rb = rb_contents rb"
  by (simp add: rb.bytes_def rb_contents_def)

lemma rb_room_eq: "rb.room rb = rb_room rb"
  by (simp add: rb.room_def rb_room_def rb_contents_eq)

lemmas rb_collect_spec = rb.collect_spec [unfolded rb_ok_iff rb_contents_eq]
lemmas rb_fill_spec = rb.fill_spec [unfolded rb_ok_iff rb_contents_eq rb_room_eq]

text \<open>The bookkeeping fields do not affect the contents.\<close>

lemma rb_fields [simp]:
  "rb_contents (rb\<lparr>rb_lock := l\<rparr>) = rb_contents rb" "rb_ok (rb\<lparr>rb_lock := l\<rparr>) = rb_ok rb"
  "rb_contents (rb\<lparr>rb_readers := rs\<rparr>) = rb_contents rb" "rb_ok (rb\<lparr>rb_readers := rs\<rparr>) = rb_ok rb"
  "rb_contents (rb\<lparr>rb_writers := rs\<rparr>) = rb_contents rb" "rb_ok (rb\<lparr>rb_writers := rs\<rparr>) = rb_ok rb"
  "rb_contents (rb\<lparr>rb_soft_stop := b\<rparr>) = rb_contents rb" "rb_ok (rb\<lparr>rb_soft_stop := b\<rparr>) = rb_ok rb"
  "rb_contents (rb\<lparr>rb_internal_stop := b\<rparr>) = rb_contents rb"
  "rb_ok (rb\<lparr>rb_internal_stop := b\<rparr>) = rb_ok rb"
  "rb_contents (wake_readers rb) = rb_contents rb" "rb_ok (wake_readers rb) = rb_ok rb"
  "rb_contents (wake_writers rb) = rb_contents rb" "rb_ok (wake_writers rb) = rb_ok rb"
  "rb_contents (ring_buffer_alert_waiters rb) = rb_contents rb"
  "rb_ok (ring_buffer_alert_waiters rb) = rb_ok rb"
  "rb_size (ring_buffer_alert_waiters rb) = rb_size rb" "rb_size (wake_readers rb) = rb_size rb"
  "rb_size (wake_writers rb) = rb_size rb"
  by (auto simp: rb_contents_def rb_ok_def wake_readers_def wake_writers_def
      ring_buffer_alert_waiters_def split: option.splits)

lemma increment_read_eq:
  "ring_buffer_increment_read rb = rb\<lparr>rb_read_ptr := ring_next (rb_read_ptr rb) (rb_size rb)\<rparr>"
  by (cases rb) (simp add: ring_buffer_increment_read_def ring_next_def Let_def)

lemma rb_store_eq:
  "rb_store b rb = rb\<lparr>rb_buffer := (rb_buffer rb)[unat (rb_write_ptr rb) := b],
     rb_write_ptr := ring_next (rb_write_ptr rb) (rb_size rb)\<rparr>"
  by (cases rb) (simp add: rb_store_def ring_buffer_increment_write_def ring_next_def Let_def)

lemma rb_collect_frame: "\<exists>p. snd (rb_collect n rb) = rb\<lparr>rb_read_ptr := p\<rparr>"
proof (induction n arbitrary: rb)
  case 0
  show ?case by (auto intro: exI [of _ "rb_read_ptr rb"])
next
  case (Suc n)
  obtain q where q: "ring_buffer_increment_read rb = rb\<lparr>rb_read_ptr := q\<rparr>"
    using increment_read_eq by blast
  obtain p where "snd (rb_collect n (ring_buffer_increment_read rb)) =
      (ring_buffer_increment_read rb)\<lparr>rb_read_ptr := p\<rparr>" using Suc.IH by blast
  then show ?case
    using q by (auto split: prod.splits intro: exI [of _ "rb_read_ptr rb"])
qed

lemma rb_fill_frame: "\<exists>b p. snd (rb_fill bs rb) = rb\<lparr>rb_buffer := b, rb_write_ptr := p\<rparr>"
proof (induction bs arbitrary: rb)
  case Nil
  show ?case by (auto intro!: exI [of _ "rb_buffer rb"] exI [of _ "rb_write_ptr rb"])
next
  case (Cons x bs)
  obtain b q where q: "rb_store x rb = rb\<lparr>rb_buffer := b, rb_write_ptr := q\<rparr>"
    using rb_store_eq by blast
  obtain b' p where "snd (rb_fill bs (rb_store x rb)) = (rb_store x rb)\<lparr>rb_buffer := b', rb_write_ptr := p\<rparr>"
    using Cons.IH by blast
  then have "snd (rb_fill (x # bs) rb) = rb\<lparr>rb_buffer := b', rb_write_ptr := p\<rparr> \<or> snd (rb_fill (x # bs) rb) = rb"
    using q by (auto split: prod.splits)
  moreover have "rb = rb\<lparr>rb_buffer := rb_buffer rb, rb_write_ptr := rb_write_ptr rb\<rparr>" by simp
  ultimately show ?case by metis
qed

text \<open>One pass of each loop body, as the state it leaves.\<close>

lemma rb_collect_pass:
  assumes "rb_ok rb"
  obtains rb' where "rb_collect n rb = (take n (rb_contents rb), rb')"
    and "rb_contents rb' = drop n (rb_contents rb)" and "rb_ok rb'" and "rb_size rb' = rb_size rb"
    and "\<exists>p. rb' = rb\<lparr>rb_read_ptr := p\<rparr>"
  using rb_collect_spec [OF assms, of n] rb_collect_frame [of n rb] that
  by (cases "rb_collect n rb") auto

lemma rb_fill_pass:
  assumes "rb_ok rb"
  obtains rb' where "rb_fill bs rb = (min (length bs) (rb_room rb), rb')"
    and "rb_contents rb' = rb_contents rb @ take (rb_room rb) bs" and "rb_ok rb'"
    and "rb_size rb' = rb_size rb" and "\<exists>b p. rb' = rb\<lparr>rb_buffer := b, rb_write_ptr := p\<rparr>"
  using rb_fill_spec [OF assms, of bs] rb_fill_frame [of bs rb] that
  by (cases "rb_fill bs rb") auto


section \<open>Critical sections as steps\<close>

text \<open>
  The lock makes each pass of a loop body one atomic step.  The state of the relation is the
  buffer with everything ever stored into it and everything that has left it, in order, each byte
  with the mark \<^term>\<open>True\<close> if a reader got it and \<^term>\<open>False\<close> if \<open>ring_buffer_discard\<close> dropped it.
  The wakeups that a call repeats after its loop, outside of the lock, are steps of their own.
\<close>

type_synonym 'a rb_run = "'a ring_buffer_scheme \<times> u8 list \<times> (bool \<times> u8) list"

inductive rb_step :: "'a rb_run \<Rightarrow> 'a rb_run \<Rightarrow> bool" where
  rb_step_read: "rb_collect n rb = (bs, rb') \<Longrightarrow>
    rb_step (rb, stored, gone) (wake_writers rb', stored, gone @ map (Pair True) bs)"
| rb_step_read_stop: "rb_step (rb, stored, gone) (rb\<lparr>rb_soft_stop := False\<rparr>, stored, gone)"
| rb_step_read_done: "rb_step (rb, stored, gone) (wake_writers rb, stored, gone)"
| rb_step_write: "rb_fill bs rb = (k, rb') \<Longrightarrow>
    rb_step (rb, stored, gone)
      (ring_buffer_alert_waiters (wake_readers rb'), stored @ take k bs, gone)"
| rb_step_write_done: "rb_step (rb, stored, gone) (ring_buffer_alert_waiters (wake_readers rb), stored, gone)"
| rb_step_sleep_read: "rb_step (rb, stored, gone)
      (rb\<lparr>rb_readers := rb_readers rb @ [p]\<rparr>, stored, gone)"
| rb_step_sleep_write: "rb_step (rb, stored, gone)
      (rb\<lparr>rb_writers := rb_writers rb @ [p]\<rparr>, stored, gone)"
| rb_step_select: "rb_step (rb, stored, gone) (ring_buffer_select_wait p rb, stored, gone)"
| rb_step_interrupt: "rb_step (rb, stored, gone) (ring_buffer_interrupt rb, stored, gone)"
| rb_step_eof: "rb_step (rb, stored, gone) (ring_buffer_eof rb, stored, gone)"
| rb_step_discard: "rb_step (rb, stored, gone)
      (ring_buffer_discard rb, stored, gone @ map (Pair False) (rb_contents rb))"

inductive_cases rb_stepE: "rb_step s s'"

definition rb_run_inv :: "'a rb_run \<Rightarrow> bool" where
  "rb_run_inv = (\<lambda>(rb, stored, gone). rb_ok rb \<and> stored = map snd gone @ rb_contents rb)"

lemma rb_select_fields [simp]:
  "rb_contents (ring_buffer_select_wait p rb) = rb_contents rb"
  "rb_ok (ring_buffer_select_wait p rb) = rb_ok rb"
  by (simp_all add: ring_buffer_select_wait_def rb_contents_def rb_ok_def Let_def)

lemma rb_discard_fields [simp]:
  "rb_contents (ring_buffer_discard rb) = []" "rb_ok rb \<Longrightarrow> rb_ok (ring_buffer_discard rb)"
  by (simp_all add: ring_buffer_discard_def rb_contents_def rb_ok_def ring_bytes_def ring_geom_def Let_def)

lemma map_snd_Pair [simp]: "map (snd \<circ> Pair x) ys = ys"
  by (simp add: comp_def)

lemma rb_step_inv: "rb_step s s' \<Longrightarrow> rb_run_inv s \<Longrightarrow> rb_run_inv s'"
proof (induction rule: rb_step.induct)
  case (rb_step_read n rb bs rb' stored gone)
  then have "rb_ok rb" by (simp add: rb_run_inv_def)
  from rb_collect_spec [OF this, of n] rb_step_read show ?case by (simp add: rb_run_inv_def)
next
  case (rb_step_write bs rb k rb' stored gone)
  then have "rb_ok rb" by (simp add: rb_run_inv_def)
  from rb_fill_spec [OF this, of bs] rb_step_write show ?case
    by (auto simp: rb_run_inv_def min_def)
qed (simp_all add: rb_run_inv_def ring_buffer_interrupt_def ring_buffer_eof_def)

lemma rb_reach_inv: "rb_step\<^sup>*\<^sup>* s s' \<Longrightarrow> rb_run_inv s \<Longrightarrow> rb_run_inv s'"
  by (induction rule: rtranclp_induct) (auto dest: rb_step_inv)

lemma ring_buffer_create_ok:
  assumes "0 < sz" and "length mem = unat sz"
  shows "rb_ok (ring_buffer_create mem sz)" "rb_contents (ring_buffer_create mem sz) = []"
  using assms by (simp_all add: rb_ok_def rb_contents_def ring_geom_def ring_bytes_def ring_buffer_create_def)


section \<open>Calls\<close>

text \<open>
  A buffer together with what readers got from it, and the locked section of a reader that asks for \<open>n\<close> bytes
  while the writer sleeps.
\<close>

record log_ring = ring_buffer +
  rl_read :: "u8 list"

definition logged_read :: "nat \<Rightarrow> 'a log_ring_scheme \<Rightarrow> 'a log_ring_scheme" where
  "logged_read n rb = (let (bs, rb) = rb_collect n rb in (wake_writers rb)\<lparr>rl_read := rl_read rb @ bs\<rparr>)"

lemma rl_read_fields [simp]:
  "rb_contents (rb\<lparr>rl_read := l\<rparr>) = rb_contents rb" "rb_ok (rb\<lparr>rl_read := l\<rparr>) = rb_ok rb"
  "rl_read (wake_readers rb) = rl_read rb" "rl_read (wake_writers rb) = rl_read rb"
  "rl_read (ring_buffer_alert_waiters rb) = rl_read rb"
  by (simp_all add: rb_contents_def rb_ok_def wake_readers_def wake_writers_def ring_buffer_alert_waiters_def
      split: option.splits)

lemma reader_spec:
  assumes "rb_ok rb"
  shows "rb_ok (logged_read n rb)" "rb_contents (logged_read n rb) = drop n (rb_contents rb)"
    and "rl_read (logged_read n rb) = rl_read rb @ take n (rb_contents rb)" "rb_size (logged_read n rb) = rb_size rb"
    and "rb_internal_stop (logged_read n rb) = rb_internal_stop rb" "rb_discard (logged_read n rb) = rb_discard rb"
proof -
  obtain rb' p where r: "rb_collect n rb = (take n (rb_contents rb), rb')"
      "rb_contents rb' = drop n (rb_contents rb)" "rb_ok rb'" "rb' = rb\<lparr>rb_read_ptr := p\<rparr>"
    by (rule rb_collect_pass [OF assms]) blast
  have e: "logged_read n rb = (wake_writers rb')\<lparr>rl_read := rl_read rb' @ take n (rb_contents rb)\<rparr>"
    by (simp add: logged_read_def r(1))
  show "rb_ok (logged_read n rb)" "rb_contents (logged_read n rb) = drop n (rb_contents rb)"
    unfolding e using r(2,3) by simp_all
  show "rl_read (logged_read n rb) = rl_read rb @ take n (rb_contents rb)" "rb_size (logged_read n rb) = rb_size rb"
    "rb_internal_stop (logged_read n rb) = rb_internal_stop rb" "rb_discard (logged_read n rb) = rb_discard rb"
    unfolding e r(4) by (simp_all add: wake_writers_def)
qed

lemma ring_buffer_read_eval:
  assumes "rb_ok rb" and "rb_contents rb \<noteq> []" and "0 < sz"
  shows "\<exists>rb'. ring_buffer_read self sz env rb = (Returned (take (unat sz) (rb_contents rb)), rb') \<and>
    rb_contents rb' = drop (unat sz) (rb_contents rb) \<and> rb_ok rb' \<and> \<not> rb_lock rb' \<and>
    rb_writers rb' = [] \<and> rb_woken rb' = rb_woken rb @ rev (rb_writers rb)"
proof -
  have ok: "rb_ok (rb\<lparr>rb_lock := True\<rparr>)" using assms(1) by simp
  have nz: "unat sz \<noteq> 0" using assms(3) by (simp add: unat_eq_0)
  obtain rb1 where rb1: "rb_collect (unat sz) (rb\<lparr>rb_lock := True\<rparr>) = (take (unat sz) (rb_contents rb), rb1)"
      "rb_contents rb1 = drop (unat sz) (rb_contents rb)" "rb_ok rb1"
      "\<exists>p. rb1 = rb\<lparr>rb_lock := True, rb_read_ptr := p\<rparr>"
    using rb_collect_pass [OF ok, of "unat sz"] by (metis rb_fields(1))
  then have "ring_buffer_read self sz env rb =
      (Returned (take (unat sz) (rb_contents rb)), wake_writers (wake_writers rb1\<lparr>rb_lock := False\<rparr>))"
    using assms nz by (subst ring_buffer_read.simps) (simp add: Let_def)
  then show ?thesis using rb1 by (auto simp: wake_writers_def) (simp_all add: rb_contents_def rb_ok_def)
qed

lemma ring_buffer_read_empty:
  assumes "rb_ok rb" and "rb_contents rb = []"
  shows "(rb_internal_stop rb \<or> rb_soft_stop rb \<longrightarrow>
      ring_buffer_read self sz env rb =
        (Returned [], (wake_writers rb)\<lparr>rb_soft_stop := False, rb_lock := False\<rparr>)) \<and>
    (\<not> rb_internal_stop rb \<longrightarrow> \<not> rb_soft_stop rb \<longrightarrow>
      ring_buffer_read self sz [] rb =
        (Asleep, (wake_writers rb)\<lparr>rb_readers := rb_readers rb @ [self], rb_lock := False\<rparr>))"
proof -
  have "rb.bytes (rb\<lparr>rb_lock := True\<rparr>) = []" "rb.ok (rb\<lparr>rb_lock := True\<rparr>)"
    using assms by (simp_all add: rb_contents_eq rb_ok_iff)
  then have "\<not> ring_buffer_unread (rb\<lparr>rb_lock := True\<rparr>) > 0" using rb.unread_pos by blast
  then have "rb_collect n (rb\<lparr>rb_lock := True\<rparr>) = ([], rb\<lparr>rb_lock := True\<rparr>)" for n by (cases n) auto
  then show ?thesis
    by (subst (1 2) ring_buffer_read.simps) (auto simp: Let_def wake_writers_def)
qed

text \<open>Every way out of a call leaves the lock free, if the others leave it free too.\<close>

definition lock_respecting :: "'a rb_env \<Rightarrow> bool" where
  "lock_respecting env \<longleftrightarrow> (\<forall>e \<in> set env. \<forall>rb. \<not> rb_lock rb \<longrightarrow> \<not> rb_lock (fst e rb))"

lemma rb_lock_fields [simp]:
  "rb_lock (wake_readers rb) = rb_lock rb" "rb_lock (wake_writers rb) = rb_lock rb"
  "rb_lock (ring_buffer_alert_waiters rb) = rb_lock rb"
  by (auto simp: wake_readers_def wake_writers_def ring_buffer_alert_waiters_def split: option.splits)

lemma ring_buffer_read_unlocks:
  "lock_respecting env \<Longrightarrow> \<not> rb_lock (snd (ring_buffer_read self sz env rb))"
proof (induction env arbitrary: rb)
  case Nil
  show ?case by (subst ring_buffer_read.simps) (simp add: Let_def split: prod.splits)
next
  case (Cons e env)
  obtain act intr where e: "e = (act, intr)" by force
  have "lock_respecting env" "\<And>rb. \<not> rb_lock rb \<Longrightarrow> \<not> rb_lock (act rb)"
    using Cons.prems e by (auto simp: lock_respecting_def)
  then show ?case
    using Cons.IH e
    by (subst ring_buffer_read.simps) (simp add: Let_def split: prod.splits del: ring_buffer_read.simps)
qed

lemma ring_buffer_write_from_unlocks:
  "lock_respecting env \<Longrightarrow> \<not> rb_lock rb \<Longrightarrow>
   \<not> rb_lock (snd (ring_buffer_write_from self n bs env rb))"
proof (induction env arbitrary: n bs rb)
  case Nil
  then show ?case by (subst ring_buffer_write_from.simps) (simp add: Let_def split: prod.splits)
next
  case (Cons e env)
  obtain act intr where e: "e = (act, intr)" by force
  have "lock_respecting env" "\<And>rb. \<not> rb_lock rb \<Longrightarrow> \<not> rb_lock (act rb)"
    using Cons.prems e by (auto simp: lock_respecting_def)
  then show ?case
    using Cons.IH Cons.prems(2) e
    by (subst ring_buffer_write_from.simps)
       (simp add: Let_def split: prod.splits del: ring_buffer_write_from.simps)
qed

text \<open>
  A writer that a reader follows each time it sleeps gets everything through: every pass stores at
  least one byte, so as many readers as bytes are enough.
\<close>

lemma write_from_read:
  fixes rb :: "'a log_ring_scheme"
  shows
  "rb_ok rb \<Longrightarrow> 2 \<le> rb_size rb \<Longrightarrow> \<not> rb_internal_stop rb \<Longrightarrow> \<not> rb_discard rb \<Longrightarrow>
   \<forall>k \<in> set ns. 0 < k \<Longrightarrow> length bs \<le> length ns + rb_room rb \<Longrightarrow>
   \<exists>rb'. ring_buffer_write_from self n bs (map (\<lambda>k. (logged_read k, False)) ns) rb = (Returned (n + length bs), rb') \<and>
     rb_ok rb' \<and> rl_read rb' @ rb_contents rb' = rl_read rb @ rb_contents rb @ bs"
proof (induction ns arbitrary: n bs rb)
  case Nil
  show ?case
  proof (cases "bs = []")
    case True
    then show ?thesis using Nil.prems(1)
      by (subst ring_buffer_write_from.simps) (auto simp: Let_def)
  next
    case False
    have ok: "rb_ok (rb\<lparr>rb_lock := True\<rparr>)" using Nil.prems(1) by simp
    have room: "rb_room (rb\<lparr>rb_lock := True\<rparr>) = rb_room rb" by (simp add: rb_room_def)
    obtain rb1 where r: "rb_fill bs (rb\<lparr>rb_lock := True\<rparr>) = (min (length bs) (rb_room rb), rb1)"
        "rb_contents rb1 = rb_contents rb @ take (rb_room rb) bs" "rb_ok rb1" "rb_size rb1 = rb_size rb"
        "\<exists>b p. rb1 = rb\<lparr>rb_lock := True, rb_buffer := b, rb_write_ptr := p\<rparr>"
      using rb_fill_pass [OF ok, of bs] room by auto
    have rb1: "rb_fill bs (rb\<lparr>rb_lock := True\<rparr>) = (length bs, rb1)" "rb_contents rb1 = rb_contents rb @ bs" "rb_ok rb1"
      using r(1-3) Nil.prems(6) by (simp_all add: min_absorb1)
    have "rl_read rb1 = rl_read rb" using r(5) by auto
    then show ?thesis using False rb1(1-3)
      by (subst ring_buffer_write_from.simps) (auto simp: Let_def)
  qed
next
  case (Cons k ns)
  have ok: "rb_ok (rb\<lparr>rb_lock := True\<rparr>)" using Cons.prems(1) by simp
  have room: "rb_room (rb\<lparr>rb_lock := True\<rparr>) = rb_room rb" by (simp add: rb_room_def)
  obtain rb1 where rb1: "rb_fill bs (rb\<lparr>rb_lock := True\<rparr>) = (min (length bs) (rb_room rb), rb1)"
      "rb_contents rb1 = rb_contents rb @ take (rb_room rb) bs" "rb_ok rb1" "rb_size rb1 = rb_size rb"
      "\<exists>b p. rb1 = rb\<lparr>rb_lock := True, rb_buffer := b, rb_write_ptr := p\<rparr>"
    using rb_fill_pass [OF ok, of bs] room by auto
  have log: "rl_read rb1 = rl_read rb" using rb1(5) by auto
  let ?rb2 = "(ring_buffer_alert_waiters (wake_readers rb1))
      \<lparr>rb_writers := rb_writers (ring_buffer_alert_waiters (wake_readers rb1)) @ [self], rb_lock := False\<rparr>"
  have flags: "\<not> rb_internal_stop ?rb2" "\<not> rb_discard (ring_buffer_alert_waiters (wake_readers rb1))"
      "\<not> rb_discard ?rb2" "rb_ok ?rb2" "rb_size ?rb2 = rb_size rb" "rb_contents ?rb2 = rb_contents rb1"
      "rl_read ?rb2 = rl_read rb"
    using rb1(3-5) Cons.prems(3,4) log
    by (auto simp: wake_readers_def ring_buffer_alert_waiters_def split: option.splits)
       (simp_all add: rb_ok_def rb_contents_def)
  show ?case
  proof (cases "length bs \<le> rb_room rb")
    case True
    then show ?thesis using rb1(1-3) Cons.prems(1) log
      by (subst ring_buffer_write_from.simps) (auto simp: Let_def min_absorb1)
  next
    case False
    note d = reader_spec [OF flags(4), of k]
    have two: "2 \<le> unat (rb_size rb)" using Cons.prems(2) by (simp add: word_le_nat_alt)
    have "length (rb_contents rb) \<le> unat (rb_size rb) - 1"
      using Cons.prems(1) length_ring_bytes(2) by (fastforce simp: rb_ok_def rb_contents_def)
    then have "length (rb_contents rb1) = unat (rb_size rb) - 1"
      using rb1(2) False by (simp add: rb_room_def)
    moreover have "0 < k" using Cons.prems(5) by simp
    ultimately have "1 \<le> rb_room (logged_read k ?rb2)"
      using d(2,4) flags(5,6) two by (simp add: rb_room_def)
    then have "length (drop (rb_room rb) bs) \<le> length ns + rb_room (logged_read k ?rb2)"
      using Cons.prems(6) by simp
    then obtain rb' where IH: "ring_buffer_write_from self (n + rb_room rb) (drop (rb_room rb) bs)
        (map (\<lambda>k. (logged_read k, False)) ns) (logged_read k ?rb2) = (Returned (n + length bs), rb')" "rb_ok rb'"
        "rl_read rb' @ rb_contents rb' = rl_read (logged_read k ?rb2) @ rb_contents (logged_read k ?rb2) @ drop (rb_room rb) bs"
      using Cons.IH [of "logged_read k ?rb2" "drop (rb_room rb) bs" "n + rb_room rb"] d flags Cons.prems(2,5) False
      by (auto simp del: ring_buffer_write_from.simps)
    have "ring_buffer_write_from self n bs (map (\<lambda>k. (logged_read k, False)) (k # ns)) rb =
        ring_buffer_write_from self (n + rb_room rb) (drop (rb_room rb) bs)
          (map (\<lambda>k. (logged_read k, False)) ns) (logged_read k ?rb2)"
      using False rb1(1) flags d(5)
      by (subst ring_buffer_write_from.simps)
         (auto simp: Let_def min_absorb2 simp del: ring_buffer_write_from.simps)
    moreover have "rl_read (logged_read k ?rb2) @ rb_contents (logged_read k ?rb2) = rl_read rb @ rb_contents rb @ take (rb_room rb) bs"
      using d(2,3) flags(6,7) rb1(2) by (simp only: append_assoc append_take_drop_id)
    then have "rl_read rb' @ rb_contents rb' = rl_read rb @ rb_contents rb @ bs"
      unfolding IH(3) by (metis append_assoc append_take_drop_id)
    ultimately show ?thesis using IH(1,2) by metis
  qed
qed


section \<open>Properties\<close>

text \<open>A four-byte ring whose contents wrap around the end of the storage.\<close>

definition ring_example :: ring_buffer where
  "ring_example = (ring_buffer_create [30, 99, 10, 20] 4)
     \<lparr>rb_read_ptr := 2, rb_write_ptr := 1, rb_writers := [7, 8]\<rparr>"

lemma ring_example_facts:
  "rb_ok ring_example" "rb_contents ring_example = [10, 20, 30]" "rb_writers ring_example = [7, 8]"
  "rb_woken ring_example = []" "rb_size ring_example = 4"
  by (simp_all add: ring_example_def ring_buffer_create_def rb_ok_def ring_geom_def rb_contents_def
      ring_bytes_def word_le_nat_alt)

text \<open>
  Property C8: however the locked sections of readers and writers, discards, sleeps, wakeups, interrupts and
  end-of-file marks interleave from the creation of a ring buffer on, everything that has left the
  buffer so far, read or discarded, followed by the present contents is exactly everything stored so
  far: readers get the stored bytes in order, none twice, and none is missing but those that were in the
  buffer at a discard; and the buffer never holds \<open>size\<close> bytes or more.
\<close>

theorem ring_buffer_fifo:
  assumes "0 < sz" and "length mem = unat sz"
    and "rb_step\<^sup>*\<^sup>* (ring_buffer_create mem sz, [], []) (rb, stored, gone)"
  shows "stored = map snd gone @ rb_contents rb \<and> rb_ok rb \<and> length (rb_contents rb) < unat (rb_size rb)"
proof -
  have "rb_run_inv (ring_buffer_create mem sz, [], [])"
    using ring_buffer_create_ok [OF assms(1,2)] by (simp add: rb_run_inv_def)
  from rb_reach_inv [OF assms(3) this] have i: "rb_ok rb" "stored = map snd gone @ rb_contents rb"
    by (simp_all add: rb_run_inv_def)
  moreover have "0 < unat (rb_size rb)" using i(1)
    by (auto simp: rb_ok_def ring_geom_def unat_gt_0)
  ultimately show ?thesis
    using length_ring_bytes(2) [of "rb_buffer rb" "rb_read_ptr rb" "rb_write_ptr rb" "rb_size rb"]
    by (simp add: rb_ok_def rb_contents_def)
qed

theorem ring_buffer_fifo_witness:
  "\<exists>rb. rb_step\<^sup>*\<^sup>* (ring_buffer_create [0, 0, 0] 3, [], []) (rb, [5], [(False, 5)]) \<and> rb_contents rb = []"
proof -
  obtain k rb where f: "rb_fill [5] (ring_buffer_create [0, 0, 0] 3) = (k, rb)" by force
  have "k = 1"
    using rb_fill_spec [OF ring_buffer_create_ok(1), of 3 "[0, 0, 0]" "[5]"] f
      ring_buffer_create_ok(2) [of 3 "[0, 0, 0]"]
    by (simp add: rb_room_def ring_buffer_create_def)
  then have st: "rb_step\<^sup>*\<^sup>* (ring_buffer_create [0, 0, 0] 3, [], [])
      (ring_buffer_alert_waiters (wake_readers rb), [5], [])" (is "rb_step\<^sup>*\<^sup>* _ (?rb, _, _)")
    using rb_step_write [OF f, of "[]" "[]"] by auto
  then have "rb_contents ?rb = [5]" using ring_buffer_fifo [of 3 "[0, 0, 0]" ?rb "[5]" "[]"] by simp
  then have "rb_step (?rb, [5], []) (ring_buffer_discard ?rb, [5], [(False, 5)])"
    using rb_step_discard [of ?rb "[5]" "[]"] by simp
  with st show ?thesis by (intro exI [of _ "ring_buffer_discard ?rb"]) simp
qed

text \<open>
  Fact: a read from a non-empty buffer returns at once, with the first bytes in order
  and at most the number asked for; the rest stays, every sleeping writer is woken and the
  lock is released.
\<close>

theorem ring_buffer_read_takes:
  assumes "rb_ok rb" and "rb_contents rb \<noteq> []" and "0 < sz"
  shows "\<exists>rb'. ring_buffer_read self sz env rb = (Returned (take (unat sz) (rb_contents rb)), rb') \<and>
    rb_contents rb' = drop (unat sz) (rb_contents rb) \<and> rb_ok rb' \<and> \<not> rb_lock rb' \<and>
    rb_writers rb' = [] \<and> rb_woken rb' = rb_woken rb @ rev (rb_writers rb)"
  using ring_buffer_read_eval [OF assms] .

theorem ring_buffer_read_takes_witness:
  "\<exists>rb'. ring_buffer_read 1 2 [] ring_example = (Returned [10, 20], rb') \<and> rb_contents rb' = [30] \<and>
    rb_woken rb' = [8, 7]"
  using ring_buffer_read_takes [of ring_example 2 1 "[]"] ring_example_facts
  by (auto simp del: ring_buffer_read.simps)

text \<open>
  Property C27: a write of any length returns the number of all its bytes, if the buffer has at least two
  slots, is not stopped and not marked as discarding, and each time the writer sleeps a reader takes at
  least one byte before it runs again; as many readers as there are bytes are enough.  What the readers
  got, followed by what is left in the buffer, is what was there before and then all the bytes in order.
\<close>

theorem ring_buffer_write_completes:
  fixes rb :: "'a log_ring_scheme"
  assumes "rb_ok rb" and "2 \<le> rb_size rb" and "\<not> rb_internal_stop rb" and "\<not> rb_discard rb"
    and "\<forall>k \<in> set ns. 0 < k" and "length bs \<le> length ns"
  shows "\<exists>rb'. ring_buffer_write self bs (map (\<lambda>k. (logged_read k, False)) ns) rb = (Returned (length bs), rb') \<and>
     rb_ok rb' \<and> rl_read rb' @ rb_contents rb' = rl_read rb @ rb_contents rb @ bs"
  using write_from_read [OF assms(1-5), of bs self 0] assms(6)
  by (auto simp: ring_buffer_write_def simp del: ring_buffer_write_from.simps)

definition log_example :: log_ring where
  "log_example = ring_buffer.extend ring_example (log_ring.fields [])"

theorem ring_buffer_write_completes_witness:
  "\<exists>rb'. ring_buffer_write 1 [1, 2, 3, 4, 5] (map (\<lambda>k. (logged_read k, False)) [2, 1, 3, 1, 1]) log_example = (Returned 5, rb') \<and>
     rl_read rb' @ rb_contents rb' = [10, 20, 30, 1, 2, 3, 4, 5]"
proof -
  have e: "rb_ok log_example" "rb_contents log_example = [10, 20, 30]" "2 \<le> rb_size log_example"
      "\<not> rb_internal_stop log_example" "\<not> rb_discard log_example" "rl_read log_example = []"
    by (simp_all add: log_example_def ring_buffer.defs log_ring.defs ring_example_def ring_buffer_create_def rb_ok_def
        ring_geom_def rb_contents_def ring_bytes_def word_le_nat_alt)
  show ?thesis
    using ring_buffer_write_completes [OF e(1,3-5), of "[2, 1, 3, 1, 1]" "[1, 2, 3, 4, 5]" 1] e(2,6) by auto
qed

text \<open>
  Fact: a read from an empty buffer returns nothing when the buffer was interrupted or
  marked at end of file, clearing the mark, and otherwise puts the reader to sleep on the
  readers' queue; in each case it has first woken the writers and released the lock.
\<close>

theorem ring_buffer_read_when_empty:
  assumes "rb_ok rb" and "rb_contents rb = []"
  shows "(rb_internal_stop rb \<or> rb_soft_stop rb \<longrightarrow>
      ring_buffer_read self sz env rb =
        (Returned [], (wake_writers rb)\<lparr>rb_soft_stop := False, rb_lock := False\<rparr>)) \<and>
    (\<not> rb_internal_stop rb \<longrightarrow> \<not> rb_soft_stop rb \<longrightarrow>
      ring_buffer_read self sz [] rb =
        (Asleep, (wake_writers rb)\<lparr>rb_readers := rb_readers rb @ [self], rb_lock := False\<rparr>))"
  using ring_buffer_read_empty [OF assms] .

theorem ring_buffer_read_when_empty_witness:
  "ring_buffer_read 1 4 [] (ring_buffer_eof (ring_buffer_create [0, 0] 2)) =
     (Returned [], ring_buffer_create [0, 0] 2) \<and>
   fst (ring_buffer_read 1 4 [] (ring_buffer_create [0, 0] 2)) = Asleep"
proof -
  let ?e = "ring_buffer_eof (ring_buffer_create [0, 0] 2)"
  have c: "rb_ok (ring_buffer_create [0, 0] 2)" "rb_contents (ring_buffer_create [0, 0] 2) = []"
    using ring_buffer_create_ok [of 2 "[0, 0]"] by simp_all
  then have e: "rb_ok ?e" "rb_contents ?e = []" by (simp_all add: ring_buffer_eof_def)
  show ?thesis
    using ring_buffer_read_when_empty [OF c, of 1 4 "[]"] ring_buffer_read_when_empty [OF e, of 1 4 "[]"]
    by (simp add: ring_buffer_eof_def ring_buffer_create_def wake_readers_def wake_writers_def
        del: ring_buffer_read.simps)
qed

text \<open>
  Fact: no path out of a read or a write keeps the spin lock, whether the call
  returns, is interrupted or falls asleep, provided the processes that run while it sleeps
  release it as well.
\<close>

theorem ring_buffer_unlocks:
  assumes "lock_respecting env" and "\<not> rb_lock rb"
  shows "\<not> rb_lock (snd (ring_buffer_read self sz env rb)) \<and>
         \<not> rb_lock (snd (ring_buffer_write self bs env rb))"
  using ring_buffer_read_unlocks [OF assms(1)] ring_buffer_write_from_unlocks [OF assms]
  by (simp add: ring_buffer_write_def del: ring_buffer_read.simps ring_buffer_write_from.simps)

theorem ring_buffer_unlocks_witness:
  "\<not> rb_lock (snd (ring_buffer_read 1 4 [(ring_buffer_interrupt, True)] (ring_buffer_create [0] 1)))"
proof -
  have "lock_respecting [(ring_buffer_interrupt, True)]"
    by (simp add: lock_respecting_def ring_buffer_interrupt_def)
  moreover have "\<not> rb_lock (ring_buffer_create [0] 1)" by (simp add: ring_buffer_create_def)
  ultimately show ?thesis using ring_buffer_unlocks by blast
qed

end
