(* ===== verification/Pipes.thy ===== *)
theory Pipes
  imports Ring_Buffer
begin

text \<open>
  Unix pipes (\<open>kernel/vfs/unixpipe.c\<close>), which put two ends and their closing on top of a
  ring buffer, and the older character-device pipes (\<open>kernel/vfs/pipe.c\<close>), which have their
  own copy of the ring arithmetic and move data only in whole requests.
\<close>

section \<open>Unix pipes\<close>

text \<open>
  \<open>struct unix_pipe\<close> owns its ring buffer, so its record extends the buffer's;
  \<open>up_sigpipe\<close> collects the processes that were sent \<open>SIGPIPE\<close>.
\<close>

record unix_pipe = ring_buffer +
  up_read_closed :: bool
  up_write_closed :: bool
  up_sigpipe :: "ptr list"

datatype 'a pipe_io = PIo "'a io" | EPIPE

definition read_unixpipe :: "ptr \<Rightarrow> u64 \<Rightarrow> ((unix_pipe \<Rightarrow> unix_pipe) \<times> bool) list \<Rightarrow> unix_pipe \<Rightarrow>
    u8 list io \<times> unix_pipe" where
  "read_unixpipe self sz env p =
     (if up_write_closed p \<and> ring_buffer_unread p = 0 then (Returned [], p)
      else ring_buffer_read self sz env p)"

definition write_unixpipe :: "ptr \<Rightarrow> u8 list \<Rightarrow> ((unix_pipe \<Rightarrow> unix_pipe) \<times> bool) list \<Rightarrow> unix_pipe \<Rightarrow>
    nat pipe_io \<times> unix_pipe" where
  "write_unixpipe self buffer env p =
     (if up_read_closed p then (EPIPE, p\<lparr>up_sigpipe := up_sigpipe p @ [self]\<rparr>)
      else let (r, p') = ring_buffer_write self buffer env p in (PIo r, p'))"

definition close_read_pipe :: "unix_pipe \<Rightarrow> unix_pipe" where
  "close_read_pipe p =
     (let p = p\<lparr>rb_lock := True\<rparr>;
          p = p\<lparr>up_read_closed := True\<rparr>;
          p = (if \<not> up_write_closed p then ring_buffer_interrupt p else p)
      in p\<lparr>rb_lock := False\<rparr>)"

definition close_write_pipe :: "unix_pipe \<Rightarrow> unix_pipe" where
  "close_write_pipe p =
     (let p = p\<lparr>rb_lock := True\<rparr>;
          p = p\<lparr>up_write_closed := True\<rparr>;
          p = (if \<not> up_read_closed p
               then let p = ring_buffer_interrupt p
                    in if ring_buffer_unread p = 0 then ring_buffer_alert_waiters p else p
               else p)
      in p\<lparr>rb_lock := False\<rparr>)"

text \<open>\<open>check_pipe\<close> returns zero when a read would not block.\<close>

definition check_pipe :: "unix_pipe \<Rightarrow> int" where
  "check_pipe p =
     (if ring_buffer_unread p > 0 then 0 else if up_write_closed p then 0 else 1)"

definition wait_pipe :: "ptr \<Rightarrow> unix_pipe \<Rightarrow> unix_pipe" where
  "wait_pipe process p = ring_buffer_select_wait process p"

definition UNIX_PIPE_BUFFER :: u64 where
  "UNIX_PIPE_BUFFER = 4096"

definition make_unix_pipe :: "u8 list \<Rightarrow> unix_pipe" where
  "make_unix_pipe mem =
     ring_buffer.extend (ring_buffer_create mem UNIX_PIPE_BUFFER)
       \<lparr>up_read_closed = False, up_write_closed = False, up_sigpipe = []\<rparr>"


section \<open>Character-device pipes\<close>

record pipe_device =
  pd_buffer :: "u8 list"
  pd_write_ptr :: u64
  pd_read_ptr :: u64
  pd_size :: u64
  pd_refcount :: u64
  pd_readers :: "ptr list"
  pd_writers :: "ptr list"
  pd_dead :: bool
  pd_alert_waiters :: "ptr list"
  pd_lock :: bool
  pd_woken :: "ptr list"
  pd_alerted :: "ptr list"
  pd_sigpipe :: "ptr list"

definition pipe_unread :: "pipe_device \<Rightarrow> u64" where
  "pipe_unread pipe =
     (if pd_read_ptr pipe = pd_write_ptr pipe then 0
      else if pd_read_ptr pipe > pd_write_ptr pipe
           then (pd_size pipe - pd_read_ptr pipe) + pd_write_ptr pipe
           else pd_write_ptr pipe - pd_read_ptr pipe)"

text \<open>\<open>pipe_size\<close> and \<open>pipe_unsize\<close> return their count as an \<open>int\<close>.\<close>

definition pipe_size :: "pipe_device \<Rightarrow> 32 word" where
  "pipe_size pipe = ucast (pipe_unread pipe)"

definition pipe_available :: "pipe_device \<Rightarrow> u64" where
  "pipe_available pipe =
     (if pd_read_ptr pipe = pd_write_ptr pipe then pd_size pipe - 1
      else if pd_read_ptr pipe > pd_write_ptr pipe
           then pd_read_ptr pipe - pd_write_ptr pipe - 1
           else (pd_size pipe - pd_write_ptr pipe) + pd_read_ptr pipe - 1)"

definition pipe_unsize :: "pipe_device \<Rightarrow> 32 word" where
  "pipe_unsize pipe = ucast (pipe_available pipe)"

definition pipe_increment_read :: "pipe_device \<Rightarrow> pipe_device" where
  "pipe_increment_read pipe =
     (let pipe = pipe\<lparr>pd_read_ptr := pd_read_ptr pipe + 1\<rparr>
      in if pd_read_ptr pipe = pd_size pipe then pipe\<lparr>pd_read_ptr := 0\<rparr> else pipe)"

definition pipe_increment_write :: "pipe_device \<Rightarrow> pipe_device" where
  "pipe_increment_write pipe =
     (let pipe = pipe\<lparr>pd_write_ptr := pd_write_ptr pipe + 1\<rparr>
      in if pd_write_ptr pipe = pd_size pipe then pipe\<lparr>pd_write_ptr := 0\<rparr> else pipe)"

definition pipe_increment_write_by :: "u64 \<Rightarrow> pipe_device \<Rightarrow> pipe_device" where
  "pipe_increment_write_by amount pipe =
     pipe\<lparr>pd_write_ptr := (pd_write_ptr pipe + amount) mod pd_size pipe\<rparr>"

definition pipe_wake_readers :: "pipe_device \<Rightarrow> pipe_device" where
  "pipe_wake_readers pipe =
     pipe\<lparr>pd_woken := pd_woken pipe @ rev (pd_readers pipe), pd_readers := []\<rparr>"

definition pipe_wake_writers :: "pipe_device \<Rightarrow> pipe_device" where
  "pipe_wake_writers pipe =
     pipe\<lparr>pd_woken := pd_woken pipe @ rev (pd_writers pipe), pd_writers := []\<rparr>"

definition pipe_alert_waiters :: "pipe_device \<Rightarrow> pipe_device" where
  "pipe_alert_waiters pipe =
     pipe\<lparr>pd_alerted := pd_alerted pipe @ pd_alert_waiters pipe, pd_alert_waiters := []\<rparr>"

fun pipe_collect :: "nat \<Rightarrow> pipe_device \<Rightarrow> u8 list \<times> pipe_device" where
  "pipe_collect 0 pipe = ([], pipe)"
| "pipe_collect (Suc n) pipe =
     (if pipe_unread pipe > 0
      then let b = pd_buffer pipe ! unat (pd_read_ptr pipe);
               (bs, pipe') = pipe_collect n (pipe_increment_read pipe)
           in (b # bs, pipe')
      else ([], pipe))"

fun read_pipe_loop :: "ptr \<Rightarrow> u64 \<Rightarrow> ((pipe_device \<Rightarrow> pipe_device) \<times> bool) list \<Rightarrow> pipe_device \<Rightarrow>
    u8 list io \<times> pipe_device" where
  "read_pipe_loop self sz env pipe =
     (let pipe = pipe\<lparr>pd_lock := True\<rparr>;
          (collected, pipe) =
            (if pipe_unread pipe \<ge> sz then pipe_collect (unat sz) pipe else ([], pipe));
          pipe = pipe_wake_writers pipe
      in if collected = [] then
           let pipe = pipe\<lparr>pd_readers := pd_readers pipe @ [self], pd_lock := False\<rparr>
           in case env of [] \<Rightarrow> (Asleep, pipe)
              | (act, interrupted) # env' \<Rightarrow>
                  let pipe = act pipe
                  in if interrupted then (Restart, pipe) else read_pipe_loop self sz env' pipe
         else (Returned collected, pipe\<lparr>pd_lock := False\<rparr>))"

definition read_pipe :: "ptr \<Rightarrow> u64 \<Rightarrow> ((pipe_device \<Rightarrow> pipe_device) \<times> bool) list \<Rightarrow> pipe_device \<Rightarrow>
    u8 list io \<times> pipe_device" where
  "read_pipe self sz env pipe =
     (if pd_dead pipe then (Returned [], pipe\<lparr>pd_sigpipe := pd_sigpipe pipe @ [self]\<rparr>)
      else read_pipe_loop self sz env pipe)"

definition pipe_store :: "u8 \<Rightarrow> pipe_device \<Rightarrow> pipe_device" where
  "pipe_store b pipe =
     pipe_increment_write (pipe\<lparr>pd_buffer := (pd_buffer pipe)[unat (pd_write_ptr pipe) := b]\<rparr>)"

fun pipe_fill :: "u8 list \<Rightarrow> pipe_device \<Rightarrow> nat \<times> pipe_device" where
  "pipe_fill [] pipe = (0, pipe)"
| "pipe_fill (b # bs) pipe =
     (if pipe_available pipe > 0
      then let (k, pipe') = pipe_fill bs (pipe_store b pipe) in (Suc k, pipe')
      else (0, pipe))"

text \<open>
  \<open>sz\<close> is the size of the whole request, which the loop compares with the free space in
  every round; \<open>buffer\<close> is what is left of it.
\<close>

fun write_pipe_loop :: "ptr \<Rightarrow> u64 \<Rightarrow> nat \<Rightarrow> u8 list \<Rightarrow> ((pipe_device \<Rightarrow> pipe_device) \<times> bool) list \<Rightarrow>
    pipe_device \<Rightarrow> nat io \<times> pipe_device" where
  "write_pipe_loop self sz written buffer env pipe =
     (if buffer = [] then (Returned written, pipe)
      else let pipe = pipe\<lparr>pd_lock := True\<rparr>;
               (k, pipe) = (if pipe_available pipe > sz then pipe_fill buffer pipe else (0, pipe));
               written = written + k; buffer = drop k buffer;
               pipe = pipe_alert_waiters (pipe_wake_readers pipe)
           in if buffer \<noteq> [] then
                let pipe = pipe\<lparr>pd_writers := pd_writers pipe @ [self], pd_lock := False\<rparr>
                in case env of [] \<Rightarrow> (Asleep, pipe)
                   | (act, interrupted) # env' \<Rightarrow>
                       let pipe = act pipe
                       in if interrupted
                          then if written = 0 then (Restart, pipe) else (Returned written, pipe)
                          else write_pipe_loop self sz written buffer env' pipe
              else (Returned written, pipe\<lparr>pd_lock := False\<rparr>))"

definition write_pipe :: "ptr \<Rightarrow> u8 list \<Rightarrow> ((pipe_device \<Rightarrow> pipe_device) \<times> bool) list \<Rightarrow>
    pipe_device \<Rightarrow> nat io \<times> pipe_device" where
  "write_pipe self buffer env pipe =
     (if pd_dead pipe then (Returned 0, pipe\<lparr>pd_sigpipe := pd_sigpipe pipe @ [self]\<rparr>)
      else write_pipe_loop self (of_nat (length buffer)) 0 buffer env pipe)"

definition open_pipe :: "pipe_device \<Rightarrow> pipe_device" where
  "open_pipe pipe = pipe\<lparr>pd_refcount := pd_refcount pipe + 1\<rparr>"

definition close_pipe :: "pipe_device \<Rightarrow> pipe_device" where
  "close_pipe pipe = pipe\<lparr>pd_refcount := pd_refcount pipe - 1\<rparr>"

definition pipe_check :: "pipe_device \<Rightarrow> int" where
  "pipe_check pipe = (if pipe_unread pipe > 0 then 0 else 1)"

definition pipe_wait :: "ptr \<Rightarrow> pipe_device \<Rightarrow> pipe_device" where
  "pipe_wait process pipe =
     pipe\<lparr>pd_alert_waiters :=
       (if process \<in> set (pd_alert_waiters pipe) then pd_alert_waiters pipe
        else pd_alert_waiters pipe @ [process])\<rparr>"

definition pipe_destroy :: "pipe_device \<Rightarrow> pipe_device" where
  "pipe_destroy pipe =
     (let pipe = pipe\<lparr>pd_dead := True\<rparr>;
          pipe = pipe_wake_readers (pipe_wake_writers (pipe_alert_waiters pipe))
      in pipe\<lparr>pd_buffer := []\<rparr>)"

definition make_pipe :: "u8 list \<Rightarrow> u64 \<Rightarrow> pipe_device" where
  "make_pipe mem sz =
     \<lparr>pd_buffer = mem, pd_write_ptr = 0, pd_read_ptr = 0, pd_size = sz, pd_refcount = 0,
      pd_readers = [], pd_writers = [], pd_dead = False, pd_alert_waiters = [], pd_lock = False,
      pd_woken = [], pd_alerted = [], pd_sigpipe = []\<rparr>"


section \<open>Unix pipes: closing\<close>

lemma rb_unread_zero: "rb_ok p \<Longrightarrow> ring_buffer_unread p = 0 \<longleftrightarrow> rb_contents p = []"
  using rb.unread_pos [of p] by (simp add: rb_ok_iff rb_contents_eq word_neq_0_conv) (metis word_neq_0_conv)

lemma unix_fields [simp]:
  "rb_contents (p\<lparr>up_read_closed := b\<rparr>) = rb_contents p" "rb_ok (p\<lparr>up_read_closed := b\<rparr>) = rb_ok p"
  "rb_contents (p\<lparr>up_write_closed := b\<rparr>) = rb_contents p" "rb_ok (p\<lparr>up_write_closed := b\<rparr>) = rb_ok p"
  "rb_contents (ring_buffer_interrupt q) = rb_contents q" "rb_ok (ring_buffer_interrupt q) = rb_ok q"
  by (simp_all add: rb_contents_def rb_ok_def ring_buffer_interrupt_def wake_readers_def wake_writers_def)

lemma interrupt_fields [simp]:
  "up_write_closed (ring_buffer_interrupt p) = up_write_closed p"
  "up_read_closed (ring_buffer_interrupt p) = up_read_closed p"
  "up_write_closed (ring_buffer_alert_waiters p) = up_write_closed p"
  "up_read_closed (ring_buffer_alert_waiters p) = up_read_closed p"
  "rb_internal_stop (ring_buffer_interrupt q)"
  "rb_readers (ring_buffer_interrupt q) = []" "rb_writers (ring_buffer_interrupt q) = []"
  "rb_woken (ring_buffer_interrupt q) = rb_woken q @ rev (rb_readers q) @ rev (rb_writers q)"
  "rb_readers (ring_buffer_alert_waiters q) = rb_readers q"
  "rb_writers (ring_buffer_alert_waiters q) = rb_writers q"
  "rb_woken (ring_buffer_alert_waiters q) = rb_woken q"
  "rb_internal_stop (ring_buffer_alert_waiters q) = rb_internal_stop q"
  by (auto simp: ring_buffer_interrupt_def wake_readers_def wake_writers_def
      ring_buffer_alert_waiters_def split: option.splits)

lemma close_write_pipe_spec:
  assumes "\<not> up_read_closed p"
  shows "rb_contents (close_write_pipe p) = rb_contents p" "rb_ok (close_write_pipe p) = rb_ok p"
    and "up_write_closed (close_write_pipe p)" "\<not> rb_lock (close_write_pipe p)"
    and "rb_readers (close_write_pipe p) = []" "rb_internal_stop (close_write_pipe p)"
    and "rb_woken (close_write_pipe p) = rb_woken p @ rev (rb_readers p) @ rev (rb_writers p)"
  using assms by (simp_all add: close_write_pipe_def Let_def)

lemma ring_buffer_read_more:
  assumes "rb_ok rb" and "rb_contents rb \<noteq> []" and "0 < sz"
  shows "ring_buffer.more (snd (ring_buffer_read self sz env rb)) = ring_buffer.more rb"
proof -
  have ok: "rb_ok (rb\<lparr>rb_lock := True\<rparr>)" using assms(1) by simp
  have nz: "unat sz \<noteq> 0" using assms(3) by (simp add: unat_eq_0)
  obtain rb1 where "rb_collect (unat sz) (rb\<lparr>rb_lock := True\<rparr>) = (take (unat sz) (rb_contents rb), rb1)"
      "\<exists>p. rb1 = rb\<lparr>rb_lock := True, rb_read_ptr := p\<rparr>"
    using rb_collect_pass [OF ok, of "unat sz"] by (metis rb_fields(1))
  then show ?thesis
    using assms nz by (subst ring_buffer_read.simps) (auto simp: Let_def wake_writers_def)
qed

text \<open>A sequence of reads by one process, each with no one else running.\<close>

fun read_many :: "ptr \<Rightarrow> u64 list \<Rightarrow> unix_pipe \<Rightarrow> u8 list io list \<times> unix_pipe" where
  "read_many self [] p = ([], p)"
| "read_many self (sz # szs) p =
     (let (r, p1) = read_unixpipe self sz [] p; (rs, p2) = read_many self szs p1 in (r # rs, p2))"

lemma unix_pipe_more: "ring_buffer.more (p :: unix_pipe) = ring_buffer.more q \<Longrightarrow>
   up_write_closed p = up_write_closed q \<and> up_read_closed p = up_read_closed q"
  by (cases p; cases q) simp

fun io_bytes :: "u8 list io \<Rightarrow> u8 list" where
  "io_bytes (Returned bs) = bs"
| "io_bytes _ = []"

lemma read_many_closed:
  "rb_ok p \<Longrightarrow> up_write_closed p \<Longrightarrow> (\<forall>sz \<in> set szs. 0 < sz) \<Longrightarrow>
   (\<forall>r \<in> set (fst (read_many self szs p)). \<exists>bs. r = Returned bs) \<and>
   concat (map io_bytes (fst (read_many self szs p))) = take (sum_list (map unat szs)) (rb_contents p)"
proof (induction szs arbitrary: p)
  case (Cons sz szs)
  show ?case
  proof (cases "rb_contents p = []")
    case True
    then have "read_unixpipe self sz [] p = (Returned [], p)"
      using Cons.prems rb_unread_zero [of p] by (simp add: read_unixpipe_def)
    then show ?thesis using Cons.IH [of p] Cons.prems True by (simp split: prod.splits)
  next
    case False
    then have "read_unixpipe self sz [] p = ring_buffer_read self sz [] p"
      using Cons.prems rb_unread_zero [of p] by (simp add: read_unixpipe_def del: ring_buffer_read.simps)
    moreover obtain p1 where p1: "ring_buffer_read self sz [] p = (Returned (take (unat sz) (rb_contents p)), p1)"
        "rb_contents p1 = drop (unat sz) (rb_contents p)" "rb_ok p1"
      using ring_buffer_read_eval [of p sz self "[]"] Cons.prems False by auto
    moreover have "up_write_closed p1"
      using ring_buffer_read_more [of p sz self "[]"] unix_pipe_more [of p1 p] p1(1) Cons.prems False by auto
    ultimately show ?thesis
      using Cons.IH [of p1] Cons.prems by (auto simp: take_add split: prod.splits simp del: ring_buffer_read.simps)
  qed
qed simp


section \<open>Character-device pipes: the ring and the atomic requests\<close>

definition pd_contents :: "pipe_device \<Rightarrow> u8 list" where
  "pd_contents pipe = ring_bytes (pd_buffer pipe) (pd_read_ptr pipe) (pd_write_ptr pipe)"

definition pd_ok :: "pipe_device \<Rightarrow> bool" where
  "pd_ok pipe = ring_geom (pd_buffer pipe) (pd_read_ptr pipe) (pd_write_ptr pipe) (pd_size pipe)"

interpretation pd: byte_ring pd_buffer pd_read_ptr pd_write_ptr pd_size pipe_increment_read
    pipe_store pipe_unread pipe_available pipe_collect pipe_fill
  by unfold_locales
     (simp_all add: pipe_unread_def ring_unread_def pipe_available_def ring_available_def
       pipe_increment_read_def pipe_increment_write_def pipe_store_def ring_next_def Let_def)

lemma pd_ok_iff: "pd.ok pipe = pd_ok pipe"
  by (simp add: pd.ok_def pd_ok_def)

lemma pd_contents_eq: "pd.bytes pipe = pd_contents pipe"
  by (simp add: pd.bytes_def pd_contents_def)

lemmas pipe_collect_spec = pd.collect_spec [unfolded pd_ok_iff pd_contents_eq]
lemmas pipe_fill_spec = pd.fill_spec [unfolded pd_ok_iff pd_contents_eq pd.room_def]

lemma pd_fields [simp]:
  "pd_contents (pipe\<lparr>pd_lock := l\<rparr>) = pd_contents pipe" "pd_ok (pipe\<lparr>pd_lock := l\<rparr>) = pd_ok pipe"
  "pd_contents (pipe\<lparr>pd_readers := rs\<rparr>) = pd_contents pipe" "pd_ok (pipe\<lparr>pd_readers := rs\<rparr>) = pd_ok pipe"
  "pd_contents (pipe\<lparr>pd_writers := rs\<rparr>) = pd_contents pipe" "pd_ok (pipe\<lparr>pd_writers := rs\<rparr>) = pd_ok pipe"
  "pd_contents (pipe_wake_readers pipe) = pd_contents pipe" "pd_ok (pipe_wake_readers pipe) = pd_ok pipe"
  "pd_contents (pipe_wake_writers pipe) = pd_contents pipe" "pd_ok (pipe_wake_writers pipe) = pd_ok pipe"
  "pd_contents (pipe_alert_waiters pipe) = pd_contents pipe" "pd_ok (pipe_alert_waiters pipe) = pd_ok pipe"
  "pd_size (pipe_wake_writers pipe) = pd_size pipe" "pd_size (pipe_wake_readers pipe) = pd_size pipe"
  "pd_size (pipe_alert_waiters pipe) = pd_size pipe"
  by (simp_all add: pd_contents_def pd_ok_def pipe_wake_readers_def pipe_wake_writers_def
      pipe_alert_waiters_def)

lemma pd_counts:
  assumes "pd_ok pipe"
  shows "pipe_unread pipe \<ge> sz \<longleftrightarrow> unat sz \<le> length (pd_contents pipe)"
    and "pipe_available pipe > sz \<longleftrightarrow> unat sz < unat (pd_size pipe) - 1 - length (pd_contents pipe)"
    and "length (pd_contents pipe) < unat (pd_size pipe)"
proof -
  show "pipe_unread pipe \<ge> sz \<longleftrightarrow> unat sz \<le> length (pd_contents pipe)"
    using pd.unread_bytes [of pipe] assms by (simp add: pd_ok_iff pd_contents_eq word_le_nat_alt)
  show "pipe_available pipe > sz \<longleftrightarrow> unat sz < unat (pd_size pipe) - 1 - length (pd_contents pipe)"
    using pd.available_room [of pipe] assms
    by (simp add: pd_ok_iff pd_contents_eq word_less_nat_alt pd.room_def)
  have "0 < unat (pd_size pipe)" using assms by (auto simp: pd_ok_def ring_geom_def unat_gt_0)
  moreover have "length (pd_contents pipe) \<le> unat (pd_size pipe) - 1"
    using length_ring_bytes(2) assms by (fastforce simp: pd_ok_def pd_contents_def)
  ultimately show "length (pd_contents pipe) < unat (pd_size pipe)" by simp
qed

lemma read_pipe_loop_eval:
  assumes "pd_ok pipe" and "0 < sz" and "unat sz \<le> length (pd_contents pipe)"
  shows "\<exists>pipe'. read_pipe_loop self sz env pipe = (Returned (take (unat sz) (pd_contents pipe)), pipe') \<and>
    pd_contents pipe' = drop (unat sz) (pd_contents pipe) \<and> pd_ok pipe' \<and> \<not> pd_lock pipe'"
proof -
  let ?p = "pipe\<lparr>pd_lock := True\<rparr>"
  have ok: "pd_ok ?p" using assms(1) by simp
  have nz: "unat sz \<noteq> 0" using assms(2) by (simp add: unat_eq_0)
  obtain pipe1 where p1: "pipe_collect (unat sz) ?p = (take (unat sz) (pd_contents pipe), pipe1)"
      "pd_contents pipe1 = drop (unat sz) (pd_contents pipe)" "pd_ok pipe1"
    using pipe_collect_spec [OF ok, of "unat sz"] by (cases "pipe_collect (unat sz) ?p") auto
  moreover have "pd_contents pipe \<noteq> []" using assms(3) nz by auto
  ultimately show ?thesis
    using assms nz pd_counts(1) [OF ok, of sz] by (subst read_pipe_loop.simps) (simp add: Let_def)
qed

lemma read_pipe_loop_short:
  assumes "pd_ok pipe" and "length (pd_contents pipe) < unat sz"
  shows "read_pipe_loop self sz env pipe =
    (let pipe1 = (pipe_wake_writers (pipe\<lparr>pd_lock := True\<rparr>))
           \<lparr>pd_readers := pd_readers pipe @ [self], pd_lock := False\<rparr>
     in case env of [] \<Rightarrow> (Asleep, pipe1)
        | (act, interrupted) # env' \<Rightarrow>
            if interrupted then (Restart, act pipe1) else read_pipe_loop self sz env' (act pipe1))"
proof -
  have "\<not> pipe_unread (pipe\<lparr>pd_lock := True\<rparr>) \<ge> sz"
    using pd_counts(1) [of "pipe\<lparr>pd_lock := True\<rparr>" sz] assms by simp
  then show ?thesis
    by (subst read_pipe_loop.simps)
       (simp add: Let_def pipe_wake_writers_def split: list.splits prod.splits)
qed

text \<open>What the others do to a pipe keeps it a ring of the same size.\<close>

definition pipe_env_ok :: "((pipe_device \<Rightarrow> pipe_device) \<times> bool) list \<Rightarrow> bool" where
  "pipe_env_ok env \<longleftrightarrow>
     (\<forall>e \<in> set env. \<forall>pipe. pd_ok pipe \<longrightarrow> pd_ok (fst e pipe) \<and> pd_size (fst e pipe) = pd_size pipe)"

lemma read_pipe_oversized:
  "pd_ok pipe \<Longrightarrow> pd_size pipe \<le> sz \<Longrightarrow> pipe_env_ok env \<Longrightarrow>
   fst (read_pipe_loop self sz env pipe) \<in> {Asleep, Restart}"
proof (induction env arbitrary: pipe)
  case Nil
  have "length (pd_contents pipe) < unat sz"
    using pd_counts(3) [OF Nil.prems(1)] Nil.prems(2) by (simp add: word_le_nat_alt)
  with Nil show ?case by (simp add: read_pipe_loop_short Let_def del: read_pipe_loop.simps)
next
  case (Cons e env)
  obtain act intr where e: "e = (act, intr)" by force
  let ?p = "(pipe_wake_writers (pipe\<lparr>pd_lock := True\<rparr>))
           \<lparr>pd_readers := pd_readers pipe @ [self], pd_lock := False\<rparr>"
  have p: "pd_ok ?p" "pd_size ?p = pd_size pipe" using Cons.prems(1) by simp_all
  have act: "pd_ok (act ?p)" "pd_size (act ?p) = pd_size pipe" "pipe_env_ok env"
    using Cons.prems(3) e p by (simp_all add: pipe_env_ok_def)
  have "length (pd_contents pipe) < unat sz"
    using pd_counts(3) [OF Cons.prems(1)] Cons.prems(2) by (simp add: word_le_nat_alt)
  then show ?case
    using Cons.IH [OF act(1) _ act(3)] Cons.prems(1,2) act(2) e
    by (simp add: read_pipe_loop_short Let_def del: read_pipe_loop.simps)
qed

lemma write_pipe_loop_eval:
  assumes "pd_ok pipe" and "bs \<noteq> []" and "length bs < 2 ^ 64"
    and "length bs < unat (pd_size pipe) - 1 - length (pd_contents pipe)"
  shows "\<exists>pipe'. write_pipe_loop self (of_nat (length bs)) 0 bs env pipe = (Returned (length bs), pipe') \<and>
    pd_contents pipe' = pd_contents pipe @ bs \<and> pd_ok pipe' \<and> \<not> pd_lock pipe'"
proof -
  let ?p = "pipe\<lparr>pd_lock := True\<rparr>"
  have ok: "pd_ok ?p" using assms(1) by simp
  have n: "unat (of_nat (length bs) :: u64) = length bs" using assms(3) by (rule unat_of_nat_64)
  have av: "pipe_available ?p > of_nat (length bs)"
    using pd_counts(2) [OF ok, of "of_nat (length bs)"] n assms(4) by simp
  obtain pipe1 where "pipe_fill bs ?p = (length bs, pipe1)"
      "pd_contents pipe1 = pd_contents pipe @ bs" "pd_ok pipe1"
    using pipe_fill_spec [OF ok, of bs] assms(4) by (cases "pipe_fill bs ?p") (auto simp: min_absorb1)
  then show ?thesis using assms(2) av
    by (subst write_pipe_loop.simps) (simp add: Let_def)
qed

lemma write_pipe_loop_short:
  assumes "pd_ok pipe" and "bs \<noteq> []" and "unat (pd_size pipe) \<le> unat sz + 1"
  shows "write_pipe_loop self sz 0 bs env pipe =
    (let pipe1 = (pipe_alert_waiters (pipe_wake_readers (pipe\<lparr>pd_lock := True\<rparr>)))
           \<lparr>pd_writers := pd_writers pipe @ [self], pd_lock := False\<rparr>
     in case env of [] \<Rightarrow> (Asleep, pipe1)
        | (act, interrupted) # env' \<Rightarrow>
            if interrupted then (Restart, act pipe1) else write_pipe_loop self sz 0 bs env' (act pipe1))"
proof -
  have "\<not> pipe_available (pipe\<lparr>pd_lock := True\<rparr>) > sz"
    using pd_counts(2) [of "pipe\<lparr>pd_lock := True\<rparr>" sz] assms by simp
  then show ?thesis using assms(2)
    by (subst write_pipe_loop.simps)
       (simp add: Let_def pipe_wake_readers_def pipe_alert_waiters_def split: list.splits prod.splits)
qed

lemma write_pipe_oversized:
  "pd_ok pipe \<Longrightarrow> bs \<noteq> [] \<Longrightarrow> unat (pd_size pipe) \<le> unat sz + 1 \<Longrightarrow> pipe_env_ok env \<Longrightarrow>
   fst (write_pipe_loop self sz 0 bs env pipe) \<in> {Asleep, Restart}"
proof (induction env arbitrary: pipe)
  case Nil
  then show ?case by (simp add: write_pipe_loop_short Let_def del: write_pipe_loop.simps)
next
  case (Cons e env)
  obtain act intr where e: "e = (act, intr)" by force
  let ?p = "(pipe_alert_waiters (pipe_wake_readers (pipe\<lparr>pd_lock := True\<rparr>)))
           \<lparr>pd_writers := pd_writers pipe @ [self], pd_lock := False\<rparr>"
  have p: "pd_ok ?p" "pd_size ?p = pd_size pipe" using Cons.prems(1) by simp_all
  have act: "pd_ok (act ?p)" "pd_size (act ?p) = pd_size pipe" "pipe_env_ok env"
    using Cons.prems(4) e p by (simp_all add: pipe_env_ok_def)
  then show ?case
    using Cons.IH [OF act(1) Cons.prems(2) _ act(3)] Cons.prems(1-3) e
    by (simp add: write_pipe_loop_short Let_def del: write_pipe_loop.simps)
qed


section \<open>Properties\<close>

definition unix_pipe_example :: unix_pipe where
  "unix_pipe_example =
     ring_buffer.extend (ring_example\<lparr>rb_writers := []\<rparr>)
       \<lparr>up_read_closed = False, up_write_closed = False, up_sigpipe = []\<rparr>"

lemma unix_pipe_example_facts:
  "rb_ok unix_pipe_example" "rb_contents unix_pipe_example = [10, 20, 30]"
  "\<not> up_read_closed unix_pipe_example" "\<not> up_write_closed unix_pipe_example"
  "\<not> rb_internal_stop unix_pipe_example" "\<not> rb_soft_stop unix_pipe_example"
  "\<not> rb_discard unix_pipe_example" "rb_size unix_pipe_example = 4"
  by (simp_all add: unix_pipe_example_def ring_buffer.extend_def ring_example_def
      ring_buffer_create_def rb_ok_def ring_geom_def rb_contents_def ring_bytes_def word_le_nat_alt)

text \<open>
  Fact: closing the write end of a pipe loses nothing and never leaves a reader
  waiting: any later sequence of reads gets exactly the bytes that were still in the pipe, in
  order, and from then on the empty result that means end of file.
\<close>

theorem unix_pipe_eof:
  assumes "rb_ok p" and "\<not> up_read_closed p" and "\<forall>sz \<in> set szs. 0 < sz"
  shows "(\<forall>r \<in> set (fst (read_many self szs (close_write_pipe p))). \<exists>bs. r = Returned bs) \<and>
    concat (map io_bytes (fst (read_many self szs (close_write_pipe p)))) =
      take (sum_list (map unat szs)) (rb_contents p)"
  using read_many_closed [of "close_write_pipe p" szs self] close_write_pipe_spec [OF assms(2)] assms(1,3)
  by simp

theorem unix_pipe_eof_witness:
  "concat (map io_bytes (fst (read_many 1 [2, 2, 2] (close_write_pipe unix_pipe_example)))) = [10, 20, 30]"
proof -
  have "\<forall>sz \<in> set [2, 2, 2 :: u64]. 0 < sz" by simp
  then show ?thesis
    using unix_pipe_eof [OF unix_pipe_example_facts(1,3), of "[2, 2, 2]" 1] unix_pipe_example_facts(2)
    by simp
qed

text \<open>
  Fact: a writer that filled the pipe and sleeps is released when the read end is
  closed, with the count of what it had stored; a writer that comes later gets \<open>EPIPE\<close> and
  \<open>SIGPIPE\<close> and stores nothing.
\<close>

theorem unix_pipe_broken:
  assumes "rb_ok p" and "\<not> up_write_closed p" and "\<not> rb_discard p" and "\<not> up_read_closed p"
    and "rb_room p < length bs"
  shows "\<exists>p'. write_unixpipe self bs [(close_read_pipe, False)] p = (PIo (Returned (rb_room p)), p') \<and>
    up_read_closed p' \<and>
    write_unixpipe other cs [] p' = (EPIPE, p'\<lparr>up_sigpipe := up_sigpipe p' @ [other]\<rparr>)"
proof -
  have ok: "rb_ok (p\<lparr>rb_lock := True\<rparr>)" using assms(1) by simp
  have room: "rb_room (p\<lparr>rb_lock := True\<rparr>) = rb_room p" by (simp add: rb_room_def)
  obtain p1 where "rb_fill bs (p\<lparr>rb_lock := True\<rparr>) =
        (min (length bs) (rb_room (p\<lparr>rb_lock := True\<rparr>)), p1)"
      "\<exists>b q. p1 = p\<lparr>rb_lock := True, rb_buffer := b, rb_write_ptr := q\<rparr>"
    by (rule rb_fill_pass [OF ok, of bs])
  then have p1: "rb_fill bs (p\<lparr>rb_lock := True\<rparr>) = (rb_room p, p1)"
      "\<exists>b q. p1 = p\<lparr>rb_lock := True, rb_buffer := b, rb_write_ptr := q\<rparr>"
    using room assms(5) by (simp_all add: min_absorb2)
  let ?p2 = "(ring_buffer_alert_waiters (wake_readers p1))
      \<lparr>rb_writers := rb_writers (ring_buffer_alert_waiters (wake_readers p1)) @ [self], rb_lock := False\<rparr>"
  have f: "\<not> rb_discard (ring_buffer_alert_waiters (wake_readers p1))" "\<not> up_write_closed ?p2"
    using p1(2) assms(2,3)
    by (auto simp: wake_readers_def ring_buffer_alert_waiters_def split: option.splits)
  then have c: "rb_internal_stop (close_read_pipe ?p2)" "up_read_closed (close_read_pipe ?p2)"
    by (simp_all add: close_read_pipe_def Let_def)
  let ?p3 = "ring_buffer_alert_waiters (wake_readers (close_read_pipe ?p2))"
  have "bs \<noteq> []" "drop (rb_room p) bs \<noteq> []" using assms(5) by auto
  then have "write_unixpipe self bs [(close_read_pipe, False)] p = (PIo (Returned (rb_room p)), ?p3)"
    using assms(4) p1(1) f(1) c(1)
    by (simp add: write_unixpipe_def ring_buffer_write_def Let_def)
  moreover have "up_read_closed ?p3" using c(2) by (simp add: wake_readers_def)
  ultimately show ?thesis by (auto simp: write_unixpipe_def)
qed

theorem unix_pipe_broken_witness:
  "\<exists>p'. write_unixpipe 1 [5, 6] [(close_read_pipe, False)] unix_pipe_example = (PIo (Returned 0), p') \<and>
    fst (write_unixpipe 2 [7] [] p') = EPIPE"
proof -
  have "rb_room unix_pipe_example = 0" using unix_pipe_example_facts by (simp add: rb_room_def)
  then obtain p' where "write_unixpipe 1 [5, 6] [(close_read_pipe, False)] unix_pipe_example =
        (PIo (Returned 0), p')"
      "write_unixpipe 2 [7] [] p' = (EPIPE, p'\<lparr>up_sigpipe := up_sigpipe p' @ [2]\<rparr>)"
    using unix_pipe_broken [OF unix_pipe_example_facts(1,4,7,3), of "[5, 6]" 1 2 "[7]"] by auto
  then show ?thesis by simp
qed

text \<open>
  Fact: polling tells the truth: on a pipe with no interrupt pending, \<open>check_pipe\<close>
  answers zero exactly when a read of at least one byte returns without sleeping.
\<close>

theorem check_pipe_sound:
  assumes "rb_ok p" and "\<not> rb_internal_stop p" and "\<not> rb_soft_stop p" and "0 < sz"
  shows "check_pipe p = 0 \<longleftrightarrow> fst (read_unixpipe self sz [] p) \<noteq> Asleep"
proof (cases "rb_contents p = []")
  case True
  then show ?thesis
    using assms rb_unread_zero [OF assms(1)] ring_buffer_read_empty [OF assms(1) True, of self sz "[]"]
    by (auto simp: check_pipe_def read_unixpipe_def simp del: ring_buffer_read.simps)
next
  case False
  then have "ring_buffer_unread p \<noteq> 0" using rb_unread_zero [OF assms(1)] by simp
  then show ?thesis
    using ring_buffer_read_eval [OF assms(1) False assms(4), of self "[]"]
    by (auto simp: check_pipe_def read_unixpipe_def word_neq_0_conv simp del: ring_buffer_read.simps)
qed

theorem check_pipe_sound_witness: "check_pipe unix_pipe_example = 0 \<longleftrightarrow>
    fst (read_unixpipe 1 1 [] unix_pipe_example) \<noteq> Asleep"
  using check_pipe_sound [OF unix_pipe_example_facts(1,5,6), of 1 1] by simp

text \<open>
  Fact: requests on a character-device pipe are all or nothing: a read that finds
  enough bytes returns exactly what it asked for, one that does not leaves the contents alone
  and sleeps, and a write that fits appends all its bytes.
\<close>

theorem pipe_requests_atomic:
  assumes "pd_ok pipe" and "\<not> pd_dead pipe" and "0 < sz" and "bs \<noteq> []" and "length bs < 2 ^ 64"
  shows "(unat sz \<le> length (pd_contents pipe) \<longrightarrow>
      (\<exists>pipe'. read_pipe self sz env pipe = (Returned (take (unat sz) (pd_contents pipe)), pipe') \<and>
         pd_contents pipe' = drop (unat sz) (pd_contents pipe) \<and> pd_ok pipe')) \<and>
    (length (pd_contents pipe) < unat sz \<longrightarrow>
      fst (read_pipe self sz [] pipe) = Asleep \<and>
      pd_contents (snd (read_pipe self sz [] pipe)) = pd_contents pipe) \<and>
    (length bs < unat (pd_size pipe) - 1 - length (pd_contents pipe) \<longrightarrow>
      (\<exists>pipe'. write_pipe self bs env pipe = (Returned (length bs), pipe') \<and>
         pd_contents pipe' = pd_contents pipe @ bs \<and> pd_ok pipe'))"
  using read_pipe_loop_eval [OF assms(1,3), of self env] read_pipe_loop_short [OF assms(1), of sz self "[]"]
    write_pipe_loop_eval [OF assms(1,4,5), of self env] assms(2)
  by (auto simp: read_pipe_def write_pipe_def Let_def simp del: read_pipe_loop.simps write_pipe_loop.simps)

theorem pipe_requests_atomic_witness:
  "fst (write_pipe 1 [1, 2] [] (make_pipe [0, 0, 0, 0, 0] 5)) = Returned 2 \<and>
   fst (read_pipe 1 3 [] (make_pipe [0, 0, 0, 0, 0] 5)) = Asleep"
proof -
  have "pd_ok (make_pipe [0, 0, 0, 0, 0] 5)" "\<not> pd_dead (make_pipe [0, 0, 0, 0, 0] 5)"
      "pd_contents (make_pipe [0, 0, 0, 0, 0] 5) = []" "pd_size (make_pipe [0, 0, 0, 0, 0] 5) = 5"
    by (simp_all add: make_pipe_def pd_ok_def ring_geom_def pd_contents_def ring_bytes_def)
  then show ?thesis
    using pipe_requests_atomic [of "make_pipe [0, 0, 0, 0, 0] 5" 3 "[1, 2]" 1 "[]"] by auto
qed

text \<open>
  Fact: a read of as many bytes as the pipe has slots, or a write of one byte less, can
  never be satisfied: whatever well-behaved processes do meanwhile, the caller sleeps until a
  signal interrupts it.
\<close>

theorem pipe_oversized_never_returns:
  assumes "pd_ok pipe" and "\<not> pd_dead pipe" and "pipe_env_ok env" and "pd_size pipe \<le> sz"
    and "bs \<noteq> []" and "length bs < 2 ^ 64" and "unat (pd_size pipe) \<le> length bs + 1"
  shows "fst (read_pipe self sz env pipe) \<in> {Asleep, Restart} \<and>
         fst (write_pipe self bs env pipe) \<in> {Asleep, Restart}"
proof -
  have "unat (of_nat (length bs) :: u64) = length bs" using assms(6) by (rule unat_of_nat_64)
  then show ?thesis
    using read_pipe_oversized [OF assms(1,4,3), of self] assms(2)
      write_pipe_oversized [OF assms(1,5) _ assms(3), of "of_nat (length bs)" self] assms(7)
    by (simp add: read_pipe_def write_pipe_def del: read_pipe_loop.simps write_pipe_loop.simps)
qed

theorem pipe_oversized_never_returns_witness:
  "fst (read_pipe 1 3 [(pipe_wait 9, False)] (make_pipe [0, 0, 0] 3)) \<in> {Asleep, Restart} \<and>
   fst (write_pipe 1 [1, 2] [(pipe_wait 9, False)] (make_pipe [0, 0, 0] 3)) \<in> {Asleep, Restart}"
proof -
  have "pd_ok (make_pipe [0, 0, 0] 3)" "\<not> pd_dead (make_pipe [0, 0, 0] 3)" "pd_size (make_pipe [0, 0, 0] 3) = 3"
    by (simp_all add: make_pipe_def pd_ok_def ring_geom_def)
  moreover have "pipe_env_ok [(pipe_wait 9, False)]"
    by (simp add: pipe_env_ok_def pipe_wait_def pd_ok_def)
  ultimately show ?thesis
    using pipe_oversized_never_returns [of "make_pipe [0, 0, 0] 3" "[(pipe_wait 9, False)]" 3 "[1, 2]" 1]
    by simp
qed

end
