(* ===== verification/Tty_Line.thy ===== *)
theory Tty_Line
  imports Kernel_Prelude
begin

text \<open>
  The line discipline of a terminal, the first half of \<open>kernel/vfs/tty.c\<close>.  It passes characters on through the
  function pointers \<open>write_in\<close> and \<open>write_out\<close>; the field \<open>pt_calls\<close> records these calls, and those that end the
  input, discard it or signal a group, in their order: the discipline never looks at what they do.  Accesses
  outside of the line buffer are faults.  \<open>discipline\<close> says what a character does to a line that is
  a plain list, and the code refines it.
\<close>

section \<open>Settings\<close>

definition VEOF :: nat where "VEOF = 1"
definition VEOL :: nat where "VEOL = 2"
definition VERASE :: nat where "VERASE = 3"
definition VINTR :: nat where "VINTR = 4"
definition VKILL :: nat where "VKILL = 5"
definition VMIN :: nat where "VMIN = 6"
definition VQUIT :: nat where "VQUIT = 7"
definition VSTART :: nat where "VSTART = 8"
definition VSTOP :: nat where "VSTOP = 9"
definition VSUSP :: nat where "VSUSP = 10"
definition VTIME :: nat where "VTIME = 11"
definition VLNEXT :: nat where "VLNEXT = 12"
definition VWERASE :: nat where "VWERASE = 13"

definition BRKINT :: u32 where "BRKINT = 1"
definition ICRNL :: u32 where "ICRNL = 2"
definition IGNCR :: u32 where "IGNCR = 8"
definition INLCR :: u32 where "INLCR = 32"
definition ISTRIP :: u32 where "ISTRIP = 128"
definition IUCLC :: u32 where "IUCLC = 256"

definition OPOST :: u32 where "OPOST = 1"
definition OLCUC :: u32 where "OLCUC = 2"
definition ONLCR :: u32 where "ONLCR = 4"
definition ONLRET :: u32 where "ONLRET = 32"

definition B38400 :: u32 where "B38400 = 15"
definition CS8 :: u32 where "CS8 = 48"
definition CREAD :: u32 where "CREAD = 128"

definition ISIG :: u32 where "ISIG = 1"
definition ICANON :: u32 where "ICANON = 2"
definition ECHO :: u32 where "ECHO = 8"
definition ECHOE :: u32 where "ECHOE = 16"
definition ECHOK :: u32 where "ECHOK = 32"
definition ECHONL :: u32 where "ECHONL = 64"
definition TOSTOP :: u32 where "TOSTOP = 256"
definition IEXTEN :: u32 where "IEXTEN = 512"
definition ECHOCTL :: u32 where "ECHOCTL = 1024"

definition SIGINT :: int where "SIGINT = 2"
definition SIGQUIT :: int where "SIGQUIT = 3"
definition SIGWINCH :: int where "SIGWINCH = 20"
definition SIGTSTP :: int where "SIGTSTP = 24"
definition SIGTTIN :: int where "SIGTTIN = 26"
definition SIGTTOU :: int where "SIGTTOU = 37"

record termios =
  c_iflag :: u32
  c_oflag :: u32
  c_cflag :: u32
  c_lflag :: u32
  c_cc :: "nat \<Rightarrow> u8"

record winsize =
  ws_row :: u16
  ws_col :: u16
  ws_xpixel :: u16
  ws_ypixel :: u16

datatype tty_call = CallIn u8 | CallOut u8 | CallEof | CallDiscard | CallSignal u32 int

record pty_node =
  pn_name :: bytes
  pn_uid :: u32
  pn_gid :: u32
  pn_mask :: u32
  pn_flags :: u64
  pn_ctime :: u64
  pn_mtime :: u64
  pn_atime :: u64

record pty =
  pt_name :: u64
  pt_master :: pty_node
  pt_slave :: pty_node
  pt_size :: winsize
  pt_tios :: termios
  pt_canon_buffer :: bytes
  pt_canon_bufsize :: nat
  pt_canon_buflen :: nat
  pt_ct_proc :: u32
  pt_fg_proc :: u32
  pt_verbatim :: bool
  pt_calls :: "tty_call list"

definition flag_on :: "u32 \<Rightarrow> u32 \<Rightarrow> bool" where
  "flag_on flags m \<longleftrightarrow> flags AND m \<noteq> 0"

abbreviation lflag :: "pty \<Rightarrow> u32 \<Rightarrow> bool" where
  "lflag p \<equiv> flag_on (c_lflag (pt_tios p))"

abbreviation iflag :: "pty \<Rightarrow> u32 \<Rightarrow> bool" where
  "iflag p \<equiv> flag_on (c_iflag (pt_tios p))"

abbreviation oflag :: "pty \<Rightarrow> u32 \<Rightarrow> bool" where
  "oflag p \<equiv> flag_on (c_oflag (pt_tios p))"

abbreviation cc :: "pty \<Rightarrow> nat \<Rightarrow> u8" where
  "cc p \<equiv> c_cc (pt_tios p)"


section \<open>Output and the line buffer\<close>

definition call :: "tty_call \<Rightarrow> pty \<Rightarrow> pty" where
  "call a p = p\<lparr>pt_calls := pt_calls p @ [a]\<rparr>"

definition tty_output_process_slave :: "u8 \<Rightarrow> pty \<Rightarrow> pty" where
  "tty_output_process_slave c p =
     (if \<not> oflag p OPOST then call (CallOut c) p
      else if c = 10 \<and> oflag p ONLCR then call (CallOut 13) (call (CallOut 10) p)
      else if c = 13 \<and> oflag p ONLRET then p
      else if c \<ge> 97 \<and> c \<le> 122 \<and> oflag p OLCUC then call (CallOut (c + 65 - 97)) p
      else call (CallOut c) p)"

definition tty_output_process :: "u8 \<Rightarrow> pty \<Rightarrow> pty" where
  "tty_output_process c p = tty_output_process_slave c p"

function dump_from :: "nat \<Rightarrow> pty \<Rightarrow> pty option" where
  "dump_from i p =
     (if pt_canon_buflen p > 0 then
        if i < length (pt_canon_buffer p)
        then dump_from (Suc i) ((call (CallIn (pt_canon_buffer p ! i)) p)\<lparr>pt_canon_buflen := pt_canon_buflen p - 1\<rparr>)
        else None
      else Some p)"
  by pat_completeness auto
termination by (relation "measure (\<lambda>(i, p). pt_canon_buflen p)") auto

declare dump_from.simps [simp del]

definition dump_input_buffer :: "pty \<Rightarrow> pty option" where
  "dump_input_buffer p = dump_from 0 p"

definition put_char :: "nat \<Rightarrow> u8 \<Rightarrow> pty \<Rightarrow> pty option" where
  "put_char i c p =
     (if i < length (pt_canon_buffer p) then Some (p\<lparr>pt_canon_buffer := (pt_canon_buffer p)[i := c]\<rparr>) else None)"

definition clear_input_buffer :: "pty \<Rightarrow> pty option" where
  "clear_input_buffer p = put_char 0 0 (p\<lparr>pt_canon_buflen := 0\<rparr>)"

definition is_control :: "int \<Rightarrow> bool" where
  "is_control c \<longleftrightarrow> c < 32 \<or> c = 0x7F"

definition erase_echo :: "pty \<Rightarrow> pty" where
  "erase_echo p = tty_output_process 8 (tty_output_process 32 (tty_output_process 8 p))"

text \<open>The characters of the line buffer are signed.\<close>

definition erase_one :: "bool \<Rightarrow> pty \<Rightarrow> pty option" where
  "erase_one erase p =
     (if pt_canon_buflen p > 0 then
        let n = pt_canon_buflen p - 1
        in if n < length (pt_canon_buffer p) then do {
             let wide = is_control (sint (pt_canon_buffer p ! n));
             p \<leftarrow> put_char n 0 (p\<lparr>pt_canon_buflen := n\<rparr>);
             Some (if lflag p ECHO \<and> erase then if wide then erase_echo (erase_echo p) else erase_echo p else p)
           } else None
      else Some p)"

definition echo :: "u8 \<Rightarrow> pty \<Rightarrow> pty" where
  "echo c p =
     (if lflag p ECHOCTL \<and> is_control (uint c)
      then tty_output_process (of_int ((64 + uint c) mod 128)) (tty_output_process 94 p)
      else tty_output_process c p)"

definition echo_line :: "u8 \<Rightarrow> pty \<Rightarrow> pty" where
  "echo_line c p = (if c = 10 then tty_output_process c p else echo c p)"

definition append_char :: "u8 \<Rightarrow> pty \<Rightarrow> pty option" where
  "append_char c p =
     (if pt_canon_buflen p < pt_canon_bufsize p then do {
        p \<leftarrow> put_char (pt_canon_buflen p) c p;
        Some (p\<lparr>pt_canon_buflen := pt_canon_buflen p + 1\<rparr>)
      } else Some p)"


section \<open>Input\<close>

definition input_verbatim :: "u8 \<Rightarrow> pty \<Rightarrow> pty option" where
  "input_verbatim c p = do {
     p \<leftarrow> append_char c (p\<lparr>pt_verbatim := False\<rparr>);
     Some (if lflag p ECHO then echo c p else p)
   }"

definition input_signal :: "u8 \<Rightarrow> pty \<Rightarrow> int" where
  "input_signal c p =
     (if \<not> lflag p ISIG then -1
      else if c = cc p VINTR then SIGINT
      else if c = cc p VQUIT then SIGQUIT
      else if c = cc p VSUSP then SIGTSTP
      else -1)"

definition input_interrupt :: "int \<Rightarrow> u8 \<Rightarrow> pty \<Rightarrow> pty option" where
  "input_interrupt sig c p = do {
     p \<leftarrow> clear_input_buffer (if lflag p ECHO then echo c p else p);
     Some (if pt_fg_proc p \<noteq> 0 then call (CallSignal (pt_fg_proc p) sig) p else p)
   }"

text \<open>The character after the input flags; none when it is ignored.\<close>

definition input_translate :: "u8 \<Rightarrow> pty \<Rightarrow> u8 option" where
  "input_translate c p =
     (let c = (if iflag p ISTRIP then c AND 0x7F else c)
      in if iflag p IGNCR \<and> c = 13 then None
         else let c = (if iflag p INLCR \<and> c = 10 then 13 else if iflag p ICRNL \<and> c = 13 then 10 else c)
              in Some (if iflag p IUCLC \<and> c \<ge> 65 \<and> c \<le> 90 then c - 65 + 97 else c))"

lemma output_process_fields [simp]:
  "pt_canon_buflen (tty_output_process c p) = pt_canon_buflen p" "pt_canon_buffer (tty_output_process c p) = pt_canon_buffer p"
  "pt_canon_bufsize (tty_output_process c p) = pt_canon_bufsize p" "pt_tios (tty_output_process c p) = pt_tios p"
  "pt_verbatim (tty_output_process c p) = pt_verbatim p" "pt_fg_proc (tty_output_process c p) = pt_fg_proc p"
  by (simp_all add: tty_output_process_def tty_output_process_slave_def call_def)

lemma erase_one_buflen: "erase_one e p = Some p' \<Longrightarrow> pt_canon_buflen p' = pt_canon_buflen p - 1"
  by (cases "pt_canon_buflen p > 0") (auto simp: erase_one_def put_char_def erase_echo_def Let_def split: if_splits)

text \<open>The last character of the line is compared before each erasure; an empty line ends the loop.\<close>

function erase_while :: "(u8 \<Rightarrow> bool) \<Rightarrow> bool \<Rightarrow> pty \<Rightarrow> pty option" where
  "erase_while f erase p =
     (if pt_canon_buflen p = 0 then Some p
      else if pt_canon_buflen p - 1 < length (pt_canon_buffer p) then
        if f (pt_canon_buffer p ! (pt_canon_buflen p - 1)) then do {
          p \<leftarrow> erase_one erase p;
          erase_while f erase p
        } else Some p
      else None)"
  by pat_completeness auto
termination by (relation "measure (\<lambda>(f, e, p). pt_canon_buflen p)") (auto dest: erase_one_buflen)

declare erase_while.simps [simp del]

definition echo_edit :: "u32 \<Rightarrow> u8 \<Rightarrow> pty \<Rightarrow> pty" where
  "echo_edit how c p = (if lflag p ECHO \<and> \<not> lflag p how then echo c p else p)"

definition input_line :: "u8 \<Rightarrow> pty \<Rightarrow> pty option" where
  "input_line c p = do {
     p \<leftarrow> append_char c p;
     let p = (if lflag p ECHO then echo_line c p else p);
     if c = 10 \<or> (cc p VEOL \<noteq> 0 \<and> c = cc p VEOL) then do {
       let p = (if \<not> lflag p ECHO \<and> lflag p ECHONL then tty_output_process c p else p);
       p \<leftarrow> (if pt_canon_buflen p = 0 then None else put_char (pt_canon_buflen p - 1) c p);
       dump_input_buffer p
     } else Some p
   }"

definition input_canon :: "u8 \<Rightarrow> pty \<Rightarrow> pty option" where
  "input_canon c p =
     (if c = cc p VLNEXT \<and> lflag p IEXTEN then
        Some (tty_output_process 8 (tty_output_process 94 (p\<lparr>pt_verbatim := True\<rparr>)))
      else if c = cc p VKILL then do { p \<leftarrow> erase_while (\<lambda>x. True) (lflag p ECHOK) p; Some (echo_edit ECHOK c p) }
      else if c = cc p VERASE then do { p \<leftarrow> erase_one (lflag p ECHOE) p; Some (echo_edit ECHOE c p) }
      else if c = cc p VWERASE \<and> lflag p IEXTEN then do {
        p \<leftarrow> erase_while (\<lambda>x. x = 32) (lflag p ECHOE) p;
        p \<leftarrow> erase_while (\<lambda>x. x \<noteq> 32) (lflag p ECHOE) p;
        Some (echo_edit ECHOE c p)
      }
      else if c = cc p VEOF then
        if pt_canon_buflen p \<noteq> 0 then dump_input_buffer p else Some (call CallEof p)
      else input_line c p)"

definition tty_input_process :: "u8 \<Rightarrow> pty \<Rightarrow> pty option" where
  "tty_input_process c p =
     (if pt_verbatim p then input_verbatim c p
      else if input_signal c p \<noteq> -1 then input_interrupt (input_signal c p) c p
      else case input_translate c p of
        None \<Rightarrow> Some p
      | Some c \<Rightarrow>
          if lflag p ICANON then input_canon c p
          else Some (call (CallIn c) (if lflag p ECHO then echo_line c p else p)))"


section \<open>The discipline on lists\<close>

definition post :: "termios \<Rightarrow> u8 \<Rightarrow> bytes" where
  "post t c =
     (if \<not> flag_on (c_oflag t) OPOST then [c]
      else if c = 10 \<and> flag_on (c_oflag t) ONLCR then [10, 13]
      else if c = 13 \<and> flag_on (c_oflag t) ONLRET then []
      else if c \<ge> 97 \<and> c \<le> 122 \<and> flag_on (c_oflag t) OLCUC then [c + 65 - 97]
      else [c])"

definition outs :: "termios \<Rightarrow> bytes \<Rightarrow> tty_call list" where
  "outs t cs = map CallOut (concat (map (post t) cs))"

definition caret :: "termios \<Rightarrow> u8 \<Rightarrow> bytes" where
  "caret t c = (if flag_on (c_lflag t) ECHOCTL \<and> is_control (uint c) then [94, of_int ((64 + uint c) mod 128)] else [c])"

definition opt :: "bool \<Rightarrow> bytes \<Rightarrow> bytes" where
  "opt b cs = (if b then cs else [])"

definition rub_out :: "u8 \<Rightarrow> bytes" where
  "rub_out c = (if is_control (sint c) then [8, 32, 8, 8, 32, 8] else [8, 32, 8])"

definition rubs :: "termios \<Rightarrow> bool \<Rightarrow> bytes \<Rightarrow> bytes" where
  "rubs t erase cs = opt (flag_on (c_lflag t) ECHO \<and> erase) (concat (map rub_out (rev cs)))"

definition word_start :: "bytes \<Rightarrow> bytes" where
  "word_start l = rev (dropWhile (\<lambda>c. c \<noteq> 32) (dropWhile (\<lambda>c. c = 32) (rev l)))"

definition edit :: "termios \<Rightarrow> nat \<Rightarrow> u8 \<Rightarrow> bytes \<Rightarrow> bool \<times> bytes \<times> tty_call list" where
  "edit t cap c l =
     (let on = flag_on (c_lflag t)
      in if c = c_cc t VLNEXT \<and> on IEXTEN then (True, l, outs t [94, 8])
         else if c = c_cc t VKILL then (False, [], outs t (rubs t (on ECHOK) l @ opt (on ECHO \<and> \<not> on ECHOK) (caret t c)))
         else if c = c_cc t VERASE then
           (False, butlast l, outs t (rubs t (on ECHOE) (drop (length l - 1) l) @ opt (on ECHO \<and> \<not> on ECHOE) (caret t c)))
         else if c = c_cc t VWERASE \<and> on IEXTEN then
           let k = word_start l
           in (False, k, outs t (rubs t (on ECHOE) (drop (length k) l) @ opt (on ECHO \<and> \<not> on ECHOE) (caret t c)))
         else if c = c_cc t VEOF then (False, [], if l = [] then [CallEof] else map CallIn l)
         else
           let l' = (if length l < cap then l @ [c] else l);
               shown = outs t (opt (on ECHO) (if c = 10 then [10] else caret t c))
           in if c = 10 \<or> (c_cc t VEOL \<noteq> 0 \<and> c = c_cc t VEOL)
              then (False, [], shown @ outs t (opt (\<not> on ECHO \<and> on ECHONL) [c]) @ map CallIn (butlast l' @ [c]))
              else (False, l', shown))"

definition sig_of :: "termios \<Rightarrow> u8 \<Rightarrow> int" where
  "sig_of t c =
     (if \<not> flag_on (c_lflag t) ISIG then -1
      else if c = c_cc t VINTR then SIGINT
      else if c = c_cc t VQUIT then SIGQUIT
      else if c = c_cc t VSUSP then SIGTSTP else -1)"

definition translated :: "termios \<Rightarrow> u8 \<Rightarrow> u8 option" where
  "translated t c =
     (let on = flag_on (c_iflag t); c = (if on ISTRIP then c AND 0x7F else c)
      in if on IGNCR \<and> c = 13 then None
         else let c = (if on INLCR \<and> c = 10 then 13 else if on ICRNL \<and> c = 13 then 10 else c)
              in Some (if on IUCLC \<and> c \<ge> 65 \<and> c \<le> 90 then c - 65 + 97 else c))"

definition discipline :: "termios \<Rightarrow> nat \<Rightarrow> u32 \<Rightarrow> u8 \<Rightarrow> bool \<Rightarrow> bytes \<Rightarrow> bool \<times> bytes \<times> tty_call list" where
  "discipline t cap fg c verbatim l =
     (let on = flag_on (c_lflag t)
      in if verbatim then (False, if length l < cap then l @ [c] else l, outs t (opt (on ECHO) (caret t c)))
         else if sig_of t c \<noteq> -1 then
           (False, [], outs t (opt (on ECHO) (caret t c)) @ (if fg \<noteq> 0 then [CallSignal fg (sig_of t c)] else []))
         else case translated t c of None \<Rightarrow> (False, l, [])
         | Some c \<Rightarrow>
             if on ICANON then edit t cap c l
             else (False, l, outs t (opt (on ECHO) (if c = 10 then [10] else caret t c)) @ [CallIn c]))"


section \<open>The line buffer holds the line\<close>

definition line :: "pty \<Rightarrow> bytes" where
  "line p = take (pt_canon_buflen p) (pt_canon_buffer p)"

definition pty_ok :: "pty \<Rightarrow> bool" where
  "pty_ok p \<longleftrightarrow> 0 < pt_canon_bufsize p \<and> pt_canon_buflen p \<le> pt_canon_bufsize p \<and> pt_canon_bufsize p < length (pt_canon_buffer p)"

text \<open>Where \<open>p\<close> is taken to by a change of the line and some calls.\<close>

definition moved :: "pty \<Rightarrow> bytes \<Rightarrow> tty_call list \<Rightarrow> pty \<Rightarrow> bool" where
  "moved p l calls p' \<longleftrightarrow> (\<exists>buf. length buf = length (pt_canon_buffer p) \<and> length l \<le> length buf \<and> take (length l) buf = l \<and>
     p' = p\<lparr>pt_canon_buffer := buf, pt_canon_buflen := length l, pt_calls := pt_calls p @ calls\<rparr>)"

lemma movedI:
  "length buf = length (pt_canon_buffer p) \<Longrightarrow> n \<le> length buf \<Longrightarrow> take n buf = l \<Longrightarrow>
   moved p l a (p\<lparr>pt_canon_buffer := buf, pt_canon_buflen := n, pt_calls := pt_calls p @ a\<rparr>)"
  by (auto simp: moved_def intro!: exI [of _ buf])

lemma moved_trans: "moved p l a p1 \<Longrightarrow> moved p1 l' b p2 \<Longrightarrow> moved p l' (a @ b) p2"
  unfolding moved_def by (elim exE, rename_tac buf buf', rule_tac x = buf' in exI) simp

lemma moved_fields:
  "moved p l a p' \<Longrightarrow> line p' = l \<and> pt_tios p' = pt_tios p \<and> pt_canon_bufsize p' = pt_canon_bufsize p \<and>
     pt_verbatim p' = pt_verbatim p \<and> pt_fg_proc p' = pt_fg_proc p \<and> pt_canon_buflen p' = length l \<and>
     length (pt_canon_buffer p') = length (pt_canon_buffer p) \<and> pt_calls p' = pt_calls p @ a"
  by (auto simp: moved_def line_def)

lemma moved_ok: "moved p l a p' \<Longrightarrow> pty_ok p \<Longrightarrow> length l \<le> pt_canon_bufsize p \<Longrightarrow> pty_ok p'"
  using moved_fields [of p l a p'] by (simp add: pty_ok_def)

lemma length_line: "pty_ok p \<Longrightarrow> length (line p) = pt_canon_buflen p"
  by (simp add: line_def pty_ok_def)

lemma moved_calls: "pty_ok p \<Longrightarrow> moved p (line p) a (p\<lparr>pt_calls := pt_calls p @ a\<rparr>)"
  unfolding moved_def
  by (rule exI [of _ "pt_canon_buffer p"]) (auto simp: length_line, auto simp: line_def pty_ok_def)

lemma output_eq: "tty_output_process c p = p\<lparr>pt_calls := pt_calls p @ outs (pt_tios p) [c]\<rparr>"
  by (simp add: tty_output_process_def tty_output_process_slave_def outs_def post_def call_def)

lemma outs_append: "outs t (a @ b) = outs t a @ outs t b"
  by (simp add: outs_def)

lemma outs_Cons: "NO_MATCH [] b \<Longrightarrow> outs t (c # b) = outs t [c] @ outs t b"
  by (simp add: outs_def)

lemma outs_Nil [simp]: "outs t [] = []"
  by (simp add: outs_def)

lemma echo_eq: "echo c p = p\<lparr>pt_calls := pt_calls p @ outs (pt_tios p) (caret (pt_tios p) c)\<rparr>"
  by (simp add: echo_def output_eq caret_def outs_Cons)

lemma echo_line_eq: "echo_line c p = p\<lparr>pt_calls := pt_calls p @ outs (pt_tios p) (if c = 10 then [10] else caret (pt_tios p) c)\<rparr>"
  by (simp add: echo_line_def echo_eq output_eq)

lemma erase_echo_eq: "erase_echo p = p\<lparr>pt_calls := pt_calls p @ outs (pt_tios p) [8, 32, 8]\<rparr>"
  by (simp add: erase_echo_def output_eq outs_Cons)

text \<open>Each operation goes where it should.\<close>

lemma append_char_moves:
  assumes "pty_ok p"
  shows "\<exists>p'. append_char c p = Some p' \<and> moved p (if length (line p) < pt_canon_bufsize p then line p @ [c] else line p) [] p'"
proof (cases "pt_canon_buflen p < pt_canon_bufsize p")
  case True
  let ?n = "pt_canon_buflen p" and ?buf = "(pt_canon_buffer p)[pt_canon_buflen p := c]"
  have n: "?n < length (pt_canon_buffer p)" using assms by (simp add: pty_ok_def)
  have "take (Suc ?n) ?buf = line p @ [c]" using n by (simp add: line_def take_Suc_conv_app_nth)
  moreover have "append_char c p = Some (p\<lparr>pt_canon_buffer := ?buf, pt_canon_buflen := Suc ?n, pt_calls := pt_calls p\<rparr>)"
    using True n by (simp add: append_char_def put_char_def)
  ultimately show ?thesis using True n length_line [OF assms] movedI [of ?buf p "Suc ?n" "line p @ [c]" "[]"] by simp
next
  case False
  then have "append_char c p = Some p" by (simp add: append_char_def)
  then show ?thesis using moved_calls [OF assms, of "[]"] length_line [OF assms] False by simp
qed

lemma clear_moves: "pty_ok p \<Longrightarrow> \<exists>p'. clear_input_buffer p = Some p' \<and> moved p [] [] p'"
  by (auto simp: clear_input_buffer_def put_char_def moved_def pty_ok_def intro!: exI [of _ "(pt_canon_buffer p)[0 := 0]"])

lemma erase_one_moves:
  assumes ok: "pty_ok p" and l: "line p = l @ [c]"
  shows "\<exists>p'. erase_one e p = Some p' \<and> moved p l (outs (pt_tios p) (rubs (pt_tios p) e [c])) p'"
proof -
  let ?n = "pt_canon_buflen p - 1" and ?buf = "(pt_canon_buffer p)[pt_canon_buflen p - 1 := 0]"
  let ?out = "outs (pt_tios p) (rubs (pt_tios p) e [c])"
  have len: "pt_canon_buflen p = Suc (length l)" using length_line [OF ok] l by simp
  have lt: "length l < length (pt_canon_buffer p)" using ok len by (simp add: pty_ok_def)
  have nth: "pt_canon_buffer p ! length l = c" and tk: "take (length l) (pt_canon_buffer p) = l"
    using l lt len by (simp_all add: line_def take_Suc_conv_app_nth)
  have "erase_one e p = Some (p\<lparr>pt_canon_buffer := ?buf, pt_canon_buflen := ?n, pt_calls := pt_calls p @ ?out\<rparr>)"
    using len lt nth by (simp add: erase_one_def put_char_def erase_echo_eq rubs_def rub_out_def opt_def outs_Cons Let_def)
  then show ?thesis using len lt tk movedI [of ?buf p ?n l ?out] by simp
qed

lemma erase_one_empty: "pty_ok p \<Longrightarrow> line p = [] \<Longrightarrow> erase_one e p = Some p"
  using length_line [of p] by (simp add: erase_one_def)

lemma rubs_append: "rubs t e (a @ b) = rubs t e b @ rubs t e a"
  by (simp add: rubs_def opt_def)

lemma rubs_Nil [simp]: "rubs t e [] = []"
  by (simp add: rubs_def opt_def)

definition kept :: "(u8 \<Rightarrow> bool) \<Rightarrow> bytes \<Rightarrow> bytes" where
  "kept f l = rev (dropWhile f (rev l))"

lemma kept_simps [simp]: "kept f [] = []" "kept f (l @ [c]) = (if f c then kept f l else l @ [c])"
  by (simp_all add: kept_def)

lemma length_kept: "length (kept f l) \<le> length l"
  using length_dropWhile_le [of f "rev l"] by (simp add: kept_def)

lemma erase_while_moves:
  "pty_ok p \<Longrightarrow> \<exists>p'. erase_while f e p = Some p' \<and>
     moved p (kept f (line p)) (outs (pt_tios p) (rubs (pt_tios p) e (drop (length (kept f (line p))) (line p)))) p'"
proof (induction "length (line p)" arbitrary: p)
  case 0
  then have "erase_while f e p = Some p" using length_line [of p] by (subst erase_while.simps) simp
  then show ?case using moved_calls [OF 0(2), of "[]"] 0 by simp
next
  case (Suc n)
  obtain l c where l: "line p = l @ [c]" using Suc.hyps(2) by (metis length_Suc_conv_rev)
  have len: "pt_canon_buflen p = Suc (length l)" using length_line [OF Suc.prems] l by simp
  have lt: "length l < length (pt_canon_buffer p)" using Suc.prems len by (simp add: pty_ok_def)
  have nth: "pt_canon_buffer p ! length l = c" using l lt len by (simp add: line_def take_Suc_conv_app_nth)
  show ?case
  proof (cases "f c")
    case True
    obtain p1 where p1: "erase_one e p = Some p1" "moved p l (outs (pt_tios p) (rubs (pt_tios p) e [c])) p1"
      using erase_one_moves [OF Suc.prems l] by blast
    have f1: "line p1 = l" "pt_tios p1 = pt_tios p" using moved_fields [OF p1(2)] by auto
    have ok1: "pty_ok p1" using moved_ok [OF p1(2) Suc.prems] Suc.prems len by (simp add: pty_ok_def)
    obtain p2 where p2: "erase_while f e p1 = Some p2"
        "moved p1 (kept f l) (outs (pt_tios p) (rubs (pt_tios p) e (drop (length (kept f l)) l))) p2"
      using Suc.hyps(1) [OF _ ok1] Suc.hyps(2) l f1 by auto
    have "erase_while f e p = Some p2" using len lt nth True p1(1) p2(1) by (subst erase_while.simps) simp
    then show ?thesis using moved_trans [OF p1(2) p2(2)] True l length_kept [of f l] by (simp add: rubs_append outs_append)
  next
    case False
    then have "erase_while f e p = Some p" using len lt nth by (subst erase_while.simps) simp
    then show ?thesis using moved_calls [OF Suc.prems, of "[]"] False l by simp
  qed
qed

lemma dump_moves_from:
  "i + pt_canon_buflen p \<le> length (pt_canon_buffer p) \<Longrightarrow>
   dump_from i p = Some (p\<lparr>pt_canon_buflen := 0, pt_calls := pt_calls p @ map CallIn (take (pt_canon_buflen p) (drop i (pt_canon_buffer p)))\<rparr>)"
proof (induction i p rule: dump_from.induct)
  case (1 i p)
  show ?case
  proof (cases "pt_canon_buflen p")
    case 0
    then show ?thesis by (subst dump_from.simps) simp
  next
    case (Suc n)
    then have i: "i < length (pt_canon_buffer p)" using 1(2) by simp
    have "take (Suc n) (drop i (pt_canon_buffer p)) = pt_canon_buffer p ! i # take n (drop (Suc i) (pt_canon_buffer p))"
      using i by (simp add: Cons_nth_drop_Suc [symmetric])
    then show ?thesis using 1 Suc i by (subst dump_from.simps) (simp add: call_def)
  qed
qed

lemma dump_moves: "pty_ok p \<Longrightarrow> \<exists>p'. dump_input_buffer p = Some p' \<and> moved p [] (map CallIn (line p)) p'"
  using dump_moves_from [of 0 p] by (auto simp: dump_input_buffer_def moved_def line_def pty_ok_def intro!: exI [of _ "pt_canon_buffer p"])

text \<open>A step of the code is the step of \<open>discipline\<close>.\<close>

definition follows :: "bool \<times> bytes \<times> tty_call list \<Rightarrow> pty \<Rightarrow> pty option \<Rightarrow> bool" where
  "follows r p p' = (case r of (v, l, a) \<Rightarrow> \<exists>q. p' = Some q \<and> moved (p\<lparr>pt_verbatim := v\<rparr>) l a q)"

lemma followsI: "\<exists>q. p' = Some q \<and> moved (p\<lparr>pt_verbatim := v\<rparr>) l a q \<Longrightarrow> follows (v, l, a) p p'"
  by (simp add: follows_def)

lemma verbatim_off: "\<not> pt_verbatim p \<Longrightarrow> p\<lparr>pt_verbatim := False\<rparr> = p"
  by (cases p) simp

lemma echo_edit_eq: "echo_edit how c p =
    p\<lparr>pt_calls := pt_calls p @ outs (pt_tios p) (opt (lflag p ECHO \<and> \<not> lflag p how) (caret (pt_tios p) c))\<rparr>"
  by (simp add: echo_edit_def echo_eq opt_def)

lemma moved_more: "moved p l a p' \<Longrightarrow> moved p l (a @ b) (p'\<lparr>pt_calls := pt_calls p' @ b\<rparr>)"
  unfolding moved_def by (elim exE, rule_tac x = buf in exI) simp

lemma erase_echoed:
  assumes "\<exists>p'. m = Some p' \<and> moved p l (outs (pt_tios p) a) p'"
  shows "\<exists>p'. (do { q \<leftarrow> m; Some (echo_edit how c q) }) = Some p' \<and>
    moved p l (outs (pt_tios p) (a @ opt (lflag p ECHO \<and> \<not> lflag p how) (caret (pt_tios p) c))) p'"
proof -
  obtain p' where p': "m = Some p'" "moved p l (outs (pt_tios p) a) p'" using assms by blast
  then have "pt_tios p' = pt_tios p" using moved_fields by blast
  then show ?thesis using p'(1) moved_more [OF p'(2)] by (simp add: echo_edit_eq outs_append)
qed

lemma kill_moves:
  "pty_ok p \<Longrightarrow> \<exists>p'. erase_while (\<lambda>x. True) e p = Some p' \<and> moved p [] (outs (pt_tios p) (rubs (pt_tios p) e (line p))) p'"
proof -
  assume ok: "pty_ok p"
  have "kept (\<lambda>x. True) (line p) = []" by (simp add: kept_def)
  then show ?thesis using erase_while_moves [OF ok, of "\<lambda>x. True" e] by simp
qed

lemma erase_last_moves:
  assumes ok: "pty_ok p"
  shows "\<exists>p'. erase_one e p = Some p' \<and>
    moved p (butlast (line p)) (outs (pt_tios p) (rubs (pt_tios p) e (drop (length (line p) - 1) (line p)))) p'"
proof (cases "line p" rule: rev_cases)
  case Nil
  then show ?thesis using erase_one_empty [OF ok Nil] moved_calls [OF ok, of "[]"] by simp
next
  case (snoc l x)
  then show ?thesis using erase_one_moves [OF ok snoc] by simp
qed

lemma word_start_kept: "word_start l = kept (\<lambda>c. c \<noteq> 32) (kept (\<lambda>c. c = 32) l)"
  by (simp add: word_start_def kept_def)

lemma kept_take: "kept f l = take (length (kept f l)) l"
proof -
  have "rev l = takeWhile f (rev l) @ rev (kept f l)" by (simp add: kept_def)
  then have "l = kept f l @ rev (takeWhile f (rev l))" by (metis rev_append rev_rev_ident)
  then show ?thesis by (metis append_eq_conv_conj)
qed

lemma erase_word_moves:
  assumes ok: "pty_ok p"
  shows "\<exists>p'. (do { q \<leftarrow> erase_while (\<lambda>x. x = 32) (lflag p m) p; erase_while (\<lambda>x. x \<noteq> 32) (lflag q m) q }) = Some p' \<and>
    moved p (word_start (line p)) (outs (pt_tios p) (rubs (pt_tios p) (lflag p m) (drop (length (word_start (line p))) (line p)))) p'"
proof -
  let ?l = "line p" and ?t = "pt_tios p" and ?e = "lflag p m"
  let ?k = "kept (\<lambda>x. x = 32) ?l"
  let ?w = "kept (\<lambda>x. x \<noteq> 32) ?k"
  obtain p1 where p1: "erase_while (\<lambda>x. x = 32) ?e p = Some p1" "moved p ?k (outs ?t (rubs ?t ?e (drop (length ?k) ?l))) p1"
    using erase_while_moves [OF ok] by blast
  have f1: "line p1 = ?k" "pt_tios p1 = ?t" using moved_fields [OF p1(2)] by auto
  have "length ?k \<le> pt_canon_bufsize p" using length_kept [of "\<lambda>x. x = 32" ?l] ok length_line [OF ok] by (simp add: pty_ok_def)
  then have ok1: "pty_ok p1" using moved_ok [OF p1(2) ok] by simp
  obtain p2 where p2: "erase_while (\<lambda>x. x \<noteq> 32) ?e p1 = Some p2" "moved p1 ?w (outs ?t (rubs ?t ?e (drop (length ?w) ?k))) p2"
    using erase_while_moves [OF ok1, of "\<lambda>x. x \<noteq> 32" ?e] f1 by auto
  have "drop (length ?w) ?l = drop (length ?w) ?k @ drop (length ?k) ?l"
  proof -
    have "?l = ?k @ drop (length ?k) ?l" using kept_take [of _ ?l] by (metis append_take_drop_id)
    then show ?thesis using length_kept [of "\<lambda>x. x \<noteq> 32" ?k] by (metis drop_append diff_is_0_eq drop0)
  qed
  then show ?thesis using p1(1) p2(1) f1(2) moved_trans [OF p1(2) p2(2)] by (simp add: word_start_kept rubs_append outs_append)
qed

lemma input_line_moves:
  fixes c :: u8
  assumes ok: "pty_ok p"
  defines "l' \<equiv> if length (line p) < pt_canon_bufsize p then line p @ [c] else line p"
  defines "shown \<equiv> outs (pt_tios p) (opt (lflag p ECHO) (if c = 10 then [10] else caret (pt_tios p) c))"
  shows "\<exists>p'. input_line c p = Some p' \<and>
    (if c = 10 \<or> (cc p VEOL \<noteq> 0 \<and> c = cc p VEOL)
     then moved p [] (shown @ outs (pt_tios p) (opt (\<not> lflag p ECHO \<and> lflag p ECHONL) [c]) @ map CallIn (butlast l' @ [c])) p'
     else moved p l' shown p')"
proof -
  let ?nl = "outs (pt_tios p) (opt (\<not> lflag p ECHO \<and> lflag p ECHONL) [c])"
  obtain p1 where p1: "append_char c p = Some p1" "moved p l' [] p1" using append_char_moves [OF ok] l'_def by blast
  define p2 where "p2 = (if lflag p1 ECHO then echo_line c p1 else p1)"
  have t1: "pt_tios p1 = pt_tios p" using moved_fields [OF p1(2)] by blast
  have m2: "moved p l' shown p2"
    using moved_more [OF p1(2), of shown] p1(2) t1 by (simp add: p2_def echo_line_eq shown_def opt_def split: if_splits)
  have t2: "pt_tios p2 = pt_tios p" using moved_fields [OF m2] by blast
  have len: "length l' \<le> pt_canon_bufsize p" "l' \<noteq> []"
    using ok length_line [OF ok] by (auto simp: l'_def pty_ok_def)
  show ?thesis
  proof (cases "c = 10 \<or> (cc p VEOL \<noteq> 0 \<and> c = cc p VEOL)")
    case False
    have "input_line c p = Some p2" using False p1(1) t2 by (simp only: input_line_def Option.bind.simps Let_def p2_def [symmetric]) simp
    then show ?thesis using False m2 by (simp only: if_False) simp
  next
    case True
    define p3 where "p3 = (if \<not> lflag p2 ECHO \<and> lflag p2 ECHONL then tty_output_process c p2 else p2)"
    have m3: "moved p l' (shown @ ?nl) p3"
      using moved_more [OF m2, of ?nl] m2 t2 by (auto simp: p3_def output_eq opt_def)
    have f3: "pt_canon_buflen p3 = length l'" "length (pt_canon_buffer p3) = length (pt_canon_buffer p)" "line p3 = l'"
      using moved_fields [OF m3] by auto
    let ?n = "length l' - 1" and ?buf = "(pt_canon_buffer p3)[length l' - 1 := c]"
    have lt: "?n < length (pt_canon_buffer p3)" using len f3 ok by (cases l') (auto simp: pty_ok_def)
    define p4 where "p4 = p3\<lparr>pt_canon_buffer := ?buf\<rparr>"
    have put: "put_char ?n c p3 = Some p4" using lt by (simp add: put_char_def p4_def)
    have "take (length l') ?buf = butlast l' @ [c]"
    proof -
      obtain m where m: "length l' = Suc m" using len(2) by (cases l') auto
      have "take m (pt_canon_buffer p3) = butlast l'" using f3 m lt by (auto simp: line_def butlast_take)
      then show ?thesis using m lt by (simp add: take_Suc_conv_app_nth)
    qed
    then have m4: "moved p3 (butlast l' @ [c]) [] p4" and l4: "line p4 = butlast l' @ [c]"
      using f3 len lt movedI [of ?buf p3 "length l'" "butlast l' @ [c]" "[]"]
      by (auto simp: p4_def line_def) (cases p3, auto)
    have ok4: "pty_ok p4"
      using ok m4 moved_fields [OF m3] len by (auto simp: pty_ok_def p4_def)
    obtain p5 where p5: "dump_input_buffer p4 = Some p5" "moved p4 [] (map CallIn (butlast l' @ [c])) p5"
      using dump_moves [OF ok4] l4 by auto
    have e2: "c = 10 \<or> (cc p2 VEOL \<noteq> 0 \<and> c = cc p2 VEOL)" using True t2 by simp
    have "input_line c p = Some p5"
      using e2 p1(1) p5(1) put f3(1) len(2)
      by (simp only: input_line_def Option.bind.simps Let_def p2_def [symmetric] p3_def [symmetric] if_True length_0_conv if_False)
    moreover have "moved p [] (shown @ ?nl @ map CallIn (butlast l' @ [c])) p5"
      using moved_trans [OF moved_trans [OF m3 m4] p5(2)] by simp
    ultimately show ?thesis using True by auto
  qed
qed

lemma input_canon_follows:
  assumes ok: "pty_ok p" and v: "\<not> pt_verbatim p"
  shows "follows (edit (pt_tios p) (pt_canon_bufsize p) c (line p)) p (input_canon c p)"
proof -
  note off = verbatim_off [OF v]
  have okv: "pty_ok (p\<lparr>pt_verbatim := True\<rparr>)" using ok by (simp add: pty_ok_def)
  consider (lnext) "c = cc p VLNEXT \<and> lflag p IEXTEN"
    | (kill) "\<not> (c = cc p VLNEXT \<and> lflag p IEXTEN)" "c = cc p VKILL"
    | (erase) "\<not> (c = cc p VLNEXT \<and> lflag p IEXTEN)" "c \<noteq> cc p VKILL" "c = cc p VERASE"
    | (word) "\<not> (c = cc p VLNEXT \<and> lflag p IEXTEN)" "c \<noteq> cc p VKILL" "c \<noteq> cc p VERASE" "c = cc p VWERASE \<and> lflag p IEXTEN"
    | (eof) "\<not> (c = cc p VLNEXT \<and> lflag p IEXTEN)" "c \<noteq> cc p VKILL" "c \<noteq> cc p VERASE" "\<not> (c = cc p VWERASE \<and> lflag p IEXTEN)" "c = cc p VEOF"
    | (plain) "\<not> (c = cc p VLNEXT \<and> lflag p IEXTEN)" "c \<noteq> cc p VKILL" "c \<noteq> cc p VERASE" "\<not> (c = cc p VWERASE \<and> lflag p IEXTEN)" "c \<noteq> cc p VEOF"
    by blast
  then show ?thesis
  proof cases
    case lnext
    then show ?thesis using moved_calls [OF okv, of "outs (pt_tios p) [94, 8]"]
      by (simp add: follows_def edit_def input_canon_def output_eq outs_Cons line_def Let_def)
  next
    case kill
    then show ?thesis using erase_echoed [OF kill_moves [OF ok], of "lflag p ECHOK" ECHOK c] off
      by (simp only: follows_def edit_def input_canon_def Let_def if_False if_True prod.case simp_thms)
  next
    case erase
    then show ?thesis using erase_echoed [OF erase_last_moves [OF ok], of "lflag p ECHOE" ECHOE c] off
      by (simp only: follows_def edit_def input_canon_def Let_def if_False if_True prod.case simp_thms)
  next
    case word
    then have "input_canon c p = (do {
        q \<leftarrow> (do { q \<leftarrow> erase_while (\<lambda>x. x = 32) (lflag p ECHOE) p; erase_while (\<lambda>x. x \<noteq> 32) (lflag q ECHOE) q });
        Some (echo_edit ECHOE c q) })" by (simp add: input_canon_def Option.bind_assoc)
    moreover note erase_echoed [OF erase_word_moves [OF ok], of ECHOE ECHOE c]
    ultimately show ?thesis using word off by (simp only: follows_def edit_def Let_def if_False if_True prod.case simp_thms)
  next
    case eof
    then have e: "edit (pt_tios p) (pt_canon_bufsize p) c (line p) = (False, [], if line p = [] then [CallEof] else map CallIn (line p))"
      by (simp only: edit_def Let_def if_False if_True simp_thms)
    have "(pt_canon_buflen p \<noteq> 0) = (line p \<noteq> [])" using length_line [OF ok] by (cases "line p") auto
    with eof have i: "input_canon c p = (if line p \<noteq> [] then dump_input_buffer p else Some (call CallEof p))"
      by (simp only: input_canon_def if_False if_True simp_thms)
    show ?thesis
    proof (cases "line p = []")
      case True
      then show ?thesis unfolding e i using moved_calls [OF ok, of "[CallEof]"] by (simp add: follows_def off call_def)
    next
      case False
      then show ?thesis unfolding e i using dump_moves [OF ok] by (simp add: follows_def off)
    qed
  next
    case plain
    then have "input_canon c p = input_line c p" by (simp only: input_canon_def if_False simp_thms)
    with plain show ?thesis using off input_line_moves [OF ok, of c]
      by (simp only: follows_def edit_def Let_def if_False if_True prod.case simp_thms) (auto split: if_splits)
  qed
qed

lemma input_signal_sig_of: "input_signal c p = sig_of (pt_tios p) c"
  by (simp add: input_signal_def sig_of_def)

lemma input_translate_translated: "input_translate c p = translated (pt_tios p) c"
  by (simp add: input_translate_def translated_def Let_def)

lemma input_verbatim_follows:
  assumes ok: "pty_ok p"
  shows "follows (False, if length (line p) < pt_canon_bufsize p then line p @ [c] else line p,
    outs (pt_tios p) (opt (lflag p ECHO) (caret (pt_tios p) c))) p (input_verbatim c p)"
proof -
  let ?p = "p\<lparr>pt_verbatim := False\<rparr>" and ?l = "if length (line p) < pt_canon_bufsize p then line p @ [c] else line p"
  have "pty_ok ?p" "line ?p = line p" using ok by (simp_all add: pty_ok_def line_def)
  then obtain q where q: "append_char c ?p = Some q" "moved ?p ?l [] q" using append_char_moves [of ?p c] by auto metis
  have "pt_tios q = pt_tios p" using moved_fields [OF q(2)] by simp
  then show ?thesis using q(1) moved_more [OF q(2)] q(2) by (auto simp: input_verbatim_def follows_def echo_eq opt_def)
qed

lemma input_interrupt_follows:
  assumes ok: "pty_ok p" and v: "\<not> pt_verbatim p"
  shows "follows (False, [], outs (pt_tios p) (opt (lflag p ECHO) (caret (pt_tios p) c)) @
    (if pt_fg_proc p \<noteq> 0 then [CallSignal (pt_fg_proc p) sg] else [])) p (input_interrupt sg c p)"
proof -
  let ?e = "outs (pt_tios p) (opt (lflag p ECHO) (caret (pt_tios p) c))"
  let ?p = "if lflag p ECHO then echo c p else p"
  have p: "?p = p\<lparr>pt_calls := pt_calls p @ ?e\<rparr>" by (simp add: echo_eq opt_def)
  have m: "moved p (line p) ?e ?p" unfolding p by (rule moved_calls [OF ok])
  have "pty_ok ?p" unfolding p using ok by (simp add: pty_ok_def)
  then obtain q where q: "clear_input_buffer ?p = Some q" "moved ?p [] [] q" using clear_moves by blast
  have mq: "moved p [] ?e q" using moved_trans [OF m q(2)] by simp
  have "pt_fg_proc q = pt_fg_proc p" using moved_fields [OF mq] by blast
  then show ?thesis using q(1) mq moved_more [OF mq, of "[CallSignal (pt_fg_proc p) sg]"]
    by (auto simp: verbatim_off [OF v] input_interrupt_def follows_def call_def)
qed

lemma input_process_follows:
  assumes ok: "pty_ok p"
  shows "follows (discipline (pt_tios p) (pt_canon_bufsize p) (pt_fg_proc p) c (pt_verbatim p) (line p)) p (tty_input_process c p)"
proof (cases "pt_verbatim p")
  case True
  then show ?thesis using input_verbatim_follows [OF ok, of c] by (simp add: tty_input_process_def discipline_def Let_def)
next
  case v: False
  show ?thesis
  proof (cases "sig_of (pt_tios p) c = -1")
    case False
    then show ?thesis using v input_interrupt_follows [OF ok v, of c]
      by (simp add: tty_input_process_def discipline_def Let_def input_signal_sig_of)
  next
    case ns: True
    show ?thesis
    proof (cases "translated (pt_tios p) c")
      case None
      then show ?thesis using v ns moved_calls [OF ok, of "[]"]
        by (simp add: verbatim_off [OF v] tty_input_process_def discipline_def Let_def input_signal_sig_of input_translate_translated follows_def)
    next
      case (Some d)
      let ?e = "outs (pt_tios p) (opt (lflag p ECHO) (if d = 10 then [10] else caret (pt_tios p) d))"
      have "(if lflag p ECHO then echo_line d p else p) = p\<lparr>pt_calls := pt_calls p @ ?e\<rparr>" by (simp add: echo_line_eq opt_def)
      then have raw: "call (CallIn d) (if lflag p ECHO then echo_line d p else p) = p\<lparr>pt_calls := pt_calls p @ ?e @ [CallIn d]\<rparr>"
        by (simp add: call_def)
      show ?thesis using v ns Some input_canon_follows [OF ok v, of d] moved_calls [OF ok, of "?e @ [CallIn d]"] raw
        by (auto simp: verbatim_off [OF v] tty_input_process_def discipline_def Let_def input_signal_sig_of input_translate_translated follows_def)
    qed
  qed
qed


section \<open>Sequences of characters\<close>

text \<open>The loop of \<open>write_pty_master\<close>.\<close>

fun input_all :: "bytes \<Rightarrow> pty \<Rightarrow> pty option" where
  "input_all [] p = Some p"
| "input_all (c # cs) p = do { p \<leftarrow> tty_input_process c p; input_all cs p }"

fun disciplines :: "termios \<Rightarrow> nat \<Rightarrow> u32 \<Rightarrow> bytes \<Rightarrow> bool \<Rightarrow> bytes \<Rightarrow> bool \<times> bytes \<times> tty_call list" where
  "disciplines t cap fg [] v l = (v, l, [])"
| "disciplines t cap fg (c # cs) v l =
     (let (v, l, a) = discipline t cap fg c v l; (v, l, b) = disciplines t cap fg cs v l in (v, l, a @ b))"

lemma length_word_start: "length (word_start l) \<le> length l"
  using length_kept [of "\<lambda>c. c = 32" l] length_kept [of "\<lambda>c. c \<noteq> 32" "kept (\<lambda>c. c = 32) l"] by (simp add: word_start_kept)

lemma edit_length: "edit t cap c l = (v, l', a) \<Longrightarrow> length l \<le> cap \<Longrightarrow> length l' \<le> cap"
  using length_word_start [of l] by (auto simp: edit_def Let_def split: if_splits)

lemma discipline_length: "discipline t cap fg c v l = (v', l', a) \<Longrightarrow> length l \<le> cap \<Longrightarrow> length l' \<le> cap"
  by (auto simp: discipline_def Let_def split: if_splits option.splits dest: edit_length)

lemma moved_verbatim_trans:
  "moved (p\<lparr>pt_verbatim := v\<rparr>) l a q \<Longrightarrow> moved (q\<lparr>pt_verbatim := v'\<rparr>) l' b q' \<Longrightarrow> moved (p\<lparr>pt_verbatim := v'\<rparr>) l' (a @ b) q'"
  unfolding moved_def by (elim exE, rename_tac buf buf', rule_tac x = buf' in exI) simp

lemma input_all_follows:
  "pty_ok p \<Longrightarrow> follows (disciplines (pt_tios p) (pt_canon_bufsize p) (pt_fg_proc p) cs (pt_verbatim p) (line p)) p (input_all cs p)"
proof (induction cs arbitrary: p)
  case Nil
  have "p\<lparr>pt_verbatim := pt_verbatim p\<rparr> = p" by simp
  then show ?case using moved_calls [OF Nil, of "[]"] by (simp add: follows_def)
next
  case (Cons c cs)
  let ?t = "pt_tios p" and ?cap = "pt_canon_bufsize p" and ?fg = "pt_fg_proc p"
  obtain v l a where d: "discipline ?t ?cap ?fg c (pt_verbatim p) (line p) = (v, l, a)" by (metis prod_cases3)
  then obtain q where q: "tty_input_process c p = Some q" "moved (p\<lparr>pt_verbatim := v\<rparr>) l a q"
    using input_process_follows [OF Cons.prems, of c] by (auto simp: follows_def)
  have f: "line q = l" "pt_tios q = ?t" "pt_canon_bufsize q = ?cap" "pt_verbatim q = v" "pt_fg_proc q = ?fg"
    using moved_fields [OF q(2)] by auto
  have "length l \<le> ?cap" using discipline_length [OF d] Cons.prems length_line [OF Cons.prems] by (simp add: pty_ok_def)
  then have "pty_ok q" using moved_ok [OF q(2)] Cons.prems by (simp add: pty_ok_def)
  from Cons.IH [OF this] f obtain v' l' b q' where r: "disciplines ?t ?cap ?fg cs v l = (v', l', b)" "input_all cs q = Some q'"
      "moved (q\<lparr>pt_verbatim := v'\<rparr>) l' b q'"
    by (auto simp: follows_def split: prod.splits)
  show ?case using d r q(1) moved_verbatim_trans [OF q(2) r(3)] by (simp add: follows_def)
qed

lemma disciplines_length: "disciplines t cap fg cs v l = (v', l', a) \<Longrightarrow> length l \<le> cap \<Longrightarrow> length l' \<le> cap"
proof (induction cs arbitrary: v l a)
  case (Cons c cs)
  obtain v1 l1 a1 where d: "discipline t cap fg c v l = (v1, l1, a1)" by (metis prod_cases3)
  obtain v2 l2 a2 where r: "disciplines t cap fg cs v1 l1 = (v2, l2, a2)" by (metis prod_cases3)
  then show ?case using Cons.IH [of v1 l1 a2] discipline_length [OF d Cons.prems(2)] Cons.prems d by simp
qed simp


section \<open>What the screen shows\<close>

text \<open>The cells left of the cursor and from the cursor on; a backspace moves the cursor, any other character overwrites.\<close>

fun put_screen :: "bytes \<times> bytes \<Rightarrow> u8 \<Rightarrow> bytes \<times> bytes" where
  "put_screen (l, r) c = (if c = 8 then if l = [] then (l, r) else (butlast l, last l # r) else (l @ [c], tl r))"

definition display :: "bytes \<Rightarrow> bytes \<times> bytes \<Rightarrow> bytes \<times> bytes" where
  "display cs s = foldl put_screen s cs"

definition out_bytes :: "tty_call list \<Rightarrow> bytes" where
  "out_bytes calls = concat (map (\<lambda>a. case a of CallOut c \<Rightarrow> [c] | _ \<Rightarrow> []) calls)"

definition shown :: "termios \<Rightarrow> bytes \<Rightarrow> bytes" where
  "shown t l = concat (map (caret t) l)"

lemma display_append: "display (a @ b) s = display b (display a s)"
  by (simp add: display_def)

lemma display_Nil [simp]: "display [] s = s"
  by (simp add: display_def)

lemma out_bytes_append [simp]: "out_bytes (a @ b) = out_bytes a @ out_bytes b" "out_bytes [] = []"
  by (simp_all add: out_bytes_def)

lemma out_bytes_outs: "out_bytes (outs t cs) = concat (map (post t) cs)"
  by (simp add: out_bytes_def outs_def comp_def)

definition ascii :: "u8 \<Rightarrow> bool" where
  "ascii c \<longleftrightarrow> c < 128"

text \<open>Echo on, with visible control characters and erasure, and letters printed as they are.\<close>

definition full_echo :: "termios \<Rightarrow> bool" where
  "full_echo t \<longleftrightarrow> flag_on (c_lflag t) ECHO \<and> flag_on (c_lflag t) ECHOE \<and> flag_on (c_lflag t) ECHOK \<and> flag_on (c_lflag t) ECHOCTL \<and>
     flag_on (c_lflag t) ICANON \<and> (\<not> flag_on (c_oflag t) OPOST \<or> \<not> flag_on (c_oflag t) OLCUC)"

lemma ascii_sint: "ascii c \<Longrightarrow> sint c = uint c"
proof -
  assume "ascii c"
  then have "uint c < 2 ^ 7" by (simp add: ascii_def word_less_def)
  then show ?thesis by (simp add: sint_uint signed_take_bit_int_eq_self_iff) (smt (verit) unsigned_greater_eq)
qed

lemma caret_cases:
  assumes "full_echo t" "ascii c"
  shows "(is_control (uint c) \<and> (\<exists>x. caret t c = [94, x] \<and> x \<noteq> 8 \<and> x \<noteq> 10 \<and> x \<noteq> 13)) \<or>
    (\<not> is_control (uint c) \<and> caret t c = [c] \<and> c \<noteq> 8 \<and> c \<noteq> 10 \<and> c \<noteq> 13)"
proof (cases "is_control (uint c)")
  case True
  let ?k = "(64 + uint c) mod 128"
  have "0 \<le> uint c" "uint c < 32 \<or> uint c = 127" using True by (simp_all add: is_control_def)
  then have k: "63 \<le> ?k" "?k < 128" by auto
  have u: "uint (of_int ?k :: u8) = ?k" using k by (simp add: uint_word_of_int_eq take_bit_int_eq_self)
  have "(of_int ?k :: u8) \<noteq> x" if "uint x < 63" for x :: u8 using u k that by auto
  from this [of 8] this [of 10] this [of 13] show ?thesis using True assms by (simp add: caret_def full_echo_def)
next
  case False
  then have "\<not> uint c < 32" by (simp add: is_control_def)
  then have "c \<noteq> 8" "c \<noteq> 10" "c \<noteq> 13" by auto
  then show ?thesis using False by (simp add: caret_def)
qed

lemma post_plain: "full_echo t \<Longrightarrow> c \<noteq> 10 \<Longrightarrow> c \<noteq> 13 \<Longrightarrow> post t c = [c]"
  by (auto simp: post_def full_echo_def)

lemma display_plain: "8 \<notin> set cs \<Longrightarrow> fst (display cs (l, r)) = l @ cs"
  by (induction cs arbitrary: l r) (auto simp: display_def)

lemma caret_shows:
  assumes "full_echo t" "ascii c"
  shows "fst (display (out_bytes (outs t (caret t c))) (l, r)) = l @ caret t c"
  using caret_cases [OF assms] post_plain [OF assms(1)] by (auto simp: out_bytes_outs display_plain)

lemma rub_out_erases:
  assumes "full_echo t" "ascii c"
  shows "fst (display (rub_out c) (l @ caret t c, r)) = l"
proof (cases "is_control (uint c)")
  case True
  then obtain x where "caret t c = [94, x]" using caret_cases [OF assms] by blast
  then show ?thesis using True assms(2) by (simp add: rub_out_def ascii_sint display_def butlast_append)
next
  case False
  then show ?thesis using caret_cases [OF assms] assms(2) by (simp add: rub_out_def ascii_sint display_def)
qed

lemma rub_outs_erase:
  "full_echo t \<Longrightarrow> \<forall>c \<in> set e. ascii c \<Longrightarrow> fst (display (concat (map rub_out (rev e))) (l @ shown t e, r)) = l"
proof (induction e arbitrary: r rule: rev_induct)
  case (snoc c e)
  have "fst (display (rub_out c) ((l @ shown t e) @ caret t c, r)) = l @ shown t e"
    using snoc.prems by (intro rub_out_erases) simp_all
  then obtain r' where "display (rub_out c) (l @ shown t (e @ [c]), r) = (l @ shown t e, r')"
    by (cases "display (rub_out c) (l @ shown t (e @ [c]), r)") (simp add: shown_def)
  then show ?case using snoc.IH [of r'] snoc.prems by (simp add: display_append)
qed (simp add: shown_def)

lemma rubs_posted: "full_echo t \<Longrightarrow> concat (map (post t) (concat (map rub_out cs))) = concat (map rub_out cs)"
  by (induction cs) (auto simp: rub_out_def post_plain)

lemma rubs_show:
  assumes "full_echo t" "\<forall>c \<in> set l. ascii c" "k \<le> length l"
  shows "fst (display (out_bytes (outs t (rubs t True (drop k l)))) (pre @ shown t l, r)) = pre @ shown t (take k l)"
proof -
  have "shown t l = shown t (take k l) @ shown t (drop k l)" by (simp add: shown_def flip: concat_append map_append)
  moreover have "\<forall>c \<in> set (drop k l). ascii c" using assms(2) by (meson in_set_dropD)
  ultimately show ?thesis using rub_outs_erase [OF assms(1), of "drop k l" "pre @ shown t (take k l)" r] assms(1)
    by (simp add: out_bytes_outs rubs_def opt_def rubs_posted full_echo_def)
qed

text \<open>Keys that do not end or cancel the line.\<close>

definition line_key :: "termios \<Rightarrow> u8 \<Rightarrow> bool" where
  "line_key t c \<longleftrightarrow> ascii c \<and> sig_of t c = -1 \<and>
     (case translated t c of None \<Rightarrow> True
      | Some d \<Rightarrow> ascii d \<and> d \<noteq> 10 \<and> d \<noteq> c_cc t VEOF \<and> (c_cc t VEOL = 0 \<or> d \<noteq> c_cc t VEOL))"

lemma word_start_take: "\<exists>k \<le> length l. word_start l = take k l"
proof -
  let ?k = "kept (\<lambda>c. c = 32) l"
  have "word_start l = take (length (kept (\<lambda>c. c \<noteq> 32) ?k)) (take (length ?k) l)"
    unfolding word_start_kept using kept_take [of "\<lambda>c. c \<noteq> 32" ?k] kept_take [of "\<lambda>c. c = 32" l] by simp
  then show ?thesis by (metis take_take take_all_iff nat_le_linear order_refl)
qed

text \<open>Such a key quotes the next one, erases from some place on, or is added.\<close>

lemma edit_cases:
  assumes f: "full_echo t" and l: "length l < cap" and c: "c \<noteq> 10" "c \<noteq> c_cc t VEOF" "c_cc t VEOL = 0 \<or> c \<noteq> c_cc t VEOL"
  shows "edit t cap c l = (True, l, outs t [94, 8]) \<or>
    (\<exists>k \<le> length l. edit t cap c l = (False, take k l, outs t (rubs t True (drop k l)))) \<or>
    edit t cap c l = (False, l @ [c], outs t (caret t c))"
proof -
  have on: "flag_on (c_lflag t) ECHO" "flag_on (c_lflag t) ECHOE" "flag_on (c_lflag t) ECHOK" using f by (auto simp: full_echo_def)
  obtain k where k: "k \<le> length l" "word_start l = take k l" using word_start_take by blast
  have b: "butlast l = take (length l - 1) l" by (rule butlast_conv_take)
  have "edit t cap c l \<in> {(True, l, outs t [94, 8]), (False, take 0 l, outs t (rubs t True (drop 0 l))),
      (False, take (length l - 1) l, outs t (rubs t True (drop (length l - 1) l))), (False, take k l, outs t (rubs t True (drop k l))),
      (False, l @ [c], outs t (caret t c))}"
    using c l on k by (auto simp: edit_def Let_def opt_def b)
  then show ?thesis using k(1) by (metis insertE singletonD diff_le_self le0)
qed

lemma edit_shows:
  assumes f: "full_echo t" and l: "\<forall>c \<in> set l. ascii c" "length l < cap" and c: "ascii c" "c \<noteq> 10" "c \<noteq> c_cc t VEOF" "c_cc t VEOL = 0 \<or> c \<noteq> c_cc t VEOL"
    and e: "edit t cap c l = (v, l', a)"
  shows "fst (display (out_bytes a) (pre @ shown t l, r)) = pre @ shown t l' \<and> (\<forall>c \<in> set l'. ascii c) \<and> length l' \<le> Suc (length l)"
  using edit_cases [OF f l(2) c(2-4)]
proof (elim disjE exE conjE)
  assume "edit t cap c l = (True, l, outs t [94, 8])"
  then show ?thesis using e l post_plain [OF f] by (auto simp: out_bytes_outs display_def butlast_append)
next
  fix k assume "k \<le> length l" "edit t cap c l = (False, take k l, outs t (rubs t True (drop k l)))"
  then show ?thesis using e l rubs_show [OF f l(1), of k pre r] by (auto dest: in_set_takeD)
next
  assume "edit t cap c l = (False, l @ [c], outs t (caret t c))"
  moreover have "shown t (l @ [c]) = shown t l @ caret t c" by (simp add: shown_def)
  ultimately show ?thesis using e l c(1) caret_shows [OF f c(1), of "pre @ shown t l" r] by auto
qed

lemma discipline_shows:
  assumes f: "full_echo t" and l: "\<forall>c \<in> set l. ascii c" "length l < cap" and c: "line_key t c"
    and e: "discipline t cap fg c v l = (v', l', a)"
  shows "fst (display (out_bytes a) (pre @ shown t l, r)) = pre @ shown t l' \<and> (\<forall>c \<in> set l'. ascii c) \<and> length l' \<le> Suc (length l)"
proof (cases v)
  case True
  moreover have "shown t (l @ [c]) = shown t l @ caret t c" by (simp add: shown_def)
  ultimately show ?thesis using e l c f caret_shows [OF f, of c "pre @ shown t l" r]
    by (auto simp: discipline_def Let_def opt_def line_key_def full_echo_def)
next
  case False
  show ?thesis
  proof (cases "translated t c")
    case None
    then show ?thesis using False e c l by (auto simp: discipline_def Let_def line_key_def)
  next
    case (Some d)
    then have ed: "edit t cap d l = (v', l', a)" using False e c f by (simp add: discipline_def Let_def line_key_def full_echo_def)
    then show ?thesis using edit_shows [OF f l _ _ _ _ ed] c Some by (auto simp: line_key_def)
  qed
qed

lemma disciplines_show:
  "full_echo t \<Longrightarrow> \<forall>c \<in> set l. ascii c \<Longrightarrow> length l + length cs \<le> cap \<Longrightarrow> \<forall>c \<in> set cs. line_key t c \<Longrightarrow>
   disciplines t cap fg cs v l = (v', l', a) \<Longrightarrow> fst (display (out_bytes a) (pre @ shown t l, r)) = pre @ shown t l'"
proof (induction cs arbitrary: v l a r)
  case (Cons c cs)
  obtain v1 l1 a1 where d: "discipline t cap fg c v l = (v1, l1, a1)" by (metis prod_cases3)
  obtain v2 l2 a2 where ds: "disciplines t cap fg cs v1 l1 = (v2, l2, a2)" by (metis prod_cases3)
  have eq: "v' = v2" "l' = l2" "a = a1 @ a2" using Cons.prems(5) d ds by simp_all
  have "fst (display (out_bytes a1) (pre @ shown t l, r)) = pre @ shown t l1" and l1: "\<forall>c \<in> set l1. ascii c" "length l1 \<le> Suc (length l)"
    using discipline_shows [OF Cons.prems(1,2) _ _ d] Cons.prems(3,4) by auto
  then obtain r1 where r1: "display (out_bytes a1) (pre @ shown t l, r) = (pre @ shown t l1, r1)" by (metis prod.collapse)
  have "length l1 + length cs \<le> cap" "\<forall>c \<in> set cs. line_key t c" using Cons.prems(3,4) l1(2) by auto
  from Cons.IH [OF Cons.prems(1) l1(1) this, of v1 a2 r1] ds show ?case using eq r1 by (simp add: display_append)
qed simp


section \<open>Properties\<close>

text \<open>The settings of a new terminal, and one with a line buffer of eight characters.\<close>

definition tios_default :: termios where
  "tios_default = \<lparr>c_iflag = ICRNL OR BRKINT, c_oflag = ONLCR OR OPOST, c_cflag = CREAD OR CS8 OR B38400,
     c_lflag = ECHO OR ECHOE OR ECHOK OR ICANON OR ISIG OR IEXTEN OR ECHOCTL,
     c_cc = (\<lambda>i. if i = VEOF then 4 else if i = VERASE then 0x7F else if i = VINTR then 3 else if i = VKILL then 21
       else if i = VMIN then 1 else if i = VQUIT then 28 else if i = VSTART then 17 else if i = VSTOP then 19
       else if i = VSUSP then 26 else if i = VLNEXT then 22 else if i = VWERASE then 23 else 0)\<rparr>"

definition node_example :: pty_node where
  "node_example = \<lparr>pn_name = [], pn_uid = 0, pn_gid = 0, pn_mask = 0, pn_flags = 0, pn_ctime = 0, pn_mtime = 0, pn_atime = 0\<rparr>"

definition pty_example :: pty where
  "pty_example = \<lparr>pt_name = 1, pt_master = node_example, pt_slave = node_example,
     pt_size = \<lparr>ws_row = 25, ws_col = 80, ws_xpixel = 0, ws_ypixel = 0\<rparr>, pt_tios = tios_default,
     pt_canon_buffer = replicate 10 0, pt_canon_bufsize = 8, pt_canon_buflen = 0, pt_ct_proc = 0, pt_fg_proc = 7,
     pt_verbatim = False, pt_calls = []\<rparr>"

lemmas settings = VEOF_def VEOL_def VERASE_def VINTR_def VKILL_def VMIN_def VQUIT_def VSTART_def VSTOP_def VSUSP_def VTIME_def
  VLNEXT_def VWERASE_def BRKINT_def ICRNL_def IGNCR_def INLCR_def ISTRIP_def IUCLC_def OPOST_def OLCUC_def ONLCR_def ONLRET_def
  B38400_def CS8_def CREAD_def ISIG_def ICANON_def ECHO_def ECHOE_def ECHOK_def ECHONL_def TOSTOP_def IEXTEN_def ECHOCTL_def
  SIGINT_def SIGQUIT_def SIGTSTP_def

lemma pty_example_ok: "pty_ok pty_example" "line pty_example = []"
  by (simp_all add: pty_ok_def line_def pty_example_def)

text \<open>Property C9: whatever is typed at the master end, the code never leaves the line buffer, ends up with the line and the
  quoting state that the list discipline computes, and has passed on exactly the characters, signals and ends
  of input that the discipline says, in that order; its settings are as before.\<close>

theorem tty_input_refines:
  assumes "pty_ok p"
  shows "\<exists>p'. input_all cs p = Some p' \<and> pty_ok p' \<and> pt_tios p' = pt_tios p \<and>
    (case disciplines (pt_tios p) (pt_canon_bufsize p) (pt_fg_proc p) cs (pt_verbatim p) (line p) of
       (v, l, a) \<Rightarrow> pt_verbatim p' = v \<and> line p' = l \<and> pt_calls p' = pt_calls p @ a)"
proof -
  obtain v l a where d: "disciplines (pt_tios p) (pt_canon_bufsize p) (pt_fg_proc p) cs (pt_verbatim p) (line p) = (v, l, a)"
    by (metis prod_cases3)
  then obtain q where q: "input_all cs p = Some q" "moved (p\<lparr>pt_verbatim := v\<rparr>) l a q"
    using input_all_follows [OF assms, of cs] by (auto simp: follows_def)
  have "length l \<le> pt_canon_bufsize p" using disciplines_length [OF d] assms length_line [OF assms] by (simp add: pty_ok_def)
  then have "pty_ok q" using moved_ok [OF q(2)] assms by (simp add: pty_ok_def)
  then show ?thesis using q(1) moved_fields [OF q(2)] d by simp
qed

theorem tty_input_refines_witness:
  "\<exists>p'. input_all [97, 98, 0x7F, 99, 13] pty_example = Some p' \<and> line p' = [] \<and>
     [c. CallIn c \<leftarrow> pt_calls p'] = [97, 99, 10]"
proof -
  have "disciplines tios_default 8 7 [97, 98, 0x7F, 99, 13] False [] =
      (False, [], [CallOut 97, CallOut 98, CallOut 8, CallOut 32, CallOut 8, CallOut 99, CallOut 10, CallOut 13, CallIn 97, CallIn 99, CallIn 10])"
    by code_simp
  then show ?thesis using tty_input_refines [OF pty_example_ok(1), of "[97, 98, 0x7F, 99, 13]"] pty_example_ok(2)
    by (auto simp: pty_example_def)
qed

text \<open>Property C22: in canonical mode with \<open>ECHO\<close>, \<open>ECHOE\<close>, \<open>ECHOK\<close> and \<open>ECHOCTL\<close> set and without the mapping of output to upper case, with a line of ASCII
  characters so far, and as long as only ASCII keys are typed that raise no signal and do not end the line, and the line buffer has room for all of them:
  what the screen shows left of the cursor is the prompt followed by the line, with control characters in caret notation, whatever was
  quoted, erased, killed or erased by words in between.\<close>

theorem echo_matches_line:
  assumes "pty_ok p" and "full_echo (pt_tios p)" and "\<forall>c \<in> set (line p). ascii c"
    and "length (line p) + length cs \<le> pt_canon_bufsize p" and "\<forall>c \<in> set cs. line_key (pt_tios p) c"
  shows "\<exists>p' a. input_all cs p = Some p' \<and> pt_calls p' = pt_calls p @ a \<and>
    fst (display (out_bytes a) (prompt @ shown (pt_tios p) (line p), r)) = prompt @ shown (pt_tios p) (line p')"
proof -
  obtain v l a where d: "disciplines (pt_tios p) (pt_canon_bufsize p) (pt_fg_proc p) cs (pt_verbatim p) (line p) = (v, l, a)"
    by (metis prod_cases3)
  then obtain q where q: "input_all cs p = Some q" "moved (p\<lparr>pt_verbatim := v\<rparr>) l a q"
    using input_all_follows [OF assms(1), of cs] by (auto simp: follows_def)
  then show ?thesis using disciplines_show [OF assms(2-5) d] moved_fields [OF q(2)] by auto
qed

theorem echo_matches_line_witness:
  "\<exists>p' a. input_all [97, 22, 1, 0x7F, 98] pty_example = Some p' \<and> pt_calls p' = a \<and>
     fst (display (out_bytes a) ([36], [])) = [36] @ shown tios_default (line p')"
proof -
  have "full_echo tios_default" "\<forall>c \<in> set [97, 22, 1, 0x7F, 98]. line_key tios_default c"
    by code_simp+
  then show ?thesis using echo_matches_line [OF pty_example_ok(1), of "[97, 22, 1, 0x7F, 98]" "[36]" "[]"] pty_example_ok(2)
    by (auto simp: pty_example_def shown_def)
qed

lemma high_byte_calls:
  assumes "\<not> ascii c" and "0 < cap"
  shows "disciplines tios_default cap fg [c, 0x7F] False [] = (False, [], map CallOut [c, 8, 32, 8, 8, 32, 8])"
proof -
  have ge: "128 \<le> uint c" using assms(1) by (simp add: ascii_def word_less_def)
  then have ne: "c \<noteq> x" if "uint x < 128" for x :: u8 using that by auto
  have "sint c < 0"
  proof (rule ccontr)
    assume "\<not> ?thesis"
    moreover have "sint c < 128" using sint_less [of c] by simp
    moreover have "uint c = take_bit 8 (sint c)" by (subst uint_sint) simp
    ultimately show False using ge by (simp add: take_bit_int_eq_self)
  qed
  then have ctl: "is_control (sint c)" "\<not> is_control (uint c)" using ge by (simp_all add: is_control_def)
  have nv: "c \<noteq> 3" "c \<noteq> 28" "c \<noteq> 26" "c \<noteq> 10" "c \<noteq> 13" "c \<noteq> 22" "c \<noteq> 21" "c \<noteq> 0x7F" "c \<noteq> 23" "c \<noteq> 4" "c \<noteq> 0" by (rule ne, simp)+
  have flags: "flag_on (c_lflag tios_default) ISIG" "flag_on (c_lflag tios_default) ICANON" "flag_on (c_lflag tios_default) ECHO"
    "flag_on (c_lflag tios_default) ECHOE" "flag_on (c_lflag tios_default) ECHOCTL"
    "\<not> flag_on (c_iflag tios_default) ISTRIP" "\<not> flag_on (c_iflag tios_default) IGNCR" "\<not> flag_on (c_iflag tios_default) INLCR"
    "\<not> flag_on (c_iflag tios_default) IUCLC" "flag_on (c_oflag tios_default) OPOST" "\<not> flag_on (c_oflag tios_default) OLCUC"
    "c_cc tios_default VINTR = 3" "c_cc tios_default VQUIT = 28" "c_cc tios_default VSUSP = 26" "c_cc tios_default VLNEXT = 22"
    "c_cc tios_default VKILL = 21" "c_cc tios_default VERASE = 0x7F" "c_cc tios_default VWERASE = 23" "c_cc tios_default VEOF = 4" "c_cc tios_default VEOL = 0"
    by code_simp+
  have "discipline tios_default cap fg c False [] = (False, [c], [CallOut c])"
    using nv ctl flags assms(2)
    by (simp add: discipline_def sig_of_def translated_def edit_def Let_def opt_def caret_def outs_def post_def)
  moreover have "discipline tios_default cap fg 0x7F False [c] = (False, [], map CallOut [8, 32, 8, 8, 32, 8])"
    using ctl flags
    by (simp add: discipline_def sig_of_def translated_def edit_def Let_def opt_def rubs_def rub_out_def outs_def post_def)
  ultimately show ?thesis by simp
qed

text \<open>Fact: with the default settings, typing a byte above 127 at an empty line and erasing it again takes the last character
  of the prompt off the screen: the byte is echoed as one column and erased as two.\<close>

theorem erase_high_byte_overruns:
  assumes "pty_ok p" and "pt_tios p = tios_default" and "line p = []" and "\<not> pt_verbatim p" and "\<not> ascii c" and "prompt \<noteq> []"
  shows "\<exists>p' a. input_all [c, 0x7F] p = Some p' \<and> line p' = [] \<and> pt_calls p' = pt_calls p @ a \<and>
    fst (display (out_bytes a) (prompt, r)) = butlast prompt"
proof -
  have d: "disciplines (pt_tios p) (pt_canon_bufsize p) (pt_fg_proc p) [c, 0x7F] (pt_verbatim p) (line p) =
      (False, [], map CallOut [c, 8, 32, 8, 8, 32, 8])"
    using high_byte_calls [OF assms(5), of "pt_canon_bufsize p"] assms(1-4) by (simp add: pty_ok_def del: disciplines.simps)
  then obtain q where q: "input_all [c, 0x7F] p = Some q" "moved (p\<lparr>pt_verbatim := False\<rparr>) [] (map CallOut [c, 8, 32, 8, 8, 32, 8]) q"
    using input_all_follows [OF assms(1), of "[c, 0x7F]"] by (auto simp: follows_def simp del: disciplines.simps input_all.simps)
  have "c \<noteq> 8" using assms(5) by (auto simp: ascii_def)
  then have "fst (display (out_bytes (map CallOut [c, 8, 32, 8, 8, 32, 8])) (prompt, r)) = butlast prompt"
    using assms(6) by (simp add: out_bytes_def display_def butlast_append)
  then show ?thesis using q(1) moved_fields [OF q(2)] by (auto simp del: input_all.simps)
qed

theorem erase_high_byte_overruns_witness:
  "\<exists>p' a. input_all [0xE9, 0x7F] pty_example = Some p' \<and> line p' = [] \<and> pt_calls p' = a \<and>
     fst (display (out_bytes a) ([36, 32], [])) = [36]"
  using erase_high_byte_overruns [OF pty_example_ok(1) _ pty_example_ok(2), of "0xE9" "[36, 32]" "[]"]
  by (simp add: pty_example_def ascii_def del: input_all.simps)

end
