(* ===== verification/Vfs_Node.thy ===== *)
theory Vfs_Node
  imports Kernel_Prelude
begin

text \<open>
  File nodes of \<open>kernel/vfs/vfs.c\<close>: reference counting, the permission check and the
  dispatch of the operations to the file system's callbacks.  A callback is a field that
  may be null; what it computes is the file system's business, so the field is the function
  from its arguments to its result.  The calls of \<open>open\<close> and \<open>close\<close> are counted.
\<close>

section \<open>Nodes\<close>

definition ENOENT :: int where "ENOENT = 2"
definition EISDIR :: int where "EISDIR = 21"
definition EINVAL :: int where "EINVAL = 22"
definition EROFS :: int where "EROFS = 30"
definition FS_DIRECTORY :: u64 where "FS_DIRECTORY = 2"

record fs_node =
  fn_mask :: "32 word"
  fn_uid :: "32 word"
  fn_gid :: "32 word"
  fn_flags :: u64
  fn_refcount :: "64 word"
  fn_has_open :: bool
  fn_has_close :: bool
  fn_open_calls :: nat
  fn_read :: "(u64 \<Rightarrow> u64 \<Rightarrow> int) option"
  fn_write :: "(u64 \<Rightarrow> u64 \<Rightarrow> int) option"
  fn_truncate :: "(u64 \<Rightarrow> int) option"
  fn_selectcheck :: "int option"
  fn_selectwait :: "(ptr \<Rightarrow> int) option"
  fn_chmod :: "(32 word \<Rightarrow> int) option"
  fn_chown :: "(32 word \<Rightarrow> 32 word \<Rightarrow> int) option"
  fn_readdir :: "(u64 \<Rightarrow> ptr) option"
  fn_finddir :: "(string \<Rightarrow> ptr) option"
  fn_ioctl :: "(u64 \<Rightarrow> ptr \<Rightarrow> int) option"
  fn_readlink :: "(u64 \<Rightarrow> int) option"

text \<open>The nodes in memory, and the log of the \<open>close\<close> callbacks that ran.\<close>

record vfs =
  vf_nodes :: "ptr \<rightharpoonup> fs_node"
  vf_close_log :: "ptr list"

definition get_fn :: "ptr \<Rightarrow> vfs \<Rightarrow> fs_node option" where
  "get_fn p v = (if p = NULL then None else vf_nodes v p)"


section \<open>Permissions\<close>

record creds =
  cr_user :: "32 word"
  cr_user_group :: "32 word"
  cr_groups :: "32 word list"

definition has_permission :: "creds \<Rightarrow> fs_node option \<Rightarrow> 32 word \<Rightarrow> 32 word" where
  "has_permission cr node permission_bit =
     (case node of None \<Rightarrow> 0
      | Some n \<Rightarrow>
          if cr_user cr = 0 \<and> permission_bit \<noteq> 1 then 1
          else
            let permissions = (scast (fn_mask n) :: u64);
                my_permissions = (ucast (permissions AND 7) :: u8);
                user_perm = (ucast (drop_bit 6 permissions AND 7) :: u8);
                group_perm = (ucast (drop_bit 3 permissions AND 7) :: u8);
                my_permissions = (if cr_user cr = fn_uid n then my_permissions OR user_perm
                                  else my_permissions);
                my_permissions = (if cr_user_group cr = fn_gid n then my_permissions OR group_perm
                                  else foldl (\<lambda>p g. if g = fn_gid n then p OR group_perm else p)
                                         my_permissions (cr_groups cr))
            in permission_bit AND ucast my_permissions)"


section \<open>Opening, closing and sharing\<close>

text \<open>\<open>refcount\<close> is signed: a negative count marks a node that is never freed.\<close>

definition vfs_lock :: "ptr \<Rightarrow> vfs \<Rightarrow> vfs option" where
  "vfs_lock node v =
     (case get_fn node v of None \<Rightarrow> None
      | Some n \<Rightarrow> Some (v\<lparr>vf_nodes := (vf_nodes v)(node \<mapsto> n\<lparr>fn_refcount := -1\<rparr>)\<rparr>))"

definition open_fs :: "ptr \<Rightarrow> vfs \<Rightarrow> vfs option" where
  "open_fs node v =
     (if node = NULL then Some v
      else case get_fn node v of None \<Rightarrow> None
      | Some n \<Rightarrow>
          let n = (if 0 \<le> sint (fn_refcount n) then n\<lparr>fn_refcount := fn_refcount n + 1\<rparr> else n);
              n = (if fn_has_open n then n\<lparr>fn_open_calls := fn_open_calls n + 1\<rparr> else n)
          in Some (v\<lparr>vf_nodes := (vf_nodes v)(node \<mapsto> n)\<rparr>))"

definition close_fs :: "ptr \<Rightarrow> vfs \<Rightarrow> vfs option" where
  "close_fs node v =
     (if node = NULL then Some v
      else case get_fn node v of None \<Rightarrow> None
      | Some n \<Rightarrow>
          if fn_refcount n = -1 then Some v
          else
            let n = n\<lparr>fn_refcount := fn_refcount n - 1\<rparr>;
                v = v\<lparr>vf_nodes := (vf_nodes v)(node \<mapsto> n)\<rparr>
            in if fn_refcount n = 0 then
                 let v = (if fn_has_close n then v\<lparr>vf_close_log := vf_close_log v @ [node]\<rparr> else v)
                 in Some (v\<lparr>vf_nodes := (vf_nodes v)(node := None)\<rparr>)
               else Some v)"

definition clone_fs :: "ptr \<Rightarrow> vfs \<Rightarrow> (ptr \<times> vfs) option" where
  "clone_fs source v =
     (if source = NULL then Some (NULL, v)
      else case get_fn source v of None \<Rightarrow> None
      | Some n \<Rightarrow>
          let n = (if 0 \<le> sint (fn_refcount n) then n\<lparr>fn_refcount := fn_refcount n + 1\<rparr> else n)
          in Some (source, v\<lparr>vf_nodes := (vf_nodes v)(source \<mapsto> n)\<rparr>))"


section \<open>Dispatch to the file system\<close>

definition selectcheck_fs :: "fs_node option \<Rightarrow> int" where
  "selectcheck_fs node =
     (case node of None \<Rightarrow> - ENOENT
      | Some n \<Rightarrow> (case fn_selectcheck n of Some r \<Rightarrow> r | None \<Rightarrow> - EINVAL))"

definition selectwait_fs :: "fs_node option \<Rightarrow> ptr \<Rightarrow> int" where
  "selectwait_fs node process =
     (case node of None \<Rightarrow> - ENOENT
      | Some n \<Rightarrow> (case fn_selectwait n of Some f \<Rightarrow> f process | None \<Rightarrow> - EINVAL))"

definition read_fs :: "fs_node option \<Rightarrow> u64 \<Rightarrow> u64 \<Rightarrow> int" where
  "read_fs node offset sz =
     (case node of None \<Rightarrow> - ENOENT
      | Some n \<Rightarrow>
          (case fn_read n of Some f \<Rightarrow> f offset sz
           | None \<Rightarrow> if fn_flags n AND FS_DIRECTORY \<noteq> 0 then - EISDIR else - EINVAL))"

definition write_fs :: "fs_node option \<Rightarrow> u64 \<Rightarrow> u64 \<Rightarrow> int" where
  "write_fs node offset sz =
     (case node of None \<Rightarrow> - ENOENT
      | Some n \<Rightarrow>
          (case fn_write n of Some f \<Rightarrow> f offset sz
           | None \<Rightarrow> if fn_flags n AND FS_DIRECTORY \<noteq> 0 then - EISDIR else - EROFS))"

definition truncate_fs :: "fs_node option \<Rightarrow> u64 \<Rightarrow> int" where
  "truncate_fs node sz =
     (case node of None \<Rightarrow> - ENOENT
      | Some n \<Rightarrow> (case fn_truncate n of Some f \<Rightarrow> f sz | None \<Rightarrow> - EINVAL))"

text \<open>The next two do not test the node; the outer option is the null dereference.\<close>

definition chmod_fs :: "fs_node option \<Rightarrow> 32 word \<Rightarrow> int option" where
  "chmod_fs node mode =
     (case node of None \<Rightarrow> None
      | Some n \<Rightarrow> Some (case fn_chmod n of Some f \<Rightarrow> f mode | None \<Rightarrow> 0))"

definition chown_fs :: "fs_node option \<Rightarrow> 32 word \<Rightarrow> 32 word \<Rightarrow> int option" where
  "chown_fs node uid gid =
     (case node of None \<Rightarrow> None
      | Some n \<Rightarrow> Some (case fn_chown n of Some f \<Rightarrow> f uid gid | None \<Rightarrow> 0))"

definition readdir_fs :: "fs_node option \<Rightarrow> u64 \<Rightarrow> ptr" where
  "readdir_fs node index =
     (case node of None \<Rightarrow> NULL
      | Some n \<Rightarrow>
          (case fn_readdir n of
             Some f \<Rightarrow> if fn_flags n AND FS_DIRECTORY \<noteq> 0 then f index else NULL
           | None \<Rightarrow> NULL))"

definition finddir_fs :: "fs_node option \<Rightarrow> string \<Rightarrow> ptr" where
  "finddir_fs node name =
     (case node of None \<Rightarrow> NULL
      | Some n \<Rightarrow>
          (case fn_finddir n of
             Some f \<Rightarrow> if fn_flags n AND FS_DIRECTORY \<noteq> 0 then f name else NULL
           | None \<Rightarrow> NULL))"

definition ioctl_fs :: "fs_node option \<Rightarrow> u64 \<Rightarrow> ptr \<Rightarrow> int" where
  "ioctl_fs node request argp =
     (case node of None \<Rightarrow> - ENOENT
      | Some n \<Rightarrow> (case fn_ioctl n of Some f \<Rightarrow> f request argp | None \<Rightarrow> - EINVAL))"

definition readlink_fs :: "fs_node option \<Rightarrow> u64 \<Rightarrow> int" where
  "readlink_fs node sz =
     (case node of None \<Rightarrow> - ENOENT
      | Some n \<Rightarrow> (case fn_readlink n of Some f \<Rightarrow> f sz | None \<Rightarrow> - EINVAL))"


section \<open>What the permission check grants\<close>

definition in_group :: "creds \<Rightarrow> fs_node \<Rightarrow> bool" where
  "in_group cr n \<longleftrightarrow> cr_user_group cr = fn_gid n \<or> fn_gid n \<in> set (cr_groups cr)"

lemma foldl_group:
  "foldl (\<lambda>p g. if g = gid then p OR gp else p) acc gs =
   (if gid \<in> set gs then acc OR gp else acc)" for acc gp :: u8
  by (induction gs arbitrary: acc) (auto simp: or.assoc)

lemma bit_perm:
  assumes "i < 3" and "k \<le> 6"
  shows "bit (ucast (drop_bit k (scast m :: u64) AND 7) :: u8) i \<longleftrightarrow> bit (m :: 32 word) (k + i)"
proof -
  have m: "(7 :: u64) = mask 3" by (simp add: mask_eq_exp_minus_1)
  show ?thesis
    unfolding m using assms by (simp add: bit_simps min_def add.commute del: mask_numeral)
qed

text \<open>
  The check of a single permission bit: granted by the bits for others, by the owner's bits
  to the owner and by the group's bits to the members of the group.
\<close>

definition granted :: "creds \<Rightarrow> fs_node \<Rightarrow> nat \<Rightarrow> bool" where
  "granted cr n i \<longleftrightarrow>
     bit (fn_mask n) i \<or> (cr_user cr = fn_uid n \<and> bit (fn_mask n) (6 + i)) \<or>
     (in_group cr n \<and> bit (fn_mask n) (3 + i))"

lemma and_bit_ne_0: "(push_bit i 1 AND w :: 32 word) \<noteq> 0 \<longleftrightarrow> bit w i"
  by (metis and.commute and_exp_eq_0_iff_not_bit push_bit_eq_mult mult_1)

lemma has_permission_spec:
  assumes "i < 3"
  shows "has_permission cr (Some n) (push_bit i 1) \<noteq> 0 \<longleftrightarrow>
    (cr_user cr = 0 \<and> i \<noteq> 0) \<or> granted cr n i"
proof -
  let ?p = "scast (fn_mask n) :: u64"
  let ?o = "ucast (?p AND 7) :: u8" and ?u = "ucast (drop_bit 6 ?p AND 7) :: u8"
    and ?g = "ucast (drop_bit 3 ?p AND 7) :: u8"
  let ?m = "(if cr_user cr = fn_uid n then ?o OR ?u else ?o) OR (if in_group cr n then ?g else 0)"
  have z: "(push_bit i 1 :: 32 word) \<noteq> 1" if "i \<noteq> 0"
  proof -
    have "i = 1 \<or> i = 2" using that assms by auto
    then show ?thesis by auto
  qed
  have A: "bit ?m i \<longleftrightarrow> granted cr n i"
    using bit_perm [OF assms, of 0 "fn_mask n"] bit_perm [OF assms, of 3 "fn_mask n"]
      bit_perm [OF assms, of 6 "fn_mask n"]
    by (simp add: granted_def bit_or_iff)
  have B: "bit (ucast (w :: u8) :: 32 word) i \<longleftrightarrow> bit w i" for w
    using assms by (simp add: bit_simps)
  have C: "has_permission cr (Some n) (push_bit i 1) =
      (if cr_user cr = 0 \<and> i \<noteq> 0 then 1 else push_bit i 1 AND ucast ?m)"
    using z by (cases "i = 0"; cases "cr_user cr = fn_uid n"; cases "cr_user cr = 0")
      (simp_all add: has_permission_def Let_def foldl_group in_group_def)
  have D: "(push_bit i 1 AND ucast ?m :: 32 word) \<noteq> 0 \<longleftrightarrow> granted cr n i"
    unfolding and_bit_ne_0 B by (rule A)
  show ?thesis unfolding C using D by (cases "cr_user cr = 0 \<and> i \<noteq> 0") (simp_all only: if_True if_False, simp_all)
qed

end
