(* ===== verification/Tty.thy ===== *)
theory Tty
  imports Tty_Line Ring_Buffer Kernel_Hashmap Kprintf Vfs_Node
begin

text \<open>
  Terminal devices, the second half of \<open>kernel/vfs/tty.c\<close>: the two ends of a terminal over its ring buffers, job control,
  the requests of \<open>pty_ioctl\<close>, and the directory of terminals.  The calls that the line discipline makes are
  carried out on the ring buffers in their order; each that may sleep takes what happens meanwhile from a list.  An
  argument of \<open>ioctl\<close> is the memory it points to in the types the code reads it as, or none for a null pointer.
\<close>

section \<open>The ring buffers behind the calls\<close>

record rings =
  pr_in :: ring_buffer
  pr_out :: ring_buffer

definition pty_write_in :: "ptr \<Rightarrow> unit rb_env \<Rightarrow> u8 \<Rightarrow> rings \<Rightarrow> nat io \<times> rings" where
  "pty_write_in self env c r = (case ring_buffer_write self [c] env (pr_in r) of (res, rb) \<Rightarrow> (res, r\<lparr>pr_in := rb\<rparr>))"

definition pty_write_out :: "ptr \<Rightarrow> unit rb_env \<Rightarrow> u8 \<Rightarrow> rings \<Rightarrow> nat io \<times> rings" where
  "pty_write_out self env c r = (case ring_buffer_write self [c] env (pr_out r) of (res, rb) \<Rightarrow> (res, r\<lparr>pr_out := rb\<rparr>))"

definition next_env :: "'e list list \<Rightarrow> 'e list \<times> 'e list list" where
  "next_env envs = (case envs of [] \<Rightarrow> ([], []) | e # es \<Rightarrow> (e, es))"

text \<open>The callbacks ignore what the write returns; one that still sleeps ends the sequence.  Signals go elsewhere.\<close>

fun perform :: "ptr \<Rightarrow> unit rb_env list \<Rightarrow> tty_call list \<Rightarrow> rings \<Rightarrow> rings option" where
  "perform self envs [] r = Some r"
| "perform self envs (CallIn c # cs) r =
     (let (env, envs) = next_env envs; (res, r) = pty_write_in self env c r
      in if res = Asleep then None else perform self envs cs r)"
| "perform self envs (CallOut c # cs) r =
     (let (env, envs) = next_env envs; (res, r) = pty_write_out self env c r
      in if res = Asleep then None else perform self envs cs r)"
| "perform self envs (CallEof # cs) r = perform self envs cs (r\<lparr>pr_in := ring_buffer_eof (pr_in r)\<rparr>)"
| "perform self envs (CallDiscard # cs) r = perform self envs cs (r\<lparr>pr_in := ring_buffer_discard (pr_in r)\<rparr>)"
| "perform self envs (CallSignal g s # cs) r = perform self envs cs r"


section \<open>The two ends\<close>

record cur =
  cu_id :: u32
  cu_session :: u32
  cu_job :: u32
  cu_user :: u32
  cu_user_group :: u32
  cu_blocked_signals :: u64
  cu_handler :: "nat \<Rightarrow> u64"

datatype 'a tio = Io "'a io" | Fail int

definition EPERM :: int where "EPERM = 1"
definition EIO :: int where "EIO = 5"
definition ERESTARTSYS :: int where "ERESTARTSYS = 512"

definition read_pty_master :: "ptr \<Rightarrow> unit rb_env \<Rightarrow> u64 \<Rightarrow> rings \<Rightarrow> bytes io \<times> rings" where
  "read_pty_master self env sz r = (case ring_buffer_read self sz env (pr_out r) of (res, rb) \<Rightarrow> (res, r\<lparr>pr_out := rb\<rparr>))"

text \<open>The calls of one write, from an empty record of them.\<close>

definition write_pty_master :: "ptr \<Rightarrow> unit rb_env list \<Rightarrow> bytes \<Rightarrow> pty \<Rightarrow> rings \<Rightarrow> (nat \<times> pty \<times> rings) option" where
  "write_pty_master self envs buffer p r = do {
     p \<leftarrow> input_all buffer (p\<lparr>pt_calls := []\<rparr>);
     r \<leftarrow> perform self envs (pt_calls p) r;
     Some (length buffer, p, r)
   }"

definition ignoring :: "int \<Rightarrow> cur \<Rightarrow> bool" where
  "ignoring sig cu \<longleftrightarrow> cu_blocked_signals cu AND push_bit (nat sig) 1 \<noteq> 0 \<or> cu_handler cu (nat sig) = 1"

definition background :: "pty \<Rightarrow> cur \<Rightarrow> bool" where
  "background p cu \<longleftrightarrow> pt_ct_proc p = cu_session cu \<and> pt_fg_proc p \<noteq> 0 \<and> cu_job cu \<noteq> pt_fg_proc p"

text \<open>One entry of the list for each pass of the loop; a loop with more passes has not returned.\<close>

fun vmin_loop :: "ptr \<Rightarrow> u64 \<Rightarrow> nat \<Rightarrow> bytes \<Rightarrow> unit rb_env list \<Rightarrow> ring_buffer \<Rightarrow> bytes io \<times> ring_buffer" where
  "vmin_loop self sz vmin acc [] rb = (if length acc < vmin then (Asleep, rb) else (Returned acc, rb))"
| "vmin_loop self sz vmin acc (env # envs) rb =
     (if length acc < vmin then
        case ring_buffer_read self (sz - of_nat (length acc)) env rb of
          (Returned bs, rb) \<Rightarrow> vmin_loop self sz vmin (acc @ bs) envs rb
        | (Restart, rb) \<Rightarrow> (if acc = [] then Restart else Returned acc, rb)
        | (Asleep, rb) \<Rightarrow> (Asleep, rb)
      else (Returned acc, rb))"

definition read_pty_slave :: "ptr \<Rightarrow> cur \<Rightarrow> unit rb_env list \<Rightarrow> u64 \<Rightarrow> pty \<Rightarrow> rings \<Rightarrow> bytes tio \<times> pty \<times> rings" where
  "read_pty_slave self cu envs sz p r =
     (if background p cu then
        if ignoring SIGTTIN cu then (Fail (- EIO), p, r)
        else (Fail (- ERESTARTSYS), call (CallSignal (cu_job cu) SIGTTIN) p, r)
      else if lflag p ICANON \<or> cc p VMIN = 0 then
        let (res, rb) = ring_buffer_read self sz (fst (next_env envs)) (pr_in r) in (Io res, p, r\<lparr>pr_in := rb\<rparr>)
      else
        let (res, rb) = vmin_loop self sz (min (unat (cc p VMIN)) (unat sz)) [] envs (pr_in r) in (Io res, p, r\<lparr>pr_in := rb\<rparr>))"

definition write_pty_slave :: "ptr \<Rightarrow> cur \<Rightarrow> unit rb_env list \<Rightarrow> bytes \<Rightarrow> pty \<Rightarrow> rings \<Rightarrow> (nat tio \<times> pty \<times> rings) option" where
  "write_pty_slave self cu envs buffer p r =
     (if lflag p TOSTOP \<and> background p cu \<and> \<not> ignoring SIGTTOU cu
      then Some (Fail (- ERESTARTSYS), call (CallSignal (cu_job cu) SIGTTOU) p, r)
      else do {
        let p = fold tty_output_process_slave buffer (p\<lparr>pt_calls := []\<rparr>);
        r \<leftarrow> perform self envs (pt_calls p) r;
        Some (Io (Returned (length buffer)), p, r)
      })"

definition pty_available_input :: "rings \<Rightarrow> u32" where
  "pty_available_input r = ucast (ring_buffer_unread (pr_in r))"

definition pty_available_output :: "rings \<Rightarrow> u32" where
  "pty_available_output r = ucast (ring_buffer_unread (pr_out r))"

definition check_pty_master :: "rings \<Rightarrow> int" where
  "check_pty_master r = (if ring_buffer_unread (pr_out r) > 0 then 0 else 1)"

definition check_pty_slave :: "rings \<Rightarrow> int" where
  "check_pty_slave r = (if ring_buffer_unread (pr_in r) > 0 then 0 else 1)"

definition wait_pty_master :: "ptr \<Rightarrow> rings \<Rightarrow> int \<times> rings" where
  "wait_pty_master process r = (0, r\<lparr>pr_out := ring_buffer_select_wait process (pr_out r)\<rparr>)"

definition wait_pty_slave :: "ptr \<Rightarrow> rings \<Rightarrow> int \<times> rings" where
  "wait_pty_slave process r = (0, r\<lparr>pr_in := ring_buffer_select_wait process (pr_in r)\<rparr>)"


section \<open>Requests\<close>

definition IOCTLDTYPE :: u64 where "IOCTLDTYPE = 0x4F00"
definition IOCTLTTYNAME :: u64 where "IOCTLTTYNAME = 0x4F01"
definition IOCTLTTYLOGIN :: u64 where "IOCTLTTYLOGIN = 0x4F02"
definition TCGETS :: u64 where "TCGETS = 0x4000"
definition TCSETS :: u64 where "TCSETS = 0x4001"
definition TCSETSW :: u64 where "TCSETSW = 0x4002"
definition TCSETSF :: u64 where "TCSETSF = 0x4003"
definition TIOCSCTTY :: u64 where "TIOCSCTTY = 0x4009"
definition TIOCGPGRP :: u64 where "TIOCGPGRP = 0x400A"
definition TIOCSPGRP :: u64 where "TIOCSPGRP = 0x400B"
definition TIOCGWINSZ :: u64 where "TIOCGWINSZ = 0x400E"
definition TIOCSWINSZ :: u64 where "TIOCSWINSZ = 0x400F"
definition IOCTL_DTYPE_TTY :: int where "IOCTL_DTYPE_TTY = 2"

lemmas requests = IOCTLDTYPE_def IOCTLTTYNAME_def IOCTLTTYLOGIN_def TCGETS_def TCSETS_def TCSETSW_def TCSETSF_def TIOCSCTTY_def
  TIOCGPGRP_def TIOCSPGRP_def TIOCGWINSZ_def TIOCSWINSZ_def

record ioarg =
  io_int :: u32
  io_winsize :: winsize
  io_termios :: termios
  io_name :: bytes

definition lit :: "string \<Rightarrow> bytes" where
  "lit s = map of_char s"

definition tty_fill_name :: "pty \<Rightarrow> bytes \<Rightarrow> bytes option" where
  "tty_fill_name p out =
     (if out = [] then None
      else map_option snd (snprintf (out[0 := 0]) 100 (lit ''/dev/pts/%zd'') [ArgInt (pt_name p)]))"

definition ioctl_sctty :: "cur \<Rightarrow> ioarg option \<Rightarrow> pty \<Rightarrow> int \<times> pty" where
  "ioctl_sctty cu argp p =
     (if cu_session cu = cu_id cu \<and> pt_ct_proc p = cu_session cu then (0, p)
      else if cu_session cu \<noteq> cu_id cu then (- EPERM, p)
      else if pt_ct_proc p \<noteq> 0 \<and> (case argp of None \<Rightarrow> True | Some a \<Rightarrow> io_int a \<noteq> 1 \<or> cu_user cu \<noteq> 0) then (- EPERM, p)
      else (0, p\<lparr>pt_ct_proc := cu_session cu\<rparr>))"

text \<open>The requests that check their argument first.\<close>

definition ioctl_checked :: "(pty \<Rightarrow> bytes \<Rightarrow> bytes option) \<Rightarrow> u64 \<Rightarrow> ioarg \<Rightarrow> pty \<Rightarrow> (int \<times> ioarg \<times> pty) option" where
  "ioctl_checked fill_name request a p =
     (if request = IOCTLTTYNAME then do { name \<leftarrow> fill_name p (io_name a); Some (0, a\<lparr>io_name := name\<rparr>, p) }
      else if request = IOCTLTTYLOGIN then
        Some (0, a, p\<lparr>pt_slave := (pt_slave p)\<lparr>pn_uid := io_int a\<rparr>, pt_master := (pt_master p)\<lparr>pn_uid := io_int a\<rparr>\<rparr>)
      else if request = TIOCSWINSZ then
        let p = p\<lparr>pt_size := io_winsize a\<rparr>
        in Some (0, a, if pt_fg_proc p \<noteq> 0 then call (CallSignal (pt_fg_proc p) SIGWINCH) p else p)
      else if request = TIOCGWINSZ then Some (0, a\<lparr>io_winsize := pt_size p\<rparr>, p)
      else if request = TCGETS then Some (0, a\<lparr>io_termios := pt_tios p\<rparr>, p)
      else if request = TIOCSPGRP then Some (0, a, p\<lparr>pt_fg_proc := io_int a\<rparr>)
      else if request = TIOCGPGRP then Some (0, a\<lparr>io_int := pt_fg_proc p\<rparr>, p)
      else do {
        p \<leftarrow> (if \<not> flag_on (c_lflag (io_termios a)) ICANON \<and> lflag p ICANON then dump_input_buffer p else Some p);
        Some (0, a, p\<lparr>pt_tios := io_termios a\<rparr>)
      })"

definition pty_ioctl :: "(pty \<Rightarrow> bytes \<Rightarrow> bytes option) \<Rightarrow> cur \<Rightarrow> u64 \<Rightarrow> ioarg option \<Rightarrow> pty \<Rightarrow> (int \<times> ioarg option \<times> pty) option" where
  "pty_ioctl fill_name cu request argp p =
     (if request = IOCTLDTYPE then Some (IOCTL_DTYPE_TTY, argp, p)
      else if request = IOCTLTTYLOGIN \<and> cu_user cu \<noteq> 0 then Some (- EPERM, argp, p)
      else if request \<in> {IOCTLTTYNAME, IOCTLTTYLOGIN, TIOCSWINSZ, TIOCGWINSZ, TCGETS, TIOCSPGRP, TIOCGPGRP, TCSETS, TCSETSW} then
        case argp of None \<Rightarrow> Some (- EINVAL, argp, p)
        | Some a \<Rightarrow> do { (res, a, p) \<leftarrow> ioctl_checked fill_name request a p; Some (res, Some a, p) }
      else if request = TIOCSCTTY then let (res, p) = ioctl_sctty cu argp p in Some (res, argp, p)
      else if request = TCSETSF then do {
        p \<leftarrow> clear_input_buffer p;
        let p = call CallDiscard p;
        a \<leftarrow> argp;
        Some (0, argp, p\<lparr>pt_tios := io_termios a\<rparr>)
      }
      else Some (- EINVAL, argp, p))"


section \<open>Nodes and the directory of terminals\<close>

definition pty_master_create :: "cur \<Rightarrow> u64 \<Rightarrow> pty_node option" where
  "pty_master_create cu now = do {
     (n, name) \<leftarrow> snprintf (replicate 256 0) 100 (lit ''pty master'') [];
     Some \<lparr>pn_name = name, pn_uid = cu_user cu, pn_gid = cu_user_group cu, pn_mask = 0x1B6, pn_flags = 0x10,
           pn_ctime = now, pn_mtime = now, pn_atime = now\<rparr>
   }"

definition pty_slave_create :: "cur \<Rightarrow> u64 \<Rightarrow> pty_node option" where
  "pty_slave_create cu now = do {
     (n, name) \<leftarrow> snprintf (replicate 256 0) 100 (lit ''pty slave'') [];
     Some \<lparr>pn_name = name, pn_uid = cu_user cu, pn_gid = cu_user_group cu, pn_mask = 0x190, pn_flags = 4,
           pn_ctime = now, pn_mtime = now, pn_atime = now\<rparr>
   }"

definition create_dev_tty :: "u64 \<Rightarrow> pty_node" where
  "create_dev_tty now = \<lparr>pn_name = lit ''tty'', pn_uid = 0, pn_gid = 0, pn_mask = 0x1FF, pn_flags = 0x21,
     pn_ctime = now, pn_mtime = now, pn_atime = now\<rparr>"

definition create_pty_dir :: "u64 \<Rightarrow> pty_node" where
  "create_pty_dir now = \<lparr>pn_name = lit ''pty'', pn_uid = 0, pn_gid = 0, pn_mask = 0x16D, pn_flags = FS_DIRECTORY,
     pn_ctime = now, pn_mtime = now, pn_atime = now\<rparr>"

text \<open>The globals of the file, the terminals in memory and the calls of \<open>vfs_mount\<close>.\<close>

record ttys =
  tt_counter :: u32
  tt_index :: "(u64, ptr) hashmap option"
  tt_ptys :: "ptr \<rightharpoonup> pty"
  tt_rings :: "ptr \<rightharpoonup> rings"
  tt_mounts :: "(bytes \<times> pty_node) list"

definition pty_install :: "u64 \<Rightarrow> ttys \<Rightarrow> ttys option" where
  "pty_install now st = do {
     index \<leftarrow> hashmap_create_int 10;
     Some (st\<lparr>tt_index := Some index,
       tt_mounts := tt_mounts st @ [(lit ''/dev/pts'', create_pty_dir now), (lit ''/dev/tty'', create_dev_tty now)]\<rparr>)
   }"

text \<open>\<open>a\<close> is the address of the new terminal, \<open>mem\<close> what the memory held before; \<open>mem_in\<close> and \<open>mem_out\<close> are the storage of the rings and \<open>canon\<close>
  that of the line.  The characters of \<open>c_cc\<close> that are not set keep what the memory held.\<close>

definition set_defaults :: "(nat \<Rightarrow> u8) \<Rightarrow> termios" where
  "set_defaults mem = tios_default\<lparr>c_cc := (\<lambda>i. if i \<in> {1..13} then c_cc tios_default i else mem i)\<rparr>"

definition pty_new :: "ptr \<Rightarrow> pty \<Rightarrow> bytes \<Rightarrow> bytes \<Rightarrow> bytes \<Rightarrow> u64 \<Rightarrow> cur \<Rightarrow> winsize option \<Rightarrow> u32 \<Rightarrow> ttys \<Rightarrow> ttys option" where
  "pty_new a mem mem_in mem_out canon now cu sz index st = do {
     st \<leftarrow> (if tt_index st = None then pty_install now st else Some st);
     master \<leftarrow> pty_master_create cu now;
     slave \<leftarrow> pty_slave_create cu now;
     let name = (scast index :: u64);
     ix \<leftarrow> tt_index st;
     ix \<leftarrow> (if index \<noteq> 0 then do { (old, ix) \<leftarrow> hashmap_set ix name (Some a); Some ix } else Some ix);
     let p = mem\<lparr>pt_verbatim := False, pt_master := master, pt_slave := slave, pt_name := name,
       pt_size := (case sz of Some w \<Rightarrow> w | None \<Rightarrow> (pt_size mem)\<lparr>ws_row := 25, ws_col := 80\<rparr>),
       pt_ct_proc := 0, pt_fg_proc := 0, pt_tios := set_defaults (c_cc (pt_tios mem)),
       pt_canon_buffer := canon, pt_canon_bufsize := 4094, pt_canon_buflen := 0, pt_calls := []\<rparr>;
     Some (st\<lparr>tt_index := Some ix, tt_ptys := (tt_ptys st)(a \<mapsto> p),
       tt_rings := (tt_rings st)(a \<mapsto> \<lparr>pr_in = ring_buffer_create mem_in 4096, pr_out = ring_buffer_create mem_out 4096\<rparr>)\<rparr>)
   }"

definition pty_create :: "ptr \<Rightarrow> pty \<Rightarrow> bytes \<Rightarrow> bytes \<Rightarrow> bytes \<Rightarrow> u64 \<Rightarrow> cur \<Rightarrow> winsize option \<Rightarrow> ttys \<Rightarrow> (int \<times> ptr \<times> ttys) option" where
  "pty_create a mem mem_in mem_out canon now cu sz st = do {
     let st = st\<lparr>tt_counter := tt_counter st + 1\<rparr>;
     st \<leftarrow> pty_new a mem mem_in mem_out canon now cu sz (tt_counter st) st;
     Some (0, a, st)
   }"

definition close_pty_slave :: "ptr \<Rightarrow> ttys \<Rightarrow> ttys option" where
  "close_pty_slave a st = do {
     p \<leftarrow> tt_ptys st a;
     if pt_name p \<noteq> 0 then do {
       ix \<leftarrow> tt_index st;
       (out, ix) \<leftarrow> hashmap_remove ix (pt_name p);
       Some (st\<lparr>tt_index := Some ix\<rparr>)
     } else Some st
   }"

text \<open>A directory entry is its number and its name up to the terminator.\<close>

definition cstring :: "bytes \<Rightarrow> bytes option" where
  "cstring bs = (if 0 \<in> set bs then Some (takeWhile (\<lambda>c. c \<noteq> 0) bs) else None)"

definition readdir_pty :: "u64 \<Rightarrow> ttys \<Rightarrow> (u64 \<times> bytes) option option" where
  "readdir_pty index st =
     (if index = 0 then Some (Some (0, lit ''.''))
      else if index = 1 then Some (Some (0, lit ''..''))
      else do {
        ix \<leftarrow> tt_index st;
        let index = index - 2;
        let vs = hashmap_values ix;
        case (if unat index < length vs then vs ! unat index else None) of
          None \<Rightarrow> Some None
        | Some a \<Rightarrow> do {
            p \<leftarrow> tt_ptys st a;
            (n, name) \<leftarrow> snprintf (replicate 256 0) 100 (lit ''%zd'') [ArgInt (pt_name p)];
            name \<leftarrow> cstring name;
            Some (Some (pt_name p, name))
          }
      })"

fun pty_number :: "bytes \<Rightarrow> u64 \<Rightarrow> u64 option" where
  "pty_number [] c = Some c"
| "pty_number (n # name) c = (if n < 48 \<or> n > 57 then None else pty_number name (c * 10 + ucast n - 48))"

text \<open>The terminal whose slave end is found, none for a null pointer.\<close>

definition finddir_pty :: "bytes \<Rightarrow> ttys \<Rightarrow> ptr option option" where
  "finddir_pty name st =
     (if name = [] then Some None
      else case pty_number name 0 of None \<Rightarrow> Some None
      | Some c \<Rightarrow> do { ix \<leftarrow> tt_index st; hashmap_get ix c })"

definition isatty :: "fs_node option \<Rightarrow> bool" where
  "isatty node = (case node of None \<Rightarrow> False | Some n \<Rightarrow> fn_ioctl n \<noteq> None \<and> ioctl_fs node IOCTLDTYPE NULL = IOCTL_DTYPE_TTY)"

text \<open>Each descriptor with the device of its node; \<open>tmp\<close> is what the 30 bytes on the stack held.\<close>

definition readlink_dev_tty :: "(pty \<Rightarrow> bytes \<Rightarrow> bytes option) \<Rightarrow> (fs_node option \<times> ptr) list \<Rightarrow> bytes \<Rightarrow> bytes \<Rightarrow> u64 \<Rightarrow> ttys \<Rightarrow> (u64 \<times> bytes) option" where
  "readlink_dev_tty fill_name fds tmp buf sz st = do {
     tmp \<leftarrow> (case List.find (\<lambda>e. isatty (fst e)) (take 3 fds) of
         None \<Rightarrow> map_option snd (snprintf tmp 100 (lit ''/dev/null'') [])
       | Some e \<Rightarrow> do { p \<leftarrow> tt_ptys st (snd e); fill_name p tmp });
     s \<leftarrow> cstring tmp;
     let req = of_nat (length s) + 1;
     if length buf < unat (min sz req) then None
     else if sz < req then
       if sz = 0 then None
       else Some (sz - 1, take (unat sz - 1) tmp @ [0] @ drop (unat sz) buf)
     else let sz = req in Some (sz - 1, take (unat sz) tmp @ drop (unat sz) buf)
   }"


section \<open>Through the ring buffers\<close>

lemma write_one:
  assumes "rb_ok rb" and "0 < rb_room rb"
  shows "\<exists>rb'. ring_buffer_write self [c] env rb = (Returned 1, rb') \<and> rb_ok rb' \<and> rb_contents rb' = rb_contents rb @ [c] \<and> rb_size rb' = rb_size rb"
proof -
  let ?rb = "rb\<lparr>rb_lock := True\<rparr>"
  have ok: "rb_ok ?rb" and room: "rb_room ?rb = rb_room rb" using assms(1) by (simp_all add: rb_room_def)
  obtain rb1 where rb1: "rb_fill [c] ?rb = (min (length [c]) (rb_room ?rb), rb1)" "rb_contents rb1 = rb_contents ?rb @ take (rb_room ?rb) [c]"
      "rb_ok rb1" "rb_size rb1 = rb_size ?rb" by (rule rb_fill_pass [OF ok])
  have "rb_fill [c] ?rb = (1, rb1)" using rb1(1) room assms(2) by (simp add: min_def)
  then show ?thesis using rb1(2-4) room assms(2)
    by (simp only: ring_buffer_write_def) (subst ring_buffer_write_from.simps, simp add: Let_def)
qed

definition in_bytes :: "tty_call list \<Rightarrow> bytes" where
  "in_bytes calls = concat (map (\<lambda>a. case a of CallIn c \<Rightarrow> [c] | _ \<Rightarrow> []) calls)"

lemma in_bytes_simps [simp]: "in_bytes [] = []" "in_bytes (a @ b) = in_bytes a @ in_bytes b"
  "in_bytes (CallIn c # cs) = c # in_bytes cs" "in_bytes (CallOut c # cs) = in_bytes cs" "in_bytes (CallEof # cs) = in_bytes cs"
  "in_bytes (CallSignal g s # cs) = in_bytes cs"
  by (simp_all add: in_bytes_def)

lemma out_bytes_simps [simp]: "out_bytes (CallIn c # cs) = out_bytes cs" "out_bytes (CallOut c # cs) = c # out_bytes cs" "out_bytes (CallEof # cs) = out_bytes cs"
  "out_bytes (CallSignal g s # cs) = out_bytes cs"
  by (simp_all add: out_bytes_def)

definition rings_ok :: "rings \<Rightarrow> bool" where
  "rings_ok r \<longleftrightarrow> rb_ok (pr_in r) \<and> rb_ok (pr_out r)"

lemma rb_room_after: "rb_contents rb' = rb_contents rb @ [c] \<Longrightarrow> rb_size rb' = rb_size rb \<Longrightarrow> rb_room rb' = rb_room rb - 1"
  by (simp add: rb_room_def)

lemma eof_fields: "rb_ok (ring_buffer_eof rb) = rb_ok rb" "rb_contents (ring_buffer_eof rb) = rb_contents rb" "rb_room (ring_buffer_eof rb) = rb_room rb"
  by (simp_all add: ring_buffer_eof_def rb_room_def)

lemma perform_delivers:
  "rings_ok r \<Longrightarrow> length (in_bytes cs) \<le> rb_room (pr_in r) \<Longrightarrow> length (out_bytes cs) \<le> rb_room (pr_out r) \<Longrightarrow> CallDiscard \<notin> set cs \<Longrightarrow>
   \<exists>r'. perform self envs cs r = Some r' \<and> rings_ok r' \<and> rb_contents (pr_in r') = rb_contents (pr_in r) @ in_bytes cs \<and>
     rb_contents (pr_out r') = rb_contents (pr_out r) @ out_bytes cs"
proof (induction cs arbitrary: envs r)
  case (Cons a cs)
  show ?case
  proof (cases a)
    case (CallIn c)
    obtain rb where rb: "ring_buffer_write self [c] (fst (next_env envs)) (pr_in r) = (Returned 1, rb)" "rb_ok rb"
        "rb_contents rb = rb_contents (pr_in r) @ [c]" "rb_size rb = rb_size (pr_in r)"
      using write_one [of "pr_in r" self c "fst (next_env envs)"] Cons.prems CallIn by (auto simp: rings_ok_def)
    show ?thesis using Cons.IH [of "r\<lparr>pr_in := rb\<rparr>" "snd (next_env envs)"] Cons.prems CallIn rb rb_room_after [OF rb(3,4)]
      by (auto simp: rings_ok_def pty_write_in_def split_def Let_def)
  next
    case (CallOut c)
    obtain rb where rb: "ring_buffer_write self [c] (fst (next_env envs)) (pr_out r) = (Returned 1, rb)" "rb_ok rb"
        "rb_contents rb = rb_contents (pr_out r) @ [c]" "rb_size rb = rb_size (pr_out r)"
      using write_one [of "pr_out r" self c "fst (next_env envs)"] Cons.prems CallOut by (auto simp: rings_ok_def)
    show ?thesis using Cons.IH [of "r\<lparr>pr_out := rb\<rparr>" "snd (next_env envs)"] Cons.prems CallOut rb rb_room_after [OF rb(3,4)]
      by (auto simp: rings_ok_def pty_write_out_def split_def Let_def)
  next
    case CallEof
    then show ?thesis using Cons.IH [of "r\<lparr>pr_in := ring_buffer_eof (pr_in r)\<rparr>" envs] Cons.prems by (simp add: rings_ok_def eof_fields)
  next
    case (CallSignal g sg)
    then show ?thesis using Cons.IH [of r envs] Cons.prems by simp
  qed (use Cons.prems in simp)
qed (simp add: rings_ok_def)

text \<open>Typing never discards.\<close>

lemma outs_no_discard: "CallDiscard \<notin> set (outs t cs)"
  by (auto simp: outs_def)

lemma edit_no_discard: "edit t cap c l = (v, l', a) \<Longrightarrow> CallDiscard \<notin> set a"
  by (auto simp: edit_def Let_def outs_no_discard split: if_splits)

lemma discipline_no_discard: "discipline t cap fg c v l = (v', l', a) \<Longrightarrow> CallDiscard \<notin> set a"
  by (auto simp: discipline_def Let_def outs_no_discard dest: edit_no_discard split: if_splits option.splits)

lemma disciplines_no_discard: "disciplines t cap fg cs v l = (v', l', a) \<Longrightarrow> CallDiscard \<notin> set a"
proof (induction cs arbitrary: v l a)
  case (Cons c cs)
  obtain v1 l1 a1 where d: "discipline t cap fg c v l = (v1, l1, a1)" by (metis prod_cases3)
  obtain v2 l2 a2 where r: "disciplines t cap fg cs v1 l1 = (v2, l2, a2)" by (metis prod_cases3)
  have "v' = v2" "l' = l2" "a = a1 @ a2" using Cons.prems d r by simp_all
  then show ?case using Cons.IH [of v1 l1 a2] r discipline_no_discard [OF d] by simp
qed simp

lemma typed_read:
  assumes ok: "pty_ok p" and ic: "lflag p ICANON" and r: "rings_ok r" and bg: "\<not> background p cu" and sz: "0 < sz"
    and d: "disciplines (pt_tios p) (pt_canon_bufsize p) (pt_fg_proc p) cs (pt_verbatim p) (line p) = (v, l, a)"
    and room: "length (in_bytes a) \<le> rb_room (pr_in r)" "length (out_bytes a) \<le> rb_room (pr_out r)"
    and some: "rb_contents (pr_in r) @ in_bytes a \<noteq> []"
  shows "\<exists>p' r' r''. write_pty_master self envs cs p r = Some (length cs, p', r') \<and>
    rb_contents (pr_out r') = rb_contents (pr_out r) @ out_bytes a \<and>
    read_pty_slave reader cu envs' sz p' r' = (Io (Returned (take (unat sz) (rb_contents (pr_in r) @ in_bytes a))), p', r'')"
proof -
  let ?p = "p\<lparr>pt_calls := []\<rparr>"
  have "pty_ok ?p" "line ?p = line p" using ok by (simp_all add: pty_ok_def line_def)
  then obtain q where q: "input_all cs ?p = Some q" "moved (?p\<lparr>pt_verbatim := v\<rparr>) l a q"
    using input_all_follows [of ?p cs] d by (auto simp: follows_def)
  then have calls: "pt_calls q = a" and tios: "pt_tios q = pt_tios p" using moved_fields [OF q(2)] by auto
  obtain r' where r': "perform self envs a r = Some r'" "rings_ok r'" "rb_contents (pr_in r') = rb_contents (pr_in r) @ in_bytes a"
      "rb_contents (pr_out r') = rb_contents (pr_out r) @ out_bytes a"
    using perform_delivers [OF r room disciplines_no_discard [OF d]] by blast
  have bq: "\<not> background q cu" using bg q(2) by (auto simp: background_def moved_def)
  have "rb_ok (pr_in r')" "rb_contents (pr_in r') \<noteq> []" using r' some by (simp_all add: rings_ok_def)
  from ring_buffer_read_eval [OF this sz, of reader "fst (next_env envs')"]
  obtain rb where "ring_buffer_read reader sz (fst (next_env envs')) (pr_in r') = (Returned (take (unat sz) (rb_contents (pr_in r'))), rb)" by blast
  then have "read_pty_slave reader cu envs' sz q r' = (Io (Returned (take (unat sz) (rb_contents (pr_in r')))), q, r'\<lparr>pr_in := rb\<rparr>)"
    using bq ic tios by (simp add: read_pty_slave_def del: ring_buffer_read.simps)
  then show ?thesis using q(1) calls r' by (simp add: write_pty_master_def)
qed


section \<open>Names of terminals\<close>

lemma pty_number_append: "pty_number (a @ b) c = Option.bind (pty_number a c) (pty_number b)"
  by (induction a c rule: pty_number.induct) auto

lemma pty_number_decimal: "pty_number (decimal n) 0 = Some (of_nat n)"
proof (induction n rule: decimal.induct)
  case (1 n)
  have u: "unat (of_nat m + 48 :: u8) = m + 48" if "m < 10" for m
    using that by (simp add: unat_word_ariths unsigned_of_nat take_bit_nat_eq_self)
  have one: "pty_number [of_nat m + 48] c = Some (c * 10 + of_nat m)" if "m < 10" for m c
  proof -
    have "ucast (of_nat m + 48 :: u8) = (of_nat (m + 48) :: u64)" 
    proof -
      have "ucast (of_nat m + 48 :: u8) = (of_nat (unat (of_nat m + 48 :: u8)) :: u64)" by (simp add: of_nat_unat)
      then show ?thesis using u [OF that] by simp
    qed
    then show ?thesis using u [OF that] that by (simp add: word_less_nat_alt not_less)
  qed
  show ?case
  proof (cases "n < 10")
    case True
    then show ?thesis using one [of n 0] by (subst decimal.simps) simp
  next
    case False
    have "(of_nat n :: u64) = of_nat (n div 10 * 10 + n mod 10)" by simp
    then have "(of_nat n :: u64) = of_nat (n div 10) * 10 + of_nat (n mod 10)" by (simp only: of_nat_add of_nat_mult of_nat_numeral)
    then show ?thesis using False 1 [OF False] one [of "n mod 10"] by (subst decimal.simps) (simp add: pty_number_append)
  qed
qed

lemma zd_text: "xvasprintf (lit ''%zd'') [ArgInt v] = Some (int_text (sint v))"
proof -
  let ?sp = "fspec_start\<lparr>fs_width := 0, fs_precision := -1, fs_big := 2\<rparr>"
  have l: "lit ''%zd'' = [37, 122, 100]" by (simp add: lit_def)
  have "parse_spec [122, 100] [ArgInt v] = Some (?sp, [100], [ArgInt v])"
    by (simp add: parse_spec_def parse_precision_def parse_big_def parse_mod_def starts_def fspec_start_def is_digit_def word_le_nat_alt)
  moreover have "convert 100 ?sp [ArgInt v] = Some (int_text (sint v), [], False)"
    by (simp add: convert_def va_signed_def convert_dec_plain fspec_start_def)
  ultimately show ?thesis by (simp add: l xvasprintf_def xvasprintf_loop.simps(2))
qed

lemma cstring_snprintf:
  assumes "xvasprintf fmt args = Some out" and "0 \<notin> set out" and "length out < 99" and "100 \<le> length str"
  shows "\<exists>buf. snprintf str 100 fmt args = Some (of_nat (length out), buf) \<and> cstring buf = Some out"
proof -
  let ?buf = "take 99 (out @ [0]) @ [0] @ drop (min (length out + 1) 99 + 1) str"
  have "snprintf str 100 fmt args = Some (of_nat (length out), ?buf)" using snprintf_fits [OF assms(1), of 100 str] assms(4) by simp
  moreover have "cstring ?buf = Some out"
  proof -
    have "take 99 (out @ [0]) = out @ [0]" using assms(3) by simp
    moreover have "takeWhile (\<lambda>c. c \<noteq> 0) (out @ 0 # xs) = out" for xs using assms(2) by (induction out) auto
    ultimately show ?thesis unfolding cstring_def by (metis append.assoc append_Cons append_Nil in_set_conv_decomp)
  qed
  ultimately show ?thesis by blast
qed

lemma name_text:
  assumes "0 \<le> sint k"
  shows "\<exists>n buf. snprintf (replicate 256 0) 100 (lit ''%zd'') [ArgInt k] = Some (n, buf) \<and> cstring buf = Some (decimal (unat k))"
proof -
  have t: "int_text (sint k) = decimal (unat k)" using assms by (simp add: int_text_def unat_sint_64)
  have "length (decimal (unat k)) < 99" using dec_width_bound [of k] by (simp flip: dec_digits_decimal)
  moreover have "0 \<notin> set (decimal (unat k))" using decimal_digits [of 0 "unat k"] by (auto simp: is_digit_def)
  ultimately show ?thesis using cstring_snprintf [OF zd_text [of k, unfolded t], of "replicate 256 0"] by auto
qed

definition ttys_ok :: "ttys \<Rightarrow> bool" where
  "ttys_ok st \<longleftrightarrow> (case tt_index st of None \<Rightarrow> True
     | Some ix \<Rightarrow> hm_wf ix \<and> (\<forall>k v. hm_lookup ix k = Some v \<longrightarrow>
         0 < sint k \<and> (\<exists>a p. v = Some a \<and> tt_ptys st a = Some p \<and> pt_name p = k)))"

lemma hashmap_values_lookup:
  assumes "hm_wf ix" and "v \<in> set (hashmap_values ix)"
  shows "\<exists>k. hm_lookup ix k = Some v"
proof -
  obtain i k where i: "i < length (hm_entries ix)" "(k, v) \<in> set (hm_entries ix ! i)"
    using assms(2) by (fastforce simp: hashmap_values_def in_set_conv_nth [of _ "hm_entries ix"])
  have "hm_slot ix (fst (k, v)) = i" "distinct (map fst (hm_entries ix ! i))" using assms(1) i unfolding hm_wf_def by blast+
  then show ?thesis using i(2) by (auto simp: hm_lookup_def intro!: exI [of _ k])
qed

lemma readdir_names:
  assumes ok: "ttys_ok st" and rd: "readdir_pty (i + 2) st = Some (Some (ino, name))" and i: "i < - 2"
  shows "\<exists>a p. finddir_pty name st = Some (Some a) \<and> tt_ptys st a = Some p \<and> pt_name p = ino"
proof -
  have i2: "i + 2 \<noteq> 0" "i + 2 \<noteq> 1" using i by (auto simp: add_eq_0_iff2 eq_diff_eq [symmetric])
  obtain ix where ix: "tt_index st = Some ix" using rd i2 by (auto simp: readdir_pty_def bind_eq_Some_conv)
  obtain a p n buf where a: "unat i < length (hashmap_values ix)" "hashmap_values ix ! unat i = Some a" "tt_ptys st a = Some p"
      "snprintf (replicate 256 0) 100 (lit ''%zd'') [ArgInt (pt_name p)] = Some (n, buf)" "cstring buf = Some name" "ino = pt_name p"
    using rd i2 ix by (auto simp: readdir_pty_def bind_eq_Some_conv Let_def split: option.splits if_splits)
  have "Some a \<in> set (hashmap_values ix)" using a(1,2) by (metis nth_mem)
  then obtain k where k: "hm_lookup ix k = Some (Some a)" using hashmap_values_lookup ok ix by (fastforce simp: ttys_ok_def)
  have "0 < sint k \<and> (\<exists>b q. Some a = Some b \<and> tt_ptys st b = Some q \<and> pt_name q = k)"
    using ok ix k unfolding ttys_ok_def by (simp only: option.case)
  then have k2: "pt_name p = k" "0 < sint k" using a(3) by auto
  then have name: "name = decimal (unat k)" using name_text [of k] a(4,5) by auto
  have "finddir_pty name st = hashmap_get ix k" using name ix by (simp add: finddir_pty_def pty_number_decimal)
  also have "\<dots> = Some (Some a)" using ok ix k by (simp add: ttys_ok_def hashmap_get_spec)
  finally show ?thesis using a k2 by auto
qed

text \<open>New terminals keep the index.\<close>

lemma lit_print:
  "xvasprintf (lit ''pty master'') [] = Some (lit ''pty master'')" "xvasprintf (lit ''pty slave'') [] = Some (lit ''pty slave'')"
  by (simp_all add: lit_def xvasprintf_def xvasprintf_loop.simps(2))

lemma nodes_created: "\<exists>n. pty_master_create cu now = Some n" "\<exists>n. pty_slave_create cu now = Some n"
  using snprintf_fits [OF lit_print(1), of 100 "replicate 256 0"] snprintf_fits [OF lit_print(2), of 100 "replicate 256 0"]
  by (simp_all add: pty_master_create_def pty_slave_create_def)

lemma ttys_okD: "ttys_ok st \<Longrightarrow> tt_index st = Some ix \<Longrightarrow> hm_wf ix \<and> (\<forall>k v. hm_lookup ix k = Some v \<longrightarrow>
         0 < sint k \<and> (\<exists>a p. v = Some a \<and> tt_ptys st a = Some p \<and> pt_name p = k))"
  by (simp add: ttys_ok_def)

lemma install_ok: "tt_index st = None \<Longrightarrow> \<exists>st' ix. pty_install now st = Some st' \<and> tt_index st' = Some ix \<and> ttys_ok st' \<and> tt_ptys st' = tt_ptys st"
proof -
  assume "tt_index st = None"
  obtain ix :: "(u64, ptr) hashmap" where "hashmap_create_int 10 = Some ix" "hm_wf ix" "hm_lookup ix = Map.empty"
    using hashmap_new_spec [of 10 hashmap_int_comp hashmap_int_hash] hashmap_int_comp_eq by (auto simp: hashmap_create_int_def)
  then show ?thesis by (simp add: pty_install_def ttys_ok_def)
qed

lemma pty_new_ok:
  assumes ok: "ttys_ok st" and fresh: "tt_ptys st a = None" and ix: "0 < sint index" and canon: "length canon = 4096"
  shows "\<exists>st' p. pty_new a mem m_in m_out canon now cu sz index st = Some st' \<and> ttys_ok st' \<and> tt_ptys st' a = Some p \<and>
    pty_ok p \<and> line p = [] \<and> pt_name p = scast index \<and> finddir_pty (decimal (unat index)) st' = Some (Some a)"
proof -
  obtain st1 ix1 where st1: "(if tt_index st = None then pty_install now st else Some st) = Some st1" "tt_index st1 = Some ix1" "ttys_ok st1" "tt_ptys st1 = tt_ptys st"
    using install_ok [of st now] ok by (cases "tt_index st") auto
  obtain ma sl where n: "pty_master_create cu now = Some ma" "pty_slave_create cu now = Some sl" using nodes_created by blast
  have sc: "sint (scast index :: u64) = sint index" by (simp add: signed_scast_eq signed_take_bit_int_eq_self_iff) (use sint_less [of index] sint_greater_eq [of index] in simp)
  have wf: "hm_wf ix1" using ttys_okD [OF st1(3,2)] by blast
  obtain ol ix2 where ix2: "hashmap_set ix1 (scast index) (Some a) = Some (ol, ix2)" "hm_wf ix2" "hm_lookup ix2 = (hm_lookup ix1)(scast index \<mapsto> Some a)"
    using hashmap_set_spec [OF wf, of "scast index" "Some a"] by auto
  define p where "p = mem\<lparr>pt_verbatim := False, pt_master := ma, pt_slave := sl, pt_name := scast index,
       pt_size := (case sz of Some w \<Rightarrow> w | None \<Rightarrow> (pt_size mem)\<lparr>ws_row := 25, ws_col := 80\<rparr>),
       pt_ct_proc := 0, pt_fg_proc := 0, pt_tios := set_defaults (c_cc (pt_tios mem)),
       pt_canon_buffer := canon, pt_canon_bufsize := 4094, pt_canon_buflen := 0, pt_calls := []\<rparr>"
  define st2 where "st2 = st1\<lparr>tt_index := Some ix2, tt_ptys := (tt_ptys st1)(a \<mapsto> p),
       tt_rings := (tt_rings st1)(a \<mapsto> \<lparr>pr_in = ring_buffer_create m_in 4096, pr_out = ring_buffer_create m_out 4096\<rparr>)\<rparr>"
  have "index \<noteq> 0" using ix by auto
  then have run: "pty_new a mem m_in m_out canon now cu sz index st = Some st2"
    using st1 n ix2(1) by (simp add: pty_new_def st2_def p_def)
  have p: "pty_ok p" "line p = []" "pt_name p = scast index" using canon by (simp_all add: p_def pty_ok_def line_def)
  have ok2: "ttys_ok st2"
  proof -
    have "0 < sint k \<and> (\<exists>b q. v = Some b \<and> tt_ptys st2 b = Some q \<and> pt_name q = k)" if "hm_lookup ix2 k = Some v" for k v
    proof (cases "k = scast index")
      case True
      then show ?thesis using that ix2(3) sc ix p(3) by (auto simp: st2_def)
    next
      case False
      then have "hm_lookup ix1 k = Some v" using that ix2(3) by simp
      then have "0 < sint k" "\<exists>b q. v = Some b \<and> tt_ptys st b = Some q \<and> pt_name q = k" using ttys_okD [OF st1(3,2)] st1(4) by auto
      then show ?thesis using fresh st1(4) by (auto simp: st2_def)
    qed
    then show ?thesis using ix2(2) by (simp add: ttys_ok_def st2_def)
  qed
  have "(of_nat (unat index) :: u64) = scast index"
  proof -
    have "uint index = take_bit 32 (sint index)" by (subst uint_sint) simp
    also have "\<dots> = sint index" using ix sint_less [of index] by (intro take_bit_int_eq_self) simp_all
    finally have "(of_int (uint index) :: u64) = of_int (sint index)" by (rule arg_cong)
    then show ?thesis by simp
  qed
  then have "finddir_pty (decimal (unat index)) st2 = Some (Some a)"
    using ix2 by (simp add: finddir_pty_def pty_number_decimal st2_def hashmap_get_spec)
  then show ?thesis using run ok2 p by (auto simp: st2_def)
qed


section \<open>Requests and faults\<close>

lemma ioctl_checked_total:
  assumes "pty_ok p" and "request = IOCTLTTYNAME \<Longrightarrow> fill_name p (io_name a) \<noteq> None"
  shows "\<exists>res a' p'. ioctl_checked fill_name request a p = Some (res, a', p') \<and> pty_ok p'"
proof -
  obtain q where q: "dump_input_buffer p = Some q" "moved p [] (map CallIn (line p)) q" using dump_moves [OF assms(1)] by blast
  have "pty_ok q" using moved_ok [OF q(2) assms(1)] by simp
  then show ?thesis using assms q(1) by (auto simp: ioctl_checked_def requests Let_def call_def pty_ok_def)
qed

lemma pty_ioctl_total:
  assumes ok: "pty_ok p"
  shows "if request = TCSETSF \<and> argp = None \<or> (\<exists>a. request = IOCTLTTYNAME \<and> argp = Some a \<and> fill_name p (io_name a) = None)
    then pty_ioctl fill_name cu request argp p = None
    else \<exists>res argp' p'. pty_ioctl fill_name cu request argp p = Some (res, argp', p') \<and> pty_ok p'"
proof -
  obtain q where q: "clear_input_buffer p = Some q" "moved p [] [] q" using clear_moves [OF ok] by blast
  have okq: "pty_ok q" using moved_ok [OF q(2) ok] by simp
  show ?thesis
  proof (cases "request = TCSETSF")
    case True
    then show ?thesis using q(1) okq by (cases argp) (auto simp: pty_ioctl_def requests call_def pty_ok_def)
  next
    case False
    show ?thesis
    proof (cases "\<exists>a. request = IOCTLTTYNAME \<and> argp = Some a \<and> fill_name p (io_name a) = None")
      case True
      then show ?thesis by (auto simp: pty_ioctl_def ioctl_checked_def requests)
    next
      case nn: False
      have "\<exists>res argp' p'. pty_ioctl fill_name cu request argp p = Some (res, argp', p') \<and> pty_ok p'"
      proof (cases argp)
        case None
        then show ?thesis using ok False by (simp add: pty_ioctl_def ioctl_sctty_def pty_ok_def split: prod.splits)
      next
        case (Some a)
        then obtain res a' p' where "ioctl_checked fill_name request a p = Some (res, a', p')" "pty_ok p'"
          using ioctl_checked_total [OF ok, of request fill_name a] nn by auto
        then show ?thesis using ok False Some by (simp add: pty_ioctl_def ioctl_sctty_def pty_ok_def split: prod.splits)
      qed
      then show ?thesis using False nn by (simp only: simp_thms if_False)
    qed
  qed
qed


lemma dump_from_ct: "dump_from i p = Some q \<Longrightarrow> pt_ct_proc q = pt_ct_proc p"
proof (induction i p rule: dump_from.induct)
  case (1 i p)
  show ?case using 1(2) 1(1) by (subst (asm) dump_from.simps) (auto simp: call_def split: if_splits)
qed

lemma clear_ct: "clear_input_buffer p = Some q \<Longrightarrow> pt_ct_proc q = pt_ct_proc p"
  by (auto simp: clear_input_buffer_def put_char_def split: if_splits)

lemma ioctl_checked_ct: "ioctl_checked fill_name request a p = Some (res, a', q) \<Longrightarrow> pt_ct_proc q = pt_ct_proc p"
  by (auto simp: ioctl_checked_def bind_eq_Some_conv call_def Let_def dump_input_buffer_def dest!: dump_from_ct split: if_splits)


section \<open>Properties\<close>

definition rings_example :: rings where
  "rings_example = \<lparr>pr_in = ring_buffer_create (replicate 16 0) 16, pr_out = ring_buffer_create (replicate 16 0) 16\<rparr>"

definition cur_example :: cur where
  "cur_example = \<lparr>cu_id = 7, cu_session = 5, cu_job = 7, cu_user = 1, cu_user_group = 1, cu_blocked_signals = 0, cu_handler = (\<lambda>i. 0)\<rparr>"

definition ttys_example :: ttys where
  "ttys_example = \<lparr>tt_counter = 0, tt_index = None, tt_ptys = Map.empty, tt_rings = Map.empty, tt_mounts = []\<rparr>"

definition ioarg_example :: ioarg where
  "ioarg_example = \<lparr>io_int = 0, io_winsize = pt_size pty_example, io_termios = tios_default\<lparr>c_lflag := 0\<rparr>, io_name = []\<rparr>"

definition listed_example :: ttys where
  "listed_example = ttys_example\<lparr>tt_counter := 1, tt_ptys := [0x1000 \<mapsto> pty_example],
     tt_index := Some \<lparr>hash_func = hashmap_int_hash, hash_comp = hashmap_int_comp, hm_size = 1, hm_entries = [[(1, Some 0x1000)]]\<rparr>\<rparr>"

lemma listed_example_ok: "ttys_ok listed_example"
  by (auto simp: ttys_ok_def listed_example_def hm_wf_def hm_lookup_def hm_slot_def hashmap_int_comp_eq pty_example_def split: if_splits)

lemma rings_example_ok: "rings_ok rings_example" "rb_contents (pr_in rings_example) = []" "rb_contents (pr_out rings_example) = []"
  "rb_room (pr_in rings_example) = 15" "rb_room (pr_out rings_example) = 15"
  using ring_buffer_create_ok [of 16 "replicate 16 0"] by (simp_all add: rings_example_def rings_ok_def rb_room_def ring_buffer_create_def)

text \<open>Property C14: what is typed at the master end of a terminal in line mode is what a foreground process reads at the slave end:
  the write consumes all of it, puts the echo into the output ring, and the next read returns, without sleeping, what
  the line discipline delivers behind what was there, up to the size asked for.\<close>

theorem typed_line_is_read:
  assumes "pty_ok p" and "lflag p ICANON" and "rings_ok r" and "\<not> background p cu" and "0 < sz"
    and "disciplines (pt_tios p) (pt_canon_bufsize p) (pt_fg_proc p) cs (pt_verbatim p) (line p) = (v, l, a)"
    and "length (in_bytes a) \<le> rb_room (pr_in r)" "length (out_bytes a) \<le> rb_room (pr_out r)"
    and "rb_contents (pr_in r) @ in_bytes a \<noteq> []"
  shows "\<exists>p' r' r''. write_pty_master self envs cs p r = Some (length cs, p', r') \<and>
    rb_contents (pr_out r') = rb_contents (pr_out r) @ out_bytes a \<and>
    read_pty_slave reader cu envs' sz p' r' = (Io (Returned (take (unat sz) (rb_contents (pr_in r) @ in_bytes a))), p', r'')"
  by (rule typed_read [OF assms])

theorem typed_line_is_read_witness:
  "\<exists>p' r' r''. write_pty_master 1 [] [97, 98, 0x7F, 99, 13] pty_example rings_example = Some (5, p', r') \<and>
     read_pty_slave 2 cur_example [] 100 p' r' = (Io (Returned [97, 99, 10]), p', r'')"
proof -
  have d: "disciplines tios_default 8 7 [97, 98, 0x7F, 99, 13] False [] =
      (False, [], map CallOut [97, 98, 8, 32, 8, 99, 10, 13] @ [CallIn 97, CallIn 99, CallIn 10])"
    by code_simp
  have ic: "flag_on (c_lflag tios_default) ICANON" by code_simp
  have "\<exists>p' r' r''. write_pty_master 1 [] [97, 98, 0x7F, 99, 13] pty_example rings_example = Some (length [97, 98, 0x7F, 99, 13 :: u8], p', r') \<and>
      rb_contents (pr_out r') = rb_contents (pr_out rings_example) @ out_bytes (map CallOut [97, 98, 8, 32, 8, 99, 10, 13] @ [CallIn 97, CallIn 99, CallIn 10]) \<and>
      read_pty_slave 2 cur_example [] 100 p' r' =
        (Io (Returned (take (unat (100 :: u64)) (rb_contents (pr_in rings_example) @ in_bytes (map CallOut [97, 98, 8, 32, 8, 99, 10, 13] @ [CallIn 97, CallIn 99, CallIn 10])))), p', r'')"
    by (rule typed_line_is_read [where v = False and l = "[]"])
      (use d ic pty_example_ok rings_example_ok in \<open>simp_all add: pty_example_def background_def cur_example_def del: disciplines.simps\<close>)
  then show ?thesis using rings_example_ok(2) by (auto simp del: disciplines.simps)
qed

text \<open>Fact: every name that the directory of terminals lists is found in it, and leads to the terminal whose number
  the listing gave.\<close>

theorem readdir_finddir_roundtrip:
  assumes "ttys_ok st" and "readdir_pty (i + 2) st = Some (Some (ino, name))" and "i < - 2"
  shows "\<exists>a p. finddir_pty name st = Some (Some a) \<and> tt_ptys st a = Some p \<and> pt_name p = ino"
  using assms by (rule readdir_names)

theorem readdir_finddir_roundtrip_witness:
  "readdir_pty 2 listed_example = Some (Some (1, [49])) \<and>
   (\<exists>a p. finddir_pty [49] listed_example = Some (Some a) \<and> tt_ptys listed_example a = Some p \<and> pt_name p = 1)"
proof -
  have d: "decimal (unat (1 :: u64)) = [49]" by (simp add: decimal.simps)
  obtain n buf where "snprintf (replicate 256 0) 100 (lit ''%zd'') [ArgInt 1] = Some (n, buf)" "cstring buf = Some [49]"
    using name_text [of 1, unfolded d] by auto
  then have "readdir_pty (0 + 2) listed_example = Some (Some (1, [49]))"
    by (simp add: readdir_pty_def listed_example_def hashmap_values_def pty_example_def)
  then show ?thesis using readdir_finddir_roundtrip [OF listed_example_ok, of 0 1 "[49]"] by (simp add: word_less_nat_alt)
qed

text \<open>Fact: a new terminal has an empty line in a sound line buffer, is found under its number, and leaves the
  index of terminals sound.\<close>

theorem pty_create_registers:
  assumes "ttys_ok st" and "tt_ptys st a = None" and "0 < sint (tt_counter st + 1)" and "length canon = 4096"
  shows "\<exists>st' p. pty_create a mem m_in m_out canon now cu sz st = Some (0, a, st') \<and> ttys_ok st' \<and> tt_ptys st' a = Some p \<and>
    pty_ok p \<and> line p = [] \<and> finddir_pty (decimal (unat (tt_counter st + 1))) st' = Some (Some a)"
proof -
  have "ttys_ok (st\<lparr>tt_counter := tt_counter st + 1\<rparr>)" "tt_ptys (st\<lparr>tt_counter := tt_counter st + 1\<rparr>) a = None"
    using assms(1,2) by (auto simp: ttys_ok_def split: option.splits)
  from pty_new_ok [OF this assms(3,4), of mem m_in m_out now cu sz] show ?thesis by (auto simp: pty_create_def)
qed

theorem pty_create_registers_witness:
  "\<exists>st' p. pty_create 0x1000 pty_example [] [] (replicate 4096 0) 0 cur_example None ttys_example = Some (0, 0x1000, st') \<and>
     tt_ptys st' 0x1000 = Some p \<and> pty_ok p \<and> finddir_pty [49] st' = Some (Some 0x1000)"
proof -
  have "decimal (unat (tt_counter ttys_example + 1)) = [49]" by (simp add: ttys_example_def decimal.simps)
  moreover have "ttys_ok ttys_example" "tt_ptys ttys_example 0x1000 = None" "0 < sint (tt_counter ttys_example + 1)"
    by (simp_all add: ttys_example_def ttys_ok_def)
  ultimately show ?thesis
    using pty_create_registers [where st = ttys_example and a = "0x1000" and canon = "replicate 4096 0" and mem = pty_example and m_in = "[]"
      and m_out = "[]" and now = 0 and cu = cur_example and sz = None] by auto
qed

text \<open>Fact: a request keeps the line buffer sound, and the only ways to fault are \<open>TCSETSF\<close> with a null pointer, which reads the
  settings from it, and a name that does not fit.\<close>

theorem pty_ioctl_faults:
  assumes "pty_ok p"
  shows "if request = TCSETSF \<and> argp = None \<or> (\<exists>a. request = IOCTLTTYNAME \<and> argp = Some a \<and> fill_name p (io_name a) = None)
    then pty_ioctl fill_name cu request argp p = None
    else \<exists>res argp' p'. pty_ioctl fill_name cu request argp p = Some (res, argp', p') \<and> pty_ok p'"
  using assms by (rule pty_ioctl_total)

theorem pty_ioctl_faults_witness: "pty_ioctl tty_fill_name cur_example TCSETSF None pty_example = None"
  using pty_ioctl_faults [OF pty_example_ok(1), of TCSETSF None tty_fill_name cur_example] by simp

text \<open>Fact: leaving line mode with \<open>TCSETS\<close> delivers the line typed so far, in order, and starts with an empty one.\<close>

theorem leaving_line_mode_delivers:
  assumes "pty_ok p" and "lflag p ICANON" and "\<not> flag_on (c_lflag (io_termios a)) ICANON"
  shows "\<exists>p'. pty_ioctl fill_name cu TCSETS (Some a) p = Some (0, Some a, p') \<and> pt_calls p' = pt_calls p @ map CallIn (line p) \<and>
    line p' = [] \<and> pt_tios p' = io_termios a"
proof -
  obtain q where q: "dump_input_buffer p = Some q" "moved p [] (map CallIn (line p)) q" using dump_moves [OF assms(1)] by blast
  then show ?thesis using assms moved_fields [OF q(2)] by (auto simp: pty_ioctl_def ioctl_checked_def requests line_def)
qed

theorem leaving_line_mode_delivers_witness:
  "\<exists>p'. pty_ioctl tty_fill_name cur_example TCSETS (Some ioarg_example) (pty_example\<lparr>pt_canon_buflen := 1\<rparr>) = Some (0, Some ioarg_example, p') \<and>
     pt_calls p' = [CallIn 0] \<and> line p' = []"
proof -
  let ?p = "pty_example\<lparr>pt_canon_buflen := 1\<rparr>"
  have "pty_ok ?p" "line ?p = [0]" by (simp_all add: pty_ok_def line_def pty_example_def)
  moreover have "lflag ?p ICANON" "\<not> flag_on (c_lflag (io_termios ioarg_example)) ICANON" by code_simp+
  ultimately show ?thesis using leaving_line_mode_delivers [of ?p ioarg_example tty_fill_name cur_example] by (auto simp: pty_example_def)
qed

text \<open>Fact: the controlling session of a terminal only ever changes to the caller's own, for a session leader, and from another
  session only for the root user who asks for it.\<close>

theorem controlling_session_guarded:
  assumes "pty_ioctl fill_name cu request argp p = Some (res, argp', p')" and "pt_ct_proc p' \<noteq> pt_ct_proc p"
  shows "request = TIOCSCTTY \<and> pt_ct_proc p' = cu_session cu \<and> cu_session cu = cu_id cu \<and>
    (pt_ct_proc p = 0 \<or> cu_user cu = 0 \<and> map_option io_int argp = Some 1)"
  using assms ioctl_checked_ct clear_ct unfolding pty_ioctl_def ioctl_sctty_def
  by (fastforce simp: bind_eq_Some_conv requests call_def split: if_splits option.splits)

theorem controlling_session_guarded_witness:
  "\<exists>p'. pty_ioctl tty_fill_name (cur_example\<lparr>cu_id := 5\<rparr>) TIOCSCTTY None pty_example = Some (0, None, p') \<and> pt_ct_proc p' = 5 \<and> pt_ct_proc pty_example = 0"
proof -
  have r: "pty_ioctl tty_fill_name (cur_example\<lparr>cu_id := 5\<rparr>) TIOCSCTTY None pty_example = Some (0, None, pty_example\<lparr>pt_ct_proc := 5\<rparr>)"
    by (simp add: pty_ioctl_def ioctl_sctty_def requests cur_example_def pty_example_def)
  then show ?thesis using controlling_session_guarded [OF r] by (simp add: pty_example_def)
qed

end
