(* ===== verification/Vfs_Path.thy ===== *)
theory Vfs_Path
  imports Kernel_String Kernel_Tree Vfs_Node
begin

text \<open>
  Paths, mount points and the lookup of files, \<open>kernel/vfs/vfs.c\<close>.  The mount table is a tree of
  \<open>Kernel_Tree\<close> whose values are the addresses of \<open>vfs_entry\<close> records.  A path that the code chops
  up in place is the list of its components.  The addresses that \<open>malloc\<close> will return are a list
  of the state; a run that would need more of them is \<^term>\<open>None\<close>, like a fault.
\<close>

section \<open>Canonical paths\<close>

abbreviation sep :: bytes where "sep \<equiv> [47]"

definition PATH_UP :: bytes where "PATH_UP = [46, 46]"
definition PATH_DOT :: bytes where "PATH_DOT = [46]"

definition canon_step :: "bytes list \<Rightarrow> bytes \<Rightarrow> bytes list" where
  "canon_step out pch =
     (if strcmp pch PATH_UP = 0 then butlast out
      else if strcmp pch PATH_DOT = 0 then out
      else out @ [pch])"

definition join :: "bytes list \<Rightarrow> bytes" where
  "join out = (if out = [] then [47] else concat (map (\<lambda>e. 47 # e) out))"

definition canonicalize_path :: "bytes \<Rightarrow> bytes \<Rightarrow> bytes" where
  "canonicalize_path cwd input =
     (let out = (if input \<noteq> [] \<and> hd input \<noteq> 47 then tokenize cwd sep else []);
          out = foldl canon_step out (tokenize input sep)
      in join out)"


text \<open>The last component of a nonempty path, as \<open>rename\<close> takes it.\<close>

fun skip_trailing :: "bytes \<Rightarrow> nat \<Rightarrow> nat" where
  "skip_trailing path 0 = 0"
| "skip_trailing path (Suc i) = (if path ! Suc i = 47 then skip_trailing path i else Suc i)"

fun find_slash :: "bytes \<Rightarrow> nat \<Rightarrow> nat" where
  "find_slash path 0 = 0"
| "find_slash path (Suc i) = (if path ! Suc i = 47 then Suc i + 1 else find_slash path i)"

definition fs_basename :: "bytes \<Rightarrow> bytes option" where
  "fs_basename path =
     (if path = [] then None
      else Some (dropWhile (\<lambda>c. c = 47) (drop (find_slash path (skip_trailing path (length path - 1))) path)))"


section \<open>The mount table\<close>

record vfs_entry =
  en_name :: bytes
  en_file :: ptr
  en_device :: bytes
  en_type :: bytes

record mounts =
  mt_tree :: tree
  mt_entries :: "ptr \<rightharpoonup> vfs_entry"
  mt_supply :: "ptr list"
  mt_fs_root :: ptr
  mt_vfs :: vfs

definition alloc :: "mounts \<Rightarrow> (ptr \<times> mounts) option" where
  "alloc m = (case mt_supply m of [] \<Rightarrow> None | a # as \<Rightarrow> Some (a, m\<lparr>mt_supply := as\<rparr>))"

definition ent_of :: "mounts \<Rightarrow> ptr \<Rightarrow> vfs_entry option" where
  "ent_of m node = do {
     n \<leftarrow> get_tn node (mt_tree m);
     if tn_value n = NULL then None else mt_entries m (tn_value n)
   }"

text \<open>The chopped path: the strings that follow each other in the buffer, up to its end.\<close>

function chop :: "bytes \<Rightarrow> bytes list" where
  "chop s = (if s = [] then [] else takeWhile (\<lambda>c. c \<noteq> 47) s # chop (tl (dropWhile (\<lambda>c. c \<noteq> 47) s)))"
  by auto
termination
proof (relation "measure length")
  fix s :: bytes assume s: "s \<noteq> []"
  have "length (tl d) < length s" if "length d \<le> length s" for d :: bytes
    using that s by (cases d) auto
  from this [OF length_dropWhile_le] show "(tl (dropWhile (\<lambda>c. c \<noteq> 47) s), s) \<in> measure length" by simp
qed simp

declare chop.simps [simp del]

definition vfs_install :: "ptr list \<Rightarrow> vfs \<Rightarrow> mounts option" where
  "vfs_install supply v =
     (case supply of
        e # a # supply \<Rightarrow> do {
          t \<leftarrow> tree_set_root a e (tree_create Map.empty);
          Some \<lparr>mt_tree = t,
                mt_entries = [e \<mapsto> \<lparr>en_name = [91, 114, 111, 111, 116, 93], en_file = NULL, en_device = [], en_type = []\<rparr>],
                mt_supply = supply, mt_fs_root = NULL, mt_vfs = v\<rparr>
        }
      | _ \<Rightarrow> None)"

text \<open>The search of the children for a name.\<close>

fun find_child :: "mounts \<Rightarrow> bytes \<Rightarrow> ptr list \<Rightarrow> ptr option option" where
  "find_child m at [] = Some None"
| "find_child m at (c # cs) = do {
     e \<leftarrow> ent_of m c;
     if strcmp (en_name e) at = 0 then Some (Some c) else find_child m at cs
   }"

fun mount_path :: "bytes list \<Rightarrow> ptr \<Rightarrow> mounts \<Rightarrow> (ptr \<times> mounts) option" where
  "mount_path [] node m = Some (node, m)"
| "mount_path (at # rest) node m = do {
     n \<leftarrow> get_tn node (mt_tree m);
     found \<leftarrow> find_child m at (tn_children n);
     case found of
       Some tchild \<Rightarrow> mount_path rest tchild m
     | None \<Rightarrow> do {
         (e, m) \<leftarrow> alloc m;
         let m = m\<lparr>mt_entries := (mt_entries m)(e \<mapsto>
                   \<lparr>en_name = at, en_file = NULL, en_device = [], en_type = []\<rparr>)\<rparr>;
         (a, m) \<leftarrow> alloc m;
         (a, t) \<leftarrow> tree_node_insert_child a node e (mt_tree m);
         mount_path rest a (m\<lparr>mt_tree := t\<rparr>)
       }
   }"

definition set_mounted :: "ptr \<Rightarrow> ptr \<Rightarrow> bytes \<Rightarrow> bytes \<Rightarrow> mounts \<Rightarrow> mounts option" where
  "set_mounted node file type options m = do {
     n \<leftarrow> get_tn node (mt_tree m);
     e \<leftarrow> ent_of m node;
     Some (m\<lparr>mt_entries := (mt_entries m)(tn_value n \<mapsto>
            e\<lparr>en_file := file, en_device := options, en_type := type\<rparr>)\<rparr>)
   }"

text \<open>The result is the tree node of the mount point, or null for a path that is not absolute.\<close>

definition vfs_mount :: "bytes option \<Rightarrow> ptr \<Rightarrow> bytes \<Rightarrow> bytes \<Rightarrow> mounts \<Rightarrow> (ptr \<times> mounts) option" where
  "vfs_mount path local_root type options m =
     (case path of
        None \<Rightarrow> Some (NULL, m)
      | Some path \<Rightarrow>
          if path = [] \<or> hd path \<noteq> 47 then Some (NULL, m)
          else do {
            v \<leftarrow> vfs_lock local_root (mt_vfs m);
            let m = m\<lparr>mt_vfs := v\<rparr>;
            let root_node = tr_root (mt_tree m);
            if tl path = [] \<or> hd (tl path) = 47 then do {
              m \<leftarrow> set_mounted root_node local_root type options m;
              Some (root_node, m\<lparr>mt_fs_root := local_root\<rparr>)
            } else do {
              (node, m) \<leftarrow> mount_path (chop (tl path)) root_node m;
              m \<leftarrow> set_mounted node local_root type options m;
              Some (node, m)
            }
          })"

text \<open>
  The registered file systems are callbacks from an argument and a mount point to a node; the
  result \<open>1\<close> stands for a callback that has mounted things itself.
\<close>

type_synonym fs_types = "bytes \<rightharpoonup> (bytes \<Rightarrow> bytes \<Rightarrow> ptr)"

definition vfs_register :: "bytes \<Rightarrow> (bytes \<Rightarrow> bytes \<Rightarrow> ptr) \<Rightarrow> fs_types \<Rightarrow> int \<times> fs_types" where
  "vfs_register name callback types =
     (if types name \<noteq> None then (1, types) else (0, types(name \<mapsto> callback)))"

definition vfs_mount_type :: "fs_types \<Rightarrow> bytes \<Rightarrow> bytes \<Rightarrow> bytes option \<Rightarrow> mounts \<Rightarrow> (int \<times> mounts) option" where
  "vfs_mount_type types type arg mountpoint m =
     (case types type of
        None \<Rightarrow> Some (-19, m)
      | Some t \<Rightarrow>
          let n = t arg (case mountpoint of None \<Rightarrow> [] | Some p \<Rightarrow> p) in
          if n = 1 then Some (0, m)
          else if n = NULL then Some (-22, m)
          else do {
            (node, m) \<leftarrow> vfs_mount mountpoint n type arg m;
            Some (if node = NULL then -22 else 0, m)
          })"

text \<open>
  \<open>get_mount_point\<close>: the file mounted deepest along the path, the depth of that mount and the
  components below it.  The source returns a copy of the file's node with a zero count.
\<close>

fun mount_walk :: "mounts \<Rightarrow> ptr \<Rightarrow> bytes list \<Rightarrow> nat \<Rightarrow> ptr \<times> nat \<times> bytes list \<Rightarrow> (ptr \<times> nat \<times> bytes list) option" where
  "mount_walk m node [] depth best = Some best"
| "mount_walk m node (at # rest) depth best = do {
     n \<leftarrow> get_tn node (mt_tree m);
     found \<leftarrow> find_child m at (tn_children n);
     case found of
       None \<Rightarrow> Some best
     | Some tchild \<Rightarrow> do {
         e \<leftarrow> ent_of m tchild;
         mount_walk m tchild rest (depth + 1) (if en_file e \<noteq> NULL then (en_file e, depth, rest) else best)
       }
   }"

definition get_mount_point :: "bytes list \<Rightarrow> mounts \<Rightarrow> (ptr \<times> nat \<times> bytes list) option" where
  "get_mount_point comps m = mount_walk m (tr_root (mt_tree m)) comps 1 (mt_fs_root m, 0, comps)"


section \<open>Opening a path\<close>

definition O_NOFOLLOW :: u64 where "O_NOFOLLOW = 0x1000"
definition O_PATH :: u64 where "O_PATH = 0x2000"
definition MAX_SYMLINK_DEPTH :: nat where "MAX_SYMLINK_DEPTH = 8"

text \<open>
  What the file systems answer: whether a node is a symbolic link, the target of a link (or an
  error), whether the caller may search a directory, and the entry of a directory.
\<close>

record fsys =
  fy_symlink :: "ptr \<Rightarrow> bool"
  fy_readlink :: "ptr \<Rightarrow> bytes option"
  fy_search :: "ptr \<Rightarrow> bool"
  fy_finddir :: "ptr \<Rightarrow> bytes \<Rightarrow> ptr"

text \<open>
  \<open>budget\<close> is \<open>MAX_SYMLINK_DEPTH - symlink_depth\<close>.  The loop is on the components that are left;
  \<open>comps\<close> is the whole path.  The result is the node that was opened, or null.
\<close>

definition refuse_link :: "u64 \<Rightarrow> nat \<Rightarrow> nat \<Rightarrow> nat \<Rightarrow> bool" where
  "refuse_link flags depth path_depth budget \<longleftrightarrow>
     (flags AND O_NOFOLLOW \<noteq> 0 \<and> depth + 1 = path_depth) \<or> budget = 0"

function (sequential) kopen_recur :: "fsys \<Rightarrow> mounts \<Rightarrow> bytes \<Rightarrow> u64 \<Rightarrow> nat \<Rightarrow> bytes \<Rightarrow> ptr option"
  and kopen_loop :: "fsys \<Rightarrow> mounts \<Rightarrow> u64 \<Rightarrow> nat \<Rightarrow> bytes list \<Rightarrow> ptr \<Rightarrow> nat \<Rightarrow> bytes list \<Rightarrow> ptr option" where
  "kopen_recur fy m filename flags budget relative_to =
     (let path = canonicalize_path relative_to filename in
      if length path = 1 then if mt_fs_root m = NULL then None else Some (mt_fs_root m)
      else do {
        let comps = chop (tl path);
        (node_ptr, depth, rest) \<leftarrow> get_mount_point comps m;
        if node_ptr = NULL then Some NULL
        else kopen_loop fy m flags budget comps node_ptr depth rest
      })"
| "kopen_loop fy m flags budget comps node_ptr depth rest =
     (let path_depth = length comps;
          is_link = fy_symlink fy node_ptr \<and>
            \<not> (flags AND O_NOFOLLOW \<noteq> 0 \<and> flags AND O_PATH \<noteq> 0 \<and> depth = path_depth)
      in do {
        node_ptr \<leftarrow>
          (if is_link then
             if refuse_link flags depth path_depth budget then Some NULL
             else case fy_readlink fy node_ptr of
               None \<Rightarrow> Some NULL
             | Some target \<Rightarrow>
                 kopen_recur fy m target 0 (budget - 1) (concat (map (\<lambda>e. 47 # e) (take (depth - 1) comps)))
           else Some node_ptr);
        if node_ptr = NULL then Some NULL
        else case rest of
          [] \<Rightarrow> Some node_ptr
        | at # rest' \<Rightarrow>
            if \<not> fy_search fy node_ptr then Some NULL
            else let next = fy_finddir fy node_ptr at
                 in if next = NULL then Some NULL
                    else kopen_loop fy m flags budget comps next (depth + 1) rest'
      })"
  by pat_completeness auto
termination
  by (relation "inv_image (less_than <*lex*> less_than <*lex*> less_than)
       (case_sum (\<lambda>(_, _, _, _, b, _). (b, 1, 0)) (\<lambda>(_, _, _, b, _, _, _, rest). (b, 0, length rest)))")
     (auto simp: refuse_link_def)

declare kopen_recur.simps [simp del] kopen_loop.simps [simp del]

definition kopen :: "fsys \<Rightarrow> mounts \<Rightarrow> bytes \<Rightarrow> bytes \<Rightarrow> u64 \<Rightarrow> ptr option" where
  "kopen fy m wd_name filename flags = kopen_recur fy m filename flags MAX_SYMLINK_DEPTH wd_name"


section \<open>What canonical paths are\<close>

lemma strcmp_eq_0 [simp]: "strcmp a b = 0 \<longleftrightarrow> a = b"
  by (induction a b rule: strcmp.induct) (auto intro: signed_word_eqI)

definition plain :: "bytes \<Rightarrow> bool" where
  "plain e \<longleftrightarrow> e \<noteq> [] \<and> 47 \<notin> set e"

definition proper :: "bytes \<Rightarrow> bool" where
  "proper e \<longleftrightarrow> plain e \<and> e \<noteq> PATH_UP \<and> e \<noteq> PATH_DOT"

lemma fields_append: "47 \<notin> set e \<Longrightarrow> str_fields sep cur (e @ s) = str_fields sep (cur @ e) s"
  by (induction e arbitrary: cur) auto

lemma fields_join:
  "\<forall>e \<in> set out. plain e \<Longrightarrow>
   str_fields sep cur (concat (map (\<lambda>e. 47 # e) out)) = (if cur = [] then out else cur # out)"
  by (induction out arbitrary: cur) (auto simp: fields_append plain_def)

lemma tokenize_join: "\<forall>e \<in> set out. plain e \<Longrightarrow> tokenize (join out) sep = out"
  using fields_join [of out "[]"] by (auto simp: join_def tokenize_fields_eq)

lemma tokenize_plain: "e \<in> set (tokenize s sep) \<Longrightarrow> plain e"
  using fields_free [of "[]" sep e s] by (simp add: tokenize_fields_eq plain_def)

lemma canon_proper:
  "\<forall>e \<in> set out. proper e \<Longrightarrow> \<forall>t \<in> set ts. plain t \<Longrightarrow> \<forall>e \<in> set (foldl canon_step out ts). proper e"
proof (induction ts arbitrary: out)
  case (Cons t ts)
  have "\<forall>e \<in> set (canon_step out t). proper e"
    using Cons.prems by (auto simp: canon_step_def proper_def dest: in_set_butlastD)
  then show ?case using Cons.IH [of "canon_step out t"] Cons.prems(2) by simp
qed simp

lemma canon_id: "\<forall>t \<in> set ts. proper t \<Longrightarrow> foldl canon_step out ts = out @ ts"
  by (induction ts arbitrary: out) (auto simp: canon_step_def proper_def)

lemma canonicalize_join:
  assumes "\<forall>e \<in> set out. proper e"
  shows "canonicalize_path cwd (join out) = join out"
proof -
  have "tokenize (join out) sep = out" using assms by (intro tokenize_join) (auto simp: proper_def)
  moreover have "join out \<noteq> []" "hd (join out) = 47" by (cases out; simp add: join_def)+
  ultimately show ?thesis using canon_id [OF assms, of "[]"] by (simp add: canonicalize_path_def)
qed

lemma canonicalize_spec:
  assumes "\<forall>e \<in> set (tokenize cwd sep). proper e"
  obtains out where "canonicalize_path cwd input = join out" and "\<forall>e \<in> set out. proper e"
    and "out = foldl canon_step (if input \<noteq> [] \<and> hd input \<noteq> 47 then tokenize cwd sep else []) (tokenize input sep)"
proof -
  let ?base = "if input \<noteq> [] \<and> hd input \<noteq> 47 then tokenize cwd sep else []"
  have "\<forall>e \<in> set (foldl canon_step ?base (tokenize input sep)). proper e"
    using assms tokenize_plain by (intro canon_proper) auto
  then show thesis using that by (simp add: canonicalize_path_def Let_def)
qed

lemma chop_append: "47 \<notin> set e \<Longrightarrow> e \<noteq> [] \<Longrightarrow> chop (e @ 47 # s) = e # chop s"
proof -
  assume e: "47 \<notin> set e" "e \<noteq> []"
  have "takeWhile (\<lambda>c. c \<noteq> 47) (e @ 47 # s) = e" "dropWhile (\<lambda>c. c \<noteq> 47) (e @ 47 # s) = 47 # s"
    using e(1) by (induction e) auto
  then show ?thesis using e(2) by (subst chop.simps) simp
qed

lemma chop_last: "47 \<notin> set e \<Longrightarrow> e \<noteq> [] \<Longrightarrow> chop e = [e]"
proof -
  assume e: "47 \<notin> set e" "e \<noteq> []"
  have "takeWhile (\<lambda>c. c \<noteq> 47) e = e" "dropWhile (\<lambda>c. c \<noteq> 47) e = []" using e(1) by (induction e) auto
  moreover have "chop [] = []" by (subst chop.simps) simp
  ultimately show ?thesis using e(2) by (simp add: chop.simps [of e] del: dropWhile_eq_Nil_conv takeWhile_eq_all_conv)
qed

lemma chop_join: "\<forall>e \<in> set out. plain e \<Longrightarrow> out \<noteq> [] \<Longrightarrow> chop (tl (join out)) = out"
proof (induction out)
  case (Cons e out)
  show ?case
  proof (cases out)
    case Nil
    then show ?thesis using Cons.prems chop_last [of e] by (simp add: join_def plain_def)
  next
    case (Cons f fs)
    have "tl (join (e # out)) = e @ 47 # tl (join out)" using Cons by (simp add: join_def)
    then show ?thesis using Cons.IH Cons.prems Cons chop_append [of e] by (auto simp: plain_def)
  qed
qed simp

lemma length_join: "\<forall>e \<in> set out. plain e \<Longrightarrow> length (join out) = 1 \<longleftrightarrow> out = []"
  by (cases out) (auto simp: join_def plain_def)

text \<open>The last component keeps the slashes that follow it.\<close>

lemma find_slash_none: "\<forall>j \<in> {1..i}. path ! j \<noteq> 47 \<Longrightarrow> find_slash path i = 0"
  by (induction i) auto

lemma find_slash_at: "i \<ge> j \<Longrightarrow> 0 < j \<Longrightarrow> path ! j = 47 \<Longrightarrow> \<forall>k \<in> {j<..i}. path ! k \<noteq> 47 \<Longrightarrow> find_slash path i = j + 1"
proof (induction i)
  case (Suc i)
  then show ?case by (cases "j = Suc i") auto
qed simp

lemma skip_trailing_at: "i \<ge> j \<Longrightarrow> path ! j \<noteq> 47 \<Longrightarrow> \<forall>k \<in> {j<..i}. path ! k = 47 \<Longrightarrow> skip_trailing path i = j"
proof (induction i)
  case (Suc i)
  then show ?case by (cases "j = Suc i") auto
qed simp

lemma fs_basename_spec:
  assumes "plain name" and "dir \<noteq> []"
  shows "fs_basename (dir @ 47 # name @ replicate k 47) = Some (name @ replicate k 47)"
proof -
  let ?p = "dir @ 47 # name @ replicate k 47"
  let ?d = "length dir" and ?n = "length name"
  have n: "0 < ?n" using assms(1) by (simp add: plain_def)
  have at: "?p ! ?d = 47" "\<And>i. i < ?n \<Longrightarrow> ?p ! (?d + 1 + i) = name ! i"
      "\<And>i. i < k \<Longrightarrow> ?p ! (?d + 1 + ?n + i) = 47"
    by (simp_all add: nth_append)
  have nm: "name ! i \<noteq> 47" if "i < ?n" for i using assms(1) that by (auto simp: plain_def in_set_conv_nth)
  have l: "length ?p - 1 = ?d + ?n + k" by simp
  have "skip_trailing ?p (?d + ?n + k) = ?d + ?n"
  proof (rule skip_trailing_at)
    show "?p ! (?d + ?n) \<noteq> 47" using at(2) [of "?n - 1"] nm [of "?n - 1"] n by (simp add: Suc_diff_1)
    show "\<forall>j \<in> {?d + ?n<..?d + ?n + k}. ?p ! j = 47"
    proof
      fix j assume "j \<in> {?d + ?n<..?d + ?n + k}"
      then have "j = ?d + 1 + ?n + (j - (?d + 1 + ?n))" "j - (?d + 1 + ?n) < k" by auto
      then show "?p ! j = 47" using at(3) by metis
    qed
  qed simp
  moreover have "find_slash ?p (?d + ?n) = ?d + 1"
  proof (rule find_slash_at)
    show "\<forall>j \<in> {?d<..?d + ?n}. ?p ! j \<noteq> 47"
    proof
      fix j assume "j \<in> {?d<..?d + ?n}"
      then have "j = ?d + 1 + (j - (?d + 1))" "j - (?d + 1) < ?n" by auto
      then show "?p ! j \<noteq> 47" using at(2) nm by metis
    qed
  qed (use at(1) assms(2) in simp_all)
  moreover have "dropWhile (\<lambda>c. c = 47) (name @ replicate k 47) = name @ replicate k 47"
    using assms(1) by (cases name) (auto simp: plain_def)
  ultimately show ?thesis using l by (simp add: fs_basename_def add.assoc)
qed

section \<open>What the mount table holds\<close>

text \<open>One step down by name, and the node that a list of names leads to.\<close>

definition step_down :: "mounts \<Rightarrow> ptr \<Rightarrow> bytes \<Rightarrow> ptr option" where
  "step_down m node at =
     (case get_tn node (mt_tree m) of None \<Rightarrow> None
      | Some n \<Rightarrow> List.find (\<lambda>c. case ent_of m c of None \<Rightarrow> False | Some e \<Rightarrow> en_name e = at) (tn_children n))"

fun resolve :: "mounts \<Rightarrow> ptr \<Rightarrow> bytes list \<Rightarrow> ptr option" where
  "resolve m node [] = Some node"
| "resolve m node (at # rest) = (case step_down m node at of None \<Rightarrow> None | Some c \<Rightarrow> resolve m c rest)"

text \<open>What the table promises: the file mounted at a path, or null.\<close>

definition node_file :: "mounts \<Rightarrow> ptr \<Rightarrow> ptr" where
  "node_file m n = (case ent_of m n of None \<Rightarrow> NULL | Some e \<Rightarrow> en_file e)"

definition file_at :: "mounts \<Rightarrow> bytes list \<Rightarrow> ptr" where
  "file_at m q = (case resolve m (tr_root (mt_tree m)) q of None \<Rightarrow> NULL | Some n \<Rightarrow> node_file m n)"

definition mount_inv :: "mounts \<Rightarrow> bool" where
  "mount_inv m \<longleftrightarrow>
     tree_inv (mt_tree m) \<and>
     (\<forall>p n. tr_store (mt_tree m) p = Some n \<longrightarrow> tn_value n \<noteq> NULL \<and> mt_entries m (tn_value n) \<noteq> None) \<and>
     (\<forall>p q n k. tr_store (mt_tree m) p = Some n \<and> tr_store (mt_tree m) q = Some k \<and> tn_value n = tn_value k \<longrightarrow> p = q) \<and>
     distinct (mt_supply m) \<and>
     (\<forall>a \<in> set (mt_supply m). a \<noteq> NULL \<and> tr_store (mt_tree m) a = None \<and> mt_entries m a = None)"

lemma mount_inv_node:
  assumes "mount_inv m" and "tr_store (mt_tree m) p = Some n"
  obtains e where "ent_of m p = Some e" and "mt_entries m (tn_value n) = Some e" and "tn_value n \<noteq> NULL"
    and "get_tn p (mt_tree m) = Some n"
proof -
  have t: "tree_inv (mt_tree m)" using assms(1) by (simp add: mount_inv_def)
  have g: "get_tn p (mt_tree m) = Some n" by (rule tree_inv_node(2) [OF t assms(2)])
  have "\<forall>p n. tr_store (mt_tree m) p = Some n \<longrightarrow> tn_value n \<noteq> NULL \<and> mt_entries m (tn_value n) \<noteq> None"
    using assms(1) unfolding mount_inv_def by (elim conjE)
  then have "tn_value n \<noteq> NULL \<and> mt_entries m (tn_value n) \<noteq> None" using assms(2) by simp
  then obtain e where "mt_entries m (tn_value n) = Some e" "tn_value n \<noteq> NULL" by auto
  then show thesis using that g by (simp add: ent_of_def)
qed

lemma mount_inv_child:
  assumes "mount_inv m" and "tr_store (mt_tree m) p = Some n" and "c \<in> set (tn_children n)"
  obtains k where "tr_store (mt_tree m) c = Some k" and "tn_parent k = p"
  using tree_inv_node(4) [of "mt_tree m" p n c] assms that by (auto simp: mount_inv_def)

lemma find_child_eq:
  "(\<And>c. c \<in> set cs \<Longrightarrow> ent_of m c \<noteq> None) \<Longrightarrow>
   find_child m at cs = Some (List.find (\<lambda>c. case ent_of m c of None \<Rightarrow> False | Some e \<Rightarrow> en_name e = at) cs)"
proof (induction cs)
  case (Cons c cs)
  obtain e where "ent_of m c = Some e" using Cons.prems [of c] by auto
  then show ?case using Cons by simp
qed simp

lemma find_child_step:
  assumes "mount_inv m" and "tr_store (mt_tree m) p = Some n"
  shows "find_child m at (tn_children n) = Some (step_down m p at)"
proof -
  have "ent_of m c \<noteq> None" if c: "c \<in> set (tn_children n)" for c
  proof -
    obtain k where "tr_store (mt_tree m) c = Some k" by (rule mount_inv_child [OF assms c])
    then show ?thesis using mount_inv_node [OF assms(1)] by (metis option.distinct(1))
  qed
  moreover have "get_tn p (mt_tree m) = Some n" using mount_inv_node [OF assms] by metis
  ultimately show ?thesis by (simp add: find_child_eq step_down_def)
qed

lemma step_downD:
  assumes "mount_inv m" and "step_down m p at = Some c"
  obtains k e where "tr_store (mt_tree m) c = Some k" and "tn_parent k = p" and "ent_of m c = Some e"
    and "en_name e = at" and "p \<noteq> NULL"
proof -
  obtain n where n: "get_tn p (mt_tree m) = Some n"
    using assms(2) by (auto simp: step_down_def split: option.splits)
  then have np: "p \<noteq> NULL" "tr_store (mt_tree m) p = Some n" by (auto simp: get_tn_def split: if_splits)
  have c: "c \<in> set (tn_children n)" "\<exists>e. ent_of m c = Some e \<and> en_name e = at"
    using assms(2) n by (auto simp: step_down_def find_Some_iff split: option.splits)
  obtain k where "tr_store (mt_tree m) c = Some k" "tn_parent k = p" by (rule mount_inv_child [OF assms(1) np(2) c(1)])
  then show thesis using that c(2) np(1) by blast
qed

lemma resolve_snoc:
  "resolve m r (q @ [c]) = (case resolve m r q of None \<Rightarrow> None | Some p \<Rightarrow> step_down m p c)"
  by (induction q arbitrary: r) (auto split: option.splits)

lemma resolve_append:
  "resolve m r (q @ w) = (case resolve m r q of None \<Rightarrow> None | Some p \<Rightarrow> resolve m p w)"
  by (induction q arbitrary: r) (auto split: option.splits)

lemma resolve_in_tree:
  assumes "mount_inv m" and "resolve m (tr_root (mt_tree m)) q = Some p"
  shows "tr_store (mt_tree m) p \<noteq> None"
proof (cases q rule: rev_cases)
  case Nil
  then show ?thesis using assms by (auto simp: mount_inv_def tree_inv_def)
next
  case (snoc w c)
  then obtain k where "step_down m k c = Some p" using assms(2) by (auto simp: resolve_snoc split: option.splits)
  then show ?thesis using step_downD [OF assms(1)] by (metis option.distinct(1))
qed

text \<open>Different names lead to different nodes.\<close>

lemma resolve_inj:
  assumes inv: "mount_inv m"
  shows "resolve m (tr_root (mt_tree m)) q = Some p \<Longrightarrow> resolve m (tr_root (mt_tree m)) w = Some p \<Longrightarrow> q = w"
proof (induction q arbitrary: w p rule: rev_induct)
  case Nil
  have t: "tree_inv (mt_tree m)" using inv by (simp add: mount_inv_def)
  show ?case
  proof (cases w rule: rev_cases)
    case (snoc v c)
    then obtain k where k: "step_down m k c = Some p" using Nil by (auto simp: resolve_snoc split: option.splits)
    obtain n where n: "tr_store (mt_tree m) p = Some n" "tn_parent n = k" "k \<noteq> NULL"
      using step_downD [OF inv k] by metis
    have "p = tr_root (mt_tree m)" using Nil(1) by simp
    then show ?thesis using tree_inv_node(6) [OF t n(1)] n(2,3) by simp
  qed simp
next
  case (snoc c q)
  have t: "tree_inv (mt_tree m)" using inv by (simp add: mount_inv_def)
  obtain k where k: "resolve m (tr_root (mt_tree m)) q = Some k" "step_down m k c = Some p"
    using snoc.prems(1) by (auto simp: resolve_snoc split: option.splits)
  obtain n e where n: "tr_store (mt_tree m) p = Some n" "tn_parent n = k" "ent_of m p = Some e" "en_name e = c" "k \<noteq> NULL"
    using step_downD [OF inv k(2)] by metis
  show ?case
  proof (cases w rule: rev_cases)
    case Nil
    then have "p = tr_root (mt_tree m)" using snoc.prems(2) by simp
    then show ?thesis using tree_inv_node(6) [OF t n(1)] n(2,5) by simp
  next
    case w: (snoc v d)
    then obtain k' where k': "resolve m (tr_root (mt_tree m)) v = Some k'" "step_down m k' d = Some p"
      using snoc.prems(2) by (auto simp: resolve_snoc split: option.splits)
    obtain n' e' where "tr_store (mt_tree m) p = Some n'" "tn_parent n' = k'" "ent_of m p = Some e'" "en_name e' = d"
      using step_downD [OF inv k'(2)] by metis
    then have "k' = k" "d = c" using n by simp_all
    then show ?thesis using snoc.IH [OF k(1)] k'(1) w by simp
  qed
qed

text \<open>A new leaf for a name that was not there.\<close>

lemma new_leaf:
  assumes inv: "mount_inv m" and N: "tr_store (mt_tree m) node = Some N" and no: "step_down m node at = None"
    and sup: "mt_supply m = e # a # rest"
  defines "E \<equiv> \<lparr>en_name = at, en_file = NULL, en_device = [], en_type = []\<rparr>"
  obtains t where "tree_node_insert_child a node e (mt_tree m) = Some (a, t)"
    and "tr_root t = tr_root (mt_tree m)"
    and "mount_inv (m\<lparr>mt_supply := rest, mt_entries := (mt_entries m)(e \<mapsto> E), mt_tree := t\<rparr>)"
    and "\<And>p. tr_store (mt_tree m) p \<noteq> None \<Longrightarrow>
        ent_of (m\<lparr>mt_supply := rest, mt_entries := (mt_entries m)(e \<mapsto> E), mt_tree := t\<rparr>) p = ent_of m p"
    and "ent_of (m\<lparr>mt_supply := rest, mt_entries := (mt_entries m)(e \<mapsto> E), mt_tree := t\<rparr>) a = Some E"
    and "\<And>p c. p \<noteq> a \<Longrightarrow>
        step_down (m\<lparr>mt_supply := rest, mt_entries := (mt_entries m)(e \<mapsto> E), mt_tree := t\<rparr>) p c =
          (if p = node \<and> c = at then Some a else step_down m p c)"
    and "\<And>c. step_down (m\<lparr>mt_supply := rest, mt_entries := (mt_entries m)(e \<mapsto> E), mt_tree := t\<rparr>) a c = None"
    and "tr_store (mt_tree m) a = None" and "a \<noteq> NULL"
proof -
  have ti: "tree_inv (mt_tree m)" using inv by (simp add: mount_inv_def)
  have fresh: "a \<noteq> NULL" "tr_store (mt_tree m) a = None" "e \<noteq> NULL" "mt_entries m e = None" "mt_entries m a = None"
      "tr_store (mt_tree m) e = None" "e \<noteq> a" "e \<notin> set rest" "a \<notin> set rest"
    using inv sup by (auto simp: mount_inv_def)
  obtain t where t: "tree_node_insert_child a node e (mt_tree m) = Some (a, t)" "tree_inv t"
      "tr_root t = tr_root (mt_tree m)"
      "tr_store t = (tr_store (mt_tree m))(node \<mapsto> N\<lparr>tn_children := tn_children N @ [a]\<rparr>,
         a \<mapsto> \<lparr>tn_value = e, tn_children = [], tn_parent = node\<rparr>)"
    using tree_node_insert_child_spec [OF ti N fresh(1,2)] by blast
  let ?m = "m\<lparr>mt_supply := rest, mt_entries := (mt_entries m)(e \<mapsto> E), mt_tree := t\<rparr>"
  have na: "node \<noteq> a" "node \<noteq> NULL" using N fresh(2) tree_inv_node(1) [OF ti N] by auto
  have val: "tn_value n \<noteq> e" if "tr_store (mt_tree m) p = Some n" for p n
    using mount_inv_node [OF inv that] fresh(4) by (metis option.distinct(1))
  have ent: "ent_of ?m p = ent_of m p" if "tr_store (mt_tree m) p \<noteq> None" for p
  proof -
    from that obtain n where n: "tr_store (mt_tree m) p = Some n" by auto
    then have "p \<noteq> a" "p \<noteq> NULL" "tn_value n \<noteq> e" using fresh(2) tree_inv_node(1) [OF ti n] val [OF n] by auto
    then show ?thesis using n N t(4) by (auto simp: ent_of_def get_tn_def)
  qed
  have enta: "ent_of ?m a = Some E" using t(4) fresh(1,3) by (simp add: ent_of_def get_tn_def)
  have kids: "tr_store (mt_tree m) c \<noteq> None" if "tr_store (mt_tree m) p = Some n" "c \<in> set (tn_children n)" for p n c
    using tree_inv_node(4) [OF ti that] by auto
  have same: "List.find (\<lambda>c. case ent_of ?m c of None \<Rightarrow> False | Some e \<Rightarrow> en_name e = x) (tn_children n) =
      List.find (\<lambda>c. case ent_of m c of None \<Rightarrow> False | Some e \<Rightarrow> en_name e = x) (tn_children n)"
    if "tr_store (mt_tree m) p = Some n" for p n x
    using kids [OF that] ent by (intro find_cong refl) simp
  have sd: "step_down ?m p c = (if p = node \<and> c = at then Some a else step_down m p c)" if "p \<noteq> a" for p c
  proof (cases "tr_store (mt_tree m) p")
    case None
    then show ?thesis using that N t(4) by (auto simp: step_down_def get_tn_def)
  next
    case (Some n)
    have pz: "p \<noteq> NULL" using tree_inv_node(1) [OF ti Some] .
    show ?thesis
    proof (cases "p = node")
      case False
      then show ?thesis using Some that pz t(4) same [OF Some] by (simp add: step_down_def get_tn_def)
    next
      case True
      then have [simp]: "n = N" using Some N by simp
      have fa: "List.find P (xs @ [a]) = (case List.find P xs of Some y \<Rightarrow> Some y | None \<Rightarrow> if P a then Some a else None)"
        for P and xs :: "ptr list"
        by (induction xs) auto
      have g: "get_tn p t = Some (N\<lparr>tn_children := tn_children N @ [a]\<rparr>)" "get_tn p (mt_tree m) = Some N"
        using True na t(4) N by (simp_all add: get_tn_def)
      have "step_down ?m p c = (case step_down m p c of Some y \<Rightarrow> Some y | None \<Rightarrow> if at = c then Some a else None)"
        using g same [OF N, of c] enta by (simp add: step_down_def fa E_def)
      then show ?thesis using True no by (auto split: option.splits)
    qed
  qed
  have sa: "step_down ?m a c = None" for c
    using t(4) fresh(1) by (simp add: step_down_def get_tn_def)
  have "mount_inv ?m"
  proof -
    have old: "\<exists>n'. tr_store (mt_tree m) p = Some n' \<and> tn_value n' = tn_value n" if "p \<noteq> a" "tr_store t p = Some n" for p n
      using that t(4) N by (auto split: if_splits)
    have "tn_value n \<noteq> NULL \<and> mt_entries ?m (tn_value n) \<noteq> None" if st: "tr_store t p = Some n" for p n
    proof (cases "p = a")
      case True
      then show ?thesis using that t(4) fresh(3) by auto
    next
      case False
      obtain n' where n': "tr_store (mt_tree m) p = Some n'" "tn_value n' = tn_value n" using old [OF False st] by auto
      show ?thesis by (rule mount_inv_node [OF inv n'(1)]) (simp add: n'(2) [symmetric])
    qed
    moreover have "p = q" if "tr_store t p = Some n" "tr_store t q = Some k" "tn_value n = tn_value k" for p q n k
    proof -
      have new: "tn_value n = e" if "tr_store t a = Some n" for n using that t(4) by auto
      have "tn_value n' = tn_value k' \<Longrightarrow> tr_store (mt_tree m) p = Some n' \<Longrightarrow> tr_store (mt_tree m) q = Some k' \<Longrightarrow> p = q" for n' k'
        using inv unfolding mount_inv_def by blast
      then show ?thesis using that old new val by metis
    qed
    moreover have "distinct rest \<and> (\<forall>b \<in> set rest. b \<noteq> NULL \<and> tr_store t b = None \<and> mt_entries ?m b = None)"
      using inv sup fresh(8,9) t(4) N by (auto simp: mount_inv_def)
    ultimately show ?thesis unfolding mount_inv_def using t(2) by auto
  qed
  then show thesis by (intro that [OF t(1,3) _ ent enta sd sa fresh(2,1)])
qed

lemma resolve_new_leaf:
  assumes sd: "\<And>p c. p \<noteq> a \<Longrightarrow> step_down m' p c = (if p = node \<and> c = at then Some a else step_down m p c)"
    and sa: "\<And>c. step_down m' a c = None"
    and inv: "mount_inv m" and pre: "resolve m (tr_root (mt_tree m)) pre = Some node"
    and no: "step_down m node at = None" and a: "tr_store (mt_tree m) a = None"
  shows "resolve m' (tr_root (mt_tree m)) q =
    (if q = pre @ [at] then Some a else resolve m (tr_root (mt_tree m)) q)"
proof (induction q rule: rev_induct)
  case Nil
  then show ?case by simp
next
  case (snoc c q)
  let ?r = "tr_root (mt_tree m)"
  show ?case
  proof (cases "q = pre @ [at]")
    case True
    have r0: "resolve m ?r q = None" unfolding True resolve_snoc using pre no by simp
    have r1: "resolve m' ?r q = Some a" using snoc True by simp
    have "q @ [c] \<noteq> pre @ [at]" using True by simp
    then show ?thesis by (simp only: resolve_snoc r0 r1 sa if_False option.case)
  next
    case False
    then have r: "resolve m' ?r q = resolve m ?r q" using snoc by simp
    show ?thesis
    proof (cases "resolve m ?r q")
      case None
      then have "q \<noteq> pre" using pre by auto
      then have "q @ [c] \<noteq> pre @ [at]" by simp
      then show ?thesis by (simp only: resolve_snoc r None if_False option.case)
    next
      case (Some p)
      have "p \<noteq> a" using resolve_in_tree [OF inv Some] a by metis
      moreover have "p = node \<longleftrightarrow> q = pre" using resolve_inj [OF inv Some] pre Some by (metis option.inject)
      ultimately show ?thesis unfolding resolve_snoc r Some using sd [of p c] by auto
    qed
  qed
qed

text \<open>Making the nodes of a path leaves every mounted file where it is.\<close>

lemma file_at_new_leaf:
  assumes "\<And>p c. p \<noteq> a \<Longrightarrow> step_down m' p c = (if p = node \<and> c = at then Some a else step_down m p c)"
    and "\<And>c. step_down m' a c = None"
    and "mount_inv m" and "resolve m (tr_root (mt_tree m)) pre = Some node"
    and "step_down m node at = None" and "tr_store (mt_tree m) a = None"
    and root: "tr_root (mt_tree m') = tr_root (mt_tree m)"
    and ent: "\<And>p. tr_store (mt_tree m) p \<noteq> None \<Longrightarrow> ent_of m' p = ent_of m p"
    and enta: "ent_of m' a = Some E" and E: "en_file E = NULL"
  shows "file_at m' q = file_at m q"
proof -
  note r = resolve_new_leaf [OF assms(1-6)]
  show ?thesis
  proof (cases "q = pre @ [at]")
    case True
    have "resolve m (tr_root (mt_tree m)) q = None" unfolding True resolve_snoc using assms(4,5) by simp
    moreover have "resolve m' (tr_root (mt_tree m)) q = Some a" using r [of q] True by simp
    ultimately show ?thesis using root enta E by (simp add: file_at_def node_file_def)
  next
    case False
    then have "resolve m' (tr_root (mt_tree m)) q = resolve m (tr_root (mt_tree m)) q" using r by simp
    then show ?thesis using root ent resolve_in_tree [OF assms(3)]
      by (cases "resolve m (tr_root (mt_tree m)) q") (auto simp: file_at_def node_file_def)
  qed
qed

definition mounts_ext :: "mounts \<Rightarrow> mounts \<Rightarrow> bool" where
  "mounts_ext m m' \<longleftrightarrow> mount_inv m' \<and> tr_root (mt_tree m') = tr_root (mt_tree m) \<and>
     (\<forall>q. file_at m' q = file_at m q) \<and> mt_fs_root m' = mt_fs_root m \<and> mt_vfs m' = mt_vfs m"

lemma mounts_ext_trans: "mounts_ext a b \<Longrightarrow> mounts_ext b c \<Longrightarrow> mounts_ext a c"
  by (simp add: mounts_ext_def)

lemma mount_path_make:
  assumes inv: "mount_inv m" and pre: "resolve m (tr_root (mt_tree m)) pre = Some node"
    and no: "step_down m node at = None" and sup: "mt_supply m = e # a # rest"
  obtains m' where "mount_path (at # comps) node m = mount_path comps a m'" and "mounts_ext m m'"
    and "resolve m' (tr_root (mt_tree m')) (pre @ [at]) = Some a" and "mt_supply m' = rest"
proof -
  obtain N where N: "tr_store (mt_tree m) node = Some N" using resolve_in_tree [OF inv pre] by auto
  define E where "E = \<lparr>en_name = at, en_file = NULL, en_device = [], en_type = []\<rparr>"
  obtain t where t: "tree_node_insert_child a node e (mt_tree m) = Some (a, t)"
    "tr_root t = tr_root (mt_tree m)"
    "mount_inv (m\<lparr>mt_supply := rest, mt_entries := (mt_entries m)(e \<mapsto> E), mt_tree := t\<rparr>)"
    "\<And>p. tr_store (mt_tree m) p \<noteq> None \<Longrightarrow>
        ent_of (m\<lparr>mt_supply := rest, mt_entries := (mt_entries m)(e \<mapsto> E), mt_tree := t\<rparr>) p = ent_of m p"
    "ent_of (m\<lparr>mt_supply := rest, mt_entries := (mt_entries m)(e \<mapsto> E), mt_tree := t\<rparr>) a = Some E"
    "\<And>p c. p \<noteq> a \<Longrightarrow>
        step_down (m\<lparr>mt_supply := rest, mt_entries := (mt_entries m)(e \<mapsto> E), mt_tree := t\<rparr>) p c =
          (if p = node \<and> c = at then Some a else step_down m p c)"
    "\<And>c. step_down (m\<lparr>mt_supply := rest, mt_entries := (mt_entries m)(e \<mapsto> E), mt_tree := t\<rparr>) a c = None"
    "tr_store (mt_tree m) a = None" "a \<noteq> NULL"
    unfolding E_def by (rule new_leaf [OF inv N no sup]) blast
  let ?m = "m\<lparr>mt_supply := rest, mt_entries := (mt_entries m)(e \<mapsto> E), mt_tree := t\<rparr>"
  have g: "get_tn node (mt_tree m) = Some N" using mount_inv_node [OF inv N] by metis
  have "mount_path (at # comps) node m =
      mount_path comps a (m\<lparr>mt_supply := a # rest, mt_entries := (mt_entries m)(e \<mapsto> E), mt_supply := rest, mt_tree := t\<rparr>)"
    using g find_child_step [OF inv N, of at] no sup t(1) by (simp add: alloc_def E_def)
  also have "m\<lparr>mt_supply := a # rest, mt_entries := (mt_entries m)(e \<mapsto> E), mt_supply := rest, mt_tree := t\<rparr> = ?m"
    by (cases m) simp
  finally have run: "mount_path (at # comps) node m = mount_path comps a ?m" .
  have root: "tr_root (mt_tree ?m) = tr_root (mt_tree m)" using t(2) by simp
  have "file_at ?m q = file_at m q" for q
    by (rule file_at_new_leaf [OF t(6,7) inv pre no t(8) root t(4,5)]) (simp_all add: E_def)
  then have "mounts_ext m ?m" using t(3) root by (simp add: mounts_ext_def)
  moreover have "resolve ?m (tr_root (mt_tree ?m)) (pre @ [at]) = Some a"
    using resolve_new_leaf [OF t(6,7) inv pre no t(8), of "pre @ [at]"] root by simp
  ultimately show thesis using that [OF run] by simp
qed

lemma mount_path_spec:
  assumes "mount_inv m" and "resolve m (tr_root (mt_tree m)) pre = Some node"
    and "2 * length comps \<le> length (mt_supply m)"
  shows "\<exists>node' m'. mount_path comps node m = Some (node', m') \<and> mounts_ext m m' \<and>
    resolve m' (tr_root (mt_tree m')) (pre @ comps) = Some node' \<and>
    length (mt_supply m) \<le> length (mt_supply m') + 2 * length comps"
  using assms
proof (induction comps arbitrary: pre node m)
  case Nil
  then show ?case by (simp add: mounts_ext_def)
next
  case (Cons at comps)
  note inv = Cons.prems(1) and pre = Cons.prems(2)
  obtain N where N: "tr_store (mt_tree m) node = Some N" using resolve_in_tree [OF inv pre] by auto
  show ?case
  proof (cases "step_down m node at")
    case (Some c)
    have "get_tn node (mt_tree m) = Some N" using mount_inv_node [OF inv N] by metis
    then have "mount_path (at # comps) node m = mount_path comps c m"
      using find_child_step [OF inv N, of at] Some by simp
    moreover have "resolve m (tr_root (mt_tree m)) (pre @ [at]) = Some c"
      unfolding resolve_snoc using pre Some by simp
    ultimately show ?thesis using Cons.IH [OF inv, of "pre @ [at]" c] Cons.prems(3) by fastforce
  next
    case None
    obtain e a rest where sup: "mt_supply m = e # a # rest" "2 * length comps \<le> length rest"
      using Cons.prems(3) by (cases "mt_supply m"; cases "tl (mt_supply m)") auto
    obtain m1 where m1: "mount_path (at # comps) node m = mount_path comps a m1" "mounts_ext m m1"
        "resolve m1 (tr_root (mt_tree m1)) (pre @ [at]) = Some a" "mt_supply m1 = rest"
      by (rule mount_path_make [OF inv pre None sup(1)])
    have inv1: "mount_inv m1" using m1(2) by (simp add: mounts_ext_def)
    obtain node' m' where "mount_path comps a m1 = Some (node', m')" "mounts_ext m1 m'"
        "resolve m' (tr_root (mt_tree m')) (pre @ [at] @ comps) = Some node'" "length rest \<le> length (mt_supply m') + 2 * length comps"
      using Cons.IH [OF inv1 m1(3)] sup(2) m1(4) by auto
    moreover have "length (mt_supply m) = length rest + 2" using sup(1) by simp
    moreover have "mounts_ext m m'" using m1(2) calculation(2) by (rule mounts_ext_trans)
    ultimately show ?thesis using m1(1) by simp
  qed
qed

lemma mount_vfs_irrelevant [simp]:
  "get_tn p (mt_tree (m\<lparr>mt_vfs := v\<rparr>)) = get_tn p (mt_tree m)"
  "ent_of (m\<lparr>mt_vfs := v\<rparr>) = ent_of m" "step_down (m\<lparr>mt_vfs := v\<rparr>) = step_down m"
  "mount_inv (m\<lparr>mt_vfs := v\<rparr>) = mount_inv m"
  "ent_of (m\<lparr>mt_fs_root := r\<rparr>) = ent_of m" "step_down (m\<lparr>mt_fs_root := r\<rparr>) = step_down m"
  "mount_inv (m\<lparr>mt_fs_root := r\<rparr>) = mount_inv m"
proof -
  show e: "ent_of (m\<lparr>mt_vfs := v\<rparr>) = ent_of m" "ent_of (m\<lparr>mt_fs_root := r\<rparr>) = ent_of m"
    by (simp_all add: ent_of_def fun_eq_iff cong: if_cong)
  show "step_down (m\<lparr>mt_vfs := v\<rparr>) = step_down m" "step_down (m\<lparr>mt_fs_root := r\<rparr>) = step_down m"
    unfolding step_down_def e by simp_all
qed (simp_all add: mount_inv_def)

lemma resolve_cong: "step_down m' = step_down m \<Longrightarrow> resolve m' p q = resolve m p q"
  by (induction q arbitrary: p) (auto split: option.splits)

lemma file_at_irrelevant [simp]:
  "file_at (m\<lparr>mt_vfs := v\<rparr>) = file_at m" "file_at (m\<lparr>mt_fs_root := r\<rparr>) = file_at m"
  using resolve_cong [of "m\<lparr>mt_vfs := v\<rparr>" m] resolve_cong [of "m\<lparr>mt_fs_root := r\<rparr>" m]
  by (simp_all add: file_at_def node_file_def fun_eq_iff cong: option.case_cong)

lemma set_mounted_spec:
  assumes inv: "mount_inv m" and q: "resolve m (tr_root (mt_tree m)) q = Some node"
  obtains m' where "set_mounted node fs ty opts m = Some m'" and "mount_inv m'"
    and "tr_root (mt_tree m') = tr_root (mt_tree m)" and "file_at m' = (file_at m)(q := fs)"
    and "mt_fs_root m' = mt_fs_root m" and "\<And>p w. resolve m' p w = resolve m p w"
    and "mt_supply m' = mt_supply m" and "mt_vfs m' = mt_vfs m"
proof -
  obtain n where n: "tr_store (mt_tree m) node = Some n" using resolve_in_tree [OF inv q] by auto
  obtain e where e: "ent_of m node = Some e" "mt_entries m (tn_value n) = Some e" "tn_value n \<noteq> NULL"
      "get_tn node (mt_tree m) = Some n"
    by (rule mount_inv_node [OF inv n])
  define e' where "e' = e\<lparr>en_file := fs, en_device := opts, en_type := ty\<rparr>"
  let ?m = "m\<lparr>mt_entries := (mt_entries m)(tn_value n \<mapsto> e')\<rparr>"
  have run: "set_mounted node fs ty opts m = Some ?m" using e by (simp add: set_mounted_def e'_def)
  have only: "p = node" if "tr_store (mt_tree m) p = Some k" "tn_value k = tn_value n" for p k
    using inv that n unfolding mount_inv_def by blast
  have ent: "ent_of ?m p = (if p = node then Some e' else ent_of m p)" for p
  proof (cases "get_tn p (mt_tree m)")
    case (Some k)
    then have "tr_store (mt_tree m) p = Some k" by (auto simp: get_tn_def split: if_splits)
    then show ?thesis using only [of p k] Some e by (auto simp: ent_of_def)
  qed (use e in \<open>auto simp: ent_of_def\<close>)
  have "step_down ?m p c = step_down m p c" for p c
  proof -
    have "(case ent_of ?m x of None \<Rightarrow> False | Some f \<Rightarrow> en_name f = c) =
        (case ent_of m x of None \<Rightarrow> False | Some f \<Rightarrow> en_name f = c)" for x
      using ent [of x] e(1) by (cases "x = node") (simp_all add: e'_def)
    then show ?thesis by (simp add: step_down_def cong: option.case_cong)
  qed
  then have res: "resolve ?m p w = resolve m p w" for p w by (intro resolve_cong) (simp add: fun_eq_iff)
  have "file_at ?m w = ((file_at m)(q := fs)) w" for w
  proof (cases "resolve m (tr_root (mt_tree m)) w")
    case None
    then have "w \<noteq> q" using q by auto
    then show ?thesis using None res by (simp add: file_at_def)
  next
    case (Some p)
    have "p = node \<longleftrightarrow> w = q" using resolve_inj [OF inv Some] q Some by (metis option.inject)
    then show ?thesis using Some res ent [of p] by (simp add: file_at_def node_file_def e'_def)
  qed
  then have ext: "file_at ?m = (file_at m)(q := fs)" by (simp add: fun_eq_iff)
  moreover have "mount_inv ?m"
  proof -
    have "\<forall>p k. tr_store (mt_tree m) p = Some k \<longrightarrow> tn_value k \<noteq> NULL \<and> mt_entries ?m (tn_value k) \<noteq> None"
    proof (intro allI impI)
      fix p k assume k: "tr_store (mt_tree m) p = Some k"
      show "tn_value k \<noteq> NULL \<and> mt_entries ?m (tn_value k) \<noteq> None"
        by (rule mount_inv_node [OF inv k]) simp
    qed
    moreover have "\<forall>a \<in> set (mt_supply m). a \<noteq> NULL \<and> tr_store (mt_tree m) a = None \<and> mt_entries ?m a = None"
    proof
      fix a assume "a \<in> set (mt_supply m)"
      then have "a \<noteq> NULL" "tr_store (mt_tree m) a = None" "mt_entries m a = None" using inv by (simp_all add: mount_inv_def)
      then show "a \<noteq> NULL \<and> tr_store (mt_tree m) a = None \<and> mt_entries ?m a = None" using e(2) by auto
    qed
    moreover have "\<forall>p q n k. tr_store (mt_tree m) p = Some n \<and> tr_store (mt_tree m) q = Some k \<and> tn_value n = tn_value k \<longrightarrow> p = q"
      using inv unfolding mount_inv_def by (elim conjE)
    moreover have "tree_inv (mt_tree m)" "distinct (mt_supply m)" using inv by (simp_all add: mount_inv_def)
    ultimately show ?thesis unfolding mount_inv_def by (intro conjI) simp_all
  qed
  ultimately show thesis by (intro that [OF run _ _ ext _ res]) simp_all
qed

text \<open>A mount puts one file at one path.\<close>

lemma join_head: "join out \<noteq> []" "hd (join out) = 47"
  by (cases out; simp add: join_def)+

lemma tl_join: "\<forall>e \<in> set out. plain e \<Longrightarrow> tl (join out) = [] \<or> hd (tl (join out)) = 47 \<longleftrightarrow> out = []"
  by (cases out) (auto simp: join_def plain_def neq_Nil_conv)

lemma vfs_mount_spec:
  assumes inv: "mount_inv m" and f: "get_fn fs (mt_vfs m) \<noteq> None"
    and out: "\<forall>e \<in> set out. plain e" and sup: "2 * length out \<le> length (mt_supply m)"
  obtains node m' where "vfs_mount (Some (join out)) fs ty opts m = Some (node, m')" and "mount_inv m'"
    and "file_at m' = (file_at m)(out := fs)"
    and "mt_fs_root m' = (if out = [] then fs else mt_fs_root m)"
    and "resolve m' (tr_root (mt_tree m')) out = Some node"
    and "length (mt_supply m) \<le> length (mt_supply m') + 2 * length out"
    and "\<And>g. get_fn g (mt_vfs m') = None \<longleftrightarrow> get_fn g (mt_vfs m) = None"
proof -
  obtain v where v: "vfs_lock fs (mt_vfs m) = Some v" using f by (auto simp: vfs_lock_def)
  let ?m = "m\<lparr>mt_vfs := v\<rparr>"
  have inv': "mount_inv ?m" using inv by simp
  obtain node m1 where m1: "mount_path out (tr_root (mt_tree ?m)) ?m = Some (node, m1)" "mounts_ext ?m m1"
      "resolve m1 (tr_root (mt_tree m1)) ([] @ out) = Some node" "length (mt_supply m) \<le> length (mt_supply m1) + 2 * length out"
    using mount_path_spec [OF inv', of "[]" "tr_root (mt_tree ?m)" out] sup by auto
  have inv1: "mount_inv m1" and ext: "file_at m1 = file_at m" "mt_fs_root m1 = mt_fs_root m"
    using m1(2) by (simp_all add: mounts_ext_def fun_eq_iff)
  obtain m2 where m2: "set_mounted node fs ty opts m1 = Some m2" "mount_inv m2"
      "tr_root (mt_tree m2) = tr_root (mt_tree m1)" "file_at m2 = (file_at m1)(out := fs)" "mt_fs_root m2 = mt_fs_root m1"
      "\<And>p w. resolve m2 p w = resolve m1 p w" "mt_supply m2 = mt_supply m1" "mt_vfs m2 = mt_vfs m1"
    by (rule set_mounted_spec [OF inv1 m1(3) [unfolded append_Nil], where fs = fs and ty = ty and opts = opts]) (rule that)
  have vf: "get_fn g (mt_vfs m2) = None \<longleftrightarrow> get_fn g (mt_vfs m) = None" for g
    using v m2(8) m1(2) f by (auto simp: vfs_lock_def get_fn_def mounts_ext_def split: option.splits if_splits)
  have head: "tl (join out) = [] \<or> hd (tl (join out)) = 47 \<longleftrightarrow> out = []" by (rule tl_join [OF out])
  show thesis
  proof (cases "out = []")
    case True
    then have "node = tr_root (mt_tree m)" "m1 = ?m" using m1(1) by simp_all
    then have "vfs_mount (Some (join out)) fs ty opts m = Some (node, m2\<lparr>mt_fs_root := fs\<rparr>)"
      using v m2(1) True by (simp add: vfs_mount_def join_def)
    moreover have "resolve (m2\<lparr>mt_fs_root := fs\<rparr>) (tr_root (mt_tree m2)) out = Some node"
      using True m2(6) m1(3) m2(3) by simp
    ultimately show thesis using that [of node "m2\<lparr>mt_fs_root := fs\<rparr>"] m2(2,4,7) m1(4) vf ext True by simp
  next
    case False
    then have "vfs_mount (Some (join out)) fs ty opts m = Some (node, m2)"
      using v m1(1) m2(1) head join_head [of out] chop_join [OF out] by (simp add: vfs_mount_def)
    then show thesis using that [of node m2] m2 m1(3,4) vf ext False by simp
  qed
qed

text \<open>The lookup finds the deepest mount along a path.\<close>

definition deepest :: "mounts \<Rightarrow> bytes list \<Rightarrow> nat \<Rightarrow> bool" where
  "deepest m q d \<longleftrightarrow> d \<le> length q \<and> (0 < d \<longrightarrow> file_at m (take d q) \<noteq> NULL) \<and>
     (\<forall>k. d < k \<and> k \<le> length q \<longrightarrow> file_at m (take k q) = NULL)"

lemma file_at_beyond:
  "resolve m (tr_root (mt_tree m)) q = None \<Longrightarrow> file_at m (q @ w) = NULL"
  by (simp add: file_at_def resolve_append)

lemma mount_walk_spec:
  assumes "mount_inv m" and "resolve m (tr_root (mt_tree m)) pre = Some node"
    and "deepest m pre d"
  shows "\<exists>d'. mount_walk m node rest (length pre + 1) (file_at m (take d pre), d, drop d (pre @ rest)) =
      Some (file_at m (take d' (pre @ rest)), d', drop d' (pre @ rest)) \<and> deepest m (pre @ rest) d'"
  using assms
proof (induction rest arbitrary: pre node d)
  case Nil
  then show ?case by auto
next
  case (Cons at rest)
  note inv = Cons.prems(1) and pre = Cons.prems(2) and deep = Cons.prems(3)
  have dl: "d \<le> length pre" using deep by (simp add: deepest_def)
  obtain n where n: "tr_store (mt_tree m) node = Some n" using resolve_in_tree [OF inv pre] by auto
  have g: "get_tn node (mt_tree m) = Some n" using mount_inv_node [OF inv n] by metis
  have r: "resolve m (tr_root (mt_tree m)) (pre @ [at]) = step_down m node at"
    unfolding resolve_snoc using pre by simp
  show ?case
  proof (cases "step_down m node at")
    case None
    have "file_at m (take k (pre @ at # rest)) = NULL" if "length pre < k" for k
    proof -
      have "take k (pre @ at # rest) = (pre @ [at]) @ take (k - length pre - 1) rest"
        using that by (cases "k - length pre") auto
      then show ?thesis using file_at_beyond [of m "pre @ [at]"] r None by simp
    qed
    then have "file_at m (take k (pre @ at # rest)) = NULL" if "d < k" for k
      using deep that by (cases "k \<le> length pre") (simp_all add: deepest_def)
    then have "deepest m (pre @ at # rest) d" using deep dl by (simp add: deepest_def)
    then show ?thesis using g find_child_step [OF inv n, of at] None dl by (intro exI [of _ d]) simp
  next
    case (Some c)
    obtain k e where e: "ent_of m c = Some e" using step_downD [OF inv Some] by metis
    have f: "file_at m (pre @ [at]) = en_file e" using r Some e by (simp add: file_at_def node_file_def)
    define d1 where "d1 = (if en_file e \<noteq> NULL then length pre + 1 else d)"
    have deep1: "deepest m (pre @ [at]) d1"
      using deep f dl by (auto simp: deepest_def d1_def take_Cons' le_Suc_eq)
    have "mount_walk m node (at # rest) (length pre + 1) (file_at m (take d pre), d, drop d (pre @ at # rest)) =
        mount_walk m c rest (length (pre @ [at]) + 1)
          (file_at m (take d1 (pre @ [at])), d1, drop d1 ((pre @ [at]) @ rest))"
      using g find_child_step [OF inv n, of at] Some e f dl by (simp add: d1_def)
    then show ?thesis using Cons.IH [OF inv _ deep1] r Some by simp
  qed
qed

lemma get_mount_point_spec:
  assumes "mount_inv m" and "mt_fs_root m = file_at m []"
  obtains d where "get_mount_point q m = Some (file_at m (take d q), d, drop d q)" and "deepest m q d"
  using mount_walk_spec [OF assms(1), of "[]" "tr_root (mt_tree m)" 0 q] assms(2) that
  by (auto simp: get_mount_point_def deepest_def)

section \<open>Walking a path\<close>

text \<open>The walk that a path without links asks for.\<close>

fun walk :: "fsys \<Rightarrow> ptr \<Rightarrow> bytes list \<Rightarrow> ptr" where
  "walk fy node [] = node"
| "walk fy node (at # rest) =
     (if node = NULL \<or> \<not> fy_search fy node then NULL else walk fy (fy_finddir fy node at) rest)"

lemma walk_NULL [simp]: "walk fy NULL rest = NULL"
  by (cases rest) auto

text \<open>No node that this walk meets is a link; what else is in the file systems does not matter.\<close>

fun link_free :: "fsys \<Rightarrow> ptr \<Rightarrow> bytes list \<Rightarrow> bool" where
  "link_free fy node [] \<longleftrightarrow> node = NULL \<or> \<not> fy_symlink fy node"
| "link_free fy node (at # rest) \<longleftrightarrow> node = NULL \<or>
     \<not> fy_symlink fy node \<and> (fy_search fy node \<longrightarrow> link_free fy (fy_finddir fy node at) rest)"

lemma kopen_loop_walk:
  "link_free fy node rest \<Longrightarrow> node \<noteq> NULL \<Longrightarrow>
   kopen_loop fy m flags budget comps node depth rest = Some (walk fy node rest)"
proof (induction rest arbitrary: node depth)
  case Nil
  then show ?case by (subst kopen_loop.simps) simp
next
  case (Cons at rest)
  then show ?case by (subst kopen_loop.simps) (simp add: Let_def)
qed

lemma kopen_recur_start:
  assumes "\<forall>e \<in> set out. proper e" and "out \<noteq> []" and "canonicalize_path rel name = join out"
    and "get_mount_point out m = Some (node, d, rest)" and "node \<noteq> NULL"
  shows "kopen_recur fy m name flags budget rel = kopen_loop fy m flags budget out node d rest"
proof -
  have p: "\<forall>e \<in> set out. plain e" using assms(1) by (auto simp: proper_def)
  then have "length (join out) \<noteq> 1" "chop (tl (join out)) = out"
    using assms(2) length_join [OF p] chop_join [OF p] by simp_all
  then show ?thesis using assms(3-5) by (subst kopen_recur.simps) (simp add: Let_def)
qed

lemma kopen_walk_spec:
  assumes inv: "mount_inv m" and root: "mt_fs_root m = file_at m []" and set: "mt_fs_root m \<noteq> NULL"
    and link: "\<And>d. deepest m out d \<Longrightarrow> link_free fy (file_at m (take d out)) (drop d out)"
    and out: "\<forall>e \<in> set out. proper e" "canonicalize_path wd name = join out"
  obtains d where "deepest m out d" and "kopen fy m wd name flags = Some (walk fy (file_at m (take d out)) (drop d out))"
proof -
  obtain d where d: "get_mount_point out m = Some (file_at m (take d out), d, drop d out)" "deepest m out d"
    by (rule get_mount_point_spec [OF inv root])
  have f: "file_at m (take d out) \<noteq> NULL" using d(2) root set by (cases d) (auto simp: deepest_def)
  show thesis
  proof (cases "out = []")
    case True
    have "kopen fy m wd name flags = Some (mt_fs_root m)"
      using out(2) True set by (simp add: kopen_def kopen_recur.simps join_def)
    then show thesis using that [OF d(2)] root True by simp
  next
    case False
    show thesis
      by (rule that [OF d(2)]) (simp add: kopen_def kopen_recur_start [OF out(1) False out(2) d(1) f] kopen_loop_walk [OF link [OF d(2)] f])
  qed
qed

lemma kopen_loop_link:
  assumes "fy_symlink fy link" and "fy_readlink fy link = Some target"
    and "flags AND O_PATH = 0 \<or> depth \<noteq> length comps" and "\<not> refuse_link flags depth (length comps) budget"
  shows "kopen_loop fy m flags budget comps link depth [] =
    kopen_recur fy m target 0 (budget - 1) (concat (map (\<lambda>e. 47 # e) (take (depth - 1) comps)))"
  using assms by (subst kopen_loop.simps) (auto simp: Let_def split: Option.bind_splits)

lemma kopen_loop_refused:
  assumes "fy_symlink fy link" and "flags AND O_PATH = 0 \<or> depth \<noteq> length comps"
    and "refuse_link flags depth (length comps) budget"
  shows "kopen_loop fy m flags budget comps link depth rest = Some NULL"
  using assms by (subst kopen_loop.simps) (auto simp: Let_def)

text \<open>A link to itself is given up, whatever the budget.\<close>

lemma kopen_at_root:
  assumes inv: "mount_inv m" and root: "mt_fs_root m = file_at m []" "mt_fs_root m \<noteq> NULL" "file_at m [nm] = NULL"
    and nm: "proper nm"
    and dir: "\<not> fy_symlink fy (mt_fs_root m)" "fy_search fy (mt_fs_root m)" "fy_finddir fy (mt_fs_root m) nm = l" "l \<noteq> NULL"
  shows "kopen_recur fy m (47 # nm) flags budget rel = kopen_loop fy m flags budget [nm] l 1 []"
proof -
  obtain d where d: "get_mount_point [nm] m = Some (file_at m (take d [nm]), d, drop d [nm])" "deepest m [nm] d"
    by (rule get_mount_point_spec [OF inv root(1)])
  have "d = 0" using d(2) root(3) by (cases d) (auto simp: deepest_def)
  then have g: "get_mount_point [nm] m = Some (mt_fs_root m, 0, [nm])" using d(1) root(1) by simp
  have c: "canonicalize_path rel (47 # nm) = join [nm]"
    using canonicalize_join [of "[nm]" rel] nm by (simp add: join_def)
  have "kopen_recur fy m (47 # nm) flags budget rel = kopen_loop fy m flags budget [nm] (mt_fs_root m) 0 [nm]"
    using kopen_recur_start [OF _ _ c g root(2)] nm by simp
  also have "\<dots> = kopen_loop fy m flags budget [nm] l 1 []"
    using dir root(2) by (subst kopen_loop.simps) (simp add: Let_def)
  finally show ?thesis .
qed

lemma kopen_self_link_spec:
  assumes "mount_inv m" and "mt_fs_root m = file_at m []" "mt_fs_root m \<noteq> NULL" "file_at m [nm] = NULL" and "proper nm"
    and "\<not> fy_symlink fy (mt_fs_root m)" "fy_search fy (mt_fs_root m)" "fy_finddir fy (mt_fs_root m) nm = l" "l \<noteq> NULL"
    and link: "fy_symlink fy l" "fy_readlink fy l = Some (47 # nm)"
  shows "flags AND O_PATH = 0 \<Longrightarrow> kopen_recur fy m (47 # nm) flags budget rel = Some NULL"
proof (induction budget arbitrary: flags rel)
  case IH: (0 flags rel)
  then show ?case using kopen_loop_refused [OF link(1), of flags 1 "[nm]" 0]
    by (simp add: kopen_at_root [OF assms(1-9)] refuse_link_def)
next
  case IH: (Suc b flags rel)
  have "kopen_loop fy m flags (Suc b) [nm] l 1 [] = kopen_recur fy m (47 # nm) 0 b []"
    using kopen_loop_link [OF link, of flags 1 "[nm]" "Suc b"] IH(2) by (simp add: refuse_link_def)
  then show ?case using IH(1) [of 0] by (simp add: kopen_at_root [OF assms(1-9)])
qed

text \<open>The table that \<open>vfs_install\<close> makes.\<close>

lemma vfs_install_spec:
  assumes "distinct (e # a # supply)" and "NULL \<notin> set (e # a # supply)"
  obtains m where "vfs_install (e # a # supply) v = Some m" and "mount_inv m" and "file_at m = (\<lambda>q. NULL)"
    and "mt_fs_root m = NULL" and "mt_supply m = supply" and "mt_vfs m = v"
proof -
  define t where "t = \<lparr>tr_nodes = 1, tr_root = a, tr_store = [a \<mapsto> \<lparr>tn_value = e, tn_children = [], tn_parent = NULL\<rparr>]\<rparr>"
  have t: "tree_set_root a e (tree_create Map.empty) = Some t"
    using assms(2) by (simp add: tree_set_root_def tree_node_create_def tree_create_def t_def)
  have "tree_inv t"
    using assms by (auto simp: tree_inv_def links_ok_def ranked_def t_def)
  moreover define m where "m = \<lparr>mt_tree = t,
      mt_entries = [e \<mapsto> \<lparr>en_name = [91, 114, 111, 111, 116, 93], en_file = NULL, en_device = [], en_type = []\<rparr>],
      mt_supply = supply, mt_fs_root = NULL, mt_vfs = v\<rparr>"
  ultimately have inv: "mount_inv m" using assms by (auto simp: mount_inv_def t_def split: if_splits)
  have sd: "step_down m a c = None" for c by (simp add: step_down_def get_tn_def m_def t_def)
  have "file_at m q = NULL" for q
    using sd by (cases q) (auto simp: file_at_def node_file_def ent_of_def get_tn_def m_def t_def)
  then show thesis using that [of m] inv t by (simp add: vfs_install_def m_def fun_eq_iff)
qed

section \<open>A table of paths\<close>

text \<open>
  What the callers of the mount table rely on: within the room that is left, an entry is put at
  one path and every other path keeps its own, so a history of mounts is a history of updates.
\<close>

fun puts :: "('p \<Rightarrow> 'v \<Rightarrow> 's \<Rightarrow> 's option) \<Rightarrow> ('p \<times> 'v) list \<Rightarrow> 's \<Rightarrow> 's option" where
  "puts put [] s = Some s"
| "puts put ((p, v) # hs) s = (case put p v s of None \<Rightarrow> None | Some s \<Rightarrow> puts put hs s)"

locale path_table =
  fixes inv :: "'s \<Rightarrow> bool" and room :: "'s \<Rightarrow> nat" and look :: "'s \<Rightarrow> 'p \<Rightarrow> 'v"
    and put :: "'p \<Rightarrow> 'v \<Rightarrow> 's \<Rightarrow> 's option" and cost :: "'p \<Rightarrow> nat" and fits :: "'s \<Rightarrow> 'p \<Rightarrow> 'v \<Rightarrow> bool"
  assumes put_law: "inv s \<Longrightarrow> cost p \<le> room s \<Longrightarrow> fits s p v \<Longrightarrow>
    \<exists>s'. put p v s = Some s' \<and> inv s' \<and> look s' = (look s)(p := v) \<and> room s \<le> room s' + cost p \<and> fits s' = fits s"
begin

lemma puts_history:
  assumes "inv s" and "sum_list (map (cost \<circ> fst) hs) \<le> room s" and "\<forall>(p, v) \<in> set hs. fits s p v"
  shows "\<exists>s'. puts put hs s = Some s' \<and> inv s' \<and> look s' = foldl (\<lambda>f (p, v). f(p := v)) (look s) hs"
  using assms
proof (induction hs arbitrary: s)
  case (Cons h hs)
  obtain p v where h: "h = (p, v)" by (cases h)
  obtain s1 where s1: "put p v s = Some s1" "inv s1" "look s1 = (look s)(p := v)" "room s \<le> room s1 + cost p" "fits s1 = fits s"
    using put_law [of s p v] Cons.prems h by auto
  then show ?case using Cons.IH [of s1] Cons.prems h by simp
qed simp

end

text \<open>The mount of a node by its components.\<close>

definition mount_at :: "bytes list \<Rightarrow> ptr \<Rightarrow> mounts \<Rightarrow> mounts option" where
  "mount_at q f m = map_option snd (vfs_mount (Some (join q)) f [] [] m)"

definition mountable :: "mounts \<Rightarrow> bytes list \<Rightarrow> ptr \<Rightarrow> bool" where
  "mountable m q f \<longleftrightarrow> (\<forall>e \<in> set q. plain e) \<and> get_fn f (mt_vfs m) \<noteq> None"

interpretation mt: path_table mount_inv "\<lambda>m. length (mt_supply m)" file_at mount_at "\<lambda>q. 2 * length q" mountable
proof unfold_locales
  fix m q f
  assume m: "mount_inv m" "2 * length q \<le> length (mt_supply m)" "mountable m q f"
  obtain node m' where m': "vfs_mount (Some (join q)) f [] [] m = Some (node, m')" "mount_inv m'"
      "file_at m' = (file_at m)(q := f)" "length (mt_supply m) \<le> length (mt_supply m') + 2 * length q"
      "\<And>g. get_fn g (mt_vfs m') = None \<longleftrightarrow> get_fn g (mt_vfs m) = None"
    using vfs_mount_spec [OF m(1) _ _ m(2), of f "[]" "[]"] m(3) unfolding mountable_def by metis
  then show "\<exists>m'. mount_at q f m = Some m' \<and> mount_inv m' \<and> file_at m' = (file_at m)(q := f) \<and>
      length (mt_supply m) \<le> length (mt_supply m') + 2 * length q \<and> mountable m' = mountable m"
    by (simp add: mount_at_def mountable_def fun_eq_iff del: not_None_eq)
qed


section \<open>Properties\<close>

text \<open>A table with a root file system and two more nodes to mount.\<close>

definition vp_node :: fs_node where
  "vp_node =
     \<lparr>fn_mask = 0, fn_uid = 0, fn_gid = 0, fn_flags = 2, fn_refcount = 1, fn_has_open = False,
      fn_has_close = False, fn_open_calls = 0, fn_read = None, fn_write = None, fn_truncate = None,
      fn_selectcheck = None, fn_selectwait = None, fn_chmod = None, fn_chown = None,
      fn_readdir = None, fn_finddir = None, fn_ioctl = None, fn_readlink = None\<rparr>"

definition mounts_example :: mounts where
  "mounts_example =
     \<lparr>mt_tree = \<lparr>tr_nodes = 1, tr_root = 11, tr_store = [11 \<mapsto> \<lparr>tn_value = 10, tn_children = [], tn_parent = NULL\<rparr>]\<rparr>,
      mt_entries = [10 \<mapsto> \<lparr>en_name = [91, 114, 111, 111, 116, 93], en_file = 7, en_device = [], en_type = []\<rparr>],
      mt_supply = [12, 13, 14, 15, 16, 17], mt_fs_root = 7,
      mt_vfs = \<lparr>vf_nodes = [7 \<mapsto> vp_node, 8 \<mapsto> vp_node, 9 \<mapsto> vp_node], vf_close_log = []\<rparr>\<rparr>"

lemma mounts_example_facts:
  "mount_inv mounts_example" "file_at mounts_example = (\<lambda>q. if q = [] then 7 else NULL)"
  "mt_fs_root mounts_example = 7" "length (mt_supply mounts_example) = 6"
  "get_fn 8 (mt_vfs mounts_example) \<noteq> None" "get_fn 9 (mt_vfs mounts_example) \<noteq> None"
proof -
  have t: "tree_inv (mt_tree mounts_example)"
    by (auto simp: tree_inv_def links_ok_def ranked_def mounts_example_def)
  show "mount_inv mounts_example" unfolding mount_inv_def
    by (intro conjI t) (auto simp: mounts_example_def split: if_splits)
  have sd: "step_down mounts_example 11 c = None" for c by (simp add: step_down_def get_tn_def mounts_example_def)
  have "file_at mounts_example q = (if q = [] then 7 else NULL)" for q
    using sd by (cases q) (auto simp: file_at_def node_file_def ent_of_def get_tn_def mounts_example_def)
  then show "file_at mounts_example = (\<lambda>q. if q = [] then 7 else NULL)" by (simp add: fun_eq_iff)
qed (simp_all add: mounts_example_def get_fn_def)

text \<open>
  Property C31: a path is made canonical: when the working directory is, the result is an absolute path
  whose components are nonempty, hold no separator and are neither . nor .., and canonicalising it again
  from anywhere leaves it as it is.
\<close>

theorem canonicalize_path_canonical:
  assumes "\<forall>e \<in> set (tokenize cwd sep). proper e"
  shows "\<exists>out. canonicalize_path cwd input = join out \<and> (\<forall>e \<in> set out. proper e) \<and>
    (\<forall>cwd'. canonicalize_path cwd' (canonicalize_path cwd input) = canonicalize_path cwd input)"
proof -
  obtain out where "canonicalize_path cwd input = join out" "\<forall>e \<in> set out. proper e"
    by (rule canonicalize_spec [OF assms])
  then show ?thesis using canonicalize_join by auto
qed

theorem canonicalize_path_canonical_witness:
  "\<exists>out. canonicalize_path [47, 97, 47, 98] [46, 46, 47, 99] = join out \<and> (\<forall>e \<in> set out. proper e) \<and>
    (\<forall>cwd'. canonicalize_path cwd' (canonicalize_path [47, 97, 47, 98] [46, 46, 47, 99]) =
       canonicalize_path [47, 97, 47, 98] [46, 46, 47, 99])"
  by (rule canonicalize_path_canonical)
    (simp add: tokenize_fields_eq proper_def plain_def PATH_UP_def PATH_DOT_def)

text \<open>
  Property C7: the mount table refines a map from paths to files.  After any history of mounts that the
  allocator can serve, the file at a path is the last one that was mounted there, and every other path keeps its own.
\<close>

theorem mount_history_refines:
  assumes "mount_inv m" and "sum_list (map (\<lambda>h. 2 * length (fst h)) hs) \<le> length (mt_supply m)"
    and "\<forall>(q, f) \<in> set hs. mountable m q f"
  shows "\<exists>m'. puts mount_at hs m = Some m' \<and> mount_inv m' \<and>
    file_at m' = foldl (\<lambda>g (q, f). g(q := f)) (file_at m) hs"
  using mt.puts_history [OF assms(1), of hs] assms(2,3) by (simp add: o_def)

theorem mount_history_refines_witness:
  "\<exists>m'. puts mount_at [([[97]], 8), ([[97], [98]], 9)] mounts_example = Some m' \<and> mount_inv m' \<and>
    file_at m' = foldl (\<lambda>g (q, f). g(q := f)) (file_at mounts_example) [([[97]], 8), ([[97], [98]], 9)]"
  by (rule mount_history_refines)
    (use mounts_example_facts in \<open>simp_all add: mountable_def plain_def\<close>)

text \<open>
  Fact: the lookup of a path starts at the deepest file system mounted along it, and hands over the
  components below that mount.
\<close>

theorem get_mount_point_deepest:
  assumes "mount_inv m" and "mt_fs_root m = file_at m []"
  shows "\<exists>d. get_mount_point q m = Some (file_at m (take d q), d, drop d q) \<and> d \<le> length q \<and>
    (0 < d \<longrightarrow> file_at m (take d q) \<noteq> NULL) \<and> (\<forall>k. d < k \<and> k \<le> length q \<longrightarrow> file_at m (take k q) = NULL)"
  using get_mount_point_spec [OF assms, of q] unfolding deepest_def by metis

theorem get_mount_point_deepest_witness:
  "\<exists>d. get_mount_point [[97], [98]] mounts_example =
      Some (file_at mounts_example (take d [[97], [98]]), d, drop d [[97], [98]]) \<and> d \<le> length [[97 :: u8], [98]] \<and>
    (0 < d \<longrightarrow> file_at mounts_example (take d [[97], [98]]) \<noteq> NULL) \<and>
    (\<forall>k. d < k \<and> k \<le> length [[97 :: u8], [98]] \<longrightarrow> file_at mounts_example (take k [[97], [98]]) = NULL)"
  by (rule get_mount_point_deepest) (simp_all add: mounts_example_facts)

text \<open>
  Property C32: opening a path on which no node that is met is a symbolic link yields what the file systems answer
  when they are walked from the deepest mount along the canonical path, and null where a directory may not be
  searched or a name is missing; links elsewhere in the file systems do not matter.
\<close>

theorem kopen_walks_mounts:
  assumes "mount_inv m" and "mt_fs_root m = file_at m []" and "mt_fs_root m \<noteq> NULL"
    and "\<forall>e \<in> set out. proper e" and "canonicalize_path wd name = join out"
    and "\<And>d. deepest m out d \<Longrightarrow> link_free fy (file_at m (take d out)) (drop d out)"
  shows "\<exists>d. deepest m out d \<and>
    kopen fy m wd name flags = Some (walk fy (file_at m (take d out)) (drop d out))"
  using kopen_walk_spec [OF assms(1-3,6,4,5), of flags] by metis

definition fsys_example :: fsys where
  "fsys_example = \<lparr>fy_symlink = (\<lambda>p. p = 21), fy_readlink = (\<lambda>p. if p = 21 then Some [47, 97] else None), fy_search = (\<lambda>p. True),
     fy_finddir = (\<lambda>p n. if p = 7 \<and> n = [97] then 20 else if p = 7 \<and> n = [98] then 21 else NULL)\<rparr>"

definition links_example :: fsys where
  "links_example = \<lparr>fy_symlink = (\<lambda>p. p = 20), fy_readlink = (\<lambda>p. if p = 20 then Some [47, 97] else None),
     fy_search = (\<lambda>p. True), fy_finddir = (\<lambda>p n. if p = 7 \<and> n = [97] then 20 else NULL)\<rparr>"

lemma example_paths:
  "proper [97]" "canonicalize_path [] [47, 97] = join [[97]]"
proof -
  show p: "proper [97]" by (simp add: proper_def plain_def PATH_UP_def PATH_DOT_def)
  then show "canonicalize_path [] [47, 97] = join [[97]]"
    using canonicalize_join [of "[[97]]" "[]"] by (simp add: join_def)
qed

theorem kopen_walks_mounts_witness:
  "\<exists>d. deepest mounts_example [[97]] d \<and>
    kopen fsys_example mounts_example [] [47, 97] 0 =
      Some (walk fsys_example (file_at mounts_example (take d [[97]])) (drop d [[97]]))"
proof (rule kopen_walks_mounts)
  fix d
  assume "deepest mounts_example [[97]] d"
  then have "d = 0" by (auto simp: deepest_def mounts_example_facts)
  then show "link_free fsys_example (file_at mounts_example (take d [[97]])) (drop d [[97]])"
    by (simp add: mounts_example_facts fsys_example_def)
qed (simp_all add: mounts_example_facts example_paths)

text \<open>
  Property C33: a symbolic link that points at itself does not hang the lookup: the open returns null.
\<close>

theorem kopen_self_link_ends:
  assumes "mount_inv m" and "mt_fs_root m = file_at m []" and "mt_fs_root m \<noteq> NULL" and "file_at m [nm] = NULL"
    and "proper nm" and "\<not> fy_symlink fy (mt_fs_root m)" and "fy_search fy (mt_fs_root m)"
    and "fy_finddir fy (mt_fs_root m) nm = l" and "l \<noteq> NULL"
    and "fy_symlink fy l" and "fy_readlink fy l = Some (47 # nm)" and "flags AND O_PATH = 0"
  shows "kopen fy m wd (47 # nm) flags = Some NULL"
  unfolding kopen_def by (rule kopen_self_link_spec [OF assms])

theorem kopen_self_link_ends_witness: "kopen links_example mounts_example [] (47 # [97]) 0 = Some NULL"
  by (rule kopen_self_link_ends [where l = 20])
    (simp_all add: mounts_example_facts links_example_def example_paths)

text \<open>
  Fact: O_NOFOLLOW is applied one component too early.  With that flag, and without O_PATH, a link
  in the place before the last is refused although only the last component may not be a link, and a
  link in the last place is followed.
\<close>

theorem kopen_nofollow_off_by_one:
  assumes "flags AND O_NOFOLLOW \<noteq> 0" and "flags AND O_PATH = 0" and "fy_symlink fy l"
    and "fy_readlink fy l = Some target" and "0 < budget"
  shows "kopen_loop fy m flags budget (pre @ [at]) l (length pre) [at] = Some NULL \<and>
    kopen_loop fy m flags budget (pre @ [at]) l (length pre + 1) [] =
      kopen_recur fy m target 0 (budget - 1) (concat (map (\<lambda>e. 47 # e) pre))"
  using kopen_loop_refused [OF assms(3), of flags "length pre" "pre @ [at]" budget]
    kopen_loop_link [OF assms(3,4), of flags "length pre + 1" "pre @ [at]" budget] assms(1,2,5)
  by (simp add: refuse_link_def)

theorem kopen_nofollow_off_by_one_witness:
  "kopen_loop links_example mounts_example O_NOFOLLOW 8 ([[98]] @ [[97]]) 20 (length [[98 :: u8]]) [[97]] = Some NULL \<and>
   kopen_loop links_example mounts_example O_NOFOLLOW 8 ([[98]] @ [[97]]) 20 (length [[98 :: u8]] + 1) [] =
     kopen_recur links_example mounts_example [47, 97] 0 (8 - 1) (concat (map (\<lambda>e. 47 # e) [[98]]))"
  by (rule kopen_nofollow_off_by_one) (simp_all add: O_NOFOLLOW_def O_PATH_def links_example_def)

text \<open>
  Fact: the last component that a rename uses keeps the slashes that follow it in the path.
\<close>

theorem fs_basename_keeps_slashes:
  assumes "plain name" and "dir \<noteq> []"
  shows "fs_basename (dir @ 47 # name @ replicate k 47) = Some (name @ replicate k 47)"
  by (rule fs_basename_spec [OF assms])

theorem fs_basename_keeps_slashes_witness:
  "fs_basename ([47, 97] @ 47 # [98] @ replicate 1 47) = Some ([98] @ replicate 1 47)"
  by (rule fs_basename_keeps_slashes) (simp_all add: plain_def)

end
