(* ===== verification/Tmpfs_File.thy ===== *)
theory Tmpfs_File
  imports Kernel_String
begin

text \<open>
  Files of the memory file system, \<open>kernel/vfs/tmpfs.c\<close>: their bytes live in page frames that a file
  lists by index.  Memory is the contents of the frames together with the list of free frames, in the
  order in which \<open>mmu_allocate_a_frame\<close> hands them out; a released frame goes back to that list.
  \<^term>\<open>None\<close> is a run that reads or writes outside of a frame or of the caller's buffer, or finds no frame.
\<close>

section \<open>Files and frames\<close>

definition TMPFS_TYPE_FILE :: int where "TMPFS_TYPE_FILE = 1"
definition TMPFS_TYPE_DIR :: int where "TMPFS_TYPE_DIR = 2"
definition TMPFS_TYPE_LINK :: int where "TMPFS_TYPE_LINK = 3"

record tmpfs_file =
  tf_name :: bytes
  tf_type :: int
  tf_mask :: u32
  tf_uid :: u32
  tf_gid :: u32
  tf_atime :: u32
  tf_mtime :: u32
  tf_ctime :: u32
  tf_length :: u64
  tf_block_count :: u64
  tf_pointers :: u64
  tf_blocks :: "nat \<Rightarrow> u64"
  tf_target :: bytes

record frames =
  fr_mem :: "u64 \<Rightarrow> nat \<Rightarrow> u8"
  fr_free :: "u64 list"
  fr_total :: "64 word"

definition tmpfs_file_new :: "bytes \<Rightarrow> u32 \<Rightarrow> tmpfs_file" where
  "tmpfs_file_new name now =
     \<lparr>tf_name = name, tf_type = TMPFS_TYPE_FILE, tf_mask = 0, tf_uid = 0, tf_gid = 0,
      tf_atime = now, tf_mtime = now, tf_ctime = now, tf_length = 0, tf_block_count = 0,
      tf_pointers = 2, tf_blocks = (\<lambda>i. 0), tf_target = []\<rparr>"

definition release_frame :: "u64 \<Rightarrow> frames \<Rightarrow> frames" where
  "release_frame f s = s\<lparr>fr_free := fr_free s @ [f], fr_total := fr_total s - 1\<rparr>"

definition tmpfs_file_free :: "tmpfs_file \<Rightarrow> frames \<Rightarrow> frames" where
  "tmpfs_file_free t s = fold (\<lambda>i. release_frame (tf_blocks t i)) [0..<unat (tf_block_count t)] s"

text \<open>
  \<open>tmpfs_file_getset_block\<close> returns the frame of a block, or null.  With \<open>create\<close> it extends the list
  of blocks; \<open>create = 2\<close> also clears the new frames.
\<close>

partial_function (option) tmpfs_file_blocks_embiggen :: "u64 \<Rightarrow> u64 \<Rightarrow> u64 option" where
  "tmpfs_file_blocks_embiggen blockid pointers =
     (if blockid \<ge> pointers then tmpfs_file_blocks_embiggen blockid (pointers * 2) else Some pointers)"

definition zero_frame :: "u64 \<Rightarrow> frames \<Rightarrow> frames" where
  "zero_frame f s = s\<lparr>fr_mem := (fr_mem s)(f := (\<lambda>i. if i < 4096 then 0 else fr_mem s f i))\<rparr>"

function add_blocks :: "u64 \<Rightarrow> nat \<Rightarrow> tmpfs_file \<Rightarrow> frames \<Rightarrow> (tmpfs_file \<times> frames) option" where
  "add_blocks blockid create t s =
     (if blockid \<ge> tf_block_count t then
        case fr_free s of
          [] \<Rightarrow> None
        | f # rest \<Rightarrow>
            let s = s\<lparr>fr_free := rest, fr_total := fr_total s + 1\<rparr>;
                s = (if create = 2 then zero_frame f s else s)
            in if tf_block_count t \<ge> tf_pointers t then None
               else add_blocks blockid create
                 (t\<lparr>tf_blocks := (tf_blocks t)(unat (tf_block_count t) := f), tf_block_count := tf_block_count t + 1\<rparr>) s
      else Some (t, s))"
  by pat_completeness auto
termination by (relation "measure (\<lambda>(b, c, t, s). length (fr_free s))") (auto simp: zero_frame_def)

declare add_blocks.simps [simp del]

definition tmpfs_file_getset_block :: "u64 \<Rightarrow> nat \<Rightarrow> tmpfs_file \<Rightarrow> frames \<Rightarrow> (u64 option \<times> tmpfs_file \<times> frames) option" where
  "tmpfs_file_getset_block blockid create t s =
     (if create \<noteq> 0 then do {
        pointers \<leftarrow> tmpfs_file_blocks_embiggen blockid (tf_pointers t);
        (t, s) \<leftarrow> add_blocks blockid create (t\<lparr>tf_pointers := pointers\<rparr>) s;
        Some (Some (tf_blocks t (unat blockid)), t, s)
      } else if blockid \<ge> tf_block_count t then Some (None, t, s)
      else Some (Some (tf_blocks t (unat blockid)), t, s))"


section \<open>Copying between frames and a buffer\<close>

definition load :: "u64 option \<Rightarrow> u64 \<Rightarrow> u64 \<Rightarrow> frames \<Rightarrow> bytes option" where
  "load frame at n s =
     (case frame of None \<Rightarrow> None
      | Some f \<Rightarrow> if unat at + unat n \<le> 4096 then Some (map (\<lambda>i. fr_mem s f (unat at + i)) [0..<unat n]) else None)"

definition store :: "u64 option \<Rightarrow> u64 \<Rightarrow> bytes \<Rightarrow> frames \<Rightarrow> frames option" where
  "store frame at bs s =
     (case frame of None \<Rightarrow> None
      | Some f \<Rightarrow>
          if unat at + length bs \<le> 4096
          then Some (s\<lparr>fr_mem := (fr_mem s)(f := (\<lambda>i. if unat at \<le> i \<and> i < unat at + length bs then bs ! (i - unat at) else fr_mem s f i))\<rparr>)
          else None)"

definition buf_put :: "u64 \<Rightarrow> bytes \<Rightarrow> bytes \<Rightarrow> bytes option" where
  "buf_put at bs buffer =
     (if unat at + length bs \<le> length buffer
      then Some (take (unat at) buffer @ bs @ drop (unat at + length bs) buffer) else None)"

definition buf_get :: "u64 \<Rightarrow> u64 \<Rightarrow> bytes \<Rightarrow> bytes option" where
  "buf_get at n buffer =
     (if unat at + unat n \<le> length buffer then Some (take (unat n) (drop (unat at) buffer)) else None)"

text \<open>The signed quotient and remainder of an offset.\<close>

definition off_div :: "64 word \<Rightarrow> u64" where
  "off_div offset = (if 0 \<le> sint offset then offset div 4096 else - ((- offset) div 4096))"

definition off_mod :: "64 word \<Rightarrow> u64" where
  "off_mod offset = offset - off_div offset * 4096"


section \<open>Reading and writing\<close>

function read_blocks :: "tmpfs_file \<Rightarrow> frames \<Rightarrow> u64 \<Rightarrow> u64 \<Rightarrow> u64 \<Rightarrow> u64 \<Rightarrow> bytes \<Rightarrow> (u64 \<times> bytes) option" where
  "read_blocks t s offset b end_block blocks_read buffer =
     (if b < end_block then do {
        (frame, t', s') \<leftarrow> tmpfs_file_getset_block b 0 t s;
        (at, bs) \<leftarrow>
          (if b = off_div offset then do {
             bs \<leftarrow> load frame (offset mod 4096) (4096 - off_mod offset) s; Some (0, bs) }
           else do { bs \<leftarrow> load frame 0 4096 s; Some (4096 * blocks_read - off_mod offset, bs) });
        buffer \<leftarrow> buf_put at bs buffer;
        read_blocks t s offset (b + 1) end_block (blocks_read + 1) buffer
      } else Some (blocks_read, buffer))"
  by pat_completeness auto
termination
proof (relation "measure (\<lambda>(t, s, offset, b, e, r, buffer). unat e - unat b)")
  fix b e :: u64 assume b: "b < e"
  then have "unat (b + 1) = Suc (unat b)" "unat b < unat e"
    using unat_lt_64 [of e] by (auto simp: word_less_nat_alt intro!: unat_succ_64)
  then show "((t, s, offset, b + 1, e, r, buf), (t', s', offset', b, e, r', buf')) \<in> measure (\<lambda>(t, s, offset, b, e, r, buffer). unat e - unat b)"
    for t s offset r buf t' s' offset' r' buf'
    by simp
qed auto

declare read_blocks.simps [simp del]

text \<open>The part of \<open>read_tmpfs\<close> after the end of the range is known.\<close>

definition read_span :: "64 word \<Rightarrow> u64 \<Rightarrow> bytes \<Rightarrow> tmpfs_file \<Rightarrow> frames \<Rightarrow> (u64 \<times> bytes) option" where
  "read_span offset en buffer t s =
     (let start_block = off_div offset;
          end_block = en div 4096;
          end_size = en - end_block * 4096;
          size_to_read = en - offset
      in if start_block = end_block \<and> offset = en then Some (0, buffer)
         else if start_block = end_block then do {
           (frame, t', s') \<leftarrow> tmpfs_file_getset_block start_block 0 t s;
           bs \<leftarrow> load frame (offset mod 4096) size_to_read s;
           buffer \<leftarrow> buf_put 0 bs buffer;
           Some (size_to_read, buffer)
         } else do {
           (blocks_read, buffer) \<leftarrow> read_blocks t s offset start_block end_block 0 buffer;
           buffer \<leftarrow>
             (if end_size \<noteq> 0 then do {
                (frame, t', s') \<leftarrow> tmpfs_file_getset_block end_block 0 t s;
                bs \<leftarrow> load frame 0 end_size s;
                buf_put (4096 * blocks_read - off_mod offset) bs buffer
              } else Some buffer);
           Some (size_to_read, buffer)
         })"

definition read_tmpfs :: "64 word \<Rightarrow> u64 \<Rightarrow> bytes \<Rightarrow> u32 \<Rightarrow> tmpfs_file \<Rightarrow> frames \<Rightarrow> (u64 \<times> bytes \<times> tmpfs_file) option" where
  "read_tmpfs offset sz buffer now t s =
     (let t = t\<lparr>tf_atime := now\<rparr>;
          en = (if offset + sz > tf_length t then tf_length t else offset + sz)
      in do {
        (r, buffer) \<leftarrow> read_span offset en buffer t s;
        Some (r, buffer, t)
      })"

function write_blocks :: "64 word \<Rightarrow> u64 \<Rightarrow> u64 \<Rightarrow> u64 \<Rightarrow> bytes \<Rightarrow> tmpfs_file \<Rightarrow> frames \<Rightarrow> (u64 \<times> tmpfs_file \<times> frames) option" where
  "write_blocks offset b end_block blocks_read buffer t s =
     (if b < end_block then do {
        (frame, t, s) \<leftarrow> tmpfs_file_getset_block b 1 t s;
        s \<leftarrow>
          (if b = off_div offset then do {
             bs \<leftarrow> buf_get 0 (4096 - off_mod offset) buffer; store frame (offset mod 4096) bs s }
           else do { bs \<leftarrow> buf_get (4096 * blocks_read - off_mod offset) 4096 buffer; store frame 0 bs s });
        write_blocks offset (b + 1) end_block (blocks_read + 1) buffer t s
      } else Some (blocks_read, t, s))"
  by pat_completeness auto
termination
proof (relation "measure (\<lambda>(offset, b, e, r, buffer, t, s). unat e - unat b)")
  fix b e :: u64 assume b: "b < e"
  then have "unat (b + 1) = Suc (unat b)" "unat b < unat e"
    using unat_lt_64 [of e] by (auto simp: word_less_nat_alt intro!: unat_succ_64)
  then show "((offset, b + 1, e, r, buf, t, s), (offset', b, e, r', buf', t', s')) \<in> measure (\<lambda>(offset, b, e, r, buffer, t, s). unat e - unat b)"
    for t s offset r buf t' s' offset' r' buf'
    by simp
qed auto

declare write_blocks.simps [simp del]

definition write_span :: "64 word \<Rightarrow> u64 \<Rightarrow> bytes \<Rightarrow> tmpfs_file \<Rightarrow> frames \<Rightarrow> (u64 \<times> tmpfs_file \<times> frames) option" where
  "write_span offset en buffer t s =
     (let start_block = off_div offset;
          end_block = en div 4096;
          end_size = en - end_block * 4096;
          size_to_read = en - offset
      in if start_block = end_block then do {
           (frame, t, s) \<leftarrow> tmpfs_file_getset_block start_block 1 t s;
           bs \<leftarrow> buf_get 0 size_to_read buffer;
           s \<leftarrow> store frame (offset mod 4096) bs s;
           Some (size_to_read, t, s)
         } else do {
           (blocks_read, t, s) \<leftarrow> write_blocks offset start_block end_block 0 buffer t s;
           (t, s) \<leftarrow>
             (if end_size \<noteq> 0 then do {
                (frame, t, s) \<leftarrow> tmpfs_file_getset_block end_block 1 t s;
                bs \<leftarrow> buf_get (4096 * blocks_read - off_mod offset) end_size buffer;
                s \<leftarrow> store frame 0 bs s;
                Some (t, s)
              } else Some (t, s));
           Some (size_to_read, t, s)
         })"

definition write_tmpfs :: "64 word \<Rightarrow> u64 \<Rightarrow> bytes \<Rightarrow> u32 \<Rightarrow> tmpfs_file \<Rightarrow> frames \<Rightarrow> (u64 \<times> tmpfs_file \<times> frames) option" where
  "write_tmpfs offset sz buffer now t s =
     (let t = t\<lparr>tf_atime := now, tf_mtime := now\<rparr>;
          t = (if offset + sz > tf_length t then t\<lparr>tf_length := offset + sz\<rparr> else t)
      in write_span offset (offset + sz) buffer t s)"


section \<open>Attributes and truncation\<close>

definition chmod_tmpfs :: "u32 \<Rightarrow> tmpfs_file \<Rightarrow> tmpfs_file" where
  "chmod_tmpfs mode t = t\<lparr>tf_mask := mode\<rparr>"

definition chown_tmpfs :: "u32 \<Rightarrow> u32 \<Rightarrow> tmpfs_file \<Rightarrow> tmpfs_file" where
  "chown_tmpfs uid gid t =
     (let t = (if uid \<noteq> -1 then t\<lparr>tf_uid := uid\<rparr> else t)
      in if gid \<noteq> -1 then t\<lparr>tf_gid := gid\<rparr> else t)"

definition open_tmpfs :: "u32 \<Rightarrow> tmpfs_file \<Rightarrow> tmpfs_file" where
  "open_tmpfs now t = t\<lparr>tf_atime := now\<rparr>"

text \<open>The frames of a range of blocks are given back and the entries cleared.\<close>

fun release_blocks :: "nat list \<Rightarrow> tmpfs_file \<Rightarrow> frames \<Rightarrow> tmpfs_file \<times> frames" where
  "release_blocks [] t s = (t, s)"
| "release_blocks (i # is) t s =
     release_blocks is (t\<lparr>tf_blocks := (tf_blocks t)(i := 0)\<rparr>) (release_frame (tf_blocks t i) s)"

definition clear_bytes :: "u64 option \<Rightarrow> u64 \<Rightarrow> u64 \<Rightarrow> frames \<Rightarrow> frames option" where
  "clear_bytes frame at n s = (if unat n \<le> 4096 then store frame at (replicate (unat n) 0) s else None)"

definition truncate_tmpfs :: "u64 \<Rightarrow> u32 \<Rightarrow> tmpfs_file \<Rightarrow> frames \<Rightarrow> (tmpfs_file \<times> frames) option" where
  "truncate_tmpfs sz node_atime t s = do {
     (t, s) \<leftarrow>
       (if sz = tf_length t then Some (t, s)
        else
          let old_end_block = tf_length t div 4096;
              old_end_size = tf_length t - old_end_block * 4096;
              old_blocks = old_end_block + (if old_end_size \<noteq> 0 then 1 else 0);
              new_end_block = sz div 4096;
              new_end_size = sz - new_end_block * 4096;
              new_blocks = new_end_block + (if new_end_size \<noteq> 0 then 1 else 0)
          in if sz > tf_length t then
               if old_end_block = new_end_block then do {
                 (frame, t, s) \<leftarrow> tmpfs_file_getset_block old_end_block 0 t s;
                 s \<leftarrow> clear_bytes frame old_end_size (new_end_size - old_end_size) s;
                 Some (t\<lparr>tf_length := sz\<rparr>, s)
               } else do {
                 (frame, t, s) \<leftarrow> tmpfs_file_getset_block new_end_block 2 t s;
                 (frame, t, s) \<leftarrow> tmpfs_file_getset_block old_end_block 0 t s;
                 s \<leftarrow> clear_bytes frame old_end_size (4096 - old_end_size) s;
                 Some (t\<lparr>tf_length := sz\<rparr>, s)
               }
             else if sz = 0 then
               let (t, s) = release_blocks [0..<unat (tf_block_count t)] t s
               in Some (t\<lparr>tf_block_count := 0, tf_length := 0\<rparr>, s)
             else
               let (t, s) = (if new_blocks < old_blocks
                             then let (t, s) = release_blocks [unat new_blocks..<unat old_blocks] t s
                                  in (t\<lparr>tf_block_count := new_blocks\<rparr>, s)
                             else (t, s))
               in Some (t\<lparr>tf_length := sz\<rparr>, s));
     Some (t\<lparr>tf_mtime := node_atime\<rparr>, s)
   }"


section \<open>Links\<close>

text \<open>The buffer's size is \<open>sz\<close>; the copy includes the terminator.  A zero size wraps.\<close>

definition readlink_tmpfs :: "u64 \<Rightarrow> bytes \<Rightarrow> tmpfs_file \<Rightarrow> (64 word \<times> bytes) option" where
  "readlink_tmpfs sz buf t =
     (if tf_type t \<noteq> TMPFS_TYPE_LINK then Some (-1, buf)
      else if unat sz < length (tf_target t) + 1 then
        if sz = 0 then None
        else do {
          buf \<leftarrow> buf_put 0 (take (unat sz - 1) (tf_target t)) buf;
          buf \<leftarrow> buf_put (sz - 1) [0] buf;
          Some (sz - 2, buf)
        }
      else do {
        buf \<leftarrow> buf_put 0 (tf_target t @ [0]) buf;
        Some (of_nat (length (tf_target t)), buf)
      })"


section \<open>The bytes of a file\<close>

definition cont :: "frames \<Rightarrow> tmpfs_file \<Rightarrow> nat \<Rightarrow> u8" where
  "cont s t i = fr_mem s (tf_blocks t (i div 4096)) (i mod 4096)"

definition bytes_at :: "frames \<Rightarrow> tmpfs_file \<Rightarrow> nat \<Rightarrow> nat \<Rightarrow> bytes" where
  "bytes_at s t off n = map (\<lambda>i. cont s t (off + i)) [0..<n]"

lemma length_bytes_at [simp]: "length (bytes_at s t off n) = n"
  by (simp add: bytes_at_def)

lemma bytes_at_append: "bytes_at s t off n @ bytes_at s t (off + n) k = bytes_at s t off (n + k)"
  by (rule nth_equalityI) (auto simp: bytes_at_def nth_append)

text \<open>
  A file owns the frames of its blocks: they are different from each other and from the free
  frames, and the array that lists them has room for them.
\<close>

definition blocks_ok :: "tmpfs_file \<Rightarrow> frames \<Rightarrow> bool" where
  "blocks_ok t s \<longleftrightarrow>
     tf_block_count t \<le> tf_pointers t \<and> 0 < tf_pointers t \<and> unat (tf_block_count t) < 2 ^ 51 \<and>
     inj_on (tf_blocks t) {..<unat (tf_block_count t)} \<and>
     tf_blocks t ` {..<unat (tf_block_count t)} \<inter> set (fr_free s) = {} \<and> distinct (fr_free s)"

definition file_ok :: "tmpfs_file \<Rightarrow> frames \<Rightarrow> bool" where
  "file_ok t s \<longleftrightarrow> blocks_ok t s \<and> unat (tf_length t) \<le> 4096 * unat (tf_block_count t)"

lemma cont_block: "a < 4096 \<Longrightarrow> cont s t (4096 * b + a) = fr_mem s (tf_blocks t b) a"
  by (simp add: cont_def)

lemma load_block:
  assumes "unat a + unat n \<le> 4096"
  shows "load (Some (tf_blocks t b)) a n s = Some (bytes_at s t (4096 * b + unat a) (unat n))"
  using assms by (auto simp: load_def bytes_at_def cont_block add.assoc intro!: map_cong)

lemma off_nonneg: "unat (w :: 64 word) < 2 ^ 63 \<Longrightarrow> 0 \<le> sint w"
  using sint_of_nat_63 [of "unat w"] by simp

lemma off_div_eq: "unat w < 2 ^ 63 \<Longrightarrow> off_div w = w div 4096"
  by (simp add: off_div_def off_nonneg)

lemma off_mod_eq: "unat w < 2 ^ 63 \<Longrightarrow> off_mod w = w mod 4096"
  by (simp add: off_mod_def off_div_eq minus_div_mult_eq_mod)

lemma unat_div_4096: "unat (w div 4096 :: 64 word) = unat w div 4096"
  by (simp add: unat_div_distrib)

lemma unat_mod_4096: "unat (w mod 4096 :: 64 word) = unat w mod 4096"
  by (simp add: unat_mod_distrib)

lemma getset_read:
  "unat b < unat (tf_block_count t) \<Longrightarrow> tmpfs_file_getset_block b 0 t s = Some (Some (tf_blocks t (unat b)), t, s)"
  by (simp add: tmpfs_file_getset_block_def word_le_nat_alt)

lemma buf_put_at:
  assumes "unat a = length xs" and "length bs \<le> length ys"
  shows "buf_put a bs (xs @ ys) = Some (xs @ bs @ drop (length bs) ys)"
  using assms by (simp add: buf_put_def)

text \<open>The loop over the blocks: before block \<open>b\<close> the buffer holds the bytes up to \<open>4096 * b\<close>.\<close>

lemma pos_step: "off div 4096 \<le> b \<Longrightarrow> off \<le> 4096 * Suc b" for off b :: nat
proof -
  assume "off div 4096 \<le> b"
  then have "off div 4096 * 4096 \<le> b * 4096" by simp
  moreover have "off mod 4096 < 4096" "off div 4096 * 4096 + off mod 4096 = off" by simp_all
  ultimately show ?thesis by simp
qed

lemma buffer_pos:
  assumes off: "unat offset < 2 ^ 63" and gt: "unat offset div 4096 < b" and r: "unat r = b - unat offset div 4096" and b: "4096 * b < 2 ^ 63"
  shows "unat (4096 * r - off_mod offset) = 4096 * b - unat offset"
proof -
  have om: "unat (off_mod offset) = unat offset mod 4096" using off by (simp add: off_mod_eq unat_mod_4096)
  have "unat r \<le> b" using r by simp
  then have "4096 * unat r < 2 ^ 63" using b by simp
  then have "unat (4096 * r) = 4096 * unat r" by (simp add: unat_word_ariths)
  moreover have "unat offset mod 4096 \<le> 4096 * unat r" using gt r by (cases "unat r") (auto simp: less_imp_le)
  ultimately have "unat (4096 * r - off_mod offset) = 4096 * unat r - unat offset mod 4096"
    using om by (subst unat_sub_64) (simp_all add: word_le_nat_alt)
  also have "\<dots> = 4096 * b - unat offset" using r gt by (simp add: algebra_simps minus_mod_eq_mult_div [symmetric])
  finally show ?thesis .
qed

lemma read_blocks_spec:
  assumes off: "unat offset < 2 ^ 63" and b: "unat offset div 4096 \<le> unat b" "unat b \<le> unat e"
    and e: "4096 * unat e < 2 ^ 63" and bc: "unat e \<le> unat (tf_block_count t)"
    and r: "unat r = unat b - unat offset div 4096"
    and room: "4096 * unat e - unat offset \<le> (4096 * unat b - unat offset) + length rest"
  shows "read_blocks t s offset b e r (bytes_at s t (unat offset) (4096 * unat b - unat offset) @ rest) =
    Some (of_nat (unat e - unat offset div 4096), bytes_at s t (unat offset) (4096 * unat e - unat offset) @
      drop ((4096 * unat e - unat offset) - (4096 * unat b - unat offset)) rest)"
  using b r room
proof (induction "unat e - unat b" arbitrary: b r rest)
  case 0
  then have "unat b = unat e" "\<not> b < e" by (simp_all add: word_less_nat_alt)
  moreover have "of_nat (unat e - unat offset div 4096) = r" using 0(4) calculation(1) by (metis of_nat_unat ucast_id)
  ultimately show ?case by (subst read_blocks.simps) simp
next
  case (Suc d)
  let ?o = "unat offset" and ?b = "unat b"
  have lt: "b < e" "?b < unat e" using Suc(2) by (simp_all add: word_less_nat_alt)
  have sb: "unat (b + 1) = Suc ?b" using lt(2) unat_lt_64 [of e] by (intro unat_succ_64) simp
  have sr: "unat (r + 1) = Suc (unat r)" using Suc(5) lt(2) unat_lt_64 [of e] by (intro unat_succ_64) simp
  have st: "?b div 1 = ?b" by simp
  define n where "n = (4096 * Suc ?b - ?o) - (4096 * ?b - ?o)"
  have g: "tmpfs_file_getset_block b 0 t s = Some (Some (tf_blocks t ?b), t, s)"
    using lt(2) bc by (intro getset_read) simp
  have om: "unat (off_mod offset) = ?o mod 4096" using off by (simp add: off_mod_eq unat_mod_4096)
  have lb: "4096 * (?o div 4096) \<le> ?o" by simp
  obtain a bs where ld: "(if b = off_div offset then do {
             bs \<leftarrow> load (Some (tf_blocks t ?b)) (offset mod 4096) (4096 - off_mod offset) s; Some (0, bs) }
           else do { bs \<leftarrow> load (Some (tf_blocks t ?b)) 0 4096 s; Some (4096 * r - off_mod offset, bs) }) = Some (a, bs)"
      "unat a = 4096 * ?b - ?o" "bs = bytes_at s t (?o + (4096 * ?b - ?o)) n"
  proof (cases "b = off_div offset")
    case True
    then have bb: "?b = ?o div 4096" using off by (simp add: off_div_eq unat_div_4096)
    have n: "unat (4096 - off_mod offset) = 4096 - ?o mod 4096"
      using om by (subst unat_sub_64) (simp_all add: word_le_nat_alt less_imp_le)
    have "4096 * ?b + ?o mod 4096 = ?o" using bb by simp
    then have "load (Some (tf_blocks t ?b)) (offset mod 4096) (4096 - off_mod offset) s = Some (bytes_at s t ?o (4096 - ?o mod 4096))"
      using load_block [of "offset mod 4096" "4096 - off_mod offset" t ?b s] n by (simp add: unat_mod_4096)
    moreover have "n = 4096 - ?o mod 4096" "4096 * ?b - ?o = 0" using bb by (auto simp: n_def minus_mult_div_eq_mod [symmetric])
    ultimately show ?thesis using that True by simp
  next
    case False
    then have "?b \<noteq> ?o div 4096" using off by (auto simp: off_div_eq unat_div_4096 word_unat_eq_iff)
    then have gt: "?o div 4096 < ?b" using Suc(3) by simp
    then have ge: "?o \<le> 4096 * ?b" using pos_step [of ?o "?b - 1"] by (cases ?b) auto
    have at: "unat (4096 * r - off_mod offset) = 4096 * ?b - ?o"
      using buffer_pos [OF off gt Suc(5)] lt(2) e by simp
    have "load (Some (tf_blocks t ?b)) 0 4096 s = Some (bytes_at s t (4096 * ?b) 4096)"
      using load_block [of 0 4096 t ?b s] by simp
    moreover have "n = 4096" "?o + (4096 * ?b - ?o) = 4096 * ?b" using ge by (simp_all add: n_def)
    ultimately show ?thesis using that False at by simp
  qed
  have le: "4096 * Suc ?b - ?o = (4096 * ?b - ?o) + n" by (simp add: n_def)
  have fit: "n \<le> length rest" using Suc(6) lt(2) le by simp
  have put: "buf_put a bs (bytes_at s t ?o (4096 * ?b - ?o) @ rest) = Some (bytes_at s t ?o (4096 * Suc ?b - ?o) @ drop n rest)"
    unfolding le bytes_at_append [symmetric]
    using buf_put_at [of a "bytes_at s t ?o (4096 * ?b - ?o)" bs rest] ld(2,3) fit by simp
  have "read_blocks t s offset b e r (bytes_at s t ?o (4096 * ?b - ?o) @ rest) =
      read_blocks t s offset (b + 1) e (r + 1) (bytes_at s t ?o (4096 * Suc ?b - ?o) @ drop n rest)"
    using lt(1) g ld(1) put by (subst read_blocks.simps) simp
  also have "\<dots> = Some (of_nat (unat e - ?o div 4096), bytes_at s t ?o (4096 * unat e - ?o) @
      drop ((4096 * unat e - ?o) - (4096 * Suc ?b - ?o) + n) rest)"
  proof -
    have "d = unat e - unat (b + 1)" using Suc(2) sb by simp
    moreover have "unat (r + 1) = unat (b + 1) - ?o div 4096" using sr Suc(3,5) sb by simp
    moreover have "4096 * unat e - ?o \<le> (4096 * unat (b + 1) - ?o) + length (drop n rest)" using Suc(6) fit le sb by simp
    ultimately show ?thesis using Suc(1) [of "b + 1" "r + 1" "drop n rest"] Suc(3) sb lt(2) by simp
  qed
  also have "(4096 * unat e - ?o) - (4096 * Suc ?b - ?o) + n = (4096 * unat e - ?o) - (4096 * ?b - ?o)"
    using diff_le_mono [of "4096 * Suc ?b" "4096 * unat e" ?o] lt(2) le by simp
  finally show ?case by (simp only: drop_drop add.commute)
qed

text \<open>Reading a range of the file that its blocks cover.\<close>

lemma range_in_block:
  assumes "off div 4096 = (off + n) div 4096"
  shows "off mod 4096 + n \<le> (4096 :: nat)"
proof -
  have "4096 * (off div 4096) + off mod 4096 + n = off + n" by simp
  moreover have "off + n < 4096 * ((off + n) div 4096) + 4096"
    using mod_less_divisor [of 4096 "off + n"] by (metis add_less_cancel_left mult_div_mod_eq zero_less_numeral)
  ultimately show ?thesis using assms by simp
qed

lemma block_of_lt: "off < 4096 * k \<Longrightarrow> off div 4096 < k" for off k :: nat
  by (simp add: less_mult_imp_div_less mult.commute)

lemma read_span_spec:
  assumes e: "unat en = unat offset + n" and bc: "unat en \<le> 4096 * unat (tf_block_count t)" "unat (tf_block_count t) < 2 ^ 51"
    and nb: "n \<le> length buffer"
  shows "read_span offset en buffer t s = Some (of_nat n, bytes_at s t (unat offset) n @ drop n buffer)"
proof -
  let ?o = "unat offset" and ?e = "en div 4096"
  have o63: "?o < 2 ^ 63" using e bc by simp
  have sr: "en - offset = of_nat n" using e by (metis add_diff_cancel_left' of_nat_add of_nat_unat ucast_id)
  have sb: "unat (off_div offset) = ?o div 4096" using off_div_eq [OF o63] unat_div_4096 by simp
  have n64: "unat (of_nat n :: u64) = n" using unat_lt_64 [of en] e by (intro unat_of_nat_64) simp
  have ue: "unat ?e = unat en div 4096" by (rule unat_div_4096)
  consider "n = 0" | "0 < n" "?o div 4096 = unat en div 4096" | "?o div 4096 < unat en div 4096"
    using e div_le_mono [of ?o "unat en" 4096] by linarith
  then show ?thesis
  proof cases
    case 1
    then have "offset = en" using e by (simp add: word_unat_eq_iff)
    moreover have "off_div offset = offset div 4096" by (rule off_div_eq [OF o63])
    ultimately show ?thesis using 1 by (simp add: read_span_def bytes_at_def)
  next
    case 2
    have ne: "offset \<noteq> en" using e 2(1) by (auto simp: word_unat_eq_iff)
    have same: "off_div offset = ?e" using 2(2) sb ue by (simp add: word_unat_eq_iff)
    have fit: "?o mod 4096 + n \<le> 4096" using range_in_block [of ?o n] 2(2) e by simp
    have lt: "?o div 4096 < unat (tf_block_count t)" using 2(1) e bc(1) by (intro block_of_lt) simp
    have g: "tmpfs_file_getset_block (off_div offset) 0 t s = Some (Some (tf_blocks t (?o div 4096)), t, s)"
      using getset_read [of "off_div offset" t s] lt sb by simp
    have "load (Some (tf_blocks t (?o div 4096))) (offset mod 4096) (of_nat n) s = Some (bytes_at s t ?o n)"
      using load_block [of "offset mod 4096" "of_nat n" t "?o div 4096" s] fit n64 by (simp add: unat_mod_4096)
    moreover have "buf_put 0 (bytes_at s t ?o n) buffer = Some (bytes_at s t ?o n @ drop n buffer)"
      using buf_put_at [of 0 "[]" "bytes_at s t ?o n" buffer] nb by simp
    ultimately show ?thesis using ne g sr same by (simp add: read_span_def Let_def)
  next
    case 3
    have ne: "off_div offset \<noteq> ?e" using 3 sb ue by (auto simp: word_unat_eq_iff)
    have e4: "4096 * unat ?e \<le> unat en" unfolding ue by simp
    have oe: "?o \<le> 4096 * unat ?e" using pos_step [of ?o "unat ?e - 1"] 3 ue by (cases "unat ?e") auto
    have "read_blocks t s offset (off_div offset) ?e 0 (bytes_at s t ?o (4096 * unat (off_div offset) - ?o) @ buffer) =
      Some (of_nat (unat ?e - ?o div 4096), bytes_at s t ?o (4096 * unat ?e - ?o) @
        drop ((4096 * unat ?e - ?o) - (4096 * unat (off_div offset) - ?o)) buffer)"
      by (rule read_blocks_spec [OF o63]) (use sb 3 ue e4 bc e nb in auto)
    moreover have "4096 * unat (off_div offset) - ?o = 0" using sb by simp
    ultimately have rb: "read_blocks t s offset (off_div offset) ?e 0 buffer =
      Some (of_nat (unat ?e - ?o div 4096), bytes_at s t ?o (4096 * unat ?e - ?o) @ drop (4096 * unat ?e - ?o) buffer)"
      by (simp add: bytes_at_def)
    define k where "k = 4096 * unat ?e - ?o"
    have k: "n = k + unat en mod 4096" "?o + k = 4096 * unat ?e"
      using e oe ue minus_mult_div_eq_mod [of "unat en" 4096] by (auto simp: k_def)
    have es: "en - ?e * 4096 = en mod 4096" by (rule minus_div_mult_eq_mod)
    show ?thesis
    proof (cases "en mod 4096 = 0")
      case True
      then have "unat en mod 4096 = 0" using unat_mod_4096 [of en] by simp
      then show ?thesis using ne rb sr es True k by (simp add: read_span_def Let_def k_def [symmetric])
    next
      case False
      have "unat en mod 4096 \<noteq> 0" using False unat_mod_4096 [of en] by (auto simp: word_unat_eq_iff)
      then have "4096 * unat ?e < unat en" using ue minus_mult_div_eq_mod [of "unat en" 4096] by linarith
      then have lt: "unat ?e < unat (tf_block_count t)" using bc(1) by simp
      have g: "tmpfs_file_getset_block ?e 0 t s = Some (Some (tf_blocks t (unat ?e)), t, s)" by (rule getset_read [OF lt])
      have ld: "load (Some (tf_blocks t (unat ?e))) 0 (en mod 4096) s = Some (bytes_at s t (?o + k) (unat en mod 4096))"
        using load_block [of 0 "en mod 4096" t "unat ?e" s] k(2) by (simp add: unat_mod_4096 less_imp_le)
      have rr: "unat (of_nat (unat ?e - ?o div 4096) :: u64) = unat ?e - ?o div 4096"
        using unat_lt_64 [of ?e] by (intro unat_of_nat_64) simp
      have at: "unat (4096 * of_nat (unat ?e - ?o div 4096) - off_mod offset) = k"
        unfolding k_def by (rule buffer_pos [OF o63 _ rr]) (use 3 ue in simp, use le_less_trans [OF e4] bc in auto)
      have "buf_put (4096 * of_nat (unat ?e - ?o div 4096) - off_mod offset) (bytes_at s t (?o + k) (unat en mod 4096))
          (bytes_at s t ?o k @ drop k buffer) = Some (bytes_at s t ?o n @ drop n buffer)"
        using buf_put_at [of "4096 * of_nat (unat ?e - ?o div 4096) - off_mod offset" "bytes_at s t ?o k"
            "bytes_at s t (?o + k) (unat en mod 4096)" "drop k buffer"] at nb k(1)
          bytes_at_append [of s t ?o k "unat en mod 4096"] by (simp add: add.commute append_assoc [symmetric] del: append_assoc)
      then show ?thesis using ne rb sr es False g ld by (simp add: read_span_def Let_def k_def [symmetric])
    qed
  qed
qed

lemma read_tmpfs_spec:
  assumes ok: "file_ok t s" and off: "unat offset \<le> unat (tf_length t)"
    and sz: "length buffer = unat sz" "unat offset + unat sz < 2 ^ 64"
    and n: "n = min (unat sz) (unat (tf_length t) - unat offset)"
  shows "read_tmpfs offset sz buffer now t s =
    Some (of_nat n, bytes_at s t (unat offset) n @ drop n buffer, t\<lparr>tf_atime := now\<rparr>)"
proof -
  let ?t = "t\<lparr>tf_atime := now\<rparr>"
  define en where "en = (if offset + sz > tf_length t then tf_length t else offset + sz)"
  have bc: "unat (tf_length t) \<le> 4096 * unat (tf_block_count t)" "unat (tf_block_count t) < 2 ^ 51"
    using ok by (simp_all add: file_ok_def blocks_ok_def)
  have e: "unat en = unat offset + n"
    using off unat_add_64 [OF sz(2)] by (auto simp: en_def n word_less_nat_alt min_def)
  moreover have "n \<le> unat (tf_length t) - unat offset" using n by simp
  ultimately have "unat en \<le> unat (tf_length t)" using off by simp
  then have "read_span offset en buffer ?t s = Some (of_nat n, bytes_at s ?t (unat offset) n @ drop n buffer)"
    using bc n sz(1) by (intro read_span_spec [OF e]) simp_all
  moreover have "bytes_at s ?t = bytes_at s t" by (simp add: bytes_at_def cont_def fun_eq_iff)
  ultimately show ?thesis by (cases "offset + sz > tf_length t") (simp_all add: read_tmpfs_def en_def)
qed

text \<open>A read that starts behind the end of the file writes outside of the buffer.\<close>

lemma read_past_end_spec:
  assumes "unat (tf_length t) < unat offset" and "unat offset < 2 ^ 63" and "unat offset + unat sz < 2 ^ 64"
    and "unat (tf_length t) div 4096 = unat offset div 4096" and "length buffer = unat sz"
  shows "read_tmpfs offset sz buffer now t s = None"
proof -
  let ?l = "tf_length t"
  have le: "offset + sz > ?l" using unat_add_64 [OF assms(3)] assms(1) by (simp add: word_less_nat_alt)
  have same: "off_div offset = ?l div 4096" using assms(2,4) by (simp add: off_div_eq word_unat_eq_iff unat_div_4096)
  have ne: "offset \<noteq> ?l" using assms(1) by auto
  have lt: "?l < offset" using assms(1) by (simp add: word_less_nat_alt)
  have "unat (?l - offset) = 2 ^ 64 + unat ?l - unat offset"
    using lt assms(1) by (simp add: unat_sub_if_size word_size word_le_nat_alt)
  then have "4096 < unat (?l - offset)" using assms(2) by simp
  then show ?thesis using le same ne
    by (simp add: read_tmpfs_def read_span_def Let_def load_def tmpfs_file_getset_block_def split: option.splits)
qed

section \<open>Growing a file\<close>

lemma embiggen_spec:
  assumes "0 < unat p" and "unat b < 2 ^ 62"
  shows "\<exists>p'. tmpfs_file_blocks_embiggen b p = Some p' \<and> b < p' \<and> p \<le> p'"
  using assms
proof (induction "unat b + 1 - unat p" arbitrary: p rule: less_induct)
  case less
  show ?case
  proof (cases "b \<ge> p")
    case False
    then show ?thesis by (subst tmpfs_file_blocks_embiggen.simps) (auto simp: not_le)
  next
    case True
    then have le: "unat p \<le> unat b" by (simp add: word_le_nat_alt)
    then have d: "unat (p * 2) = 2 * unat p" using less.prems(2) by (simp add: unat_word_ariths)
    obtain p' where "tmpfs_file_blocks_embiggen b (p * 2) = Some p'" "b < p'" "p * 2 \<le> p'"
    proof -
      have "unat b + 1 - unat (p * 2) < unat b + 1 - unat p" using d le less.prems(1) by linarith
      then show thesis using less.hyps [of "p * 2"] d less.prems that by auto
    qed
    moreover have "p \<le> p * 2" using d by (simp add: word_le_nat_alt)
    ultimately show ?thesis using True by (subst tmpfs_file_blocks_embiggen.simps) auto
  qed
qed

text \<open>More blocks, the same bytes in those that were there.\<close>

definition grown :: "tmpfs_file \<Rightarrow> frames \<Rightarrow> tmpfs_file \<Rightarrow> frames \<Rightarrow> bool" where
  "grown t s t' s' \<longleftrightarrow> blocks_ok t' s' \<and> tf_length t' = tf_length t \<and> unat (tf_block_count t) \<le> unat (tf_block_count t') \<and>
     unat (tf_block_count t') + length (fr_free s') = unat (tf_block_count t) + length (fr_free s) \<and>
     (\<forall>i < 4096 * unat (tf_block_count t). cont s' t' i = cont s t i)"

lemma grown_refl: "blocks_ok t s \<Longrightarrow> grown t s t s"
  by (simp add: grown_def)

lemma grown_trans: "grown t s t' s' \<Longrightarrow> grown t' s' t'' s'' \<Longrightarrow> grown t s t'' s''"
  by (auto simp: grown_def)

definition cleared :: "tmpfs_file \<Rightarrow> tmpfs_file \<Rightarrow> frames \<Rightarrow> bool" where
  "cleared t t' s' \<longleftrightarrow> (\<forall>i. 4096 * unat (tf_block_count t) \<le> i \<and> i < 4096 * unat (tf_block_count t') \<longrightarrow> cont s' t' i = 0)"

lemma add_one_block:
  fixes create :: nat
  assumes ok: "blocks_ok t s" and free: "fr_free s = f # rest" and b: "unat (tf_block_count t) + 1 < 2 ^ 51"
    and p: "tf_block_count t < tf_pointers t"
  defines "t' \<equiv> t\<lparr>tf_blocks := (tf_blocks t)(unat (tf_block_count t) := f), tf_block_count := tf_block_count t + 1\<rparr>"
    and "s' \<equiv> (if create = 2 then zero_frame f (s\<lparr>fr_free := rest, fr_total := fr_total s + 1\<rparr>) else s\<lparr>fr_free := rest, fr_total := fr_total s + 1\<rparr>)"
  shows "grown t s t' s' \<and> unat (tf_block_count t') = unat (tf_block_count t) + 1 \<and> (create = 2 \<longrightarrow> cleared t t' s')"
proof -
  let ?n = "unat (tf_block_count t)"
  have inj: "inj_on (tf_blocks t) {..<?n}" and dis: "tf_blocks t ` {..<?n} \<inter> set (fr_free s) = {}"
      "distinct (fr_free s)"
    using ok by (simp_all add: blocks_ok_def)
  have c: "unat (tf_block_count t') = ?n + 1"
    unfolding t'_def using b by (simp add: unat_succ_64 less_trans)
  have old: "tf_blocks t i \<noteq> f" if "i < ?n" for i using dis(1) free that by auto
  have fs: "fr_free s' = rest" by (simp add: s'_def zero_frame_def)
  have bl: "tf_blocks t' i = (if i = ?n then f else tf_blocks t i)" for i by (simp add: t'_def)
  have mem: "fr_mem s' g = fr_mem s g" if "g \<noteq> f" for g using that by (simp add: s'_def zero_frame_def)
  have z: "fr_mem s' f a = 0" if "create = 2" "a < 4096" for a using that by (simp add: s'_def zero_frame_def)
  have "inj_on (tf_blocks t') {..<Suc ?n}"
    using inj old by (auto simp: bl inj_on_def lessThan_Suc split: if_splits)
  moreover have "tf_blocks t' ` {..<Suc ?n} \<inter> set rest = {}"
    using dis free by (auto simp: bl lessThan_Suc split: if_splits)
  moreover have "tf_block_count t' \<le> tf_pointers t'" "0 < tf_pointers t'"
    using p c ok by (simp_all add: t'_def word_le_nat_alt word_less_nat_alt blocks_ok_def)
  ultimately have "blocks_ok t' s'"
    unfolding blocks_ok_def using c fs dis(2) free b by simp
  moreover have "cont s' t' i = cont s t i" if "i < 4096 * ?n" for i
  proof -
    have "i div 4096 < ?n" using that by (rule block_of_lt)
    then show ?thesis using old mem by (simp add: cont_def bl)
  qed
  moreover have "cleared t t' s'" if "create = 2"
    unfolding cleared_def
  proof (intro allI impI)
    fix i assume i: "4096 * ?n \<le> i \<and> i < 4096 * unat (tf_block_count t')"
    then have "i div 4096 = ?n" using c by (intro div_nat_eqI) auto
    then show "cont s' t' i = 0" using z [OF that] by (simp add: cont_def bl)
  qed
  ultimately show ?thesis using c fs free by (simp add: grown_def t'_def)
qed

lemma add_blocks_spec:
  assumes "blocks_ok t s" and "unat b + 1 < 2 ^ 51" and "b < tf_pointers t"
    and "unat b + 1 \<le> unat (tf_block_count t) + length (fr_free s)"
  shows "\<exists>t' s'. add_blocks b create t s = Some (t', s') \<and> grown t s t' s' \<and>
    unat (tf_block_count t') = max (unat (tf_block_count t)) (unat b + 1) \<and> (create = 2 \<longrightarrow> cleared t t' s')"
  using assms
proof (induction "length (fr_free s)" arbitrary: t s)
  case 0
  then have "\<not> tf_block_count t \<le> b" "\<not> unat (tf_block_count t) \<le> unat b" by (simp_all add: word_le_nat_alt)
  then show ?case using 0(2) by (subst add_blocks.simps) (auto simp: grown_refl cleared_def max_def)
next
  case (Suc n)
  show ?case
  proof (cases "tf_block_count t \<le> b")
    case False
    then have "\<not> unat (tf_block_count t) \<le> unat b" by (simp add: word_le_nat_alt)
    then show ?thesis using Suc(3) False by (subst add_blocks.simps) (auto simp: grown_refl cleared_def max_def)
  next
    case True
    obtain f rest where free: "fr_free s = f # rest" using Suc(2) by (cases "fr_free s") auto
    have le: "unat (tf_block_count t) \<le> unat b" using True by (simp add: word_le_nat_alt)
    have p: "tf_block_count t < tf_pointers t" using True Suc(5) by simp
    define t1 where "t1 = t\<lparr>tf_blocks := (tf_blocks t)(unat (tf_block_count t) := f), tf_block_count := tf_block_count t + 1\<rparr>"
    define s1 where "s1 = (if create = 2 then zero_frame f (s\<lparr>fr_free := rest, fr_total := fr_total s + 1\<rparr>) else s\<lparr>fr_free := rest, fr_total := fr_total s + 1\<rparr>)"
    have one: "grown t s t1 s1" "unat (tf_block_count t1) = unat (tf_block_count t) + 1" "create = 2 \<longrightarrow> cleared t t1 s1"
      using add_one_block [OF Suc(3) free _ p, of create] le Suc(4) unfolding t1_def s1_def by auto
    have run: "add_blocks b create t s = add_blocks b create t1 s1"
      using True free p [THEN not_le [THEN iffD2]] unfolding t1_def s1_def by (subst add_blocks.simps) (simp add: Let_def)
    have fr: "fr_free s1 = rest" by (simp add: s1_def zero_frame_def)
    have "blocks_ok t1 s1" using one(1) by (simp add: grown_def)
    moreover have "b < tf_pointers t1" using Suc(5) by (simp add: t1_def)
    moreover have "unat b + 1 \<le> unat (tf_block_count t1) + length (fr_free s1)" using one(2) fr free Suc(6) by simp
    moreover have "n = length (fr_free s1)" using fr free Suc(2) by simp
    ultimately obtain t' s' where r: "add_blocks b create t1 s1 = Some (t', s')" "grown t1 s1 t' s'"
        "unat (tf_block_count t') = max (unat (tf_block_count t1)) (unat b + 1)" "create = 2 \<longrightarrow> cleared t1 t' s'"
      using Suc(1) [of s1 t1] Suc(4) by blast
    have "cleared t t' s'" if "create = 2"
      unfolding cleared_def
    proof (intro allI impI)
      fix i assume i: "4096 * unat (tf_block_count t) \<le> i \<and> i < 4096 * unat (tf_block_count t')"
      show "cont s' t' i = 0"
      proof (cases "i < 4096 * unat (tf_block_count t1)")
        case True
        then have "cont s' t' i = cont s1 t1 i" using r(2) by (simp add: grown_def)
        then show ?thesis using one(3) that i True by (simp add: cleared_def)
      next
        case False
        then show ?thesis using r(4) that i by (simp add: cleared_def)
      qed
    qed
    moreover have "grown t s t' s'" by (rule grown_trans [OF one(1) r(2)])
    ultimately show ?thesis using run r(1,3) one(2) le by auto
  qed
qed

lemma getset_create:
  assumes ok: "blocks_ok t s" and b: "unat b + 1 < 2 ^ 51" and mem: "unat b + 1 \<le> unat (tf_block_count t) + length (fr_free s)"
    and c: "create \<noteq> 0"
  obtains t' s' where "tmpfs_file_getset_block b create t s = Some (Some (tf_blocks t' (unat b)), t', s')" and "grown t s t' s'"
    and "unat (tf_block_count t') = max (unat (tf_block_count t)) (unat b + 1)" and "create = 2 \<Longrightarrow> cleared t t' s'"
proof -
  have pz: "0 < unat (tf_pointers t)" using ok by (simp add: blocks_ok_def word_less_nat_alt)
  obtain p where p: "tmpfs_file_blocks_embiggen b (tf_pointers t) = Some p" "b < p" "tf_pointers t \<le> p"
    using embiggen_spec [OF pz, of b] b by auto
  let ?t = "t\<lparr>tf_pointers := p\<rparr>"
  have "blocks_ok ?t s" using ok p(2,3) unfolding blocks_ok_def by (auto simp: word_gt_0 intro: order_trans)
  then obtain t' s' where r: "add_blocks b create ?t s = Some (t', s')" "grown ?t s t' s'"
      "unat (tf_block_count t') = max (unat (tf_block_count t)) (unat b + 1)" "create = 2 \<longrightarrow> cleared ?t t' s'"
    using add_blocks_spec [of ?t s b create] b p(2) mem by auto
  have "grown t s t' s'" using r(2) by (simp add: grown_def cont_def)
  then show thesis using that [of t' s'] r p(1) c by (simp add: tmpfs_file_getset_block_def cleared_def)
qed

section \<open>Writing\<close>

text \<open>
  The bytes from \<open>lo\<close> to \<open>hi\<close> of the file are those of the buffer that is written at \<open>off\<close>;
  the other bytes that the file had are kept.
\<close>

definition wrote :: "bytes \<Rightarrow> nat \<Rightarrow> nat \<Rightarrow> nat \<Rightarrow> tmpfs_file \<Rightarrow> frames \<Rightarrow> tmpfs_file \<Rightarrow> frames \<Rightarrow> bool" where
  "wrote buf off lo hi t s t' s' \<longleftrightarrow> blocks_ok t' s' \<and> tf_length t' = tf_length t \<and>
     unat (tf_block_count t) \<le> unat (tf_block_count t') \<and> hi \<le> 4096 * unat (tf_block_count t') \<and>
     unat (tf_block_count t') + length (fr_free s') = unat (tf_block_count t) + length (fr_free s) \<and>
     (\<forall>i. lo \<le> i \<and> i < hi \<longrightarrow> cont s' t' i = buf ! (i - off)) \<and>
     (\<forall>i < 4096 * unat (tf_block_count t). i < lo \<or> hi \<le> i \<longrightarrow> cont s' t' i = cont s t i)"

lemma wrote_trans:
  assumes a: "wrote buf off lo mid t s t1 s1" and b: "wrote buf off mid hi t1 s1 t2 s2" and "lo \<le> mid" "mid \<le> hi"
  shows "wrote buf off lo hi t s t2 s2"
  unfolding wrote_def
proof (intro conjI allI impI)
  fix i
  show "cont s2 t2 i = buf ! (i - off)" if "lo \<le> i \<and> i < hi"
  proof (cases "i < mid")
    case True
    then have "cont s2 t2 i = cont s1 t1 i" using a b by (simp add: wrote_def)
    then show ?thesis using a that True by (simp add: wrote_def)
  qed (use b that in \<open>simp add: wrote_def\<close>)
  show "cont s2 t2 i = cont s t i" if "i < 4096 * unat (tf_block_count t)" "i < lo \<or> hi \<le> i"
    using a b that assms(3,4) unfolding wrote_def by auto
qed (use a b in \<open>simp_all add: wrote_def\<close>)

lemma store_block:
  assumes ok: "blocks_ok t s" and b: "b < unat (tf_block_count t)" and fit: "unat a + length bs \<le> 4096"
  obtains s' where "store (Some (tf_blocks t b)) a bs s = Some s'" and "blocks_ok t s'" and "fr_free s' = fr_free s"
    and "\<And>i. i < 4096 * unat (tf_block_count t) \<Longrightarrow> cont s' t i =
      (if 4096 * b + unat a \<le> i \<and> i < 4096 * b + unat a + length bs then bs ! (i - (4096 * b + unat a)) else cont s t i)"
proof -
  let ?f = "tf_blocks t b"
  let ?s = "s\<lparr>fr_mem := (fr_mem s)(?f := (\<lambda>i. if unat a \<le> i \<and> i < unat a + length bs then bs ! (i - unat a) else fr_mem s ?f i))\<rparr>"
  have run: "store (Some ?f) a bs s = Some ?s" using fit by (simp add: store_def)
  have ct: "cont ?s t i = (if 4096 * b + unat a \<le> i \<and> i < 4096 * b + unat a + length bs then bs ! (i - (4096 * b + unat a)) else cont s t i)"
    if i: "i < 4096 * unat (tf_block_count t)" for i
  proof (cases "i div 4096 = b")
    case True
    then have "i = 4096 * b + i mod 4096" by (metis mult_div_mod_eq)
    then have r: "4096 * b + unat a \<le> i \<and> i < 4096 * b + unat a + length bs \<longleftrightarrow> unat a \<le> i mod 4096 \<and> i mod 4096 < unat a + length bs"
        "i - (4096 * b + unat a) = i mod 4096 - unat a"
      by linarith+
    then show ?thesis using True by (simp add: cont_def)
  next
    case False
    have "i div 4096 < unat (tf_block_count t)" using i by (rule block_of_lt)
    then have "tf_blocks t (i div 4096) \<noteq> ?f"
      using ok b False by (auto simp: blocks_ok_def inj_on_def)
    moreover have "\<not> (4096 * b + unat a \<le> i \<and> i < 4096 * b + unat a + length bs)"
    proof
      assume "4096 * b + unat a \<le> i \<and> i < 4096 * b + unat a + length bs"
      then have "4096 * b \<le> i" "i < 4096 * Suc b" using fit by simp_all
      then have "i div 4096 = b" by (intro div_nat_eqI) (simp_all add: mult.commute)
      then show False using False by simp
    qed
    ultimately show ?thesis unfolding cont_def by auto
  qed
  show thesis by (rule that [OF run _ _ ct]) (use ok in \<open>simp_all add: blocks_ok_def\<close>)
qed

lemma write_piece:
  assumes ok: "blocks_ok t s" and b: "unat b + 1 < 2 ^ 51" and mem: "unat b + 1 \<le> unat (tf_block_count t) + length (fr_free s)"
    and fit: "unat a + n \<le> 4096" and bs: "bs = take n (drop (4096 * unat b + unat a - off) buf)" "length bs = n"
    and lo: "off \<le> 4096 * unat b + unat a"
  obtains frame t1 s1 s2 where "tmpfs_file_getset_block b 1 t s = Some (frame, t1, s1)" and "store frame a bs s1 = Some s2"
    and "wrote buf off (4096 * unat b + unat a) (4096 * unat b + unat a + n) t s t1 s2"
proof -
  let ?p = "4096 * unat b + unat a"
  obtain t1 s1 where g: "tmpfs_file_getset_block b 1 t s = Some (Some (tf_blocks t1 (unat b)), t1, s1)" "grown t s t1 s1"
      "unat (tf_block_count t1) = max (unat (tf_block_count t)) (unat b + 1)"
    using getset_create [OF ok b mem, of 1] by auto
  have ok1: "blocks_ok t1 s1" and lt: "unat b < unat (tf_block_count t1)" using g(2,3) by (auto simp: grown_def)
  obtain s2 where st: "store (Some (tf_blocks t1 (unat b))) a bs s1 = Some s2" "blocks_ok t1 s2" "fr_free s2 = fr_free s1"
      "\<And>i. i < 4096 * unat (tf_block_count t1) \<Longrightarrow> cont s2 t1 i = (if ?p \<le> i \<and> i < ?p + length bs then bs ! (i - ?p) else cont s1 t1 i)"
    using store_block [OF ok1 lt, of a bs] fit bs(2) by auto
  have en: "?p + n \<le> 4096 * unat (tf_block_count t1)" using lt fit by simp
  have "wrote buf off ?p (?p + n) t s t1 s2"
    unfolding wrote_def
  proof (intro conjI allI impI)
    fix i
    show "cont s2 t1 i = buf ! (i - off)" if i: "?p \<le> i \<and> i < ?p + n"
    proof -
      have "cont s2 t1 i = bs ! (i - ?p)" using st(4) [of i] i en bs(2) by simp
      also have "\<dots> = buf ! (i - off)" using bs i lo by (auto simp: nth_drop)
      finally show ?thesis .
    qed
    show "cont s2 t1 i = cont s t i" if "i < 4096 * unat (tf_block_count t)" "i < ?p \<or> ?p + n \<le> i"
      using st(4) [of i] that bs(2) g(2,3) unfolding grown_def by (auto simp: less_le_trans)
  qed (use st g en in \<open>simp_all add: grown_def\<close>)
  then show thesis using that [OF g(1) st(1)] by blast
qed

lemma buf_get_at: "unat a + unat n \<le> length buf \<Longrightarrow> buf_get a n buf = Some (take (unat n) (drop (unat a) buf))"
  by (simp add: buf_get_def)

lemma wrote_refl: "blocks_ok t s \<Longrightarrow> hi \<le> 4096 * unat (tf_block_count t) \<Longrightarrow> wrote buf off hi hi t s t s"
  by (auto simp: wrote_def)

lemma write_blocks_spec:
  assumes off: "unat offset < 2 ^ 63" and e: "unat e + 1 < 2 ^ 51"
    and b: "unat offset div 4096 \<le> unat b" "unat b < unat e"
    and r: "unat r = unat b - unat offset div 4096" and len: "4096 * unat e \<le> unat offset + length buf"
    and ok: "blocks_ok t s" and mem: "unat e \<le> unat (tf_block_count t) + length (fr_free s)"
  shows "\<exists>t' s'. write_blocks offset b e r buf t s = Some (of_nat (unat e - unat offset div 4096), t', s') \<and>
    wrote buf (unat offset) (max (unat offset) (4096 * unat b)) (4096 * unat e) t s t' s'"
  using b r ok mem
proof (induction "unat e - unat b" arbitrary: b r t s)
  case 0
  then show ?case by simp
next
  case (Suc d)
  let ?o = "unat offset" and ?b = "unat b"
  let ?lo = "max ?o (4096 * ?b)"
  have lt: "b < e" using Suc(4) by (simp add: word_less_nat_alt)
  have sb: "unat (b + 1) = Suc ?b" using Suc(4) unat_lt_64 [of e] by (intro unat_succ_64) simp
  have sr: "unat (r + 1) = Suc (unat r)" using Suc(4,5) unat_lt_64 [of e] by (intro unat_succ_64) simp
  have om: "unat (off_mod offset) = ?o mod 4096" using off by (simp add: off_mod_eq unat_mod_4096)
  have ub: "4096 * Suc ?b \<le> ?o + length buf" using Suc(4) len by simp
  have hi: "?o \<le> 4096 * Suc ?b" by (rule pos_step [OF Suc(3)])
  obtain frame t1 s1 s2 where w: "tmpfs_file_getset_block b 1 t s = Some (frame, t1, s1)"
      "(if b = off_div offset then do {
             bs \<leftarrow> buf_get 0 (4096 - off_mod offset) buf; store frame (offset mod 4096) bs s1 }
           else do { bs \<leftarrow> buf_get (4096 * r - off_mod offset) 4096 buf; store frame 0 bs s1 }) = Some s2"
      "wrote buf ?o ?lo (4096 * Suc ?b) t s t1 s2"
  proof (cases "b = off_div offset")
    case True
    then have bb: "?b = ?o div 4096" using off by (simp add: off_div_eq unat_div_4096)
    have n: "unat (4096 - off_mod offset) = 4096 - ?o mod 4096"
      using om by (subst unat_sub_64) (simp_all add: word_le_nat_alt less_imp_le)
    have p: "4096 * ?b + ?o mod 4096 = ?o" using bb by simp
    have up: "4096 * ?b + 4096 = ?o + (4096 - ?o mod 4096)"
    proof -
      have "?o mod 4096 < 4096" by simp
      then show ?thesis using p by linarith
    qed
    have get: "buf_get 0 (4096 - off_mod offset) buf = Some (take (4096 - ?o mod 4096) buf)"
      using buf_get_at [of 0 "4096 - off_mod offset" buf] n ub up by simp
    have lo: "?lo = ?o" and hi': "4096 * Suc ?b = ?o + (4096 - ?o mod 4096)" using p up by simp_all
    obtain frame t1 s1 s2 where wp: "tmpfs_file_getset_block b 1 t s = Some (frame, t1, s1)"
        "store frame (offset mod 4096) (take (4096 - ?o mod 4096) buf) s1 = Some s2"
        "wrote buf ?o (4096 * ?b + unat (offset mod 4096)) (4096 * ?b + unat (offset mod 4096) + (4096 - ?o mod 4096)) t s t1 s2"
      by (rule write_piece [OF Suc(6), of b "offset mod 4096" "4096 - ?o mod 4096" "take (4096 - ?o mod 4096) buf" ?o buf])
        (use Suc(4,7) e ub up p in \<open>simp_all add: unat_mod_4096\<close>)
    have "wrote buf ?o ?lo (4096 * Suc ?b) t s t1 s2" using wp(3) unfolding lo hi' unat_mod_4096 p .
    then show thesis using that [of frame t1 s1 s2] True get wp(1,2) by simp
  next
    case False
    then have "?b \<noteq> ?o div 4096" using off by (auto simp: off_div_eq unat_div_4096 word_unat_eq_iff)
    then have gt: "?o div 4096 < ?b" using Suc(3) by simp
    then have ge: "?o \<le> 4096 * ?b" using pos_step [of ?o "?b - 1"] by (cases ?b) auto
    have at: "unat (4096 * r - off_mod offset) = 4096 * ?b - ?o"
      using buffer_pos [OF off gt Suc(5)] Suc(4) e by simp
    have get: "buf_get (4096 * r - off_mod offset) 4096 buf = Some (take 4096 (drop (4096 * ?b - ?o) buf))"
      using buf_get_at [of "4096 * r - off_mod offset" 4096 buf] at ub ge by simp
    obtain frame t1 s1 s2 where "tmpfs_file_getset_block b 1 t s = Some (frame, t1, s1)"
        "store frame 0 (take 4096 (drop (4096 * ?b - ?o) buf)) s1 = Some s2"
        "wrote buf ?o (4096 * ?b + unat (0 :: u64)) (4096 * ?b + unat (0 :: u64) + 4096) t s t1 s2"
      by (rule write_piece [OF Suc(6), of b 0 4096 "take 4096 (drop (4096 * ?b - ?o) buf)" ?o buf])
        (use Suc(4,7) e ub ge in simp_all)
    then show thesis using that [of frame t1 s1 s2] False get ge by (simp add: max_def add.commute)
  qed
  have run: "write_blocks offset b e r buf t s = write_blocks offset (b + 1) e (r + 1) buf t1 s2"
    using lt w(1,2) by (subst write_blocks.simps) (simp cong: if_cong)
  show ?case
  proof (cases "Suc ?b = unat e")
    case True
    then have "b + 1 = e" using sb by (simp add: word_unat_eq_iff)
    moreover have "r + 1 = of_nat (unat e - ?o div 4096)"
      using sr Suc(3,5) True by (metis Suc_diff_le of_nat_unat ucast_id)
    ultimately show ?thesis using run w(3) True by (subst (asm) (2) write_blocks.simps) auto
  next
    case False
    then have lt': "unat (b + 1) < unat e" using sb Suc(4) by simp
    have ok2: "blocks_ok t1 s2" and mem2: "unat e \<le> unat (tf_block_count t1) + length (fr_free s2)"
      using w(3) Suc(7) by (simp_all add: wrote_def)
    have "d = unat e - unat (b + 1)" "?o div 4096 \<le> unat (b + 1)" "unat (r + 1) = unat (b + 1) - ?o div 4096"
      using Suc(2,3,5) sb sr by (simp_all add: Suc_diff_le)
    then obtain t' s' where "write_blocks offset (b + 1) e (r + 1) buf t1 s2 = Some (of_nat (unat e - ?o div 4096), t', s')"
        "wrote buf ?o (max ?o (4096 * unat (b + 1))) (4096 * unat e) t1 s2 t' s'"
      using Suc(1) [of "b + 1" "r + 1" t1 s2] lt' ok2 mem2 by blast
    moreover have "max ?o (4096 * unat (b + 1)) = 4096 * Suc ?b" using sb hi by simp
    ultimately show ?thesis using run wrote_trans [OF w(3)] hi Suc(4) by auto
  qed
qed

lemma write_span_spec:
  assumes e: "unat en = unat offset + length buf" and eb: "unat en div 4096 + 1 < 2 ^ 51"
    and ok: "blocks_ok t s" and mem: "unat en div 4096 + 1 \<le> unat (tf_block_count t) + length (fr_free s)"
  shows "\<exists>t' s'. write_span offset en buf t s = Some (of_nat (length buf), t', s') \<and>
    wrote buf (unat offset) (unat offset) (unat offset + length buf) t s t' s'"
proof -
  let ?o = "unat offset" and ?e = "en div 4096" and ?n = "length buf"
  have e63: "unat en < 2 ^ 63" using eb mod_less_divisor [of 4096 "unat en"] mult_div_mod_eq [of 4096 "unat en"] by simp
  then have o63: "?o < 2 ^ 63" using e by simp
  have sr: "en - offset = of_nat ?n" using e by (metis add_diff_cancel_left' of_nat_add of_nat_unat ucast_id)
  have sb: "unat (off_div offset) = ?o div 4096" using off_div_eq [OF o63] unat_div_4096 by simp
  have n64: "unat (of_nat ?n :: u64) = ?n" using unat_lt_64 [of en] e by (intro unat_of_nat_64) simp
  have ue: "unat ?e = unat en div 4096" by (rule unat_div_4096)
  show ?thesis
  proof (cases "?o div 4096 = unat en div 4096")
    case True
    then have same: "off_div offset = ?e" using sb ue by (simp add: word_unat_eq_iff)
    have fit: "?o mod 4096 + ?n \<le> 4096" using range_in_block [of ?o ?n] True e by simp
    have p: "4096 * unat ?e + unat (offset mod 4096) = ?o"
      using mult_div_mod_eq [of 4096 ?o] True ue by (simp add: unat_mod_4096)
    obtain frame t1 s1 s2 where w: "tmpfs_file_getset_block ?e 1 t s = Some (frame, t1, s1)"
        "store frame (offset mod 4096) buf s1 = Some s2"
        "wrote buf ?o (4096 * unat ?e + unat (offset mod 4096)) (4096 * unat ?e + unat (offset mod 4096) + ?n) t s t1 s2"
      by (rule write_piece [OF ok, of ?e "offset mod 4096" ?n buf ?o buf])
        (use eb mem ue fit p in \<open>simp_all add: unat_mod_4096\<close>)
    have "buf_get 0 (of_nat ?n) buf = Some buf" using buf_get_at [of 0 "of_nat ?n" buf] n64 by simp
    then have "write_span offset en buf t s = Some (of_nat ?n, t1, s2)"
      using w(1,2) sr same by (simp add: write_span_def Let_def)
    then show ?thesis using w(3) unfolding p by blast
  next
    case False
    then have lt: "?o div 4096 < unat ?e" using ue e div_le_mono [of ?o "unat en" 4096] by simp
    have ne: "off_div offset \<noteq> ?e" using False sb ue by (auto simp: word_unat_eq_iff)
    have e4: "4096 * unat ?e \<le> unat en" unfolding ue by simp
    have oe: "?o \<le> 4096 * unat ?e" using pos_step [of ?o "unat ?e - 1"] lt by (cases "unat ?e") auto
    have start: "max ?o (4096 * unat (off_div offset)) = ?o" using sb by simp
    obtain t1 s1 where wb: "write_blocks offset (off_div offset) ?e 0 buf t s = Some (of_nat (unat ?e - ?o div 4096), t1, s1)"
        "wrote buf ?o ?o (4096 * unat ?e) t s t1 s1"
      using write_blocks_spec [OF o63, of ?e "off_div offset" 0 buf t s] eb ue sb lt e e4 ok mem start by auto
    have es: "en - ?e * 4096 = en mod 4096" by (rule minus_div_mult_eq_mod)
    have eq: "4096 * unat ?e + unat en mod 4096 = ?o + ?n" using ue e by (metis mult_div_mod_eq)
    show ?thesis
    proof (cases "en mod 4096 = 0")
      case True
      then have "unat en mod 4096 = 0" using unat_mod_4096 [of en] by simp
      then have "4096 * unat ?e = ?o + ?n" using eq by simp
      then show ?thesis using wb ne sr es True by (simp add: write_span_def Let_def)
    next
      case False
      let ?k = "unat en mod 4096"
      have ok1: "blocks_ok t1 s1" and mem1: "unat ?e + 1 \<le> unat (tf_block_count t1) + length (fr_free s1)"
        using wb(2) mem ue by (simp_all add: wrote_def)
      have rr: "unat (of_nat (unat ?e - ?o div 4096) :: u64) = unat ?e - ?o div 4096"
        using unat_lt_64 [of ?e] by (intro unat_of_nat_64) simp
      have at: "unat (4096 * of_nat (unat ?e - ?o div 4096) - off_mod offset) = 4096 * unat ?e - ?o"
        by (rule buffer_pos [OF o63 lt rr]) (use le_less_trans [OF e4 e63] in simp)
      have rest: "length (drop (4096 * unat ?e - ?o) buf) = ?k" using eq oe by simp
      have get: "buf_get (4096 * of_nat (unat ?e - ?o div 4096) - off_mod offset) (en mod 4096) buf =
          Some (drop (4096 * unat ?e - ?o) buf)"
        using buf_get_at [of "4096 * of_nat (unat ?e - ?o div 4096) - off_mod offset" "en mod 4096" buf] at rest eq oe
        by (simp add: unat_mod_4096)
      obtain frame t2 s2 s3 where w: "tmpfs_file_getset_block ?e 1 t1 s1 = Some (frame, t2, s2)"
          "store frame 0 (drop (4096 * unat ?e - ?o) buf) s2 = Some s3"
          "wrote buf ?o (4096 * unat ?e + unat (0 :: u64)) (4096 * unat ?e + unat (0 :: u64) + ?k) t1 s1 t2 s3"
        by (rule write_piece [OF ok1, of ?e 0 ?k "drop (4096 * unat ?e - ?o) buf" ?o buf])
          (use eb ue mem1 rest oe in \<open>simp_all add: less_imp_le\<close>)
      have run: "write_span offset en buf t s = Some (of_nat ?n, t2, s3)"
        using wb(1) ne sr es False get w(1,2) by (simp add: write_span_def Let_def)
      have "wrote buf ?o (4096 * unat ?e) (?o + ?n) t1 s1 t2 s3" using w(3) eq by simp
      then have "wrote buf ?o ?o (?o + ?n) t s t2 s3" using wrote_trans [OF wb(2)] oe eq by simp
      then show ?thesis using run by blast
    qed
  qed
qed

lemma write_tmpfs_spec:
  assumes ok: "file_ok t s" and sz: "length buf = unat sz" "(unat offset + unat sz) div 4096 + 1 < 2 ^ 51"
    and mem: "(unat offset + unat sz) div 4096 + 1 \<le> unat (tf_block_count t) + length (fr_free s)"
  obtains t' s' where "write_tmpfs offset sz buf now t s = Some (sz, t', s')" and "file_ok t' s'"
    and "unat (tf_length t') = max (unat (tf_length t)) (unat offset + unat sz)"
    and "\<And>i. unat offset \<le> i \<Longrightarrow> i < unat offset + unat sz \<Longrightarrow> cont s' t' i = buf ! (i - unat offset)"
    and "\<And>i. i < 4096 * unat (tf_block_count t) \<Longrightarrow> i < unat offset \<or> unat offset + unat sz \<le> i \<Longrightarrow> cont s' t' i = cont s t i"
    and "unat offset + unat sz \<le> 4096 * unat (tf_block_count t')"
proof -
  let ?e = "unat offset + unat sz"
  have "?e < 2 ^ 64" using sz(2) mod_less_divisor [of 4096 ?e] mult_div_mod_eq [of 4096 ?e] by simp
  then have e: "unat (offset + sz) = ?e" by (rule unat_add_64)
  define t0 where "t0 = (if offset + sz > tf_length t then t\<lparr>tf_atime := now, tf_mtime := now, tf_length := offset + sz\<rparr>
    else t\<lparr>tf_atime := now, tf_mtime := now\<rparr>)"
  have bk: "blocks_ok t0 s" "tf_block_count t0 = tf_block_count t" "tf_blocks t0 = tf_blocks t"
    using ok by (simp_all add: t0_def file_ok_def blocks_ok_def)
  have ct: "cont s t0 = cont s t" using bk(3) by (simp add: cont_def fun_eq_iff)
  have ln: "unat (tf_length t0) = max (unat (tf_length t)) ?e" using e by (auto simp: t0_def word_less_nat_alt max_def)
  obtain t' s' where w: "write_span offset (offset + sz) buf t0 s = Some (of_nat (length buf), t', s')"
      "wrote buf (unat offset) (unat offset) (unat offset + length buf) t0 s t' s'"
    using write_span_spec [of "offset + sz" offset buf t0 s] e sz bk mem by auto
  have run: "write_tmpfs offset sz buf now t s = Some (sz, t', s')"
    using w(1) sz(1) by (cases "offset + sz > tf_length t") (simp_all add: write_tmpfs_def t0_def Let_def)
  have len: "tf_length t' = tf_length t0" "?e \<le> 4096 * unat (tf_block_count t')" "unat (tf_block_count t) \<le> unat (tf_block_count t')" "blocks_ok t' s'"
    using w(2) sz(1) bk(2) by (simp_all add: wrote_def)
  have fo: "file_ok t' s'" using len ln ok by (simp add: file_ok_def)
  have bs: "cont s' t' i = buf ! (i - unat offset)" if "unat offset \<le> i" "i < ?e" for i
    using that w(2) sz(1) by (simp add: wrote_def)
  have kept: "cont s' t' i = cont s t i" if "i < 4096 * unat (tf_block_count t)" "i < unat offset \<or> ?e \<le> i" for i
    using that w(2) sz(1) bk(2) ct unfolding wrote_def by auto
  show thesis by (rule that [OF run fo _ bs kept len(2)]) (use len ln in simp)
qed

section \<open>Truncating\<close>

lemma release_blocks_spec:
  assumes "distinct is" and "release_blocks is t s = (t', s')"
  shows "tf_pointers t' = tf_pointers t \<and> tf_length t' = tf_length t \<and> (\<forall>i. i \<notin> set is \<longrightarrow> tf_blocks t' i = tf_blocks t i) \<and>
    fr_free s' = fr_free s @ map (tf_blocks t) is \<and> fr_mem s' = fr_mem s"
  using assms
proof (induction "is" arbitrary: t s)
  case (Cons j js)
  let ?t = "t\<lparr>tf_blocks := (tf_blocks t)(j := 0)\<rparr>" and ?s = "release_frame (tf_blocks t j) s"
  have IH: "tf_pointers t' = tf_pointers ?t" "tf_length t' = tf_length ?t" "\<forall>i. i \<notin> set js \<longrightarrow> tf_blocks t' i = tf_blocks ?t i"
      "fr_free s' = fr_free ?s @ map (tf_blocks ?t) js" "fr_mem s' = fr_mem ?s"
    using Cons.IH [of ?t ?s] Cons.prems by auto
  have "map (tf_blocks ?t) js = map (tf_blocks t) js" using Cons.prems(1) by auto
  then show ?case using IH by (auto simp: release_frame_def)
qed auto

lemma shrink_ok:
  assumes ok: "blocks_ok t s" and n: "n \<le> k" "k \<le> unat (tf_block_count t)" and nb: "unat nb = n"
    and run: "release_blocks [n..<k] t s = (t', s')"
  shows "blocks_ok (t'\<lparr>tf_block_count := nb\<rparr>) s' \<and> tf_length t' = tf_length t \<and> fr_free s' = fr_free s @ map (tf_blocks t) [n..<k] \<and>
    (\<forall>i < 4096 * n. cont s' t' i = cont s t i)"
proof -
  have tp: "tf_pointers t' = tf_pointers t" "tf_length t' = tf_length t"
    using release_blocks_spec [OF distinct_upt run] by simp_all
  have r: "\<And>i. i < n \<Longrightarrow> tf_blocks t' i = tf_blocks t i"
      "fr_free s' = fr_free s @ map (tf_blocks t) [n..<k]" "fr_mem s' = fr_mem s"
    using release_blocks_spec [OF distinct_upt run] by auto
  have inj: "inj_on (tf_blocks t) {..<unat (tf_block_count t)}" and dis: "tf_blocks t ` {..<unat (tf_block_count t)} \<inter> set (fr_free s) = {}"
    and df: "distinct (fr_free s)"
    using ok by (simp_all add: blocks_ok_def)
  have nf: "tf_blocks t i \<notin> set (fr_free s)" if "i < unat (tf_block_count t)" for i using dis that by blast
  have "distinct (map (tf_blocks t) [n..<k])"
    using inj n(2) by (auto simp: distinct_map intro: inj_on_subset)
  moreover have "set (fr_free s) \<inter> tf_blocks t ` {n..<k} = {}" using nf n(2) by auto
  ultimately have "distinct (fr_free s')" using df r(2) by simp
  moreover have "inj_on (tf_blocks t') {..<n}" using inj r(1) n by (auto simp: inj_on_def)
  moreover have "tf_blocks t' ` {..<n} \<inter> set (fr_free s') = {}"
  proof -
    have "tf_blocks t i \<notin> set (fr_free s')" if "i < n" for i
    proof -
      have "i \<noteq> j \<Longrightarrow> tf_blocks t i \<noteq> tf_blocks t j" if "j < k" for j
        using inj_onD [OF inj, of i j] that \<open>i < n\<close> n by auto
      then have "tf_blocks t i \<notin> tf_blocks t ` {n..<k}" using that by fastforce
      then show ?thesis using nf [of i] that n r(2) by simp
    qed
    then show ?thesis using r(1) by auto
  qed
  moreover have "nb \<le> tf_pointers t'" "0 < tf_pointers t'" "unat nb < 2 ^ 51"
    using ok nb n tp(1) by (simp_all add: blocks_ok_def word_le_nat_alt)
  moreover have "cont s' t' i = cont s t i" if "i < 4096 * n" for i
    using r(1) [OF block_of_lt [OF that]] r(3) by (simp add: cont_def)
  ultimately show ?thesis using nb tp r(2) by (simp add: blocks_ok_def)
qed

lemma unat_blocks:
  "unat (w div 4096 + (if w - w div 4096 * 4096 \<noteq> 0 then 1 else 0) :: u64) = unat w div 4096 + (if unat w mod 4096 \<noteq> 0 then 1 else 0)"
proof -
  have "w - w div 4096 * 4096 = w mod 4096" by (rule minus_div_mult_eq_mod)
  moreover have "w mod 4096 \<noteq> 0 \<longleftrightarrow> unat w mod 4096 \<noteq> 0" using unat_mod_4096 [of w] by (simp add: word_unat_eq_iff)
  moreover have "unat (w div 4096 + 1) = unat w div 4096 + 1"
    using unat_lt_64 [of w] by (subst unat_succ_64) (simp_all add: unat_div_4096)
  ultimately show ?thesis by (simp add: unat_div_4096)
qed

lemma truncate_shrink_spec:
  assumes ok: "file_ok t s" and sz: "unat sz < unat (tf_length t)"
  obtains t' s' where "truncate_tmpfs sz at t s = Some (t', s')" and "file_ok t' s'" and "tf_length t' = sz"
    and "\<And>i. i < unat sz \<Longrightarrow> cont s' t' i = cont s t i"
proof -
  have bk: "blocks_ok t s" and len: "unat (tf_length t) \<le> 4096 * unat (tf_block_count t)" using ok by (simp_all add: file_ok_def)
  have ne: "sz \<noteq> tf_length t" "\<not> sz > tf_length t" using sz by (auto simp: word_less_nat_alt)
  define ob where "ob = tf_length t div 4096 + (if tf_length t - tf_length t div 4096 * 4096 \<noteq> 0 then 1 else 0)"
  define nb where "nb = sz div 4096 + (if sz - sz div 4096 * 4096 \<noteq> 0 then 1 else 0)"
  have uo: "unat ob = unat (tf_length t) div 4096 + (if unat (tf_length t) mod 4096 \<noteq> 0 then 1 else 0)"
    and un: "unat nb = unat sz div 4096 + (if unat sz mod 4096 \<noteq> 0 then 1 else 0)"
    unfolding ob_def nb_def by (rule unat_blocks)+
  have cover: "x \<le> 4096 * (x div 4096 + (if x mod 4096 \<noteq> 0 then 1 else 0))" for x :: nat
    using mult_div_mod_eq [of 4096 x] mod_less_divisor [of 4096 x] by (auto simp: distrib_left)
  have ob_le: "unat ob \<le> unat (tf_block_count t)"
  proof (cases "unat (tf_length t) mod 4096 = 0")
    case True
    then show ?thesis using uo len by (simp add: div_le_mono [of _ "4096 * unat (tf_block_count t)" 4096, simplified])
  next
    case False
    then have "4096 * (unat (tf_length t) div 4096) < unat (tf_length t)"
      using mult_div_mod_eq [of 4096 "unat (tf_length t)"] by linarith
    then show ?thesis using uo len False by simp
  qed
  show thesis
  proof (cases "sz = 0")
    case True
    obtain t1 s1 where r: "release_blocks [0..<unat (tf_block_count t)] t s = (t1, s1)"
      by (cases "release_blocks [0..<unat (tf_block_count t)] t s")
    have k: "blocks_ok (t1\<lparr>tf_block_count := 0\<rparr>) s1" using shrink_ok [OF bk _ order_refl _ r, of 0] by simp
    let ?t = "t1\<lparr>tf_block_count := 0, tf_length := 0, tf_mtime := at\<rparr>"
    have "truncate_tmpfs sz at t s = Some (?t, s1)" using ne True r by (simp add: truncate_tmpfs_def Let_def)
    moreover have "file_ok ?t s1" using k by (simp add: file_ok_def blocks_ok_def)
    ultimately show thesis using that [of ?t s1] True by simp
  next
    case nz: False
    show thesis
    proof (cases "nb < ob")
      case True
      obtain t1 s1 where r: "release_blocks [unat nb..<unat ob] t s = (t1, s1)"
        by (cases "release_blocks [unat nb..<unat ob] t s")
      have k: "blocks_ok (t1\<lparr>tf_block_count := nb\<rparr>) s1" "\<forall>i < 4096 * unat nb. cont s1 t1 i = cont s t i"
        using shrink_ok [OF bk _ ob_le refl r] True by (simp_all add: word_less_nat_alt)
      let ?t = "t1\<lparr>tf_block_count := nb, tf_length := sz, tf_mtime := at\<rparr>"
      have run: "truncate_tmpfs sz at t s = Some (?t, s1)"
        using ne nz True r unfolding truncate_tmpfs_def ob_def nb_def by (simp add: Let_def)
      have "unat sz \<le> 4096 * unat nb" using cover [of "unat sz"] un by simp
      then have "file_ok ?t s1" "\<forall>i < unat sz. cont s1 ?t i = cont s t i"
        using k by (auto simp: file_ok_def blocks_ok_def cont_def)
      then show thesis using that [OF run] by simp
    next
      case False
      let ?t = "t\<lparr>tf_length := sz, tf_mtime := at\<rparr>"
      have run: "truncate_tmpfs sz at t s = Some (?t, s)"
        using ne nz False unfolding truncate_tmpfs_def ob_def nb_def by (simp add: Let_def)
      have "file_ok ?t s" using bk len sz by (simp add: file_ok_def blocks_ok_def)
      then show thesis using that [OF run] by (simp add: cont_def)
    qed
  qed
qed

text \<open>Growing fills with zeros, when the last block of the file exists or more blocks are added.\<close>

lemma clear_block:
  assumes ok: "blocks_ok t s" and b: "b < unat (tf_block_count t)" and fit: "unat a + unat n \<le> 4096"
  obtains s' where "clear_bytes (Some (tf_blocks t b)) a n s = Some s'" and "blocks_ok t s'"
    and "\<And>i. i < 4096 * unat (tf_block_count t) \<Longrightarrow> cont s' t i =
      (if 4096 * b + unat a \<le> i \<and> i < 4096 * b + unat a + unat n then 0 else cont s t i)"
proof -
  obtain s' where s': "store (Some (tf_blocks t b)) a (replicate (unat n) 0) s = Some s'" "blocks_ok t s'"
      "\<And>i. i < 4096 * unat (tf_block_count t) \<Longrightarrow> cont s' t i =
        (if 4096 * b + unat a \<le> i \<and> i < 4096 * b + unat a + length (replicate (unat n) (0 :: u8))
         then replicate (unat n) 0 ! (i - (4096 * b + unat a)) else cont s t i)"
    using store_block [OF ok b, of a "replicate (unat n) 0"] fit by auto
  have run: "clear_bytes (Some (tf_blocks t b)) a n s = Some s'" using s'(1) fit by (simp add: clear_bytes_def)
  have "cont s' t i = (if 4096 * b + unat a \<le> i \<and> i < 4096 * b + unat a + unat n then 0 else cont s t i)"
    if "i < 4096 * unat (tf_block_count t)" for i
    using s'(3) [OF that] by auto
  then show thesis by (rule that [OF run s'(2)])
qed

lemma truncate_grow_spec:
  assumes ok: "file_ok t s" and sz: "unat (tf_length t) < unat sz" "unat sz div 4096 + 1 < 2 ^ 51"
    and mem: "unat sz div 4096 + 1 \<le> unat (tf_block_count t) + length (fr_free s)"
    and tight: "unat (tf_block_count t) \<le> unat (tf_length t) div 4096 + 1"
    and last: "unat (tf_length t) div 4096 < unat (tf_block_count t) \<or> unat (tf_length t) div 4096 \<noteq> unat sz div 4096"
  obtains t' s' where "truncate_tmpfs sz at t s = Some (t', s')" and "file_ok t' s'" and "tf_length t' = sz"
    and "\<And>i. i < unat sz \<Longrightarrow> cont s' t' i = (if i < unat (tf_length t) then cont s t i else 0)"
proof -
  let ?l = "unat (tf_length t)" and ?ob = "tf_length t div 4096" and ?nb = "sz div 4096"
  have bk: "blocks_ok t s" and len: "?l \<le> 4096 * unat (tf_block_count t)" using ok by (simp_all add: file_ok_def)
  have ne: "sz \<noteq> tf_length t" "sz > tf_length t" using sz by (auto simp: word_less_nat_alt)
  have ob: "unat ?ob = ?l div 4096" and nb: "unat ?nb = unat sz div 4096" by (rule unat_div_4096)+
  have oe: "tf_length t - ?ob * 4096 = tf_length t mod 4096" and ue: "unat (tf_length t mod 4096) = ?l mod 4096"
    by (rule minus_div_mult_eq_mod, rule unat_mod_4096)
  have nee: "sz - ?nb * 4096 = sz mod 4096" and une: "unat (sz mod 4096) = unat sz mod 4096"
    by (rule minus_div_mult_eq_mod, rule unat_mod_4096)
  have ldm: "4096 * (?l div 4096) + ?l mod 4096 = ?l" and sdm: "4096 * (unat sz div 4096) + unat sz mod 4096 = unat sz"
    by (rule mult_div_mod_eq)+
  have small: "?l mod 4096 < 4096" "unat sz mod 4096 < 4096" by simp_all
  show thesis
  proof (cases "?ob = ?nb")
    case True
    then have eq: "?l div 4096 = unat sz div 4096" using ob nb by simp
    then have b: "?l div 4096 < unat (tf_block_count t)" using last by simp
    have lt: "?l mod 4096 < unat sz mod 4096" using sz(1) ldm sdm eq by linarith
    have diff: "unat (sz mod 4096 - tf_length t mod 4096) = unat sz mod 4096 - ?l mod 4096"
      using lt ue une by (subst unat_sub_64) (simp_all add: word_le_nat_alt)
    have fit: "unat (tf_length t mod 4096) + unat (sz mod 4096 - tf_length t mod 4096) \<le> 4096" using diff ue lt small by linarith
    obtain s1 where s1: "clear_bytes (Some (tf_blocks t (?l div 4096))) (tf_length t mod 4096) (sz mod 4096 - tf_length t mod 4096) s = Some s1"
        "blocks_ok t s1"
        "\<And>i. i < 4096 * unat (tf_block_count t) \<Longrightarrow> cont s1 t i =
          (if 4096 * (?l div 4096) + unat (tf_length t mod 4096) \<le> i \<and>
              i < 4096 * (?l div 4096) + unat (tf_length t mod 4096) + unat (sz mod 4096 - tf_length t mod 4096) then 0 else cont s t i)"
      by (rule clear_block [OF bk b fit]) (rule that)
    have g: "tmpfs_file_getset_block ?ob 0 t s = Some (Some (tf_blocks t (?l div 4096)), t, s)"
      using getset_read [of ?ob t s] ob b by simp
    let ?t = "t\<lparr>tf_length := sz, tf_mtime := at\<rparr>"
    have run: "truncate_tmpfs sz at t s = Some (?t, s1)"
      using ne True g s1(1) oe nee unfolding truncate_tmpfs_def by (simp add: Let_def)
    have cover: "unat sz \<le> 4096 * unat (tf_block_count t)"
    proof -
      have "4096 * (unat sz div 4096) + 4096 \<le> 4096 * unat (tf_block_count t)" using b eq by simp
      then show ?thesis using sdm small by linarith
    qed
    have "cont s1 ?t i = (if i < ?l then cont s t i else 0)" if "i < unat sz" for i
      using s1(3) [of i] that cover ue diff ldm sdm eq lt by (auto simp: cont_def)
    moreover have "file_ok ?t s1" using s1(2) cover by (simp add: file_ok_def blocks_ok_def)
    ultimately show thesis using that [OF run] by simp
  next
    case False
    then have gt: "?l div 4096 < unat sz div 4096"
      using ob nb div_le_mono [of ?l "unat sz" 4096] sz(1) by (auto simp: word_unat_eq_iff)
    obtain t1 s1 where g: "tmpfs_file_getset_block ?nb 2 t s = Some (Some (tf_blocks t1 (unat ?nb)), t1, s1)" "grown t s t1 s1"
        "unat (tf_block_count t1) = max (unat (tf_block_count t)) (unat ?nb + 1)" "cleared t t1 s1"
      using getset_create [OF bk, of ?nb 2] sz(2) mem nb by auto
    have bk1: "blocks_ok t1 s1" and b1: "?l div 4096 < unat (tf_block_count t1)" using g(2,3) gt nb by (auto simp: grown_def)
    have four: "unat (4096 - tf_length t mod 4096) = 4096 - ?l mod 4096"
      using ue small by (subst unat_sub_64) (simp_all add: word_le_nat_alt)
    have fit: "unat (tf_length t mod 4096) + unat (4096 - tf_length t mod 4096) \<le> 4096" using four ue small by linarith
    obtain s2 where s2: "clear_bytes (Some (tf_blocks t1 (?l div 4096))) (tf_length t mod 4096) (4096 - tf_length t mod 4096) s1 = Some s2"
        "blocks_ok t1 s2"
        "\<And>i. i < 4096 * unat (tf_block_count t1) \<Longrightarrow> cont s2 t1 i =
          (if 4096 * (?l div 4096) + unat (tf_length t mod 4096) \<le> i \<and>
              i < 4096 * (?l div 4096) + unat (tf_length t mod 4096) + unat (4096 - tf_length t mod 4096) then 0 else cont s1 t1 i)"
      by (rule clear_block [OF bk1 b1 fit]) (rule that)
    have g2: "tmpfs_file_getset_block ?ob 0 t1 s1 = Some (Some (tf_blocks t1 (?l div 4096)), t1, s1)"
      using getset_read [of ?ob t1 s1] ob b1 by simp
    let ?t = "t1\<lparr>tf_length := sz, tf_mtime := at\<rparr>"
    have run: "truncate_tmpfs sz at t s = Some (?t, s2)"
      using ne False g(1) g2 s2(1) oe nee unfolding truncate_tmpfs_def by (simp add: Let_def)
    have cover: "unat sz \<le> 4096 * unat (tf_block_count t1)"
    proof -
      have "unat sz div 4096 + 1 \<le> unat (tf_block_count t1)" using g(3) nb by simp
      then show ?thesis using sdm small(2) by linarith
    qed
    have split: "cont s2 t1 i = (if ?l \<le> i \<and> i < 4096 * (?l div 4096) + 4096 then 0 else cont s1 t1 i)" if "i < unat sz" for i
    proof -
      have "4096 * (?l div 4096) + unat (tf_length t mod 4096) = ?l" using ue ldm by simp
      moreover have "?l + unat (4096 - tf_length t mod 4096) = 4096 * (?l div 4096) + 4096" using four ldm small by linarith
      ultimately show ?thesis using s2(3) [of i] that cover by simp
    qed
    have "cont s2 ?t i = (if i < ?l then cont s t i else 0)" if i: "i < unat sz" for i
    proof -
      have ct: "cont s2 ?t i = cont s2 t1 i" by (simp add: cont_def)
      show ?thesis
      proof (cases "i < ?l")
        case True
        then show ?thesis using ct split [OF i] g(2) len by (simp add: grown_def)
      next
        case False
        show ?thesis
        proof (cases "i < 4096 * (?l div 4096) + 4096")
          case True
          then show ?thesis using ct split [OF i] False by simp
        next
          case beyond: False
          have "4096 * unat (tf_block_count t) \<le> 4096 * (?l div 4096) + 4096" using tight by simp
          then have "4096 * unat (tf_block_count t) \<le> i" "i < 4096 * unat (tf_block_count t1)" using beyond i cover by simp_all
          then have "cont s1 t1 i = 0" using g(4) by (simp add: cleared_def)
          then show ?thesis using ct split [OF i] False beyond by simp
        qed
      qed
    qed
    moreover have "file_ok ?t s2" using s2(2) cover by (simp add: file_ok_def blocks_ok_def)
    ultimately show thesis using that [OF run] by simp
  qed
qed

lemma truncate_grow_null:
  assumes "tf_length t < sz" and "unat (tf_length t) div 4096 = unat sz div 4096"
    and "unat (tf_block_count t) \<le> unat (tf_length t) div 4096"
  shows "truncate_tmpfs sz at t s = None"
proof -
  have "tf_length t div 4096 = sz div 4096" using assms(2) by (simp add: word_unat_eq_iff unat_div_4096)
  moreover have "tf_block_count t \<le> tf_length t div 4096" using assms(3) by (simp add: word_le_nat_alt unat_div_4096)
  ultimately show ?thesis using assms(1)
    by (simp add: truncate_tmpfs_def Let_def tmpfs_file_getset_block_def clear_bytes_def store_def)
qed

section \<open>Properties\<close>

text \<open>A file of five bytes in the frame 9; two more frames are free.\<close>

definition tmpfs_example :: tmpfs_file where
  "tmpfs_example = (tmpfs_file_new [97] 1)\<lparr>tf_length := 5, tf_block_count := 1, tf_blocks := (\<lambda>i. 9)\<rparr>"

definition frames_example :: frames where
  "frames_example = \<lparr>fr_mem = (\<lambda>f i. of_nat i), fr_free = [20, 21], fr_total = 1\<rparr>"

lemma tmpfs_example_facts:
  "file_ok tmpfs_example frames_example" "tf_length tmpfs_example = 5" "tf_block_count tmpfs_example = 1"
  "length (fr_free frames_example) = 2"
  by (auto simp: file_ok_def blocks_ok_def tmpfs_example_def tmpfs_file_new_def frames_example_def inj_on_def word_le_nat_alt)

text \<open>
  Fact: reading inside a file returns exactly its bytes: as many as were asked for or as the file still has,
  across all block boundaries, and leaves the rest of the buffer alone.
\<close>

theorem read_tmpfs_correct:
  assumes "file_ok t s" and "unat offset \<le> unat (tf_length t)" and "length buffer = unat sz"
    and "unat offset + unat sz < 2 ^ 64" and "n = min (unat sz) (unat (tf_length t) - unat offset)"
  shows "read_tmpfs offset sz buffer now t s =
    Some (of_nat n, bytes_at s t (unat offset) n @ drop n buffer, t\<lparr>tf_atime := now\<rparr>)"
  by (rule read_tmpfs_spec [OF assms])

theorem read_tmpfs_correct_witness:
  "read_tmpfs 2 4 [0, 0, 0, 0] 7 tmpfs_example frames_example =
    Some (of_nat 3, bytes_at frames_example tmpfs_example (unat (2 :: 64 word)) 3 @ drop 3 [0, 0, 0, 0], tmpfs_example\<lparr>tf_atime := 7\<rparr>)"
  by (rule read_tmpfs_correct [OF tmpfs_example_facts(1)]) (simp_all add: tmpfs_example_facts(2))

text \<open>
  Property C11: what is written is read back.  A write extends the file when it has to, keeps every byte of the file outside
  of the written range, and a read of that range returns the written bytes.
\<close>

theorem tmpfs_write_read:
  assumes "file_ok t s" and "length buf = unat sz" and "(unat offset + unat sz) div 4096 + 1 < 2 ^ 51"
    and "(unat offset + unat sz) div 4096 + 1 \<le> unat (tf_block_count t) + length (fr_free s)"
  shows "\<exists>t' s'. write_tmpfs offset sz buf now t s = Some (sz, t', s') \<and> file_ok t' s' \<and>
    unat (tf_length t') = max (unat (tf_length t)) (unat offset + unat sz) \<and>
    (\<forall>i < unat (tf_length t). i < unat offset \<or> unat offset + unat sz \<le> i \<longrightarrow> cont s' t' i = cont s t i) \<and>
    (\<forall>buffer now'. length buffer = unat sz \<longrightarrow>
       read_tmpfs offset sz buffer now' t' s' = Some (sz, buf, t'\<lparr>tf_atime := now'\<rparr>))"
proof -
  let ?e = "unat offset + unat sz"
  obtain t' s' where w: "write_tmpfs offset sz buf now t s = Some (sz, t', s')" "file_ok t' s'"
      "unat (tf_length t') = max (unat (tf_length t)) ?e"
      "\<And>i. unat offset \<le> i \<Longrightarrow> i < ?e \<Longrightarrow> cont s' t' i = buf ! (i - unat offset)"
      "\<And>i. i < 4096 * unat (tf_block_count t) \<Longrightarrow> i < unat offset \<or> ?e \<le> i \<Longrightarrow> cont s' t' i = cont s t i"
      "?e \<le> 4096 * unat (tf_block_count t')"
    by (rule write_tmpfs_spec [OF assms]) (rule that)
  have len: "unat (tf_length t) \<le> 4096 * unat (tf_block_count t)" using assms(1) by (simp add: file_ok_def)
  have small: "?e < 2 ^ 64" using w(2,6) by (simp add: file_ok_def blocks_ok_def)
  have "bytes_at s' t' (unat offset) (unat sz) = buf"
    using w(4) assms(2) by (intro nth_equalityI) (simp_all add: bytes_at_def)
  then have "read_tmpfs offset sz buffer now' t' s' = Some (sz, buf, t'\<lparr>tf_atime := now'\<rparr>)" if "length buffer = unat sz" for buffer now'
    using read_tmpfs_spec [OF w(2) _ that small refl, of now'] w(3) that by simp
  then show ?thesis using w(1-3,5) len by (intro exI [of _ t'] exI [of _ s']) auto
qed

theorem tmpfs_write_read_witness:
  "\<exists>t' s'. write_tmpfs 4094 4 [1, 2, 3, 4] 7 tmpfs_example frames_example = Some (4, t', s') \<and> file_ok t' s' \<and>
    unat (tf_length t') = max (unat (tf_length tmpfs_example)) (unat (4094 :: 64 word) + unat (4 :: u64)) \<and>
    (\<forall>i < unat (tf_length tmpfs_example). i < unat (4094 :: 64 word) \<or> unat (4094 :: 64 word) + unat (4 :: u64) \<le> i \<longrightarrow>
       cont s' t' i = cont frames_example tmpfs_example i) \<and>
    (\<forall>buffer now'. length buffer = unat (4 :: u64) \<longrightarrow>
       read_tmpfs 4094 4 buffer now' t' s' = Some (4, [1, 2, 3, 4], t'\<lparr>tf_atime := now'\<rparr>))"
  by (rule tmpfs_write_read [OF tmpfs_example_facts(1)]) (simp_all add: tmpfs_example_facts)

text \<open>
  Fact: a read whose offset lies behind the end of the file, in the same block, copies out of bounds: the
  unsigned size of the copy wraps around.
\<close>

theorem read_past_end_faults:
  assumes "unat (tf_length t) < unat offset" and "unat offset < 2 ^ 63" and "unat offset + unat sz < 2 ^ 64"
    and "unat (tf_length t) div 4096 = unat offset div 4096" and "length buffer = unat sz"
  shows "read_tmpfs offset sz buffer now t s = None"
  by (rule read_past_end_spec [OF assms])

theorem read_past_end_faults_witness: "read_tmpfs 6 1 [0] 7 tmpfs_example frames_example = None"
  by (rule read_past_end_faults) (simp_all add: tmpfs_example_facts)

text \<open>
  Fact: truncation keeps the bytes up to the new length and fills with zeros what it adds; the file and the free
  frames stay well formed.  It is stated for files without surplus blocks and, when the file grows inside its last block, for
  files where that block exists.
\<close>

theorem truncate_tmpfs_correct:
  assumes "file_ok t s" and "unat sz \<noteq> unat (tf_length t)" and "unat sz div 4096 + 1 < 2 ^ 51"
    and "unat sz div 4096 + 1 \<le> unat (tf_block_count t) + length (fr_free s)"
    and "unat (tf_block_count t) \<le> unat (tf_length t) div 4096 + 1"
    and "unat (tf_length t) div 4096 < unat (tf_block_count t) \<or> unat (tf_length t) div 4096 \<noteq> unat sz div 4096"
  shows "\<exists>t' s'. truncate_tmpfs sz at t s = Some (t', s') \<and> file_ok t' s' \<and> tf_length t' = sz \<and>
    (\<forall>i < unat sz. cont s' t' i = (if i < unat (tf_length t) then cont s t i else 0))"
proof (cases "unat sz < unat (tf_length t)")
  case True
  obtain t' s' where "truncate_tmpfs sz at t s = Some (t', s')" "file_ok t' s'" "tf_length t' = sz"
      "\<And>i. i < unat sz \<Longrightarrow> cont s' t' i = cont s t i"
    by (rule truncate_shrink_spec [OF assms(1) True]) (rule that)
  then show ?thesis using True by auto
next
  case False
  then have gt: "unat (tf_length t) < unat sz" using assms(2) by simp
  show ?thesis by (rule truncate_grow_spec [OF assms(1) gt assms(3-6)]) blast
qed

theorem truncate_tmpfs_correct_witness:
  "\<exists>t' s'. truncate_tmpfs 5000 7 tmpfs_example frames_example = Some (t', s') \<and> file_ok t' s' \<and> tf_length t' = 5000 \<and>
    (\<forall>i < unat (5000 :: u64). cont s' t' i =
       (if i < unat (tf_length tmpfs_example) then cont frames_example tmpfs_example i else 0))"
  by (rule truncate_tmpfs_correct [OF tmpfs_example_facts(1)]) (simp_all add: tmpfs_example_facts)

text \<open>
  Fact: growing a file inside the block of its end faults when that block was never allocated, as it is for an
  empty file: the block pointer is null and is cleared all the same.
\<close>

theorem truncate_grow_faults:
  assumes "tf_length t < sz" and "unat (tf_length t) div 4096 = unat sz div 4096"
    and "unat (tf_block_count t) \<le> unat (tf_length t) div 4096"
  shows "truncate_tmpfs sz at t s = None"
  by (rule truncate_grow_null [OF assms])

theorem truncate_grow_faults_witness: "truncate_tmpfs 10 7 (tmpfs_file_new [97] 1) frames_example = None"
  by (rule truncate_grow_faults) (simp_all add: tmpfs_file_new_def)

text \<open>
  Fact: a link target that does not fit the buffer is cut to one byte less than the buffer, but the length returned
  is one less than the number of bytes stored.
\<close>

theorem readlink_short_by_one:
  assumes "tf_type t = TMPFS_TYPE_LINK" and "0 < unat sz" and "unat sz \<le> length (tf_target t)" and "length buf = unat sz"
  shows "readlink_tmpfs sz buf t = Some (sz - 2, take (unat sz - 1) (tf_target t) @ [0])"
proof -
  have z: "sz \<noteq> 0" using assms(2) by auto
  then have n: "sz \<noteq> 0" "unat (sz - 1) = unat sz - 1" using unat_pred_64 [of sz] by blast+
  have "buf_put 0 (take (unat sz - 1) (tf_target t)) buf = Some (take (unat sz - 1) (tf_target t) @ drop (unat sz - 1) buf)"
    using assms(2-4) by (simp add: buf_put_def min_absorb2)
  moreover have "buf_put (sz - 1) [0] (take (unat sz - 1) (tf_target t) @ drop (unat sz - 1) buf) =
      Some (take (unat sz - 1) (tf_target t) @ [0])"
    using n assms(2-4) by (simp add: buf_put_def min_absorb2)
  ultimately show ?thesis using assms(1,3) n(1) by (simp add: readlink_tmpfs_def)
qed

theorem readlink_short_by_one_witness:
  "readlink_tmpfs 3 [0, 0, 0] ((tmpfs_file_new [97] 1)\<lparr>tf_type := TMPFS_TYPE_LINK, tf_target := [1, 2, 3, 4]\<rparr>) =
    Some (3 - 2, take (unat (3 :: u64) - 1) [1, 2, 3, 4] @ [0])"
  using readlink_short_by_one [of "(tmpfs_file_new [97] 1)\<lparr>tf_type := TMPFS_TYPE_LINK, tf_target := [1, 2, 3, 4]\<rparr>" 3 "[0, 0, 0]"]
  by simp

end
