(* ===== verification/Tmpfs_Dir.thy ===== *)
theory Tmpfs_Dir
  imports Tmpfs_File Vfs_Node
begin

text \<open>
  Directories of the memory file system, \<open>kernel/vfs/tmpfs.c\<close>.  Files and directories are objects in
  memory; a directory holds the list of the addresses of its entries, and both kinds start with the
  same fields, which is how the code reads the name and the type of an entry.  The operations that take
  the directory's lock twice are given as their two locked sections and as the run of both.
\<close>

section \<open>Objects\<close>

record tmpfs_dir =
  td_name :: bytes
  td_mask :: u32
  td_uid :: u32
  td_gid :: u32
  td_atime :: u32
  td_mtime :: u32
  td_ctime :: u32
  td_mount :: ptr
  td_files :: "ptr list"
  td_parent :: ptr

datatype tobj = TFile tmpfs_file ptr | TDir tmpfs_dir

record tmpfs =
  to_objs :: "ptr \<rightharpoonup> tobj"
  to_frames :: frames
  to_supply :: "ptr list"
  to_user :: u32
  to_group :: u32
  to_now :: u32

definition EEXIST :: int where "EEXIST = 17"
definition ENOTDIR :: int where "ENOTDIR = 20"
definition ENOTEMPTY :: int where "ENOTEMPTY = 90"
definition EACCES :: int where "EACCES = 13"

definition get_obj :: "ptr \<Rightarrow> tmpfs \<Rightarrow> tobj option" where
  "get_obj p st = (if p = NULL then None else to_objs st p)"

definition get_dir :: "ptr \<Rightarrow> tmpfs \<Rightarrow> tmpfs_dir option" where
  "get_dir p st = (case get_obj p st of Some (TDir d) \<Rightarrow> Some d | _ \<Rightarrow> None)"

definition set_files :: "ptr \<Rightarrow> ptr list \<Rightarrow> tmpfs \<Rightarrow> tmpfs option" where
  "set_files p fs st = do {
     d \<leftarrow> get_dir p st;
     Some (st\<lparr>to_objs := (to_objs st)(p \<mapsto> TDir (d\<lparr>td_files := fs\<rparr>))\<rparr>)
   }"

fun obj_name :: "tobj \<Rightarrow> bytes" where
  "obj_name (TFile t m) = tf_name t"
| "obj_name (TDir d) = td_name d"

fun obj_type :: "tobj \<Rightarrow> int" where
  "obj_type (TFile t m) = tf_type t"
| "obj_type (TDir d) = TMPFS_TYPE_DIR"

fun set_name :: "bytes \<Rightarrow> tobj \<Rightarrow> tobj" where
  "set_name n (TFile t m) = TFile (t\<lparr>tf_name := n\<rparr>) m"
| "set_name n (TDir d) = TDir (d\<lparr>td_name := n\<rparr>)"

definition tmpfs_dir_new :: "bytes \<Rightarrow> ptr \<Rightarrow> tmpfs \<Rightarrow> tmpfs_dir option" where
  "tmpfs_dir_new name parent st = do {
     mount \<leftarrow> (if parent = NULL then Some NULL else map_option td_mount (get_dir parent st));
     Some \<lparr>td_name = name, td_mask = 0, td_uid = 0, td_gid = 0, td_atime = to_now st, td_mtime = to_now st,
           td_ctime = to_now st, td_mount = mount, td_files = [], td_parent = parent\<rparr>
   }"

text \<open>The search of a directory: the position and the address of the first entry whose name fits.\<close>

fun find_entry :: "tmpfs \<Rightarrow> (bytes \<Rightarrow> bool) \<Rightarrow> ptr list \<Rightarrow> (nat \<times> ptr) option option" where
  "find_entry st fits [] = Some None"
| "find_entry st fits (p # ps) = do {
     x \<leftarrow> get_obj p st;
     if fits (obj_name x) then Some (Some (0, p))
     else do { r \<leftarrow> find_entry st fits ps; Some (map_option (\<lambda>(i, q). (Suc i, q)) r) }
   }"

definition named :: "bytes \<Rightarrow> bytes \<Rightarrow> bool" where
  "named name n \<longleftrightarrow> strcmp name n = 0"


section \<open>New entries\<close>

definition entry_exists :: "ptr \<Rightarrow> bytes \<Rightarrow> tmpfs \<Rightarrow> bool option" where
  "entry_exists dp name st = do {
     d \<leftarrow> get_dir dp st;
     r \<leftarrow> find_entry st (named name) (td_files d);
     Some (r \<noteq> None)
   }"

definition add_entry :: "ptr \<Rightarrow> tobj \<Rightarrow> tmpfs \<Rightarrow> tmpfs option" where
  "add_entry dp x st =
     (case to_supply st of [] \<Rightarrow> None
      | a # rest \<Rightarrow> do {
          let st = st\<lparr>to_supply := rest, to_objs := (to_objs st)(a \<mapsto> x)\<rparr>;
          d \<leftarrow> get_dir dp st;
          set_files dp (td_files d @ [a]) st
        })"

definition symlink_tmpfs :: "ptr \<Rightarrow> ptr \<Rightarrow> bytes \<Rightarrow> bytes \<Rightarrow> tmpfs \<Rightarrow> (int \<times> tmpfs) option" where
  "symlink_tmpfs dp mount target name st = do {
     e \<leftarrow> entry_exists dp name st;
     if e then Some (- EEXIST, st)
     else do {
       let t = (tmpfs_file_new name (to_now st))
                 \<lparr>tf_type := TMPFS_TYPE_LINK, tf_target := target, tf_length := of_nat (length target),
                  tf_mask := 511, tf_uid := to_user st, tf_gid := to_user st\<rparr>;
       st \<leftarrow> add_entry dp (TFile t mount) st;
       Some (0, st)
     }
   }"

definition create_tmpfs :: "ptr \<Rightarrow> ptr \<Rightarrow> bytes option \<Rightarrow> u32 \<Rightarrow> tmpfs \<Rightarrow> (int \<times> tmpfs) option" where
  "create_tmpfs dp mount name permission st =
     (case name of None \<Rightarrow> Some (- EINVAL, st)
      | Some name \<Rightarrow> do {
          e \<leftarrow> entry_exists dp name st;
          if e then Some (- EEXIST, st)
          else do {
            let t = (tmpfs_file_new name (to_now st))
                      \<lparr>tf_mask := permission, tf_uid := to_user st, tf_gid := to_group st\<rparr>;
            st \<leftarrow> add_entry dp (TFile t mount) st;
            Some (0, st)
          }
        })"

definition mkdir_tmpfs :: "creds \<Rightarrow> fs_node \<Rightarrow> ptr \<Rightarrow> bytes option \<Rightarrow> u32 \<Rightarrow> tmpfs \<Rightarrow> (int \<times> tmpfs) option" where
  "mkdir_tmpfs cr parent dp name permission st =
     (case name of None \<Rightarrow> Some (- EINVAL, st)
      | Some name \<Rightarrow>
          if length name = 0 then Some (- EINVAL, st)
          else do {
            e \<leftarrow> entry_exists dp name st;
            if e then Some (- EEXIST, st)
            else if has_permission cr (Some parent) 2 = 0 \<or> has_permission cr (Some parent) 1 = 0 then Some (- EACCES, st)
            else do {
              out \<leftarrow> tmpfs_dir_new name dp st;
              let out = out\<lparr>td_mask := permission, td_uid := to_user st, td_gid := to_user st\<rparr>;
              st \<leftarrow> add_entry dp (TDir out) st;
              Some (0, st)
            }
          })"


section \<open>Lookup\<close>

datatype tfound = FoundFile ptr | FoundLink ptr | FoundDir ptr | FoundNone

definition finddir_tmpfs :: "ptr \<Rightarrow> bytes option \<Rightarrow> tmpfs \<Rightarrow> tfound option" where
  "finddir_tmpfs dp name st =
     (case name of None \<Rightarrow> Some FoundNone
      | Some name \<Rightarrow> do {
          d \<leftarrow> get_dir dp st;
          r \<leftarrow> find_entry st (named name) (td_files d);
          case r of None \<Rightarrow> Some FoundNone
          | Some (i, p) \<Rightarrow> do {
              x \<leftarrow> get_obj p st;
              Some (if obj_type x = TMPFS_TYPE_FILE then FoundFile p
                    else if obj_type x = TMPFS_TYPE_LINK then FoundLink p
                    else if obj_type x = TMPFS_TYPE_DIR then FoundDir p
                    else FoundNone)
            }
        })"

text \<open>A directory entry is its inode number and name.\<close>

definition readdir_tmpfs :: "ptr \<Rightarrow> u64 \<Rightarrow> tmpfs \<Rightarrow> (ptr \<times> bytes) option option" where
  "readdir_tmpfs dp index st =
     (if index = 0 then Some (Some (0, [46]))
      else if index = 1 then Some (Some (0, [46, 46]))
      else do {
        d \<leftarrow> get_dir dp st;
        let index = index - 2;
        if index \<ge> of_nat (length (td_files d)) then Some None
        else do {
          x \<leftarrow> get_obj (td_files d ! unat index) st;
          Some (Some (td_files d ! unat index, obj_name x))
        }
      })"


section \<open>Removal\<close>

definition remove_nth :: "nat \<Rightarrow> 'a list \<Rightarrow> 'a list" where
  "remove_nth i xs = take i xs @ drop (Suc i) xs"

definition try_free_dir :: "tmpfs_dir \<Rightarrow> bool" where
  "try_free_dir d \<longleftrightarrow> td_files d = []"

definition free_file :: "tmpfs_file \<Rightarrow> tmpfs \<Rightarrow> tmpfs" where
  "free_file t st = st\<lparr>to_frames := tmpfs_file_free t (to_frames st)\<rparr>"

definition unlink_tmpfs :: "ptr \<Rightarrow> bytes \<Rightarrow> tmpfs \<Rightarrow> (int \<times> tmpfs) option" where
  "unlink_tmpfs dp name st = do {
     d \<leftarrow> get_dir dp st;
     r \<leftarrow> find_entry st (named name) (td_files d);
     case r of None \<Rightarrow> Some (- ENOENT, st)
     | Some (i, p) \<Rightarrow> do {
         x \<leftarrow> get_obj p st;
         let freed = (case x of TDir e \<Rightarrow> if try_free_dir e then Some st else None | TFile t m \<Rightarrow> Some (free_file t st));
         case freed of
           None \<Rightarrow> Some (- ENOTEMPTY, st)
         | Some st \<Rightarrow> do {
             let st = st\<lparr>to_objs := (to_objs st)(p := None)\<rparr>;
             d \<leftarrow> get_dir dp st;
             st \<leftarrow> set_files dp (remove_nth i (td_files d)) st;
             Some (0, st)
           }
       }
   }"


section \<open>Renaming\<close>

fun path_comp :: "bytes \<Rightarrow> bytes \<Rightarrow> bool" where
  "path_comp (a # as) (b # bs) =
     (if a \<noteq> 47 \<and> b \<noteq> 47 then if a \<noteq> b then False else path_comp as bs
      else a = 47 \<and> b = 47)"
| "path_comp [] [] = True"
| "path_comp [] (b # bs) = (b = 47)"
| "path_comp (a # as) [] = (a = 47)"

definition endswith :: "bytes \<Rightarrow> u8 \<Rightarrow> bool" where
  "endswith str ch \<longleftrightarrow> length str > 1 \<and> last str = ch"

definition path_dup :: "bytes \<Rightarrow> bytes" where
  "path_dup path = takeWhile (\<lambda>c. c \<noteq> 47) path"

text \<open>Whether a directory is met on the way up from another one.\<close>

partial_function (option) is_ancestor :: "ptr \<Rightarrow> ptr \<Rightarrow> tmpfs \<Rightarrow> bool option" where
  "is_ancestor src pd st =
     (if pd = NULL then Some False
      else if pd = src then Some True
      else (case get_dir pd st of None \<Rightarrow> None | Some d \<Rightarrow> is_ancestor src (td_parent d) st))"

definition rename_entry :: "ptr \<Rightarrow> bytes \<Rightarrow> tmpfs \<Rightarrow> tmpfs option" where
  "rename_entry p name st = do {
     x \<leftarrow> get_obj p st;
     Some (st\<lparr>to_objs := (to_objs st)(p \<mapsto> set_name (path_dup name) x)\<rparr>)
   }"

text \<open>The source becomes a new entry of the destination, or takes the place of an entry there.\<close>

definition rename_move :: "ptr \<Rightarrow> nat \<Rightarrow> ptr \<Rightarrow> ptr \<Rightarrow> bytes \<Rightarrow> tmpfs \<Rightarrow> tmpfs option" where
  "rename_move dsp i src_file ddp dest_name st = do {
     st \<leftarrow> rename_entry src_file dest_name st;
     dd \<leftarrow> get_dir ddp st;
     st \<leftarrow> set_files ddp (td_files dd @ [src_file]) st;
     ds \<leftarrow> get_dir dsp st;
     set_files dsp (remove_nth i (td_files ds)) st
   }"

definition rename_refused :: "bool \<Rightarrow> tobj option \<Rightarrow> int" where
  "rename_refused src_dir dx =
     (case dx of
        Some (TDir e) \<Rightarrow> if td_files e \<noteq> [] then - ENOTEMPTY else if \<not> src_dir then - EISDIR else 0
      | _ \<Rightarrow> if src_dir then - ENOTDIR else 0)"

definition rename_replace :: "ptr \<Rightarrow> nat \<Rightarrow> ptr \<Rightarrow> ptr \<Rightarrow> nat \<Rightarrow> tobj option \<Rightarrow> bytes \<Rightarrow> tmpfs \<Rightarrow> tmpfs option" where
  "rename_replace dsp i src_file ddp j dx dest_name st = do {
     st \<leftarrow> rename_entry src_file dest_name st;
     dd \<leftarrow> get_dir ddp st;
     st \<leftarrow> set_files ddp ((td_files dd)[j := src_file]) st;
     ds \<leftarrow> get_dir dsp st;
     st \<leftarrow> set_files dsp (remove_nth i (td_files ds)) st;
     Some (case dx of Some (TFile t m) \<Rightarrow> free_file t st | _ \<Rightarrow> st)
   }"

definition rename_tmpfs :: "ptr \<Rightarrow> bytes \<Rightarrow> ptr \<Rightarrow> bytes \<Rightarrow> tmpfs \<Rightarrow> (int \<times> tmpfs) option" where
  "rename_tmpfs dsp src_name ddp dest_name st = do {
     ds \<leftarrow> get_dir dsp st;
     src \<leftarrow> find_entry st (path_comp src_name) (td_files ds);
     case src of None \<Rightarrow> Some (- ENOENT, st)
     | Some (i, src_file) \<Rightarrow> do {
         sx \<leftarrow> get_obj src_file st;
         let src_dir = (obj_type sx = TMPFS_TYPE_DIR);
         if \<not> src_dir \<and> endswith src_name 47 then Some (- ENOTDIR, st)
         else do {
           dd \<leftarrow> get_dir ddp st;
           dest \<leftarrow> find_entry st (path_comp dest_name) (td_files dd);
           dx \<leftarrow> (case dest of None \<Rightarrow> Some None | Some (j, p) \<Rightarrow> map_option Some (get_obj p st));
           let dest_plain = (case dx of None \<Rightarrow> False | Some x \<Rightarrow> obj_type x \<noteq> TMPFS_TYPE_DIR);
           if dest_plain \<and> endswith dest_name 47 then Some (- ENOTDIR, st)
           else do {
             above \<leftarrow> (if src_dir then is_ancestor src_file ddp st else Some False);
             if above then Some (- EINVAL, st)
             else case dest of
               None \<Rightarrow>
                 if endswith dest_name 47 \<and> \<not> src_dir then Some (- ENOTDIR, st)
                 else map_option (Pair 0) (rename_move dsp i src_file ddp dest_name st)
             | Some (j, dest_file) \<Rightarrow>
                 if src_file = dest_file then Some (0, st)
                 else if rename_refused src_dir dx \<noteq> 0 then Some (rename_refused src_dir dx, st)
                 else map_option (Pair 0) (rename_replace dsp i src_file ddp j dx dest_name st)
           }
         }
       }
   }"


section \<open>Nodes and mounting\<close>

text \<open>What a file system node for an object says, and which callbacks it has.\<close>

datatype op = OpRead | OpWrite | OpOpen | OpReaddir | OpFinddir | OpCreate | OpUnlink | OpMkdir | OpSymlink
  | OpReadlink | OpChmod | OpChown | OpTruncate | OpRename

record tnode_desc =
  nd_inode :: ptr
  nd_name :: bytes
  nd_mask :: u32
  nd_uid :: u32
  nd_gid :: u32
  nd_flags :: u64
  nd_length :: u64
  nd_ops :: "op list"

definition FS_FILE :: u64 where "FS_FILE = 1"
definition FS_SYMLINK :: u64 where "FS_SYMLINK = 0x20"

definition tmpfs_from_file :: "ptr \<Rightarrow> tmpfs_file \<Rightarrow> tnode_desc" where
  "tmpfs_from_file p t =
     \<lparr>nd_inode = p, nd_name = tf_name t, nd_mask = tf_mask t, nd_uid = tf_uid t, nd_gid = tf_gid t, nd_flags = FS_FILE,
      nd_length = tf_length t, nd_ops = [OpRead, OpWrite, OpOpen, OpChmod, OpChown, OpTruncate]\<rparr>"

definition tmpfs_from_link :: "ptr \<Rightarrow> tmpfs_file \<Rightarrow> tnode_desc" where
  "tmpfs_from_link p t =
     (let n = tmpfs_from_file p t
      in n\<lparr>nd_flags := nd_flags n OR FS_SYMLINK, nd_ops := OpReadlink # filter (\<lambda>c. c \<noteq> OpRead \<and> c \<noteq> OpWrite) (nd_ops n)\<rparr>)"

definition tmpfs_from_dir :: "ptr \<Rightarrow> tmpfs_dir \<Rightarrow> tnode_desc" where
  "tmpfs_from_dir p d =
     \<lparr>nd_inode = p, nd_name = [116, 109, 112], nd_mask = td_mask d, nd_uid = td_uid d, nd_gid = td_gid d,
      nd_flags = FS_DIRECTORY, nd_length = 0,
      nd_ops = [OpReaddir, OpFinddir, OpCreate, OpUnlink, OpMkdir, OpSymlink, OpChown, OpChmod, OpRename]\<rparr>"

text \<open>The node of the root is the address that the mount fields get.\<close>

definition tmpfs_create :: "bytes \<Rightarrow> tmpfs \<Rightarrow> (tnode_desc \<times> tmpfs) option" where
  "tmpfs_create name st =
     (case to_supply st of
        a # out # rest \<Rightarrow> do {
          d \<leftarrow> tmpfs_dir_new name NULL st;
          let d = d\<lparr>td_mask := 511, td_uid := 0, td_gid := 0\<rparr>;
          Some (tmpfs_from_dir a d, st\<lparr>to_supply := rest, to_objs := (to_objs st)(a \<mapsto> TDir (d\<lparr>td_mount := out\<rparr>))\<rparr>)
        }
      | _ \<Rightarrow> None)"

text \<open>\<open>argv\<close> has ten entries, the last for the null pointer; more options overrun it, and none leaves it unset.\<close>

definition tmpfs_mount :: "bytes \<Rightarrow> tmpfs \<Rightarrow> (tnode_desc \<times> tmpfs) option" where
  "tmpfs_mount device st =
     (case tokenize device [44] of
        [] \<Rightarrow> None
      | name # opts \<Rightarrow>
          if 10 \<le> length (name # opts) then None
          else do {
            (fs, st) \<leftarrow> tmpfs_create name st;
            Some (case opts of
                    [] \<Rightarrow> fs
                  | o1 # _ \<Rightarrow>
                      if length o1 < 3 then fs
                      else fs\<lparr>nd_mask := push_bit 6 (scast (o1 ! 0) - 48) OR push_bit 3 (scast (o1 ! 1) - 48) OR (scast (o1 ! 2) - 48)\<rparr>,
                  st)
          })"


section \<open>What a directory holds\<close>

definition entry_name :: "tmpfs \<Rightarrow> ptr \<Rightarrow> bytes" where
  "entry_name st p = (case to_objs st p of Some x \<Rightarrow> obj_name x | None \<Rightarrow> [])"

text \<open>The abstract directory: a map from names to objects.\<close>

definition dir_map :: "tmpfs \<Rightarrow> ptr \<Rightarrow> bytes \<rightharpoonup> ptr" where
  "dir_map st dp =
     (case get_dir dp st of None \<Rightarrow> Map.empty
      | Some d \<Rightarrow> map_of (map (\<lambda>p. (entry_name st p, p)) (td_files d)))"

definition dir_ok :: "tmpfs \<Rightarrow> ptr \<Rightarrow> bool" where
  "dir_ok st dp \<longleftrightarrow>
     (\<exists>d. get_dir dp st = Some d \<and> dp \<notin> set (td_files d) \<and> NULL \<notin> set (td_files d) \<and>
        (\<forall>p \<in> set (td_files d). to_objs st p \<noteq> None) \<and> distinct (map (entry_name st) (td_files d)))"

lemma strcmp_named [simp]: "named name n \<longleftrightarrow> n = name"
proof -
  have "strcmp a b = 0 \<longleftrightarrow> a = b" for a b
    by (induction a b rule: strcmp.induct) (auto intro: signed_word_eqI)
  then show ?thesis by (auto simp: named_def)
qed

lemma find_entry_spec:
  assumes "NULL \<notin> set ps" and "\<forall>p \<in> set ps. to_objs st p \<noteq> None"
  obtains r where "find_entry st fits ps = Some r"
    and "r = None \<Longrightarrow> \<forall>p \<in> set ps. \<not> fits (entry_name st p)"
    and "\<And>i p. r = Some (i, p) \<Longrightarrow> i < length ps \<and> ps ! i = p \<and> fits (entry_name st p) \<and> (\<forall>j < i. \<not> fits (entry_name st (ps ! j)))"
proof -
  have "\<exists>r. find_entry st fits ps = Some r \<and> (r = None \<longrightarrow> (\<forall>p \<in> set ps. \<not> fits (entry_name st p))) \<and>
      (\<forall>i p. r = Some (i, p) \<longrightarrow> i < length ps \<and> ps ! i = p \<and> fits (entry_name st p) \<and> (\<forall>j < i. \<not> fits (entry_name st (ps ! j))))"
    using assms
  proof (induction ps)
    case (Cons p ps)
    then obtain x where x: "to_objs st p = Some x" "get_obj p st = Some x" "entry_name st p = obj_name x"
      by (auto simp: get_obj_def entry_name_def)
    obtain r where r: "find_entry st fits ps = Some r" "r = None \<longrightarrow> (\<forall>p \<in> set ps. \<not> fits (entry_name st p))"
        "\<forall>i p. r = Some (i, p) \<longrightarrow> i < length ps \<and> ps ! i = p \<and> fits (entry_name st p) \<and> (\<forall>j < i. \<not> fits (entry_name st (ps ! j)))"
      using Cons by auto
    show ?case
    proof (cases "fits (obj_name x)")
      case True
      then show ?thesis using x by simp
    next
      case False
      then show ?thesis using x r by (auto simp: less_Suc_eq_0_disj nth_Cons')
    qed
  qed simp
  then show thesis using that by blast
qed

lemma dir_okE:
  assumes "dir_ok st dp"
  obtains d where "get_dir dp st = Some d" and "dp \<notin> set (td_files d)" and "NULL \<notin> set (td_files d)"
    and "\<forall>p \<in> set (td_files d). to_objs st p \<noteq> None" and "distinct (map (entry_name st) (td_files d))"
  using assms unfolding dir_ok_def by blast

lemma dir_lookup:
  assumes ok: "dir_ok st dp" and d: "get_dir dp st = Some d"
  shows "find_entry st (named name) (td_files d) = Some None \<and> dir_map st dp name = None \<or>
    (\<exists>i p. find_entry st (named name) (td_files d) = Some (Some (i, p)) \<and> dir_map st dp name = Some p \<and>
       i < length (td_files d) \<and> td_files d ! i = p)"
proof -
  have f: "NULL \<notin> set (td_files d)" "\<forall>p \<in> set (td_files d). to_objs st p \<noteq> None" "distinct (map (entry_name st) (td_files d))"
    using ok d by (auto simp: dir_ok_def)
  have m: "dir_map st dp = map_of (map (\<lambda>p. (entry_name st p, p)) (td_files d))" using d by (simp add: dir_map_def)
  obtain r where r: "find_entry st (named name) (td_files d) = Some r"
      "r = None \<Longrightarrow> \<forall>p \<in> set (td_files d). \<not> named name (entry_name st p)"
      "\<And>i p. r = Some (i, p) \<Longrightarrow> i < length (td_files d) \<and> td_files d ! i = p \<and> named name (entry_name st p) \<and>
        (\<forall>j < i. \<not> named name (entry_name st (td_files d ! j)))"
    by (rule find_entry_spec [OF f(1,2)]) (rule that)
  show ?thesis
  proof (cases r)
    case None
    then have "dir_map st dp name = None" using r(2) m by (auto simp: map_of_eq_None_iff)
    then show ?thesis using r(1) None by simp
  next
    case (Some ip)
    then obtain i p where ip: "r = Some (i, p)" by (cases ip) auto
    have e: "i < length (td_files d)" "td_files d ! i = p" "entry_name st p = name" using r(3) [OF ip] by auto
    then have "(name, p) \<in> set (map (\<lambda>p. (entry_name st p, p)) (td_files d))" by (auto simp: in_set_conv_nth image_iff)
    moreover have "distinct (map fst (map (\<lambda>p. (entry_name st p, p)) (td_files d)))" using f(3) by (simp add: o_def)
    ultimately have "dir_map st dp name = Some p" unfolding m by (simp only: map_of_eq_Some_iff)
    then show ?thesis using r(1) ip e by blast
  qed
qed

lemma get_dirD: "get_dir dp st = Some d \<Longrightarrow> to_objs st dp = Some (TDir d) \<and> dp \<noteq> NULL"
  by (auto simp: get_dir_def get_obj_def split: option.splits tobj.splits if_splits)

lemma map_of_snoc:
  assumes "map_of xs k = None"
  shows "map_of (xs @ [(k, v)]) = (map_of xs)(k \<mapsto> v)"
proof
  fix y
  show "map_of (xs @ [(k, v)]) y = ((map_of xs)(k \<mapsto> v)) y"
    using assms by (cases "map_of xs y") (auto simp: map_add_def)
qed

lemma map_of_remove_nth:
  assumes "distinct (map fst xs)" and "i < length xs"
  shows "map_of (remove_nth i xs) = (map_of xs)(fst (xs ! i) := None)"
proof -
  have xs: "xs = take i xs @ xs ! i # drop (Suc i) xs" using assms(2) by (simp add: id_take_nth_drop)
  then have "fst (xs ! i) \<notin> fst ` set (take i xs)" "fst (xs ! i) \<notin> fst ` set (drop (Suc i) xs)"
    using assms(1) by (metis distinct_append distinct.simps(2) disjoint_iff list.set_intros(1) list.simps(9) map_append set_map,
      metis distinct_append distinct.simps(2) list.simps(9) map_append set_map)
  then have n: "map_of (take i xs) (fst (xs ! i)) = None" "map_of (drop (Suc i) xs) (fst (xs ! i)) = None"
    by (simp_all add: map_of_eq_None_iff)
  have "map_of xs = (map_of (drop (Suc i) xs))(fst (xs ! i) \<mapsto> snd (xs ! i)) ++ map_of (take i xs)"
    by (subst xs) (simp only: map_of_append map_of.simps)
  then show ?thesis using n by (auto simp: remove_nth_def fun_eq_iff map_add_def split: option.splits)
qed

lemma remove_nth_map: "remove_nth i (map f xs) = map f (remove_nth i xs)"
  by (simp add: remove_nth_def take_map drop_map)

lemma set_remove_nth:
  assumes "distinct xs" and "i < length xs"
  shows "set (remove_nth i xs) = set xs - {xs ! i}" and "distinct (remove_nth i xs)"
proof -
  have xs: "xs = take i xs @ xs ! i # drop (Suc i) xs" using assms(2) by (simp add: id_take_nth_drop)
  define a b c where "a = take i xs" and "b = xs ! i" and "c = drop (Suc i) xs"
  have e: "xs = a @ b # c" using xs by (simp add: a_def b_def c_def)
  have "remove_nth i xs = a @ c" by (simp add: remove_nth_def a_def c_def)
  moreover have "distinct (a @ b # c)" using assms(1) e by simp
  moreover have "set xs = insert b (set a \<union> set c)" by (subst e) auto
  ultimately show "set (remove_nth i xs) = set xs - {xs ! i}" "distinct (remove_nth i xs)"
    by (auto simp: b_def)
qed

text \<open>Adding and removing an entry when the names of the others stay.\<close>

lemma dir_grow:
  assumes ok: "dir_ok st dp" and d: "get_dir dp st = Some d"
    and d': "get_dir dp st' = Some (d\<lparr>td_files := td_files d @ [p]\<rparr>)"
    and keep: "\<And>q. q \<in> set (td_files d) \<Longrightarrow> to_objs st' q \<noteq> None \<and> entry_name st' q = entry_name st q"
    and new: "dir_map st dp (entry_name st' p) = None" and p: "p \<noteq> NULL" "p \<noteq> dp" "to_objs st' p \<noteq> None"
  shows "dir_map st' dp = (dir_map st dp)(entry_name st' p \<mapsto> p)" and "dir_ok st' dp"
proof -
  have f: "dp \<notin> set (td_files d)" "NULL \<notin> set (td_files d)" "distinct (map (entry_name st) (td_files d))"
    using ok d by (auto simp: dir_ok_def)
  have m: "dir_map st dp = map_of (map (\<lambda>p. (entry_name st p, p)) (td_files d))" using d by (simp add: dir_map_def)
  have es: "map (\<lambda>p. (entry_name st' p, p)) (td_files d @ [p]) = map (\<lambda>p. (entry_name st p, p)) (td_files d) @ [(entry_name st' p, p)]"
    using keep by simp
  have "dir_map st' dp = map_of (map (\<lambda>p. (entry_name st' p, p)) (td_files d @ [p]))" using d' by (simp add: dir_map_def)
  also have "\<dots> = (dir_map st dp)(entry_name st' p \<mapsto> p)" unfolding es m using new unfolding m by (rule map_of_snoc)
  finally show "dir_map st' dp = (dir_map st dp)(entry_name st' p \<mapsto> p)" .
  have "entry_name st' p \<notin> entry_name st ` set (td_files d)" using new unfolding m by (simp add: map_of_eq_None_iff image_image)
  moreover have ns: "map (entry_name st') (td_files d @ [p]) = map (entry_name st) (td_files d) @ [entry_name st' p]" using keep by simp
  ultimately have "distinct (map (entry_name st') (td_files d @ [p]))" unfolding ns using f(3) by simp
  then show "dir_ok st' dp" unfolding dir_ok_def using d' f p keep by auto
qed

lemma dir_shrink:
  assumes ok: "dir_ok st dp" and d: "get_dir dp st = Some d" and i: "i < length (td_files d)" "td_files d ! i = p"
    and d': "get_dir dp st' = Some (d\<lparr>td_files := remove_nth i (td_files d)\<rparr>)"
    and keep: "\<And>q. q \<in> set (td_files d) \<Longrightarrow> q \<noteq> p \<Longrightarrow> to_objs st' q \<noteq> None \<and> entry_name st' q = entry_name st q"
  shows "dir_map st' dp = (dir_map st dp)(entry_name st p := None)" and "dir_ok st' dp"
proof -
  let ?fs = "remove_nth i (td_files d)"
  have f: "dp \<notin> set (td_files d)" "NULL \<notin> set (td_files d)" "distinct (map (entry_name st) (td_files d))"
    using ok d by (auto simp: dir_ok_def)
  have rest: "set ?fs = set (td_files d) - {p}" using set_remove_nth [of "td_files d" i] f(3) i by (simp add: distinct_map)
  have old: "entry_name st' q = entry_name st q" if "q \<in> set ?fs" for q using keep that unfolding rest by blast
  have "map (entry_name st') ?fs = remove_nth i (map (entry_name st) (td_files d))" using old by (simp add: remove_nth_map)
  then have "distinct (map (entry_name st') ?fs)" using set_remove_nth(2) [OF f(3), of i] i by simp
  then show "dir_ok st' dp" unfolding dir_ok_def using d' f rest keep by auto
  have "map (\<lambda>q. (entry_name st' q, q)) ?fs = remove_nth i (map (\<lambda>q. (entry_name st q, q)) (td_files d))"
    using old by (simp add: remove_nth_map)
  then have "dir_map st' dp = map_of (remove_nth i (map (\<lambda>q. (entry_name st q, q)) (td_files d)))" using d' by (simp add: dir_map_def)
  also have "\<dots> = (dir_map st dp)(entry_name st p := None)"
    using map_of_remove_nth [of "map (\<lambda>q. (entry_name st q, q)) (td_files d)" i] f(3) i d by (simp add: o_def dir_map_def)
  finally show "dir_map st' dp = (dir_map st dp)(entry_name st p := None)" .
qed

text \<open>An entry is appended.\<close>

lemma add_entry_spec:
  assumes ok: "dir_ok st dp" and sup: "to_supply st = a # rest" "a \<noteq> NULL" "to_objs st a = None"
    and new: "dir_map st dp (obj_name x) = None"
  obtains st' where "add_entry dp x st = Some st'" and "dir_ok st' dp" and "dir_map st' dp = (dir_map st dp)(obj_name x \<mapsto> a)"
    and "to_supply st' = rest" and "\<And>q. q \<noteq> dp \<Longrightarrow> q \<noteq> a \<Longrightarrow> to_objs st' q = to_objs st q"
    and "to_objs st' a = Some x" and "to_frames st' = to_frames st"
proof -
  obtain d where d: "get_dir dp st = Some d" "dp \<notin> set (td_files d)" "NULL \<notin> set (td_files d)"
      "\<forall>p \<in> set (td_files d). to_objs st p \<noteq> None" "distinct (map (entry_name st) (td_files d))"
    by (rule dir_okE [OF ok])
  have dp: "to_objs st dp = Some (TDir d)" "dp \<noteq> NULL" using d(1) by (auto simp: get_dir_def get_obj_def split: option.splits tobj.splits if_splits)
  have ad: "a \<noteq> dp" "a \<notin> set (td_files d)" using sup(3) dp(1) d(4) by auto
  define st' where "st' = st\<lparr>to_supply := rest, to_objs := (to_objs st)(a \<mapsto> x, dp \<mapsto> TDir (d\<lparr>td_files := td_files d @ [a]\<rparr>))\<rparr>"
  have run: "add_entry dp x st = Some st'"
    using sup(1) dp ad by (simp add: add_entry_def set_files_def get_dir_def get_obj_def st'_def Let_def)
  have old: "to_objs st' p \<noteq> None \<and> entry_name st' p = entry_name st p" if "p \<in> set (td_files d)" for p
    using that ad(2) d(2,4) by (auto simp: entry_name_def st'_def)
  have na: "entry_name st' a = obj_name x" using ad by (simp add: entry_name_def st'_def)
  have g: "get_dir dp st' = Some (d\<lparr>td_files := td_files d @ [a]\<rparr>)" using dp by (simp add: get_dir_def get_obj_def st'_def)
  have "to_objs st' a \<noteq> None" using ad by (simp add: st'_def)
  note r = dir_grow [OF ok d(1) g old _ sup(2) ad(1) this, unfolded na, OF _ new]
  show thesis using that [OF run r(2,1)] ad by (simp add: st'_def)
qed

text \<open>What a caller sees of a directory: each name, and whether it is a directory that still has entries.\<close>

definition busy :: "tmpfs \<Rightarrow> ptr \<Rightarrow> bool" where
  "busy st p = (case to_objs st p of Some (TDir e) \<Rightarrow> td_files e \<noteq> [] | _ \<Rightarrow> False)"

definition dir_view :: "ptr \<Rightarrow> tmpfs \<Rightarrow> bytes \<rightharpoonup> bool" where
  "dir_view dp st = map_option (busy st) \<circ> dir_map st dp"

definition supply_ok :: "nat \<Rightarrow> tmpfs \<Rightarrow> bool" where
  "supply_ok n st \<longleftrightarrow> n \<le> length (to_supply st) \<and> distinct (to_supply st) \<and> NULL \<notin> set (to_supply st) \<and>
     (\<forall>a \<in> set (to_supply st). to_objs st a = None)"

definition dir_inv :: "ptr \<Rightarrow> nat \<Rightarrow> tmpfs \<Rightarrow> bool" where
  "dir_inv dp n st \<longleftrightarrow> dir_ok st dp \<and> supply_ok n st"

datatype dop = DCreate bytes u32 | DSymlink bytes bytes | DMkdir bytes u32 | DUnlink bytes

fun dir_step :: "creds \<Rightarrow> fs_node \<Rightarrow> ptr \<Rightarrow> ptr \<Rightarrow> dop \<Rightarrow> tmpfs \<Rightarrow> (int \<times> tmpfs) option" where
  "dir_step cr nd mnt dp (DCreate name permission) st = create_tmpfs dp mnt (Some name) permission st"
| "dir_step cr nd mnt dp (DSymlink target name) st = symlink_tmpfs dp mnt target name st"
| "dir_step cr nd mnt dp (DMkdir name permission) st = mkdir_tmpfs cr nd dp (Some name) permission st"
| "dir_step cr nd mnt dp (DUnlink name) st = unlink_tmpfs dp name st"

definition insert_spec :: "bytes \<Rightarrow> (bytes \<rightharpoonup> bool) \<Rightarrow> int \<times> (bytes \<rightharpoonup> bool)" where
  "insert_spec name v = (if v name = None then (0, v(name \<mapsto> False)) else (- EEXIST, v))"

fun dir_spec :: "bool \<Rightarrow> dop \<Rightarrow> (bytes \<rightharpoonup> bool) \<Rightarrow> int \<times> (bytes \<rightharpoonup> bool)" where
  "dir_spec allowed (DCreate name permission) v = insert_spec name v"
| "dir_spec allowed (DSymlink target name) v = insert_spec name v"
| "dir_spec allowed (DMkdir name permission) v =
     (if name = [] then (- EINVAL, v)
      else if v name = None \<and> \<not> allowed then (- EACCES, v) else insert_spec name v)"
| "dir_spec allowed (DUnlink name) v =
     (case v name of None \<Rightarrow> (- ENOENT, v)
      | Some True \<Rightarrow> (- ENOTEMPTY, v)
      | Some False \<Rightarrow> (0, v(name := None)))"

lemma entry_exists_spec:
  assumes "dir_ok st dp"
  shows "entry_exists dp name st = Some (dir_map st dp name \<noteq> None)"
proof -
  obtain d where d: "get_dir dp st = Some d" by (rule dir_okE [OF assms])
  from dir_lookup [OF assms d, of name] show ?thesis using d by (auto simp: entry_exists_def)
qed

lemma dir_map_entry:
  assumes "dir_map st dp name = Some p" and "get_dir dp st = Some d"
  shows "p \<in> set (td_files d)" and "entry_name st p = name"
  using assms by (auto simp: dir_map_def dest!: map_of_SomeD)

lemma add_entry_view:
  assumes inv: "dir_inv dp (Suc n) st" and new: "dir_view dp st (obj_name x) = None" and empty: "\<And>e. x = TDir e \<Longrightarrow> td_files e = []"
  obtains st' where "add_entry dp x st = Some st'" and "dir_inv dp n st'" and "dir_view dp st' = (dir_view dp st)(obj_name x \<mapsto> False)"
proof -
  have ok: "dir_ok st dp" and sup: "supply_ok (Suc n) st" using inv by (auto simp: dir_inv_def)
  then obtain a rest where s: "to_supply st = a # rest" by (cases "to_supply st") (auto simp: supply_ok_def)
  have a: "a \<noteq> NULL" "to_objs st a = None" "a \<notin> set rest" using sup s by (auto simp: supply_ok_def)
  have new': "dir_map st dp (obj_name x) = None" using new by (simp add: dir_view_def)
  obtain st' where r: "add_entry dp x st = Some st'" "dir_ok st' dp" "dir_map st' dp = (dir_map st dp)(obj_name x \<mapsto> a)"
      "to_supply st' = rest" "\<And>q. q \<noteq> dp \<Longrightarrow> q \<noteq> a \<Longrightarrow> to_objs st' q = to_objs st q" "to_objs st' a = Some x"
    using add_entry_spec [OF ok s a(1,2) new'] by metis
  obtain d where d: "get_dir dp st = Some d" "dp \<notin> set (td_files d)" by (rule dir_okE [OF ok])
  have dpo: "to_objs st dp \<noteq> None" using d(1) by (auto simp: get_dir_def get_obj_def split: if_splits option.splits)
  have ne: "q \<noteq> dp" if "q \<in> set rest" for q using that sup s dpo by (auto simp: supply_ok_def)
  have "to_objs st' q = None" if q: "q \<in> set rest" for q
    using r(5) [of q] ne [OF q] q a(3) sup s by (auto simp: supply_ok_def)
  then have "supply_ok n st'" using sup s r(4) by (auto simp: supply_ok_def)
  moreover have "busy st' p = busy st p" if p: "dir_map st dp name = Some p" for p name
  proof -
    have "p \<in> set (td_files d)" by (rule dir_map_entry [OF p d(1)])
    then have "p \<noteq> dp" "p \<noteq> a" using d ok a(2) by (auto simp: dir_ok_def)
    then show ?thesis using r(5) by (simp add: busy_def)
  qed
  moreover have "\<not> busy st' a" using r(6) empty by (cases x) (auto simp: busy_def)
  ultimately show thesis using that [OF r(1)] r(2,3)
    by (auto simp: dir_inv_def dir_view_def fun_eq_iff map_option_case split: option.splits)
qed


text \<open>An entry is removed; the object is gone from memory.\<close>

lemma remove_entry_spec:
  assumes ok: "dir_ok st dp" and d: "get_dir dp st = Some d" and i: "i < length (td_files d)" "td_files d ! i = p"
    and st1: "to_objs st1 = (to_objs st)(p := None)"
  obtains st' where "set_files dp (remove_nth i (td_files d)) st1 = Some st'" and "get_dir dp st1 = Some d" and "dir_ok st' dp"
    and "dir_map st' dp = (dir_map st dp)(entry_name st p := None)"
    and "to_objs st' = (to_objs st)(p := None, dp \<mapsto> TDir (d\<lparr>td_files := remove_nth i (td_files d)\<rparr>))"
    and "to_supply st' = to_supply st1" and "to_frames st' = to_frames st1"
proof -
  let ?fs = "remove_nth i (td_files d)"
  have f: "dp \<notin> set (td_files d)" "NULL \<notin> set (td_files d)" "\<forall>p \<in> set (td_files d). to_objs st p \<noteq> None"
      "distinct (map (entry_name st) (td_files d))"
    using ok d by (auto simp: dir_ok_def)
  have p: "p \<in> set (td_files d)" "p \<noteq> dp" using i f(1) by (auto simp: in_set_conv_nth)
  have dp: "to_objs st dp = Some (TDir d)" "dp \<noteq> NULL" using d by (auto simp: get_dir_def get_obj_def split: option.splits tobj.splits if_splits)
  define st' where "st' = st1\<lparr>to_objs := (to_objs st)(p := None, dp \<mapsto> TDir (d\<lparr>td_files := ?fs\<rparr>))\<rparr>"
  have g: "get_dir dp st1 = Some d" using dp p st1 by (simp add: get_dir_def get_obj_def)
  have run: "set_files dp ?fs st1 = Some st'" using g st1 by (simp add: set_files_def st'_def)
  have g': "get_dir dp st' = Some (d\<lparr>td_files := ?fs\<rparr>)" using dp by (simp add: get_dir_def get_obj_def st'_def)
  have old: "to_objs st' q \<noteq> None \<and> entry_name st' q = entry_name st q" if "q \<in> set (td_files d)" "q \<noteq> p" for q
    using that f(1,3) by (auto simp: entry_name_def st'_def)
  note r = dir_shrink [OF ok d i g' old]
  show thesis using that [OF run g r(2,1)] by (simp add: st'_def)
qed

lemma unlink_view:
  assumes inv: "dir_inv dp n st"
  obtains st' where "unlink_tmpfs dp name st = Some (fst (dir_spec b (DUnlink name) (dir_view dp st)), st')"
    and "dir_view dp st' = snd (dir_spec b (DUnlink name) (dir_view dp st))" and "dir_inv dp n st'"
    and "fst (dir_spec b (DUnlink name) (dir_view dp st)) \<noteq> 0 \<Longrightarrow> st' = st"
proof -
  have ok: "dir_ok st dp" and sup: "supply_ok n st" using inv by (auto simp: dir_inv_def)
  obtain d where d: "get_dir dp st = Some d" "dp \<notin> set (td_files d)" "NULL \<notin> set (td_files d)"
      "\<forall>p \<in> set (td_files d). to_objs st p \<noteq> None" by (rule dir_okE [OF ok])
  show thesis
  proof (cases "dir_map st dp name")
    case None
    then have "find_entry st (named name) (td_files d) = Some None" using dir_lookup [OF ok d(1), of name] by auto
    then show thesis using that [of st] None d(1) inv by (simp add: unlink_tmpfs_def dir_view_def ENOENT_def)
  next
    case (Some p)
    then obtain i where i: "find_entry st (named name) (td_files d) = Some (Some (i, p))" "i < length (td_files d)" "td_files d ! i = p"
      using dir_lookup [OF ok d(1), of name] by auto
    have p: "p \<in> set (td_files d)" "entry_name st p = name" by (rule dir_map_entry [OF Some d(1)])+
    then obtain x where x: "to_objs st p = Some x" "get_obj p st = Some x" "p \<noteq> NULL" using d by (auto simp: get_obj_def)
    have v: "dir_view dp st name = Some (busy st p)" using Some by (simp add: dir_view_def)
    show thesis
    proof (cases "busy st p")
      case True
      then obtain e where e: "x = TDir e" "td_files e \<noteq> []" using x by (auto simp: busy_def split: tobj.splits)
      then show thesis using that [of st] True v d(1) i x inv by (simp add: unlink_tmpfs_def try_free_dir_def)
    next
      case False
      define st0 where "st0 = (case x of TFile t m \<Rightarrow> free_file t st | TDir e \<Rightarrow> st)"
      define st1 where "st1 = st0\<lparr>to_objs := (to_objs st0)(p := None)\<rparr>"
      have st1: "to_objs st1 = (to_objs st)(p := None)" "to_supply st1 = to_supply st"
        by (auto simp: st1_def st0_def free_file_def split: tobj.splits)
      obtain st' where r: "set_files dp (remove_nth i (td_files d)) st1 = Some st'" "get_dir dp st1 = Some d" "dir_ok st' dp"
          "dir_map st' dp = (dir_map st dp)(name := None)"
          "to_objs st' = (to_objs st)(p := None, dp \<mapsto> TDir (d\<lparr>td_files := remove_nth i (td_files d)\<rparr>))" "to_supply st' = to_supply st1"
        using remove_entry_spec [OF ok d(1) i(2,3) st1(1)] p(2) by metis
      have "(case x of TDir e \<Rightarrow> if try_free_dir e then Some st else None | TFile t m \<Rightarrow> Some (free_file t st)) = Some st0"
        using False x by (auto simp: busy_def st0_def try_free_dir_def split: tobj.splits)
      then have run: "unlink_tmpfs dp name st = Some (0, st')"
        using d(1) i(1) x(2) r(1,2) by (simp add: unlink_tmpfs_def st1_def Let_def)
      have "to_objs st dp \<noteq> None" using d(1) by (auto simp: get_dir_def get_obj_def split: if_splits option.splits)
      then have "supply_ok n st'" using sup r(5,6) st1(2) by (auto simp: supply_ok_def)
      then have inv': "dir_inv dp n st'" using r(3) by (simp add: dir_inv_def)
      have "busy st' q = busy st q" if q: "dir_map st dp m = Some q" "m \<noteq> name" for m q
      proof -
        have "q \<in> set (td_files d)" "entry_name st q = m" by (rule dir_map_entry [OF q(1) d(1)])+
        then have "q \<noteq> dp" "q \<noteq> p" using d(2) p q(2) by auto
        then show ?thesis using r(5) by (simp add: busy_def)
      qed
      then have "dir_view dp st' = (dir_view dp st)(name := None)"
        using r(4) by (auto simp: dir_view_def fun_eq_iff map_option_case split: option.splits)
      then show thesis using that [OF _ _ inv'] run v False by simp
    qed
  qed
qed


section \<open>A component that runs requests\<close>

text \<open>
  A request that refines its abstract meaning at every state the invariant allows gives, for every
  history of requests, the results and the state of the abstract history.  \<open>ok n\<close> is the invariant
  together with the resources for \<open>n\<close> more requests.
\<close>

primrec run_all :: "('r \<Rightarrow> 's \<Rightarrow> (int \<times> 's) option) \<Rightarrow> 'r list \<Rightarrow> 's \<Rightarrow> (int list \<times> 's) option" where
  "run_all step [] s = Some ([], s)"
| "run_all step (r # rs) s = do { (c, s) \<leftarrow> step r s; (cs, s) \<leftarrow> run_all step rs s; Some (c # cs, s) }"

primrec run_all_spec :: "('r \<Rightarrow> 'v \<Rightarrow> int \<times> 'v) \<Rightarrow> 'r list \<Rightarrow> 'v \<Rightarrow> int list \<times> 'v" where
  "run_all_spec spec [] v = ([], v)"
| "run_all_spec spec (r # rs) v = (let (c, v) = spec r v; (cs, v) = run_all_spec spec rs v in (c # cs, v))"

locale request_machine =
  fixes step :: "'r \<Rightarrow> 's \<Rightarrow> (int \<times> 's) option"
    and spec :: "'r \<Rightarrow> 'v \<Rightarrow> int \<times> 'v"
    and view :: "'s \<Rightarrow> 'v"
    and ok :: "nat \<Rightarrow> 's \<Rightarrow> bool"
  assumes step_refines: "ok (Suc n) s \<Longrightarrow> \<exists>s'. step r s = Some (fst (spec r (view s)), s') \<and> view s' = snd (spec r (view s)) \<and> ok n s'"
begin

lemma run_refines:
  "ok (length rs) s \<Longrightarrow> \<exists>s'. run_all step rs s = Some (fst (run_all_spec spec rs (view s)), s') \<and> view s' = snd (run_all_spec spec rs (view s)) \<and> ok 0 s'"
proof (induction rs arbitrary: s)
  case (Cons r rs)
  obtain s1 where s1: "step r s = Some (fst (spec r (view s)), s1)" "view s1 = snd (spec r (view s))" "ok (length rs) s1"
    using step_refines [of "length rs" s r] Cons.prems by auto
  obtain s2 where "run_all step rs s1 = Some (fst (run_all_spec spec rs (view s1)), s2)" "view s2 = snd (run_all_spec spec rs (view s1))" "ok 0 s2"
    using Cons.IH [OF s1(3)] by auto
  then show ?case using s1 by (simp add: Let_def split_def)
qed simp

end

definition may_add :: "creds \<Rightarrow> fs_node \<Rightarrow> bool" where
  "may_add cr nd \<longleftrightarrow> has_permission cr (Some nd) 2 \<noteq> 0 \<and> has_permission cr (Some nd) 1 \<noteq> 0"

lemma supply_okD: "supply_ok (Suc n) st \<Longrightarrow> supply_ok n st"
  by (simp add: supply_ok_def)

text \<open>The three operations that insert share their meaning.\<close>

lemma insert_view:
  assumes inv: "dir_inv dp (Suc n) st" and x: "obj_name x = name" "\<And>e. x = TDir e \<Longrightarrow> td_files e = []"
  shows "\<exists>st'.
    (if dir_map st dp name \<noteq> None then Some (- EEXIST, st) else do { st \<leftarrow> add_entry dp x st; Some (0, st) }) =
       Some (fst (insert_spec name (dir_view dp st)), st') \<and>
    dir_view dp st' = snd (insert_spec name (dir_view dp st)) \<and> dir_inv dp n st'"
proof (cases "dir_view dp st name")
  case None
  have n: "dir_view dp st (obj_name x) = None" using None x by simp
  obtain st' where "add_entry dp x st = Some st'" "dir_inv dp n st'" "dir_view dp st' = (dir_view dp st)(obj_name x \<mapsto> False)"
    using add_entry_view [OF inv n] x(2) by metis
  then show ?thesis using None x(1) by (simp add: insert_spec_def dir_view_def)
next
  case (Some b)
  have "dir_inv dp n st" using inv supply_okD by (auto simp: dir_inv_def)
  then show ?thesis using Some by (auto simp add: insert_spec_def dir_view_def)
qed

lemma dir_step_refines:
  assumes inv: "dir_inv dp (Suc n) st"
  shows "\<exists>st'. dir_step cr nd mnt dp r st = Some (fst (dir_spec (may_add cr nd) r (dir_view dp st)), st') \<and>
    dir_view dp st' = snd (dir_spec (may_add cr nd) r (dir_view dp st)) \<and> dir_inv dp n st'"
proof -
  have ok: "dir_ok st dp" and less: "dir_inv dp n st" using inv supply_okD by (auto simp: dir_inv_def)
  note ex = entry_exists_spec [OF ok]
  show ?thesis
  proof (cases r)
    case (DCreate name permission)
    let ?t = "(tmpfs_file_new name (to_now st))\<lparr>tf_mask := permission, tf_uid := to_user st, tf_gid := to_group st\<rparr>"
    have "obj_name (TFile ?t mnt) = name" by (simp add: tmpfs_file_new_def)
    note v = insert_view [OF inv this]
    have "dir_step cr nd mnt dp r st = (if dir_map st dp name \<noteq> None then Some (- EEXIST, st) else do { st \<leftarrow> add_entry dp (TFile ?t mnt) st; Some (0, st) })"
      using DCreate ex [of name] by (simp add: create_tmpfs_def Let_def)
    then show ?thesis using v DCreate by (simp only: dir_spec.simps) simp
  next
    case (DSymlink target name)
    let ?t = "(tmpfs_file_new name (to_now st))\<lparr>tf_type := TMPFS_TYPE_LINK, tf_target := target, tf_length := of_nat (length target),
                  tf_mask := 511, tf_uid := to_user st, tf_gid := to_user st\<rparr>"
    have "obj_name (TFile ?t mnt) = name" by (simp add: tmpfs_file_new_def)
    note v = insert_view [OF inv this]
    have "dir_step cr nd mnt dp r st = (if dir_map st dp name \<noteq> None then Some (- EEXIST, st) else do { st \<leftarrow> add_entry dp (TFile ?t mnt) st; Some (0, st) })"
      using DSymlink ex [of name] by (simp add: symlink_tmpfs_def Let_def)
    then show ?thesis using v DSymlink by (simp only: dir_spec.simps) simp
  next
    case (DUnlink name)
    obtain st' where "unlink_tmpfs dp name st = Some (fst (dir_spec (may_add cr nd) (DUnlink name) (dir_view dp st)), st')"
        "dir_view dp st' = snd (dir_spec (may_add cr nd) (DUnlink name) (dir_view dp st))" "dir_inv dp n st'"
      by (rule unlink_view [OF less]) (rule that)
    then show ?thesis using DUnlink by (simp only: dir_step.simps) blast
  next
    case (DMkdir name permission)
    show ?thesis
    proof (cases "name = [] \<or> \<not> may_add cr nd")
      case True
      then show ?thesis using DMkdir ex [of name] less
        by (auto simp: mkdir_tmpfs_def may_add_def dir_view_def insert_spec_def)
    next
      case False
      obtain d where d: "get_dir dp st = Some d" "dp \<noteq> NULL" using ok by (auto simp: dir_ok_def get_dir_def get_obj_def split: if_splits)
      let ?o = "\<lparr>td_name = name, td_mask = permission, td_uid = to_user st, td_gid = to_user st, td_atime = to_now st, td_mtime = to_now st,
           td_ctime = to_now st, td_mount = td_mount d, td_files = [], td_parent = dp\<rparr>"
      have "obj_name (TDir ?o) = name" "\<And>e. TDir ?o = TDir e \<Longrightarrow> td_files e = []" by auto
      note v = insert_view [OF inv this]
      have "dir_step cr nd mnt dp r st = (if dir_map st dp name \<noteq> None then Some (- EEXIST, st) else do { st \<leftarrow> add_entry dp (TDir ?o) st; Some (0, st) })"
        using False DMkdir ex [of name] d by (simp add: mkdir_tmpfs_def may_add_def tmpfs_dir_new_def Let_def)
      then show ?thesis using v DMkdir False by (simp only: dir_spec.simps) simp
    qed
  qed
qed

interpretation td: request_machine "dir_step cr nd mnt dp" "dir_spec (may_add cr nd)" "dir_view dp" "dir_inv dp" for cr nd mnt dp
  by unfold_locales (rule dir_step_refines)


lemma finddir_spec:
  assumes ok: "dir_ok st dp"
  shows "finddir_tmpfs dp (Some name) st =
    Some (case dir_map st dp name of None \<Rightarrow> FoundNone
      | Some p \<Rightarrow> (case to_objs st p of
            Some (TDir d) \<Rightarrow> FoundDir p
          | Some (TFile t m) \<Rightarrow> if tf_type t = TMPFS_TYPE_FILE then FoundFile p else if tf_type t = TMPFS_TYPE_LINK then FoundLink p
              else if tf_type t = TMPFS_TYPE_DIR then FoundDir p else FoundNone
          | None \<Rightarrow> FoundNone))"
proof -
  obtain d where d: "get_dir dp st = Some d" "NULL \<notin> set (td_files d)" "\<forall>p \<in> set (td_files d). to_objs st p \<noteq> None"
    by (rule dir_okE [OF ok])
  show ?thesis
  proof (cases "dir_map st dp name")
    case None
    then show ?thesis using dir_lookup [OF ok d(1), of name] d(1) by (auto simp: finddir_tmpfs_def)
  next
    case (Some p)
    then obtain i where i: "find_entry st (named name) (td_files d) = Some (Some (i, p))"
      using dir_lookup [OF ok d(1), of name] by auto
    have "p \<in> set (td_files d)" by (rule dir_map_entry [OF Some d(1)])
    then obtain x where "get_obj p st = Some x" "to_objs st p = Some x" using d by (cases "p = NULL") (auto simp: get_obj_def)
    then show ?thesis using Some i d(1)
      by (cases x) (auto simp: finddir_tmpfs_def TMPFS_TYPE_FILE_def TMPFS_TYPE_LINK_def TMPFS_TYPE_DIR_def)
  qed
qed

text \<open>An operation that fails has changed nothing: the rules follow the structure of its definition.\<close>

definition fails_clean :: "'s \<Rightarrow> (int \<times> 's) option \<Rightarrow> bool" where
  "fails_clean st c \<longleftrightarrow> (\<forall>r st'. c = Some (r, st') \<longrightarrow> r \<noteq> 0 \<longrightarrow> st' = st)"

lemma fails_clean_bind: "(\<And>x. fails_clean st (f x)) \<Longrightarrow> fails_clean st (m \<bind> f)"
  by (cases m) (auto simp: fails_clean_def)

lemma fails_clean_if: "fails_clean st a \<Longrightarrow> fails_clean st b \<Longrightarrow> fails_clean st (if c then a else b)"
  by simp

lemma fails_clean_option: "fails_clean st a \<Longrightarrow> (\<And>x. fails_clean st (f x)) \<Longrightarrow> fails_clean st (case_option a f c)"
  by (cases c) auto

lemma fails_clean_prod: "(\<And>x y. fails_clean st (f x y)) \<Longrightarrow> fails_clean st (case_prod f c)"
  by (cases c) auto

lemma fails_clean_return: "fails_clean st (Some (r, st))" "fails_clean st (map_option (Pair 0) c)" "fails_clean st (Some (0, st'))"
    "fails_clean st None"
  by (auto simp: fails_clean_def)

lemmas fails_clean_intros = fails_clean_return fails_clean_bind fails_clean_if fails_clean_option fails_clean_prod

lemma rename_fails_clean: "fails_clean st (rename_tmpfs dsp src_name ddp dest_name st)"
  unfolding rename_tmpfs_def Let_def by (intro fails_clean_intros)

definition cycle_dir :: "bytes \<Rightarrow> ptr list \<Rightarrow> ptr \<Rightarrow> tmpfs_dir" where
  "cycle_dir name fs parent = \<lparr>td_name = name, td_mask = 511, td_uid = 0, td_gid = 0, td_atime = 0, td_mtime = 0, td_ctime = 0,
     td_mount = 9, td_files = fs, td_parent = parent\<rparr>"

definition two_dirs :: tmpfs where
  "two_dirs = \<lparr>to_objs = [1 \<mapsto> TDir (cycle_dir [114] [2, 3] NULL), 2 \<mapsto> TDir (cycle_dir [97] [] 1), 3 \<mapsto> TDir (cycle_dir [98] [] 1)],
     to_frames = \<lparr>fr_mem = (\<lambda>f i. 0), fr_free = [], fr_total = 0\<rparr>, to_supply = [4, 5, 6], to_user = 0, to_group = 0, to_now = 0\<rparr>"

text \<open>For names without a slash, the comparison of \<open>rename\<close> is equality.\<close>

lemma path_comp_plain: "47 \<notin> set a \<Longrightarrow> 47 \<notin> set b \<Longrightarrow> path_comp a b \<longleftrightarrow> a = b"
  by (induction a b rule: path_comp.induct) auto

lemma path_dup_plain: "47 \<notin> set a \<Longrightarrow> path_dup a = a"
  by (simp add: path_dup_def takeWhile_eq_all_conv) blast

lemma endswith_plain: "47 \<notin> set a \<Longrightarrow> \<not> endswith a 47"
  by (cases a rule: rev_cases) (auto simp: endswith_def)

lemma find_entry_cong:
  assumes "\<And>p. p \<in> set ps \<Longrightarrow> f (entry_name st p) = g (entry_name st p)"
  shows "find_entry st f ps = find_entry st g ps"
  using assms
proof (induction ps)
  case (Cons p ps)
  show ?case
  proof (cases "get_obj p st")
    case (Some x)
    then have "entry_name st p = obj_name x" by (auto simp: get_obj_def entry_name_def split: if_splits)
    then have "f (obj_name x) = g (obj_name x)" using Cons.prems [of p] by simp
    then show ?thesis using Some Cons by simp
  qed simp
qed simp

definition plain_dir :: "tmpfs \<Rightarrow> ptr \<Rightarrow> bool" where
  "plain_dir st dp \<longleftrightarrow> dir_ok st dp \<and> (\<forall>n \<in> dom (dir_map st dp). 47 \<notin> set n)"

lemma plain_lookup:
  assumes "plain_dir st dp" and d: "get_dir dp st = Some d" and "47 \<notin> set name"
  shows "find_entry st (path_comp name) (td_files d) = find_entry st (named name) (td_files d)"
proof (rule find_entry_cong)
  fix p assume "p \<in> set (td_files d)"
  then have "entry_name st p \<in> dom (dir_map st dp)" using d by (auto simp: dir_map_def dom_map_of_conv_image_fst image_image)
  then show "path_comp name (entry_name st p) = named name (entry_name st p)"
    using assms by (auto simp: plain_dir_def path_comp_plain)
qed

lemma rename_move_run:
  assumes ds: "get_dir dsp st = Some ds" and dd: "get_dir ddp st = Some dd" and ne: "dsp \<noteq> ddp"
    and p: "to_objs st p = Some (TFile t m)" "p \<noteq> NULL"
  shows "rename_move dsp i p ddp dest st = Some (st\<lparr>to_objs := (to_objs st)(p \<mapsto> TFile (t\<lparr>tf_name := path_dup dest\<rparr>) m,
      ddp \<mapsto> TDir (dd\<lparr>td_files := td_files dd @ [p]\<rparr>), dsp \<mapsto> TDir (ds\<lparr>td_files := remove_nth i (td_files ds)\<rparr>))\<rparr>)"
proof -
  have "p \<noteq> dsp" "p \<noteq> ddp" using get_dirD [OF ds] get_dirD [OF dd] p by auto
  then show ?thesis using get_dirD [OF ds] get_dirD [OF dd] p ne
    by (simp add: rename_move_def rename_entry_def set_files_def get_dir_def get_obj_def)
qed


lemma rename_moves_spec:
  assumes pl: "plain_dir st dsp" "plain_dir st ddp" and ne: "dsp \<noteq> ddp" and slash: "47 \<notin> set src" "47 \<notin> set dest"
    and p: "dir_map st dsp src = Some p" "to_objs st p = Some (TFile t m)" "tf_type t \<noteq> TMPFS_TYPE_DIR"
    and free: "dir_map st ddp dest = None" and single: "p \<notin> ran (dir_map st ddp)"
  obtains st' where "rename_tmpfs dsp src ddp dest st = Some (0, st')"
    and "dir_map st' dsp = (dir_map st dsp)(src := None)" and "dir_map st' ddp = (dir_map st ddp)(dest \<mapsto> p)"
    and "dir_ok st' dsp" and "dir_ok st' ddp" and "to_objs st' p = Some (TFile (t\<lparr>tf_name := dest\<rparr>) m)"
proof -
  have ok: "dir_ok st dsp" "dir_ok st ddp" using pl by (auto simp: plain_dir_def)
  obtain ds where ds: "get_dir dsp st = Some ds" "NULL \<notin> set (td_files ds)" "\<forall>p \<in> set (td_files ds). to_objs st p \<noteq> None"
    by (rule dir_okE [OF ok(1)])
  obtain dd where dd: "get_dir ddp st = Some dd" "\<forall>p \<in> set (td_files dd). to_objs st p \<noteq> None" "distinct (map (entry_name st) (td_files dd))"
    by (rule dir_okE [OF ok(2)])
  have pe: "p \<in> set (td_files ds)" "entry_name st p = src" by (rule dir_map_entry [OF p(1) ds(1)])+
  then have pn: "p \<noteq> NULL" using ds(2) by auto
  have pd: "p \<noteq> dsp" "p \<noteq> ddp" using get_dirD [OF ds(1)] get_dirD [OF dd(1)] p(2) by auto
  have "distinct (map fst (map (\<lambda>p. (entry_name st p, p)) (td_files dd)))" using dd(3) by (simp add: o_def)
  then have "ran (dir_map st ddp) = set (td_files dd)" using dd(1) by (simp add: dir_map_def ran_distinct image_image)
  then have pf: "p \<notin> set (td_files dd)" using single by simp
  obtain i where i: "find_entry st (named src) (td_files ds) = Some (Some (i, p))" "i < length (td_files ds)" "td_files ds ! i = p"
    using dir_lookup [OF ok(1) ds(1), of src] p(1) by auto
  have none: "find_entry st (named dest) (td_files dd) = Some None" using dir_lookup [OF ok(2) dd(1), of dest] free by auto
  define st' where "st' = st\<lparr>to_objs := (to_objs st)(p \<mapsto> TFile (t\<lparr>tf_name := dest\<rparr>) m,
      ddp \<mapsto> TDir (dd\<lparr>td_files := td_files dd @ [p]\<rparr>), dsp \<mapsto> TDir (ds\<lparr>td_files := remove_nth i (td_files ds)\<rparr>))\<rparr>"
  have mv: "rename_move dsp i p ddp dest st = Some st'"
    using rename_move_run [OF ds(1) dd(1) ne p(2) pn, of i dest] slash by (simp add: st'_def path_dup_plain)
  have run: "rename_tmpfs dsp src ddp dest st = Some (0, st')"
    using ds(1) dd(1) i(1) none mv p(2,3) pn plain_lookup [OF pl(1) ds(1) slash(1)] plain_lookup [OF pl(2) dd(1) slash(2)]
      endswith_plain [OF slash(1)] endswith_plain [OF slash(2)]
    by (simp add: rename_tmpfs_def get_obj_def)
  have keep: "to_objs st' q \<noteq> None \<and> entry_name st' q = entry_name st q" if "to_objs st q \<noteq> None" "q \<noteq> p" for q
    using that get_dirD [OF ds(1)] get_dirD [OF dd(1)] by (auto simp: st'_def entry_name_def)
  have np: "entry_name st' p = dest" "to_objs st' p = Some (TFile (t\<lparr>tf_name := dest\<rparr>) m)" using pd by (auto simp: st'_def entry_name_def)
  have g: "get_dir dsp st' = Some (ds\<lparr>td_files := remove_nth i (td_files ds)\<rparr>)" "get_dir ddp st' = Some (dd\<lparr>td_files := td_files dd @ [p]\<rparr>)"
    using get_dirD [OF ds(1)] get_dirD [OF dd(1)] ne by (auto simp: get_dir_def get_obj_def st'_def)
  have k1: "to_objs st' q \<noteq> None \<and> entry_name st' q = entry_name st q" if "q \<in> set (td_files ds)" "q \<noteq> p" for q
    using keep that ds(3) by blast
  have k2: "to_objs st' q \<noteq> None \<and> entry_name st' q = entry_name st q" if "q \<in> set (td_files dd)" for q
    using keep [of q] that dd(2) pf by (cases "q = p") auto
  have pobj: "to_objs st' p \<noteq> None" using np(2) by simp
  note s = dir_shrink [OF ok(1) ds(1) i(2,3) g(1) k1, unfolded pe(2)]
  note l = dir_grow [OF ok(2) dd(1) g(2) k2 _ pn pd(2) pobj, unfolded np(1), OF _ free]
  show thesis using that [OF run s(1) l(1) s(2) l(2) np(2)] .
qed

lemma create_race_spec:
  assumes ok: "dir_ok st dp" and sup: "to_supply st = a # b # rest" "a \<noteq> NULL" "a \<noteq> b" "to_objs st a = None" "b \<noteq> NULL" "to_objs st b = None"
    and new: "dir_map st dp name = None" and x: "obj_name x = name" "obj_name y = name"
  obtains st1 st2 d where "add_entry dp x st = Some st1" and "add_entry dp y st1 = Some st2"
    and "get_dir dp st2 = Some d" and "{a, b} \<subseteq> set (td_files d)" and "entry_name st2 a = name" and "entry_name st2 b = name" and "\<not> dir_ok st2 dp"
proof -
  obtain d where d: "get_dir dp st = Some d" by (rule dir_okE [OF ok])
  have ne: "a \<noteq> dp" "b \<noteq> dp" using get_dirD [OF d] sup by auto
  define st1 where "st1 = st\<lparr>to_supply := b # rest, to_objs := (to_objs st)(a \<mapsto> x, dp \<mapsto> TDir (d\<lparr>td_files := td_files d @ [a]\<rparr>))\<rparr>"
  define st2 where "st2 = st\<lparr>to_supply := rest, to_objs := (to_objs st)(a \<mapsto> x, b \<mapsto> y, dp \<mapsto> TDir (d\<lparr>td_files := td_files d @ [a, b]\<rparr>))\<rparr>"
  have 1: "add_entry dp x st = Some st1" using get_dirD [OF d] ne sup(1)
    by (simp add: add_entry_def set_files_def get_dir_def get_obj_def st1_def Let_def)
  have 2: "add_entry dp y st1 = Some st2" using get_dirD [OF d] ne sup(1)
    by (simp add: add_entry_def set_files_def get_dir_def get_obj_def st1_def st2_def Let_def fun_upd_twist)
  have 3: "get_dir dp st2 = Some (d\<lparr>td_files := td_files d @ [a, b]\<rparr>)" using get_dirD [OF d]
    by (simp add: get_dir_def get_obj_def st2_def)
  have n: "entry_name st2 a = name" "entry_name st2 b = name" using ne sup(3) x by (auto simp: entry_name_def st2_def)
  have "\<not> distinct (map (entry_name st2) (td_files d @ [a, b]))" using n by simp
  then have "\<not> dir_ok st2 dp" using 3 by (simp add: dir_ok_def)
  then show thesis using that [OF 1 2 3] n by simp
qed


section \<open>Properties\<close>

text \<open>
  Property C4: For every sequence of creations, symbolic links, new directories and unlinks in one directory,
  the operations run without a fault, return exactly the codes of the abstract directory (a map from names to
  whether the entry still holds others), and leave a directory that stands for the abstract result.
\<close>

theorem tmpfs_dir_refines:
  assumes "dir_inv dp (length rs) st"
  shows "\<exists>st'. run_all (dir_step cr nd mnt dp) rs st = Some (fst (run_all_spec (dir_spec (may_add cr nd)) rs (dir_view dp st)), st') \<and>
    dir_view dp st' = snd (run_all_spec (dir_spec (may_add cr nd)) rs (dir_view dp st)) \<and> dir_inv dp 0 st'"
  using assms by (rule td.run_refines)

lemma two_dirs_inv: "dir_inv 1 3 two_dirs"
  by (simp add: dir_inv_def dir_ok_def supply_ok_def two_dirs_def cycle_dir_def get_dir_def get_obj_def entry_name_def)

theorem tmpfs_dir_refines_witness:
  "\<forall>cr nd mnt. \<exists>st'. run_all (dir_step cr nd mnt 1) [DCreate [99] 420, DCreate [97] 420, DUnlink [98]] two_dirs = Some ([0, - EEXIST, 0], st')"
proof (intro allI)
  fix cr nd mnt
  have v: "dir_view 1 two_dirs = [[97] \<mapsto> False, [98] \<mapsto> False]"
    by (auto simp: dir_view_def dir_map_def two_dirs_def cycle_dir_def get_dir_def get_obj_def entry_name_def busy_def)
  have "dir_inv 1 (length [DCreate [99] 420, DCreate [97] 420, DUnlink [98]]) two_dirs" using two_dirs_inv by (simp add: numeral_3_eq_3)
  from tmpfs_dir_refines [OF this, of cr nd mnt] show "\<exists>st'. run_all (dir_step cr nd mnt 1) [DCreate [99] 420, DCreate [97] 420, DUnlink [98]] two_dirs = Some ([0, - EEXIST, 0], st')"
    unfolding v by (auto simp: insert_spec_def)
qed

text \<open>
  Property C23: A file moves between directories: the rename succeeds, the old name is gone, the new name leads to the
  same object, and no other name of either directory changes.
\<close>

theorem rename_tmpfs_moves:
  assumes "plain_dir st dsp" and "plain_dir st ddp" and "dsp \<noteq> ddp" and "47 \<notin> set src" and "47 \<notin> set dest"
    and "dir_map st dsp src = Some p" and "to_objs st p = Some (TFile t m)" and "tf_type t \<noteq> TMPFS_TYPE_DIR"
    and "dir_map st ddp dest = None" and "p \<notin> ran (dir_map st ddp)"
  shows "\<exists>st'. rename_tmpfs dsp src ddp dest st = Some (0, st') \<and>
    dir_map st' dsp = (dir_map st dsp)(src := None) \<and> dir_map st' ddp = (dir_map st ddp)(dest \<mapsto> p)"
  using rename_moves_spec [OF assms] by metis

definition file_and_dir :: tmpfs where
  "file_and_dir = two_dirs\<lparr>to_objs := (to_objs two_dirs)(2 \<mapsto> TFile (tmpfs_file_new [97] 0) 9)\<rparr>"

theorem rename_tmpfs_moves_witness:
  "\<exists>st'. rename_tmpfs 1 [97] 3 [122] file_and_dir = Some (0, st') \<and> dir_map st' 3 = [[122] \<mapsto> 2]"
proof -
  note d = file_and_dir_def two_dirs_def cycle_dir_def get_dir_def get_obj_def entry_name_def dir_map_def tmpfs_file_new_def
  have "plain_dir file_and_dir 1" "plain_dir file_and_dir 3" by (auto simp: plain_dir_def dir_ok_def d)
  moreover have "dir_map file_and_dir 1 [97] = Some 2" "dir_map file_and_dir 3 = Map.empty"
    "to_objs file_and_dir 2 = Some (TFile (tmpfs_file_new [97] 0) 9)" "tf_type (tmpfs_file_new [97] 0) \<noteq> TMPFS_TYPE_DIR"
    by (auto simp: d TMPFS_TYPE_DIR_def TMPFS_TYPE_FILE_def)
  ultimately show ?thesis using rename_tmpfs_moves [of file_and_dir 1 3 "[97]" "[122]" 2] by auto
qed

text \<open>
  Fact: A rename that returns an error has not changed the file system, whatever the directories and names.
\<close>

theorem rename_tmpfs_fails_clean:
  assumes "rename_tmpfs dsp src_name ddp dest_name st = Some (r, st')" and "r \<noteq> 0"
  shows "st' = st"
  using assms rename_fails_clean [of st dsp src_name ddp dest_name] by (simp add: fails_clean_def)

theorem rename_tmpfs_fails_clean_witness:
  "\<exists>st'. rename_tmpfs 1 [99] 3 [99] two_dirs = Some (- ENOENT, st') \<and> st' = two_dirs"
proof -
  have r: "rename_tmpfs 1 [99] 3 [99] two_dirs = Some (- ENOENT, two_dirs)"
    by (simp add: rename_tmpfs_def two_dirs_def cycle_dir_def get_dir_def get_obj_def)
  have "two_dirs = two_dirs" by (rule rename_tmpfs_fails_clean [OF r]) (simp add: ENOENT_def)
  then show ?thesis using r by blast
qed

text \<open>
  Fact: A directory can be moved below itself. Renaming never updates the parent of the directory it moves, so
  after \<open>a\<close> is moved into \<open>b\<close> the ancestor test still takes \<open>a\<close> for a child of the root, and moving
  \<open>b\<close> into \<open>a\<close> succeeds: the two directories hold each other and the root holds neither.
\<close>

theorem rename_tmpfs_cycle:
  "\<exists>st1 st2. rename_tmpfs 1 [97] 3 [97] two_dirs = Some (0, st1) \<and> rename_tmpfs 1 [98] 2 [98] st1 = Some (0, st2) \<and>
     map_option td_files (get_dir 1 st2) = Some [] \<and> map_option td_files (get_dir 2 st2) = Some [3] \<and>
     map_option td_files (get_dir 3 st2) = Some [2]"
  by (simp add: rename_tmpfs_def two_dirs_def cycle_dir_def get_dir_def get_obj_def is_ancestor.simps Let_def
    rename_entry_def set_files_def remove_nth_def path_dup_def endswith_def rename_move_def)

text \<open>
  Fact: Creation is not atomic. The lock is released between the test for the name and the insertion, so two
  creators that both saw the name free leave a directory with two entries of the same name.
\<close>

theorem create_tmpfs_race:
  assumes "dir_ok st dp" and "to_supply st = a # b # rest" and "a \<noteq> NULL" and "a \<noteq> b" and "to_objs st a = None"
    and "b \<noteq> NULL" and "to_objs st b = None"
    and "entry_exists dp name st = Some False" and "obj_name x = name" and "obj_name y = name"
  shows "\<exists>st1 st2 d. add_entry dp x st = Some st1 \<and> add_entry dp y st1 = Some st2 \<and> get_dir dp st2 = Some d \<and>
    {a, b} \<subseteq> set (td_files d) \<and> entry_name st2 a = name \<and> entry_name st2 b = name"
proof -
  have "dir_map st dp name = None" using assms(8) entry_exists_spec [OF assms(1), of name] by simp
  from create_race_spec [OF assms(1-7) this assms(9,10)] show ?thesis by metis
qed

theorem create_tmpfs_race_witness:
  "\<exists>st1 st2 d. add_entry 1 (TFile (tmpfs_file_new [99] 0) 9) two_dirs = Some st1 \<and>
     add_entry 1 (TFile (tmpfs_file_new [99] 0) 9) st1 = Some st2 \<and> get_dir 1 st2 = Some d \<and> {4, 5} \<subseteq> set (td_files d)"
proof -
  have "dir_ok two_dirs 1" using two_dirs_inv by (simp add: dir_inv_def)
  moreover have "entry_exists 1 [99] two_dirs = Some False"
    by (simp add: entry_exists_def two_dirs_def cycle_dir_def get_dir_def get_obj_def)
  ultimately show ?thesis
    using create_tmpfs_race [of two_dirs 1 4 5 "[6]" "[99]" "TFile (tmpfs_file_new [99] 0) 9" "TFile (tmpfs_file_new [99] 0) 9"]
    by (simp add: two_dirs_def tmpfs_file_new_def) blast
qed

text \<open>
  Fact: Looking a name up finds exactly the entry of the abstract directory, as a node of the kind of the object.
\<close>

theorem finddir_tmpfs_correct:
  assumes "dir_ok st dp"
  shows "finddir_tmpfs dp (Some name) st =
    Some (case dir_map st dp name of None \<Rightarrow> FoundNone
      | Some p \<Rightarrow> (case to_objs st p of
            Some (TDir d) \<Rightarrow> FoundDir p
          | Some (TFile t m) \<Rightarrow> if tf_type t = TMPFS_TYPE_FILE then FoundFile p else if tf_type t = TMPFS_TYPE_LINK then FoundLink p
              else if tf_type t = TMPFS_TYPE_DIR then FoundDir p else FoundNone
          | None \<Rightarrow> FoundNone))"
  using assms by (rule finddir_spec)

theorem finddir_tmpfs_correct_witness: "finddir_tmpfs 1 (Some [98]) two_dirs = Some (FoundDir 3)"
proof -
  have "dir_ok two_dirs 1" using two_dirs_inv by (simp add: dir_inv_def)
  from finddir_tmpfs_correct [OF this, of "[98]"] show ?thesis
    by (simp add: dir_map_def two_dirs_def cycle_dir_def get_dir_def get_obj_def entry_name_def)
qed

end
