(* ===== verification/Fd_Table.thy ===== *)
theory Fd_Table
  imports Vfs_Node
begin

text \<open>
  The file descriptor table of a process (\<open>kernel/sys/process.c\<close>): allocation of the lowest
  free descriptor, duplication, replacement, sharing and release.  The three arrays are
  functions of the index; only indices below \<open>capacity\<close> are allocated memory, and an access
  beyond makes the result \<^term>\<open>None\<close>.  What \<open>realloc\<close> leaves in the new part of an array is
  whatever the function has there.
\<close>

section \<open>The table and its operations\<close>

record fd_table =
  fd_entries :: "nat \<Rightarrow> ptr"
  fd_offsets :: "nat \<Rightarrow> u64"
  fd_modes :: "nat \<Rightarrow> 32 word"
  fd_length :: u64
  fd_capacity :: u64
  fd_refs :: u64
  fd_lock :: bool

definition process_fds_grow :: "fd_table \<Rightarrow> fd_table" where
  "process_fds_grow t = t\<lparr>fd_capacity := fd_capacity t * 2\<rparr>"

definition fds_in_bounds :: "nat \<Rightarrow> fd_table \<Rightarrow> bool" where
  "fds_in_bounds i t \<longleftrightarrow> i < unat (fd_capacity t)"

definition process_fds_copy :: "nat \<Rightarrow> nat \<Rightarrow> fd_table \<Rightarrow> vfs \<Rightarrow> (fd_table \<times> vfs) option" where
  "process_fds_copy src dest t v =
     (if fds_in_bounds src t \<and> fds_in_bounds dest t then
        let t = t\<lparr>fd_entries := (fd_entries t)(dest := fd_entries t src)\<rparr>;
            t = t\<lparr>fd_modes := (fd_modes t)(dest := fd_modes t src)\<rparr>;
            t = t\<lparr>fd_offsets := (fd_offsets t)(dest := fd_offsets t src)\<rparr>
        in do { v \<leftarrow> open_fs (fd_entries t dest) v; Some (t, v) }
      else None)"

definition fds_put :: "nat \<Rightarrow> ptr \<Rightarrow> fd_table \<Rightarrow> fd_table option" where
  "fds_put i node t =
     (if fds_in_bounds i t
      then Some (t\<lparr>fd_entries := (fd_entries t)(i := node), fd_modes := (fd_modes t)(i := 0),
                   fd_offsets := (fd_offsets t)(i := 0)\<rparr>)
      else None)"

definition process_append_fd :: "ptr \<Rightarrow> fd_table \<Rightarrow> (u64 \<times> fd_table) option" where
  "process_append_fd node t =
     (let t = t\<lparr>fd_lock := True\<rparr>
      in case List.find (\<lambda>i. fd_entries t i = NULL) [0..<unat (fd_length t)] of
           Some i \<Rightarrow> do {
             t \<leftarrow> fds_put i node t;
             Some (of_nat i, t\<lparr>fd_lock := False\<rparr>)
           }
         | None \<Rightarrow> do {
             let t = (if fd_length t = fd_capacity t then process_fds_grow t else t);
             t \<leftarrow> fds_put (unat (fd_length t)) node t;
             let t = t\<lparr>fd_length := fd_length t + 1\<rparr>;
             let t = t\<lparr>fd_lock := False\<rparr>;
             Some (fd_length t - 1, t)
           })"

partial_function (option) fds_grow_past :: "u64 \<Rightarrow> fd_table \<Rightarrow> fd_table option" where
  "fds_grow_past newfd t =
     (if fd_capacity t \<le> newfd then fds_grow_past newfd (process_fds_grow t) else Some t)"

partial_function (option) fds_extend_past :: "u64 \<Rightarrow> fd_table \<Rightarrow> fd_table option" where
  "fds_extend_past newfd t =
     (if fd_length t \<le> newfd
      then if fds_in_bounds (unat (fd_length t)) t
           then fds_extend_past newfd
                  (t\<lparr>fd_entries := (fd_entries t)(unat (fd_length t) := NULL),
                     fd_length := fd_length t + 1\<rparr>)
           else None
      else Some t)"

text \<open>\<open>oldfd\<close> and \<open>newfd\<close> are \<open>long\<close>s; both are used as array indices.\<close>

definition process_fd_dup_least :: "u64 \<Rightarrow> u64 \<Rightarrow> fd_table \<Rightarrow> vfs \<Rightarrow> (u64 \<times> fd_table \<times> vfs) option" where
  "process_fd_dup_least oldfd newfd t v = do {
     let t = t\<lparr>fd_lock := True\<rparr>;
     t \<leftarrow> fds_grow_past newfd t;
     t \<leftarrow> fds_extend_past newfd t;
     case List.find (\<lambda>i. fd_entries t i = NULL) [unat newfd..<unat (fd_length t)] of
       Some i \<Rightarrow> do {
         (t, v) \<leftarrow> process_fds_copy (unat oldfd) i t v;
         Some (of_nat i, t\<lparr>fd_lock := False\<rparr>, v)
       }
     | None \<Rightarrow> do {
         let t = (if fd_length t = fd_capacity t then process_fds_grow t else t);
         let i = fd_length t;
         (t, v) \<leftarrow> process_fds_copy (unat oldfd) (unat i) t v;
         Some (i, t\<lparr>fd_length := fd_length t + 1, fd_lock := False\<rparr>, v)
       }
   }"

text \<open>The result \<open>-1\<close> is the word of all ones, as is the \<open>dest\<close> that asks for a new descriptor.\<close>

definition process_move_fd :: "u64 \<Rightarrow> u64 \<Rightarrow> fd_table \<Rightarrow> vfs \<Rightarrow> (u64 \<times> fd_table \<times> vfs) option" where
  "process_move_fd src dest t v =
     (if src \<ge> fd_length t \<or> (dest \<noteq> -1 \<and> dest \<ge> fd_length t) then Some (-1, t, v)
      else do {
        (dest, t) \<leftarrow> (if dest = -1 then process_append_fd NULL t else Some (dest, t));
        if fd_entries t (unat dest) \<noteq> fd_entries t (unat src) then do {
          v \<leftarrow> close_fs (fd_entries t (unat dest)) v;
          (t, v) \<leftarrow> process_fds_copy (unat src) (unat dest) t v;
          Some (dest, t, v)
        } else Some (dest, t, v)
      })"

text \<open>The table of a new process, from \<open>spawn_process\<close>: shared, or a copy entry by entry.\<close>

definition fds_reuse :: "fd_table \<Rightarrow> fd_table" where
  "fds_reuse t = t\<lparr>fd_refs := fd_refs t + 1\<rparr>"

fun fds_clone_entries :: "nat list \<Rightarrow> fd_table \<Rightarrow> fd_table \<Rightarrow> vfs \<Rightarrow> (fd_table \<times> vfs) option" where
  "fds_clone_entries [] parent t v = Some (t, v)"
| "fds_clone_entries (i # is) parent t v = do {
     (e, v) \<leftarrow> clone_fs (fd_entries parent i) v;
     if fds_in_bounds i t
     then fds_clone_entries is parent
            (t\<lparr>fd_entries := (fd_entries t)(i := e), fd_modes := (fd_modes t)(i := fd_modes parent i),
               fd_offsets := (fd_offsets t)(i := fd_offsets parent i)\<rparr>) v
     else None
   }"

definition fds_clone :: "fd_table \<Rightarrow> fd_table \<Rightarrow> vfs \<Rightarrow> (fd_table \<times> vfs) option" where
  "fds_clone mem parent v =
     (let t = mem\<lparr>fd_refs := 1, fd_length := fd_length parent, fd_capacity := fd_capacity parent,
                  fd_lock := False\<rparr>
      in fds_clone_entries [0..<unat (fd_length parent)] parent t v)"

text \<open>Releasing the table when a task exits; \<^term>\<open>None\<close> for the table once it is freed.\<close>

fun fds_close_entries :: "nat list \<Rightarrow> fd_table \<Rightarrow> vfs \<Rightarrow> (fd_table \<times> vfs) option" where
  "fds_close_entries [] t v = Some (t, v)"
| "fds_close_entries (i # is) t v =
     (if fd_entries t i \<noteq> NULL then do {
        v \<leftarrow> close_fs (fd_entries t i) v;
        fds_close_entries is (t\<lparr>fd_entries := (fd_entries t)(i := NULL)\<rparr>) v
      } else fds_close_entries is t v)"

definition fds_release :: "fd_table \<Rightarrow> vfs \<Rightarrow> (fd_table option \<times> vfs) option" where
  "fds_release t v =
     (let t = t\<lparr>fd_lock := True, fd_refs := fd_refs t - 1\<rparr>
      in if fd_refs t = 0 then do {
           (t, v) \<leftarrow> fds_close_entries [0..<unat (fd_length t)] t v;
           Some (None, v)
         } else Some (Some (t\<lparr>fd_lock := False\<rparr>), v))"

definition init_fds :: "fd_table \<Rightarrow> fd_table" where
  "init_fds mem = mem\<lparr>fd_refs := 1, fd_length := 0, fd_capacity := 4, fd_lock := False\<rparr>"


section \<open>References held\<close>

text \<open>
  \<open>handles_ok cnt v\<close>: \<open>cnt p\<close> references to the node at \<open>p\<close> exist, the node's count says so
  unless it is pinned, and there is no reference to a node that is gone.
\<close>

definition handles_ok :: "(ptr \<Rightarrow> nat) \<Rightarrow> vfs \<Rightarrow> bool" where
  "handles_ok cnt v \<longleftrightarrow>
     (\<forall>p. p \<noteq> NULL \<longrightarrow> cnt p < 2 ^ 62 \<and>
        (case vf_nodes v p of None \<Rightarrow> cnt p = 0
         | Some n \<Rightarrow> fn_refcount n = -1 \<or> (fn_refcount n = of_nat (cnt p) \<and> 0 < cnt p)))"

lemma sint_of_nat_small:
  assumes "c < 2 ^ 62"
  shows "sint (of_nat c :: 64 word) = int c" and "(of_nat c :: 64 word) \<noteq> -1"
    and "0 < c \<Longrightarrow> (of_nat c - 1 :: 64 word) = of_nat (c - 1)"
proof -
  have "int c < 2 ^ 62" using assms by (metis of_nat_less_iff of_nat_numeral of_nat_power)
  then show "sint (of_nat c :: 64 word) = int c"
    by (simp add: signed_of_nat signed_take_bit_int_eq_self)
  then show "(of_nat c :: 64 word) \<noteq> -1" by auto
  show "0 < c \<Longrightarrow> (of_nat c - 1 :: 64 word) = of_nat (c - 1)" by (cases c) auto
qed

lemma handles_ok_upd:
  assumes "handles_ok cnt v" and "\<And>q. q \<noteq> p \<Longrightarrow> vf_nodes v' q = vf_nodes v q" and "c < 2 ^ 62"
    and "case vf_nodes v' p of None \<Rightarrow> c = 0
         | Some n \<Rightarrow> fn_refcount n = -1 \<or> (fn_refcount n = of_nat c \<and> 0 < c)"
  shows "handles_ok (cnt(p := c)) v'"
  unfolding handles_ok_def
proof (intro allI impI)
  fix q :: ptr assume q: "q \<noteq> NULL"
  show "(cnt(p := c)) q < 2 ^ 62 \<and> (case vf_nodes v' q of None \<Rightarrow> (cnt(p := c)) q = 0
      | Some n \<Rightarrow> fn_refcount n = -1 \<or>
          (fn_refcount n = of_nat ((cnt(p := c)) q) \<and> 0 < (cnt(p := c)) q))"
    using assms(1) [unfolded handles_ok_def, rule_format, OF q] assms(2) [of q] assms(3,4)
    by (cases "q = p") (auto split: option.splits)
qed

lemma handles_ok_node:
  assumes "handles_ok cnt v" and "p \<noteq> NULL" and "0 < cnt p"
  obtains n where "vf_nodes v p = Some n" and "get_fn p v = Some n"
    and "fn_refcount n = -1 \<or> fn_refcount n = of_nat (cnt p)" and "cnt p < 2 ^ 62"
  using assms that by (fastforce simp: handles_ok_def get_fn_def split: option.splits)

lemma open_fs_handles:
  assumes "handles_ok cnt v" and "p \<noteq> NULL" and "0 < cnt p" and "Suc (cnt p) < 2 ^ 62"
  shows "\<exists>v'. open_fs p v = Some v' \<and> handles_ok (cnt(p := Suc (cnt p))) v'"
proof -
  obtain n where n: "vf_nodes v p = Some n" "get_fn p v = Some n"
      "fn_refcount n = -1 \<or> fn_refcount n = of_nat (cnt p)" "cnt p < 2 ^ 62"
    using handles_ok_node [OF assms(1-3)] by blast
  let ?n1 = "if 0 \<le> sint (fn_refcount n) then n\<lparr>fn_refcount := fn_refcount n + 1\<rparr> else n"
  let ?n2 = "if fn_has_open ?n1 then ?n1\<lparr>fn_open_calls := fn_open_calls ?n1 + 1\<rparr> else ?n1"
  have "fn_refcount ?n2 = -1 \<or> fn_refcount ?n2 = of_nat (Suc (cnt p))"
    using n(3) sint_of_nat_small(1) [OF n(4)] by auto
  then have "handles_ok (cnt(p := Suc (cnt p))) (v\<lparr>vf_nodes := (vf_nodes v)(p \<mapsto> ?n2)\<rparr>)"
    using assms(1,4) by (intro handles_ok_upd [of cnt v p]) auto
  then show ?thesis using assms(2) n(2) by (simp add: open_fs_def Let_def)
qed

lemma close_fs_handles:
  assumes "handles_ok cnt v" and "p \<noteq> NULL" and "0 < cnt p"
  shows "\<exists>v'. close_fs p v = Some v' \<and> handles_ok (cnt(p := cnt p - 1)) v' \<and>
    (\<forall>q. q \<noteq> p \<longrightarrow> vf_nodes v' q = vf_nodes v q) \<and>
    (\<forall>n. vf_nodes v p = Some n \<longrightarrow> fn_refcount n \<noteq> -1 \<longrightarrow> (vf_nodes v' p = None) = (cnt p = 1))"
proof -
  obtain n where n: "vf_nodes v p = Some n" "get_fn p v = Some n"
      "fn_refcount n = -1 \<or> fn_refcount n = of_nat (cnt p)" "cnt p < 2 ^ 62"
    using handles_ok_node [OF assms] by blast
  have lt: "cnt p - 1 < 2 ^ 62" using n(4) by simp
  show ?thesis
  proof (cases "fn_refcount n = -1")
    case True
    moreover have "handles_ok (cnt(p := cnt p - 1)) v"
      using assms(1) lt n(1) True by (intro handles_ok_upd [of cnt v p]) auto
    ultimately show ?thesis using assms(2) n by (auto simp: close_fs_def)
  next
    case False
    then have d: "fn_refcount n - 1 = of_nat (cnt p - 1)"
      using sint_of_nat_small(3) [OF n(4) assms(3)] n(3) by simp
    have z: "(of_nat (cnt p - 1) :: 64 word) = 0 \<longleftrightarrow> cnt p = 1"
      using sint_of_nat_small(1) [OF lt] assms(3) by auto
    let ?v = "if cnt p = 1
      then (if fn_has_close n then v\<lparr>vf_close_log := vf_close_log v @ [p]\<rparr> else v)
             \<lparr>vf_nodes := (vf_nodes v)(p := None)\<rparr>
      else v\<lparr>vf_nodes := (vf_nodes v)(p \<mapsto> n\<lparr>fn_refcount := fn_refcount n - 1\<rparr>)\<rparr>"
    have "close_fs p v = Some ?v"
      using assms(2) n(2) False d z by (simp add: close_fs_def Let_def)
    moreover have "handles_ok (cnt(p := cnt p - 1)) ?v"
      using assms(1,3) lt d by (intro handles_ok_upd [of cnt v p]) auto
    ultimately show ?thesis by auto
  qed
qed


section \<open>The table as a finite map\<close>

type_synonym fd_slot = "ptr \<times> 32 word \<times> u64"

definition fd_lookup :: "fd_table \<Rightarrow> nat \<Rightarrow> fd_slot option" where
  "fd_lookup t i =
     (if i < unat (fd_length t) \<and> fd_entries t i \<noteq> NULL
      then Some (fd_entries t i, fd_modes t i, fd_offsets t i) else None)"

definition fd_ok :: "fd_table \<Rightarrow> bool" where
  "fd_ok t \<longleftrightarrow> 0 < fd_capacity t \<and> fd_length t \<le> fd_capacity t \<and> unat (fd_capacity t) < 2 ^ 61"

lemma unat_double:
  assumes "unat (c :: u64) < 2 ^ 63"
  shows "unat (c * 2) = 2 * unat c"
proof -
  have "unat c + unat c < 2 ^ 64" using assms by simp
  then have "unat (c + c) = unat c + unat c" by (rule unat_add_64)
  then show ?thesis by (simp add: mult_2_right)
qed

lemma find_upt_Some:
  assumes "List.find P [a..<b] = Some i"
  shows "a \<le> i" "i < b" "P i" "\<And>j. a \<le> j \<Longrightarrow> j < i \<Longrightarrow> \<not> P j"
proof -
  from assms obtain k where k: "k < length [a..<b]" "P ([a..<b] ! k)" "i = [a..<b] ! k"
      "\<forall>j < k. \<not> P ([a..<b] ! j)"
    by (auto simp: find_Some_iff)
  then have i: "i = a + k" by simp
  with k show "a \<le> i" "i < b" "P i" by auto
  show "\<not> P j" if "a \<le> j" "j < i" for j
    using k(4) [rule_format, of "j - a"] k(1) i that by simp
qed

lemma find_upt_None: "List.find P [a..<b] = None \<Longrightarrow> a \<le> j \<Longrightarrow> j < b \<Longrightarrow> \<not> P j"
  by (auto simp: find_None_iff)

lemma process_append_fd_spec:
  assumes ok: "fd_ok t"
  shows "\<exists>i t'. process_append_fd node t = Some (of_nat i, t') \<and>
    fd_lookup t i = None \<and> (\<forall>j < i. fd_lookup t j \<noteq> None) \<and>
    fd_lookup t' = (fd_lookup t)(i := if node = NULL then None else Some (node, 0, 0)) \<and>
    i < unat (fd_length t') \<and> fd_entries t' i = node \<and> fd_length t \<le> fd_length t' \<and>
    fd_length t' \<le> fd_capacity t' \<and> fd_capacity t \<le> fd_capacity t' \<and> fd_lock t' = False"
proof (cases "List.find (\<lambda>i. fd_entries t i = NULL) [0..<unat (fd_length t)]")
  case (Some i)
  note f = find_upt_Some [OF Some]
  have b: "i < unat (fd_capacity t)" using f(2) ok by (simp add: fd_ok_def word_le_nat_alt)
  let ?t = "t\<lparr>fd_lock := False, fd_entries := (fd_entries t)(i := node), fd_modes := (fd_modes t)(i := 0),
                   fd_offsets := (fd_offsets t)(i := 0)\<rparr>"
  have "process_append_fd node t = Some (of_nat i, ?t)"
    using Some b by (simp add: process_append_fd_def Let_def fds_put_def fds_in_bounds_def)
  moreover have "fd_lookup ?t = (fd_lookup t)(i := if node = NULL then None else Some (node, 0, 0))"
    using f(2) by (auto simp: fd_lookup_def fun_eq_iff)
  moreover have "fd_lookup t i = None" "\<forall>j < i. fd_lookup t j \<noteq> None"
    using f by (auto simp: fd_lookup_def)
  ultimately show ?thesis
    using f(2) ok by (intro exI [of _ i] exI [of _ ?t]) (auto simp: fd_ok_def)
next
  case None
  let ?c = "if fd_length t = fd_capacity t then fd_capacity t * 2 else fd_capacity t"
  let ?n = "unat (fd_length t)"
  have cap: "0 < unat (fd_capacity t)" "?n \<le> unat (fd_capacity t)" "unat (fd_capacity t) < 2 ^ 63"
    using ok by (auto simp: fd_ok_def word_le_nat_alt unat_gt_0)
  have b: "?n < unat ?c" "unat (fd_capacity t) \<le> unat ?c"
    using cap unat_double [OF cap(3)] by (auto simp: word_unat_eq_iff)
  have len: "unat (fd_length t + 1) = Suc ?n"
    using b(1) unat_lt_64 [of ?c] by (intro unat_succ_64) simp
  let ?t = "t\<lparr>fd_lock := False, fd_entries := (fd_entries t)(?n := node), fd_modes := (fd_modes t)(?n := 0),
      fd_offsets := (fd_offsets t)(?n := 0), fd_length := fd_length t + 1, fd_capacity := ?c\<rparr>"
  have "process_append_fd node t = Some (fd_length t, ?t)"
    using None b(1)
    by (cases "fd_length t = fd_capacity t"; cases t)
       (simp_all add: process_append_fd_def Let_def fds_put_def fds_in_bounds_def process_fds_grow_def)
  moreover have "fd_lookup ?t = (fd_lookup t)(?n := if node = NULL then None else Some (node, 0, 0))"
    using len by (auto simp: fd_lookup_def fun_eq_iff)
  moreover have "fd_lookup t ?n = None" "\<forall>j < ?n. fd_lookup t j \<noteq> None"
    using find_upt_None [OF None] by (auto simp: fd_lookup_def)
  moreover have "fd_length t \<le> fd_length t + 1" "fd_length t + 1 \<le> ?c" "fd_capacity t \<le> ?c"
    using len b by (simp_all add: word_le_nat_alt)
  ultimately show ?thesis
    using len by (intro exI [of _ ?n] exI [of _ ?t]) simp
qed

lemma fds_grow_past_spec:
  assumes "0 < fd_capacity t" and "unat newfd < 2 ^ 61"
  shows "\<exists>c. fds_grow_past newfd t = Some (t\<lparr>fd_capacity := c\<rparr>) \<and> newfd < c \<and> fd_capacity t \<le> c \<and>
    unat c \<le> max (unat (fd_capacity t)) (2 * unat newfd)"
  using assms
proof (induction "unat newfd + 1 - unat (fd_capacity t)" arbitrary: t rule: less_induct)
  case less
  show ?case
  proof (cases "fd_capacity t \<le> newfd")
    case True
    let ?t = "process_fds_grow t"
    have c: "0 < unat (fd_capacity t)" "unat (fd_capacity t) \<le> unat newfd"
      using less.prems True by (simp_all add: unat_gt_0 word_le_nat_alt)
    then have d: "unat (fd_capacity ?t) = 2 * unat (fd_capacity t)"
      using less.prems(2) by (simp add: process_fds_grow_def unat_double)
    have "\<exists>c. fds_grow_past newfd ?t = Some (?t\<lparr>fd_capacity := c\<rparr>) \<and> newfd < c \<and> fd_capacity ?t \<le> c \<and>
        unat c \<le> max (unat (fd_capacity ?t)) (2 * unat newfd)"
      using less.hyps [of ?t] c d less.prems(2) by (simp add: word_less_nat_alt)
    then show ?thesis using True c d
      by (subst fds_grow_past.simps) (auto simp: process_fds_grow_def word_le_nat_alt)
  next
    case False
    then show ?thesis
      by (subst fds_grow_past.simps) (auto intro!: exI [of _ "fd_capacity t"])
  qed
qed

lemma fds_extend_past_spec:
  assumes "fd_length t \<le> fd_capacity t" and "newfd < fd_capacity t"
  shows "\<exists>e n. fds_extend_past newfd t = Some (t\<lparr>fd_entries := e, fd_length := n\<rparr>) \<and>
    newfd < n \<and> fd_length t \<le> n \<and> n \<le> fd_capacity t \<and>
    (\<forall>i < unat (fd_length t). e i = fd_entries t i) \<and>
    (\<forall>i. unat (fd_length t) \<le> i \<longrightarrow> i < unat n \<longrightarrow> e i = NULL)"
  using assms
proof (induction "unat newfd + 1 - unat (fd_length t)" arbitrary: t rule: less_induct)
  case less
  show ?case
  proof (cases "fd_length t \<le> newfd")
    case True
    let ?t = "t\<lparr>fd_entries := (fd_entries t)(unat (fd_length t) := NULL), fd_length := fd_length t + 1\<rparr>"
    have b: "unat (fd_length t) \<le> unat newfd" "unat newfd < unat (fd_capacity t)"
      using True less.prems(2) by (simp_all add: word_le_nat_alt word_less_nat_alt)
    then have len: "unat (fd_length t + 1) = Suc (unat (fd_length t))"
      using unat_lt_64 [of "fd_capacity t"] by (intro unat_succ_64) simp
    have m: "unat newfd + 1 - unat (fd_length ?t) < unat newfd + 1 - unat (fd_length t)"
      using b(1) len by simp
    have "fd_length ?t \<le> fd_capacity ?t" "newfd < fd_capacity ?t"
      using b len less.prems(2) by (simp_all add: word_le_nat_alt)
    from less.hyps [OF m this] obtain e n where e: "fds_extend_past newfd ?t = Some (?t\<lparr>fd_entries := e, fd_length := n\<rparr>)"
        "newfd < n" "fd_length ?t \<le> n" "n \<le> fd_capacity t"
        "\<forall>i < unat (fd_length ?t). e i = fd_entries ?t i"
        "\<forall>i. unat (fd_length ?t) \<le> i \<longrightarrow> i < unat n \<longrightarrow> e i = NULL"
      by auto
    have "fds_extend_past newfd t = Some (t\<lparr>fd_entries := e, fd_length := n\<rparr>)"
      using True b e(1) by (subst fds_extend_past.simps) (simp add: fds_in_bounds_def)
    moreover have "\<forall>i < unat (fd_length t). e i = fd_entries t i" using e(5) len by auto
    moreover have "\<forall>i. unat (fd_length t) \<le> i \<longrightarrow> i < unat n \<longrightarrow> e i = NULL"
    proof (intro allI impI)
      fix i assume "unat (fd_length t) \<le> i" "i < unat n"
      then show "e i = NULL" using e(5,6) len by (cases "i = unat (fd_length t)") auto
    qed
    moreover have "fd_length t \<le> n" using e(3) len by (simp add: word_le_nat_alt)
    ultimately show ?thesis using e(2,4) by blast
  next
    case False
    then show ?thesis using less.prems
      by (subst fds_extend_past.simps)
         (auto intro!: exI [of _ "fd_entries t"] exI [of _ "fd_length t"])
  qed
qed

lemma process_fds_copy_eval:
  assumes "fds_in_bounds src t" and "fds_in_bounds dest t" and "open_fs (fd_entries t src) v = Some v'"
  shows "process_fds_copy src dest t v =
    Some (t\<lparr>fd_entries := (fd_entries t)(dest := fd_entries t src),
            fd_modes := (fd_modes t)(dest := fd_modes t src),
            fd_offsets := (fd_offsets t)(dest := fd_offsets t src)\<rparr>, v')"
  using assms by (simp add: process_fds_copy_def Let_def)

lemma process_fd_dup_least_spec:
  assumes ok: "fd_ok t" and old: "fd_lookup t (unat oldfd) = Some (p, m, f)"
    and new: "unat newfd < 2 ^ 61" and op: "open_fs p v = Some v'"
  shows "\<exists>i t'. process_fd_dup_least oldfd newfd t v = Some (of_nat i, t', v') \<and>
    unat newfd \<le> i \<and> fd_lookup t i = None \<and> (\<forall>j. unat newfd \<le> j \<longrightarrow> j < i \<longrightarrow> fd_lookup t j \<noteq> None) \<and>
    fd_lookup t' = (fd_lookup t)(i \<mapsto> (p, m, f)) \<and> fd_lock t' = False"
proof -
  have o: "unat oldfd < unat (fd_length t)" "fd_entries t (unat oldfd) = p" "p \<noteq> NULL"
      "fd_modes t (unat oldfd) = m" "fd_offsets t (unat oldfd) = f"
    using old by (auto simp: fd_lookup_def split: if_splits)
  let ?t0 = "t\<lparr>fd_lock := True\<rparr>"
  have k0: "0 < fd_capacity t" "fd_length t \<le> fd_capacity t" "unat (fd_capacity t) < 2 ^ 61"
    using ok by (auto simp: fd_ok_def)
  obtain c where c: "fds_grow_past newfd ?t0 = Some (?t0\<lparr>fd_capacity := c\<rparr>)" "newfd < c"
      "fd_capacity t \<le> c" "unat c < 2 ^ 62"
    using fds_grow_past_spec [of ?t0 newfd] k0 new by auto
  let ?t1 = "?t0\<lparr>fd_capacity := c\<rparr>"
  have "fd_length t \<le> c" using k0(2) c(3) by (rule order_trans)
  then obtain e n where e: "fds_extend_past newfd ?t1 = Some (?t1\<lparr>fd_entries := e, fd_length := n\<rparr>)"
      "newfd < n" "fd_length t \<le> n" "n \<le> c"
      "\<forall>i < unat (fd_length t). e i = fd_entries t i"
      "\<forall>i. unat (fd_length t) \<le> i \<longrightarrow> i < unat n \<longrightarrow> e i = NULL"
    using fds_extend_past_spec [of ?t1 newfd] c(2) by auto
  let ?t2 = "?t1\<lparr>fd_entries := e, fd_length := n\<rparr>"
  have ln: "unat (fd_length t) \<le> unat n" "unat n \<le> unat c" using e(3,4) by (simp_all add: word_le_nat_alt)
  have look: "fd_lookup ?t2 = fd_lookup t"
  proof
    fix i
    show "fd_lookup ?t2 i = fd_lookup t i"
      using e(5,6) ln(1) by (cases "i < unat (fd_length t)") (auto simp: fd_lookup_def)
  qed
  have src: "e (unat oldfd) = p" using e(5) o by auto
  show ?thesis
  proof (cases "List.find (\<lambda>i. e i = NULL) [unat newfd..<unat n]")
    case (Some i)
    note g = find_upt_Some [OF Some]
    let ?t3 = "?t2\<lparr>fd_entries := e(i := p), fd_modes := (fd_modes t)(i := m),
        fd_offsets := (fd_offsets t)(i := f)\<rparr>"
    have "process_fds_copy (unat oldfd) i ?t2 v = Some (?t3, v')"
      using process_fds_copy_eval [of "unat oldfd" ?t2 i v v'] op g(2) ln o src
      by (simp add: fds_in_bounds_def)
    then have "process_fd_dup_least oldfd newfd t v = Some (of_nat i, ?t3\<lparr>fd_lock := False\<rparr>, v')"
      using c(1) e(1) Some by (simp add: process_fd_dup_least_def Let_def)
    moreover have "fd_lookup (?t3\<lparr>fd_lock := False\<rparr>) = (fd_lookup ?t2)(i \<mapsto> (p, m, f))"
      using g(2) o(3) by (auto simp: fd_lookup_def fun_eq_iff)
    moreover have "fd_lookup ?t2 i = None" "\<forall>j. unat newfd \<le> j \<longrightarrow> j < i \<longrightarrow> fd_lookup ?t2 j \<noteq> None"
      using g by (auto simp: fd_lookup_def)
    ultimately show ?thesis using g(1) unfolding look by (intro exI) auto
  next
    case None
    let ?c = "if n = c then c * 2 else c"
    let ?i = "unat n"
    let ?t3 = "?t2\<lparr>fd_capacity := ?c\<rparr>"
    let ?t4 = "?t3\<lparr>fd_entries := e(?i := p), fd_modes := (fd_modes t)(?i := m),
        fd_offsets := (fd_offsets t)(?i := f)\<rparr>"
    have pos: "0 < unat c" using c(2) by (metis unat_gt_0 word_not_simps(1) less_nat_zero_code word_less_nat_alt unat_0)
    have b: "unat n < unat ?c"
      using pos ln(2) unat_double [of c] c(4) by (auto simp: word_unat_eq_iff)
    have len: "unat (n + 1) = Suc (unat n)" using b unat_lt_64 [of ?c] by (intro unat_succ_64) simp
    have grow: "(if fd_length ?t2 = fd_capacity ?t2 then process_fds_grow ?t2 else ?t2) = ?t3"
      by (cases t) (simp add: process_fds_grow_def)
    have "process_fds_copy (unat oldfd) ?i ?t3 v = Some (?t4, v')"
      using process_fds_copy_eval [of "unat oldfd" ?t3 ?i v v'] op b ln o src
      by (simp add: fds_in_bounds_def)
    then have "process_fd_dup_least oldfd newfd t v =
        Some (n, ?t4\<lparr>fd_length := n + 1, fd_lock := False\<rparr>, v')"
      using c(1) e(1) None grow by (simp add: process_fd_dup_least_def Let_def)
    moreover have "fd_lookup (?t4\<lparr>fd_length := n + 1, fd_lock := False\<rparr>) = (fd_lookup ?t2)(?i \<mapsto> (p, m, f))"
      using len o(3) by (auto simp: fd_lookup_def fun_eq_iff)
    moreover have "fd_lookup ?t2 ?i = None" by (simp add: fd_lookup_def)
    moreover have "\<forall>j. unat newfd \<le> j \<longrightarrow> j < ?i \<longrightarrow> fd_lookup ?t2 j \<noteq> None"
      using find_upt_None [OF None] by (auto simp: fd_lookup_def)
    moreover have "unat newfd \<le> ?i" using e(2) by (simp add: word_less_nat_alt)
    ultimately show ?thesis unfolding look
      by (intro exI [of _ ?i] exI [of _ "?t4\<lparr>fd_length := n + 1, fd_lock := False\<rparr>"] conjI)
         simp_all
  qed
qed

text \<open>How many descriptors refer to a node.\<close>

definition fd_handles :: "(nat \<Rightarrow> fd_slot option) \<Rightarrow> ptr \<Rightarrow> nat" where
  "fd_handles L p = card {i. \<exists>x. L i = Some (p, x)}"

lemma fd_lookup_finite: "finite {i. fd_lookup t i \<noteq> None}"
  by (rule finite_subset [of _ "{..<unat (fd_length t)}"]) (auto simp: fd_lookup_def split: if_splits)

lemma fd_handles_at:
  assumes "finite {i. L i \<noteq> None}"
  shows "fd_handles L p = fd_handles (L(i := None)) p + (if \<exists>x. L i = Some (p, x) then 1 else 0)"
proof -
  have "finite {j. \<exists>x. L j = Some (p, x)}" by (rule finite_subset [OF _ assms]) auto
  moreover have "{j. \<exists>x. (L(i := None)) j = Some (p, x)} = {j. \<exists>x. L j = Some (p, x)} - {i}" by auto
  ultimately show ?thesis
    by (auto simp: fd_handles_def card_Suc_Diff1 simp del: card_Diff_insert)
qed

lemma fd_handles_upd:
  assumes "finite {i. L i \<noteq> None}"
  shows "fd_handles (L(i \<mapsto> (q, x))) p = fd_handles (L(i := None)) p + (if p = q then 1 else 0)"
proof -
  have "finite {j. (L(i \<mapsto> (q, x))) j \<noteq> None}"
    by (rule finite_subset [of _ "insert i {j. L j \<noteq> None}"]) (use assms in auto)
  from fd_handles_at [of "L(i \<mapsto> (q, x))" p i, OF this] show ?thesis by auto
qed

lemma process_fd_dup_handles:
  assumes ok: "fd_ok t" and old: "fd_lookup t (unat oldfd) = Some (p, x)" and new: "unat newfd < 2 ^ 61"
    and h: "handles_ok (\<lambda>q. fd_handles (fd_lookup t) q + ext q) v"
    and few: "fd_handles (fd_lookup t) p + ext p + 1 < 2 ^ 62"
  shows "\<exists>i t' v'. process_fd_dup_least oldfd newfd t v = Some (of_nat i, t', v') \<and>
    unat newfd \<le> i \<and> fd_lookup t i = None \<and> (\<forall>j. unat newfd \<le> j \<longrightarrow> j < i \<longrightarrow> fd_lookup t j \<noteq> None) \<and>
    fd_lookup t' = (fd_lookup t)(i \<mapsto> (p, x)) \<and>
    handles_ok (\<lambda>q. fd_handles (fd_lookup t') q + ext q) v'"
proof -
  obtain m f where x: "x = (m, f)" by force
  have p: "p \<noteq> NULL" using old by (auto simp: fd_lookup_def split: if_splits)
  have pos: "0 < fd_handles (fd_lookup t) p"
    using fd_handles_at [OF fd_lookup_finite, of t p "unat oldfd"] old by auto
  let ?c = "\<lambda>q. fd_handles (fd_lookup t) q + ext q"
  obtain v' where v': "open_fs p v = Some v'" "handles_ok (?c(p := Suc (?c p))) v'"
    using open_fs_handles [OF h p] pos few by auto
  obtain i t' where t': "process_fd_dup_least oldfd newfd t v = Some (of_nat i, t', v')" "unat newfd \<le> i"
      "fd_lookup t i = None" "\<forall>j. unat newfd \<le> j \<longrightarrow> j < i \<longrightarrow> fd_lookup t j \<noteq> None"
      "fd_lookup t' = (fd_lookup t)(i \<mapsto> (p, x))"
    using process_fd_dup_least_spec [OF ok old [unfolded x] new v'(1)] x by blast
  have "fd_handles (fd_lookup t') q = fd_handles (fd_lookup t) q + (if q = p then 1 else 0)" for q
    unfolding t'(5) fd_handles_upd [OF fd_lookup_finite]
    using t'(3) by (simp add: fun_upd_idem)
  then have "(\<lambda>q. fd_handles (fd_lookup t') q + ext q) = ?c(p := Suc (?c p))" by auto
  with v'(2) t' show ?thesis by auto
qed

lemma process_move_fd_spec:
  assumes ok: "fd_ok t" and src: "fd_lookup t (unat src) = Some (p, x)"
    and dest: "fd_lookup t (unat dest) = Some (q, y)" "p \<noteq> q"
    and h: "handles_ok (\<lambda>r. fd_handles (fd_lookup t) r + ext r) v"
    and few: "fd_handles (fd_lookup t) p + ext p + 1 < 2 ^ 62"
  shows "\<exists>t' v'. process_move_fd src dest t v = Some (dest, t', v') \<and>
    fd_lookup t' = (fd_lookup t)(unat dest \<mapsto> (p, x)) \<and>
    handles_ok (\<lambda>r. fd_handles (fd_lookup t') r + ext r) v'"
proof -
  let ?c = "\<lambda>r. fd_handles (fd_lookup t) r + ext r"
  obtain m f where x: "x = (m, f)" by force
  have s: "unat src < unat (fd_length t)" "fd_entries t (unat src) = p" "p \<noteq> NULL"
      "fd_modes t (unat src) = m" "fd_offsets t (unat src) = f"
    and d: "unat dest < unat (fd_length t)" "fd_entries t (unat dest) = q" "q \<noteq> NULL"
    using src dest x by (auto simp: fd_lookup_def split: if_splits)
  have pos: "0 < ?c p" "0 < ?c q"
    using fd_handles_at [OF fd_lookup_finite, of t p "unat src"] src
      fd_handles_at [OF fd_lookup_finite, of t q "unat dest"] dest(1) by auto
  obtain v1 where v1: "close_fs q v = Some v1" "handles_ok (?c(q := ?c q - 1)) v1"
    using close_fs_handles [OF h d(3) pos(2)] by blast
  obtain v2 where v2: "open_fs p v1 = Some v2"
      "handles_ok ((?c(q := ?c q - 1))(p := Suc (?c p))) v2"
    using open_fs_handles [OF v1(2) s(3)] pos(1) few dest(2) by auto
  have cap: "unat (fd_length t) \<le> unat (fd_capacity t)" using ok by (simp add: fd_ok_def word_le_nat_alt)
  let ?t = "t\<lparr>fd_entries := (fd_entries t)(unat dest := p), fd_modes := (fd_modes t)(unat dest := m),
      fd_offsets := (fd_offsets t)(unat dest := f)\<rparr>"
  have "process_fds_copy (unat src) (unat dest) t v1 = Some (?t, v2)"
    using process_fds_copy_eval [of "unat src" t "unat dest" v1 v2] v2(1) s d(1) cap
    by (simp add: fds_in_bounds_def)
  moreover have lt: "\<not> fd_length t \<le> src" "\<not> fd_length t \<le> dest"
    using s(1) d(1) by (simp_all add: word_le_nat_alt)
  moreover have "dest \<noteq> -1" using lt(2) [unfolded not_le] by (metis word_order.extremum_strict)
  ultimately have run: "process_move_fd src dest t v = Some (dest, ?t, v2)"
    using s d v1(1) dest(2) by (simp add: process_move_fd_def)
  have look: "fd_lookup ?t = (fd_lookup t)(unat dest \<mapsto> (p, x))"
    using d(1) s(3) x by (auto simp: fd_lookup_def fun_eq_iff)
  have "fd_handles (fd_lookup ?t) r + ext r = ((?c(q := ?c q - 1))(p := Suc (?c p))) r" for r
    unfolding look fd_handles_upd [OF fd_lookup_finite]
    using fd_handles_at [OF fd_lookup_finite, of t r "unat dest"] dest pos by auto
  then have "(\<lambda>r. fd_handles (fd_lookup ?t) r + ext r) = (?c(q := ?c q - 1))(p := Suc (?c p))" by auto
  with v2(2) run look show ?thesis by auto
qed

lemma handles_ok_cong:
  assumes "\<And>p. p \<noteq> NULL \<Longrightarrow> c p = c' p"
  shows "handles_ok c v = handles_ok c' v"
  unfolding handles_ok_def using assms by (auto split: option.splits)

lemma fds_close_entries_handles:
  "distinct is \<Longrightarrow> handles_ok (\<lambda>r. length (filter (\<lambda>i. fd_entries t i = r) is) + ext r) v \<Longrightarrow>
   \<exists>t' v'. fds_close_entries is t v = Some (t', v') \<and> handles_ok ext v'"
proof (induction "is" arbitrary: t v)
  case (Cons i "is")
  let ?q = "fd_entries t i"
  let ?c = "\<lambda>r. length (filter (\<lambda>i. fd_entries t i = r) (i # is)) + ext r"
  show ?case
  proof (cases "?q = NULL")
    case True
    have "handles_ok (\<lambda>r. length (filter (\<lambda>i. fd_entries t i = r) is) + ext r) v"
      using Cons.prems(2) True by (subst (asm) handles_ok_cong) auto
    then show ?thesis using Cons.IH Cons.prems(1) True by simp
  next
    case False
    obtain v1 where v1: "close_fs ?q v = Some v1" "handles_ok (?c(?q := ?c ?q - 1)) v1"
      using close_fs_handles [OF Cons.prems(2) False] by auto
    let ?t = "t\<lparr>fd_entries := (fd_entries t)(i := NULL)\<rparr>"
    have "filter (\<lambda>j. fd_entries ?t j = r) is = filter (\<lambda>j. fd_entries t j = r) is" for r
      using Cons.prems(1) by (intro filter_cong) auto
    then have "?c(?q := ?c ?q - 1) = (\<lambda>r. length (filter (\<lambda>j. fd_entries ?t j = r) is) + ext r)"
      by (simp add: fun_eq_iff)
    then show ?thesis using Cons.IH [of ?t v1] Cons.prems(1) v1 False by simp
  qed
qed simp

lemma fds_release_spec:
  assumes h: "handles_ok (\<lambda>r. fd_handles (fd_lookup t) r + ext r) v"
  shows "if fd_refs t = 1 then \<exists>v'. fds_release t v = Some (None, v') \<and> handles_ok ext v'
         else fds_release t v = Some (Some (t\<lparr>fd_refs := fd_refs t - 1, fd_lock := False\<rparr>), v)"
proof (cases "fd_refs t = 1")
  case True
  let ?t = "t\<lparr>fd_lock := True, fd_refs := fd_refs t - 1\<rparr>"
  let ?is = "[0..<unat (fd_length t)]"
  have "length (filter (\<lambda>i. fd_entries ?t i = r) ?is) = fd_handles (fd_lookup t) r" if "r \<noteq> NULL" for r
  proof -
    have "length (filter (\<lambda>i. fd_entries t i = r) ?is) = card (set (filter (\<lambda>i. fd_entries t i = r) ?is))"
      by (rule distinct_card [symmetric]) simp
    also have "set (filter (\<lambda>i. fd_entries t i = r) ?is) = {i. \<exists>x. fd_lookup t i = Some (r, x)}"
      using that by (auto simp: fd_lookup_def)
    finally show ?thesis by (simp add: fd_handles_def)
  qed
  then have "handles_ok (\<lambda>r. length (filter (\<lambda>i. fd_entries ?t i = r) ?is) + ext r) v"
    using h by (subst handles_ok_cong) auto
  from fds_close_entries_handles [OF _ this] True show ?thesis
    by (auto simp: fds_release_def Let_def)
qed (simp add: fds_release_def Let_def)

section \<open>Properties\<close>

text \<open>Two open nodes: descriptors 0 and 2 refer to the node at \<open>10\<close>, descriptor 1 to that at \<open>20\<close>.\<close>

definition fd_example_node :: "64 word \<Rightarrow> fs_node" where
  "fd_example_node rc =
     \<lparr>fn_mask = 0, fn_uid = 0, fn_gid = 0, fn_flags = 1, fn_refcount = rc, fn_has_open = False,
      fn_has_close = True, fn_open_calls = 0, fn_read = None, fn_write = None, fn_truncate = None,
      fn_selectcheck = None, fn_selectwait = None, fn_chmod = None, fn_chown = None,
      fn_readdir = None, fn_finddir = None, fn_ioctl = None, fn_readlink = None\<rparr>"

definition fd_example_vfs :: vfs where
  "fd_example_vfs = \<lparr>vf_nodes = [10 \<mapsto> fd_example_node 2, 20 \<mapsto> fd_example_node 1], vf_close_log = []\<rparr>"

definition fd_example :: fd_table where
  "fd_example =
     \<lparr>fd_entries = (\<lambda>i. if i = 0 then 10 else if i = 1 then 20 else if i = 2 then 10 else 0),
      fd_offsets = (\<lambda>i. 5), fd_modes = (\<lambda>i. 1), fd_length = 3, fd_capacity = 4, fd_refs = 1,
      fd_lock = False\<rparr>"

lemma fd_example_facts:
  "fd_ok fd_example"
  "fd_lookup fd_example = [0 \<mapsto> (10, 1, 5), 1 \<mapsto> (20, 1, 5), 2 \<mapsto> (10, 1, 5)]"
  "handles_ok (\<lambda>r. fd_handles (fd_lookup fd_example) r + 0) fd_example_vfs"
  "fd_handles (fd_lookup fd_example) 10 = 2"
proof -
  show "fd_ok fd_example" by (simp add: fd_ok_def fd_example_def word_le_nat_alt)
  show l: "fd_lookup fd_example = [0 \<mapsto> (10, 1, 5), 1 \<mapsto> (20, 1, 5), 2 \<mapsto> (10, 1, 5)]"
    by (auto simp: fd_lookup_def fd_example_def fun_eq_iff)
  have "{i. \<exists>x. fd_lookup fd_example i = Some (10, x)} = {0, 2}"
    "{i. \<exists>x. fd_lookup fd_example i = Some (20, x)} = {1}"
    "r \<noteq> 10 \<Longrightarrow> r \<noteq> 20 \<Longrightarrow> {i. \<exists>x. fd_lookup fd_example i = Some (r, x)} = {}" for r
    by (auto simp: l split: if_splits)
  then have h: "fd_handles (fd_lookup fd_example) r = (if r = 10 then 2 else if r = 20 then 1 else 0)" for r
    by (simp add: fd_handles_def)
  from h [of 10] show "fd_handles (fd_lookup fd_example) 10 = 2" by simp
  from h show "handles_ok (\<lambda>r. fd_handles (fd_lookup fd_example) r + 0) fd_example_vfs"
    by (simp add: handles_ok_def fd_example_vfs_def fd_example_node_def)
qed

text \<open>
  Property C19: \<open>process_append_fd\<close> always succeeds, growing the table if it is full, and
  installs the node, with cleared mode and offset, at the lowest descriptor that is not in
  use; every other descriptor keeps its node, mode and offset.
\<close>

theorem process_append_fd_lowest:
  assumes "fd_ok t" and "node \<noteq> NULL"
  shows "\<exists>i t'. process_append_fd node t = Some (of_nat i, t') \<and>
    fd_lookup t i = None \<and> (\<forall>j < i. fd_lookup t j \<noteq> None) \<and>
    fd_lookup t' = (fd_lookup t)(i \<mapsto> (node, 0, 0)) \<and> fd_length t' \<le> fd_capacity t'"
  using process_append_fd_spec [OF assms(1), of node] assms(2) by auto

theorem process_append_fd_lowest_witness:
  "\<exists>i t'. process_append_fd 30 fd_example = Some (of_nat i, t') \<and> fd_lookup t' i = Some (30, 0, 0)"
  using process_append_fd_lowest [OF fd_example_facts(1), of 30] by fastforce

text \<open>
  Fact: \<open>process_fd_dup_least\<close> copies a descriptor to the lowest unused number that is
  at least the one requested, growing the table as needed, leaves all other descriptors alone
  and takes exactly one more reference to the node.
\<close>

theorem process_fd_dup_least_correct:
  assumes "fd_ok t" and "fd_lookup t (unat oldfd) = Some (p, x)" and "unat newfd < 2 ^ 61"
    and "handles_ok (\<lambda>q. fd_handles (fd_lookup t) q + ext q) v"
    and "fd_handles (fd_lookup t) p + ext p + 1 < 2 ^ 62"
  shows "\<exists>i t' v'. process_fd_dup_least oldfd newfd t v = Some (of_nat i, t', v') \<and>
    unat newfd \<le> i \<and> fd_lookup t i = None \<and> (\<forall>j. unat newfd \<le> j \<longrightarrow> j < i \<longrightarrow> fd_lookup t j \<noteq> None) \<and>
    fd_lookup t' = (fd_lookup t)(i \<mapsto> (p, x)) \<and>
    handles_ok (\<lambda>q. fd_handles (fd_lookup t') q + ext q) v'"
  using process_fd_dup_handles [OF assms] .

theorem process_fd_dup_least_correct_witness:
  "\<exists>i t' v'. process_fd_dup_least 0 9 fd_example fd_example_vfs = Some (of_nat i, t', v') \<and>
    9 \<le> i \<and> fd_lookup t' i = Some (10, 1, 5)"
proof -
  have "fd_lookup fd_example (unat 0) = Some (10, 1, 5)" "unat (9 :: u64) < 2 ^ 61"
      "fd_handles (fd_lookup fd_example) 10 + 0 + 1 < 2 ^ 62"
    using fd_example_facts(2,4) by simp_all
  from process_fd_dup_least_correct [OF fd_example_facts(1) this(1,2) fd_example_facts(3) this(3)]
  show ?thesis by auto
qed

text \<open>
  Fact: \<open>process_move_fd\<close> of one open descriptor over another makes the destination a
  duplicate of the source, gives up the reference the destination held and takes one to the
  source's node, so the reference counts still match the descriptors; no other descriptor
  changes.
\<close>

theorem process_move_fd_correct:
  assumes "fd_ok t" and "fd_lookup t (unat src) = Some (p, x)"
    and "fd_lookup t (unat dest) = Some (q, y)" and "p \<noteq> q"
    and "handles_ok (\<lambda>r. fd_handles (fd_lookup t) r + ext r) v"
    and "fd_handles (fd_lookup t) p + ext p + 1 < 2 ^ 62"
  shows "\<exists>t' v'. process_move_fd src dest t v = Some (dest, t', v') \<and>
    fd_lookup t' = (fd_lookup t)(unat dest \<mapsto> (p, x)) \<and>
    handles_ok (\<lambda>r. fd_handles (fd_lookup t') r + ext r) v'"
  using process_move_fd_spec [OF assms] .

theorem process_move_fd_correct_witness:
  "\<exists>t' v'. process_move_fd 0 1 fd_example fd_example_vfs = Some (1, t', v') \<and>
    fd_lookup t' 1 = Some (10, 1, 5)"
proof -
  have "fd_lookup fd_example (unat 0) = Some (10, 1, 5)" "fd_lookup fd_example (unat 1) = Some (20, 1, 5)"
      "(10 :: ptr) \<noteq> 20" "fd_handles (fd_lookup fd_example) 10 + 0 + 1 < 2 ^ 62"
    using fd_example_facts(2,4) by simp_all
  from process_move_fd_correct [OF fd_example_facts(1) this(1-3) fd_example_facts(3) this(4)]
  show ?thesis by auto
qed

text \<open>
  Fact: when the last process using a table exits, every descriptor's reference is
  given up exactly once, so only the references held elsewhere remain and nodes without one
  are gone; while other processes share the table, nothing is closed.
\<close>

theorem fds_release_correct:
  assumes "handles_ok (\<lambda>r. fd_handles (fd_lookup t) r + ext r) v"
  shows "(fd_refs t = 1 \<longrightarrow> (\<exists>v'. fds_release t v = Some (None, v') \<and> handles_ok ext v')) \<and>
         (fd_refs t \<noteq> 1 \<longrightarrow>
            fds_release t v = Some (Some (t\<lparr>fd_refs := fd_refs t - 1, fd_lock := False\<rparr>), v))"
  using fds_release_spec [OF assms] by (simp split: if_splits)

theorem fds_release_correct_witness:
  "\<exists>v'. fds_release fd_example fd_example_vfs = Some (None, v') \<and> handles_ok (\<lambda>r. 0) v'"
proof -
  have "fd_refs fd_example = 1" by (simp add: fd_example_def)
  then show ?thesis
    using fds_release_correct [of fd_example "\<lambda>r. 0" fd_example_vfs] fd_example_facts(3) by simp
qed

text \<open>
  Fact: the permission check for one of the three bits grants it to the superuser,
  except for execution, and otherwise exactly when the bits for others, the owner's bits (to
  the owner) or the group's bits (to a member through the primary or a supplementary group)
  have it; a missing node grants nothing.
\<close>

theorem has_permission_correct:
  assumes "i < 3"
  shows "(has_permission cr (Some n) (push_bit i 1) \<noteq> 0 \<longleftrightarrow>
           (cr_user cr = 0 \<and> i \<noteq> 0) \<or> granted cr n i) \<and>
         has_permission cr None (push_bit i 1) = 0"
  using has_permission_spec [OF assms, of cr n] by (simp add: has_permission_def)

theorem has_permission_correct_witness:
  "has_permission \<lparr>cr_user = 0, cr_user_group = 0, cr_groups = []\<rparr> (Some (fd_example_node 1)) (push_bit 1 1) \<noteq> 0"
  using has_permission_correct [of 1] by simp

end
