(* ===== verification/Scheduler.thy ===== *)
theory Scheduler
  imports Kernel_Tree
begin

text \<open>
  Scheduling and process bookkeeping of \<open>kernel/sys/process.c\<close>: the ready queue, wait queues,
  the timed sleep queue, waiting on files, the process tree and \<open>waitpid\<close>.

  A process is a record at an address.  The nodes \<open>sched_node\<close> and \<open>sleep_node\<close> are embedded
  in it, so a queue is the sequence of the processes whose nodes it links and the \<open>owner\<close>
  fields say which queue that is; \<open>Kernel_List\<close> justifies reading \<open>list_append\<close>,
  \<open>list_delete\<close>, \<open>list_pop\<close> and \<open>list_dequeue\<close> as the operations on sequences used here.
  An access to a process that does not exist makes the result \<^term>\<open>None\<close>.
\<close>

section \<open>State\<close>

definition PROC_FLAG_IS_TASKLET :: u32 where "PROC_FLAG_IS_TASKLET = 0x01"
definition PROC_FLAG_FINISHED :: u32 where "PROC_FLAG_FINISHED = 0x02"
definition PROC_FLAG_STARTED :: u32 where "PROC_FLAG_STARTED = 0x04"
definition PROC_FLAG_RUNNING :: u32 where "PROC_FLAG_RUNNING = 0x08"
definition PROC_FLAG_SLEEP_INT :: u32 where "PROC_FLAG_SLEEP_INT = 0x10"
definition PROC_FLAG_SUSPENDED :: u32 where "PROC_FLAG_SUSPENDED = 0x20"

datatype sleep_owner = NoQueue | SleepQueue | WaitQueue ptr

record proc =
  pr_id :: int
  pr_group :: int
  pr_job :: int
  pr_status :: "32 word"
  pr_flags :: u32
  pr_owner :: int
  pr_sched :: bool
  pr_sleep :: sleep_owner
  pr_timed :: ptr
  pr_timeout :: ptr
  pr_node_waits :: "ptr list option"
  pr_awoken :: int
  pr_wait_queue :: ptr
  pr_tree_entry :: ptr
  pr_tracees :: "ptr list option"
  pr_time_total :: u64
  pr_time_sys :: u64
  pr_time_in :: u64
  pr_time_switch :: u64
  pr_time_children :: u64
  pr_time_sys_children :: u64

text \<open>A sleeper is the \<open>sleeper_t\<close> with the address of the list node that carries it.\<close>

record sleeper =
  sl_node :: ptr
  sl_addr :: ptr
  sl_tick :: u64
  sl_subtick :: u64
  sl_process :: ptr
  sl_is_fswait :: int

record sched =
  sc_procs :: "ptr \<rightharpoonup> proc"
  sc_ready :: "ptr list"
  sc_sleepers :: "sleeper list"
  sc_queues :: "ptr \<Rightarrow> ptr list"
  sc_list :: "ptr list"
  sc_tree :: tree
  sc_current :: ptr
  sc_idle :: ptr
  sc_cpu :: int
  sc_previous :: ptr
  sc_reap_queue :: "ptr list"

definition get_proc :: "ptr \<Rightarrow> sched \<Rightarrow> proc option" where
  "get_proc p s = (if p = NULL then None else sc_procs s p)"

definition set_proc :: "ptr \<Rightarrow> (proc \<Rightarrow> proc) \<Rightarrow> sched \<Rightarrow> sched option" where
  "set_proc p f s =
     (case get_proc p s of None \<Rightarrow> None
      | Some x \<Rightarrow> Some (s\<lparr>sc_procs := (sc_procs s)(p \<mapsto> f x)\<rparr>))"

definition flag_set :: "u32 \<Rightarrow> proc \<Rightarrow> bool" where
  "flag_set f p \<longleftrightarrow> pr_flags p AND f \<noteq> 0"


section \<open>Ready and wait queues\<close>

definition is_valid_process :: "ptr \<Rightarrow> sched \<Rightarrow> bool" where
  "is_valid_process p s \<longleftrightarrow> p \<in> set (sc_list s)"

text \<open>\<open>list_delete(sleep_queue, node)\<close>, the node being given by its address.\<close>

definition sleeper_delete :: "ptr \<Rightarrow> sched \<Rightarrow> sched" where
  "sleeper_delete node s = s\<lparr>sc_sleepers := filter (\<lambda>sl. sl_node sl \<noteq> node) (sc_sleepers s)\<rparr>"

definition make_process_ready :: "ptr \<Rightarrow> sched \<Rightarrow> sched option" where
  "make_process_ready p s = do {
     x \<leftarrow> get_proc p s;
     s \<leftarrow> (case pr_sleep x of
            NoQueue \<Rightarrow> Some s
          | SleepQueue \<Rightarrow>
              if pr_timed x \<noteq> NULL
              then set_proc p (\<lambda>x. x\<lparr>pr_sleep := NoQueue\<rparr>) (sleeper_delete (pr_timed x) s)
              else Some s
          | WaitQueue q \<Rightarrow> do {
              s \<leftarrow> set_proc p (\<lambda>x. x\<lparr>pr_flags := pr_flags x OR PROC_FLAG_SLEEP_INT\<rparr>) s;
              let s = s\<lparr>sc_queues := (sc_queues s)(q := remove1 p (sc_queues s q))\<rparr>;
              set_proc p (\<lambda>x. x\<lparr>pr_sleep := NoQueue\<rparr>) s
            });
     x \<leftarrow> get_proc p s;
     if pr_sched x then Some s
     else do {
       s \<leftarrow> set_proc p (\<lambda>x. x\<lparr>pr_sched := True\<rparr>) s;
       Some (s\<lparr>sc_ready := sc_ready s @ [p]\<rparr>)
     }
   }"

text \<open>
  The fatal check on the range of the node's address is a check of the kernel heap layout and
  is not modelled.
\<close>

definition next_ready_process :: "sched \<Rightarrow> (ptr \<times> sched) option" where
  "next_ready_process s =
     (case sc_ready s of
        [] \<Rightarrow> Some (sc_idle s, s)
      | p # rest \<Rightarrow> do {
          s \<leftarrow> set_proc p (\<lambda>x. x\<lparr>pr_sched := False\<rparr>) (s\<lparr>sc_ready := rest\<rparr>);
          x \<leftarrow> get_proc p s;
          if flag_set PROC_FLAG_RUNNING x \<and> pr_owner x \<noteq> sc_cpu s then do {
            s \<leftarrow> set_proc p (\<lambda>x. x\<lparr>pr_sched := True\<rparr>) s;
            Some (sc_idle s, s\<lparr>sc_ready := sc_ready s @ [p]\<rparr>)
          } else do {
            s \<leftarrow> (if \<not> flag_set PROC_FLAG_FINISHED x
                 then set_proc p (\<lambda>x. x\<lparr>pr_flags := pr_flags x OR PROC_FLAG_RUNNING\<rparr>) s
                 else Some s);
            s \<leftarrow> set_proc p (\<lambda>x. x\<lparr>pr_owner := sc_cpu s\<rparr>) s;
            Some (p, s)
          }
        })"

text \<open>\<open>list_pop\<close> on a wait queue: the last process, detached.\<close>

definition queue_pop :: "ptr \<Rightarrow> sched \<Rightarrow> (ptr \<times> sched) option" where
  "queue_pop q s = do {
     let p = last (sc_queues s q);
     s \<leftarrow> set_proc p (\<lambda>x. x\<lparr>pr_sleep := NoQueue\<rparr>)
            (s\<lparr>sc_queues := (sc_queues s)(q := butlast (sc_queues s q))\<rparr>);
     Some (p, s)
   }"

partial_function (option) wakeup_queue_loop :: "bool \<Rightarrow> ptr \<Rightarrow> nat \<Rightarrow> sched \<Rightarrow> (nat \<times> sched) option" where
  "wakeup_queue_loop intr q awoken s =
     (if sc_queues s q = [] then Some (awoken, s)
      else case queue_pop q s of None \<Rightarrow> None
      | Some (p, s) \<Rightarrow>
          (case get_proc p s of None \<Rightarrow> None
           | Some x \<Rightarrow>
               (case (if \<not> flag_set PROC_FLAG_FINISHED x
                      then do {
                        s \<leftarrow> (if intr
                             then set_proc p (\<lambda>x. x\<lparr>pr_flags := pr_flags x OR PROC_FLAG_SLEEP_INT\<rparr>) s
                             else Some s);
                        make_process_ready p s
                      } else Some s) of None \<Rightarrow> None
                | Some s \<Rightarrow> wakeup_queue_loop intr q (awoken + 1) s)))"

definition wakeup_queue :: "ptr \<Rightarrow> sched \<Rightarrow> (nat \<times> sched) option" where
  "wakeup_queue q s = wakeup_queue_loop False q 0 s"

definition wakeup_queue_interrupted :: "ptr \<Rightarrow> sched \<Rightarrow> (nat \<times> sched) option" where
  "wakeup_queue_interrupted q s = wakeup_queue_loop True q 0 s"

definition wakeup_queue_one :: "ptr \<Rightarrow> sched \<Rightarrow> (nat \<times> sched) option" where
  "wakeup_queue_one q s =
     (if sc_queues s q = [] then Some (0, s)
      else do {
        (p, s) \<leftarrow> queue_pop q s;
        x \<leftarrow> get_proc p s;
        s \<leftarrow> (if \<not> flag_set PROC_FLAG_FINISHED x then make_process_ready p s else Some s);
        Some (1, s)
      })"

text \<open>
  The part of \<open>sleep_on\<close> and \<open>sleep_on_unlocking\<close> before the switch: the current process
  joins the queue; after the switch the interrupted flag is the result.
\<close>

definition sleep_enqueue :: "ptr \<Rightarrow> sched \<Rightarrow> sched option" where
  "sleep_enqueue q s = do {
     let p = sc_current s;
     s \<leftarrow> set_proc p (\<lambda>x. x\<lparr>pr_flags := pr_flags x AND NOT PROC_FLAG_SLEEP_INT\<rparr>) s;
     s \<leftarrow> set_proc p (\<lambda>x. x\<lparr>pr_sleep := WaitQueue q\<rparr>) s;
     Some (s\<lparr>sc_queues := (sc_queues s)(q := sc_queues s q @ [p])\<rparr>)
   }"

definition sleep_on :: "ptr \<Rightarrow> (sched \<Rightarrow> sched) \<Rightarrow> sched \<Rightarrow> (bool \<times> sched) option" where
  "sleep_on q others s = do {
     x \<leftarrow> get_proc (sc_current s) s;
     let self = sc_current s;
     if pr_sleep x \<noteq> NoQueue then Some (False, (others s)\<lparr>sc_current := self\<rparr>)
     else do {
       s \<leftarrow> sleep_enqueue q s;
       let s = (others s)\<lparr>sc_current := self\<rparr>;
       x \<leftarrow> get_proc self s;
       Some (flag_set PROC_FLAG_SLEEP_INT x, s)
     }
   }"

definition process_is_ready :: "proc \<Rightarrow> bool" where
  "process_is_ready x \<longleftrightarrow> pr_sched x \<and> \<not> flag_set PROC_FLAG_RUNNING x"


section \<open>Timed sleep and waiting on files\<close>

definition process_awaken_from_fswait :: "ptr \<Rightarrow> int \<Rightarrow> sched \<Rightarrow> (int \<times> sched) option" where
  "process_awaken_from_fswait p index s = do {
     s \<leftarrow> set_proc p (\<lambda>x. x\<lparr>pr_awoken := index, pr_node_waits := None\<rparr>) s;
     x \<leftarrow> get_proc p s;
     let s = (case List.find (\<lambda>sl. sl_node sl = pr_timeout x) (sc_sleepers s) of
                None \<Rightarrow> s
              | Some sl \<Rightarrow> if pr_timeout x \<noteq> NULL \<and> sl_is_fswait sl \<noteq> -1
                           then sleeper_delete (pr_timeout x) s else s);
     s \<leftarrow> set_proc p (\<lambda>x. x\<lparr>pr_timeout := NULL\<rparr>) s;
     s \<leftarrow> make_process_ready p s;
     Some (0, s)
   }"

definition process_alert_node_locked :: "ptr \<Rightarrow> ptr \<Rightarrow> sched \<Rightarrow> (int \<times> sched) option" where
  "process_alert_node_locked p v s =
     (if \<not> is_valid_process p s then Some (0, s)
      else do {
        x \<leftarrow> get_proc p s;
        case pr_node_waits x of
          None \<Rightarrow> Some (0, s)
        | Some ws \<Rightarrow>
            if v \<in> set ws
            then process_awaken_from_fswait p (int (length (takeWhile (\<lambda>w. w \<noteq> v) ws))) s
            else Some (-1, s)
      })"

definition process_alert_node :: "ptr \<Rightarrow> ptr \<Rightarrow> sched \<Rightarrow> (int \<times> sched) option" where
  "process_alert_node p v s = process_alert_node_locked p v s"

definition process_awaken_signal :: "ptr \<Rightarrow> sched \<Rightarrow> sched option" where
  "process_awaken_signal p s = do {
     x \<leftarrow> get_proc p s;
     if pr_node_waits x \<noteq> None then map_option snd (process_awaken_from_fswait p (-4) s)
     else Some s
   }"

definition expired :: "u64 \<Rightarrow> u64 \<Rightarrow> sleeper \<Rightarrow> bool" where
  "expired seconds subseconds sl \<longleftrightarrow>
     sl_tick sl < seconds \<or> (sl_tick sl = seconds \<and> sl_subtick sl \<le> subseconds)"

text \<open>
  The body of the loop of \<open>wakeup_sleepers\<close> for the sleeper at the head, which is marked as
  timed out in place before a waiter on files is alerted, and the dequeue that follows.
\<close>

definition wake_head :: "sleeper \<Rightarrow> sched \<Rightarrow> sched option" where
  "wake_head sl s =
     (if sl_is_fswait sl \<noteq> 0 then
        let s = s\<lparr>sc_sleepers := sl\<lparr>sl_is_fswait := -1\<rparr> # tl (sc_sleepers s)\<rparr>
        in map_option snd (process_alert_node_locked (sl_process sl) (sl_addr sl) s)
      else do {
        s \<leftarrow> set_proc (sl_process sl) (\<lambda>x. x\<lparr>pr_sleep := NoQueue, pr_timed := NULL\<rparr>) s;
        x \<leftarrow> get_proc (sl_process sl) s;
        if \<not> process_is_ready x then make_process_ready (sl_process sl) s else Some s
      })"

partial_function (option) wakeup_sleepers :: "u64 \<Rightarrow> u64 \<Rightarrow> sched \<Rightarrow> sched option" where
  "wakeup_sleepers seconds subseconds s =
     (case sc_sleepers s of
        [] \<Rightarrow> Some s
      | sl # rest \<Rightarrow>
          if expired seconds subseconds sl
          then (case wake_head sl s of None \<Rightarrow> None
                | Some s \<Rightarrow> wakeup_sleepers seconds subseconds (s\<lparr>sc_sleepers := tl (sc_sleepers s)\<rparr>))
          else Some s)"

text \<open>The ordered insertion shared by \<open>sleep_until\<close> and \<open>process_timeout_sleep\<close>.\<close>

definition later :: "u64 \<Rightarrow> u64 \<Rightarrow> sleeper \<Rightarrow> bool" where
  "later seconds subseconds c \<longleftrightarrow>
     sl_tick c > seconds \<or> (sl_tick c = seconds \<and> sl_subtick c > subseconds)"

fun sleeper_insert :: "sleeper \<Rightarrow> sleeper list \<Rightarrow> sleeper list" where
  "sleeper_insert sl [] = [sl]"
| "sleeper_insert sl (c # cs) =
     (if later (sl_tick sl) (sl_subtick sl) c then sl # c # cs else c # sleeper_insert sl cs)"

text \<open>\<open>node\<close> and \<open>addr\<close> are the addresses the two allocations return.\<close>

definition sleep_until :: "ptr \<Rightarrow> ptr \<Rightarrow> ptr \<Rightarrow> u64 \<Rightarrow> u64 \<Rightarrow> sched \<Rightarrow> sched option" where
  "sleep_until node addr p seconds subseconds s = do {
     c \<leftarrow> get_proc (sc_current s) s;
     if pr_sleep c \<noteq> NoQueue then Some s
     else do {
       s \<leftarrow> set_proc p (\<lambda>x. x\<lparr>pr_sleep := SleepQueue\<rparr>) s;
       let sl = \<lparr>sl_node = node, sl_addr = addr, sl_tick = seconds, sl_subtick = subseconds,
                 sl_process = p, sl_is_fswait = 0\<rparr>;
       set_proc p (\<lambda>x. x\<lparr>pr_timed := node\<rparr>) (s\<lparr>sc_sleepers := sleeper_insert sl (sc_sleepers s)\<rparr>)
     }
   }"

text \<open>The deadline of \<open>process_timeout_sleep\<close> comes from the clock.\<close>

definition process_timeout_sleep :: "ptr \<Rightarrow> ptr \<Rightarrow> ptr \<Rightarrow> u64 \<Rightarrow> u64 \<Rightarrow> sched \<Rightarrow> sched option" where
  "process_timeout_sleep node addr p seconds subseconds s = do {
     let sl = \<lparr>sl_node = node, sl_addr = addr, sl_tick = seconds, sl_subtick = subseconds,
               sl_process = p, sl_is_fswait = 1\<rparr>;
     s \<leftarrow> set_proc p (\<lambda>x. x\<lparr>pr_node_waits := map_option (\<lambda>ws. ws @ [addr]) (pr_node_waits x)\<rparr>) s;
     set_proc p (\<lambda>x. x\<lparr>pr_timeout := node\<rparr>) (s\<lparr>sc_sleepers := sleeper_insert sl (sc_sleepers s)\<rparr>)
   }"

text \<open>
  Waiting on files.  \<open>check\<close> is the result of \<open>selectcheck_fs\<close> on each node, \<open>waits\<close> what
  \<open>selectwait_fs\<close> puts into \<open>node_waits\<close> for each, and \<open>deadline\<close> the clock's answer for the
  timeout; the third component of the result says whether the caller goes to sleep.
\<close>

fun check_nodes :: "int list \<Rightarrow> int \<Rightarrow> int option" where
  "check_nodes [] index = None"
| "check_nodes (r # rs) index =
     (if r < 0 then Some (-9) else if r = 0 then Some index else check_nodes rs (index + 1))"

definition process_wait_nodes :: "ptr \<Rightarrow> ptr \<Rightarrow> ptr \<Rightarrow> int list \<Rightarrow> ptr list \<Rightarrow> int \<Rightarrow> u64 \<times> u64 \<Rightarrow>
    sched \<Rightarrow> (int option \<times> sched) option" where
  "process_wait_nodes node addr p check waits timeout deadline s =
     (case check_nodes check 0 of
        Some r \<Rightarrow> Some (Some r, s)
      | None \<Rightarrow>
          if timeout = 0 then Some (Some (int (length check)), s)
          else do {
            s \<leftarrow> set_proc p (\<lambda>x. x\<lparr>pr_node_waits := Some waits\<rparr>) s;
            s \<leftarrow> (if timeout > 0
                 then process_timeout_sleep node addr p (fst deadline) (snd deadline) s
                 else set_proc p (\<lambda>x. x\<lparr>pr_timeout := NULL\<rparr>) s);
            s \<leftarrow> set_proc p (\<lambda>x. x\<lparr>pr_awoken := -1\<rparr>) s;
            Some (None, s)
          })"


section \<open>Switching\<close>

text \<open>\<open>now\<close> is the reading of the performance timer.\<close>

definition charge_total :: "u64 \<Rightarrow> proc \<Rightarrow> proc" where
  "charge_total now x =
     (let x = (if pr_time_in x \<noteq> 0 \<and> pr_time_in x < now
               then x\<lparr>pr_time_total := pr_time_total x + (now - pr_time_in x)\<rparr> else x)
      in x\<lparr>pr_time_in := 0\<rparr>)"

definition charge_sys :: "u64 \<Rightarrow> proc \<Rightarrow> proc" where
  "charge_sys now x =
     (let x = (if pr_time_switch x \<noteq> 0 \<and> pr_time_switch x < now
               then x\<lparr>pr_time_sys := pr_time_sys x + (now - pr_time_switch x)\<rparr> else x)
      in x\<lparr>pr_time_switch := 0\<rparr>)"

definition update_process_times :: "u64 \<Rightarrow> sched \<Rightarrow> sched option" where
  "update_process_times now s = set_proc (sc_current s) (charge_sys now \<circ> charge_total now) s"

definition update_process_times_on_exit :: "u64 \<Rightarrow> sched \<Rightarrow> sched option" where
  "update_process_times_on_exit now s = set_proc (sc_current s) (charge_sys now) s"

partial_function (option) pick_next :: "sched \<Rightarrow> sched option" where
  "pick_next s =
     (case next_ready_process s of None \<Rightarrow> None
      | Some (p, s) \<Rightarrow>
          (case get_proc p s of None \<Rightarrow> None
           | Some x \<Rightarrow>
               if flag_set PROC_FLAG_FINISHED x then pick_next (s\<lparr>sc_current := p\<rparr>)
               else Some (s\<lparr>sc_current := p\<rparr>)))"

text \<open>The scheduling decision of \<open>switch_next\<close>; the context restore itself is architecture code.\<close>

definition switch_next :: "u64 \<Rightarrow> u64 \<Rightarrow> sched \<Rightarrow> sched option" where
  "switch_next now now' s = do {
     let s = s\<lparr>sc_previous := sc_current s\<rparr>;
     s \<leftarrow> update_process_times now s;
     s \<leftarrow> pick_next s;
     s \<leftarrow> set_proc (sc_current s) (\<lambda>x. x\<lparr>pr_time_in := now'\<rparr>) s;
     s \<leftarrow> set_proc (sc_current s) (\<lambda>x. x\<lparr>pr_time_switch := pr_time_in x\<rparr>) s;
     set_proc (sc_current s) (\<lambda>x. x\<lparr>pr_flags := pr_flags x OR PROC_FLAG_STARTED\<rparr>) s
   }"

definition switch_task :: "bool \<Rightarrow> u64 \<Rightarrow> u64 \<Rightarrow> sched \<Rightarrow> sched option" where
  "switch_task reschedule now now' s =
     (if sc_current s = NULL then Some s
      else if sc_current s = sc_idle s then None
      else do {
        x \<leftarrow> get_proc (sc_current s) s;
        if \<not> flag_set PROC_FLAG_RUNNING x then switch_next now now' s
        else do {
          s \<leftarrow> (if reschedule then make_process_ready (sc_current s) s else Some s);
          switch_next now now' s
        }
      })"


section \<open>The process tree\<close>

definition process_get_parent :: "ptr \<Rightarrow> sched \<Rightarrow> ptr option" where
  "process_get_parent p s = do {
     x \<leftarrow> get_proc p s;
     e \<leftarrow> get_tn (pr_tree_entry x) (sc_tree s);
     if tn_parent e \<noteq> NULL then map_option tn_value (get_tn (tn_parent e) (sc_tree s)) else Some NULL
   }"

definition process_compare :: "sched \<Rightarrow> int \<Rightarrow> ptr \<Rightarrow> bool" where
  "process_compare s pid p = (case get_proc p s of None \<Rightarrow> False | Some x \<Rightarrow> pr_id x = pid)"

definition process_from_pid :: "int \<Rightarrow> sched \<Rightarrow> ptr option" where
  "process_from_pid pid s =
     (if pid < 0 then Some NULL
      else do {
        e \<leftarrow> tree_find NULL (\<lambda>v _. process_compare s pid v) (sc_tree s);
        if e \<noteq> NULL then map_option tn_value (get_tn e (sc_tree s)) else Some NULL
      })"

text \<open>
  \<open>cores\<close> is \<open>processor_local_data\<close>: the previous and the current process of each processor.
  Reaping frees the process with its stack, page directory and tracee list.
\<close>

definition process_is_owned :: "(ptr \<times> ptr) list \<Rightarrow> ptr \<Rightarrow> bool" where
  "process_is_owned cores p = list_ex (\<lambda>(prev, cur). prev = p \<or> cur = p) cores"

definition process_reap :: "ptr \<Rightarrow> sched \<Rightarrow> sched option" where
  "process_reap p s =
     (case get_proc p s of None \<Rightarrow> None | Some x \<Rightarrow> Some (s\<lparr>sc_procs := (sc_procs s)(p := None)\<rparr>))"

fun reap_ready :: "(ptr \<times> ptr) list \<Rightarrow> ptr list \<Rightarrow> sched \<Rightarrow> sched option" where
  "reap_ready cores [] s = Some (s\<lparr>sc_reap_queue := []\<rparr>)"
| "reap_ready cores (p # ps) s =
     (if \<not> process_is_owned cores p then do { s \<leftarrow> process_reap p s; reap_ready cores ps s }
      else Some (s\<lparr>sc_reap_queue := p # ps\<rparr>))"

definition process_reap_later :: "(ptr \<times> ptr) list \<Rightarrow> ptr \<Rightarrow> sched \<Rightarrow> sched option" where
  "process_reap_later cores p s = do {
     s \<leftarrow> reap_ready cores (sc_reap_queue s) s;
     Some (s\<lparr>sc_reap_queue := sc_reap_queue s @ [p]\<rparr>)
   }"

text \<open>Whether a processor other than this one still uses the process.\<close>

definition used_elsewhere :: "(ptr \<times> ptr) list \<Rightarrow> int \<Rightarrow> ptr \<Rightarrow> bool" where
  "used_elsewhere cores cpu p =
     list_ex (\<lambda>(i, prev, cur). int i \<noteq> cpu \<and> (prev = p \<or> cur = p)) (enumerate 0 cores)"

text \<open>
  \<open>shm_release_all\<close>, which the source calls here, is the shared-memory component's; the
  memory freed with the process is its record.
\<close>

definition process_delete :: "(ptr \<times> ptr) list \<Rightarrow> ptr \<Rightarrow> sched \<Rightarrow> sched option" where
  "process_delete cores p s =
     (if p = sc_current s then None
      else do {
        x \<leftarrow> get_proc p s;
        let entry = pr_tree_entry x;
        if entry = NULL then Some s
        else if tr_root (sc_tree s) = entry then Some s
        else do {
          E \<leftarrow> get_tn entry (sc_tree s);
          tr \<leftarrow> tree_remove_reparent_root entry (sc_tree s);
          let s = s\<lparr>sc_tree := tr\<rparr>;
          s \<leftarrow> (if p \<in> set (sc_list s) then Some (s\<lparr>sc_list := remove1 p (sc_list s)\<rparr>) else None);
          s \<leftarrow> (if tn_children E \<noteq> [] then do {
                 R \<leftarrow> get_tn (tr_root (sc_tree s)) (sc_tree s);
                 init \<leftarrow> get_proc (tn_value R) s;
                 (k, s) \<leftarrow> wakeup_queue (pr_wait_queue init) s;
                 Some s
               } else Some s);
          s \<leftarrow> set_proc p (\<lambda>x. x\<lparr>pr_tree_entry := NULL\<rparr>) s;
          if used_elsewhere cores (sc_cpu s) p then process_reap_later cores p s else process_reap p s
        }
      })"


section \<open>Waiting for children\<close>

definition WNOHANG :: u32 where "WNOHANG = 1"
definition WUNTRACED :: u32 where "WUNTRACED = 2"
definition WSTOPPED :: u32 where "WSTOPPED = 4"
definition WNOKERN :: u32 where "WNOKERN = 16"

definition wait_candidate :: "proc \<Rightarrow> int \<Rightarrow> u32 \<Rightarrow> proc \<Rightarrow> bool" where
  "wait_candidate parent pid options x =
     (if options AND WNOKERN \<noteq> 0 \<and> flag_set PROC_FLAG_IS_TASKLET x then False
      else if pid < -1 then pr_job x = - pid \<or> pr_id x = - pid
      else if pid = 0 then pr_job x = pr_id parent
      else if pid > 0 then pr_id x = pid
      else True)"

definition wait_stopped :: "u32 \<Rightarrow> proc \<Rightarrow> bool" where
  "wait_stopped options x \<longleftrightarrow>
     flag_set PROC_FLAG_SUSPENDED x \<and> pr_status x AND 0xFF = 0x7F \<and>
     (let reason = drop_bit 16 (pr_status x) AND 0xFF
      in options AND WSTOPPED \<noteq> 0 \<or> (reason = 0xFF \<and> options AND WUNTRACED \<noteq> 0))"

text \<open>The scan of the children: whether one matched, and the first to report.\<close>

fun wait_scan :: "proc \<Rightarrow> int \<Rightarrow> u32 \<Rightarrow> sched \<Rightarrow> ptr list \<Rightarrow> (bool \<times> ptr option) option" where
  "wait_scan parent pid options s [] = Some (False, None)"
| "wait_scan parent pid options s (c # cs) =
     (if c = NULL then wait_scan parent pid options s cs
      else do {
        n \<leftarrow> get_tn c (sc_tree s);
        if tn_value n = NULL then wait_scan parent pid options s cs
        else do {
          x \<leftarrow> get_proc (tn_value n) s;
          if wait_candidate parent pid options x then
            if flag_set PROC_FLAG_FINISHED x \<or> wait_stopped options x then Some (True, Some (tn_value n))
            else do { (h, r) \<leftarrow> wait_scan parent pid options s cs; Some (True, r) }
          else wait_scan parent pid options s cs
        }
      })"

fun tracee_scan :: "proc \<Rightarrow> int \<Rightarrow> u32 \<Rightarrow> sched \<Rightarrow> ptr list \<Rightarrow> (bool \<times> ptr option) option" where
  "tracee_scan parent pid options s [] = Some (False, None)"
| "tracee_scan parent pid options s (p # ps) =
     (if p = NULL then tracee_scan parent pid options s ps
      else do {
        x \<leftarrow> get_proc p s;
        if wait_candidate parent pid options x then
          if flag_set (PROC_FLAG_SUSPENDED OR PROC_FLAG_FINISHED) x then Some (True, Some p)
          else do { (h, r) \<leftarrow> tracee_scan parent pid options s ps; Some (True, r) }
        else tracee_scan parent pid options s ps
      })"

datatype wait_result = Reported int "32 word" | WaitError int | NoneYet | StillWaiting

text \<open>
  Reporting a candidate: its status is handed out and cleared; a finished child (once it has
  left its processor) leaves its times to the parent and is deleted.
\<close>

definition wait_report :: "(ptr \<times> ptr) list \<Rightarrow> ptr \<Rightarrow> bool \<Rightarrow> ptr \<Rightarrow> sched \<Rightarrow> (wait_result \<times> sched) option" where
  "wait_report cores self is_parent c s = do {
     x \<leftarrow> get_proc c s;
     let r = Reported (pr_id x) (pr_status x);
     s \<leftarrow> set_proc c (\<lambda>x. x\<lparr>pr_status := pr_status x AND NOT 0xFF\<rparr>) s;
     if is_parent \<and> flag_set PROC_FLAG_FINISHED x then do {
       s \<leftarrow> set_proc c (\<lambda>x. x\<lparr>pr_flags := pr_flags x AND NOT PROC_FLAG_RUNNING\<rparr>) s;
       s \<leftarrow> set_proc self (\<lambda>p. p\<lparr>pr_time_children := pr_time_children p + (pr_time_children x + pr_time_total x),
              pr_time_sys_children := pr_time_sys_children p + (pr_time_sys_children x + pr_time_sys x)\<rparr>) s;
       s \<leftarrow> process_delete cores c s;
       Some (r, s)
     } else Some (r, s)
   }"

text \<open>The list is what others do each time the caller sleeps.\<close>

fun waitpid :: "(ptr \<times> ptr) list \<Rightarrow> int \<Rightarrow> u32 \<Rightarrow> (sched \<Rightarrow> sched) list \<Rightarrow> sched \<Rightarrow> (wait_result \<times> sched) option" where
  "waitpid cores pid options env s = do {
     let self = sc_current s;
     P \<leftarrow> get_proc self s;
     E \<leftarrow> get_tn (pr_tree_entry P) (sc_tree s);
     (has_children, candidate) \<leftarrow> wait_scan P pid options s (tn_children E);
     let is_parent = has_children;
     (has_children, candidate) \<leftarrow>
       (if candidate = None \<and> pr_tracees P \<noteq> None then do {
          (h, r) \<leftarrow> tracee_scan P pid options s (the (pr_tracees P));
          Some (has_children \<or> h, r)
        } else Some (has_children, candidate));
     if \<not> has_children then Some (WaitError (-10), s)
     else case candidate of
       Some c \<Rightarrow> wait_report cores self is_parent c s
     | None \<Rightarrow>
         if options AND WNOHANG \<noteq> 0 then Some (NoneYet, s)
         else do {
           s \<leftarrow> sleep_enqueue (pr_wait_queue P) s;
           case env of
             [] \<Rightarrow> Some (StillWaiting, s)
           | act # env' \<Rightarrow> do {
               let s = (act s)\<lparr>sc_current := self\<rparr>;
               x \<leftarrow> get_proc self s;
               if flag_set PROC_FLAG_SLEEP_INT x then Some (WaitError (-4), s)
               else waitpid cores pid options env' s
             }
         }
   }"


declare waitpid.simps [simp del]


section \<open>The queue invariant\<close>

text \<open>
  A process is in the ready queue exactly when its \<open>sched_node\<close> has an owner, and in a wait
  queue exactly when that queue owns its \<open>sleep_node\<close>; no queue links it twice.
\<close>

definition sched_inv :: "sched \<Rightarrow> bool" where
  "sched_inv s \<longleftrightarrow>
     sc_procs s NULL = None \<and>
     distinct (sc_ready s) \<and>
     (\<forall>p. p \<in> set (sc_ready s) \<longleftrightarrow> (\<exists>x. sc_procs s p = Some x \<and> pr_sched x)) \<and>
     (\<forall>q. distinct (sc_queues s q)) \<and>
     (\<forall>q p. p \<in> set (sc_queues s q) \<longleftrightarrow> (\<exists>x. sc_procs s p = Some x \<and> pr_sleep x = WaitQueue q))"

lemma get_proc_Some: "get_proc p s = Some x \<longleftrightarrow> p \<noteq> NULL \<and> sc_procs s p = Some x"
  by (simp add: get_proc_def)

lemma get_proc_upd [simp]:
  "get_proc p (s\<lparr>sc_queues := a\<rparr>) = get_proc p s" "get_proc p (s\<lparr>sc_ready := b\<rparr>) = get_proc p s"
  "get_proc p (s\<lparr>sc_sleepers := c\<rparr>) = get_proc p s" "get_proc p (s\<lparr>sc_current := d\<rparr>) = get_proc p s"
  by (simp_all add: get_proc_def)

lemma set_proc_Some:
  "get_proc p s = Some x \<Longrightarrow> set_proc p f s = Some (s\<lparr>sc_procs := (sc_procs s)(p \<mapsto> f x)\<rparr>)"
  by (simp add: set_proc_def)

text \<open>The process record after it was made ready.\<close>

definition ready_proc :: "proc \<Rightarrow> proc" where
  "ready_proc x =
     x\<lparr>pr_sched := True,
       pr_sleep := (if pr_sleep x = SleepQueue \<and> pr_timed x = NULL then SleepQueue else NoQueue),
       pr_flags := (case pr_sleep x of WaitQueue _ \<Rightarrow> pr_flags x OR PROC_FLAG_SLEEP_INT | _ \<Rightarrow> pr_flags x)\<rparr>"

definition leave_queue :: "ptr \<Rightarrow> proc \<Rightarrow> sched \<Rightarrow> sched" where
  "leave_queue p x s =
     (case pr_sleep x of
        NoQueue \<Rightarrow> s
      | SleepQueue \<Rightarrow> if pr_timed x \<noteq> NULL then sleeper_delete (pr_timed x) s else s
      | WaitQueue q \<Rightarrow> s\<lparr>sc_queues := (sc_queues s)(q := remove1 p (sc_queues s q))\<rparr>)"

lemma leave_queue_fields [simp]:
  "sc_procs (leave_queue p x s) = sc_procs s" "sc_ready (leave_queue p x s) = sc_ready s"
  "sc_queues (leave_queue p x s) q =
     (if pr_sleep x = WaitQueue q then remove1 p (sc_queues s q) else sc_queues s q)"
  "sc_current (leave_queue p x s) = sc_current s" "sc_tree (leave_queue p x s) = sc_tree s"
  "sc_list (leave_queue p x s) = sc_list s" "sc_idle (leave_queue p x s) = sc_idle s"
  by (auto simp: leave_queue_def sleeper_delete_def split: sleep_owner.splits)

lemma make_process_ready_eval:
  assumes "get_proc p s = Some x"
  shows "make_process_ready p s =
    Some ((leave_queue p x s)\<lparr>sc_procs := (sc_procs s)(p \<mapsto> ready_proc x),
            sc_ready := (if pr_sched x then sc_ready s else sc_ready s @ [p])\<rparr>)"
proof -
  have x: "p \<noteq> NULL" "sc_procs s p = Some x" using assms by (simp_all add: get_proc_Some)
  then have id: "sc_procs s = (sc_procs s)(p \<mapsto> x)" by auto
  show ?thesis
    by (cases "pr_sleep x"; cases "pr_sched x"; cases s; cases x)
       (use x id in \<open>auto simp: make_process_ready_def set_proc_def get_proc_def leave_queue_def
         sleeper_delete_def ready_proc_def Let_def fun_upd_idem\<close>)
qed

lemma make_process_ready_inv:
  assumes inv: "sched_inv s" and x: "get_proc p s = Some x"
  shows "sched_inv ((leave_queue p x s)\<lparr>sc_procs := (sc_procs s)(p \<mapsto> ready_proc x),
            sc_ready := (if pr_sched x then sc_ready s else sc_ready s @ [p])\<rparr>)" (is "sched_inv ?s")
proof -
  have i: "distinct (sc_ready s)" "\<And>q. distinct (sc_queues s q)" "sc_procs s NULL = None"
      "\<And>r. r \<in> set (sc_ready s) \<longleftrightarrow> (\<exists>x. sc_procs s r = Some x \<and> pr_sched x)"
      "\<And>q r. r \<in> set (sc_queues s q) \<longleftrightarrow> (\<exists>x. sc_procs s r = Some x \<and> pr_sleep x = WaitQueue q)"
    using inv unfolding sched_inv_def by blast+
  have p: "p \<noteq> NULL" "sc_procs s p = Some x" using x by (simp_all add: get_proc_Some)
  have "r \<in> set (sc_ready ?s) \<longleftrightarrow> (\<exists>y. sc_procs ?s r = Some y \<and> pr_sched y)" for r
    using i(4) [of r] p by (cases "r = p") (auto simp: ready_proc_def)
  moreover have "distinct (sc_ready ?s)" using i(1) i(4) [of p] p by auto
  moreover have "r \<in> set (sc_queues ?s q) \<longleftrightarrow> (\<exists>y. sc_procs ?s r = Some y \<and> pr_sleep y = WaitQueue q)" for q r
    using i(2) [of q] i(5) [of r q] p by (cases "r = p") (auto simp: ready_proc_def)
  moreover have "distinct (sc_queues ?s q)" for q using i(2) by (simp add: distinct_remove1)
  ultimately show ?thesis using i(3) p(1) unfolding sched_inv_def by simp
qed

lemma queue_pop_eval:
  assumes inv: "sched_inv s" and ne: "sc_queues s q \<noteq> []"
  obtains x where "get_proc (last (sc_queues s q)) s = Some x" and "pr_sleep x = WaitQueue q"
    and "queue_pop q s = Some (last (sc_queues s q),
      s\<lparr>sc_queues := (sc_queues s)(q := butlast (sc_queues s q)),
        sc_procs := (sc_procs s)(last (sc_queues s q) \<mapsto> x\<lparr>pr_sleep := NoQueue\<rparr>)\<rparr>)"
proof -
  let ?p = "last (sc_queues s q)"
  have "?p \<in> set (sc_queues s q)" using ne by simp
  then obtain x where "sc_procs s ?p = Some x" "pr_sleep x = WaitQueue q"
    using inv unfolding sched_inv_def by blast
  moreover have "?p \<noteq> NULL" using calculation(1) inv by (auto simp: sched_inv_def)
  ultimately show thesis
    by (intro that [of x]) (simp_all add: queue_pop_def get_proc_def set_proc_def Let_def)
qed

lemma queue_pop_inv:
  assumes inv: "sched_inv s" and ne: "sc_queues s q \<noteq> []"
    and x: "get_proc (last (sc_queues s q)) s = Some x" "pr_sleep x = WaitQueue q"
  shows "sched_inv (s\<lparr>sc_queues := (sc_queues s)(q := butlast (sc_queues s q)),
        sc_procs := (sc_procs s)(last (sc_queues s q) \<mapsto> x\<lparr>pr_sleep := NoQueue\<rparr>)\<rparr>)" (is "sched_inv ?s")
proof -
  let ?p = "last (sc_queues s q)"
  have i: "distinct (sc_ready s)" "\<And>q. distinct (sc_queues s q)" "sc_procs s NULL = None"
      "\<And>r. r \<in> set (sc_ready s) \<longleftrightarrow> (\<exists>x. sc_procs s r = Some x \<and> pr_sched x)"
      "\<And>q r. r \<in> set (sc_queues s q) \<longleftrightarrow> (\<exists>x. sc_procs s r = Some x \<and> pr_sleep x = WaitQueue q)"
    using inv unfolding sched_inv_def by blast+
  have q: "sc_queues s q = butlast (sc_queues s q) @ [?p]" using ne by simp
  then have d: "distinct (butlast (sc_queues s q) @ [?p])" using i(2) [of q] by simp
  have mem: "r \<in> set (butlast (sc_queues s q)) \<longleftrightarrow> r \<in> set (sc_queues s q) \<and> r \<noteq> ?p" for r
  proof -
    have "set (sc_queues s q) = insert ?p (set (butlast (sc_queues s q)))" by (subst q) simp
    then show ?thesis using d by auto
  qed
  have p: "?p \<noteq> NULL" "sc_procs s ?p = Some x" using x by (simp_all add: get_proc_Some)
  have "r \<in> set (sc_ready ?s) \<longleftrightarrow> (\<exists>y. sc_procs ?s r = Some y \<and> pr_sched y)" for r
    using i(4) [of r] p by (cases "r = ?p") auto
  moreover have "r \<in> set (sc_queues ?s k) \<longleftrightarrow> (\<exists>y. sc_procs ?s r = Some y \<and> pr_sleep y = WaitQueue k)" for k r
    using mem [of r] i(5) [of r k] p x(2) by (cases "r = ?p"; cases "k = q") auto
  moreover have "distinct (sc_queues ?s k)" for k using i(2) d by simp
  ultimately show ?thesis using i(1,3) p(1) unfolding sched_inv_def by simp
qed

text \<open>The processes a wakeup moves to the ready queue.\<close>

definition wakes :: "sched \<Rightarrow> ptr \<Rightarrow> bool" where
  "wakes s p = (case sc_procs s p of None \<Rightarrow> False
     | Some x \<Rightarrow> \<not> flag_set PROC_FLAG_FINISHED x \<and> \<not> pr_sched x)"

definition woken_proc :: "bool \<Rightarrow> proc \<Rightarrow> proc" where
  "woken_proc intr x =
     (if flag_set PROC_FLAG_FINISHED x then x\<lparr>pr_sleep := NoQueue\<rparr>
      else x\<lparr>pr_sleep := NoQueue, pr_sched := True,
             pr_flags := (if intr then pr_flags x OR PROC_FLAG_SLEEP_INT else pr_flags x)\<rparr>)"

lemma wake_one_eval:
  assumes inv: "sched_inv s" and ne: "sc_queues s q \<noteq> []"
  defines "p \<equiv> last (sc_queues s q)"
  obtains x where "sc_procs s p = Some x" and "p \<noteq> NULL"
    and "wakeup_queue_loop intr q n s = wakeup_queue_loop intr q (n + 1)
      (s\<lparr>sc_queues := (sc_queues s)(q := butlast (sc_queues s q)),
         sc_procs := (sc_procs s)(p \<mapsto> woken_proc intr x),
         sc_ready := (if wakes s p then sc_ready s @ [p] else sc_ready s)\<rparr>)"
    and "sched_inv (s\<lparr>sc_queues := (sc_queues s)(q := butlast (sc_queues s q)),
         sc_procs := (sc_procs s)(p \<mapsto> woken_proc intr x),
         sc_ready := (if wakes s p then sc_ready s @ [p] else sc_ready s)\<rparr>)"
proof -
  obtain x where x: "get_proc p s = Some x" "pr_sleep x = WaitQueue q"
      "queue_pop q s = Some (p, s\<lparr>sc_queues := (sc_queues s)(q := butlast (sc_queues s q)),
        sc_procs := (sc_procs s)(p \<mapsto> x\<lparr>pr_sleep := NoQueue\<rparr>)\<rparr>)"
    using queue_pop_eval [OF inv ne] unfolding p_def by metis
  let ?s1 = "s\<lparr>sc_queues := (sc_queues s)(q := butlast (sc_queues s q)),
      sc_procs := (sc_procs s)(p \<mapsto> x\<lparr>pr_sleep := NoQueue\<rparr>)\<rparr>"
  let ?f = "if intr then pr_flags x OR PROC_FLAG_SLEEP_INT else pr_flags x"
  let ?x2 = "x\<lparr>pr_sleep := NoQueue, pr_flags := ?f\<rparr>"
  let ?s2 = "?s1\<lparr>sc_procs := (sc_procs s)(p \<mapsto> ?x2)\<rparr>"
  let ?s3 = "s\<lparr>sc_queues := (sc_queues s)(q := butlast (sc_queues s q)),
         sc_procs := (sc_procs s)(p \<mapsto> woken_proc intr x),
         sc_ready := (if wakes s p then sc_ready s @ [p] else sc_ready s)\<rparr>"
  have px: "p \<noteq> NULL" "sc_procs s p = Some x" using x(1) by (simp_all add: get_proc_Some)
  have inv1: "sched_inv ?s1" using queue_pop_inv [OF inv ne] x(1,2) unfolding p_def by blast
  have inv2: "sched_inv ?s2"
    using inv1 unfolding sched_inv_def by (cases intr) (auto split: if_splits)
  have g1: "get_proc p ?s1 = Some (x\<lparr>pr_sleep := NoQueue\<rparr>)" and g2: "get_proc p ?s2 = Some ?x2"
    using px(1) by (simp_all add: get_proc_def)
  have intr: "(if intr then set_proc p (\<lambda>x. x\<lparr>pr_flags := pr_flags x OR PROC_FLAG_SLEEP_INT\<rparr>) ?s1
      else Some ?s1) = Some ?s2"
    using g1 by (cases intr) (simp_all add: set_proc_def)
  have lq: "leave_queue p ?x2 ?s2 = ?s2" by (simp add: leave_queue_def)
  have w: "wakes s p \<longleftrightarrow> \<not> flag_set PROC_FLAG_FINISHED x \<and> \<not> pr_sched x"
    using px(2) by (simp add: wakes_def)
  have fin: "flag_set PROC_FLAG_FINISHED (x\<lparr>pr_sleep := NoQueue\<rparr>) = flag_set PROC_FLAG_FINISHED x"
    by (simp add: flag_set_def)
  show thesis
  proof (cases "flag_set PROC_FLAG_FINISHED x")
    case True
    then have "?s3 = ?s1" using w by (cases s) (simp add: woken_proc_def)
    moreover have "wakeup_queue_loop intr q n s = wakeup_queue_loop intr q (n + 1) ?s1"
      using ne x(3) g1 True fin by (subst wakeup_queue_loop.simps) simp
    ultimately show thesis using that px inv1 by metis
  next
    case False
    have "ready_proc ?x2 = woken_proc intr x" using False
      by (simp add: ready_proc_def woken_proc_def)
    then have s3: "(leave_queue p ?x2 ?s2)\<lparr>sc_procs := (sc_procs ?s2)(p \<mapsto> ready_proc ?x2),
        sc_ready := (if pr_sched ?x2 then sc_ready ?s2 else sc_ready ?s2 @ [p])\<rparr> = ?s3"
      using False w unfolding lq by (cases s) simp
    have "make_process_ready p ?s2 = Some ?s3" "sched_inv ?s3"
      using make_process_ready_eval [OF g2] make_process_ready_inv [OF inv2 g2] unfolding s3 by simp_all
    moreover have "wakeup_queue_loop intr q n s = wakeup_queue_loop intr q (n + 1) ?s3"
      using ne x(3) g1 False fin intr calculation(1)
      by (subst wakeup_queue_loop.simps) simp
    ultimately show thesis using that px by metis
  qed
qed

text \<open>The state after a wakeup of the whole queue.\<close>

definition woken :: "bool \<Rightarrow> ptr \<Rightarrow> sched \<Rightarrow> sched" where
  "woken intr q s = s\<lparr>sc_queues := (sc_queues s)(q := []),
     sc_ready := sc_ready s @ filter (wakes s) (rev (sc_queues s q)),
     sc_procs := (\<lambda>p. if p \<in> set (sc_queues s q) then map_option (woken_proc intr) (sc_procs s p)
                      else sc_procs s p)\<rparr>"

lemma wakeup_queue_loop_spec:
  "sched_inv s \<Longrightarrow>
   wakeup_queue_loop intr q n s = Some (n + length (sc_queues s q), woken intr q s) \<and>
   sched_inv (woken intr q s)"
proof (induction "length (sc_queues s q)" arbitrary: s n)
  case 0
  then have "woken intr q s = s" by (cases s) (auto simp: woken_def fun_upd_idem)
  then show ?case using 0 by (subst wakeup_queue_loop.simps) simp
next
  case (Suc k)
  let ?p = "last (sc_queues s q)"
  have ne: "sc_queues s q \<noteq> []" using Suc.hyps(2) by auto
  let ?g = "\<lambda>x. s\<lparr>sc_queues := (sc_queues s)(q := butlast (sc_queues s q)),
         sc_procs := (sc_procs s)(?p \<mapsto> woken_proc intr x),
         sc_ready := (if wakes s ?p then sc_ready s @ [?p] else sc_ready s)\<rparr>"
  obtain x where x: "sc_procs s ?p = Some x"
    and step: "wakeup_queue_loop intr q n s = wakeup_queue_loop intr q (n + 1) (?g x)"
    and inv1: "sched_inv (?g x)"
    using wake_one_eval [OF Suc.prems ne] by metis
  let ?s1 = "?g x"
  have q: "sc_queues s q = butlast (sc_queues s q) @ [?p]" using ne by simp
  have d: "distinct (butlast (sc_queues s q) @ [?p])"
    using Suc.prems q unfolding sched_inv_def by metis
  have len: "k = length (sc_queues ?s1 q)" using Suc.hyps(2) by simp
  note IH = Suc.hyps(1) [OF len inv1, of "n + 1"]
  have fil: "filter (wakes ?s1) (rev (butlast (sc_queues s q))) = filter (wakes s) (rev (butlast (sc_queues s q)))"
    using d by (intro filter_cong) (auto simp: wakes_def)
  have rq: "filter (wakes s) (rev (sc_queues s q)) =
      (if wakes s ?p then [?p] else []) @ filter (wakes s) (rev (butlast (sc_queues s q)))"
    by (subst q) simp
  have mem: "set (sc_queues s q) = insert ?p (set (butlast (sc_queues s q)))" by (subst q) simp
  have "(if r \<in> set (sc_queues ?s1 q) then map_option (woken_proc intr) (sc_procs ?s1 r) else sc_procs ?s1 r) =
      (if r \<in> set (sc_queues s q) then map_option (woken_proc intr) (sc_procs s r) else sc_procs s r)" for r
    using mem d x by auto
  then have "woken intr q ?s1 = woken intr q s"
    using fil rq unfolding woken_def by simp
  moreover have "n + 1 + length (sc_queues ?s1 q) = n + length (sc_queues s q)"
    using Suc.hyps(2) len by simp
  ultimately show ?case using step IH by simp
qed


section \<open>Timed sleepers\<close>

definition due_before :: "sleeper \<Rightarrow> sleeper \<Rightarrow> bool" where
  "due_before a b \<longleftrightarrow> \<not> later (sl_tick b) (sl_subtick b) a"

text \<open>
  The sleep queue is ordered by deadline, and each entry is known to its process: a plain
  sleeper as \<open>timed_sleep_node\<close>, a file wait as \<open>timeout_node\<close> with an entry of \<open>node_waits\<close>.
\<close>

definition sleeper_ok :: "sched \<Rightarrow> sleeper \<Rightarrow> bool" where
  "sleeper_ok s sl \<longleftrightarrow>
     sl_node sl \<noteq> NULL \<and> sl_process sl \<in> set (sc_list s) \<and>
     (case get_proc (sl_process sl) s of None \<Rightarrow> False
      | Some x \<Rightarrow>
          if sl_is_fswait sl = 0 then pr_sleep x = SleepQueue \<and> pr_timed x = sl_node sl
          else sl_is_fswait sl = 1 \<and> pr_sleep x = NoQueue \<and> pr_timeout x = sl_node sl \<and>
               (case pr_node_waits x of None \<Rightarrow> False | Some ws \<Rightarrow> sl_addr sl \<in> set ws))"

definition sleep_inv :: "sched \<Rightarrow> bool" where
  "sleep_inv s \<longleftrightarrow>
     sorted_wrt due_before (sc_sleepers s) \<and>
     distinct (map sl_node (sc_sleepers s)) \<and> distinct (map sl_process (sc_sleepers s)) \<and>
     (\<forall>sl \<in> set (sc_sleepers s). sleeper_ok s sl)"

lemma expired_prefix:
  assumes "sorted_wrt due_before sls"
  shows "takeWhile (expired a b) sls = filter (expired a b) sls"
    and "dropWhile (expired a b) sls = filter (\<lambda>sl. \<not> expired a b sl) sls"
proof -
  have mono: "expired a b x" if "due_before x y" "expired a b y" for x y
    using that by (auto simp: due_before_def later_def expired_def)
  show "takeWhile (expired a b) sls = filter (expired a b) sls"
    using assms by (induction sls) (auto simp: filter_empty_conv dest: mono intro!: filter_False [symmetric])
  show "dropWhile (expired a b) sls = filter (\<lambda>sl. \<not> expired a b sl) sls"
    using assms by (induction sls) (auto dest: mono intro!: filter_True [symmetric])
qed

lemma set_sleeper_insert [simp]: "set (sleeper_insert sl sls) = insert sl (set sls)"
  by (induction sls) auto

lemma sleeper_insert_split:
  "sleeper_insert sl sls =
     takeWhile (\<lambda>c. \<not> later (sl_tick sl) (sl_subtick sl) c) sls @ sl #
     dropWhile (\<lambda>c. \<not> later (sl_tick sl) (sl_subtick sl) c) sls"
  by (induction sls) auto

lemma sleeper_insert_sorted:
  "sorted_wrt due_before sls \<Longrightarrow> sorted_wrt due_before (sleeper_insert sl sls)"
  by (induction sls) (auto simp: due_before_def later_def)

lemma sleeper_insert_distinct:
  "distinct (map f (sleeper_insert sl sls)) \<longleftrightarrow> f sl \<notin> f ` set sls \<and> distinct (map f sls)"
  by (induction sls) auto

lemma sleep_inv_head:
  assumes "sleep_inv s" and "sc_sleepers s = sl # rest"
  obtains x where "get_proc (sl_process sl) s = Some x" and "sl_process sl \<in> set (sc_list s)"
    and "sl_node sl \<noteq> NULL" and "sleeper_ok s sl"
    and "sl_process sl \<notin> sl_process ` set rest" and "sl_node sl \<notin> sl_node ` set rest"
  using assms that by (auto simp: sleep_inv_def sleeper_ok_def split: option.splits)

text \<open>The process of a sleeper after it was woken.\<close>

definition slept_proc :: "sleeper \<Rightarrow> proc \<Rightarrow> proc" where
  "slept_proc sl x =
     (if sl_is_fswait sl = 0 then x\<lparr>pr_sleep := NoQueue, pr_timed := NULL, pr_sched := True\<rparr>
      else x\<lparr>pr_awoken := int (length (takeWhile (\<lambda>w. w \<noteq> sl_addr sl) (the (pr_node_waits x)))),
             pr_node_waits := None, pr_timeout := NULL, pr_sched := True\<rparr>)"

lemma pr_sched_idem: "pr_sched x \<Longrightarrow> x\<lparr>pr_sched := True\<rparr> = x"
  by (cases x) simp

lemma make_process_ready_awake:
  assumes "get_proc p s = Some x" and "pr_sleep x = NoQueue"
  shows "make_process_ready p s =
    Some (s\<lparr>sc_procs := (sc_procs s)(p \<mapsto> x\<lparr>pr_sched := True\<rparr>),
            sc_ready := (if pr_sched x then sc_ready s else sc_ready s @ [p])\<rparr>)"
proof -
  have "ready_proc x = x\<lparr>pr_sched := True\<rparr>" using assms(2) by (cases x) (simp add: ready_proc_def)
  then show ?thesis using make_process_ready_eval [OF assms(1)] assms(2) by (simp add: leave_queue_def)
qed

lemma wake_head_eval:
  assumes inv: "sleep_inv s" and hd: "sc_sleepers s = sl # rest"
    and x: "get_proc (sl_process sl) s = Some x"
  shows "\<exists>s'. wake_head sl s = Some s' \<and>
    s'\<lparr>sc_sleepers := tl (sc_sleepers s')\<rparr> =
      s\<lparr>sc_sleepers := rest, sc_procs := (sc_procs s)(sl_process sl \<mapsto> slept_proc sl x),
        sc_ready := (if pr_sched x then sc_ready s else sc_ready s @ [sl_process sl])\<rparr>"
proof (cases "sl_is_fswait sl = 0")
  case True
  let ?p = "sl_process sl"
  let ?x1 = "x\<lparr>pr_sleep := NoQueue, pr_timed := NULL\<rparr>"
  let ?s1 = "s\<lparr>sc_procs := (sc_procs s)(?p \<mapsto> ?x1)\<rparr>"
  have g: "get_proc ?p ?s1 = Some ?x1" using x by (simp add: get_proc_def split: if_splits)
  have w: "wake_head sl s = (if \<not> process_is_ready ?x1 then make_process_ready ?p ?s1 else Some ?s1)"
    using True x g by (simp add: wake_head_def set_proc_def)
  have sl: "slept_proc sl x = ?x1\<lparr>pr_sched := True\<rparr>" using True by (simp add: slept_proc_def)
  have "make_process_ready ?p ?s1 = Some (s\<lparr>sc_procs := (sc_procs s)(?p \<mapsto> slept_proc sl x),
      sc_ready := (if pr_sched x then sc_ready s else sc_ready s @ [?p])\<rparr>)"
    using make_process_ready_awake [OF g] unfolding sl by simp
  moreover have "?s1 = s\<lparr>sc_procs := (sc_procs s)(?p \<mapsto> slept_proc sl x),
      sc_ready := (if pr_sched x then sc_ready s else sc_ready s @ [?p])\<rparr>" if "process_is_ready ?x1"
  proof -
    have sch: "pr_sched ?x1" using that by (simp add: process_is_ready_def)
    then have "slept_proc sl x = ?x1" using pr_sched_idem [OF sch] unfolding sl by simp
    then show ?thesis using sch by simp
  qed
  ultimately have "wake_head sl s = Some (s\<lparr>sc_procs := (sc_procs s)(?p \<mapsto> slept_proc sl x),
      sc_ready := (if pr_sched x then sc_ready s else sc_ready s @ [?p])\<rparr>)"
    using w by metis
  then show ?thesis using hd by simp
next
  case False
  let ?p = "sl_process sl"
  let ?i = "int (length (takeWhile (\<lambda>w. w \<noteq> sl_addr sl) (the (pr_node_waits x))))"
  let ?s1 = "s\<lparr>sc_sleepers := sl\<lparr>sl_is_fswait := -1\<rparr> # rest\<rparr>"
  let ?x2 = "x\<lparr>pr_awoken := ?i, pr_node_waits := None, pr_timeout := NULL\<rparr>"
  let ?s3 = "?s1\<lparr>sc_procs := (sc_procs s)(?p \<mapsto> ?x2)\<rparr>"
  have ok: "sleeper_ok s sl" using inv hd by (simp add: sleep_inv_def)
  have p: "?p \<noteq> NULL" "sc_procs s ?p = Some x" using x by (simp_all add: get_proc_Some)
  obtain ws where ws: "pr_node_waits x = Some ws" "sl_addr sl \<in> set ws" "pr_sleep x = NoQueue"
      "pr_timeout x = sl_node sl" "?p \<in> set (sc_list s)" "sl_node sl \<noteq> NULL"
    using ok x False by (auto simp: sleeper_ok_def split: option.splits)
  have g: "get_proc ?p ?s3 = Some ?x2" using p by (simp add: get_proc_def)
  have 1: "process_awaken_from_fswait ?p ?i ?s1 = map_option (Pair 0) (make_process_ready ?p ?s3)"
    using p ws by (simp add: process_awaken_from_fswait_def set_proc_def get_proc_def Let_def map_option_case
        split: option.splits)
  have w: "wake_head sl s = make_process_ready ?p ?s3"
    using False hd ws p 1
    by (simp add: wake_head_def Let_def process_alert_node_locked_def is_valid_process_def get_proc_def
        option.map_comp comp_def option.map_ident)
  have "slept_proc sl x = ?x2\<lparr>pr_sched := True\<rparr>" using False by (simp add: slept_proc_def)
  then show ?thesis using w make_process_ready_awake [OF g] ws(3) by simp
qed

lemma wake_head_invs:
  assumes inv: "sched_inv s" "sleep_inv s" and hd: "sc_sleepers s = sl # rest"
    and x: "get_proc (sl_process sl) s = Some x"
  defines "s' \<equiv> s\<lparr>sc_sleepers := rest, sc_procs := (sc_procs s)(sl_process sl \<mapsto> slept_proc sl x),
        sc_ready := (if pr_sched x then sc_ready s else sc_ready s @ [sl_process sl])\<rparr>"
  shows "sched_inv s'" and "sleep_inv s'"
proof -
  let ?p = "sl_process sl"
  have p: "?p \<noteq> NULL" "sc_procs s ?p = Some x" using x by (simp_all add: get_proc_Some)
  have ok: "sleeper_ok s sl" using inv hd by (simp add: sleep_inv_def)
  have nq: "pr_sleep x \<noteq> WaitQueue q" "pr_sleep (slept_proc sl x) = NoQueue" "pr_sched (slept_proc sl x)" for q
    using ok x by (auto simp: sleeper_ok_def slept_proc_def split: if_splits)
  have i: "distinct (sc_ready s)" "\<And>q. distinct (sc_queues s q)" "sc_procs s NULL = None"
      "\<And>r. r \<in> set (sc_ready s) \<longleftrightarrow> (\<exists>x. sc_procs s r = Some x \<and> pr_sched x)"
      "\<And>q r. r \<in> set (sc_queues s q) \<longleftrightarrow> (\<exists>x. sc_procs s r = Some x \<and> pr_sleep x = WaitQueue q)"
    using inv(1) unfolding sched_inv_def by blast+
  have "r \<in> set (sc_ready s') \<longleftrightarrow> (\<exists>y. sc_procs s' r = Some y \<and> pr_sched y)" for r
    using i(4) [of r] p nq(3) by (cases "r = ?p") (auto simp: s'_def)
  moreover have "distinct (sc_ready s')" using i(1) i(4) [of ?p] p by (auto simp: s'_def)
  moreover have "r \<in> set (sc_queues s' q) \<longleftrightarrow> (\<exists>y. sc_procs s' r = Some y \<and> pr_sleep y = WaitQueue q)" for q r
    using i(5) [of r q] p nq by (cases "r = ?p") (auto simp: s'_def)
  ultimately show "sched_inv s'" using i(2,3) p(1) unfolding sched_inv_def by (simp add: s'_def)
  have "sleeper_ok s' c = sleeper_ok s c" if "c \<in> set rest" for c
  proof -
    have "sl_process c \<noteq> ?p" using inv(2) hd that by (auto simp: sleep_inv_def image_iff)
    then show ?thesis by (simp add: sleeper_ok_def s'_def get_proc_def)
  qed
  then show "sleep_inv s'" using inv(2) hd by (simp add: sleep_inv_def s'_def)
qed

lemma wakeup_sleepers_spec:
  "sched_inv s \<Longrightarrow> sleep_inv s \<Longrightarrow>
   \<exists>s'. wakeup_sleepers a b s = Some s' \<and> sched_inv s' \<and> sleep_inv s' \<and>
     sc_sleepers s' = dropWhile (expired a b) (sc_sleepers s) \<and>
     sc_ready s' = sc_ready s @ filter (\<lambda>p. p \<notin> set (sc_ready s))
       (map sl_process (takeWhile (expired a b) (sc_sleepers s)))"
proof (induction "length (sc_sleepers s)" arbitrary: s rule: less_induct)
  case (less s)
  show ?case
  proof (cases "sc_sleepers s")
    case Nil
    then show ?thesis using less.prems by (subst wakeup_sleepers.simps) simp
  next
    case (Cons sl rest)
    show ?thesis
    proof (cases "expired a b sl")
      case False
      then show ?thesis using Cons less.prems by (subst wakeup_sleepers.simps) simp
    next
      case True
      obtain x where x: "get_proc (sl_process sl) s = Some x"
        and d: "sl_process sl \<notin> sl_process ` set rest"
        using sleep_inv_head [OF less.prems(2) Cons] by metis
      let ?s1 = "s\<lparr>sc_sleepers := rest, sc_procs := (sc_procs s)(sl_process sl \<mapsto> slept_proc sl x),
        sc_ready := (if pr_sched x then sc_ready s else sc_ready s @ [sl_process sl])\<rparr>"
      have step: "wakeup_sleepers a b s = wakeup_sleepers a b ?s1"
        using wake_head_eval [OF less.prems(2) Cons x] Cons True
        by (subst wakeup_sleepers.simps) (auto simp: wakeup_sleepers.simps [of a b s])
      have inv1: "sched_inv ?s1" "sleep_inv ?s1"
        using wake_head_invs [OF less.prems Cons x] by simp_all
      have "length (sc_sleepers ?s1) < length (sc_sleepers s)" using Cons by simp
      from less.hyps [OF this inv1] obtain s' where s': "wakeup_sleepers a b ?s1 = Some s'"
          "sched_inv s'" "sleep_inv s'" "sc_sleepers s' = dropWhile (expired a b) rest"
          "sc_ready s' = sc_ready ?s1 @ filter (\<lambda>p. p \<notin> set (sc_ready ?s1))
             (map sl_process (takeWhile (expired a b) rest))" by auto
      have r: "sl_process sl \<in> set (sc_ready s) \<longleftrightarrow> pr_sched x"
        using less.prems(1) x by (auto simp: sched_inv_def get_proc_Some)
      have "filter (\<lambda>p. p \<notin> set (sc_ready ?s1)) (map sl_process (takeWhile (expired a b) rest)) =
          filter (\<lambda>p. p \<notin> set (sc_ready s)) (map sl_process (takeWhile (expired a b) rest))"
        using d by (intro filter_cong) (auto dest!: set_takeWhileD simp: image_iff)
      then show ?thesis using step s' Cons True r by simp
    qed
  qed
qed

lemma sleep_until_spec:
  assumes inv: "sched_inv s" "sleep_inv s"
    and cur: "get_proc p s = Some x" "sc_current s = p" "pr_sleep x = NoQueue" "p \<in> set (sc_list s)"
    and fresh: "node \<noteq> NULL" "node \<notin> sl_node ` set (sc_sleepers s)" "p \<notin> sl_process ` set (sc_sleepers s)"
  obtains s' where "sleep_until node addr p a b s = Some s'" and "sched_inv s'" and "sleep_inv s'"
    and "sc_sleepers s' = sleeper_insert \<lparr>sl_node = node, sl_addr = addr, sl_tick = a, sl_subtick = b,
                 sl_process = p, sl_is_fswait = 0\<rparr> (sc_sleepers s)"
    and "sc_ready s' = sc_ready s"
proof -
  let ?sl = "\<lparr>sl_node = node, sl_addr = addr, sl_tick = a, sl_subtick = b, sl_process = p, sl_is_fswait = 0\<rparr>"
  let ?s = "s\<lparr>sc_procs := (sc_procs s)(p \<mapsto> x\<lparr>pr_sleep := SleepQueue, pr_timed := node\<rparr>),
             sc_sleepers := sleeper_insert ?sl (sc_sleepers s)\<rparr>"
  have p: "p \<noteq> NULL" "sc_procs s p = Some x" using cur(1) by (simp_all add: get_proc_Some)
  have e: "sleep_until node addr p a b s = Some ?s"
    using cur p by (simp add: sleep_until_def Let_def set_proc_def get_proc_def)
  have "sched_inv ?s" using inv(1) p cur(3) unfolding sched_inv_def by auto
  moreover have "sleeper_ok ?s c = sleeper_ok s c" if "c \<in> set (sc_sleepers s)" for c
  proof -
    have "sl_process c \<noteq> p" using fresh(3) that by auto
    then show ?thesis by (simp add: sleeper_ok_def get_proc_def)
  qed
  moreover have "sleeper_ok ?s ?sl" using p cur(4) fresh(1) by (simp add: sleeper_ok_def get_proc_def)
  ultimately show thesis
    using e inv(2) fresh by (intro that [of ?s]) (auto simp: sleep_inv_def sleeper_insert_sorted sleeper_insert_distinct)
qed

section \<open>Round robin\<close>

text \<open>The record of a process that the scheduler took off the ready queue.\<close>

definition picked_proc :: "int \<Rightarrow> proc \<Rightarrow> proc" where
  "picked_proc cpu x = x\<lparr>pr_sched := False, pr_owner := cpu,
     pr_flags := (if flag_set PROC_FLAG_FINISHED x then pr_flags x else pr_flags x OR PROC_FLAG_RUNNING)\<rparr>"

lemma sched_inv_ready:
  assumes "sched_inv s" and "p \<in> set (sc_ready s)"
  obtains x where "get_proc p s = Some x" and "pr_sched x"
proof -
  obtain x where "sc_procs s p = Some x" "pr_sched x" "sc_procs s NULL = None"
    using assms unfolding sched_inv_def by blast
  then show thesis using that [of x] by (cases "p = NULL") (simp_all add: get_proc_def)
qed

lemma next_ready_process_take:
  assumes inv: "sched_inv s" and rq: "sc_ready s = p # rest" and x: "get_proc p s = Some x"
    and here: "\<not> (flag_set PROC_FLAG_RUNNING x \<and> pr_owner x \<noteq> sc_cpu s)"
  defines "s' \<equiv> s\<lparr>sc_ready := rest, sc_procs := (sc_procs s)(p \<mapsto> picked_proc (sc_cpu s) x)\<rparr>"
  shows "next_ready_process s = Some (p, s')" and "sched_inv s'"
proof -
  have p: "p \<noteq> NULL" "sc_procs s p = Some x" using x by (simp_all add: get_proc_Some)
  let ?x1 = "x\<lparr>pr_sched := False\<rparr>"
  have h: "\<not> (flag_set PROC_FLAG_RUNNING ?x1 \<and> pr_owner ?x1 \<noteq> sc_cpu s)"
      "flag_set PROC_FLAG_FINISHED ?x1 = flag_set PROC_FLAG_FINISHED x"
    using here by (simp_all add: flag_set_def)
  show "next_ready_process s = Some (p, s')"
  proof (cases "flag_set PROC_FLAG_FINISHED x")
    case True
    then have "picked_proc (sc_cpu s) x = ?x1\<lparr>pr_owner := sc_cpu s\<rparr>" by (cases x) (simp add: picked_proc_def)
    then show ?thesis using rq p h True
      by (auto simp: next_ready_process_def s'_def set_proc_def get_proc_def)
  next
    case False
    then have "picked_proc (sc_cpu s) x =
        ?x1\<lparr>pr_flags := pr_flags x OR PROC_FLAG_RUNNING, pr_owner := sc_cpu s\<rparr>"
      by (cases x) (simp add: picked_proc_def)
    then show ?thesis using rq p h False
      by (auto simp: next_ready_process_def s'_def set_proc_def get_proc_def)
  qed
  have i: "distinct (sc_ready s)" "\<And>q. distinct (sc_queues s q)" "sc_procs s NULL = None"
      "\<And>r. r \<in> set (sc_ready s) \<longleftrightarrow> (\<exists>x. sc_procs s r = Some x \<and> pr_sched x)"
      "\<And>q r. r \<in> set (sc_queues s q) \<longleftrightarrow> (\<exists>x. sc_procs s r = Some x \<and> pr_sleep x = WaitQueue q)"
    using inv unfolding sched_inv_def by blast+
  have "r \<in> set (sc_ready s') \<longleftrightarrow> (\<exists>y. sc_procs s' r = Some y \<and> pr_sched y)" for r
    using i(1) i(4) [of r] p rq by (cases "r = p") (auto simp: s'_def picked_proc_def)
  moreover have "r \<in> set (sc_queues s' q) \<longleftrightarrow> (\<exists>y. sc_procs s' r = Some y \<and> pr_sleep y = WaitQueue q)" for q r
    using i(5) [of r q] p by (cases "r = p") (auto simp: s'_def picked_proc_def)
  ultimately show "sched_inv s'" using i(1-3) p(1) rq unfolding sched_inv_def by (simp add: s'_def)
qed

lemma next_ready_process_rotate:
  assumes inv: "sched_inv s" and rq: "sc_ready s = p # rest" and x: "get_proc p s = Some x"
    and busy: "flag_set PROC_FLAG_RUNNING x" "pr_owner x \<noteq> sc_cpu s"
  shows "next_ready_process s = Some (sc_idle s, s\<lparr>sc_ready := rest @ [p]\<rparr>)"
    and "sched_inv (s\<lparr>sc_ready := rest @ [p]\<rparr>)"
proof -
  have p: "p \<noteq> NULL" "sc_procs s p = Some x" using x by (simp_all add: get_proc_Some)
  obtain y where "get_proc p s = Some y" "pr_sched y" using sched_inv_ready [OF inv, of p] rq by (metis list.set_intros(1))
  then have sch: "pr_sched x" using x by simp
  then have id: "(sc_procs s)(p \<mapsto> x\<lparr>pr_sched := True\<rparr>) = sc_procs s"
    using p pr_sched_idem [OF sch] by (simp add: fun_upd_idem)
  have "flag_set PROC_FLAG_RUNNING (x\<lparr>pr_sched := False\<rparr>)" using busy by (simp add: flag_set_def)
  then show "next_ready_process s = Some (sc_idle s, s\<lparr>sc_ready := rest @ [p]\<rparr>)"
    using rq p busy id by (simp add: next_ready_process_def set_proc_def get_proc_def)
  have "set (rest @ [p]) = set (sc_ready s)" "distinct (sc_ready s) = distinct (rest @ [p])"
    unfolding rq by auto
  then show "sched_inv (s\<lparr>sc_ready := rest @ [p]\<rparr>)"
    using inv unfolding sched_inv_def by (simp del: set_append distinct_append)
qed

lemma next_ready_process_idle:
  "sc_ready s = [] \<Longrightarrow> next_ready_process s = Some (sc_idle s, s)"
  by (simp add: next_ready_process_def)

text \<open>A process of the queue that may run here.\<close>

definition runnable :: "sched \<Rightarrow> ptr \<Rightarrow> bool" where
  "runnable s p = (case get_proc p s of None \<Rightarrow> False | Some x \<Rightarrow> \<not> flag_set PROC_FLAG_FINISHED x)"

definition busy_elsewhere :: "sched \<Rightarrow> ptr \<Rightarrow> bool" where
  "busy_elsewhere s p = (case get_proc p s of None \<Rightarrow> False
     | Some x \<Rightarrow> flag_set PROC_FLAG_RUNNING x \<and> pr_owner x \<noteq> sc_cpu s)"

lemma picked_finished: "flag_set PROC_FLAG_FINISHED (picked_proc cpu x) = flag_set PROC_FLAG_FINISHED x"
proof -
  have "(f OR PROC_FLAG_RUNNING) AND PROC_FLAG_FINISHED = f AND PROC_FLAG_FINISHED" for f :: u32
    by (rule bit_word_eqI) (auto simp: bit_simps PROC_FLAG_RUNNING_def PROC_FLAG_FINISHED_def bit_numeral_rec
        split: nat.splits)
  then show ?thesis by (simp add: flag_set_def picked_proc_def)
qed

definition discarded :: "sched \<Rightarrow> ptr \<Rightarrow> bool" where
  "discarded s p \<longleftrightarrow> \<not> runnable s p \<and> \<not> busy_elsewhere s p"

text \<open>The choice of the round robin: finished processes at the front are skipped.\<close>

definition chosen :: "sched \<Rightarrow> ptr" where
  "chosen s = (case dropWhile (discarded s) (sc_ready s) of
     [] \<Rightarrow> sc_idle s | p # ps \<Rightarrow> if busy_elsewhere s p then sc_idle s else p)"

lemma pick_next_spec:
  "sched_inv s \<Longrightarrow> runnable s (sc_idle s) \<Longrightarrow>
   \<exists>s'. pick_next s = Some s' \<and> sched_inv s' \<and> sc_current s' = chosen s \<and> runnable s' (sc_current s') \<and>
     sc_queues s' = sc_queues s \<and> sc_idle s' = sc_idle s"
proof (induction "length (sc_ready s)" arbitrary: s rule: less_induct)
  case (less s)
  obtain xi where xi: "get_proc (sc_idle s) s = Some xi" "\<not> flag_set PROC_FLAG_FINISHED xi"
    using less.prems(2) by (auto simp: runnable_def split: option.splits)
  show ?case
  proof (cases "sc_ready s")
    case Nil
    then have "pick_next s = Some (s\<lparr>sc_current := sc_idle s\<rparr>)"
      using xi by (subst pick_next.simps) (simp add: next_ready_process_idle)
    then show ?thesis using Nil less.prems by (simp add: chosen_def sched_inv_def runnable_def)
  next
    case (Cons p rest)
    obtain x where x: "get_proc p s = Some x" using sched_inv_ready [OF less.prems(1), of p] Cons by auto
    have p: "p \<noteq> NULL" "sc_procs s p = Some x" using x by (simp_all add: get_proc_Some)
    consider (busy) "busy_elsewhere s p" | (fin) "discarded s p" | (run) "runnable s p" "\<not> busy_elsewhere s p"
      by (auto simp: discarded_def)
    then show ?thesis
    proof cases
      case busy
      then have b: "flag_set PROC_FLAG_RUNNING x" "pr_owner x \<noteq> sc_cpu s" using x by (simp_all add: busy_elsewhere_def)
      note rot = next_ready_process_rotate [OF less.prems(1) Cons x b]
      have "pick_next s = Some (s\<lparr>sc_ready := rest @ [p], sc_current := sc_idle s\<rparr>)"
        using rot(1) xi by (subst pick_next.simps) simp
      moreover have "sched_inv (s\<lparr>sc_ready := rest @ [p], sc_current := sc_idle s\<rparr>)"
        using rot(2) by (simp add: sched_inv_def)
      ultimately show ?thesis using Cons busy less.prems(2) by (simp add: chosen_def discarded_def runnable_def)
    next
      case run
      let ?s1 = "s\<lparr>sc_ready := rest, sc_procs := (sc_procs s)(p \<mapsto> picked_proc (sc_cpu s) x)\<rparr>"
      have h: "\<not> (flag_set PROC_FLAG_RUNNING x \<and> pr_owner x \<noteq> sc_cpu s)" "\<not> flag_set PROC_FLAG_FINISHED x"
        using run x by (simp_all add: busy_elsewhere_def runnable_def)
      note take = next_ready_process_take [OF less.prems(1) Cons x h(1)]
      have g: "get_proc p ?s1 = Some (picked_proc (sc_cpu s) x)" using p by (simp add: get_proc_def)
      have "pick_next s = Some (?s1\<lparr>sc_current := p\<rparr>)"
        using take(1) g h(2) by (subst pick_next.simps) (simp add: picked_finished)
      moreover have "sched_inv (?s1\<lparr>sc_current := p\<rparr>)" using take(2) by (simp add: sched_inv_def)
      moreover have "runnable (?s1\<lparr>sc_current := p\<rparr>) p" using g h(2) by (simp add: runnable_def picked_finished)
      ultimately show ?thesis using Cons run by (simp add: chosen_def discarded_def)
    next
      case fin
      let ?s1 = "s\<lparr>sc_ready := rest, sc_procs := (sc_procs s)(p \<mapsto> picked_proc (sc_cpu s) x), sc_current := p\<rparr>"
      have h: "\<not> (flag_set PROC_FLAG_RUNNING x \<and> pr_owner x \<noteq> sc_cpu s)" "flag_set PROC_FLAG_FINISHED x"
        using fin x by (simp_all add: busy_elsewhere_def runnable_def discarded_def)
      note take = next_ready_process_take [OF less.prems(1) Cons x h(1)]
      have g: "get_proc p ?s1 = Some (picked_proc (sc_cpu s) x)" using p by (simp add: get_proc_def)
      have step: "pick_next s = pick_next ?s1"
        using take(1) g h(2) by (subst pick_next.simps) (simp add: picked_finished)
      have np: "sc_idle s \<noteq> p" using x xi h(2) by auto
      have d: "p \<notin> set rest" using less.prems(1) Cons by (simp add: sched_inv_def)
      have other: "get_proc q ?s1 = get_proc q s" if "q \<noteq> p" for q using that by (simp add: get_proc_def)
      have dis: "discarded ?s1 q = discarded s q" "busy_elsewhere ?s1 q = busy_elsewhere s q" if "q \<noteq> p" for q
        using other [OF that] by (simp_all add: discarded_def runnable_def busy_elsewhere_def split: option.splits)
      have dw: "dropWhile (discarded ?s1) rest = dropWhile (discarded s) rest"
        by (intro dropWhile_cong refl) (metis d dis(1))
      have ch: "chosen ?s1 = chosen s"
      proof (cases "dropWhile (discarded s) rest")
        case Nil
        then show ?thesis using Cons fin dw by (simp add: chosen_def del: dropWhile_eq_Nil_conv)
      next
        case (Cons r rs)
        then have "r \<in> set rest" by (metis list.set_intros(1) set_dropWhileD)
        then have "r \<noteq> p" using d by auto
        then show ?thesis using Cons fin dw dis(2) \<open>sc_ready s = p # rest\<close> by (simp add: chosen_def)
      qed
      have inv1: "sched_inv ?s1" using take(2) by (simp add: sched_inv_def)
      have run1: "runnable ?s1 (sc_idle ?s1)" using other np less.prems(2) by (simp add: runnable_def)
      have "length (sc_ready ?s1) < length (sc_ready s)" using Cons by simp
      from less.hyps [OF this inv1 run1] show ?thesis using step ch by auto
    qed
  qed
qed

section \<open>Waiting for children\<close>

text \<open>The children of a process, as the scan of \<open>waitpid\<close> sees them.\<close>

definition child_proc :: "sched \<Rightarrow> ptr \<Rightarrow> proc option" where
  "child_proc s c = (case get_tn c (sc_tree s) of None \<Rightarrow> None | Some n \<Rightarrow> get_proc (tn_value n) s)"

definition matches :: "proc \<Rightarrow> int \<Rightarrow> u32 \<Rightarrow> sched \<Rightarrow> ptr \<Rightarrow> bool" where
  "matches P pid options s c = (case child_proc s c of None \<Rightarrow> False | Some x \<Rightarrow> wait_candidate P pid options x)"

definition reportable :: "proc \<Rightarrow> int \<Rightarrow> u32 \<Rightarrow> sched \<Rightarrow> ptr \<Rightarrow> bool" where
  "reportable P pid options s c = (case child_proc s c of None \<Rightarrow> False
     | Some x \<Rightarrow> wait_candidate P pid options x \<and> (flag_set PROC_FLAG_FINISHED x \<or> wait_stopped options x))"

lemma wait_scan_spec:
  "(\<And>c. c \<in> set cs \<Longrightarrow> child_proc s c \<noteq> None) \<Longrightarrow>
   wait_scan P pid options s cs =
     Some (list_ex (matches P pid options s) cs,
           map_option (\<lambda>c. tn_val (sc_tree s) c) (List.find (reportable P pid options s) cs))"
proof (induction cs)
  case (Cons c cs)
  obtain n x where n: "get_tn c (sc_tree s) = Some n" "get_proc (tn_value n) s = Some x" "child_proc s c = Some x"
    using Cons.prems [of c] by (auto simp: child_proc_def split: option.splits)
  have nz: "c \<noteq> NULL" "tn_value n \<noteq> NULL" using n(1,2) by (auto simp: get_tn_def get_proc_def)
  have v: "tn_val (sc_tree s) c = tn_value n" using n(1) nz(1) by (simp add: get_tn_def tn_val_def)
  have IH: "wait_scan P pid options s cs =
     Some (list_ex (matches P pid options s) cs,
           map_option (\<lambda>c. tn_val (sc_tree s) c) (List.find (reportable P pid options s) cs))"
    using Cons by simp
  have m: "matches P pid options s c = wait_candidate P pid options x"
      "reportable P pid options s c \<longleftrightarrow>
         wait_candidate P pid options x \<and> (flag_set PROC_FLAG_FINISHED x \<or> wait_stopped options x)"
    using n(3) by (simp_all add: matches_def reportable_def)
  show ?case using n(1,2) nz v IH by (simp add: m)
qed simp

text \<open>The outcome of one pass when nobody is traced.\<close>

lemma waitpid_pass:
  assumes P: "get_proc (sc_current s) s = Some P" "get_tn (pr_tree_entry P) (sc_tree s) = Some E"
    and kids: "\<And>c. c \<in> set (tn_children E) \<Longrightarrow> child_proc s c \<noteq> None" and tr: "pr_tracees P = None"
  shows "waitpid cores pid options env s =
    (if \<not> list_ex (matches P pid options s) (tn_children E) then Some (WaitError (-10), s)
     else case List.find (reportable P pid options s) (tn_children E) of
       Some c \<Rightarrow> wait_report cores (sc_current s) True (tn_val (sc_tree s) c) s
     | None \<Rightarrow> if options AND WNOHANG \<noteq> 0 then Some (NoneYet, s)
         else do {
           s' \<leftarrow> sleep_enqueue (pr_wait_queue P) s;
           case env of [] \<Rightarrow> Some (StillWaiting, s')
           | act # env' \<Rightarrow> do {
               let s' = (act s')\<lparr>sc_current := sc_current s\<rparr>;
               x \<leftarrow> get_proc (sc_current s) s';
               if flag_set PROC_FLAG_SLEEP_INT x then Some (WaitError (-4), s')
               else waitpid cores pid options env' s'
             }
         })"
  using P tr wait_scan_spec [OF kids, of "tn_children E" P pid options]
  by (subst waitpid.simps) (auto simp: Let_def split: option.splits)

text \<open>What remains after a process was deleted.\<close>

lemma process_delete_spec:
  assumes inv: "sched_inv s" "tree_inv (sc_tree s)" and p: "p \<noteq> sc_current s" "get_proc p s = Some x"
    and idle: "\<not> pr_sched x" "pr_sleep x = NoQueue"
    and e: "pr_tree_entry x \<noteq> tr_root (sc_tree s)" "tr_store (sc_tree s) (pr_tree_entry x) = Some E"
    and l: "p \<in> set (sc_list s)" "distinct (sc_list s)"
    and init: "get_proc (tn_val (sc_tree s) (tr_root (sc_tree s))) s = Some I"
    and free: "\<not> used_elsewhere cores (sc_cpu s) p"
  shows "\<exists>s'. process_delete cores p s = Some s' \<and> sched_inv s' \<and>
    sc_procs s' p = None \<and> sc_list s' = remove1 p (sc_list s) \<and> tree_inv (sc_tree s') \<and>
    tree_remove_reparent_root (pr_tree_entry x) (sc_tree s) = Some (sc_tree s') \<and>
    tr_store (sc_tree s') (pr_tree_entry x) = None \<and> sc_current s' = sc_current s"
proof -
  let ?e = "pr_tree_entry x"
  have px: "p \<noteq> NULL" "sc_procs s p = Some x" using p by (simp_all add: get_proc_Some)
  have ez: "?e \<noteq> NULL" "get_tn ?e (sc_tree s) = Some E" using tree_inv_node(1,2) [OF inv(2) e(2)] by simp_all
  obtain t' where t': "tree_remove_reparent_root ?e (sc_tree s) = Some t'" "tree_inv t'"
      "tr_root t' = tr_root (sc_tree s)"
      "tr_store t' = moved (tr_store (sc_tree s)) (tr_root (sc_tree s)) (tn_parent E) ?e (tn_children E)"
    using tree_remove_specs(2) [OF inv(2) e(2,1)] by blast
  obtain R where R: "tr_store t' (tr_root t') = Some R" using t'(2) by (auto simp: tree_inv_def)
  have gR: "get_tn (tr_root t') t' = Some R" using tree_inv_node(2) [OF t'(2) R] .
  have "tn_value R = tn_val (sc_tree s) (tr_root (sc_tree s))"
    using R t'(3,4) by (auto simp: moved_def tn_val_def split: if_splits option.splits)
  then have gI: "get_proc (tn_value R) s = Some I" using init by simp
  let ?s1 = "s\<lparr>sc_tree := t', sc_list := remove1 p (sc_list s)\<rparr>"
  have inv1: "sched_inv ?s1" using inv(1) by (simp add: sched_inv_def)
  define s2 where "s2 = (if tn_children E \<noteq> [] then woken False (pr_wait_queue I) ?s1 else ?s1)"
  have nq: "p \<notin> set (sc_queues s q)" for q using inv(1) px idle by (auto simp: sched_inv_def)
  have s2: "sched_inv s2" "sc_procs s2 p = Some x" "sc_tree s2 = t'" "sc_list s2 = remove1 p (sc_list s)"
      "sc_cpu s2 = sc_cpu s" "sc_current s2 = sc_current s"
    using wakeup_queue_loop_spec [OF inv1, of False "pr_wait_queue I" 0] inv1 px nq
    by (simp_all add: s2_def woken_def)
  have wk: "wakeup_queue (pr_wait_queue I) ?s1 =
      Some (length (sc_queues s (pr_wait_queue I)), woken False (pr_wait_queue I) ?s1)"
    using wakeup_queue_loop_spec [OF inv1] by (simp add: wakeup_queue_def)
  let ?s3 = "s2\<lparr>sc_procs := (sc_procs s2)(p := None)\<rparr>"
  have gI1: "get_proc (tn_value R) ?s1 = Some I" using gI by (simp add: get_proc_def split: if_splits)
  have "process_delete cores p s = Some ?s3"
    using p(1) p(2) ez e(1) t'(1) l gR gI1 wk s2(2,5) px(1) free
    by (cases "tn_children E = []")
       (auto simp: process_delete_def Let_def set_proc_def get_proc_def process_reap_def s2_def)
  moreover have "sched_inv ?s3"
  proof -
    have "\<not> pr_sched x" "\<And>q. pr_sleep x \<noteq> WaitQueue q" using idle by simp_all
    then show ?thesis using s2(1,2) unfolding sched_inv_def by auto
  qed
  ultimately show ?thesis using s2 t'(1,2,4) by (auto simp: moved_def)
qed

lemma wait_report_stopped:
  assumes "get_proc p s = Some x" and "\<not> flag_set PROC_FLAG_FINISHED x"
  shows "wait_report cores self b p s =
    Some (Reported (pr_id x) (pr_status x), s\<lparr>sc_procs := (sc_procs s)(p \<mapsto> x\<lparr>pr_status := pr_status x AND NOT 0xFF\<rparr>)\<rparr>)"
  using assms by (simp add: wait_report_def Let_def set_proc_def)


text \<open>Updates that the scheduling decision does not depend on.\<close>

definition sched_same :: "proc \<Rightarrow> proc \<Rightarrow> bool" where
  "sched_same x y \<longleftrightarrow> pr_sched x = pr_sched y \<and> pr_sleep x = pr_sleep y \<and>
     pr_flags x = pr_flags y \<and> pr_owner x = pr_owner y"

lemma sched_same_state:
  assumes "get_proc p s = Some x" and "sched_same y x"
  defines "s' \<equiv> s\<lparr>sc_procs := (sc_procs s)(p \<mapsto> y)\<rparr>"
  shows "sched_inv s' = sched_inv s" and "runnable s' q = runnable s q"
    and "busy_elsewhere s' q = busy_elsewhere s q" and "chosen s' = chosen s"
proof -
  have p: "p \<noteq> NULL" "sc_procs s p = Some x" using assms(1) by (simp_all add: get_proc_Some)
  have ex: "(\<exists>z. sc_procs s' r = Some z \<and> pr_sched z) = (\<exists>z. sc_procs s r = Some z \<and> pr_sched z)"
      "(\<exists>z. sc_procs s' r = Some z \<and> pr_sleep z = k) = (\<exists>z. sc_procs s r = Some z \<and> pr_sleep z = k)" for r k
    using p assms(2) by (auto simp: s'_def sched_same_def)
  have f: "sc_ready s' = sc_ready s" "sc_queues s' = sc_queues s" "sc_cpu s' = sc_cpu s" "sc_idle s' = sc_idle s"
    by (simp_all add: s'_def)
  show "sched_inv s' = sched_inv s"
    unfolding sched_inv_def f ex using p by (simp add: s'_def)
  show r: "runnable s' q = runnable s q" for q
    using p assms(2) by (simp add: s'_def runnable_def get_proc_def sched_same_def flag_set_def)
  show b: "busy_elsewhere s' q = busy_elsewhere s q" for q
    using p assms(2) f
    by (simp add: s'_def busy_elsewhere_def get_proc_def sched_same_def flag_set_def split: option.splits)
  have "discarded s' = discarded s" unfolding discarded_def fun_eq_iff r b by simp
  then show "chosen s' = chosen s" unfolding chosen_def f b by simp
qed


lemma flags_started_finished:
  "(f OR PROC_FLAG_STARTED) AND PROC_FLAG_FINISHED = (f :: u32) AND PROC_FLAG_FINISHED"
  "(f OR PROC_FLAG_STARTED) AND PROC_FLAG_STARTED \<noteq> 0"
proof -
  show "(f OR PROC_FLAG_STARTED) AND PROC_FLAG_FINISHED = f AND PROC_FLAG_FINISHED"
    by (rule bit_word_eqI)
       (auto simp: bit_simps PROC_FLAG_STARTED_def PROC_FLAG_FINISHED_def bit_numeral_rec split: nat.splits)
  have "(f OR PROC_FLAG_STARTED) AND PROC_FLAG_STARTED = PROC_FLAG_STARTED"
    by (rule bit_word_eqI) (auto simp: bit_simps)
  then show "(f OR PROC_FLAG_STARTED) AND PROC_FLAG_STARTED \<noteq> 0" by (simp add: PROC_FLAG_STARTED_def)
qed

lemma switch_next_spec:
  assumes inv: "sched_inv s" and cur: "get_proc (sc_current s) s = Some c" and idle: "runnable s (sc_idle s)"
  shows "\<exists>s' x. switch_next now now' s = Some s' \<and> sched_inv s' \<and> sc_current s' = chosen s \<and>
    get_proc (chosen s) s' = Some x \<and> \<not> flag_set PROC_FLAG_FINISHED x \<and> flag_set PROC_FLAG_STARTED x \<and>
    pr_time_in x = now' \<and> pr_time_switch x = now'"
proof -
  let ?c = "charge_sys now (charge_total now c)"
  let ?s0 = "s\<lparr>sc_previous := sc_current s\<rparr>"
  let ?s1 = "?s0\<lparr>sc_procs := (sc_procs ?s0)(sc_current s \<mapsto> ?c)\<rparr>"
  have same: "sched_same ?c c" by (simp add: sched_same_def charge_sys_def charge_total_def Let_def)
  have c0: "get_proc (sc_current s) ?s0 = Some c" using cur by (simp add: get_proc_def split: if_splits)
  have eq0: "sched_inv ?s0 = sched_inv s" "runnable ?s0 q = runnable s q" "chosen ?s0 = chosen s" for q
  proof -
    have g: "get_proc q ?s0 = get_proc q s" for q by (simp add: get_proc_def)
    have d: "discarded ?s0 = discarded s" "busy_elsewhere ?s0 = busy_elsewhere s"
      by (simp_all add: discarded_def runnable_def busy_elsewhere_def g fun_eq_iff split: option.splits)
    show "sched_inv ?s0 = sched_inv s" "runnable ?s0 q = runnable s q" "chosen ?s0 = chosen s" for q
      by (simp_all add: sched_inv_def runnable_def g chosen_def d split: list.splits del: dropWhile_eq_Nil_conv)
  qed
  note same1 = sched_same_state [OF c0 same]
  have u: "update_process_times now ?s0 = Some ?s1"
    using c0 by (simp add: update_process_times_def set_proc_def)
  obtain s2 where s2: "pick_next ?s1 = Some s2" "sched_inv s2" "sc_current s2 = chosen s" "runnable s2 (chosen s)"
    using pick_next_spec [of ?s1] same1 eq0 inv idle by auto
  obtain x where x: "get_proc (chosen s) s2 = Some x" "\<not> flag_set PROC_FLAG_FINISHED x"
    using s2(4) by (auto simp: runnable_def split: option.splits)
  let ?x = "x\<lparr>pr_time_in := now', pr_time_switch := now', pr_flags := pr_flags x OR PROC_FLAG_STARTED\<rparr>"
  let ?s3 = "s2\<lparr>sc_procs := (sc_procs s2)(chosen s \<mapsto> ?x)\<rparr>"
  have px: "chosen s \<noteq> NULL" "sc_procs s2 (chosen s) = Some x" using x by (simp_all add: get_proc_Some)
  have "switch_next now now' s = Some ?s3"
    using u s2(1,3) px by (simp add: switch_next_def Let_def set_proc_def get_proc_def)
  moreover have "sched_inv ?s3" using s2(2) px unfolding sched_inv_def by auto
  ultimately show ?thesis using s2(3) px x(2) flags_started_finished
    by (auto simp: get_proc_def flag_set_def)
qed

lemma wait_report_finished:
  assumes inv: "sched_inv s" "tree_inv (sc_tree s)"
    and p: "p \<noteq> sc_current s" "get_proc p s = Some x" "get_proc (sc_current s) s = Some P"
    and fin: "flag_set PROC_FLAG_FINISHED x" and idle: "\<not> pr_sched x" "pr_sleep x = NoQueue"
    and e: "pr_tree_entry x \<noteq> tr_root (sc_tree s)" "tr_store (sc_tree s) (pr_tree_entry x) = Some E"
    and l: "p \<in> set (sc_list s)" "distinct (sc_list s)"
    and init: "get_proc (tn_val (sc_tree s) (tr_root (sc_tree s))) s \<noteq> None"
    and free: "\<not> used_elsewhere cores (sc_cpu s) p"
  shows "\<exists>s'. wait_report cores (sc_current s) True p s = Some (Reported (pr_id x) (pr_status x), s') \<and>
    sched_inv s' \<and> sc_procs s' p = None \<and> sc_list s' = remove1 p (sc_list s) \<and> tree_inv (sc_tree s') \<and>
    tree_remove_reparent_root (pr_tree_entry x) (sc_tree s) = Some (sc_tree s')"
proof -
  let ?self = "sc_current s"
  let ?x = "x\<lparr>pr_status := pr_status x AND NOT 0xFF, pr_flags := pr_flags x AND NOT PROC_FLAG_RUNNING\<rparr>"
  let ?P = "P\<lparr>pr_time_children := pr_time_children P + (pr_time_children x + pr_time_total x),
      pr_time_sys_children := pr_time_sys_children P + (pr_time_sys_children x + pr_time_sys x)\<rparr>"
  let ?s1 = "s\<lparr>sc_procs := (sc_procs s)(p \<mapsto> ?x, ?self \<mapsto> ?P)\<rparr>"
  have px: "p \<noteq> NULL" "sc_procs s p = Some x" "?self \<noteq> NULL" "sc_procs s ?self = Some P"
    using p by (simp_all add: get_proc_Some)
  have inv1: "sched_inv ?s1" using inv(1) px p(1) idle unfolding sched_inv_def by auto
  have g: "get_proc p ?s1 = Some ?x" using px p(1) by (simp add: get_proc_def)
  have i1: "get_proc (tn_val (sc_tree s) (tr_root (sc_tree s))) ?s1 \<noteq> None"
    using init by (auto simp: get_proc_def)
  then obtain I where I: "get_proc (tn_val (sc_tree ?s1) (tr_root (sc_tree ?s1))) ?s1 = Some I" by auto
  obtain s' where s': "process_delete cores p ?s1 = Some s'" "sched_inv s'" "sc_procs s' p = None"
      "sc_list s' = remove1 p (sc_list s)" "tree_inv (sc_tree s')"
      "tree_remove_reparent_root (pr_tree_entry x) (sc_tree s) = Some (sc_tree s')"
    using process_delete_spec [OF inv1 _ _ g _ _ _ _ _ _ I, of E cores] inv(2) p(1) idle e l free by auto
  then show ?thesis
    using px p(1) fin by (simp add: wait_report_def Let_def set_proc_def get_proc_def)
qed


section \<open>Properties\<close>

text \<open>
  Process \<open>10\<close> is init and running; \<open>20\<close> is its finished child, \<open>30\<close> and \<open>40\<close> wait in queue
  \<open>200\<close>, \<open>50\<close> sleeps until second \<open>7\<close>, \<open>60\<close> is ready, \<open>70\<close> is the idle task and \<open>80\<close> waits on
  files with a timeout at second \<open>9\<close>.
\<close>

definition proc_example :: "int \<Rightarrow> u32 \<Rightarrow> ptr \<Rightarrow> proc" where
  "proc_example i fl entry =
     \<lparr>pr_id = i, pr_group = 0, pr_job = i, pr_status = 0x100, pr_flags = fl, pr_owner = 0, pr_sched = False,
      pr_sleep = NoQueue, pr_timed = 0, pr_timeout = 0, pr_node_waits = None, pr_awoken = 0,
      pr_wait_queue = 100, pr_tree_entry = entry, pr_tracees = None, pr_time_total = 5, pr_time_sys = 2,
      pr_time_in = 0, pr_time_switch = 0, pr_time_children = 0, pr_time_sys_children = 0\<rparr>"

definition sched_example :: sched where
  "sched_example =
     \<lparr>sc_procs = [10 \<mapsto> proc_example 1 8 1, 20 \<mapsto> proc_example 2 2 2,
                  30 \<mapsto> (proc_example 3 0 3)\<lparr>pr_sleep := WaitQueue 200\<rparr>,
                  40 \<mapsto> (proc_example 4 0 4)\<lparr>pr_sleep := WaitQueue 200\<rparr>,
                  50 \<mapsto> (proc_example 5 0 5)\<lparr>pr_sleep := SleepQueue, pr_timed := 500\<rparr>,
                  60 \<mapsto> (proc_example 6 0 0)\<lparr>pr_sched := True\<rparr>, 70 \<mapsto> proc_example 0 0 0,
                  80 \<mapsto> (proc_example 8 0 0)\<lparr>pr_timeout := 600, pr_node_waits := Some [700, 601]\<rparr>],
      sc_ready = [60],
      sc_sleepers = [\<lparr>sl_node = 500, sl_addr = 501, sl_tick = 7, sl_subtick = 0, sl_process = 50, sl_is_fswait = 0\<rparr>,
                     \<lparr>sl_node = 600, sl_addr = 601, sl_tick = 9, sl_subtick = 3, sl_process = 80, sl_is_fswait = 1\<rparr>],
      sc_queues = (\<lambda>q. if q = 200 then [30, 40] else []),
      sc_list = [10, 20, 30, 40, 50, 60, 80], sc_tree = tree_example,
      sc_current = 10, sc_idle = 70, sc_cpu = 0, sc_previous = 10, sc_reap_queue = []\<rparr>"

lemma sched_example_procs:
  "sc_procs sched_example p = Some x \<Longrightarrow> p \<in> {10, 20, 30, 40, 50, 60, 70, 80}"
  by (simp add: sched_example_def split: if_splits)

lemma sched_example_invs: "sched_inv sched_example" "sleep_inv sched_example"
proof -
  have "p \<in> set (sc_ready sched_example) \<longleftrightarrow> (\<exists>x. sc_procs sched_example p = Some x \<and> pr_sched x)" for p
  proof (cases "p \<in> {10, 20, 30, 40, 50, 60, 70, 80}")
    case True
    then show ?thesis by (elim insertE) (simp_all add: sched_example_def proc_example_def)
  next
    case False
    moreover have "p \<notin> set (sc_ready sched_example)" using False by (simp add: sched_example_def)
    ultimately show ?thesis using sched_example_procs by blast
  qed
  moreover have "p \<in> set (sc_queues sched_example q) \<longleftrightarrow>
      (\<exists>x. sc_procs sched_example p = Some x \<and> pr_sleep x = WaitQueue q)" for p q
  proof (cases "p \<in> {10, 20, 30, 40, 50, 60, 70, 80}")
    case True
    then show ?thesis by (elim insertE) (simp_all add: sched_example_def proc_example_def)
  next
    case False
    moreover have "p \<notin> set (sc_queues sched_example q)" using False by (simp add: sched_example_def)
    ultimately show ?thesis using sched_example_procs by blast
  qed
  moreover have "distinct (sc_queues sched_example q)" "distinct (sc_ready sched_example)"
      "sc_procs sched_example NULL = None" for q by (simp_all add: sched_example_def)
  ultimately show "sched_inv sched_example" unfolding sched_inv_def by blast
  show "sleep_inv sched_example"
    by (simp add: sleep_inv_def sleeper_ok_def due_before_def later_def sched_example_def get_proc_def proc_example_def)
qed

text \<open>
  Fact: \<open>make_process_ready\<close> on a process leaves it exactly once in the ready queue and in
  no wait queue, keeps the queue invariant and the order of the other ready processes, and marks
  the process as interrupted exactly when it was taken off a wait queue.
\<close>

theorem make_process_ready_once:
  assumes "sched_inv s" and "get_proc p s = Some x"
  shows "\<exists>s' y. make_process_ready p s = Some s' \<and> sched_inv s' \<and> get_proc p s' = Some y \<and>
    distinct (sc_ready s') \<and> p \<in> set (sc_ready s') \<and> (\<forall>q. p \<notin> set (sc_queues s' q)) \<and>
    sc_ready s' = (if p \<in> set (sc_ready s) then sc_ready s else sc_ready s @ [p]) \<and>
    (\<forall>q r. r \<noteq> p \<longrightarrow> (r \<in> set (sc_queues s' q) \<longleftrightarrow> r \<in> set (sc_queues s q))) \<and>
    pr_flags y = (if \<exists>q. pr_sleep x = WaitQueue q then pr_flags x OR PROC_FLAG_SLEEP_INT else pr_flags x)"
proof -
  let ?s = "(leave_queue p x s)\<lparr>sc_procs := (sc_procs s)(p \<mapsto> ready_proc x),
            sc_ready := (if pr_sched x then sc_ready s else sc_ready s @ [p])\<rparr>"
  have px: "p \<noteq> NULL" "sc_procs s p = Some x" using assms(2) by (simp_all add: get_proc_Some)
  have inv: "sched_inv ?s" by (rule make_process_ready_inv [OF assms(1,2)])
  have m: "p \<in> set (sc_ready s) \<longleftrightarrow> pr_sched x" using assms(1) px by (simp add: sched_inv_def)
  have c: "p \<in> set (sc_ready ?s)" "distinct (sc_ready ?s)" using inv px by (auto simp: sched_inv_def ready_proc_def)
  have q: "p \<notin> set (sc_queues ?s q)" for q using inv px by (auto simp: sched_inv_def ready_proc_def)
  have fl: "pr_flags (ready_proc x) =
      (if \<exists>q. pr_sleep x = WaitQueue q then pr_flags x OR PROC_FLAG_SLEEP_INT else pr_flags x)"
    by (auto simp: ready_proc_def split: sleep_owner.splits)
  show ?thesis
    by (intro exI [of _ ?s] exI [of _ "ready_proc x"] conjI make_process_ready_eval [OF assms(2)] inv c)
       (use q px m fl in \<open>auto simp: get_proc_def\<close>)
qed

theorem make_process_ready_once_witness:
  "\<exists>s'. make_process_ready 30 sched_example = Some s' \<and> sched_inv s' \<and> sc_ready s' = [60, 30] \<and>
     30 \<notin> set (sc_queues s' 200)"
proof -
  have g: "get_proc 30 sched_example = Some ((proc_example 3 0 3)\<lparr>pr_sleep := WaitQueue 200\<rparr>)"
    "sc_ready sched_example = [60]"
    by (simp_all add: sched_example_def get_proc_def)
  show ?thesis using make_process_ready_once [OF sched_example_invs(1) g(1)] unfolding g(2) by fastforce
qed

text \<open>
  Fact: \<open>wakeup_queue\<close> always returns; it empties the queue and no other, counts every
  process it found, and moves each process that is neither finished nor already ready to the
  ready queue exactly once, the last to sleep first; none of them is marked as interrupted.
\<close>

theorem wakeup_queue_wakes_all:
  assumes "sched_inv s"
  shows "\<exists>s'. wakeup_queue q s = Some (length (sc_queues s q), s') \<and> sched_inv s' \<and>
    sc_queues s' = (sc_queues s)(q := []) \<and>
    sc_ready s' = sc_ready s @ filter (wakes s) (rev (sc_queues s q)) \<and>
    (\<forall>p x. p \<in> set (sc_queues s q) \<and> sc_procs s p = Some x \<longrightarrow>
       (\<exists>y. sc_procs s' p = Some y \<and> pr_sleep y = NoQueue \<and> pr_flags y = pr_flags x \<and>
            (\<not> flag_set PROC_FLAG_FINISHED x \<longrightarrow> p \<in> set (sc_ready s'))))"
proof -
  note w = wakeup_queue_loop_spec [OF assms, of False q 0]
  have "\<exists>y. sc_procs (woken False q s) p = Some y \<and> pr_sleep y = NoQueue \<and> pr_flags y = pr_flags x \<and>
      (\<not> flag_set PROC_FLAG_FINISHED x \<longrightarrow> p \<in> set (sc_ready (woken False q s)))"
    if "p \<in> set (sc_queues s q)" "sc_procs s p = Some x" for p x
  proof -
    have y: "sc_procs (woken False q s) p = Some (woken_proc False x)" using that by (simp add: woken_def)
    have "\<not> flag_set PROC_FLAG_FINISHED x \<Longrightarrow> p \<in> set (sc_ready (woken False q s))"
      using w y by (simp add: sched_inv_def woken_proc_def)
    then show ?thesis using y by (simp add: woken_proc_def)
  qed
  moreover have "sc_queues (woken False q s) = (sc_queues s)(q := [])"
      "sc_ready (woken False q s) = sc_ready s @ filter (wakes s) (rev (sc_queues s q))"
    by (simp_all add: woken_def)
  ultimately show ?thesis using w by (simp add: wakeup_queue_def)
qed

theorem wakeup_queue_wakes_all_witness:
  "\<exists>s'. wakeup_queue 200 sched_example = Some (2, s') \<and> sched_inv s' \<and> sc_ready s' = [60, 40, 30]"
proof -
  have e: "sc_queues sched_example 200 = [30, 40]" "sc_ready sched_example = [60]"
      "wakes sched_example 30" "wakes sched_example 40"
    by (simp_all add: sched_example_def wakes_def flag_set_def proc_example_def)
  from wakeup_queue_wakes_all [OF sched_example_invs(1), of 200]
  show ?thesis unfolding e(1,2) using e(3,4) by auto
qed

text \<open>
  Fact: \<open>wakeup_sleepers\<close> terminates; it removes exactly the sleepers whose deadline has
  passed, makes each of their processes ready exactly once in the order of the deadlines, and
  keeps the queue invariants, so that no expired sleeper is left behind.
\<close>

theorem wakeup_sleepers_exact:
  assumes "sched_inv s" and "sleep_inv s"
  shows "\<exists>s'. wakeup_sleepers seconds subseconds s = Some s' \<and> sched_inv s' \<and> sleep_inv s' \<and>
    sc_sleepers s' = filter (\<lambda>sl. \<not> expired seconds subseconds sl) (sc_sleepers s) \<and>
    sc_ready s' = sc_ready s @ filter (\<lambda>p. p \<notin> set (sc_ready s))
      (map sl_process (filter (expired seconds subseconds) (sc_sleepers s)))"
proof -
  have "sorted_wrt due_before (sc_sleepers s)" using assms(2) by (simp add: sleep_inv_def)
  then show ?thesis
    using wakeup_sleepers_spec [OF assms, of seconds subseconds] by (simp add: expired_prefix)
qed

theorem wakeup_sleepers_exact_witness:
  "\<exists>s'. wakeup_sleepers 9 3 sched_example = Some s' \<and> sched_inv s' \<and> sc_sleepers s' = [] \<and>
     sc_ready s' = [60, 50, 80]"
proof -
  have e: "filter (\<lambda>sl. \<not> expired 9 3 sl) (sc_sleepers sched_example) = []"
      "map sl_process (filter (expired 9 3) (sc_sleepers sched_example)) = [50, 80]"
      "sc_ready sched_example = [60]"
    by (simp_all add: sched_example_def expired_def)
  from wakeup_sleepers_exact [OF sched_example_invs, of 9 3] show ?thesis unfolding e by auto
qed

text \<open>
  Fact: \<open>sleep_until\<close> on the running process puts it into the sleep queue behind every
  sleeper with the same or an earlier deadline and before the later ones, and keeps the
  invariants that \<open>wakeup_sleepers\<close> relies on.
\<close>

theorem sleep_until_ordered:
  assumes "sched_inv s" and "sleep_inv s" and "get_proc (sc_current s) s = Some x" and "pr_sleep x = NoQueue"
    and "sc_current s \<in> set (sc_list s)" and "node \<noteq> NULL" and "node \<notin> sl_node ` set (sc_sleepers s)"
    and "sc_current s \<notin> sl_process ` set (sc_sleepers s)"
  shows "\<exists>s' us sl vs. sleep_until node addr (sc_current s) seconds subseconds s = Some s' \<and>
    sched_inv s' \<and> sleep_inv s' \<and> sc_ready s' = sc_ready s \<and>
    sc_sleepers s = us @ vs \<and> sc_sleepers s' = us @ sl # vs \<and>
    sl_process sl = sc_current s \<and> sl_tick sl = seconds \<and> sl_subtick sl = subseconds \<and>
    (\<forall>c \<in> set us. \<not> later seconds subseconds c) \<and> (vs \<noteq> [] \<longrightarrow> later seconds subseconds (hd vs))"
proof -
  let ?sl = "\<lparr>sl_node = node, sl_addr = addr, sl_tick = seconds, sl_subtick = subseconds,
    sl_process = sc_current s, sl_is_fswait = 0\<rparr>"
  let ?P = "\<lambda>c. \<not> later seconds subseconds c"
  obtain s' where s': "sleep_until node addr (sc_current s) seconds subseconds s = Some s'" "sched_inv s'" "sleep_inv s'"
      "sc_sleepers s' = sleeper_insert ?sl (sc_sleepers s)" "sc_ready s' = sc_ready s"
    using sleep_until_spec [OF assms(1-3) refl assms(4-8)] by blast
  then show ?thesis
    by (intro exI [of _ s'], intro exI [of _ "takeWhile ?P (sc_sleepers s)"], intro exI [of _ ?sl],
        intro exI [of _ "dropWhile ?P (sc_sleepers s)"])
       (auto simp: sleeper_insert_split simp del: dropWhile_eq_Nil_conv dest: set_takeWhileD hd_dropWhile)
qed

theorem sleep_until_ordered_witness:
  "\<exists>s'. sleep_until 900 901 10 8 0 sched_example = Some s' \<and> sched_inv s' \<and> sleep_inv s' \<and>
     10 \<in> sl_process ` set (sc_sleepers s')"
proof -
  have e: "sc_current sched_example = 10" "get_proc 10 sched_example = Some (proc_example 1 8 1)"
      "pr_sleep (proc_example 1 8 1) = NoQueue" "10 \<in> set (sc_list sched_example)"
      "900 \<notin> sl_node ` set (sc_sleepers sched_example)" "10 \<notin> sl_process ` set (sc_sleepers sched_example)"
    by (simp_all add: sched_example_def get_proc_def proc_example_def)
  from sleep_until_ordered [OF sched_example_invs, of "proc_example 1 8 1" 900 901 8 0]
  show ?thesis unfolding e(1) using e by (auto simp: image_iff)
qed

text \<open>
  Property C28: the scheduling decision of \<open>switch_next\<close> terminates whenever the idle task is
  alive: it discards finished processes at the front of the ready queue, then runs the first
  remaining one, or the idle task when the queue is empty or that process still runs on
  another processor; the process it resumes is not finished and is marked as started.
\<close>

theorem switch_next_round_robin:
  assumes "sched_inv s" and "get_proc (sc_current s) s = Some c" and "runnable s (sc_idle s)"
  shows "\<exists>s' x. switch_next now now' s = Some s' \<and> sched_inv s' \<and>
    sc_current s' = (case dropWhile (\<lambda>p. \<not> runnable s p \<and> \<not> busy_elsewhere s p) (sc_ready s) of
       [] \<Rightarrow> sc_idle s | p # ps \<Rightarrow> if busy_elsewhere s p then sc_idle s else p) \<and>
    get_proc (sc_current s') s' = Some x \<and> \<not> flag_set PROC_FLAG_FINISHED x \<and> flag_set PROC_FLAG_STARTED x"
proof -
  have d: "(\<lambda>p. \<not> runnable s p \<and> \<not> busy_elsewhere s p) = discarded s" by (simp add: fun_eq_iff discarded_def)
  show ?thesis using switch_next_spec [OF assms, of now now'] unfolding d chosen_def [symmetric] by metis
qed

theorem switch_next_round_robin_witness:
  "\<exists>s'. switch_next 5 6 sched_example = Some s' \<and> sched_inv s' \<and> sc_current s' = 60"
proof -
  have e: "get_proc (sc_current sched_example) sched_example = Some (proc_example 1 8 1)"
      "runnable sched_example (sc_idle sched_example)" "sc_ready sched_example = [60]"
      "runnable sched_example 60" "\<not> busy_elsewhere sched_example 60"
    by (simp_all add: sched_example_def get_proc_def proc_example_def runnable_def busy_elsewhere_def flag_set_def)
  from switch_next_round_robin [OF sched_example_invs(1) e(1,2), of 5 6]
  show ?thesis unfolding e(3) using e(4,5) by auto
qed

text \<open>
  Property C30: \<open>waitpid\<close> with a finished child that matches and is the first to report returns
  that child's pid and exit status at once and removes it from the system: from the process
  list, from the memory and from the process tree, where its own children go to init.
\<close>

theorem waitpid_reaps_child:
  assumes "sched_inv s" and "tree_inv (sc_tree s)" and "distinct (sc_list s)"
    and "get_proc (sc_current s) s = Some P" and "pr_tracees P = None"
    and "tr_store (sc_tree s) (pr_tree_entry P) = Some E"
    and "\<forall>k \<in> set (tn_children E). child_proc s k \<noteq> None"
    and "List.find (reportable P pid options s) (tn_children E) = Some c"
    and "tr_store (sc_tree s) c = Some C" and "get_proc (tn_value C) s = Some x" and "pr_tree_entry x = c"
    and "flag_set PROC_FLAG_FINISHED x" and "\<not> pr_sched x" and "pr_sleep x = NoQueue"
    and "tn_value C \<noteq> sc_current s" and "tn_value C \<in> set (sc_list s)"
    and "get_proc (tn_val (sc_tree s) (tr_root (sc_tree s))) s \<noteq> None"
    and "\<not> used_elsewhere cores (sc_cpu s) (tn_value C)"
  shows "\<exists>s'. waitpid cores pid options env s = Some (Reported (pr_id x) (pr_status x), s') \<and>
    sched_inv s' \<and> get_proc (tn_value C) s' = None \<and> sc_list s' = remove1 (tn_value C) (sc_list s) \<and>
    tree_inv (sc_tree s') \<and> tree_remove_reparent_root c (sc_tree s) = Some (sc_tree s')"
proof -
  have gE: "get_tn (pr_tree_entry P) (sc_tree s) = Some E" by (rule tree_inv_node(2) [OF assms(2,6)])
  have cE: "c \<in> set (tn_children E)" and rc: "reportable P pid options s c"
    using assms(8) by (auto simp: find_Some_iff)
  have gC: "get_tn c (sc_tree s) = Some C" by (rule tree_inv_node(2) [OF assms(2,9)])
  have m: "list_ex (matches P pid options s) (tn_children E)"
    using cE rc by (auto simp: list_ex_iff matches_def reportable_def split: option.splits)
  have v: "tn_val (sc_tree s) c = tn_value C" using assms(9) by (simp add: tn_val_def)
  have "waitpid cores pid options env s = wait_report cores (sc_current s) True (tn_value C) s"
    using waitpid_pass [OF assms(4) gE _ assms(5), of cores pid options env] assms(7,8) m v by simp
  moreover have "c \<noteq> tr_root (sc_tree s)"
    using tree_inv_node(4) [OF assms(2,6) cE] tree_inv_node(1) [OF assms(2,6)] tree_inv_node(6) [OF assms(2,9)] assms(9)
    by auto
  then have e: "pr_tree_entry x \<noteq> tr_root (sc_tree s)" "tr_store (sc_tree s) (pr_tree_entry x) = Some C"
    using assms(9,11) by simp_all
  ultimately show ?thesis
    using wait_report_finished [OF assms(1,2,15,10,4,12-14) e assms(16,3,17,18)] assms(11)
    by (auto simp: get_proc_def)
qed

theorem waitpid_reaps_child_witness:
  "\<exists>s'. waitpid [(10, 10)] 2 0 [] sched_example = Some (Reported 2 0x100, s') \<and> sched_inv s' \<and>
     get_proc 20 s' = None"
proof -
  let ?x = "proc_example 2 2 2" and ?P = "proc_example 1 8 1"
  let ?E = "\<lparr>tn_value = 10, tn_children = [2, 3], tn_parent = 0\<rparr>"
  let ?C = "\<lparr>tn_value = 20, tn_children = [4, 5], tn_parent = 1\<rparr>"
  have e: "sc_tree sched_example = tree_example" "sc_current sched_example = 10" "sc_cpu sched_example = 0"
      "get_proc 10 sched_example = Some ?P" "get_proc 20 sched_example = Some ?x"
      "distinct (sc_list sched_example)" "20 \<in> set (sc_list sched_example)"
      "\<forall>k \<in> set (tn_children ?E). child_proc sched_example k \<noteq> None"
      "child_proc sched_example 2 = Some ?x"
    by (simp_all add: sched_example_def get_proc_def child_proc_def tree_example_def get_tn_def)
  have t: "tr_store tree_example (pr_tree_entry ?P) = Some ?E" "tr_store tree_example 2 = Some ?C"
      "tn_val tree_example (tr_root tree_example) = 10"
    by (simp_all add: tree_example_def proc_example_def tn_val_def)
  have x: "pr_tracees ?P = None" "pr_tree_entry ?x = 2" "flag_set PROC_FLAG_FINISHED ?x" "\<not> pr_sched ?x"
      "pr_sleep ?x = NoQueue" "pr_id ?x = 2" "pr_status ?x = 0x100" "wait_candidate ?P 2 0 ?x"
    by (simp_all add: proc_example_def flag_set_def PROC_FLAG_FINISHED_def wait_candidate_def)
  have f: "List.find (reportable ?P 2 0 sched_example) (tn_children ?E) = Some 2"
    using e(9) x(3,8) by (simp add: reportable_def)
  have u: "\<not> used_elsewhere [(10, 10)] 0 20" by (simp add: used_elsewhere_def)
  show ?thesis
    using waitpid_reaps_child [where s = sched_example and P = ?P and E = ?E and C = ?C and c = 2 and x = ?x
        and pid = 2 and options = 0 and cores = "[(10, 10)]" and env = "[]", OF sched_example_invs(1)]
      e t x f u tree_example_inv by auto
qed

text \<open>
  Fact: when no child matches, \<open>waitpid\<close> fails with \<open>ECHILD\<close>; when children match but none
  can be reported, \<open>WNOHANG\<close> makes it return zero; in both cases nothing changes.
\<close>

theorem waitpid_nothing_to_report:
  assumes "tree_inv (sc_tree s)" and "get_proc (sc_current s) s = Some P" and "pr_tracees P = None"
    and "tr_store (sc_tree s) (pr_tree_entry P) = Some E"
    and "\<forall>k \<in> set (tn_children E). child_proc s k \<noteq> None"
    and "\<forall>k \<in> set (tn_children E). \<not> reportable P pid options s k"
  shows "((\<forall>k \<in> set (tn_children E). \<not> matches P pid options s k) \<longrightarrow>
      waitpid cores pid options env s = Some (WaitError (-10), s)) \<and>
    ((\<exists>k \<in> set (tn_children E). matches P pid options s k) \<and> options AND WNOHANG \<noteq> 0 \<longrightarrow>
      waitpid cores pid options env s = Some (NoneYet, s))"
proof -
  have gE: "get_tn (pr_tree_entry P) (sc_tree s) = Some E" by (rule tree_inv_node(2) [OF assms(1,4)])
  have "List.find (reportable P pid options s) (tn_children E) = None"
    using assms(6) by (simp add: find_None_iff)
  with waitpid_pass [OF assms(2) gE _ assms(3), of cores pid options env] assms(5)
  show ?thesis by (auto simp: list_ex_iff)
qed

theorem waitpid_nothing_to_report_witness:
  "waitpid [(10, 10)] 99 0 [] sched_example = Some (WaitError (-10), sched_example) \<and>
   waitpid [(10, 10)] 3 1 [] sched_example = Some (NoneYet, sched_example)"
proof -
  let ?P = "proc_example 1 8 1"
  let ?E = "\<lparr>tn_value = 10, tn_children = [2, 3], tn_parent = 0\<rparr>"
  have e: "sc_tree sched_example = tree_example" "sc_current sched_example = 10"
      "get_proc 10 sched_example = Some ?P" "pr_tracees ?P = None"
      "tr_store tree_example (pr_tree_entry ?P) = Some ?E"
    by (simp_all add: sched_example_def get_proc_def tree_example_def proc_example_def)
  have k: "child_proc sched_example 2 = Some (proc_example 2 2 2)"
      "child_proc sched_example 3 = Some ((proc_example 3 0 3)\<lparr>pr_sleep := WaitQueue 200\<rparr>)"
    by (simp_all add: sched_example_def get_proc_def child_proc_def tree_example_def get_tn_def)
  have m: "\<not> matches ?P 99 0 sched_example 2" "\<not> matches ?P 99 0 sched_example 3"
      "\<not> reportable ?P 99 0 sched_example 2" "\<not> reportable ?P 99 0 sched_example 3"
      "matches ?P 3 1 sched_example 3" "\<not> reportable ?P 3 1 sched_example 2" "\<not> reportable ?P 3 1 sched_example 3"
    by (simp_all add: matches_def reportable_def k wait_candidate_def proc_example_def flag_set_def
        PROC_FLAG_FINISHED_def wait_stopped_def PROC_FLAG_SUSPENDED_def WNOKERN_def)
  note w = waitpid_nothing_to_report [where s = sched_example and P = ?P and E = ?E and cores = "[(10, 10)]" and env = "[]"]
  have "(1 :: u32) AND WNOHANG \<noteq> 0" by (simp add: WNOHANG_def)
  then show ?thesis
    using w [where pid = 99 and options = 0] w [where pid = 3 and options = 1] e k m tree_example_inv by auto
qed

end
