(* ===== verification/Signals.thy ===== *)
theory Signals
  imports Scheduler
begin

text \<open>
  Signals, \<open>kernel/sys/signal.c\<close>, with \<open>ptrace_signal\<close> of \<open>kernel/sys/ptrace.c\<close>: sending to one
  process and to a job, delivery on the way back to user space, restarting of interrupted
  system calls and waiting for signals.

  The fields of \<open>process_t\<close> that only signals use are a second record beside the scheduler's,
  at the same address.  A list \<open>env\<close> gives what the other processes do during each
  \<open>switch_task(0)\<close> of the caller, the list ending where the caller is not resumed again.  The
  user registers are the one that holds the number and the result of a system call;
  \<open>syscall_handler\<close> is a parameter, and so is the architecture's restore of user context.
\<close>

section \<open>State\<close>

definition NUMSIGNALS :: int where "NUMSIGNALS = 38"
definition SIGKILL :: nat where "SIGKILL = 9"
definition SIGCHLD :: nat where "SIGCHLD = 18"
definition SIGSTOP :: nat where "SIGSTOP = 23"
definition SIGCONT :: nat where "SIGCONT = 25"
definition SA_RESETHAND :: u32 where "SA_RESETHAND = 8"
definition SA_RESTART :: u32 where "SA_RESTART = 16"
definition PROC_FLAG_TRACE_SIGNALS :: u32 where "PROC_FLAG_TRACE_SIGNALS = 0x80"
definition PROC_FLAG_RESTORE_SIGMASK :: u32 where "PROC_FLAG_RESTORE_SIGMASK = 0x100"

datatype sig_disp = Ign | Term | Core | Stop | Cont

definition sig_defaults :: "sig_disp list" where
  "sig_defaults =
     [Ign, Term, Term, Core, Core, Core, Core, Core, Core, Term,
      Core, Core, Core, Term, Term, Term, Term, Term, Ign, Ign,
      Ign, Ign, Ign, Stop, Stop, Cont, Stop, Stop, Term, Term,
      Core, Core, Ign, Term, Ign, Ign, Ign, Stop]"

record signal_config =
  cf_handler :: u64
  cf_mask :: u64
  cf_flags :: u32

record sigs =
  sg_user :: int
  sg_session :: int
  sg_tracer :: int
  sg_signals :: "signal_config list"
  sg_blocked :: u64
  sg_pending :: u64
  sg_awaited :: u64
  sg_restored :: u64
  sg_interrupted :: u64

record sstate =
  ss_sched :: sched
  ss_sigs :: "ptr \<rightharpoonup> sigs"

type_synonym senv = "(sstate \<Rightarrow> sstate) list"

definition get_sigs :: "ptr \<Rightarrow> sstate \<Rightarrow> sigs option" where
  "get_sigs p s = (if p = NULL then None else ss_sigs s p)"

definition set_sigs :: "ptr \<Rightarrow> (sigs \<Rightarrow> sigs) \<Rightarrow> sstate \<Rightarrow> sstate option" where
  "set_sigs p f s =
     (case get_sigs p s of None \<Rightarrow> None
      | Some x \<Rightarrow> Some (s\<lparr>ss_sigs := (ss_sigs s)(p \<mapsto> f x)\<rparr>))"

definition on_sched :: "(sched \<Rightarrow> sched option) \<Rightarrow> sstate \<Rightarrow> sstate option" where
  "on_sched f s = map_option (\<lambda>c. s\<lparr>ss_sched := c\<rparr>) (f (ss_sched s))"

abbreviation self :: "sstate \<Rightarrow> ptr" where
  "self s \<equiv> sc_current (ss_sched s)"

text \<open>The caller is resumed after the others acted.\<close>

definition resume :: "ptr \<Rightarrow> sstate \<Rightarrow> sstate" where
  "resume me s = s\<lparr>ss_sched := (ss_sched s)\<lparr>sc_current := me\<rparr>\<rparr>"

definition shift_signal :: "nat \<Rightarrow> u64" where
  "shift_signal signum = push_bit signum 1"

definition deliverable :: "sigs \<Rightarrow> u64" where
  "deliverable g = sg_pending g AND (NOT (sg_blocked g) OR shift_signal SIGSTOP OR shift_signal SIGKILL)"

definition PENDING :: "sstate \<Rightarrow> bool option" where
  "PENDING s = map_option (\<lambda>g. deliverable g \<noteq> 0) (get_sigs (self s) s)"


section \<open>Sending\<close>

text \<open>
  \<open>int awaited\<close> keeps the low 32 bits of the 64-bit set.
\<close>

definition send_awaited :: "sigs \<Rightarrow> nat \<Rightarrow> bool" where
  "send_awaited g signum \<longleftrightarrow> (ucast (sg_awaited g AND shift_signal signum) :: u32) \<noteq> 0"

definition send_ignored :: "sigs \<Rightarrow> nat \<Rightarrow> bool" where
  "send_ignored g signum \<longleftrightarrow> cf_handler (sg_signals g ! signum) = 0 \<and> sig_defaults ! signum = Ign"

definition send_blocked :: "sigs \<Rightarrow> nat \<Rightarrow> bool" where
  "send_blocked g signum \<longleftrightarrow>
     sg_blocked g AND shift_signal signum \<noteq> 0 \<and> signum \<noteq> SIGKILL \<and> signum \<noteq> SIGSTOP"

text \<open>The part of \<open>send_signal\<close> after the checks.\<close>

definition post_signal :: "ptr \<Rightarrow> nat \<Rightarrow> sstate \<Rightarrow> sstate option" where
  "post_signal receiver signum s = do {
     g \<leftarrow> get_sigs receiver s;
     x \<leftarrow> get_proc receiver (ss_sched s);
     let awaited = send_awaited g signum;
     let ignored = send_ignored g signum;
     let blocked = send_blocked g signum;
     s \<leftarrow> (if sig_defaults ! signum = Cont \<and> flag_set PROC_FLAG_SUSPENDED x
          then on_sched (set_proc receiver (\<lambda>x. x\<lparr>pr_flags := pr_flags x AND NOT PROC_FLAG_SUSPENDED,
                                                  pr_status := 0\<rparr>)) s
          else Some s);
     if \<not> awaited \<and> \<not> blocked \<and> ignored then Some s
     else do {
       s \<leftarrow> set_sigs receiver (\<lambda>g. g\<lparr>sg_pending := sg_pending g OR shift_signal signum\<rparr>) s;
       if blocked \<and> \<not> awaited then Some s
       else do {
         s \<leftarrow> on_sched (process_awaken_signal receiver) s;
         x \<leftarrow> get_proc receiver (ss_sched s);
         if receiver \<noteq> self s \<and> \<not> process_is_ready x
         then on_sched (make_process_ready receiver) s
         else Some s
       }
     }
   }"

definition send_signal :: "int \<Rightarrow> int \<Rightarrow> bool \<Rightarrow> sstate \<Rightarrow> (int \<times> sstate) option" where
  "send_signal process signum force_root s = do {
     receiver \<leftarrow> process_from_pid process (ss_sched s);
     if receiver = NULL then Some (-3, s)
     else do {
       g \<leftarrow> get_sigs receiver s;
       x \<leftarrow> get_proc receiver (ss_sched s);
       me \<leftarrow> get_sigs (self s) s;
       if \<not> force_root \<and> sg_user g \<noteq> sg_user me \<and> sg_user me \<noteq> 0 \<and>
          \<not> (signum = int SIGCONT \<and> sg_session g = sg_session me) then Some (-1, s)
       else if flag_set PROC_FLAG_IS_TASKLET x then Some (-1, s)
       else if signum \<ge> NUMSIGNALS \<or> signum < 0 then Some (-22, s)
       else if flag_set PROC_FLAG_FINISHED x then Some (-3, s)
       else if signum = 0 then Some (0, s)
       else do {
         s \<leftarrow> post_signal receiver (nat signum) s;
         Some (0, s)
       }
     }
   }"

text \<open>The loop of \<open>group_send_signal\<close>: whether the sender is in the job, and whether a signal was sent.\<close>

fun group_send_loop :: "int \<Rightarrow> int \<Rightarrow> bool \<Rightarrow> ptr list \<Rightarrow> bool \<Rightarrow> bool \<Rightarrow> sstate \<Rightarrow> (bool \<times> bool \<times> sstate) option" where
  "group_send_loop job signum force_root [] kill_self killed s = Some (kill_self, killed, s)"
| "group_send_loop job signum force_root (p # ps) kill_self killed s = do {
     x \<leftarrow> get_proc p (ss_sched s);
     c \<leftarrow> get_proc (self s) (ss_sched s);
     if pr_group x = pr_id x \<and> pr_job x = job then
       if pr_group x = pr_group c then group_send_loop job signum force_root ps True killed s
       else do {
         (r, s) \<leftarrow> send_signal (pr_group x) signum force_root s;
         group_send_loop job signum force_root ps kill_self (killed \<or> r = 0) s
       }
     else group_send_loop job signum force_root ps kill_self killed s
   }"

definition group_send_signal :: "int \<Rightarrow> int \<Rightarrow> bool \<Rightarrow> sstate \<Rightarrow> (int \<times> sstate) option" where
  "group_send_signal job signum force_root s =
     (if signum \<ge> NUMSIGNALS \<or> signum < 0 then Some (-22, s)
      else do {
        (kill_self, killed, s) \<leftarrow> group_send_loop job signum force_root (sc_list (ss_sched s)) False False s;
        (killed, s) \<leftarrow>
          (if kill_self then do {
             c \<leftarrow> get_proc (self s) (ss_sched s);
             (r, s) \<leftarrow> send_signal (pr_group c) signum force_root s;
             Some (killed \<or> r = 0, s)
           } else Some (killed, s));
        Some (if killed then 0 else -3, s)
      })"


section \<open>Delivery\<close>

type_synonym handler = "u64 \<Rightarrow> sstate \<Rightarrow> u64 \<times> sstate"

definition maybe_restart_system_call :: "handler \<Rightarrow> int \<Rightarrow> bool \<Rightarrow> u64 \<Rightarrow> sstate \<Rightarrow> (u64 \<times> sstate) option" where
  "maybe_restart_system_call syscall_handler signum no_handler rax s =
     (if signum < 0 \<or> signum \<ge> NUMSIGNALS then Some (rax, s)
      else do {
        let me = self s;
        g \<leftarrow> get_sigs me s;
        if sg_interrupted g \<noteq> 0 \<and> rax = -512 then
          if sig_defaults ! nat signum = Cont \<or> cf_flags (sg_signals g ! nat signum) AND SA_RESTART \<noteq> 0 then do {
            s \<leftarrow> set_sigs me (\<lambda>g. g\<lparr>sg_interrupted := 0\<rparr>) s;
            Some (syscall_handler (sg_interrupted g) s)
          } else do {
            s \<leftarrow> set_sigs me (\<lambda>g. g\<lparr>sg_interrupted := 0\<rparr>) s;
            Some (-4, s)
          }
        else if sg_interrupted g \<noteq> 0 \<and> rax = -511 then do {
          s \<leftarrow> set_sigs me (\<lambda>g. g\<lparr>sg_interrupted := 0\<rparr>) s;
          let (rax, s) = (if no_handler then syscall_handler (sg_interrupted g) s else (-4, s));
          x \<leftarrow> get_proc me (ss_sched s);
          if flag_set PROC_FLAG_RESTORE_SIGMASK x then do {
            s \<leftarrow> on_sched (set_proc me (\<lambda>x. x\<lparr>pr_flags := pr_flags x AND NOT PROC_FLAG_RESTORE_SIGMASK\<rparr>)) s;
            s \<leftarrow> set_sigs me (\<lambda>g. g\<lparr>sg_blocked := sg_restored g\<rparr>) s;
            Some (rax, s)
          } else Some (rax, s)
        } else Some (rax, s)
      })"

definition ptrace_signal :: "int \<Rightarrow> int \<Rightarrow> (sstate \<Rightarrow> sstate) \<Rightarrow> sstate \<Rightarrow> (int \<times> sstate) option" where
  "ptrace_signal signum reason act s = do {
     let me = self s;
     s \<leftarrow> on_sched (set_proc me (\<lambda>x. x\<lparr>pr_status :=
            0x7F OR push_bit 8 (word_of_int signum) OR push_bit 16 (word_of_int reason)\<rparr>)) s;
     s \<leftarrow> on_sched (set_proc me (\<lambda>x. x\<lparr>pr_flags := pr_flags x OR PROC_FLAG_SUSPENDED\<rparr>)) s;
     g \<leftarrow> get_sigs me s;
     parent \<leftarrow> process_from_pid (sg_tracer g) (ss_sched s);
     s \<leftarrow> (if parent \<noteq> NULL then do {
            p \<leftarrow> get_proc parent (ss_sched s);
            if \<not> flag_set PROC_FLAG_FINISHED p
            then on_sched (\<lambda>c. map_option snd (wakeup_queue (pr_wait_queue p) c)) s
            else Some s
          } else Some s);
     let s = resume me (act s);
     x \<leftarrow> get_proc me (ss_sched s);
     s \<leftarrow> on_sched (set_proc me (\<lambda>x. x\<lparr>pr_status := 0\<rparr>)) s;
     Some (sint (signed_drop_bit 8 (pr_status x)), s)
   }"

text \<open>
  The outcomes of a delivery: the process ends, user space is entered in a handler, or the
  function returns; a stopped process that is never continued does none of these.
\<close>

datatype outcome = Exits "32 word" | Enters u64 int | Returned bool u64 | Stopped

text \<open>\<open>do switch_task(0); while (!PENDING);\<close>\<close>

fun wait_pending :: "senv \<Rightarrow> sstate \<Rightarrow> (bool \<times> senv \<times> sstate) option" where
  "wait_pending [] s = Some (False, [], s)"
| "wait_pending (act # env) s = do {
     let s = resume (self s) (act s);
     b \<leftarrow> PENDING s;
     if b then Some (True, env, s) else wait_pending env s
   }"

definition stop_self :: "int \<Rightarrow> sstate \<Rightarrow> sstate option" where
  "stop_self signum s = do {
     let me = self s;
     s \<leftarrow> on_sched (set_proc me (\<lambda>x. x\<lparr>pr_flags := pr_flags x OR PROC_FLAG_SUSPENDED\<rparr>)) s;
     s \<leftarrow> on_sched (set_proc me (\<lambda>x. x\<lparr>pr_status := 0x7F OR push_bit 8 (word_of_int signum) OR 0xFF0000\<rparr>)) s;
     parent \<leftarrow> process_get_parent me (ss_sched s);
     if parent \<noteq> NULL then do {
       p \<leftarrow> get_proc parent (ss_sched s);
       if \<not> flag_set PROC_FLAG_FINISHED p
       then on_sched (\<lambda>c. map_option snd (wakeup_queue (pr_wait_queue p) c)) s
       else Some s
     } else Some s
   }"

definition ignore_signal :: "handler \<Rightarrow> int \<Rightarrow> u64 \<Rightarrow> senv \<Rightarrow> sstate \<Rightarrow> (outcome \<times> senv \<times> sstate) option" where
  "ignore_signal syscall_handler signum rax env s = do {
     (rax, s) \<leftarrow> maybe_restart_system_call syscall_handler signum True rax s;
     b \<leftarrow> PENDING s;
     Some (Returned (\<not> b) rax, env, s)
   }"

definition act_on_signal :: "handler \<Rightarrow> signal_config \<Rightarrow> int \<Rightarrow> u64 \<Rightarrow> senv \<Rightarrow> sstate \<Rightarrow>
    (outcome \<times> senv \<times> sstate) option" where
  "act_on_signal syscall_handler config signum rax env s = do {
     x \<leftarrow> get_proc (self s) (ss_sched s);
     if flag_set PROC_FLAG_FINISHED x then Some (Returned True rax, env, s)
     else if signum = 0 \<or> signum \<ge> NUMSIGNALS then ignore_signal syscall_handler signum rax env s
     else if signum < 0 then None
     else if cf_handler config = 0 then
       (case sig_defaults ! nat signum of
          Stop \<Rightarrow> do {
            s \<leftarrow> stop_self signum s;
            (resumed, env, s) \<leftarrow> wait_pending env s;
            Some (if resumed then Returned False rax else Stopped, env, s)
          }
        | Cont \<Rightarrow> ignore_signal syscall_handler signum rax env s
        | Ign \<Rightarrow> ignore_signal syscall_handler signum rax env s
        | _ \<Rightarrow> Some (Exits (push_bit 8 (128 + word_of_int signum) OR word_of_int signum), env, s))
     else if cf_handler config = 1 then ignore_signal syscall_handler signum rax env s
     else do {
       s \<leftarrow> (if cf_flags config AND SA_RESETHAND \<noteq> 0
            then set_sigs (self s) (\<lambda>g. g\<lparr>sg_signals := (sg_signals g)[nat signum :=
                   (sg_signals g ! nat signum)\<lparr>cf_handler := 0\<rparr>]\<rparr>) s
            else Some s);
       Some (Enters (cf_handler config) signum, env, s)
     }
   }"

definition handle_signal :: "handler \<Rightarrow> nat \<Rightarrow> u64 \<Rightarrow> senv \<Rightarrow> sstate \<Rightarrow> (outcome \<times> senv \<times> sstate) option" where
  "handle_signal syscall_handler signum rax env s = do {
     g \<leftarrow> get_sigs (self s) s;
     x \<leftarrow> get_proc (self s) (ss_sched s);
     if signum \<ge> length (sg_signals g) then None
     else if flag_set PROC_FLAG_TRACE_SIGNALS x then
       (case env of
          [] \<Rightarrow> Some (Stopped, [], s)
        | act # env' \<Rightarrow> do {
            (n, s) \<leftarrow> ptrace_signal (int signum) 0 act s;
            act_on_signal syscall_handler (sg_signals g ! signum) n rax env' s
          })
     else act_on_signal syscall_handler (sg_signals g ! signum) (int signum) rax env s
   }"

text \<open>The search for the lowest signal of a set, from signal \<open>n\<close> on.\<close>

function lowest_signal :: "u64 \<Rightarrow> nat \<Rightarrow> nat option" where
  "lowest_signal w n =
     (if w = 0 \<or> int n \<ge> NUMSIGNALS then None
      else if w AND 1 \<noteq> 0 then Some n
      else lowest_signal (drop_bit 1 w) (n + 1))"
  by auto
termination
  by (relation "measure (\<lambda>(w, n). nat NUMSIGNALS - n)") (auto simp: NUMSIGNALS_def)

declare lowest_signal.simps [simp del]

text \<open>A zero result of \<open>handle_signal\<close> asks for another look at the pending signals.\<close>

fun more :: "outcome \<Rightarrow> u64 option" where
  "more (Returned b rax) = (if b then None else Some rax)"
| "more _ = None"

partial_function (option) process_check_signals :: "handler \<Rightarrow> u64 \<Rightarrow> senv \<Rightarrow> sstate \<Rightarrow>
    (outcome \<times> senv \<times> sstate) option" where
  "process_check_signals syscall_handler rax env s =
     (if self s = NULL then Some (Returned True rax, env, s)
      else case get_proc (self s) (ss_sched s) of None \<Rightarrow> None
      | Some x \<Rightarrow>
          if flag_set PROC_FLAG_FINISHED x then Some (Returned True rax, env, s)
          else case get_sigs (self s) s of None \<Rightarrow> None
          | Some g \<Rightarrow>
              (case lowest_signal (deliverable g) 0 of
                 None \<Rightarrow> Some (Returned True rax, env, s)
               | Some n \<Rightarrow>
                   (case set_sigs (self s) (\<lambda>g. g\<lparr>sg_pending := sg_pending g AND NOT (shift_signal n)\<rparr>) s of
                      None \<Rightarrow> None
                    | Some s \<Rightarrow>
                        (case handle_signal syscall_handler n rax env s of None \<Rightarrow> None
                         | Some (r, env, s) \<Rightarrow>
                             (case more r of
                                None \<Rightarrow> Some (r, env, s)
                              | Some rax \<Rightarrow> process_check_signals syscall_handler rax env s)))))"

text \<open>\<open>restore\<close> is the architecture's restore of the context before the signal: it gives the signal number.\<close>

definition return_from_signal_handler :: "(sstate \<Rightarrow> int \<times> u64 \<times> sstate) \<Rightarrow> handler \<Rightarrow> senv \<Rightarrow> sstate \<Rightarrow>
    (outcome \<times> senv \<times> sstate) option" where
  "return_from_signal_handler restore syscall_handler env s = do {
     let (signum, rax, s) = restore s;
     b \<leftarrow> PENDING s;
     r \<leftarrow> (if b then process_check_signals syscall_handler rax env s
          else Some (Returned True rax, env, s));
     (case r of
        (Returned _ rax, env, s) \<Rightarrow> do {
          (rax, s) \<leftarrow> maybe_restart_system_call syscall_handler signum False rax s;
          Some (Returned True rax, env, s)
        }
      | _ \<Rightarrow> Some r)
   }"


section \<open>Waiting for signals\<close>

datatype await = Awaited nat | Interrupted | Asleep

fun signal_await :: "u64 \<Rightarrow> senv \<Rightarrow> sstate \<Rightarrow> (await \<times> sstate) option" where
  "signal_await awaited env s = do {
     let me = self s;
     g \<leftarrow> get_sigs me s;
     case lowest_signal (awaited AND sg_pending g) 0 of
       Some n \<Rightarrow> do {
         s \<leftarrow> set_sigs me (\<lambda>g. g\<lparr>sg_pending := sg_pending g AND NOT (shift_signal n)\<rparr>) s;
         Some (Awaited n, s)
       }
     | None \<Rightarrow> do {
         s \<leftarrow> set_sigs me (\<lambda>g. g\<lparr>sg_awaited := awaited\<rparr>) s;
         case env of
           [] \<Rightarrow> Some (Asleep, s)
         | act # env' \<Rightarrow> do {
             let s = resume me (act s);
             s \<leftarrow> set_sigs me (\<lambda>g. g\<lparr>sg_awaited := 0\<rparr>) s;
             b \<leftarrow> PENDING s;
             if b then Some (Interrupted, s) else signal_await awaited env' s
           }
       }
   }"

declare signal_await.simps [simp del]

fun signal_wait :: "senv \<Rightarrow> sstate \<Rightarrow> (bool \<times> sstate) option" where
  "signal_wait env s = do {
     b \<leftarrow> PENDING s;
     if b then Some (True, s)
     else case env of [] \<Rightarrow> Some (False, s) | act # env' \<Rightarrow> signal_wait env' (resume (self s) (act s))
   }"


section \<open>Signal sets\<close>

lemma bit_shift_signal: "bit (shift_signal n) m \<longleftrightarrow> m = n \<and> n < 64"
  by (auto simp: shift_signal_def bit_simps)

lemma mask_shift_signal: "n < 64 \<Longrightarrow> (w AND shift_signal n \<noteq> 0) = bit w n"
proof -
  assume n: "n < 64"
  have "w AND shift_signal n = (if bit w n then shift_signal n else 0)"
    by (rule bit_word_eqI) (auto simp: bit_simps bit_shift_signal)
  moreover have "shift_signal n \<noteq> 0" using n bit_shift_signal [of n n] by (metis bit_0_eq bot_apply bot_bool_def)
  ultimately show ?thesis by auto
qed

lemma send_awaited_iff:
  assumes "n < 64"
  shows "send_awaited g n \<longleftrightarrow> n < 32 \<and> bit (sg_awaited g) n"
proof
  assume "send_awaited g n"
  then have "(ucast (sg_awaited g AND shift_signal n) :: u32) \<noteq> 0" by (simp add: send_awaited_def)
  then obtain k where "bit (ucast (sg_awaited g AND shift_signal n) :: u32) k"
    by (metis bit_eqI bit_0_eq bot_apply bot_bool_def)
  then show "n < 32 \<and> bit (sg_awaited g) n"
    by (auto simp: bit_simps bit_shift_signal)
next
  assume a: "n < 32 \<and> bit (sg_awaited g) n"
  then have "bit (ucast (sg_awaited g AND shift_signal n) :: u32) n"
    by (simp add: bit_simps bit_shift_signal)
  then show "send_awaited g n"
    unfolding send_awaited_def by (metis bit_0_eq bot_apply bot_bool_def)
qed

lemma send_blocked_iff:
  "n < 64 \<Longrightarrow> send_blocked g n \<longleftrightarrow> bit (sg_blocked g) n \<and> n \<noteq> SIGKILL \<and> n \<noteq> SIGSTOP"
  by (simp add: send_blocked_def mask_shift_signal)

lemma bit_deliverable:
  "bit (deliverable g) n \<longleftrightarrow> bit (sg_pending g) n \<and> (n = SIGKILL \<or> n = SIGSTOP \<or> \<not> bit (sg_blocked g) n)"
  using bit_imp_le_length [of "sg_pending g" n]
  by (auto simp: deliverable_def bit_simps bit_shift_signal SIGKILL_def SIGSTOP_def)

lemma lowest_signal_bits:
  "lowest_signal w n = Some m \<longleftrightarrow>
     n \<le> m \<and> m < 38 \<and> bit w (m - n) \<and> (\<forall>k < m - n. \<not> bit w k)"
proof (induction w n rule: lowest_signal.induct)
  case (1 w n)
  have odd: "w AND 1 \<noteq> 0 \<longleftrightarrow> bit w 0" by (simp add: bit_0 and_one_eq odd_iff_mod_2_eq_one)
  show ?case
  proof (cases "w = 0 \<or> 38 \<le> n")
    case True
    then show ?thesis by (subst lowest_signal.simps) (auto simp: NUMSIGNALS_def)
  next
    case False
    then have nz: "\<not> (w = 0 \<or> int n \<ge> NUMSIGNALS)" by (auto simp: NUMSIGNALS_def)
    show ?thesis
    proof (cases "bit w 0")
      case True
      then have "lowest_signal w n = Some n" using nz odd by (subst lowest_signal.simps) simp
      moreover have "n = m" if "n \<le> m" "\<forall>k < m - n. \<not> bit w k" using that True by (metis diff_is_0_eq le_antisym neq0_conv)
      ultimately show ?thesis using True False by auto
    next
      case b: False
      have IH: "lowest_signal (drop_bit 1 w) (n + 1) = Some m \<longleftrightarrow>
          n + 1 \<le> m \<and> m < 38 \<and> bit (drop_bit 1 w) (m - (n + 1)) \<and> (\<forall>k < m - (n + 1). \<not> bit (drop_bit 1 w) k)"
        using 1 nz b odd by simp
      have e: "lowest_signal w n = lowest_signal (drop_bit 1 w) (n + 1)"
        using nz b odd by (subst lowest_signal.simps) simp
      show ?thesis unfolding e IH
      proof (cases "n + 1 \<le> m")
        case True
        then obtain d where d: "m = n + 1 + d" using le_Suc_ex by blast
        show "(n + 1 \<le> m \<and> m < 38 \<and> bit (drop_bit 1 w) (m - (n + 1)) \<and> (\<forall>k < m - (n + 1). \<not> bit (drop_bit 1 w) k)) =
            (n \<le> m \<and> m < 38 \<and> bit w (m - n) \<and> (\<forall>k < m - n. \<not> bit w k))"
          unfolding d using b by (auto simp: bit_simps less_Suc_eq_0_disj)
      next
        case False
        then show "(n + 1 \<le> m \<and> m < 38 \<and> bit (drop_bit 1 w) (m - (n + 1)) \<and> (\<forall>k < m - (n + 1). \<not> bit (drop_bit 1 w) k)) =
            (n \<le> m \<and> m < 38 \<and> bit w (m - n) \<and> (\<forall>k < m - n. \<not> bit w k))"
          using b by (cases "m = n") auto
      qed
    qed
  qed
qed

lemmas lowest_signal_0 = lowest_signal_bits [of _ 0, simplified]

lemma lowest_signal_None: "lowest_signal w 0 = None \<longleftrightarrow> (\<forall>n < 38. \<not> bit w n)"
proof
  assume a: "lowest_signal w 0 = None"
  show "\<forall>n < 38. \<not> bit w n"
  proof (rule ccontr)
    assume "\<not> (\<forall>n < 38. \<not> bit w n)"
    then obtain n where "n < 38" "bit w n" by blast
    then have "\<exists>n. n < 38 \<and> bit w n \<and> (\<forall>k < n. \<not> bit w k)"
      using exists_least_iff [of "\<lambda>n. n < 38 \<and> bit w n"] by (meson less_trans)
    then show False using a lowest_signal_0 by (metis option.distinct(1))
  qed
next
  assume "\<forall>n < 38. \<not> bit w n"
  then show "lowest_signal w 0 = None"
    by (cases "lowest_signal w 0") (auto simp: lowest_signal_0)
qed


section \<open>Waking the receiver\<close>

lemma get_proc_sleeper_delete [simp]: "get_proc p (sleeper_delete n s) = get_proc p s"
  by (simp add: sleeper_delete_def)

lemma sched_inv_sleepers [simp]: "sched_inv (s\<lparr>sc_sleepers := sl\<rparr>) = sched_inv s"
  by (simp add: sched_inv_def)

lemma process_awaken_signal_spec:
  assumes inv: "sched_inv s" and x: "get_proc p s = Some x"
  obtains s' y where "process_awaken_signal p s = Some s'" and "sched_inv s'" and "get_proc p s' = Some y"
    and "sc_current s' = sc_current s"
    and "pr_node_waits y = None" and "pr_node_waits x \<noteq> None \<Longrightarrow> pr_awoken y = -4 \<and> pr_sched y"
    and "pr_node_waits x = None \<Longrightarrow> s' = s"
proof (cases "pr_node_waits x")
  case None
  then show thesis using that [of s x] inv x by (simp add: process_awaken_signal_def)
next
  case (Some ws)
  have p: "p \<noteq> NULL" "sc_procs s p = Some x" using x by (simp_all add: get_proc_Some)
  let ?x1 = "x\<lparr>pr_awoken := -4, pr_node_waits := None\<rparr>"
  let ?x2 = "?x1\<lparr>pr_timeout := NULL\<rparr>"
  define sl where "sl = (case List.find (\<lambda>sl. sl_node sl = pr_timeout x) (sc_sleepers s) of
      None \<Rightarrow> sc_sleepers s
    | Some sl \<Rightarrow> if pr_timeout x \<noteq> NULL \<and> sl_is_fswait sl \<noteq> -1
        then filter (\<lambda>sl. sl_node sl \<noteq> pr_timeout x) (sc_sleepers s) else sc_sleepers s)"
  let ?s2 = "s\<lparr>sc_sleepers := sl, sc_procs := (sc_procs s)(p \<mapsto> ?x2)\<rparr>"
  have g: "get_proc p ?s2 = Some ?x2" using p by (simp add: get_proc_def)
  have "sched_same ?x2 x" by (simp add: sched_same_def)
  moreover have "get_proc p (s\<lparr>sc_sleepers := sl\<rparr>) = Some x" using x by simp
  ultimately have inv2: "sched_inv ?s2"
    using sched_same_state(1) [of p "s\<lparr>sc_sleepers := sl\<rparr>" x ?x2] inv by simp
  define s3 where "s3 = (leave_queue p ?x2 ?s2)\<lparr>sc_procs := (sc_procs ?s2)(p \<mapsto> ready_proc ?x2),
      sc_ready := (if pr_sched ?x2 then sc_ready ?s2 else sc_ready ?s2 @ [p])\<rparr>"
  have "process_awaken_from_fswait p (-4) s = map_option (Pair 0) (make_process_ready p ?s2)"
    using p by (simp add: process_awaken_from_fswait_def set_proc_def get_proc_def Let_def map_option_case
        sl_def sleeper_delete_def split: option.splits)
  then have 1: "process_awaken_signal p s = Some s3"
    using x Some make_process_ready_eval [OF g] by (simp add: process_awaken_signal_def s3_def)
  have 2: "sched_inv s3" unfolding s3_def by (rule make_process_ready_inv [OF inv2 g])
  have 3: "get_proc p s3 = Some (ready_proc ?x2)" "sc_current s3 = sc_current s"
    using p by (simp_all add: get_proc_def s3_def)
  have 4: "pr_node_waits (ready_proc ?x2) = None"
      "pr_awoken (ready_proc ?x2) = -4 \<and> pr_sched (ready_proc ?x2)"
    by (simp_all add: ready_proc_def)
  show thesis by (rule that [OF 1 2 3 4]) (simp_all add: Some)
qed

text \<open>Posting a signal that is neither blocked nor ignored, to a process that is not being continued.\<close>

lemma post_signal_wakes:
  assumes inv: "sched_inv (ss_sched s)" and x: "get_proc p (ss_sched s) = Some x" and g: "get_sigs p s = Some g"
    and nb: "\<not> (send_blocked g n \<and> \<not> send_awaited g n)" "send_awaited g n \<or> send_blocked g n \<or> \<not> send_ignored g n"
  obtains s' y where "post_signal p n s = Some s'" and "sched_inv (ss_sched s')"
    and "ss_sigs s' = (ss_sigs s)(p \<mapsto> g\<lparr>sg_pending := sg_pending g OR shift_signal n\<rparr>)"
    and "get_proc p (ss_sched s') = Some y" and "pr_node_waits y = None"
    and "p \<noteq> self s \<Longrightarrow> p \<in> set (sc_ready (ss_sched s'))"
    and "pr_node_waits x \<noteq> None \<Longrightarrow> pr_awoken y = -4"
proof -
  have p: "p \<noteq> NULL" "sc_procs (ss_sched s) p = Some x" using x by (simp_all add: get_proc_Some)
  define cont where "cont \<longleftrightarrow> sig_defaults ! n = Cont \<and> flag_set PROC_FLAG_SUSPENDED x"
  define x1 where "x1 = (if cont then x\<lparr>pr_flags := pr_flags x AND NOT PROC_FLAG_SUSPENDED, pr_status := 0\<rparr> else x)"
  define c1 where "c1 = (if cont then (ss_sched s)\<lparr>sc_procs := (sc_procs (ss_sched s))(p \<mapsto> x1)\<rparr> else ss_sched s)"
  have g1: "get_proc p c1 = Some x1" using p x by (simp add: c1_def x1_def get_proc_def)
  have inv1: "sched_inv c1"
    using inv p unfolding c1_def x1_def sched_inv_def by (cases cont) auto
  have cur1: "sc_current c1 = self s" by (simp add: c1_def)
  let ?gs = "(ss_sigs s)(p \<mapsto> g\<lparr>sg_pending := sg_pending g OR shift_signal n\<rparr>)"
  obtain c2 y where c2: "process_awaken_signal p c1 = Some c2" "sched_inv c2" "get_proc p c2 = Some y"
      "sc_current c2 = sc_current c1" "pr_node_waits y = None"
      "pr_node_waits x1 \<noteq> None \<Longrightarrow> pr_awoken y = -4 \<and> pr_sched y"
    using process_awaken_signal_spec [OF inv1 g1] by metis
  have py: "p \<noteq> NULL" "sc_procs c2 p = Some y" using c2(3) by (simp_all add: get_proc_Some)
  have pn: "pr_node_waits x1 = pr_node_waits x" by (simp add: x1_def)
  have s1: "(if cont then on_sched (set_proc p (\<lambda>x. x\<lparr>pr_flags := pr_flags x AND NOT PROC_FLAG_SUSPENDED,
      pr_status := 0\<rparr>)) s else Some s) = Some (s\<lparr>ss_sched := c1\<rparr>)"
    using x by (simp add: on_sched_def set_proc_def c1_def x1_def)
  have step: "post_signal p n s =
      (if p \<noteq> self s \<and> \<not> process_is_ready y then on_sched (make_process_ready p) (s\<lparr>ss_sched := c2, ss_sigs := ?gs\<rparr>)
       else Some (s\<lparr>ss_sched := c2, ss_sigs := ?gs\<rparr>))"
    using g x s1 [unfolded cont_def] nb c2(1,3,4) cur1 p(1)
    by (auto simp: post_signal_def Let_def set_sigs_def get_sigs_def on_sched_def)
  show thesis
  proof (cases "p \<noteq> self s \<and> \<not> process_is_ready y")
    case True
    let ?c3 = "(leave_queue p y c2)\<lparr>sc_procs := (sc_procs c2)(p \<mapsto> ready_proc y),
            sc_ready := (if pr_sched y then sc_ready c2 else sc_ready c2 @ [p])\<rparr>"
    have inv3: "sched_inv ?c3" by (rule make_process_ready_inv [OF c2(2,3)])
    have r: "p \<in> set (sc_ready ?c3)" using inv3 by (auto simp: sched_inv_def ready_proc_def)
    have ps: "post_signal p n s = Some (s\<lparr>ss_sched := ?c3, ss_sigs := ?gs\<rparr>)"
      using step True make_process_ready_eval [OF c2(3)] by (simp add: on_sched_def)
    have gy: "get_proc p ?c3 = Some (ready_proc y)" using py by (simp add: get_proc_def)
    have w: "pr_node_waits (ready_proc y) = None" "pr_awoken (ready_proc y) = pr_awoken y"
      using c2(5) by (simp_all add: ready_proc_def)
    show thesis
      by (rule that [of "s\<lparr>ss_sched := ?c3, ss_sigs := ?gs\<rparr>" "ready_proc y"])
         (use ps inv3 r gy w c2(6) pn in simp_all)
  next
    case False
    then have "p \<noteq> self s \<Longrightarrow> p \<in> set (sc_ready c2)"
      using c2(2) py by (auto simp: process_is_ready_def sched_inv_def)
    then show thesis
      by (intro that [of "s\<lparr>ss_sched := c2, ss_sigs := ?gs\<rparr>" y]) (use False step c2 pn in auto)
  qed
qed

lemma post_signal_held:
  assumes x: "get_proc p (ss_sched s) = Some x" and g: "get_sigs p s = Some g"
    and b: "send_blocked g n" "\<not> send_awaited g n" and nc: "sig_defaults ! n \<noteq> Cont"
  shows "post_signal p n s = Some (s\<lparr>ss_sigs := (ss_sigs s)(p \<mapsto> g\<lparr>sg_pending := sg_pending g OR shift_signal n\<rparr>)\<rparr>)"
  using assms by (simp add: post_signal_def Let_def set_sigs_def)

text \<open>The checks of \<open>send_signal\<close> passed.\<close>

definition may_signal :: "sigs \<Rightarrow> sigs \<Rightarrow> proc \<Rightarrow> int \<Rightarrow> bool \<Rightarrow> bool" where
  "may_signal me g x signum force_root \<longleftrightarrow>
     (force_root \<or> sg_user g = sg_user me \<or> sg_user me = 0 \<or> (signum = 25 \<and> sg_session g = sg_session me)) \<and>
     \<not> flag_set PROC_FLAG_IS_TASKLET x \<and> \<not> flag_set PROC_FLAG_FINISHED x"

lemma send_signal_post:
  assumes "process_from_pid pid (ss_sched s) = Some p" and "p \<noteq> NULL" and "get_sigs p s = Some g"
    and "get_proc p (ss_sched s) = Some x" and "get_sigs (self s) s = Some me"
    and "may_signal me g x (int n) force_root" and "0 < n" and "n < 38"
  shows "send_signal pid (int n) force_root s = map_option (Pair 0) (post_signal p n s)"
  using assms by (auto simp: send_signal_def may_signal_def NUMSIGNALS_def SIGCONT_def map_option_case
      split: option.splits)

section \<open>Properties\<close>

text \<open>
  The processes of the scheduler's example: init, \<open>10\<close>, has \<open>SIGKILL\<close> pending and blocks every
  signal; \<open>30\<close> belongs to another user and blocks and awaits signal \<open>36\<close>.
\<close>

definition sigs_example :: sigs where
  "sigs_example = \<lparr>sg_user = 0, sg_session = 1, sg_tracer = 0,
     sg_signals = replicate 39 \<lparr>cf_handler = 0, cf_mask = 0, cf_flags = 0\<rparr>,
     sg_blocked = NOT 0, sg_pending = 0x200, sg_awaited = 0, sg_restored = 0, sg_interrupted = 0\<rparr>"

definition sigs_example_30 :: sigs where
  "sigs_example_30 = sigs_example\<lparr>sg_user := 1000, sg_blocked := 0x1000000000, sg_pending := 0,
     sg_awaited := 0x1000000000\<rparr>"

definition sstate_example :: sstate where
  "sstate_example = \<lparr>ss_sched = sched_example, ss_sigs = [10 \<mapsto> sigs_example, 30 \<mapsto> sigs_example_30]\<rparr>"

lemma sstate_example_facts:
  "process_from_pid 3 (ss_sched sstate_example) = Some 30"
  "get_sigs 30 sstate_example = Some sigs_example_30" "get_sigs (self sstate_example) sstate_example = Some sigs_example"
  "get_proc 30 (ss_sched sstate_example) = Some ((proc_example 3 0 3)\<lparr>pr_sleep := WaitQueue 200\<rparr>)"
  "get_proc (self sstate_example) (ss_sched sstate_example) = Some (proc_example 1 8 1)"
  "may_signal sigs_example sigs_example_30 ((proc_example 3 0 3)\<lparr>pr_sleep := WaitQueue 200\<rparr>) n False"
proof -
  show "process_from_pid 3 (ss_sched sstate_example) = Some 30"
    by (simp add: process_from_pid_def tree_find_def tree_node_find_def sstate_example_def sched_example_def
        tree_example_def get_tn_def process_compare_def get_proc_def proc_example_def
        find_in.simps [of _ "_ # _"] find_in.simps [of _ "[]"])
qed (simp_all add: sstate_example_def sched_example_def get_sigs_def get_proc_def may_signal_def sigs_example_def
      flag_set_def proc_example_def)

text \<open>
  Property C29: a signal that the sender may send and that the receiver neither blocks nor ignores
  is marked pending, ends the receiver's wait on files with \<open>EINTR\<close> and makes it ready to run,
  unless it is the caller itself; \<open>SIGKILL\<close> and \<open>SIGSTOP\<close> cannot be blocked.
\<close>

theorem send_signal_delivers:
  assumes "sched_inv (ss_sched s)" and "process_from_pid pid (ss_sched s) = Some p" and "p \<noteq> NULL"
    and "get_sigs p s = Some g" and "get_proc p (ss_sched s) = Some x" and "get_sigs (self s) s = Some me"
    and "may_signal me g x (int n) force_root" and "0 < n" and "n < 38"
    and "\<not> bit (sg_blocked g) n \<or> n = SIGKILL \<or> n = SIGSTOP"
    and "cf_handler (sg_signals g ! n) \<noteq> 0 \<or> sig_defaults ! n \<noteq> Ign"
  shows "\<exists>s' y. send_signal pid (int n) force_root s = Some (0, s') \<and> sched_inv (ss_sched s') \<and>
    get_sigs p s' = Some (g\<lparr>sg_pending := sg_pending g OR shift_signal n\<rparr>) \<and>
    get_proc p (ss_sched s') = Some y \<and> pr_node_waits y = None \<and>
    (pr_node_waits x \<noteq> None \<longrightarrow> pr_awoken y = -4) \<and>
    (p \<noteq> self s \<longrightarrow> p \<in> set (sc_ready (ss_sched s')))"
proof -
  have nb: "\<not> send_blocked g n" using assms(9,10) by (auto simp: send_blocked_iff)
  have ni: "\<not> send_ignored g n" using assms(11) by (auto simp: send_ignored_def)
  obtain s' y where s': "post_signal p n s = Some s'" "sched_inv (ss_sched s')"
      "ss_sigs s' = (ss_sigs s)(p \<mapsto> g\<lparr>sg_pending := sg_pending g OR shift_signal n\<rparr>)"
      "get_proc p (ss_sched s') = Some y" "pr_node_waits y = None"
      "p \<noteq> self s \<Longrightarrow> p \<in> set (sc_ready (ss_sched s'))" "pr_node_waits x \<noteq> None \<Longrightarrow> pr_awoken y = -4"
    using post_signal_wakes [OF assms(1,5,4), of n] nb ni by blast
  then show ?thesis
    using send_signal_post [OF assms(2-9)] assms(3)
    by (intro exI [of _ s'] exI [of _ y]) (simp add: get_sigs_def)
qed

theorem send_signal_delivers_witness:
  "\<exists>s'. send_signal 3 15 False sstate_example = Some (0, s') \<and> 30 \<in> set (sc_ready (ss_sched s'))"
proof -
  have i: "sched_inv (ss_sched sstate_example)" using sched_example_invs(1) by (simp add: sstate_example_def)
  have b: "\<not> bit (sg_blocked sigs_example_30) 15 \<or> (15::nat) = SIGKILL \<or> (15::nat) = SIGSTOP"
    by (simp add: sigs_example_30_def bit_numeral_rec)
  have d: "cf_handler (sg_signals sigs_example_30 ! 15) \<noteq> 0 \<or> sig_defaults ! 15 \<noteq> Ign"
    by (simp add: sig_defaults_def)
  have n: "self sstate_example = 10" by (simp add: sstate_example_def sched_example_def)
  show ?thesis
    using send_signal_delivers [OF i sstate_example_facts(1) _ sstate_example_facts(2,4,3) sstate_example_facts(6) _ _ b d]
      n by fastforce
qed

text \<open>
  Fact: of the deliverable signals the lowest is taken first, and when its disposition is
  the default one and fatal, the process exits with that signal in its status, whatever it
  blocks in the case of \<open>SIGKILL\<close>.
\<close>

theorem fatal_signal_exits:
  assumes "get_proc (self s) (ss_sched s) = Some x" and "get_sigs (self s) s = Some g"
    and "\<not> flag_set PROC_FLAG_FINISHED x" and "\<not> flag_set PROC_FLAG_TRACE_SIGNALS x"
    and "length (sg_signals g) = 39" and "0 < n" and "n < 38"
    and "bit (sg_pending g) n" and "n = SIGKILL \<or> \<not> bit (sg_blocked g) n"
    and "\<forall>k < n. \<not> bit (sg_pending g) k \<or> bit (sg_blocked g) k \<and> k \<noteq> SIGKILL \<and> k \<noteq> SIGSTOP"
    and "cf_handler (sg_signals g ! n) = 0" and "sig_defaults ! n = Term \<or> sig_defaults ! n = Core"
  shows "\<exists>s'. process_check_signals h rax env s =
    Some (Exits (push_bit 8 (128 + of_nat n) OR of_nat n), env, s')"
proof -
  have low: "lowest_signal (deliverable g) 0 = Some n"
    using assms(7-10) by (auto simp: lowest_signal_0 bit_deliverable)
  have nz: "self s \<noteq> NULL" using assms(1) by (auto simp: get_proc_def)
  let ?s = "s\<lparr>ss_sigs := (ss_sigs s)(self s \<mapsto> g\<lparr>sg_pending := sg_pending g AND NOT (shift_signal n)\<rparr>)\<rparr>"
  have "handle_signal h n rax env ?s = Some (Exits (push_bit 8 (128 + of_nat n) OR of_nat n), env, ?s)"
    using assms nz by (auto simp: handle_signal_def act_on_signal_def get_sigs_def NUMSIGNALS_def)
  then show ?thesis
    using assms(1-3) nz low by (subst process_check_signals.simps) (simp add: set_sigs_def)
qed

theorem fatal_signal_exits_witness:
  "\<exists>s'. process_check_signals (\<lambda>r s. (r, s)) 0 [] sstate_example = Some (Exits 0x8909, [], s')"
proof -
  have g: "\<forall>k < 9. \<not> bit (sg_pending sigs_example) k \<or>
        bit (sg_blocked sigs_example) k \<and> k \<noteq> SIGKILL \<and> k \<noteq> SIGSTOP"
      "bit (sg_pending sigs_example) 9" "length (sg_signals sigs_example) = 39"
      "cf_handler (sg_signals sigs_example ! 9) = 0" "sig_defaults ! 9 = Term \<or> sig_defaults ! 9 = Core"
    by (simp_all add: sigs_example_def sig_defaults_def bit_numeral_rec less_Suc_eq numeral_eq_Suc)
  have x: "\<not> flag_set PROC_FLAG_FINISHED (proc_example 1 8 1)" "\<not> flag_set PROC_FLAG_TRACE_SIGNALS (proc_example 1 8 1)"
    by (simp_all add: flag_set_def PROC_FLAG_FINISHED_def PROC_FLAG_TRACE_SIGNALS_def proc_example_def)
  have v: "push_bit 8 (128 + of_nat 9) OR of_nat 9 = (0x8909 :: u32)" by (simp add: push_bit_eq_mult)
  show ?thesis
    using fatal_signal_exits [OF sstate_example_facts(5,3) x g(3) _ _ g(2) _ g(1) g(4,5), of "\<lambda>r s. (r, s)" 0 "[]"]
    unfolding v by (simp add: SIGKILL_def)
qed

text \<open>
  Fact: the \<open>int\<close> that holds whether a signal is awaited loses signals \<open>32\<close> and above, so a
  process that blocks and awaits one of them is not woken when it is sent: the scheduler's state
  does not change at all, the signal is only marked pending.
\<close>

theorem high_awaited_signal_not_woken:
  assumes "process_from_pid pid (ss_sched s) = Some p" and "p \<noteq> NULL"
    and "get_sigs p s = Some g" and "get_proc p (ss_sched s) = Some x" and "get_sigs (self s) s = Some me"
    and "may_signal me g x (int n) force_root" and "32 \<le> n" and "n < 38"
    and "bit (sg_blocked g) n" and "bit (sg_awaited g) n"
  shows "\<exists>s'. send_signal pid (int n) force_root s = Some (0, s') \<and> ss_sched s' = ss_sched s \<and>
    get_sigs p s' = Some (g\<lparr>sg_pending := sg_pending g OR shift_signal n\<rparr>)"
proof -
  have "send_blocked g n" "\<not> send_awaited g n"
    using assms(7-9) by (simp_all add: send_blocked_iff send_awaited_iff SIGKILL_def SIGSTOP_def)
  moreover have "sig_defaults ! n \<noteq> Cont"
  proof -
    have "n \<in> {32, 33, 34, 35, 36, 37}" using assms(7,8) by auto
    then show ?thesis by (auto simp: sig_defaults_def)
  qed
  ultimately show ?thesis
    using send_signal_post [OF assms(1-6) _ assms(8)] post_signal_held [OF assms(4,3)] assms(2,7)
    by (simp add: get_sigs_def)
qed

theorem high_awaited_signal_not_woken_witness:
  "\<exists>s'. send_signal 3 36 False sstate_example = Some (0, s') \<and> ss_sched s' = ss_sched sstate_example"
proof -
  have b: "bit (sg_blocked sigs_example_30) 36" "bit (sg_awaited sigs_example_30) 36"
    by (simp_all add: sigs_example_30_def bit_numeral_rec)
  show ?thesis
    using high_awaited_signal_not_woken [OF sstate_example_facts(1) _ sstate_example_facts(2,4,3)
        sstate_example_facts(6) _ _ b] by fastforce
qed

text \<open>
  Fact: \<open>signal_await\<close> with an awaited signal pending returns the lowest of them at once and
  clears exactly that one from the pending set, without touching anything else.
\<close>

theorem signal_await_takes_lowest:
  assumes "get_sigs (self s) s = Some g" and "n < 38" and "bit awaited n" and "bit (sg_pending g) n"
    and "\<forall>k < n. \<not> (bit awaited k \<and> bit (sg_pending g) k)"
  shows "\<exists>g'. signal_await awaited env s = Some (Awaited n, s\<lparr>ss_sigs := (ss_sigs s)(self s \<mapsto> g')\<rparr>) \<and>
    (\<forall>k. bit (sg_pending g') k \<longleftrightarrow> bit (sg_pending g) k \<and> k \<noteq> n) \<and> g'\<lparr>sg_pending := sg_pending g\<rparr> = g"
proof -
  have low: "lowest_signal (awaited AND sg_pending g) 0 = Some n"
    using assms(2-5) by (simp add: lowest_signal_0 bit_and_iff)
  have "bit (sg_pending g AND NOT (shift_signal n)) k \<longleftrightarrow> bit (sg_pending g) k \<and> k \<noteq> n" for k
    using bit_imp_le_length [of "sg_pending g" k] assms(2) by (auto simp: bit_simps bit_shift_signal)
  then show ?thesis
    using assms(1) low
    by (intro exI [of _ "g\<lparr>sg_pending := sg_pending g AND NOT (shift_signal n)\<rparr>"])
       (simp add: signal_await.simps [of awaited env s] Let_def set_sigs_def)
qed

theorem signal_await_takes_lowest_witness:
  "\<exists>s'. signal_await 0x300 [] sstate_example = Some (Awaited 9, s')"
proof -
  have "bit (0x300 :: u64) 9" "bit (sg_pending sigs_example) 9"
      "\<forall>k < 9. \<not> (bit (0x300 :: u64) k \<and> bit (sg_pending sigs_example) k)"
    by (simp_all add: sigs_example_def bit_numeral_rec less_Suc_eq numeral_eq_Suc)
  then show ?thesis
    using signal_await_takes_lowest [OF sstate_example_facts(3), of 9 "0x300" "[]"] by auto
qed

end
