(* ===== verification/Mutex.thy ===== *)
theory Mutex
  imports Kernel_Prelude
begin

text \<open>
  The sleeping mutex of \<open>kernel/sys/mutex.c\<close>.  Its fields are changed only by the holder of the
  inner spin lock, so each locked section is one operation on the record; the processes that run
  these sections in any interleaving are a step relation over their program points.
\<close>

section \<open>The mutex and its locked sections\<close>

record sched_mutex =
  mx_inner_lock :: ptr
  mx_status :: int
  mx_owner :: ptr
  mx_waiters :: "ptr list"

definition mutex_init :: sched_mutex where
  "mutex_init = \<lparr>mx_inner_lock = NULL, mx_status = 0, mx_owner = NULL, mx_waiters = []\<rparr>"

text \<open>
  Where a process stands: \<open>AtLock\<close> and \<open>AtRelease\<close> spin for the inner lock, \<open>InLoop\<close> and
  \<open>Releasing\<close> hold it, and a process that is \<open>Asleep\<close> has left it through
  \<open>sleep_on_unlocking\<close>.
\<close>

datatype point = Outside | AtLock | InLoop | Asleep | Inside | AtRelease | Releasing

text \<open>One turn of the loop of \<open>mutex_acquire\<close> with the inner lock held, up to the unlock.\<close>

definition mutex_acquire :: "ptr \<Rightarrow> sched_mutex \<Rightarrow> point \<times> sched_mutex" where
  "mutex_acquire p m =
     (if mx_status m \<noteq> 0
      then (Asleep, m\<lparr>mx_waiters := mx_waiters m @ [p], mx_inner_lock := NULL\<rparr>)
      else (Inside, m\<lparr>mx_status := 1, mx_owner := p, mx_inner_lock := NULL\<rparr>))"

text \<open>The locked section of \<open>mutex_release\<close>; \<open>wakeup_queue_one\<close> takes the newest waiter.\<close>

definition mutex_release :: "sched_mutex \<Rightarrow> sched_mutex" where
  "mutex_release m = m\<lparr>mx_owner := NULL, mx_status := 0, mx_waiters := butlast (mx_waiters m), mx_inner_lock := NULL\<rparr>"


section \<open>Interleaved processes\<close>

record mutex_run =
  mr_mutex :: sched_mutex
  mr_point :: "ptr \<Rightarrow> point"

definition at_point :: "ptr \<Rightarrow> point \<Rightarrow> sched_mutex \<Rightarrow> mutex_run \<Rightarrow> mutex_run" where
  "at_point p c m s = s\<lparr>mr_mutex := m, mr_point := (mr_point s)(p := c)\<rparr>"

text \<open>
  The steps of a process that has called \<open>mutex_acquire\<close> and goes on by itself: it takes the inner
  lock, makes a turn of the loop, and runs again after a sleep once it has left the queue.
\<close>

inductive acquire_step :: "mutex_run \<Rightarrow> mutex_run \<Rightarrow> bool" where
  acquire_lock: "mr_point s p = AtLock \<Longrightarrow> mx_inner_lock (mr_mutex s) = NULL \<Longrightarrow>
    acquire_step s (at_point p InLoop ((mr_mutex s)\<lparr>mx_inner_lock := p\<rparr>) s)"
| acquire_turn: "mr_point s p = InLoop \<Longrightarrow> mutex_acquire p (mr_mutex s) = (c, m) \<Longrightarrow>
    acquire_step s (at_point p c m s)"
| resume: "mr_point s p = Asleep \<Longrightarrow> p \<notin> set (mx_waiters (mr_mutex s)) \<Longrightarrow>
    acquire_step s (at_point p AtLock (mr_mutex s) s)"

text \<open>
  All steps: a sleeper leaves the queue because \<open>mutex_release\<close> took it out or because a signal did.
  The assertion of \<open>mutex_release\<close> is a guard of the step, and that it never fails is a property below.
\<close>

inductive mutex_step :: "mutex_run \<Rightarrow> mutex_run \<Rightarrow> bool" where
  acquire_call: "p \<noteq> NULL \<Longrightarrow> mr_point s p = Outside \<Longrightarrow>
    mutex_step s (at_point p AtLock (mr_mutex s) s)"
| acquire: "acquire_step s s' \<Longrightarrow> mutex_step s s'"
| interrupt: "p \<in> set (mx_waiters (mr_mutex s)) \<Longrightarrow>
    mutex_step s (at_point p (mr_point s p) ((mr_mutex s)\<lparr>mx_waiters := remove1 p (mx_waiters (mr_mutex s))\<rparr>) s)"
| release_call: "mr_point s p = Inside \<Longrightarrow> mx_owner (mr_mutex s) = p \<Longrightarrow>
    mutex_step s (at_point p AtRelease (mr_mutex s) s)"
| release_lock: "mr_point s p = AtRelease \<Longrightarrow> mx_inner_lock (mr_mutex s) = NULL \<Longrightarrow>
    mutex_step s (at_point p Releasing ((mr_mutex s)\<lparr>mx_inner_lock := p\<rparr>) s)"
| release: "mr_point s p = Releasing \<Longrightarrow>
    mutex_step s (at_point p Outside (mutex_release (mr_mutex s)) s)"

inductive_cases mutex_stepE: "mutex_step s s'"

definition mutex_start :: mutex_run where
  "mutex_start = \<lparr>mr_mutex = mutex_init, mr_point = (\<lambda>p. Outside)\<rparr>"

inductive mutex_reach :: "mutex_run \<Rightarrow> bool" where
  start: "mutex_reach mutex_start"
| step: "mutex_reach s \<Longrightarrow> mutex_step s s' \<Longrightarrow> mutex_reach s'"


section \<open>The invariant\<close>

abbreviation holds :: "point \<Rightarrow> bool" where
  "holds c \<equiv> c = Inside \<or> c = AtRelease \<or> c = Releasing"

abbreviation locks :: "point \<Rightarrow> bool" where
  "locks c \<equiv> c = InLoop \<or> c = Releasing"

text \<open>
  Exactly the process that the inner lock names is in a locked section; the mutex is taken
  exactly when its owner stands inside, and nobody else does; the waiters are asleep; and while the
  mutex is free with waiters left, some process is on its way to take it.
\<close>

definition coming :: "mutex_run \<Rightarrow> ptr \<Rightarrow> bool" where
  "coming s p \<longleftrightarrow> mr_point s p = AtLock \<or> mr_point s p = InLoop \<or>
     (mr_point s p = Asleep \<and> p \<notin> set (mx_waiters (mr_mutex s)))"

definition mutex_inv :: "mutex_run \<Rightarrow> bool" where
  "mutex_inv s \<longleftrightarrow>
     mr_point s NULL = Outside \<and>
     (\<forall>p. locks (mr_point s p) \<longrightarrow> mx_inner_lock (mr_mutex s) = p) \<and>
     (mx_inner_lock (mr_mutex s) \<noteq> NULL \<longrightarrow> locks (mr_point s (mx_inner_lock (mr_mutex s)))) \<and>
     (\<forall>p. holds (mr_point s p) \<longrightarrow> mx_owner (mr_mutex s) = p \<and> mx_status (mr_mutex s) = 1) \<and>
     (mx_status (mr_mutex s) \<noteq> 0 \<longrightarrow> holds (mr_point s (mx_owner (mr_mutex s)))) \<and>
     distinct (mx_waiters (mr_mutex s)) \<and>
     (\<forall>p \<in> set (mx_waiters (mr_mutex s)). mr_point s p = Asleep) \<and>
     (mx_waiters (mr_mutex s) \<noteq> [] \<and> mx_status (mr_mutex s) = 0 \<longrightarrow> (\<exists>p. coming s p))"

lemma mutex_inv_start: "mutex_inv mutex_start"
  by (simp add: mutex_inv_def mutex_start_def mutex_init_def)

lemma mutex_invD:
  assumes "mutex_inv s"
  shows "mr_point s NULL = Outside"
    and "locks (mr_point s p) \<Longrightarrow> mx_inner_lock (mr_mutex s) = p"
    and "holds (mr_point s p) \<Longrightarrow> mx_owner (mr_mutex s) = p"
    and "holds (mr_point s p) \<Longrightarrow> mx_status (mr_mutex s) = 1"
    and "mx_status (mr_mutex s) \<noteq> 0 \<Longrightarrow> holds (mr_point s (mx_owner (mr_mutex s)))"
    and "distinct (mx_waiters (mr_mutex s))"
    and "p \<in> set (mx_waiters (mr_mutex s)) \<Longrightarrow> mr_point s p = Asleep"
    and "mx_waiters (mr_mutex s) \<noteq> [] \<Longrightarrow> mx_status (mr_mutex s) = 0 \<Longrightarrow> \<exists>p. coming s p"
    and "mx_inner_lock (mr_mutex s) \<noteq> NULL \<Longrightarrow> locks (mr_point s (mx_inner_lock (mr_mutex s)))"
  using assms by (auto simp: mutex_inv_def)

text \<open>What a step of one process has to keep.\<close>

lemma at_point_inv:
  assumes "mutex_inv s" and "p \<noteq> NULL"
    and "locks c \<Longrightarrow> mx_inner_lock m = p" and "\<And>q. q \<noteq> p \<Longrightarrow> locks (mr_point s q) \<Longrightarrow> mx_inner_lock m = q"
    and "holds c \<Longrightarrow> mx_owner m = p \<and> mx_status m = 1"
    and "\<And>q. q \<noteq> p \<Longrightarrow> holds (mr_point s q) \<Longrightarrow> mx_owner m = q \<and> mx_status m = 1"
    and "mx_status m \<noteq> 0 \<Longrightarrow> (if mx_owner m = p then holds c else holds (mr_point s (mx_owner m)))"
    and "distinct (mx_waiters m)"
    and "\<And>q. q \<in> set (mx_waiters m) \<Longrightarrow> (if q = p then c = Asleep else mr_point s q = Asleep)"
    and "mx_waiters m \<noteq> [] \<Longrightarrow> mx_status m = 0 \<Longrightarrow> \<exists>q. coming (at_point p c m s) q"
    and "mx_inner_lock m \<noteq> NULL \<Longrightarrow> (if mx_inner_lock m = p then locks c else locks (mr_point s (mx_inner_lock m)))"
  shows "mutex_inv (at_point p c m s)"
  unfolding mutex_inv_def
proof (intro conjI allI impI ballI)
  show "mr_point (at_point p c m s) NULL = Outside" using assms(1,2) by (simp add: at_point_def mutex_invD(1))
  show "mx_inner_lock (mr_mutex (at_point p c m s)) = q" if "locks (mr_point (at_point p c m s) q)" for q
    using that assms(3,4) by (cases "q = p") (simp_all add: at_point_def)
  show "locks (mr_point (at_point p c m s) (mx_inner_lock (mr_mutex (at_point p c m s))))"
    if "mx_inner_lock (mr_mutex (at_point p c m s)) \<noteq> NULL"
    using that assms(11) by (simp add: at_point_def split: if_splits)
  show "mx_owner (mr_mutex (at_point p c m s)) = q" "mx_status (mr_mutex (at_point p c m s)) = 1"
    if "holds (mr_point (at_point p c m s) q)" for q
    using that assms(5,6) by (cases "q = p"; simp add: at_point_def)+
  show "holds (mr_point (at_point p c m s) (mx_owner (mr_mutex (at_point p c m s))))"
    if "mx_status (mr_mutex (at_point p c m s)) \<noteq> 0"
    using that assms(7) by (simp add: at_point_def split: if_splits)
  show "mr_point (at_point p c m s) q = Asleep" if "q \<in> set (mx_waiters (mr_mutex (at_point p c m s)))" for q
    using that assms(9) [of q] by (simp add: at_point_def split: if_splits)
qed (use assms(8,10) in \<open>simp_all add: at_point_def\<close>)

lemma coming_self: "c = AtLock \<or> c = InLoop \<Longrightarrow> \<exists>q. coming (at_point p c m s) q"
  by (intro exI [of _ p]) (auto simp: coming_def at_point_def)

lemma coming_other:
  "coming s q \<Longrightarrow> q \<noteq> p \<Longrightarrow> set (mx_waiters m) \<subseteq> set (mx_waiters (mr_mutex s)) \<Longrightarrow> \<exists>q. coming (at_point p c m s) q"
  by (intro exI [of _ q]) (auto simp: coming_def at_point_def)

lemma mutex_step_nonnull:
  assumes "mutex_inv s" and "mr_point s p \<noteq> Outside"
  shows "p \<noteq> NULL"
  using assms mutex_invD(1) [OF assms(1)] by auto

lemma acquire_turn_inv:
  assumes inv: "mutex_inv s" and p: "mr_point s p = InLoop" and run: "mutex_acquire p (mr_mutex s) = (c, m)"
  shows "mutex_inv (at_point p c m s)"
proof -
  note D = mutex_invD [OF inv]
  have pz: "p \<noteq> NULL" using mutex_step_nonnull [OF inv, of p] p by simp
  have lock: "mx_inner_lock (mr_mutex s) = p" using D(2) p by blast
  have alone: "\<not> locks (mr_point s q)" if "q \<noteq> p" for q using D(2) [of q] lock that by blast
  have pw: "p \<notin> set (mx_waiters (mr_mutex s))" using D(7) [of p] p by auto
  show ?thesis
  proof (cases "mx_status (mr_mutex s) = 0")
    case True
    then have free: "\<not> holds (mr_point s q)" for q using D(4) [of q] by auto
    have "c = Inside" "m = (mr_mutex s)\<lparr>mx_status := 1, mx_owner := p, mx_inner_lock := NULL\<rparr>"
      using run True by (simp_all add: mutex_acquire_def)
    then show ?thesis
      using alone free pz pw D(6,7) by (intro at_point_inv [OF inv pz]) auto
  next
    case False
    then have "c = Asleep" "m = (mr_mutex s)\<lparr>mx_waiters := mx_waiters (mr_mutex s) @ [p], mx_inner_lock := NULL\<rparr>"
      using run by (simp_all add: mutex_acquire_def)
    moreover have "mx_owner (mr_mutex s) \<noteq> p" using D(5) [OF False] p by auto
    ultimately show ?thesis
      using alone pz pw D(3-7) False by (intro at_point_inv [OF inv pz]) auto
  qed
qed

lemma release_inv:
  assumes inv: "mutex_inv s" and p: "mr_point s p = Releasing"
  shows "mutex_inv (at_point p Outside (mutex_release (mr_mutex s)) s)"
proof -
  note D = mutex_invD [OF inv]
  have pz: "p \<noteq> NULL" using mutex_step_nonnull [OF inv, of p] p by simp
  have lock: "mx_inner_lock (mr_mutex s) = p" and own: "mx_owner (mr_mutex s) = p" using D(2,3) [of p] p by auto
  have alone: "\<not> locks (mr_point s q)" "\<not> holds (mr_point s q)" if "q \<noteq> p" for q
    using D(2,3) [of q] lock own that by blast+
  have sub: "q \<in> set (mx_waiters (mr_mutex s))" if "q \<in> set (butlast (mx_waiters (mr_mutex s)))" for q
    using that by (rule in_set_butlastD)
  have woken: "\<exists>q. coming (at_point p Outside (mutex_release (mr_mutex s)) s) q"
    if w: "butlast (mx_waiters (mr_mutex s)) \<noteq> []"
  proof -
    let ?q = "last (mx_waiters (mr_mutex s))"
    have ne: "mx_waiters (mr_mutex s) \<noteq> []" using w by auto
    have "?q \<notin> set (butlast (mx_waiters (mr_mutex s)))"
      using D(6) ne by (metis append_butlast_last_id distinct_append disjoint_iff list.set_intros(1))
    moreover have "mr_point s ?q = Asleep" using D(7) ne by simp
    moreover have "?q \<noteq> p" using calculation(2) p by auto
    ultimately show ?thesis by (intro exI [of _ ?q]) (simp add: coming_def at_point_def mutex_release_def)
  qed
  show ?thesis
    using alone sub woken D(6,7) p
    by (intro at_point_inv [OF inv pz]) (auto simp: mutex_release_def distinct_butlast)
qed

text \<open>A step that leaves owner and status alone and moves between points of the same class.\<close>

lemma move_inv:
  assumes inv: "mutex_inv s" and pz: "p \<noteq> NULL" and same: "mx_owner m = mx_owner (mr_mutex s)" "mx_status m = mx_status (mr_mutex s)"
    and "holds c = holds (mr_point s p)"
    and "locks c \<Longrightarrow> mx_inner_lock m = p" and "\<And>q. q \<noteq> p \<Longrightarrow> locks (mr_point s q) \<Longrightarrow> mx_inner_lock m = q"
    and w: "distinct (mx_waiters m)" "set (mx_waiters m) \<subseteq> set (mx_waiters (mr_mutex s))" "p \<in> set (mx_waiters m) \<longrightarrow> c = Asleep"
    and "holds c \<or> (\<exists>q. coming (at_point p c m s) q)"
    and "mx_inner_lock m \<noteq> NULL \<Longrightarrow> (if mx_inner_lock m = p then locks c else locks (mr_point s (mx_inner_lock m)))"
  shows "mutex_inv (at_point p c m s)"
proof (rule at_point_inv [OF inv pz])
  note D = mutex_invD [OF inv]
  show "holds c \<Longrightarrow> mx_owner m = p \<and> mx_status m = 1" using assms(5) D(3,4) [of p] same by simp
  show "mx_owner m = q \<and> mx_status m = 1" if "holds (mr_point s q)" for q using that D(3,4) [of q] same by simp
  show "if mx_owner m = p then holds c else holds (mr_point s (mx_owner m))" if "mx_status m \<noteq> 0"
    using that D(5) assms(5) same by auto
  show "if q = p then c = Asleep else mr_point s q = Asleep" if "q \<in> set (mx_waiters m)" for q
    using that w D(7) [of q] by auto
  show "\<exists>q. coming (at_point p c m s) q" if "mx_waiters m \<noteq> []" "mx_status m = 0"
    using that assms(5,11) D(4) [of p] same by auto
qed (use assms(6,7,12) w in blast)+

text \<open>The steps outside the locked sections, and those that enter one.\<close>

lemma keep_inv:
  assumes inv: "mutex_inv s" and "p \<noteq> NULL" and "mx_owner m = mx_owner (mr_mutex s)" "mx_status m = mx_status (mr_mutex s)"
    and "holds c = holds (mr_point s p)" and inner: "mx_inner_lock m = mx_inner_lock (mr_mutex s)"
    and nl: "\<not> locks c" "\<not> locks (mr_point s p)"
    and "distinct (mx_waiters m)" "set (mx_waiters m) \<subseteq> set (mx_waiters (mr_mutex s))" "p \<in> set (mx_waiters m) \<longrightarrow> c = Asleep"
    and "holds c \<or> (\<exists>q. coming (at_point p c m s) q)"
  shows "mutex_inv (at_point p c m s)"
proof (rule move_inv [OF assms(1-5)])
  note D = mutex_invD [OF inv]
  show "mx_inner_lock m = q" if "locks (mr_point s q)" for q using that D(2) [of q] inner by simp
  show "if mx_inner_lock m = p then locks c else locks (mr_point s (mx_inner_lock m))" if "mx_inner_lock m \<noteq> NULL"
    using that D(9) inner nl(2) by auto
qed (use assms(7-12) in simp_all)

lemma lock_inv:
  assumes inv: "mutex_inv s" and p: "mr_point s p = c" "c = AtLock \<and> c' = InLoop \<or> c = AtRelease \<and> c' = Releasing"
    and free: "mx_inner_lock (mr_mutex s) = NULL"
  shows "mutex_inv (at_point p c' ((mr_mutex s)\<lparr>mx_inner_lock := p\<rparr>) s)"
proof (rule move_inv [OF inv])
  note D = mutex_invD [OF inv]
  show "p \<noteq> NULL" using mutex_step_nonnull [OF inv, of p] p by auto
  show "mx_inner_lock ((mr_mutex s)\<lparr>mx_inner_lock := p\<rparr>) = q" if "locks (mr_point s q)" for q
    using that D(2) [of q] free mutex_step_nonnull [OF inv, of q] by auto
  show "p \<in> set (mx_waiters ((mr_mutex s)\<lparr>mx_inner_lock := p\<rparr>)) \<longrightarrow> c' = Asleep" using D(7) [of p] p by auto
  show "holds c' \<or> (\<exists>q. coming (at_point p c' ((mr_mutex s)\<lparr>mx_inner_lock := p\<rparr>) s) q)" using p(2) coming_self by blast
  show "distinct (mx_waiters ((mr_mutex s)\<lparr>mx_inner_lock := p\<rparr>))" using D(6) by simp
qed (use p in auto)

lemma interrupt_inv:
  assumes inv: "mutex_inv s" and p: "p \<in> set (mx_waiters (mr_mutex s))"
  shows "mutex_inv (at_point p (mr_point s p) ((mr_mutex s)\<lparr>mx_waiters := remove1 p (mx_waiters (mr_mutex s))\<rparr>) s)"
    (is "mutex_inv ?s'")
proof -
  note D = mutex_invD [OF inv]
  have a: "mr_point s p = Asleep" using D(7) p by simp
  have pz: "p \<noteq> NULL" using mutex_step_nonnull [OF inv, of p] a by simp
  have "coming ?s' p" using a D(6) by (simp add: coming_def at_point_def)
  then show ?thesis using a D(6) set_remove1_subset by (intro keep_inv [OF inv pz]) auto
qed

lemma acquire_step_inv:
  assumes "acquire_step s s'" and inv: "mutex_inv s"
  shows "mutex_inv s'"
  using assms(1)
proof cases
  case (acquire_lock p)
  then show ?thesis using lock_inv [OF inv, of p AtLock InLoop] by simp
next
  case (acquire_turn p c m)
  then show ?thesis using acquire_turn_inv [OF inv] by simp
next
  case (resume p)
  then have "p \<noteq> NULL" using mutex_step_nonnull [OF inv, of p] by simp
  then show ?thesis using resume mutex_invD(6) [OF inv] coming_self
    by (auto intro!: keep_inv [OF inv])
qed

lemma mutex_inv_step:
  assumes "mutex_step s s'" and inv: "mutex_inv s"
  shows "mutex_inv s'"
  using assms(1)
proof cases
  case (acquire_call p)
  then show ?thesis using mutex_invD(6,7) [OF inv] coming_self
    by (auto intro!: keep_inv [OF inv])
next
  case acquire
  then show ?thesis using acquire_step_inv [OF _ inv] by simp
next
  case (interrupt p)
  then show ?thesis using interrupt_inv [OF inv] by simp
next
  case (release_call p)
  then have "p \<noteq> NULL" using mutex_step_nonnull [OF inv, of p] by simp
  moreover have "p \<notin> set (mx_waiters (mr_mutex s))" using mutex_invD(7) [OF inv, of p] release_call by auto
  ultimately show ?thesis using release_call mutex_invD(6) [OF inv] by (auto intro!: keep_inv [OF inv])
next
  case (release_lock p)
  then show ?thesis using lock_inv [OF inv, of p AtRelease Releasing] by simp
next
  case (release p)
  then show ?thesis using release_inv [OF inv] by simp
qed

lemma mutex_reach_inv: "mutex_reach s \<Longrightarrow> mutex_inv s"
  by (induction rule: mutex_reach.induct) (simp_all add: mutex_inv_start mutex_inv_step)

text \<open>From a free mutex that somebody is on its way to, one process gets in without the help of others.\<close>

lemma loop_enters:
  assumes "mr_point s p = InLoop" and "mx_status (mr_mutex s) = 0"
  shows "\<exists>s'. acquire_step s s' \<and> mr_point s' p = Inside"
  using acquire_step.acquire_turn [OF assms(1), of Inside] assms(2)
  by (auto simp: mutex_acquire_def at_point_def)

lemma lock_enters:
  assumes inv: "mutex_inv s" and p: "mr_point s p = AtLock" and free: "mx_status (mr_mutex s) = 0"
  shows "\<exists>s' q. acquire_step\<^sup>*\<^sup>* s s' \<and> mr_point s' q = Inside"
proof (cases "mx_inner_lock (mr_mutex s) = NULL")
  case True
  let ?s = "at_point p InLoop ((mr_mutex s)\<lparr>mx_inner_lock := p\<rparr>) s"
  have "acquire_step s ?s" by (rule acquire_step.acquire_lock [OF p True])
  moreover obtain s' where "acquire_step ?s s'" "mr_point s' p = Inside"
    using loop_enters [of ?s p] free by (auto simp: at_point_def)
  ultimately show ?thesis by (meson converse_rtranclp_into_rtranclp r_into_rtranclp)
next
  case False
  let ?q = "mx_inner_lock (mr_mutex s)"
  have "mr_point s ?q = InLoop" using mutex_invD(9) [OF inv False] mutex_invD(4) [OF inv, of ?q] free by auto
  then show ?thesis using loop_enters free by blast
qed

lemma coming_enters:
  assumes inv: "mutex_inv s" and p: "coming s p" and free: "mx_status (mr_mutex s) = 0"
  shows "\<exists>s' q. acquire_step\<^sup>*\<^sup>* s s' \<and> mr_point s' q = Inside"
proof -
  consider "mr_point s p = AtLock" | "mr_point s p = InLoop" | "mr_point s p = Asleep" "p \<notin> set (mx_waiters (mr_mutex s))"
    using p by (auto simp: coming_def)
  then show ?thesis
  proof cases
    case 1
    then show ?thesis using lock_enters [OF inv _ free] by blast
  next
    case 2
    then show ?thesis using loop_enters free by blast
  next
    case 3
    have st: "acquire_step s (at_point p AtLock (mr_mutex s) s)" by (rule acquire_step.resume [OF 3])
    have "mutex_inv (at_point p AtLock (mr_mutex s) s)" by (rule acquire_step_inv [OF st inv])
    then obtain s' q where "acquire_step\<^sup>*\<^sup>* (at_point p AtLock (mr_mutex s) s) s'" "mr_point s' q = Inside"
      using lock_enters [of "at_point p AtLock (mr_mutex s) s" p] free by (auto simp: at_point_def)
    then show ?thesis using st by (meson converse_rtranclp_into_rtranclp)
  qed
qed


section \<open>Properties\<close>

text \<open>
  Property C10: at most one process is inside the mutex, and the assertion of mutex_release holds for it.
\<close>

theorem mutex_exclusive:
  assumes "mutex_reach s" and "mr_point s p = Inside" and "mr_point s q = Inside"
  shows "p = q \<and> mx_owner (mr_mutex s) = p"
  using mutex_invD(3) [OF mutex_reach_inv [OF assms(1)], of p] mutex_invD(3) [OF mutex_reach_inv [OF assms(1)], of q] assms(2,3)
  by simp

definition mutex_run_example :: mutex_run where
  "mutex_run_example = at_point 5 Inside \<lparr>mx_inner_lock = NULL, mx_status = 1, mx_owner = 5, mx_waiters = []\<rparr>
     (at_point 5 InLoop \<lparr>mx_inner_lock = 5, mx_status = 0, mx_owner = NULL, mx_waiters = []\<rparr>
       (at_point 5 AtLock mutex_init mutex_start))"

lemma mutex_run_example_reach: "mutex_reach mutex_run_example"
proof -
  let ?a = "at_point 5 AtLock mutex_init mutex_start"
  let ?b = "at_point 5 InLoop \<lparr>mx_inner_lock = 5, mx_status = 0, mx_owner = NULL, mx_waiters = []\<rparr> ?a"
  have "mutex_step mutex_start ?a" using mutex_step.acquire_call [of 5 mutex_start] by (simp add: mutex_start_def)
  moreover have "mutex_step ?a ?b" using mutex_step.acquire [OF acquire_step.acquire_lock [of ?a 5]] by (simp add: at_point_def mutex_init_def)
  moreover have "mutex_step ?b mutex_run_example"
    using mutex_step.acquire [OF acquire_step.acquire_turn [of ?b 5 Inside]] by (simp add: mutex_run_example_def mutex_acquire_def at_point_def)
  ultimately show ?thesis by (meson mutex_reach.intros)
qed

theorem mutex_exclusive_witness: "(5 :: ptr) = 5 \<and> mx_owner (mr_mutex mutex_run_example) = 5"
  by (rule mutex_exclusive [OF mutex_run_example_reach]) (simp_all add: mutex_run_example_def at_point_def)

text \<open>
  Property C20: no wakeup is lost.  In every reachable state in which the mutex is free and a process has called
  mutex_acquire and is not inside yet, even if it sleeps in the queue, a process gets inside by steps of
  processes inside mutex_acquire alone: no signal has to interrupt a sleeper and nobody has to call again.
\<close>

theorem mutex_progress:
  assumes "mutex_reach s" and "mx_status (mr_mutex s) = 0"
    and "mr_point s p = AtLock \<or> mr_point s p = InLoop \<or> mr_point s p = Asleep"
  shows "\<exists>s' q. acquire_step\<^sup>*\<^sup>* s s' \<and> mr_point s' q = Inside"
proof -
  note inv = mutex_reach_inv [OF assms(1)]
  have "\<exists>q. coming s q"
  proof (cases "p \<in> set (mx_waiters (mr_mutex s))")
    case True
    then have "mx_waiters (mr_mutex s) \<noteq> []" by auto
    then show ?thesis using mutex_invD(8) [OF inv] assms(2) by blast
  qed (use assms(3) in \<open>auto simp: coming_def\<close>)
  then show ?thesis using coming_enters [OF inv _ assms(2)] by blast
qed

text \<open>One process inside, another asleep in the queue, and then the first one leaves.\<close>

definition mutex_woken_example :: mutex_run where
  "mutex_woken_example =
     at_point 5 Outside (mutex_release \<lparr>mx_inner_lock = 5, mx_status = 1, mx_owner = 5, mx_waiters = [6]\<rparr>)
       (at_point 6 Asleep \<lparr>mx_inner_lock = NULL, mx_status = 1, mx_owner = 5, mx_waiters = [6]\<rparr> mutex_run_example)"

lemma mutex_woken_example_reach: "mutex_reach mutex_woken_example"
proof -
  let ?m = "\<lambda>l w. \<lparr>mx_inner_lock = l, mx_status = 1, mx_owner = 5, mx_waiters = w\<rparr>"
  let ?a = "at_point 6 AtLock (?m NULL []) mutex_run_example"
  let ?b = "at_point 6 InLoop (?m 6 []) ?a"
  let ?c = "at_point 6 Asleep (?m NULL [6]) ?b"
  let ?d = "at_point 5 AtRelease (?m NULL [6]) ?c"
  let ?e = "at_point 5 Releasing (?m 5 [6]) ?d"
  have ex: "mr_mutex mutex_run_example = ?m NULL []" "mr_point mutex_run_example = (\<lambda>p. Outside)(5 := Inside)"
    by (simp_all add: mutex_run_example_def mutex_start_def at_point_def)
  have "mutex_step mutex_run_example ?a" using mutex_step.acquire_call [of 6 mutex_run_example] by (simp add: ex)
  moreover have "mutex_step ?a ?b" using mutex_step.acquire [OF acquire_step.acquire_lock [of ?a 6]] by (simp add: at_point_def)
  moreover have "mutex_step ?b ?c"
    using mutex_step.acquire [OF acquire_step.acquire_turn [of ?b 6 Asleep "?m NULL [6]"]] by (simp add: mutex_acquire_def at_point_def)
  moreover have "mutex_step ?c ?d" using mutex_step.release_call [of ?c 5] by (simp add: ex at_point_def)
  moreover have "mutex_step ?d ?e" using mutex_step.release_lock [of ?d 5] by (simp add: at_point_def)
  moreover have "mutex_step ?e mutex_woken_example"
    using mutex_step.release [of ?e 5] by (simp add: mutex_woken_example_def at_point_def mutex_release_def fun_upd_twist)
  ultimately show ?thesis using mutex_run_example_reach by (meson mutex_reach.intros)
qed

theorem mutex_progress_witness:
  "\<exists>s' q. acquire_step\<^sup>*\<^sup>* mutex_woken_example s' \<and> mr_point s' q = Inside"
  by (rule mutex_progress [OF mutex_woken_example_reach, where p = 6])
    (simp_all add: mutex_woken_example_def at_point_def mutex_release_def)

end
