(* ===== verification/Shm.thy ===== *)
theory Shm
  imports Kernel_String Kernel_Tree
begin

text \<open>
  Shared memory, \<open>kernel/sys/shm.c\<close>.  Chunks of page frames hang at the nodes of a tree of dotted
  names; each process keeps the list of its mappings and the end of its mapping area.  The page table
  of a process group is a map from page addresses to frames.  Fresh addresses and fresh frames are
  supplies of the state, and released frames are logged; \<^term>\<open>None\<close> is a run that faults, overruns
  a buffer or runs out of memory.  \<open>sh_from_pid\<close> is what \<open>process_from_pid\<close> answers.
\<close>

section \<open>State\<close>

definition SHM_PATH_SEPARATOR :: bytes where "SHM_PATH_SEPARATOR = [46]"
definition USER_SHM_LOW :: u64 where "USER_SHM_LOW = 0x0000400100000000"
definition USER_SHM_HIGH :: u64 where "USER_SHM_HIGH = 0x0000500000000000"

record shm_chunk =
  ck_parent :: ptr
  ck_ref_count :: "64 word"
  ck_num_frames :: u64
  ck_frames :: "u64 list"

record shm_node =
  sn_name :: bytes
  sn_chunk :: ptr

record shm_mapping =
  sm_chunk :: ptr
  sm_num_vaddrs :: u64
  sm_vaddrs :: "u64 list"

record shm_proc =
  sp_group :: int
  sp_shm_heap :: u64
  sp_shm_mappings :: "shm_mapping list"
  sp_pages :: "u64 \<rightharpoonup> u64"

record shm =
  sh_tree :: tree
  sh_nodes :: "ptr \<rightharpoonup> shm_node"
  sh_chunks :: "ptr \<rightharpoonup> shm_chunk"
  sh_procs :: "ptr \<rightharpoonup> shm_proc"
  sh_from_pid :: "int \<Rightarrow> ptr"
  sh_current :: ptr
  sh_supply :: "ptr list"
  sh_frames :: "u64 list"
  sh_released :: "u64 list"

definition shm_install :: "ptr \<Rightarrow> shm \<Rightarrow> shm option" where
  "shm_install a s = do {
     t \<leftarrow> tree_set_root a NULL (tree_create Map.empty);
     Some (s\<lparr>sh_tree := t\<rparr>)
   }"


section \<open>Names\<close>

text \<open>The children of a tree node are searched for a name; a null name faults on the first of them.\<close>

fun shm_child :: "shm \<Rightarrow> bytes option \<Rightarrow> ptr list \<Rightarrow> (ptr \<times> ptr) option option" where
  "shm_child s pch [] = Some None"
| "shm_child s pch (c # cs) = do {
     n \<leftarrow> get_tn c (sh_tree s);
     snode \<leftarrow> (if tn_value n = NULL then None else sh_nodes s (tn_value n));
     name \<leftarrow> pch;
     if strcmp (sn_name snode) name = 0 then Some (Some (c, tn_value n)) else shm_child s pch cs
   }"

text \<open>\<open>name\<close> has room for 255 bytes and the terminator; a longer name would overrun it.\<close>

definition new_shm_node :: "bytes \<Rightarrow> ptr \<Rightarrow> shm \<Rightarrow> (ptr \<times> ptr \<times> shm) option" where
  "new_shm_node name from s =
     (case sh_supply s of
        e # a # rest \<Rightarrow>
          if 256 \<le> length name then None
          else do {
            (a, t) \<leftarrow> tree_node_insert_child a from e (sh_tree s);
            Some (a, e, s\<lparr>sh_supply := rest, sh_nodes := (sh_nodes s)(e \<mapsto> \<lparr>sn_name = name, sn_chunk = NULL\<rparr>),
                          sh_tree := t\<rparr>)
          }
      | _ \<Rightarrow> None)"

lemma strtok_r_rest: "strtok_r str delim = (t, rest) \<Longrightarrow> rest \<noteq> [] \<Longrightarrow> length rest < length str"
  by (auto simp: strtok_r_def strpbrk_def Let_def split: option.splits if_splits)

function get_node_at :: "bytes \<Rightarrow> bool \<Rightarrow> ptr \<Rightarrow> shm \<Rightarrow> (ptr \<times> shm) option" where
  "get_node_at path create from s =
     (case strtok_r path SHM_PATH_SEPARATOR of (pch, save) \<Rightarrow> do {
        n \<leftarrow> get_tn from (sh_tree s);
        found \<leftarrow> shm_child s pch (tn_children n);
        case found of
          Some (child, snode) \<Rightarrow> if save = [] then Some (snode, s) else get_node_at save create child s
        | None \<Rightarrow>
            if create then do {
              name \<leftarrow> pch;
              (nnode, nsnode, s) \<leftarrow> new_shm_node name from s;
              if save = [] then Some (nsnode, s) else get_node_at save create nnode s
            } else Some (NULL, s)
      })"
  by pat_completeness auto

termination
  by (relation "measure (\<lambda>(path, create, from, s). length path)") (auto dest: strtok_r_rest [OF sym])

declare get_node_at.simps [simp del]

definition get_node :: "bytes \<Rightarrow> bool \<Rightarrow> shm \<Rightarrow> (ptr \<times> shm) option" where
  "get_node shm_path create s = get_node_at shm_path create (tr_root (sh_tree s)) s"


section \<open>Chunks\<close>

text \<open>
  The loop that takes the frames counts in 32 bits, so it ends only for fewer than \<open>2^32\<close> of them.
  A null result is the request for no bytes.
\<close>

definition create_chunk :: "ptr \<Rightarrow> u64 \<Rightarrow> shm \<Rightarrow> (ptr \<times> shm) option" where
  "create_chunk parent sz s =
     (if sz = 0 then Some (NULL, s)
      else case sh_supply s of
        [] \<Rightarrow> None
      | c # rest \<Rightarrow>
          let num_frames = sz div 0x1000 + (if sz mod 0x1000 \<noteq> 0 then 1 else 0);
              n = unat num_frames
          in if 2 ^ 32 \<le> n \<or> length (sh_frames s) < n then None
             else Some (c, s\<lparr>sh_supply := rest, sh_frames := drop n (sh_frames s),
                    sh_chunks := (sh_chunks s)(c \<mapsto>
                      \<lparr>ck_parent = parent, ck_ref_count = 1, ck_num_frames = num_frames,
                       ck_frames = take n (sh_frames s)\<rparr>)\<rparr>))"

definition release_chunk :: "ptr \<Rightarrow> shm \<Rightarrow> (int \<times> shm) option" where
  "release_chunk chunk s =
     (if chunk = NULL then Some (-1, s)
      else do {
        c \<leftarrow> sh_chunks s chunk;
        let c = c\<lparr>ck_ref_count := ck_ref_count c - 1\<rparr>;
        if sint (ck_ref_count c) < 1 then do {
          parent \<leftarrow> (if ck_parent c = NULL then None else sh_nodes s (ck_parent c));
          Some (0, s\<lparr>sh_released := sh_released s @ ck_frames c,
                     sh_nodes := (sh_nodes s)(ck_parent c \<mapsto> parent\<lparr>sn_chunk := NULL\<rparr>),
                     sh_chunks := (sh_chunks s)(chunk := None)\<rparr>)
        } else Some (0, s\<lparr>sh_chunks := (sh_chunks s)(chunk \<mapsto> c)\<rparr>)
      })"


section \<open>Mapping\<close>

definition proc_sbrk :: "32 word \<Rightarrow> shm_proc \<Rightarrow> u64 \<times> shm_proc" where
  "proc_sbrk num_pages p =
     (let initial = sp_shm_heap p;
          initial = (if initial AND 0xFFF \<noteq> 0 then initial + (0x1000 - (initial AND 0xFFF)) else initial)
      in (initial, p\<lparr>sp_shm_heap := initial + ucast (push_bit 12 num_pages)\<rparr>))"

definition map_page :: "u64 \<Rightarrow> u64 \<Rightarrow> shm_proc \<Rightarrow> shm_proc" where
  "map_page vaddr frame p = p\<lparr>sp_pages := (sp_pages p)(vaddr \<mapsto> frame)\<rparr>"

text \<open>The offset in a gap is a 32-bit shift.\<close>

definition gap_vaddr :: "u64 \<Rightarrow> nat \<Rightarrow> u64" where
  "gap_vaddr last_address i = last_address + ucast (push_bit 12 (of_nat i :: 32 word))"

fun map_frames :: "u64 \<Rightarrow> u64 list \<Rightarrow> nat \<Rightarrow> shm_proc \<Rightarrow> u64 list \<times> shm_proc" where
  "map_frames last_address [] i p = ([], p)"
| "map_frames last_address (f # fs) i p =
     (let v = gap_vaddr last_address i;
          (vs, p) = map_frames last_address fs (i + 1) (map_page v f p)
      in (v # vs, p))"

fun map_fresh :: "u64 list \<Rightarrow> shm_proc \<Rightarrow> u64 list \<times> shm_proc" where
  "map_fresh [] p = ([], p)"
| "map_fresh (f # fs) p =
     (let (v, p) = proc_sbrk 1 p;
          (vs, p) = map_fresh fs (map_page v f p)
      in (v # vs, p))"

text \<open>
  The first mapping whose start leaves a gap of the wanted size behind the one before it, or none and
  the end of the last mapping.
\<close>

fun find_gap :: "u64 \<Rightarrow> u64 \<Rightarrow> shm_mapping list \<Rightarrow> nat \<Rightarrow> nat option \<times> u64" where
  "find_gap want last_address [] i = (None, last_address)"
| "find_gap want last_address (m # ms) i =
     (if sm_vaddrs m ! 0 > last_address \<and> sm_vaddrs m ! 0 - last_address \<ge> want * 0x1000
      then (Some i, last_address)
      else find_gap want (sm_vaddrs m ! 0 + sm_num_vaddrs m * 0x1000) ms (i + 1))"

definition insert_at :: "nat \<Rightarrow> 'a \<Rightarrow> 'a list \<Rightarrow> 'a list" where
  "insert_at i x xs = take i xs @ x # drop i xs"

definition map_in :: "ptr \<Rightarrow> shm_chunk \<Rightarrow> shm_proc \<Rightarrow> u64 \<times> shm_proc" where
  "map_in chunk c p =
     (let num = ck_num_frames c;
          ms = sp_shm_mappings p
      in case find_gap num USER_SHM_LOW ms 0 of
           (Some i, last_address) \<Rightarrow>
             let (vs, p) = map_frames last_address (ck_frames c) 0 p
             in (vs ! 0, p\<lparr>sp_shm_mappings :=
                   insert_at i \<lparr>sm_chunk = chunk, sm_num_vaddrs = num, sm_vaddrs = vs\<rparr> ms\<rparr>)
         | (None, last_address) \<Rightarrow>
             let (vs, p) =
                   (if sp_shm_heap p > last_address \<and> sp_shm_heap p - last_address \<ge> num * 0x1000
                    then map_frames last_address (ck_frames c) 0 p
                    else map_fresh (ck_frames c) p)
             in (vs ! 0, p\<lparr>sp_shm_mappings :=
                   ms @ [\<lparr>sm_chunk = chunk, sm_num_vaddrs = num, sm_vaddrs = vs\<rparr>]\<rparr>))"

definition chunk_size :: "shm_chunk \<Rightarrow> u64" where
  "chunk_size c = ck_num_frames c * 0x1000"


section \<open>Obtaining and releasing\<close>

definition shm_self :: "shm \<Rightarrow> (ptr \<times> shm_proc) option" where
  "shm_self s = do {
     p \<leftarrow> (if sh_current s = NULL then None else sh_procs s (sh_current s));
     let proc = (if sp_group p \<noteq> 0 then sh_from_pid s (sp_group p) else sh_current s);
     p \<leftarrow> (if proc = NULL then None else sh_procs s proc);
     Some (proc, p)
   }"

text \<open>
  \<open>size\<close> is \<^term>\<open>None\<close> for a null pointer; the result is the mapped address and what was stored
  through the pointer.
\<close>

definition shm_obtain :: "bytes \<Rightarrow> u64 option \<Rightarrow> shm \<Rightarrow> ((u64 \<times> u64 option) \<times> shm) option" where
  "shm_obtain path sz s = do {
     (proc, p) \<leftarrow> shm_self s;
     (node, s) \<leftarrow> get_node path True s;
     nd \<leftarrow> (if node = NULL then None else sh_nodes s node);
     if sn_chunk nd = NULL \<and> sz = None then Some ((NULL, None), s)
     else do {
       (chunk, s) \<leftarrow>
         (if sn_chunk nd = NULL then do {
            n \<leftarrow> sz;
            (chunk, s) \<leftarrow> create_chunk node n s;
            Some (chunk, if chunk = NULL then s
                         else s\<lparr>sh_nodes := (sh_nodes s)(node \<mapsto> nd\<lparr>sn_chunk := chunk\<rparr>)\<rparr>)
          } else do {
            c \<leftarrow> sh_chunks s (sn_chunk nd);
            Some (sn_chunk nd, s\<lparr>sh_chunks := (sh_chunks s)(sn_chunk nd \<mapsto> c\<lparr>ck_ref_count := ck_ref_count c + 1\<rparr>)\<rparr>)
          });
       if chunk = NULL then Some ((NULL, sz), s)
       else do {
         c \<leftarrow> sh_chunks s chunk;
         let (start, p) = map_in chunk c p;
         n \<leftarrow> sz;
         Some ((start, Some (chunk_size c)), s\<lparr>sh_procs := (sh_procs s)(proc \<mapsto> p)\<rparr>)
       }
     }
   }"

text \<open>The first mapping of the chunk, as the search of the list finds it.\<close>

fun mapping_index :: "ptr \<Rightarrow> shm_mapping list \<Rightarrow> nat option" where
  "mapping_index chunk [] = None"
| "mapping_index chunk (m # ms) = (if sm_chunk m = chunk then Some 0 else map_option Suc (mapping_index chunk ms))"

definition unmap_pages :: "u64 list \<Rightarrow> shm_proc \<Rightarrow> shm_proc" where
  "unmap_pages vs p = p\<lparr>sp_pages := (\<lambda>v. if v \<in> set vs then None else sp_pages p v)\<rparr>"

definition shm_release :: "bytes \<Rightarrow> shm \<Rightarrow> (int \<times> shm) option" where
  "shm_release path s = do {
     (proc, p) \<leftarrow> shm_self s;
     (node, s) \<leftarrow> get_node path False s;
     if node = NULL then Some (1, s)
     else do {
       nd \<leftarrow> sh_nodes s node;
       case mapping_index (sn_chunk nd) (sp_shm_mappings p) of
         None \<Rightarrow> Some (1, s)
       | Some i \<Rightarrow> do {
           let m = sp_shm_mappings p ! i;
           let p = unmap_pages (take (unat (sm_num_vaddrs m)) (sm_vaddrs m)) p;
           (r, s) \<leftarrow> release_chunk (sn_chunk nd) s;
           let p = p\<lparr>sp_shm_mappings := take i (sp_shm_mappings p) @ drop (Suc i) (sp_shm_mappings p)\<rparr>;
           Some (0, s\<lparr>sh_procs := (sh_procs s)(proc \<mapsto> p)\<rparr>)
         }
     }
   }"

text \<open>The mappings are popped from the end of the list.\<close>

fun release_each :: "shm_mapping list \<Rightarrow> shm \<Rightarrow> shm option" where
  "release_each [] s = Some s"
| "release_each (m # ms) s = do {
     (r, s) \<leftarrow> release_chunk (sm_chunk m) s;
     release_each ms s
   }"

definition shm_release_all :: "ptr \<Rightarrow> shm \<Rightarrow> shm option" where
  "shm_release_all proc s = do {
     p \<leftarrow> (if proc = NULL then None else sh_procs s proc);
     s \<leftarrow> release_each (rev (sp_shm_mappings p)) s;
     Some (s\<lparr>sh_procs := (sh_procs s)(proc \<mapsto> p\<lparr>sp_shm_mappings := []\<rparr>)\<rparr>)
   }"


section \<open>The layout of the mapping area\<close>

definition map_start :: "shm_mapping \<Rightarrow> nat" where
  "map_start m = unat (sm_vaddrs m ! 0)"

definition map_span :: "shm_mapping \<Rightarrow> nat" where
  "map_span m = 4096 * unat (sm_num_vaddrs m)"

definition run_ok :: "shm_mapping \<Rightarrow> bool" where
  "run_ok m \<longleftrightarrow> 0 < unat (sm_num_vaddrs m) \<and>
     sm_vaddrs m = map (\<lambda>i. of_nat (map_start m + 4096 * i)) [0..<unat (sm_num_vaddrs m)]"

text \<open>The mappings lie one behind the other between two addresses.\<close>

fun maps_ok :: "nat \<Rightarrow> shm_mapping list \<Rightarrow> nat \<Rightarrow> bool" where
  "maps_ok lo [] hi \<longleftrightarrow> lo \<le> hi"
| "maps_ok lo (m # ms) hi \<longleftrightarrow> run_ok m \<and> lo \<le> map_start m \<and> maps_ok (map_start m + map_span m) ms hi"

definition area_ok :: "shm_proc \<Rightarrow> bool" where
  "area_ok p \<longleftrightarrow> maps_ok (unat USER_SHM_LOW) (sp_shm_mappings p) (unat (sp_shm_heap p)) \<and>
     sp_shm_heap p AND 0xFFF = 0"

lemma maps_ok_le: "maps_ok lo ms hi \<Longrightarrow> lo \<le> hi"
  by (induction ms arbitrary: lo) fastforce+

lemma maps_ok_mono: "maps_ok lo ms hi \<Longrightarrow> hi \<le> hi' \<Longrightarrow> maps_ok lo ms hi'"
  by (induction ms arbitrary: lo) auto

lemma maps_ok_append: "maps_ok lo xs mid \<Longrightarrow> maps_ok mid ys hi \<Longrightarrow> maps_ok lo (xs @ ys) hi"
proof (induction xs arbitrary: lo)
  case Nil
  then show ?case by (cases ys) auto
qed auto

lemma maps_ok_member:
  "maps_ok lo ms hi \<Longrightarrow> m \<in> set ms \<Longrightarrow> run_ok m \<and> lo \<le> map_start m \<and> map_start m + map_span m \<le> hi"
proof (induction ms arbitrary: lo)
  case (Cons a ms)
  then show ?case using maps_ok_le [of "map_start a + map_span a" ms hi] by fastforce
qed simp

lemma find_gap_Some:
  assumes "maps_ok (unat la) ms hi" and "hi < 2 ^ 64" and "4096 * unat want < 2 ^ 64"
    and "find_gap want la ms k = (Some j, a)"
  shows "\<exists>i. j = k + i \<and> i < length ms \<and> maps_ok (unat la) (take i ms) (unat a) \<and>
    maps_ok (unat a + 4096 * unat want) (drop i ms) hi"
  using assms
proof (induction want la ms k rule: find_gap.induct)
  case (2 want la m ms k)
  have st: "unat (sm_vaddrs m ! 0) = map_start m" by (simp add: map_start_def)
  have mul: "unat (want * 0x1000) = 4096 * unat want"
    using 2(4) by (simp add: unat_word_ariths mult.commute)
  show ?case
  proof (cases "sm_vaddrs m ! 0 > la \<and> sm_vaddrs m ! 0 - la \<ge> want * 0x1000")
    case True
    then have a: "a = la" "j = k" using 2(5) by simp_all
    have "4096 * unat want \<le> map_start m - unat la"
      using True st mul unat_sub_64 [of la "sm_vaddrs m ! 0"] by (auto simp: word_le_nat_alt word_less_nat_alt)
    moreover have "unat la < map_start m" using True st by (simp add: word_less_nat_alt)
    ultimately show ?thesis using a 2(2) by (intro exI [of _ 0]) auto
  next
    case False
    have ok: "run_ok m" "maps_ok (map_start m + map_span m) ms hi" using 2(2) by simp_all
    have le: "map_start m + map_span m < 2 ^ 64" using maps_ok_le [OF ok(2)] 2(3) by simp
    then have "unat (sm_num_vaddrs m * 0x1000) = map_span m"
      by (simp add: map_span_def unat_word_ariths mult.commute)
    then have e: "unat (sm_vaddrs m ! 0 + sm_num_vaddrs m * 0x1000) = map_start m + map_span m"
      using unat_add_64 [of "sm_vaddrs m ! 0" "sm_num_vaddrs m * 0x1000"] st le by simp
    have fg: "find_gap want (sm_vaddrs m ! 0 + sm_num_vaddrs m * 0x1000) ms (k + 1) = (Some j, a)"
      using 2(5) False by auto
    obtain i where "j = k + 1 + i" "i < length ms" "maps_ok (map_start m + map_span m) (take i ms) (unat a)"
        "maps_ok (unat a + 4096 * unat want) (drop i ms) hi"
      using 2(1) [OF False _ 2(3,4) fg] ok(2) e by auto
    then show ?thesis using 2(2) by (intro exI [of _ "Suc i"]) auto
  qed
qed simp

lemma find_gap_None:
  assumes "maps_ok (unat la) ms hi" and "hi < 2 ^ 64" and "find_gap want la ms k = (None, a)"
  shows "maps_ok (unat la) ms (unat a) \<and> unat a \<le> hi"
  using assms
proof (induction want la ms k rule: find_gap.induct)
  case (2 want la m ms k)
  have ok: "run_ok m" "maps_ok (map_start m + map_span m) ms hi" using 2(2) by simp_all
  have le: "map_start m + map_span m < 2 ^ 64" using maps_ok_le [OF ok(2)] 2(3) by simp
  then have "unat (sm_num_vaddrs m * 0x1000) = map_span m"
    by (simp add: map_span_def unat_word_ariths mult.commute)
  then have e: "unat (sm_vaddrs m ! 0 + sm_num_vaddrs m * 0x1000) = map_start m + map_span m"
    using unat_add_64 [of "sm_vaddrs m ! 0" "sm_num_vaddrs m * 0x1000"] le by (simp add: map_start_def)
  have c: "\<not> (sm_vaddrs m ! 0 > la \<and> sm_vaddrs m ! 0 - la \<ge> want * 0x1000)" using 2(4) by auto
  have fg: "find_gap want (sm_vaddrs m ! 0 + sm_num_vaddrs m * 0x1000) ms (k + 1) = (None, a)"
    using 2(4) c by auto
  show ?case using 2(1) [OF c _ 2(3) fg] ok e 2(2) by simp
qed simp

text \<open>The addresses that the two loops produce.\<close>

lemma gap_vaddr_eq:
  assumes "i < 2 ^ 20"
  shows "gap_vaddr a i = a + of_nat (4096 * i)"
proof -
  have "unat (push_bit 12 (of_nat i :: 32 word)) = 4096 * i"
    using assms by (simp add: push_bit_eq_mult unat_word_ariths unat_of_nat mult.commute)
  then have "(ucast (push_bit 12 (of_nat i :: 32 word)) :: u64) = of_nat (4096 * i)"
    by (metis of_nat_unat)
  then show ?thesis by (simp add: gap_vaddr_def)
qed

lemma map_frames_eq:
  "map_frames a fs i p = (map (\<lambda>j. gap_vaddr a (i + j)) [0..<length fs],
     p\<lparr>sp_pages := foldl (\<lambda>g (v, f). g(v \<mapsto> f)) (sp_pages p) (zip (map (\<lambda>j. gap_vaddr a (i + j)) [0..<length fs]) fs)\<rparr>)"
proof (induction fs arbitrary: i p)
  case (Cons f fs)
  have "[0..<length (f # fs)] = 0 # map Suc [0..<length fs]"
    by (simp add: map_Suc_upt upt_conv_Cons del: upt_Suc)
  then show ?case using Cons [of "i + 1" "map_page (gap_vaddr a i) f p"]
    by (simp add: map_page_def Let_def o_def del: upt_Suc)
qed simp

lemma add_page_aligned: "(w + 0x1000) AND 0xFFF = w AND 0xFFF" for w :: u64
proof -
  have m: "(0xFFF :: u64) = mask 12" by (simp add: mask_eq_exp_minus_1)
  have "unat (take_bit 12 (w + 0x1000)) = take_bit 12 (take_bit 64 (unat w + 4096))"
    by (simp add: unsigned_take_bit_eq unat_word_ariths take_bit_eq_mod)
  also have "\<dots> = take_bit 12 (unat w + 4096)" by simp
  also have "\<dots> = take_bit 12 (unat w)" by (simp add: take_bit_eq_mod)
  also have "\<dots> = unat (take_bit 12 w)" by (simp add: unsigned_take_bit_eq)
  finally have "take_bit 12 (w + 0x1000) = take_bit 12 w" by (rule word_unat_eq_iff [THEN iffD2])
  then show ?thesis unfolding m take_bit_eq_mask .
qed

lemma map_fresh_eq:
  assumes "sp_shm_heap p AND 0xFFF = 0"
  shows "map_fresh fs p = (map (\<lambda>j. sp_shm_heap p + of_nat (4096 * j)) [0..<length fs],
     p\<lparr>sp_shm_heap := sp_shm_heap p + of_nat (4096 * length fs),
       sp_pages := foldl (\<lambda>g (v, f). g(v \<mapsto> f)) (sp_pages p)
         (zip (map (\<lambda>j. sp_shm_heap p + of_nat (4096 * j)) [0..<length fs]) fs)\<rparr>)"
  using assms
proof (induction fs arbitrary: p)
  case (Cons f fs)
  have "[0..<length (f # fs)] = 0 # map Suc [0..<length fs]"
    by (simp add: map_Suc_upt upt_conv_Cons del: upt_Suc)
  moreover have "(sp_shm_heap p + 0x1000) AND 0xFFF = 0" using Cons.prems add_page_aligned by simp
  moreover have "proc_sbrk 1 p = (sp_shm_heap p, p\<lparr>sp_shm_heap := sp_shm_heap p + 0x1000\<rparr>)"
    using Cons.prems by (simp add: proc_sbrk_def push_bit_eq_mult Let_def)
  ultimately show ?case using Cons.IH [of "map_page (sp_shm_heap p) f (p\<lparr>sp_shm_heap := sp_shm_heap p + 0x1000\<rparr>)"]
    by (simp add: map_page_def Let_def o_def algebra_simps del: upt_Suc)
qed simp

lemma add_pages_aligned: "w AND 0xFFF = 0 \<Longrightarrow> (w + of_nat (4096 * n)) AND 0xFFF = 0" for w :: u64
proof (induction n)
  case (Suc n)
  have "w + of_nat (4096 * Suc n) = (w + of_nat (4096 * n)) + 0x1000" by (simp add: algebra_simps)
  then show ?case using Suc add_page_aligned [of "w + of_nat (4096 * n)"] by (simp only:)
qed simp

lemma run_ok_pages:
  assumes "sm_vaddrs m = map (\<lambda>j. a + of_nat (4096 * j)) [0..<unat (sm_num_vaddrs m)]" and "0 < unat (sm_num_vaddrs m)"
  shows "run_ok m \<and> map_start m = unat a"
proof -
  have s: "sm_vaddrs m ! 0 = a" using assms by simp
  have "a + of_nat (4096 * j) = of_nat (unat a + 4096 * j)" for j by simp
  then show ?thesis using assms s by (simp add: run_ok_def map_start_def)
qed

text \<open>What one more mapping does to a process.\<close>

definition mapped :: "ptr \<Rightarrow> shm_chunk \<Rightarrow> shm_proc \<Rightarrow> nat \<Rightarrow> shm_mapping \<Rightarrow> shm_proc \<Rightarrow> bool" where
  "mapped chunk c p i m p' \<longleftrightarrow>
     sp_shm_mappings p' = insert_at i m (sp_shm_mappings p) \<and> i \<le> length (sp_shm_mappings p) \<and>
     sm_chunk m = chunk \<and> sm_num_vaddrs m = ck_num_frames c \<and> run_ok m \<and> area_ok p' \<and>
     sp_pages p' = foldl (\<lambda>g (v, f). g(v \<mapsto> f)) (sp_pages p) (zip (sm_vaddrs m) (ck_frames c)) \<and>
     sp_group p' = sp_group p \<and>
     (sp_shm_heap p' = sp_shm_heap p \<or>
      map_start m = unat (sp_shm_heap p) \<and> unat (sp_shm_heap p') = unat (sp_shm_heap p) + map_span m)"

lemma insert_at_end: "insert_at (length xs) x xs = xs @ [x]"
  by (simp add: insert_at_def)

lemma map_in_spec:
  assumes area: "area_ok p" and n: "length (ck_frames c) = unat (ck_num_frames c)" "0 < unat (ck_num_frames c)"
      "unat (ck_num_frames c) \<le> 2 ^ 20"
    and room: "unat (sp_shm_heap p) + 4096 * unat (ck_num_frames c) < 2 ^ 64"
  obtains i m p' where "map_in chunk c p = (sm_vaddrs m ! 0, p')" and "mapped chunk c p i m p'"
proof -
  let ?n = "unat (ck_num_frames c)" and ?ms = "sp_shm_mappings p" and ?h = "sp_shm_heap p"
  have ok: "maps_ok (unat USER_SHM_LOW) ?ms (unat ?h)" and al: "?h AND 0xFFF = 0" using area by (simp_all add: area_ok_def)
  have hb: "unat ?h < 2 ^ 64" and wb: "4096 * ?n < 2 ^ 64" using room by simp_all
  have gap: "map_frames a (ck_frames c) 0 p = (vs, p\<lparr>sp_pages := foldl (\<lambda>g (v, f). g(v \<mapsto> f)) (sp_pages p) (zip vs (ck_frames c))\<rparr>)"
    if "vs = map (\<lambda>j. a + of_nat (4096 * j)) [0..<?n]" for a vs
  proof -
    have "map (\<lambda>j. gap_vaddr a (0 + j)) [0..<length (ck_frames c)] = vs"
      unfolding that n(1) using n(3) gap_vaddr_eq by (intro map_cong refl) simp
    then show ?thesis using map_frames_eq [of a "ck_frames c" 0 p] by simp
  qed
  show thesis
  proof (cases "find_gap (ck_num_frames c) USER_SHM_LOW ?ms 0")
    case (Pair r a)
    define vs where "vs = map (\<lambda>j. a + of_nat (4096 * j)) [0..<?n]"
    define m where "m = \<lparr>sm_chunk = chunk, sm_num_vaddrs = ck_num_frames c, sm_vaddrs = vs\<rparr>"
    have run: "run_ok m" "map_start m = unat a" using run_ok_pages [of m a] n(2) by (simp_all add: m_def vs_def)
    have span: "map_span m = 4096 * ?n" by (simp add: map_span_def m_def)
    show thesis
    proof (cases r)
      case (Some i)
      then have i: "i < length ?ms" "maps_ok (unat USER_SHM_LOW) (take i ?ms) (unat a)"
          "maps_ok (unat a + 4096 * ?n) (drop i ?ms) (unat ?h)"
        using find_gap_Some [OF ok hb wb, of 0 i a] Pair by auto
      have "maps_ok (unat USER_SHM_LOW) (insert_at i m ?ms) (unat ?h)"
        unfolding insert_at_def using i run span by (intro maps_ok_append [OF i(2)]) simp
      then show thesis
        using Pair Some gap [OF vs_def] i(1) al run
        by (intro that [of m _ i]) (auto simp: map_in_def mapped_def area_ok_def m_def)
    next
      case None
      then have a: "maps_ok (unat USER_SHM_LOW) ?ms (unat a)" "unat a \<le> unat ?h"
        using find_gap_None [OF ok hb, of "ck_num_frames c" 0 a] Pair by auto
      show thesis
      proof (cases "?h > a \<and> ?h - a \<ge> ck_num_frames c * 0x1000")
        case True
        have "unat (ck_num_frames c * 0x1000) = 4096 * ?n" using wb by (simp add: unat_word_ariths mult.commute)
        then have fit: "unat a + 4096 * ?n \<le> unat ?h"
          using True unat_sub_64 [of a ?h] by (auto simp: word_le_nat_alt word_less_nat_alt)
        have "maps_ok (unat USER_SHM_LOW) (?ms @ [m]) (unat ?h)"
          using run span fit by (intro maps_ok_append [OF a(1)]) simp
        then show thesis
          using Pair None gap [OF vs_def] True al run
          by (intro that [of m _ "length ?ms"]) (auto simp: map_in_def mapped_def area_ok_def m_def insert_at_end)
      next
        case False
        define us where "us = map (\<lambda>j. ?h + of_nat (4096 * j)) [0..<?n]"
        define k where "k = \<lparr>sm_chunk = chunk, sm_num_vaddrs = ck_num_frames c, sm_vaddrs = us\<rparr>"
        have run: "run_ok k" "map_start k = unat ?h" using run_ok_pages [of k ?h] n(2) by (simp_all add: k_def us_def)
        have span: "map_span k = 4096 * ?n" by (simp add: map_span_def k_def)
        have h': "unat (?h + of_nat (4096 * ?n)) = unat ?h + 4096 * ?n"
          using unat_add_64 [of ?h "of_nat (4096 * ?n)"] unat_of_nat_64 [of "4096 * ?n"] room by simp
        have fr: "map_fresh (ck_frames c) p = (us, p\<lparr>sp_shm_heap := ?h + of_nat (4096 * ?n),
            sp_pages := foldl (\<lambda>g (v, f). g(v \<mapsto> f)) (sp_pages p) (zip us (ck_frames c))\<rparr>)"
          using map_fresh_eq [OF al, of "ck_frames c"] n(1) us_def by simp
        have "maps_ok (unat USER_SHM_LOW) ?ms (unat ?h)" using ok .
        then have "maps_ok (unat USER_SHM_LOW) (?ms @ [k]) (unat ?h + 4096 * ?n)"
          using run span by (intro maps_ok_append [OF ok]) simp
        then show thesis
          using Pair None fr False al run h' add_pages_aligned [OF al, of ?n]
          by (intro that [of k _ "length ?ms"])
            (use span in \<open>auto simp: map_in_def mapped_def area_ok_def k_def insert_at_end Let_def\<close>)
      qed
    qed
  qed
qed

section \<open>Reference counts\<close>

text \<open>
  \<open>u c\<close> is the number of mappings of the chunk at \<open>c\<close>: the chunks that exist are those with
  mappings, their count is that number, and a chunk and the node of its name refer to each other.
\<close>

definition ref_ok :: "(ptr \<Rightarrow> nat) \<Rightarrow> shm \<Rightarrow> bool" where
  "ref_ok u s \<longleftrightarrow>
     (\<forall>c. sh_chunks s c = None \<longrightarrow> u c = 0) \<and>
     (\<forall>c k. sh_chunks s c = Some k \<longrightarrow> c \<noteq> NULL \<and> 0 < u c \<and> u c < 2 ^ 63 \<and> ck_ref_count k = of_nat (u c) \<and>
        ck_parent k \<noteq> NULL \<and> (\<exists>nd. sh_nodes s (ck_parent k) = Some nd \<and> sn_chunk nd = c)) \<and>
     (\<forall>n nd. sh_nodes s n = Some nd \<and> sn_chunk nd \<noteq> NULL \<longrightarrow>
        (\<exists>k. sh_chunks s (sn_chunk nd) = Some k \<and> ck_parent k = n)) \<and>
     distinct (sh_supply s) \<and>
     (\<forall>a \<in> set (sh_supply s). a \<noteq> NULL \<and> sh_nodes s a = None \<and> sh_chunks s a = None)"

lemma ref_okD:
  assumes "ref_ok u s"
  shows "sh_chunks s c = None \<Longrightarrow> u c = 0"
    and "sh_chunks s c = Some k \<Longrightarrow> c \<noteq> NULL \<and> 0 < u c \<and> u c < 2 ^ 63 \<and> ck_ref_count k = of_nat (u c)"
    and "sh_chunks s c = Some k \<Longrightarrow> ck_parent k \<noteq> NULL \<and> (\<exists>nd. sh_nodes s (ck_parent k) = Some nd \<and> sn_chunk nd = c)"
    and "sh_nodes s n = Some nd \<Longrightarrow> sn_chunk nd \<noteq> NULL \<Longrightarrow> \<exists>k. sh_chunks s (sn_chunk nd) = Some k \<and> ck_parent k = n"
    and "distinct (sh_supply s)"
    and "a \<in> set (sh_supply s) \<Longrightarrow> a \<noteq> NULL \<and> sh_nodes s a = None \<and> sh_chunks s a = None"
  using assms unfolding ref_ok_def by blast+

lemma ref_okI:
  assumes "\<And>c. sh_chunks s c = None \<Longrightarrow> u c = 0"
    and "\<And>c k. sh_chunks s c = Some k \<Longrightarrow> c \<noteq> NULL \<and> 0 < u c \<and> u c < 2 ^ 63 \<and> ck_ref_count k = of_nat (u c)"
    and "\<And>c k. sh_chunks s c = Some k \<Longrightarrow> ck_parent k \<noteq> NULL \<and> (\<exists>nd. sh_nodes s (ck_parent k) = Some nd \<and> sn_chunk nd = c)"
    and "\<And>n nd. sh_nodes s n = Some nd \<Longrightarrow> sn_chunk nd \<noteq> NULL \<Longrightarrow> \<exists>k. sh_chunks s (sn_chunk nd) = Some k \<and> ck_parent k = n"
    and "distinct (sh_supply s)"
    and "\<And>a. a \<in> set (sh_supply s) \<Longrightarrow> a \<noteq> NULL \<and> sh_nodes s a = None \<and> sh_chunks s a = None"
  shows "ref_ok u s"
  using assms unfolding ref_ok_def by blast

lemma release_chunk_spec:
  assumes ok: "ref_ok u s" and c: "0 < u c"
  obtains s' where "release_chunk c s = Some (0, s')" and "ref_ok (u(c := u c - 1)) s'"
    and "sh_procs s' = sh_procs s" and "sh_supply s' = sh_supply s"
proof -
  obtain k where k: "sh_chunks s c = Some k" using ref_okD(1) [OF ok] c by fastforce
  have f: "c \<noteq> NULL" "u c < 2 ^ 63" "ck_ref_count k = of_nat (u c)" using ref_okD(2) [OF ok k] by auto
  obtain nd where nd: "ck_parent k \<noteq> NULL" "sh_nodes s (ck_parent k) = Some nd" "sn_chunk nd = c"
    using ref_okD(3) [OF ok k] by auto
  have cnt: "ck_ref_count k - 1 = of_nat (u c - 1)" using f(3) c by (simp add: of_nat_diff)
  have sgn: "sint (ck_ref_count k - 1) < 1 \<longleftrightarrow> u c = 1"
    unfolding cnt using sint_of_nat_63 [of "u c - 1"] f(2) c by auto
  show thesis
  proof (cases "u c = 1")
    case True
    let ?s = "s\<lparr>sh_released := sh_released s @ ck_frames k,
        sh_nodes := (sh_nodes s)(ck_parent k \<mapsto> nd\<lparr>sn_chunk := NULL\<rparr>), sh_chunks := (sh_chunks s)(c := None)\<rparr>"
    have run: "release_chunk c s = Some (0, ?s)"
      using f(1) k nd sgn True by (simp add: release_chunk_def Let_def)
    have "ref_ok (u(c := u c - 1)) ?s"
    proof (rule ref_okI)
      show "(u(c := u c - 1)) b = 0" if "sh_chunks ?s b = None" for b
        using that True ref_okD(1) [OF ok, of b] by (auto split: if_splits)
      show "ck_parent j \<noteq> NULL \<and> (\<exists>md. sh_nodes ?s (ck_parent j) = Some md \<and> sn_chunk md = b)"
        if j: "sh_chunks ?s b = Some j" for b j
        using j ref_okD(3) [OF ok, of b j] nd by (auto split: if_splits)
      show "\<exists>j. sh_chunks ?s (sn_chunk md) = Some j \<and> ck_parent j = n"
        if "sh_nodes ?s n = Some md" "sn_chunk md \<noteq> NULL" for n md
        using that ref_okD(4) [OF ok, of n md] k by (auto split: if_splits)
      show "b \<noteq> NULL \<and> sh_nodes ?s b = None \<and> sh_chunks ?s b = None" if "b \<in> set (sh_supply ?s)" for b
        using that ref_okD(6) [OF ok, of b] nd(2) by auto
    qed (use ref_okD(2,5) [OF ok] in \<open>auto split: if_splits\<close>)
    then show thesis by (intro that [OF run]) simp_all
  next
    case False
    let ?s = "s\<lparr>sh_chunks := (sh_chunks s)(c \<mapsto> k\<lparr>ck_ref_count := ck_ref_count k - 1\<rparr>)\<rparr>"
    have run: "release_chunk c s = Some (0, ?s)"
      using f(1) k sgn False by (simp add: release_chunk_def Let_def)
    have "ref_ok (u(c := u c - 1)) ?s"
    proof (rule ref_okI)
      show "b \<noteq> NULL \<and> 0 < (u(c := u c - 1)) b \<and> (u(c := u c - 1)) b < 2 ^ 63 \<and> ck_ref_count j = of_nat ((u(c := u c - 1)) b)"
        if j: "sh_chunks ?s b = Some j" for b j
      proof (cases "b = c")
        case True
        then show ?thesis using j f c False cnt by auto
      next
        case False
        then show ?thesis using j ref_okD(2) [OF ok, of b j] by simp
      qed
      show "ck_parent j \<noteq> NULL \<and> (\<exists>md. sh_nodes ?s (ck_parent j) = Some md \<and> sn_chunk md = b)"
        if "sh_chunks ?s b = Some j" for b j
        using that ref_okD(3) [OF ok, of b] k nd by (auto split: if_splits)
      show "\<exists>j. sh_chunks ?s (sn_chunk md) = Some j \<and> ck_parent j = n"
        if "sh_nodes ?s n = Some md" "sn_chunk md \<noteq> NULL" for n md
        using that ref_okD(4) [OF ok, of n md] k by auto
      show "b \<noteq> NULL \<and> sh_nodes ?s b = None \<and> sh_chunks ?s b = None" if "b \<in> set (sh_supply ?s)" for b
        using that ref_okD(6) [OF ok, of b] k by auto
    qed (use ref_okD(1,5) [OF ok] in \<open>auto split: if_splits\<close>)
    then show thesis by (intro that [OF run]) simp_all
  qed
qed

lemma release_each_spec:
  assumes "ref_ok (\<lambda>c. count_list (map sm_chunk ms) c + u c) s"
  shows "\<exists>s'. release_each ms s = Some s' \<and> ref_ok u s' \<and> sh_procs s' = sh_procs s"
  using assms
proof (induction ms arbitrary: s)
  case (Cons m ms)
  let ?u = "\<lambda>c. count_list (map sm_chunk (m # ms)) c + u c"
  obtain s1 where s1: "release_chunk (sm_chunk m) s = Some (0, s1)" "ref_ok (?u(sm_chunk m := ?u (sm_chunk m) - 1)) s1"
      "sh_procs s1 = sh_procs s"
    using release_chunk_spec [OF Cons.prems, of "sm_chunk m"] by auto
  have "?u(sm_chunk m := ?u (sm_chunk m) - 1) = (\<lambda>c. count_list (map sm_chunk ms) c + u c)" by auto
  then show ?case using Cons.IH [of s1] s1 by simp
qed simp

text \<open>The mappings of all processes.\<close>

definition uses :: "shm \<Rightarrow> ptr \<Rightarrow> nat" where
  "uses s c = (\<Sum>q \<in> dom (sh_procs s). count_list (map sm_chunk (sp_shm_mappings (the (sh_procs s q)))) c)"

lemma uses_update:
  assumes "finite (dom (sh_procs s))" and "sh_procs s q = Some p" and "sh_procs s' = (sh_procs s)(q \<mapsto> p')"
  shows "uses s' c + count_list (map sm_chunk (sp_shm_mappings p)) c = uses s c + count_list (map sm_chunk (sp_shm_mappings p')) c"
proof -
  have q: "q \<in> dom (sh_procs s)" using assms(2) by auto
  have d: "dom (sh_procs s') = dom (sh_procs s)" using assms(2,3) by auto
  have "(\<Sum>r \<in> dom (sh_procs s) - {q}. count_list (map sm_chunk (sp_shm_mappings (the (sh_procs s' r)))) c) =
      (\<Sum>r \<in> dom (sh_procs s) - {q}. count_list (map sm_chunk (sp_shm_mappings (the (sh_procs s r)))) c)"
    using assms(3) by (intro sum.cong) auto
  then show ?thesis
    unfolding uses_def d using sum.remove [OF assms(1) q, of "\<lambda>r. count_list (map sm_chunk (sp_shm_mappings (the (sh_procs s r)))) c"]
      sum.remove [OF assms(1) q, of "\<lambda>r. count_list (map sm_chunk (sp_shm_mappings (the (sh_procs s' r)))) c"] assms(2,3)
    by simp
qed

lemma uses_eq: "sh_procs s' = sh_procs s \<Longrightarrow> uses s' = uses s"
  unfolding uses_def by presburger

definition shm_inv :: "shm \<Rightarrow> bool" where
  "shm_inv s \<longleftrightarrow> finite (dom (sh_procs s)) \<and> ref_ok (uses s) s \<and>
     (\<forall>q p. sh_procs s q = Some p \<longrightarrow> area_ok p)"

lemma maps_ok_drop1: "maps_ok lo (xs @ m # ys) hi \<Longrightarrow> maps_ok lo (xs @ ys) hi"
proof (induction xs arbitrary: lo)
  case Nil
  then have "lo \<le> map_start m + map_span m" "maps_ok (map_start m + map_span m) ys hi" by simp_all
  then show ?case by (cases ys) auto
qed auto

lemma shm_release_all_spec:
  assumes inv: "shm_inv s" and p: "sh_procs s q = Some p" "q \<noteq> NULL"
  obtains s' where "shm_release_all q s = Some s'" and "shm_inv s'"
    and "\<And>c. uses s' c = uses s c - count_list (map sm_chunk (sp_shm_mappings p)) c"
    and "sh_procs s' = (sh_procs s)(q \<mapsto> p\<lparr>sp_shm_mappings := []\<rparr>)"
proof -
  have fin: "finite (dom (sh_procs s))" and ok: "ref_ok (uses s) s" and ar: "\<And>q p. sh_procs s q = Some p \<Longrightarrow> area_ok p"
    using inv by (auto simp: shm_inv_def)
  let ?cnt = "count_list (map sm_chunk (sp_shm_mappings p))"
  let ?u = "\<lambda>c. uses s c - ?cnt c"
  have rest: "uses s2 c + ?cnt c = uses s c" if "sh_procs s2 = (sh_procs s)(q \<mapsto> p\<lparr>sp_shm_mappings := []\<rparr>)" for s2 c
    using uses_update [OF fin p(1) that, of c] by simp
  have le: "?cnt c \<le> uses s c" for c
    using rest [of "s\<lparr>sh_procs := (sh_procs s)(q \<mapsto> p\<lparr>sp_shm_mappings := []\<rparr>)\<rparr>" c] by simp
  have rc: "count_list (map sm_chunk (rev ms)) c = count_list (map sm_chunk ms) c" for ms c
    by (induction ms) simp_all
  have "ref_ok (\<lambda>c. count_list (map sm_chunk (rev (sp_shm_mappings p))) c + ?u c) s"
    using ok le by (simp add: rc)
  then obtain s1 where s1: "release_each (rev (sp_shm_mappings p)) s = Some s1" "ref_ok ?u s1" "sh_procs s1 = sh_procs s"
    by (auto dest: release_each_spec)
  let ?s = "s1\<lparr>sh_procs := (sh_procs s1)(q \<mapsto> p\<lparr>sp_shm_mappings := []\<rparr>)\<rparr>"
  have pr: "sh_procs ?s = (sh_procs s)(q \<mapsto> p\<lparr>sp_shm_mappings := []\<rparr>)" using s1(3) by simp
  have u: "uses ?s c = ?u c" for c using rest [OF pr, of c] by simp
  then have "uses ?s = ?u" by (simp add: fun_eq_iff)
  then have "ref_ok (uses ?s) ?s" using s1(2) by (simp add: ref_ok_def)
  moreover have "area_ok (p\<lparr>sp_shm_mappings := []\<rparr>)"
    using ar [OF p(1)] maps_ok_le by (auto simp: area_ok_def)
  ultimately have "shm_inv ?s" unfolding shm_inv_def using fin ar pr by auto
  moreover have "shm_release_all q s = Some ?s" using s1(1) p by (simp add: shm_release_all_def)
  ultimately show thesis using that [of ?s] u pr by simp
qed

text \<open>The search by name leaves chunks and processes alone.\<close>

lemma shm_child_Some:
  "shm_child s pch cs = Some (Some (c, v)) \<Longrightarrow> v \<noteq> NULL \<and> sh_nodes s v \<noteq> None"
proof (induction cs)
  case (Cons d cs)
  then show ?case by (auto simp: fault_simps split: if_splits)
qed simp

definition named_ext :: "(ptr \<Rightarrow> nat) \<Rightarrow> shm \<Rightarrow> shm \<Rightarrow> bool" where
  "named_ext u s s' \<longleftrightarrow> ref_ok u s' \<and> sh_chunks s' = sh_chunks s \<and> sh_procs s' = sh_procs s \<and>
     sh_frames s' = sh_frames s \<and> sh_nodes s \<subseteq>\<^sub>m sh_nodes s'"

lemma new_shm_node_spec:
  assumes ok: "ref_ok u s" and run: "new_shm_node name from s = Some (a, e, s')"
  shows "named_ext u s s' \<and> e \<noteq> NULL \<and> sh_nodes s' e \<noteq> None"
proof -
  obtain a' rest t where sup: "sh_supply s = e # a' # rest"
      "s' = s\<lparr>sh_supply := rest, sh_nodes := (sh_nodes s)(e \<mapsto> \<lparr>sn_name = name, sn_chunk = NULL\<rparr>), sh_tree := t\<rparr>"
    using run by (auto simp: new_shm_node_def fault_simps split: list.splits if_splits)
  have fresh: "e \<noteq> NULL" "sh_nodes s e = None" "sh_chunks s e = None" using ref_okD(6) [OF ok, of e] sup(1) by auto
  have "ref_ok u s'"
  proof (rule ref_okI)
    show "ck_parent k \<noteq> NULL \<and> (\<exists>nd. sh_nodes s' (ck_parent k) = Some nd \<and> sn_chunk nd = c)"
      if "sh_chunks s' c = Some k" for c k
      using that ref_okD(3) [OF ok, of c k] sup(2) fresh(2) by auto
    show "\<exists>k. sh_chunks s' (sn_chunk nd) = Some k \<and> ck_parent k = n"
      if "sh_nodes s' n = Some nd" "sn_chunk nd \<noteq> NULL" for n nd
      using that ref_okD(4) [OF ok, of n nd] sup(2) by (auto split: if_splits)
    show "b \<noteq> NULL \<and> sh_nodes s' b = None \<and> sh_chunks s' b = None" if "b \<in> set (sh_supply s')" for b
      using that ref_okD(5) [OF ok] ref_okD(6) [OF ok, of b] sup by auto
  qed (use ref_okD(1,2,5) [OF ok] sup in auto)
  then show ?thesis using sup(2) fresh by (auto simp: named_ext_def map_le_def)
qed

lemma named_ext_refl: "ref_ok u s \<Longrightarrow> named_ext u s s"
  by (simp add: named_ext_def)

lemma named_ext_trans: "named_ext u a b \<Longrightarrow> named_ext u b c \<Longrightarrow> named_ext u a c"
  by (auto simp: named_ext_def intro: map_le_trans)

lemma get_node_at_spec:
  "ref_ok u s \<Longrightarrow> get_node_at path create from s = Some (r, s') \<Longrightarrow>
   named_ext u s s' \<and> (r \<noteq> NULL \<longrightarrow> sh_nodes s' r \<noteq> None) \<and> (create \<longrightarrow> r \<noteq> NULL) \<and> (\<not> create \<longrightarrow> s' = s)"
proof (induction path create "from" s arbitrary: r s' rule: get_node_at.induct)
  case (1 path create "from" s)
  obtain pch save where tk: "strtok_r path SHM_PATH_SEPARATOR = (pch, save)" by (cases "strtok_r path SHM_PATH_SEPARATOR")
  obtain n found where n: "get_tn from (sh_tree s) = Some n" "shm_child s pch (tn_children n) = Some found"
    using "1.prems"(2) tk by (subst (asm) get_node_at.simps) (auto simp: fault_simps)
  show ?case
  proof (cases found)
    case (Some cv)
    obtain c v where cv: "cv = (c, v)" by (cases cv)
    have v: "v \<noteq> NULL" "sh_nodes s v \<noteq> None" using shm_child_Some n(2) Some cv by blast+
    have run: "(if save = [] then Some (v, s) else get_node_at save create c s) = Some (r, s')"
      using "1.prems"(2) tk n Some cv by (subst (asm) get_node_at.simps) simp
    show ?thesis
    proof (cases "save = []")
      case True
      then show ?thesis using run v named_ext_refl [OF "1.prems"(1)] by auto
    next
      case False
      then show ?thesis using "1.IH"(2) [OF tk [symmetric] n Some cv [symmetric] False "1.prems"(1)] run by simp
    qed
  next
    case None
    show ?thesis
    proof (cases create)
      case False
      then have "r = NULL \<and> s' = s" using "1.prems"(2) tk n None by (subst (asm) get_node_at.simps) simp
      then show ?thesis using False named_ext_refl [OF "1.prems"(1)] by simp
    next
      case True
      obtain name a e s1 where nw: "pch = Some name" "new_shm_node name from s = Some (a, e, s1)"
          "(if save = [] then Some (e, s1) else get_node_at save create a s1) = Some (r, s')"
        using "1.prems"(2) tk n None True by (subst (asm) get_node_at.simps) (auto simp: fault_simps)
      have ne: "named_ext u s s1" "e \<noteq> NULL" "sh_nodes s1 e \<noteq> None" using new_shm_node_spec [OF "1.prems"(1) nw(2)] by auto
      show ?thesis
      proof (cases "save = []")
        case True
        then show ?thesis using nw(3) ne \<open>create\<close> by auto
      next
        case False
        have ok1: "ref_ok u s1" using ne(1) by (simp add: named_ext_def)
        have "named_ext u s1 s' \<and> (r \<noteq> NULL \<longrightarrow> sh_nodes s' r \<noteq> None) \<and> (create \<longrightarrow> r \<noteq> NULL) \<and> (\<not> create \<longrightarrow> s' = s1)"
          using "1.IH"(1) [OF tk [symmetric] n None True nw(1,2) refl refl False ok1] nw(3) False by simp
        then show ?thesis using named_ext_trans [OF ne(1)] True by blast
      qed
    qed
  qed
qed

text \<open>The mapping of a chunk that is counted already, put into the process.\<close>

lemma count_insert_at: "count_list (map f (insert_at i x xs)) c = count_list (map f xs) c + (if f x = c then 1 else 0)"
proof -
  have "count_list (map f xs) c = count_list (map f (take i xs @ drop i xs)) c" by simp
  also have "\<dots> = count_list (map f (take i xs)) c + count_list (map f (drop i xs)) c" by (simp del: append_take_drop_id)
  finally show ?thesis by (simp add: insert_at_def)
qed

definition chunk_ok :: "shm_chunk \<Rightarrow> bool" where
  "chunk_ok k \<longleftrightarrow> length (ck_frames k) = unat (ck_num_frames k) \<and> 0 < unat (ck_num_frames k) \<and> unat (ck_num_frames k) \<le> 2 ^ 20"

lemma map_in_shm:
  assumes fin: "finite (dom (sh_procs s))" and ar: "\<And>q p. sh_procs s q = Some p \<Longrightarrow> area_ok p"
    and ok: "ref_ok ((uses s)(c := uses s c + 1)) s"
    and q: "sh_procs s q = Some p" and k: "chunk_ok k"
    and room: "unat (sp_shm_heap p) + 4096 * unat (ck_num_frames k) < 2 ^ 64"
  obtains i m p' where "map_in c k p = (sm_vaddrs m ! 0, p')" and "mapped c k p i m p'"
    and "shm_inv (s\<lparr>sh_procs := (sh_procs s)(q \<mapsto> p')\<rparr>)"
    and "uses (s\<lparr>sh_procs := (sh_procs s)(q \<mapsto> p')\<rparr>) = (uses s)(c := uses s c + 1)"
proof -
  have k': "length (ck_frames k) = unat (ck_num_frames k)" "0 < unat (ck_num_frames k)" "unat (ck_num_frames k) \<le> 2 ^ 20"
    using k by (simp_all add: chunk_ok_def)
  obtain i m p' where mp: "map_in c k p = (sm_vaddrs m ! 0, p')" "mapped c k p i m p'"
    by (rule map_in_spec [OF ar [OF q] k' room])
  let ?s = "s\<lparr>sh_procs := (sh_procs s)(q \<mapsto> p')\<rparr>"
  have pr: "sh_procs ?s = (sh_procs s)(q \<mapsto> p')" by simp
  have "uses ?s b = ((uses s)(c := uses s c + 1)) b" for b
    using uses_update [OF fin q pr, of b] mp(2) count_insert_at [of sm_chunk i m "sp_shm_mappings p" b]
    by (auto simp: mapped_def)
  then have u: "uses ?s = (uses s)(c := uses s c + 1)" by (simp add: fun_eq_iff)
  moreover have "ref_ok ((uses s)(c := uses s c + 1)) ?s" using ok by (simp add: ref_ok_def)
  ultimately have "shm_inv ?s"
    unfolding shm_inv_def using fin ar mp(2) by (auto simp: mapped_def)
  then show thesis using that mp u by blast
qed

text \<open>A new chunk.\<close>

lemma pages_up: "(x + 4095) div 4096 = x div 4096 + (if x mod 4096 = 0 then 0 else 1)" for x :: nat
proof -
  define q r where "q = x div 4096" and "r = x mod 4096"
  have x: "x = r + q * 4096" and r: "r < 4096" by (simp_all add: q_def r_def)
  have "(x + 4095) div 4096 = q + (r + 4095) div 4096"
    unfolding x using div_mult_self1 [of 4096 "r + 4095" q] by (simp add: algebra_simps)
  moreover have "(r + 4095) div 4096 = (if r = 0 then 0 else 1)"
    using r by (intro div_nat_eqI) auto
  ultimately show ?thesis by (simp add: q_def r_def)
qed

lemma create_chunk_spec:
  assumes ok: "ref_ok u s" and nd: "sh_nodes s node = Some nd" "sn_chunk nd = NULL" "node \<noteq> NULL"
    and sz: "0 < n" "unat n \<le> 2 ^ 32" and mem: "sh_supply s = c # rest" "(unat n + 4095) div 4096 \<le> length (sh_frames s)"
  obtains s1 k where "create_chunk node n s = Some (c, s1)" and "sh_chunks s1 c = Some k" and "chunk_ok k"
    and "unat (ck_num_frames k) = (unat n + 4095) div 4096"
    and "ref_ok (u(c := u c + 1)) (s1\<lparr>sh_nodes := (sh_nodes s1)(node \<mapsto> nd\<lparr>sn_chunk := c\<rparr>)\<rparr>)"
    and "sh_procs s1 = sh_procs s" and "c \<noteq> NULL" and "sh_nodes s1 = sh_nodes s" and "u c = 0"
proof -
  let ?num = "n div 0x1000 + (if n mod 0x1000 \<noteq> 0 then 1 else 0)"
  have z: "n mod 0x1000 \<noteq> 0 \<longleftrightarrow> unat n mod 4096 \<noteq> 0"
    by (simp add: word_unat_eq_iff unat_mod_distrib)
  have d: "unat (n div 0x1000) = unat n div 4096" by (simp add: unat_div_distrib)
  have num: "unat ?num = (unat n + 4095) div 4096"
  proof (cases "n mod 0x1000 = 0")
    case True
    then have "unat n mod 4096 = 0" using z by simp
    then show ?thesis using True d pages_up [of "unat n"] by simp
  next
    case False
    then have r: "unat n mod 4096 \<noteq> 0" using z by simp
    have "unat (n div 0x1000 + 1) = unat n div 4096 + 1" using d sz(2) by (subst unat_succ_64) auto
    then show ?thesis using False r pages_up [of "unat n"] by simp
  qed
  have pos: "0 < (unat n + 4095) div 4096" "(unat n + 4095) div 4096 \<le> 2 ^ 20"
    using sz by (auto simp: word_less_nat_alt)
  define k where "k = \<lparr>ck_parent = node, ck_ref_count = 1, ck_num_frames = ?num, ck_frames = take (unat ?num) (sh_frames s)\<rparr>"
  let ?s = "s\<lparr>sh_supply := rest, sh_frames := drop (unat ?num) (sh_frames s), sh_chunks := (sh_chunks s)(c \<mapsto> k)\<rparr>"
  have run: "create_chunk node n s = Some (c, ?s)"
    using sz(1) mem num pos unfolding create_chunk_def k_def by (simp add: Let_def word_neq_0_conv [symmetric])
  have fresh: "c \<noteq> NULL" "sh_chunks s c = None" "sh_nodes s c = None" "u c = 0"
    using ref_okD(6) [OF ok, of c] ref_okD(1) [OF ok, of c] mem(1) by auto
  let ?s2 = "?s\<lparr>sh_nodes := (sh_nodes ?s)(node \<mapsto> nd\<lparr>sn_chunk := c\<rparr>)\<rparr>"
  have "ref_ok (u(c := u c + 1)) ?s2"
  proof (rule ref_okI)
    show "ck_parent j \<noteq> NULL \<and> (\<exists>md. sh_nodes ?s2 (ck_parent j) = Some md \<and> sn_chunk md = b)"
      if bj: "sh_chunks ?s2 b = Some j" for b j
    proof (cases "b = c")
      case True
      then show ?thesis using bj nd(3) by (auto simp: k_def)
    next
      case False
      then obtain md where "ck_parent j \<noteq> NULL" "sh_nodes s (ck_parent j) = Some md" "sn_chunk md = b" "b \<noteq> NULL"
        using bj ref_okD(2,3) [OF ok, of b j] by auto
      then show ?thesis using nd by auto
    qed
    show "\<exists>j. sh_chunks ?s2 (sn_chunk md) = Some j \<and> ck_parent j = x"
      if xm: "sh_nodes ?s2 x = Some md" "sn_chunk md \<noteq> NULL" for x md
    proof (cases "x = node")
      case True
      then show ?thesis using xm by (auto simp: k_def)
    next
      case False
      then obtain j where "sh_chunks s (sn_chunk md) = Some j" "ck_parent j = x"
        using xm ref_okD(4) [OF ok, of x md] by auto
      then show ?thesis using fresh(2) by auto
    qed
    show "b \<noteq> NULL \<and> sh_nodes ?s2 b = None \<and> sh_chunks ?s2 b = None" if "b \<in> set (sh_supply ?s2)" for b
      using that ref_okD(5) [OF ok] ref_okD(6) [OF ok, of b] mem(1) nd(1) by auto
  qed (use ref_okD(1,2,5) [OF ok] mem(1) fresh in \<open>auto simp: k_def split: if_splits\<close>)
  then show thesis
    using run num pos mem(2) fresh
    by (intro that [of ?s k]) (auto simp: k_def chunk_ok_def min_def)
qed

text \<open>What a process obtains: one more mapping of the chunk with the name.\<close>

definition obtained :: "ptr \<Rightarrow> shm_proc \<Rightarrow> shm \<Rightarrow> (u64 \<times> u64 option) \<Rightarrow> shm \<Rightarrow> bool" where
  "obtained q p s r s' \<longleftrightarrow>
     (\<exists>c k i m p'. sh_chunks s' c = Some k \<and> mapped c k p i m p' \<and> sh_procs s' = (sh_procs s)(q \<mapsto> p') \<and>
        r = (sm_vaddrs m ! 0, Some (chunk_size k)) \<and> uses s' = (uses s)(c := uses s c + 1))"

lemma shm_obtain_new:
  assumes inv: "shm_inv s" and self: "shm_self s = Some (q, p)" and get: "get_node path True s = Some (node, s1)"
    and nd: "sh_nodes s1 node = Some nd" "sn_chunk nd = NULL"
    and sz: "0 < n" "unat n \<le> 2 ^ 32" and mem: "sh_supply s1 \<noteq> []" "(unat n + 4095) div 4096 \<le> length (sh_frames s1)"
    and room: "unat (sp_shm_heap p) + 4096 * ((unat n + 4095) div 4096) < 2 ^ 64"
  obtains r s' where "shm_obtain path (Some n) s = Some (r, s')" and "shm_inv s'" and "obtained q p s r s'"
proof -
  have fin: "finite (dom (sh_procs s))" and ok: "ref_ok (uses s) s" and ar: "\<And>q p. sh_procs s q = Some p \<Longrightarrow> area_ok p"
    using inv by (auto simp: shm_inv_def)
  have g: "named_ext (uses s) s s1" "node \<noteq> NULL" using get_node_at_spec [OF ok] get by (auto simp: get_node_def)
  have ok1: "ref_ok (uses s) s1" and pr1: "sh_procs s1 = sh_procs s" using g(1) by (simp_all add: named_ext_def)
  have u1: "uses s1 = uses s" by (rule uses_eq [OF pr1])
  obtain c rest where sup: "sh_supply s1 = c # rest" using mem(1) by (cases "sh_supply s1") auto
  obtain s2 k where cr: "create_chunk node n s1 = Some (c, s2)" "sh_chunks s2 c = Some k" "chunk_ok k"
      "unat (ck_num_frames k) = (unat n + 4095) div 4096"
      "ref_ok ((uses s)(c := uses s c + 1)) (s2\<lparr>sh_nodes := (sh_nodes s2)(node \<mapsto> nd\<lparr>sn_chunk := c\<rparr>)\<rparr>)"
      "sh_procs s2 = sh_procs s1" "c \<noteq> NULL" "sh_nodes s2 = sh_nodes s1"
    by (rule create_chunk_spec [OF ok1 nd g(2) sz sup mem(2)])
  define s3 where "s3 = s2\<lparr>sh_nodes := (sh_nodes s2)(node \<mapsto> nd\<lparr>sn_chunk := c\<rparr>)\<rparr>"
  have ok3: "ref_ok ((uses s)(c := uses s c + 1)) s3" using cr(5) by (simp only: s3_def)
  have pr3: "sh_procs s3 = sh_procs s" using cr(6) pr1 by (simp add: s3_def)
  have u3: "uses s3 = uses s" by (rule uses_eq [OF pr3])
  have q: "sh_procs s q = Some p" using self by (auto simp: shm_self_def fault_simps Let_def split: if_splits)
  obtain i m p' where mp: "map_in c k p = (sm_vaddrs m ! 0, p')" "mapped c k p i m p'"
      "shm_inv (s3\<lparr>sh_procs := (sh_procs s3)(q \<mapsto> p')\<rparr>)"
      "uses (s3\<lparr>sh_procs := (sh_procs s3)(q \<mapsto> p')\<rparr>) = (uses s3)(c := uses s3 c + 1)"
    by (rule map_in_shm [of s3 c q p k]) (use fin ar cr(3,4) ok3 q room pr3 u3 in simp_all)
  have run: "shm_obtain path (Some n) s =
      Some ((sm_vaddrs m ! 0, Some (chunk_size k)), s3\<lparr>sh_procs := (sh_procs s3)(q \<mapsto> p')\<rparr>)"
    using self get g(2) nd cr(1,2,7) mp(1) unfolding shm_obtain_def by (simp add: s3_def Let_def)
  have "sh_chunks s3 c = Some k" using cr(2) by (simp add: s3_def)
  then have "obtained q p s (sm_vaddrs m ! 0, Some (chunk_size k)) (s3\<lparr>sh_procs := (sh_procs s3)(q \<mapsto> p')\<rparr>)"
    unfolding obtained_def using mp(2,4) pr3 u3
    by (intro exI [of _ c] exI [of _ k] exI [of _ i] exI [of _ m] exI [of _ p']) simp
  then show thesis by (rule that [OF run mp(3)])
qed

lemma ref_ok_share:
  assumes ok: "ref_ok u s" and k: "sh_chunks s c = Some k" and b: "u c + 1 < 2 ^ 63"
  shows "ref_ok (u(c := u c + 1)) (s\<lparr>sh_chunks := (sh_chunks s)(c \<mapsto> k\<lparr>ck_ref_count := ck_ref_count k + 1\<rparr>)\<rparr>)" (is "ref_ok _ ?s")
proof (rule ref_okI)
  have f: "c \<noteq> NULL" "ck_ref_count k = of_nat (u c)" using ref_okD(2) [OF ok k] by auto
  show "d \<noteq> NULL \<and> 0 < (u(c := u c + 1)) d \<and> (u(c := u c + 1)) d < 2 ^ 63 \<and> ck_ref_count j = of_nat ((u(c := u c + 1)) d)"
    if "sh_chunks ?s d = Some j" for d j
    using that ref_okD(2) [OF ok, of d j] f b by (cases "d = c") (auto simp: algebra_simps)
  show "ck_parent j \<noteq> NULL \<and> (\<exists>nd. sh_nodes ?s (ck_parent j) = Some nd \<and> sn_chunk nd = d)"
    if "sh_chunks ?s d = Some j" for d j
    using that ref_okD(3) [OF ok, of d j] ref_okD(3) [OF ok k] by (cases "d = c") auto
  show "\<exists>j. sh_chunks ?s (sn_chunk nd) = Some j \<and> ck_parent j = n" if "sh_nodes ?s n = Some nd" "sn_chunk nd \<noteq> NULL" for n nd
    using that ref_okD(4) [OF ok, of n nd] k by auto
  show "d \<noteq> NULL \<and> sh_nodes ?s d = None \<and> sh_chunks ?s d = None" if "d \<in> set (sh_supply ?s)" for d
    using that ref_okD(6) [OF ok, of d] k by auto
qed (use ref_okD(1,5) [OF ok] in \<open>auto split: if_splits\<close>)

lemma shm_obtain_shared:
  assumes inv: "shm_inv s" and self: "shm_self s = Some (q, p)" and get: "get_node path True s = Some (node, s1)"
    and nd: "sh_nodes s1 node = Some nd" "sn_chunk nd = c" "sh_chunks s1 c = Some k" "chunk_ok k"
    and few: "uses s c + 1 < 2 ^ 63"
    and room: "unat (sp_shm_heap p) + 4096 * unat (ck_num_frames k) < 2 ^ 64"
  obtains r s' where "shm_obtain path (Some n) s = Some (r, s')" and "shm_inv s'" and "obtained q p s r s'"
proof -
  have fin: "finite (dom (sh_procs s))" and ok: "ref_ok (uses s) s" and ar: "\<And>q p. sh_procs s q = Some p \<Longrightarrow> area_ok p"
    using inv by (auto simp: shm_inv_def)
  have g: "named_ext (uses s) s s1" "node \<noteq> NULL" using get_node_at_spec [OF ok] get by (auto simp: get_node_def)
  have ok1: "ref_ok (uses s) s1" and pr1: "sh_procs s1 = sh_procs s" using g(1) by (simp_all add: named_ext_def)
  have cz: "c \<noteq> NULL" using ref_okD(2) [OF ok1 nd(3)] by simp
  define k' where "k' = k\<lparr>ck_ref_count := ck_ref_count k + 1\<rparr>"
  define s3 where "s3 = s1\<lparr>sh_chunks := (sh_chunks s1)(c \<mapsto> k')\<rparr>"
  have pr3: "sh_procs s3 = sh_procs s" using pr1 by (simp add: s3_def)
  have u3: "uses s3 = uses s" by (rule uses_eq [OF pr3])
  have ok3: "ref_ok ((uses s)(c := uses s c + 1)) s3" unfolding s3_def k'_def by (rule ref_ok_share [OF ok1 nd(3) few])
  have q: "sh_procs s q = Some p" using self by (auto simp: shm_self_def fault_simps Let_def split: if_splits)
  have k'': "chunk_ok k'" "ck_num_frames k' = ck_num_frames k" using nd(4) by (simp_all add: k'_def chunk_ok_def)
  obtain i m p' where mp: "map_in c k' p = (sm_vaddrs m ! 0, p')" "mapped c k' p i m p'"
      "shm_inv (s3\<lparr>sh_procs := (sh_procs s3)(q \<mapsto> p')\<rparr>)"
      "uses (s3\<lparr>sh_procs := (sh_procs s3)(q \<mapsto> p')\<rparr>) = (uses s3)(c := uses s3 c + 1)"
    by (rule map_in_shm [of s3 c q p k']) (use fin ar ok3 q room pr3 u3 k'' in simp_all)
  have run: "shm_obtain path (Some n) s =
      Some ((sm_vaddrs m ! 0, Some (chunk_size k')), s3\<lparr>sh_procs := (sh_procs s3)(q \<mapsto> p')\<rparr>)"
    using self get g(2) nd cz mp(1) unfolding shm_obtain_def by (simp add: s3_def k'_def Let_def)
  have "sh_chunks s3 c = Some k'" by (simp add: s3_def)
  then have "obtained q p s (sm_vaddrs m ! 0, Some (chunk_size k')) (s3\<lparr>sh_procs := (sh_procs s3)(q \<mapsto> p')\<rparr>)"
    unfolding obtained_def using mp(2,4) pr3 u3
    by (intro exI [of _ c] exI [of _ k'] exI [of _ i] exI [of _ m] exI [of _ p']) simp
  then show thesis by (rule that [OF run mp(3)])
qed

text \<open>Giving one mapping back.\<close>

lemma mapping_index_Some:
  "mapping_index c ms = Some i \<Longrightarrow> i < length ms \<and> sm_chunk (ms ! i) = c"
  by (induction ms arbitrary: i) (auto split: if_splits)

lemma mapping_index_None: "mapping_index c ms = None \<longleftrightarrow> c \<notin> sm_chunk ` set ms"
  by (induction ms) auto

lemma shm_release_spec:
  assumes inv: "shm_inv s" and self: "shm_self s = Some (q, p)" and get: "get_node path False s = Some (node, s1)"
    and nd: "node \<noteq> NULL" "sh_nodes s node = Some nd" and i: "mapping_index (sn_chunk nd) (sp_shm_mappings p) = Some i"
  obtains s' p' where "shm_release path s = Some (0, s')" and "shm_inv s'"
    and "uses s' = (uses s)(sn_chunk nd := uses s (sn_chunk nd) - 1)" and "0 < uses s (sn_chunk nd)"
    and "sh_procs s' = (sh_procs s)(q \<mapsto> p')"
    and "sp_shm_mappings p' = take i (sp_shm_mappings p) @ drop (Suc i) (sp_shm_mappings p)"
proof -
  have fin: "finite (dom (sh_procs s))" and ok: "ref_ok (uses s) s" and ar: "\<And>q p. sh_procs s q = Some p \<Longrightarrow> area_ok p"
    using inv by (auto simp: shm_inv_def)
  have s1: "s1 = s" using get_node_at_spec [OF ok] get by (auto simp: get_node_def)
  have q: "sh_procs s q = Some p" using self by (auto simp: shm_self_def fault_simps Let_def split: if_splits)
  let ?c = "sn_chunk nd" and ?ms = "sp_shm_mappings p"
  have im: "i < length ?ms" "sm_chunk (?ms ! i) = ?c" using mapping_index_Some [OF i] by auto
  have split: "?ms = take i ?ms @ ?ms ! i # drop (Suc i) ?ms" using im(1) by (simp add: id_take_nth_drop [symmetric])
  define p' where "p' = (unmap_pages (take (unat (sm_num_vaddrs (?ms ! i))) (sm_vaddrs (?ms ! i))) p)
    \<lparr>sp_shm_mappings := take i ?ms @ drop (Suc i) ?ms\<rparr>"
  have ms': "sp_shm_mappings p' = take i ?ms @ drop (Suc i) ?ms" by (simp add: p'_def)
  have cnt: "count_list (map sm_chunk ?ms) b = count_list (map sm_chunk (sp_shm_mappings p')) b + (if b = ?c then 1 else 0)" for b
    using arg_cong [OF split, of "\<lambda>xs. count_list (map sm_chunk xs) b"] im(2) ms' by simp
  have upd: "uses s2 b + (if b = ?c then 1 else 0) = uses s b" if "sh_procs s2 = (sh_procs s)(q \<mapsto> p')" for s2 b
    using uses_update [OF fin q that, of b] cnt [of b] by simp
  have pos: "0 < uses s ?c" using upd [of "s\<lparr>sh_procs := (sh_procs s)(q \<mapsto> p')\<rparr>" ?c] by simp
  obtain s2 where s2: "release_chunk ?c s = Some (0, s2)" "ref_ok ((uses s)(?c := uses s ?c - 1)) s2" "sh_procs s2 = sh_procs s"
    by (rule release_chunk_spec [OF ok pos])
  let ?s = "s2\<lparr>sh_procs := (sh_procs s2)(q \<mapsto> p')\<rparr>"
  have pr: "sh_procs ?s = (sh_procs s)(q \<mapsto> p')" using s2(3) by simp
  have "uses ?s b = ((uses s)(?c := uses s ?c - 1)) b" for b using upd [OF pr, of b] by auto
  then have u: "uses ?s = (uses s)(?c := uses s ?c - 1)" by (simp add: fun_eq_iff)
  have "ref_ok (uses ?s) ?s" unfolding u using s2(2) by (simp add: ref_ok_def)
  moreover have "area_ok p'"
  proof -
    have "maps_ok (unat USER_SHM_LOW) (take i ?ms @ ?ms ! i # drop (Suc i) ?ms) (unat (sp_shm_heap p))"
      using ar [OF q] split by (simp add: area_ok_def)
    from maps_ok_drop1 [OF this] show ?thesis
      using ar [OF q] ms' by (simp add: area_ok_def p'_def unmap_pages_def)
  qed
  ultimately have "shm_inv ?s" unfolding shm_inv_def using fin ar pr by auto
  moreover have "shm_release path s = Some (0, ?s)"
    using self get s1 nd i s2(1) unfolding shm_release_def p'_def by (simp add: Let_def unmap_pages_def)
  ultimately show thesis using that [of ?s p'] u pos pr ms' by simp
qed

section \<open>Properties\<close>

definition shm_proc_example :: shm_proc where
  "shm_proc_example = \<lparr>sp_group = 0, sp_shm_heap = USER_SHM_LOW + 0x3000,
     sp_shm_mappings = [\<lparr>sm_chunk = 30, sm_num_vaddrs = 1, sm_vaddrs = [USER_SHM_LOW + 0x2000]\<rparr>], sp_pages = Map.empty\<rparr>"

definition shm_chunk_example :: shm_chunk where
  "shm_chunk_example = \<lparr>ck_parent = 20, ck_ref_count = 1, ck_num_frames = 1, ck_frames = [77]\<rparr>"

text \<open>The name \<open>a\<close> with a chunk of one frame that the process at 50 has mapped.\<close>

definition shm_example :: shm where
  "shm_example =
     \<lparr>sh_tree = \<lparr>tr_nodes = 2, tr_root = 10, tr_store =
          [10 \<mapsto> \<lparr>tn_value = NULL, tn_children = [11], tn_parent = NULL\<rparr>, 11 \<mapsto> \<lparr>tn_value = 20, tn_children = [], tn_parent = 10\<rparr>]\<rparr>,
      sh_nodes = [20 \<mapsto> \<lparr>sn_name = [97], sn_chunk = 30\<rparr>], sh_chunks = [30 \<mapsto> shm_chunk_example],
      sh_procs = [50 \<mapsto> shm_proc_example], sh_from_pid = (\<lambda>i. NULL), sh_current = 50,
      sh_supply = [60, 61, 62], sh_frames = [78, 79], sh_released = []\<rparr>"

lemma shm_example_facts:
  "shm_inv shm_example" "shm_self shm_example = Some (50, shm_proc_example)"
  "get_node [97] True shm_example = Some (20, shm_example)" "get_node [97] False shm_example = Some (20, shm_example)"
  "sh_nodes shm_example 20 = Some \<lparr>sn_name = [97], sn_chunk = 30\<rparr>" "sh_chunks shm_example 30 = Some shm_chunk_example"
  "uses shm_example 30 = 1" "area_ok shm_proc_example" "chunk_ok shm_chunk_example"
proof -
  have u: "uses shm_example = (\<lambda>c. if c = 30 then 1 else 0)"
    by (auto simp: uses_def shm_example_def shm_proc_example_def fun_eq_iff)
  then show "uses shm_example 30 = 1" by simp
  have "run_ok \<lparr>sm_chunk = 30, sm_num_vaddrs = 1, sm_vaddrs = [USER_SHM_LOW + 0x2000]\<rparr>"
    by (simp add: run_ok_def map_start_def)
  then show a: "area_ok shm_proc_example"
    by (simp add: area_ok_def shm_proc_example_def map_start_def map_span_def USER_SHM_LOW_def)
  have "ref_ok (uses shm_example) shm_example"
    unfolding u by (rule ref_okI) (auto simp: shm_example_def shm_chunk_example_def split: if_splits)
  then show "shm_inv shm_example" using a unfolding shm_inv_def by (auto simp: shm_example_def)
  have tk: "strtok_r [97] SHM_PATH_SEPARATOR = (Some [97], [])"
    by code_simp
  have "get_node_at [97] b 10 shm_example = Some (20, shm_example)" for b
    by (subst get_node_at.simps) (simp add: tk get_tn_def shm_example_def)
  then show "get_node [97] True shm_example = Some (20, shm_example)" "get_node [97] False shm_example = Some (20, shm_example)"
    by (simp_all add: get_node_def shm_example_def)
qed (simp_all add: shm_self_def shm_example_def shm_proc_example_def chunk_ok_def shm_chunk_example_def)

lemma maps_ok_insert_disjoint:
  assumes "maps_ok lo (take i ms @ m # drop i ms) hi" and "k \<in> set ms"
  shows "map_start k + map_span k \<le> map_start m \<or> map_start m + map_span m \<le> map_start k"
proof -
  have sp: "maps_ok lo xs (map_start m) \<and> maps_ok (map_start m + map_span m) ys hi" if "maps_ok lo (xs @ m # ys) hi" for xs ys lo
    using that by (induction xs arbitrary: lo) auto
  have "k \<in> set (take i ms) \<or> k \<in> set (drop i ms)" using assms(2) by (metis Un_iff append_take_drop_id set_append)
  then show ?thesis using sp [OF assms(1)] maps_ok_member [of lo "take i ms" "map_start m" k]
      maps_ok_member [of "map_start m + map_span m" "drop i ms" hi k] by blast
qed

text \<open>Storing the frames one after the other at different addresses.\<close>

lemma foldl_pages:
  assumes "length vs = length fs" "distinct vs"
  shows "(\<forall>i < length vs. foldl (\<lambda>g (v, f). g(v \<mapsto> f)) g (zip vs fs) (vs ! i) = Some (fs ! i)) \<and>
    (\<forall>w. w \<notin> set vs \<longrightarrow> foldl (\<lambda>g (v, f). g(v \<mapsto> f)) g (zip vs fs) w = g w)"
  using assms
proof (induction vs fs arbitrary: g rule: list_induct2)
  case (Cons v vs f fs)
  then have v: "v \<notin> set vs" and d: "distinct vs" by simp_all
  let ?h = "foldl (\<lambda>g (v, f). g(v \<mapsto> f)) (g(v \<mapsto> f)) (zip vs fs)"
  have h: "foldl (\<lambda>g (v, f). g(v \<mapsto> f)) g (zip (v # vs) (f # fs)) = ?h" by simp
  have at: "?h (vs ! i) = Some (fs ! i)" if "i < length vs" for i using Cons.IH [OF d] that by blast
  have off: "?h w = (g(v \<mapsto> f)) w" if "w \<notin> set vs" for w using Cons.IH [OF d] that by blast
  have "?h ((v # vs) ! i) = Some ((f # fs) ! i)" if "i < length (v # vs)" for i
    using that at off [OF v] by (cases i) simp_all
  moreover have "?h w = g w" if "w \<notin> set (v # vs)" for w using that off [of w] by simp
  ultimately show ?case unfolding h by blast
qed simp

lemma run_distinct:
  assumes "run_ok m" "map_start m + map_span m < 2 ^ 64"
  shows "distinct (sm_vaddrs m)"
proof -
  have "inj_on (\<lambda>i. of_nat (map_start m + 4096 * i) :: u64) {0..<unat (sm_num_vaddrs m)}"
  proof (rule inj_onI)
    fix i j
    assume ij: "i \<in> {0..<unat (sm_num_vaddrs m)}" "j \<in> {0..<unat (sm_num_vaddrs m)}"
      and e: "of_nat (map_start m + 4096 * i) = (of_nat (map_start m + 4096 * j) :: u64)"
    have b: "map_start m + 4096 * i < 2 ^ 64" "map_start m + 4096 * j < 2 ^ 64"
      using ij assms(2) by (auto simp: map_span_def)
    from arg_cong [OF e, of unat] show "i = j" unfolding unat_of_nat_64 [OF b(1)] unat_of_nat_64 [OF b(2)] by simp
  qed
  then show ?thesis using assms(1) by (simp add: run_ok_def distinct_map)
qed

text \<open>
  Property C18: a chunk of one to \<open>2^20\<close> pages, for a process whose heap end leaves room for it below \<open>2^64\<close>, is mapped at
  consecutive page addresses above the lower end of the mapping area that overlap no other mapping.  Either they lie
  below the heap end, which stays, or they start at the heap end and it moves behind them by exactly their size.
  The page table then has frame \<open>i\<close> of the chunk at address \<open>i\<close>, and is unchanged at every other address; the area
  stays well formed.
\<close>

theorem map_in_bounds:
  assumes "area_ok p" and "chunk_ok c" and "unat (sp_shm_heap p) + 4096 * unat (ck_num_frames c) < 2 ^ 64"
  shows "\<exists>m p'. map_in chunk c p = (sm_vaddrs m ! 0, p') \<and> area_ok p' \<and> m \<in> set (sp_shm_mappings p') \<and>
    sm_vaddrs m = map (\<lambda>i. of_nat (map_start m + 4096 * i)) [0..<unat (ck_num_frames c)] \<and>
    unat USER_SHM_LOW \<le> map_start m \<and> map_start m + 4096 * unat (ck_num_frames c) \<le> unat (sp_shm_heap p') \<and>
    (sp_shm_heap p' = sp_shm_heap p \<or> map_start m = unat (sp_shm_heap p) \<and>
       unat (sp_shm_heap p') = unat (sp_shm_heap p) + 4096 * unat (ck_num_frames c)) \<and>
    (\<forall>k \<in> set (sp_shm_mappings p). map_start k + map_span k \<le> map_start m \<or>
       map_start m + 4096 * unat (ck_num_frames c) \<le> map_start k) \<and>
    (\<forall>i < unat (ck_num_frames c). sp_pages p' (sm_vaddrs m ! i) = Some (ck_frames c ! i)) \<and>
    (\<forall>v. v \<notin> set (sm_vaddrs m) \<longrightarrow> sp_pages p' v = sp_pages p v)"
proof -
  have c: "length (ck_frames c) = unat (ck_num_frames c)" "0 < unat (ck_num_frames c)" "unat (ck_num_frames c) \<le> 2 ^ 20"
    using assms(2) by (simp_all add: chunk_ok_def)
  obtain i m p' where r: "map_in chunk c p = (sm_vaddrs m ! 0, p')" "mapped chunk c p i m p'"
    by (rule map_in_spec [OF assms(1) c assms(3)])
  have m: "sp_shm_mappings p' = take i (sp_shm_mappings p) @ m # drop i (sp_shm_mappings p)" "area_ok p'" "run_ok m"
      "sm_num_vaddrs m = ck_num_frames c"
      "sp_pages p' = foldl (\<lambda>g (v, f). g(v \<mapsto> f)) (sp_pages p) (zip (sm_vaddrs m) (ck_frames c))"
    using r(2) by (simp_all add: mapped_def insert_at_def)
  have ok: "maps_ok (unat USER_SHM_LOW) (take i (sp_shm_mappings p) @ m # drop i (sp_shm_mappings p)) (unat (sp_shm_heap p'))"
    using m(1,2) by (simp add: area_ok_def)
  have sp: "map_span m = 4096 * unat (ck_num_frames c)" using m(4) by (simp add: map_span_def)
  have in_area: "unat USER_SHM_LOW \<le> map_start m" "map_start m + map_span m \<le> unat (sp_shm_heap p')"
    using maps_ok_member [OF ok, of m] by simp_all
  have v: "sm_vaddrs m = map (\<lambda>i. of_nat (map_start m + 4096 * i)) [0..<unat (ck_num_frames c)]"
    using m(3,4) by (simp add: run_ok_def)
  have heap: "sp_shm_heap p' = sp_shm_heap p \<or> map_start m = unat (sp_shm_heap p) \<and>
      unat (sp_shm_heap p') = unat (sp_shm_heap p) + map_span m"
    using r(2) by (simp add: mapped_def)
  have "map_start m + map_span m < 2 ^ 64" using in_area(2) unat_lt_64 [of "sp_shm_heap p'"] by simp
  from foldl_pages [OF _ run_distinct [OF m(3) this], of "ck_frames c" "sp_pages p"]
  have pages: "\<forall>i < unat (ck_num_frames c). sp_pages p' (sm_vaddrs m ! i) = Some (ck_frames c ! i)"
    "\<forall>w. w \<notin> set (sm_vaddrs m) \<longrightarrow> sp_pages p' w = sp_pages p w"
    using v c(1) m(5) by simp_all
  have apart: "\<forall>k \<in> set (sp_shm_mappings p). map_start k + map_span k \<le> map_start m \<or> map_start m + map_span m \<le> map_start k"
    using maps_ok_insert_disjoint [OF ok] by simp
  show ?thesis
    using r(1) m(1,2) v in_area heap pages apart unfolding sp
    by (intro exI [of _ m] exI [of _ p']) simp
qed

theorem map_in_bounds_witness:
  "\<exists>m p'. map_in 30 shm_chunk_example shm_proc_example = (sm_vaddrs m ! 0, p') \<and> area_ok p' \<and> m \<in> set (sp_shm_mappings p') \<and>
    unat USER_SHM_LOW \<le> map_start m \<and> sp_pages p' (sm_vaddrs m ! 0) = Some (ck_frames shm_chunk_example ! 0)"
proof -
  have n: "unat (ck_num_frames shm_chunk_example) = 1" by (simp add: shm_chunk_example_def)
  have "unat (sp_shm_heap shm_proc_example) + 4096 * unat (ck_num_frames shm_chunk_example) < 2 ^ 64"
    by (simp add: n shm_proc_example_def USER_SHM_LOW_def)
  from map_in_bounds [OF shm_example_facts(8,9) this, of 30] show ?thesis unfolding n by auto
qed

text \<open>
  Fact: in a gap the 32-bit page offset wraps: the page numbered \<open>2^20\<close> of a chunk gets the address of its first page.
\<close>

theorem gap_vaddr_wraps: "gap_vaddr a (2 ^ 20) = gap_vaddr a 0"
  by (simp add: gap_vaddr_def push_bit_eq_mult)

text \<open>
  Fact: obtaining a name that has a chunk maps that same chunk once more: the reference count stays the number of
  mappings over all processes, and the size stored is that of the chunk.
\<close>

theorem shm_obtain_shares:
  assumes "shm_inv s" and "shm_self s = Some (q, p)" and "get_node path True s = Some (node, s1)"
    and "sh_nodes s1 node = Some nd" and "sh_chunks s1 (sn_chunk nd) = Some k" and "chunk_ok k"
    and "uses s (sn_chunk nd) + 1 < 2 ^ 63"
    and "unat (sp_shm_heap p) + 4096 * unat (ck_num_frames k) < 2 ^ 64"
  shows "\<exists>r s'. shm_obtain path (Some n) s = Some (r, s') \<and> shm_inv s' \<and> obtained q p s r s'"
  using shm_obtain_shared [OF assms(1-4) refl assms(5-8)] by blast

theorem shm_obtain_shares_witness:
  "\<exists>r s'. shm_obtain [97] (Some 5) shm_example = Some (r, s') \<and> shm_inv s' \<and> obtained 50 shm_proc_example shm_example r s'"
proof (rule shm_obtain_shares [OF shm_example_facts(1-3,5), where k = shm_chunk_example])
  have "unat (ck_num_frames shm_chunk_example) = 1" by (simp add: shm_chunk_example_def)
  then show "unat (sp_shm_heap shm_proc_example) + 4096 * unat (ck_num_frames shm_chunk_example) < 2 ^ 64"
    by (simp add: shm_proc_example_def USER_SHM_LOW_def)
qed (use shm_example_facts(6,7,9) in simp_all)

text \<open>
  Fact: giving a mapping back, and the exit of a process, never free a chunk that another mapping uses: the chunks that
  are left are exactly those with mappings, each with the right count, and no step faults.
\<close>

theorem shm_release_safe:
  assumes "shm_inv s" and "shm_self s = Some (q, p)" and "get_node path False s = Some (node, s1)"
    and "node \<noteq> NULL" and "sh_nodes s node = Some nd" and "mapping_index (sn_chunk nd) (sp_shm_mappings p) = Some i"
    and "q \<noteq> NULL"
  shows "\<exists>s' s''. shm_release path s = Some (0, s') \<and> shm_inv s' \<and>
    uses s' = (uses s)(sn_chunk nd := uses s (sn_chunk nd) - 1) \<and>
    (sh_chunks s' (sn_chunk nd) = None \<longleftrightarrow> uses s (sn_chunk nd) = 1) \<and>
    shm_release_all q s' = Some s'' \<and> shm_inv s'' \<and> (\<forall>c. sh_chunks s'' c = None \<longleftrightarrow> uses s'' c = 0)"
proof -
  have gone: "sh_chunks t c = None \<longleftrightarrow> uses t c = 0" if "shm_inv t" for t c
    using that ref_okD(1,2) [of "uses t" t c] by (cases "sh_chunks t c") (auto simp: shm_inv_def)
  obtain s' p' where s': "shm_release path s = Some (0, s')" "shm_inv s'"
      "uses s' = (uses s)(sn_chunk nd := uses s (sn_chunk nd) - 1)" "0 < uses s (sn_chunk nd)"
      "sh_procs s' = (sh_procs s)(q \<mapsto> p')"
    by (rule shm_release_spec [OF assms(1-6)])
  obtain s'' where "shm_release_all q s' = Some s''" "shm_inv s''"
    using shm_release_all_spec [OF s'(2), of q p'] s'(5) assms(7) by auto
  then show ?thesis using s' gone by (intro exI [of _ s'] exI [of _ s'']) auto
qed

theorem shm_release_safe_witness:
  "\<exists>s' s''. shm_release [97] shm_example = Some (0, s') \<and> shm_inv s' \<and>
    uses s' = (uses shm_example)(30 := uses shm_example 30 - 1) \<and>
    (sh_chunks s' 30 = None \<longleftrightarrow> uses shm_example 30 = 1) \<and>
    shm_release_all 50 s' = Some s'' \<and> shm_inv s'' \<and> (\<forall>c. sh_chunks s'' c = None \<longleftrightarrow> uses s'' c = 0)"
  using shm_release_safe [OF shm_example_facts(1,2,4) _ shm_example_facts(5), of 0]
  by (simp add: shm_proc_example_def)

end
