(* ===== verification/Net_Packet.thy ===== *)
theory Net_Packet
  imports Kernel_Prelude
begin

text \<open>
  Packets in memory and their checksums: the structs of \<open>kernel/net/eth.h\<close>, \<open>kernel/net/ipv4.h\<close> and \<open>kernel/net/arp.c\<close>, the byte order
  macros of \<open>kernel/net/netif.h\<close> and the checksum functions of \<open>kernel/net/ipv4.c\<close>.  A struct is a record of the values its fields have
  in memory, which are in network order; it is packed, and stored with the low byte of each field first.
\<close>

section \<open>Byte order\<close>

definition htons :: "u16 \<Rightarrow> u16" where
  "htons s = push_bit 8 (s AND 0xFF) OR drop_bit 8 (s AND 0xFF00)"

definition htonl :: "u32 \<Rightarrow> u32" where
  "htonl l = push_bit 24 (l AND 0xFF) OR push_bit 8 (l AND 0xFF00) OR drop_bit 8 (l AND 0xFF0000) OR drop_bit 24 (l AND 0xFF000000)"

abbreviation ntohs :: "u16 \<Rightarrow> u16" where
  "ntohs s \<equiv> htons s"

abbreviation ntohl :: "u32 \<Rightarrow> u32" where
  "ntohl l \<equiv> htonl l"

definition bytes16 :: "u16 \<Rightarrow> bytes" where
  "bytes16 v = [ucast v, ucast (drop_bit 8 v)]"

definition bytes32 :: "u32 \<Rightarrow> bytes" where
  "bytes32 v = [ucast v, ucast (drop_bit 8 v), ucast (drop_bit 16 v), ucast (drop_bit 24 v)]"

definition word16 :: "u8 \<Rightarrow> u8 \<Rightarrow> u16" where
  "word16 a b = ucast a OR push_bit 8 (ucast b)"

definition word32 :: "u8 \<Rightarrow> u8 \<Rightarrow> u8 \<Rightarrow> u8 \<Rightarrow> u32" where
  "word32 a b c d = ucast a OR push_bit 8 (ucast b) OR push_bit 16 (ucast c) OR push_bit 24 (ucast d)"


section \<open>Structs\<close>

record ipv4_packet =
  ip_version_ihl :: u8
  ip_dscp_ecn :: u8
  ip_length :: u16
  ip_ident :: u16
  ip_flags_fragment :: u16
  ip_ttl :: u8
  ip_protocol :: u8
  ip_checksum :: u16
  ip_source :: u32
  ip_destination :: u32
  ip_payload :: bytes

definition ipv4_bytes :: "ipv4_packet \<Rightarrow> bytes" where
  "ipv4_bytes p = [ip_version_ihl p, ip_dscp_ecn p] @ bytes16 (ip_length p) @ bytes16 (ip_ident p) @ bytes16 (ip_flags_fragment p) @
     [ip_ttl p, ip_protocol p] @ bytes16 (ip_checksum p) @ bytes32 (ip_source p) @ bytes32 (ip_destination p) @ ip_payload p"

fun ipv4_of :: "bytes \<Rightarrow> ipv4_packet option" where
  "ipv4_of (v # d # l1 # l2 # i1 # i2 # f1 # f2 # t # pr # c1 # c2 # s1 # s2 # s3 # s4 # d1 # d2 # d3 # d4 # payload) =
     Some \<lparr>ip_version_ihl = v, ip_dscp_ecn = d, ip_length = word16 l1 l2, ip_ident = word16 i1 i2, ip_flags_fragment = word16 f1 f2,
           ip_ttl = t, ip_protocol = pr, ip_checksum = word16 c1 c2, ip_source = word32 s1 s2 s3 s4, ip_destination = word32 d1 d2 d3 d4,
           ip_payload = payload\<rparr>"
| "ipv4_of _ = None"

record icmp_header =
  ic_type :: u8
  ic_code :: u8
  ic_csum :: u16
  ic_identifier :: u16
  ic_data :: bytes

definition icmp_bytes :: "icmp_header \<Rightarrow> bytes" where
  "icmp_bytes h = [ic_type h, ic_code h] @ bytes16 (ic_csum h) @ bytes16 (ic_identifier h) @ ic_data h"

fun icmp_of :: "bytes \<Rightarrow> icmp_header option" where
  "icmp_of (t # c # s1 # s2 # i1 # i2 # data) =
     Some \<lparr>ic_type = t, ic_code = c, ic_csum = word16 s1 s2, ic_identifier = word16 i1 i2, ic_data = data\<rparr>"
| "icmp_of _ = None"

record udp_packet =
  ud_source_port :: u16
  ud_destination_port :: u16
  ud_length :: u16
  ud_checksum :: u16
  ud_payload :: bytes

definition udp_bytes :: "udp_packet \<Rightarrow> bytes" where
  "udp_bytes u = bytes16 (ud_source_port u) @ bytes16 (ud_destination_port u) @ bytes16 (ud_length u) @ bytes16 (ud_checksum u) @ ud_payload u"

fun udp_of :: "bytes \<Rightarrow> udp_packet option" where
  "udp_of (a # b # c # d # e # f # g # h # payload) =
     Some \<lparr>ud_source_port = word16 a b, ud_destination_port = word16 c d, ud_length = word16 e f, ud_checksum = word16 g h, ud_payload = payload\<rparr>"
| "udp_of _ = None"

record tcp_header =
  tc_source_port :: u16
  tc_destination_port :: u16
  tc_seq_number :: u32
  tc_ack_number :: u32
  tc_flags :: u16
  tc_window_size :: u16
  tc_checksum :: u16
  tc_urgent :: u16
  tc_payload :: bytes

definition tcp_bytes :: "tcp_header \<Rightarrow> bytes" where
  "tcp_bytes t = bytes16 (tc_source_port t) @ bytes16 (tc_destination_port t) @ bytes32 (tc_seq_number t) @ bytes32 (tc_ack_number t) @
     bytes16 (tc_flags t) @ bytes16 (tc_window_size t) @ bytes16 (tc_checksum t) @ bytes16 (tc_urgent t) @ tc_payload t"

fun tcp_of :: "bytes \<Rightarrow> tcp_header option" where
  "tcp_of (a1 # a2 # b1 # b2 # s1 # s2 # s3 # s4 # k1 # k2 # k3 # k4 # f1 # f2 # w1 # w2 # c1 # c2 # u1 # u2 # payload) =
     Some \<lparr>tc_source_port = word16 a1 a2, tc_destination_port = word16 b1 b2, tc_seq_number = word32 s1 s2 s3 s4, tc_ack_number = word32 k1 k2 k3 k4,
           tc_flags = word16 f1 f2, tc_window_size = word16 w1 w2, tc_checksum = word16 c1 c2, tc_urgent = word16 u1 u2, tc_payload = payload\<rparr>"
| "tcp_of _ = None"

record tcp_check_header =
  tk_source :: u32
  tk_destination :: u32
  tk_zeros :: u8
  tk_protocol :: u8
  tk_tcp_len :: u16

definition check_bytes :: "tcp_check_header \<Rightarrow> bytes" where
  "check_bytes p = bytes32 (tk_source p) @ bytes32 (tk_destination p) @ [tk_zeros p, tk_protocol p] @ bytes16 (tk_tcp_len p)"

record ethernet_packet =
  et_destination :: bytes
  et_source :: bytes
  et_type :: u16
  et_payload :: bytes

definition eth_bytes :: "ethernet_packet \<Rightarrow> bytes" where
  "eth_bytes e = et_destination e @ et_source e @ bytes16 (et_type e) @ et_payload e"

definition eth_of :: "bytes \<Rightarrow> ethernet_packet option" where
  "eth_of bs = (if length bs < 14 then None
     else Some \<lparr>et_destination = take 6 bs, et_source = take 6 (drop 6 bs), et_type = word16 (bs ! 12) (bs ! 13), et_payload = drop 14 bs\<rparr>)"

record arp_header =
  ar_htype :: u16
  ar_ptype :: u16
  ar_hlen :: u8
  ar_plen :: u8
  ar_oper :: u16
  ar_sha :: bytes
  ar_spa :: u32
  ar_tha :: bytes
  ar_tpa :: u32

definition arp_bytes :: "arp_header \<Rightarrow> bytes" where
  "arp_bytes a = bytes16 (ar_htype a) @ bytes16 (ar_ptype a) @ [ar_hlen a, ar_plen a] @ bytes16 (ar_oper a) @ ar_sha a @ bytes32 (ar_spa a) @
     ar_tha a @ bytes32 (ar_tpa a)"

definition arp_of :: "bytes \<Rightarrow> arp_header option" where
  "arp_of bs = (if length bs < 28 then None
     else Some \<lparr>ar_htype = word16 (bs ! 0) (bs ! 1), ar_ptype = word16 (bs ! 2) (bs ! 3), ar_hlen = bs ! 4, ar_plen = bs ! 5,
       ar_oper = word16 (bs ! 6) (bs ! 7), ar_sha = take 6 (drop 8 bs), ar_spa = word32 (bs ! 14) (bs ! 15) (bs ! 16) (bs ! 17),
       ar_tha = take 6 (drop 18 bs), ar_tpa = word32 (bs ! 24) (bs ! 25) (bs ! 26) (bs ! 27)\<rparr>)"


section \<open>Checksums\<close>

text \<open>The sum over the 16-bit words at an address, carry folded back after each.\<close>

definition csum_step :: "u16 \<Rightarrow> u32 \<Rightarrow> u32" where
  "csum_step w acc =
     (let acc = acc + ucast (ntohs w)
      in if acc > 0xFFFF then drop_bit 16 acc + (acc AND 0xFFFF) else acc)"

fun words16 :: "bytes \<Rightarrow> u16 list" where
  "words16 (a # b # bs) = word16 a b # words16 bs"
| "words16 _ = []"

definition csum_words :: "nat \<Rightarrow> bytes \<Rightarrow> u32 \<Rightarrow> u32" where
  "csum_words n bs acc = fold csum_step (take n (words16 bs)) acc"

definition csum_finish :: "u32 \<Rightarrow> u16" where
  "csum_finish acc = ucast (NOT (acc AND 0xFFFF) AND 0xFFFF)"

definition calculate_ipv4_checksum :: "ipv4_packet \<Rightarrow> u16" where
  "calculate_ipv4_checksum p = csum_finish (csum_words 10 (ipv4_bytes p) 0)"

text \<open>Reading behind the data is a fault; \<open>d_words\<close> has 16 bits.\<close>

definition calculate_tcp_checksum :: "tcp_check_header \<Rightarrow> tcp_header \<Rightarrow> bytes \<Rightarrow> nat \<Rightarrow> u16 option" where
  "calculate_tcp_checksum p h d payload_size =
     (let acc = csum_words 6 (check_bytes p) 0;
          acc = csum_words 10 (tcp_bytes h) acc;
          d_words = unat (of_nat (payload_size div 2) :: u16);
          odd_byte = (d_words * 2 \<noteq> payload_size)
      in if length d < d_words * 2 + (if odd_byte then 1 else 0) then None
         else let acc = csum_words d_words d acc
              in Some (csum_finish (if odd_byte then csum_step (word16 (d ! (d_words * 2)) 0) acc else acc)))"

text \<open>This one folds the carry once, at the end, and leaves out an odd byte.\<close>

definition icmp_checksum :: "ipv4_packet \<Rightarrow> u16 option" where
  "icmp_checksum packet =
     (let n = nat ((int (unat (ntohs (ip_length packet))) - 20) div 2);
          ws = words16 (ip_payload packet)
      in if length ws < n then None
         else let acc = fold (\<lambda>w acc. acc + ucast (ntohs w)) (take n ws) (0 :: u32);
                  acc = (if acc > 0xFFFF then drop_bit 16 acc + (acc AND 0xFFFF) else acc)
              in Some (csum_finish acc))"


section \<open>Reading back\<close>

lemma word16_bytes16 [simp]: "word16 (ucast v) (ucast (drop_bit 8 v)) = v"
  unfolding word16_def by (rule bit_word_eqI) (auto simp: bit_simps)

lemma word32_bytes32 [simp]: "word32 (ucast v) (ucast (drop_bit 8 v)) (ucast (drop_bit 16 v)) (ucast (drop_bit 24 v)) = v"
  unfolding word32_def
proof (rule bit_word_eqI)
  fix n assume "n < LENGTH(32)"
  then consider "n < 8" | "8 \<le> n" "n < 16" | "16 \<le> n" "n < 24" | "24 \<le> n" "n < 32" by fastforce
  then show "bit (ucast (ucast v :: u8) OR push_bit 8 (ucast (ucast (drop_bit 8 v) :: u8)) OR push_bit 16 (ucast (ucast (drop_bit 16 v) :: u8)) OR
      push_bit 24 (ucast (ucast (drop_bit 24 v) :: u8)) :: u32) n = bit v n"
    by cases (auto simp: bit_simps)
qed

lemma htons_eq: "htons v = push_bit 8 v OR drop_bit 8 v"
proof -
  have m: "(0xFF :: u16) = mask 8" "(0xFF00 :: u16) = push_bit 8 (mask 8)" by (simp_all add: mask_eq_exp_minus_1)
  show ?thesis unfolding htons_def m by (rule bit_word_eqI) (auto simp: bit_simps dest: bit_imp_le_length)
qed

lemma htons_htons [simp]: "htons (htons v) = v"
  unfolding htons_eq by (rule bit_word_eqI) (auto simp: bit_simps)

lemma htonl_bytes: "htonl (word32 a b c d) = word32 d c b a"
proof -
  have m: "(0xFF :: u32) = mask 8" "(0xFF00 :: u32) = push_bit 8 (mask 8)" "(0xFF0000 :: u32) = push_bit 16 (mask 8)" "(0xFF000000 :: u32) = push_bit 24 (mask 8)"
    by (simp_all add: mask_eq_exp_minus_1)
  show ?thesis unfolding htonl_def m word32_def
  proof (rule bit_word_eqI)
    fix n assume "n < LENGTH(32)"
    then consider "n < 8" | "8 \<le> n" "n < 16" | "16 \<le> n" "n < 24" | "24 \<le> n" "n < 32" by fastforce
    then show "bit (push_bit 24 ((ucast a OR push_bit 8 (ucast b) OR push_bit 16 (ucast c) OR push_bit 24 (ucast d)) AND mask 8) OR
         push_bit 8 ((ucast a OR push_bit 8 (ucast b) OR push_bit 16 (ucast c) OR push_bit 24 (ucast d)) AND push_bit 8 (mask 8)) OR
         drop_bit 8 ((ucast a OR push_bit 8 (ucast b) OR push_bit 16 (ucast c) OR push_bit 24 (ucast d)) AND push_bit 16 (mask 8)) OR
         drop_bit 24 ((ucast a OR push_bit 8 (ucast b) OR push_bit 16 (ucast c) OR push_bit 24 (ucast d)) AND push_bit 24 (mask 8)) :: u32) n =
        bit (ucast d OR push_bit 8 (ucast c) OR push_bit 16 (ucast b) OR push_bit 24 (ucast a) :: u32) n"
      by cases (auto simp: bit_simps dest: bit_imp_le_length)
  qed
qed

lemma htonl_htonl [simp]: "htonl (htonl v) = v"
  using htonl_bytes [of "ucast v" "ucast (drop_bit 8 v)" "ucast (drop_bit 16 v)" "ucast (drop_bit 24 v)"]
    htonl_bytes [of "ucast (drop_bit 24 v)" "ucast (drop_bit 16 v)" "ucast (drop_bit 8 v)" "ucast v"] by simp

lemma ipv4_of_bytes: "ipv4_of (ipv4_bytes p) = Some p"
  by (cases p) (simp add: ipv4_bytes_def bytes16_def bytes32_def)

lemma icmp_of_bytes: "icmp_of (icmp_bytes h) = Some h"
  by (cases h) (simp add: icmp_bytes_def bytes16_def)

lemma udp_of_bytes: "udp_of (udp_bytes u) = Some u"
  by (cases u) (simp add: udp_bytes_def bytes16_def)

lemma tcp_of_bytes: "tcp_of (tcp_bytes t) = Some t"
  by (cases t) (simp add: tcp_bytes_def bytes16_def bytes32_def)

lemma eth_of_bytes: "length (et_destination e) = 6 \<Longrightarrow> length (et_source e) = 6 \<Longrightarrow> eth_of (eth_bytes e) = Some e"
  by (cases e) (simp add: eth_of_def eth_bytes_def bytes16_def nth_append)

lemma arp_of_bytes: "length (ar_sha a) = 6 \<Longrightarrow> length (ar_tha a) = 6 \<Longrightarrow> arp_of (arp_bytes a) = Some a"
  by (cases a) (simp add: arp_of_def arp_bytes_def bytes16_def bytes32_def nth_append)

lemma length_headers [simp]:
  "length (ipv4_bytes p) = 20 + length (ip_payload p)" "length (udp_bytes u) = 8 + length (ud_payload u)" "length (tcp_bytes t) = 20 + length (tc_payload t)"
  by (simp_all add: ipv4_bytes_def udp_bytes_def tcp_bytes_def bytes16_def bytes32_def)


section \<open>The Internet checksum\<close>

definition words_total :: "u16 list \<Rightarrow> nat" where
  "words_total ws = sum_list (map (\<lambda>w. unat (ntohs w)) ws)"

lemma unat_16_lt: "unat (w :: u16) < 65536"
  using unsigned_less [of w, where ?'a = nat] by simp

lemma csum_step_spec:
  assumes "unat s \<le> 65535"
  shows "unat (csum_step w s) = (if unat s + unat (ntohs w) > 65535 then unat s + unat (ntohs w) - 65535 else unat s + unat (ntohs w))"
proof -
  let ?n = "unat s + unat (ntohs w)"
  have lt: "?n < 131072" using assms unat_16_lt [of "ntohs w"] by simp
  have u: "unat (s + ucast (ntohs w)) = ?n"
  proof -
    have "unat (ucast (ntohs w) :: u32) = unat (ntohs w)" by (rule unat_ucast_up) simp
    then show ?thesis using lt by (simp add: unat_word_ariths)
  qed
  show ?thesis
  proof (cases "?n > 65535")
    case True
    have d: "unat (drop_bit 16 (s + ucast (ntohs w))) = 1"
    proof -
      have "?n div 65536 = 1" using True lt by simp
      then show ?thesis using u by (simp add: drop_bit_eq_div unat_div_distrib)
    qed
    have m: "unat ((s + ucast (ntohs w)) AND 0xFFFF) = ?n - 65536"
    proof -
      have "(0xFFFF :: u32) = mask 16" by (simp add: mask_eq_exp_minus_1)
      then have "unat ((s + ucast (ntohs w)) AND 0xFFFF) = ?n mod 65536"
        using u by (simp only: take_bit_eq_mask [symmetric] unsigned_take_bit_eq take_bit_eq_mod) (simp add: unat_mod_distrib)
      then show ?thesis using True lt by (simp add: mod_if)
    qed
    have "unat (drop_bit 16 (s + ucast (ntohs w)) + (s + ucast (ntohs w) AND 0xFFFF)) = 1 + (?n - 65536)"
      using d m lt by (simp add: unat_word_ariths)
    then show ?thesis using True u by (simp add: csum_step_def Let_def word_less_nat_alt)
  next
    case False
    then show ?thesis using u by (simp add: csum_step_def Let_def word_less_nat_alt)
  qed
qed

text \<open>The running sum is the total modulo 65535, and zero only if everything is.\<close>

lemma csum_fold:
  "unat s \<le> 65535 \<Longrightarrow> unat (fold csum_step ws s) \<le> 65535 \<and> unat (fold csum_step ws s) mod 65535 = (unat s + words_total ws) mod 65535 \<and>
     (unat (fold csum_step ws s) = 0 \<longleftrightarrow> unat s + words_total ws = 0)"
proof (induction ws arbitrary: s)
  case (Cons w ws)
  let ?s = "csum_step w s"
  have le: "unat ?s \<le> 65535" using csum_step_spec [OF Cons.prems, of w] Cons.prems unat_16_lt [of "ntohs w"] by auto
  have "unat ?s mod 65535 = (unat s + unat (ntohs w)) mod 65535"
    using csum_step_spec [OF Cons.prems, of w] by (auto simp: le_mod_geq)
  then have "(unat ?s + words_total ws) mod 65535 = (unat s + unat (ntohs w) + words_total ws) mod 65535"
    by (metis mod_add_left_eq)
  moreover have "unat ?s = 0 \<longleftrightarrow> unat s + unat (ntohs w) = 0" using csum_step_spec [OF Cons.prems, of w] by auto
  ultimately show ?case using Cons.IH [OF le] by (auto simp: words_total_def add.assoc)
qed (simp add: words_total_def)

lemma csum_finish_spec: "unat s \<le> 65535 \<Longrightarrow> unat (csum_finish s) = 65535 - unat s"
proof -
  assume le: "unat s \<le> 65535"
  have m: "(0xFFFF :: u32) = mask 16" by (simp add: mask_eq_exp_minus_1)
  have "csum_finish s = NOT (ucast s)" unfolding csum_finish_def m by (rule bit_word_eqI) (auto simp: bit_simps)
  also have "\<dots> = - 1 - ucast s" by (simp add: not_eq_complement)
  finally have "unat (csum_finish s) = unat (- 1 :: u16) - unat (ucast s :: u16)" by (simp add: unat_sub)
  moreover have "unat (ucast s :: u16) = unat s" using le by (simp add: unsigned_ucast_eq take_bit_nat_eq_self)
  moreover have "unat (- 1 :: u16) = 65535" by (simp add: unsigned_minus_1_eq_mask mask_eq_exp_minus_1)
  ultimately show ?thesis by simp
qed

lemma words_total_append: "words_total (a @ b) = words_total a + words_total b"
  by (simp add: words_total_def)

text \<open>With the checksum in its place, the running sum over all words is all ones.\<close>

lemma checksum_completes:
  assumes c: "c = csum_finish (fold csum_step (a @ [0] @ b) 0)"
  shows "fold csum_step (a @ [htons c] @ b) 0 = 0xFFFF"
proof -
  let ?t = "words_total a + words_total b" and ?s = "fold csum_step (a @ [0] @ b) 0" and ?r = "fold csum_step (a @ [htons c] @ b) 0"
  have "htons 0 = 0" by (simp add: htons_def)
  then have s: "unat ?s \<le> 65535" "unat ?s mod 65535 = ?t mod 65535" "unat ?s = 0 \<longleftrightarrow> ?t = 0"
    using csum_fold [of 0 "a @ [0] @ b"] by (simp_all add: words_total_append, simp_all add: words_total_def)
  have uc: "unat c = 65535 - unat ?s" using csum_finish_spec [OF s(1)] c by simp
  have r: "unat ?r \<le> 65535" "unat ?r mod 65535 = (?t + unat c) mod 65535" "unat ?r = 0 \<longleftrightarrow> ?t + unat c = 0"
    using csum_fold [of 0 "a @ [htons c] @ b"] by (simp_all add: words_total_append, simp_all add: words_total_def ac_simps)
  have "(?t + unat c) mod 65535 = (unat ?s + unat c) mod 65535" using s(2) by (metis mod_add_left_eq)
  also have "unat ?s + unat c = 65535" using uc s(1) by simp
  finally have "unat ?r mod 65535 = 0" using r(2) by simp
  moreover have "unat ?r \<noteq> 0" using r(3) s(3) uc by auto
  ultimately have "unat ?r = 65535" using r(1) by (metis le_neq_implies_less mod_less)
  then have "unat ?r = unat (0xFFFF :: u32)" by simp
  then show ?thesis by (simp only: word_unat_eq_iff)
qed

lemma ipv4_words: "take 10 (words16 (ipv4_bytes p)) =
    [word16 (ip_version_ihl p) (ip_dscp_ecn p), ip_length p, ip_ident p, ip_flags_fragment p, word16 (ip_ttl p) (ip_protocol p)] @ [ip_checksum p] @
    words16 (bytes32 (ip_source p) @ bytes32 (ip_destination p))"
  by (simp add: ipv4_bytes_def bytes16_def bytes32_def)

lemma length_words16: "length (words16 bs) = length bs div 2"
  by (induction bs rule: words16.induct) auto

lemma words16_append: "even (length a) \<Longrightarrow> words16 (a @ b) = words16 a @ words16 b"
  by (induction a rule: words16.induct) auto

definition padded :: "bytes \<Rightarrow> bytes" where
  "padded d = (if odd (length d) then d @ [0] else d)"

lemma words16_padded: "words16 (padded d) = words16 d @ (if odd (length d) then [word16 (d ! (length d - 1)) 0] else [])"
  unfolding padded_def
proof (induction d rule: words16.induct)
  case (1 a b bs)
  show ?case
  proof (cases "odd (length bs)")
    case True
    then obtain n where "length bs = Suc n" by (cases "length bs") auto
    then show ?thesis using 1 True by simp
  qed (use 1 in simp)
qed auto

lemma tcp_words: "take 10 (words16 (tcp_bytes t)) =
    words16 (bytes16 (tc_source_port t) @ bytes16 (tc_destination_port t) @ bytes32 (tc_seq_number t) @ bytes32 (tc_ack_number t) @
      bytes16 (tc_flags t) @ bytes16 (tc_window_size t)) @ [tc_checksum t] @ [tc_urgent t]"
  by (simp add: tcp_bytes_def bytes16_def bytes32_def)

lemma check_words: "take 6 (words16 (check_bytes p)) = words16 (check_bytes p)"
  by (simp add: check_bytes_def bytes16_def bytes32_def)

text \<open>The words that the checksum of a segment covers: the pseudo header, the header and the padded data.\<close>

definition segment_words :: "tcp_check_header \<Rightarrow> tcp_header \<Rightarrow> bytes \<Rightarrow> u16 list" where
  "segment_words p h d = words16 (check_bytes p) @ take 10 (words16 (tcp_bytes h)) @ words16 (padded d)"

lemma tcp_checksum_eq:
  assumes "length d < 131072"
  shows "calculate_tcp_checksum p h d (length d) = Some (csum_finish (fold csum_step (segment_words p h d) 0))"
proof -
  have n: "unat (of_nat (length d div 2) :: u16) = length d div 2"
    using assms by (simp add: unsigned_of_nat take_bit_nat_eq_self)
  have "take (length d div 2) (words16 d) = words16 d" by (simp add: length_words16)
  moreover have "length d div 2 * 2 = length d \<longleftrightarrow> even (length d)" by (metis dvd_div_mult_self even_mult_iff even_numeral)
  moreover have "odd (length d) \<Longrightarrow> length d div 2 * 2 = length d - 1" by (simp add: odd_two_times_div_two_nat mult.commute)
  ultimately show ?thesis
    by (auto simp: calculate_tcp_checksum_def n Let_def csum_words_def segment_words_def check_words words16_padded)
qed

lemma icmp_fold_total: "fold (\<lambda>w acc. acc + ucast (ntohs w)) ws (s :: u32) = s + of_nat (words_total ws)"
proof (induction ws arbitrary: s)
  case (Cons w ws)
  have "(ucast (ntohs w) :: u32) = of_nat (unat (ntohs w))" by simp
  then show ?case using Cons by (simp add: words_total_def)
qed (simp add: words_total_def)


section \<open>Properties\<close>

text \<open>
  The one's complement sum of 16-bit values: their sum, reduced modulo 65535 to a value from 1 to 65535, and zero
  only if all of them are zero.  The checksum of the Internet protocols is its complement, and the test of the receiver
  is that the sum over everything, checksum included, is 65535.
\<close>

definition ones_sum :: "u16 list \<Rightarrow> nat" where
  "ones_sum ws = (if words_total ws = 0 then 0 else if words_total ws mod 65535 = 0 then 65535 else words_total ws mod 65535)"

lemma csum_is_ones_sum: "unat (fold csum_step ws 0) = ones_sum ws"
proof -
  let ?r = "unat (fold csum_step ws 0)"
  have r: "?r \<le> 65535" "?r mod 65535 = words_total ws mod 65535" "?r = 0 \<longleftrightarrow> words_total ws = 0"
    using csum_fold [of 0 ws] by simp_all
  show ?thesis
  proof (cases "?r = 65535 \<or> ?r = 0")
    case True
    then show ?thesis using r unfolding ones_sum_def by auto
  next
    case False
    then have "?r mod 65535 = ?r" using r(1) by simp
    then show ?thesis using r False unfolding ones_sum_def by auto
  qed
qed

lemma csum_finish_ones: "unat (csum_finish (fold csum_step ws 0)) = 65535 - ones_sum ws"
  using csum_finish_spec [of "fold csum_step ws 0"] csum_fold [of 0 ws] by (simp add: csum_is_ones_sum)

lemma all_ones: "fold csum_step ws 0 = 0xFFFF \<Longrightarrow> ones_sum ws = 65535"
  using csum_is_ones_sum [of ws] by simp

text \<open>Property C17: the checksum that the code computes for an IPv4 header, and for a TCP segment with its pseudo header and up to 131071 bytes of
  data, is the complement of the one's complement sum of their 16-bit words; and once it is filled into a field that was cleared before, the
  one's complement sum of all words is 65535, the test of the receiver.\<close>

theorem internet_checksums_verify:
  assumes "ip_checksum ip = 0" and "tc_checksum h = 0" and "length d < 131072"
  shows "unat (calculate_ipv4_checksum ip) = 65535 - ones_sum (take 10 (words16 (ipv4_bytes ip))) \<and>
    ones_sum (take 10 (words16 (ipv4_bytes (ip\<lparr>ip_checksum := htons (calculate_ipv4_checksum ip)\<rparr>)))) = 65535 \<and>
    (\<exists>c. calculate_tcp_checksum p h d (length d) = Some c \<and> unat c = 65535 - ones_sum (segment_words p h d) \<and>
       ones_sum (segment_words p (h\<lparr>tc_checksum := htons c\<rparr>) d) = 65535)"
proof (intro conjI)
  let ?a = "[word16 (ip_version_ihl ip) (ip_dscp_ecn ip), ip_length ip, ip_ident ip, ip_flags_fragment ip, word16 (ip_ttl ip) (ip_protocol ip)]"
  let ?b = "words16 (bytes32 (ip_source ip) @ bytes32 (ip_destination ip))"
  show "unat (calculate_ipv4_checksum ip) = 65535 - ones_sum (take 10 (words16 (ipv4_bytes ip)))"
    by (simp only: calculate_ipv4_checksum_def csum_words_def csum_finish_ones)
  have "calculate_ipv4_checksum ip = csum_finish (fold csum_step (?a @ [0] @ ?b) 0)"
    by (simp only: calculate_ipv4_checksum_def csum_words_def ipv4_words assms(1))
  from checksum_completes [OF this]
  show "ones_sum (take 10 (words16 (ipv4_bytes (ip\<lparr>ip_checksum := htons (calculate_ipv4_checksum ip)\<rparr>)))) = 65535"
    by (intro all_ones) (simp add: ipv4_words)
next
  let ?c = "csum_finish (fold csum_step (segment_words p h d) 0)"
  let ?pre = "words16 (bytes16 (tc_source_port h) @ bytes16 (tc_destination_port h) @ bytes32 (tc_seq_number h) @ bytes32 (tc_ack_number h) @
      bytes16 (tc_flags h) @ bytes16 (tc_window_size h))"
  have "?c = csum_finish (fold csum_step ((words16 (check_bytes p) @ ?pre) @ [0] @ ([tc_urgent h] @ words16 (padded d))) 0)"
    by (simp only: segment_words_def tcp_words assms(2) append.assoc)
  from checksum_completes [OF this] have "fold csum_step (segment_words p (h\<lparr>tc_checksum := htons ?c\<rparr>) d) 0 = 0xFFFF"
    by (simp add: segment_words_def tcp_words)
  then show "\<exists>c. calculate_tcp_checksum p h d (length d) = Some c \<and> unat c = 65535 - ones_sum (segment_words p h d) \<and>
      ones_sum (segment_words p (h\<lparr>tc_checksum := htons c\<rparr>) d) = 65535"
    using tcp_checksum_eq [OF assms(3)] csum_finish_ones all_ones by blast
qed

definition ipv4_example :: ipv4_packet where
  "ipv4_example = \<lparr>ip_version_ihl = 0x45, ip_dscp_ecn = 0, ip_length = htons 21, ip_ident = 0, ip_flags_fragment = 0, ip_ttl = 64, ip_protocol = 6,
     ip_checksum = 0, ip_source = 0x0100007F, ip_destination = 0x0100007F, ip_payload = [7]\<rparr>"

definition tcp_example :: tcp_header where
  "tcp_example = \<lparr>tc_source_port = htons 49152, tc_destination_port = htons 80, tc_seq_number = htonl 1, tc_ack_number = htonl 9,
     tc_flags = htons 0x5018, tc_window_size = htons 65535, tc_checksum = 0, tc_urgent = 0, tc_payload = [7]\<rparr>"

definition check_example :: tcp_check_header where
  "check_example = \<lparr>tk_source = 0x0100007F, tk_destination = 0x0100007F, tk_zeros = 0, tk_protocol = 6, tk_tcp_len = htons 21\<rparr>"

theorem internet_checksums_verify_witness:
  "ones_sum (take 10 (words16 (ipv4_bytes (ipv4_example\<lparr>ip_checksum := htons (calculate_ipv4_checksum ipv4_example)\<rparr>)))) = 65535 \<and>
   (\<exists>c. calculate_tcp_checksum check_example tcp_example [7] 1 = Some c \<and>
      ones_sum (segment_words check_example (tcp_example\<lparr>tc_checksum := htons c\<rparr>) [7]) = 65535)"
  using internet_checksums_verify [of ipv4_example tcp_example "[7]" check_example] by (auto simp: ipv4_example_def tcp_example_def)

lemma words_total_le: "words_total ws \<le> length ws * 65535"
proof (induction ws)
  case (Cons w ws)
  then show ?case using unat_16_lt [of "ntohs w"] by (simp add: words_total_def)
qed (simp add: words_total_def)

text \<open>What folding once gives, and what the receiver then finds.\<close>

lemma fold_once:
  assumes "t < 2 ^ 32"
  defines "s \<equiv> of_nat t :: u32" and "f \<equiv> t div 65536 + t mod 65536"
  shows "unat (csum_finish (if s > 0xFFFF then drop_bit 16 s + (s AND 0xFFFF) else s)) = 65535 - f mod 65536"
proof -
  have us: "unat s = t" using assms(1) by (simp add: s_def unsigned_of_nat take_bit_nat_eq_self)
  have m: "(0xFFFF :: u32) = mask 16" by (simp add: mask_eq_exp_minus_1)
  have f: "f < 131072" using assms(1) by (simp add: f_def)
  have fin: "unat (csum_finish x) = 65535 - unat x mod 65536" for x
  proof -
    have "csum_finish x = csum_finish (x AND 0xFFFF)" by (simp add: csum_finish_def)
    moreover have "unat (x AND 0xFFFF) = unat x mod 65536" unfolding m by (simp only: take_bit_eq_mask [symmetric] unsigned_take_bit_eq take_bit_eq_mod) (simp add: unat_mod_distrib)
    ultimately show ?thesis using csum_finish_spec [of "x AND 0xFFFF"] by simp
  qed
  show ?thesis
  proof (cases "t > 65535")
    case True
    have "unat (drop_bit 16 s) = t div 65536" using us by (simp add: drop_bit_eq_div unat_div_distrib)
    moreover have "unat (s AND 0xFFFF) = t mod 65536"
      unfolding m using us by (simp only: take_bit_eq_mask [symmetric] unsigned_take_bit_eq take_bit_eq_mod) (simp add: unat_mod_distrib)
    ultimately have "unat (drop_bit 16 s + (s AND 0xFFFF)) = f" using f by (simp add: unat_word_ariths f_def)
    then show ?thesis using True us fin by (simp add: word_less_nat_alt)
  next
    case False
    then show ?thesis using us fin [of s] by (simp add: word_less_nat_alt f_def)
  qed
qed

lemma fold_once_verifies:
  assumes t: "words_total (a @ [0] @ b) < 2 ^ 32" and c: "unat c = 65535 - (words_total (a @ [0] @ b) div 65536 + words_total (a @ [0] @ b) mod 65536) mod 65536"
  shows "fold csum_step (a @ [htons c] @ b) 0 = 0xFFFF \<longleftrightarrow> words_total (a @ [0] @ b) div 65536 + words_total (a @ [0] @ b) mod 65536 < 65536"
proof -
  let ?t = "words_total (a @ [0] @ b)" and ?r = "fold csum_step (a @ [htons c] @ b) 0"
  define f where "f = ?t div 65536 + ?t mod 65536"
  have "htons 0 = 0" by (simp add: htons_def)
  then have tt: "words_total (a @ [htons c] @ b) = ?t + unat c" by (simp add: words_total_def)
  have r: "unat ?r \<le> 65535" "unat ?r mod 65535 = (?t + unat c) mod 65535" "unat ?r = 0 \<longleftrightarrow> ?t + unat c = 0"
    using csum_fold [of 0 "a @ [htons c] @ b"] unfolding tt by simp_all
  have all: "?r = 0xFFFF \<longleftrightarrow> unat ?r = 65535"
  proof -
    have "?r = 0xFFFF \<longleftrightarrow> unat ?r = unat (0xFFFF :: u32)" by (rule word_unat_eq_iff)
    then show ?thesis by simp
  qed
  have "?t = ?t div 65536 * 65535 + f" unfolding f_def using div_mult_mod_eq [of ?t 65536] by linarith
  then have cong: "?t mod 65535 = f mod 65535" by (metis mod_mult_self3)
  have fl: "f < 131072" using t by (simp add: f_def)
  have split: "(?t + unat c) mod 65535 = (f + unat c) mod 65535" using cong by (metis mod_add_left_eq)
  show ?thesis
  proof (cases "f < 65536")
    case True
    then have uc: "unat c = 65535 - f" using c by (simp add: f_def)
    then have "unat ?r mod 65535 = 0" using r(2) split True by simp
    moreover have "?t + unat c \<noteq> 0"
    proof
      assume z: "?t + unat c = 0"
      then have "f = 0" unfolding f_def by (metis add_eq_0_iff_both_eq_0 div_0 mod_0)
      then show False using uc z by simp
    qed
    ultimately have "unat ?r = 65535" using r(1,3) by (metis le_neq_implies_less mod_less)
    then show ?thesis using True all by (simp add: f_def)
  next
    case False
    then obtain g where g: "f = 65536 + g" using le_Suc_ex by (metis not_less)
    then have "f mod 65536 = g" using fl by simp
    then have "f + unat c = 65535 + 65536" using c g fl unfolding f_def [symmetric] by simp
    then have "unat ?r mod 65535 = 1" using r(2) split by simp
    then have "unat ?r \<noteq> 65535" by auto
    then show ?thesis using False all by (simp add: f_def)
  qed
qed

lemma icmp_checksum_spec:
  assumes "ip_payload p = icmp_bytes h" and "ic_csum h = 0" and "even (length (ic_data h))" and "unat (ntohs (ip_length p)) = 20 + length (ip_payload p)"
  shows "\<exists>c. icmp_checksum p = Some c \<and>
    (fold csum_step (words16 (icmp_bytes (h\<lparr>ic_csum := htons c\<rparr>))) 0 = 0xFFFF \<longleftrightarrow>
     words_total (words16 (icmp_bytes h)) div 65536 + words_total (words16 (icmp_bytes h)) mod 65536 < 65536)"
proof -
  let ?a = "[word16 (ic_type h) (ic_code h)]" and ?b = "ic_identifier h # words16 (ic_data h)"
  let ?ws = "words16 (icmp_bytes h)"
  have w: "words16 (icmp_bytes (h\<lparr>ic_csum := x\<rparr>)) = ?a @ [x] @ ?b" for x by (simp add: icmp_bytes_def bytes16_def)
  have ws: "?ws = ?a @ [0] @ ?b" using w [of 0] assms(2) by (cases h) simp
  have len: "length (ip_payload p) < 65536" using unat_16_lt [of "ntohs (ip_length p)"] assms(4) by simp
  have lw: "length ?ws = length (ip_payload p) div 2" using assms(1) by (simp add: length_words16)
  have "words_total ?ws \<le> length ?ws * 65535" by (rule words_total_le)
  also have "\<dots> < 2 ^ 32" using lw len by simp
  finally have t: "words_total ?ws < 2 ^ 32" .
  have n: "nat ((int (unat (ntohs (ip_length p))) - 20) div 2) = length ?ws" using assms(4) lw by simp
  let ?s = "of_nat (words_total ?ws) :: u32"
  let ?c = "csum_finish (if ?s > 0xFFFF then drop_bit 16 ?s + (?s AND 0xFFFF) else ?s)"
  have "icmp_checksum p = Some ?c" by (simp only: icmp_checksum_def Let_def assms(1) n take_all order_refl icmp_fold_total less_irrefl if_False add_0)
  then show ?thesis using fold_once_verifies [of ?a ?b ?c] fold_once [OF t] t w unfolding ws by simp
qed

text \<open>Fact: the checksum of an ICMP message passes the test of the receiver exactly if adding the carry back once leaves no further carry;
  otherwise the message is sent with a wrong checksum.\<close>

theorem icmp_checksum_exact:
  assumes "ip_payload p = icmp_bytes h" and "ic_csum h = 0" and "even (length (ic_data h))" and "unat (ntohs (ip_length p)) = 20 + length (ip_payload p)"
  shows "\<exists>c. icmp_checksum p = Some c \<and>
    (fold csum_step (words16 (icmp_bytes (h\<lparr>ic_csum := htons c\<rparr>))) 0 = 0xFFFF \<longleftrightarrow>
     words_total (words16 (icmp_bytes h)) div 65536 + words_total (words16 (icmp_bytes h)) mod 65536 < 65536)"
  by (rule icmp_checksum_spec [OF assms])

definition icmp_example :: icmp_header where
  "icmp_example = \<lparr>ic_type = 0, ic_code = 1, ic_csum = 0, ic_identifier = 0xFFFF, ic_data = [0xFF, 0xFF]\<rparr>"

theorem icmp_checksum_exact_witness:
  "\<exists>c. icmp_checksum (ipv4_example\<lparr>ip_length := htons 28, ip_payload := icmp_bytes icmp_example\<rparr>) = Some c \<and>
    fold csum_step (words16 (icmp_bytes (icmp_example\<lparr>ic_csum := htons c\<rparr>))) 0 \<noteq> 0xFFFF"
proof -
  have "words_total (words16 (icmp_bytes icmp_example)) = 131071"
    by (simp add: words_total_def icmp_bytes_def icmp_example_def bytes16_def word16_def htons_def)
  then show ?thesis
    using icmp_checksum_exact [of "ipv4_example\<lparr>ip_length := htons 28, ip_payload := icmp_bytes icmp_example\<rparr>" icmp_example]
    by (simp add: icmp_example_def icmp_bytes_def bytes16_def)
qed

end
