(* ===== verification/Net_Core.thy ===== *)
theory Net_Core
  imports Net_Packet Kernel_Hashmap Ring_Buffer Kprintf
begin

text \<open>
  Sockets, address resolution and sending: \<open>kernel/net/socket.c\<close> up to its receive queues, \<open>kernel/net/arp.c\<close>, \<open>kernel/net/netif.c\<close> and the
  sending halves of \<open>kernel/net/eth.c\<close> and \<open>kernel/net/ipv4.c\<close>.  The drivers are a parameter: what the write operation of a device does
  to the state, and what others do while the caller sleeps.  A read outside of a packet is a fault.
\<close>

section \<open>State\<close>

record nic =
  ni_if_name :: bytes
  ni_mac :: bytes
  ni_mtu :: u64
  ni_ipv4_addr :: u32
  ni_ipv4_subnet :: u32
  ni_ipv4_gateway :: u32
  ni_ipv6_addr :: bytes

record arp_entry =
  ac_hwaddr :: bytes
  ac_flags :: u16
  ac_iface :: ptr

record sockaddr_in =
  si_family :: u16
  si_port :: u16
  si_addr :: u32

datatype sock_kind = SockIcmp | SockUdp | SockTcp | SockRaw

record sock =
  sk_kind :: sock_kind
  sk_device :: ptr
  sk_alert_wait :: "ptr list"
  sk_alerted :: "ptr list"
  sk_rx_wait :: "ptr list"
  sk_woken :: "ptr list"
  sk_rx_queue :: "bytes list"
  sk_priv0 :: u16
  sk_priv1 :: u16
  sk_priv2 :: u16
  sk_dest :: sockaddr_in
  sk_priv32_0 :: u32
  sk_priv32_1 :: u32
  sk_priv32_2 :: u32
  sk_unread :: nat
  sk_buf :: bytes
  sk_nonblocking :: bool

record counters =
  ct_tx_count :: u64
  ct_tx_bytes :: u64
  ct_rx_count :: u64
  ct_rx_bytes :: u64

record net =
  nt_socks :: "ptr \<rightharpoonup> sock"
  nt_udp :: "(u64, ptr) hashmap"
  nt_tcp :: "(u64, ptr) hashmap"
  nt_icmp :: "(u64, ptr) hashmap"
  nt_arp :: "(u64, arp_entry) hashmap"
  nt_interfaces :: "(bytes, ptr) hashmap"
  nt_if_first :: ptr
  nt_if_loop :: ptr
  nt_nics :: "ptr \<rightharpoonup> nic"
  nt_raw_sockets :: "ptr list"
  nt_next_port :: u32
  nt_next_tcp_port :: u32
  nt_loop_counts :: counters
  nt_mounts :: "(bytes \<times> ptr) list"
  nt_sent :: "(ptr \<times> bytes) list"

record driver =
  dr_write :: "ptr \<Rightarrow> bytes \<Rightarrow> net \<Rightarrow> net option"
  dr_sleep :: "net \<Rightarrow> net"

text \<open>A device that records what is sent on it.\<close>

definition recording :: driver where
  "recording = \<lparr>dr_write = (\<lambda>nic frame st. Some (st\<lparr>nt_sent := nt_sent st @ [(nic, frame)]\<rparr>)), dr_sleep = (\<lambda>st. st)\<rparr>"

definition set_sock :: "ptr \<Rightarrow> (sock \<Rightarrow> sock) \<Rightarrow> net \<Rightarrow> net option" where
  "set_sock a f st = (case nt_socks st a of None \<Rightarrow> None | Some s \<Rightarrow> Some (st\<lparr>nt_socks := (nt_socks st)(a \<mapsto> f s)\<rparr>))"


section \<open>Receive queues\<close>

text \<open>The waiters are alerted in the order of the list.\<close>

definition net_sock_alert :: "sock \<Rightarrow> sock" where
  "net_sock_alert s = s\<lparr>sk_alerted := sk_alerted s @ sk_alert_wait s, sk_alert_wait := []\<rparr>"

definition net_sock_add :: "ptr \<Rightarrow> bytes \<Rightarrow> nat \<Rightarrow> net \<Rightarrow> net option" where
  "net_sock_add a frame sz st =
     (if length frame < sz then None
      else set_sock a (\<lambda>s. net_sock_alert (s\<lparr>sk_rx_queue := sk_rx_queue s @ [take sz frame],
        sk_woken := sk_woken s @ rev (sk_rx_wait s), sk_rx_wait := []\<rparr>)) st)"

text \<open>Each entry of the list is what others do during one sleep, and whether it was interrupted; \<open>Restart\<close> stands for the null pointer.\<close>

type_synonym net_env = "((net \<Rightarrow> net) \<times> bool) list"

fun net_sock_get :: "ptr \<Rightarrow> ptr \<Rightarrow> net_env \<Rightarrow> net \<Rightarrow> (bytes io \<times> net) option" where
  "net_sock_get self a env st = do {
     s \<leftarrow> nt_socks st a;
     case sk_rx_queue s of
       x # q \<Rightarrow> Some (Returned x, st\<lparr>nt_socks := (nt_socks st)(a \<mapsto> s\<lparr>sk_rx_queue := q\<rparr>)\<rparr>)
     | [] \<Rightarrow>
         let st = st\<lparr>nt_socks := (nt_socks st)(a \<mapsto> s\<lparr>sk_rx_wait := sk_rx_wait s @ [self]\<rparr>)\<rparr>
         in case env of [] \<Rightarrow> Some (Asleep, st)
            | (act, interrupted) # env' \<Rightarrow> do {
                let st = act st;
                s \<leftarrow> nt_socks st a;
                if interrupted \<and> sk_rx_queue s = [] then Some (Restart, st) else net_sock_get self a env' st
              }
   }"

definition sock_generic_check :: "sock \<Rightarrow> int" where
  "sock_generic_check s = (if sk_rx_queue s \<noteq> [] then 0 else if sk_unread s \<noteq> 0 then 0 else 1)"

definition sock_generic_wait :: "ptr \<Rightarrow> sock \<Rightarrow> sock" where
  "sock_generic_wait process s = (if process \<in> set (sk_alert_wait s) then s else s\<lparr>sk_alert_wait := sk_alert_wait s @ [process]\<rparr>)"

definition FIONBIO :: u64 where "FIONBIO = 0x4E424C4B"

text \<open>The argument when the pointer passes the check for user memory.\<close>

definition sock_generic_ioctl :: "u64 \<Rightarrow> u32 option \<Rightarrow> sock \<Rightarrow> int \<times> sock" where
  "sock_generic_ioctl request argp s =
     (if request = FIONBIO then
        case argp of None \<Rightarrow> (-14, s) | Some v \<Rightarrow> (0, s\<lparr>sk_nonblocking := (v \<noteq> 0)\<rparr>)
      else (-22, s))"

definition net_sock_create :: "sock_kind \<Rightarrow> sock" where
  "net_sock_create kind = \<lparr>sk_kind = kind, sk_device = 0, sk_alert_wait = [], sk_alerted = [], sk_rx_wait = [], sk_woken = [], sk_rx_queue = [],
     sk_priv0 = 0, sk_priv1 = 0, sk_priv2 = 0, sk_dest = \<lparr>si_family = 0, si_port = 0, si_addr = 0\<rparr>, sk_priv32_0 = 0, sk_priv32_1 = 0,
     sk_priv32_2 = 0, sk_unread = 0, sk_buf = [], sk_nonblocking = False\<rparr>"


section \<open>Interfaces\<close>

definition net_if_lookup :: "bytes \<Rightarrow> net \<Rightarrow> ptr option option" where
  "net_if_lookup name st = hashmap_get (nt_interfaces st) name"

definition net_if_any :: "net \<Rightarrow> ptr" where
  "net_if_any st = nt_if_first st"

definition net_if_route :: "u32 \<Rightarrow> net \<Rightarrow> ptr" where
  "net_if_route addr st = (if addr = 0x0100007F then nt_if_loop st else nt_if_first st)"

text \<open>The path is printed into 100 bytes of the stack.\<close>

definition net_add_interface :: "bytes \<Rightarrow> bytes \<Rightarrow> ptr \<Rightarrow> net \<Rightarrow> net option" where
  "net_add_interface tmp name node st = do {
     (old, ifs) \<leftarrow> hashmap_set (nt_interfaces st) name (Some node);
     (n, path) \<leftarrow> snprintf tmp 100 (map of_char ''/dev/net/%s'') [ArgStr (Some name)];
     Some (st\<lparr>nt_interfaces := ifs, nt_mounts := nt_mounts st @ [(path, node)],
       nt_if_first := (if nt_if_first st = 0 then node else nt_if_first st)\<rparr>)
   }"


section \<open>Sending\<close>

definition ETHERNET_TYPE_IPV4 :: u16 where "ETHERNET_TYPE_IPV4 = 0x0800"
definition ETHERNET_TYPE_ARP :: u16 where "ETHERNET_TYPE_ARP = 0x0806"
definition ETHERNET_BROADCAST_MAC :: bytes where "ETHERNET_BROADCAST_MAC = replicate 6 0xFF"

definition net_eth_send :: "driver \<Rightarrow> ptr \<Rightarrow> nat \<Rightarrow> bytes \<Rightarrow> u16 \<Rightarrow> bytes \<Rightarrow> net \<Rightarrow> net option" where
  "net_eth_send d nic len data ty dest st = do {
     n \<leftarrow> nt_nics st nic;
     if length data < len then None
     else dr_write d nic (eth_bytes \<lparr>et_destination = dest, et_source = ni_mac n, et_type = htons ty, et_payload = take len data\<rparr>) st
   }"

definition net_arp_cache_add :: "ptr \<Rightarrow> u32 \<Rightarrow> bytes \<Rightarrow> u16 \<Rightarrow> net \<Rightarrow> net option" where
  "net_arp_cache_add iface addr hwaddr flags st = do {
     (old, arp) \<leftarrow> hashmap_set (nt_arp st) (ucast addr) (Some \<lparr>ac_hwaddr = hwaddr, ac_flags = flags, ac_iface = iface\<rparr>);
     Some (st\<lparr>nt_arp := arp\<rparr>)
   }"

definition net_arp_cache_get :: "u32 \<Rightarrow> net \<Rightarrow> arp_entry option option" where
  "net_arp_cache_get addr st = hashmap_get (nt_arp st) (ucast addr)"

definition net_arp_ask :: "driver \<Rightarrow> u32 \<Rightarrow> ptr \<Rightarrow> net \<Rightarrow> net option" where
  "net_arp_ask d addr nic st = do {
     n \<leftarrow> nt_nics st nic;
     let req = \<lparr>ar_htype = htons 1, ar_ptype = htons ETHERNET_TYPE_IPV4, ar_hlen = 6, ar_plen = 4, ar_oper = htons 1,
       ar_sha = ni_mac n, ar_spa = (if ni_ipv4_addr n \<noteq> 0 then ni_ipv4_addr n else 0), ar_tha = replicate 6 0, ar_tpa = addr\<rparr>;
     net_eth_send d nic 28 (arp_bytes req) ETHERNET_TYPE_ARP ETHERNET_BROADCAST_MAC st
   }"

definition net_arp_handle :: "driver \<Rightarrow> bytes \<Rightarrow> ptr \<Rightarrow> net \<Rightarrow> net option" where
  "net_arp_handle d data nic st = do {
     packet \<leftarrow> arp_of data;
     n \<leftarrow> nt_nics st nic;
     if ntohs (ar_htype packet) = 1 \<and> ntohs (ar_ptype packet) = ETHERNET_TYPE_IPV4 then do {
       st \<leftarrow> (if ar_spa packet \<noteq> 0 then net_arp_cache_add nic (ar_spa packet) (ar_sha packet) 0 st else Some st);
       if ntohs (ar_oper packet) = 1 \<and> ni_ipv4_addr n \<noteq> 0 \<and> ar_tpa packet = ni_ipv4_addr n then
         net_eth_send d nic 28
           (arp_bytes \<lparr>ar_htype = htons 1, ar_ptype = htons ETHERNET_TYPE_IPV4, ar_hlen = 6, ar_plen = 4, ar_oper = htons 2,
              ar_sha = ni_mac n, ar_spa = ni_ipv4_addr n, ar_tha = ar_sha packet, ar_tpa = ar_spa packet\<rparr>)
           ETHERNET_TYPE_ARP (ar_sha packet) st
       else Some st
     } else Some st
   }"

definition net_ipv4_send :: "driver \<Rightarrow> ipv4_packet \<Rightarrow> ptr \<Rightarrow> net \<Rightarrow> net option" where
  "net_ipv4_send d response nic st = do {
     n \<leftarrow> nt_nics st nic;
     let ipdest = ip_destination response;
     (resp, st) \<leftarrow>
       (if ni_ipv4_subnet n = 0 \<or> ipdest AND ni_ipv4_subnet n \<noteq> ni_ipv4_addr n AND ni_ipv4_subnet n then do {
          resp \<leftarrow> net_arp_cache_get (ni_ipv4_gateway n) st;
          Some (resp, st)
        } else do {
          resp \<leftarrow> net_arp_cache_get ipdest st;
          case resp of Some e \<Rightarrow> Some (resp, st)
          | None \<Rightarrow> do {
              st \<leftarrow> net_arp_ask d ipdest nic st;
              let st = dr_sleep d st;
              resp \<leftarrow> net_arp_cache_get ipdest st;
              Some (resp, st)
            }
        });
     net_eth_send d nic (unat (ntohs (ip_length response))) (ipv4_bytes response) ETHERNET_TYPE_IPV4
       (case resp of Some e \<Rightarrow> ac_hwaddr e | None \<Rightarrow> ETHERNET_BROADCAST_MAC) st
   }"


section \<open>Drivers that leave the stack alone\<close>

text \<open>A driver whose frames go to the end of a log, and a log whose last frame carries the packet \<open>r\<close> as it is.\<close>

definition records :: "driver \<Rightarrow> bool" where
  "records d \<longleftrightarrow> (\<forall>nic frame st. dr_write d nic frame st = Some (st\<lparr>nt_sent := nt_sent st @ [(nic, frame)]\<rparr>))"

definition ip_frame :: "nic \<Rightarrow> arp_entry \<Rightarrow> ipv4_packet \<Rightarrow> bytes" where
  "ip_frame n e p = eth_bytes \<lparr>et_destination = ac_hwaddr e, et_source = ni_mac n, et_type = htons ETHERNET_TYPE_IPV4, et_payload = ipv4_bytes p\<rparr>"

definition sent_last :: "ptr \<Rightarrow> nic \<Rightarrow> ipv4_packet \<Rightarrow> (ptr \<times> bytes) list \<Rightarrow> bool" where
  "sent_last nic n r l \<longleftrightarrow> (\<exists>m e. l = m @ [(nic, ip_frame n e r)])"

text \<open>A device that only takes frames: it does not hand any in while it is written to or waited for.\<close>

locale quiet_driver =
  fixes d :: driver
  assumes write_quiet: "\<exists>l. dr_write d nic frame st = Some (st\<lparr>nt_sent := l\<rparr>)"
    and sleep_quiet: "\<exists>l. dr_sleep d st = st\<lparr>nt_sent := l\<rparr>"
begin

lemma eth_send_quiet:
  assumes "nt_nics st nic = Some n" and "len \<le> length data"
  shows "\<exists>l. net_eth_send d nic len data ty dest st = Some (st\<lparr>nt_sent := l\<rparr>)"
  using assms write_quiet by (simp add: net_eth_send_def)

lemma eth_send_last:
  assumes "nt_nics st nic = Some n" and "unat (ntohs (ip_length r)) = 20 + length (ip_payload r)"
  shows "\<exists>l. net_eth_send d nic (unat (ntohs (ip_length r))) (ipv4_bytes r) ETHERNET_TYPE_IPV4 dest st = Some (st\<lparr>nt_sent := l\<rparr>) \<and>
    (records d \<longrightarrow> sent_last nic n r l)"
proof -
  let ?f = "ip_frame n \<lparr>ac_hwaddr = dest, ac_flags = 0, ac_iface = nic\<rparr> r"
  have eq: "net_eth_send d nic (unat (ntohs (ip_length r))) (ipv4_bytes r) ETHERNET_TYPE_IPV4 dest st = dr_write d nic ?f st"
    using assms by (simp add: net_eth_send_def ip_frame_def)
  show ?thesis
  proof (cases "records d")
    case True
    then show ?thesis unfolding eq by (auto simp: records_def sent_last_def)
  next
    case False
    then show ?thesis unfolding eq using write_quiet by auto
  qed
qed

lemma arp_ask_quiet:
  assumes "nt_nics st nic = Some n" and "length (ni_mac n) = 6"
  shows "\<exists>l. net_arp_ask d addr nic st = Some (st\<lparr>nt_sent := l\<rparr>)"
  using assms eth_send_quiet by (simp add: net_arp_ask_def arp_bytes_def bytes16_def bytes32_def)

lemma ipv4_send_quiet:
  assumes nic: "nt_nics st nic = Some n" "length (ni_mac n) = 6" and arp: "hm_wf (nt_arp st)" and len: "unat (ntohs (ip_length r)) = 20 + length (ip_payload r)"
  shows "\<exists>l. net_ipv4_send d r nic st = Some (st\<lparr>nt_sent := l\<rparr>) \<and> (records d \<longrightarrow> sent_last nic n r l)"
proof -
  have get: "\<exists>e. net_arp_cache_get addr (st\<lparr>nt_sent := l\<rparr>) = Some e" for addr l
    using arp by (simp add: net_arp_cache_get_def hashmap_get_spec)
  have send: "\<exists>l'. net_eth_send d nic (unat (ntohs (ip_length r))) (ipv4_bytes r) ETHERNET_TYPE_IPV4 dest (st\<lparr>nt_sent := l\<rparr>) = Some (st\<lparr>nt_sent := l'\<rparr>) \<and>
      (records d \<longrightarrow> sent_last nic n r l')" (is "\<exists>l'. ?send l l'") for dest l
    using eth_send_last [of "st\<lparr>nt_sent := l\<rparr>" nic n r dest] nic(1) len by simp
  obtain l1 where l1: "net_arp_ask d (ip_destination r) nic st = Some (st\<lparr>nt_sent := l1\<rparr>)" using arp_ask_quiet [OF nic] by blast
  obtain l2 where l2: "dr_sleep d (st\<lparr>nt_sent := l1\<rparr>) = st\<lparr>nt_sent := l2\<rparr>" using sleep_quiet [of "st\<lparr>nt_sent := l1\<rparr>"] by auto
  obtain g where g: "net_arp_cache_get (ni_ipv4_gateway n) st = Some g" using get [of _ "nt_sent st"] by auto
  obtain e where e: "net_arp_cache_get (ip_destination r) st = Some e" using get [of _ "nt_sent st"] by auto
  obtain e2 where e2: "net_arp_cache_get (ip_destination r) (st\<lparr>nt_sent := l2\<rparr>) = Some e2" using get by blast
  show ?thesis
    using nic(1) g e e2 l1 l2 send [of _ "nt_sent st"] send [of _ l2] by (cases e) (auto simp: net_ipv4_send_def Let_def)
qed

end

lemma records_recording: "records recording"
  by (simp add: records_def recording_def)

interpretation rec: quiet_driver recording
proof
  show "\<exists>l. dr_sleep recording st = st\<lparr>nt_sent := l\<rparr>" for st
    by (rule exI [of _ "nt_sent st"]) (simp add: recording_def)
qed (auto simp: recording_def)

text \<open>The station that a packet for \<open>addr\<close> is handed to.\<close>

definition next_hop :: "nic \<Rightarrow> u32 \<Rightarrow> u32" where
  "next_hop n addr = (if ni_ipv4_subnet n = 0 \<or> addr AND ni_ipv4_subnet n \<noteq> ni_ipv4_addr n AND ni_ipv4_subnet n then ni_ipv4_gateway n else addr)"

text \<open>The frame of a packet for this station.\<close>

lemma send_known:
  assumes nic: "nt_nics st nic = Some n" and hop: "net_arp_cache_get (next_hop n (ip_destination r)) st = Some (Some e)"
    and len: "unat (ntohs (ip_length r)) = 20 + length (ip_payload r)"
  shows "net_ipv4_send d r nic st = dr_write d nic (ip_frame n e r) st"
  using assms by (auto simp: net_ipv4_send_def net_eth_send_def Let_def next_hop_def ip_frame_def split: if_splits)


section \<open>Properties\<close>

text \<open>Fact: a request for the address of the device is answered, with one frame to the asking station that carries the addresses of both, and
  the asking station is known afterwards.\<close>

theorem arp_request_answered:
  assumes nic: "nt_nics st nic = Some n" "length (ni_mac n) = 6" and arp: "hm_wf (nt_arp st)" and own: "ni_ipv4_addr n \<noteq> 0"
    and q: "ar_htype q = htons 1" "ar_ptype q = htons ETHERNET_TYPE_IPV4" "ar_oper q = htons 1" "ar_tpa q = ni_ipv4_addr n" "ar_spa q \<noteq> 0"
      "length (ar_sha q) = 6" "length (ar_tha q) = 6"
  shows "\<exists>st' frame e r. net_arp_handle recording (arp_bytes q) nic st = Some st' \<and> nt_sent st' = nt_sent st @ [(nic, frame)] \<and>
    eth_of frame = Some e \<and> et_destination e = ar_sha q \<and> ntohs (et_type e) = ETHERNET_TYPE_ARP \<and> arp_of (et_payload e) = Some r \<and>
    ntohs (ar_oper r) = 2 \<and> ar_sha r = ni_mac n \<and> ar_spa r = ni_ipv4_addr n \<and> ar_tha r = ar_sha q \<and> ar_tpa r = ar_spa q \<and>
    (\<exists>x. net_arp_cache_get (ar_spa q) st' = Some (Some x) \<and> ac_hwaddr x = ar_sha q)"
proof -
  let ?x = "\<lparr>ac_hwaddr = ar_sha q, ac_flags = 0, ac_iface = nic\<rparr>"
  let ?r = "\<lparr>ar_htype = htons 1, ar_ptype = htons ETHERNET_TYPE_IPV4, ar_hlen = 6, ar_plen = 4, ar_oper = htons 2,
      ar_sha = ni_mac n, ar_spa = ni_ipv4_addr n, ar_tha = ar_sha q, ar_tpa = ar_spa q\<rparr>"
  let ?e = "\<lparr>et_destination = ar_sha q, et_source = ni_mac n, et_type = htons ETHERNET_TYPE_ARP, et_payload = arp_bytes ?r\<rparr>"
  obtain ol m where m: "hashmap_set (nt_arp st) (ucast (ar_spa q)) (Some ?x) = Some (ol, m)" "hm_wf m" "hm_lookup m = (hm_lookup (nt_arp st))(ucast (ar_spa q) \<mapsto> Some ?x)"
    using hashmap_set_spec [OF arp, of "ucast (ar_spa q)" "Some ?x"] by auto
  have len: "length (arp_bytes ?r) = 28" using nic(2) q by (simp add: arp_bytes_def bytes16_def bytes32_def)
  let ?st = "st\<lparr>nt_arp := m, nt_sent := nt_sent st @ [(nic, eth_bytes ?e)]\<rparr>"
  have "net_arp_handle recording (arp_bytes q) nic st = Some ?st"
    using nic q own m(1) len by (simp add: net_arp_handle_def arp_of_bytes net_arp_cache_add_def net_eth_send_def recording_def)
  moreover have "eth_of (eth_bytes ?e) = Some ?e" using nic(2) q by (simp add: eth_of_bytes)
  moreover have "arp_of (arp_bytes ?r) = Some ?r" using nic(2) q by (simp add: arp_of_bytes)
  moreover have "net_arp_cache_get (ar_spa q) ?st = Some (Some ?x)" using m(2,3) by (simp add: net_arp_cache_get_def hashmap_get_spec)
  ultimately show ?thesis by (intro exI [of _ ?st] exI [of _ "eth_bytes ?e"] exI [of _ ?e] exI [of _ ?r] exI [of _ ?x]) simp
qed

text \<open>The stack right after the boot, with one device, \<open>10.0.2.15\<close> in \<open>10.0.2.0/24\<close>.\<close>

definition int_map :: "(u64, 'v) hashmap" where
  "int_map = \<lparr>hash_func = hashmap_int_hash, hash_comp = hashmap_int_comp, hm_size = 10, hm_entries = replicate 10 []\<rparr>"

definition name_map :: "(u8 list, 'v) hashmap" where
  "name_map = \<lparr>hash_func = hashmap_string_hash, hash_comp = hashmap_string_comp, hm_size = 10, hm_entries = replicate 10 []\<rparr>"

definition fresh_net :: net where
  "fresh_net = \<lparr>nt_socks = Map.empty, nt_udp = int_map, nt_tcp = int_map, nt_icmp = int_map,
     nt_arp = int_map, nt_interfaces = name_map, nt_if_first = 0, nt_if_loop = 0, nt_nics = Map.empty, nt_raw_sockets = [],
     nt_next_port = 12345, nt_next_tcp_port = 49152, nt_loop_counts = \<lparr>ct_tx_count = 0, ct_tx_bytes = 0, ct_rx_count = 0, ct_rx_bytes = 0\<rparr>,
     nt_mounts = [], nt_sent = []\<rparr>"

definition example_nic :: nic where
  "example_nic = \<lparr>ni_if_name = map of_char ''enp0s4'', ni_mac = [0x52, 0x54, 0, 0x12, 0x34, 0x56], ni_mtu = 1500, ni_ipv4_addr = 0x0F02000A,
     ni_ipv4_subnet = 0x00FFFFFF, ni_ipv4_gateway = 0x0202000A, ni_ipv6_addr = []\<rparr>"

definition example_net :: net where
  "example_net = fresh_net\<lparr>nt_nics := [0x20 \<mapsto> example_nic], nt_if_first := 0x20\<rparr>"

lemma int_map_wf [simp]: "hm_wf int_map" "hm_lookup int_map = Map.empty"
  by (auto simp: int_map_def hm_wf_def hashmap_int_comp_eq hm_lookup_def hm_slot_def)

lemma int_map_create: "hashmap_create_int 10 = Some int_map" "hashmap_create 10 = Some name_map"
  by (simp_all add: hashmap_create_int_def hashmap_create_def hashmap_new_def int_map_def name_map_def)

definition example_request :: arp_header where
  "example_request = \<lparr>ar_htype = htons 1, ar_ptype = htons ETHERNET_TYPE_IPV4, ar_hlen = 6, ar_plen = 4, ar_oper = htons 1,
     ar_sha = [0x52, 0x55, 10, 0, 2, 2], ar_spa = 0x0202000A, ar_tha = replicate 6 0, ar_tpa = 0x0F02000A\<rparr>"

theorem arp_request_answered_witness:
  "\<exists>st' frame e r. net_arp_handle recording (arp_bytes example_request) 0x20 example_net = Some st' \<and> nt_sent st' = nt_sent example_net @ [(0x20, frame)] \<and>
    eth_of frame = Some e \<and> et_destination e = ar_sha example_request \<and> ntohs (et_type e) = ETHERNET_TYPE_ARP \<and> arp_of (et_payload e) = Some r \<and>
    ntohs (ar_oper r) = 2 \<and> ar_sha r = ni_mac example_nic \<and> ar_spa r = ni_ipv4_addr example_nic \<and> ar_tha r = ar_sha example_request \<and>
    ar_tpa r = ar_spa example_request \<and> (\<exists>x. net_arp_cache_get (ar_spa example_request) st' = Some (Some x) \<and> ac_hwaddr x = ar_sha example_request)"
  by (rule arp_request_answered) (simp_all add: example_net_def fresh_net_def example_nic_def example_request_def)

end
