(* ===== verification/Net_Ipv4.thy ===== *)
theory Net_Ipv4
  imports Net_Core
begin

text \<open>
  ICMP, UDP and TCP over IPv4, \<open>kernel/net/ipv4.c\<close>: what arriving packets do to the sockets, and the operations of the three kinds of sockets.
  Values of packets are read from the bytes that arrived, each read being a fault behind their end.
\<close>

section \<open>Reading and building packets\<close>

definition load16 :: "bytes \<Rightarrow> nat \<Rightarrow> u16 option" where
  "load16 bs i = (if i + 1 < length bs then Some (word16 (bs ! i) (bs ! (i + 1))) else None)"

definition load32 :: "bytes \<Rightarrow> nat \<Rightarrow> u32 option" where
  "load32 bs i = (if i + 3 < length bs then Some (word32 (bs ! i) (bs ! (i + 1)) (bs ! (i + 2)) (bs ! (i + 3))) else None)"

definition ip_ntoa :: "u32 \<Rightarrow> bytes \<Rightarrow> (u32 \<times> bytes) option" where
  "ip_ntoa src_addr out = snprintf out 16 (map of_char ''%d.%d.%d.%d'')
     [ArgInt (ucast (drop_bit 24 (src_addr AND 0xFF000000))), ArgInt (ucast (drop_bit 16 (src_addr AND 0xFF0000))),
      ArgInt (ucast (drop_bit 8 (src_addr AND 0xFF00))), ArgInt (ucast (src_addr AND 0xFF))]"

definition IPV4_PROT_UDP :: u8 where "IPV4_PROT_UDP = 17"
definition IPV4_PROT_TCP :: u8 where "IPV4_PROT_TCP = 6"

text \<open>Every packet is filled in this way, and its checksum computed over the header.\<close>

definition make_packet :: "nat \<Rightarrow> u32 \<Rightarrow> u32 \<Rightarrow> u8 \<Rightarrow> u16 \<Rightarrow> u16 \<Rightarrow> bytes \<Rightarrow> ipv4_packet" where
  "make_packet total_length destination source protocol ident flags_fragment payload =
     (let p = \<lparr>ip_version_ihl = 0x45, ip_dscp_ecn = 0, ip_length = htons (of_nat total_length), ip_ident = ident,
            ip_flags_fragment = flags_fragment, ip_ttl = 64, ip_protocol = protocol, ip_checksum = 0, ip_source = source,
            ip_destination = destination, ip_payload = payload\<rparr>
      in p\<lparr>ip_checksum := htons (calculate_ipv4_checksum p)\<rparr>)"

definition make_segment :: "sock \<Rightarrow> u16 \<Rightarrow> u32 \<Rightarrow> u32 \<Rightarrow> u16 \<Rightarrow> u32 \<Rightarrow> u32 \<Rightarrow> bytes \<Rightarrow> ipv4_packet option" where
  "make_segment s dport seq ack flags source destination data = do {
     let h = \<lparr>tc_source_port = htons (sk_priv0 s), tc_destination_port = dport, tc_seq_number = seq, tc_ack_number = ack,
           tc_flags = htons flags, tc_window_size = htons 65535, tc_checksum = 0, tc_urgent = 0, tc_payload = data\<rparr>;
     let check = \<lparr>tk_source = source, tk_destination = destination, tk_zeros = 0, tk_protocol = IPV4_PROT_TCP,
           tk_tcp_len = htons (of_nat (20 + length data))\<rparr>;
     c \<leftarrow> calculate_tcp_checksum check h data (length data);
     Some (make_packet (40 + length data) destination source IPV4_PROT_TCP (htons (sk_priv2 s)) 0 (tcp_bytes (h\<lparr>tc_checksum := htons c\<rparr>)))
   }"


section \<open>ICMP\<close>

definition set_csum :: "u16 \<Rightarrow> bytes \<Rightarrow> bytes" where
  "set_csum v bs = bs[2 := ucast v, 3 := ucast (drop_bit 8 v)]"

text \<open>The reply to a ping has the length of the request, one more when that is odd, and a copy of what is there in memory.\<close>

definition ping_reply :: "ipv4_packet \<Rightarrow> u32 \<Rightarrow> ipv4_packet option" where
  "ping_reply packet own =
     (let len = ntohs (ip_length packet);
          len = (if len AND 1 \<noteq> 0 then len + 1 else len);
          n = unat len
      in if n < 24 \<or> length (ip_payload packet) < n - 20 then None
         else do {
           let data = set_csum 0 ((take (n - 20) (ip_payload packet))[0 := 0]);
           let r = make_packet n (ip_source packet) own 1 (ip_ident packet) (htons 0x4000) data;
           c \<leftarrow> icmp_checksum r;
           Some (r\<lparr>ip_payload := set_csum (htons c) data\<rparr>)
         })"

definition icmp_handle :: "driver \<Rightarrow> ipv4_packet \<Rightarrow> ptr \<Rightarrow> net \<Rightarrow> net option" where
  "icmp_handle d packet nic st =
     (if length (ip_payload packet) < 2 then None
      else if ip_payload packet ! 0 = 8 \<and> ip_payload packet ! 1 = 0 then do {
        n \<leftarrow> nt_nics st nic;
        r \<leftarrow> ping_reply packet (ni_ipv4_addr n);
        net_ipv4_send d r nic st
      } else if ip_payload packet ! 0 = 0 \<and> ip_payload packet ! 1 = 0 then do {
        ident \<leftarrow> load16 (ip_payload packet) 4;
        handler \<leftarrow> hashmap_get (nt_icmp st) (ucast (ntohs ident));
        case handler of None \<Rightarrow> Some st
        | Some a \<Rightarrow> net_sock_add a (ipv4_bytes packet) (unat (ntohs (ip_length packet))) st
      } else Some st)"


section \<open>TCP: arriving segments\<close>

definition TCP_FLAGS_FIN :: u16 where "TCP_FLAGS_FIN = 1"
definition TCP_FLAGS_SYN :: u16 where "TCP_FLAGS_SYN = 2"
definition TCP_FLAGS_RST :: u16 where "TCP_FLAGS_RST = 4"
definition TCP_FLAGS_PSH :: u16 where "TCP_FLAGS_PSH = 8"
definition TCP_FLAGS_ACK :: u16 where "TCP_FLAGS_ACK = 16"

text \<open>What an arriving segment does to the socket, and whether it is accepted.\<close>

definition ack_socket :: "bool \<Rightarrow> u64 \<Rightarrow> u32 \<Rightarrow> u16 \<Rightarrow> sock \<Rightarrow> bool \<times> sock" where
  "ack_socket isSynAck payload_len seq flags s =
     (let ok = \<not> (sk_priv32_1 s \<noteq> 0 \<and> \<not> isSynAck \<and> sk_priv32_1 s \<noteq> ntohl seq);
          s = (if ok then s\<lparr>sk_priv32_0 := (if isSynAck then 1 else sk_priv32_0 s),
                            sk_priv32_1 := ucast (ucast (ntohl seq) + payload_len :: u64), sk_priv1 := 2\<rparr> else s);
          s = s\<lparr>sk_priv2 := sk_priv2 s + 1\<rparr>;
          s = (if ntohs flags AND TCP_FLAGS_FIN \<noteq> 0 then s\<lparr>sk_priv32_1 := sk_priv32_1 s + 1, sk_priv1 := 3\<rparr> else s)
      in (ok, s))"

definition tcp_ack :: "driver \<Rightarrow> ptr \<Rightarrow> ptr \<Rightarrow> ipv4_packet \<Rightarrow> bool \<Rightarrow> u64 \<Rightarrow> net \<Rightarrow> (bool \<times> net) option" where
  "tcp_ack d nic a packet isSynAck payload_len st = do {
     n \<leftarrow> nt_nics st nic;
     s \<leftarrow> nt_socks st a;
     sport \<leftarrow> load16 (ip_payload packet) 0;
     seq \<leftarrow> load32 (ip_payload packet) 4;
     flags \<leftarrow> load16 (ip_payload packet) 12;
     let (ok, s) = ack_socket isSynAck payload_len seq flags s;
     let st = st\<lparr>nt_socks := (nt_socks st)(a \<mapsto> s)\<rparr>;
     r \<leftarrow> make_segment s sport (htonl (sk_priv32_0 s)) (htonl (sk_priv32_1 s)) (TCP_FLAGS_ACK OR 0x5000) (ni_ipv4_addr n) (ip_source packet) [];
     st \<leftarrow> net_ipv4_send d r nic st;
     st \<leftarrow> (if ok then Some st else do { st \<leftarrow> net_ipv4_send d r nic st; net_ipv4_send d r nic st });
     Some (ok, st)
   }"

definition tcp_segment_len :: "ipv4_packet \<Rightarrow> u16 \<Rightarrow> u64" where
  "tcp_segment_len packet flags =
     ucast (ntohs (ip_length packet)) - 20 - ucast (drop_bit 12 (ntohs flags AND 0xF000)) * 4"

definition tcp_handle :: "driver \<Rightarrow> ipv4_packet \<Rightarrow> ptr \<Rightarrow> ptr \<Rightarrow> net \<Rightarrow> net option" where
  "tcp_handle d packet nic a st = do {
     s \<leftarrow> nt_socks st a;
     let queue = (\<lambda>(ok, st). if ok then net_sock_add a (ipv4_bytes packet) (unat (ntohs (ip_length packet))) st else Some st);
     if sk_priv1 s = 1 then do {
       flags \<leftarrow> load16 (ip_payload packet) 12;
       if ntohs flags AND (TCP_FLAGS_SYN OR TCP_FLAGS_ACK) = TCP_FLAGS_SYN OR TCP_FLAGS_ACK then do {
         r \<leftarrow> tcp_ack d nic a packet True 1 st;
         queue r
       } else if ntohs flags AND TCP_FLAGS_RST \<noteq> 0 then set_sock a (\<lambda>s. net_sock_alert (s\<lparr>sk_priv1 := 0\<rparr>)) st
       else Some st
     } else if sk_priv1 s = 2 then do {
       flags \<leftarrow> load16 (ip_payload packet) 12;
       if tcp_segment_len packet flags \<noteq> 0 then do {
         r \<leftarrow> tcp_ack d nic a packet False (tcp_segment_len packet flags) st;
         queue r
       } else if ntohs flags AND TCP_FLAGS_FIN \<noteq> 0 then do {
         (ok, st) \<leftarrow> tcp_ack d nic a packet False 0 st;
         Some st
       } else Some st
     } else Some st
   }"

definition net_ipv4_handle :: "driver \<Rightarrow> bytes \<Rightarrow> ptr \<Rightarrow> net \<Rightarrow> net option" where
  "net_ipv4_handle d data nic st = do {
     packet \<leftarrow> ipv4_of data;
     if ip_protocol packet = 1 then icmp_handle d packet nic st
     else if ip_protocol packet = IPV4_PROT_UDP then do {
       port \<leftarrow> load16 (ip_payload packet) 2;
       present \<leftarrow> hashmap_has (nt_udp st) (ucast (ntohs port));
       if present then do {
         sock \<leftarrow> hashmap_get (nt_udp st) (ucast (ntohs port));
         a \<leftarrow> sock;
         net_sock_add a (ipv4_bytes packet) (unat (ntohs (ip_length packet))) st
       } else Some st
     } else if ip_protocol packet = IPV4_PROT_TCP then do {
       port \<leftarrow> load16 (ip_payload packet) 2;
       sock \<leftarrow> hashmap_get (nt_tcp st) (ucast (ntohs port));
       case sock of None \<Rightarrow> Some st | Some a \<Rightarrow> tcp_handle d packet nic a st
     } else Some st
   }"


section \<open>Messages\<close>

definition EINTR :: int where "EINTR = 4"
definition EAGAIN :: int where "EAGAIN = 11"
definition EACCES :: int where "EACCES = 13"
definition EINVAL :: int where "EINVAL = 22"
definition ENONET :: int where "ENONET = 64"
definition ENOPROTOOPT :: int where "ENOPROTOOPT = 109"
definition ECONNREFUSED :: int where "ECONNREFUSED = 111"
definition EADDRINUSE :: int where "EADDRINUSE = 112"
definition ETIMEDOUT :: int where "ETIMEDOUT = 116"
definition EADDRNOTAVAIL :: int where "EADDRNOTAVAIL = 125"
definition ENOTSUP :: int where "ENOTSUP = 134"
definition ERESTARTSYS :: int where "ERESTARTSYS = 512"

record cmsghdr =
  cm_len :: nat
  cm_level :: int
  cm_type :: int
  cm_data :: u8

text \<open>The first vector is the memory at its address and the length given; addresses in it that do not exist are faults.\<close>

record msghdr =
  mh_name :: "sockaddr_in option"
  mh_namelen :: nat
  mh_iovlen :: nat
  mh_iov_base :: bytes
  mh_iov_len :: nat
  mh_control :: cmsghdr
  mh_controllen :: nat

definition copy_out :: "bytes \<Rightarrow> msghdr \<Rightarrow> msghdr option" where
  "copy_out data msg =
     (if length (mh_iov_base msg) < length data then None
      else Some (msg\<lparr>mh_iov_base := data @ drop (length data) (mh_iov_base msg)\<rparr>))"

definition bytes_at :: "bytes \<Rightarrow> nat \<Rightarrow> nat \<Rightarrow> bytes option" where
  "bytes_at bs i n = (if length bs < i + n then None else Some (take n (drop i bs)))"

definition sock_ipv4_control_common :: "sock \<Rightarrow> u8 \<Rightarrow> msghdr \<Rightarrow> msghdr" where
  "sock_ipv4_control_common s ttl msg =
     (if sk_priv32_2 s \<noteq> 0 \<and> mh_controllen msg > 17
      then msg\<lparr>mh_control := \<lparr>cm_len = 17, cm_level = 0, cm_type = 12, cm_data = ttl\<rparr>, mh_controllen := 17\<rparr>
      else msg\<lparr>mh_controllen := 0\<rparr>)"

definition set_name :: "u16 \<Rightarrow> u32 \<Rightarrow> msghdr \<Rightarrow> msghdr" where
  "set_name port addr msg =
     (if mh_namelen msg = 16 \<and> mh_name msg \<noteq> None then msg\<lparr>mh_name := Some \<lparr>si_family = 1, si_port = port, si_addr = addr\<rparr>\<rparr> else msg)"

text \<open>A receiving call returns a result, or has not returned yet.\<close>

type_synonym 'a call_result = "(int option \<times> 'a \<times> net) option"


section \<open>ICMP sockets\<close>

definition sock_icmp_recv :: "ptr \<Rightarrow> ptr \<Rightarrow> net_env \<Rightarrow> msghdr \<Rightarrow> net \<Rightarrow> msghdr call_result" where
  "sock_icmp_recv self a env msg st = do {
     s \<leftarrow> nt_socks st a;
     if mh_iovlen msg > 1 then Some (Some (- ENOTSUP), msg, st)
     else if mh_iovlen msg = 0 then Some (Some 0, msg, st)
     else if sk_rx_queue s = [] \<and> sk_nonblocking s then Some (Some (- EAGAIN), msg, st)
     else do {
       (got, st) \<leftarrow> net_sock_get self a env st;
       case got of Asleep \<Rightarrow> Some (None, msg, st)
       | Restart \<Rightarrow> Some (Some (- EINTR), msg, st)
       | Returned packet \<Rightarrow> do {
           src \<leftarrow> ipv4_of packet;
           let n = min (length packet - 20) (mh_iov_len msg);
           let msg = sock_ipv4_control_common s (ip_ttl src) (set_name 0 (ip_source src) msg);
           data \<leftarrow> bytes_at (ip_payload src) 0 n;
           msg \<leftarrow> copy_out data msg;
           Some (Some (int n), msg, st)
         }
     }
   }"

definition sock_icmp_send :: "driver \<Rightarrow> ptr \<Rightarrow> msghdr \<Rightarrow> net \<Rightarrow> (int \<times> net) option" where
  "sock_icmp_send d a msg st = do {
     s \<leftarrow> nt_socks st a;
     if mh_iovlen msg > 1 then Some (- ENOTSUP, st)
     else if mh_iovlen msg = 0 then Some (0, st)
     else if mh_namelen msg \<noteq> 16 \<or> mh_iov_len msg < 6 then Some (- EINVAL, st)
     else do {
       data \<leftarrow> bytes_at (mh_iov_base msg) 0 (mh_iov_len msg);
       h \<leftarrow> icmp_of data;
       if ic_type h \<noteq> 8 \<or> ic_code h \<noteq> 0 \<or> ic_identifier h \<noteq> 0 then Some (- EINVAL, st)
       else do {
         name \<leftarrow> mh_name msg;
         let nic = net_if_route (si_addr name) st;
         if nic = 0 then Some (- ENONET, st)
         else do {
           n \<leftarrow> nt_nics st nic;
           let h = h\<lparr>ic_identifier := htons (ucast (sk_priv32_0 s)), ic_csum := 0\<rparr>;
           let r = make_packet (20 + mh_iov_len msg) (si_addr name) (ni_ipv4_addr n) 1 0 (htons 0x4000) (icmp_bytes h);
           c \<leftarrow> icmp_checksum r;
           st \<leftarrow> net_ipv4_send d (r\<lparr>ip_payload := icmp_bytes (h\<lparr>ic_csum := htons c\<rparr>)\<rparr>) nic st;
           Some (0, st)
         }
       }
     }
   }"

definition sock_icmp_close :: "ptr \<Rightarrow> net \<Rightarrow> net option" where
  "sock_icmp_close a st = do {
     s \<leftarrow> nt_socks st a;
     (old, m) \<leftarrow> hashmap_remove (nt_icmp st) (ucast (sk_priv32_0 s));
     Some (st\<lparr>nt_icmp := m\<rparr>)
   }"

text \<open>\<open>a\<close> is the address of the new socket and \<open>pid\<close> the caller.  The descriptor is made by \<open>process_append_fd\<close>.\<close>

definition icmp_socket :: "ptr \<Rightarrow> u32 \<Rightarrow> net \<Rightarrow> (int option \<times> net) option" where
  "icmp_socket a pid st = do {
     present \<leftarrow> hashmap_has (nt_icmp st) (scast pid);
     if present then Some (Some (- EINVAL), st)
     else do {
       (old, m) \<leftarrow> hashmap_set (nt_icmp st) (ucast pid) (Some a);
       Some (None, st\<lparr>nt_socks := (nt_socks st)(a \<mapsto> (net_sock_create SockIcmp)\<lparr>sk_priv32_0 := pid\<rparr>), nt_icmp := m\<rparr>)
     }
   }"


section \<open>UDP sockets\<close>

definition udp_get_port :: "ptr \<Rightarrow> net \<Rightarrow> net option" where
  "udp_get_port a st = do {
     let out = nt_next_port st;
     (old, m) \<leftarrow> hashmap_set (nt_udp st) (scast out) (Some a);
     set_sock a (\<lambda>s. s\<lparr>sk_priv0 := ucast out\<rparr>) (st\<lparr>nt_next_port := out + 1, nt_udp := m\<rparr>)
   }"

definition sockaddr_bytes :: "sockaddr_in \<Rightarrow> bytes" where
  "sockaddr_bytes sa = bytes16 (si_family sa) @ bytes16 (si_port sa) @ bytes32 (si_addr sa) @ replicate 8 0"

text \<open>The memory at \<open>addr\<close> has passed the check for \<open>addrlen\<close> bytes.\<close>

definition put_sockaddr :: "sockaddr_in \<Rightarrow> bytes \<Rightarrow> nat \<Rightarrow> bytes \<times> nat" where
  "put_sockaddr sa addr addrlen = (take (min addrlen 16) (sockaddr_bytes sa) @ drop (min addrlen 16) addr, max addrlen 16)"

definition sock_udp_getsockname :: "sock \<Rightarrow> bytes \<Rightarrow> nat \<Rightarrow> int \<times> bytes \<times> nat" where
  "sock_udp_getsockname s addr addrlen =
     (if sk_priv0 s = 0 then (- EINVAL, addr, addrlen)
      else (0, put_sockaddr \<lparr>si_family = 1, si_port = htons (sk_priv0 s), si_addr = 0\<rparr> addr addrlen))"

definition sock_udp_send :: "driver \<Rightarrow> ptr \<Rightarrow> msghdr \<Rightarrow> net \<Rightarrow> (int \<times> net) option" where
  "sock_udp_send d a msg st =
     (if mh_iovlen msg > 1 then Some (- ENOTSUP, st)
      else if mh_iovlen msg = 0 then Some (0, st)
      else if mh_namelen msg \<noteq> 16 then Some (- EINVAL, st)
      else do {
        name \<leftarrow> mh_name msg;
        if si_port name = 0 then Some (- EADDRNOTAVAIL, st)
        else do {
          s \<leftarrow> nt_socks st a;
          st \<leftarrow> (if sk_priv0 s = 0 then udp_get_port a st else Some st);
          s \<leftarrow> nt_socks st a;
          let nic = net_if_route (si_addr name) st;
          if nic = 0 then Some (0, st)
          else do {
            n \<leftarrow> nt_nics st nic;
            data \<leftarrow> bytes_at (mh_iov_base msg) 0 (mh_iov_len msg);
            let u = \<lparr>ud_source_port = htons (sk_priv0 s), ud_destination_port = si_port name,
              ud_length = htons (of_nat (8 + mh_iov_len msg)), ud_checksum = 0, ud_payload = data\<rparr>;
            st \<leftarrow> net_ipv4_send d (make_packet (28 + mh_iov_len msg) (si_addr name) (ni_ipv4_addr n) IPV4_PROT_UDP 0 (htons 0x4000) (udp_bytes u)) nic st;
            Some (int (mh_iov_len msg), st)
          }
        }
      })"

text \<open>The length of the data is that of the header, whatever the length of the vector.\<close>

definition sock_udp_recv :: "ptr \<Rightarrow> ptr \<Rightarrow> net_env \<Rightarrow> msghdr \<Rightarrow> net \<Rightarrow> msghdr call_result" where
  "sock_udp_recv self a env msg st = do {
     s \<leftarrow> nt_socks st a;
     if sk_priv0 s = 0 then Some (Some (- EINVAL), msg, st)
     else if mh_iovlen msg > 1 then Some (Some (- ENOTSUP), msg, st)
     else if mh_iovlen msg = 0 then Some (Some 0, msg, st)
     else if sk_rx_queue s = [] \<and> sk_nonblocking s then Some (Some (- EAGAIN), msg, st)
     else do {
       (got, st) \<leftarrow> net_sock_get self a env st;
       case got of Asleep \<Rightarrow> Some (None, msg, st)
       | Restart \<Rightarrow> Some (Some (- EINTR), msg, st)
       | Returned packet \<Rightarrow> do {
           p \<leftarrow> ipv4_of packet;
           let n = unat (ucast (ntohs (ip_length p)) - 20 - 8 :: u64);
           data \<leftarrow> bytes_at (ip_payload p) 8 n;
           msg \<leftarrow> copy_out data msg;
           port \<leftarrow> load16 (ip_payload p) 0;
           let msg = sock_ipv4_control_common s (ip_ttl p) (set_name port (ip_source p) msg);
           Some (Some (sint (of_nat n :: u64)), msg, st)
         }
     }
   }"

definition sock_udp_close :: "ptr \<Rightarrow> net \<Rightarrow> net option" where
  "sock_udp_close a st = do {
     s \<leftarrow> nt_socks st a;
     if sk_priv0 s \<noteq> 0 then do {
       (old, m) \<leftarrow> hashmap_remove (nt_udp st) (ucast (sk_priv0 s));
       Some (st\<lparr>nt_udp := m\<rparr>)
     } else Some st
   }"

definition sock_udp_bind :: "u32 \<Rightarrow> ptr \<Rightarrow> sockaddr_in \<Rightarrow> net \<Rightarrow> (int \<times> net) option" where
  "sock_udp_bind user a addr st = do {
     s \<leftarrow> nt_socks st a;
     let port = (ucast (ntohs (si_port addr)) :: u32);
     if sk_priv0 s \<noteq> 0 then Some (- EINVAL, st)
     else if port \<noteq> 0 \<and> port < 1024 \<and> user \<noteq> 0 then Some (- EACCES, st)
     else do {
       let (port, st) = (if port = 0 then (nt_next_port st, st\<lparr>nt_next_port := nt_next_port st + 1\<rparr>) else (port, st));
       present \<leftarrow> hashmap_has (nt_udp st) (scast port);
       if present then Some (- EADDRINUSE, st)
       else do {
         (old, m) \<leftarrow> hashmap_set (nt_udp st) (scast port) (Some a);
         st \<leftarrow> set_sock a (\<lambda>s. s\<lparr>sk_priv0 := ucast port\<rparr>) (st\<lparr>nt_udp := m\<rparr>);
         Some (0, st)
       }
     }
   }"

definition udp_socket :: "ptr \<Rightarrow> net \<Rightarrow> net" where
  "udp_socket a st = st\<lparr>nt_socks := (nt_socks st)(a \<mapsto> net_sock_create SockUdp)\<rparr>"


section \<open>TCP sockets\<close>

definition sock_tcp_close :: "driver \<Rightarrow> ptr \<Rightarrow> net \<Rightarrow> net option" where
  "sock_tcp_close d a st = do {
     s \<leftarrow> nt_socks st a;
     if sk_priv0 s \<noteq> 0 then do {
       (old, m) \<leftarrow> hashmap_remove (nt_tcp st) (ucast (sk_priv0 s));
       let st = st\<lparr>nt_tcp := m\<rparr>;
       let nic = net_if_route (si_addr (sk_dest s)) st;
       if nic = 0 then Some st
       else do {
         n \<leftarrow> nt_nics st nic;
         let s = s\<lparr>sk_priv2 := sk_priv2 s + 1\<rparr>;
         let st = st\<lparr>nt_socks := (nt_socks st)(a \<mapsto> s)\<rparr>;
         r \<leftarrow> make_segment s (si_port (sk_dest s)) (htonl (sk_priv32_0 s)) (htonl (sk_priv32_1 s)) (TCP_FLAGS_FIN OR TCP_FLAGS_ACK OR 0x5000)
           (ni_ipv4_addr n) (si_addr (sk_dest s)) [];
         net_ipv4_send d r nic st
       }
     } else Some st
   }"

definition tcp_get_port :: "ptr \<Rightarrow> net \<Rightarrow> net option" where
  "tcp_get_port a st = do {
     let out = nt_next_tcp_port st;
     (old, m) \<leftarrow> hashmap_set (nt_tcp st) (scast out) (Some a);
     set_sock a (\<lambda>s. s\<lparr>sk_priv0 := ucast out\<rparr>) (st\<lparr>nt_next_tcp_port := out + 1, nt_tcp := m\<rparr>)
   }"

text \<open>The part of a segment that did not fit is kept.\<close>

definition recv_unread :: "msghdr \<Rightarrow> sock \<Rightarrow> (int \<times> msghdr \<times> sock) option" where
  "recv_unread msg s = do {
     let out = min (sk_unread s) (mh_iov_len msg);
     data \<leftarrow> bytes_at (sk_buf s) 0 out;
     rest \<leftarrow> bytes_at (sk_buf s) out (sk_unread s - out);
     msg \<leftarrow> copy_out data msg;
     Some (int out, msg, s\<lparr>sk_unread := sk_unread s - out, sk_buf := rest\<rparr>)
   }"

definition recv_packet :: "bytes \<Rightarrow> msghdr \<Rightarrow> sock \<Rightarrow> (int \<times> msghdr \<times> sock) option" where
  "recv_packet packet msg s =
     (if length packet < 40 then None
      else let data = drop 40 packet; out = min (length data) (mh_iov_len msg)
           in do {
             msg \<leftarrow> copy_out (take out data) msg;
             Some (int out, msg, if length data > mh_iov_len msg then s\<lparr>sk_unread := length data - out, sk_buf := drop out data\<rparr> else s)
           })"

text \<open>Each entry is what others do during one wait for the socket, and the result of the wait.\<close>

fun recv_wait :: "ptr \<Rightarrow> ((net \<Rightarrow> net) \<times> int) list \<Rightarrow> net \<Rightarrow> (int option option \<times> net) option" where
  "recv_wait a env st = do {
     s \<leftarrow> nt_socks st a;
     if sk_rx_queue s \<noteq> [] then Some (Some None, st)
     else case env of [] \<Rightarrow> Some (None, st)
       | (act, r) # env' \<Rightarrow> do {
           let st = act st;
           s \<leftarrow> nt_socks st a;
           if r = - EINTR then Some (Some (Some (- ERESTARTSYS)), st)
           else if sk_rx_queue s = [] \<and> sk_priv1 s = 3 then Some (Some (Some 0), st)
           else recv_wait a env' st
         }
   }"

definition sock_tcp_recv :: "ptr \<Rightarrow> ptr \<Rightarrow> ((net \<Rightarrow> net) \<times> int) list \<Rightarrow> msghdr \<Rightarrow> net \<Rightarrow> msghdr call_result" where
  "sock_tcp_recv self a env msg st = do {
     s \<leftarrow> nt_socks st a;
     if sk_priv0 s = 0 then Some (Some (- EINVAL), msg, st)
     else if mh_iovlen msg > 1 then Some (Some (- ENOTSUP), msg, st)
     else if mh_iovlen msg = 0 then Some (Some 0, msg, st)
     else if sk_unread s \<noteq> 0 then do {
       (n, msg, s) \<leftarrow> recv_unread msg s;
       Some (Some n, msg, st\<lparr>nt_socks := (nt_socks st)(a \<mapsto> s)\<rparr>)
     }
     else if sk_rx_queue s = [] \<and> sk_priv1 s = 3 then Some (Some 0, msg, st)
     else if sk_rx_queue s = [] \<and> sk_nonblocking s then Some (Some (- EAGAIN), msg, st)
     else do {
       (res, st) \<leftarrow> recv_wait a env st;
       case res of None \<Rightarrow> Some (None, msg, st)
       | Some (Some e) \<Rightarrow> Some (Some e, msg, st)
       | Some None \<Rightarrow> do {
           (got, st) \<leftarrow> net_sock_get self a [] st;
           case got of Returned packet \<Rightarrow> do {
               s \<leftarrow> nt_socks st a;
               (n, msg, s) \<leftarrow> recv_packet packet msg s;
               Some (Some n, msg, st\<lparr>nt_socks := (nt_socks st)(a \<mapsto> s)\<rparr>)
             }
           | Restart \<Rightarrow> Some (Some (- EINTR), msg, st)
           | Asleep \<Rightarrow> Some (None, msg, st)
         }
     }
   }"

text \<open>Each entry is what others do during one wait, the result of the wait, and whether the second is over.\<close>

fun connect_wait :: "driver \<Rightarrow> ptr \<Rightarrow> ptr \<Rightarrow> ipv4_packet \<Rightarrow> nat \<Rightarrow> ((net \<Rightarrow> net) \<times> int \<times> bool) list \<Rightarrow> net \<Rightarrow> (int option option \<times> net) option" where
  "connect_wait d nic a response attempts env st = do {
     s \<leftarrow> nt_socks st a;
     if sk_rx_queue s \<noteq> [] then Some (Some None, st)
     else case env of [] \<Rightarrow> Some (None, st)
       | (act, r, late) # env' \<Rightarrow> do {
           let st = act st;
           s \<leftarrow> nt_socks st a;
           if r = - EINTR then Some (Some (Some (- EINTR)), st)
           else if sk_priv1 s = 0 then Some (Some (Some (- ECONNREFUSED)), st)
           else if r \<noteq> 0 \<and> late then
             if attempts = 3 then Some (Some (Some (- ETIMEDOUT)), st)
             else do { st \<leftarrow> net_ipv4_send d response nic st; connect_wait d nic a response (attempts + 1) env' st }
           else connect_wait d nic a response attempts env' st
         }
   }"

text \<open>\<open>rnd\<close> is what \<open>rand\<close> returns.  As many bytes of the address are copied as the caller says, and behind the field when that is more than its size.\<close>

fun sockaddr_of :: "bytes \<Rightarrow> sockaddr_in" where
  "sockaddr_of (f1 # f2 # p1 # p2 # a1 # a2 # a3 # a4 # bs) = \<lparr>si_family = word16 f1 f2, si_port = word16 p1 p2, si_addr = word32 a1 a2 a3 a4\<rparr>"
| "sockaddr_of bs = \<lparr>si_family = 0, si_port = 0, si_addr = 0\<rparr>"

definition copy_dest :: "nat \<Rightarrow> sockaddr_in \<Rightarrow> sockaddr_in \<Rightarrow> sockaddr_in" where
  "copy_dest addrlen dest old = sockaddr_of (take addrlen (sockaddr_bytes dest) @ drop addrlen (sockaddr_bytes old))"

definition sock_tcp_connect :: "driver \<Rightarrow> u32 \<Rightarrow> ptr \<Rightarrow> ptr \<Rightarrow> sockaddr_in \<Rightarrow> nat \<Rightarrow> ((net \<Rightarrow> net) \<times> int \<times> bool) list \<Rightarrow> net \<Rightarrow> (int option \<times> net) option" where
  "sock_tcp_connect d rnd self a dest addrlen env st = do {
     s \<leftarrow> nt_socks st a;
     if sk_priv1 s \<noteq> 0 then Some (Some (- EINVAL), st)
     else if si_port dest = 0 then Some (Some (- EADDRNOTAVAIL), st)
     else if addrlen > 16 then None
     else do {
       st \<leftarrow> tcp_get_port a st;
       st \<leftarrow> set_sock a (\<lambda>s. s\<lparr>sk_priv1 := 1, sk_dest := copy_dest addrlen dest (sk_dest s)\<rparr>) st;
       let nic = net_if_route (si_addr dest) st;
       if nic = 0 then Some (Some (- ENONET), st)
       else do {
         n \<leftarrow> nt_nics st nic;
         st \<leftarrow> set_sock a (\<lambda>s. s\<lparr>sk_priv2 := ucast rnd\<rparr>) st;
         s \<leftarrow> nt_socks st a;
         r \<leftarrow> make_segment s (si_port dest) 0 0 (TCP_FLAGS_SYN OR 0x5000) (ni_ipv4_addr n) (si_addr dest) [];
         st \<leftarrow> net_ipv4_send d r nic st;
         (res, st) \<leftarrow> connect_wait d nic a r 0 env st;
         case res of None \<Rightarrow> Some (None, st)
         | Some (Some e) \<Rightarrow> Some (Some e, st)
         | Some None \<Rightarrow> do { (got, st) \<leftarrow> net_sock_get self a [] st; Some (Some 0, st) }
       }
     }
   }"

text \<open>One pass of the loop of the sender: at most 1024 bytes in a segment.\<close>

definition send_segment :: "driver \<Rightarrow> ptr \<Rightarrow> bytes \<Rightarrow> net \<Rightarrow> (bool \<times> net) option" where
  "send_segment d a data st = do {
     s \<leftarrow> nt_socks st a;
     let nic = net_if_route (si_addr (sk_dest s)) st;
     if nic = 0 then Some (False, st)
     else do {
       n \<leftarrow> nt_nics st nic;
       let s = s\<lparr>sk_priv2 := sk_priv2 s + 1\<rparr>;
       r \<leftarrow> make_segment s (si_port (sk_dest s)) (htonl (sk_priv32_0 s)) (htonl (sk_priv32_1 s)) (TCP_FLAGS_PSH OR TCP_FLAGS_ACK OR 0x5000)
         (ni_ipv4_addr n) (si_addr (sk_dest s)) data;
       let st = st\<lparr>nt_socks := (nt_socks st)(a \<mapsto> s\<lparr>sk_priv32_0 := sk_priv32_0 s + of_nat (length data)\<rparr>)\<rparr>;
       st \<leftarrow> net_ipv4_send d r nic st;
       Some (True, st)
     }
   }"

text \<open>The list says what others do between the segments.\<close>

function send_loop :: "driver \<Rightarrow> ptr \<Rightarrow> (net \<Rightarrow> net) list \<Rightarrow> bytes \<Rightarrow> net \<Rightarrow> (bool \<times> net) option" where
  "send_loop d a env data st =
     (if data = [] then Some (True, st)
      else do {
        (ok, st) \<leftarrow> send_segment d a (take 1024 data) st;
        if \<not> ok then Some (False, st)
        else let rest = drop 1024 data
             in if rest = [] then Some (True, st)
                else case env of [] \<Rightarrow> send_loop d a [] rest st | act # env \<Rightarrow> send_loop d a env rest (act st)
      })"
  by pat_completeness auto
termination by (relation "measure (\<lambda>(d, a, env, data, st). length data)") auto

declare send_loop.simps [simp del]

definition sock_tcp_send :: "driver \<Rightarrow> ptr \<Rightarrow> (net \<Rightarrow> net) list \<Rightarrow> msghdr \<Rightarrow> net \<Rightarrow> (int \<times> net) option" where
  "sock_tcp_send d a env msg st =
     (if mh_iovlen msg > 1 then Some (- ENOTSUP, st)
      else if mh_iovlen msg = 0 then Some (0, st)
      else do {
        data \<leftarrow> bytes_at (mh_iov_base msg) 0 (mh_iov_len msg);
        (ok, st) \<leftarrow> send_loop d a env data st;
        Some (if ok then int (mh_iov_len msg) else - ENONET, st)
      })"

definition one_vector :: "bytes \<Rightarrow> nat \<Rightarrow> msghdr" where
  "one_vector buffer sz = \<lparr>mh_name = None, mh_namelen = 0, mh_iovlen = 1, mh_iov_base = buffer, mh_iov_len = sz,
     mh_control = \<lparr>cm_len = 0, cm_level = 0, cm_type = 0, cm_data = 0\<rparr>, mh_controllen = 0\<rparr>"

definition sock_tcp_read :: "ptr \<Rightarrow> ptr \<Rightarrow> ((net \<Rightarrow> net) \<times> int) list \<Rightarrow> nat \<Rightarrow> bytes \<Rightarrow> net \<Rightarrow> msghdr call_result" where
  "sock_tcp_read self a env sz buffer st = sock_tcp_recv self a env (one_vector buffer sz) st"

definition sock_tcp_write :: "driver \<Rightarrow> ptr \<Rightarrow> (net \<Rightarrow> net) list \<Rightarrow> nat \<Rightarrow> bytes \<Rightarrow> net \<Rightarrow> (int \<times> net) option" where
  "sock_tcp_write d a env sz buffer st = sock_tcp_send d a env (one_vector buffer sz) st"

definition sock_tcp_getsockname :: "sock \<Rightarrow> bytes \<Rightarrow> nat \<Rightarrow> net \<Rightarrow> (int \<times> bytes \<times> nat) option" where
  "sock_tcp_getsockname s addr addrlen st = do {
     let nic = net_if_route (si_addr (sk_dest s)) st;
     own \<leftarrow> (if nic = 0 then Some 0 else map_option ni_ipv4_addr (nt_nics st nic));
     Some (0, put_sockaddr \<lparr>si_family = 1, si_port = htons (sk_priv0 s), si_addr = own\<rparr> addr addrlen)
   }"

definition sock_tcp_getpeername :: "sock \<Rightarrow> bytes \<Rightarrow> nat \<Rightarrow> int \<times> bytes \<times> nat" where
  "sock_tcp_getpeername s addr addrlen = (0, put_sockaddr ((sk_dest s)\<lparr>si_family := 1\<rparr>) addr addrlen)"

definition tcp_socket :: "ptr \<Rightarrow> net \<Rightarrow> net" where
  "tcp_socket a st = st\<lparr>nt_socks := (nt_socks st)(a \<mapsto> net_sock_create SockTcp)\<rparr>"

definition net_ipv4_socket :: "ptr \<Rightarrow> u32 \<Rightarrow> int \<Rightarrow> int \<Rightarrow> net \<Rightarrow> (int option \<times> net) option" where
  "net_ipv4_socket a pid ty protocol st =
     (if ty = 2 then
        if protocol = 0 \<or> protocol = 17 then Some (None, udp_socket a st)
        else if protocol = 1 then icmp_socket a pid st
        else Some (Some (- EINVAL), st)
      else if ty = 1 then Some (None, tcp_socket a st)
      else Some (Some (- EINVAL), st))"

definition net_so_ipv4_socket :: "int \<Rightarrow> u32 \<Rightarrow> nat \<Rightarrow> sock \<Rightarrow> int \<times> sock" where
  "net_so_ipv4_socket optname optval optlen s =
     (if optname = 12 then if optlen \<noteq> 4 then (- EINVAL, s) else (0, s\<lparr>sk_priv32_2 := optval\<rparr>) else (- ENOPROTOOPT, s))"


section \<open>The fields of packets\<close>

lemma make_packet_fields [simp]:
  "ip_length (make_packet n dst src p i f data) = htons (of_nat n)" "ip_destination (make_packet n dst src p i f data) = dst"
  "ip_source (make_packet n dst src p i f data) = src" "ip_protocol (make_packet n dst src p i f data) = p" "ip_payload (make_packet n dst src p i f data) = data"
  by (simp_all add: make_packet_def Let_def)

end
