(* ===== verification/Tcp_Stream.thy ===== *)
theory Tcp_Stream
  imports Net_Ipv4 "HOL-Library.Sublist"
begin

text \<open>
  Streams over TCP, \<open>kernel/net/ipv4.c\<close>: the receiver turns segments that arrive in any order, twice or never into a prefix of the stream, and
  the sender cuts the data into segments whose numbers follow each other.
\<close>

section \<open>Segments\<close>

lemma load_tcp [simp]:
  "load16 (tcp_bytes h) 0 = Some (tc_source_port h)" "load16 (tcp_bytes h) 2 = Some (tc_destination_port h)"
  "load32 (tcp_bytes h) 4 = Some (tc_seq_number h)" "load16 (tcp_bytes h) 12 = Some (tc_flags h)"
  by (simp_all add: load16_def load32_def tcp_bytes_def bytes16_def bytes32_def nth_append)

lemma make_segment_eq:
  assumes "length data < 131072"
  shows "\<exists>c. make_segment s dport seq ack flags source destination data =
    Some (make_packet (40 + length data) destination source IPV4_PROT_TCP (htons (sk_priv2 s)) 0
      (tcp_bytes \<lparr>tc_source_port = htons (sk_priv0 s), tc_destination_port = dport, tc_seq_number = seq, tc_ack_number = ack,
         tc_flags = htons flags, tc_window_size = htons 65535, tc_checksum = c, tc_urgent = 0, tc_payload = data\<rparr>))"
  unfolding make_segment_def Let_def using tcp_checksum_eq [OF assms] by simp (rule exI, rule refl)

text \<open>The segment \<open>p\<close> carries \<open>n\<close> bytes of the stream from position \<open>i\<close> on; \<open>isn\<close> is the number of the first byte.\<close>

definition stream_segment :: "bytes \<Rightarrow> u32 \<Rightarrow> nat \<Rightarrow> nat \<Rightarrow> ipv4_packet \<Rightarrow> bool" where
  "stream_segment stream isn i n p \<longleftrightarrow>
     0 < n \<and> i + n \<le> length stream \<and> 40 + n < 65536 \<and> ip_length p = htons (of_nat (40 + n)) \<and>
     (case tcp_of (ip_payload p) of None \<Rightarrow> False
      | Some h \<Rightarrow> ip_payload p = tcp_bytes h \<and> tc_seq_number h = htonl (isn + of_nat i) \<and> ntohs (tc_flags h) AND 0xF000 = 0x5000 \<and>
          ntohs (tc_flags h) AND TCP_FLAGS_FIN = 0 \<and> tc_payload h = take n (drop i stream))"

text \<open>What the program has not read yet.\<close>

definition pending :: "sock \<Rightarrow> bytes" where
  "pending s = (if sk_unread s = 0 then [] else take (sk_unread s) (sk_buf s)) @ concat (map (drop 40) (sk_rx_queue s))"

datatype tcp_event = Arrives nat nat ipv4_packet | Reads nat

definition read_result :: "msghdr call_result \<Rightarrow> bytes" where
  "read_result r = (case r of Some (Some n, msg, st) \<Rightarrow> take (nat n) (mh_iov_base msg) | _ \<Rightarrow> [])"

text \<open>Segments arriving at the socket and reads of the program, in any order.\<close>

fun tcp_run :: "driver \<Rightarrow> ptr \<Rightarrow> ptr \<Rightarrow> ptr \<Rightarrow> tcp_event list \<Rightarrow> net \<Rightarrow> (bytes \<times> net) option" where
  "tcp_run d nic self a [] st = Some ([], st)"
| "tcp_run d nic self a (Arrives i n p # es) st = do { st \<leftarrow> tcp_handle d p nic a st; tcp_run d nic self a es st }"
| "tcp_run d nic self a (Reads n # es) st = do {
     (res, msg, st) \<leftarrow> sock_tcp_read self a [] n (replicate n 0) st;
     (out, st) \<leftarrow> tcp_run d nic self a es st;
     Some ((case res of Some r \<Rightarrow> take (nat r) (mh_iov_base msg) | None \<Rightarrow> []) @ out, st)
   }"

text \<open>The receiver by the book: a segment counts when it starts where the stream was left.\<close>

fun next_byte :: "tcp_event list \<Rightarrow> nat \<Rightarrow> nat" where
  "next_byte [] k = k"
| "next_byte (Arrives i n p # es) k = next_byte es (if i = k then k + n else k)"
| "next_byte (Reads n # es) k = next_byte es k"

text \<open>The segment that came last, and its acknowledgement: the last frame of the device carries, back to the address and the port that the segment
  \<open>p\<close> came from, a segment without data whose acknowledgement number is \<open>num\<close>.\<close>

fun last_segment :: "tcp_event list \<Rightarrow> ipv4_packet option \<Rightarrow> ipv4_packet option" where
  "last_segment [] q = q"
| "last_segment (Arrives i n p # es) q = last_segment es (Some p)"
| "last_segment (Reads n # es) q = last_segment es q"

definition acknowledges :: "u32 \<Rightarrow> ipv4_packet \<Rightarrow> ipv4_packet \<Rightarrow> bool" where
  "acknowledges num p r \<longleftrightarrow> ip_destination r = ip_source p \<and> ip_protocol r = IPV4_PROT_TCP \<and> unat (ntohs (ip_length r)) = 40 \<and>
     (\<exists>h. ip_payload r = tcp_bytes h \<and> load16 (ip_payload p) 0 = Some (tc_destination_port h) \<and> tc_ack_number h = htonl num \<and>
        tc_flags h = htons (TCP_FLAGS_ACK OR 0x5000) \<and> tc_payload h = [])"

definition acknowledged :: "ptr \<Rightarrow> net \<Rightarrow> u32 \<Rightarrow> ipv4_packet \<Rightarrow> bool" where
  "acknowledged nic st num p \<longleftrightarrow> (\<exists>n r. nt_nics st nic = Some n \<and> sent_last nic n r (nt_sent st) \<and> acknowledges num p r)"

definition connected :: "ptr \<Rightarrow> ptr \<Rightarrow> net \<Rightarrow> bool" where
  "connected nic a st \<longleftrightarrow> hm_wf (nt_arp st) \<and> (case nt_nics st nic of None \<Rightarrow> False | Some n \<Rightarrow> length (ni_mac n) = 6) \<and>
     (case nt_socks st a of None \<Rightarrow> False | Some s \<Rightarrow> sk_priv0 s \<noteq> 0 \<and> sk_priv1 s = 2 \<and> sk_unread s \<le> length (sk_buf s) \<and>
        list_all (\<lambda>p. 40 < length p) (sk_rx_queue s))"


section \<open>The receiver\<close>

lemma segment_len:
  assumes "ip_length p = htons (of_nat (40 + n))" "40 + n < 65536" "ntohs fl AND 0xF000 = 0x5000"
  shows "tcp_segment_len p fl = of_nat n" "unat (ntohs (ip_length p)) = 40 + n"
proof -
  show len: "unat (ntohs (ip_length p)) = 40 + n" using assms(2) by (simp add: assms(1) unsigned_of_nat take_bit_nat_eq_self del: of_nat_add)
  have "(ucast (ntohs (ip_length p)) :: u64) = of_nat (40 + n)" by (metis len of_nat_unat)
  then show "tcp_segment_len p fl = of_nat n" by (simp add: tcp_segment_len_def assms(3))
qed

lemma ucast_add_64: "(ucast (ucast x + of_nat n :: u64) :: u32) = x + of_nat n"
  by (rule word_unat_eq_iff [THEN iffD2]) (simp add: unat_word_ariths unsigned_of_nat unsigned_ucast_eq take_bit_eq_mod mod_simps mod_mod_cancel)

lemma drop_header: "ip_payload p = tcp_bytes h \<Longrightarrow> drop 40 (ipv4_bytes p) = tc_payload h"
  by (simp add: ipv4_bytes_def tcp_bytes_def bytes16_def bytes32_def)

lemma seq_unat: "unat isn + m < 2 ^ 32 \<Longrightarrow> k \<le> m \<Longrightarrow> unat (isn + of_nat k :: u32) = unat isn + k"
  by (simp add: unat_word_ariths unsigned_of_nat take_bit_nat_eq_self)

lemma seq_position: "unat isn + m < 2 ^ 32 \<Longrightarrow> i \<le> m \<Longrightarrow> k \<le> m \<Longrightarrow> isn + of_nat i = (isn + of_nat k :: u32) \<longleftrightarrow> i = k"
  unfolding word_unat_eq_iff by (simp add: seq_unat del: add_left_cancel)

lemma seq_nonzero: "unat isn + m < 2 ^ 32 \<Longrightarrow> k \<le> m \<Longrightarrow> isn \<noteq> 0 \<Longrightarrow> (isn + of_nat k :: u32) \<noteq> 0"
  unfolding word_unat_eq_iff by (simp add: seq_unat)

lemma ack_segment:
  assumes "ip_payload p = tcp_bytes h"
  shows "acknowledges num p (make_packet 40 (ip_source p) source IPV4_PROT_TCP ident fl
    (tcp_bytes \<lparr>tc_source_port = sp, tc_destination_port = tc_source_port h, tc_seq_number = seq, tc_ack_number = htonl num,
       tc_flags = htons (TCP_FLAGS_ACK OR 0x5000), tc_window_size = w, tc_checksum = c, tc_urgent = u, tc_payload = []\<rparr>))"
    (is "acknowledges num p (make_packet 40 _ _ _ _ _ (tcp_bytes ?r))")
proof -
  have "load16 (ip_payload p) 0 = Some (tc_destination_port ?r)" using assms by simp
  then show ?thesis unfolding acknowledges_def make_packet_def Let_def by (intro conjI exI [of _ ?r]) simp_all
qed

context quiet_driver
begin

lemma tcp_ack_quiet:
  assumes nic: "nt_nics st nic = Some n" "length (ni_mac n) = 6" and arp: "hm_wf (nt_arp st)" and s: "nt_socks st a = Some s"
    and p: "ip_payload p = tcp_bytes h" and r: "ack_socket syn len (tc_seq_number h) (tc_flags h) s = (ok, s')"
  shows "\<exists>l. tcp_ack d nic a p syn len st = Some (ok, st\<lparr>nt_socks := (nt_socks st)(a \<mapsto> s'), nt_sent := l\<rparr>) \<and>
    (records d \<longrightarrow> (\<exists>q. sent_last nic n q l \<and> acknowledges (sk_priv32_1 s') p q))"
proof -
  obtain q where q: "make_segment s' (tc_source_port h) (htonl (sk_priv32_0 s')) (htonl (sk_priv32_1 s')) (TCP_FLAGS_ACK OR 0x5000) (ni_ipv4_addr n) (ip_source p) [] = Some q"
      "unat (ntohs (ip_length q)) = 20 + length (ip_payload q)" "acknowledges (sk_priv32_1 s') p q"
    using make_segment_eq [of "[]" s' "tc_source_port h" "htonl (sk_priv32_0 s')" "htonl (sk_priv32_1 s')" "TCP_FLAGS_ACK OR 0x5000" "ni_ipv4_addr n" "ip_source p"] ack_segment [OF p]
    by auto
  let ?st = "\<lambda>l. st\<lparr>nt_socks := (nt_socks st)(a \<mapsto> s'), nt_sent := l\<rparr>"
  let ?ack = "\<lambda>l. records d \<longrightarrow> sent_last nic n q l"
  have send: "\<exists>l'. net_ipv4_send d q nic (?st l) = Some (?st l') \<and> ?ack l'" for l
    using ipv4_send_quiet [of "?st l" nic n q] nic arp q(2) by simp
  let ?base = "st\<lparr>nt_socks := (nt_socks st)(a \<mapsto> s')\<rparr>"
  obtain l1 where l1: "net_ipv4_send d q nic ?base = Some (?st l1)" "?ack l1"
    using ipv4_send_quiet [of ?base nic n q] nic arp q(2) by auto
  obtain l2 where l2: "net_ipv4_send d q nic (?st l1) = Some (?st l2)" using send by blast
  obtain l3 where l3: "net_ipv4_send d q nic (?st l2) = Some (?st l3)" "?ack l3" using send by blast
  have "tcp_ack d nic a p syn len st = do {
      st \<leftarrow> net_ipv4_send d q nic ?base;
      st \<leftarrow> (if ok then Some st else do { st \<leftarrow> net_ipv4_send d q nic st; net_ipv4_send d q nic st });
      Some (ok, st) }"
    using nic(1) s p r q(1) by (simp add: tcp_ack_def)
  then have "tcp_ack d nic a p syn len st = Some (ok, ?st (if ok then l1 else l3))"
    by (cases ok) (simp_all add: l1 l2 l3 del: fun_upd_apply)
  then show ?thesis using l1(2) l3(2) q(3) by (intro exI [of _ "if ok then l1 else l3"] conjI impI exI [of _ q]) simp_all
qed

lemma arrives_step:
  assumes conn: "connected nic a st" and s: "nt_socks st a = Some s" and seg: "stream_segment stream isn i n p"
    and isn: "isn \<noteq> 0" "unat isn + length stream < 2 ^ 32" and k: "k \<le> length stream" "sk_priv32_1 s = isn + of_nat k"
  shows "\<exists>st' s'. tcp_handle d p nic a st = Some st' \<and> connected nic a st' \<and> nt_socks st' a = Some s' \<and>
    pending s' = pending s @ (if i = k then take n (drop i stream) else []) \<and> sk_priv32_1 s' = isn + of_nat (if i = k then k + n else k) \<and>
    (records d \<longrightarrow> acknowledged nic st' (sk_priv32_1 s') p)"
proof -
  obtain c where nic: "nt_nics st nic = Some c" "length (ni_mac c) = 6" "hm_wf (nt_arp st)" and st: "sk_priv0 s \<noteq> 0" "sk_priv1 s = 2"
      "sk_unread s \<le> length (sk_buf s)" "list_all (\<lambda>p. 40 < length p) (sk_rx_queue s)"
    using conn s by (auto simp: connected_def split: option.splits)
  obtain h where h: "ip_payload p = tcp_bytes h" "tc_seq_number h = htonl (isn + of_nat i)" "ntohs (tc_flags h) AND 0xF000 = 0x5000"
      "ntohs (tc_flags h) AND TCP_FLAGS_FIN = 0" "tc_payload h = take n (drop i stream)"
    and n: "0 < n" "i + n \<le> length stream" "40 + n < 65536" "ip_length p = htons (of_nat (40 + n))"
    using seg by (auto simp: stream_segment_def split: option.splits)
  note len = segment_len [OF n(4,3) h(3)]
  have len0: "tcp_segment_len p (tc_flags h) \<noteq> 0"
    using n(1,3) by (simp add: len word_unat_eq_iff unsigned_of_nat take_bit_nat_eq_self)
  have at: "isn + of_nat k = isn + of_nat i \<longleftrightarrow> i = k" using seq_position [OF isn(2), of k i] k n by auto
  let ?s = "s\<lparr>sk_priv2 := sk_priv2 s + 1\<rparr>"
  let ?t = "?s\<lparr>sk_priv32_1 := isn + of_nat (k + n)\<rparr>"
  have size: "length (ipv4_bytes p) = 40 + n" "drop 40 (ipv4_bytes p) = take n (drop i stream)"
    using h n by (simp_all add: drop_header)
  show ?thesis
  proof (cases "i = k")
    case False
    then have "ack_socket False (tcp_segment_len p (tc_flags h)) (tc_seq_number h) (tc_flags h) s = (False, ?s)"
      using h(4) at k(2) seq_nonzero [OF isn(2) k(1) isn(1)] by (simp add: ack_socket_def h(2))
    from tcp_ack_quiet [OF nic(1-3) s h(1) this] obtain l where "tcp_ack d nic a p False (tcp_segment_len p (tc_flags h)) st =
        Some (False, st\<lparr>nt_socks := (nt_socks st)(a \<mapsto> ?s), nt_sent := l\<rparr>)"
      and ack: "records d \<Longrightarrow> \<exists>q. sent_last nic c q l \<and> acknowledges (sk_priv32_1 ?s) p q" by blast
    then have "tcp_handle d p nic a st = Some (st\<lparr>nt_socks := (nt_socks st)(a \<mapsto> ?s), nt_sent := l\<rparr>)"
      using s st(2) len0 by (simp add: tcp_handle_def h(1))
    moreover have "acknowledged nic (st\<lparr>nt_socks := (nt_socks st)(a \<mapsto> ?s), nt_sent := l\<rparr>) (sk_priv32_1 ?s) p" if "records d"
      using ack [OF that] nic(1) by (simp add: acknowledged_def)
    ultimately show ?thesis using False conn s k(2) nic st
      by (intro exI [of _ "st\<lparr>nt_socks := (nt_socks st)(a \<mapsto> ?s), nt_sent := l\<rparr>"] exI [of _ ?s]) (auto simp: connected_def pending_def)
  next
    case True
    let ?u = "net_sock_alert (?t\<lparr>sk_rx_queue := sk_rx_queue ?t @ [ipv4_bytes p], sk_woken := sk_woken ?t @ rev (sk_rx_wait ?t), sk_rx_wait := []\<rparr>)"
    have "ack_socket False (tcp_segment_len p (tc_flags h)) (tc_seq_number h) (tc_flags h) s = (True, ?t)"
      using True h(4) at k(2) st(2) by (simp add: ack_socket_def h(2) len(1) ucast_add_64 add.assoc)
    from tcp_ack_quiet [OF nic(1-3) s h(1) this] obtain l where "tcp_ack d nic a p False (tcp_segment_len p (tc_flags h)) st =
        Some (True, st\<lparr>nt_socks := (nt_socks st)(a \<mapsto> ?t), nt_sent := l\<rparr>)"
      and ack: "records d \<Longrightarrow> \<exists>q. sent_last nic c q l \<and> acknowledges (sk_priv32_1 ?t) p q" by blast
    then have "tcp_handle d p nic a st = Some (st\<lparr>nt_socks := (nt_socks st)(a \<mapsto> ?u), nt_sent := l\<rparr>)"
      using s st(2) len0 size(1) by (simp add: tcp_handle_def h(1) len(2) net_sock_add_def set_sock_def)
    moreover have "acknowledged nic (st\<lparr>nt_socks := (nt_socks st)(a \<mapsto> ?u), nt_sent := l\<rparr>) (sk_priv32_1 ?u) p" if "records d"
      using ack [OF that] nic(1) by (simp add: acknowledged_def net_sock_alert_def)
    ultimately show ?thesis using True conn s k(2) nic st size n(1)
      by (intro exI [of _ "st\<lparr>nt_socks := (nt_socks st)(a \<mapsto> ?u), nt_sent := l\<rparr>"] exI [of _ ?u]) (auto simp: connected_def pending_def net_sock_alert_def)
  qed
qed

end

lemma recv_unread_spec:
  assumes "sk_unread s \<le> length (sk_buf s)"
  shows "\<exists>r msg u b. recv_unread (one_vector (replicate n 0) n) s = Some (int r, msg, s\<lparr>sk_unread := u, sk_buf := b\<rparr>) \<and> r = min (sk_unread s) n \<and>
    take r (mh_iov_base msg) @ pending (s\<lparr>sk_unread := u, sk_buf := b\<rparr>) = pending s \<and> u \<le> length b"
proof -
  let ?r = "min (sk_unread s) n"
  let ?b = "take (sk_unread s - ?r) (drop ?r (sk_buf s))"
  let ?m = "(one_vector (replicate n 0) n)\<lparr>mh_iov_base := take ?r (sk_buf s) @ drop ?r (replicate n 0)\<rparr>"
  have split: "take ?r (sk_buf s) @ ?b = take (sk_unread s) (sk_buf s)"
    by (metis le_add_diff_inverse min.cobounded1 take_add)
  have r: "?r \<le> length (sk_buf s)" using assms by simp
  have "recv_unread (one_vector (replicate n 0) n) s = Some (int ?r, ?m, s\<lparr>sk_unread := sk_unread s - ?r, sk_buf := ?b\<rparr>)"
    using assms r by (simp add: recv_unread_def bytes_at_def copy_out_def one_vector_def Let_def)
  moreover have "take ?r (mh_iov_base ?m) = take ?r (sk_buf s)" using r by simp
  moreover have "sk_unread s - ?r \<le> length ?b" using assms by simp
  moreover have "take ?r (sk_buf s) @ pending (s\<lparr>sk_unread := sk_unread s - ?r, sk_buf := ?b\<rparr>) = pending s"
    using split by (cases "sk_unread s \<le> n") (simp_all add: pending_def)
  ultimately show ?thesis by metis
qed

lemma recv_packet_spec:
  assumes "40 < length p" and "sk_unread s = 0"
  shows "\<exists>r msg s'. recv_packet p (one_vector (replicate n 0) n) s = Some (int r, msg, s') \<and> r = min (length p - 40) n \<and>
    take r (mh_iov_base msg) @ pending s' = drop 40 p @ pending s \<and> sk_unread s' \<le> length (sk_buf s') \<and> sk_priv0 s' = sk_priv0 s \<and>
    sk_priv1 s' = sk_priv1 s \<and> sk_priv32_1 s' = sk_priv32_1 s \<and> sk_rx_queue s' = sk_rx_queue s"
proof -
  define r where "r = min (length p - 40) n"
  define m where "m = (one_vector (replicate n 0) n)\<lparr>mh_iov_base := take r (drop 40 p) @ drop r (replicate n 0)\<rparr>"
  define s' where "s' = (if length p - 40 > n then s\<lparr>sk_unread := length p - 40 - r, sk_buf := drop r (drop 40 p)\<rparr> else s)"
  have "recv_packet p (one_vector (replicate n 0) n) s = Some (int r, m, s')"
    using assms(1) by (simp add: recv_packet_def copy_out_def one_vector_def Let_def r_def m_def s'_def)
  moreover have "take r (mh_iov_base m) = take r (drop 40 p)" by (simp add: m_def r_def)
  moreover have "take r (drop 40 p) @ pending s' = drop 40 p @ pending s"
    using assms(2) append_take_drop_id [of n "drop 40 p"] by (auto simp: pending_def r_def s'_def)
  moreover have "sk_unread s' \<le> length (sk_buf s')" "sk_priv0 s' = sk_priv0 s" "sk_priv1 s' = sk_priv1 s" "sk_priv32_1 s' = sk_priv32_1 s"
      "sk_rx_queue s' = sk_rx_queue s"
    using assms(2) by (simp_all add: s'_def add.commute)
  ultimately show ?thesis using r_def by metis
qed

lemma reads_step:
  assumes conn: "connected nic a st" and s: "nt_socks st a = Some s"
  shows "\<exists>res msg st' s'. sock_tcp_read self a [] n (replicate n 0) st = Some (res, msg, st') \<and> connected nic a st' \<and> nt_socks st' a = Some s' \<and>
    sk_priv32_1 s' = sk_priv32_1 s \<and> (case res of Some r \<Rightarrow> take (nat r) (mh_iov_base msg) | None \<Rightarrow> []) @ pending s' = pending s \<and>
    (pending s \<noteq> [] \<and> 0 < n \<longrightarrow> (\<exists>r. res = Some r \<and> 0 < r)) \<and> nt_sent st' = nt_sent st \<and> nt_nics st' = nt_nics st"
proof -
  have st: "sk_priv0 s \<noteq> 0" "sk_priv1 s = 2" "sk_unread s \<le> length (sk_buf s)" "list_all (\<lambda>p. 40 < length p) (sk_rx_queue s)"
    using conn s by (auto simp: connected_def split: option.splits)
  have vec: "mh_iovlen (one_vector b n) = 1" for b by (simp add: one_vector_def)
  consider "sk_unread s \<noteq> 0" | "sk_unread s = 0" "sk_rx_queue s = []" | p q where "sk_unread s = 0" "sk_rx_queue s = p # q"
    by (cases "sk_rx_queue s") auto
  then show ?thesis
  proof cases
    case 1
    obtain r msg u b where r: "recv_unread (one_vector (replicate n 0) n) s = Some (int r, msg, s\<lparr>sk_unread := u, sk_buf := b\<rparr>)" "r = min (sk_unread s) n"
        "take r (mh_iov_base msg) @ pending (s\<lparr>sk_unread := u, sk_buf := b\<rparr>) = pending s" "u \<le> length b"
      using recv_unread_spec [OF st(3), of n] by blast
    have "sock_tcp_read self a [] n (replicate n 0) st = Some (Some (int r), msg, st\<lparr>nt_socks := (nt_socks st)(a \<mapsto> s\<lparr>sk_unread := u, sk_buf := b\<rparr>)\<rparr>)"
      using 1 s st vec r(1) by (simp add: sock_tcp_read_def sock_tcp_recv_def)
    moreover have "connected nic a (st\<lparr>nt_socks := (nt_socks st)(a \<mapsto> s\<lparr>sk_unread := u, sk_buf := b\<rparr>)\<rparr>)"
      using r(4) conn s by (simp add: connected_def)
    ultimately show ?thesis
      by (intro exI [of _ "Some (int r)"] exI [of _ msg] exI [of _ "st\<lparr>nt_socks := (nt_socks st)(a \<mapsto> s\<lparr>sk_unread := u, sk_buf := b\<rparr>)\<rparr>"]
          exI [of _ "s\<lparr>sk_unread := u, sk_buf := b\<rparr>"]) (use 1 r(2,3) in simp)
  next
    case 2
    then show ?thesis using s st conn vec by (auto simp: sock_tcp_read_def sock_tcp_recv_def pending_def EAGAIN_def)
  next
    case 3
    let ?s = "s\<lparr>sk_rx_queue := q\<rparr>"
    have p: "40 < length p" using 3 st by simp
    obtain r msg s' where r: "recv_packet p (one_vector (replicate n 0) n) ?s = Some (int r, msg, s')" "r = min (length p - 40) n"
        "take r (mh_iov_base msg) @ pending s' = drop 40 p @ pending ?s"
      and s': "sk_unread s' \<le> length (sk_buf s')" "sk_priv0 s' = sk_priv0 s" "sk_priv1 s' = sk_priv1 s" "sk_priv32_1 s' = sk_priv32_1 s" "sk_rx_queue s' = q"
      using recv_packet_spec [of p ?s n] p 3(1) by force
    have "sock_tcp_read self a [] n (replicate n 0) st = Some (Some (int r), msg, st\<lparr>nt_socks := (nt_socks st)(a \<mapsto> s')\<rparr>)"
      using 3 s st vec r(1) by (simp add: sock_tcp_read_def sock_tcp_recv_def)
    moreover have "drop 40 p @ pending ?s = pending s" using 3 by (simp add: pending_def)
    moreover have "connected nic a (st\<lparr>nt_socks := (nt_socks st)(a \<mapsto> s')\<rparr>)" "sk_priv32_1 s' = sk_priv32_1 s"
      using s' conn s st 3 by (simp_all add: connected_def)
    ultimately show ?thesis
      by (intro exI [of _ "Some (int r)"] exI [of _ msg] exI [of _ "st\<lparr>nt_socks := (nt_socks st)(a \<mapsto> s')\<rparr>"] exI [of _ s']) (use r(2,3) p in simp)
  qed
qed

text \<open>A run keeps what was read and what is pending a prefix of the stream.\<close>

context quiet_driver
begin

lemma tcp_run_spec:
  assumes "connected nic a st" "nt_socks st a = Some s" "isn \<noteq> 0" "unat isn + length stream < 2 ^ 32"
    and "k \<le> length stream" "sk_priv32_1 s = isn + of_nat k" "read @ pending s = take k stream"
    and "\<And>i n p. Arrives i n p \<in> set es \<Longrightarrow> stream_segment stream isn i n p" and "\<And>p. records d \<Longrightarrow> q = Some p \<Longrightarrow> acknowledged nic st (sk_priv32_1 s) p"
  shows "\<exists>out st' s'. tcp_run d nic self a es st = Some (out, st') \<and> connected nic a st' \<and> nt_socks st' a = Some s' \<and> next_byte es k \<le> length stream \<and>
    sk_priv32_1 s' = isn + of_nat (next_byte es k) \<and> read @ out @ pending s' = take (next_byte es k) stream \<and>
    (\<forall>p. records d \<and> last_segment es q = Some p \<longrightarrow> acknowledged nic st' (sk_priv32_1 s') p)"
  using assms
proof (induction es arbitrary: st s k read q)
  case (Cons e es)
  show ?case
  proof (cases e)
    case (Arrives i n p)
    then have seg: "stream_segment stream isn i n p" using Cons.prems(8) by simp
    let ?k = "if i = k then k + n else k"
    obtain st1 s1 where 1: "tcp_handle d p nic a st = Some st1" "connected nic a st1" "nt_socks st1 a = Some s1"
        "pending s1 = pending s @ (if i = k then take n (drop i stream) else [])" "sk_priv32_1 s1 = isn + of_nat ?k"
        "records d \<Longrightarrow> acknowledged nic st1 (sk_priv32_1 s1) p"
      using arrives_step [OF Cons.prems(1,2) seg Cons.prems(3-6)] by blast
    have k: "?k \<le> length stream" using seg Cons.prems(5) by (auto simp: stream_segment_def)
    have stored: "read @ pending s1 = take ?k stream" using Cons.prems(7) 1(4) by (simp add: take_add append_assoc [symmetric] del: append_assoc)
    have segs: "\<And>i n p. Arrives i n p \<in> set es \<Longrightarrow> stream_segment stream isn i n p" using Cons.prems(8) by simp
    show ?thesis unfolding Arrives tcp_run.simps 1(1) bind.simps next_byte.simps last_segment.simps
      by (rule Cons.IH [OF 1(2,3) Cons.prems(3,4) k 1(5) stored segs]) (use 1(6) in auto)
  next
    case (Reads n)
    obtain res msg st1 s1 where 1: "sock_tcp_read self a [] n (replicate n 0) st = Some (res, msg, st1)" "connected nic a st1" "nt_socks st1 a = Some s1"
        "sk_priv32_1 s1 = isn + of_nat k" "nt_sent st1 = nt_sent st" "nt_nics st1 = nt_nics st" and out: "(case res of Some r \<Rightarrow> take (nat r) (mh_iov_base msg) | None \<Rightarrow> []) @ pending s1 = pending s"
      using reads_step [OF Cons.prems(1,2), of self n] Cons.prems(6) by auto
    let ?o = "case res of Some r \<Rightarrow> take (nat r) (mh_iov_base msg) | None \<Rightarrow> []"
    have "(read @ ?o) @ pending s1 = take k stream" using Cons.prems(7) out by simp
    moreover have "acknowledged nic st1 (sk_priv32_1 s1) p" if "records d" "q = Some p" for p
      using Cons.prems(9) [OF that] Cons.prems(6) 1(4-6) by (simp add: acknowledged_def)
    ultimately show ?thesis
      using Cons.IH [OF 1(2,3) Cons.prems(3-5) 1(4), of "read @ ?o" q] Cons.prems(8) 1(1) by (auto simp: Reads)
  qed
qed simp

end


section \<open>The sender\<close>

lemma send_segment_spec:
  assumes s: "nt_socks st a = Some s" and nic: "net_if_route (si_addr (sk_dest s)) st = nic" "nic \<noteq> 0" "nt_nics st nic = Some n"
    and hop: "net_arp_cache_get (next_hop n (si_addr (sk_dest s))) st = Some (Some e)"
    and seq: "sk_priv32_0 s = isn + of_nat i" and n: "0 < n'" "i + n' \<le> length stream" "n' \<le> 1024"
  shows "\<exists>p. send_segment recording a (take n' (drop i stream)) st = Some (True, st\<lparr>nt_socks := (nt_socks st)(a \<mapsto>
      s\<lparr>sk_priv2 := sk_priv2 s + 1, sk_priv32_0 := isn + of_nat (i + n')\<rparr>), nt_sent := nt_sent st @ [(nic, ip_frame n e p)]\<rparr>) \<and>
    stream_segment stream isn i n' p \<and> ip_destination p = si_addr (sk_dest s) \<and> (\<exists>h. tcp_of (ip_payload p) = Some h \<and> tc_destination_port h = si_port (sk_dest s))"
proof -
  let ?d = "take n' (drop i stream)" and ?s = "s\<lparr>sk_priv2 := sk_priv2 s + 1\<rparr>" and ?fl = "TCP_FLAGS_PSH OR TCP_FLAGS_ACK OR 0x5000"
  have d: "length ?d = n'" using n by simp
  obtain c where c: "make_segment ?s (si_port (sk_dest s)) (htonl (isn + of_nat i)) (htonl (sk_priv32_1 s)) ?fl (ni_ipv4_addr n) (si_addr (sk_dest s)) ?d =
    Some (make_packet (40 + n') (si_addr (sk_dest s)) (ni_ipv4_addr n) IPV4_PROT_TCP (htons (sk_priv2 s + 1)) 0
      (tcp_bytes \<lparr>tc_source_port = htons (sk_priv0 s), tc_destination_port = si_port (sk_dest s), tc_seq_number = htonl (isn + of_nat i),
         tc_ack_number = htonl (sk_priv32_1 s), tc_flags = htons ?fl, tc_window_size = htons 65535, tc_checksum = c, tc_urgent = 0, tc_payload = ?d\<rparr>))"
    (is "_ = Some ?p")
    using make_segment_eq [of ?d ?s "si_port (sk_dest s)" "htonl (isn + of_nat i)" "htonl (sk_priv32_1 s)" ?fl "ni_ipv4_addr n" "si_addr (sk_dest s)"] n(3) unfolding d by auto
  define p where "p = ?p"
  have len: "unat (ntohs (ip_length p)) = 20 + length (ip_payload p)"
    using n by (simp add: p_def unsigned_of_nat take_bit_nat_eq_self del: of_nat_add)
  have seg: "stream_segment stream isn i n' p"
    using n by (simp add: stream_segment_def p_def tcp_of_bytes TCP_FLAGS_FIN_def TCP_FLAGS_ACK_def TCP_FLAGS_PSH_def)
  have "net_ipv4_send recording p nic (st\<lparr>nt_socks := m\<rparr>) = Some (st\<lparr>nt_socks := m, nt_sent := nt_sent st @ [(nic, ip_frame n e p)]\<rparr>)" for m
    using send_known [of "st\<lparr>nt_socks := m\<rparr>" nic n p e recording] nic(3) hop len by (simp add: p_def recording_def net_arp_cache_get_def)
  then have "send_segment recording a ?d st = Some (True, st\<lparr>nt_socks := (nt_socks st)(a \<mapsto>
      s\<lparr>sk_priv2 := sk_priv2 s + 1, sk_priv32_0 := isn + of_nat (i + n')\<rparr>), nt_sent := nt_sent st @ [(nic, ip_frame n e p)]\<rparr>)"
    using s nic c [folded p_def] d by (simp add: send_segment_def seq Let_def add.assoc)
  with seg show ?thesis by (intro exI [of _ p]) (simp add: p_def tcp_of_bytes)
qed

text \<open>The segments of the stream from the \<open>j\<close>th on, of 1024 bytes but for the last.\<close>

definition cut_at :: "bytes \<Rightarrow> nat \<Rightarrow> nat" where
  "cut_at stream j = min 1024 (length stream - 1024 * j)"

lemma send_loop_step:
  "data \<noteq> [] \<Longrightarrow> send_segment d a (take 1024 data) st = Some (True, st') \<Longrightarrow> send_loop d a [] data st = send_loop d a [] (drop 1024 data) st'"
  by (simp add: send_loop.simps [of _ _ _ data] send_loop.simps [of _ _ _ "[]"] Let_def)

lemma cut_count: "0 < x \<Longrightarrow> (x + 1023) div 1024 = Suc ((x - 1024 + 1023) div 1024)" for x :: nat
proof (cases "x < 1024")
  case False
  then have "x + 1023 = (x - 1024 + 1023) + 1024" by simp
  then show ?thesis by (metis One_nat_def add_Suc_right div_add_self2 numeral_eq_Suc plus_1_eq_Suc add.commute zero_neq_numeral)
qed (simp add: div_nat_eqI)

lemma send_loop_spec:
  assumes "nt_socks st a = Some s" "net_if_route (si_addr (sk_dest s)) st = nic" "nic \<noteq> 0" "nt_nics st nic = Some n"
    and "net_arp_cache_get (next_hop n (si_addr (sk_dest s))) st = Some (Some e)" "sk_priv32_0 s = isn + of_nat (min (length stream) (1024 * j))"
  shows "\<exists>ps c. send_loop recording a [] (drop (1024 * j) stream) st = Some (True, st\<lparr>nt_socks := (nt_socks st)(a \<mapsto>
      s\<lparr>sk_priv2 := c, sk_priv32_0 := isn + of_nat (length stream)\<rparr>), nt_sent := nt_sent st @ map (\<lambda>p. (nic, ip_frame n e p)) ps\<rparr>) \<and>
    length ps = (length stream - 1024 * j + 1023) div 1024 \<and>
    (\<forall>i < length ps. stream_segment stream isn (1024 * (j + i)) (cut_at stream (j + i)) (ps ! i) \<and> ip_destination (ps ! i) = si_addr (sk_dest s))"
  using assms
proof (induction "length stream - 1024 * j" arbitrary: j st s rule: less_induct)
  case less
  show ?case
  proof (cases "length stream \<le> 1024 * j")
    case True
    then have "sk_priv32_0 s = isn + of_nat (length stream)" using less.prems(6) by (simp add: min_absorb1)
    with True less.prems(1) show ?thesis
      by (intro exI [of _ "[]"] exI [of _ "sk_priv2 s"]) (simp add: send_loop.simps [of _ _ _ "[]"] fun_upd_idem)
  next
    case False
    let ?m = "cut_at stream j" and ?i = "1024 * j"
    have m: "0 < ?m" "?i + ?m \<le> length stream" "?m \<le> 1024" using False by (auto simp: cut_at_def)
    have cut: "take ?m (drop ?i stream) = take 1024 (drop ?i stream)" by (auto simp: cut_at_def min_def)
    have seq: "sk_priv32_0 s = isn + of_nat ?i" using less.prems(6) False by (simp add: min_absorb2)
    let ?s = "s\<lparr>sk_priv2 := sk_priv2 s + 1, sk_priv32_0 := isn + of_nat (?i + ?m)\<rparr>"
    obtain p where p: "send_segment recording a (take ?m (drop ?i stream)) st = Some (True, st\<lparr>nt_socks := (nt_socks st)(a \<mapsto> ?s),
        nt_sent := nt_sent st @ [(nic, ip_frame n e p)]\<rparr>)" (is "_ = Some (True, ?st)") "stream_segment stream isn ?i ?m p" "ip_destination p = si_addr (sk_dest s)"
      using send_segment_spec [OF less.prems(1-5) seq m] by blast
    have min: "min (length stream) (1024 * (j + 1)) = ?i + ?m" using False by (auto simp: cut_at_def)
    have less': "length stream - 1024 * (j + 1) < length stream - 1024 * j" using False by simp
    have pre: "nt_socks ?st a = Some ?s" "net_if_route (si_addr (sk_dest ?s)) ?st = nic" "nt_nics ?st nic = Some n"
        "net_arp_cache_get (next_hop n (si_addr (sk_dest ?s))) ?st = Some (Some e)"
      using less.prems(1-5) by (simp_all add: net_if_route_def net_arp_cache_get_def split: if_splits)
    have pre': "sk_priv32_0 ?s = isn + of_nat (min (length stream) (1024 * (j + 1)))" unfolding min by simp
    obtain ps c where ps: "send_loop recording a [] (drop (1024 * (j + 1)) stream) ?st = Some (True, ?st\<lparr>nt_socks := (nt_socks ?st)(a \<mapsto>
        ?s\<lparr>sk_priv2 := c, sk_priv32_0 := isn + of_nat (length stream)\<rparr>), nt_sent := nt_sent ?st @ map (\<lambda>p. (nic, ip_frame n e p)) ps\<rparr>)"
        "length ps = (length stream - 1024 * (j + 1) + 1023) div 1024"
        "\<forall>i < length ps. stream_segment stream isn (1024 * (j + 1 + i)) (cut_at stream (j + 1 + i)) (ps ! i) \<and> ip_destination (ps ! i) = si_addr (sk_dest ?s)"
      using less.hyps [OF less' pre(1,2) less.prems(3) pre(3,4) pre'] by blast
    have "send_loop recording a [] (drop ?i stream) st = send_loop recording a [] (drop (1024 * (j + 1)) stream) ?st"
      using send_loop_step [OF _ p(1) [unfolded cut]] False by (simp add: add.commute)
    moreover have "length (p # ps) = (length stream - 1024 * j + 1023) div 1024"
      using ps(2) cut_count [of "length stream - 1024 * j"] False by (simp only: length_Cons diff_diff_left mult_Suc_right add_mult_distrib2 mult_1_right)
    moreover have "\<forall>i < length (p # ps). stream_segment stream isn (1024 * (j + i)) (cut_at stream (j + i)) ((p # ps) ! i) \<and> ip_destination ((p # ps) ! i) = si_addr (sk_dest s)"
      using p(2,3) ps(3) by (auto simp: nth_Cons add_ac split: nat.splits)
    ultimately show ?thesis using ps(1) by (intro exI [of _ "p # ps"] exI [of _ c]) simp
  qed
qed

lemma tcp_write_spec:
  assumes "nt_socks st a = Some s" "net_if_route (si_addr (sk_dest s)) st = nic" "nic \<noteq> 0" "nt_nics st nic = Some n"
    and "net_arp_cache_get (next_hop n (si_addr (sk_dest s))) st = Some (Some e)"
  shows "\<exists>ps st'. sock_tcp_write recording a [] (length data) data st = Some (int (length data), st') \<and>
    nt_sent st' = nt_sent st @ map (\<lambda>p. (nic, ip_frame n e p)) ps \<and> length ps = (length data + 1023) div 1024 \<and>
    (\<forall>j < length ps. stream_segment data (sk_priv32_0 s) (1024 * j) (cut_at data j) (ps ! j) \<and> ip_destination (ps ! j) = si_addr (sk_dest s)) \<and>
    map_option sk_priv32_0 (nt_socks st' a) = Some (sk_priv32_0 s + of_nat (length data))"
proof -
  obtain ps c where ps: "send_loop recording a [] data st = Some (True, st\<lparr>nt_socks := (nt_socks st)(a \<mapsto>
      s\<lparr>sk_priv2 := c, sk_priv32_0 := sk_priv32_0 s + of_nat (length data)\<rparr>), nt_sent := nt_sent st @ map (\<lambda>p. (nic, ip_frame n e p)) ps\<rparr>)"
      (is "_ = Some (True, ?st)") "length ps = (length data + 1023) div 1024"
      "\<forall>j < length ps. stream_segment data (sk_priv32_0 s) (1024 * j) (cut_at data j) (ps ! j) \<and> ip_destination (ps ! j) = si_addr (sk_dest s)"
    using send_loop_spec [OF assms, of "sk_priv32_0 s" data 0] by auto
  then show ?thesis
    by (intro exI [of _ ps] exI [of _ ?st]) (simp add: sock_tcp_write_def sock_tcp_send_def one_vector_def bytes_at_def)
qed

text \<open>The segments handed over one after the other are the whole stream.\<close>

lemma tcp_run_silent: "tcp_run d nic self a es st = Some (out, st') \<Longrightarrow> (\<And>n. Reads n \<notin> set es) \<Longrightarrow> out = []"
  by (induction d nic self a es st rule: tcp_run.induct) (auto split: bind_splits)

lemma next_byte_append: "next_byte (es @ fs) k = next_byte fs (next_byte es k)"
  by (induction es k rule: next_byte.induct) simp_all

lemma next_byte_in_order:
  "m \<le> (length data + 1023) div 1024 \<Longrightarrow> next_byte (map (\<lambda>j. Arrives (1024 * j) (cut_at data j) (f j)) [0..<m]) 0 = min (length data) (1024 * m)"
proof (induction m)
  case (Suc m)
  then have "Suc m * 1024 \<le> length data + 1023" by (simp only: less_eq_div_iff_mult_less_eq)
  then have "1024 * m \<le> length data" by simp
  with Suc show ?case by (auto simp: next_byte_append cut_at_def)
qed simp

section \<open>Properties\<close>


text \<open>Fact: what a program writes to a connection goes out as segments of 1024 bytes and one for the rest, each to the next station on the way and
  with the number of its first byte, all of it in one call; the number of the next byte follows.\<close>

theorem tcp_write_segments:
  assumes "nt_socks st a = Some s" and "net_if_route (si_addr (sk_dest s)) st = nic" and "nic \<noteq> 0" and "nt_nics st nic = Some n"
    and "net_arp_cache_get (next_hop n (si_addr (sk_dest s))) st = Some (Some e)"
  shows "\<exists>ps st'. sock_tcp_write recording a [] (length data) data st = Some (int (length data), st') \<and>
    nt_sent st' = nt_sent st @ map (\<lambda>p. (nic, ip_frame n e p)) ps \<and> length ps = (length data + 1023) div 1024 \<and>
    (\<forall>j < length ps. stream_segment data (sk_priv32_0 s) (1024 * j) (cut_at data j) (ps ! j) \<and> ip_destination (ps ! j) = si_addr (sk_dest s)) \<and>
    map_option sk_priv32_0 (nt_socks st' a) = Some (sk_priv32_0 s + of_nat (length data))"
  by (rule tcp_write_spec [OF assms])

text \<open>Property C5: what one program writes is what the other reads, where the route and the hardware address of the next station are known, the number
  of the first byte of the write is not 0, the numbers of its bytes do not wrap around, and the other end is a connected socket that expects the first byte
  and holds no unread bytes.  The segments of the write may then reach the other machine in any order, several times or not at all, while the program there
  reads: it has a prefix of what was written, and all of it is there once the segments have come in order.\<close>

theorem tcp_transfer:
  assumes "nt_socks st a = Some s" and "net_if_route (si_addr (sk_dest s)) st = nic" and "nic \<noteq> 0" and "nt_nics st nic = Some n"
    and "net_arp_cache_get (next_hop n (si_addr (sk_dest s))) st = Some (Some e)" and "sk_priv32_0 s \<noteq> 0" and "unat (sk_priv32_0 s) + length data < 2 ^ 32"
    and "quiet_driver d" and "connected nic' b stb" and "nt_socks stb b = Some sb" and "sk_priv32_1 sb = sk_priv32_0 s" and "pending sb = []"
  shows "\<exists>ps st'. sock_tcp_write recording a [] (length data) data st = Some (int (length data), st') \<and>
    nt_sent st' = nt_sent st @ map (\<lambda>p. (nic, ip_frame n e p)) ps \<and>
    (\<forall>es. (\<forall>i m p. Arrives i m p \<in> set es \<longrightarrow> (\<exists>j < length ps. i = 1024 * j \<and> m = cut_at data j \<and> p = ps ! j)) \<longrightarrow>
       (\<exists>out stb' sb'. tcp_run d nic' self b es stb = Some (out, stb') \<and> nt_socks stb' b = Some sb' \<and> prefix (out @ pending sb') data)) \<and>
    (\<exists>stb' sb'. tcp_run d nic' self b (map (\<lambda>j. Arrives (1024 * j) (cut_at data j) (ps ! j)) [0..<length ps]) stb = Some ([], stb') \<and>
       nt_socks stb' b = Some sb' \<and> pending sb' = data)"
proof -
  obtain ps st' where ps: "sock_tcp_write recording a [] (length data) data st = Some (int (length data), st')"
      "nt_sent st' = nt_sent st @ map (\<lambda>p. (nic, ip_frame n e p)) ps" "length ps = (length data + 1023) div 1024"
      "\<And>j. j < length ps \<Longrightarrow> stream_segment data (sk_priv32_0 s) (1024 * j) (cut_at data j) (ps ! j)"
    using tcp_write_spec [OF assms(1-5), of data] by blast
  have run: "\<exists>out stb' sb'. tcp_run d nic' self b es stb = Some (out, stb') \<and> nt_socks stb' b = Some sb' \<and> out @ pending sb' = take (next_byte es 0) data"
    if "\<And>i m p. Arrives i m p \<in> set es \<Longrightarrow> \<exists>j < length ps. i = 1024 * j \<and> m = cut_at data j \<and> p = ps ! j" for es
    using quiet_driver.tcp_run_spec [OF assms(8-10,6,7), of 0 "[]" es None self] assms(11,12) that ps(4) by (simp, metis)
  let ?all = "map (\<lambda>j. Arrives (1024 * j) (cut_at data j) (ps ! j)) [0..<length ps]"
  have "length data \<le> 1024 * length ps" using dividend_less_times_div [of 1024 "length data + 1023"] unfolding ps(3) by simp
  then have all_in: "next_byte ?all 0 = length data" using next_byte_in_order [of "length ps" data "\<lambda>j. ps ! j"] ps(3) by simp
  have "\<exists>j < length ps. i = 1024 * j \<and> m = cut_at data j \<and> p = ps ! j" if "Arrives i m p \<in> set ?all" for i m p using that by auto
  from run [of ?all, OF this] obtain out stb' sb' where all: "tcp_run d nic' self b ?all stb = Some (out, stb')" "nt_socks stb' b = Some sb'" "out @ pending sb' = data"
    unfolding all_in by (auto simp only: take_all order_refl)
  have "out = []" using all(1) by (rule tcp_run_silent) auto
  then have in_order: "\<exists>stb' sb'. tcp_run d nic' self b ?all stb = Some ([], stb') \<and> nt_socks stb' b = Some sb' \<and> pending sb' = data" using all by auto
  have "\<exists>out stb' sb'. tcp_run d nic' self b es stb = Some (out, stb') \<and> nt_socks stb' b = Some sb' \<and> prefix (out @ pending sb') data"
    if "\<forall>i m p. Arrives i m p \<in> set es \<longrightarrow> (\<exists>j < length ps. i = 1024 * j \<and> m = cut_at data j \<and> p = ps ! j)" for es
    using run [of es] that take_is_prefix [of "next_byte es 0" data] by metis
  with ps(1,2) in_order show ?thesis by blast
qed

definition example_stream :: bytes where
  "example_stream = map of_char ''HTTP/1.0 200 OK''"

definition example_segment :: "nat \<Rightarrow> nat \<Rightarrow> ipv4_packet" where
  "example_segment i n = make_packet (40 + n) 0x0F02000A 0x0202000A IPV4_PROT_TCP 0 0
     (tcp_bytes \<lparr>tc_source_port = htons 80, tc_destination_port = htons 49152, tc_seq_number = htonl (1000 + of_nat i), tc_ack_number = htonl 1,
        tc_flags = htons (TCP_FLAGS_ACK OR 0x5000), tc_window_size = 0, tc_checksum = 0, tc_urgent = 0, tc_payload = take n (drop i example_stream)\<rparr>)"

definition example_tcp :: sock where
  "example_tcp = (net_sock_create SockTcp)\<lparr>sk_priv0 := 49152, sk_priv1 := 2, sk_priv32_0 := 1, sk_priv32_1 := 1000,
     sk_dest := \<lparr>si_family = 1, si_port = htons 80, si_addr = 0x0202000A\<rparr>\<rparr>"

definition example_conn :: net where
  "example_conn = example_net\<lparr>nt_socks := [0x30 \<mapsto> example_tcp]\<rparr>"


lemma example_connected: "connected 0x20 0x30 example_conn" "nt_socks example_conn 0x30 = Some example_tcp"
  by (simp_all add: connected_def example_conn_def example_net_def fresh_net_def example_nic_def example_tcp_def net_sock_create_def)


definition example_hop :: arp_entry where
  "example_hop = \<lparr>ac_hwaddr = [0x52, 0x55, 10, 0, 2, 2], ac_flags = 0, ac_iface = 0x20\<rparr>"

definition example_sender :: net where
  "example_sender = example_conn\<lparr>nt_arp := int_map\<lparr>hm_entries := (replicate 10 [])[4 := [(0x0202000A, Some example_hop)]]\<rparr>\<rparr>"

lemma example_sending:
  "nt_socks example_sender 0x30 = Some example_tcp" "net_if_route (si_addr (sk_dest example_tcp)) example_sender = 0x20" "(0x20 :: ptr) \<noteq> 0"
  "nt_nics example_sender 0x20 = Some example_nic" "net_arp_cache_get (next_hop example_nic (si_addr (sk_dest example_tcp))) example_sender = Some (Some example_hop)"
  by (simp_all add: example_sender_def example_conn_def example_tcp_def net_if_route_def example_net_def fresh_net_def example_nic_def next_hop_def
      net_arp_cache_get_def hashmap_get_def hashmap_index_def int_map_def hashmap_int_hash_def hashmap_int_comp_def)

theorem tcp_write_segments_witness:
  "\<exists>ps st'. sock_tcp_write recording 0x30 [] 3000 (replicate 3000 65) example_sender = Some (3000, st') \<and>
    nt_sent st' = nt_sent example_sender @ map (\<lambda>p. (0x20, ip_frame example_nic example_hop p)) ps \<and> length ps = 3"
  using tcp_write_segments [OF example_sending, of "replicate 3000 65"] by auto

definition example_receiver :: net where
  "example_receiver = example_net\<lparr>nt_socks := [0x50 \<mapsto> example_tcp\<lparr>sk_priv32_1 := 1\<rparr>]\<rparr>"

theorem tcp_transfer_witness:
  "\<exists>ps st'. sock_tcp_write recording 0x30 [] 15 example_stream example_sender = Some (15, st') \<and>
    (\<exists>stb' sb'. tcp_run recording 0x20 7 0x50 (map (\<lambda>j. Arrives (1024 * j) (cut_at example_stream j) (ps ! j)) [0..<length ps]) example_receiver = Some ([], stb') \<and>
       nt_socks stb' 0x50 = Some sb' \<and> pending sb' = example_stream)"
proof -
  have r: "connected 0x20 0x50 example_receiver" "nt_socks example_receiver 0x50 = Some (example_tcp\<lparr>sk_priv32_1 := 1\<rparr>)"
    by (simp_all add: connected_def example_receiver_def example_net_def fresh_net_def example_nic_def example_tcp_def net_sock_create_def)
  have t: "sk_priv32_0 example_tcp \<noteq> 0" "unat (sk_priv32_0 example_tcp) + length example_stream < 2 ^ 32"
      "sk_priv32_1 (example_tcp\<lparr>sk_priv32_1 := 1\<rparr>) = sk_priv32_0 example_tcp" "pending (example_tcp\<lparr>sk_priv32_1 := 1\<rparr>) = []" "length example_stream = 15"
    by (simp_all add: example_tcp_def net_sock_create_def pending_def example_stream_def)
  from tcp_transfer [OF example_sending t(1,2) rec.quiet_driver_axioms r t(3,4), of 7] show ?thesis
    unfolding t(5) by auto
qed

text \<open>Property C35: a segment out of its turn whose end of stream flag is set is not taken, but it ends the stream: the bytes before it are never
  accepted again, and the program reads the end of the stream.\<close>

theorem early_fin_cuts_stream:
  assumes "quiet_driver d" and conn: "connected nic a st" and s: "nt_socks st a = Some s" and p: "ip_payload p = tcp_bytes h"
    and fin: "ntohs (tc_flags h) AND TCP_FLAGS_FIN \<noteq> 0" and turn: "ntohl (tc_seq_number h) \<noteq> sk_priv32_1 s" "sk_priv32_1 s \<noteq> 0"
  shows "\<exists>st' s'. tcp_handle d p nic a st = Some st' \<and> nt_socks st' a = Some s' \<and> pending s' = pending s \<and> (\<forall>q. tcp_handle d q nic a st' = Some st') \<and>
    (pending s = [] \<longrightarrow> (\<forall>self n buffer. sock_tcp_read self a [] n buffer st' = Some (Some 0, one_vector buffer n, st')))"
proof -
  obtain c where nic: "nt_nics st nic = Some c" "length (ni_mac c) = 6" "hm_wf (nt_arp st)" and st: "sk_priv0 s \<noteq> 0" "sk_priv1 s = 2"
      "sk_unread s \<le> length (sk_buf s)" "list_all (\<lambda>p. 40 < length p) (sk_rx_queue s)"
    using conn s by (auto simp: connected_def split: option.splits)
  define s' where "s' = s\<lparr>sk_priv2 := sk_priv2 s + 1, sk_priv32_1 := sk_priv32_1 s + 1, sk_priv1 := 3\<rparr>"
  have "ack_socket False len (tc_seq_number h) (tc_flags h) s = (False, s')" for len
    using fin turn by (auto simp: ack_socket_def s'_def Let_def)
  from quiet_driver.tcp_ack_quiet [OF assms(1) nic s p this] have ack: "\<exists>l. tcp_ack d nic a p False len st = Some (False, st\<lparr>nt_socks := (nt_socks st)(a \<mapsto> s'), nt_sent := l\<rparr>)" for len
    by blast
  have "\<exists>l. tcp_handle d p nic a st = Some (st\<lparr>nt_socks := (nt_socks st)(a \<mapsto> s'), nt_sent := l\<rparr>)"
    using ack [of "tcp_segment_len p (tc_flags h)"] ack [of 0] s st(2) fin p by (auto simp: tcp_handle_def)
  then obtain l where l: "tcp_handle d p nic a st = Some (st\<lparr>nt_socks := (nt_socks st)(a \<mapsto> s'), nt_sent := l\<rparr>)" (is "_ = Some ?st") by blast
  have "\<forall>q. tcp_handle d q nic a ?st = Some ?st" by (simp add: tcp_handle_def s'_def)
  moreover have "sk_unread s' = 0 \<and> sk_rx_queue s' = []" if "pending s = []"
    using that st by (cases "sk_rx_queue s") (auto simp: pending_def s'_def split: if_splits)
  then have "pending s = [] \<longrightarrow> (\<forall>self n buffer. sock_tcp_read self a [] n buffer ?st = Some (Some 0, one_vector buffer n, ?st))"
    using st(1) by (auto simp: sock_tcp_read_def sock_tcp_recv_def one_vector_def s'_def)
  ultimately show ?thesis using l by (intro exI [of _ ?st] exI [of _ s']) (simp add: pending_def s'_def)
qed

definition example_fin :: tcp_header where
  "example_fin = \<lparr>tc_source_port = htons 80, tc_destination_port = htons 49152, tc_seq_number = htonl 1009, tc_ack_number = htonl 1,
     tc_flags = htons (TCP_FLAGS_FIN OR 0x5000), tc_window_size = 0, tc_checksum = 0, tc_urgent = 0, tc_payload = map of_char ''200 OK''\<rparr>"

theorem early_fin_cuts_stream_witness:
  "\<exists>st'. tcp_handle recording (make_packet 46 0x0F02000A 0x0202000A IPV4_PROT_TCP 0 0 (tcp_bytes example_fin)) 0x20 0x30 example_conn = Some st' \<and>
    tcp_handle recording (example_segment 0 9) 0x20 0x30 st' = Some st' \<and> sock_tcp_read 7 0x30 [] 64 (replicate 64 0) st' = Some (Some 0, one_vector (replicate 64 0) 64, st')"
  using early_fin_cuts_stream [OF rec.quiet_driver_axioms example_connected, of "make_packet 46 0x0F02000A 0x0202000A IPV4_PROT_TCP 0 0 (tcp_bytes example_fin)" example_fin]
  by (auto simp: example_fin_def TCP_FLAGS_FIN_def example_tcp_def net_sock_create_def pending_def)

end
