(* ===== verification/Net_Eth.thy ===== *)
theory Net_Eth
  imports Tcp_Stream
begin

text \<open>
  Frames from the devices, raw sockets, the loopback device and the socket calls: \<open>kernel/net/eth.c\<close>, \<open>kernel/net/loop.c\<close> and the rest of
  \<open>kernel/net/socket.c\<close>.  The loopback device hands what is written to it back at once, from inside of the write; \<open>write_loop\<close>
  counts how deep these calls may nest.
\<close>

section \<open>Frames\<close>

fun raw_deliver :: "ptr list \<Rightarrow> bytes \<Rightarrow> ptr \<Rightarrow> net \<Rightarrow> net option" where
  "raw_deliver [] frame nic st = Some st"
| "raw_deliver (a # as) frame nic st = do {
     s \<leftarrow> nt_socks st a;
     st \<leftarrow> (if sk_device s = 0 \<or> sk_device s = nic then net_sock_add a frame (length frame) st else Some st);
     raw_deliver as frame nic st
   }"

definition net_eth_handle :: "driver \<Rightarrow> bytes \<Rightarrow> ptr \<Rightarrow> net \<Rightarrow> net option" where
  "net_eth_handle d frame nic st = do {
     n \<leftarrow> nt_nics st nic;
     case eth_of frame of None \<Rightarrow> Some st
     | Some e \<Rightarrow> do {
         st \<leftarrow> raw_deliver (nt_raw_sockets st) frame nic st;
         if et_destination e = ni_mac n \<or> et_destination e = ETHERNET_BROADCAST_MAC then
           if ntohs (et_type e) = ETHERNET_TYPE_ARP then net_arp_handle d (et_payload e) nic st
           else if ntohs (et_type e) = ETHERNET_TYPE_IPV4 then do {
             source \<leftarrow> load32 (et_payload e) 12;
             st \<leftarrow> (if source \<noteq> 0xFFFFFFFF then net_arp_cache_add nic source (et_source e) 0 st else Some st);
             net_ipv4_handle d (et_payload e) nic st
           } else Some st
         else Some st
       }
   }"


section \<open>The loopback device\<close>

definition count_frame :: "u64 \<Rightarrow> counters \<Rightarrow> counters" where
  "count_frame sz c = c\<lparr>ct_rx_count := ct_rx_count c + 1, ct_tx_count := ct_tx_count c + 1,
     ct_rx_bytes := ct_rx_bytes c + sz, ct_tx_bytes := ct_tx_bytes c + sz\<rparr>"

text \<open>Writes to other devices are those of \<open>d\<close>.\<close>

fun write_loop :: "nat \<Rightarrow> driver \<Rightarrow> ptr \<Rightarrow> bytes \<Rightarrow> net \<Rightarrow> net option" where
  "write_loop 0 d nic frame st = None"
| "write_loop (Suc depth) d nic frame st =
     (if nic = nt_if_loop st then 
        net_eth_handle (d\<lparr>dr_write := write_loop depth d\<rparr>) frame nic
          (st\<lparr>nt_loop_counts := count_frame (of_nat (length frame)) (nt_loop_counts st)\<rparr>)
      else dr_write d nic frame st)"

definition loop_device :: "nat \<Rightarrow> driver \<Rightarrow> driver" where
  "loop_device depth d = d\<lparr>dr_write := write_loop depth d\<rparr>"

text \<open>The requests; \<open>argp\<close> is the memory of the caller, which nothing checks.\<close>

definition SIOCGIFHWADDR :: u64 where "SIOCGIFHWADDR = 0x12340001"
definition SIOCGIFADDR :: u64 where "SIOCGIFADDR = 0x12340002"
definition SIOCSIFADDR :: u64 where "SIOCSIFADDR = 0x12340012"
definition SIOCGIFNETMASK :: u64 where "SIOCGIFNETMASK = 0x12340004"
definition SIOCSIFNETMASK :: u64 where "SIOCSIFNETMASK = 0x12340014"
definition SIOCGIFADDR6 :: u64 where "SIOCGIFADDR6 = 0x12340003"
definition SIOCSIFADDR6 :: u64 where "SIOCSIFADDR6 = 0x12340013"
definition SIOCGIFFLAGS :: u64 where "SIOCGIFFLAGS = 0x12340005"
definition SIOCGIFMTU :: u64 where "SIOCGIFMTU = 0x12340006"
definition SIOCGIFGATEWAY :: u64 where "SIOCGIFGATEWAY = 0x12340007"
definition SIOCSIFGATEWAY :: u64 where "SIOCSIFGATEWAY = 0x12340017"
definition SIOCGIFCOUNTS :: u64 where "SIOCGIFCOUNTS = 0x12340018"

definition bytes64 :: "u64 \<Rightarrow> bytes" where
  "bytes64 v = bytes32 (ucast v) @ bytes32 (ucast (drop_bit 32 v))"

definition counts_bytes :: "counters \<Rightarrow> bytes" where
  "counts_bytes c = bytes64 (ct_tx_count c) @ bytes64 (ct_tx_bytes c) @ bytes64 (ct_rx_count c) @ bytes64 (ct_rx_bytes c)"

definition poke :: "bytes \<Rightarrow> bytes \<Rightarrow> net \<Rightarrow> (int \<times> bytes \<times> net) option" where
  "poke data argp st = (if length argp < length data then None else Some (0, data @ drop (length data) argp, st))"

definition ioctl_loop :: "driver \<Rightarrow> ptr \<Rightarrow> u64 \<Rightarrow> bytes \<Rightarrow> net \<Rightarrow> (int \<times> bytes \<times> net) option" where
  "ioctl_loop d node request argp st = do {
     n \<leftarrow> nt_nics st node;
     let set_nic = (\<lambda>n. st\<lparr>nt_nics := (nt_nics st)(node \<mapsto> n)\<rparr>);
     if request = SIOCGIFHWADDR then Some (1, argp, st)
     else if request = SIOCGIFADDR then if ni_ipv4_addr n = 0 then Some (- 2, argp, st) else poke (bytes32 (ni_ipv4_addr n)) argp st
     else if request = SIOCSIFADDR then do { v \<leftarrow> load32 argp 0; Some (0, argp, set_nic (n\<lparr>ni_ipv4_addr := v\<rparr>)) }
     else if request = SIOCGIFNETMASK then if ni_ipv4_subnet n = 0 then Some (- 2, argp, st) else poke (bytes32 (ni_ipv4_subnet n)) argp st
     else if request = SIOCSIFNETMASK then do { v \<leftarrow> load32 argp 0; Some (0, argp, set_nic (n\<lparr>ni_ipv4_subnet := v\<rparr>)) }
     else if request = SIOCGIFGATEWAY then if ni_ipv4_subnet n = 0 then Some (- 2, argp, st) else poke (bytes32 (ni_ipv4_gateway n)) argp st
     else if request = SIOCSIFGATEWAY then do {
       v \<leftarrow> load32 argp 0;
       st \<leftarrow> net_arp_ask d v node (set_nic (n\<lparr>ni_ipv4_gateway := v\<rparr>));
       Some (0, argp, st)
     }
     else if request = SIOCGIFADDR6 then Some (- 2, argp, st)
     else if request = SIOCSIFADDR6 then do { v \<leftarrow> bytes_at argp 0 16; Some (0, argp, set_nic (n\<lparr>ni_ipv6_addr := v\<rparr>)) }
     else if request = SIOCGIFFLAGS then poke (bytes32 (0x10 OR 0x1 OR 0x8)) argp st
     else if request = SIOCGIFMTU then poke (bytes32 (ucast (ni_mtu n))) argp st
     else if request = SIOCGIFCOUNTS then poke (counts_bytes (nt_loop_counts st)) argp st
     else Some (- EINVAL, argp, st)
   }"

definition loop_nic :: nic where
  "loop_nic = \<lparr>ni_if_name = map of_char ''lo'', ni_mac = replicate 6 0, ni_mtu = 65536, ni_ipv4_addr = 0x0100007F, ni_ipv4_subnet = 0x000000FF,
     ni_ipv4_gateway = 0, ni_ipv6_addr = replicate 16 0\<rparr>"

definition loopbook_install :: "bytes \<Rightarrow> ptr \<Rightarrow> net \<Rightarrow> net option" where
  "loopbook_install tmp node st =
     net_add_interface tmp (map of_char ''lo'') node (st\<lparr>nt_nics := (nt_nics st)(node \<mapsto> loop_nic)\<rparr>)"

text \<open>The state before, as the loader leaves it; the first interface is the first that is added after the loopback device.\<close>

definition net_install :: "bytes \<Rightarrow> ptr \<Rightarrow> net \<Rightarrow> net option" where
  "net_install tmp node st = do {
     ifs \<leftarrow> hashmap_create 10;
     arp \<leftarrow> hashmap_create_int 10;
     udp \<leftarrow> hashmap_create_int 10;
     tcp \<leftarrow> hashmap_create_int 10;
     icmp \<leftarrow> hashmap_create_int 10;
     st \<leftarrow> loopbook_install tmp node (st\<lparr>nt_interfaces := ifs, nt_raw_sockets := [], nt_arp := arp, nt_udp := udp, nt_tcp := tcp, nt_icmp := icmp\<rparr>);
     Some (st\<lparr>nt_if_loop := node, nt_if_first := 0\<rparr>)
   }"


section \<open>Raw sockets and the calls\<close>

definition EBADF :: int where "EBADF = 9"
definition ENOENT :: int where "ENOENT = 2"
definition EFAULT :: int where "EFAULT = 14"
definition EAFNOSUPPORT :: int where "EAFNOSUPPORT = 106"
definition ENOTSOCK :: int where "ENOTSOCK = 108"
definition ESOCKTNOSUPPORT :: int where "ESOCKTNOSUPPORT = 124"
definition FS_SOCKET :: u64 where "FS_SOCKET = 0x80"

definition sock_raw_recv :: "ptr \<Rightarrow> ptr \<Rightarrow> net_env \<Rightarrow> msghdr \<Rightarrow> net \<Rightarrow> msghdr call_result" where
  "sock_raw_recv self a env msg st = do {
     s \<leftarrow> nt_socks st a;
     if sk_device s = 0 then Some (Some (- EINVAL), msg, st)
     else if mh_iovlen msg > 1 then Some (Some (- ENOTSUP), msg, st)
     else if mh_iovlen msg = 0 then Some (Some 0, msg, st)
     else do {
       (got, st) \<leftarrow> net_sock_get self a env st;
       case got of Asleep \<Rightarrow> Some (None, msg, st)
       | Restart \<Rightarrow> Some (Some (- EINTR), msg, st)
       | Returned data \<Rightarrow>
           if mh_iov_len msg < length data then Some (Some (- EINVAL), msg, st)
           else do { msg \<leftarrow> copy_out data msg; Some (Some 4096, msg, st) }
     }
   }"

definition sock_raw_send :: "driver \<Rightarrow> ptr \<Rightarrow> msghdr \<Rightarrow> net \<Rightarrow> (int \<times> net) option" where
  "sock_raw_send d a msg st = do {
     s \<leftarrow> nt_socks st a;
     if sk_device s = 0 then Some (- EINVAL, st)
     else if mh_iovlen msg > 1 then Some (- ENOTSUP, st)
     else if mh_iovlen msg = 0 then Some (0, st)
     else do {
       data \<leftarrow> bytes_at (mh_iov_base msg) 0 (mh_iov_len msg);
       st \<leftarrow> dr_write d (sk_device s) data st;
       Some (int (mh_iov_len msg), st)
     }
   }"

definition sock_raw_close :: "ptr \<Rightarrow> net \<Rightarrow> net option" where
  "sock_raw_close a st =
     (if a \<in> set (nt_raw_sockets st) then Some (st\<lparr>nt_raw_sockets := remove1 a (nt_raw_sockets st)\<rparr>) else None)"

definition sock_generic_close :: "driver \<Rightarrow> ptr \<Rightarrow> net \<Rightarrow> net option" where
  "sock_generic_close d a st = do {
     s \<leftarrow> nt_socks st a;
     st \<leftarrow> (case sk_kind s of SockIcmp \<Rightarrow> sock_icmp_close a st | SockUdp \<Rightarrow> sock_udp_close a st
        | SockTcp \<Rightarrow> sock_tcp_close d a st | SockRaw \<Rightarrow> sock_raw_close a st);
     set_sock a (\<lambda>s. s\<lparr>sk_rx_queue := []\<rparr>) st
   }"

definition net_raw_socket :: "ptr \<Rightarrow> u32 \<Rightarrow> int \<Rightarrow> net \<Rightarrow> int option \<times> net" where
  "net_raw_socket a user ty st =
     (if ty \<noteq> 3 then (Some (- ESOCKTNOSUPPORT), st)
      else if user \<noteq> 0 then (Some (- EACCES), st)
      else (None, st\<lparr>nt_socks := (nt_socks st)(a \<mapsto> net_sock_create SockRaw), nt_raw_sockets := nt_raw_sockets st @ [a]\<rparr>))"

definition net_socket :: "ptr \<Rightarrow> u32 \<Rightarrow> u32 \<Rightarrow> int \<Rightarrow> int \<Rightarrow> int \<Rightarrow> net \<Rightarrow> (int option \<times> net) option" where
  "net_socket a pid user domain ty protocol st =
     (if domain = 1 then net_ipv4_socket a pid ty protocol st
      else if domain = 2 then Some (net_raw_socket a user ty st)
      else Some (Some (- EAFNOSUPPORT), st))"

text \<open>The option is a string with its terminator at the length given.\<close>

definition net_so_socket :: "ptr \<Rightarrow> int \<Rightarrow> bytes \<Rightarrow> nat \<Rightarrow> net \<Rightarrow> (int \<times> net) option" where
  "net_so_socket a optname optval optlen st =
     (if optname = 3 then
        if optlen < 1 \<or> optlen > 32 then Some (- EINVAL, st)
        else if length optval < optlen then None
        else if optval ! (optlen - 1) \<noteq> 0 then Some (- EINVAL, st)
        else do {
          netif \<leftarrow> net_if_lookup (takeWhile (\<lambda>c. c \<noteq> 0) optval) st;
          case netif of None \<Rightarrow> Some (- ENOENT, st)
          | Some nic \<Rightarrow> do { st \<leftarrow> set_sock a (\<lambda>s. s\<lparr>sk_device := nic\<rparr>) st; Some (0, st) }
        }
      else Some (- ENOPROTOOPT, st))"

text \<open>The descriptor's node and its flags, none when the descriptor is not open.\<close>

definition is_socket :: "(ptr \<times> u64) option \<Rightarrow> int" where
  "is_socket fd = (case fd of None \<Rightarrow> - EBADF | Some (a, flags) \<Rightarrow> if flags AND FS_SOCKET = 0 then - ENOTSOCK else 0)"

definition on_socket :: "(ptr \<times> u64) option \<Rightarrow> (ptr \<Rightarrow> sock \<Rightarrow> (int \<times> net) option) \<Rightarrow> net \<Rightarrow> (int \<times> net) option" where
  "on_socket fd f st =
     (if is_socket fd \<noteq> 0 then Some (is_socket fd, st)
      else do { (a, flags) \<leftarrow> fd; s \<leftarrow> nt_socks st a; f a s })"

definition net_setsockopt :: "(ptr \<times> u64) option \<Rightarrow> int \<Rightarrow> int \<Rightarrow> bytes \<Rightarrow> nat \<Rightarrow> net \<Rightarrow> (int \<times> net) option" where
  "net_setsockopt fd level optname optval optlen st =
     on_socket fd (\<lambda>a s.
       if level = 1 then net_so_socket a optname optval optlen st
       else if level = 0 then do {
         v \<leftarrow> (if optname = 12 \<and> optlen = 4 then load32 optval 0 else Some 0);
         let (res, s) = net_so_ipv4_socket optname v optlen s;
         Some (res, st\<lparr>nt_socks := (nt_socks st)(a \<mapsto> s)\<rparr>)
       } else Some (- ENOPROTOOPT, st)) st"

definition net_getsockopt :: "(ptr \<times> u64) option \<Rightarrow> net \<Rightarrow> (int \<times> net) option" where
  "net_getsockopt fd st = on_socket fd (\<lambda>a s. Some (- EINVAL, st)) st"

definition net_bind :: "(ptr \<times> u64) option \<Rightarrow> u32 \<Rightarrow> sockaddr_in \<Rightarrow> net \<Rightarrow> (int \<times> net) option" where
  "net_bind fd user addr st =
     on_socket fd (\<lambda>a s. if sk_kind s = SockUdp then sock_udp_bind user a addr st else Some (- EINVAL, st)) st"

definition net_accept :: "(ptr \<times> u64) option \<Rightarrow> net \<Rightarrow> (int \<times> net) option" where
  "net_accept fd st = on_socket fd (\<lambda>a s. Some (- EINVAL, st)) st"

definition net_listen :: "(ptr \<times> u64) option \<Rightarrow> net \<Rightarrow> (int \<times> net) option" where
  "net_listen fd st = on_socket fd (\<lambda>a s. Some (- EINVAL, st)) st"

text \<open>\<open>bad\<close> is what \<open>validate_msg\<close> and \<open>validate_addr_ptr\<close> find of the pointers of the caller.\<close>

definition net_send :: "driver \<Rightarrow> bool \<Rightarrow> (ptr \<times> u64) option \<Rightarrow> (net \<Rightarrow> net) list \<Rightarrow> msghdr \<Rightarrow> net \<Rightarrow> (int \<times> net) option" where
  "net_send d bad fd env msg st =
     on_socket fd (\<lambda>a s. if bad then Some (- EFAULT, st) else case sk_kind s of SockIcmp \<Rightarrow> sock_icmp_send d a msg st | SockUdp \<Rightarrow> sock_udp_send d a msg st
       | SockTcp \<Rightarrow> sock_tcp_send d a env msg st | SockRaw \<Rightarrow> sock_raw_send d a msg st) st"

definition net_connect :: "driver \<Rightarrow> u32 \<Rightarrow> ptr \<Rightarrow> (ptr \<times> u64) option \<Rightarrow> sockaddr_in \<Rightarrow> nat \<Rightarrow> ((net \<Rightarrow> net) \<times> int \<times> bool) list \<Rightarrow> net \<Rightarrow> (int option \<times> net) option" where
  "net_connect d rnd self fd addr addrlen env st =
     (if is_socket fd \<noteq> 0 then Some (Some (is_socket fd), st)
      else do {
        (a, flags) \<leftarrow> fd;
        s \<leftarrow> nt_socks st a;
        if sk_kind s = SockTcp then sock_tcp_connect d rnd self a addr addrlen env st else Some (Some (- EINVAL), st)
      })"

definition net_recv :: "bool \<Rightarrow> ptr \<Rightarrow> (ptr \<times> u64) option \<Rightarrow> net_env \<Rightarrow> ((net \<Rightarrow> net) \<times> int) list \<Rightarrow> msghdr \<Rightarrow> net \<Rightarrow> msghdr call_result" where
  "net_recv bad self fd env waits msg st =
     (if is_socket fd \<noteq> 0 then Some (Some (is_socket fd), msg, st)
      else if bad then Some (Some (- EFAULT), msg, st)
      else do {
        (a, flags) \<leftarrow> fd;
        s \<leftarrow> nt_socks st a;
        case sk_kind s of SockIcmp \<Rightarrow> sock_icmp_recv self a env msg st | SockUdp \<Rightarrow> sock_udp_recv self a env msg st
        | SockTcp \<Rightarrow> sock_tcp_recv self a waits msg st | SockRaw \<Rightarrow> sock_raw_recv self a env msg st
      })"

definition net_shutdown :: "(ptr \<times> u64) option \<Rightarrow> int \<Rightarrow> int" where
  "net_shutdown fd how = - EINVAL"

definition net_getsockname :: "bool \<Rightarrow> (ptr \<times> u64) option \<Rightarrow> bytes \<Rightarrow> nat \<Rightarrow> net \<Rightarrow> (int \<times> bytes \<times> nat) option" where
  "net_getsockname bad fd addr addrlen st =
     (if is_socket fd \<noteq> 0 then Some (is_socket fd, addr, addrlen)
      else if bad then Some (- EFAULT, addr, addrlen)
      else do {
        (a, flags) \<leftarrow> fd;
        s \<leftarrow> nt_socks st a;
        case sk_kind s of SockUdp \<Rightarrow> Some (sock_udp_getsockname s addr addrlen) | SockTcp \<Rightarrow> sock_tcp_getsockname s addr addrlen st
        | _ \<Rightarrow> Some (- EINVAL, addr, addrlen)
      })"

definition net_getpeername :: "bool \<Rightarrow> (ptr \<times> u64) option \<Rightarrow> bytes \<Rightarrow> nat \<Rightarrow> net \<Rightarrow> (int \<times> bytes \<times> nat) option" where
  "net_getpeername bad fd addr addrlen st =
     (if is_socket fd \<noteq> 0 then Some (is_socket fd, addr, addrlen)
      else if bad then Some (- EFAULT, addr, addrlen)
      else do {
        (a, flags) \<leftarrow> fd;
        s \<leftarrow> nt_socks st a;
        if sk_kind s = SockTcp then Some (sock_tcp_getpeername s addr addrlen) else Some (- EINVAL, addr, addrlen)
      })"


section \<open>The loopback device hands frames back\<close>

definition loop_ok :: "ptr \<Rightarrow> net \<Rightarrow> bool" where
  "loop_ok lo st \<longleftrightarrow> nt_if_loop st = lo \<and> lo \<noteq> 0 \<and> nt_nics st lo = Some loop_nic \<and> hm_wf (nt_arp st) \<and> nt_raw_sockets st = []"

lemma cache_add:
  assumes "hm_wf (nt_arp st)"
  shows "\<exists>m. net_arp_cache_add iface addr hw fl st = Some (st\<lparr>nt_arp := m\<rparr>) \<and> hm_wf m \<and>
    hm_lookup m = (hm_lookup (nt_arp st))(ucast addr \<mapsto> Some \<lparr>ac_hwaddr = hw, ac_flags = fl, ac_iface = iface\<rparr>)"
  using hashmap_set_spec [OF assms, of "ucast addr" "Some \<lparr>ac_hwaddr = hw, ac_flags = fl, ac_iface = iface\<rparr>"] by (auto simp: net_arp_cache_add_def)

lemma loop_macs: "length (ni_mac loop_nic) = 6" "length ETHERNET_BROADCAST_MAC = 6"
  by (simp_all add: loop_nic_def ETHERNET_BROADCAST_MAC_def)

lemma handle_ip:
  assumes "loop_ok lo st" and "dest = ni_mac loop_nic \<or> dest = ETHERNET_BROADCAST_MAC"
    and "frame = eth_bytes \<lparr>et_destination = dest, et_source = ni_mac loop_nic, et_type = htons ETHERNET_TYPE_IPV4, et_payload = ipv4_bytes p\<rparr>"
  shows "\<exists>m. hm_wf m \<and> net_eth_handle d frame lo st = net_ipv4_handle d (ipv4_bytes p) lo (st\<lparr>nt_arp := m\<rparr>)"
proof -
  have e: "eth_of frame = Some \<lparr>et_destination = dest, et_source = ni_mac loop_nic, et_type = htons ETHERNET_TYPE_IPV4, et_payload = ipv4_bytes p\<rparr>"
    using assms(2) loop_macs by (auto simp: assms(3) eth_of_bytes)
  have load: "load32 (ipv4_bytes p) 12 = Some (ip_source p)"
    by (simp add: load32_def ipv4_bytes_def bytes16_def bytes32_def)
  obtain m where m: "net_arp_cache_add lo (ip_source p) (ni_mac loop_nic) 0 st = Some (st\<lparr>nt_arp := m\<rparr>)" "hm_wf m"
    using cache_add [of st lo "ip_source p" "ni_mac loop_nic" 0] assms(1) by (auto simp: loop_ok_def)
  have "net_eth_handle d frame lo st = do {
      st \<leftarrow> (if ip_source p \<noteq> 0xFFFFFFFF then net_arp_cache_add lo (ip_source p) (ni_mac loop_nic) 0 st else Some st);
      net_ipv4_handle d (ipv4_bytes p) lo st }"
    using assms(1,2) e load by (auto simp: net_eth_handle_def loop_ok_def ETHERNET_TYPE_ARP_def ETHERNET_TYPE_IPV4_def)
  then show ?thesis using m assms(1) by (cases "ip_source p = 0xFFFFFFFF") (auto simp: loop_ok_def intro: exI [of _ "nt_arp st"])
qed

lemma handle_arp:
  assumes "loop_ok lo st" and "dest = ni_mac loop_nic \<or> dest = ETHERNET_BROADCAST_MAC"
    and "frame = eth_bytes \<lparr>et_destination = dest, et_source = ni_mac loop_nic, et_type = htons ETHERNET_TYPE_ARP, et_payload = arp_bytes r\<rparr>"
    and "length (ar_sha r) = 6" "length (ar_tha r) = 6"
  shows "net_eth_handle d frame lo st = net_arp_handle d (arp_bytes r) lo st"
proof -
  have "eth_of frame = Some \<lparr>et_destination = dest, et_source = ni_mac loop_nic, et_type = htons ETHERNET_TYPE_ARP, et_payload = arp_bytes r\<rparr>"
    using assms(2) loop_macs by (auto simp: assms(3) eth_of_bytes)
  then show ?thesis using assms(1,2) by (auto simp: net_eth_handle_def loop_ok_def)
qed

lemma loop_write:
  assumes "loop_ok lo st" and "length data = n" and "length dest = 6"
  shows "net_eth_send (loop_device (Suc k) d) lo n data ty dest st =
    net_eth_handle (loop_device k d) (eth_bytes \<lparr>et_destination = dest, et_source = ni_mac loop_nic, et_type = htons ty, et_payload = data\<rparr>) lo
      (st\<lparr>nt_loop_counts := count_frame (of_nat (14 + n)) (nt_loop_counts st)\<rparr>)"
  using assms by (simp add: net_eth_send_def loop_ok_def loop_device_def eth_bytes_def bytes16_def loop_nic_def)

lemma loop_addr [simp]: "ni_ipv4_addr loop_nic = 0x0100007F" "ni_ipv4_subnet loop_nic = 0xFF"
  by (simp_all add: loop_nic_def)

lemma arp_counts_swap: "(st :: net)\<lparr>nt_arp := m, nt_loop_counts := c\<rparr> = st\<lparr>nt_loop_counts := c, nt_arp := m\<rparr>"
  by (cases st) simp

lemma loop_counts_ok [simp]: "loop_ok lo (st\<lparr>nt_loop_counts := c\<rparr>) \<longleftrightarrow> loop_ok lo st"
  by (simp add: loop_ok_def)

lemma loop_arp:
  assumes "loop_ok lo st" and "dest = ni_mac loop_nic \<or> dest = ETHERNET_BROADCAST_MAC" and "length (ar_sha r) = 6" "length (ar_tha r) = 6"
  shows "net_eth_send (loop_device (Suc k) d) lo 28 (arp_bytes r) ETHERNET_TYPE_ARP dest st =
    net_arp_handle (loop_device k d) (arp_bytes r) lo (st\<lparr>nt_loop_counts := count_frame 42 (nt_loop_counts st)\<rparr>)"
proof -
  have "length (arp_bytes r) = 28" "length dest = 6" using assms loop_macs by (auto simp: arp_bytes_def bytes16_def bytes32_def)
  from loop_write [OF assms(1) this] have "net_eth_send (loop_device (Suc k) d) lo 28 (arp_bytes r) ETHERNET_TYPE_ARP dest st =
    net_eth_handle (loop_device k d) (eth_bytes \<lparr>et_destination = dest, et_source = ni_mac loop_nic, et_type = htons ETHERNET_TYPE_ARP, et_payload = arp_bytes r\<rparr>) lo
      (st\<lparr>nt_loop_counts := count_frame 42 (nt_loop_counts st)\<rparr>)" by simp
  also have "\<dots> = net_arp_handle (loop_device k d) (arp_bytes r) lo (st\<lparr>nt_loop_counts := count_frame 42 (nt_loop_counts st)\<rparr>)"
    using assms by (intro handle_arp [OF _ assms(2) refl]) simp_all
  finally show ?thesis .
qed

lemma arp_reply_taken:
  assumes "loop_ok lo st" and "ar_htype r = htons 1" "ar_ptype r = htons ETHERNET_TYPE_IPV4" "ar_oper r = htons 2" "ar_spa r \<noteq> 0"
    "length (ar_sha r) = 6" "length (ar_tha r) = 6"
  shows "\<exists>m. net_arp_handle d (arp_bytes r) lo st = Some (st\<lparr>nt_arp := m\<rparr>) \<and> hm_wf m \<and>
    hm_lookup m = (hm_lookup (nt_arp st))(ucast (ar_spa r) \<mapsto> Some \<lparr>ac_hwaddr = ar_sha r, ac_flags = 0, ac_iface = lo\<rparr>)"
  using cache_add [of st lo "ar_spa r" "ar_sha r" 0] assms by (auto simp: net_arp_handle_def arp_of_bytes loop_ok_def)

lemma loop_ask:
  assumes ok: "loop_ok lo st"
  shows "\<exists>m c. net_arp_ask (loop_device (Suc (Suc k)) d) 0x0100007F lo st = Some (st\<lparr>nt_loop_counts := c, nt_arp := m\<rparr>) \<and> hm_wf m \<and>
    hm_lookup m 0x0100007F = Some (Some \<lparr>ac_hwaddr = ni_mac loop_nic, ac_flags = 0, ac_iface = lo\<rparr>)"
proof -
  let ?a = "0x0100007F :: u32"
  let ?q = "\<lparr>ar_htype = htons 1, ar_ptype = htons ETHERNET_TYPE_IPV4, ar_hlen = 6, ar_plen = 4, ar_oper = htons 1,
       ar_sha = ni_mac loop_nic, ar_spa = ?a, ar_tha = replicate 6 0, ar_tpa = ?a\<rparr>"
  let ?r = "\<lparr>ar_htype = htons 1, ar_ptype = htons ETHERNET_TYPE_IPV4, ar_hlen = 6, ar_plen = 4, ar_oper = htons 2,
       ar_sha = ni_mac loop_nic, ar_spa = ?a, ar_tha = ni_mac loop_nic, ar_tpa = ?a\<rparr>"
  let ?st = "\<lambda>m c. st\<lparr>nt_loop_counts := c, nt_arp := m\<rparr>"
  have lo: "nt_nics st lo = Some loop_nic" "hm_wf (nt_arp st)" using ok by (simp_all add: loop_ok_def)
  define c where "c = count_frame 42 (nt_loop_counts st)"
  obtain m1 where m1: "net_arp_cache_add lo ?a (ni_mac loop_nic) 0 (st\<lparr>nt_loop_counts := c\<rparr>) = Some (?st m1 c)" "hm_wf m1"
    using cache_add [of "st\<lparr>nt_loop_counts := c\<rparr>" lo ?a "ni_mac loop_nic" 0] lo by auto
  have ok1: "loop_ok lo (?st m1 c)" using ok m1(2) by (simp add: loop_ok_def)
  have "net_arp_ask (loop_device (Suc (Suc k)) d) ?a lo st = net_arp_handle (loop_device (Suc k) d) (arp_bytes ?q) lo (st\<lparr>nt_loop_counts := c\<rparr>)"
    using loop_arp [OF ok, of ETHERNET_BROADCAST_MAC ?q "Suc k" d] lo by (simp add: net_arp_ask_def loop_macs c_def)
  also have "\<dots> = net_eth_send (loop_device (Suc k) d) lo 28 (arp_bytes ?r) ETHERNET_TYPE_ARP (ni_mac loop_nic) (?st m1 c)"
    using lo m1(1) by (simp add: net_arp_handle_def arp_of_bytes loop_macs)
  also have "\<dots> = net_arp_handle (loop_device k d) (arp_bytes ?r) lo (?st m1 (count_frame 42 c))"
    using loop_arp [OF ok1, of "ni_mac loop_nic" ?r k d] by (simp add: loop_macs arp_counts_swap)
  finally show ?thesis
    using arp_reply_taken [of lo "?st m1 (count_frame 42 c)" ?r "loop_device k d"] ok1 by (auto simp: loop_macs loop_ok_def)
qed

text \<open>A packet to the own address comes back to the protocols of the sender, whether or not its address had been resolved before.\<close>

lemma loop_send:
  assumes ok: "loop_ok lo st" and r: "ip_destination r = 0x0100007F" "unat (ntohs (ip_length r)) = 20 + length (ip_payload r)"
    and known: "\<And>x. hm_lookup (nt_arp st) 0x0100007F = Some (Some x) \<Longrightarrow> ac_hwaddr x = ni_mac loop_nic"
  shows "\<exists>m c. hm_wf m \<and> net_ipv4_send (loop_device (Suc (Suc k)) recording) r lo st =
    net_ipv4_handle (loop_device (Suc k) recording) (ipv4_bytes r) lo (st\<lparr>nt_loop_counts := c, nt_arp := m\<rparr>)"
proof -
  let ?d = "loop_device (Suc (Suc k)) recording"
  have lo: "nt_nics st lo = Some loop_nic" "hm_wf (nt_arp st)" using ok by (simp_all add: loop_ok_def)
  have send: "\<exists>m c. hm_wf m \<and> net_eth_send ?d lo (20 + length (ip_payload r)) (ipv4_bytes r) ETHERNET_TYPE_IPV4 dest st' =
      net_ipv4_handle (loop_device (Suc k) recording) (ipv4_bytes r) lo (st'\<lparr>nt_loop_counts := c, nt_arp := m\<rparr>)"
    if "loop_ok lo st'" "dest = ni_mac loop_nic" for dest st'
    using loop_write [OF that(1), of "ipv4_bytes r" "20 + length (ip_payload r)" dest "Suc k" recording ETHERNET_TYPE_IPV4]
      handle_ip [where lo = lo and st = "st'\<lparr>nt_loop_counts := count_frame (of_nat (14 + (20 + length (ip_payload r)))) (nt_loop_counts st')\<rparr>" and dest = dest and p = r and d = "loop_device (Suc k) recording", OF _ _ refl]
      that loop_macs by auto
  show ?thesis
  proof (cases "net_arp_cache_get 0x0100007F st = Some None")
    case False
    then obtain x where x: "hm_lookup (nt_arp st) 0x0100007F = Some (Some x)"
      using lo by (auto simp: net_arp_cache_get_def hashmap_get_spec split: option.splits)
    then have "net_arp_cache_get 0x0100007F st = Some (Some x)" using lo by (simp add: net_arp_cache_get_def hashmap_get_spec)
    then show ?thesis using send [OF ok, of "ac_hwaddr x"] known [OF x] lo r by (simp add: net_ipv4_send_def)
  next
    case True
    obtain m c where m: "net_arp_ask ?d 0x0100007F lo st = Some (st\<lparr>nt_loop_counts := c, nt_arp := m\<rparr>)" "hm_wf m"
        "hm_lookup m 0x0100007F = Some (Some \<lparr>ac_hwaddr = ni_mac loop_nic, ac_flags = 0, ac_iface = lo\<rparr>)"
      using loop_ask [OF ok, of k recording] by blast
    have ok': "loop_ok lo (st\<lparr>nt_loop_counts := c, nt_arp := m\<rparr>)" using ok m(2) by (simp add: loop_ok_def)
    have "net_arp_cache_get 0x0100007F (st\<lparr>nt_loop_counts := c, nt_arp := m\<rparr>) = Some (Some \<lparr>ac_hwaddr = ni_mac loop_nic, ac_flags = 0, ac_iface = lo\<rparr>)"
      using m by (simp add: net_arp_cache_get_def hashmap_get_spec)
    then have "net_ipv4_send ?d r lo st = net_eth_send ?d lo (20 + length (ip_payload r)) (ipv4_bytes r) ETHERNET_TYPE_IPV4 (ni_mac loop_nic) (st\<lparr>nt_loop_counts := c, nt_arp := m\<rparr>)"
      using True m(1) lo r by (simp add: net_ipv4_send_def loop_device_def recording_def)
    moreover have "st\<lparr>nt_loop_counts := c, nt_arp := m, nt_loop_counts := c', nt_arp := m'\<rparr> = st\<lparr>nt_loop_counts := c', nt_arp := m'\<rparr>" for c' m' by (cases st) simp
    ultimately show ?thesis using send [OF ok' refl] by metis
  qed
qed


section \<open>Datagrams\<close>

definition udp_vector :: "bytes \<Rightarrow> nat \<Rightarrow> sockaddr_in \<Rightarrow> msghdr" where
  "udp_vector buffer n name = (one_vector buffer n)\<lparr>mh_name := Some name, mh_namelen := 16\<rparr>"

text \<open>A datagram as it is sent.\<close>

definition datagram :: "u16 \<Rightarrow> u16 \<Rightarrow> u32 \<Rightarrow> u32 \<Rightarrow> bytes \<Rightarrow> ipv4_packet" where
  "datagram sport dport source dest data = make_packet (28 + length data) dest source IPV4_PROT_UDP 0 (htons 0x4000)
     (udp_bytes \<lparr>ud_source_port = htons sport, ud_destination_port = htons dport, ud_length = htons (of_nat (8 + length data)), ud_checksum = 0, ud_payload = data\<rparr>)"

lemma htons_zero: "htons 0 = 0"
  by (simp add: htons_eq)

lemma htons_nonzero: "htons v = 0 \<longleftrightarrow> v = 0"
  by (metis htons_htons htons_zero)

lemma ucast_zero: "(ucast (v :: u16) :: u32) = 0 \<longleftrightarrow> v = 0"
  by (simp add: word_unat_eq_iff unsigned_ucast_eq take_bit_nat_eq_self unat_16_lt [THEN less_trans])

lemma ucast_small: "(ucast (v :: u16) :: u32) < 0x80000000"
  using unat_16_lt [of v] by (simp add: word_less_nat_alt unsigned_ucast_eq take_bit_nat_eq_self)

lemma scast_small: "w < 0x80000000 \<Longrightarrow> (scast (w :: u32) :: u64) = ucast w"
proof -
  assume "w < 0x80000000"
  then have "uint w < 2 ^ 31" by (simp add: word_less_alt)
  then have "sint w = uint w" using order_trans [OF _ uint_nonnegative [of w], of "- 2147483648"] by (simp add: sint_uint signed_take_bit_int_eq_self_iff)
  then show ?thesis by (simp only: scast_eq ucast_eq)
qed

lemma icmp_fields:
  "set_csum v (icmp_bytes h) = icmp_bytes (h\<lparr>ic_csum := v\<rparr>)" "(icmp_bytes h)[0 := t] = icmp_bytes (h\<lparr>ic_type := t\<rparr>)" "length (icmp_bytes h) = 6 + length (ic_data h)"
  by (simp_all add: set_csum_def icmp_bytes_def bytes16_def)

lemma load_udp [simp]: "load16 (udp_bytes u) 0 = Some (ud_source_port u)" "load16 (udp_bytes u) 2 = Some (ud_destination_port u)" "drop 8 (udp_bytes u) = ud_payload u"
  by (simp_all add: load16_def udp_bytes_def bytes16_def)

lemma datagram_len: "28 + length data < 65536 \<Longrightarrow> unat (ntohs (ip_length (datagram sport dport source dest data))) = 28 + length data"
  by (simp add: datagram_def unsigned_of_nat take_bit_nat_eq_self del: of_nat_add)

lemma datagram_arrives:
  assumes "hm_wf (nt_udp st)" "hm_lookup (nt_udp st) (ucast dport) = Some (Some b)" "nt_socks st b = Some t" "28 + length data < 65536"
  shows "net_ipv4_handle d (ipv4_bytes (datagram sport dport source dest data)) nic st =
    Some (st\<lparr>nt_socks := (nt_socks st)(b \<mapsto> net_sock_alert (t\<lparr>sk_rx_queue := sk_rx_queue t @ [ipv4_bytes (datagram sport dport source dest data)],
      sk_woken := sk_woken t @ rev (sk_rx_wait t), sk_rx_wait := []\<rparr>))\<rparr>)"
proof -
  let ?p = "datagram sport dport source dest data"
  have len: "unat (ntohs (ip_length ?p)) = length (ipv4_bytes ?p)" using datagram_len [OF assms(4)] by (simp add: datagram_def)
  have "ip_protocol ?p = IPV4_PROT_UDP" "load16 (ip_payload ?p) 2 = Some (htons dport)" by (simp_all add: datagram_def)
  then show ?thesis
    using assms(1-3) len by (simp add: net_ipv4_handle_def ipv4_of_bytes hashmap_get_spec hashmap_has_spec net_sock_add_def set_sock_def IPV4_PROT_UDP_def)
qed

lemma datagram_received:
  assumes t: "nt_socks st b = Some t" "sk_priv0 t \<noteq> 0" "sk_rx_queue t = ipv4_bytes (datagram sport dport source dest data) # q"
    and n: "28 + length data < 65536" "length data \<le> length buffer"
  shows "sock_udp_recv self b env (udp_vector buffer n name) st = Some (Some (int (length data)),
    sock_ipv4_control_common t 64 ((udp_vector (data @ drop (length data) buffer) n \<lparr>si_family = 1, si_port = htons sport, si_addr = source\<rparr>)),
    st\<lparr>nt_socks := (nt_socks st)(b \<mapsto> t\<lparr>sk_rx_queue := q\<rparr>)\<rparr>)"
proof -
  let ?p = "datagram sport dport source dest data"
  have "ucast (ntohs (ip_length ?p)) = (of_nat (28 + length data) :: u64)" by (metis datagram_len [OF n(1)] of_nat_unat)
  then have len: "ucast (ntohs (ip_length ?p)) - 28 = (of_nat (length data) :: u64)" by simp
  have unat: "unat (of_nat (length data) :: u64) = length data" using n(1) by (simp add: unsigned_of_nat take_bit_nat_eq_self)
  have sint: "sint (of_nat (length data) :: u64) = int (length data)"
    using n(1) by (simp add: signed_of_nat signed_take_bit_int_eq_self)
  have p: "ip_payload ?p = udp_bytes \<lparr>ud_source_port = htons sport, ud_destination_port = htons dport, ud_length = htons (of_nat (8 + length data)), ud_checksum = 0, ud_payload = data\<rparr>"
      "ip_ttl ?p = 64" "ip_source ?p = source" by (simp_all add: datagram_def make_packet_def Let_def)
  have get: "net_sock_get self b env st = Some (Returned (ipv4_bytes ?p), st\<lparr>nt_socks := (nt_socks st)(b \<mapsto> t\<lparr>sk_rx_queue := q\<rparr>)\<rparr>)"
    using t(1,3) by (subst net_sock_get.simps) simp
  show ?thesis
    using t n by (simp add: sock_udp_recv_def get ipv4_of_bytes len unat p sint udp_vector_def one_vector_def bytes_at_def copy_out_def set_name_def Let_def del: net_sock_get.simps)
qed


section \<open>Properties\<close>

text \<open>Property C12: a datagram that one program sends to a port of the own machine is what the program that has bound the port receives, with the
  address and the port of the sender; both calls return its length.  The address of the loopback device need not have been resolved before.\<close>

theorem udp_loopback:
  assumes ok: "loop_ok lo st" and known: "\<And>x. hm_lookup (nt_arp st) 0x0100007F = Some (Some x) \<Longrightarrow> ac_hwaddr x = ni_mac loop_nic"
    and a: "nt_socks st a = Some s" "sk_priv0 s \<noteq> 0" and b: "nt_socks st b = Some t" "sk_priv0 t = port" "port \<noteq> 0" "sk_rx_queue t = []"
    and udp: "hm_wf (nt_udp st)" "hm_lookup (nt_udp st) (ucast port) = Some (Some b)" and n: "28 + length data < 65536" "length data \<le> length buffer"
  shows "\<exists>st' st'' msg. sock_udp_send (loop_device (Suc (Suc k)) recording) a
      (udp_vector data (length data) \<lparr>si_family = 1, si_port = htons port, si_addr = 0x0100007F\<rparr>) st = Some (int (length data), st') \<and>
    sock_udp_recv self b env (udp_vector buffer (length buffer) name) st' = Some (Some (int (length data)), msg, st'') \<and>
    mh_iov_base msg = data @ drop (length data) buffer \<and> mh_name msg = Some \<lparr>si_family = 1, si_port = htons (sk_priv0 s), si_addr = 0x0100007F\<rparr> \<and>
    map_option sk_rx_queue (nt_socks st'' b) = Some []"
proof -
  let ?p = "datagram (sk_priv0 s) port 0x0100007F 0x0100007F data"
  have nz: "htons port \<noteq> 0" using b(3) by (simp add: htons_nonzero)
  have len: "unat (ntohs (ip_length ?p)) = 20 + length (ip_payload ?p)" using datagram_len [OF n(1)] by (simp add: datagram_def)
  obtain m c where m: "net_ipv4_send (loop_device (Suc (Suc k)) recording) ?p lo st =
      net_ipv4_handle (loop_device (Suc k) recording) (ipv4_bytes ?p) lo (st\<lparr>nt_loop_counts := c, nt_arp := m\<rparr>)"
    using loop_send [OF ok _ len known, of k] by (auto simp: datagram_def)
  let ?t = "net_sock_alert (t\<lparr>sk_rx_queue := [ipv4_bytes ?p], sk_woken := sk_woken t @ rev (sk_rx_wait t), sk_rx_wait := []\<rparr>)"
  define st' where "st' = st\<lparr>nt_loop_counts := c, nt_arp := m, nt_socks := (nt_socks st)(b \<mapsto> ?t)\<rparr>"
  have "net_ipv4_send (loop_device (Suc (Suc k)) recording) ?p lo st = Some st'"
    using m datagram_arrives [of "st\<lparr>nt_loop_counts := c, nt_arp := m\<rparr>" port b t data "loop_device (Suc k) recording" "sk_priv0 s" "0x0100007F" "0x0100007F" lo] udp b n
    by (simp add: st'_def)
  then have "sock_udp_send (loop_device (Suc (Suc k)) recording) a
      (udp_vector data (length data) \<lparr>si_family = 1, si_port = htons port, si_addr = 0x0100007F\<rparr>) st = Some (int (length data), st')"
    using a ok nz by (simp add: sock_udp_send_def udp_vector_def one_vector_def net_if_route_def loop_ok_def bytes_at_def datagram_def)
  moreover have "sock_udp_recv self b env (udp_vector buffer (length buffer) name) st' = Some (Some (int (length data)),
      sock_ipv4_control_common ?t 64 (udp_vector (data @ drop (length data) buffer) (length buffer) \<lparr>si_family = 1, si_port = htons (sk_priv0 s), si_addr = 0x0100007F\<rparr>),
      st'\<lparr>nt_socks := (nt_socks st')(b \<mapsto> ?t\<lparr>sk_rx_queue := []\<rparr>)\<rparr>)"
    using b n by (intro datagram_received) (simp_all add: st'_def net_sock_alert_def)
  ultimately show ?thesis by (auto simp: sock_ipv4_control_common_def udp_vector_def one_vector_def)
qed

definition example_udp :: "u16 \<Rightarrow> sock" where
  "example_udp port = (net_sock_create SockUdp)\<lparr>sk_priv0 := port\<rparr>"

definition example_lo :: net where
  "example_lo = fresh_net\<lparr>nt_if_loop := 0x10, nt_nics := [0x10 \<mapsto> loop_nic], nt_socks := [0x30 \<mapsto> example_udp 12345, 0x40 \<mapsto> example_udp 53, 0x50 \<mapsto> example_udp 0],
     nt_udp := int_map\<lparr>hm_entries := (replicate 10 [])[3 := [(53, Some 0x40)], 5 := [(12345, Some 0x30)]]\<rparr>\<rparr>"

lemma example_lo_wf:
  "hm_wf (nt_udp example_lo)" "hm_lookup (nt_udp example_lo) 53 = Some (Some 0x40)" "hm_lookup (nt_udp example_lo) 12345 = Some (Some 0x30)"
  "hm_lookup (nt_udp example_lo) 80 = None" "loop_ok 0x10 example_lo"
  by (auto simp: hm_wf_def example_lo_def int_map_def hashmap_int_comp_eq hm_slot_def hashmap_int_hash_def nth_list_update hm_lookup_def loop_ok_def fresh_net_def)

definition example_query :: bytes where
  "example_query = map of_char ''query''"

theorem udp_loopback_witness:
  "\<exists>st' st'' msg. sock_udp_send (loop_device (Suc (Suc 0)) recording) 0x30
      (udp_vector example_query 5 \<lparr>si_family = 1, si_port = htons 53, si_addr = 0x0100007F\<rparr>) example_lo = Some (5, st') \<and>
    sock_udp_recv 7 0x40 [] (udp_vector (replicate 512 0) 512 \<lparr>si_family = 0, si_port = 0, si_addr = 0\<rparr>) st' = Some (Some 5, msg, st'') \<and>
    take 5 (mh_iov_base msg) = example_query \<and> mh_name msg = Some \<lparr>si_family = 1, si_port = htons 12345, si_addr = 0x0100007F\<rparr>"
proof -
  have s: "nt_socks example_lo 0x30 = Some (example_udp 12345)" "nt_socks example_lo 0x40 = Some (example_udp 53)" "sk_priv0 (example_udp 12345) \<noteq> 0"
      "sk_priv0 (example_udp 53) = 53" "(53 :: u16) \<noteq> 0" "sk_rx_queue (example_udp 53) = []"
      "hm_lookup (nt_udp example_lo) (ucast (53 :: u16)) = Some (Some 0x40)"
    using example_lo_wf by (simp_all add: example_lo_def example_udp_def net_sock_create_def)
  have arp: "ac_hwaddr x = ni_mac loop_nic" if "hm_lookup (nt_arp example_lo) 0x0100007F = Some (Some x)" for x
    using that by (simp add: example_lo_def fresh_net_def)
  have port: "sk_priv0 (example_udp 12345) = 12345" by (simp add: example_udp_def)
  have q: "length example_query = 5" "28 + length example_query < 65536" "length example_query \<le> length (replicate 512 (0 :: u8))" by (simp_all add: example_query_def)
  obtain st' st'' msg where "sock_udp_send (loop_device (Suc (Suc 0)) recording) 0x30
      (udp_vector example_query 5 \<lparr>si_family = 1, si_port = htons 53, si_addr = 0x0100007F\<rparr>) example_lo = Some (5, st')"
    "sock_udp_recv 7 0x40 [] (udp_vector (replicate 512 0) 512 \<lparr>si_family = 0, si_port = 0, si_addr = 0\<rparr>) st' = Some (Some 5, msg, st'')"
    "mh_iov_base msg = example_query @ drop 5 (replicate 512 0)" "mh_name msg = Some \<lparr>si_family = 1, si_port = htons 12345, si_addr = 0x0100007F\<rparr>"
    using udp_loopback [OF example_lo_wf(5) arp s(1,3,2,4-6) example_lo_wf(1) s(7) q(2,3), of 0 7 "[]" "\<lparr>si_family = 0, si_port = 0, si_addr = 0\<rparr>"]
    unfolding q(1) length_replicate of_nat_numeral port by blast
  moreover have "take 5 (example_query @ ys) = example_query" for ys using q(1) by simp
  ultimately show ?thesis by metis
qed

text \<open>Fact: binding gives a port to at most one socket.  The call succeeds only for a port that no socket has, and then the packets for this port,
  and for no other, go to the socket; the other outcomes leave the table as it was.\<close>

theorem udp_bind_exclusive:
  assumes "hm_wf (nt_udp st)" and "nt_socks st a = Some s" and "nt_next_port st < 0x80000000"
  shows "\<exists>r st' port. sock_udp_bind user a addr st = Some (r, st') \<and> hm_wf (nt_udp st') \<and>
    port = (if si_port addr = 0 then nt_next_port st else ucast (ntohs (si_port addr))) \<and>
    (if sk_priv0 s \<noteq> 0 then r = - EINVAL \<and> st' = st
     else if si_port addr \<noteq> 0 \<and> port < 1024 \<and> user \<noteq> 0 then r = - EACCES \<and> st' = st
     else if hm_lookup (nt_udp st) (ucast port) \<noteq> None then r = - EADDRINUSE \<and> nt_udp st' = nt_udp st \<and> nt_socks st' = nt_socks st
     else r = 0 \<and> hm_lookup (nt_udp st') = (hm_lookup (nt_udp st))(ucast port \<mapsto> Some a) \<and> nt_socks st' = (nt_socks st)(a \<mapsto> s\<lparr>sk_priv0 := ucast port\<rparr>))"
proof -
  let ?p = "ucast (ntohs (si_port addr)) :: u32"
  let ?port = "if si_port addr = 0 then nt_next_port st else ?p"
  have sx: "(scast (nt_next_port st) :: u64) = ucast (nt_next_port st)" "(scast ?p :: u64) = ucast ?p"
    using assms(3) ucast_small [of "ntohs (si_port addr)"] by (auto intro: scast_small)
  have zero: "?p = 0 \<longleftrightarrow> si_port addr = 0" by (simp add: ucast_zero htons_nonzero)
  obtain m old where m: "hashmap_set (nt_udp st) (ucast ?port) (Some a) = Some (old, m)" "hm_wf m" "hm_lookup m = (hm_lookup (nt_udp st))(ucast ?port \<mapsto> Some a)"
    using hashmap_set_spec [OF assms(1)] by blast
  show ?thesis
    using assms(1,2) m sx zero hashmap_has_spec [OF assms(1)]
    by (auto simp: sock_udp_bind_def Let_def set_sock_def split: if_splits)
qed

theorem udp_bind_exclusive_witness:
  "(\<exists>st'. sock_udp_bind 1000 0x50 \<lparr>si_family = 1, si_port = htons 53, si_addr = 0\<rparr> example_lo = Some (- EACCES, st') \<and> st' = example_lo) \<and>
   (\<exists>st'. sock_udp_bind 0 0x50 \<lparr>si_family = 1, si_port = htons 53, si_addr = 0\<rparr> example_lo = Some (- EADDRINUSE, st') \<and> nt_udp st' = nt_udp example_lo) \<and>
   (\<exists>st'. sock_udp_bind 0 0x50 \<lparr>si_family = 1, si_port = htons 80, si_addr = 0\<rparr> example_lo = Some (0, st') \<and> hm_lookup (nt_udp st') 80 = Some (Some 0x50))"
proof -
  have s: "nt_socks example_lo 0x50 = Some (example_udp 0)" "nt_next_port example_lo < 0x80000000" "sk_priv0 (example_udp 0) = 0"
    by (simp_all add: example_lo_def fresh_net_def example_udp_def net_sock_create_def)
  note bind = udp_bind_exclusive [OF example_lo_wf(1) s(1,2)]
  have 1: "\<exists>st'. sock_udp_bind 1000 0x50 \<lparr>si_family = 1, si_port = htons 53, si_addr = 0\<rparr> example_lo = Some (- EACCES, st') \<and> st' = example_lo"
    using bind [of 1000 "\<lparr>si_family = 1, si_port = htons 53, si_addr = 0\<rparr>"] s(3) by (auto simp: htons_nonzero)
  have 2: "\<exists>st'. sock_udp_bind 0 0x50 \<lparr>si_family = 1, si_port = htons 53, si_addr = 0\<rparr> example_lo = Some (- EADDRINUSE, st') \<and> nt_udp st' = nt_udp example_lo"
    using bind [of 0 "\<lparr>si_family = 1, si_port = htons 53, si_addr = 0\<rparr>"] s(3) example_lo_wf by (auto simp: htons_nonzero)
  have 3: "\<exists>st'. sock_udp_bind 0 0x50 \<lparr>si_family = 1, si_port = htons 80, si_addr = 0\<rparr> example_lo = Some (0, st') \<and> hm_lookup (nt_udp st') 80 = Some (Some 0x50)"
    using bind [of 0 "\<lparr>si_family = 1, si_port = htons 80, si_addr = 0\<rparr>"] s(3) example_lo_wf by (auto simp: htons_nonzero)
  show ?thesis using 1 2 3 by (intro conjI)
qed

text \<open>Fact: a ping is answered with one packet to where it came from, with the same identifier and data, type 0 and a checksum, which the other
  side accepts whenever adding the carry back once is enough.\<close>

theorem ping_answered:
  assumes nic: "nt_nics st nic = Some n" and hop: "net_arp_cache_get (next_hop n (ip_source p)) st = Some (Some e)"
    and p: "ip_protocol p = 1" "ip_payload p = icmp_bytes h" "ic_type h = 8" "ic_code h = 0" "even (length (ic_data h))"
      "unat (ntohs (ip_length p)) = 20 + length (ip_payload p)"
  shows "\<exists>r c. net_ipv4_handle recording (ipv4_bytes p) nic st = Some (st\<lparr>nt_sent := nt_sent st @ [(nic, ip_frame n e r)]\<rparr>) \<and>
    ip_destination r = ip_source p \<and> ip_source r = ni_ipv4_addr n \<and> ip_protocol r = 1 \<and> ip_length r = ip_length p \<and>
    ip_payload r = icmp_bytes (h\<lparr>ic_type := 0, ic_csum := c\<rparr>) \<and>
    (words_total (words16 (icmp_bytes (h\<lparr>ic_type := 0, ic_csum := 0\<rparr>))) < 65536 \<longrightarrow>
     fold csum_step (words16 (ip_payload r)) 0 = 0xFFFF)"
proof -
  let ?g = "h\<lparr>ic_type := 0, ic_csum := 0\<rparr>"
  let ?n = "20 + length (ip_payload p)"
  let ?r = "make_packet ?n (ip_source p) (ni_ipv4_addr n) 1 (ip_ident p) (htons 0x4000) (icmp_bytes ?g)"
  have len: "length (ip_payload p) = 6 + length (ic_data h)" by (simp add: p(2) icmp_bytes_def bytes16_def)
  have small: "?n < 65536" using unat_16_lt [of "ntohs (ip_length p)"] p(6) by simp
  have even: "ntohs (ip_length p) AND 1 = 0"
    using p(5,6) len by (simp add: word_unat_eq_iff and_one_eq unat_mod_distrib)
  have eq: "(of_nat ?n :: u16) = ntohs (ip_length p)" by (metis of_nat_unat p(6) ucast_id)
  have r: "unat (ntohs (ip_length ?r)) = 20 + length (ip_payload ?r)" "ip_length ?r = ip_length p"
    using p(6) eq len by (simp_all add: icmp_bytes_def bytes16_def del: of_nat_add)
  obtain c where c: "icmp_checksum ?r = Some c" "fold csum_step (words16 (icmp_bytes (?g\<lparr>ic_csum := htons c\<rparr>))) 0 = 0xFFFF \<longleftrightarrow>
     words_total (words16 (icmp_bytes ?g)) div 65536 + words_total (words16 (icmp_bytes ?g)) mod 65536 < 65536"
    using icmp_checksum_spec [OF _ _ _ r(1), of ?g] p(5) by auto
  let ?q = "?r\<lparr>ip_payload := icmp_bytes (h\<lparr>ic_type := 0, ic_csum := htons c\<rparr>)\<rparr>"
  have "ping_reply p (ni_ipv4_addr n) = Some ?q"
    using even small len c(1) p(6) by (simp add: ping_reply_def Let_def p(2) icmp_fields del: of_nat_add)
  moreover have "net_ipv4_send recording ?q nic st = Some (st\<lparr>nt_sent := nt_sent st @ [(nic, ip_frame n e ?q)]\<rparr>)"
    using send_known [of st nic n ?q e recording] nic hop r by (simp add: recording_def icmp_bytes_def bytes16_def)
  ultimately have "net_ipv4_handle recording (ipv4_bytes p) nic st = Some (st\<lparr>nt_sent := nt_sent st @ [(nic, ip_frame n e ?q)]\<rparr>)"
    using p nic by (simp add: net_ipv4_handle_def ipv4_of_bytes icmp_handle_def icmp_bytes_def bytes16_def)
  then show ?thesis using c(2) r(2) by (intro exI [of _ ?q] exI [of _ "htons c"]) simp
qed

theorem ping_answered_witness:
  "\<exists>r. net_ipv4_handle recording (ipv4_bytes (ipv4_example\<lparr>ip_protocol := 1, ip_length := htons 32, ip_source := 0x0202000A,
      ip_payload := icmp_bytes \<lparr>ic_type = 8, ic_code = 0, ic_csum = 0, ic_identifier = htons 7, ic_data = [0, 1, 2, 3, 4, 5]\<rparr>\<rparr>)) 0x20 example_sender = 
    Some (example_sender\<lparr>nt_sent := nt_sent example_sender @ [(0x20, ip_frame example_nic example_hop r)]\<rparr>) \<and> ip_destination r = 0x0202000A"
proof -
  let ?h = "\<lparr>ic_type = 8, ic_code = 0, ic_csum = 0, ic_identifier = htons 7, ic_data = [0, 1, 2, 3, 4, 5]\<rparr>"
  let ?p = "ipv4_example\<lparr>ip_protocol := 1, ip_length := htons 32, ip_source := 0x0202000A, ip_payload := icmp_bytes ?h\<rparr>"
  have hop: "net_arp_cache_get (next_hop example_nic (ip_source ?p)) example_sender = Some (Some example_hop)"
    using example_sending(5) by (simp add: example_tcp_def)
  show ?thesis
    using ping_answered [OF example_sending(4) hop, of ?h] by (auto simp: icmp_fields)
qed

text \<open>Fact: a socket that sends without having bound a port takes the next port of the counter even when another socket has bound it: what is
  sent to that port afterwards reaches the newcomer, and the owner gets nothing.\<close>

theorem udp_autobind_steals:
  assumes udp: "hm_wf (nt_udp st)" and a: "nt_socks st a = Some s" and b: "hm_lookup (nt_udp st) (ucast (nt_next_port st)) = Some (Some b)" "a \<noteq> b"
    and port: "nt_next_port st = ucast port" and n: "28 + length data < 65536"
  shows "\<exists>st' st'' s''. udp_get_port a st = Some st' \<and> net_ipv4_handle d (ipv4_bytes (datagram sport port source dest data)) nic st' = Some st'' \<and>
    nt_socks st'' b = nt_socks st b \<and> nt_socks st'' a = Some s'' \<and> sk_rx_queue s'' = sk_rx_queue s @ [ipv4_bytes (datagram sport port source dest data)]"
proof -
  have sx: "(scast (nt_next_port st) :: u64) = ucast (nt_next_port st)" unfolding port by (rule scast_small [OF ucast_small])
  have up: "(ucast (ucast port :: u32) :: u64) = ucast port" "(ucast (ucast port :: u32) :: u16) = port"
    using unat_16_lt [of port] by (simp_all add: word_unat_eq_iff unsigned_ucast_eq unsigned_take_bit_eq take_bit_nat_eq_self)
  obtain m old where m: "hashmap_set (nt_udp st) (ucast (nt_next_port st)) (Some a) = Some (old, m)" "hm_wf m"
      "hm_lookup m = (hm_lookup (nt_udp st))(ucast (nt_next_port st) \<mapsto> Some a)"
    using hashmap_set_spec [OF udp] by blast
  define st' where "st' = st\<lparr>nt_next_port := nt_next_port st + 1, nt_udp := m, nt_socks := (nt_socks st)(a \<mapsto> s\<lparr>sk_priv0 := port\<rparr>)\<rparr>"
  have "udp_get_port a st = Some st'" using a m(1) sx by (simp add: udp_get_port_def set_sock_def st'_def port up)
  moreover have "hm_wf (nt_udp st')" "hm_lookup (nt_udp st') (ucast port) = Some (Some a)" "nt_socks st' a = Some (s\<lparr>sk_priv0 := port\<rparr>)"
    using m up by (simp_all add: st'_def port)
  note datagram_arrives [OF this n, of d sport source dest nic]
  ultimately show ?thesis using b(2) by (auto simp: st'_def net_sock_alert_def)
qed

theorem udp_autobind_steals_witness:
  "\<exists>st' st'' s''. udp_get_port 0x50 example_lo = Some st' \<and>
    net_ipv4_handle recording (ipv4_bytes (datagram 53 12345 0x0100007F 0x0100007F example_query)) 0x10 st' = Some st'' \<and>
    nt_socks st'' 0x30 = nt_socks example_lo 0x30 \<and> nt_socks st'' 0x50 = Some s'' \<and>
    sk_rx_queue s'' = [ipv4_bytes (datagram 53 12345 0x0100007F 0x0100007F example_query)]"
proof -
  have s: "nt_socks example_lo 0x50 = Some (example_udp 0)" "nt_next_port example_lo = ucast (12345 :: u16)" "sk_rx_queue (example_udp 0) = []"
    by (simp_all add: example_lo_def fresh_net_def example_udp_def net_sock_create_def)
  have b: "hm_lookup (nt_udp example_lo) (ucast (nt_next_port example_lo)) = Some (Some 0x30)" "(0x50 :: ptr) \<noteq> 0x30" "28 + length example_query < 65536"
    using example_lo_wf(3) s(2) by (simp_all add: example_query_def)
  from udp_autobind_steals [OF example_lo_wf(1) s(1) b(1,2) s(2) b(3), of recording 53 "0x0100007F" "0x0100007F" "0x10"] show ?thesis
    unfolding s(3) append_Nil .
qed

text \<open>Fact: the length of the vector is not looked at: receiving a datagram writes behind the memory of the caller exactly if the datagram
  is longer than it.\<close>

theorem udp_recv_trusts_sender:
  assumes t: "nt_socks st b = Some t" "sk_priv0 t \<noteq> 0" "sk_rx_queue t = ipv4_bytes (datagram sport dport source dest data) # q" and n: "28 + length data < 65536"
  shows "sock_udp_recv self b env (udp_vector buffer (length buffer) name) st = None \<longleftrightarrow> length buffer < length data"
proof (cases "length data \<le> length buffer")
  case False
  have get: "net_sock_get self b env st = Some (Returned (ipv4_bytes (datagram sport dport source dest data)), st\<lparr>nt_socks := (nt_socks st)(b \<mapsto> t\<lparr>sk_rx_queue := q\<rparr>)\<rparr>)"
    using t(1,3) by (subst net_sock_get.simps) simp
  have "ucast (ntohs (ip_length (datagram sport dport source dest data))) = (of_nat (28 + length data) :: u64)" by (metis datagram_len [OF n] of_nat_unat)
  then have len: "ucast (ntohs (ip_length (datagram sport dport source dest data))) - 28 = (of_nat (length data) :: u64)" by simp
  have unat: "unat (of_nat (length data) :: u64) = length data" using n by (simp add: unsigned_of_nat take_bit_nat_eq_self)
  have "ip_payload (datagram sport dport source dest data) = udp_bytes \<lparr>ud_source_port = htons sport, ud_destination_port = htons dport,
      ud_length = htons (of_nat (8 + length data)), ud_checksum = 0, ud_payload = data\<rparr>" by (simp add: datagram_def)
  then show ?thesis
    using False t by (simp add: sock_udp_recv_def get ipv4_of_bytes len unat udp_vector_def one_vector_def bytes_at_def copy_out_def Let_def del: net_sock_get.simps)
qed (use datagram_received [OF t n, of buffer] in auto)

definition example_full :: net where
  "example_full = example_lo\<lparr>nt_socks := [0x40 \<mapsto> (example_udp 53)\<lparr>sk_rx_queue := [ipv4_bytes (datagram 12345 53 0x0100007F 0x0100007F example_query)]\<rparr>]\<rparr>"

theorem udp_recv_trusts_sender_witness:
  "sock_udp_recv 7 0x40 [] (udp_vector (replicate 4 0) 4 \<lparr>si_family = 0, si_port = 0, si_addr = 0\<rparr>) example_full = None"
  using udp_recv_trusts_sender [of example_full "0x40" "(example_udp 53)\<lparr>sk_rx_queue := [ipv4_bytes (datagram 12345 53 0x0100007F 0x0100007F example_query)]\<rparr>"
      12345 53 "0x0100007F" "0x0100007F" example_query "[]" 7 "[]" "replicate 4 0" "\<lparr>si_family = 0, si_port = 0, si_addr = 0\<rparr>"]
  by (simp add: example_full_def example_udp_def example_query_def)

text \<open>Fact: the length in the header of a packet is trusted: a packet for a bound port makes the kernel read behind the end of the frame exactly if its
  header promises more bytes than arrived.\<close>

theorem packet_length_trusted:
  assumes "hm_wf (nt_udp st)" and "ip_protocol p = IPV4_PROT_UDP" and "ip_payload p = udp_bytes u"
    and "hm_lookup (nt_udp st) (ucast (ntohs (ud_destination_port u))) = Some (Some b)" and "nt_socks st b = Some t"
  shows "net_ipv4_handle d (ipv4_bytes p) nic st = None \<longleftrightarrow> length (ipv4_bytes p) < unat (ntohs (ip_length p))"
  using assms by (simp add: net_ipv4_handle_def ipv4_of_bytes hashmap_get_spec hashmap_has_spec net_sock_add_def set_sock_def IPV4_PROT_UDP_def)

definition example_short :: ipv4_packet where
  "example_short = (datagram 53 53 0x0100007F 0x0100007F [1, 2])\<lparr>ip_length := htons 1500\<rparr>"

theorem packet_length_trusted_witness: "net_ipv4_handle recording (ipv4_bytes example_short) 0x10 example_lo = None"
proof -
  have t: "nt_socks example_lo 0x40 = Some (example_udp 53)" by (simp add: example_lo_def)
  show ?thesis
    using packet_length_trusted [OF example_lo_wf(1) _ _ _ t, of example_short "\<lparr>ud_source_port = htons 53, ud_destination_port = htons 53, ud_length = htons 10, ud_checksum = 0, ud_payload = [1, 2]\<rparr>"]
      example_lo_wf(2) by (simp add: example_short_def datagram_def)
qed

end
