(* ===== verification/Heap_Skip.thy ===== *)
theory Heap_Skip
  imports Kernel_Prelude
begin

text \<open>
  The free large blocks of the kernel heap, \<open>kernel/misc/malloc.c\<close>: headers in memory, the random levels and the skip list ordered by the size of
  the blocks.  Memory is a map from the addresses of 64-bit words; reading or writing outside of it, a failed assertion and a loop that does not
  end are faults.
\<close>

section \<open>State\<close>

text \<open>The header inside of \<open>klmalloc_big_bins\<close> is an object of its own, whose list of successors is \<open>kh_big_forward\<close>; \<open>big_head\<close> stands for its
  address, which is not in the heap.  \<open>kh_junk\<close> is what new pages contain.\<close>

record mheap =
  kh_mem :: "ptr \<rightharpoonup> u64"
  kh_bin_head :: "ptr list"
  kh_big_forward :: "ptr list"
  kh_big_level :: nat
  kh_newest_big :: ptr
  kh_x :: u32
  kh_y :: u32
  kh_z :: u32
  kh_w :: u32
  kh_heap_start :: ptr
  kh_junk :: "ptr \<Rightarrow> u64"
  kh_lock :: bool

definition big_head :: ptr where "big_head = 8"
definition SKIP_MAX_LEVEL :: nat where "SKIP_MAX_LEVEL = 6"
definition SKIP_P :: u32 where "SKIP_P = 0x7FFFFFFF"
definition NUM_BINS :: u64 where "NUM_BINS = 10"

definition check :: "bool \<Rightarrow> unit option" where
  "check b = (if b then Some () else None)"

definition ld :: "ptr \<Rightarrow> mheap \<Rightarrow> u64 option" where
  "ld a h = kh_mem h a"

definition st :: "ptr \<Rightarrow> u64 \<Rightarrow> mheap \<Rightarrow> mheap option" where
  "st a v h = (if kh_mem h a = None then None else Some (h\<lparr>kh_mem := (kh_mem h)(a \<mapsto> v)\<rparr>))"

text \<open>The fields of a header; \<open>f_forward\<close> is an entry of the list of successors of a large one.\<close>

definition f_next :: "ptr \<Rightarrow> ptr" where "f_next p = p"
definition f_head :: "ptr \<Rightarrow> ptr" where "f_head p = p + 8"
definition f_size :: "ptr \<Rightarrow> ptr" where "f_size p = p + 16"
definition f_magic :: "ptr \<Rightarrow> ptr" where "f_magic p = p + 24"
definition f_prev :: "ptr \<Rightarrow> ptr" where "f_prev p = p + 32"
definition f_forward :: "nat \<Rightarrow> ptr \<Rightarrow> ptr" where "f_forward i p = p + (40 + 8 * of_nat i)"

definition fwd :: "nat \<Rightarrow> ptr \<Rightarrow> mheap \<Rightarrow> ptr option" where
  "fwd i p h = (if p = big_head then if i < length (kh_big_forward h) then Some (kh_big_forward h ! i) else None else ld (f_forward i p) h)"

definition set_fwd :: "nat \<Rightarrow> ptr \<Rightarrow> ptr \<Rightarrow> mheap \<Rightarrow> mheap option" where
  "set_fwd i p v h =
     (if p = big_head then if i < length (kh_big_forward h) then Some (h\<lparr>kh_big_forward := (kh_big_forward h)[i := v]\<rparr>) else None
      else st (f_forward i p) v h)"


section \<open>Random levels\<close>

definition klmalloc_skip_rand :: "mheap \<Rightarrow> u32 \<times> mheap" where
  "klmalloc_skip_rand h =
     (let t = kh_x h XOR push_bit 11 (kh_x h);
          w = kh_w h XOR drop_bit 19 (kh_w h) XOR t XOR drop_bit 8 t
      in (w, h\<lparr>kh_x := kh_y h, kh_y := kh_z h, kh_z := kh_w h, kh_w := w\<rparr>))"

function random_level :: "nat \<Rightarrow> mheap \<Rightarrow> nat \<times> mheap" where
  "random_level level h =
     (let (r, h) = klmalloc_skip_rand h
      in if r < SKIP_P \<and> level < SKIP_MAX_LEVEL then random_level (Suc level) h else (level, h))"
  by pat_completeness auto
termination by (relation "measure (\<lambda>(level, h). SKIP_MAX_LEVEL - level)") auto

declare random_level.simps [simp del]

definition klmalloc_random_level :: "mheap \<Rightarrow> nat \<times> mheap" where
  "klmalloc_random_level h = random_level 0 h"


section \<open>The skip list\<close>

text \<open>The assertion on the size of a free block.\<close>

definition check_size :: "ptr \<Rightarrow> mheap \<Rightarrow> unit option" where
  "check_size p h = do { s \<leftarrow> ld (f_size p) h; check ((s + 96) mod 0x1000 = 0) }"

text \<open>The inner loop of every search.\<close>

partial_function (option) skip_along :: "nat \<Rightarrow> u64 \<Rightarrow> ptr \<Rightarrow> mheap \<Rightarrow> ptr option" where
  "skip_along i n node h = do {
     f \<leftarrow> fwd i node h;
     if f = 0 then Some node
     else do {
       s \<leftarrow> ld (f_size f) h;
       if s < n then do { check_size f h; skip_along i n f h } else Some node
     }
   }"

text \<open>The search from the level \<open>i - 1\<close> down; entry \<open>j\<close> of the result is where it left level \<open>j\<close>.\<close>

fun skip_search :: "nat \<Rightarrow> u64 \<Rightarrow> ptr \<Rightarrow> mheap \<Rightarrow> ptr list option" where
  "skip_search 0 n node h = Some []"
| "skip_search (Suc i) n node h = do {
     node \<leftarrow> skip_along i n node h;
     us \<leftarrow> skip_search i n node h;
     Some (us @ [node])
   }"

definition klmalloc_skip_list_findbest :: "u64 \<Rightarrow> mheap \<Rightarrow> ptr option" where
  "klmalloc_skip_list_findbest search_size h = do {
     us \<leftarrow> skip_search (Suc (kh_big_level h)) search_size big_head h;
     node \<leftarrow> fwd 0 (us ! 0) h;
     if node \<noteq> 0 then do { check (node mod 0x1000 = 0); check_size node h; Some node } else Some node
   }"

definition check_head :: "ptr \<Rightarrow> mheap \<Rightarrow> unit option" where
  "check_head v h = do {
     check (v \<noteq> 0);
     hd \<leftarrow> ld (f_head v) h;
     s \<leftarrow> ld (f_size v) h;
     check (hd \<noteq> 0 \<and> hd > v \<and> (if s > NUM_BINS then hd < v + s else hd < v + 0x1000))
   }"

fun skip_link :: "nat \<Rightarrow> ptr list \<Rightarrow> ptr \<Rightarrow> mheap \<Rightarrow> mheap option" where
  "skip_link i [] v h = Some h"
| "skip_link i (u # us) v h = do {
     f \<leftarrow> fwd i u h;
     h \<leftarrow> set_fwd i v f h;
     (if f \<noteq> 0 then check_size f h else Some ());
     h \<leftarrow> set_fwd i u v h;
     skip_link (Suc i) us v h
   }"

definition klmalloc_skip_list_insert :: "ptr \<Rightarrow> mheap \<Rightarrow> mheap option" where
  "klmalloc_skip_list_insert v h = do {
     check_head v h;
     s \<leftarrow> ld (f_size v) h;
     check (v mod 0x1000 = 0 \<and> (s + 96) mod 0x1000 = 0 \<and> s \<noteq> 0);
     us \<leftarrow> skip_search (Suc (kh_big_level h)) s big_head h;
     node \<leftarrow> fwd 0 (us ! 0) h;
     if node \<noteq> v then do {
       let (level, h) = klmalloc_random_level h;
       let (us, h) = (if level > kh_big_level h then (us @ replicate (level - kh_big_level h) big_head, h\<lparr>kh_big_level := level\<rparr>) else (us, h));
       skip_link 0 (take (Suc level) us) v h
     } else Some h
   }"

partial_function (option) skip_seek :: "ptr \<Rightarrow> ptr \<Rightarrow> mheap \<Rightarrow> ptr option" where
  "skip_seek v node h = (if node = v then Some node else do { f \<leftarrow> fwd 0 node h; skip_seek v f h })"

fun skip_unlink :: "nat \<Rightarrow> ptr list \<Rightarrow> ptr \<Rightarrow> mheap \<Rightarrow> mheap option" where
  "skip_unlink i [] v h = Some h"
| "skip_unlink i (u # us) v h = do {
     f \<leftarrow> fwd i u h;
     if f \<noteq> v then Some h
     else do {
       g \<leftarrow> fwd i v h;
       h \<leftarrow> set_fwd i u g h;
       (if g \<noteq> 0 then do { check (g mod 0x1000 = 0); check_size g h } else Some ());
       skip_unlink (Suc i) us v h
     }
   }"

fun lower_level :: "nat \<Rightarrow> ptr list \<Rightarrow> nat" where
  "lower_level 0 fs = 0"
| "lower_level (Suc l) fs = (if fs ! Suc l = 0 then lower_level l fs else Suc l)"

definition klmalloc_skip_list_delete :: "ptr \<Rightarrow> mheap \<Rightarrow> mheap option" where
  "klmalloc_skip_list_delete v h = do {
     check_head v h;
     s \<leftarrow> ld (f_size v) h;
     us \<leftarrow> skip_search (Suc (kh_big_level h)) s big_head h;
     node \<leftarrow> fwd 0 (us ! 0) h;
     node \<leftarrow> skip_seek v node h;
     h \<leftarrow> skip_unlink 0 us v h;
     Some (h\<lparr>kh_big_level := lower_level (kh_big_level h) (kh_big_forward h)\<rparr>)
   }"


section \<open>Addresses\<close>

definition paged :: "ptr \<Rightarrow> bool" where
  "paged p \<longleftrightarrow> p mod 0x1000 = 0"

lemma paged_unat: "paged p \<longleftrightarrow> unat p mod 4096 = 0"
  by (simp add: paged_def word_unat_eq_iff unat_mod_distrib)

lemma paged_add: "paged p \<Longrightarrow> a < 0x1000 \<Longrightarrow> unat (p + a) = unat p + unat a"
proof -
  assume p: "paged p" and a: "a < 0x1000"
  have "unat p < 2 ^ 64" using unsigned_less [of p] by simp
  moreover have "unat a < 4096" using a by (simp add: word_less_nat_alt)
  moreover obtain k where k: "unat p = 4096 * k" using p by (auto simp: paged_unat)
  ultimately have "unat p + unat a < 2 ^ 64" by simp
  then show ?thesis by (simp add: unat_word_ariths)
qed

lemma page_off:
  assumes "paged p" "paged q" "a < 0x1000" "b < 0x1000"
  shows "p + a = q + b \<longleftrightarrow> p = q \<and> a = b"
proof
  assume eq: "p + a = q + b"
  then have u: "unat p + unat a = unat q + unat b" using paged_add assms by metis
  have lt: "unat a < 4096" "unat b < 4096" using assms by (simp_all add: word_less_nat_alt)
  have "(unat p + unat a) mod 4096 = unat a" "(unat q + unat b) mod 4096 = unat b"
    using assms(1,2) lt by (simp_all add: paged_unat mod_add_eq [symmetric, of "unat p"] mod_add_eq [symmetric, of "unat q"] del: mod_add_left_eq mod_add_right_eq mod_add_eq)
  then have "unat a = unat b" using u by simp
  then show "p = q \<and> a = b" using u by (simp add: word_unat_eq_iff)
qed simp

lemma forward_off: "i < 7 \<Longrightarrow> (40 + 8 * of_nat i :: u64) < 0x1000"
  by (simp add: word_less_nat_alt unat_word_ariths unsigned_of_nat take_bit_nat_eq_self)

lemma forward_off_inj: "i < 7 \<Longrightarrow> j < 7 \<Longrightarrow> (40 + 8 * of_nat i :: u64) = 40 + 8 * of_nat j \<longleftrightarrow> i = j"
  by (simp add: word_unat_eq_iff unat_word_ariths unsigned_of_nat take_bit_nat_eq_self)

lemma f_forward_eq: "paged p \<Longrightarrow> paged q \<Longrightarrow> i < 7 \<Longrightarrow> j < 7 \<Longrightarrow> f_forward i p = f_forward j q \<longleftrightarrow> i = j \<and> p = q"
  unfolding f_forward_def by (simp only: page_off forward_off forward_off_inj) blast

lemma f_size_forward: "paged p \<Longrightarrow> paged q \<Longrightarrow> i < 7 \<Longrightarrow> f_size p \<noteq> f_forward i q"
proof -
  assume *: "paged p" "paged q" "i < 7"
  have "(16 :: u64) \<noteq> 40 + 8 * of_nat i"
    using *(3) by (simp add: word_unat_eq_iff unat_word_ariths unsigned_of_nat take_bit_nat_eq_self)
  then show ?thesis using * by (simp add: f_size_def f_forward_def page_off forward_off)
qed


section \<open>The list a skip list stands for\<close>

definition block_size :: "mheap \<Rightarrow> ptr \<Rightarrow> u64" where
  "block_size h p = (case ld (f_size p) h of Some s \<Rightarrow> s | None \<Rightarrow> 0)"

fun skip_chain :: "nat \<Rightarrow> mheap \<Rightarrow> ptr \<Rightarrow> ptr list \<Rightarrow> bool" where
  "skip_chain i h u [] \<longleftrightarrow> fwd i u h = Some 0"
| "skip_chain i h u (x # xs) \<longleftrightarrow> fwd i u h = Some x \<and> x \<noteq> 0 \<and> skip_chain i h x xs"

definition free_big :: "mheap \<Rightarrow> ptr \<Rightarrow> bool" where
  "free_big h x \<longleftrightarrow> x \<noteq> 0 \<and> x \<noteq> big_head \<and> paged x \<and> (\<exists>s. ld (f_size x) h = Some s \<and> (s + 96) mod 0x1000 = 0) \<and> (\<forall>i < 7. ld (f_forward i x) h \<noteq> None)"

text \<open>\<open>xs\<close> are the blocks in order and \<open>lv\<close> the level of each.\<close>

definition level_list :: "(ptr \<Rightarrow> nat) \<Rightarrow> nat \<Rightarrow> ptr list \<Rightarrow> ptr list" where
  "level_list lv i xs = filter (\<lambda>x. i \<le> lv x) xs"

definition skip_ok :: "mheap \<Rightarrow> ptr list \<Rightarrow> (ptr \<Rightarrow> nat) \<Rightarrow> bool" where
  "skip_ok h xs lv \<longleftrightarrow> length (kh_big_forward h) = 7 \<and> kh_big_level h \<le> 6 \<and> distinct xs \<and> sorted (map (block_size h) xs) \<and>
     (\<forall>x \<in> set xs. lv x \<le> kh_big_level h \<and> free_big h x) \<and> (\<forall>i < 7. skip_chain i h big_head (level_list lv i xs))"

lemma chain_drop: "skip_chain i h u (as @ x # bs) \<Longrightarrow> skip_chain i h x bs"
  by (induction as arbitrary: u) auto

lemma chain_next: "skip_chain i h u (as @ bs) \<Longrightarrow> fwd i (last (u # as)) h = Some (case bs of [] \<Rightarrow> 0 | b # _ \<Rightarrow> b)"
  by (induction as arbitrary: u) (auto split: list.splits)

lemma check_size_free: "free_big h x \<Longrightarrow> check_size x h = Some ()"
  unfolding free_big_def by (elim conjE exE) (simp add: check_size_def check_def)

lemma check_page_free: "free_big h x \<Longrightarrow> check (x mod 0x1000 = 0) = Some ()"
  unfolding free_big_def paged_def by (elim conjE) (simp add: check_def)

lemma skip_along_chain:
  assumes "skip_chain i h u xs" "\<forall>x \<in> set xs. free_big h x"
  shows "skip_along i n u h = Some (last (u # takeWhile (\<lambda>x. block_size h x < n) xs))"
  using assms
proof (induction xs arbitrary: u)
  case (Cons x xs)
  obtain s where "ld (f_size x) h = Some s" "(s + 96) mod 0x1000 = 0" using Cons.prems(2) unfolding free_big_def by (meson list.set_intros(1))
  then show ?case using Cons by (subst skip_along.simps) (auto simp: block_size_def check_size_def check_def)
qed (subst skip_along.simps, simp)


section \<open>Searching\<close>

lemma takeWhile_filter_sorted:
  "sorted (map f xs) \<Longrightarrow> takeWhile (\<lambda>x. f x < n) (filter P xs) = filter P (takeWhile (\<lambda>x. f x < n) xs)" for n :: "'a :: linorder"
proof (induction xs)
  case (Cons x xs)
  show ?case
  proof (cases "f x < n")
    case False
    then have "\<forall>y \<in> set xs. \<not> f y < n" using Cons.prems by fastforce
    then have "takeWhile (\<lambda>x. f x < n) (filter P xs) = []" by (cases "filter P xs") (auto dest: filter_eq_ConsD)
    with False show ?thesis by simp
  qed (use Cons in simp)
qed simp

lemma dropWhile_filter_sorted:
  "sorted (map f xs) \<Longrightarrow> dropWhile (\<lambda>x. f x < n) (filter P xs) = filter P (dropWhile (\<lambda>x. f x < n) xs)" for n :: "'a :: linorder"
proof -
  assume s: "sorted (map f xs)"
  let ?p = "\<lambda>x. f x < n"
  have "filter P (takeWhile ?p xs) @ filter P (dropWhile ?p xs) = filter P xs" by (simp flip: filter_append)
  moreover have "filter P (takeWhile ?p xs) @ dropWhile ?p (filter P xs) = filter P xs"
    using takeWhile_dropWhile_id [of ?p "filter P xs"] by (simp add: takeWhile_filter_sorted [OF s])
  ultimately have "filter P (takeWhile ?p xs) @ dropWhile ?p (filter P xs) = filter P (takeWhile ?p xs) @ filter P (dropWhile ?p xs)" by simp
  then show ?thesis by simp
qed

text \<open>The blocks smaller than \<open>n\<close>, and the last of them on a level.\<close>

definition below :: "mheap \<Rightarrow> u64 \<Rightarrow> ptr list \<Rightarrow> ptr list" where
  "below h n xs = takeWhile (\<lambda>x. block_size h x < n) xs"

definition beyond :: "mheap \<Rightarrow> u64 \<Rightarrow> ptr list \<Rightarrow> ptr list" where
  "beyond h n xs = dropWhile (\<lambda>x. block_size h x < n) xs"

definition before :: "mheap \<Rightarrow> u64 \<Rightarrow> ptr list \<Rightarrow> (ptr \<Rightarrow> nat) \<Rightarrow> nat \<Rightarrow> ptr" where
  "before h n xs lv i = last (big_head # level_list lv i (below h n xs))"

lemma level_split: "skip_ok h xs lv \<Longrightarrow> level_list lv i xs = level_list lv i (below h n xs) @ level_list lv i (beyond h n xs)"
  by (simp add: level_list_def below_def beyond_def flip: filter_append)

lemma skip_step:
  assumes ok: "skip_ok h xs lv" and i: "i < 7"
  shows "skip_along i n (before h n xs lv (Suc i)) h = Some (before h n xs lv i)"
proof -
  let ?p = "\<lambda>x. block_size h x < n"
  let ?l = "level_list lv i xs"
  have s: "sorted (map (block_size h) xs)" and d: "distinct ?l" and f: "\<forall>x \<in> set ?l. free_big h x" and c: "skip_chain i h big_head ?l"
    using ok i by (auto simp: skip_ok_def level_list_def)
  have tw: "takeWhile ?p ?l = level_list lv i (below h n xs)" using takeWhile_filter_sorted [OF s] by (simp add: level_list_def below_def)
  show ?thesis
  proof (cases "level_list lv (Suc i) (below h n xs) = []")
    case True
    then show ?thesis using skip_along_chain [OF c f] by (simp add: before_def tw)
  next
    case False
    let ?u = "last (level_list lv (Suc i) (below h n xs))"
    have "?u \<in> set (level_list lv i (below h n xs))" using last_in_set [OF False] by (auto simp: level_list_def)
    then have "?u \<in> set (takeWhile ?p ?l)" by (simp only: tw)
    then obtain as bs where ab: "takeWhile ?p ?l = as @ ?u # bs" by (meson split_list)
    let ?r = "bs @ dropWhile ?p ?l"
    have l: "?l = as @ ?u # ?r" using takeWhile_dropWhile_id [of ?p ?l] ab by simp
    have "\<forall>x \<in> set bs. ?p x" using ab set_takeWhileD by (metis in_set_conv_decomp append_Cons append_assoc)
    moreover have "takeWhile ?p (dropWhile ?p ?l) = []" by (metis hd_dropWhile takeWhile_eq_Nil_iff)
    ultimately have "takeWhile ?p ?r = bs" by simp
    moreover have "skip_chain i h ?u ?r" using chain_drop [of i h big_head as ?u ?r] c l by simp
    moreover have "\<forall>x \<in> set ?r. free_big h x" using f unfolding arg_cong [OF l, of set] by auto
    ultimately have "skip_along i n ?u h = Some (last (?u # bs))" using skip_along_chain [of i h ?u ?r n] by simp
    then show ?thesis using False ab tw by (simp add: before_def)
  qed
qed

lemma skip_search_ok:
  assumes ok: "skip_ok h xs lv" and i: "i \<le> 7"
  shows "skip_search i n (before h n xs lv i) h = Some (map (before h n xs lv) [0..<i])"
  using i by (induction i) (simp_all add: skip_step [OF ok])

lemma before_top: "skip_ok h xs lv \<Longrightarrow> kh_big_level h < i \<Longrightarrow> before h n xs lv i = big_head"
proof -
  assume "skip_ok h xs lv" "kh_big_level h < i"
  then have "level_list lv i (below h n xs) = []" by (auto simp: skip_ok_def level_list_def below_def filter_empty_conv dest!: set_takeWhileD)
  then show ?thesis by (simp add: before_def)
qed

lemma search_from_head:
  assumes "skip_ok h xs lv"
  shows "skip_search (Suc (kh_big_level h)) n big_head h = Some (map (before h n xs lv) [0..<Suc (kh_big_level h)])"
proof -
  have "Suc (kh_big_level h) \<le> 7" using assms by (simp add: skip_ok_def)
  from skip_search_ok [OF assms this, of n] show ?thesis by (simp only: before_top [OF assms lessI])
qed

lemma fwd_before:
  assumes "skip_ok h xs lv" "i < 7"
  shows "fwd i (before h n xs lv i) h = Some (case level_list lv i (beyond h n xs) of [] \<Rightarrow> 0 | b # _ \<Rightarrow> b)"
  unfolding before_def by (rule chain_next) (use assms in \<open>simp add: skip_ok_def flip: level_split [OF assms(1), of i n]\<close>)

lemma level_zero: "level_list lv 0 xs = xs"
  by (simp add: level_list_def)

text \<open>The search for a block finds the first that is large enough, thus the smallest.\<close>

lemma findbest_spec:
  assumes "skip_ok h xs lv"
  shows "klmalloc_skip_list_findbest n h = Some (case beyond h n xs of [] \<Rightarrow> 0 | b # _ \<Rightarrow> b)"
proof -
  have f: "fwd 0 (before h n xs lv 0) h = Some (case beyond h n xs of [] \<Rightarrow> 0 | b # _ \<Rightarrow> b)"
    using fwd_before [OF assms, of 0 n] by (simp add: level_zero)
  have b: "free_big h b" if "beyond h n xs = b # bs" for b bs
  proof -
    have "b \<in> set (dropWhile (\<lambda>x. block_size h x < n) xs)" using that by (simp add: beyond_def)
    then have "b \<in> set xs" by (rule set_dropWhileD)
    then show ?thesis using assms by (simp add: skip_ok_def)
  qed
  show ?thesis
    using b f by (auto simp: klmalloc_skip_list_findbest_def search_from_head [OF assms] nth_append check_def check_size_free free_big_def paged_def
        simp del: upt_Suc skip_search.simps split: list.splits)
qed

lemma chain_cong: "(\<And>u. u \<in> insert b (set xs) \<Longrightarrow> fwd i u h' = fwd i u h) \<Longrightarrow> skip_chain i h' b xs = skip_chain i h b xs"
  by (induction xs arbitrary: b) auto


section \<open>Changing links\<close>

definition node_ok :: "mheap \<Rightarrow> ptr \<Rightarrow> bool" where
  "node_ok h u \<longleftrightarrow> u = big_head \<or> paged u \<and> (\<forall>i < 7. ld (f_forward i u) h \<noteq> None)"

text \<open>Nothing but the links of \<open>P\<close> and of the head differs.\<close>

definition other_fields :: "mheap \<Rightarrow> mheap" where
  "other_fields h = h\<lparr>kh_mem := Map.empty, kh_big_forward := []\<rparr>"

definition links_only :: "ptr set \<Rightarrow> mheap \<Rightarrow> mheap \<Rightarrow> bool" where
  "links_only P h h' \<longleftrightarrow> other_fields h' = other_fields h \<and> length (kh_big_forward h') = length (kh_big_forward h) \<and>
     (\<forall>a. kh_mem h' a = None \<longleftrightarrow> kh_mem h a = None) \<and> (\<forall>a. (\<forall>i < 7. \<forall>p \<in> P. a \<noteq> f_forward i p) \<longrightarrow> kh_mem h' a = kh_mem h a)"

lemma links_only_refl: "links_only P h h"
  unfolding links_only_def by simp

lemma links_only_trans: "links_only P h h' \<Longrightarrow> links_only Q h' h'' \<Longrightarrow> links_only (P \<union> Q) h h''"
  unfolding links_only_def by simp

lemma links_only_mono: "links_only P h h' \<Longrightarrow> P \<subseteq> Q \<Longrightarrow> links_only Q h h'"
  unfolding links_only_def by blast

lemma links_only_dom: "links_only P h h' \<Longrightarrow> ld a h' = None \<longleftrightarrow> ld a h = None"
  unfolding links_only_def ld_def by blast

lemma links_only_node: "links_only P h h' \<Longrightarrow> node_ok h' u \<longleftrightarrow> node_ok h u"
  unfolding node_ok_def using links_only_dom by blast

lemma other_fields_eq:
  assumes "other_fields h' = other_fields h"
  shows "kh_bin_head h' = kh_bin_head h" "kh_big_level h' = kh_big_level h" "kh_newest_big h' = kh_newest_big h" "kh_heap_start h' = kh_heap_start h"
    "kh_junk h' = kh_junk h" "kh_lock h' = kh_lock h"
  using arg_cong [OF assms, of kh_bin_head] arg_cong [OF assms, of kh_big_level] arg_cong [OF assms, of kh_newest_big] arg_cong [OF assms, of kh_heap_start]
    arg_cong [OF assms, of kh_junk] arg_cong [OF assms, of kh_lock] by (simp_all add: other_fields_def)

lemma links_only_fields: "links_only P h h' \<Longrightarrow> length (kh_big_forward h') = length (kh_big_forward h) \<and> kh_big_level h' = kh_big_level h"
  unfolding links_only_def using other_fields_eq by blast

lemma links_only_mem: "links_only P h h' \<Longrightarrow> (\<And>i p. i < 7 \<Longrightarrow> p \<in> P \<Longrightarrow> a \<noteq> f_forward i p) \<Longrightarrow> ld a h' = ld a h"
  unfolding links_only_def ld_def by blast

lemma links_only_size: "links_only P h h' \<Longrightarrow> (\<And>p. p \<in> P \<Longrightarrow> paged p) \<Longrightarrow> paged x \<Longrightarrow> ld (f_size x) h' = ld (f_size x) h"
  by (rule links_only_mem) (auto simp: f_size_forward)

lemma links_only_free: "links_only P h h' \<Longrightarrow> (\<And>p. p \<in> P \<Longrightarrow> paged p) \<Longrightarrow> free_big h' x \<longleftrightarrow> free_big h x"
proof -
  assume l: "links_only P h h'" and P: "\<And>p. p \<in> P \<Longrightarrow> paged p"
  show ?thesis
  proof (cases "paged x")
    case True
    then show ?thesis unfolding free_big_def by (simp only: links_only_dom [OF l] links_only_size [OF l P True])
  qed (simp add: free_big_def)
qed

lemma set_fwd_ok:
  assumes len: "length (kh_big_forward h) = 7" and i: "i < 7" and u: "node_ok h u"
  shows "\<exists>h'. set_fwd i u v h = Some h' \<and> links_only ({u} - {big_head}) h h' \<and>
    (\<forall>j < 7. \<forall>w. node_ok h w \<longrightarrow> fwd j w h' = (if j = i \<and> w = u then Some v else fwd j w h))"
proof (cases "u = big_head")
  case True
  let ?h = "h\<lparr>kh_big_forward := (kh_big_forward h)[i := v]\<rparr>"
  have "links_only ({u} - {big_head}) h ?h"
    by (simp add: links_only_def other_fields_def)
  moreover have "\<forall>j < 7. \<forall>w. node_ok h w \<longrightarrow> fwd j w ?h = (if j = i \<and> w = u then Some v else fwd j w h)"
    using True len i by (auto simp: fwd_def nth_list_update ld_def)
  ultimately show ?thesis using True len i by (intro exI [of _ ?h]) (simp add: set_fwd_def)
next
  case False
  let ?h = "h\<lparr>kh_mem := (kh_mem h)(f_forward i u \<mapsto> v)\<rparr>"
  have dom: "kh_mem h (f_forward i u) \<noteq> None" and p: "paged u" using u False i by (auto simp: node_ok_def ld_def)
  have "links_only ({u} - {big_head}) h ?h"
    using dom False i by (auto simp: links_only_def other_fields_def)
  moreover have "\<forall>j < 7. \<forall>w. node_ok h w \<longrightarrow> fwd j w ?h = (if j = i \<and> w = u then Some v else fwd j w h)"
    using False i p by (auto simp: fwd_def ld_def node_ok_def f_forward_eq)
  ultimately show ?thesis using False dom by (intro exI [of _ ?h]) (simp add: set_fwd_def st_def)
qed

lemma skip_link_spec:
  assumes "length (kh_big_forward h) = 7" and "i + length us \<le> 7" and "node_ok h v" "v \<noteq> big_head"
    and "\<And>k. k < length us \<Longrightarrow> node_ok h (us ! k) \<and> us ! k \<noteq> v \<and> (\<exists>f. fwd (i + k) (us ! k) h = Some f \<and> (f = 0 \<or> free_big h f))"
  shows "\<exists>h'. skip_link i us v h = Some h' \<and> links_only (insert v (set us) - {big_head}) h h' \<and>
    (\<forall>j < 7. \<forall>w. node_ok h w \<longrightarrow> fwd j w h' =
      (if i \<le> j \<and> j < i + length us then if w = us ! (j - i) then Some v else if w = v then fwd j (us ! (j - i)) h else fwd j w h else fwd j w h))"
  using assms
proof (induction us arbitrary: i h)
  case Nil
  then show ?case by (auto intro: links_only_refl)
next
  case (Cons u us)
  have i: "i < 7" using Cons.prems(2) by simp
  obtain f where u: "node_ok h u" "u \<noteq> v" "fwd i u h = Some f" "f = 0 \<or> free_big h f" using Cons.prems(5) [of 0] by auto
  obtain h1 where h1: "set_fwd i v f h = Some h1" "links_only ({v} - {big_head}) h h1"
      "\<And>j w. j < 7 \<Longrightarrow> node_ok h w \<Longrightarrow> fwd j w h1 = (if j = i \<and> w = v then Some f else fwd j w h)"
    using set_fwd_ok [OF Cons.prems(1) i Cons.prems(3), of f] by blast
  have pv: "paged v" using Cons.prems(3,4) by (simp add: node_ok_def)
  have l1: "length (kh_big_forward h1) = 7" and n1: "\<And>w. node_ok h1 w \<longleftrightarrow> node_ok h w"
    using links_only_fields [OF h1(2)] links_only_node [OF h1(2)] Cons.prems(1) by auto
  have f1: "free_big h1 x \<longleftrightarrow> free_big h x" for x using links_only_free [OF h1(2)] pv by blast
  obtain h2 where h2: "set_fwd i u v h1 = Some h2" "links_only ({u} - {big_head}) h1 h2"
      "\<And>j w. j < 7 \<Longrightarrow> node_ok h1 w \<Longrightarrow> fwd j w h2 = (if j = i \<and> w = u then Some v else fwd j w h1)"
    using set_fwd_ok [OF l1 i, of u v] u(1) n1 by blast
  have pu: "paged p" if "p \<in> {u} - {big_head}" for p using that u(1) by (auto simp: node_ok_def)
  have l2: "length (kh_big_forward h2) = 7" and n2: "\<And>w. node_ok h2 w \<longleftrightarrow> node_ok h w"
    using links_only_fields [OF h2(2)] links_only_node [OF h2(2)] l1 n1 by auto
  have f2: "free_big h2 x \<longleftrightarrow> free_big h x" for x using links_only_free [OF h2(2) pu] f1 by blast
  have fw2: "fwd j w h2 = (if j = i then if w = u then Some v else if w = v then Some f else fwd j w h else fwd j w h)" if "j < 7" "node_ok h w" for j w
    using h2(3) [OF that(1), of w] h1(3) [OF that] that n1 by auto
  have "node_ok h2 (us ! k) \<and> us ! k \<noteq> v \<and> (\<exists>f. fwd (Suc i + k) (us ! k) h2 = Some f \<and> (f = 0 \<or> free_big h2 f))" if "k < length us" for k
    using Cons.prems(5) [of "Suc k"] Cons.prems(2) that fw2 [of "Suc i + k" "us ! k"] n2 f2 by auto
  from Cons.IH [OF l2 _ _ Cons.prems(4) this] obtain h3 where h3: "skip_link (Suc i) us v h2 = Some h3" "links_only (insert v (set us) - {big_head}) h2 h3"
      "\<And>j w. j < 7 \<Longrightarrow> node_ok h2 w \<Longrightarrow> fwd j w h3 =
      (if Suc i \<le> j \<and> j < Suc i + length us then if w = us ! (j - Suc i) then Some v else if w = v then fwd j (us ! (j - Suc i)) h2 else fwd j w h2 else fwd j w h2)"
    using Cons.prems(2,3) n2 by auto
  have "(if f \<noteq> 0 then check_size f h1 else Some ()) = Some ()" using u(4) f1 check_size_free by auto
  then have "skip_link i (u # us) v h = Some h3" using u(3) h1(1) h2(1) h3(1) by simp
  moreover have "links_only (insert v (set (u # us)) - {big_head}) h h3"
    by (rule links_only_mono [OF links_only_trans [OF links_only_trans [OF h1(2) h2(2)] h3(2)]]) auto
  moreover have "fwd j w h3 = (if i \<le> j \<and> j < i + length (u # us) then if w = (u # us) ! (j - i) then Some v
      else if w = v then fwd j ((u # us) ! (j - i)) h else fwd j w h else fwd j w h)" if "j < 7" "node_ok h w" for j w
  proof (cases "Suc i \<le> j \<and> j < Suc i + length us")
    case True
    then have k: "j - i = Suc (j - Suc i)" "j - Suc i < length us" by auto
    have "node_ok h (us ! (j - Suc i))" using Cons.prems(5) [of "Suc (j - Suc i)"] k by simp
    then show ?thesis using h3(3) [OF that(1), of w] that n2 fw2 True k by auto
  next
    case False
    then show ?thesis using h3(3) [OF that(1), of w] that n2 fw2 u(3) by (auto simp: nth_Cons split: nat.splits)
  qed
  ultimately show ?case by blast
qed


section \<open>Inserting\<close>

lemma random_level_spec:
  "l \<le> SKIP_MAX_LEVEL \<Longrightarrow> \<exists>l' x y z w. random_level l h = (l', h\<lparr>kh_x := x, kh_y := y, kh_z := z, kh_w := w\<rparr>) \<and> l' \<le> SKIP_MAX_LEVEL"
proof (induction l h rule: random_level.induct)
  case (1 l h)
  obtain r x y z w where r: "klmalloc_skip_rand h = (r, h\<lparr>kh_x := x, kh_y := y, kh_z := z, kh_w := w\<rparr>)" (is "_ = (r, ?h)")
    by (simp add: klmalloc_skip_rand_def Let_def)
  show ?case
  proof (cases "r < SKIP_P \<and> l < SKIP_MAX_LEVEL")
    case True
    then obtain l' x' y' z' w' where "random_level (Suc l) ?h = (l', ?h\<lparr>kh_x := x', kh_y := y', kh_z := z', kh_w := w'\<rparr>)" "l' \<le> SKIP_MAX_LEVEL"
      using 1(1) [OF refl r [symmetric]] by auto
    then have "random_level l h = (l', h\<lparr>kh_x := x', kh_y := y', kh_z := z', kh_w := w'\<rparr>)"
      using True r by (simp add: random_level.simps [of l h])
    with \<open>l' \<le> SKIP_MAX_LEVEL\<close> show ?thesis by blast
  next
    case False
    then have "random_level l h = (l, ?h)" using r by (auto simp: random_level.simps [of l h])
    with 1(2) show ?thesis by blast
  qed
qed

lemma chain_insert:
  assumes "skip_chain i h b (as @ bs)" "distinct (b # as @ bs)" "v \<noteq> 0" "v \<notin> set (b # as @ bs)" "fwd i (last (b # as)) h' = Some v" "fwd i v h' = fwd i (last (b # as)) h"
    "\<And>w. w \<in> set (b # as @ bs) \<Longrightarrow> w \<noteq> last (b # as) \<Longrightarrow> fwd i w h' = fwd i w h"
  shows "skip_chain i h' b (as @ v # bs)"
  using assms
proof (induction as arbitrary: b)
  case Nil
  have "skip_chain i h' v bs"
  proof (cases bs)
    case (Cons c cs)
    then have "skip_chain i h' c cs = skip_chain i h c cs" using Nil by (intro chain_cong) auto
    with Nil Cons show ?thesis by auto
  qed (use Nil in simp)
  with Nil show ?case by simp
next
  case (Cons a as)
  have "skip_chain i h' a (as @ v # bs)" by (rule Cons.IH) (use Cons.prems in \<open>auto split: if_splits\<close>)
  moreover have "fwd i b h' = fwd i b h" using Cons.prems(2) by (intro Cons.prems(7)) auto
  ultimately show ?case using Cons.prems(1) by simp
qed

lemma skip_chain_remove:
  assumes "skip_chain i h b (as @ v # bs)" "distinct (b # as @ v # bs)" "fwd i (last (b # as)) h' = fwd i v h"
    "\<And>w. w \<in> set (b # as @ bs) \<Longrightarrow> w \<noteq> last (b # as) \<Longrightarrow> fwd i w h' = fwd i w h"
  shows "skip_chain i h' b (as @ bs)"
  using assms
proof (induction as arbitrary: b)
  case Nil
  show ?case
  proof (cases bs)
    case (Cons c cs)
    then have "skip_chain i h' c cs = skip_chain i h c cs" using Nil by (intro chain_cong) auto
    with Nil Cons show ?thesis by auto
  qed (use Nil in auto)
next
  case (Cons a as)
  have "skip_chain i h' a (as @ bs)" by (rule Cons.IH) (use Cons.prems in \<open>auto split: if_splits\<close>)
  moreover have "fwd i b h' = fwd i b h" using Cons.prems(2) by (intro Cons.prems(4)) auto
  ultimately show ?case using Cons.prems(1) by simp
qed

text \<open>What the operations leave alone: the memory but for links of blocks in \<open>P\<close>, and everything that is not about the list.\<close>

definition list_frame :: "ptr set \<Rightarrow> mheap \<Rightarrow> mheap \<Rightarrow> bool" where
  "list_frame P h h' \<longleftrightarrow> kh_bin_head h' = kh_bin_head h \<and> kh_newest_big h' = kh_newest_big h \<and> kh_heap_start h' = kh_heap_start h \<and>
     kh_junk h' = kh_junk h \<and> kh_lock h' = kh_lock h \<and> (\<forall>a. kh_mem h' a = None \<longleftrightarrow> kh_mem h a = None) \<and>
     (\<forall>a. (\<forall>i < 7. \<forall>p \<in> P. a \<noteq> f_forward i p) \<longrightarrow> kh_mem h' a = kh_mem h a)"

lemma before_cases: "before h n xs lv i = big_head \<or> before h n xs lv i \<in> set (level_list lv i (below h n xs))"
  unfolding before_def by (metis last.simps last_in_set)

lemma skip_ok_nodes:
  assumes "skip_ok h xs lv"
  shows "node_ok h (before h n xs lv i)" "\<And>x. x \<in> set xs \<Longrightarrow> node_ok h x" "before h n xs lv i \<in> insert big_head (set xs)"
proof -
  have "set (level_list lv i (below h n xs)) \<subseteq> set xs" using set_takeWhileD by (fastforce simp: level_list_def below_def)
  then show b: "before h n xs lv i \<in> insert big_head (set xs)" using before_cases [of h n xs lv i] by auto
  show x: "node_ok h x" if "x \<in> set xs" for x using that assms by (auto simp: skip_ok_def free_big_def node_ok_def)
  show "node_ok h (before h n xs lv i)" using b x by (auto simp: node_ok_def)
qed

lemma split_lists: "xs = below h n xs @ beyond h n xs"
  by (simp add: below_def beyond_def)

lemma sorted_split:
  assumes "sorted (map (block_size h) xs)"
  shows "\<forall>x \<in> set (below h n xs). block_size h x < n" "\<forall>x \<in> set (beyond h n xs). n \<le> block_size h x"
proof -
  show "\<forall>x \<in> set (below h n xs). block_size h x < n" by (auto simp: below_def dest: set_takeWhileD)
  show "\<forall>x \<in> set (beyond h n xs). n \<le> block_size h x"
  proof (cases "beyond h n xs")
    case (Cons y ys)
    then have "\<not> block_size h y < n" unfolding beyond_def by (metis (mono_tags, lifting) hd_dropWhile list.distinct(1) list.sel(1))
    moreover have "sorted (map (block_size h) (y # ys))" using assms Cons sorted_append [of "map (block_size h) (below h n xs)"] split_lists [of xs h n] by (metis map_append)
    ultimately show ?thesis using Cons by auto
  qed simp
qed

lemma skip_ok_links:
  assumes "other_fields h' = other_fields h\<lparr>kh_x := x, kh_y := y, kh_z := z, kh_w := w, kh_big_level := l\<rparr>" "length (kh_big_forward h') = length (kh_big_forward h)"
    "\<forall>a. kh_mem h' a = None \<longleftrightarrow> kh_mem h a = None" "\<forall>a. (\<forall>i < 7. \<forall>p \<in> P. a \<noteq> f_forward i p) \<longrightarrow> kh_mem h' a = kh_mem h a"
  shows "list_frame P h h'" "kh_big_level h' = l"
  using arg_cong [OF assms(1), of kh_bin_head] arg_cong [OF assms(1), of kh_big_level] arg_cong [OF assms(1), of kh_newest_big] arg_cong [OF assms(1), of kh_heap_start]
    arg_cong [OF assms(1), of kh_junk] arg_cong [OF assms(1), of kh_lock] assms(3,4) by (simp_all add: list_frame_def other_fields_def)

lemma list_frame_size: "list_frame P h h' \<Longrightarrow> (\<And>p. p \<in> P \<Longrightarrow> paged p) \<Longrightarrow> paged x \<Longrightarrow> ld (f_size x) h' = ld (f_size x) h"
  unfolding list_frame_def ld_def using f_size_forward by blast

lemma list_frame_free:
  assumes l: "list_frame P h h'" and P: "\<And>p. p \<in> P \<Longrightarrow> paged p"
  shows "free_big h' x \<longleftrightarrow> free_big h x"
proof (cases "paged x")
  case True
  have "ld a h' = None \<longleftrightarrow> ld a h = None" for a using l by (simp add: list_frame_def ld_def)
  then show ?thesis unfolding free_big_def by (simp only: list_frame_size [OF l P True])
qed (simp add: free_big_def)

lemma list_frame_block_size: "list_frame P h h' \<Longrightarrow> (\<And>p. p \<in> P \<Longrightarrow> paged p) \<Longrightarrow> paged x \<Longrightarrow> block_size h' x = block_size h x"
  by (simp add: block_size_def list_frame_size)

lemma level_list_insert:
  assumes "v \<notin> set xs"
  shows "level_list (lv(v := l)) i (below h n xs @ v # beyond h n xs) =
    (if i \<le> l then level_list lv i (below h n xs) @ v # level_list lv i (beyond h n xs) else level_list lv i xs)"
proof -
  have "v \<notin> set (below h n xs)" "v \<notin> set (beyond h n xs)" using assms split_lists [of xs h n] by (metis Un_iff set_append)+
  then have "level_list (lv(v := l)) i (below h n xs) = level_list lv i (below h n xs)" "level_list (lv(v := l)) i (beyond h n xs) = level_list lv i (beyond h n xs)"
    by (auto simp: level_list_def intro!: filter_cong)
  moreover have "level_list lv i xs = level_list lv i (below h n xs) @ level_list lv i (beyond h n xs)"
    by (metis filter_append level_list_def split_lists)
  ultimately show ?thesis by (simp add: level_list_def)
qed

lemma insert_sorted_at:
  assumes "sorted (map f (as @ bs))" "\<forall>a \<in> set as. f a < f v" "\<forall>b \<in> set bs. f v \<le> f b"
  shows "sorted (map f (as @ v # bs))"
  using assms by (auto simp: sorted_append less_imp_le)

lemma skip_link_run:
  assumes ok: "skip_ok h xs lv" and v: "v \<notin> set xs" "free_big h v" and n: "n = block_size h v" and l: "l \<le> 6"
    and h1: "h1 = h\<lparr>kh_x := x, kh_y := y, kh_z := z, kh_w := w, kh_big_level := max (kh_big_level h) l\<rparr>"
  shows "\<exists>h'. skip_link 0 (map (before h n xs lv) [0..<Suc l]) v h1 = Some h' \<and>
    skip_ok h' (below h n xs @ v # beyond h n xs) (lv(v := l)) \<and> list_frame (insert v (set xs)) h h'"
proof -
  have len: "length (kh_big_forward h) = 7" using ok by (simp add: skip_ok_def)
  have pages: "\<And>p. p \<in> insert v (set xs) \<Longrightarrow> paged p" using v ok by (auto simp: skip_ok_def free_big_def)
  have vn: "node_ok h v" "v \<noteq> big_head" "v \<noteq> 0" using v by (auto simp: free_big_def node_ok_def)
  have same: "fwd i u h1 = fwd i u h" "node_ok h1 u = node_ok h u" "free_big h1 u = free_big h u" for i u
    by (simp_all add: h1 fwd_def node_ok_def free_big_def ld_def)
  have pre: "node_ok h1 (map (before h n xs lv) [0..<Suc l] ! k) \<and> map (before h n xs lv) [0..<Suc l] ! k \<noteq> v \<and>
      (\<exists>f. fwd (0 + k) (map (before h n xs lv) [0..<Suc l] ! k) h1 = Some f \<and> (f = 0 \<or> free_big h1 f))" if "k < length (map (before h n xs lv) [0..<Suc l])" for k
  proof -
    have k: "k < Suc l" "map (before h n xs lv) [0..<Suc l] ! k = before h n xs lv k" using that by (simp_all del: upt_Suc)
    have "free_big h b" if "level_list lv k (beyond h n xs) = b # bs" for b bs
    proof -
      have "b \<in> set (level_list lv k (beyond h n xs))" using that by simp
      then have "b \<in> set xs" by (auto simp: level_list_def beyond_def dest: set_dropWhileD)
      then show ?thesis using ok by (simp add: skip_ok_def)
    qed
    then show ?thesis unfolding k(2) same
      using skip_ok_nodes(1) [OF ok] skip_ok_nodes(3) [OF ok, of n k] fwd_before [OF ok, of k n] v(1) vn(2) k(1) l by (auto split: list.splits)
  qed
  have len1: "length (kh_big_forward h1) = 7" "0 + length (map (before h n xs lv) [0..<Suc l]) \<le> 7" using len l by (simp_all add: h1)
  from skip_link_spec [OF len1 _ vn(2) pre] vn(1) same(2) obtain h' where
    h': "skip_link 0 (map (before h n xs lv) [0..<Suc l]) v h1 = Some h'"
      "links_only (insert v (set (map (before h n xs lv) [0..<Suc l])) - {big_head}) h1 h'"
      "\<forall>j < 7. \<forall>w. node_ok h w \<longrightarrow> fwd j w h' = (if 0 \<le> j \<and> j < 0 + length (map (before h n xs lv) [0..<Suc l]) then
        if w = map (before h n xs lv) [0..<Suc l] ! (j - 0) then Some v else if w = v then fwd j (map (before h n xs lv) [0..<Suc l] ! (j - 0)) h1 else fwd j w h1 else fwd j w h1)"
    by auto
  have fw: "fwd j w h' = (if j \<le> l then if w = before h n xs lv j then Some v else if w = v then fwd j (before h n xs lv j) h else fwd j w h else fwd j w h)"
    if "j < 7" "node_ok h w" for j w
    using h'(3) that by (simp add: same less_Suc_eq_le del: upt_Suc)
  have "links_only (insert v (set xs)) h1 h'"
    by (rule links_only_mono [OF h'(2)]) (use skip_ok_nodes(3) [OF ok, of n] in auto)
  then have fr: "list_frame (insert v (set xs)) h h'" "kh_big_level h' = max (kh_big_level h) l" "length (kh_big_forward h') = 7"
    using skip_ok_links [where h' = h' and h = h and x = x and y = y and z = z and w = w and l = "max (kh_big_level h) l" and P = "insert v (set xs)"] len
    by (simp_all add: links_only_def h1 other_fields_def)
  note size = list_frame_block_size [OF fr(1) pages]
  have xs: "set (below h n xs @ v # beyond h n xs) = insert v (set xs)" using split_lists [of xs h n] by (metis Un_insert_right list.set(2) set_append)
  have sort: "sorted (map (block_size h) xs)" and dist: "distinct xs" using ok by (simp_all add: skip_ok_def)
  have dist': "distinct (below h n xs @ v # beyond h n xs)" using dist v(1) split_lists [of xs h n] by (metis distinct.simps(2) distinct_append not_distinct_conv_prefix xs
        distinct_append_Cons Un_iff set_append)
  have s1: "sorted (map (block_size h) (below h n xs @ v # beyond h n xs))"
    by (rule insert_sorted_at) (use sort sorted_split [OF sort, of n] n split_lists [of xs h n] in auto)
  have s2: "map (block_size h') (below h n xs @ v # beyond h n xs) = map (block_size h) (below h n xs @ v # beyond h n xs)"
    by (rule map_cong [OF refl]) (use size pages xs in blast)
  have blocks: "\<forall>u \<in> set (below h n xs @ v # beyond h n xs). (lv(v := l)) u \<le> kh_big_level h' \<and> free_big h' u"
    unfolding xs using ok v fr(2) list_frame_free [OF fr(1) pages] by (auto simp: skip_ok_def)
  have chains: "skip_chain i h' big_head (level_list (lv(v := l)) i (below h n xs @ v # beyond h n xs))" if i: "i < 7" for i
  proof -
    let ?A = "level_list lv i (below h n xs)" and ?B = "level_list lv i (beyond h n xs)"
    have c: "skip_chain i h big_head (level_list lv i xs)" using ok i by (simp add: skip_ok_def)
    have sp: "level_list lv i xs = ?A @ ?B" by (rule level_split [OF ok])
    have nodes: "node_ok h u" if "u \<in> set (big_head # ?A @ ?B)" for u
      using that skip_ok_nodes(2) [OF ok] unfolding sp [symmetric] set_simps by (auto simp: level_list_def node_ok_def)
    have dl: "distinct (big_head # level_list lv i xs)" using ok by (auto simp: skip_ok_def level_list_def free_big_def)
    show ?thesis
    proof (cases "i \<le> l")
      case True
      have lst: "last (big_head # ?A) = before h n xs lv i" by (simp only: before_def)
      have notin: "v \<notin> set (big_head # ?A @ ?B)" using v(1) vn(2) unfolding sp [symmetric] set_simps by (auto simp: level_list_def)
      have "before h n xs lv i \<noteq> v" using skip_ok_nodes(3) [OF ok, of n i] v(1) vn(2) by auto
      then have links: "fwd i (before h n xs lv i) h' = Some v" "fwd i v h' = fwd i (before h n xs lv i) h"
        using fw [OF i skip_ok_nodes(1) [OF ok]] fw [OF i vn(1)] True by auto
      have others: "fwd i w h' = fwd i w h" if "w \<in> set (big_head # ?A @ ?B)" "w \<noteq> before h n xs lv i" for w
        using fw [OF i nodes [OF that(1)]] that notin by auto
      have "skip_chain i h' big_head (?A @ v # ?B)"
        by (rule chain_insert [of i h, OF c [unfolded sp] dl [unfolded sp] vn(3) notin links [folded lst] others [folded lst]])
      then show ?thesis using True by (simp add: level_list_insert [OF v(1)])
    next
      case False
      have "skip_chain i h' big_head (level_list lv i xs) = skip_chain i h big_head (level_list lv i xs)"
        by (rule chain_cong) (use False fw i nodes in \<open>auto simp: sp\<close>)
      then show ?thesis using False c by (simp add: level_list_insert [OF v(1)])
    qed
  qed
  have "kh_big_level h' \<le> 6" using fr(2) l ok by (simp add: skip_ok_def)
  then have "skip_ok h' (below h n xs @ v # beyond h n xs) (lv(v := l))"
    unfolding skip_ok_def using fr(3) dist' s1 [folded s2] blocks chains by (intro conjI allI impI)
  then show ?thesis using h'(1) fr(1) by blast
qed

lemma skip_insert_spec:
  assumes ok: "skip_ok h xs lv" and v: "v \<notin> set xs" "free_big h v" and hd: "check_head v h = Some ()" and n: "ld (f_size v) h = Some n" "n \<noteq> 0"
  shows "\<exists>h' lv'. klmalloc_skip_list_insert v h = Some h' \<and> skip_ok h' (below h n xs @ v # beyond h n xs) lv' \<and> list_frame (insert v (set xs)) h h'"
proof -
  have n': "n = block_size h v" using n(1) by (simp add: block_size_def)
  have chk: "check (v mod 0x1000 = 0 \<and> (n + 96) mod 0x1000 = 0 \<and> n \<noteq> 0) = Some ()"
    using v(2) n unfolding free_big_def paged_def check_def by (elim conjE exE) simp
  obtain l x y z w where r: "klmalloc_random_level h = (l, h\<lparr>kh_x := x, kh_y := y, kh_z := z, kh_w := w\<rparr>)" "l \<le> 6"
    using random_level_spec [of 0 h] by (auto simp: klmalloc_random_level_def SKIP_MAX_LEVEL_def)
  let ?h = "h\<lparr>kh_x := x, kh_y := y, kh_z := z, kh_w := w\<rparr>"
  let ?us = "map (before h n xs lv) [0..<Suc (kh_big_level h)]"
  define us' where "us' = (if l > kh_big_level h then ?us @ replicate (l - kh_big_level h) big_head else ?us)"
  have tk: "take (Suc l) us' = map (before h n xs lv) [0..<Suc l]"
  proof (cases "l > kh_big_level h")
    case True
    then have "us' = map (before h n xs lv) [0..<Suc l]"
      using before_top [OF ok, of _ n] by (intro nth_equalityI) (simp_all add: us'_def nth_append del: upt_Suc)
    then show ?thesis by (simp del: upt_Suc)
  next
    case False
    then show ?thesis by (simp add: us'_def take_map del: upt_Suc)
  qed
  have lvl: "(if l > kh_big_level h then ?h\<lparr>kh_big_level := l\<rparr> else ?h) = h\<lparr>kh_x := x, kh_y := y, kh_z := z, kh_w := w, kh_big_level := max (kh_big_level h) l\<rparr>"
    by (simp add: max_def)
  have node: "fwd 0 (?us ! 0) h = Some (case beyond h n xs of [] \<Rightarrow> 0 | b # _ \<Rightarrow> b)"
    using fwd_before [OF ok, of 0 n] by (simp add: level_zero nth_append del: upt_Suc)
  have "set (beyond h n xs) \<subseteq> set xs" using set_dropWhileD by (fastforce simp: beyond_def)
  then have neq: "(case beyond h n xs of [] \<Rightarrow> 0 | b # _ \<Rightarrow> b) \<noteq> v" using v by (auto simp: free_big_def split: list.splits)
  have "klmalloc_skip_list_insert v h = skip_link 0 (take (Suc l) us') v (if l > kh_big_level h then ?h\<lparr>kh_big_level := l\<rparr> else ?h)"
    using n(1) hd chk node neq r(1)
    by (simp add: klmalloc_skip_list_insert_def search_from_head [OF ok] us'_def del: upt_Suc skip_search.simps)
  with skip_link_run [OF ok v n' r(2) refl, of w z y x] show ?thesis unfolding tk lvl by auto
qed


section \<open>Deleting\<close>

lemma skip_seek_self: "skip_seek v v h = Some v"
  by (subst skip_seek.simps) simp

lemma skip_unlink_spec:
  assumes "length (kh_big_forward h) = 7" "i + length us \<le> 7" "m \<le> length us" "node_ok h v"
    and "\<And>k. k < length us \<Longrightarrow> node_ok h (us ! k) \<and> us ! k \<noteq> v \<and> fwd (i + k) (us ! k) h \<noteq> None"
    and "\<And>k. k < m \<Longrightarrow> fwd (i + k) (us ! k) h = Some v \<and> (\<exists>g. fwd (i + k) v h = Some g \<and> (g = 0 \<or> free_big h g))"
    and "m < length us \<Longrightarrow> fwd (i + m) (us ! m) h \<noteq> Some v"
  shows "\<exists>h'. skip_unlink i us v h = Some h' \<and> links_only (set us - {big_head}) h h' \<and>
    (\<forall>j < 7. \<forall>w. node_ok h w \<longrightarrow> fwd j w h' = (if i \<le> j \<and> j < i + m \<and> w = us ! (j - i) then fwd j v h else fwd j w h))"
  using assms
proof (induction us arbitrary: i h m)
  case Nil
  then show ?case by (auto intro: links_only_refl)
next
  case (Cons u us)
  show ?case
  proof (cases m)
    case 0
    then obtain f where "fwd i u h = Some f" "f \<noteq> v" using Cons.prems(5) [of 0] Cons.prems(7) by auto
    then show ?thesis using 0 by (auto intro: links_only_refl)
  next
    case (Suc m')
    have i: "i < 7" using Cons.prems(2) by simp
    have u: "node_ok h u" "u \<noteq> v" "fwd i u h = Some v" using Cons.prems(5,6) [of 0] Suc by auto
    obtain g where g: "fwd i v h = Some g" "g = 0 \<or> free_big h g" using Cons.prems(6) [of 0] Suc by auto
    obtain h1 where h1: "set_fwd i u g h = Some h1" "links_only ({u} - {big_head}) h h1"
        "\<And>j w. j < 7 \<Longrightarrow> node_ok h w \<Longrightarrow> fwd j w h1 = (if j = i \<and> w = u then Some g else fwd j w h)"
      using set_fwd_ok [OF Cons.prems(1) i u(1), of g] by blast
    have pu: "paged p" if "p \<in> {u} - {big_head}" for p using that u(1) by (auto simp: node_ok_def)
    have l1: "length (kh_big_forward h1) = 7" and n1: "\<And>w. node_ok h1 w \<longleftrightarrow> node_ok h w"
      using links_only_fields [OF h1(2)] links_only_node [OF h1(2)] Cons.prems(1) by auto
    have f1: "free_big h1 x \<longleftrightarrow> free_big h x" for x using links_only_free [OF h1(2) pu] by blast
    have a: "node_ok h1 (us ! k) \<and> us ! k \<noteq> v \<and> fwd (Suc i + k) (us ! k) h1 \<noteq> None" if "k < length us" for k
      using Cons.prems(5) [of "Suc k"] Cons.prems(2) that h1(3) [of "Suc i + k" "us ! k"] n1 by auto
    have b: "fwd (Suc i + k) (us ! k) h1 = Some v \<and> (\<exists>g. fwd (Suc i + k) v h1 = Some g \<and> (g = 0 \<or> free_big h1 g))" if "k < m'" for k
      using Cons.prems(2,3,4) Cons.prems(5,6) [of "Suc k"] that Suc h1(3) [of "Suc i + k" "us ! k"] h1(3) [of "Suc i + k" v] f1 by auto
    have c: "fwd (Suc i + m') (us ! m') h1 \<noteq> Some v" if "m' < length us"
      using Cons.prems(2) Cons.prems(5) [of "Suc m'"] Cons.prems(7) that Suc h1(3) [of "Suc i + m'" "us ! m'"] by auto
    obtain h2 where h2: "skip_unlink (Suc i) us v h1 = Some h2" "links_only (set us - {big_head}) h1 h2"
        "\<And>j w. j < 7 \<Longrightarrow> node_ok h1 w \<Longrightarrow> fwd j w h2 = (if Suc i \<le> j \<and> j < Suc i + m' \<and> w = us ! (j - Suc i) then fwd j v h1 else fwd j w h1)"
      using Cons.IH [OF l1 _ _ _ a b c] Cons.prems(2,3,4) Suc n1 by auto
    have "(if g \<noteq> 0 then do { check (g mod 0x1000 = 0); check_size g h1 } else Some ()) = Some ()"
      using g(2) f1 check_size_free [of h1 g] check_page_free [of h g] by auto
    then have "skip_unlink i (u # us) v h = Some h2" using u(3) g(1) h1(1) h2(1) by simp
    moreover have "links_only (set (u # us) - {big_head}) h h2"
      by (rule links_only_mono [OF links_only_trans [OF h1(2) h2(2)]]) auto
    moreover have "fwd j w h2 = (if i \<le> j \<and> j < i + m \<and> w = (u # us) ! (j - i) then fwd j v h else fwd j w h)" if "j < 7" "node_ok h w" for j w
    proof (cases "Suc i \<le> j \<and> j < Suc i + m'")
      case True
      then have "j - i = Suc (j - Suc i)" by auto
      then show ?thesis using h2(3) [OF that(1), of w] h1(3) [OF that] h1(3) [OF that(1) Cons.prems(4)] that n1 True Suc by auto
    next
      case False
      then show ?thesis using h2(3) [OF that(1), of w] h1(3) [OF that] that n1 Suc g(1) by (cases "j = i") auto
    qed
    ultimately show ?thesis by blast
  qed
qed

lemma lower_level_le: "lower_level l fs \<le> l"
  by (induction l) auto

lemma lower_level_zero: "lower_level l fs < i \<Longrightarrow> i \<le> l \<Longrightarrow> fs ! i = 0"
  by (induction l) (auto simp: le_Suc_eq split: if_splits)

lemma skip_delete_spec:
  assumes ok: "skip_ok h xs lv" and n: "ld (f_size v) h = Some n" and v: "beyond h n xs = v # bs" and hd: "check_head v h = Some ()"
  shows "\<exists>h'. klmalloc_skip_list_delete v h = Some h' \<and> skip_ok h' (below h n xs @ bs) lv \<and> list_frame (set xs) h h'"
proof -
  have len: "length (kh_big_forward h) = 7" and L: "kh_big_level h \<le> 6" using ok by (simp_all add: skip_ok_def)
  have xs: "xs = below h n xs @ v # bs" using split_lists [of xs h n] v by simp
  then have vx: "v \<in> set xs" by (metis in_set_conv_decomp)
  then have vf: "free_big h v" and vl: "lv v \<le> kh_big_level h" using ok by (simp_all add: skip_ok_def)
  have pages: "\<And>p. p \<in> set xs \<Longrightarrow> paged p" using ok by (auto simp: skip_ok_def free_big_def)
  have dist: "distinct (below h n xs @ v # bs)" using ok xs by (simp add: skip_ok_def)
  let ?us = "map (before h n xs lv) [0..<Suc (kh_big_level h)]"
  have lev: "level_list lv i (v # bs) = (if i \<le> lv v then v # level_list lv i bs else level_list lv i bs)" for i by (simp add: level_list_def)
  have frees: "free_big h b" if "b \<in> set (level_list lv i bs)" for b i
    using that ok arg_cong [OF xs, of set] by (auto simp: skip_ok_def level_list_def)
  have notv: "before h n xs lv k \<noteq> v" for k
    using before_cases [of h n xs lv k] dist vf by (auto simp: level_list_def free_big_def)
  have fb: "fwd k (before h n xs lv k) h = Some (if k \<le> lv v then v else case level_list lv k bs of [] \<Rightarrow> 0 | b # _ \<Rightarrow> b)" if "k < 7" for k
    using fwd_before [OF ok that, of n] by (simp add: v lev)
  have fv: "fwd k v h = Some (case level_list lv k bs of [] \<Rightarrow> 0 | b # _ \<Rightarrow> b)" if "k < 7" "k \<le> lv v" for k
  proof -
    have "skip_chain k h big_head (level_list lv k (below h n xs) @ v # level_list lv k bs)"
      using ok that level_split [OF ok, of k n] unfolding skip_ok_def by (metis lev v)
    from chain_drop [OF this] show ?thesis by (cases "level_list lv k bs") auto
  qed
  have a: "node_ok h (?us ! k) \<and> ?us ! k \<noteq> v \<and> fwd (0 + k) (?us ! k) h \<noteq> None" if "k < length ?us" for k
    using that L skip_ok_nodes(1) [OF ok] notv fb [of k] by (simp del: upt_Suc)
  have b: "fwd (0 + k) (?us ! k) h = Some v \<and> (\<exists>g. fwd (0 + k) v h = Some g \<and> (g = 0 \<or> free_big h g))" if "k < Suc (lv v)" for k
    using that L vl fb [of k] fv [of k] frees [of _ k] by (auto simp del: upt_Suc split: list.splits)
  have c: "fwd (0 + Suc (lv v)) (?us ! Suc (lv v)) h \<noteq> Some v" if "Suc (lv v) < length ?us"
  proof -
    have "(case level_list lv (Suc (lv v)) bs of [] \<Rightarrow> 0 | b # _ \<Rightarrow> b) \<noteq> v"
      using dist vf by (auto simp: free_big_def level_list_def split: list.splits dest!: filter_eq_ConsD)
    then show ?thesis using that L fb [of "Suc (lv v)"] by (simp del: upt_Suc)
  qed
  have us: "0 + length ?us \<le> 7" "Suc (lv v) \<le> length ?us" "node_ok h v" using L vl skip_ok_nodes(2) [OF ok vx] by simp_all
  obtain h1 where h1: "skip_unlink 0 ?us v h = Some h1" "links_only (set ?us - {big_head}) h h1"
      "\<forall>j < 7. \<forall>w. node_ok h w \<longrightarrow> fwd j w h1 = (if 0 \<le> j \<and> j < 0 + Suc (lv v) \<and> w = ?us ! (j - 0) then fwd j v h else fwd j w h)"
    using skip_unlink_spec [OF len us(1,2,3) a b c] by blast
  have fw: "fwd j w h1 = (if j \<le> lv v \<and> w = before h n xs lv j then fwd j v h else fwd j w h)" if "j < 7" "node_ok h w" for j w
    using h1(3) that vl by (auto simp: less_Suc_eq_le simp del: upt_Suc)
  have l1: "links_only (set xs) h h1" by (rule links_only_mono [OF h1(2)]) (use skip_ok_nodes(3) [OF ok, of n] in auto)
  define h' where "h' = h1\<lparr>kh_big_level := lower_level (kh_big_level h1) (kh_big_forward h1)\<rparr>"
  have same: "fwd i u h' = fwd i u h1" "kh_big_forward h' = kh_big_forward h1" for i u by (simp_all add: h'_def fwd_def ld_def)
  have lf: "kh_big_level h1 = kh_big_level h" "length (kh_big_forward h1) = 7" using links_only_fields [OF l1] len by simp_all
  have fr: "list_frame (set xs) h h'"
    using l1 other_fields_eq [of h1 h] by (auto simp: links_only_def list_frame_def h'_def)
  have node: "fwd 0 (?us ! 0) h = Some v" using fb [of 0] by (simp add: nth_append del: upt_Suc)
  have "klmalloc_skip_list_delete v h = Some h'"
    using n hd node h1(1) skip_seek_self
    by (simp add: klmalloc_skip_list_delete_def search_from_head [OF ok] h'_def del: upt_Suc skip_search.simps)
  moreover have chains: "skip_chain i h' big_head (level_list lv i (below h n xs @ bs))" if i: "i < 7" for i
  proof -
    let ?A = "level_list lv i (below h n xs)" and ?B = "level_list lv i bs"
    have sp: "level_list lv i xs = ?A @ level_list lv i (v # bs)" using level_split [OF ok, of i n] v by simp
    have c: "skip_chain i h big_head (?A @ level_list lv i (v # bs))" using ok i unfolding sp [symmetric] by (simp add: skip_ok_def)
    have dl: "distinct (big_head # ?A @ level_list lv i (v # bs))" using ok unfolding sp [symmetric] by (auto simp: skip_ok_def level_list_def free_big_def)
    have nodes: "node_ok h u" if "u \<in> set (big_head # ?A @ level_list lv i (v # bs))" for u
      using that skip_ok_nodes(2) [OF ok] unfolding sp [symmetric] set_simps by (auto simp: level_list_def node_ok_def)
    have lst: "last (big_head # ?A) = before h n xs lv i" by (simp only: before_def)
    have app: "level_list lv i (below h n xs @ bs) = ?A @ ?B" by (simp add: level_list_def)
    show ?thesis
    proof (cases "i \<le> lv v")
      case True
      then have lv': "level_list lv i (v # bs) = v # ?B" by (simp add: lev)
      have link: "fwd i (before h n xs lv i) h' = fwd i v h" using fw [OF i skip_ok_nodes(1) [OF ok]] True by (simp add: same)
      have others: "fwd i w h' = fwd i w h" if "w \<in> set (big_head # ?A @ ?B)" "w \<noteq> before h n xs lv i" for w
      proof -
        have "w \<in> set (big_head # ?A @ level_list lv i (v # bs))" using that(1) lv' by auto
        from fw [OF i nodes [OF this]] that(2) show ?thesis by (simp add: same)
      qed
      show ?thesis unfolding app by (rule skip_chain_remove [of i h, OF c [unfolded lv'] dl [unfolded lv'] link [folded lst] others [folded lst]])
    next
      case False
      then have lv': "level_list lv i (v # bs) = ?B" by (simp add: lev)
      have "skip_chain i h' big_head (?A @ ?B) = skip_chain i h big_head (?A @ ?B)"
        by (rule chain_cong) (use False fw i nodes lv' in \<open>auto simp: same\<close>)
      then show ?thesis using c unfolding app lv' by simp
    qed
  qed
  moreover have "skip_ok h' (below h n xs @ bs) lv"
  proof -
    have sub: "set (below h n xs @ bs) \<subseteq> set xs" using arg_cong [OF xs, of set] by auto
    have lev: "kh_big_level h' \<le> kh_big_level h" using lower_level_le [of "kh_big_level h1"] lf by (simp add: h'_def)
    have top: "lv x \<le> kh_big_level h'" if "x \<in> set (below h n xs @ bs)" for x
    proof (rule ccontr)
      assume *: "\<not> lv x \<le> kh_big_level h'"
      have le: "lv x \<le> kh_big_level h" using ok sub that by (auto simp: skip_ok_def)
      with * have "kh_big_forward h' ! lv x = 0" using lower_level_zero [of "kh_big_level h1" "kh_big_forward h1" "lv x"] lf by (simp add: h'_def)
      moreover have "level_list lv (lv x) (below h n xs @ bs) \<noteq> []" using that by (auto simp: level_list_def filter_empty_conv)
      moreover have "skip_chain (lv x) h' big_head (level_list lv (lv x) (below h n xs @ bs))" using chains le L by simp
      ultimately show False using le L lf by (cases "level_list lv (lv x) (below h n xs @ bs)") (auto simp: fwd_def same)
    qed
    have sorted: "sorted (map (block_size h) (below h n xs @ bs))"
      using ok arg_cong [OF xs, of "map (block_size h)"] by (auto simp: skip_ok_def sorted_append)
    have "map (block_size h') (below h n xs @ bs) = map (block_size h) (below h n xs @ bs)"
      by (rule map_cong [OF refl]) (use list_frame_block_size [OF fr pages] pages sub in blast)
    moreover have "\<forall>x \<in> set (below h n xs @ bs). lv x \<le> kh_big_level h' \<and> free_big h' x"
      using top list_frame_free [OF fr pages] ok sub unfolding skip_ok_def by blast
    moreover have "length (kh_big_forward h') = 7" "kh_big_level h' \<le> 6" "distinct (below h n xs @ bs)" using lf lev L dist by (auto simp: same)
    ultimately show ?thesis unfolding skip_ok_def using sorted chains by (simp only: simp_thms) blast
  qed
  ultimately show ?thesis using fr by blast
qed


section \<open>Properties\<close>

lemma beyond_larger:
  assumes "beyond h n xs = v # bs" "n \<le> block_size h v"
  shows "below h (block_size h v) xs = below h n xs \<and> beyond h (block_size h v) xs = v # bs"
proof -
  have xs: "xs = below h n xs @ v # bs" using split_lists [of xs h n] assms(1) by simp
  have lt: "\<forall>x \<in> set (below h n xs). block_size h x < block_size h v" using assms(2) by (auto simp: below_def dest: set_takeWhileD)
  have "below h (block_size h v) (below h n xs @ v # bs) = below h n xs" "beyond h (block_size h v) (below h n xs @ v # bs) = v # bs"
    using lt by (simp_all add: below_def [of h "block_size h v"] beyond_def [of h "block_size h v"] takeWhile_append2 dropWhile_append2)
  then show ?thesis using xs by metis
qed

lemma find_split: "\<forall>x \<in> set xs. \<not> P x \<Longrightarrow> P v \<Longrightarrow> find P (xs @ v # ys) = Some v"
  by (induction xs) auto

lemma insort_key_split: "insort_key f x xs = takeWhile (\<lambda>y. f y < f x) xs @ x # dropWhile (\<lambda>y. f y < f x) xs"
  by (induction xs) (auto simp: not_less)

text \<open>An example: two free blocks, of one page and of two pages.\<close>

definition two_blocks :: mheap where
  "two_blocks = \<lparr>kh_mem = (\<lambda>a. if a = 0x1008 then Some 0x1060 else if a = 0x1010 then Some 4000 else if a = 0x1028 then Some 0x3000
       else if a = 0x3008 then Some 0x3060 else if a = 0x3010 then Some 8096 else if a < 0x6000 then Some 0 else None),
     kh_bin_head = replicate 9 0, kh_big_forward = [0x1000, 0, 0, 0, 0, 0, 0], kh_big_level = 0, kh_newest_big = 0x3000, kh_x = 1, kh_y = 2, kh_z = 3, kh_w = 4,
     kh_heap_start = 0x6000, kh_junk = (\<lambda>a. 0), kh_lock = False\<rparr>"

lemma less_seven: "(\<forall>i < 7. P i) \<longleftrightarrow> P 0 \<and> P 1 \<and> P 2 \<and> P 3 \<and> P 4 \<and> P 5 \<and> P (6 :: nat)"
  by (auto simp: numeral_eq_Suc All_less_Suc)

lemma two_blocks_ok: "skip_ok two_blocks [0x1000, 0x3000] (\<lambda>p. 0)"
  unfolding skip_ok_def less_seven free_big_def paged_def
  by (simp add: two_blocks_def block_size_def ld_def f_size_def f_forward_def level_list_def fwd_def big_head_def)

text \<open>Property C36: putting a free block on the skip list inserts it into the list of free blocks at its place in the order of the sizes, before blocks of its own
  size, whatever levels the random numbers give.\<close>

theorem skip_list_insert_refines:
  assumes "skip_ok h xs lv" "v \<notin> set xs" "free_big h v" "check_head v h = Some ()" "block_size h v \<noteq> 0"
  shows "\<exists>h' lv'. klmalloc_skip_list_insert v h = Some h' \<and> skip_ok h' (insort_key (block_size h) v xs) lv' \<and> (\<forall>x \<in> insert v (set xs). block_size h' x = block_size h x)"
proof -
  obtain n where n: "ld (f_size v) h = Some n" using assms(3) by (auto simp: free_big_def)
  then have b: "block_size h v = n" by (simp add: block_size_def)
  have pg: "paged p" if "p \<in> insert v (set xs)" for p using that assms(1,3) by (auto simp: skip_ok_def free_big_def)
  obtain h' lv' where "klmalloc_skip_list_insert v h = Some h'" "skip_ok h' (below h n xs @ v # beyond h n xs) lv'" and lf: "list_frame (insert v (set xs)) h h'"
    using skip_insert_spec [OF assms(1-4) n] assms(5) b by blast
  moreover have "\<forall>x \<in> insert v (set xs). block_size h' x = block_size h x" using list_frame_block_size [OF lf pg] pg by blast
  ultimately show ?thesis by (auto simp: insort_key_split b below_def beyond_def)
qed

theorem skip_list_insert_refines_witness:
  "\<exists>h' lv'. klmalloc_skip_list_insert 0x4000 (two_blocks\<lparr>kh_mem := (kh_mem two_blocks)(0x4008 \<mapsto> 0x4060, 0x4010 \<mapsto> 4000)\<rparr>) = Some h' \<and>
     skip_ok h' [0x4000, 0x1000, 0x3000] lv'"
proof -
  let ?h = "two_blocks\<lparr>kh_mem := (kh_mem two_blocks)(0x4008 \<mapsto> 0x4060, 0x4010 \<mapsto> 4000)\<rparr>"
  have ok: "skip_ok ?h [0x1000, 0x3000] (\<lambda>p. 0)" unfolding skip_ok_def less_seven free_big_def paged_def
    by (simp add: two_blocks_def block_size_def ld_def f_size_def f_forward_def level_list_def fwd_def big_head_def)
  have v: "free_big ?h 0x4000" unfolding less_seven free_big_def paged_def
    by (simp add: two_blocks_def ld_def f_size_def f_forward_def big_head_def)
  have c: "check_head 0x4000 ?h = Some ()" by (simp add: check_head_def two_blocks_def ld_def f_size_def f_head_def check_def NUM_BINS_def)
  have s: "block_size ?h 0x4000 = 4000" "block_size ?h 0x1000 = 4000" "block_size ?h 0x3000 = 8096" by (simp_all add: block_size_def two_blocks_def ld_def f_size_def)
  show ?thesis using skip_list_insert_refines [OF ok _ v c] s by auto
qed

text \<open>Property C13: the search finds the smallest free block that is large enough, and says that there is none only when there is none; taking that block off the
  skip list leaves the list of the others.\<close>

theorem skip_list_takes_best:
  assumes "skip_ok h xs lv" "\<forall>x \<in> set xs. check_head x h = Some ()"
  shows "case find (\<lambda>x. n \<le> block_size h x) xs of
      None \<Rightarrow> klmalloc_skip_list_findbest n h = Some 0
    | Some v \<Rightarrow> klmalloc_skip_list_findbest n h = Some v \<and> v \<noteq> 0 \<and> (\<forall>x \<in> set xs. n \<le> block_size h x \<longrightarrow> block_size h v \<le> block_size h x) \<and>
        (\<exists>h'. klmalloc_skip_list_delete v h = Some h' \<and> skip_ok h' (remove1 v xs) lv)"
proof (cases "beyond h n xs")
  case Nil
  then have "find (\<lambda>x. n \<le> block_size h x) xs = None" by (simp add: beyond_def find_None_iff not_le)
  then show ?thesis using findbest_spec [OF assms(1), of n] Nil by simp
next
  case (Cons v bs)
  have xs: "xs = below h n xs @ v # bs" using split_lists [of xs h n] Cons by simp
  have sorted: "sorted (map (block_size h) xs)" and dist: "distinct xs" using assms(1) by (simp_all add: skip_ok_def)
  note sp = sorted_split [OF sorted, of n]
  have ge: "n \<le> block_size h v" using sp(2) Cons by simp
  have "find (\<lambda>x. n \<le> block_size h x) (below h n xs @ v # bs) = Some v" by (rule find_split) (use sp(1) ge in auto)
  then have f: "find (\<lambda>x. n \<le> block_size h x) xs = Some v" using xs by simp
  have vx: "v \<in> set xs" using xs by (metis in_set_conv_decomp)
  obtain k where k: "ld (f_size v) h = Some k" "v \<noteq> 0" using assms(1) vx by (auto simp: skip_ok_def free_big_def)
  have kb: "block_size h v = k" using k(1) by (simp add: block_size_def)
  have own: "below h k xs = below h n xs" "beyond h k xs = v # bs" using beyond_larger [OF Cons ge] unfolding kb by blast+
  obtain h' where d: "klmalloc_skip_list_delete v h = Some h'" "skip_ok h' (below h n xs @ bs) lv"
    using skip_delete_spec [OF assms(1) k(1) own(2)] assms(2) vx unfolding own(1) by blast
  have "v \<notin> set (below h n xs)" using sp(1) ge by force
  then have rm: "remove1 v xs = below h n xs @ bs" using arg_cong [OF xs, of "remove1 v"] by (simp add: remove1_append)
  have "block_size h v \<le> block_size h x" if x: "x \<in> set xs" "n \<le> block_size h x" for x
  proof -
    have "x \<in> set (v # bs)" using x sp(1) arg_cong [OF xs, of set] by auto
    moreover have "sorted (map (block_size h) (v # bs))" using sorted xs by (metis map_append sorted_append)
    ultimately show ?thesis by auto
  qed
  then show ?thesis using findbest_spec [OF assms(1), of n] Cons f k(2) d rm by auto
qed

theorem skip_list_takes_best_witness:
  "klmalloc_skip_list_findbest 5000 two_blocks = Some 0x3000 \<and> (\<exists>h'. klmalloc_skip_list_delete 0x3000 two_blocks = Some h' \<and> skip_ok h' [0x1000] (\<lambda>p. 0))"
proof -
  have c: "\<forall>x \<in> set [0x1000, 0x3000]. check_head x two_blocks = Some ()"
    by (simp add: check_head_def two_blocks_def ld_def f_size_def f_head_def check_def NUM_BINS_def)
  have s: "block_size two_blocks 0x1000 = 4000" "block_size two_blocks 0x3000 = 8096" by (simp_all add: block_size_def two_blocks_def ld_def f_size_def)
  show ?thesis using skip_list_takes_best [OF two_blocks_ok c, of 5000] s by simp
qed

end
