(* ===== verification/Kernel_Heap.thy ===== *)
theory Kernel_Heap
  imports Heap_Skip
begin

text \<open>
  The allocator of the kernel, \<open>kernel/misc/malloc.c\<close>: pages of cells of one size for small requests, blocks of whole pages for large ones, and the calls
  with their lock.  \<open>sbrk\<close> is the one of \<open>kernel/arch/x86_64/mmu.c\<close>.
\<close>

section \<open>Bins\<close>

definition BIG_BIN :: u64 where "BIG_BIN = NUM_BINS - 1"
definition SMALLEST_BIN_LOG :: u64 where "SMALLEST_BIN_LOG = 3"
definition BIN_MAGIC :: u64 where "BIN_MAGIC = 0xDEFAD00D"

definition KERNEL_HEAP_START :: ptr where "KERNEL_HEAP_START = 0xFFFFFF0000000000"

definition builtin_clzl :: "u64 \<Rightarrow> nat" where
  "builtin_clzl w = length (takeWhile (\<lambda>i. \<not> bit w i) (rev [0..<64]))"

definition klmalloc_adjust_bin :: "u64 \<Rightarrow> u64" where
  "klmalloc_adjust_bin bin =
     (if bin \<le> SMALLEST_BIN_LOG then 0
      else let bin = bin - (SMALLEST_BIN_LOG + 1) in if bin > BIG_BIN then BIG_BIN else bin)"

definition klmalloc_bin_size :: "u64 \<Rightarrow> u64" where
  "klmalloc_bin_size sz =
     (let bin = of_nat (64 - builtin_clzl sz);
          bin = bin + (if sz AND (sz - 1) \<noteq> 0 then 1 else 0)
      in klmalloc_adjust_bin bin)"


section \<open>Lists of pages\<close>

definition klmalloc_list_decouple :: "nat \<Rightarrow> ptr \<Rightarrow> mheap \<Rightarrow> mheap option" where
  "klmalloc_list_decouple b node h = do {
     nx \<leftarrow> ld (f_next node) h;
     st (f_next node) 0 (h\<lparr>kh_bin_head := (kh_bin_head h)[b := nx]\<rparr>)
   }"

definition klmalloc_list_insert :: "nat \<Rightarrow> ptr \<Rightarrow> mheap \<Rightarrow> mheap option" where
  "klmalloc_list_insert b node h = do {
     h \<leftarrow> st (f_next node) (kh_bin_head h ! b) h;
     Some (h\<lparr>kh_bin_head := (kh_bin_head h)[b := node]\<rparr>)
   }"

definition klmalloc_list_head :: "nat \<Rightarrow> mheap \<Rightarrow> ptr" where
  "klmalloc_list_head b h = kh_bin_head h ! b"


section \<open>Stacks of cells\<close>

definition klmalloc_stack_pop :: "ptr \<Rightarrow> mheap \<Rightarrow> (ptr \<times> mheap) option" where
  "klmalloc_stack_pop header h = do {
     hd \<leftarrow> ld (f_head header) h;
     s \<leftarrow> ld (f_size header) h;
     check (header \<noteq> 0 \<and> hd \<noteq> 0 \<and> hd > header \<and>
       (if s > NUM_BINS then hd < header + s else hd < header + 0x1000 \<and> hd > header + 32 - 1));
     nx \<leftarrow> ld hd h;
     h \<leftarrow> st (f_head header) nx h;
     Some (hd, h)
   }"

definition klmalloc_stack_push :: "ptr \<Rightarrow> ptr \<Rightarrow> mheap \<Rightarrow> mheap option" where
  "klmalloc_stack_push header p h = do {
     s \<leftarrow> ld (f_size header) h;
     check (p \<noteq> 0 \<and> p > header \<and>
       (if s > NUM_BINS then p < header + s
        else (p - 32) AND (push_bit (unat (s + SMALLEST_BIN_LOG)) 1 - 1) = 0 \<and> p < header + 0x1000));
     hd \<leftarrow> ld (f_head header) h;
     h \<leftarrow> st p hd h;
     st (f_head header) p h
   }"

definition klmalloc_stack_empty :: "ptr \<Rightarrow> mheap \<Rightarrow> bool option" where
  "klmalloc_stack_empty header h = do { hd \<leftarrow> ld (f_head header) h; Some (hd = 0) }"


section \<open>Allocating\<close>

text \<open>New pages are mapped and have arbitrary contents; the requests that the function refuses stop the kernel.\<close>

definition sbrk :: "u64 \<Rightarrow> mheap \<Rightarrow> (ptr \<times> mheap) option" where
  "sbrk bytes h =
     (let out = kh_heap_start h
      in if out = 0 then None
         else if bytes = 0 then Some (out, h)
         else if bytes AND 0xFFF \<noteq> 0 \<or> bytes > 0x1F00000 then None
         else Some (out, h\<lparr>kh_mem := (\<lambda>a. if out \<le> a \<and> a < out + bytes \<and> a AND 7 = 0 then Some (kh_junk h a) else kh_mem h a),
                           kh_heap_start := out + bytes\<rparr>))"

function stack_init :: "nat \<Rightarrow> nat \<Rightarrow> nat \<Rightarrow> ptr \<Rightarrow> mheap \<Rightarrow> mheap option" where
  "stack_init i available b base h =
     (if i < available then do {
        h \<leftarrow> st (base + 8 * push_bit b (of_nat i)) (base + 8 * push_bit b (of_nat (i + 1))) h;
        stack_init (i + 1) available b base h
      } else st (base + 8 * push_bit b (of_nat available)) 0 h)"
  by pat_completeness auto
termination by (relation "measure (\<lambda>(i, available, b, base, h). available - i)") auto

declare stack_init.simps [simp del]

definition new_page :: "nat \<Rightarrow> mheap \<Rightarrow> (ptr \<times> mheap) option" where
  "new_page b h = do {
     (p, h) \<leftarrow> sbrk 0x1000 h;
     h \<leftarrow> st (f_magic p) BIN_MAGIC h;
     check (p mod 0x1000 = 0);
     h \<leftarrow> st (f_head p) (p + 32) h;
     h \<leftarrow> klmalloc_list_insert b p h;
     base \<leftarrow> ld (f_head p) h;
     h \<leftarrow> stack_init 0 ((4096 - 32) div 2 ^ (3 + b) - 1) b base h;
     h \<leftarrow> st (f_size p) (of_nat b) h;
     Some (p, h)
   }"

definition malloc_small :: "nat \<Rightarrow> mheap \<Rightarrow> (ptr \<times> mheap) option" where
  "malloc_small b h = do {
     let p = klmalloc_list_head b h;
     (p, h) \<leftarrow> (if p = 0 then new_page b h else do { m \<leftarrow> ld (f_magic p) h; check (m = BIN_MAGIC); Some (p, h) });
     (item, h) \<leftarrow> klmalloc_stack_pop p h;
     empty \<leftarrow> klmalloc_stack_empty p h;
     h \<leftarrow> (if empty then klmalloc_list_decouple b p h else Some h);
     Some (item, h)
   }"

definition new_block :: "u64 \<Rightarrow> mheap \<Rightarrow> (ptr \<times> mheap) option" where
  "new_block sz h = do {
     let pages = (sz + 96) div 0x1000 + 1;
     (p, h) \<leftarrow> sbrk (0x1000 * pages) h;
     h \<leftarrow> st (f_magic p) BIN_MAGIC h;
     check (p mod 0x1000 = 0);
     h \<leftarrow> st (f_size p) (pages * 0x1000 - 96) h;
     s \<leftarrow> ld (f_size p) h;
     check ((s + 96) mod 0x1000 = 0);
     h \<leftarrow> st (f_prev p) (kh_newest_big h) h;
     h \<leftarrow> (if kh_newest_big h \<noteq> 0 then st (f_next (kh_newest_big h)) p h else Some h);
     let h = h\<lparr>kh_newest_big := p\<rparr>;
     h \<leftarrow> st (f_next p) 0 h;
     h \<leftarrow> st (f_head p) 0 h;
     Some (p + 96, h)
   }"

definition malloc_big :: "u64 \<Rightarrow> mheap \<Rightarrow> (ptr \<times> mheap) option" where
  "malloc_big sz h = do {
     p \<leftarrow> klmalloc_skip_list_findbest sz h;
     if p \<noteq> 0 then do {
       s \<leftarrow> ld (f_size p) h;
       check (s \<ge> sz);
       h \<leftarrow> klmalloc_skip_list_delete p h;
       klmalloc_stack_pop p h
     } else new_block sz h
   }"

definition klmalloc :: "u64 \<Rightarrow> mheap \<Rightarrow> (ptr \<times> mheap) option" where
  "klmalloc sz h =
     (if sz = 0 then Some (0, h)
      else let bucket_id = klmalloc_bin_size sz
           in if bucket_id < BIG_BIN then malloc_small (unat bucket_id) h else malloc_big sz h)"


section \<open>Freeing\<close>

definition klfree :: "ptr \<Rightarrow> mheap \<Rightarrow> mheap option" where
  "klfree p h =
     (if p = 0 then Some h
      else let p = (if p mod 0x1000 = 0 then p - 1 else p);
               header = p AND NOT 0xFFF
           in do {
             check (header mod 0x1000 = 0);
             m \<leftarrow> ld (f_magic header) h;
             if m \<noteq> BIN_MAGIC then Some h
             else do {
               bucket_id \<leftarrow> ld (f_size header) h;
               if bucket_id > NUM_BINS then do {
                 hd \<leftarrow> ld (f_head header) h;
                 check (header \<noteq> 0 \<and> hd = 0 \<and> (bucket_id + 96) mod 0x1000 = 0);
                 h \<leftarrow> klmalloc_stack_push header (header + 96) h;
                 hd \<leftarrow> ld (f_head header) h;
                 check (hd \<noteq> 0);
                 klmalloc_skip_list_insert header h
               } else do {
                 empty \<leftarrow> klmalloc_stack_empty header h;
                 h \<leftarrow> (if empty then klmalloc_list_insert (unat bucket_id) header h else Some h);
                 klmalloc_stack_push header p h
               }
             }
           })"


section \<open>The other calls\<close>

definition klvalloc :: "u64 \<Rightarrow> mheap \<Rightarrow> (ptr \<times> mheap) option" where
  "klvalloc sz h = do {
     let true_size = sz + 0x1000 - 96;
     (result, h) \<leftarrow> klmalloc true_size h;
     let out = result + (0x1000 - 96);
     check (out mod 0x1000 = 0);
     Some (out, h)
   }"

text \<open>Words in memory are little endian: of a last word that is only partly covered the low bytes change.\<close>

definition merge_word :: "nat \<Rightarrow> u64 \<Rightarrow> u64 \<Rightarrow> u64" where
  "merge_word r new old = (new AND mask (8 * r)) OR (old AND NOT (mask (8 * r)))"

fun copy_words :: "nat \<Rightarrow> ptr \<Rightarrow> ptr \<Rightarrow> mheap \<Rightarrow> mheap option" where
  "copy_words n dst src h =
     (if n = 0 then Some h
      else do {
        v \<leftarrow> ld src h;
        if n < 8 then do { w \<leftarrow> ld dst h; st dst (merge_word n v w) h }
        else do { h \<leftarrow> st dst v h; copy_words (n - 8) (dst + 8) (src + 8) h }
      })"

fun zero_words :: "nat \<Rightarrow> ptr \<Rightarrow> mheap \<Rightarrow> mheap option" where
  "zero_words n dst h =
     (if n = 0 then Some h
      else if n < 8 then do { w \<leftarrow> ld dst h; st dst (merge_word n 0 w) h }
      else do { h \<leftarrow> st dst 0 h; zero_words (n - 8) (dst + 8) h })"

declare copy_words.simps [simp del] zero_words.simps [simp del]

text \<open>\<open>free\<close> waits for the lock, which a caller inside of the allocator already holds, and loops on an address below the kernel.\<close>

definition free_call :: "ptr \<Rightarrow> mheap \<Rightarrow> mheap option" where
  "free_call p h =
     (if kh_lock h then None
      else if p < KERNEL_HEAP_START then None
      else do { h \<leftarrow> klfree p (h\<lparr>kh_lock := True\<rparr>); Some (h\<lparr>kh_lock := False\<rparr>) })"

definition klrealloc :: "ptr \<Rightarrow> u64 \<Rightarrow> mheap \<Rightarrow> (ptr \<times> mheap) option" where
  "klrealloc p sz h =
     (if p = 0 then klmalloc sz h
      else if sz = 0 then do { h \<leftarrow> free_call p h; Some (0, h) }
      else do {
        let header_old = p AND NOT 0xFFF;
        m \<leftarrow> ld (f_magic header_old) h;
        check (m = BIN_MAGIC);
        old_size \<leftarrow> ld (f_size header_old) h;
        let old_size = (if old_size < BIG_BIN then push_bit (unat (SMALLEST_BIN_LOG + old_size)) 1 else old_size);
        if old_size \<ge> sz then Some (p, h)
        else do {
          (newptr, h) \<leftarrow> klmalloc sz h;
          if newptr \<noteq> 0 then do {
            h \<leftarrow> copy_words (unat old_size) newptr p h;
            h \<leftarrow> klfree p h;
            Some (newptr, h)
          } else Some (0, h)
        }
      })"

definition klcalloc :: "u64 \<Rightarrow> u64 \<Rightarrow> mheap \<Rightarrow> (ptr \<times> mheap) option" where
  "klcalloc nmemb sz h = do {
     (p, h) \<leftarrow> klmalloc (nmemb * sz) h;
     h \<leftarrow> (if p \<noteq> 0 then zero_words (unat (nmemb * sz)) p h else Some h);
     Some (p, h)
   }"

definition locked :: "(mheap \<Rightarrow> (ptr \<times> mheap) option) \<Rightarrow> mheap \<Rightarrow> (ptr \<times> mheap) option" where
  "locked f h =
     (if kh_lock h then None else do { (p, h) \<leftarrow> f (h\<lparr>kh_lock := True\<rparr>); Some (p, h\<lparr>kh_lock := False\<rparr>) })"

definition malloc_call :: "u64 \<Rightarrow> mheap \<Rightarrow> (ptr \<times> mheap) option" where
  "malloc_call sz h = locked (klmalloc sz) h"

definition realloc_call :: "ptr \<Rightarrow> u64 \<Rightarrow> mheap \<Rightarrow> (ptr \<times> mheap) option" where
  "realloc_call p sz h = locked (klrealloc p sz) h"

definition calloc_call :: "u64 \<Rightarrow> u64 \<Rightarrow> mheap \<Rightarrow> (ptr \<times> mheap) option" where
  "calloc_call nmemb sz h = locked (klcalloc nmemb sz) h"

definition valloc_call :: "u64 \<Rightarrow> mheap \<Rightarrow> (ptr \<times> mheap) option" where
  "valloc_call sz h = locked (klvalloc sz) h"

end
