(* ===== verification/Heap_Inv.thy ===== *)
theory Heap_Inv
  imports Kernel_Heap
begin

text \<open>
  What the memory of the heap holds between two calls of the allocator of \<open>kernel/misc/malloc.c\<close>: the pages of cells and the large blocks, the
  lists that lead to the free ones, and the blocks a client owns; and that nothing of it depends on what clients write into their blocks.
\<close>

section \<open>Addresses\<close>

definition span :: "ptr \<Rightarrow> nat \<Rightarrow> ptr set" where
  "span p n = {a. unat p \<le> unat a \<and> unat a < unat p + n}"

definition cell :: "ptr \<Rightarrow> nat \<Rightarrow> nat \<Rightarrow> ptr" where
  "cell p b i = p + of_nat (32 + i * 2 ^ (3 + b))"

definition ncells :: "nat \<Rightarrow> nat" where
  "ncells b = 4064 div 2 ^ (3 + b)"

definition cells :: "ptr \<Rightarrow> nat \<Rightarrow> ptr set" where
  "cells p b = cell p b ` {..<ncells b}"

lemma paged_off: "paged p \<Longrightarrow> n < 4096 \<Longrightarrow> unat (p + of_nat n) = unat p + n"
  using paged_add [of p "of_nat n"] by (simp add: word_less_nat_alt unsigned_of_nat take_bit_nat_eq_self)

lemma paged_room: "paged p \<Longrightarrow> unat p + 4096 \<le> 2 ^ 64"
proof -
  assume "paged p"
  then have "unat p + 4095 = unat (p + of_nat 4095)" by (simp add: paged_off del: of_nat_numeral)
  also have "\<dots> < 2 ^ 64" using unsigned_less [of "p + of_nat 4095"] by simp
  finally show ?thesis by simp
qed

lemma page_of:
  assumes p: "paged p" and q: "unat p \<le> unat q" "unat q < unat p + 4096"
  shows "q AND NOT 0xFFF = p" "q mod 0x1000 = 0 \<longleftrightarrow> q = p"
proof -
  obtain k where k: "unat p = 4096 * k" using p by (auto simp: paged_unat)
  have "unat (q mod 0x1000) = unat q mod 4096" by (simp add: unat_mod_distrib)
  also have "\<dots> = (4096 * k + (unat q - unat p)) mod 4096" using q(1) k by simp
  also have "\<dots> = unat q - unat p" using q(2) by simp
  finally have m: "unat (q mod 0x1000) = unat q - unat p" .
  have "0 = q mod 0x1000 \<longleftrightarrow> unat q = unat p" using m q(1) by (subst word_unat_eq_iff) auto
  then show "q mod 0x1000 = 0 \<longleftrightarrow> q = p" by (auto simp: word_unat_eq_iff [of q])
  have "unat (p + q mod 0x1000) = unat p + unat (q mod 0x1000)"
    by (rule paged_add [OF p]) (use m q(2) in \<open>simp add: word_less_nat_alt\<close>)
  then have "p + q mod 0x1000 = q" using m q(1) by (simp add: word_unat_eq_iff [of _ q])
  moreover have "push_bit 12 (drop_bit 12 q) + q mod 0x1000 = q" using bits_ident [of 12 q] by (simp add: take_bit_eq_mod)
  moreover have "q AND NOT (mask 12) = push_bit 12 (drop_bit 12 q)" by (rule bit_word_eqI) (auto simp: bit_simps)
  then have "q AND NOT 0xFFF = push_bit 12 (drop_bit 12 q)" by (simp add: mask_eq_exp_minus_1)
  ultimately show "q AND NOT 0xFFF = p" by (metis add_right_cancel)
qed

lemma cell_bound: "i < ncells b \<Longrightarrow> 32 + Suc i * 2 ^ (3 + b) \<le> 4096"
proof -
  assume "i < ncells b"
  then have "Suc i * 2 ^ (3 + b) \<le> ncells b * 2 ^ (3 + b)" by (intro mult_le_mono1) simp
  also have "\<dots> \<le> 4064" unfolding ncells_def by (rule div_times_less_eq_dividend)
  finally show ?thesis by simp
qed

lemma unat_cell: "paged p \<Longrightarrow> i < ncells b \<Longrightarrow> unat (cell p b i) = unat p + 32 + i * 2 ^ (3 + b)"
proof -
  assume p: "paged p" and i: "i < ncells b"
  have "32 + (2 ^ (3 + b) + i * 2 ^ (3 + b)) \<le> 4096" "0 < (2 :: nat) ^ (3 + b)" using cell_bound [OF i] by (simp_all only: mult_Suc zero_less_power zero_less_numeral)
  then have "32 + i * 2 ^ (3 + b) < 4096" by linarith
  then show ?thesis unfolding cell_def by (subst paged_off [OF p]) simp_all
qed

lemma cell_span: "paged p \<Longrightarrow> i < ncells b \<Longrightarrow> span (cell p b i) (2 ^ (3 + b)) \<subseteq> span p 4096"
  using cell_bound [of i b] by (auto simp: span_def unat_cell)

lemma cell_inj: "paged p \<Longrightarrow> i < ncells b \<Longrightarrow> j < ncells b \<Longrightarrow> cell p b i = cell p b j \<longleftrightarrow> i = j"
  by (auto simp: word_unat_eq_iff unat_cell)

lemma cell_disjoint:
  assumes "paged p" "i < ncells b" "j < ncells b" "i \<noteq> j"
  shows "span (cell p b i) (2 ^ (3 + b)) \<inter> span (cell p b j) (2 ^ (3 + b)) = {}"
proof -
  have *: "span (cell p b i) (2 ^ (3 + b)) \<inter> span (cell p b j) (2 ^ (3 + b)) = {}" if "i < j" "j < ncells b" for i j
  proof -
    have "Suc i * 2 ^ (3 + b) \<le> j * 2 ^ (3 + b)" using that by (intro mult_right_mono) simp_all
    then show ?thesis using that assms(1) by (auto simp: span_def unat_cell)
  qed
  show ?thesis
  proof (cases "i < j")
    case False
    then have "j < i" using assms(4) by simp
    from * [OF this assms(2)] show ?thesis by (simp add: Int_commute)
  qed (simp add: * assms)
qed

lemma aligned_unat: "a AND 7 = 0 \<longleftrightarrow> unat a mod 8 = 0" for a :: u64
proof -
  have "a AND 7 = take_bit 3 a" by (simp add: take_bit_eq_mask mask_eq_exp_minus_1)
  then have "a AND 7 = 0 \<longleftrightarrow> unat (take_bit 3 a) = 0" by (simp add: word_unat_eq_iff)
  also have "unat (take_bit 3 a) = unat a mod 8" by (simp add: take_bit_eq_mod unat_mod_distrib)
  finally show ?thesis .
qed

lemma paged_aligned: "paged p \<Longrightarrow> n < 4096 \<Longrightarrow> n mod 8 = 0 \<Longrightarrow> (p + of_nat n) AND 7 = 0"
proof -
  assume p: "paged p" and n: "n < 4096" "n mod 8 = 0"
  obtain k where "unat p = 4096 * k" using p by (auto simp: paged_unat)
  moreover obtain m where "n = 8 * m" using n(2) by auto
  ultimately have "unat (p + of_nat n) = 8 * (512 * k + m)" using paged_off [OF p n(1)] by simp
  then show ?thesis by (simp only: aligned_unat mod_mult_self1_is_0)
qed


section \<open>The invariant\<close>

text \<open>A page of cells with its bin and the free cells in the order of its stack, or a large block with its size.\<close>

datatype chunk = Cells nat "ptr list" | Block nat

primrec chunk_len :: "chunk \<Rightarrow> nat" where
  "chunk_len (Cells b fs) = 4096"
| "chunk_len (Block s) = s + 96"

record heap_view =
  hv_chunk :: "ptr \<rightharpoonup> chunk"
  hv_pages :: "nat \<Rightarrow> ptr list"
  hv_free :: "ptr list"
  hv_level :: "ptr \<Rightarrow> nat"

fun linked_from :: "mheap \<Rightarrow> ptr \<Rightarrow> ptr list \<Rightarrow> bool" where
  "linked_from h v [] \<longleftrightarrow> v = 0"
| "linked_from h v (x # xs) \<longleftrightarrow> v = x \<and> x \<noteq> 0 \<and> (\<exists>n. ld x h = Some n \<and> linked_from h n xs)"

fun hchunk_ok :: "mheap \<Rightarrow> bool \<Rightarrow> ptr \<Rightarrow> chunk \<Rightarrow> bool" where
  "hchunk_ok h fr p (Cells b fs) \<longleftrightarrow> b < 9 \<and> ld (f_magic p) h = Some BIN_MAGIC \<and> ld (f_size p) h = Some (of_nat b) \<and> distinct fs \<and> set fs \<subseteq> cells p b \<and>
     (\<exists>v. ld (f_head p) h = Some v \<and> linked_from h v fs)"
| "hchunk_ok h fr p (Block s) \<longleftrightarrow> 4000 \<le> s \<and> (s + 96) mod 4096 = 0 \<and> ld (f_magic p) h = Some BIN_MAGIC \<and> ld (f_size p) h = Some (of_nat s) \<and>
     ld (f_head p) h = Some (if fr then p + 96 else 0) \<and> (fr \<longrightarrow> ld (p + 96) h = Some 0)"

definition layout :: "heap_view \<Rightarrow> mheap \<Rightarrow> bool" where
  "layout g h \<longleftrightarrow> paged (kh_heap_start h) \<and> kh_heap_start h \<noteq> 0 \<and>
     (\<forall>p c. hv_chunk g p = Some c \<longrightarrow> paged p \<and> p \<noteq> 0 \<and> unat p + chunk_len c \<le> unat (kh_heap_start h) \<and>
        (\<forall>a \<in> span p (chunk_len c). a AND 7 = 0 \<longrightarrow> ld a h \<noteq> None)) \<and>
     (\<forall>p c q d. hv_chunk g p = Some c \<and> hv_chunk g q = Some d \<and> p \<noteq> q \<longrightarrow> span p (chunk_len c) \<inter> span q (chunk_len d) = {}) \<and>
     KERNEL_HEAP_START \<le> kh_heap_start h \<and> (\<forall>p \<in> dom (hv_chunk g). KERNEL_HEAP_START \<le> p)"

definition chunks_ok :: "heap_view \<Rightarrow> mheap \<Rightarrow> bool" where
  "chunks_ok g h \<longleftrightarrow> (\<forall>p c. hv_chunk g p = Some c \<longrightarrow> hchunk_ok h (p \<in> set (hv_free g)) p c)"

definition pages_ok :: "heap_view \<Rightarrow> mheap \<Rightarrow> bool" where
  "pages_ok g h \<longleftrightarrow> length (kh_bin_head h) = 9 \<and>
     (\<forall>b < 9. linked_from h (kh_bin_head h ! b) (hv_pages g b) \<and> distinct (hv_pages g b) \<and>
        set (hv_pages g b) = {p. \<exists>fs. hv_chunk g p = Some (Cells b fs) \<and> fs \<noteq> []})"

definition frees_ok :: "heap_view \<Rightarrow> mheap \<Rightarrow> bool" where
  "frees_ok g h \<longleftrightarrow> skip_ok h (hv_free g) (hv_level g) \<and> (\<forall>p \<in> set (hv_free g). \<exists>s. hv_chunk g p = Some (Block s)) \<and>
     (kh_newest_big h = 0 \<or> (\<exists>s. hv_chunk g (kh_newest_big h) = Some (Block s)))"

definition heap_ok :: "heap_view \<Rightarrow> mheap \<Rightarrow> bool" where
  "heap_ok g h \<longleftrightarrow> layout g h \<and> chunks_ok g h \<and> pages_ok g h \<and> frees_ok g h"

text \<open>The blocks that clients own: an address and a length.\<close>

primrec live_of :: "bool \<Rightarrow> ptr \<Rightarrow> chunk \<Rightarrow> (ptr \<times> nat) set" where
  "live_of fr p (Cells b fs) = (\<lambda>c. (c, 2 ^ (3 + b))) ` (cells p b - set fs)"
| "live_of fr p (Block s) = (if fr then {} else {(p + 96, s)})"

definition live_in :: "heap_view \<Rightarrow> ptr set \<Rightarrow> (ptr \<times> nat) set" where
  "live_in g P = (\<Union>p \<in> P \<inter> dom (hv_chunk g). live_of (p \<in> set (hv_free g)) p (the (hv_chunk g p)))"

definition live :: "heap_view \<Rightarrow> (ptr \<times> nat) set" where
  "live g = live_in g UNIV"

lemma layoutD:
  assumes "layout g h" "hv_chunk g p = Some c"
  shows "paged p" "p \<noteq> 0" "unat p + chunk_len c \<le> unat (kh_heap_start h)"
  using assms unfolding layout_def by blast+

lemma layoutI:
  assumes "paged (kh_heap_start h)" "kh_heap_start h \<noteq> 0"
    "\<And>p c. hv_chunk g p = Some c \<Longrightarrow> paged p \<and> p \<noteq> 0 \<and> unat p + chunk_len c \<le> unat (kh_heap_start h)"
    "\<And>p c a. hv_chunk g p = Some c \<Longrightarrow> a \<in> span p (chunk_len c) \<Longrightarrow> a AND 7 = 0 \<Longrightarrow> ld a h \<noteq> None"
    "\<And>p c q d. hv_chunk g p = Some c \<Longrightarrow> hv_chunk g q = Some d \<Longrightarrow> p \<noteq> q \<Longrightarrow> span p (chunk_len c) \<inter> span q (chunk_len d) = {}"
    "KERNEL_HEAP_START \<le> kh_heap_start h" "\<And>p. p \<in> dom (hv_chunk g) \<Longrightarrow> KERNEL_HEAP_START \<le> p"
  shows "layout g h"
  using assms unfolding layout_def by simp

lemma layout_disjoint: "layout g h \<Longrightarrow> hv_chunk g p = Some c \<Longrightarrow> hv_chunk g q = Some d \<Longrightarrow> p \<noteq> q \<Longrightarrow> a \<in> span p (chunk_len c) \<Longrightarrow> a \<notin> span q (chunk_len d)"
  unfolding layout_def by blast

lemma layout_mapped: "layout g h \<Longrightarrow> hv_chunk g p = Some c \<Longrightarrow> a \<in> span p (chunk_len c) \<Longrightarrow> a AND 7 = 0 \<Longrightarrow> ld a h \<noteq> None"
  unfolding layout_def by blast

lemma chunk_len_page: "hchunk_ok h fr p c \<Longrightarrow> 4096 \<le> chunk_len c"
  by (cases c) auto

lemma chunks_okD: "chunks_ok g h \<Longrightarrow> hv_chunk g p = Some c \<Longrightarrow> hchunk_ok h (p \<in> set (hv_free g)) p c"
  by (simp add: chunks_ok_def)

lemma chunk_len_ok: "chunks_ok g h \<Longrightarrow> hv_chunk g p = Some c \<Longrightarrow> 4096 \<le> chunk_len c"
  unfolding chunks_ok_def by (blast intro: chunk_len_page)

text \<open>Words of the page at the start of a chunk.\<close>

lemma page_word: "paged p \<Longrightarrow> n < 4096 \<Longrightarrow> 4096 \<le> len \<Longrightarrow> p + of_nat n \<in> span p len"
  by (simp add: span_def paged_off)

lemma page_words [simp]:
  assumes "paged p" "4096 \<le> len"
  shows "p \<in> span p len" "p + 8 \<in> span p len" "p + 16 \<in> span p len" "p + 24 \<in> span p len" "p + 32 \<in> span p len" "p + 96 \<in> span p len"
  using page_word [OF assms(1) _ assms(2), of 0] page_word [OF assms(1) _ assms(2), of 8] page_word [OF assms(1) _ assms(2), of 16] page_word [OF assms(1) _ assms(2), of 24]
    page_word [OF assms(1) _ assms(2), of 32] page_word [OF assms(1) _ assms(2), of 96] by simp_all

lemma page_aligned [simp]:
  assumes "paged p"
  shows "p AND 7 = 0" "(p + 8) AND 7 = 0" "(p + 16) AND 7 = 0" "(p + 24) AND 7 = 0" "(p + 32) AND 7 = 0" "(p + 96) AND 7 = 0"
  using paged_aligned [OF assms, of 0] paged_aligned [OF assms, of 8] paged_aligned [OF assms, of 16] paged_aligned [OF assms, of 24]
    paged_aligned [OF assms, of 32] paged_aligned [OF assms, of 96] by simp_all

lemma forward_nat: "f_forward i p = p + of_nat (40 + 8 * i)"
  by (simp add: f_forward_def)

lemma forward_word: "paged p \<Longrightarrow> i < 7 \<Longrightarrow> 4096 \<le> len \<Longrightarrow> f_forward i p \<in> span p len \<and> f_forward i p AND 7 = 0"
  unfolding forward_nat by (intro conjI page_word paged_aligned) (simp_all add: mod_simps)

lemma forward_base: "paged p \<Longrightarrow> i < 7 \<Longrightarrow> f_forward i p \<noteq> p"
proof
  assume p: "paged p" and i: "i < 7" and eq: "f_forward i p = p"
  have "unat (p + of_nat (40 + 8 * i)) = unat p + (40 + 8 * i)" by (rule paged_off [OF p]) (use i in simp)
  then show False using eq unfolding forward_nat by simp
qed

lemma cell_word: "paged p \<Longrightarrow> x \<in> cells p b \<Longrightarrow> x \<in> span p 4096 \<and> x AND 7 = 0"
proof -
  assume p: "paged p" and "x \<in> cells p b"
  then obtain i where i: "x = cell p b i" "i < ncells b" by (auto simp: cells_def)
  have "x \<in> span x (2 ^ (3 + b))" by (simp add: span_def)
  then have "x \<in> span p 4096" using cell_span [OF p i(2)] i(1) by blast
  moreover have "32 + i * 2 ^ (3 + b) < 4096" using unat_cell [OF p i(2)] \<open>x \<in> span p 4096\<close> i(1) by (simp add: span_def)
  then have "x AND 7 = 0" unfolding i(1) cell_def by (rule paged_aligned [OF p]) (simp add: power_add)
  ultimately show ?thesis by simp
qed


section \<open>What the invariant depends on\<close>

lemma linked_same: "(\<And>x. x \<in> set xs \<Longrightarrow> ld x h' = ld x h) \<Longrightarrow> linked_from h' v xs = linked_from h v xs"
  by (induction xs arbitrary: v) auto

lemma skip_ok_same:
  assumes same: "\<And>x i. x \<in> set xs \<Longrightarrow> i < 7 \<Longrightarrow> ld (f_forward i x) h' = ld (f_forward i x) h" "\<And>x. x \<in> set xs \<Longrightarrow> ld (f_size x) h' = ld (f_size x) h"
    and flds: "kh_big_forward h' = kh_big_forward h" "kh_big_level h' = kh_big_level h"
  shows "skip_ok h' xs lv = skip_ok h xs lv"
proof -
  have c: "skip_chain i h' big_head (level_list lv i xs) = skip_chain i h big_head (level_list lv i xs)" if "i < 7" for i
    by (rule chain_cong) (use that same(1) flds(1) in \<open>auto simp: fwd_def level_list_def\<close>)
  have f: "free_big h' x = free_big h x" if "x \<in> set xs" for x using same that by (simp add: free_big_def)
  have m: "map (block_size h') xs = map (block_size h) xs" using same(2) by (simp add: block_size_def)
  show ?thesis unfolding skip_ok_def flds m using c f by simp
qed

text \<open>The words of a chunk that are not in a block of a client.\<close>

fun own_words :: "bool \<Rightarrow> ptr \<Rightarrow> chunk \<Rightarrow> ptr set" where
  "own_words fr p (Cells b fs) = span p 32 \<union> (\<Union>x \<in> set fs. span x (2 ^ (3 + b)))"
| "own_words fr p (Block s) = span p (if fr then s + 96 else 96)"

definition own :: "heap_view \<Rightarrow> ptr set" where
  "own g = (\<Union>p \<in> dom (hv_chunk g). own_words (p \<in> set (hv_free g)) p (the (hv_chunk g p)))"

definition live_words :: "heap_view \<Rightarrow> ptr set" where
  "live_words g = (\<Union>(q, n) \<in> live g. span q n)"

lemma own_intro: "hv_chunk g p = Some c \<Longrightarrow> a \<in> own_words (p \<in> set (hv_free g)) p c \<Longrightarrow> a \<in> own g"
  unfolding own_def by force

lemma span_off: "paged p \<Longrightarrow> n < 4096 \<Longrightarrow> n < len \<Longrightarrow> p + of_nat n \<in> span p len"
  by (simp add: span_def paged_off)

lemma header_words:
  assumes "paged p"
  shows "{p, f_head p, f_size p, f_magic p} \<subseteq> own_words fr p c"
proof -
  have "p + of_nat n \<in> span p len" if "n < 32" "32 \<le> len" for n len using that assms by (intro span_off) simp_all
  from this [of 0] this [of 8] this [of 16] this [of 24] show ?thesis by (cases c) (auto simp: f_head_def f_size_def f_magic_def)
qed

lemma off96: "paged p \<Longrightarrow> unat (p + 96) = unat p + 96"
  using paged_off [of p 96] by simp

fun read_words :: "bool \<Rightarrow> ptr \<Rightarrow> chunk \<Rightarrow> ptr set" where
  "read_words fr p (Cells b fs) = {f_head p, f_size p, f_magic p} \<union> set fs"
| "read_words fr p (Block s) = {f_head p, f_size p, f_magic p} \<union> (if fr then {p + 96} else {})"

lemma chunk_ok_reads:
  assumes "hchunk_ok h fr p c" and same: "\<And>a. a \<in> read_words fr p c \<Longrightarrow> ld a h' = ld a h"
  shows "hchunk_ok h' fr p c"
proof (cases c)
  case (Cells b fs)
  have "linked_from h' v fs = linked_from h v fs" for v
    by (rule linked_same) (use same Cells in simp)
  then show ?thesis using assms Cells by simp
next
  case (Block s)
  then show ?thesis using assms by auto
qed

lemma read_own: "paged p \<Longrightarrow> hchunk_ok h fr p c \<Longrightarrow> read_words fr p c \<subseteq> own_words fr p c"
  using header_words [of p fr c] by (cases c) (auto simp: span_def off96)

definition same_dom :: "mheap \<Rightarrow> mheap \<Rightarrow> bool" where
  "same_dom h h' \<longleftrightarrow> (\<forall>a. ld a h' = None \<longleftrightarrow> ld a h = None)"

lemma own_span:
  assumes "layout g h" "chunks_ok g h" "hv_chunk g p = Some c"
  shows "own_words fr p c \<subseteq> span p (chunk_len c)"
proof -
  have p: "paged p" and ok: "hchunk_ok h (p \<in> set (hv_free g)) p c" using layoutD [OF assms(1,3)] assms(2,3) by (auto simp: chunks_ok_def)
  show ?thesis
  proof (cases c)
    case (Cells b fs)
    then have "span x (2 ^ (3 + b)) \<subseteq> span p 4096" if "x \<in> set fs" for x
      using that ok cell_span [OF p] by (fastforce simp: cells_def)
    then show ?thesis using Cells by (auto simp: span_def)
  qed (auto simp: span_def)
qed

text \<open>The words of clients are none of the allocator's.\<close>

lemma live_cases:
  assumes "(q, n) \<in> live g"
  obtains b p fs where "n = 2 ^ (3 + b)" "hv_chunk g p = Some (Cells b fs)" "q \<in> cells p b" "q \<notin> set fs"
  | p where "q = p + 96" "hv_chunk g p = Some (Block n)" "p \<notin> set (hv_free g)"
proof -
  obtain p c where p: "hv_chunk g p = Some c" "(q, n) \<in> live_of (p \<in> set (hv_free g)) p c" using assms by (auto simp: live_def live_in_def)
  then show ?thesis using that by (cases c) (auto split: if_splits)
qed

lemma live_span:
  assumes "layout g h" "chunks_ok g h" "(q, n) \<in> live g"
  obtains p c where "hv_chunk g p = Some c" "span q n \<subseteq> span p (chunk_len c)" "span q n \<inter> own_words (p \<in> set (hv_free g)) p c = {}"
  using assms(3)
proof (cases rule: live_cases)
  case (1 b p fs)
  note p = layoutD(1) [OF assms(1) 1(2)]
  obtain i where i: "q = cell p b i" "i < ncells b" using 1(3) by (auto simp: cells_def)
  have fs: "set fs \<subseteq> cells p b" using assms(2) 1(2) by (force simp: chunks_ok_def)
  have "span q n \<inter> span x (2 ^ (3 + b)) = {}" if x: "x \<in> set fs" for x
  proof -
    have "x \<in> cells p b" using x fs by blast
    then obtain j where j: "x = cell p b j" "j < ncells b" by (auto simp: cells_def)
    then have "i \<noteq> j" using x 1(4) i(1) by auto
    then show ?thesis using cell_disjoint [OF p i(2) j(2)] i(1) j(1) 1(1) by simp
  qed
  moreover have "span q n \<inter> span p 32 = {}" using unat_cell [OF p i(2)] i(1) by (auto simp: span_def)
  moreover have "span q n \<subseteq> span p 4096" using cell_span [OF p i(2)] i(1) 1(1) by simp
  ultimately show ?thesis using that [OF 1(2)] by auto
next
  case (2 p)
  note p = layoutD(1) [OF assms(1) 2(2)]
  show ?thesis by (rule that [OF 2(2)]) (use 2(1,3) off96 [OF p] in \<open>auto simp: span_def\<close>)
qed

lemma live_own: "layout g h \<Longrightarrow> chunks_ok g h \<Longrightarrow> live_words g \<inter> own g = {}"
proof -
  assume l: "layout g h" and c: "chunks_ok g h"
  have "a \<notin> own g" if qn: "(q, n) \<in> live g" and a: "a \<in> span q n" for a q n
  proof
    assume "a \<in> own g"
    then obtain p' c' where p': "hv_chunk g p' = Some c'" "a \<in> own_words (p' \<in> set (hv_free g)) p' c'" by (auto simp: own_def)
    obtain p d where p: "hv_chunk g p = Some d" "span q n \<subseteq> span p (chunk_len d)" "span q n \<inter> own_words (p \<in> set (hv_free g)) p d = {}"
      using live_span [OF l c qn] .
    have "a \<in> span p' (chunk_len c')" using own_span [OF l c p'(1)] p'(2) by blast
    then have "p' = p" using layout_disjoint [OF l p'(1) p(1)] a p(2) by blast
    then show False using p p' a by auto
  qed
  then show ?thesis by (auto simp: live_words_def)
qed

text \<open>No two blocks of clients share a word.\<close>

lemma live_place:
  assumes "layout g h" "(q, n) \<in> live g"
  obtains p b fs i where "hv_chunk g p = Some (Cells b fs)" "n = 2 ^ (3 + b)" "q = cell p b i" "i < ncells b" "span q n \<subseteq> span p 4096"
  | p where "hv_chunk g p = Some (Block n)" "q = p + 96" "span q n \<subseteq> span p (n + 96)"
  using assms(2)
proof (cases rule: live_cases)
  case (1 b p fs)
  then obtain i where i: "q = cell p b i" "i < ncells b" by (auto simp: cells_def)
  show ?thesis using that(1) [OF 1(2,1) i] cell_span [OF layoutD(1) [OF assms(1) 1(2)] i(2)] i 1(1) by simp
next
  case (2 p)
  show ?thesis by (rule that(2) [OF 2(2,1)]) (use 2(1) off96 [OF layoutD(1) [OF assms(1) 2(2)]] in \<open>auto simp: span_def\<close>)
qed

lemma live_disjoint:
  assumes l: "layout g h" and x: "(q, n) \<in> live g" "(q', n') \<in> live g" "(q, n) \<noteq> (q', n')"
  shows "span q n \<inter> span q' n' = {}"
  using l x(1)
proof (cases rule: live_place)
  case a: (1 p b fs i)
  from l x(2) show ?thesis
  proof (cases rule: live_place)
    case b: (1 p' b' fs' j)
    show ?thesis
    proof (cases "p = p'")
      case True
      then have "b' = b" using a(1) b(1) by simp
      then have "i \<noteq> j" using a b True x(3) by auto
      then show ?thesis using cell_disjoint [OF layoutD(1) [OF l a(1)] a(4), of j] a b True \<open>b' = b\<close> by simp
    qed (use layout_disjoint [OF l a(1) b(1)] a(5) b(5) in \<open>auto\<close>)
  next
    case b: (2 p')
    then have "p \<noteq> p'" using a(1) by auto
    then show ?thesis using layout_disjoint [OF l a(1) b(1)] a(5) b(3) by auto
  qed
next
  case a: (2 p)
  from l x(2) show ?thesis
  proof (cases rule: live_place)
    case b: (1 p' b' fs' j)
    then have "p \<noteq> p'" using a(1) by auto
    then show ?thesis using layout_disjoint [OF l a(1) b(1)] a(3) b(5) by auto
  next
    case b: (2 p')
    then have "p \<noteq> p'" using a x(3) by auto
    then show ?thesis using layout_disjoint [OF l a(1) b(1)] a(3) b(3) by auto
  qed
qed

lemma layout_same: "layout g h \<Longrightarrow> same_dom h h' \<Longrightarrow> kh_heap_start h' = kh_heap_start h \<Longrightarrow> layout g h'"
  unfolding layout_def same_dom_def by simp

text \<open>Writes of a client into its blocks.\<close>

lemma heap_ok_client:
  assumes ok: "heap_ok g h" and same: "\<And>a. a \<in> own g \<Longrightarrow> ld a h' = ld a h" and dom: "same_dom h h'"
    and flds: "kh_bin_head h' = kh_bin_head h" "kh_big_forward h' = kh_big_forward h" "kh_big_level h' = kh_big_level h" "kh_newest_big h' = kh_newest_big h"
      "kh_heap_start h' = kh_heap_start h"
  shows "heap_ok g h'"
proof -
  have l: "layout g h" and c: "chunks_ok g h" and pg: "pages_ok g h" and bl: "frees_ok g h" using ok by (simp_all add: heap_ok_def)
  have p: "paged p" if "hv_chunk g p = Some c" for p c using layoutD [OF l that] by simp
  have ow: "ld a h' = ld a h" if "hv_chunk g p = Some c" "a \<in> own_words (p \<in> set (hv_free g)) p c" for a p c
    using same own_intro that by blast
  have "layout g h'" using layout_same [OF l dom flds(5)] .
  moreover have "hchunk_ok h' (q \<in> set (hv_free g)) q d" if q: "hv_chunk g q = Some d" for q d
  proof -
    have "hchunk_ok h (q \<in> set (hv_free g)) q d" using c q by (simp add: chunks_ok_def)
    then show ?thesis using chunk_ok_reads ow [OF q] read_own [OF p [OF q]] by blast
  qed
  then have "chunks_ok g h'" by (simp add: chunks_ok_def)
  moreover have "linked_from h' v (hv_pages g b) = linked_from h v (hv_pages g b)" if b: "b < 9" for b v
  proof (rule linked_same)
    fix x assume "x \<in> set (hv_pages g b)"
    then obtain fs where x: "hv_chunk g x = Some (Cells b fs)" using pg b by (auto simp: pages_ok_def)
    show "ld x h' = ld x h" using ow [OF x] header_words [OF p [OF x]] by blast
  qed
  then have "pages_ok g h'" using pg by (simp add: pages_ok_def flds)
  moreover have "skip_ok h' (hv_free g) (hv_level g) = skip_ok h (hv_free g) (hv_level g)"
  proof (rule skip_ok_same)
    fix x i assume x: "x \<in> set (hv_free g)"
    then obtain s where s: "hv_chunk g x = Some (Block s)" using bl by (auto simp: frees_ok_def)
    then have "4000 \<le> s" using c by (force simp: chunks_ok_def)
    then have "f_size x \<in> own_words True x (Block s)" "i < 7 \<Longrightarrow> f_forward i x \<in> own_words True x (Block s)"
      using header_words [OF p [OF s], of True "Block s"] forward_word [OF p [OF s], of i "s + 96"] by simp_all
    then show "ld (f_size x) h' = ld (f_size x) h" "i < 7 \<Longrightarrow> ld (f_forward i x) h' = ld (f_forward i x) h"
      using ow [OF s] x by simp_all
  qed (use flds in simp_all)
  then have "frees_ok g h'" using bl by (simp add: frees_ok_def flds)
  ultimately show ?thesis by (simp add: heap_ok_def)
qed


section \<open>Changing a chunk\<close>

lemma layout_change:
  assumes l: "layout g h" and c: "hv_chunk g p = Some c" "chunk_len c' = chunk_len c" and dom: "same_dom h h'" and hs: "kh_heap_start h' = kh_heap_start h"
    and g': "hv_chunk g' = (hv_chunk g)(p \<mapsto> c')"
  shows "layout g' h'"
proof -
  have *: "\<exists>d0. hv_chunk g q = Some d0 \<and> chunk_len d0 = chunk_len d" if "hv_chunk g' q = Some d" for q d
    using that c by (auto simp: g' split: if_splits)
  have l': "layout g h'" using layout_same [OF l dom hs] .
  show ?thesis
  proof (rule layoutI)
    fix q d assume "hv_chunk g' q = Some d"
    with * obtain d0 where d0: "hv_chunk g q = Some d0" "chunk_len d0 = chunk_len d" by blast
    then show "paged q \<and> q \<noteq> 0 \<and> unat q + chunk_len d \<le> unat (kh_heap_start h')" using layoutD [OF l' d0(1)] by simp
    show "ld a h' \<noteq> None" if "a \<in> span q (chunk_len d)" "a AND 7 = 0" for a using layout_mapped [OF l' d0(1)] that d0(2) by simp
    fix r e assume "hv_chunk g' r = Some e" and ne: "q \<noteq> r"
    with * obtain e0 where e0: "hv_chunk g r = Some e0" "chunk_len e0 = chunk_len e" by blast
    show "span q (chunk_len d) \<inter> span r (chunk_len e) = {}" using layout_disjoint [OF l' d0(1) e0(1) ne] d0(2) e0(2) by auto
  next
    fix p' assume "p' \<in> dom (hv_chunk g')"
    then have "p' \<in> dom (hv_chunk g)" using * by blast
    then show "KERNEL_HEAP_START \<le> p'" using l' by (simp add: layout_def)
  qed (use l' in \<open>simp_all add: layout_def\<close>)
qed

lemma chunks_change:
  assumes c: "chunks_ok g h" and g': "hv_chunk g' = (hv_chunk g)(p \<mapsto> c')" "\<And>q. q \<noteq> p \<Longrightarrow> q \<in> set (hv_free g') \<longleftrightarrow> q \<in> set (hv_free g)"
    and same: "\<And>q d a. hv_chunk g q = Some d \<Longrightarrow> q \<noteq> p \<Longrightarrow> a \<in> read_words (q \<in> set (hv_free g)) q d \<Longrightarrow> ld a h' = ld a h"
    and p: "hchunk_ok h' (p \<in> set (hv_free g')) p c'"
  shows "chunks_ok g' h'"
  unfolding chunks_ok_def
proof (intro allI impI)
  fix q d assume q: "hv_chunk g' q = Some d"
  show "hchunk_ok h' (q \<in> set (hv_free g')) q d"
  proof (cases "q = p")
    case False
    then have d: "hv_chunk g q = Some d" using q g'(1) by simp
    then have "hchunk_ok h (q \<in> set (hv_free g)) q d" using c by (simp add: chunks_ok_def)
    then show ?thesis using chunk_ok_reads same [OF d False] g'(2) [OF False] by simp
  qed (use p q g'(1) in simp)
qed

lemma page_reads:
  assumes l: "layout g h" and c: "chunks_ok g h" and pg: "pages_ok g h" and x: "x \<in> set (hv_pages g b)" "b < 9"
  obtains fs where "hv_chunk g x = Some (Cells b fs)" "fs \<noteq> []" "paged x" "x \<in> own_words (x \<in> set (hv_free g)) x (Cells b fs)"
proof -
  obtain fs where f: "hv_chunk g x = Some (Cells b fs)" "fs \<noteq> []" using pg x by (auto simp: pages_ok_def)
  from that [OF f] layoutD(1) [OF l f(1)] show ?thesis by (simp add: span_def)
qed

lemma block_reads:
  assumes l: "layout g h" and c: "chunks_ok g h" and bl: "frees_ok g h" and x: "x \<in> set (hv_free g)"
  obtains s where "hv_chunk g x = Some (Block s)" "paged x" "4000 \<le> s" "f_size x \<in> own_words True x (Block s)"
    "\<And>i. i < 7 \<Longrightarrow> f_forward i x \<in> own_words True x (Block s)"
proof -
  obtain s where s: "hv_chunk g x = Some (Block s)" using bl x by (auto simp: frees_ok_def)
  have p: "paged x" and n: "4000 \<le> s" using layoutD(1) [OF l s] c s by (force simp: chunks_ok_def)+
  show ?thesis using that [OF s p n] header_words [OF p, of True "Block s"] forward_word [OF p, of _ "s + 96"] n by simp
qed

lemma pages_change:
  assumes pg: "pages_ok g h" and b: "b < 9" and old: "hv_chunk g p = None \<or> (\<exists>fs. hv_chunk g p = Some (Cells b fs))"
    and g': "hv_chunk g' = (hv_chunk g)(p \<mapsto> Cells b fs')" "hv_pages g' = (hv_pages g)(b := ps)"
    and bins: "kh_bin_head h' = (kh_bin_head h)[b := v]"
    and same: "\<And>b' x. b' < 9 \<Longrightarrow> b' \<noteq> b \<Longrightarrow> x \<in> set (hv_pages g b') \<Longrightarrow> ld x h' = ld x h"
    and ps: "linked_from h' v ps" "distinct ps" "set ps = set (hv_pages g b) - {p} \<union> (if fs' = [] then {} else {p})"
  shows "pages_ok g' h'"
proof -
  have len: "length (kh_bin_head h) = 9" and old_set: "set (hv_pages g b) = {p. \<exists>fs. hv_chunk g p = Some (Cells b fs) \<and> fs \<noteq> []}" using pg b by (simp_all add: pages_ok_def)
  have "linked_from h' (kh_bin_head h' ! b') (hv_pages g' b') \<and> distinct (hv_pages g' b') \<and>
      set (hv_pages g' b') = {p. \<exists>fs. hv_chunk g' p = Some (Cells b' fs) \<and> fs \<noteq> []}" if b': "b' < 9" for b'
  proof (cases "b' = b")
    case True
    have "set ps = {q. \<exists>fs. hv_chunk g' q = Some (Cells b fs) \<and> fs \<noteq> []}" using ps(3) old_set by (auto simp: g')
    then show ?thesis using True ps len b by (simp add: g'(2) bins)
  next
    case False
    have "linked_from h' w (hv_pages g b') = linked_from h w (hv_pages g b')" for w by (rule linked_same) (rule same [OF b' False])
    moreover have "{p. \<exists>fs. hv_chunk g' p = Some (Cells b' fs) \<and> fs \<noteq> []} = {p. \<exists>fs. hv_chunk g p = Some (Cells b' fs) \<and> fs \<noteq> []}"
      using old False by (auto simp: g'(1))
    ultimately show ?thesis using False pg b' by (simp add: pages_ok_def g'(2) bins)
  qed
  then show ?thesis using len by (simp add: pages_ok_def bins)
qed

lemma pages_keep:
  assumes pg: "pages_ok g h" and g': "hv_pages g' = hv_pages g" "\<And>q b fs. hv_chunk g' q = Some (Cells b fs) \<longleftrightarrow> hv_chunk g q = Some (Cells b fs)"
    and same: "kh_bin_head h' = kh_bin_head h" "\<And>b x. b < 9 \<Longrightarrow> x \<in> set (hv_pages g b) \<Longrightarrow> ld x h' = ld x h"
  shows "pages_ok g' h'"
proof -
  have "linked_from h' w (hv_pages g b) = linked_from h w (hv_pages g b)" if "b < 9" for w b by (rule linked_same) (rule same(2) [OF that])
  then show ?thesis using pg by (simp add: pages_ok_def g' same(1))
qed

lemma blocks_keep:
  assumes bl: "frees_ok g h" and g': "hv_free g' = hv_free g" "hv_level g' = hv_level g"
      "\<And>q s. hv_chunk g q = Some (Block s) \<Longrightarrow> hv_chunk g' q = Some (Block s)"
    and flds: "kh_big_forward h' = kh_big_forward h" "kh_big_level h' = kh_big_level h" "kh_newest_big h' = kh_newest_big h"
    and same: "\<And>x. x \<in> set (hv_free g) \<Longrightarrow> ld (f_size x) h' = ld (f_size x) h" "\<And>x i. x \<in> set (hv_free g) \<Longrightarrow> i < 7 \<Longrightarrow> ld (f_forward i x) h' = ld (f_forward i x) h"
  shows "frees_ok g' h'"
proof -
  have "skip_ok h' (hv_free g) (hv_level g) = skip_ok h (hv_free g) (hv_level g)"
    by (rule skip_ok_same [OF same(2,1) flds(1,2)])
  then show ?thesis using bl g'(3) unfolding frees_ok_def g'(1,2) flds(3) by metis
qed


section \<open>The blocks of clients\<close>

lemma live_split: "live g = live_in g {p} \<union> live_in g (- {p})"
  unfolding live_def live_in_def by blast

lemma live_at: "hv_chunk g p = Some c \<Longrightarrow> live_in g {p} = live_of (p \<in> set (hv_free g)) p c"
  by (auto simp: live_in_def)

lemma live_at_none: "hv_chunk g p = None \<Longrightarrow> live_in g {p} = {}"
  by (auto simp: live_in_def)

lemma live_others:
  assumes "\<And>q. q \<noteq> p \<Longrightarrow> hv_chunk g' q = hv_chunk g q" "\<And>q. q \<noteq> p \<Longrightarrow> q \<in> set (hv_free g') \<longleftrightarrow> q \<in> set (hv_free g)"
  shows "live_in g' (- {p}) = live_in g (- {p})"
proof -
  have "- {p} \<inter> dom (hv_chunk g') = - {p} \<inter> dom (hv_chunk g)" using assms(1) by (auto simp: domIff)
  moreover have "(\<Union>q \<in> - {p} \<inter> dom (hv_chunk g). live_of (q \<in> set (hv_free g')) q (the (hv_chunk g' q))) =
      (\<Union>q \<in> - {p} \<inter> dom (hv_chunk g). live_of (q \<in> set (hv_free g)) q (the (hv_chunk g q)))"
    by (rule SUP_cong) (use assms in auto)
  ultimately show ?thesis by (simp add: live_in_def)
qed

lemma live_pop:
  assumes "hv_chunk g p = Some (Cells b (x # fs))" "x \<in> cells p b" "x \<notin> set fs" "hv_chunk g' = (hv_chunk g)(p \<mapsto> Cells b fs)" "hv_free g' = hv_free g"
  shows "live g' = insert (x, 2 ^ (3 + b)) (live g)"
proof -
  have "live_in g' {p} = insert (x, 2 ^ (3 + b)) (live_in g {p})"
    using assms(2,3) live_at [OF assms(1)] live_at [of g' p "Cells b fs"] by (auto simp: assms(4))
  then show ?thesis using live_split [of g p] live_split [of g' p] live_others [of p g' g] by (simp add: assms(4,5))
qed

lemma live_take:
  assumes "hv_chunk g' p = Some (Block s)" "p \<notin> set (hv_free g')" "\<And>q. q \<noteq> p \<Longrightarrow> hv_chunk g' q = hv_chunk g q" "\<And>q. q \<noteq> p \<Longrightarrow> q \<in> set (hv_free g') \<longleftrightarrow> q \<in> set (hv_free g)"
    "live_in g {p} = {}"
  shows "live g' = insert (p + 96, s) (live g)"
  using live_split [of g p] live_split [of g' p] live_others [OF assms(3,4)] live_at [OF assms(1)] assms(2,5) by simp

lemma live_full:
  assumes "hv_chunk g p = None" "hv_chunk g' = (hv_chunk g)(p \<mapsto> Cells b fs)" "set fs = cells p b" "hv_free g' = hv_free g"
  shows "live g' = live g"
  using live_split [of g p] live_split [of g' p] live_others [of p g' g] live_at_none [OF assms(1)] live_at [of g' p "Cells b fs"] assms(2-4) by simp

lemma live_fresh:
  assumes "layout g h" "chunks_ok g h" "x \<in> own g" "0 < n"
  shows "(x, n) \<notin> live g"
proof
  assume "(x, n) \<in> live g"
  then have "x \<in> live_words g" using assms(4) by (force simp: live_words_def span_def)
  then show False using live_own [OF assms(1,2)] assms(3) by blast
qed

end
