(* ===== verification/Heap_Small.thy ===== *)
theory Heap_Small
  imports Heap_Inv
begin

text \<open>
  The small requests of \<open>kernel/misc/malloc.c\<close>: taking a cell from a page, starting a page, and putting a cell back keep the invariant of the heap,
  and leave the blocks of clients as they are.
\<close>

section \<open>Reading and writing\<close>

lemma st_some: "ld a h \<noteq> None \<Longrightarrow> st a v h = Some (h\<lparr>kh_mem := (kh_mem h)(a \<mapsto> v)\<rparr>)"
  by (simp add: st_def ld_def)

lemma ld_upd [simp]: "ld a (h\<lparr>kh_mem := (kh_mem h)(b \<mapsto> v)\<rparr>) = (if a = b then Some v else ld a h)"
  by (simp add: ld_def)

lemma ld_flds [simp]: "ld a (h\<lparr>kh_bin_head := x\<rparr>) = ld a h" "ld a (h\<lparr>kh_newest_big := y\<rparr>) = ld a h"
  by (simp_all add: ld_def)

text \<open>What an operation on small cells may change.\<close>

definition small_frame :: "mheap \<Rightarrow> mheap \<Rightarrow> bool" where
  "small_frame h h' \<longleftrightarrow> kh_big_forward h' = kh_big_forward h \<and> kh_big_level h' = kh_big_level h \<and> kh_newest_big h' = kh_newest_big h \<and>
     kh_heap_start h' = kh_heap_start h \<and> kh_junk h' = kh_junk h \<and> kh_lock h' = kh_lock h \<and> same_dom h h'"

lemma linked_head: "linked_from h v xs \<Longrightarrow> v = (case xs of [] \<Rightarrow> 0 | x # _ \<Rightarrow> x)"
  by (cases xs) auto

lemma page_header_neq:
  assumes "paged p"
  shows "f_head p \<noteq> p" "f_size p \<noteq> p" "f_magic p \<noteq> p" "f_size p \<noteq> f_head p" "f_magic p \<noteq> f_head p" "f_size p \<noteq> f_magic p"
  by (simp_all add: f_head_def f_size_def f_magic_def)

lemma cell_header_neq:
  assumes "paged p" "x \<in> cells p b"
  shows "x \<noteq> p" "x \<noteq> f_head p" "x \<noteq> f_size p" "x \<noteq> f_magic p"
proof -
  obtain i where i: "x = cell p b i" "i < ncells b" using assms(2) by (auto simp: cells_def)
  have x: "unat x \<ge> unat p + 32" using unat_cell [OF assms(1) i(2)] i(1) by simp
  have "unat (p + of_nat n) < unat p + 32" if "n < 32" for n using paged_off [OF assms(1), of n] that by simp
  from this [of 0] this [of 8] this [of 16] this [of 24] x show "x \<noteq> p" "x \<noteq> f_head p" "x \<noteq> f_size p" "x \<noteq> f_magic p"
    by (auto simp: f_head_def f_size_def f_magic_def)
qed

text \<open>Changes inside of one page of cells.\<close>

lemma heap_ok_page:
  assumes ok: "heap_ok g h" and p: "hv_chunk g p = Some (Cells b fs)" and fr: "small_frame h h'"
    and same: "\<And>a. a \<notin> span p 4096 \<Longrightarrow> ld a h' = ld a h"
    and g': "g' = g\<lparr>hv_chunk := (hv_chunk g)(p \<mapsto> Cells b fs'), hv_pages := (hv_pages g)(b := ps)\<rparr>"
    and new: "hchunk_ok h' False p (Cells b fs')" and bins: "kh_bin_head h' = (kh_bin_head h)[b := v]"
    and ps: "linked_from h' v ps" "distinct ps" "set ps = set (hv_pages g b) - {p} \<union> (if fs' = [] then {} else {p})"
  shows "heap_ok g' h'"
proof -
  have l: "layout g h" and c: "chunks_ok g h" and pg: "pages_ok g h" and bl: "frees_ok g h" using ok by (simp_all add: heap_ok_def)
  have ow: "ld a h' = ld a h" if "hv_chunk g q = Some d" "q \<noteq> p" "a \<in> own_words (q \<in> set (hv_free g)) q d" for a q d
    using layout_disjoint [OF l that(1) p that(2)] own_span [OF l c that(1)] that(3) same [of a] by auto
  have dom: "same_dom h h'" "kh_heap_start h' = kh_heap_start h" using fr by (simp_all add: small_frame_def)
  have b: "b < 9" using c p by (force simp: chunks_ok_def)
  have nf: "p \<notin> set (hv_free g)" using bl p by (force simp: frees_ok_def)
  have "layout g' h'" by (rule layout_change [OF l p _ dom]) (simp_all add: g')
  moreover have "chunks_ok g' h'"
  proof (rule chunks_change [OF c])
    show "hv_chunk g' = (hv_chunk g)(p \<mapsto> Cells b fs')" "\<And>q. q \<noteq> p \<Longrightarrow> q \<in> set (hv_free g') \<longleftrightarrow> q \<in> set (hv_free g)" by (simp_all add: g')
    show "hchunk_ok h' (p \<in> set (hv_free g')) p (Cells b fs')" using new by simp
    fix q d a assume q: "hv_chunk g q = Some d" "q \<noteq> p" "a \<in> read_words (q \<in> set (hv_free g)) q d"
    have "hchunk_ok h (q \<in> set (hv_free g)) q d" using c q(1) by (simp add: chunks_ok_def)
    then show "ld a h' = ld a h" using ow [OF q(1,2)] read_own [OF layoutD(1) [OF l q(1)]] q(3) by blast
  qed
  moreover have "pages_ok g' h'"
  proof (rule pages_change [OF pg b _ _ _ bins _ ps])
    fix b' x assume b': "b' < 9" "b' \<noteq> b" "x \<in> set (hv_pages g b')"
    from page_reads [OF l c pg b'(3,1)] obtain fs1 where f: "hv_chunk g x = Some (Cells b' fs1)" "x \<in> own_words (x \<in> set (hv_free g)) x (Cells b' fs1)" by metis
    have "x \<noteq> p" using f(1) p b'(2) by auto
    then show "ld x h' = ld x h" by (rule ow [OF f(1) _ f(2)])
  qed (use p in \<open>simp_all add: g'\<close>)
  moreover have "frees_ok g' h'"
  proof (rule blocks_keep [OF bl])
    fix x assume x: "x \<in> set (hv_free g)"
    then have ne: "x \<noteq> p" using nf by auto
    from block_reads [OF l c bl x] obtain s where s: "hv_chunk g x = Some (Block s)" "f_size x \<in> own_words True x (Block s)"
      "\<And>i. i < 7 \<Longrightarrow> f_forward i x \<in> own_words True x (Block s)" by metis
    show "ld (f_size x) h' = ld (f_size x) h" using ow [OF s(1) ne] s(2) x by simp
    show "ld (f_forward i x) h' = ld (f_forward i x) h" if "i < 7" for i using ow [OF s(1) ne] s(3) [OF that] x by simp
  qed (use fr p in \<open>auto simp: g' small_frame_def\<close>)
  ultimately show ?thesis by (simp add: heap_ok_def)
qed


section \<open>Taking a cell\<close>

lemma page_bounds:
  assumes "layout g h" "hv_chunk g p = Some c" "4096 \<le> chunk_len c"
  shows "unat (p + 0x1000) = unat p + 4096" "unat (p + 32 - 1) = unat p + 31"
proof -
  have "unat (kh_heap_start h) < 2 ^ 64" using unsigned_less [of "kh_heap_start h"] by simp
  then have "unat p + 4096 < 2 ^ 64" using layoutD(3) [OF assms(1,2)] assms(3) by linarith
  then show "unat (p + 0x1000) = unat p + 4096" by (simp add: unat_word_ariths)
  have "p + 32 - 1 = p + of_nat 31" by simp
  then show "unat (p + 32 - 1) = unat p + 31" using paged_off [OF layoutD(1) [OF assms(1,2)], of 31] by (simp add: add.commute)
qed

lemma cell_range:
  assumes "paged p" "x \<in> cells p b"
  shows "unat p + 32 \<le> unat x" "unat x < unat p + 4096"
proof -
  obtain i where i: "x = cell p b i" "i < ncells b" using assms(2) by (auto simp: cells_def)
  show "unat p + 32 \<le> unat x" using unat_cell [OF assms(1) i(2)] i(1) by simp
  show "unat x < unat p + 4096" using cell_word [OF assms] by (simp add: span_def)
qed

lemma page_next_neq: "paged p \<Longrightarrow> paged x \<Longrightarrow> x \<noteq> f_head p"
  using page_off [of x p 0 8] by (auto simp: f_head_def)

lemma bin_word: "b < 9 \<Longrightarrow> \<not> (of_nat b :: u64) > NUM_BINS"
  by (simp add: NUM_BINS_def word_less_nat_alt unsigned_of_nat take_bit_nat_eq_self)

lemma chunk_mapped:
  assumes "layout g h" "hv_chunk g p = Some c" "4096 \<le> chunk_len c"
  shows "ld p h \<noteq> None" "ld (f_head p) h \<noteq> None" "ld (f_size p) h \<noteq> None" "ld (f_magic p) h \<noteq> None"
  using layout_mapped [OF assms(1,2)] layoutD(1) [OF assms(1,2)] assms(3) by (simp_all add: f_head_def f_size_def f_magic_def)

lemma stack_pop_cell:
  assumes l: "layout g h" and p: "hv_chunk g p = Some (Cells b (x # fs))" and ok: "hchunk_ok h fr p (Cells b (x # fs))"
  obtains n where "klmalloc_stack_pop p h = Some (x, h\<lparr>kh_mem := (kh_mem h)(f_head p \<mapsto> n)\<rparr>)" "linked_from h n fs" "x \<in> cells p b" "x \<notin> set fs" "b < 9"
proof -
  have pp: "paged p" "p \<noteq> 0" using layoutD [OF l p] by simp_all
  have b: "b < 9" and x: "x \<in> cells p b" "x \<notin> set fs" "ld (f_head p) h = Some x" "x \<noteq> 0" and sz: "ld (f_size p) h = Some (of_nat b)" using ok by auto
  obtain n where n: "ld x h = Some n" "linked_from h n fs" using ok by auto
  note r = cell_range [OF pp(1) x(1)] and bd = page_bounds [OF l p]
  have "klmalloc_stack_pop p h = Some (x, h\<lparr>kh_mem := (kh_mem h)(f_head p \<mapsto> n)\<rparr>)"
    using pp(2) x n sz bin_word [OF b] r bd by (simp add: klmalloc_stack_pop_def check_def st_some word_less_nat_alt)
  then show ?thesis using that n x b by blast
qed

lemma same_dom_upd: "ld a h \<noteq> None \<Longrightarrow> same_dom h (h\<lparr>kh_mem := (kh_mem h)(a \<mapsto> v)\<rparr>)"
  by (auto simp: same_dom_def)

definition take_cell :: "nat \<Rightarrow> ptr \<Rightarrow> mheap \<Rightarrow> (ptr \<times> mheap) option" where
  "take_cell b p h = do {
     (item, h) \<leftarrow> klmalloc_stack_pop p h;
     empty \<leftarrow> klmalloc_stack_empty p h;
     h \<leftarrow> (if empty then klmalloc_list_decouple b p h else Some h);
     Some (item, h)
   }"

lemma take_cell_spec:
  assumes ok: "heap_ok g h" and p: "hv_chunk g p = Some (Cells b (x # fs))" and pgs: "hv_pages g b = p # ps"
  shows "\<exists>h' g'. take_cell b p h = Some (x, h') \<and> heap_ok g' h' \<and> live g' = insert (x, 2 ^ (3 + b)) (live g) \<and> small_frame h h' \<and>
    (\<forall>a. a \<noteq> p \<and> a \<noteq> f_head p \<longrightarrow> ld a h' = ld a h)"
proof -
  have l: "layout g h" and c: "chunks_ok g h" and pg: "pages_ok g h" and bl: "frees_ok g h" using ok by (simp_all add: heap_ok_def)
  have pp: "paged p" using layoutD [OF l p] by simp
  have cok: "hchunk_ok h False p (Cells b (x # fs))" using c p by (force simp: chunks_ok_def)
  obtain n where pop: "klmalloc_stack_pop p h = Some (x, h\<lparr>kh_mem := (kh_mem h)(f_head p \<mapsto> n)\<rparr>)"
    and n: "linked_from h n fs" and x: "x \<in> cells p b" "x \<notin> set fs" and b: "b < 9" using stack_pop_cell [OF l p cok] .
  let ?h1 = "h\<lparr>kh_mem := (kh_mem h)(f_head p \<mapsto> n)\<rparr>"
  have e: "n = 0 \<longleftrightarrow> fs = []" using n by (cases fs) auto
  have fsc: "set fs \<subseteq> cells p b" using cok by simp
  note mp = chunk_mapped [OF l p] and neq = page_header_neq [OF pp]
  have lk: "linked_from h (kh_bin_head h ! b) (p # ps)" "distinct (p # ps)" and blen: "length (kh_bin_head h) = 9" using pg b pgs by (auto simp: pages_ok_def)
  obtain m where m: "ld p h = Some m" "linked_from h m ps" using lk(1) by auto
  have pgd: "paged y" if "y \<in> set (p # ps)" for y using page_reads [OF l c pg, of y b] that pgs b by metis
  have spn: "f_head p \<in> span p 4096" "p \<in> span p 4096" using pp by (simp_all add: f_head_def)
  define h' where "h' = (if fs = [] then ?h1\<lparr>kh_bin_head := (kh_bin_head h)[b := m], kh_mem := (kh_mem ?h1)(p \<mapsto> 0)\<rparr> else ?h1)"
  define v where "v = (if fs = [] then m else kh_bin_head h ! b)"
  define ps' where "ps' = (if fs = [] then ps else p # ps)"
  let ?g = "g\<lparr>hv_chunk := (hv_chunk g)(p \<mapsto> Cells b fs), hv_pages := (hv_pages g)(b := ps')\<rparr>"
  have same: "ld a h' = ld a h" if "a \<noteq> p" "a \<noteq> f_head p" for a using that by (simp add: h'_def ld_def)
  have run: "take_cell b p h = Some (x, h')"
    using pop e mp m neq by (simp add: take_cell_def klmalloc_stack_empty_def klmalloc_list_decouple_def h'_def f_next_def st_def ld_def)
  have fr: "small_frame h h'" using mp by (auto simp: small_frame_def h'_def same_dom_def ld_def)
  have hd: "ld (f_head p) h' = Some n" using neq by (simp add: h'_def ld_def)
  have "linked_from h' n fs = linked_from h n fs" by (rule linked_same) (use same cell_header_neq [OF pp] fsc in blast)
  then have new: "hchunk_ok h' False p (Cells b fs)" using cok hd n same [of "f_magic p"] same [of "f_size p"] neq by simp
  have bins: "kh_bin_head h' = (kh_bin_head h)[b := v]" by (simp add: h'_def v_def)
  have lk': "linked_from h' v ps'"
  proof (cases "fs = []")
    case True
    have "ld y h' = ld y h" if "y \<in> set ps" for y by (rule same) (use that lk(2) pgd [of y] page_next_neq [OF pp] in auto)
    then have "linked_from h' m ps = linked_from h m ps" by (rule linked_same)
    then show ?thesis using True m by (simp add: v_def ps'_def)
  next
    case False
    have "linked_from h' (kh_bin_head h ! b) (p # ps) = linked_from h (kh_bin_head h ! b) (p # ps)"
      by (rule linked_same) (use False pgd page_next_neq [OF pp] in \<open>auto simp: h'_def\<close>)
    then show ?thesis using False lk(1) by (simp only: v_def ps'_def if_False)
  qed
  have ps'_set: "distinct ps'" "set ps' = set (hv_pages g b) - {p} \<union> (if fs = [] then {} else {p})" using lk(2) by (auto simp: ps'_def pgs)
  have outside: "ld a h' = ld a h" if "a \<notin> span p 4096" for a using same [of a] spn that by auto
  have "heap_ok ?g h'" by (rule heap_ok_page [OF ok p fr outside refl new bins lk' ps'_set])
  moreover have "live ?g = insert (x, 2 ^ (3 + b)) (live g)" by (rule live_pop [OF p x]) simp_all
  ultimately show ?thesis using run fr same by blast
qed


section \<open>A new page\<close>

lemma cell_base: "p + 32 + 8 * push_bit b (of_nat i) = cell p b i"
  by (simp add: cell_def push_bit_eq_mult power_add mult.commute mult.left_commute)

lemma ncells_pos: "b < 9 \<Longrightarrow> 1 \<le> ncells b"
proof -
  assume "b < 9"
  then have "(2 :: nat) ^ (3 + b) \<le> 2 ^ 11" by (intro power_increasing) simp_all
  then show ?thesis by (simp add: ncells_def Suc_le_eq div_greater_zero_iff)
qed

lemma stack_init_spec:
  assumes "paged p" "\<And>x. x \<in> cells p b \<Longrightarrow> ld x h \<noteq> None" "i \<le> n" "n < ncells b"
  shows "\<exists>h'. stack_init i n b (p + 32) h = Some h' \<and> small_frame h h' \<and> kh_bin_head h' = kh_bin_head h \<and>
    linked_from h' (cell p b i) (map (cell p b) [i..<Suc n]) \<and> (\<forall>a. a \<notin> cell p b ` {i..n} \<longrightarrow> ld a h' = ld a h)"
  using assms(2-)
proof (induction "n - i" arbitrary: i h)
  case 0
  then have i: "i = n" by simp
  have "cell p b n \<in> cells p b" using 0 by (auto simp: cells_def)
  then have m: "ld (cell p b n) h \<noteq> None" "cell p b n \<noteq> 0" using 0(2) cell_range(1) [OF assms(1)] by (simp, fastforce)
  let ?h = "h\<lparr>kh_mem := (kh_mem h)(cell p b n \<mapsto> 0)\<rparr>"
  have "stack_init i n b (p + 32) h = Some ?h" using m(1) by (subst stack_init.simps) (simp add: i st_some cell_base)
  then show ?case using m i by (intro exI [of _ ?h]) (simp add: small_frame_def same_dom_upd)
next
  case (Suc k)
  then have i: "i < n" by simp
  have ci: "cell p b i \<in> cells p b" using Suc.prems i by (auto simp: cells_def)
  then have m: "ld (cell p b i) h \<noteq> None" "cell p b i \<noteq> 0" using Suc.prems(1) cell_range(1) [OF assms(1)] by (simp, fastforce)
  let ?h = "h\<lparr>kh_mem := (kh_mem h)(cell p b i \<mapsto> cell p b (Suc i))\<rparr>"
  have st: "stack_init i n b (p + 32) h = stack_init (Suc i) n b (p + 32) ?h" using m(1) i cell_base [of p b "Suc i"]
    by (subst stack_init.simps) (simp add: st_some cell_base)
  have k: "k = n - Suc i" using Suc.hyps(2) by simp
  have dm: "ld x ?h \<noteq> None" if "x \<in> cells p b" for x using Suc.prems(1) [OF that] by simp
  obtain h' where h': "stack_init (Suc i) n b (p + 32) ?h = Some h'" "small_frame ?h h'" "kh_bin_head h' = kh_bin_head ?h"
      "linked_from h' (cell p b (Suc i)) (map (cell p b) [Suc i..<Suc n])" "\<forall>a. a \<notin> cell p b ` {Suc i..n} \<longrightarrow> ld a h' = ld a ?h"
    using Suc.hyps(1) [OF k dm Suc_leI [OF i] Suc.prems(3)] by blast
  have "cell p b i \<notin> cell p b ` {Suc i..n}" using cell_inj [OF assms(1)] Suc.prems(3) by fastforce
  then have li: "ld (cell p b i) h' = Some (cell p b (Suc i))" using h'(5) by simp
  have "[i..<Suc n] = i # [Suc i..<Suc n]" using i by (simp add: upt_conv_Cons)
  then have "linked_from h' (cell p b i) (map (cell p b) [i..<Suc n])" using li m(2) h'(4) by simp
  moreover have "small_frame h h'" using h'(2) m(1) by (auto simp: small_frame_def same_dom_def split: if_splits)
  moreover have "ld a h' = ld a h" if "a \<notin> cell p b ` {i..n}" for a
  proof -
    have "a \<notin> cell p b ` {Suc i..n}" "a \<noteq> cell p b i" using that i by auto
    then show ?thesis using h'(5) by simp
  qed
  ultimately show ?case using st h'(1,3) by auto
qed

text \<open>Growing the heap by a chunk.\<close>

lemma sbrk_spec:
  assumes hs: "paged (kh_heap_start h)" "kh_heap_start h \<noteq> 0" and n: "0 < n" "n \<le> 0x1F00000" "n mod 4096 = 0" and room: "unat (kh_heap_start h) + n < 2 ^ 64"
  obtains h' where "sbrk (of_nat n) h = Some (kh_heap_start h, h')" "paged (kh_heap_start h')" "unat (kh_heap_start h') = unat (kh_heap_start h) + n"
    "\<And>a. ld a h' = (if a \<in> span (kh_heap_start h) n \<and> a AND 7 = 0 then Some (kh_junk h a) else ld a h)"
    "kh_bin_head h' = kh_bin_head h" "kh_big_forward h' = kh_big_forward h" "kh_big_level h' = kh_big_level h" "kh_newest_big h' = kh_newest_big h"
    "kh_junk h' = kh_junk h" "kh_lock h' = kh_lock h"
proof -
  let ?p = "kh_heap_start h"
  let ?h = "h\<lparr>kh_mem := (\<lambda>a. if ?p \<le> a \<and> a < ?p + of_nat n \<and> a AND 7 = 0 then Some (kh_junk h a) else kh_mem h a), kh_heap_start := ?p + of_nat n\<rparr>"
  have un: "unat (of_nat n :: u64) = n" using n(2) by (simp add: unsigned_of_nat take_bit_nat_eq_self)
  have ue: "unat (?p + of_nat n) = unat ?p + n" using room un by (simp add: unat_word_ariths)
  have "(of_nat n :: u64) AND 0xFFF = take_bit 12 (of_nat n)" by (simp add: take_bit_eq_mask mask_eq_exp_minus_1)
  also have "unat \<dots> = n mod 4096" using un by (simp add: take_bit_eq_mod unat_mod_distrib)
  finally have al: "(of_nat n :: u64) AND 0xFFF = 0" using n(3) by (simp add: word_unat_eq_iff)
  have sm: "\<not> (0x1F00000 :: u64) < of_nat n" "(of_nat n :: u64) \<noteq> 0" using un n(1,2) by (auto simp: word_less_nat_alt)
  have mem: "ld a ?h = (if a \<in> span ?p n \<and> a AND 7 = 0 then Some (kh_junk h a) else ld a h)" for a
    by (simp add: ld_def span_def word_le_nat_alt word_less_nat_alt ue)
  have pg: "paged (?p + of_nat n)" using hs(1) n(3) by (simp add: paged_unat ue mod_add_eq [symmetric] del: mod_add_eq)
  show ?thesis by (rule that [of ?h]) (use hs(2) al sm mem ue pg in \<open>simp_all add: sbrk_def Let_def\<close>)
qed

lemma heap_end_new: "layout g h \<Longrightarrow> chunks_ok g h \<Longrightarrow> hv_chunk g (kh_heap_start h) = None"
proof (rule ccontr)
  assume l: "layout g h" and c: "chunks_ok g h" and "hv_chunk g (kh_heap_start h) \<noteq> None"
  then obtain d where d: "hv_chunk g (kh_heap_start h) = Some d" by auto
  then have "4096 \<le> chunk_len d" by (rule chunk_len_ok [OF c])
  then show False using layoutD(3) [OF l d] by simp
qed

lemma span_heap_end:
  assumes "layout g h" "hv_chunk g q = Some d" "a \<in> span q (chunk_len d)"
  shows "a \<notin> span (kh_heap_start h) n"
  using layoutD(3) [OF assms(1,2)] assms(3) by (auto simp: span_def)

lemma layout_add:
  assumes l: "layout g h" and hs: "paged (kh_heap_start h')" "unat (kh_heap_start h') = unat (kh_heap_start h) + chunk_len c"
    and dom: "\<And>a. a \<notin> span (kh_heap_start h) (chunk_len c) \<Longrightarrow> ld a h \<noteq> None \<Longrightarrow> ld a h' \<noteq> None" "\<And>a. a \<in> span (kh_heap_start h) (chunk_len c) \<Longrightarrow> a AND 7 = 0 \<Longrightarrow> ld a h' \<noteq> None"
    and g': "hv_chunk g' = (hv_chunk g)(kh_heap_start h \<mapsto> c)"
  shows "layout g' h'"
proof (rule layoutI)
  let ?p = "kh_heap_start h"
  have p: "paged ?p" "?p \<noteq> 0" using l by (simp_all add: layout_def)
  show "kh_heap_start h' \<noteq> 0"
  proof
    assume "kh_heap_start h' = 0"
    then have "unat ?p = unat (0 :: u64)" using hs(2) by simp
    then show False using p(2) by (simp only: word_unat_eq_iff [symmetric])
  qed
  fix q d assume q: "hv_chunk g' q = Some d"
  show "paged q \<and> q \<noteq> 0 \<and> unat q + chunk_len d \<le> unat (kh_heap_start h')"
    using q layoutD [OF l, of q d] p hs(2) by (cases "q = ?p") (simp_all add: g')
  show "ld a h' \<noteq> None" if a: "a \<in> span q (chunk_len d)" "a AND 7 = 0" for a
  proof (cases "q = ?p")
    case False
    then have q': "hv_chunk g q = Some d" using q by (simp add: g')
    show ?thesis by (rule dom(1) [OF span_heap_end [OF l q' a(1)] layout_mapped [OF l q' a]])
  qed (use q a dom(2) in \<open>simp add: g'\<close>)
  fix r e assume r: "hv_chunk g' r = Some e" "q \<noteq> r"
  have old: "span x (chunk_len y) \<inter> span ?p (chunk_len c) = {}" if "hv_chunk g x = Some y" for x y using span_heap_end [OF l that] by blast
  consider "q = ?p" | "r = ?p" | "q \<noteq> ?p" "r \<noteq> ?p" by blast
  then show "span q (chunk_len d) \<inter> span r (chunk_len e) = {}"
  proof cases
    case 1
    then have "d = c" "hv_chunk g r = Some e" using q r by (simp_all add: g')
    then show ?thesis using old [of r e] 1 by (simp add: Int_commute)
  next
    case 2
    then have "e = c" "hv_chunk g q = Some d" using q r by (simp_all add: g')
    then show ?thesis using old [of q d] 2 by simp
  next
    case 3
    then have "hv_chunk g q = Some d" "hv_chunk g r = Some e" using q r(1) by (simp_all add: g')
    then show ?thesis using layout_disjoint [OF l _ _ r(2)] by blast
  qed
next
  show "paged (kh_heap_start h')" by (rule hs(1))
  show "KERNEL_HEAP_START \<le> kh_heap_start h'" using l hs(2) by (simp add: layout_def word_le_nat_alt)
  show "KERNEL_HEAP_START \<le> q" if "q \<in> dom (hv_chunk g')" for q using l that by (auto simp: layout_def g')
qed

text \<open>Everything but a new chunk at the end and the first word \<open>x\<close> of a block stays.\<close>

lemma heap_ok_add:
  assumes ok: "heap_ok g h" and hs: "paged (kh_heap_start h')" "unat (kh_heap_start h') = unat (kh_heap_start h) + chunk_len c"
    and mp: "\<And>a. a \<in> span (kh_heap_start h) (chunk_len c) \<Longrightarrow> a AND 7 = 0 \<Longrightarrow> ld a h' \<noteq> None"
    and same: "\<And>a. a \<notin> span (kh_heap_start h) (chunk_len c) \<Longrightarrow> a \<noteq> x \<Longrightarrow> ld a h' = ld a h"
    and x: "ld x h' \<noteq> None" "x = kh_heap_start h \<or> (\<exists>s. hv_chunk g x = Some (Block s))"
    and c: "hchunk_ok h' False (kh_heap_start h) c"
    and flds: "kh_big_forward h' = kh_big_forward h" "kh_big_level h' = kh_big_level h"
    and nb: "kh_newest_big h' = kh_newest_big h \<or> kh_newest_big h' = kh_heap_start h \<and> (\<exists>s. c = Block s)"
    and g': "hv_chunk g' = (hv_chunk g)(kh_heap_start h \<mapsto> c)" "hv_free g' = hv_free g" "hv_level g' = hv_level g"
  shows "layout g' h'" "chunks_ok g' h'" "frees_ok g' h'" "\<And>b y. b < 9 \<Longrightarrow> y \<in> set (hv_pages g b) \<Longrightarrow> ld y h' = ld y h"
proof -
  let ?p = "kh_heap_start h"
  have l: "layout g h" and ch: "chunks_ok g h" and pg: "pages_ok g h" and bl: "frees_ok g h" using ok by (simp_all add: heap_ok_def)
  note fresh = heap_end_new [OF l ch]
  have nf: "?p \<notin> set (hv_free g)" using bl fresh by (force simp: frees_ok_def)
  have ne: "a \<noteq> x" if q: "hv_chunk g q = Some d" "a \<in> span q (chunk_len d)" "a \<noteq> q \<or> (\<forall>s. d \<noteq> Block s)" for q d a
  proof
    assume a: "a = x"
    have pp: "paged x" using x(2) l layoutD(1) [OF l] by (auto simp: layout_def)
    show False
    proof (cases "x = ?p")
      case True
      then show False using span_heap_end [OF l q(1,2), of 4096] a pp by simp
    next
      case False
      then obtain s where s: "hv_chunk g x = Some (Block s)" using x(2) by blast
      then have "x \<in> span x (chunk_len (Block s))" using chunk_len_ok [OF ch s] by (simp add: span_def)
      then have "q = x" using layout_disjoint [OF l q(1) s] q(2) a by blast
      then show False using s q(1,3) a by auto
    qed
  qed
  have keep: "ld a h' = ld a h" if "hv_chunk g q = Some d" "a \<in> span q (chunk_len d)" "a \<noteq> q \<or> (\<forall>s. d \<noteq> Block s)" for q d a
    using same ne [OF that] span_heap_end [OF l that(1,2)] by blast
  have "ld a h' \<noteq> None" if "a \<notin> span ?p (chunk_len c)" "ld a h \<noteq> None" for a
    using same [OF that(1)] x(1) that(2) by (cases "a = x") simp_all
  then show "layout g' h'" using layout_add [OF l hs _ mp g'(1)] by blast
  show "chunks_ok g' h'"
  proof (rule chunks_change [OF ch g'(1)])
    show "hchunk_ok h' (?p \<in> set (hv_free g')) ?p c" using c nf by (simp add: g'(2))
    fix q d a assume q: "hv_chunk g q = Some d" "q \<noteq> ?p" "a \<in> read_words (q \<in> set (hv_free g)) q d"
    have cq: "hchunk_ok h (q \<in> set (hv_free g)) q d" and pq: "paged q" using ch q(1) layoutD(1) [OF l q(1)] by (simp_all add: chunks_ok_def)
    have "a \<in> span q (chunk_len d)" using own_span [OF l ch q(1)] read_own [OF pq cq] q(3) by blast
    moreover have "a \<noteq> q \<or> (\<forall>s. d \<noteq> Block s)" using q(3) page_header_neq [OF pq] by (cases d) (auto split: if_splits)
    ultimately show "ld a h' = ld a h" by (rule keep [OF q(1)])
  qed (simp add: g')
  show "ld y h' = ld y h" if y: "b < 9" "y \<in> set (hv_pages g b)" for b y
  proof -
    from page_reads [OF l ch pg y(2,1)] obtain fs where fs: "hv_chunk g y = Some (Cells b fs)" "paged y" by metis
    show ?thesis by (rule keep [OF fs(1)]) (simp_all add: fs(2))
  qed
  show "frees_ok g' h'"
  proof -
    have "skip_ok h' (hv_free g) (hv_level g) = skip_ok h (hv_free g) (hv_level g)"
    proof (rule skip_ok_same [OF _ _ flds])
      fix y assume y: "y \<in> set (hv_free g)"
      from block_reads [OF l ch bl y] obtain s where s: "hv_chunk g y = Some (Block s)" "paged y" "4000 \<le> s" by metis
      show "ld (f_size y) h' = ld (f_size y) h" using s page_header_neq [OF s(2)] by (intro keep [OF s(1)]) (simp_all add: f_size_def)
      show "ld (f_forward i y) h' = ld (f_forward i y) h" if "i < 7" for i
        using s(3) forward_word [OF s(2) that, of "s + 96"] forward_base [OF s(2) that] by (intro keep [OF s(1)]) simp_all
    qed
    then show ?thesis using bl nb fresh unfolding frees_ok_def g' by (auto simp: nf)
  qed
qed

lemma new_page_run:
  assumes p: "paged (kh_heap_start h)" "kh_heap_start h \<noteq> 0" and b: "b < 9" and room: "unat (kh_heap_start h) + 4096 < 2 ^ 64"
  obtains h' where "new_page b h = Some (kh_heap_start h, h')" "paged (kh_heap_start h')" "unat (kh_heap_start h') = unat (kh_heap_start h) + 4096"
    "\<And>a. a \<in> span (kh_heap_start h) 4096 \<Longrightarrow> a AND 7 = 0 \<Longrightarrow> ld a h' \<noteq> None" "\<And>a. a \<notin> span (kh_heap_start h) 4096 \<Longrightarrow> ld a h' = ld a h"
    "hchunk_ok h' False (kh_heap_start h) (Cells b (map (cell (kh_heap_start h) b) [0..<ncells b]))" "ld (kh_heap_start h) h' = Some (kh_bin_head h ! b)"
    "kh_bin_head h' = (kh_bin_head h)[b := kh_heap_start h]" "kh_big_forward h' = kh_big_forward h" "kh_big_level h' = kh_big_level h"
    "kh_newest_big h' = kh_newest_big h" "kh_junk h' = kh_junk h" "kh_lock h' = kh_lock h"
proof -
  let ?p = "kh_heap_start h"
  obtain h1 where h1: "sbrk (of_nat 4096) h = Some (?p, h1)" "paged (kh_heap_start h1)" "unat (kh_heap_start h1) = unat ?p + 4096"
    and m1: "\<And>a. ld a h1 = (if a \<in> span ?p 4096 \<and> a AND 7 = 0 then Some (kh_junk h a) else ld a h)"
    and f1: "kh_bin_head h1 = kh_bin_head h" "kh_big_forward h1 = kh_big_forward h" "kh_big_level h1 = kh_big_level h" "kh_newest_big h1 = kh_newest_big h"
      "kh_junk h1 = kh_junk h" "kh_lock h1 = kh_lock h"
    using sbrk_spec [OF p, of 4096] room by auto
  let ?v = "kh_bin_head h ! b"
  define h2 where "h2 = h1\<lparr>kh_mem := (kh_mem h1)(f_magic ?p \<mapsto> BIN_MAGIC, f_head ?p \<mapsto> ?p + 32, ?p \<mapsto> ?v), kh_bin_head := (kh_bin_head h)[b := ?p]\<rparr>"
  note neq = page_header_neq [OF p(1)]
  have mp: "ld a h1 \<noteq> None" if "a \<in> span ?p 4096" "a AND 7 = 0" for a using m1 that by simp
  have hdr: "ld ?p h1 \<noteq> None" "ld (f_head ?p) h1 \<noteq> None" "ld (f_magic ?p) h1 \<noteq> None" "ld (f_size ?p) h1 \<noteq> None"
    by (rule mp; simp add: p f_head_def f_magic_def f_size_def)+
  have l2: "ld a h2 = (if a = ?p then Some ?v else if a = f_head ?p then Some (?p + 32) else if a = f_magic ?p then Some BIN_MAGIC else ld a h1)" for a
    by (simp add: h2_def ld_def)
  have d2: "same_dom h1 h2" using hdr by (auto simp: same_dom_def l2)
  let ?n = "(4096 - 32) div 2 ^ (3 + b) - 1"
  have n: "?n < ncells b" "Suc ?n = ncells b" using ncells_pos [OF b] by (simp_all add: ncells_def)
  have cm: "ld x h2 \<noteq> None" if "x \<in> cells ?p b" for x using mp [of x] cell_word [OF p(1) that] d2 by (simp add: same_dom_def)
  obtain h3 where h3: "stack_init 0 ?n b (?p + 32) h2 = Some h3" "small_frame h2 h3" "kh_bin_head h3 = kh_bin_head h2"
      "linked_from h3 (cell ?p b 0) (map (cell ?p b) [0..<Suc ?n])" "\<forall>a. a \<notin> cell ?p b ` {0..?n} \<longrightarrow> ld a h3 = ld a h2"
    using stack_init_spec [OF p(1) cm le0 n(1)] by blast
  define h4 where "h4 = h3\<lparr>kh_mem := (kh_mem h3)(f_size ?p \<mapsto> of_nat b)\<rparr>"
  let ?fs = "map (cell ?p b) [0..<ncells b]"
  have fs: "set ?fs = cells ?p b" "distinct ?fs" using cell_inj [OF p(1)] by (auto simp: cells_def distinct_map inj_on_def)
  have sz3: "ld (f_size ?p) h3 \<noteq> None" using h3(2) d2 hdr(4) by (simp add: small_frame_def same_dom_def)
  have d4: "same_dom h1 h4" using h3(2) d2 sz3 by (auto simp: small_frame_def same_dom_def h4_def)
  have "cell ?p b ` {0..?n} \<subseteq> cells ?p b" using n by (auto simp: cells_def)
  then have keep3: "ld a h3 = ld a h2" if "a \<notin> cells ?p b" for a using h3(5) that by blast
  have run: "new_page b h = Some (?p, h4)"
    using h1(1) h3(1) hdr sz3 p(1) neq
    by (simp add: new_page_def klmalloc_list_insert_def f_next_def st_def ld_def check_def paged_def h2_def h4_def f1(1) split: if_splits)
  have hc: "?p \<notin> cells ?p b" "f_head ?p \<notin> cells ?p b" "f_size ?p \<notin> cells ?p b" "f_magic ?p \<notin> cells ?p b" using cell_header_neq [OF p(1)] by blast+
  have ld4: "ld ?p h4 = Some ?v" "ld (f_head ?p) h4 = Some (?p + 32)" "ld (f_magic ?p) h4 = Some BIN_MAGIC" "ld (f_size ?p) h4 = Some (of_nat b)"
    using keep3 [OF hc(1)] keep3 [OF hc(2)] keep3 [OF hc(4)] neq neq [symmetric] by (simp_all add: h4_def l2)
  have "linked_from h4 (cell ?p b 0) ?fs = linked_from h3 (cell ?p b 0) ?fs" by (rule linked_same) (use fs hc in \<open>auto simp: h4_def\<close>)
  moreover have "cell ?p b 0 = ?p + 32" by (simp add: cell_def)
  moreover have "linked_from h3 (cell ?p b 0) ?fs" using h3(4) unfolding n(2) .
  ultimately have "hchunk_ok h4 False ?p (Cells b ?fs)" using ld4 fs b by simp
  moreover have "ld a h4 = ld a h" if "a \<notin> span ?p 4096" for a
  proof -
    have "a \<notin> cells ?p b" "a \<notin> {?p, f_head ?p, f_size ?p, f_magic ?p}"
      using that cell_word [OF p(1)] p(1) by (auto simp: f_head_def f_size_def f_magic_def)
    then show ?thesis using keep3 that by (simp add: h4_def l2 m1)
  qed
  moreover have "ld a h4 \<noteq> None" if "a \<in> span ?p 4096" "a AND 7 = 0" for a using mp [OF that] d4 by (simp add: same_dom_def)
  moreover have "kh_heap_start h4 = kh_heap_start h1" "kh_bin_head h4 = (kh_bin_head h)[b := ?p]" "kh_big_forward h4 = kh_big_forward h" "kh_big_level h4 = kh_big_level h"
      "kh_newest_big h4 = kh_newest_big h" "kh_junk h4 = kh_junk h" "kh_lock h4 = kh_lock h"
    using h3(2,3) f1 by (simp_all add: h4_def h2_def small_frame_def)
  ultimately show ?thesis using that [OF run] h1(2,3) ld4(1) by presburger
qed

lemma live_below:
  assumes l: "layout g h" and c: "chunks_ok g h" and a: "a \<in> live_words g"
  shows "a \<notin> span (kh_heap_start h) n"
proof -
  obtain q m where qm: "(q, m) \<in> live g" "a \<in> span q m" using a by (auto simp: live_words_def)
  obtain p d where "hv_chunk g p = Some d" "span q m \<subseteq> span p (chunk_len d)" using live_span [OF l c qm(1)] by metis
  then show ?thesis using span_heap_end [OF l] qm(2) by blast
qed

lemma new_page_spec:
  assumes ok: "heap_ok g h" and b: "b < 9" and none: "hv_pages g b = []" and room: "unat (kh_heap_start h) + 4096 < 2 ^ 64"
  obtains h' g' x fs where "new_page b h = Some (kh_heap_start h, h')" "heap_ok g' h'" "hv_chunk g' (kh_heap_start h) = Some (Cells b (x # fs))"
    "hv_pages g' b = [kh_heap_start h]" "live g' = live g" "\<And>a. a \<notin> span (kh_heap_start h) 4096 \<Longrightarrow> ld a h' = ld a h"
    "kh_heap_start h' = kh_heap_start h + 0x1000" "kh_junk h' = kh_junk h" "kh_lock h' = kh_lock h"
proof -
  let ?p = "kh_heap_start h" and ?c = "Cells b (map (cell (kh_heap_start h) b) [0..<ncells b])"
  have l: "layout g h" and c: "chunks_ok g h" and pg: "pages_ok g h" and bl: "frees_ok g h" using ok by (simp_all add: heap_ok_def)
  have p: "paged ?p" "?p \<noteq> 0" using l by (simp_all add: layout_def)
  have len: "length (kh_bin_head h) = 9" and v: "kh_bin_head h ! b = 0" using pg b none by (auto simp: pages_ok_def)
  obtain h' where h': "new_page b h = Some (?p, h')" "paged (kh_heap_start h')" "unat (kh_heap_start h') = unat ?p + 4096"
    and mp: "\<And>a. a \<in> span ?p 4096 \<Longrightarrow> a AND 7 = 0 \<Longrightarrow> ld a h' \<noteq> None" and same: "\<And>a. a \<notin> span ?p 4096 \<Longrightarrow> ld a h' = ld a h"
    and new: "hchunk_ok h' False ?p ?c" and nx: "ld ?p h' = Some (kh_bin_head h ! b)" and bins: "kh_bin_head h' = (kh_bin_head h)[b := ?p]"
    and flds: "kh_big_forward h' = kh_big_forward h" "kh_big_level h' = kh_big_level h" "kh_newest_big h' = kh_newest_big h" "kh_junk h' = kh_junk h" "kh_lock h' = kh_lock h"
    by (rule new_page_run [OF p b room]) blast
  let ?g = "g\<lparr>hv_chunk := (hv_chunk g)(?p \<mapsto> ?c), hv_pages := (hv_pages g)(b := [?p])\<rparr>"
  have add: "layout ?g h'" "chunks_ok ?g h'" "frees_ok ?g h'" "\<And>b y. b < 9 \<Longrightarrow> y \<in> set (hv_pages g b) \<Longrightarrow> ld y h' = ld y h"
    by (rule heap_ok_add [where g' = ?g and x = ?p, OF ok h'(2) _ _ _ _ _ new flds(1,2)]; use h'(3) mp same flds(3) nx in simp)+
  have cons: "[0..<ncells b] = 0 # [1..<ncells b]" using ncells_pos [OF b] by (simp add: upt_conv_Cons)
  have "pages_ok ?g h'"
    by (rule pages_change [where g' = ?g and ps = "[?p]" and fs' = "map (cell ?p b) [0..<ncells b]", OF pg b disjI1 [OF heap_end_new [OF l c]] _ _ bins add(4)]) (use none nx v p(2) cons in simp_all)
  then have ok': "heap_ok ?g h'" using add by (simp add: heap_ok_def)
  have full: "set (map (cell ?p b) [0..<ncells b]) = cells ?p b" by (auto simp: cells_def)
  have lv: "live ?g = live g" by (rule live_full [OF heap_end_new [OF l c] _ full]) simp_all
  have hs: "kh_heap_start h' = ?p + 0x1000" using h'(3) room by (simp add: word_unat_eq_iff unat_word_ariths)
  show ?thesis by (rule that [OF h'(1) ok' _ _ lv same hs flds(4,5)]) (use cons in simp_all)
qed


section \<open>Small requests\<close>

lemma malloc_small_take:
  "malloc_small b h = do {
     (p, h) \<leftarrow> (if klmalloc_list_head b h = 0 then new_page b h else do { m \<leftarrow> ld (f_magic (klmalloc_list_head b h)) h; check (m = BIN_MAGIC); Some (klmalloc_list_head b h, h) });
     take_cell b p h
   }"
  by (simp add: malloc_small_def take_cell_def Let_def)

text \<open>\<open>x\<close> is a new block of \<open>n\<close> bytes.\<close>

definition allocated :: "heap_view \<Rightarrow> mheap \<Rightarrow> nat \<Rightarrow> ptr \<Rightarrow> heap_view \<Rightarrow> mheap \<Rightarrow> bool" where
  "allocated g h n x g' h' \<longleftrightarrow> heap_ok g' h' \<and> live g' = insert (x, n) (live g) \<and> (x, n) \<notin> live g \<and>
     (\<forall>a \<in> live_words g. ld a h' = ld a h) \<and> kh_junk h' = kh_junk h \<and> kh_lock h' = kh_lock h"

lemma header_not_live:
  assumes "heap_ok g h" "hv_chunk g p = Some c"
  shows "p \<notin> live_words g" "f_head p \<notin> live_words g"
proof -
  have l: "layout g h" and ch: "chunks_ok g h" using assms(1) by (simp_all add: heap_ok_def)
  have "{p, f_head p} \<subseteq> own g" using own_intro [OF assms(2)] header_words [OF layoutD(1) [OF l assms(2)]] by blast
  then show "p \<notin> live_words g" "f_head p \<notin> live_words g" using live_own [OF l ch] by blast+
qed

lemma take_cell_alloc:
  assumes ok: "heap_ok g h" and p: "hv_chunk g p = Some (Cells b (x # fs))" and pgs: "hv_pages g b = p # ps"
  shows "\<exists>h' g'. take_cell b p h = Some (x, h') \<and> allocated g h (2 ^ (3 + b)) x g' h'"
proof -
  have l: "layout g h" and ch: "chunks_ok g h" using ok by (simp_all add: heap_ok_def)
  obtain h' g' where r: "take_cell b p h = Some (x, h')" "heap_ok g' h'" "live g' = insert (x, 2 ^ (3 + b)) (live g)" "small_frame h h'"
    and same: "\<And>a. a \<noteq> p \<and> a \<noteq> f_head p \<Longrightarrow> ld a h' = ld a h" using take_cell_spec [OF ok p pgs] by blast
  have "x \<in> own g" by (rule own_intro [OF p]) (simp add: span_def)
  then have "(x, 2 ^ (3 + b)) \<notin> live g" by (rule live_fresh [OF l ch]) simp
  moreover have "ld a h' = ld a h" if "a \<in> live_words g" for a by (rule same) (use that header_not_live [OF ok p] in blast)
  ultimately have "allocated g h (2 ^ (3 + b)) x g' h'" using r(2-4) by (auto simp: allocated_def small_frame_def)
  then show ?thesis using r(1) by blast
qed

lemma malloc_small_spec:
  assumes ok: "heap_ok g h" and b: "b < 9" and room: "unat (kh_heap_start h) + 4096 < 2 ^ 64"
  shows "\<exists>x h' g'. malloc_small b h = Some (x, h') \<and> allocated g h (2 ^ (3 + b)) x g' h'"
proof (cases "hv_pages g b")
  case Nil
  have l: "layout g h" and ch: "chunks_ok g h" and pg: "pages_ok g h" using ok by (simp_all add: heap_ok_def)
  have z: "klmalloc_list_head b h = 0" using pg b Nil by (auto simp: pages_ok_def klmalloc_list_head_def)
  obtain h1 g1 x fs where n: "new_page b h = Some (kh_heap_start h, h1)" "heap_ok g1 h1" "hv_chunk g1 (kh_heap_start h) = Some (Cells b (x # fs))"
      "hv_pages g1 b = [kh_heap_start h]" "live g1 = live g" and same: "\<And>a. a \<notin> span (kh_heap_start h) 4096 \<Longrightarrow> ld a h1 = ld a h"
    and f: "kh_junk h1 = kh_junk h" "kh_lock h1 = kh_lock h"
    by (rule new_page_spec [OF ok b Nil room]) blast
  obtain h' g' where t: "take_cell b (kh_heap_start h) h1 = Some (x, h')" "allocated g1 h1 (2 ^ (3 + b)) x g' h'" using take_cell_alloc [OF n(2-4)] by blast
  have lw: "live_words g1 = live_words g" using n(5) by (simp add: live_words_def)
  have "ld a h1 = ld a h" if "a \<in> live_words g" for a by (rule same [OF live_below [OF l ch that]])
  then have "allocated g h (2 ^ (3 + b)) x g' h'" using t(2) f by (simp add: allocated_def n(5) lw)
  then show ?thesis using t(1) n(1) z by (auto simp: malloc_small_take)
next
  case (Cons p ps)
  have ch: "chunks_ok g h" and pg: "pages_ok g h" using ok by (simp_all add: heap_ok_def)
  have hd: "klmalloc_list_head b h = p" "p \<noteq> 0" and "p \<in> set (hv_pages g b)" using pg b Cons by (auto simp: pages_ok_def klmalloc_list_head_def)
  then obtain fs0 where "hv_chunk g p = Some (Cells b fs0)" "fs0 \<noteq> []" using pg b by (auto simp: pages_ok_def)
  then obtain x fs where c: "hv_chunk g p = Some (Cells b (x # fs))" by (cases fs0) auto
  then have "ld (f_magic p) h = Some BIN_MAGIC" using ch by (force simp: chunks_ok_def)
  then show ?thesis using take_cell_alloc [OF ok c Cons] hd by (auto simp: malloc_small_take check_def)
qed


section \<open>Putting a cell back\<close>

lemma cell_offset:
  assumes p: "paged p" and q: "q \<in> cells p b" and b: "b < 9"
  shows "(q - 32) AND (push_bit (unat (of_nat b + SMALLEST_BIN_LOG)) 1 - 1) = 0"
proof -
  obtain i where i: "q = cell p b i" "i < ncells b" using q by (auto simp: cells_def)
  have k: "unat (of_nat b + SMALLEST_BIN_LOG) = 3 + b" using b by (simp add: SMALLEST_BIN_LOG_def unat_word_ariths unsigned_of_nat take_bit_nat_eq_self)
  have "push_bit (3 + b) 1 - 1 = (mask (3 + b) :: u64)" by (simp only: mask_eq_exp_minus_1 push_bit_of_1)
  then have m: "(q - 32) AND (push_bit (3 + b) 1 - 1) = take_bit (3 + b) (q - 32)" by (simp only: take_bit_eq_mask)
  have "q - 32 = p + of_nat (i * 2 ^ (3 + b))" by (simp add: i(1) cell_def)
  moreover have "i * 2 ^ (3 + b) < 4096" using cell_bound [OF i(2)] by simp
  ultimately have u: "unat (q - 32) = unat p + i * 2 ^ (3 + b)" by (simp only: paged_off [OF p])
  have "(2 :: nat) ^ (3 + b) dvd 2 ^ 12" by (rule le_imp_power_dvd) (use b in simp)
  moreover have "2 ^ 12 dvd unat p" using p by (simp add: paged_unat mod_eq_0_iff_dvd)
  ultimately have "2 ^ (3 + b) dvd unat (q - 32)" unfolding u using dvd_trans by (metis dvd_add dvd_triv_right)
  then have "take_bit (3 + b) (unat (q - 32)) = 0" by (simp only: take_bit_eq_mod dvd_imp_mod_0)
  then have "unat (take_bit (3 + b) (q - 32)) = 0" by (simp only: unsigned_take_bit_eq)
  then have "take_bit (3 + b) (q - 32) = 0" by (simp only: unsigned_eq_0_iff)
  then show ?thesis unfolding k m .
qed

lemma put_cell_spec:
  assumes ok: "heap_ok g h" and p: "hv_chunk g p = Some (Cells b fs)" and q: "q \<in> cells p b" "q \<notin> set fs"
  shows "\<exists>h' g'. klfree q h = Some h' \<and> heap_ok g' h' \<and> live g = insert (q, 2 ^ (3 + b)) (live g') \<and> q \<in> own g' \<and> small_frame h h' \<and>
    (\<forall>a. a \<noteq> p \<and> a \<noteq> f_head p \<and> a \<noteq> q \<longrightarrow> ld a h' = ld a h)"
proof -
  have l: "layout g h" and c: "chunks_ok g h" and pg: "pages_ok g h" and bl: "frees_ok g h" using ok by (simp_all add: heap_ok_def)
  have pp: "paged p" "p \<noteq> 0" using layoutD [OF l p] by simp_all
  have cok: "hchunk_ok h False p (Cells b fs)" using c p by (force simp: chunks_ok_def)
  then have b: "b < 9" and fsc: "set fs \<subseteq> cells p b" "distinct fs" and sz: "ld (f_size p) h = Some (of_nat b)" and mg: "ld (f_magic p) h = Some BIN_MAGIC" by auto
  obtain v where v: "ld (f_head p) h = Some v" "linked_from h v fs" using cok by auto
  have e: "v = 0 \<longleftrightarrow> fs = []" using v(2) by (cases fs) auto
  note r = cell_range [OF pp(1) q(1)] and bd = page_bounds [OF l p] and neq = page_header_neq [OF pp(1)] and qn = cell_header_neq [OF pp(1) q(1)]
  have q4: "q AND NOT 0xFFF = p" "q mod 0x1000 \<noteq> 0" "q \<noteq> 0" using page_of [OF pp(1), of q] r by auto
  have qm: "ld q h \<noteq> None" using layout_mapped [OF l p] cell_word [OF pp(1) q(1)] by simp
  have pm: "ld p h \<noteq> None" using chunk_mapped [OF l p] by simp
  define w where "w = (if fs = [] then p else kh_bin_head h ! b)"
  define ps where "ps = (if fs = [] then p # hv_pages g b else hv_pages g b)"
  define h1 where "h1 = (if fs = [] then h\<lparr>kh_mem := (kh_mem h)(p \<mapsto> kh_bin_head h ! b), kh_bin_head := (kh_bin_head h)[b := p]\<rparr> else h)"
  define h' where "h' = h1\<lparr>kh_mem := (kh_mem h1)(q \<mapsto> v, f_head p \<mapsto> q)\<rparr>"
  let ?g = "g\<lparr>hv_chunk := (hv_chunk g)(p \<mapsto> Cells b (q # fs)), hv_pages := (hv_pages g)(b := ps)\<rparr>"
  have l1: "ld a h1 = (if fs = [] \<and> a = p then Some (kh_bin_head h ! b) else ld a h)" for a by (simp add: h1_def ld_def)
  have l': "ld a h' = (if a = f_head p then Some q else if a = q then Some v else ld a h1)" for a by (simp add: h'_def ld_def)
  have push: "klmalloc_stack_push p q h1 = Some h'"
    using q4 pp r bd bin_word [OF b] cell_offset [OF pp(1) q(1) b] sz v(1) qm neq qn
    by (simp add: klmalloc_stack_push_def l1 check_def word_less_nat_alt h'_def st_def ld_def [symmetric])
  have emp: "(if fs = [] then klmalloc_list_insert b p h else Some h) = Some h1"
    using pm by (auto simp: klmalloc_list_insert_def h1_def f_next_def st_def ld_def)
  have ub: "unat (of_nat b :: u64) = b" using b by (simp add: unsigned_of_nat take_bit_nat_eq_self)
  have run: "klfree q h = Some h'"
    using q4 pp(1) mg sz bin_word [OF b] v(1) e push emp by (simp add: klfree_def Let_def check_def paged_def klmalloc_stack_empty_def ub split: if_splits)
  have same: "ld a h' = ld a h" if "a \<noteq> p" "a \<noteq> f_head p" "a \<noteq> q" for a using that by (simp add: l' l1)
  have "same_dom h h'" using pm qm v(1) by (auto simp: same_dom_def l' l1)
  then have fr: "small_frame h h'" by (cases "fs = []") (simp_all add: small_frame_def h'_def h1_def)
  have "f_head p \<notin> set fs" "p \<notin> set fs" using fsc(1) cell_header_neq [OF pp(1)] by blast+
  then have "linked_from h' v fs = linked_from h v fs" by (intro linked_same) (use q(2) in \<open>auto simp: l' l1\<close>)
  then have "linked_from h' q (q # fs)" using q4(3) v(2) qn by (simp add: l')
  then have new: "hchunk_ok h' False p (Cells b (q # fs))" using cok q fsc neq qn by (auto simp: l' l1)
  have bins: "kh_bin_head h' = (kh_bin_head h)[b := w]" by (simp add: h'_def h1_def w_def)
  have pgs: "linked_from h (kh_bin_head h ! b) (hv_pages g b)" "distinct (hv_pages g b)" "set (hv_pages g b) = {p. \<exists>fs. hv_chunk g p = Some (Cells b fs) \<and> fs \<noteq> []}"
    using pg b by (simp_all add: pages_ok_def)
  have pin: "p \<in> set (hv_pages g b) \<longleftrightarrow> fs \<noteq> []" using pgs(3) p by simp
  have pl: "linked_from h' u (hv_pages g b) = linked_from h u (hv_pages g b)" for u
  proof (rule linked_same)
    fix y assume y: "y \<in> set (hv_pages g b)"
    from page_reads [OF l c pg y b] obtain fs1 where f: "hv_chunk g y = Some (Cells b fs1)" "paged y" by metis
    have "y \<noteq> q" using q4(2) f(2) unfolding paged_def by metis
    then show "ld y h' = ld y h" using page_next_neq [OF pp(1) f(2)] y pin by (auto simp: l' l1)
  qed
  have lk: "linked_from h' w ps" using pl pgs(1) pp(2) qn(1) neq(1) by (auto simp: w_def ps_def l' l1)
  have ps_set: "distinct ps" "set ps = set (hv_pages g b) - {p} \<union> (if q # fs = [] then {} else {p})" using pgs(2) pin by (auto simp: ps_def)
  have "a \<noteq> p" "a \<noteq> f_head p" "a \<noteq> q" if "a \<notin> span p 4096" for a using that pp(1) cell_word [OF pp(1) q(1)] by (auto simp: f_head_def)
  then have out: "ld a h' = ld a h" if "a \<notin> span p 4096" for a using same that by blast
  have ok': "heap_ok ?g h'" by (rule heap_ok_page [OF ok p fr out refl new bins lk ps_set])
  moreover have "live g = insert (q, 2 ^ (3 + b)) (live ?g)"
    by (rule live_pop [where g = ?g and fs = fs and p = p]) (use q p in \<open>auto simp: fun_upd_idem_iff\<close>)
  moreover have "q \<in> own ?g" by (rule own_intro [of _ p "Cells b (q # fs)"]) (simp_all add: span_def)
  ultimately show ?thesis using run fr same by blast
qed

end
