(* ===== verification/Heap_Big.thy ===== *)
theory Heap_Big
  imports Heap_Small
begin

text \<open>
  The large requests of \<open>kernel/misc/malloc.c\<close>: the best fit among the free blocks or a new block at the end of the heap, and putting a block back on the
  skip list.
\<close>

section \<open>Changes of the list of free blocks\<close>

lemma forward_not_read:
  assumes l: "layout g h" and c: "chunks_ok g h" and q: "hv_chunk g q = Some d" "a \<in> read_words (q \<in> set (hv_free g)) q d"
    and y: "hv_chunk g y = Some (Block s)" "i < 7"
  shows "a \<noteq> f_forward i y"
proof (cases "q = y")
  case False
  have "hchunk_ok h (q \<in> set (hv_free g)) q d" using c q(1) by (simp add: chunks_ok_def)
  then have "a \<in> span q (chunk_len d)" using own_span [OF l c q(1)] read_own [OF layoutD(1) [OF l q(1)]] q(2) by blast
  moreover have "f_forward i y \<in> span y (chunk_len (Block s))" using forward_word [OF layoutD(1) [OF l y(1)] y(2)] chunk_len_ok [OF c y(1)] by simp
  ultimately show ?thesis using layout_disjoint [OF l q(1) y(1) False] by blast
next
  case True
  note p = layoutD(1) [OF l y(1)]
  have d: "d = Block s" using True q(1) y(1) by simp
  have *: "y + of_nat n \<noteq> f_forward i y" if "n < 40 \<or> n = 96" for n
  proof -
    have "unat (y + of_nat n) = unat y + n" "unat (y + of_nat (40 + 8 * i)) = unat y + (40 + 8 * i)" using that y(2) by (intro paged_off [OF p]; auto)+
    then show ?thesis using that y(2) unfolding forward_nat by fastforce
  qed
  show ?thesis using * [of 8] * [of 16] * [of 24] * [of 96] q(2) True d by (auto simp: f_head_def f_size_def f_magic_def split: if_splits)
qed

lemma heap_ok_blocks:
  assumes ok: "heap_ok g h" and p: "hv_chunk g p = Some (Block s)" and Y: "\<And>y. y \<in> Y \<Longrightarrow> \<exists>s. hv_chunk g y = Some (Block s)"
    and same: "\<And>a. a \<noteq> f_head p \<Longrightarrow> a \<noteq> p + 96 \<Longrightarrow> (\<And>i y. i < 7 \<Longrightarrow> y \<in> Y \<Longrightarrow> a \<noteq> f_forward i y) \<Longrightarrow> ld a h' = ld a h"
    and dom: "same_dom h h'" and flds: "kh_heap_start h' = kh_heap_start h" "kh_bin_head h' = kh_bin_head h" "kh_newest_big h' = kh_newest_big h"
    and sk: "skip_ok h' fs lv" and fs: "\<And>q. q \<noteq> p \<Longrightarrow> q \<in> set fs \<longleftrightarrow> q \<in> set (hv_free g)"
    and hd: "ld (f_head p) h' = Some (if p \<in> set fs then p + 96 else 0)" "p \<in> set fs \<Longrightarrow> ld (p + 96) h' = Some 0"
  shows "heap_ok (g\<lparr>hv_free := fs, hv_level := lv\<rparr>) h'"
proof -
  let ?g = "g\<lparr>hv_free := fs, hv_level := lv\<rparr>"
  have l: "layout g h" and c: "chunks_ok g h" and pg: "pages_ok g h" and bl: "frees_ok g h" using ok by (simp_all add: heap_ok_def)
  note pp = layoutD(1) [OF l p] and len = chunk_len_ok [OF c p]
  have "f_head p \<in> span p (chunk_len (Block s))" "p + 96 \<in> span p (chunk_len (Block s))" using pp len by (simp_all add: f_head_def)
  then have other: "a \<noteq> f_head p" "a \<noteq> p + 96" if "hv_chunk g q = Some d" "q \<noteq> p" "a \<in> span q (chunk_len d)" for a q d
    using layout_disjoint [OF l that(1) p that(2,3)] by auto
  have reads: "ld a h' = ld a h" if q: "hv_chunk g q = Some d" "q \<noteq> p" "a \<in> read_words (q \<in> set (hv_free g)) q d" for q d a
  proof (rule same)
    have "hchunk_ok h (q \<in> set (hv_free g)) q d" using c q(1) by (simp add: chunks_ok_def)
    then have "a \<in> span q (chunk_len d)" using own_span [OF l c q(1)] read_own [OF layoutD(1) [OF l q(1)]] q(3) by blast
    then show "a \<noteq> f_head p" "a \<noteq> p + 96" using other [OF q(1,2)] by blast+
    show "a \<noteq> f_forward i y" if "i < 7" "y \<in> Y" for i y using forward_not_read [OF l c q(1,3) _ that(1)] Y [OF that(2)] by blast
  qed
  have "layout ?g h'" using layout_same [OF l dom flds(1)] by (simp add: layout_def)
  moreover have "chunks_ok ?g h'"
  proof (rule chunks_change [OF c _ _ reads])
    have "ld a h' = ld a h" if "a = f_size p \<or> a = f_magic p" for a
    proof (rule same)
      show "a \<noteq> f_head p" "a \<noteq> p + 96" using that page_header_neq [OF pp] by (auto simp: f_size_def f_magic_def)
      show "a \<noteq> f_forward i y" if "i < 7" "y \<in> Y" for i y
        using forward_not_read [OF l c p _ _ that(1), of a y] Y [OF that(2)] \<open>a = f_size p \<or> a = f_magic p\<close> by auto
    qed
    moreover note chunks_okD [OF c p]
    ultimately show "hchunk_ok h' (p \<in> set (hv_free ?g)) p (Block s)" using hd by simp
  qed (use p fs in \<open>simp_all add: fun_upd_idem\<close>)
  moreover have "pages_ok ?g h'"
  proof (rule pages_keep [OF pg _ _ flds(2)])
    fix b x assume x: "b < 9" "x \<in> set (hv_pages g b)"
    from page_reads [OF l c pg x(2,1)] obtain fs1 where f: "hv_chunk g x = Some (Cells b fs1)" "paged x" by metis
    have ne: "x \<noteq> p" using f(1) p by auto
    have xs: "x \<in> span x (chunk_len (Cells b fs1))" using f(2) by simp
    show "ld x h' = ld x h"
    proof (rule same)
      show "x \<noteq> f_head p" "x \<noteq> p + 96" using other [OF f(1) ne xs] by blast+
      fix i :: nat and y assume i: "i < 7" "y \<in> Y"
      then obtain s' where s': "hv_chunk g y = Some (Block s')" using Y by blast
      then have "f_forward i y \<in> span y (chunk_len (Block s'))" using forward_word [OF layoutD(1) [OF l s'] i(1)] chunk_len_ok [OF c s'] by simp
      moreover have "x \<noteq> y" using s' f(1) by auto
      ultimately show "x \<noteq> f_forward i y" using layout_disjoint [OF l f(1) s' _ xs] by blast
    qed
  qed simp_all
  moreover have "\<exists>s. hv_chunk g q = Some (Block s)" if "q \<in> set fs" for q
    using that fs [of q] bl p by (cases "q = p") (auto simp: frees_ok_def)
  then have "frees_ok ?g h'" using sk bl by (simp add: frees_ok_def flds)
  ultimately show ?thesis by (simp add: heap_ok_def)
qed


section \<open>Headers of blocks\<close>

lemma block_bounds:
  assumes l: "layout g h" and p: "hv_chunk g p = Some (Block s)" and s: "4000 \<le> s"
  shows "unat (of_nat s :: u64) = s" "unat (p + of_nat s) = unat p + s" "(of_nat s :: u64) > NUM_BINS" "p < p + 96" "p + 96 < p + of_nat s" "p + 96 \<noteq> 0"
    "(of_nat s :: u64) \<noteq> 0"
proof -
  have "unat (kh_heap_start h) < 2 ^ 64" using unsigned_less [of "kh_heap_start h"] by simp
  then have room: "unat p + s < 2 ^ 64" using layoutD(3) [OF l p] by simp
  then show s1: "unat (of_nat s :: u64) = s" by (simp add: unsigned_of_nat take_bit_nat_eq_self)
  show s2: "unat (p + of_nat s) = unat p + s" using room s1 by (simp add: unat_word_ariths)
  note u = off96 [OF layoutD(1) [OF l p]]
  show "(of_nat s :: u64) > NUM_BINS" using s1 s by (simp add: NUM_BINS_def word_less_nat_alt)
  show "p < p + 96" "p + 96 < p + of_nat s" using u s2 s by (simp_all add: word_less_nat_alt)
  show "p + 96 \<noteq> 0" using u by auto
  show "(of_nat s :: u64) \<noteq> 0" using s1 s by auto
qed

lemma block_pages: "(s + 96) mod 4096 = 0 \<Longrightarrow> (of_nat s + 96 :: u64) mod 0x1000 = 0"
proof -
  assume "(s + 96) mod 4096 = 0"
  then obtain k where "s + 96 = 4096 * k" by auto
  then have "(of_nat s + 96 :: u64) = 4096 * of_nat k" by (metis of_nat_add of_nat_mult of_nat_numeral)
  then have "2 ^ 12 dvd (of_nat s + 96 :: u64)" by simp
  then have "take_bit 12 (of_nat s + 96 :: u64) = 0" by (simp only: take_bit_eq_0_iff)
  then show ?thesis by (simp only: take_bit_eq_mod) simp
qed

lemma block_free:
  assumes l: "layout g h" and p: "hv_chunk g p = Some (Block s)" and d: "same_dom h h'" and s: "4000 \<le> s" "(s + 96) mod 4096 = 0" and sz: "ld (f_size p) h' = Some (of_nat s)"
  shows "free_big h' p"
proof -
  note pp = layoutD [OF l p]
  have "ld (f_forward i p) h' \<noteq> None" if "i < 7" for i
    using forward_word [OF pp(1) that, of "s + 96"] layout_mapped [OF l p, of "f_forward i p"] d s by (simp add: same_dom_def)
  moreover have "\<not> paged big_head" by (simp add: paged_unat big_head_def)
  then have "p \<noteq> big_head" using pp(1) by auto
  ultimately show ?thesis using pp(1,2) sz block_pages [OF s(2)] unfolding free_big_def
    by (intro conjI exI [of _ "of_nat s"] allI impI) blast+
qed

lemma block_check_head:
  assumes l: "layout g h" and p: "hv_chunk g p = Some (Block s)" and s: "4000 \<le> s" and sz: "ld (f_size p) h' = Some (of_nat s)" and hd: "ld (f_head p) h' = Some (p + 96)"
  shows "check_head p h' = Some ()"
  using block_bounds [OF l p s] layoutD(2) [OF l p] sz hd by (simp add: check_head_def check_def)

lemma list_frame_ld: "list_frame P h h' \<Longrightarrow> (\<And>i y. i < 7 \<Longrightarrow> y \<in> P \<Longrightarrow> a \<noteq> f_forward i y) \<Longrightarrow> ld a h' = ld a h"
  unfolding list_frame_def ld_def by blast


lemma forward_own: "heap_ok g h \<Longrightarrow> y \<in> set (hv_free g) \<Longrightarrow> i < 7 \<Longrightarrow> f_forward i y \<in> own g"
proof -
  assume ok: "heap_ok g h" and y: "y \<in> set (hv_free g)" and i: "i < 7"
  have l: "layout g h" and c: "chunks_ok g h" and bl: "frees_ok g h" using ok by (simp_all add: heap_ok_def)
  from block_reads [OF l c bl y] obtain s where "hv_chunk g y = Some (Block s)" "f_forward i y \<in> own_words True y (Block s)" using i by metis
  then show ?thesis using own_intro y by simp
qed

text \<open>The words of a header but the links.\<close>

lemma page_word_not_forward:
  assumes l: "layout g h" and c: "chunks_ok g h" and q: "hv_chunk g q = Some d" and y: "hv_chunk g y = Some (Block s)" "i < 7"
  shows "q + 8 \<noteq> f_forward i y" "q + 96 \<noteq> f_forward i y"
proof -
  have *: "n = 40 + 8 * i" if "q + of_nat n = f_forward i y" "n < 4096" for n
  proof -
    have "(of_nat n :: u64) < 0x1000" using that(2) by (simp add: word_less_nat_alt unsigned_of_nat take_bit_nat_eq_self)
    then have "(of_nat n :: u64) = of_nat (40 + 8 * i)"
      using that(1) page_off [OF layoutD(1) [OF l q] layoutD(1) [OF l y(1)] _ forward_off [OF y(2)]] by (simp add: f_forward_def)
    then have "unat (of_nat n :: u64) = unat (of_nat (40 + 8 * i) :: u64)" by (rule arg_cong)
    then show ?thesis using that(2) y(2) by (simp only: unsigned_of_nat) (simp add: take_bit_nat_eq_self)
  qed
  show "q + 8 \<noteq> f_forward i y" "q + 96 \<noteq> f_forward i y" using * [of 8] * [of 96] y(2) by auto
qed


lemma skip_ok_header:
  assumes l: "layout g h0" and c: "chunks_ok g h0" and p: "hv_chunk g p = Some d" and xs: "\<forall>x \<in> set xs. \<exists>s. hv_chunk g x = Some (Block s)"
    and same: "\<And>a. a \<noteq> f_head p \<Longrightarrow> a \<noteq> p + 96 \<Longrightarrow> ld a h' = ld a h" and flds: "kh_big_forward h' = kh_big_forward h" "kh_big_level h' = kh_big_level h"
  shows "skip_ok h' xs lv = skip_ok h xs lv"
proof (rule skip_ok_same [OF _ _ flds])
  fix x assume "x \<in> set xs"
  then obtain s where s: "hv_chunk g x = Some (Block s)" using xs by blast
  show "ld (f_forward i x) h' = ld (f_forward i x) h" if "i < 7" for i
    using page_word_not_forward [OF l c p s that] by (intro same) (simp_all add: f_head_def)
  show "ld (f_size x) h' = ld (f_size x) h"
    using page_off [OF layoutD(1) [OF l s] layoutD(1) [OF l p], of 16 8] page_off [OF layoutD(1) [OF l s] layoutD(1) [OF l p], of 16 96]
    by (intro same) (simp_all add: f_head_def f_size_def)
qed


section \<open>Putting a block back\<close>

definition block_of :: "ptr \<Rightarrow> ptr" where
  "block_of q = (if q mod 0x1000 = 0 then q - 1 else q) AND NOT 0xFFF"

lemma put_block_spec:
  assumes ok: "heap_ok g h" and p: "hv_chunk g p = Some (Block s)" "p \<notin> set (hv_free g)" and q: "q \<noteq> 0" "block_of q = p"
  shows "\<exists>h' g'. klfree q h = Some h' \<and> heap_ok g' h' \<and> live g = insert (p + 96, s) (live g') \<and> p + 96 \<in> own g' \<and> kh_junk h' = kh_junk h \<and> kh_lock h' = kh_lock h \<and>
    (\<forall>a \<in> live_words g'. ld a h' = ld a h)"
proof -
  have l: "layout g h" and c: "chunks_ok g h" and pg: "pages_ok g h" and bl: "frees_ok g h" using ok by (simp_all add: heap_ok_def)
  note pp = layoutD(1,2) [OF l p(1)] and neq = page_header_neq [OF layoutD(1) [OF l p(1)]]
  have s: "4000 \<le> s" "(s + 96) mod 4096 = 0" and mg: "ld (f_magic p) h = Some BIN_MAGIC" and sz: "ld (f_size p) h = Some (of_nat s)" and hd: "ld (f_head p) h = Some 0"
    using chunks_okD [OF c p(1)] p(2) by simp_all
  note bd = block_bounds [OF l p(1) s(1)]
  have m96: "ld (p + 96) h \<noteq> None" by (rule layout_mapped [OF l p(1)]) (use pp s in simp_all)
  have n96: "f_head p \<noteq> p + 96" "f_size p \<noteq> p + 96" by (simp_all add: f_head_def f_size_def)
  let ?n = "of_nat s :: u64"
  define h1 where "h1 = h\<lparr>kh_mem := (kh_mem h)(p + 96 \<mapsto> 0, f_head p \<mapsto> p + 96)\<rparr>"
  have l1: "ld a h1 = (if a = f_head p then Some (p + 96) else if a = p + 96 then Some 0 else ld a h)" for a by (simp add: h1_def ld_def)
  have d1: "same_dom h h1" using m96 hd by (auto simp: same_dom_def l1)
  have push: "klmalloc_stack_push p (p + 96) h = Some h1"
    using sz bd m96 hd by (simp add: klmalloc_stack_push_def check_def h1_def st_def ld_def)
  have sz1: "ld (f_size p) h1 = Some ?n" and hd1: "ld (f_head p) h1 = Some (p + 96)" using sz n96 neq by (simp_all add: l1)
  have sk1: "skip_ok h1 (hv_free g) (hv_level g)"
    using skip_ok_header [OF l c p(1), of "hv_free g" h1 h "hv_level g"] bl by (simp add: l1 frees_ok_def) (simp add: h1_def)
  obtain h' lv where ins: "klmalloc_skip_list_insert p h1 = Some h'" and sk: "skip_ok h' (below h1 ?n (hv_free g) @ p # beyond h1 ?n (hv_free g)) lv"
    and lf: "list_frame (insert p (set (hv_free g))) h1 h'"
    using skip_insert_spec [OF sk1 p(2) block_free [OF l p(1) d1 s sz1] block_check_head [OF l p(1) s(1) sz1 hd1] sz1 bd(7)] by blast
  let ?fs = "below h1 ?n (hv_free g) @ p # beyond h1 ?n (hv_free g)"
  let ?g = "g\<lparr>hv_free := ?fs, hv_level := lv\<rparr>"
  have fs: "set ?fs = insert p (set (hv_free g))" using arg_cong [OF split_lists [of "hv_free g" h1 ?n], of set] by auto
  have run: "klfree q h = Some h'"
    using q pp mg sz bd(3) hd push ins hd1 bd(6) block_pages [OF s(2)] by (simp add: klfree_def Let_def block_of_def check_def paged_def)
  have Y: "\<exists>s. hv_chunk g y = Some (Block s)" if "y \<in> insert p (set (hv_free g))" for y using that p(1) bl by (auto simp: frees_ok_def)
  have same: "ld a h' = ld a h" if "a \<noteq> f_head p" "a \<noteq> p + 96" "\<And>i y. i < 7 \<Longrightarrow> y \<in> insert p (set (hv_free g)) \<Longrightarrow> a \<noteq> f_forward i y" for a
    using list_frame_ld [OF lf that(3)] that(1,2) by (simp add: l1)
  note lfd = lf [unfolded list_frame_def]
  have d': "same_dom h h'" using d1 lfd by (simp add: same_dom_def ld_def)
  have hd': "ld (f_head p) h' = Some (p + 96)" "ld (p + 96) h' = Some 0"
  proof -
    have "a \<noteq> f_forward i y" if "a = f_head p \<or> a = p + 96" "i < 7" "y \<in> insert p (set (hv_free g))" for a i y
      using that(1) page_word_not_forward [OF l c p(1), of y _ i] Y [OF that(3)] that(2) by (auto simp: f_head_def)
    from list_frame_ld [OF lf this] show "ld (f_head p) h' = Some (p + 96)" "ld (p + 96) h' = Some 0" using n96 by (simp_all add: l1)
  qed
  have ok': "heap_ok ?g h'"
  proof (rule heap_ok_blocks [OF ok p(1) Y same d' _ _ _ sk])
    show "kh_heap_start h' = kh_heap_start h" "kh_bin_head h' = kh_bin_head h" "kh_newest_big h' = kh_newest_big h" using lfd by (simp_all add: h1_def)
    show "ld (f_head p) h' = Some (if p \<in> set ?fs then p + 96 else 0)" "ld (p + 96) h' = Some 0" using hd' by simp_all
    show "q \<in> set ?fs \<longleftrightarrow> q \<in> set (hv_free g)" if "q \<noteq> p" for q using that fs by blast
  qed
  have lv: "live g = insert (p + 96, s) (live ?g)"
  proof (rule live_take [OF p])
    show "q \<in> set (hv_free g) \<longleftrightarrow> q \<in> set (hv_free ?g)" if "q \<noteq> p" for q using that fs by auto
    show "live_in ?g {p} = {}" using live_at [of ?g p "Block s"] p(1) by simp
  qed simp
  have "p \<in> set (hv_free ?g)" by simp
  then have o96: "p + 96 \<in> own ?g" by (intro own_intro [of ?g p "Block s"]) (use p(1) pp s in simp_all)
  have "ld a h' = ld a h" if a: "a \<in> live_words ?g" for a
  proof (rule same)
    have no: "a \<notin> own ?g" using live_own ok' a by (auto simp: heap_ok_def)
    show "a \<noteq> f_head p" "a \<noteq> p + 96" using header_not_live [OF ok', of p "Block s"] p(1) a no o96 by auto
    show "a \<noteq> f_forward i y" if "i < 7" "y \<in> insert p (set (hv_free g))" for i y
      using forward_own [OF ok' _ that(1), of y] that(2) fs no by auto
  qed
  then show ?thesis using run ok' lv o96 lfd by (intro exI [of _ h'] exI [of _ ?g]) (simp add: h1_def)
qed


section \<open>The best fit\<close>

lemma best_fit_spec:
  assumes ok: "heap_ok g h" and v: "beyond h n (hv_free g) = v # bs"
  shows "\<exists>h' g'. do { s \<leftarrow> ld (f_size v) h; check (s \<ge> n); h \<leftarrow> klmalloc_skip_list_delete v h; klmalloc_stack_pop v h } = Some (v + 96, h') \<and>
    (\<exists>s \<ge> unat n. allocated g h s (v + 96) g' h')"
proof -
  have l: "layout g h" and c: "chunks_ok g h" and bl: "frees_ok g h" using ok by (simp_all add: heap_ok_def)
  let ?xs = "hv_free g"
  have sk: "skip_ok h ?xs (hv_level g)" using bl by (simp add: frees_ok_def)
  have "v \<in> set (beyond h n ?xs)" using v by simp
  then have vx: "v \<in> set ?xs" unfolding beyond_def by (rule set_dropWhileD)
  then obtain s where p: "hv_chunk g v = Some (Block s)" using bl by (auto simp: frees_ok_def)
  note pp = layoutD(1,2) [OF l p] and neq = page_header_neq [OF layoutD(1) [OF l p]]
  have s: "4000 \<le> s" "(s + 96) mod 4096 = 0" and sz: "ld (f_size v) h = Some (of_nat s)" and hd: "ld (f_head v) h = Some (v + 96)" "ld (v + 96) h = Some 0"
    using chunks_okD [OF c p] vx by simp_all
  note bd = block_bounds [OF l p s(1)]
  let ?n = "of_nat s :: u64"
  have bs: "block_size h v = ?n" using sz by (simp add: block_size_def)
  have ge: "n \<le> ?n" using sorted_split(2) [of h ?xs n] sk v bs by (simp add: skip_ok_def)
  have own: "beyond h ?n ?xs = v # bs" using beyond_larger [OF v] ge bs by simp
  obtain h1 where del: "klmalloc_skip_list_delete v h = Some h1" and sk1: "skip_ok h1 (below h ?n ?xs @ bs) (hv_level g)" and lf: "list_frame (set ?xs) h h1"
    using skip_delete_spec [OF sk sz own block_check_head [OF l p s(1) sz hd(1)]] by blast
  let ?fs = "below h ?n ?xs @ bs"
  have xs: "?xs = below h ?n ?xs @ v # bs" using split_lists [of ?xs h ?n] own by simp
  have "distinct (below h ?n ?xs @ v # bs)" using sk xs by (simp add: skip_ok_def)
  then have fs: "set ?fs = set ?xs - {v}" using arg_cong [OF xs, of set] by auto
  have Y: "\<exists>s. hv_chunk g y = Some (Block s)" if "y \<in> set ?xs" for y using that bl by (auto simp: frees_ok_def)
  note lfd = lf [unfolded list_frame_def]
  have keep: "ld a h1 = ld a h" if "a = f_head v \<or> a = v + 96 \<or> a = f_size v" for a
  proof (rule list_frame_ld [OF lf])
    fix i :: nat and y assume i: "i < 7" "y \<in> set ?xs"
    obtain s' where s': "hv_chunk g y = Some (Block s')" using Y [OF i(2)] by blast
    show "a \<noteq> f_forward i y"
      using that page_word_not_forward [OF l c p s' i(1)] f_size_forward [OF pp(1) layoutD(1) [OF l s'] i(1)] by (auto simp: f_head_def)
  qed
  define h' where "h' = h1\<lparr>kh_mem := (kh_mem h1)(f_head v \<mapsto> 0)\<rparr>"
  have l': "ld a h' = (if a = f_head v then Some 0 else ld a h1)" for a by (simp add: h'_def ld_def)
  have pop: "klmalloc_stack_pop v h1 = Some (v + 96, h')"
    using keep hd sz bd pp(2) by (simp add: klmalloc_stack_pop_def check_def st_some h'_def)
  have sk': "skip_ok h' ?fs (hv_level g)"
    using skip_ok_header [OF l c p, of ?fs h' h1 "hv_level g"] sk1 Y fs by (simp add: l') (simp add: h'_def)
  have d': "same_dom h h'" using lfd hd keep [of "f_head v"] by (auto simp: same_dom_def l') (simp_all add: ld_def)
  let ?g = "g\<lparr>hv_free := ?fs, hv_level := hv_level g\<rparr>"
  have same: "ld a h' = ld a h" if "a \<noteq> f_head v" "\<And>i y. i < 7 \<Longrightarrow> y \<in> set ?xs \<Longrightarrow> a \<noteq> f_forward i y" for a
    using list_frame_ld [OF lf that(2)] that(1) by (simp add: l')
  have ok': "heap_ok ?g h'"
  proof (rule heap_ok_blocks [OF ok p Y _ d' _ _ _ sk'])
    show "kh_heap_start h' = kh_heap_start h" "kh_bin_head h' = kh_bin_head h" "kh_newest_big h' = kh_newest_big h" using lfd by (simp_all add: h'_def)
  qed (use same fs in \<open>auto simp: l'\<close>)
  have lv: "live ?g = insert (v + 96, s) (live g)"
  proof (rule live_take)
    show "q \<in> set (hv_free ?g) \<longleftrightarrow> q \<in> set (hv_free g)" if "q \<noteq> v" for q using that fs by simp
    show "v \<notin> set (hv_free ?g)" using fs by simp
    show "live_in g {v} = {}" using live_at [OF p] vx by simp
  qed (simp_all add: p)
  have "v + 96 \<in> own g" by (rule own_intro [OF p]) (use vx pp s in simp)
  then have new: "(v + 96, s) \<notin> live g" using s(1) by (intro live_fresh [OF l c]) simp_all
  have "ld a h' = ld a h" if a: "a \<in> live_words g" for a
    using header_not_live [OF ok p] forward_own [OF ok] live_own [OF l c] a by (intro same) auto
  then have "allocated g h s (v + 96) ?g h'"
    using ok' lv new lfd by (auto simp: allocated_def h'_def)
  moreover have "unat n \<le> s" using ge bd(1) by (simp add: word_le_nat_alt)
  ultimately show ?thesis using sz ge del pop by (auto simp: check_def)
qed


section \<open>A new block\<close>

lemma pages_word:
  fixes n :: u64
  assumes "unat n + 96 < 0x1F00000"
  defines "N \<equiv> ((unat n + 96) div 4096 + 1) * 4096"
  shows "0x1000 * ((n + 96) div 0x1000 + 1) = of_nat N" "((n + 96) div 0x1000 + 1) * 0x1000 - 96 = of_nat (N - 96)" "N \<le> 0x1F00000" "4096 \<le> N" "unat n + 96 < N" "N mod 4096 = 0"
proof -
  have "unat (n + 96) = unat n + 96" using assms(1) by (simp add: unat_word_ariths)
  then have "unat ((n + 96) div 0x1000) = (unat n + 96) div 4096" by (simp add: unat_div_distrib)
  then have "(n + 96) div 0x1000 = of_nat ((unat n + 96) div 4096)" by (metis of_nat_unat ucast_id)
  then show m: "0x1000 * ((n + 96) div 0x1000 + 1) = of_nat N" by (simp add: N_def algebra_simps)
  show N: "4096 \<le> N" "N mod 4096 = 0" by (simp_all add: N_def)
  have "((n + 96) div 0x1000 + 1) * 0x1000 - 96 = of_nat N - 96" using m by (simp only: mult.commute)
  then show "((n + 96) div 0x1000 + 1) * 0x1000 - 96 = of_nat (N - 96)" using N(1) by (simp add: of_nat_diff)
  show "unat n + 96 < N" unfolding N_def using dividend_less_times_div [of 4096 "unat n + 96"] by (simp add: algebra_simps)
  have "(unat n + 96) div 4096 < 7936" using assms(1) by (simp add: div_less_iff_less_mult)
  then show "N \<le> 0x1F00000" by (simp add: N_def)
qed

lemma new_block_run:
  assumes p: "paged (kh_heap_start h)" "kh_heap_start h \<noteq> 0" and room: "unat (kh_heap_start h) + 0x1F00000 < 2 ^ 64"
    and N: "0x1000 * ((n + 96) div 0x1000 + 1) = of_nat N" "((n + 96) div 0x1000 + 1) * 0x1000 - 96 = of_nat (N - 96)" "N \<le> 0x1F00000" "4096 \<le> N" "N mod 4096 = 0"
    and wm: "kh_newest_big h \<noteq> 0 \<Longrightarrow> kh_newest_big h \<notin> span (kh_heap_start h) N \<and> ld (kh_newest_big h) h \<noteq> None"
  obtains h' where "new_block n h = Some (kh_heap_start h + 96, h')" "paged (kh_heap_start h')" "unat (kh_heap_start h') = unat (kh_heap_start h) + N"
    "\<And>a. a \<in> span (kh_heap_start h) N \<Longrightarrow> a AND 7 = 0 \<Longrightarrow> ld a h' \<noteq> None"
    "\<And>a. a \<notin> span (kh_heap_start h) N \<Longrightarrow> a \<noteq> kh_newest_big h \<or> kh_newest_big h = 0 \<Longrightarrow> ld a h' = ld a h"
    "kh_newest_big h \<noteq> 0 \<Longrightarrow> ld (kh_newest_big h) h' \<noteq> None" "hchunk_ok h' False (kh_heap_start h) (Block (N - 96))"
    "kh_bin_head h' = kh_bin_head h" "kh_big_forward h' = kh_big_forward h" "kh_big_level h' = kh_big_level h" "kh_newest_big h' = kh_heap_start h"
    "kh_junk h' = kh_junk h" "kh_lock h' = kh_lock h"
proof -
  let ?p = "kh_heap_start h" and ?w = "kh_newest_big h"
  note neq = page_header_neq [OF p(1)]
  obtain h1 where h1: "sbrk (of_nat N) h = Some (?p, h1)" "paged (kh_heap_start h1)" "unat (kh_heap_start h1) = unat ?p + N"
    and m1: "\<And>a. ld a h1 = (if a \<in> span ?p N \<and> a AND 7 = 0 then Some (kh_junk h a) else ld a h)"
    and f1: "kh_bin_head h1 = kh_bin_head h" "kh_big_forward h1 = kh_big_forward h" "kh_big_level h1 = kh_big_level h" "kh_newest_big h1 = kh_newest_big h"
      "kh_junk h1 = kh_junk h" "kh_lock h1 = kh_lock h"
    by (rule sbrk_spec [OF p, of N]) (use N(3,4,5) room in auto)
  define m where "m = (kh_mem h1)(f_magic ?p \<mapsto> BIN_MAGIC, f_size ?p \<mapsto> of_nat (N - 96), f_prev ?p \<mapsto> ?w)"
  define h' where "h' = h1\<lparr>kh_mem := (if ?w \<noteq> 0 then m(?w \<mapsto> ?p) else m)(?p \<mapsto> 0, f_head ?p \<mapsto> 0), kh_newest_big := ?p\<rparr>"
  have sp: "?p \<in> span ?p N" "f_head ?p \<in> span ?p N" "f_magic ?p \<in> span ?p N" "f_size ?p \<in> span ?p N" "f_prev ?p \<in> span ?p N"
    using p N(4) by (simp_all add: f_head_def f_magic_def f_size_def f_prev_def)
  have hdr: "ld ?p h1 = Some (kh_junk h ?p)" "ld (f_head ?p) h1 = Some (kh_junk h (f_head ?p))" "ld (f_magic ?p) h1 = Some (kh_junk h (f_magic ?p))"
      "ld (f_size ?p) h1 = Some (kh_junk h (f_size ?p))" "ld (f_prev ?p) h1 = Some (kh_junk h (f_prev ?p))"
    using sp p by (simp_all add: m1) (simp_all add: p f_head_def f_magic_def f_size_def f_prev_def)
  have hn: "f_prev ?p \<noteq> f_head ?p" "f_prev ?p \<noteq> f_size ?p" "f_prev ?p \<noteq> f_magic ?p" "f_prev ?p \<noteq> ?p" by (simp_all add: f_prev_def f_head_def f_size_def f_magic_def)
  have hw: "?w \<noteq> f_head ?p" "?w \<noteq> f_size ?p" "?w \<noteq> f_magic ?p" "?w \<noteq> f_prev ?p" "?w \<noteq> ?p" if "?w \<noteq> 0" using wm [OF that] sp by auto
  have "(N - 96 + 96) mod 4096 = 0" using N(4,5) by simp
  from block_pages [OF this] have chk: "(of_nat (N - 96) + 96 :: u64) mod 0x1000 = 0" .
  have run: "new_block n h = Some (?p + 96, h')"
  proof (cases "?w = 0")
    case True
    show ?thesis unfolding new_block_def Let_def N(1,2) h1(1)
      using hdr p(1) chk True neq hn by (simp add: st_def check_def paged_def f_next_def ld_def f1(4) h'_def m_def)
  next
    case False
    obtain z where z: "ld ?w h1 = Some z" using wm [OF False] by (auto simp: m1)
    show ?thesis unfolding new_block_def Let_def N(1,2) h1(1)
      using hdr p(1) chk False neq hn hw [OF False] z by (simp add: st_def check_def paged_def f_next_def ld_def f1(4) h'_def m_def)
  qed
  have l': "ld a h' = (if a = f_head ?p \<or> a = ?p then Some 0 else if ?w \<noteq> 0 \<and> a = ?w then Some ?p
      else if a = f_prev ?p then Some ?w else if a = f_size ?p then Some (of_nat (N - 96)) else if a = f_magic ?p then Some BIN_MAGIC else ld a h1)" for a
    by (simp add: h'_def m_def ld_def)
  have "ld (f_magic ?p) h' = Some BIN_MAGIC" "ld (f_size ?p) h' = Some (of_nat (N - 96))" "ld (f_head ?p) h' = Some 0"
    using neq hn hw(2,3) by (auto simp: l')
  then have new: "hchunk_ok h' False ?p (Block (N - 96))" using N(4,5) by simp
  have mp: "ld a h' \<noteq> None" if "a \<in> span ?p N" "a AND 7 = 0" for a using that m1 by (simp add: l')
  have out: "ld a h' = ld a h" if "a \<notin> span ?p N" "a \<noteq> ?w \<or> ?w = 0" for a
  proof -
    have "a \<noteq> ?p" "a \<noteq> f_head ?p" "a \<noteq> f_magic ?p" "a \<noteq> f_size ?p" "a \<noteq> f_prev ?p" using that(1) sp by blast+
    then show ?thesis using that by (auto simp: l' m1)
  qed
  show ?thesis
    by (rule that [OF run _ _ mp out _ new]) (use h1(2,3) f1 in \<open>simp_all add: l'\<close>, simp_all add: h'_def)
qed

lemma new_block_spec:
  assumes ok: "heap_ok g h" and room: "unat (kh_heap_start h) + 0x1F00000 < 2 ^ 64"
    and N: "0x1000 * ((n + 96) div 0x1000 + 1) = of_nat N" "((n + 96) div 0x1000 + 1) * 0x1000 - 96 = of_nat (N - 96)" "N \<le> 0x1F00000" "4096 \<le> N" "N mod 4096 = 0"
  shows "\<exists>h' g'. new_block n h = Some (kh_heap_start h + 96, h') \<and> allocated g h (N - 96) (kh_heap_start h + 96) g' h'"
proof -
  let ?p = "kh_heap_start h" and ?w = "kh_newest_big h"
  have l: "layout g h" and c: "chunks_ok g h" and pg: "pages_ok g h" and bl: "frees_ok g h" using ok by (simp_all add: heap_ok_def)
  have p: "paged ?p" "?p \<noteq> 0" using l by (simp_all add: layout_def)
  note fresh = heap_end_new [OF l c]
  define x where "x = (if ?w = 0 then ?p else ?w)"
  have xb: "x = ?p \<or> (\<exists>s. hv_chunk g x = Some (Block s))" using bl by (auto simp: x_def frees_ok_def)
  have wm: "?w \<notin> span ?p N \<and> ld ?w h \<noteq> None" if w: "?w \<noteq> 0"
  proof -
    obtain s where s: "hv_chunk g ?w = Some (Block s)" using bl w by (auto simp: frees_ok_def)
    show ?thesis using chunk_mapped(1) [OF l s] span_heap_end [OF l s, of ?w N] layoutD(1) [OF l s] chunk_len_ok [OF c s] by simp
  qed
  obtain h' where run: "new_block n h = Some (?p + 96, h')" and hs: "paged (kh_heap_start h')" "unat (kh_heap_start h') = unat ?p + N"
    and mp: "\<And>a. a \<in> span ?p N \<Longrightarrow> a AND 7 = 0 \<Longrightarrow> ld a h' \<noteq> None" and out: "\<And>a. a \<notin> span ?p N \<Longrightarrow> a \<noteq> ?w \<or> ?w = 0 \<Longrightarrow> ld a h' = ld a h"
    and wm': "?w \<noteq> 0 \<Longrightarrow> ld ?w h' \<noteq> None" and new: "hchunk_ok h' False ?p (Block (N - 96))"
    and flds: "kh_bin_head h' = kh_bin_head h" "kh_big_forward h' = kh_big_forward h" "kh_big_level h' = kh_big_level h" "kh_newest_big h' = ?p"
      "kh_junk h' = kh_junk h" "kh_lock h' = kh_lock h"
    by (rule new_block_run [OF p room N wm]) blast+
  have len: "chunk_len (Block (N - 96)) = N" using N(4) by simp
  have xm: "ld x h' \<noteq> None" using wm' mp [of ?p] p N(4) by (simp add: x_def)
  let ?g = "g\<lparr>hv_chunk := (hv_chunk g)(?p \<mapsto> Block (N - 96))\<rparr>"
  have same: "ld a h' = ld a h" if "a \<notin> span ?p (chunk_len (Block (N - 96)))" "a \<noteq> x" for a using that out [of a] unfolding len x_def by (auto split: if_splits)
  have add: "layout ?g h'" "chunks_ok ?g h'" "frees_ok ?g h'" "\<And>b y. b < 9 \<Longrightarrow> y \<in> set (hv_pages g b) \<Longrightarrow> ld y h' = ld y h"
    by (rule heap_ok_add [where g' = ?g and x = x, OF ok hs(1) _ _ same xm xb new flds(2,3)]; use hs(2) mp len flds(4) in simp)+
  have "pages_ok ?g h'" by (rule pages_keep [OF pg _ _ flds(1) add(4)]) (use fresh in auto)
  then have ok': "heap_ok ?g h'" using add by (simp add: heap_ok_def)
  have nf: "?p \<notin> set (hv_free g)" using bl fresh by (force simp: frees_ok_def)
  have lv: "live ?g = insert (?p + 96, N - 96) (live g)"
    by (rule live_take) (use nf live_at_none [OF fresh] in simp_all)
  have "?p + 96 \<in> span ?p 4096" using p by simp
  then have "(?p + 96, N - 96) \<notin> live g"
    using live_below [OF l c, of "?p + 96" 4096] N(4) by (force simp: live_words_def span_def)
  moreover have "ld a h' = ld a h" if a: "a \<in> live_words g" for a
  proof (rule out [OF live_below [OF l c a]])
    show "a \<noteq> ?w \<or> ?w = 0" using bl header_not_live(1) [OF ok, of ?w] a by (auto simp: frees_ok_def)
  qed
  ultimately have "allocated g h (N - 96) (?p + 96) ?g h'" unfolding allocated_def lv using ok' flds(5,6) by blast
  then show ?thesis using run by blast
qed

end
