(* ===== verification/Heap_Calls.thy ===== *)
theory Heap_Calls
  imports Heap_Big
begin

text \<open>
  The calls of \<open>kernel/misc/malloc.c\<close>: the bin of a request, \<open>malloc\<close>, \<open>free\<close>, \<open>realloc\<close> and \<open>calloc\<close> on a heap that satisfies the invariant, the
  abstract allocator they implement, and the requests they do not serve.
\<close>

section \<open>The bin of a request\<close>

lemma takeWhile_rev_upt: "\<exists>k \<le> n. length (takeWhile P (rev [0..<n])) = n - k \<and> (0 < k \<longrightarrow> \<not> P (k - 1)) \<and> (\<forall>i. k \<le> i \<and> i < n \<longrightarrow> P i)"
proof (induction n)
  case (Suc n)
  show ?case
  proof (cases "P n")
    case True
    obtain k where k: "k \<le> n" "length (takeWhile P (rev [0..<n])) = n - k" "0 < k \<longrightarrow> \<not> P (k - 1)" "\<forall>i. k \<le> i \<and> i < n \<longrightarrow> P i" using Suc by blast
    have "\<forall>i. k \<le> i \<and> i < Suc n \<longrightarrow> P i" using k(4) True less_Suc_eq by auto
    then show ?thesis using k True by (intro exI [of _ k]) (simp add: Suc_diff_le)
  qed (auto intro: exI [of _ "Suc n"])
qed simp

lemma clzl_spec:
  assumes "w \<noteq> 0"
  obtains k where "k < 64" "64 - builtin_clzl w = Suc k" "2 ^ k \<le> unat w" "unat w < 2 ^ Suc k"
proof -
  obtain k where k: "k \<le> 64" "builtin_clzl w = 64 - k" "0 < k \<Longrightarrow> bit w (k - 1)" "\<And>i. k \<le> i \<Longrightarrow> i < 64 \<Longrightarrow> \<not> bit w i"
    using takeWhile_rev_upt [of 64 "\<lambda>i. \<not> bit w i"] by (auto simp: builtin_clzl_def simp del: upt_Suc)
  have "take_bit k w = w"
  proof (rule bit_word_eqI)
    fix i assume "i < LENGTH(64)"
    then show "bit (take_bit k w) i \<longleftrightarrow> bit w i" using k(4) [of i] by (cases "k \<le> i") (auto simp: bit_take_bit_iff)
  qed
  then have "unat w = take_bit k (unat w)" by (metis unsigned_take_bit_eq)
  then have hi: "unat w < 2 ^ k" by (metis take_bit_nat_less_exp)
  have k0: "0 < k" using hi assms by (cases k) (simp_all add: unat_eq_zero)
  then have "bit (unat w) (k - 1)" using k(3) by (simp add: bit_unsigned_iff)
  then have "odd (unat w div 2 ^ (k - 1))" by (simp add: bit_iff_odd)
  then have "unat w div 2 ^ (k - 1) \<noteq> 0" by (metis dvd_0_right)
  then have lo: "2 ^ (k - 1) \<le> unat w" by (simp add: div_eq_0_iff)
  show ?thesis by (rule that [of "k - 1"]) (use k(1,2) k0 hi lo in simp_all)
qed

lemma power_test:
  fixes w :: u64
  assumes "2 ^ k \<le> unat w" "unat w < 2 ^ Suc k" "k < 64"
  shows "w AND (w - 1) = 0 \<longleftrightarrow> unat w = 2 ^ k"
proof
  have "0 < (2 :: nat) ^ k" by simp
  then have w0: "1 \<le> unat w" using assms(1) by linarith
  then have u1: "unat (w - 1) = unat w - 1" by (simp add: unat_sub_if')
  show "unat w = 2 ^ k" if z: "w AND (w - 1) = 0"
  proof (rule ccontr)
    assume "unat w \<noteq> 2 ^ k"
    then have "unat (w - 1) div 2 ^ k = 1" "unat w div 2 ^ k = 1" using assms u1 by (simp_all add: div_nat_eqI)
    then have "bit (unat w) k" "bit (unat (w - 1)) k" by (simp_all add: bit_iff_odd)
    then have "bit w k" "bit (w - 1) k" by (simp_all add: bit_unsigned_iff)
    then have "bit (w AND (w - 1)) k" by (simp add: bit_and_iff)
    then show False using z by simp
  qed
  show "w AND (w - 1) = 0" if e: "unat w = 2 ^ k"
  proof -
    have "w = of_nat (2 ^ k)" using e by (metis of_nat_unat ucast_id)
    then have "w = 2 ^ k" by simp
    then have "w - 1 = mask k" by (simp add: mask_eq_exp_minus_1)
    then have "w AND (w - 1) = take_bit k w" by (simp add: take_bit_eq_mask)
    also have "\<dots> = 0" using \<open>w = 2 ^ k\<close> by (simp add: take_bit_eq_mod)
    finally show ?thesis .
  qed
qed

lemma bin_size_spec:
  assumes "w \<noteq> 0"
  defines "b \<equiv> unat (klmalloc_bin_size w)"
  shows "b \<le> 9" "b < 9 \<Longrightarrow> unat w \<le> 2 ^ (3 + b)" "0 < b \<Longrightarrow> 2 ^ (2 + b) < unat w"
proof -
  obtain k where k: "k < 64" "64 - builtin_clzl w = Suc k" "2 ^ k \<le> unat w" "unat w < 2 ^ Suc k" using clzl_spec [OF assms(1)] .
  define e where "e = (if unat w = 2 ^ k then 0 else 1 :: nat)"
  have "(if w AND (w - 1) \<noteq> 0 then 1 else 0 :: u64) = of_nat e" using power_test [OF k(3,4,1)] by (simp add: e_def)
  then have bs: "klmalloc_bin_size w = klmalloc_adjust_bin (of_nat (Suc k + e))" unfolding klmalloc_bin_size_def Let_def k(2) by (simp add: ac_simps)
  have u: "unat (of_nat (Suc k + e) :: u64) = Suc k + e" using k(1) by (simp only: unsigned_of_nat) (simp add: take_bit_nat_eq_self e_def)
  define m where "m = Suc k + e"
  have m: "unat (of_nat m :: u64) = m" "m \<le> 65" using u k(1) by (simp_all add: m_def e_def)
  have "unat (of_nat m - 4 :: u64) = m - 4" if "\<not> m \<le> 3" using m that by (simp add: unat_sub_if')
  then have b: "b = (if m \<le> 3 then 0 else min 9 (m - 4))"
    unfolding b_def bs m_def [symmetric] klmalloc_adjust_bin_def SMALLEST_BIN_LOG_def BIG_BIN_def NUM_BINS_def Let_def
    using m by (auto simp: word_le_nat_alt word_less_nat_alt min_def)
  show "b \<le> 9" by (simp add: b)
  have ub: "unat w \<le> 2 ^ (m - 1)" using k(3,4) by (simp add: m_def e_def)
  show "unat w \<le> 2 ^ (3 + b)" if "b < 9"
  proof -
    have "m - 1 \<le> 3 + b" using that by (auto simp: b split: if_splits)
    then have "(2 :: nat) ^ (m - 1) \<le> 2 ^ (3 + b)" by (rule power_increasing) simp
    then show ?thesis using ub by linarith
  qed
  show "2 ^ (2 + b) < unat w" if "0 < b"
  proof -
    have "2 + b \<le> m - 2" "2 \<le> m" using that by (auto simp: b split: if_splits)
    then have "(2 :: nat) ^ (2 + b) \<le> 2 ^ (m - 2)" by (intro power_increasing) simp_all
    moreover have "(2 :: nat) ^ (m - 2) < unat w"
    proof (cases "e = 0")
      case True
      then have "unat w = 2 ^ k" by (simp add: e_def split: if_splits)
      then show ?thesis using True \<open>2 \<le> m\<close> by (simp add: m_def)
    next
      case False
      then show ?thesis using k(3) by (simp add: m_def e_def split: if_splits)
    qed
    ultimately show ?thesis by linarith
  qed
qed


section \<open>Allocating and freeing\<close>

abbreviation heap_room :: "mheap \<Rightarrow> bool" where
  "heap_room h \<equiv> unat (kh_heap_start h) + 0x1F00000 < 2 ^ 64"

lemma malloc_big_spec:
  assumes ok: "heap_ok g h" and n: "unat n + 96 < 0x1F00000" and r: "heap_room h"
  shows "\<exists>x h' g' len. malloc_big n h = Some (x, h') \<and> allocated g h len x g' h' \<and> unat n \<le> len"
proof -
  have sk: "skip_ok h (hv_free g) (hv_level g)" using ok by (simp add: heap_ok_def frees_ok_def)
  note fb = findbest_spec [OF sk, of n]
  show ?thesis
  proof (cases "beyond h n (hv_free g)")
    case Nil
    define N where "N = ((unat n + 96) div 4096 + 1) * 4096"
    note N = pages_word [OF n, folded N_def]
    obtain h' g' where "new_block n h = Some (kh_heap_start h + 96, h')" "allocated g h (N - 96) (kh_heap_start h + 96) g' h'"
      using new_block_spec [OF ok r N(1-4,6)] by blast
    moreover have "unat n \<le> N - 96" using N(5) by simp
    ultimately show ?thesis using fb Nil by (auto simp: malloc_big_def)
  next
    case (Cons v bs)
    then have "v \<in> set (beyond h n (hv_free g))" by simp
    then have "v \<in> set (hv_free g)" unfolding beyond_def by (rule set_dropWhileD)
    then have "v \<noteq> 0" using sk by (auto simp: skip_ok_def free_big_def)
    then show ?thesis using best_fit_spec [OF ok Cons] fb Cons by (auto simp: malloc_big_def)
  qed
qed

lemma klmalloc_spec:
  assumes ok: "heap_ok g h" and n: "n \<noteq> 0" "unat n + 96 < 0x1F00000" and r: "heap_room h"
  shows "\<exists>x h' g' len. klmalloc n h = Some (x, h') \<and> allocated g h len x g' h' \<and> unat n \<le> len"
proof (cases "unat (klmalloc_bin_size n) < 9")
  case True
  then have "klmalloc_bin_size n < BIG_BIN" by (simp add: BIG_BIN_def NUM_BINS_def word_less_nat_alt)
  then show ?thesis using malloc_small_spec [OF ok True] r bin_size_spec(2) [OF n(1) True] n(1) by (auto simp: klmalloc_def Let_def)
next
  case False
  then have "\<not> klmalloc_bin_size n < BIG_BIN" by (simp add: BIG_BIN_def NUM_BINS_def word_less_nat_alt)
  then show ?thesis using malloc_big_spec [OF ok n(2) r] n(1) by (simp add: klmalloc_def Let_def)
qed

text \<open>The block at \<open>x\<close> is no longer there.\<close>

definition released :: "heap_view \<Rightarrow> mheap \<Rightarrow> ptr \<Rightarrow> nat \<Rightarrow> heap_view \<Rightarrow> mheap \<Rightarrow> bool" where
  "released g h x n g' h' \<longleftrightarrow> heap_ok g' h' \<and> live g' = live g - {(x, n)} \<and> (\<forall>a \<in> live_words g'. ld a h' = ld a h) \<and> kh_junk h' = kh_junk h \<and> kh_lock h' = kh_lock h"

lemma releasedI:
  assumes "heap_ok g' h'" "live g = insert (x, n) (live g')" "x \<in> own g'" "0 < n" "\<forall>a \<in> live_words g'. ld a h' = ld a h" "kh_junk h' = kh_junk h" "kh_lock h' = kh_lock h"
  shows "released g h x n g' h'"
proof -
  have "(x, n) \<notin> live g'" using assms(1,3,4) by (intro live_fresh [of g' h']) (simp_all add: heap_ok_def)
  then show ?thesis using assms by (simp add: released_def)
qed

lemma klfree_spec:
  assumes ok: "heap_ok g h" and x: "(x, n) \<in> live g"
  shows "\<exists>h' g'. klfree x h = Some h' \<and> released g h x n g' h'"
  using x
proof (cases rule: live_cases)
  case (1 b p fs)
  obtain h' g' where r: "klfree x h = Some h'" "heap_ok g' h'" "live g = insert (x, 2 ^ (3 + b)) (live g')" "x \<in> own g'" "small_frame h h'"
    and same: "\<forall>a. a \<noteq> p \<and> a \<noteq> f_head p \<and> a \<noteq> x \<longrightarrow> ld a h' = ld a h" using put_cell_spec [OF ok 1(2-4)] by blast
  have "ld a h' = ld a h" if a: "a \<in> live_words g'" for a
  proof -
    have "a \<in> live_words g" using a r(3) by (auto simp: live_words_def)
    then have "a \<noteq> p" "a \<noteq> f_head p" using header_not_live [OF ok 1(2)] by auto
    moreover have "a \<noteq> x" using live_own r(2,4) a by (auto simp: heap_ok_def)
    ultimately show ?thesis using same by blast
  qed
  then have "released g h x n g' h'" using r 1(1) by (intro releasedI) (simp_all add: small_frame_def)
  then show ?thesis using r(1) by blast
next
  case (2 p)
  have l: "layout g h" and c: "chunks_ok g h" using ok by (simp_all add: heap_ok_def)
  note pp = layoutD(1) [OF l 2(2)]
  have n: "0 < n" using chunks_okD [OF c 2(2)] by simp
  have "x \<noteq> 0" "block_of x = p" unfolding 2(1) using page_of [OF pp, of "p + 96"] off96 [OF pp] by (auto simp: block_of_def)
  from put_block_spec [OF ok 2(2,3) this] obtain h' g' where r: "klfree x h = Some h'" "heap_ok g' h'" "live g = insert (x, n) (live g')" "x \<in> own g'"
      "kh_junk h' = kh_junk h" "kh_lock h' = kh_lock h" "\<forall>a \<in> live_words g'. ld a h' = ld a h" unfolding 2(1) by blast
  show ?thesis using releasedI [OF r(2-4) n r(7,5,6)] r(1) by blast
qed


section \<open>Words of a block\<close>

definition word_at :: "ptr \<Rightarrow> nat \<Rightarrow> ptr" where
  "word_at x i = x + 8 * of_nat i"

lemma word_at_Suc: "word_at x (Suc i) = word_at (x + 8) i" and word_at_0 [simp]: "word_at x 0 = x"
  by (simp_all add: word_at_def algebra_simps)

lemma live_block:
  assumes ok: "heap_ok g h" and x: "(x, n) \<in> live g"
  shows "x AND 7 = 0" "n mod 8 = 0" "unat x + n < 2 ^ 64" "x \<noteq> 0" "0 < n"
proof -
  have l: "layout g h" and c: "chunks_ok g h" using ok by (simp_all add: heap_ok_def)
  have hs: "unat (kh_heap_start h) < 2 ^ 64" using unsigned_less [of "kh_heap_start h"] by simp
  have "x AND 7 = 0 \<and> n mod 8 = 0 \<and> unat x + n < 2 ^ 64 \<and> x \<noteq> 0 \<and> 0 < n" using l x
  proof (cases rule: live_place)
    case (1 p b fs i)
    note p = layoutD [OF l 1(1)]
    have "x \<in> cells p b" using 1(3,4) by (auto simp: cells_def)
    then have "x AND 7 = 0" "unat p + 32 \<le> unat x" using cell_word [OF p(1)] cell_range [OF p(1)] by blast+
    moreover have "unat x + n \<le> unat p + 4096" using unat_cell [OF p(1) 1(4)] cell_bound [OF 1(4)] 1(2,3) by simp
    ultimately show ?thesis using p(3) hs 1(2) by (auto simp: power_add)
  next
    case (2 p)
    note p = layoutD [OF l 2(1)] and s = chunks_okD [OF c 2(1)]
    have "unat x = unat p + 96" using off96 [OF p(1)] 2(2) by simp
    moreover have "(n + 96) mod 8 = 0" using s by (auto elim!: dvdE simp: mod_eq_0_iff_dvd)
    then have "n mod 8 = 0" by presburger
    ultimately show ?thesis using p s hs 2(2) by auto
  qed
  then show "x AND 7 = 0" "n mod 8 = 0" "unat x + n < 2 ^ 64" "x \<noteq> 0" "0 < n" by blast+
qed

lemma unat_word_at: "unat x + n < 2 ^ 64 \<Longrightarrow> 8 * i < n \<Longrightarrow> unat (word_at x i) = unat x + 8 * i"
proof -
  assume r: "unat x + n < 2 ^ 64" "8 * i < n"
  have "word_at x i = x + of_nat (8 * i)" by (simp add: word_at_def)
  moreover have "unat (of_nat (8 * i) :: u64) = 8 * i" using r by (simp only: unsigned_of_nat) (simp add: take_bit_nat_eq_self)
  ultimately show ?thesis using r by (simp add: unat_word_ariths)
qed

lemma live_word:
  assumes ok: "heap_ok g h" and x: "(x, n) \<in> live g" and i: "8 * i < n"
  shows "word_at x i \<in> span x n" "word_at x i AND 7 = 0" "ld (word_at x i) h \<noteq> None"
proof -
  have l: "layout g h" and c: "chunks_ok g h" using ok by (simp_all add: heap_ok_def)
  note b = live_block [OF ok x] and u = unat_word_at [OF live_block(3) [OF ok x] i]
  show sp: "word_at x i \<in> span x n" using u i by (simp add: span_def)
  show al: "word_at x i AND 7 = 0" using b(1) u by (simp add: aligned_unat)
  obtain p d where "hv_chunk g p = Some d" "span x n \<subseteq> span p (chunk_len d)" using live_span [OF l c x] by metis
  then show "ld (word_at x i) h \<noteq> None" using layout_mapped [OF l] sp al by blast
qed

text \<open>A client changes words of its blocks only.\<close>

definition client_frame :: "ptr set \<Rightarrow> mheap \<Rightarrow> mheap \<Rightarrow> bool" where
  "client_frame A h h' \<longleftrightarrow> small_frame h h' \<and> kh_bin_head h' = kh_bin_head h \<and> (\<forall>a. a \<notin> A \<longrightarrow> ld a h' = ld a h)"

lemma client_ok:
  assumes ok: "heap_ok g h" and f: "client_frame A h h'" "A \<subseteq> live_words g"
  shows "heap_ok g h'"
proof (rule heap_ok_client [OF ok])
  fix a assume "a \<in> own g"
  then have "a \<notin> A" using live_own [of g h] ok f(2) by (auto simp: heap_ok_def)
  then show "ld a h' = ld a h" using f(1) by (simp add: client_frame_def)
qed (use f(1) in \<open>simp_all add: client_frame_def small_frame_def\<close>)

lemma client_frame_st:
  assumes "ld a h \<noteq> None"
  shows "\<exists>h'. st a v h = Some h' \<and> client_frame {a} h h' \<and> ld a h' = Some v"
  using assms by (intro exI [of _ "h\<lparr>kh_mem := (kh_mem h)(a \<mapsto> v)\<rparr>"]) (simp add: st_some client_frame_def small_frame_def same_dom_upd)

lemma client_frame_trans: "client_frame A h h1 \<Longrightarrow> client_frame B h1 h2 \<Longrightarrow> client_frame (A \<union> B) h h2"
  by (simp add: client_frame_def small_frame_def same_dom_def)

lemma client_frame_mono: "client_frame A h h' \<Longrightarrow> A \<subseteq> B \<Longrightarrow> client_frame B h h'"
  by (auto simp: client_frame_def)

lemma copy_words_spec:
  assumes "\<And>i. i < m \<Longrightarrow> ld (word_at src i) h \<noteq> None" "\<And>i. i < m \<Longrightarrow> ld (word_at dst i) h \<noteq> None"
    "\<And>i j. i < m \<Longrightarrow> j < m \<Longrightarrow> word_at dst i \<noteq> word_at src j" "\<And>i j. i < m \<Longrightarrow> j < m \<Longrightarrow> word_at dst i = word_at dst j \<Longrightarrow> i = j"
  shows "\<exists>h'. copy_words (8 * m) dst src h = Some h' \<and> client_frame (word_at dst ` {..<m}) h h' \<and> (\<forall>i < m. ld (word_at dst i) h' = ld (word_at src i) h)"
  using assms
proof (induction m arbitrary: dst src h)
  case 0
  then show ?case by (subst copy_words.simps) (simp add: client_frame_def small_frame_def same_dom_def)
next
  case (Suc m)
  obtain v where v: "ld src h = Some v" using Suc.prems(1) [of 0] by auto
  obtain h1 where h1: "st dst v h = Some h1" "client_frame {dst} h h1" "ld dst h1 = Some v" using client_frame_st [of dst h v] Suc.prems(2) [of 0] by auto
  have dm: "ld a h1 = None \<longleftrightarrow> ld a h = None" for a using h1(2) by (simp add: client_frame_def small_frame_def same_dom_def)
  have ih: "\<exists>h'. copy_words (8 * m) (dst + 8) (src + 8) h1 = Some h' \<and> client_frame (word_at (dst + 8) ` {..<m}) h1 h' \<and>
      (\<forall>i < m. ld (word_at (dst + 8) i) h' = ld (word_at (src + 8) i) h1)"
  proof (rule Suc.IH)
    fix i j assume i: "i < m" and j: "j < m"
    show "word_at (dst + 8) i \<noteq> word_at (src + 8) j" using Suc.prems(3) [of "Suc i" "Suc j"] i j by (simp add: word_at_Suc)
    show "i = j" if "word_at (dst + 8) i = word_at (dst + 8) j" using Suc.prems(4) [of "Suc i" "Suc j"] that i j by (simp add: word_at_Suc)
  next
    fix i assume i: "i < m"
    show "ld (word_at (src + 8) i) h1 \<noteq> None" "ld (word_at (dst + 8) i) h1 \<noteq> None"
      using Suc.prems(1) [of "Suc i"] Suc.prems(2) [of "Suc i"] i dm by (simp_all add: word_at_Suc)
  qed
  then obtain h' where h': "copy_words (8 * m) (dst + 8) (src + 8) h1 = Some h'" "client_frame (word_at (dst + 8) ` {..<m}) h1 h'"
    "\<forall>i < m. ld (word_at (dst + 8) i) h' = ld (word_at (src + 8) i) h1" by blast
  have run: "copy_words (8 * Suc m) dst src h = Some h'" using v h1(1) h'(1) by (subst copy_words.simps) simp
  have im: "word_at dst ` {..<Suc m} = {dst} \<union> word_at (dst + 8) ` {..<m}"
    by (simp only: lessThan_Suc_eq_insert_0 image_insert image_image word_at_Suc word_at_0) auto
  have fr: "client_frame (word_at dst ` {..<Suc m}) h h'" unfolding im by (rule client_frame_trans [OF h1(2) h'(2)])
  have "ld (word_at dst i) h' = ld (word_at src i) h" if i: "i < Suc m" for i
  proof (cases i)
    case 0
    have "dst \<notin> word_at (dst + 8) ` {..<m}"
      using Suc.prems(4) [of 0 "Suc _"] by (auto simp: word_at_Suc)
    then show ?thesis using h'(2) h1(3) v 0 by (simp add: client_frame_def)
  next
    case (Suc j)
    have "word_at (src + 8) j \<noteq> dst" using Suc.prems(3) [of 0 i] i Suc by (metis word_at_0 word_at_Suc zero_less_Suc)
    then have "ld (word_at (src + 8) j) h1 = ld (word_at (src + 8) j) h" using h1(2) by (simp add: client_frame_def)
    then show ?thesis using h'(3) Suc i by (simp add: word_at_Suc)
  qed
  then show ?case using run fr by blast
qed


section \<open>Resizing\<close>

definition words_of :: "(ptr \<times> nat) set \<Rightarrow> ptr set" where
  "words_of A = (\<Union>(x, n) \<in> A. span x n)"

lemma live_words_of: "live_words g = words_of (live g)"
  by (simp add: live_words_def words_of_def)

lemma words_of_intro: "(x, n) \<in> A \<Longrightarrow> a \<in> span x n \<Longrightarrow> a \<in> words_of A"
  unfolding words_of_def by blast

lemma words_of_apart:
  assumes "heap_ok g h" "(x, n) \<in> live g" "a \<in> span x n"
  shows "a \<notin> words_of (live g - {(x, n)})"
proof
  assume "a \<in> words_of (live g - {(x, n)})"
  then obtain y m where "(y, m) \<in> live g" "(x, n) \<noteq> (y, m)" "a \<in> span y m" by (auto simp: words_of_def)
  then show False using live_disjoint [of g h x n y m] assms by (auto simp: heap_ok_def)
qed

lemma realloc_header:
  assumes ok: "heap_ok g h" and x: "(x, n) \<in> live g"
  obtains os where "ld (f_magic (x AND NOT 0xFFF)) h = Some BIN_MAGIC" "ld (f_size (x AND NOT 0xFFF)) h = Some os"
    "unat (if os < BIG_BIN then push_bit (unat (SMALLEST_BIN_LOG + os)) 1 else os) = n"
proof -
  have l: "layout g h" and c: "chunks_ok g h" using ok by (simp_all add: heap_ok_def)
  show ?thesis using x
  proof (cases rule: live_cases)
    case (1 b p fs)
    note p = layoutD [OF l 1(2)] and d = chunks_okD [OF c 1(2)]
    have h: "x AND NOT 0xFFF = p" using page_of(1) [OF p(1), of x] cell_range [OF p(1) 1(3)] by simp
    have b: "b < 9" using d by simp
    then have u: "unat (of_nat b :: u64) = b" "unat (SMALLEST_BIN_LOG + of_nat b) = 3 + b"
      by (simp_all add: SMALLEST_BIN_LOG_def unat_word_ariths unsigned_of_nat take_bit_nat_eq_self)
    have "(of_nat b :: u64) < BIG_BIN" using b u(1) by (simp add: BIG_BIN_def NUM_BINS_def word_less_nat_alt)
    moreover have "unat (push_bit (3 + b) 1 :: u64) = 2 ^ (3 + b)"
    proof -
      have "(push_bit (3 + b) 1 :: u64) = of_nat (2 ^ (3 + b))" by (simp add: push_bit_of_1)
      then show ?thesis using b by (simp only: unsigned_of_nat) (simp add: take_bit_nat_eq_self)
    qed
    ultimately show ?thesis using that [of "of_nat b"] d h u(2) 1(1) by simp
  next
    case (2 p)
    note p = layoutD [OF l 2(2)] and d = chunks_okD [OF c 2(2)]
    have h: "x AND NOT 0xFFF = p" using page_of(1) [OF p(1), of x] off96 [OF p(1)] 2(1) by simp
    have n: "4000 \<le> n" using d by simp
    note bd = block_bounds [OF l 2(2) n]
    have "\<not> (of_nat n :: u64) < BIG_BIN" using bd(1) n by (simp add: BIG_BIN_def NUM_BINS_def word_less_nat_alt)
    then show ?thesis using that [of "of_nat n"] d h bd(1) by simp
  qed
qed

lemma block_copy:
  assumes ok: "heap_ok g h" and x: "(x, n) \<in> live g" and y: "(y, m) \<in> live g" and ne: "(y, m) \<noteq> (x, n)" "n \<le> m"
  shows "\<exists>h'. copy_words n y x h = Some h' \<and> client_frame (span y m) h h' \<and> (\<forall>i. 8 * i < n \<longrightarrow> ld (word_at y i) h' = ld (word_at x i) h)"
proof -
  have n: "8 * (n div 8) = n" using live_block(2) [OF ok x] by auto
  have i: "8 * i < n \<longleftrightarrow> i < n div 8" for i using n by presburger
  have src: "word_at x j \<in> span x n" "ld (word_at x j) h \<noteq> None" if "j < n div 8" for j using live_word [OF ok x] that i by blast+
  have dst: "word_at y j \<in> span y m" "ld (word_at y j) h \<noteq> None" "unat (word_at y j) = unat y + 8 * j" if "j < n div 8" for j
  proof -
    have "8 * j < m" using that i [of j] ne(2) by linarith
    then show "word_at y j \<in> span y m" "ld (word_at y j) h \<noteq> None" "unat (word_at y j) = unat y + 8 * j"
      using live_word [OF ok y] unat_word_at [OF live_block(3) [OF ok y]] by blast+
  qed
  have "layout g h" using ok by (simp add: heap_ok_def)
  then have apart: "span y m \<inter> span x n = {}" by (rule live_disjoint [OF _ y x ne(1)])
  have "\<exists>h'. copy_words (8 * (n div 8)) y x h = Some h' \<and> client_frame (word_at y ` {..<n div 8}) h h' \<and> (\<forall>i < n div 8. ld (word_at y i) h' = ld (word_at x i) h)"
  proof (rule copy_words_spec)
    fix i j assume ij: "i < n div 8" "j < n div 8"
    show "word_at y i \<noteq> word_at x j" using dst(1) [OF ij(1)] src(1) [OF ij(2)] apart by (metis IntI empty_iff)
    show "i = j" if e: "word_at y i = word_at y j"
    proof -
      have "unat y + 8 * i = unat y + 8 * j" using dst(3) [OF ij(1)] dst(3) [OF ij(2)] unfolding e by (rule trans [OF sym])
      then show ?thesis by linarith
    qed
  qed (use src dst in blast)+
  then obtain h' where h': "copy_words n y x h = Some h'" "client_frame (word_at y ` {..<n div 8}) h h'" "\<forall>i < n div 8. ld (word_at y i) h' = ld (word_at x i) h"
    unfolding n by blast
  have "word_at y ` {..<n div 8} \<subseteq> span y m" using dst(1) by blast
  then show ?thesis using client_frame_mono [OF h'(2)] h'(1,3) i by blast
qed

lemma klrealloc_spec:
  assumes ok: "heap_ok g h" and x: "(x, n) \<in> live g" and sz: "sz \<noteq> 0" "unat sz + 96 < 0x1F00000" and r: "heap_room h"
  shows "\<exists>y h' g' m. klrealloc x sz h = Some (y, h') \<and> heap_ok g' h' \<and> live g' = insert (y, m) (live g - {(x, n)}) \<and> (y, m) \<notin> live g - {(x, n)} \<and> unat sz \<le> m \<and>
    (\<forall>i. 8 * i < n \<longrightarrow> 8 * i < m \<longrightarrow> ld (word_at y i) h' = ld (word_at x i) h) \<and> (\<forall>a \<in> words_of (live g - {(x, n)}). ld a h' = ld a h) \<and> kh_lock h' = kh_lock h"
proof -
  obtain os where os: "ld (f_magic (x AND NOT 0xFFF)) h = Some BIN_MAGIC" "ld (f_size (x AND NOT 0xFFF)) h = Some os"
    "unat (if os < BIG_BIN then push_bit (unat (SMALLEST_BIN_LOG + os)) 1 else os) = n" using realloc_header [OF ok x] .
  let ?old = "if os < BIG_BIN then push_bit (unat (SMALLEST_BIN_LOG + os)) 1 else os"
  note x0 = live_block(4) [OF ok x]
  have run: "klrealloc x sz h = (if ?old \<ge> sz then Some (x, h) else do {
      (newptr, h) \<leftarrow> klmalloc sz h;
      if newptr \<noteq> 0 then do { h \<leftarrow> copy_words (unat ?old) newptr x h; h \<leftarrow> klfree x h; Some (newptr, h) } else Some (0, h) })"
    using x0 sz(1) os(1,2) by (simp add: klrealloc_def Let_def check_def)
  show ?thesis
  proof (cases "unat sz \<le> n")
    case True
    then have "klrealloc x sz h = Some (x, h)" unfolding run word_le_nat_alt os(3) by simp
    moreover have "live g = insert (x, n) (live g - {(x, n)})" using x by blast
    ultimately show ?thesis using ok True by blast
  next
    case False
    obtain y h1 g1 m where a: "klmalloc sz h = Some (y, h1)" "allocated g h m y g1 h1" "unat sz \<le> m" using klmalloc_spec [OF ok sz r] by blast
    have g1: "heap_ok g1 h1" "live g1 = insert (y, m) (live g)" "(y, m) \<notin> live g" and s1: "\<And>a. a \<in> words_of (live g) \<Longrightarrow> ld a h1 = ld a h"
      using a(2) by (auto simp: allocated_def live_words_of)
    have y: "(y, m) \<in> live g1" and x1: "(x, n) \<in> live g1" and ne: "(y, m) \<noteq> (x, n)" using g1(2,3) x by auto
    obtain h2 where h2: "copy_words n y x h1 = Some h2" "client_frame (span y m) h1 h2" "\<And>i. 8 * i < n \<Longrightarrow> ld (word_at y i) h2 = ld (word_at x i) h1"
      using block_copy [OF g1(1) x1 y ne] a(3) False by auto
    have ok2: "heap_ok g1 h2" using client_ok [OF g1(1) h2(2)] words_of_intro [OF y] by (auto simp: live_words_of)
    obtain h3 g3 where h3: "klfree x h2 = Some h3" "released g1 h2 x n g3 h3" using klfree_spec [OF ok2 x1] by blast
    have lv: "live g3 = insert (y, m) (live g - {(x, n)})" using h3(2) g1(2) ne by (auto simp: released_def)
    have s3: "\<And>a. a \<in> words_of (live g3) \<Longrightarrow> ld a h3 = ld a h2" using h3(2) by (simp add: released_def live_words_of)
    have "klrealloc x sz h = Some (y, h3)"
      using False a(1) h2(1) h3(1) live_block(4) [OF g1(1) y] unfolding run word_le_nat_alt os(3) by simp
    moreover have "ld (word_at y i) h3 = ld (word_at x i) h" if i: "8 * i < n" "8 * i < m" for i
      using s3 [of "word_at y i"] words_of_intro [of y m _ "word_at y i"] live_word(1) [OF g1(1) y i(2)] lv h2(3) [OF i(1)]
        s1 [OF words_of_intro [OF x live_word(1) [OF ok x i(1)]]] by simp
    moreover have "ld a h3 = ld a h" if a: "a \<in> words_of (live g - {(x, n)})" for a
    proof -
      have "a \<in> words_of (live g3)" "a \<in> words_of (live g)" "a \<in> words_of (live g1 - {(y, m)})" using a lv g1(2,3) by (auto simp: words_of_def)
      moreover from this have "a \<notin> span y m" using words_of_apart [OF g1(1) y] by blast
      then have "ld a h2 = ld a h1" using h2(2) by (simp add: client_frame_def)
      ultimately show ?thesis using s3 s1 by simp
    qed
    moreover have "kh_lock h3 = kh_lock h" using a(2) h2(2) h3(2) by (simp add: allocated_def client_frame_def small_frame_def released_def)
    moreover have "heap_ok g3 h3" using h3(2) by (simp add: released_def)
    ultimately show ?thesis using lv a(3) g1(3) by blast
  qed
qed


section \<open>Cleared and page-aligned blocks\<close>

lemma merge_word_zero: "take_bit (8 * r) (merge_word r 0 w) = 0"
  by (rule bit_word_eqI) (auto simp: merge_word_def bit_simps)

lemma zero_words_spec:
  assumes "\<And>i. 8 * i < n \<Longrightarrow> ld (word_at dst i) h \<noteq> None" "\<And>i j. 8 * i < n \<Longrightarrow> 8 * j < n \<Longrightarrow> word_at dst i = word_at dst j \<Longrightarrow> i = j"
  shows "\<exists>h'. zero_words n dst h = Some h' \<and> client_frame (word_at dst ` {i. 8 * i < n}) h h' \<and>
    (\<forall>i. 8 * i < n \<longrightarrow> (\<exists>w. ld (word_at dst i) h' = Some w \<and> take_bit (8 * (n - 8 * i)) w = 0))"
  using assms
proof (induction n arbitrary: dst h rule: less_induct)
  case (less n)
  consider "n = 0" | "0 < n" "n < 8" | "8 \<le> n" by linarith
  then show ?case
  proof cases
    case 1
    then show ?thesis by (subst zero_words.simps) (simp add: client_frame_def small_frame_def same_dom_def)
  next
    case 2
    obtain w where w: "ld dst h = Some w" using less.prems(1) [of 0] 2 by auto
    obtain h' where h': "st dst (merge_word n 0 w) h = Some h'" "client_frame {dst} h h'" "ld dst h' = Some (merge_word n 0 w)"
      using client_frame_st [of dst h] w by auto
    have i: "8 * i < n \<longleftrightarrow> i = 0" for i using 2 by auto
    show ?thesis using h' w 2 merge_word_zero [of n w] by (subst zero_words.simps) (simp add: i)
  next
    case 3
    obtain h1 where h1: "st dst 0 h = Some h1" "client_frame {dst} h h1" "ld dst h1 = Some 0" using client_frame_st [of dst h 0] less.prems(1) [of 0] 3 by auto
    have dm: "ld a h1 = None \<longleftrightarrow> ld a h = None" for a using h1(2) by (simp add: client_frame_def small_frame_def same_dom_def)
    have "\<exists>h'. zero_words (n - 8) (dst + 8) h1 = Some h' \<and> client_frame (word_at (dst + 8) ` {i. 8 * i < n - 8}) h1 h' \<and>
        (\<forall>i. 8 * i < n - 8 \<longrightarrow> (\<exists>w. ld (word_at (dst + 8) i) h' = Some w \<and> take_bit (8 * (n - 8 - 8 * i)) w = 0))"
    proof (rule less.IH)
      fix i j assume i: "8 * i < n - 8" and j: "8 * j < n - 8"
      show "ld (word_at (dst + 8) i) h1 \<noteq> None" using less.prems(1) [of "Suc i"] i dm by (simp add: word_at_Suc)
      show "i = j" if "word_at (dst + 8) i = word_at (dst + 8) j" using less.prems(2) [of "Suc i" "Suc j"] that i j by (simp add: word_at_Suc)
    qed (use 3 in simp)
    then obtain h' where h': "zero_words (n - 8) (dst + 8) h1 = Some h'" "client_frame (word_at (dst + 8) ` {i. 8 * i < n - 8}) h1 h'"
      "\<And>i. 8 * i < n - 8 \<Longrightarrow> \<exists>w. ld (word_at (dst + 8) i) h' = Some w \<and> take_bit (8 * (n - 8 - 8 * i)) w = 0" by blast
    have "{i. 8 * i < n} = insert 0 (Suc ` {i. 8 * i < n - 8})"
    proof (rule set_eqI)
      fix i show "i \<in> {i. 8 * i < n} \<longleftrightarrow> i \<in> insert 0 (Suc ` {i. 8 * i < n - 8})" using 3 by (cases i) auto
    qed
    then have im: "word_at dst ` {i. 8 * i < n} = {dst} \<union> word_at (dst + 8) ` {i. 8 * i < n - 8}" by (simp add: image_image word_at_Suc)
    have "\<exists>w. ld (word_at dst i) h' = Some w \<and> take_bit (8 * (n - 8 * i)) w = 0" if i: "8 * i < n" for i
    proof (cases i)
      case 0
      have "dst \<noteq> word_at (dst + 8) j" if j: "8 * j < n - 8" for j
      proof -
        have "8 * Suc j < n" using j by (simp add: less_diff_conv)
        then show ?thesis using less.prems(2) [of 0 "Suc j"] by (auto simp: word_at_Suc)
      qed
      then have "dst \<notin> word_at (dst + 8) ` {i. 8 * i < n - 8}" by blast
      then show ?thesis using h'(2) h1(3) 0 by (simp add: client_frame_def)
    next
      case (Suc j)
      then show ?thesis using h'(3) [of j] i by (simp add: word_at_Suc)
    qed
    moreover have "client_frame (word_at dst ` {i. 8 * i < n}) h h'" unfolding im by (rule client_frame_trans [OF h1(2) h'(2)])
    ultimately show ?thesis using h1(1) h'(1) 3 by (subst zero_words.simps) auto
  qed
qed

lemma klcalloc_run:
  assumes a: "klmalloc (nmemb * sz) h = Some (x, h1)" "allocated g h m x g1 h1" "unat (nmemb * sz) \<le> m"
  shows "\<exists>h'. klcalloc nmemb sz h = Some (x, h') \<and> allocated g h m x g1 h' \<and>
    (\<forall>i. 8 * i < unat (nmemb * sz) \<longrightarrow> (\<exists>w. ld (word_at x i) h' = Some w \<and> take_bit (8 * (unat (nmemb * sz) - 8 * i)) w = 0))"
proof -
  let ?n = "unat (nmemb * sz)"
  have g1: "heap_ok g1 h1" "live g1 = insert (x, m) (live g)" "(x, m) \<notin> live g" using a(2) by (auto simp: allocated_def)
  have x: "(x, m) \<in> live g1" using g1(2) by simp
  have i: "8 * i < m" if "8 * i < ?n" for i using that a(3) by linarith
  have inj: "i = j" if ij: "8 * i < ?n" "8 * j < ?n" "word_at x i = word_at x j" for i j
  proof -
    have "unat x + 8 * i = unat x + 8 * j"
      using unat_word_at [OF live_block(3) [OF g1(1) x] i [OF ij(1)]] unat_word_at [OF live_block(3) [OF g1(1) x] i [OF ij(2)]] unfolding ij(3) by (rule trans [OF sym])
    then show ?thesis by linarith
  qed
  obtain h2 where h2: "zero_words ?n x h1 = Some h2" "client_frame (word_at x ` {i. 8 * i < ?n}) h1 h2"
    "\<forall>i. 8 * i < ?n \<longrightarrow> (\<exists>w. ld (word_at x i) h2 = Some w \<and> take_bit (8 * (?n - 8 * i)) w = 0)"
    using zero_words_spec [of ?n x h1, OF live_word(3) [OF g1(1) x i] inj] by blast
  have sub: "word_at x ` {i. 8 * i < ?n} \<subseteq> span x m" using live_word(1) [OF g1(1) x i] by blast
  then have ok2: "heap_ok g1 h2" using client_ok [OF g1(1) h2(2)] words_of_intro [OF x] by (auto simp: live_words_of)
  have "ld a h2 = ld a h" if "a \<in> live_words g" for a
  proof -
    have "live g1 - {(x, m)} = live g" using g1(2,3) by auto
    then have "a \<notin> span x m" using words_of_apart [OF g1(1) x] that by (auto simp: live_words_of)
    then have "a \<notin> word_at x ` {i. 8 * i < ?n}" using sub by blast
    then have "ld a h2 = ld a h1" using h2(2) unfolding client_frame_def by blast
    then show ?thesis using a(2) that by (simp add: allocated_def)
  qed
  then have "allocated g h m x g1 h2" using ok2 g1(2,3) a(2) h2(2) by (simp add: allocated_def client_frame_def small_frame_def)
  moreover have "klcalloc nmemb sz h = Some (x, h2)" using a(1) h2(1) live_block(4) [OF g1(1) x] by (simp add: klcalloc_def)
  ultimately show ?thesis using h2(3) by blast
qed

lemma klcalloc_spec:
  assumes ok: "heap_ok g h" and sz: "nmemb * sz \<noteq> 0" "unat (nmemb * sz) + 96 < 0x1F00000" and r: "heap_room h"
  shows "\<exists>x h' g' n. klcalloc nmemb sz h = Some (x, h') \<and> allocated g h n x g' h' \<and> unat (nmemb * sz) \<le> n \<and>
    (\<forall>i. 8 * i < unat (nmemb * sz) \<longrightarrow> (\<exists>w. ld (word_at x i) h' = Some w \<and> take_bit (8 * (unat (nmemb * sz) - 8 * i)) w = 0))"
  using klmalloc_spec [OF ok sz r] klcalloc_run by blast

text \<open>Blocks from \<open>valloc\<close>: page-aligned inside of a large block, which \<open>free\<close> finds again.\<close>

lemma klmalloc_large:
  assumes ok: "heap_ok g h" and n: "4000 \<le> unat n" "unat n + 96 < 0x1F00000" and r: "heap_room h"
  shows "\<exists>p h' g' len. klmalloc n h = Some (p + 96, h') \<and> allocated g h len (p + 96) g' h' \<and> unat n \<le> len \<and> hv_chunk g' p = Some (Block len) \<and> p \<notin> set (hv_free g')"
proof -
  have n0: "n \<noteq> 0" using n(1) by auto
  obtain x h' g' len where a: "klmalloc n h = Some (x, h')" "allocated g h len x g' h'" "unat n \<le> len" using klmalloc_spec [OF ok n0 n(2) r] by blast
  have ok': "heap_ok g' h'" and x: "(x, len) \<in> live g'" using a(2) by (simp_all add: allocated_def)
  from x show ?thesis
  proof (cases rule: live_cases)
    case (1 b p fs)
    then have "b < 9" using ok' chunks_okD [of g' h' p] by (fastforce simp: heap_ok_def)
    then have "(2 :: nat) ^ (3 + b) \<le> 2 ^ 11" by (intro power_increasing) simp_all
    then show ?thesis using 1(1) a(3) n(1) by simp
  next
    case (2 p)
    then show ?thesis using a by blast
  qed
qed

lemma klvalloc_spec:
  assumes ok: "heap_ok g h" and n: "unat n + 4096 < 0x1F00000" and r: "heap_room h"
  shows "\<exists>x h' g' len. klvalloc n h = Some (x + 4000, h') \<and> x + 4000 \<noteq> 0 \<and> paged (x + 4000) \<and> allocated g h len x g' h' \<and> unat n + 4000 \<le> len \<and>
    (\<exists>h'' g''. klfree (x + 4000) h' = Some h'' \<and> released g' h' x len g'' h'')"
proof -
  have u: "unat (n + 0x1000 - 96) = unat n + 4000" using n by (simp add: unat_word_ariths unat_sub_if')
  obtain p h' g' len where a: "klmalloc (n + 0x1000 - 96) h = Some (p + 96, h')" "allocated g h len (p + 96) g' h'" "unat n + 4000 \<le> len"
      "hv_chunk g' p = Some (Block len)" "p \<notin> set (hv_free g')"
    using klmalloc_large [OF ok, of "n + 0x1000 - 96"] r n unfolding u by auto
  have ok': "heap_ok g' h'" and l: "layout g' h'" using a(2) by (simp_all add: allocated_def heap_ok_def)
  note p = layoutD(1) [OF l a(4)] and bd = page_bounds(1) [OF l a(4)]
  have o: "p + 96 + 4000 = p + 0x1000" by simp
  have ue: "unat (p + 0x1000) = unat p + 4096" using bd a(3) by simp
  have pg: "paged (p + 0x1000)" using p by (simp add: paged_unat ue)
  then have "(p + 0x1000) mod 0x1000 = 0" by (simp only: paged_def)
  then have run: "klvalloc n h = Some (p + 96 + 4000, h')" using a(1) by (simp add: klvalloc_def Let_def check_def add.commute)
  have nz: "p + 0x1000 \<noteq> 0" using ue by auto
  have "p + 0x1000 - 1 = p + of_nat 4095" by simp
  then have "unat (p + 0x1000 - 1) = unat p + 4095" using paged_off [OF p, of 4095] by (simp only:)
  then have "(p + 0x1000 - 1) AND NOT 0xFFF = p" by (intro page_of(1) [OF p]) simp_all
  then have "block_of (p + 0x1000) = p" using pg by (simp only: block_of_def paged_def if_True refl)
  from put_block_spec [OF ok' a(4,5) nz this] obtain h2 g2 where "klfree (p + 0x1000) h' = Some h2" "heap_ok g2 h2" "live g' = insert (p + 96, len) (live g2)"
      "p + 96 \<in> own g2" "kh_junk h2 = kh_junk h'" "kh_lock h2 = kh_lock h'" "\<forall>a \<in> live_words g2. ld a h2 = ld a h'" by blast
  then have "klfree (p + 96 + 4000) h' = Some h2" "released g' h' (p + 96) len g2 h2" using a(3) unfolding o by (auto intro!: releasedI)
  then show ?thesis using run a(2,3) nz pg unfolding o [symmetric] by blast
qed

end
