(* ===== verification/Heap_Spec.thy ===== *)
theory Heap_Spec
  imports Heap_Calls
begin

text \<open>
  The allocator of \<open>kernel/misc/malloc.c\<close> as its clients see it: blocks of the requested sizes that do not overlap and keep what was stored in them.
  The calls implement this specification over every history that uses them as intended.
\<close>

section \<open>The heap at start\<close>

definition boot_heap :: "ptr \<Rightarrow> (ptr \<Rightarrow> u64) \<Rightarrow> mheap" where
  "boot_heap start junk = \<lparr>kh_mem = Map.empty, kh_bin_head = replicate 9 0, kh_big_forward = replicate 7 0, kh_big_level = 0, kh_newest_big = 0,
     kh_x = 123456789, kh_y = 362436069, kh_z = 521288629, kh_w = 88675123, kh_heap_start = start, kh_junk = junk, kh_lock = False\<rparr>"

definition empty_view :: heap_view where
  "empty_view = \<lparr>hv_chunk = Map.empty, hv_pages = \<lambda>b. [], hv_free = [], hv_level = \<lambda>p. 0\<rparr>"

lemma boot_heap_ok:
  assumes "paged start" "KERNEL_HEAP_START \<le> start"
  shows "heap_ok empty_view (boot_heap start junk)"
proof -
  have "start \<noteq> 0" using assms(2) by (auto simp: KERNEL_HEAP_START_def)
  moreover have "skip_chain i (boot_heap start junk) big_head []" if "i < 7" for i
    using that by (simp add: fwd_def boot_heap_def)
  ultimately show ?thesis using assms
    by (simp add: heap_ok_def layout_def chunks_ok_def pages_ok_def frees_ok_def skip_ok_def empty_view_def boot_heap_def level_list_def)
qed

lemma live_empty: "live empty_view = {}"
  by (simp add: live_def live_in_def empty_view_def)

lemma heap_ok_lock: "heap_ok g h \<Longrightarrow> heap_ok g (h\<lparr>kh_lock := b\<rparr>)"
  by (rule heap_ok_client [where h = h]) (simp_all add: ld_def same_dom_def)


section \<open>The specification\<close>

text \<open>Blocks with the size that was asked for, and the words that have been stored.\<close>

type_synonym alloc_state = "(ptr \<times> nat) set \<times> (ptr \<rightharpoonup> u64)"

datatype heap_call = Malloc u64 | Free ptr | Realloc ptr u64 | Store ptr u64

definition kheap_call :: "heap_call \<Rightarrow> mheap \<Rightarrow> (ptr \<times> mheap) option" where
  "kheap_call c h = (case c of
     Malloc n \<Rightarrow> malloc_call n h
   | Free p \<Rightarrow> do { h \<leftarrow> free_call p h; Some (0, h) }
   | Realloc p n \<Rightarrow> realloc_call p n h
   | Store a v \<Rightarrow> do { h \<leftarrow> st a v h; Some (0, h) })"

definition slots :: "(ptr \<times> nat) set \<Rightarrow> ptr set" where
  "slots A = {word_at x i | x i n. (x, n) \<in> A \<and> 8 * i + 8 \<le> n}"

definition request_ok :: "u64 \<Rightarrow> bool" where
  "request_ok n \<longleftrightarrow> n \<noteq> 0 \<and> unat n + 96 < 0x1F00000"

fun legal :: "heap_call \<Rightarrow> alloc_state \<Rightarrow> bool" where
  "legal (Malloc n) (A, m) \<longleftrightarrow> request_ok n"
| "legal (Free p) (A, m) \<longleftrightarrow> p \<in> fst ` A"
| "legal (Realloc p n) (A, m) \<longleftrightarrow> p \<in> fst ` A \<and> request_ok n"
| "legal (Store a v) (A, m) \<longleftrightarrow> a \<in> slots A"

definition others :: "ptr \<Rightarrow> (ptr \<times> nat) set \<Rightarrow> (ptr \<times> nat) set" where
  "others p A = {b \<in> A. fst b \<noteq> p}"

text \<open>The address an answer may have.\<close>

fun fresh_answer :: "heap_call \<Rightarrow> ptr \<Rightarrow> alloc_state \<Rightarrow> bool" where
  "fresh_answer (Malloc n) x (A, m) \<longleftrightarrow> x \<noteq> 0 \<and> x AND 7 = 0 \<and> span x (unat n) \<inter> words_of A = {}"
| "fresh_answer (Realloc p n) x (A, m) \<longleftrightarrow> x \<noteq> 0 \<and> x AND 7 = 0 \<and> span x (unat n) \<inter> words_of (others p A) = {}"
| "fresh_answer c x (A, m) \<longleftrightarrow> x = 0"

definition moved_words :: "ptr \<Rightarrow> ptr \<Rightarrow> nat \<Rightarrow> (ptr \<times> nat) set \<Rightarrow> (ptr \<rightharpoonup> u64) \<Rightarrow> ptr \<rightharpoonup> u64" where
  "moved_words p y k A m a = (if (a - y) AND 7 = 0 \<and> unat (a - y) + 8 \<le> k \<and> (\<exists>n. (p, n) \<in> A \<and> unat (a - y) + 8 \<le> n) then m (p + (a - y)) else None)"

fun alloc_spec :: "heap_call \<Rightarrow> ptr \<Rightarrow> alloc_state \<Rightarrow> alloc_state" where
  "alloc_spec (Malloc n) x (A, m) = (insert (x, unat n) A, m)"
| "alloc_spec (Free p) x (A, m) = (others p A, m |` slots (others p A))"
| "alloc_spec (Realloc p n) x (A, m) = (insert (x, unat n) (others p A), (m |` slots (others p A)) ++ moved_words p x (unat n) A m)"
| "alloc_spec (Store a v) x (A, m) = (A, m(a \<mapsto> v))"

text \<open>The blocks of the heap have room for those of the clients.\<close>

definition backs :: "(ptr \<times> nat) set \<Rightarrow> (ptr \<Rightarrow> nat) \<Rightarrow> (ptr \<times> nat) set \<Rightarrow> bool" where
  "backs L cap A \<longleftrightarrow> L = (\<lambda>b. (fst b, cap (fst b))) ` A \<and> (\<forall>(x, n) \<in> A. n \<le> cap x) \<and> inj_on fst A"

definition stored :: "mheap \<Rightarrow> alloc_state \<Rightarrow> bool" where
  "stored h a \<longleftrightarrow> dom (snd a) \<subseteq> slots (fst a) \<and> (\<forall>w v. snd a w = Some v \<longrightarrow> ld w h = Some v)"

definition serves :: "mheap \<Rightarrow> alloc_state \<Rightarrow> bool" where
  "serves h a \<longleftrightarrow> \<not> kh_lock h \<and> stored h a \<and> (\<exists>g cap. heap_ok g h \<and> backs (live g) cap (fst a))"

lemma backs_live: "backs L cap A \<Longrightarrow> (x, n) \<in> A \<Longrightarrow> (x, cap x) \<in> L \<and> n \<le> cap x"
proof -
  assume b: "backs L cap A" and x: "(x, n) \<in> A"
  have "(\<lambda>b. (fst b, cap (fst b))) (x, n) \<in> (\<lambda>b. (fst b, cap (fst b))) ` A" using x by (rule imageI)
  then show ?thesis using b x by (auto simp: backs_def)
qed

lemma slots_live: "backs (live g) cap A \<Longrightarrow> heap_ok g h \<Longrightarrow> slots A \<subseteq> words_of (live g)"
proof
  fix a assume b: "backs (live g) cap A" and ok: "heap_ok g h" and "a \<in> slots A"
  then obtain x i n where a: "a = word_at x i" "(x, n) \<in> A" "8 * i + 8 \<le> n" by (auto simp: slots_def)
  have x: "(x, cap x) \<in> live g" "n \<le> cap x" using backs_live [OF b a(2)] by blast+
  then have "8 * i < cap x" using a(3) by linarith
  then show "a \<in> words_of (live g)" using words_of_intro [OF x(1)] live_word(1) [OF ok x(1)] a(1) by blast
qed

lemma live_unique: "heap_ok g h \<Longrightarrow> (x, n) \<in> live g \<Longrightarrow> (x, m) \<in> live g \<Longrightarrow> n = m"
proof (rule ccontr)
  assume ok: "heap_ok g h" and x: "(x, n) \<in> live g" "(x, m) \<in> live g" and "n \<noteq> m"
  have "x \<in> span x n" "x \<in> span x m" using live_block(5) [OF ok] x by (auto simp: span_def)
  moreover have "span x n \<inter> span x m = {}" by (rule live_disjoint [of g h]) (use ok x \<open>n \<noteq> m\<close> in \<open>simp_all add: heap_ok_def\<close>)
  ultimately show False by blast
qed

lemma words_of_mono: "backs L cap A \<Longrightarrow> words_of A \<subseteq> words_of L"
proof
  fix a assume b: "backs L cap A" and "a \<in> words_of A"
  then obtain x n where x: "(x, n) \<in> A" "a \<in> span x n" by (auto simp: words_of_def)
  have "(x, cap x) \<in> L" "n \<le> cap x" using backs_live [OF b x(1)] by blast+
  then show "a \<in> words_of L" using x(2) by (intro words_of_intro [of x "cap x"]) (auto simp: span_def)
qed

lemma backs_insert:
  assumes b: "backs L cap A" and l: "live g' = insert (x, len) L" "(x, len) \<notin> L" and ok: "heap_ok g' h'" and n: "n \<le> len"
  shows "backs (live g') (cap(x := len)) (insert (x, n) A)" "x \<notin> fst ` A"
proof -
  show x: "x \<notin> fst ` A"
  proof
    assume "x \<in> fst ` A"
    then obtain k where "(x, k) \<in> A" by auto
    then have "(x, cap x) \<in> L" using backs_live [OF b] by blast
    then show False using live_unique [OF ok, of x len "cap x"] l by auto
  qed
  have "(\<lambda>b. (fst b, (cap(x := len)) (fst b))) ` A = (\<lambda>b. (fst b, cap (fst b))) ` A" by (rule image_cong) (use x in auto)
  moreover have "k \<le> (cap(x := len)) y" if "(y, k) \<in> A" for y k
  proof -
    have "y \<noteq> x" using x that by force
    then show ?thesis using backs_live [OF b that] by simp
  qed
  ultimately show "backs (live g') (cap(x := len)) (insert (x, n) A)" using b l n x by (auto simp: backs_def inj_on_def)
qed

lemma backs_remove:
  assumes b: "backs L cap A" and p: "p \<in> fst ` A"
  shows "backs (L - {(p, cap p)}) cap (others p A)"
proof -
  have "(\<lambda>b. (fst b, cap (fst b))) ` others p A = L - {(p, cap p)}" using b by (auto simp: backs_def others_def)
  then show ?thesis using b by (auto simp: backs_def others_def inj_on_def)
qed

lemma live_high:
  assumes ok: "heap_ok g h" and x: "(x, n) \<in> live g"
  shows "KERNEL_HEAP_START \<le> x"
proof -
  have l: "layout g h" and c: "chunks_ok g h" using ok by (simp_all add: heap_ok_def)
  obtain p d where p: "hv_chunk g p = Some d" "span x n \<subseteq> span p (chunk_len d)" using live_span [OF l c x] by metis
  have "x \<in> span x n" using live_block(5) [OF ok x] by (simp add: span_def)
  then have "unat p \<le> unat x" using p(2) by (auto simp: span_def)
  moreover have "KERNEL_HEAP_START \<le> p" using l p(1) by (auto simp: layout_def)
  ultimately show ?thesis by (simp add: word_le_nat_alt)
qed

lemma stored_keep:
  assumes st: "stored h (A, m)" and b: "backs (live g) cap A" "heap_ok g h" and same: "\<And>a. a \<in> words_of (live g) \<Longrightarrow> ld a h' = ld a h"
  shows "stored h' (insert (x, n) A, m)"
proof -
  have "ld w h' = Some v" if "m w = Some v" for w v
  proof -
    have "w \<in> slots A" "ld w h = Some v" using st that by (auto simp: stored_def)
    then show ?thesis using same slots_live [OF b] by force
  qed
  moreover have "slots A \<subseteq> slots (insert (x, n) A)" by (auto simp: slots_def)
  ultimately show ?thesis using st by (auto simp: stored_def)
qed

lemma stored_less:
  assumes st: "stored h (A, m)" and B: "B \<subseteq> A" and same: "\<And>a. a \<in> slots B \<Longrightarrow> ld a h' = ld a h"
  shows "stored h' (B, m |` slots B)"
  using st same by (auto simp: stored_def restrict_map_def split: if_splits)


section \<open>The calls implement it\<close>

lemma malloc_serves:
  assumes s: "serves h (A, m)" and n: "request_ok n" and r: "heap_room h"
  shows "\<exists>x h'. malloc_call n h = Some (x, h') \<and> fresh_answer (Malloc n) x (A, m) \<and> serves h' (alloc_spec (Malloc n) x (A, m))"
proof -
  obtain g cap where g: "heap_ok g h" "backs (live g) cap A" and lk: "\<not> kh_lock h" and st: "stored h (A, m)" using s by (auto simp: serves_def)
  let ?h = "h\<lparr>kh_lock := True\<rparr>"
  have n': "n \<noteq> 0" "unat n + 96 < 0x1F00000" and r': "heap_room ?h" using n r by (simp_all add: request_ok_def)
  obtain x h1 g' len where a: "klmalloc n ?h = Some (x, h1)" "allocated g ?h len x g' h1" "unat n \<le> len"
    using klmalloc_spec [OF heap_ok_lock [OF g(1)] n' r'] by blast
  let ?h' = "h1\<lparr>kh_lock := False\<rparr>"
  have l: "heap_ok g' h1" "live g' = insert (x, len) (live g)" "(x, len) \<notin> live g" and same: "\<And>a. a \<in> words_of (live g) \<Longrightarrow> ld a h1 = ld a h"
    using a(2) by (auto simp: allocated_def live_words_of ld_def)
  have x: "(x, len) \<in> live g'" using l(2) by simp
  note b = backs_insert [OF g(2) l(2,3,1) a(3)]
  have "stored ?h' (insert (x, unat n) A, m)" by (rule stored_keep [OF st g(2,1)]) (use same in \<open>simp add: ld_def\<close>)
  then have "serves ?h' (alloc_spec (Malloc n) x (A, m))" using b(1) heap_ok_lock [OF l(1)] by (auto simp: serves_def)
  moreover have "live g' - {(x, len)} = live g" using l(2,3) by auto
  then have "span x len \<inter> words_of (live g) = {}" using words_of_apart [OF l(1) x] by auto
  then have "span x (unat n) \<inter> words_of A = {}" using words_of_mono [OF g(2)] a(3) by (fastforce simp: span_def)
  then have "fresh_answer (Malloc n) x (A, m)" using live_block [OF l(1) x] by simp
  moreover have "malloc_call n h = Some (x, ?h')" using a(1) lk by (simp add: malloc_call_def locked_def)
  ultimately show ?thesis by blast
qed

lemma free_serves:
  assumes s: "serves h (A, m)" and p: "p \<in> fst ` A"
  shows "\<exists>h'. free_call p h = Some h' \<and> serves h' (alloc_spec (Free p) 0 (A, m))"
proof -
  obtain g cap where g: "heap_ok g h" "backs (live g) cap A" and lk: "\<not> kh_lock h" and st: "stored h (A, m)" using s by (auto simp: serves_def)
  let ?h = "h\<lparr>kh_lock := True\<rparr>"
  obtain n where "(p, n) \<in> A" using p by auto
  then have x: "(p, cap p) \<in> live g" using backs_live [OF g(2)] by blast
  obtain h1 g' where a: "klfree p ?h = Some h1" "released g ?h p (cap p) g' h1" using klfree_spec [OF heap_ok_lock [OF g(1)] x] by blast
  let ?h' = "h1\<lparr>kh_lock := False\<rparr>"
  have l: "heap_ok g' h1" "live g' = live g - {(p, cap p)}" and same: "\<And>a. a \<in> words_of (live g') \<Longrightarrow> ld a h1 = ld a h"
    using a(2) by (auto simp: released_def live_words_of ld_def)
  note b = backs_remove [OF g(2) p, folded l(2)]
  have "others p A \<subseteq> A" by (auto simp: others_def)
  then have "stored ?h' (others p A, m |` slots (others p A))"
    by (rule stored_less [OF st]) (use same slots_live [OF b l(1)] in \<open>auto simp: ld_def\<close>)
  then have "serves ?h' (alloc_spec (Free p) 0 (A, m))" using b heap_ok_lock [OF l(1)] by (auto simp: serves_def)
  moreover have "\<not> p < KERNEL_HEAP_START" using live_high [OF g(1) x] by simp
  ultimately show ?thesis using a(1) lk by (auto simp: free_call_def)
qed

lemma moved_word:
  assumes "moved_words p y k A m a = Some v"
  obtains i n where "a = word_at y i" "m (word_at p i) = Some v" "8 * i + 8 \<le> k" "(p, n) \<in> A" "8 * i + 8 \<le> n"
proof -
  have c: "(a - y) AND 7 = 0" "unat (a - y) + 8 \<le> k" "m (p + (a - y)) = Some v" using assms by (auto simp: moved_words_def split: if_splits)
  obtain n where n: "(p, n) \<in> A" "unat (a - y) + 8 \<le> n" using assms by (auto simp: moved_words_def split: if_splits)
  define i where "i = unat (a - y) div 8"
  have i: "unat (a - y) = 8 * i" using c(1) by (auto simp: aligned_unat i_def)
  have "a - y = of_nat (unat (a - y))" by simp
  then have d: "a - y = 8 * of_nat i" unfolding i by simp
  show ?thesis by (rule that [of i n]) (use c(2,3) n i in \<open>simp_all add: word_at_def flip: d\<close>)
qed

lemma realloc_serves:
  assumes s: "serves h (A, m)" and p: "p \<in> fst ` A" and n: "request_ok n" and r: "heap_room h"
  shows "\<exists>x h'. realloc_call p n h = Some (x, h') \<and> fresh_answer (Realloc p n) x (A, m) \<and> serves h' (alloc_spec (Realloc p n) x (A, m))"
proof -
  obtain g cap where g: "heap_ok g h" "backs (live g) cap A" and lk: "\<not> kh_lock h" and st: "stored h (A, m)" using s by (auto simp: serves_def)
  let ?h = "h\<lparr>kh_lock := True\<rparr>"
  have n': "n \<noteq> 0" "unat n + 96 < 0x1F00000" and r': "heap_room ?h" using n r by (simp_all add: request_ok_def)
  obtain k where "(p, k) \<in> A" using p by auto
  then have x: "(p, cap p) \<in> live g" using backs_live [OF g(2)] by blast
  let ?L = "live g - {(p, cap p)}"
  have ldh: "ld a ?h = ld a h" for a by (simp add: ld_def)
  obtain y h1 g' len where a: "klrealloc p n ?h = Some (y, h1)" and l: "heap_ok g' h1" "live g' = insert (y, len) ?L" "(y, len) \<notin> ?L" "unat n \<le> len"
    and mv: "\<And>i. 8 * i < cap p \<Longrightarrow> 8 * i < len \<Longrightarrow> ld (word_at y i) h1 = ld (word_at p i) h" and same: "\<And>a. a \<in> words_of ?L \<Longrightarrow> ld a h1 = ld a h"
    using klrealloc_spec [OF heap_ok_lock [OF g(1)] x n' r', unfolded ldh] by blast
  let ?h' = "h1\<lparr>kh_lock := False\<rparr>" and ?m = "(m |` slots (others p A)) ++ moved_words p y (unat n) A m"
  have y: "(y, len) \<in> live g'" using l(2) by simp
  note bo = backs_remove [OF g(2) p] and b = backs_insert(1) [OF backs_remove [OF g(2) p] l(2,3,1,4)]
  have sl: "slots (others p A) \<subseteq> words_of ?L"
  proof
    fix w assume "w \<in> slots (others p A)"
    then obtain z i j where z: "w = word_at z i" "(z, j) \<in> others p A" "8 * i + 8 \<le> j" by (auto simp: slots_def)
    then have zl: "(z, cap z) \<in> ?L" "j \<le> cap z" using backs_live [OF bo] by blast+
    then have "w \<in> span z (cap z)" using live_word(1) [OF g(1), of z "cap z" i] z(1,3) by auto
    then show "w \<in> words_of ?L" by (rule words_of_intro [OF zl(1)])
  qed
  have "ld w ?h' = Some v" if w: "?m w = Some v" for w v
  proof (cases "moved_words p y (unat n) A m w")
    case None
    then have "w \<in> slots (others p A)" "m w = Some v" using w by (auto simp: restrict_map_def map_add_def split: if_splits)
    then show ?thesis using same sl st by (auto simp: stored_def ld_def)
  next
    case (Some u)
    then have uv: "u = v" using w by (simp add: map_add_def)
    obtain i j where i: "w = word_at y i" "m (word_at p i) = Some v" "8 * i + 8 \<le> unat n" "(p, j) \<in> A" "8 * i + 8 \<le> j"
      using moved_word [OF Some] unfolding uv by metis
    have "8 * i < cap p" "8 * i < len" using i(3,5) l(4) backs_live [OF g(2) i(4)] by linarith+
    then have "ld w h1 = ld (word_at p i) h" using mv i(1) by simp
    then show ?thesis using st i(2) by (auto simp: stored_def ld_def)
  qed
  moreover have "dom ?m \<subseteq> slots (insert (y, unat n) (others p A))"
  proof
    fix w assume "w \<in> dom ?m"
    then consider v where "moved_words p y (unat n) A m w = Some v" | "w \<in> slots (others p A)" by (auto simp: restrict_map_def map_add_def split: if_splits option.splits)
    then show "w \<in> slots (insert (y, unat n) (others p A))"
    proof cases
      case 1
      then obtain i where "w = word_at y i" "8 * i + 8 \<le> unat n" using moved_word by metis
      then show ?thesis by (auto simp: slots_def)
    qed (auto simp: slots_def)
  qed
  ultimately have "stored ?h' (insert (y, unat n) (others p A), ?m)" by (simp add: stored_def)
  then have "serves ?h' (alloc_spec (Realloc p n) y (A, m))" using b heap_ok_lock [OF l(1)] by (auto simp: serves_def)
  moreover have "live g' - {(y, len)} = ?L" using l(2,3) by auto
  then have "span y len \<inter> words_of ?L = {}" using words_of_apart [OF l(1) y] by auto
  then have "span y (unat n) \<inter> words_of (others p A) = {}" using words_of_mono [OF bo] l(4) by (fastforce simp: span_def)
  then have "fresh_answer (Realloc p n) y (A, m)" using live_block [OF l(1) y] by simp
  moreover have "realloc_call p n h = Some (y, ?h')" using a lk by (simp add: realloc_call_def locked_def)
  ultimately show ?thesis by blast
qed

lemma store_serves:
  assumes s: "serves h (A, m)" and a: "a \<in> slots A"
  shows "\<exists>h'. st a v h = Some h' \<and> serves h' (alloc_spec (Store a v) 0 (A, m))"
proof -
  obtain g cap where g: "heap_ok g h" "backs (live g) cap A" and lk: "\<not> kh_lock h" and st: "stored h (A, m)" using s by (auto simp: serves_def)
  obtain x i n where x: "a = word_at x i" "(x, n) \<in> A" "8 * i + 8 \<le> n" using a by (auto simp: slots_def)
  have xl: "(x, cap x) \<in> live g" "n \<le> cap x" using backs_live [OF g(2) x(2)] by blast+
  then have "ld a h \<noteq> None" using live_word(3) [OF g(1) xl(1), of i] x(1,3) by auto
  then obtain h' where h': "st a v h = Some h'" "client_frame {a} h h'" "ld a h' = Some v" using client_frame_st by blast
  have "heap_ok g h'" using client_ok [OF g(1) h'(2)] slots_live [OF g(2,1)] a by (auto simp: live_words_of)
  moreover have "stored h' (A, m(a \<mapsto> v))" using st h'(2,3) a by (auto simp: stored_def client_frame_def)
  moreover have "\<not> kh_lock h'" using lk h'(2) by (simp add: client_frame_def small_frame_def)
  ultimately show ?thesis using g(2) h'(1) by (auto simp: serves_def)
qed


section \<open>Histories\<close>

text \<open>States of a machine whose calls are made as its specification allows, together with the states of the specification.\<close>

inductive machine_reach :: "('s \<Rightarrow> 'a \<Rightarrow> bool) \<Rightarrow> ('c \<Rightarrow> 's \<Rightarrow> ('r \<times> 's) option) \<Rightarrow> ('c \<Rightarrow> 'a \<Rightarrow> bool) \<Rightarrow> ('s \<Rightarrow> bool) \<Rightarrow> ('c \<Rightarrow> 'r \<Rightarrow> 'a \<Rightarrow> 'a) \<Rightarrow> 's \<Rightarrow> 'a \<Rightarrow> bool"
  for start call allowed ready spec where
  start: "start s a \<Longrightarrow> machine_reach start call allowed ready spec s a"
| call: "machine_reach start call allowed ready spec s a \<Longrightarrow> allowed c a \<Longrightarrow> ready s \<Longrightarrow> call c s = Some (r, s') \<Longrightarrow>
    machine_reach start call allowed ready spec s' (spec c r a)"

locale served_calls =
  fixes start :: "'s \<Rightarrow> 'a \<Rightarrow> bool" and call :: "'c \<Rightarrow> 's \<Rightarrow> ('r \<times> 's) option" and allowed :: "'c \<Rightarrow> 'a \<Rightarrow> bool" and ready :: "'s \<Rightarrow> bool"
    and spec :: "'c \<Rightarrow> 'r \<Rightarrow> 'a \<Rightarrow> 'a" and answer :: "'c \<Rightarrow> 'r \<Rightarrow> 'a \<Rightarrow> bool" and rel :: "'s \<Rightarrow> 'a \<Rightarrow> bool"
  assumes start_rel: "start s a \<Longrightarrow> rel s a"
    and call_rel: "rel s a \<Longrightarrow> allowed c a \<Longrightarrow> ready s \<Longrightarrow> \<exists>r s'. call c s = Some (r, s') \<and> answer c r a \<and> rel s' (spec c r a)"
begin

lemma reach_rel: "machine_reach start call allowed ready spec s a \<Longrightarrow> rel s a"
proof (induction rule: machine_reach.induct)
  case (call s a c r s')
  then show ?case using call_rel [of s a c] by auto
qed (rule start_rel)

lemma reach_progress:
  assumes "machine_reach start call allowed ready spec s a" "allowed c a" "ready s"
  shows "\<exists>r s'. call c s = Some (r, s') \<and> answer c r a \<and> machine_reach start call allowed ready spec s' (spec c r a)"
  using call_rel [OF reach_rel [OF assms(1)] assms(2,3)] machine_reach.call [OF assms] by blast

end

definition booted :: "mheap \<Rightarrow> alloc_state \<Rightarrow> bool" where
  "booted h a \<longleftrightarrow> (\<exists>start junk. h = boot_heap start junk \<and> paged start \<and> KERNEL_HEAP_START \<le> start) \<and> a = ({}, Map.empty)"

definition heap_reach :: "mheap \<Rightarrow> alloc_state \<Rightarrow> bool" where
  "heap_reach = machine_reach booted kheap_call legal (\<lambda>h. heap_room h) alloc_spec"

interpretation kh: served_calls booted kheap_call legal "\<lambda>h. heap_room h" alloc_spec fresh_answer serves
proof unfold_locales
  fix h :: mheap and a :: alloc_state assume "booted h a"
  then obtain start junk where b: "h = boot_heap start junk" "paged start" "KERNEL_HEAP_START \<le> start" "a = ({}, Map.empty)" by (auto simp: booted_def)
  have "heap_ok empty_view h" unfolding b(1) by (rule boot_heap_ok [OF b(2,3)])
  then show "serves h a" using b(1,4) live_empty by (auto simp: serves_def stored_def backs_def boot_heap_def)
next
  fix h :: mheap and a :: alloc_state and c assume s: "serves h a" and l: "legal c a" and r: "heap_room h"
  obtain A m where a: "a = (A, m)" by (cases a)
  show "\<exists>x h'. kheap_call c h = Some (x, h') \<and> fresh_answer c x a \<and> serves h' (alloc_spec c x a)"
  proof (cases c)
    case (Malloc n)
    then show ?thesis using malloc_serves [of h A m n] s l r a by (simp add: kheap_call_def)
  next
    case (Free p)
    then show ?thesis using free_serves [of h A m p] s l a by (auto simp: kheap_call_def)
  next
    case (Realloc p n)
    then show ?thesis using realloc_serves [of h A m p n] s l r a by (simp add: kheap_call_def)
  next
    case (Store w v)
    then show ?thesis using store_serves [of h A m w v] s l a by (auto simp: kheap_call_def)
  qed
qed

lemma serves_blocks:
  assumes "serves h (A, m)" "(x, n) \<in> A" "(y, k) \<in> A" "(x, n) \<noteq> (y, k)"
  shows "span x n \<inter> span y k = {}"
proof -
  obtain g cap where g: "heap_ok g h" "backs (live g) cap A" using assms(1) by (auto simp: serves_def)
  have b: "(x, cap x) \<in> live g" "n \<le> cap x" "(y, cap y) \<in> live g" "k \<le> cap y" using backs_live [OF g(2)] assms(2,3) by blast+
  have "inj_on fst A" using g(2) by (simp add: backs_def)
  then have "x \<noteq> y" using inj_onD [of fst A "(x, n)" "(y, k)"] assms(2-4) by auto
  then have "span x (cap x) \<inter> span y (cap y) = {}" using live_disjoint [OF _ b(1,3), of h] g(1) by (simp add: heap_ok_def)
  then show ?thesis using b(2,4) by (fastforce simp: span_def)
qed


section \<open>Properties\<close>

text \<open>A heap at its start, for examples.\<close>

definition first_heap :: mheap where
  "first_heap = boot_heap KERNEL_HEAP_START (\<lambda>a. 0)"

lemma first_heap_reach: "heap_reach first_heap ({}, Map.empty)"
proof -
  have "booted first_heap ({}, Map.empty)"
    unfolding booted_def first_heap_def by (intro conjI exI [of _ KERNEL_HEAP_START] exI [of _ "\<lambda>a. 0"]) (simp_all add: paged_unat KERNEL_HEAP_START_def)
  then show ?thesis unfolding heap_reach_def by (rule machine_reach.start)
qed

lemma first_heap_ok: "heap_ok empty_view first_heap"
  unfolding first_heap_def by (rule boot_heap_ok) (simp_all add: paged_unat KERNEL_HEAP_START_def)

lemma first_heap_room: "heap_room first_heap"
  by (simp add: first_heap_def boot_heap_def KERNEL_HEAP_START_def)

text \<open>Property C2: over every history of \<open>malloc\<close>, \<open>free\<close>, \<open>realloc\<close> and writes of clients into their blocks, starting at boot, the next call that is made as
  intended returns: no assertion fails, no memory outside of the heap is touched and no loop runs forever.  The answer of \<open>malloc\<close> and \<open>realloc\<close> is an
  aligned block of the size that was asked for which overlaps no block in use, and the heap it leaves again stands for the state the specification gives.\<close>

theorem heap_history_refines:
  assumes "heap_reach h (A, m)" "legal c (A, m)" "unat (kh_heap_start h) + 0x1F00000 < 2 ^ 64"
  shows "\<exists>x h'. kheap_call c h = Some (x, h') \<and> fresh_answer c x (A, m) \<and> heap_reach h' (alloc_spec c x (A, m))"
  using kh.reach_progress [of h "(A, m)" c] assms unfolding heap_reach_def by simp

theorem heap_history_refines_witness:
  "heap_reach first_heap ({}, Map.empty) \<and> legal (Malloc 24) ({}, Map.empty) \<and>
   (\<exists>x h'. kheap_call (Malloc 24) first_heap = Some (x, h') \<and> fresh_answer (Malloc 24) x ({}, Map.empty) \<and> heap_reach h' (alloc_spec (Malloc 24) x ({}, Map.empty)))"
  using heap_history_refines [OF first_heap_reach, of "Malloc 24"] first_heap_reach first_heap_room by (simp add: request_ok_def)

text \<open>Property C6: in every state of the heap that a history of such calls leads to, two blocks in use have no byte in common, and every word that a client
  has stored in a block it still holds, also one that \<open>realloc\<close> has moved, is there to be read.\<close>

theorem heap_blocks_intact:
  assumes "heap_reach h (A, m)"
  shows "(\<forall>(x, n) \<in> A. \<forall>(y, k) \<in> A. (x, n) \<noteq> (y, k) \<longrightarrow> span x n \<inter> span y k = {}) \<and> (\<forall>w v. m w = Some v \<longrightarrow> ld w h = Some v)"
proof -
  have s: "serves h (A, m)" using kh.reach_rel assms unfolding heap_reach_def by blast
  then have "m w = Some v \<Longrightarrow> ld w h = Some v" for w v by (auto simp: serves_def stored_def)
  then show ?thesis using serves_blocks [OF s] by blast
qed

lemma bin_size_24: "klmalloc_bin_size 24 = 2"
  by code_simp

lemma first_malloc_room: "kheap_call (Malloc 24) first_heap = Some (x, h) \<Longrightarrow> heap_room h"
proof -
  assume m: "kheap_call (Malloc 24) first_heap = Some (x, h)"
  let ?h = "first_heap\<lparr>kh_lock := True\<rparr>"
  have ok: "heap_ok empty_view ?h" by (rule heap_ok_lock [OF first_heap_ok])
  have hs: "kh_heap_start ?h = KERNEL_HEAP_START" by (simp add: first_heap_def boot_heap_def)
  have rm: "unat (kh_heap_start ?h) + 4096 < 2 ^ 64" unfolding hs by (simp add: KERNEL_HEAP_START_def)
  obtain h1 g1 y fs where n: "new_page 2 ?h = Some (kh_heap_start ?h, h1)" "heap_ok g1 h1" "hv_chunk g1 (kh_heap_start ?h) = Some (Cells 2 (y # fs))"
      "hv_pages g1 2 = [kh_heap_start ?h]" "kh_heap_start h1 = kh_heap_start ?h + 0x1000"
    by (rule new_page_spec [OF ok _ _ rm, of 2]) (simp_all add: empty_view_def)
  obtain h2 where t: "take_cell 2 (kh_heap_start ?h) h1 = Some (y, h2)" "small_frame h1 h2" using take_cell_spec [OF n(2-4)] by blast
  have "klmalloc 24 ?h = malloc_small 2 ?h" by (simp add: klmalloc_def bin_size_24 BIG_BIN_def NUM_BINS_def)
  moreover have "klmalloc_list_head 2 ?h = 0" by (simp add: klmalloc_list_head_def first_heap_def boot_heap_def)
  ultimately have "klmalloc 24 ?h = Some (y, h2)" using n(1) t(1) by (simp add: malloc_small_take)
  then have "kheap_call (Malloc 24) first_heap = Some (y, h2\<lparr>kh_lock := False\<rparr>)"
    by (simp add: kheap_call_def malloc_call_def locked_def) (simp add: first_heap_def boot_heap_def)
  then have "kh_heap_start h = KERNEL_HEAP_START + 0x1000" using m t(2) n(5) hs by (auto simp: small_frame_def)
  then show ?thesis by (simp add: KERNEL_HEAP_START_def)
qed

lemma first_store: "\<exists>x h. heap_reach h ({(x, 24)}, [x \<mapsto> 7])"
proof -
  obtain x h where h: "kheap_call (Malloc 24) first_heap = Some (x, h)" "heap_reach h ({(x, 24)}, Map.empty)"
    using kh.reach_progress [of first_heap "({}, Map.empty)" "Malloc 24"] first_heap_reach first_heap_room by (auto simp: heap_reach_def request_ok_def)
  have "x \<in> slots {(x, 24)}" by (auto simp: slots_def intro!: exI [of _ "0 :: nat"])
  then obtain r h' where "heap_reach h' (alloc_spec (Store x 7) r ({(x, 24)}, Map.empty))"
    using kh.reach_progress [of h "({(x, 24)}, Map.empty)" "Store x 7"] h(2) first_malloc_room [OF h(1)] by (auto simp: heap_reach_def)
  then show ?thesis by auto
qed

theorem heap_blocks_intact_witness: "\<exists>x h. heap_reach h ({(x, 24)}, [x \<mapsto> 7]) \<and> ld x h = Some 7"
proof -
  obtain x h where r: "heap_reach h ({(x, 24)}, [x \<mapsto> 7])" using first_store by blast
  have "ld x h = Some 7" using heap_blocks_intact [OF r] by simp
  then show ?thesis using r by blast
qed

text \<open>Property C37: for a request of at least one byte: if it has a bin, the cells of the bin are large enough; in every bin but the smallest, that of requests of
  up to 8 bytes, the cells are less than twice as large as the request; and a request that has no bin is larger than half a page.\<close>

theorem bin_size_fits:
  assumes "w \<noteq> 0"
  shows "unat (klmalloc_bin_size w) \<le> 9 \<and> (unat (klmalloc_bin_size w) < 9 \<longrightarrow> unat w \<le> 2 ^ (3 + unat (klmalloc_bin_size w))) \<and>
    (0 < unat (klmalloc_bin_size w) \<longrightarrow> 2 ^ (2 + unat (klmalloc_bin_size w)) < unat w)"
  using bin_size_spec [OF assms] by simp

theorem bin_size_fits_witness:
  "(24 :: u64) \<noteq> 0 \<and> unat (klmalloc_bin_size 24) = 2 \<and> unat (24 :: u64) \<le> 2 ^ (3 + unat (klmalloc_bin_size 24)) \<and> 2 ^ (2 + unat (klmalloc_bin_size 24)) < unat (24 :: u64)"
  using bin_size_fits [of 24] by (simp add: bin_size_24)

text \<open>Property C38: \<open>valloc\<close> gives an address at the start of a page with at least the bytes that were asked for behind it, all inside of one block that
  overlaps no other, and \<open>free\<close> of that address gives the block back.\<close>

theorem valloc_free_roundtrip:
  assumes "heap_ok g h" "unat n + 4096 < 0x1F00000" "unat (kh_heap_start h) + 0x1F00000 < 2 ^ 64"
  shows "\<exists>p h' g' x len. klvalloc n h = Some (p, h') \<and> p mod 0x1000 = 0 \<and> allocated g h len x g' h' \<and> unat x + 4000 = unat p \<and> unat p + unat n \<le> unat x + len \<and>
    (\<exists>h'' g''. klfree p h' = Some h'' \<and> heap_ok g'' h'' \<and> live g'' = live g)"
proof -
  obtain x h' g' len h'' g'' where v: "klvalloc n h = Some (x + 4000, h')" "x + 4000 \<noteq> 0" "paged (x + 4000)" "allocated g h len x g' h'" "unat n + 4000 \<le> len"
      "klfree (x + 4000) h' = Some h''" "released g' h' x len g'' h''" using klvalloc_spec [OF assms] by blast
  have l: "heap_ok g' h'" "live g' = insert (x, len) (live g)" "(x, len) \<notin> live g" using v(4) by (simp_all add: allocated_def)
  have "unat x + len < 2 ^ 64" using live_block(3) [OF l(1), of x len] l(2) by simp
  then have u: "unat (x + 4000) = unat x + 4000" using v(5) by (simp add: unat_word_ariths)
  moreover have "heap_ok g'' h''" "live g'' = live g" using v(7) l(2,3) by (auto simp: released_def)
  ultimately have "klvalloc n h = Some (x + 4000, h') \<and> (x + 4000) mod 0x1000 = 0 \<and> allocated g h len x g' h' \<and> unat x + 4000 = unat (x + 4000) \<and>
      unat (x + 4000) + unat n \<le> unat x + len \<and> (\<exists>h'' g''. klfree (x + 4000) h' = Some h'' \<and> heap_ok g'' h'' \<and> live g'' = live g)"
    using v unfolding paged_def by auto
  then show ?thesis by - (rule exI)+
qed

theorem valloc_free_roundtrip_witness:
  "heap_ok empty_view first_heap \<and> (\<exists>p h' g' x len. klvalloc 4096 first_heap = Some (p, h') \<and> p mod 0x1000 = 0 \<and> allocated empty_view first_heap len x g' h' \<and>
     unat x + 4000 = unat p \<and> unat p + unat (4096 :: u64) \<le> unat x + len \<and> (\<exists>h'' g''. klfree p h' = Some h'' \<and> heap_ok g'' h'' \<and> live g'' = live empty_view))"
proof -
  have "unat (4096 :: u64) + 4096 < 0x1F00000" by simp
  from valloc_free_roundtrip [OF first_heap_ok this first_heap_room] show ?thesis using first_heap_ok by blast
qed

text \<open>Property C39: \<open>calloc\<close> clears every byte of the block it returns when the product of its arguments fits, and every other block stays as it is.\<close>

theorem calloc_clears:
  assumes "heap_ok g h" "unat nmemb * unat sz + 96 < 0x1F00000" "nmemb \<noteq> 0" "sz \<noteq> 0" "unat (kh_heap_start h) + 0x1F00000 < 2 ^ 64"
  shows "\<exists>x h' g' n. klcalloc nmemb sz h = Some (x, h') \<and> allocated g h n x g' h' \<and> unat nmemb * unat sz \<le> n \<and>
    (\<forall>i. 8 * i < unat nmemb * unat sz \<longrightarrow> (\<exists>w. ld (word_at x i) h' = Some w \<and> take_bit (8 * (unat nmemb * unat sz - 8 * i)) w = 0))"
proof -
  have u: "unat (nmemb * sz) = unat nmemb * unat sz" using assms(2) by (simp add: unat_word_ariths)
  have "unat nmemb \<noteq> 0" "unat sz \<noteq> 0" using assms(3,4) by (metis unsigned_eq_0_iff)+
  then have "unat (nmemb * sz) \<noteq> 0" unfolding u by simp
  then have "nmemb * sz \<noteq> 0" by (metis unsigned_0)
  from klcalloc_spec [OF assms(1) this _ assms(5)] assms(2) show ?thesis unfolding u by blast
qed

theorem calloc_clears_witness:
  "heap_ok empty_view first_heap \<and> (\<exists>x h'. klcalloc 3 5 first_heap = Some (x, h') \<and> ld x h' = Some 0 \<and> (\<exists>w. ld (x + 8) h' = Some w \<and> take_bit 56 w = 0))"
proof -
  have "unat (3 :: u64) * unat (5 :: u64) + 96 < 0x1F00000" "(3 :: u64) \<noteq> 0" "(5 :: u64) \<noteq> 0" by simp_all
  from calloc_clears [OF first_heap_ok this first_heap_room] obtain x h' where r: "klcalloc 3 5 first_heap = Some (x, h')"
      "\<And>i. 8 * i < 15 \<Longrightarrow> \<exists>w. ld (word_at x i) h' = Some w \<and> take_bit (8 * (15 - 8 * i)) w = 0" by auto
  have "ld x h' = Some 0" using r(2) [of 0] by (auto simp: take_bit_word_eq_self)
  moreover have "\<exists>w. ld (x + 8) h' = Some w \<and> take_bit 56 w = 0" using r(2) [of 1] by (simp add: word_at_def)
  ultimately show ?thesis using r(1) first_heap_ok by blast
qed

text \<open>The product of the arguments of \<open>calloc\<close> wraps around.\<close>

lemma calloc_overflow:
  assumes "heap_ok g h" "unat (kh_heap_start h) + 0x1F00000 < 2 ^ 64"
  shows "\<exists>x h' g'. klcalloc 0x2000000000000001 8 h = Some (x, h') \<and> allocated g h 8 x g' h'"
proof -
  have k: "(0x2000000000000001 * 8 :: u64) = 8" by simp
  have "unat (klmalloc_bin_size 8) = 0"
  proof (rule ccontr)
    assume "unat (klmalloc_bin_size 8) \<noteq> 0"
    then have "2 ^ (2 + unat (klmalloc_bin_size 8)) < (8 :: nat)" using bin_size_spec(3) [of 8] by simp
    moreover have "(2 :: nat) ^ 3 \<le> 2 ^ (2 + unat (klmalloc_bin_size 8))" by (rule power_increasing) (use \<open>unat (klmalloc_bin_size 8) \<noteq> 0\<close> in simp_all)
    ultimately show False by simp
  qed
  then have b: "klmalloc_bin_size 8 = 0" by (metis unsigned_eq_0_iff)
  have "klmalloc 8 h = malloc_small 0 h" by (simp add: klmalloc_def b BIG_BIN_def NUM_BINS_def)
  then obtain x h1 g1 where "klmalloc 8 h = Some (x, h1)" "allocated g h 8 x g1 h1"
    using malloc_small_spec [OF assms(1), of 0] assms(2) by auto
  then show ?thesis using klcalloc_run [of "0x2000000000000001" 8 h x h1 g 8 g1, unfolded k] by auto
qed

text \<open>Property C40: a request so large that the size of the header makes it wrap around is not refused: \<open>malloc\<close> returns a block of 4000 bytes.\<close>

theorem malloc_huge_wraps:
  assumes "heap_ok g h" "unat (kh_heap_start h) + 0x1F00000 < 2 ^ 64" "n \<ge> 0xFFFFFFFFFFFFFFA0"
  shows "\<exists>x h' g'. klmalloc n h = Some (x, h') \<and> allocated g h 4000 x g' h'"
proof -
  have l: "layout g h" and c: "chunks_ok g h" and bl: "frees_ok g h" using assms(1) by (simp_all add: heap_ok_def)
  have sk: "skip_ok h (hv_free g) (hv_level g)" using bl by (simp add: frees_ok_def)
  have "block_size h y < n" if y: "y \<in> set (hv_free g)" for y
  proof -
    obtain s where s: "hv_chunk g y = Some (Block s)" using bl y by (auto simp: frees_ok_def)
    have d: "ld (f_size y) h = Some (of_nat s)" "4000 \<le> s" using chunks_okD [OF c s] by simp_all
    have "unat (block_size h y) = s" using block_bounds(1) [OF l s d(2)] d(1) by (simp add: block_size_def)
    moreover have "unat y + (s + 96) \<le> unat (kh_heap_start h)" using layoutD(3) [OF l s] by simp
    moreover have "unat KERNEL_HEAP_START \<le> unat y" using l s by (auto simp: layout_def word_le_nat_alt)
    ultimately show ?thesis using assms(2,3) by (simp add: word_less_nat_alt word_le_nat_alt KERNEL_HEAP_START_def)
  qed
  then have none: "beyond h n (hv_free g) = []" by (simp add: beyond_def)
  have n0: "n \<noteq> 0" using assms(3) by auto
  have big: "\<not> klmalloc_bin_size n < BIG_BIN"
  proof
    assume "klmalloc_bin_size n < BIG_BIN"
    then have b: "unat (klmalloc_bin_size n) < 9" by (simp add: BIG_BIN_def NUM_BINS_def word_less_nat_alt)
    then have "(2 :: nat) ^ (3 + unat (klmalloc_bin_size n)) \<le> 2 ^ 11" by (intro power_increasing) simp_all
    then show False using bin_size_spec(2) [OF n0 b] assms(3) by (simp add: word_le_nat_alt)
  qed
  have "unat n < 2 ^ 64" using unsigned_less [of n] by simp
  moreover have "2 ^ 64 - 96 \<le> unat n" using assms(3) by (simp add: word_le_nat_alt)
  ultimately have "(unat n + 96) mod 2 ^ 64 < 96" by (simp add: le_mod_geq)
  then have "unat (n + 96) < 96" by (simp add: unat_word_ariths)
  then have "(n + 96) div 0x1000 = 0" by (simp add: word_unat_eq_iff unat_div_distrib)
  then have "0x1000 * ((n + 96) div 0x1000 + 1) = of_nat 4096" "((n + 96) div 0x1000 + 1) * 0x1000 - 96 = of_nat (4096 - 96)" by simp_all
  from new_block_spec [OF assms(1,2) this] obtain h' g' where "new_block n h = Some (kh_heap_start h + 96, h')" "allocated g h 4000 (kh_heap_start h + 96) g' h'" by auto
  then show ?thesis using n0 big findbest_spec [OF sk, of n] none by (auto simp: klmalloc_def malloc_big_def Let_def)
qed

theorem malloc_huge_wraps_witness:
  "heap_ok empty_view first_heap \<and> (\<exists>x h' g'. klmalloc 0xFFFFFFFFFFFFFFFF first_heap = Some (x, h') \<and> allocated empty_view first_heap 4000 x g' h')"
  using malloc_huge_wraps [OF first_heap_ok first_heap_room, of "0xFFFFFFFFFFFFFFFF"] first_heap_ok by simp

text \<open>\<open>free\<close> of a null pointer and \<open>realloc\<close> to no bytes never return, whatever the state of the heap: the former stops in a loop, the latter waits
  for the lock that it holds.\<close>

lemma free_null_hangs: "free_call 0 h = None"
  by (simp add: free_call_def KERNEL_HEAP_START_def)

lemma realloc_zero_hangs: "p \<noteq> 0 \<Longrightarrow> realloc_call p 0 h = None"
  by (simp add: realloc_call_def locked_def klrealloc_def free_call_def)

end
