(* ===== verification/Spec2Isabelle.thy ===== *)
theory Spec2Isabelle
  imports Kernel_Args Kprintf Kernel_List Kernel_Hashmap Kernel_Tree Gzip_Stream Pipes Tty Vfs_Path Tmpfs_Dir Fd_Table Signals Mutex Shm Net_Eth Heap_Spec
begin

text \<open>
  Verification development for the core of the linAIx kernel (the C code under \<open>src/kernel/\<close>).

  \<^bold>\<open>The program.\<close>  linAIx is a small Unix-like operating system.  Its kernel is a set of C
  components that call each other directly and share memory: libraries of strings, lists, trees and hash
  maps (\<open>kernel/misc\<close>); processes, scheduling, signals, mutexes and shared memory (\<open>kernel/sys\<close>); and the
  virtual file system with its pipes, terminals and the memory file system (\<open>kernel/vfs\<close>).  A system
  call looks a descriptor up in the table of the process, the descriptor leads to a node, and the
  callbacks of the node belong to a pipe, a terminal or a file system.  Operations that wait put the
  process on a wait queue and switch to another one; signals, timers and other processes wake it up.

  \<^bold>\<open>How the code is modelled.\<close>  The theories are a shallow embedding.
  \<^item> Integers are words of the width of the C type, so that wrap-around is visible; a pointer is a 64-bit
    word and \<open>NULL\<close> is zero.  A C string is the list of its bytes before the terminator.
  \<^item> A struct is a \<^theory_text>\<open>record\<close> with one field per member; an object that code reaches by several pointers
    lives in an explicit store, a map from addresses to records.
  \<^item> An operation is a function from a state to the result and the next state.  A run that dereferences an
    invalid address, divides by zero, overruns a buffer, exhausts a supply or never returns has the value
    \<^term>\<open>None\<close>; the error codes that a C function returns are values.  A theorem that an operation
    returns says so: it gives the value \<^term>\<open>Some\<close>.
  \<^item> \<open>malloc\<close> and the frame allocator are supplies, lists of fresh addresses or frames in the state; a theorem asks
    for as many as the operation takes.  Time, the identity of the running process and what other
    processes do while one sleeps are arguments: a list of events is consumed while it waits.
  \<^item> A lock that is held over a whole operation is modelled by the atomicity of the operation.  Where the code
    releases a lock in the middle, the sections are definitions of their own and the interleaving is
    modelled (\<open>Mutex\<close>, the creation of directory entries in \<open>Tmpfs_Dir\<close>).
  \<^item> Loops are recursive functions with termination proofs.  Loops that may run for ever are
    \<^theory_text>\<open>partial_function\<close>s in the option monad (\<open>list_copy\<close>, the loop of \<open>kopen\<close>, the search for ancestors in
    \<open>rename_tmpfs\<close>), or consume the list of events; no fuel is used elsewhere.

  \<^bold>\<open>Theories.\<close>
  \<^descr> \<open>Kernel_Prelude\<close>: the types of the model, the collection \<open>fault_simps\<close> for runs in the option monad, and lemmas
    on lists and words that the components share.
  \<^descr> \<open>Kernel_String\<close> (\<open>kernel/misc/string.c\<close>, \<open>tokenize.c\<close>): \<open>memcpy\<close>, \<open>memmove\<close>, \<open>memset\<close>, the searches that read a word at a
    time, and tokenizing.  The locale \<open>word_scan\<close> holds the argument of the word loops once; the
    lemmas show that the optimised routines equal their byte-wise specifications.
  \<^descr> \<open>Kernel_Args\<close> (\<open>kernel/misc/args.c\<close>): parsing of the command line, with a printer and the round trip.
  \<^descr> \<open>Kernel_List\<close> (\<open>kernel/misc/list.c\<close>): doubly linked lists on the level of pointers.  \<open>dll\<close> relates a heap to
    the sequence of nodes; each operation refines the operation on sequences and frames the rest of the heap.
    The locale \<open>node_queues\<close> is what the clients of queues rely on.
  \<^descr> \<open>Kernel_Hashmap\<close> (\<open>kernel/misc/hashmap.c\<close>): the chained table refines a finite map; locale \<open>kernel_map\<close>.
  \<^descr> \<open>Kernel_Tree\<close> (\<open>kernel/misc/tree.c\<close>): trees with parent links, as used for mounts, shared memory and processes;
    removal keeps the invariant and the members.
  \<^descr> \<open>Byte_Ring\<close>, \<open>Ring_Buffer\<close>, \<open>Pipes\<close> (\<open>kernel/misc/ringbuffer.c\<close>, \<open>kernel/vfs/unixpipe.c\<close>, \<open>kernel/vfs/pipe.c\<close>): the locale
    \<open>byte_ring\<close> has the arithmetic of a circular buffer and is interpreted for both buffers.  Shown are
    first-in-first-out delivery over every history, progress of blocked writers, end of file, broken pipes
    and the atomicity of requests.
  \<^descr> \<open>Vfs_Node\<close>, \<open>Vfs_Path\<close> (\<open>kernel/vfs/vfs.c\<close>): nodes, reference counts and permissions; canonical paths, the tree of
    mounts and \<open>kopen\<close>.  The locale \<open>path_table\<close> states mounting as updates of a table of paths.
  \<^descr> \<open>Tmpfs_File\<close>, \<open>Tmpfs_Dir\<close> (\<open>kernel/vfs/tmpfs.c\<close>): files as sequences of frames, with reading, writing and truncating
    against the sequence of bytes they stand for; directories, which refine finite maps over every
    history of requests (locale \<open>request_machine\<close>); renaming.
  \<^descr> \<open>Fd_Table\<close> (\<open>kernel/sys/process.c\<close>): descriptor tables, duplication, moving and release, with the reference counts of
    the nodes.
  \<^descr> \<open>Scheduler\<close> (\<open>kernel/sys/process.c\<close>): the ready queue, wait queues, sleepers, the choice of the next process and
    \<open>waitpid\<close>.
  \<^descr> \<open>Signals\<close> (\<open>kernel/sys/signal.c\<close>, \<open>ptrace_signal\<close>): sending, blocking, delivery, and waiting for signals.
  \<^descr> \<open>Mutex\<close> (\<open>kernel/sys/mutex.c\<close>): a step relation for any number of processes; mutual exclusion and progress.
  \<^descr> \<open>Shm\<close> (\<open>kernel/sys/shm.c\<close>): named chunks, the search for an address range, sharing and release.
  \<^descr> \<open>Gzip\<close>, \<open>Gzip_Stream\<close> (\<open>kernel/misc/gzip.c\<close>): the bit reader, canonical Huffman tables, the window and the kinds of
    blocks; every file that is encoded as RFC 1951 and RFC 1952 say decompresses to its data.
  \<^descr> \<open>Kprintf\<close> (\<open>kernel/misc/kprintf.c\<close>): number printing, the conversions of \<open>xvasprintf\<close> and the bounded buffer of
    \<open>snprintf\<close>; numbers read back as the values printed, and a buffer of at least two bytes gets the part that fits.
  \<^descr> \<open>Tty_Line\<close>, \<open>Tty\<close> (\<open>kernel/vfs/tty.c\<close>): the line discipline of terminals as a refinement of a step on plain lists, what the
    screen shows while a line is edited, the two ends over the ring buffers, the requests and the directory of terminals.
  \<^descr> \<open>Net_Packet\<close>, \<open>Net_Core\<close>, \<open>Net_Ipv4\<close>, \<open>Tcp_Stream\<close>, \<open>Net_Eth\<close> (\<open>kernel/net\<close>): packets as bytes and their
    checksums; sockets, interfaces and address resolution over device drivers that are a parameter; ICMP, UDP and TCP; frames, the loopback device and the socket calls.
    Streams over TCP are delivered in order and acknowledged whatever happens to the segments, as long as their numbers do not
    wrap around, and a datagram to the own machine reaches the socket that has bound its port.
  \<^descr> \<open>Heap_Skip\<close>, \<open>Kernel_Heap\<close>, \<open>Heap_Inv\<close>, \<open>Heap_Small\<close>, \<open>Heap_Big\<close>, \<open>Heap_Calls\<close>, \<open>Heap_Spec\<close> (\<open>kernel/misc/malloc.c\<close>): the kernel heap over a memory
    of words: the skip list of free blocks, the pages of cells, the calls, the invariant of the heap that each of them keeps, and the
    allocator as its clients see it, which the calls implement over every history (locale \<open>served_calls\<close>).

  \<^bold>\<open>Findings.\<close>  Where the code does not do what it means to, the theorem states what it does: for
  instance \<open>list_copy\<close> never returns, \<open>read_tmpfs\<close> faults past the end of a file, two renames
  make a cycle of directories, an awaited signal above 31 does not wake its process, and \<open>kopen\<close> with
  \<open>O_NOFOLLOW\<close> refuses a link in the place before the last and follows one in the last place.

  \<^bold>\<open>Not modelled.\<close>  Code that talks to hardware (the architecture directories, PCI, sound, video, the small
  devices), the loader and the page tables, \<open>procfs\<close>, \<open>tarfs\<close> and \<open>packetfs\<close>, the dispatch of system calls, and everything in user space.  Caches, memory ordering and the
  timing of interrupts are below the level of the model.
\<close>

end
